(* ===== verification/Rt_Prelude.thy ===== *)
theory Rt_Prelude
  imports Main "HOL-Library.Word" "HOL-Library.Monad_Syntax"
begin

unbundle bit_operations_syntax

text \<open>
  Shared vocabulary of the development: the machine integer types of
  \<^verbatim>\<open>rt-thread/include/rtdef.h\<close>, the error codes, the assertion macro, the collections of
  rewrite rules that the component theories extend, and the generic lemmas on words, bits and
  the option monad that their proofs share.

  A kernel function that can fail to return (\<^verbatim>\<open>RT_ASSERT\<close> enters the endless loop of
  \<^verbatim>\<open>rt_assert_handler\<close>; a garbage pointer is followed) has a result of type \<open>'a option\<close>, where
  \<open>None\<close> means that control does not come back to the caller with a defined kernel state.
\<close>

named_theorems kdefs \<open>definitions of the straight-line kernel primitives\<close>
named_theorems store_simps \<open>rewrite rules of the list store\<close>
named_theorems sched_pres \<open>preservation of the scheduler invariant\<close>

section \<open>Integer types and error codes\<close>

type_synonym rt_uint8 = "8 word"
type_synonym rt_uint16 = "16 word"
type_synonym rt_uint32 = "32 word"
type_synonym rt_tick = "32 word"
type_synonym rt_err = int

abbreviation (input) RT_EOK :: rt_err where "RT_EOK \<equiv> 0"
abbreviation (input) RT_ERROR :: rt_err where "RT_ERROR \<equiv> 1"
abbreviation (input) RT_ETIMEOUT :: rt_err where "RT_ETIMEOUT \<equiv> 2"
abbreviation (input) RT_EFULL :: rt_err where "RT_EFULL \<equiv> 3"
abbreviation (input) RT_EEMPTY :: rt_err where "RT_EEMPTY \<equiv> 4"
abbreviation (input) RT_ENOMEM :: rt_err where "RT_ENOMEM \<equiv> 5"
abbreviation (input) RT_ENOSYS :: rt_err where "RT_ENOSYS \<equiv> 6"
abbreviation (input) RT_EBUSY :: rt_err where "RT_EBUSY \<equiv> 7"
abbreviation (input) RT_EIO :: rt_err where "RT_EIO \<equiv> 8"

definition RT_TICK_MAX :: rt_tick where
  "RT_TICK_MAX = 0xffffffff"

text \<open>\<open>RT_TICK_MAX / 2\<close>, the width of the window in which wrapped tick differences are compared.\<close>

definition RT_TICK_HALF :: rt_tick where
  "RT_TICK_HALF = RT_TICK_MAX div 2"

lemma RT_TICK_HALF_num: "RT_TICK_HALF = 0x7fffffff"
  by (simp add: RT_TICK_HALF_def RT_TICK_MAX_def)

text \<open>\<^verbatim>\<open>RT_ALIGN\<close> and \<^verbatim>\<open>RT_ALIGN_DOWN\<close>.\<close>

definition RT_ALIGN :: "rt_uint32 \<Rightarrow> rt_uint32 \<Rightarrow> rt_uint32" where
  "RT_ALIGN sz align = (sz + align - 1) AND NOT (align - 1)"

definition RT_ALIGN_DOWN :: "rt_uint32 \<Rightarrow> rt_uint32 \<Rightarrow> rt_uint32" where
  "RT_ALIGN_DOWN sz align = sz AND NOT (align - 1)"

definition RT_ALIGN_SIZE :: rt_uint32 where "RT_ALIGN_SIZE = 4"

lemma align_down_le: "unat (RT_ALIGN_DOWN sz align) \<le> unat sz"
  by (simp add: RT_ALIGN_DOWN_def flip: word_le_nat_alt) (rule word_and_le2)

section \<open>Assertions and the option monad\<close>

definition RT_ASSERT :: "bool \<Rightarrow> unit option" where
  "RT_ASSERT b = (if b then Some () else None)"

lemma RT_ASSERT_bind [simp]: "Option.bind (RT_ASSERT b) f = (if b then f () else None)"
  by (simp add: RT_ASSERT_def)

lemma RT_ASSERT_eq_Some [simp]: "RT_ASSERT b = Some u \<longleftrightarrow> b"
  by (simp add: RT_ASSERT_def)

lemma bind_SomeE:
  assumes "Option.bind m f = Some y"
  obtains x where "m = Some x" and "f x = Some y"
  using assms by (cases m) auto

section \<open>Bits of words\<close>

lemma bit_set_mask:
  fixes g :: "'a::len word"
  shows "n < LENGTH('a) \<Longrightarrow> bit (g OR 2 ^ n) m \<longleftrightarrow> m = n \<or> bit g m"
  by (auto simp: bit_simps)

lemma bit_clear_mask:
  fixes g :: "'a::len word"
  shows "n < LENGTH('a) \<Longrightarrow> bit (g AND NOT (2 ^ n)) m \<longleftrightarrow> m \<noteq> n \<and> bit g m"
  by (auto simp: bit_simps dest: bit_imp_le_length)

section \<open>Wrapped tick arithmetic\<close>

text \<open>
  Ticks are compared through the unsigned difference: \<open>a - b < RT_TICK_HALF\<close> reads
  ``\<open>a\<close> is not before \<open>b\<close>''. Measured from a common base, with both distances below the half
  window, the comparison is the one of the distances.
\<close>

lemma unat_diff_base:
  fixes a b c :: "32 word"
  shows "unat (a - b) = (if unat (b - c) \<le> unat (a - c) then unat (a - c) - unat (b - c)
           else 2 ^ 32 + unat (a - c) - unat (b - c))"
proof -
  have *: "unat (x - y) = (if unat y \<le> unat x then unat x - unat y else 2 ^ 32 + unat x - unat y)"
    for x y :: "32 word"
    using unat_sub_if' [of x y] by auto
  have "a - b = (a - c) - (b - c)" by simp
  then show ?thesis by (simp only: * [of "a - c" "b - c"])
qed

lemma tick_cmp_base:
  fixes a b c :: "32 word"
  assumes "a - c < RT_TICK_HALF" and "b - c < RT_TICK_HALF"
  shows "a - b < RT_TICK_HALF \<longleftrightarrow> unat (b - c) \<le> unat (a - c)"
  using assms unsigned_less [of "a - c"] unsigned_less [of "b - c"]
  by (auto simp: word_less_nat_alt RT_TICK_HALF_num unat_diff_base [of a b c])

lemma tick_eq_base:
  fixes a b c :: "32 word"
  shows "a - b = 0 \<longleftrightarrow> unat (a - c) = unat (b - c)"
  by (metis diff_add_cancel right_minus_eq word_unat_eq_iff)

lemma tick_neg_large:
  fixes x :: "32 word"
  assumes "0 < x" and "x < RT_TICK_HALF"
  shows "\<not> - x < RT_TICK_HALF"
proof -
  have "unat (0 - x) = 2 ^ 32 - unat x"
    using unat_sub_if' [of 0 x] assms(1) by (auto simp: word_less_nat_alt)
  with assms show ?thesis by (simp add: word_less_nat_alt RT_TICK_HALF_num)
qed

lemma tick_add_window:
  fixes k b d :: "32 word"
  assumes "unat (k - b) + unat d < unat RT_TICK_HALF"
  shows "k + d - b < RT_TICK_HALF"
proof -
  have "k + d - b = (k - b) + d" by simp
  also have "unat \<dots> = unat (k - b) + unat d"
    using assms by (intro unat_add_lem [THEN iffD1]) (simp add: RT_TICK_HALF_num)
  finally show ?thesis using assms by (simp add: word_less_nat_alt)
qed

section \<open>Chains of links\<close>

text \<open>A singly linked list of cells, from a start pointer to the null pointer.\<close>

fun chain :: "(nat \<Rightarrow> nat option) \<Rightarrow> nat option \<Rightarrow> nat list \<Rightarrow> bool" where
  "chain nx p [] \<longleftrightarrow> p = None"
| "chain nx p (i # is) \<longleftrightarrow> p = Some i \<and> chain nx (nx i) is"

text \<open>Following the links for a number of steps.\<close>

fun follow :: "(nat \<Rightarrow> nat option) \<Rightarrow> nat option \<Rightarrow> nat \<Rightarrow> nat list" where
  "follow nx p 0 = []"
| "follow nx None (Suc n) = []"
| "follow nx (Some i) (Suc n) = i # follow nx (nx i) n"

lemma chain_upd: "i \<notin> set xs \<Longrightarrow> chain (nx(i := v)) p xs = chain nx p xs"
  by (induction xs arbitrary: p) auto

lemma chain_append:
  "chain nx p xs \<Longrightarrow> distinct xs \<Longrightarrow> i \<notin> set xs \<Longrightarrow> nx i = None \<Longrightarrow>
    chain (if xs = [] then nx else nx(last xs := Some i)) (if xs = [] then Some i else p) (xs @ [i])"
proof (induction xs arbitrary: p)
  case (Cons x xs)
  then show ?case
  proof (cases xs)
    case Nil
    with Cons.prems show ?thesis by simp
  next
    case (Cons y ys)
    then have "last xs \<noteq> x" using Cons.prems \<open>xs = y # ys\<close> by (metis distinct.simps(2) last_in_set list.distinct(1))
    with Cons.IH [of "nx x"] Cons.prems \<open>xs = y # ys\<close> show ?thesis by simp
  qed
qed simp

lemma chain_follow: "chain nx p xs \<Longrightarrow> follow nx p (length xs) = xs"
  by (induction xs arbitrary: p) auto

lemma chain_unique: "chain nx p xs \<Longrightarrow> chain nx p ys \<Longrightarrow> length xs = length ys \<Longrightarrow> xs = ys"
  using chain_follow by metis

end
