(* ===== verification/Rt_List.thy ===== *)
theory Rt_List
  imports Rt_Prelude
begin

text \<open>
  The intrusive doubly linked list of \<^verbatim>\<open>rt-thread/include/rtservice.h\<close>.

  The first part is the code: a heap of \<^verbatim>\<open>rt_list_node\<close> structures (one \<open>next\<close> and one
  \<open>prev\<close> pointer per address) and the inline functions as sequences of pointer assignments, in
  the source's order, with the aliasing the source has (an empty list points to itself).

  The second part is the list store, the abstract view the kernel model uses: for every list head
  the sequence of member nodes, and for every node the list it is linked into. The refinement
  lemmas of the third part show that every pointer operation implements its store operation, for
  all lists of the heap at once (so an operation on one list leaves the others alone).
\<close>

section \<open>The pointer code\<close>

record 'p lheap =
  lnext :: "'p \<Rightarrow> 'p"
  lprev :: "'p \<Rightarrow> 'p"

definition rt_list_init :: "'p \<Rightarrow> 'p lheap \<Rightarrow> 'p lheap" where
  "rt_list_init l h = h\<lparr>lnext := (lnext h)(l := l), lprev := (lprev h)(l := l)\<rparr>"

definition rt_list_insert_after :: "'p \<Rightarrow> 'p \<Rightarrow> 'p lheap \<Rightarrow> 'p lheap" where
  "rt_list_insert_after l n h =
     (let h1 = h\<lparr>lprev := (lprev h)(lnext h l := n)\<rparr>;
          h2 = h1\<lparr>lnext := (lnext h1)(n := lnext h1 l)\<rparr>;
          h3 = h2\<lparr>lnext := (lnext h2)(l := n)\<rparr>
      in h3\<lparr>lprev := (lprev h3)(n := l)\<rparr>)"

definition rt_list_insert_before :: "'p \<Rightarrow> 'p \<Rightarrow> 'p lheap \<Rightarrow> 'p lheap" where
  "rt_list_insert_before l n h =
     (let h1 = h\<lparr>lnext := (lnext h)(lprev h l := n)\<rparr>;
          h2 = h1\<lparr>lprev := (lprev h1)(n := lprev h1 l)\<rparr>;
          h3 = h2\<lparr>lprev := (lprev h2)(l := n)\<rparr>
      in h3\<lparr>lnext := (lnext h3)(n := l)\<rparr>)"

definition rt_list_remove :: "'p \<Rightarrow> 'p lheap \<Rightarrow> 'p lheap" where
  "rt_list_remove n h =
     (let h1 = h\<lparr>lprev := (lprev h)(lnext h n := lprev h n)\<rparr>;
          h2 = h1\<lparr>lnext := (lnext h1)(lprev h1 n := lnext h1 n)\<rparr>
      in h2\<lparr>lnext := (lnext h2)(n := n), lprev := (lprev h2)(n := n)\<rparr>)"

definition rt_list_isempty :: "'p \<Rightarrow> 'p lheap \<Rightarrow> bool" where
  "rt_list_isempty l h \<longleftrightarrow> lnext h l = l"

section \<open>Linked segments of the heap\<close>

text \<open>
  \<open>linked h p xs q\<close>: starting at \<open>p\<close> the \<open>next\<close> pointers run through \<open>xs\<close> to \<open>q\<close>, and the
  \<open>prev\<close> pointers run back. A list with head \<open>l\<close> is a segment from \<open>l\<close> to \<open>l\<close> without
  repetition.
\<close>

fun linked :: "'p lheap \<Rightarrow> 'p \<Rightarrow> 'p list \<Rightarrow> 'p \<Rightarrow> bool" where
  "linked h p [] q \<longleftrightarrow> lnext h p = q \<and> lprev h q = p"
| "linked h p (x # xs) q \<longleftrightarrow> lnext h p = x \<and> lprev h x = p \<and> linked h x xs q"

definition dlist :: "'p lheap \<Rightarrow> 'p \<Rightarrow> 'p list \<Rightarrow> bool" where
  "dlist h l xs \<longleftrightarrow> distinct (l # xs) \<and> linked h l xs l"

lemma linked_append:
  "linked h p (xs @ x # ys) q \<longleftrightarrow> linked h p xs x \<and> linked h x ys q"
  by (induction xs arbitrary: p) auto

lemma linked_cong:
  assumes "\<And>a. a \<in> insert p (set xs) \<Longrightarrow> lnext h' a = lnext h a"
    and "\<And>a. a \<in> insert q (set xs) \<Longrightarrow> lprev h' a = lprev h a"
  shows "linked h' p xs q \<longleftrightarrow> linked h p xs q"
  using assms by (induction xs arbitrary: p) auto

lemma linked_first: "linked h p xs q \<Longrightarrow> lnext h p = hd (xs @ [q])"
  by (cases xs) auto

lemma linked_last: "linked h p xs q \<Longrightarrow> lprev h q = last (p # xs)"
  by (induction xs arbitrary: p) auto

lemma linked_unique:
  "linked h p xs q \<Longrightarrow> linked h p ys q \<Longrightarrow> q \<notin> set xs \<Longrightarrow> q \<notin> set ys \<Longrightarrow> xs = ys"
proof (induction xs arbitrary: p ys)
  case Nil
  then show ?case by (cases ys) auto
next
  case (Cons x xs)
  then show ?case by (cases ys) auto
qed

text \<open>The common effect of both insertions: \<open>n\<close> goes between its neighbours \<open>p\<close> and \<open>q\<close>.\<close>

definition link :: "'p \<Rightarrow> 'p \<Rightarrow> 'p \<Rightarrow> 'p lheap \<Rightarrow> 'p lheap" where
  "link p n q h = h\<lparr>lnext := (lnext h)(n := q, p := n), lprev := (lprev h)(q := n, n := p)\<rparr>"

lemma insert_after_link:
  "lnext h p = q \<Longrightarrow> n \<noteq> p \<Longrightarrow> n \<noteq> q \<Longrightarrow> rt_list_insert_after p n h = link p n q h"
  by (simp add: rt_list_insert_after_def link_def)

lemma insert_before_link:
  "lprev h q = p \<Longrightarrow> n \<noteq> p \<Longrightarrow> n \<noteq> q \<Longrightarrow> rt_list_insert_before q n h = link p n q h"
  by (simp add: rt_list_insert_before_def link_def fun_upd_twist)

lemma linked_link:
  assumes "linked h p (ys @ zs) q" and "distinct (p # ys @ zs)" and "q \<notin> set (ys @ zs)"
    and "n \<notin> insert p (insert q (set (ys @ zs)))"
  shows "linked (link (last (p # ys)) n (hd (zs @ [q])) h) p (ys @ n # zs) q"
  using assms
proof (induction ys arbitrary: p)
  case Nil
  note prems = Nil.prems
  show ?case
  proof (cases zs)
    case Nil
    with prems show ?thesis by (auto simp: link_def)
  next
    case (Cons z zs')
    have "linked (link p n z h) z zs' q \<longleftrightarrow> linked h z zs' q"
      using prems Cons by (intro linked_cong) (auto simp: link_def)
    with prems Cons show ?thesis by (auto simp: link_def)
  qed
next
  case (Cons y ys)
  let ?h' = "link (last (y # ys)) n (hd (zs @ [q])) h"
  have IH: "linked ?h' y (ys @ n # zs) q"
    using Cons.prems by (intro Cons.IH) auto
  have "last (y # ys) \<in> set (y # ys)" by (rule last_in_set) simp
  moreover have "hd (zs @ [q]) \<in> insert q (set zs)" by (cases zs) auto
  ultimately have "lnext ?h' p = y \<and> lprev ?h' y = p"
    using Cons.prems by (auto simp: link_def)
  with IH show ?case by simp
qed

text \<open>The effect of a removal: the neighbours \<open>p\<close> and \<open>q\<close> are joined, \<open>n\<close> points to itself.\<close>

definition unlink :: "'p \<Rightarrow> 'p \<Rightarrow> 'p \<Rightarrow> 'p lheap \<Rightarrow> 'p lheap" where
  "unlink p n q h = h\<lparr>lnext := (lnext h)(p := q, n := n), lprev := (lprev h)(q := p, n := n)\<rparr>"

lemma rt_list_remove_unlink:
  assumes "linked h p (ys @ n # zs) q" and "distinct (p # ys @ n # zs)" and "q \<notin> set (ys @ n # zs)"
  shows "rt_list_remove n h = unlink (last (p # ys)) n (hd (zs @ [q])) h"
proof -
  from assms have *: "linked h p ys n" "linked h n zs q" by (simp_all add: linked_append)
  from * have nx: "lnext h n = hd (zs @ [q])" and pv: "lprev h n = last (p # ys)"
    by (auto dest: linked_first linked_last)
  have "hd (zs @ [q]) \<noteq> n" using assms by (cases zs) auto
  moreover have "last (p # ys) \<noteq> n" using assms by auto
  ultimately show ?thesis by (simp add: rt_list_remove_def unlink_def nx pv)
qed

lemma linked_unlink:
  assumes "linked h p (ys @ n # zs) q" and "distinct (p # ys @ n # zs)" and "q \<notin> set (ys @ n # zs)"
  shows "linked (unlink (last (p # ys)) n (hd (zs @ [q])) h) p (ys @ zs) q"
  using assms
proof (induction ys arbitrary: p)
  case Nil
  note prems = Nil.prems
  show ?case
  proof (cases zs)
    case Nil
    with prems show ?thesis by (auto simp: unlink_def)
  next
    case (Cons z zs')
    have "linked (unlink p n z h) z zs' q \<longleftrightarrow> linked h z zs' q"
      using prems Cons by (intro linked_cong) (auto simp: unlink_def)
    with prems Cons show ?thesis by (auto simp: unlink_def)
  qed
next
  case (Cons y ys)
  let ?h' = "unlink (last (y # ys)) n (hd (zs @ [q])) h"
  have IH: "linked ?h' y (ys @ zs) q"
    using Cons.prems by (intro Cons.IH) auto
  have "last (y # ys) \<in> set (y # ys)" by (rule last_in_set) simp
  moreover have "hd (zs @ [q]) \<in> insert q (set zs)" by (cases zs) auto
  ultimately have "lnext ?h' p = y \<and> lprev ?h' y = p"
    using Cons.prems by (auto simp: unlink_def)
  with IH show ?case by simp
qed

section \<open>The list store\<close>

text \<open>
  The lists of one kind of node (thread nodes \<open>tlist\<close>, timer nodes \<open>row\<close>, object nodes \<open>list\<close>):
  \<open>lst\<close> gives the members of every head in order, \<open>loc\<close> the head whose list a node is linked into,
  \<open>None\<close> for a node that points to itself. A node is in at most one list.
\<close>

record ('h, 'n) lstore =
  lst :: "'h \<Rightarrow> 'n list"
  loc :: "'n \<Rightarrow> 'h option"

definition lstore_wf :: "('h, 'n) lstore \<Rightarrow> bool" where
  "lstore_wf L \<longleftrightarrow> (\<forall>h. distinct (lst L h)) \<and> (\<forall>n h. n \<in> set (lst L h) \<longleftrightarrow> loc L n = Some h)"

definition lstore_empty :: "('h, 'n) lstore" where
  "lstore_empty = \<lparr>lst = (\<lambda>_. []), loc = (\<lambda>_. None)\<rparr>"

text \<open>Initialisation of a head and of a node, the two uses of \<^verbatim>\<open>rt_list_init\<close>.\<close>

definition ls_init_head :: "'h \<Rightarrow> ('h, 'n) lstore \<Rightarrow> ('h, 'n) lstore" where
  "ls_init_head h L = L\<lparr>lst := (lst L)(h := [])\<rparr>"

definition ls_init_node :: "'n \<Rightarrow> ('h, 'n) lstore \<Rightarrow> ('h, 'n) lstore" where
  "ls_init_node n L = L\<lparr>loc := (loc L)(n := None)\<rparr>"

text \<open>Insertion after a head (first position) and before a head (last position).\<close>

definition ls_insert_after :: "'h \<Rightarrow> 'n \<Rightarrow> ('h, 'n) lstore \<Rightarrow> ('h, 'n) lstore" where
  "ls_insert_after h n L = L\<lparr>lst := (lst L)(h := n # lst L h), loc := (loc L)(n \<mapsto> h)\<rparr>"

definition ls_insert_before :: "'h \<Rightarrow> 'n \<Rightarrow> ('h, 'n) lstore \<Rightarrow> ('h, 'n) lstore" where
  "ls_insert_before h n L = L\<lparr>lst := (lst L)(h := lst L h @ [n]), loc := (loc L)(n \<mapsto> h)\<rparr>"

text \<open>Insertion next to a member \<open>m\<close>.\<close>

fun put_before :: "'n \<Rightarrow> 'n \<Rightarrow> 'n list \<Rightarrow> 'n list" where
  "put_before m n [] = []"
| "put_before m n (x # xs) = (if x = m then n # x # xs else x # put_before m n xs)"

fun put_after :: "'n \<Rightarrow> 'n \<Rightarrow> 'n list \<Rightarrow> 'n list" where
  "put_after m n [] = []"
| "put_after m n (x # xs) = (if x = m then x # n # xs else x # put_after m n xs)"

definition ls_insert_before_node :: "'n \<Rightarrow> 'n \<Rightarrow> ('h, 'n) lstore \<Rightarrow> ('h, 'n) lstore" where
  "ls_insert_before_node m n L = (case loc L m of None \<Rightarrow> L | Some h \<Rightarrow>
     L\<lparr>lst := (lst L)(h := put_before m n (lst L h)), loc := (loc L)(n \<mapsto> h)\<rparr>)"

definition ls_insert_after_node :: "'n \<Rightarrow> 'n \<Rightarrow> ('h, 'n) lstore \<Rightarrow> ('h, 'n) lstore" where
  "ls_insert_after_node m n L = (case loc L m of None \<Rightarrow> L | Some h \<Rightarrow>
     L\<lparr>lst := (lst L)(h := put_after m n (lst L h)), loc := (loc L)(n \<mapsto> h)\<rparr>)"

definition ls_remove :: "'n \<Rightarrow> ('h, 'n) lstore \<Rightarrow> ('h, 'n) lstore" where
  "ls_remove n L = (case loc L n of None \<Rightarrow> L | Some h \<Rightarrow>
     L\<lparr>lst := (lst L)(h := remove1 n (lst L h)), loc := (loc L)(n := None)\<rparr>)"

definition ls_isempty :: "'h \<Rightarrow> ('h, 'n) lstore \<Rightarrow> bool" where
  "ls_isempty h L \<longleftrightarrow> lst L h = []"

text \<open>
  \<open>n->next != n->prev\<close> for a node \<open>n\<close>: true exactly when its list has a second member.
\<close>

definition ls_next_ne_prev :: "'n \<Rightarrow> ('h, 'n) lstore \<Rightarrow> bool" where
  "ls_next_ne_prev n L = (case loc L n of None \<Rightarrow> False | Some h \<Rightarrow> 2 \<le> length (lst L h))"

subsection \<open>Rewrite rules\<close>

lemma loc_simps [simp, store_simps]:
  "loc (ls_init_head h L) m = loc L m"
  "loc (ls_init_node n L) m = (if m = n then None else loc L m)"
  "loc (ls_insert_after h n L) m = (if m = n then Some h else loc L m)"
  "loc (ls_insert_before h n L) m = (if m = n then Some h else loc L m)"
  "loc (ls_remove n L) m = (if m = n then None else loc L m)"
  by (auto simp: ls_init_head_def ls_init_node_def ls_insert_after_def ls_insert_before_def
      ls_remove_def split: option.splits)

lemma lst_simps [simp, store_simps]:
  "lst (ls_init_head h L) h' = (if h' = h then [] else lst L h')"
  "lst (ls_init_node n L) h' = lst L h'"
  "lst (ls_insert_after h n L) h' = (if h' = h then n # lst L h else lst L h')"
  "lst (ls_insert_before h n L) h' = (if h' = h then lst L h @ [n] else lst L h')"
  by (auto simp: ls_init_head_def ls_init_node_def ls_insert_after_def ls_insert_before_def)

lemma wf_mem: "lstore_wf L \<Longrightarrow> n \<in> set (lst L h) \<longleftrightarrow> loc L n = Some h"
  by (simp add: lstore_wf_def)

lemma wf_distinct: "lstore_wf L \<Longrightarrow> distinct (lst L h)"
  by (simp add: lstore_wf_def)

lemma wf_hd_loc: "lstore_wf L \<Longrightarrow> lst L h = n # ns \<Longrightarrow> loc L n = Some h"
  by (metis list.set_intros(1) wf_mem)

lemma lst_remove [simp, store_simps]:
  "lstore_wf L \<Longrightarrow> lst (ls_remove n L) h = remove1 n (lst L h)"
  by (auto simp: ls_remove_def wf_mem remove1_idem split: option.splits)

lemma lst_remove_other: "loc L n \<noteq> Some h \<Longrightarrow> lst (ls_remove n L) h = lst L h"
  by (auto simp: ls_remove_def split: option.splits)

lemma lst_remove_hd:
  "lstore_wf L \<Longrightarrow> lst L h = n # ns \<Longrightarrow> lst (ls_remove n L) h = ns"
  by simp

lemma lst_insert_before_node [simp, store_simps]:
  "loc L m = Some h \<Longrightarrow>
    lst (ls_insert_before_node m n L) h' = (if h' = h then put_before m n (lst L h) else lst L h')"
  by (simp add: ls_insert_before_node_def)

lemma loc_insert_before_node [simp, store_simps]:
  "loc L m = Some h \<Longrightarrow>
    loc (ls_insert_before_node m n L) k = (if k = n then Some h else loc L k)"
  by (simp add: ls_insert_before_node_def)

lemma lst_insert_after_node [simp, store_simps]:
  "loc L m = Some h \<Longrightarrow>
    lst (ls_insert_after_node m n L) h' = (if h' = h then put_after m n (lst L h) else lst L h')"
  by (simp add: ls_insert_after_node_def)

lemma loc_insert_after_node [simp, store_simps]:
  "loc L m = Some h \<Longrightarrow>
    loc (ls_insert_after_node m n L) k = (if k = n then Some h else loc L k)"
  by (simp add: ls_insert_after_node_def)

lemma put_before_split:
  "distinct (ys @ m # zs) \<Longrightarrow> put_before m n (ys @ m # zs) = ys @ n # m # zs"
  by (induction ys) auto

lemma put_after_split:
  "distinct (ys @ m # zs) \<Longrightarrow> put_after m n (ys @ m # zs) = ys @ m # n # zs"
  by (induction ys) auto

lemma set_put_before: "m \<in> set xs \<Longrightarrow> set (put_before m n xs) = insert n (set xs)"
  by (induction xs) auto

lemma set_put_after: "m \<in> set xs \<Longrightarrow> set (put_after m n xs) = insert n (set xs)"
  by (induction xs) auto

lemma set_put_subset:
  "set (put_before m n xs) \<subseteq> insert n (set xs)"
  "set (put_after m n xs) \<subseteq> insert n (set xs)"
  by (induction xs) auto

lemma distinct_put_before:
  "distinct xs \<Longrightarrow> n \<notin> set xs \<Longrightarrow> distinct (put_before m n xs)"
  by (induction xs) (auto dest!: subsetD [OF set_put_subset(1)])

lemma distinct_put_after:
  "distinct xs \<Longrightarrow> n \<notin> set xs \<Longrightarrow> distinct (put_after m n xs)"
  by (induction xs) (auto dest!: subsetD [OF set_put_subset(2)])

lemma ls_init_head_empty: "lst L h = [] \<Longrightarrow> ls_init_head h L = L"
  by (simp add: ls_init_head_def fun_upd_idem)

lemma ls_init_node_free: "loc L n = None \<Longrightarrow> ls_init_node n L = L"
  by (simp add: ls_init_node_def fun_upd_idem)

subsection \<open>Well-formedness is preserved\<close>

lemma wf_empty [simp]: "lstore_wf lstore_empty"
  by (simp add: lstore_wf_def lstore_empty_def)

lemma wf_init_head [simp, intro]:
  "lstore_wf L \<Longrightarrow> lst L h = [] \<Longrightarrow> lstore_wf (ls_init_head h L)"
  by (simp add: ls_init_head_empty)

lemma wf_init_node [simp, intro]:
  "lstore_wf L \<Longrightarrow> loc L n = None \<Longrightarrow> lstore_wf (ls_init_node n L)"
  by (simp add: ls_init_node_free)

lemma wf_insert_after [simp, intro]:
  "lstore_wf L \<Longrightarrow> loc L n = None \<Longrightarrow> lstore_wf (ls_insert_after h n L)"
  by (auto simp: lstore_wf_def)

lemma wf_insert_before [simp, intro]:
  "lstore_wf L \<Longrightarrow> loc L n = None \<Longrightarrow> lstore_wf (ls_insert_before h n L)"
  by (auto simp: lstore_wf_def)

lemma wf_remove [simp, intro]: "lstore_wf L \<Longrightarrow> lstore_wf (ls_remove n L)"
  by (simp add: lstore_wf_def [of "ls_remove n L"] wf_distinct set_remove1_eq) (auto simp: wf_mem)

lemma wf_insert_before_node [simp, intro]:
  assumes "lstore_wf L" and "loc L m = Some h" and "loc L n = None"
  shows "lstore_wf (ls_insert_before_node m n L)"
proof -
  have "m \<in> set (lst L h)" and "n \<notin> set (lst L h)" using assms by (simp_all add: wf_mem)
  with assms show ?thesis
    by (auto simp: lstore_wf_def [of "ls_insert_before_node m n L"] set_put_before wf_mem
        intro: distinct_put_before wf_distinct)
qed

lemma wf_insert_after_node [simp, intro]:
  assumes "lstore_wf L" and "loc L m = Some h" and "loc L n = None"
  shows "lstore_wf (ls_insert_after_node m n L)"
proof -
  have "m \<in> set (lst L h)" and "n \<notin> set (lst L h)" using assms by (simp_all add: wf_mem)
  with assms show ?thesis
    by (auto simp: lstore_wf_def [of "ls_insert_after_node m n L"] set_put_after wf_mem
        intro: distinct_put_after wf_distinct)
qed

section \<open>The pointer code implements the store\<close>

text \<open>Addresses of list nodes: the head of a list, or the node embedded in a member structure.\<close>

datatype ('h, 'n) lptr = Head 'h | Node 'n

definition repr :: "('h, 'n) lptr lheap \<Rightarrow> ('h, 'n) lstore \<Rightarrow> bool" where
  "repr hp L \<longleftrightarrow> lstore_wf L
     \<and> (\<forall>h. dlist hp (Head h) (map Node (lst L h)))
     \<and> (\<forall>n. loc L n = None \<longrightarrow> lnext hp (Node n) = Node n \<and> lprev hp (Node n) = Node n)"

lemma repr_wf: "repr hp L \<Longrightarrow> lstore_wf L"
  by (simp add: repr_def)

lemma repr_dlist: "repr hp L \<Longrightarrow> dlist hp (Head h) (map Node (lst L h))"
  by (simp add: repr_def)

lemma repr_unique:
  assumes "repr hp L" and "repr hp M"
  shows "L = M"
proof -
  have eq: "lst L h = lst M h" for h
  proof -
    have "map Node (lst L h) = (map Node (lst M h) :: ('a, 'b) lptr list)"
      using assms [THEN repr_dlist, of h]
      by (intro linked_unique [of hp "Head h" _ "Head h"]) (auto simp: dlist_def)
    then show ?thesis by (simp add: inj_map_eq_map inj_def)
  qed
  have "loc L n = loc M n" for n
    using assms [THEN repr_wf] eq by (metis not_Some_eq wf_mem)
  with eq show ?thesis by (simp add: fun_eq_iff lstore.equality)
qed

text \<open>Lists whose nodes an insertion or a removal does not touch keep their links.\<close>

lemma dlist_link_other:
  "dlist hp l xs \<Longrightarrow> {p, n, q} \<inter> set (l # xs) = {} \<Longrightarrow> dlist (link p n q hp) l xs"
  unfolding dlist_def by (subst linked_cong [of l xs _ hp]) (auto simp: link_def)

lemma dlist_unlink_other:
  "dlist hp l xs \<Longrightarrow> {p, n, q} \<inter> set (l # xs) = {} \<Longrightarrow> dlist (unlink p n q hp) l xs"
  unfolding dlist_def by (subst linked_cong [of l xs _ hp]) (auto simp: unlink_def)

lemma hd_last_in:
  "hd (map Node zs @ [Head h]) \<in> insert (Head h) (Node ` set zs)"
  "last (Head h # map Node ys) \<in> insert (Head h) (Node ` set ys)"
  by (cases zs; simp) (cases ys rule: rev_cases; simp)

lemma repr_link:
  assumes R: "repr hp L" and l: "lst L h = ys @ zs" and n: "loc L n = None"
    and M: "lst M = (lst L)(h := ys @ n # zs)" "loc M = (loc L)(n \<mapsto> h)"
  shows "repr (link (last (Head h # map Node ys)) (Node n) (hd (map Node zs @ [Head h])) hp) M"
    (is "repr (link ?p _ ?q hp) M")
proof -
  have wf: "lstore_wf L" using R by (rule repr_wf)
  have d: "distinct (ys @ zs)" and mem: "k \<in> set ys \<or> k \<in> set zs \<longleftrightarrow> loc L k = Some h" for k
    using wf_distinct [OF wf, of h] wf_mem [OF wf, of k h] l by simp_all
  have home: "loc L k = Some h" if "k \<in> set ys \<union> set zs" for k
    using mem [of k] that by auto
  have nn: "n \<notin> set ys" "n \<notin> set zs" using mem [of n] n by auto
  then have wfM: "lstore_wf M"
    using d mem n wf_distinct [OF wf] wf_mem [OF wf] unfolding lstore_wf_def M by auto
  have same: "dlist (link ?p (Node n) ?q hp) (Head h) (map Node (ys @ n # zs))"
  proof -
    have lk: "linked hp (Head h) (map Node ys @ map Node zs) (Head h)"
      using repr_dlist [OF R, of h] l by (simp add: dlist_def)
    have "linked (link ?p (Node n) ?q hp) (Head h) (map Node ys @ Node n # map Node zs) (Head h)"
      using d nn by (intro linked_link [OF lk]) (auto simp: distinct_map inj_on_def)
    with d nn show ?thesis by (auto simp: dlist_def distinct_map inj_on_def)
  qed
  have other: "dlist (link ?p (Node n) ?q hp) (Head h') (map Node (lst L h'))" if "h' \<noteq> h" for h'
  proof (rule dlist_link_other [OF repr_dlist [OF R]])
    have "set (lst L h') \<inter> insert n (set ys \<union> set zs) = {}"
      using wf_mem [OF wf, of _ h'] home n that by fastforce
    then show "{?p, Node n, ?q} \<inter> set (Head h' # map Node (lst L h')) = {}"
      using hd_last_in(1) [of zs h] hd_last_in(2) [of h ys] that by auto
  qed
  have free: "lnext (link ?p (Node n) ?q hp) (Node m) = Node m
      \<and> lprev (link ?p (Node n) ?q hp) (Node m) = Node m" if "loc M m = None" for m
  proof -
    have "m \<noteq> n" and m: "loc L m = None" using that M by (auto split: if_splits)
    moreover have "m \<notin> set ys \<union> set zs" using m wf_mem [OF wf, of m h] l by auto
    ultimately show ?thesis
      using R hd_last_in(1) [of zs h] hd_last_in(2) [of h ys] by (auto simp: repr_def link_def)
  qed
  show ?thesis unfolding repr_def using wfM same other free by (auto simp: M(1))
qed

lemma repr_unlink:
  assumes R: "repr hp L" and l: "lst L h = ys @ n # zs"
    and M: "lst M = (lst L)(h := ys @ zs)" "loc M = (loc L)(n := None)"
  shows "repr (unlink (last (Head h # map Node ys)) (Node n) (hd (map Node zs @ [Head h])) hp) M"
    (is "repr (unlink ?p _ ?q hp) M")
proof -
  have wf: "lstore_wf L" using R by (rule repr_wf)
  have d: "distinct (ys @ n # zs)"
    and mem: "k = n \<or> k \<in> set ys \<or> k \<in> set zs \<longleftrightarrow> loc L k = Some h" for k
    using wf_distinct [OF wf, of h] wf_mem [OF wf, of k h] l by auto
  have home: "loc L k = Some h" if "k \<in> insert n (set ys \<union> set zs)" for k
    using mem [of k] that by auto
  then have "loc L n = Some h" by simp
  then have wfM: "lstore_wf M"
    using d mem wf_distinct [OF wf] wf_mem [OF wf] unfolding lstore_wf_def M by auto
  have same: "dlist (unlink ?p (Node n) ?q hp) (Head h) (map Node (ys @ zs))"
  proof -
    have lk: "linked hp (Head h) (map Node ys @ Node n # map Node zs) (Head h)"
      using repr_dlist [OF R, of h] l by (simp add: dlist_def)
    have "linked (unlink ?p (Node n) ?q hp) (Head h) (map Node ys @ map Node zs) (Head h)"
      using d by (intro linked_unlink [OF lk]) (auto simp: distinct_map inj_on_def)
    with d show ?thesis by (auto simp: dlist_def distinct_map inj_on_def)
  qed
  have other: "dlist (unlink ?p (Node n) ?q hp) (Head h') (map Node (lst L h'))" if "h' \<noteq> h" for h'
  proof (rule dlist_unlink_other [OF repr_dlist [OF R]])
    have "set (lst L h') \<inter> insert n (set ys \<union> set zs) = {}"
      using wf_mem [OF wf, of _ h'] home that by fastforce
    then show "{?p, Node n, ?q} \<inter> set (Head h' # map Node (lst L h')) = {}"
      using hd_last_in(1) [of zs h] hd_last_in(2) [of h ys] that by auto
  qed
  have free: "lnext (unlink ?p (Node n) ?q hp) (Node m) = Node m
      \<and> lprev (unlink ?p (Node n) ?q hp) (Node m) = Node m" if "loc M m = None" for m
  proof (cases "m = n")
    case True
    then show ?thesis by (simp add: unlink_def)
  next
    case False
    then have m: "loc L m = None" using that M by (auto split: if_splits)
    then have "m \<notin> set ys \<union> set zs" using mem [of m] by auto
    with m show ?thesis
      using R hd_last_in(1) [of zs h] hd_last_in(2) [of h ys] by (auto simp: repr_def unlink_def)
  qed
  show ?thesis unfolding repr_def using wfM same other free by (auto simp: M(1))
qed

text \<open>The node a position of the heap points to, from the store.\<close>

lemma repr_around:
  assumes R: "repr hp L" and l: "lst L h = ys @ zs"
  shows "lnext hp (last (Head h # map Node ys)) = hd (map Node zs @ [Head h])"
    and "lprev hp (hd (map Node zs @ [Head h])) = last (Head h # map Node ys)"
proof -
  have lk: "linked hp (Head h) (map Node ys @ map Node zs) (Head h)"
    using repr_dlist [OF R, of h] l by (simp add: dlist_def)
  have "lnext hp (last (p # as)) = hd (bs @ [q]) \<and> lprev hp (hd (bs @ [q])) = last (p # as)"
    if "linked hp p (as @ bs) q" for p as bs q
    using that
  proof (induction as arbitrary: p)
    case Nil
    then show ?case by (cases bs) auto
  next
    case (Cons a as)
    then show ?case by simp
  qed
  from this [OF lk] show "lnext hp (last (Head h # map Node ys)) = hd (map Node zs @ [Head h])"
    and "lprev hp (hd (map Node zs @ [Head h])) = last (Head h # map Node ys)" by auto
qed

lemma free_not_around:
  assumes "repr hp L" and "lst L h = ys @ zs" and "loc L n = None"
  shows "Node n \<noteq> last (Head h # map Node ys)" and "Node n \<noteq> hd (map Node zs @ [Head h])"
  using wf_mem [OF repr_wf [OF assms(1)], of n h] assms(2,3)
    hd_last_in(1) [of zs h] hd_last_in(2) [of h ys] by auto

lemma repr_insert_after_at:
  assumes "repr hp L" and "lst L h = ys @ zs" and "loc L n = None"
    and "lst M = (lst L)(h := ys @ n # zs)" "loc M = (loc L)(n \<mapsto> h)"
  shows "repr (rt_list_insert_after (last (Head h # map Node ys)) (Node n) hp) M"
  using insert_after_link [OF repr_around(1) [OF assms(1,2)] free_not_around [OF assms(1,2,3)]]
    repr_link [OF assms] by simp

lemma repr_insert_before_at:
  assumes "repr hp L" and "lst L h = ys @ zs" and "loc L n = None"
    and "lst M = (lst L)(h := ys @ n # zs)" "loc M = (loc L)(n \<mapsto> h)"
  shows "repr (rt_list_insert_before (hd (map Node zs @ [Head h])) (Node n) hp) M"
  using insert_before_link [OF repr_around(2) [OF assms(1,2)] free_not_around [OF assms(1,2,3)]]
    repr_link [OF assms] by simp

lemma repr_insert_after:
  "repr hp L \<Longrightarrow> loc L n = None \<Longrightarrow>
    repr (rt_list_insert_after (Head h) (Node n) hp) (ls_insert_after h n L)"
  using repr_insert_after_at [of hp L h "[]" "lst L h" n "ls_insert_after h n L"]
  by (simp add: ls_insert_after_def)

lemma repr_insert_before:
  "repr hp L \<Longrightarrow> loc L n = None \<Longrightarrow>
    repr (rt_list_insert_before (Head h) (Node n) hp) (ls_insert_before h n L)"
  using repr_insert_before_at [of hp L h "lst L h" "[]" n "ls_insert_before h n L"]
  by (simp add: ls_insert_before_def)

lemma repr_insert_after_node:
  assumes "repr hp L" and "loc L m = Some h" and "loc L n = None"
  shows "repr (rt_list_insert_after (Node m) (Node n) hp) (ls_insert_after_node m n L)"
proof -
  have wf: "lstore_wf L" using assms(1) by (rule repr_wf)
  then obtain ys zs where l: "lst L h = ys @ m # zs"
    using assms(2) by (metis split_list wf_mem)
  have "put_after m n (lst L h) = (ys @ [m]) @ n # zs"
    using wf_distinct [OF wf, of h] by (simp add: l put_after_split)
  with repr_insert_after_at [of hp L h "ys @ [m]" zs n "ls_insert_after_node m n L"] assms l
  show ?thesis by (simp add: ls_insert_after_node_def)
qed

lemma repr_insert_before_node:
  assumes "repr hp L" and "loc L m = Some h" and "loc L n = None"
  shows "repr (rt_list_insert_before (Node m) (Node n) hp) (ls_insert_before_node m n L)"
proof -
  have wf: "lstore_wf L" using assms(1) by (rule repr_wf)
  then obtain ys zs where l: "lst L h = ys @ m # zs"
    using assms(2) by (metis split_list wf_mem)
  have "put_before m n (lst L h) = ys @ n # m # zs"
    using wf_distinct [OF wf, of h] by (simp add: l put_before_split)
  with repr_insert_before_at [of hp L h ys "m # zs" n "ls_insert_before_node m n L"] assms l
  show ?thesis by (simp add: ls_insert_before_node_def)
qed

lemma repr_remove:
  assumes R: "repr hp L"
  shows "repr (rt_list_remove (Node n) hp) (ls_remove n L)"
proof (cases "loc L n")
  case None
  then have "lnext hp (Node n) = Node n" "lprev hp (Node n) = Node n"
    using R by (auto simp: repr_def)
  then have "rt_list_remove (Node n) hp = hp"
    by (simp add: rt_list_remove_def fun_upd_idem)
  with R None show ?thesis by (simp add: ls_remove_def)
next
  case (Some h)
  have wf: "lstore_wf L" using R by (rule repr_wf)
  then obtain ys zs where l: "lst L h = ys @ n # zs"
    using Some by (metis split_list wf_mem)
  have d: "distinct (ys @ n # zs)" using wf_distinct [OF wf, of h] l by simp
  have "rt_list_remove (Node n) hp
      = unlink (last (Head h # map Node ys)) (Node n) (hd (map Node zs @ [Head h])) hp"
    using repr_dlist [OF R, of h] d l
    by (intro rt_list_remove_unlink) (auto simp: dlist_def distinct_map inj_on_def)
  moreover have "repr \<dots> (ls_remove n L)"
    using d by (intro repr_unlink [OF R l]) (simp_all add: ls_remove_def Some l remove1_append)
  ultimately show ?thesis by simp
qed

lemma repr_init:
  "repr hp L \<Longrightarrow> lst L h = [] \<Longrightarrow> repr (rt_list_init (Head h) hp) (ls_init_head h L)"
  "repr hp L \<Longrightarrow> loc L n = None \<Longrightarrow> repr (rt_list_init (Node n) hp) (ls_init_node n L)"
proof -
  assume R: "repr hp L" and e: "lst L h = []"
  then have "lnext hp (Head h) = Head h" "lprev hp (Head h) = Head h"
    using repr_dlist [OF R, of h] by (simp_all add: dlist_def)
  then have "rt_list_init (Head h) hp = hp" by (simp add: rt_list_init_def fun_upd_idem)
  with R e show "repr (rt_list_init (Head h) hp) (ls_init_head h L)"
    by (simp add: ls_init_head_empty)
next
  assume R: "repr hp L" and e: "loc L n = None"
  then have "rt_list_init (Node n) hp = hp"
    by (simp add: repr_def rt_list_init_def fun_upd_idem)
  with R e show "repr (rt_list_init (Node n) hp) (ls_init_node n L)"
    by (simp add: ls_init_node_free)
qed

lemma repr_isempty: "repr hp L \<Longrightarrow> rt_list_isempty (Head h) hp \<longleftrightarrow> ls_isempty h L"
  using repr_dlist [of hp L h]
  by (cases "lst L h") (auto simp: rt_list_isempty_def ls_isempty_def dlist_def)

lemma repr_next:
  "repr hp L \<Longrightarrow> lnext hp (Head h) = (case lst L h of [] \<Rightarrow> Head h | n # _ \<Rightarrow> Node n)"
  using repr_dlist [of hp L h] by (cases "lst L h") (auto simp: dlist_def)

lemma repr_next_ne_prev:
  assumes R: "repr hp L"
  shows "lnext hp (Node n) \<noteq> lprev hp (Node n) \<longleftrightarrow> ls_next_ne_prev n L"
proof (cases "loc L n")
  case None
  with R show ?thesis by (simp add: repr_def ls_next_ne_prev_def)
next
  case (Some h)
  have wf: "lstore_wf L" using R by (rule repr_wf)
  then obtain ys zs where l: "lst L h = ys @ n # zs"
    using Some by (metis split_list wf_mem)
  have d: "distinct (ys @ n # zs)" using wf_distinct [OF wf, of h] l by simp
  have "lnext hp (Node n) = hd (map Node zs @ [Head h])"
    using repr_around(1) [OF R, of h "ys @ [n]" zs] l by simp
  moreover have "lprev hp (Node n) = last (Head h # map Node ys)"
    using repr_around(2) [OF R, of h ys "n # zs"] l by simp
  moreover have "hd (map Node zs @ [Head h]) \<noteq> last (Head h # map Node ys)
      \<longleftrightarrow> 2 \<le> length (ys @ n # zs)"
    using d by (cases zs; cases ys rule: rev_cases) auto
  ultimately show ?thesis by (simp add: ls_next_ne_prev_def Some l)
qed

text \<open>Following a \<open>next\<close> pointer: from a head to the first member, from a member to its successor or back
  to the head, from a free node to itself.\<close>

fun ls_next :: "('h, 'n) lptr \<Rightarrow> ('h, 'n) lstore \<Rightarrow> ('h, 'n) lptr" where
  "ls_next (Head h) L = (case lst L h of [] \<Rightarrow> Head h | n # _ \<Rightarrow> Node n)"
| "ls_next (Node n) L = (case loc L n of None \<Rightarrow> Node n | Some h \<Rightarrow>
     (case tl (dropWhile (\<lambda>m. m \<noteq> n) (lst L h)) of [] \<Rightarrow> Head h | m # _ \<Rightarrow> Node m))"

lemma drop_to_member:
  "distinct (ys @ n # zs) \<Longrightarrow> tl (dropWhile (\<lambda>m. m \<noteq> n) (ys @ n # zs)) = zs"
  by (induction ys) auto

lemma repr_ls_next:
  assumes R: "repr hp L"
  shows "lnext hp p = ls_next p L"
proof (cases p)
  case (Head h)
  with repr_next [OF R] show ?thesis by simp
next
  case (Node n)
  show ?thesis
  proof (cases "loc L n")
    case None
    with R Node show ?thesis by (simp add: repr_def)
  next
    case (Some h)
    have wf: "lstore_wf L" using R by (rule repr_wf)
    then obtain ys zs where l: "lst L h = ys @ n # zs"
      using Some by (metis split_list wf_mem)
    have d: "distinct (ys @ n # zs)" using wf_distinct [OF wf, of h] l by simp
    have "lnext hp (Node n) = hd (map Node zs @ [Head h])"
      using repr_around(1) [OF R, of h "ys @ [n]" zs] l by simp
    then show ?thesis using Node Some l drop_to_member [OF d] by (cases zs) simp_all
  qed
qed

section \<open>The interface the kernel relies on\<close>

text \<open>
  What the kernel may assume of a family of intrusive lists: \<open>members\<close> are the nodes of a list in
  order, \<open>home\<close> is the list a node is linked into. The laws are those of \<^verbatim>\<open>rtservice.h\<close>: insertion
  of a free node at either end, removal of a node from whatever list holds it.
\<close>

locale node_lists =
  fixes members :: "'s \<Rightarrow> 'h \<Rightarrow> 'n list"
    and home :: "'s \<Rightarrow> 'n \<Rightarrow> 'h option"
    and push_front :: "'h \<Rightarrow> 'n \<Rightarrow> 's \<Rightarrow> 's"
    and push_back :: "'h \<Rightarrow> 'n \<Rightarrow> 's \<Rightarrow> 's"
    and remove_node :: "'n \<Rightarrow> 's \<Rightarrow> 's"
    and is_empty :: "'h \<Rightarrow> 's \<Rightarrow> bool"
    and ok :: "'s \<Rightarrow> bool"
  assumes members_distinct: "ok s \<Longrightarrow> distinct (members s h)"
    and members_home: "ok s \<Longrightarrow> n \<in> set (members s h) \<longleftrightarrow> home s n = Some h"
    and push_front_members: "ok s \<Longrightarrow> home s n = None \<Longrightarrow>
      members (push_front h n s) h' = (if h' = h then n # members s h else members s h')"
    and push_front_ok: "ok s \<Longrightarrow> home s n = None \<Longrightarrow> ok (push_front h n s)"
    and push_back_members: "ok s \<Longrightarrow> home s n = None \<Longrightarrow>
      members (push_back h n s) h' = (if h' = h then members s h @ [n] else members s h')"
    and push_back_ok: "ok s \<Longrightarrow> home s n = None \<Longrightarrow> ok (push_back h n s)"
    and remove_members: "ok s \<Longrightarrow> members (remove_node n s) h = remove1 n (members s h)"
    and remove_ok: "ok s \<Longrightarrow> ok (remove_node n s)"
    and empty_members: "ok s \<Longrightarrow> is_empty h s \<longleftrightarrow> members s h = []"
begin

lemma home_members: "ok s \<Longrightarrow> ok t \<Longrightarrow> members s = members t \<Longrightarrow> home s n = home t n"
  by (metis members_home not_Some_eq)

lemma remove_home: "ok s \<Longrightarrow> home (remove_node n s) n = None"
  by (metis distinct_remove1 members_distinct members_home not_Some_eq remove_members
      remove_ok set_remove1_eq Diff_iff singletonI)

text \<open>Moving a node to the back of a list, the step behind round robin and wake-ups.\<close>

lemma move_to_back:
  assumes "ok s"
  shows "members (push_back h n (remove_node n s)) h' =
      (if h' = h then remove1 n (members s h) @ [n] else remove1 n (members s h'))"
    and "ok (push_back h n (remove_node n s))"
  using assms by (simp_all add: push_back_members push_back_ok remove_members remove_ok remove_home)

text \<open>Nodes leave a list from the front in the order in which they were pushed to its back.\<close>

lemma fifo_order:
  assumes "ok s" and "home s a = None" and "home s b = None" and "a \<noteq> b" and "members s h = []"
  shows "members (push_back h b (push_back h a s)) h = [a, b]"
    and "members (remove_node a (push_back h b (push_back h a s))) h = [b]"
proof -
  have ok1: "ok (push_back h a s)" using assms by (simp add: push_back_ok)
  have "home (push_back h a s) b = None"
  proof (rule ccontr)
    assume "home (push_back h a s) b \<noteq> None"
    then obtain k where "b \<in> set (members (push_back h a s) k)"
      using members_home [OF ok1] by auto
    with assms show False
      using members_home [OF assms(1), of b] by (auto simp: push_back_members split: if_splits)
  qed
  with ok1 assms show "members (push_back h b (push_back h a s)) h = [a, b]"
    and "members (remove_node a (push_back h b (push_back h a s))) h = [b]"
    by (simp_all add: push_back_members push_back_ok remove_members)
qed

end

interpretation store: node_lists lst loc ls_insert_after ls_insert_before ls_remove ls_isempty
  lstore_wf
  by unfold_locales (simp_all add: wf_distinct wf_mem ls_isempty_def)

text \<open>The pointer code itself, through the abstraction function that \<open>repr\<close> determines.\<close>

definition store_of :: "('h, 'n) lptr lheap \<Rightarrow> ('h, 'n) lstore" where
  "store_of hp = (THE L. repr hp L)"

definition heap_ok :: "('h, 'n) lptr lheap \<Rightarrow> bool" where
  "heap_ok hp \<longleftrightarrow> (\<exists>L. repr hp L)"

lemma store_of_eq: "repr hp L \<Longrightarrow> store_of hp = L"
  unfolding store_of_def by (blast intro: the_equality repr_unique)

lemma heap_ok_repr: "heap_ok hp \<longleftrightarrow> repr hp (store_of hp)"
  using store_of_eq by (auto simp: heap_ok_def)

interpretation heap: node_lists "\<lambda>hp. lst (store_of hp)" "\<lambda>hp. loc (store_of hp)"
  "\<lambda>h n. rt_list_insert_after (Head h) (Node n)" "\<lambda>h n. rt_list_insert_before (Head h) (Node n)"
  "\<lambda>n. rt_list_remove (Node n)" "\<lambda>h. rt_list_isempty (Head h)" heap_ok
proof unfold_locales
  fix hp :: "('a, 'b) lptr lheap" and n h h'
  assume "heap_ok hp"
  then have R: "repr hp (store_of hp)" by (simp add: heap_ok_repr)
  note wf = repr_wf [OF R]
  show "distinct (lst (store_of hp) h)" using wf by (rule wf_distinct)
  show "n \<in> set (lst (store_of hp) h) \<longleftrightarrow> loc (store_of hp) n = Some h" using wf by (rule wf_mem)
  show "lst (store_of (rt_list_remove (Node n) hp)) h = remove1 n (lst (store_of hp) h)"
    using store_of_eq [OF repr_remove [OF R]] wf by simp
  show "heap_ok (rt_list_remove (Node n) hp)" using repr_remove [OF R] by (auto simp: heap_ok_def)
  show "rt_list_isempty (Head h) hp \<longleftrightarrow> lst (store_of hp) h = []"
    using repr_isempty [OF R] by (simp add: ls_isempty_def)
  assume n: "loc (store_of hp) n = None"
  show "lst (store_of (rt_list_insert_after (Head h) (Node n) hp)) h'
      = (if h' = h then n # lst (store_of hp) h else lst (store_of hp) h')"
    using store_of_eq [OF repr_insert_after [OF R n]] by simp
  show "heap_ok (rt_list_insert_after (Head h) (Node n) hp)"
    using repr_insert_after [OF R n] by (auto simp: heap_ok_def)
  show "lst (store_of (rt_list_insert_before (Head h) (Node n) hp)) h'
      = (if h' = h then lst (store_of hp) h @ [n] else lst (store_of hp) h')"
    using store_of_eq [OF repr_insert_before [OF R n]] by simp
  show "heap_ok (rt_list_insert_before (Head h) (Node n) hp)"
    using repr_insert_before [OF R n] by (auto simp: heap_ok_def)
qed

end
