(* ===== verification/Rt_Kernel.thy ===== *)
theory Rt_Kernel
  imports Rt_List
begin

text \<open>
  The data model of \<^verbatim>\<open>rt-thread/include/rtdef.h\<close> in the configuration of \<^verbatim>\<open>src/rtconfig.h\<close>
  (32 priorities, \<^verbatim>\<open>RT_TIMER_SKIP_LIST_LEVEL\<close> 1, soft timers, all IPC objects, no modules): one
  record per structure, and the global variables of the kernel as one record \<open>kstate\<close>.

  A structure that lives at an address is the value of a total function at that address (the memory
  cell always exists; an invariant says when its content is meaningful). Embedded list nodes are
  kept in list stores (theory \<open>Rt_List\<close>), one store for each kind of node: the \<open>tlist\<close> nodes of
  threads, the \<open>row\<close> nodes of timers and the \<open>list\<close> nodes of kernel objects. The object header
  (\<open>name\<close>, \<open>type\<close>, \<open>flag\<close>), which every structure begins with, is in \<open>objs\<close>.
\<close>

section \<open>Addresses\<close>

type_synonym tid = nat

text \<open>A timer is embedded in a thread (\<^verbatim>\<open>thread_timer\<close>) or is an object of its own.\<close>

datatype tmref = ThreadTimer tid | UserTimer nat

datatype oref = OThread tid | OTimer tmref | OSem nat | OMutex nat | OEvent nat | OMb nat
  | OMq nat | OMp nat | OMemheap nat | ODevice nat | ODataQueue nat | OCompletion nat

text \<open>Data queues and completions of the driver framework are no objects of the kernel; they own lists of waiting threads.\<close>

text \<open>The statically allocated system threads.\<close>

definition timer_thread :: tid where "timer_thread = 0"
definition idle :: tid where "idle = 1"

section \<open>Kernel objects\<close>

datatype rt_object_class_type = RT_Object_Class_Thread | RT_Object_Class_Semaphore
  | RT_Object_Class_Mutex | RT_Object_Class_Event | RT_Object_Class_MailBox
  | RT_Object_Class_MessageQueue | RT_Object_Class_MemHeap | RT_Object_Class_MemPool
  | RT_Object_Class_Device | RT_Object_Class_Timer

text \<open>The numbers of the enumeration; \<^verbatim>\<open>RT_Object_Class_Unknown\<close> is 10, \<^verbatim>\<open>RT_Object_Class_Static\<close> 0x80.\<close>

fun class_code :: "rt_object_class_type \<Rightarrow> rt_uint8" where
  "class_code RT_Object_Class_Thread = 0"
| "class_code RT_Object_Class_Semaphore = 1"
| "class_code RT_Object_Class_Mutex = 2"
| "class_code RT_Object_Class_Event = 3"
| "class_code RT_Object_Class_MailBox = 4"
| "class_code RT_Object_Class_MessageQueue = 5"
| "class_code RT_Object_Class_MemHeap = 6"
| "class_code RT_Object_Class_MemPool = 7"
| "class_code RT_Object_Class_Device = 8"
| "class_code RT_Object_Class_Timer = 9"

abbreviation (input) RT_Object_Class_Unknown :: rt_uint8 where "RT_Object_Class_Unknown \<equiv> 10"
abbreviation (input) RT_Object_Class_Static :: rt_uint8 where "RT_Object_Class_Static \<equiv> 0x80"

text \<open>The entry of \<^verbatim>\<open>rt_object_container\<close> at an index; \<open>None\<close> past the end of the array.\<close>

definition class_of_code :: "rt_uint8 \<Rightarrow> rt_object_class_type option" where
  "class_of_code c = (if c = 0 then Some RT_Object_Class_Thread
     else if c = 1 then Some RT_Object_Class_Semaphore
     else if c = 2 then Some RT_Object_Class_Mutex
     else if c = 3 then Some RT_Object_Class_Event
     else if c = 4 then Some RT_Object_Class_MailBox
     else if c = 5 then Some RT_Object_Class_MessageQueue
     else if c = 6 then Some RT_Object_Class_MemHeap
     else if c = 7 then Some RT_Object_Class_MemPool
     else if c = 8 then Some RT_Object_Class_Device
     else if c = 9 then Some RT_Object_Class_Timer else None)"

record rt_object =
  o_name :: "rt_uint8 list"
  o_type :: rt_uint8
  o_flag :: rt_uint8

section \<open>Timers\<close>

abbreviation (input) RT_TIMER_FLAG_ACTIVATED :: rt_uint8 where "RT_TIMER_FLAG_ACTIVATED \<equiv> 1"
abbreviation (input) RT_TIMER_FLAG_ONE_SHOT :: rt_uint8 where "RT_TIMER_FLAG_ONE_SHOT \<equiv> 0"
abbreviation (input) RT_TIMER_FLAG_PERIODIC :: rt_uint8 where "RT_TIMER_FLAG_PERIODIC \<equiv> 2"
abbreviation (input) RT_TIMER_FLAG_SOFT_TIMER :: rt_uint8 where "RT_TIMER_FLAG_SOFT_TIMER \<equiv> 4"

datatype timer_cmd = RT_TIMER_CTRL_SET_TIME | RT_TIMER_CTRL_GET_TIME | RT_TIMER_CTRL_SET_ONESHOT
  | RT_TIMER_CTRL_SET_PERIODIC

text \<open>
  The pair \<^verbatim>\<open>timeout_func\<close>, \<^verbatim>\<open>parameter\<close>: the kernel's own \<^verbatim>\<open>rt_thread_timeout\<close> with its thread, or a
  function of the application with its argument.
\<close>

datatype timeout_fn = Thread_timeout tid | User_timeout nat nat

record rt_timer =
  timeout_func :: timeout_fn
  tm_init_tick :: rt_tick
  timeout_tick :: rt_tick

datatype tmhead = HardTimers | SoftTimers

section \<open>Threads\<close>

datatype thread_stat = RT_THREAD_INIT | RT_THREAD_READY | RT_THREAD_SUSPEND | RT_THREAD_RUNNING
  | RT_THREAD_CLOSE

datatype thread_cmd = RT_THREAD_CTRL_STARTUP | RT_THREAD_CTRL_CLOSE
  | RT_THREAD_CTRL_CHANGE_PRIORITY rt_uint8 | RT_THREAD_CTRL_INFO

text \<open>
  \<open>stack_magic\<close> is the byte at \<^verbatim>\<open>stack_addr\<close>, which the overflow check reads. The fields for the MPU,
  the core number and the C library are of the ESP32 port and are not used by the kernel code.
\<close>

record rt_thread =
  sp :: rt_uint32
  entry_fn :: nat
  parameter :: nat
  stack_addr :: rt_uint32
  stack_size :: rt_uint32
  stack_magic :: rt_uint8
  error :: rt_err
  stat :: thread_stat
  current_priority :: rt_uint8
  init_priority :: rt_uint8
  number_mask :: rt_uint32
  event_set :: rt_uint32
  event_info :: rt_uint8
  init_tick :: rt_uint32
  remaining_tick :: rt_uint32
  cleanup :: "nat option"
  user_data :: rt_uint32

text \<open>
  The lists thread nodes can be linked into: a ready queue, the suspend list of an IPC object or
  memory pool, the list of suspended senders of a mailbox, and the list of defunct threads.
\<close>

datatype lhead = ReadyQ rt_uint8 | SuspendQ oref | SenderQ oref | DefunctQ

section \<open>IPC objects\<close>

abbreviation (input) RT_IPC_FLAG_FIFO :: rt_uint8 where "RT_IPC_FLAG_FIFO \<equiv> 0"
abbreviation (input) RT_IPC_FLAG_PRIO :: rt_uint8 where "RT_IPC_FLAG_PRIO \<equiv> 1"
abbreviation (input) RT_IPC_CMD_RESET :: rt_uint8 where "RT_IPC_CMD_RESET \<equiv> 1"

abbreviation (input) RT_EVENT_FLAG_AND :: rt_uint8 where "RT_EVENT_FLAG_AND \<equiv> 1"
abbreviation (input) RT_EVENT_FLAG_OR :: rt_uint8 where "RT_EVENT_FLAG_OR \<equiv> 2"
abbreviation (input) RT_EVENT_FLAG_CLEAR :: rt_uint8 where "RT_EVENT_FLAG_CLEAR \<equiv> 4"

record rt_semaphore =
  sem_value :: rt_uint16

record rt_mutex =
  mutex_value :: rt_uint16
  original_priority :: rt_uint8
  hold :: rt_uint8
  owner :: "tid option"

record rt_event =
  ev_set :: rt_uint32

record rt_mailbox =
  mb_pool :: "rt_uint32 list"
  mb_size :: rt_uint16
  mb_entry :: rt_uint16
  in_offset :: rt_uint16
  out_offset :: rt_uint16

text \<open>
  The message pool of a queue is divided into \<^verbatim>\<open>max_msgs\<close> slots; a slot has the link \<open>mq_next\<close> of
  \<^verbatim>\<open>struct rt_mq_message\<close> and \<open>mq_msg_size\<close> payload bytes. Slots are addressed by their index.
\<close>

record rt_messagequeue =
  mq_next :: "nat \<Rightarrow> nat option"
  mq_data :: "nat \<Rightarrow> rt_uint8 list"
  mq_msg_size :: rt_uint16
  mq_max_msgs :: rt_uint16
  mq_entry :: rt_uint16
  mq_head :: "nat option"
  mq_tail :: "nat option"
  mq_free :: "nat option"

text \<open>
  A memory pool is divided into blocks, addressed by their index; the pointer in front of the block
  is the link of the free list, or the pool the allocated block belongs to.
\<close>

datatype mp_link = NextFree "nat option" | PoolOf nat

record rt_mempool =
  mp_links :: "nat \<Rightarrow> mp_link"
  mp_size :: rt_uint32
  mp_block_size :: rt_uint32
  mp_block_list :: "nat option"
  mp_total_count :: rt_uint32
  mp_free_count :: rt_uint32
  mp_suspend_count :: rt_uint32

section \<open>The kernel state\<close>

text \<open>Calls of \<^verbatim>\<open>RT_KERNEL_FREE\<close>, newest first; the allocator itself is not part of the kernel.\<close>

datatype kfree = FreeObj oref | FreeStack tid | FreePool oref

record kstate =
  threads :: "tid \<Rightarrow> rt_thread"
  timers :: "tmref \<Rightarrow> rt_timer"
  objs :: "oref \<Rightarrow> rt_object"
  tlists :: "(lhead, tid) lstore"
  tmlists :: "(tmhead, tmref) lstore"
  olists :: "(rt_object_class_type, oref) lstore"
  ready_group :: rt_uint32
  cur_thread :: "tid option"
  cur_priority :: rt_uint8
  lock_nest :: rt_uint16
  irq_nest :: rt_uint8
  ktick :: rt_tick
  random_nr :: rt_uint32
  kerrno :: rt_err
  sems :: "nat \<Rightarrow> rt_semaphore"
  mutexes :: "nat \<Rightarrow> rt_mutex"
  events :: "nat \<Rightarrow> rt_event"
  mailboxes :: "nat \<Rightarrow> rt_mailbox"
  mqs :: "nat \<Rightarrow> rt_messagequeue"
  mempools :: "nat \<Rightarrow> rt_mempool"
  kfree_log :: "kfree list"

abbreviation upd_thread :: "tid \<Rightarrow> (rt_thread \<Rightarrow> rt_thread) \<Rightarrow> kstate \<Rightarrow> kstate" where
  "upd_thread t f s \<equiv> s\<lparr>threads := (threads s)(t := f (threads s t))\<rparr>"

abbreviation upd_timer :: "tmref \<Rightarrow> (rt_timer \<Rightarrow> rt_timer) \<Rightarrow> kstate \<Rightarrow> kstate" where
  "upd_timer r f s \<equiv> s\<lparr>timers := (timers s)(r := f (timers s r))\<rparr>"

abbreviation upd_obj :: "oref \<Rightarrow> (rt_object \<Rightarrow> rt_object) \<Rightarrow> kstate \<Rightarrow> kstate" where
  "upd_obj ob f s \<equiv> s\<lparr>objs := (objs s)(ob := f (objs s ob))\<rparr>"

text \<open>\<^verbatim>\<open>rt_thread_self\<close>: the null pointer before the scheduler is started.\<close>

abbreviation rt_thread_self :: "kstate \<Rightarrow> tid option" where
  "rt_thread_self s \<equiv> cur_thread s"

text \<open>
  The context checks of \<^verbatim>\<open>rtdebug.h\<close> (\<^verbatim>\<open>RT_DEBUG_CONTEXT_CHECK\<close> is on): they assert that no interrupt
  is being serviced, and for the thread context also that the scheduler has started.
\<close>

definition RT_DEBUG_NOT_IN_INTERRUPT :: "kstate \<Rightarrow> unit option" where
  "RT_DEBUG_NOT_IN_INTERRUPT s = RT_ASSERT (irq_nest s = 0)"

definition RT_DEBUG_IN_THREAD_CONTEXT :: "kstate \<Rightarrow> unit option" where
  "RT_DEBUG_IN_THREAD_CONTEXT s = RT_ASSERT (rt_thread_self s \<noteq> None \<and> irq_nest s = 0)"

declare RT_DEBUG_NOT_IN_INTERRUPT_def [simp] RT_DEBUG_IN_THREAD_CONTEXT_def [simp]

end
