(* ===== verification/Rt_Kservice.thy ===== *)
theory Rt_Kservice
  imports Rt_Prelude
begin

text \<open>
  Service routines of \<^verbatim>\<open>rt-thread/src/kservice.c\<close> that the kernel proper depends on: the
  find-first-set function with its byte table, through which the scheduler selects the highest
  ready priority, and the bounded string copy and comparison that object names go through.

  Bytes in memory are a function from addresses to bytes; the loops are the source's loops over
  pointers and a remaining count.
\<close>

section \<open>Find first set\<close>

definition lowest_bit_bitmap :: "rt_uint8 list" where
  "lowest_bit_bitmap =
    [0, 0, 1, 0, 2, 0, 1, 0, 3, 0, 1, 0, 2, 0, 1, 0,
     4, 0, 1, 0, 2, 0, 1, 0, 3, 0, 1, 0, 2, 0, 1, 0,
     5, 0, 1, 0, 2, 0, 1, 0, 3, 0, 1, 0, 2, 0, 1, 0,
     4, 0, 1, 0, 2, 0, 1, 0, 3, 0, 1, 0, 2, 0, 1, 0,
     6, 0, 1, 0, 2, 0, 1, 0, 3, 0, 1, 0, 2, 0, 1, 0,
     4, 0, 1, 0, 2, 0, 1, 0, 3, 0, 1, 0, 2, 0, 1, 0,
     5, 0, 1, 0, 2, 0, 1, 0, 3, 0, 1, 0, 2, 0, 1, 0,
     4, 0, 1, 0, 2, 0, 1, 0, 3, 0, 1, 0, 2, 0, 1, 0,
     7, 0, 1, 0, 2, 0, 1, 0, 3, 0, 1, 0, 2, 0, 1, 0,
     4, 0, 1, 0, 2, 0, 1, 0, 3, 0, 1, 0, 2, 0, 1, 0,
     5, 0, 1, 0, 2, 0, 1, 0, 3, 0, 1, 0, 2, 0, 1, 0,
     4, 0, 1, 0, 2, 0, 1, 0, 3, 0, 1, 0, 2, 0, 1, 0,
     6, 0, 1, 0, 2, 0, 1, 0, 3, 0, 1, 0, 2, 0, 1, 0,
     4, 0, 1, 0, 2, 0, 1, 0, 3, 0, 1, 0, 2, 0, 1, 0,
     5, 0, 1, 0, 2, 0, 1, 0, 3, 0, 1, 0, 2, 0, 1, 0,
     4, 0, 1, 0, 2, 0, 1, 0, 3, 0, 1, 0, 2, 0, 1, 0]"

definition rt_ffs :: "rt_uint32 \<Rightarrow> rt_uint32" where
  "rt_ffs v =
     (if v = 0 then 0
      else if v AND 0xff \<noteq> 0 then ucast (lowest_bit_bitmap ! unat (v AND 0xff)) + 1
      else if v AND 0xff00 \<noteq> 0
        then ucast (lowest_bit_bitmap ! unat (drop_bit 8 (v AND 0xff00))) + 9
      else if v AND 0xff0000 \<noteq> 0
        then ucast (lowest_bit_bitmap ! unat (drop_bit 16 (v AND 0xff0000))) + 17
      else ucast (lowest_bit_bitmap ! unat (drop_bit 24 (v AND 0xff000000))) + 25)"

section \<open>Bounded strings\<close>

type_synonym memory = "nat \<Rightarrow> rt_uint8"

text \<open>The padding loop \<^verbatim>\<open>while (--n != 0) *d++ = 0\<close>, with the count after the decrement.\<close>

fun pad_loop :: "nat \<Rightarrow> nat \<Rightarrow> memory \<Rightarrow> memory" where
  "pad_loop d 0 m = m"
| "pad_loop d (Suc k) m = pad_loop (Suc d) k (m(d := 0))"

fun strncpy_loop :: "nat \<Rightarrow> nat \<Rightarrow> nat \<Rightarrow> memory \<Rightarrow> memory" where
  "strncpy_loop d s 0 m = m"
| "strncpy_loop d s (Suc k) m =
     (let m' = m(d := m s) in
      if m' d = 0 then pad_loop (Suc d) k m' else strncpy_loop (Suc d) (Suc s) k m')"

definition rt_strncpy :: "nat \<Rightarrow> nat \<Rightarrow> nat \<Rightarrow> memory \<Rightarrow> memory" where
  "rt_strncpy dst src n m = strncpy_loop dst src n m"

text \<open>The result variable is a \<^verbatim>\<open>signed char\<close>: the difference is kept modulo 256.\<close>

fun strncmp_loop :: "nat \<Rightarrow> nat \<Rightarrow> nat \<Rightarrow> rt_uint8 \<Rightarrow> memory \<Rightarrow> rt_uint8" where
  "strncmp_loop cs ct 0 res m = res"
| "strncmp_loop cs ct (Suc k) res m =
     (let res' = m cs - m ct in
      if res' \<noteq> 0 \<or> m cs = 0 then res' else strncmp_loop (Suc cs) (Suc ct) k res' m)"

definition rt_strncmp :: "nat \<Rightarrow> nat \<Rightarrow> nat \<Rightarrow> memory \<Rightarrow> int" where
  "rt_strncmp cs ct count m = sint (strncmp_loop cs ct count 0 m)"

section \<open>Correctness of find first set\<close>

fun lowest_bits_ok :: "nat \<Rightarrow> rt_uint8 list \<Rightarrow> bool" where
  "lowest_bits_ok k [] \<longleftrightarrow> True"
| "lowest_bits_ok k (b # bs) \<longleftrightarrow>
     (k = 0 \<or> (unat b < 8 \<and> k mod 2 ^ unat b = 0 \<and> odd (k div 2 ^ unat b)))
     \<and> lowest_bits_ok (Suc k) bs"

lemma table_ok: "lowest_bits_ok 0 lowest_bit_bitmap"
  unfolding lowest_bit_bitmap_def by simp

lemma table_length: "length lowest_bit_bitmap = 256"
  unfolding lowest_bit_bitmap_def by simp

lemma lowest_bits_ok_nth:
  "lowest_bits_ok j bs \<Longrightarrow> k < length bs \<Longrightarrow> j + k \<noteq> 0 \<Longrightarrow>
    unat (bs ! k) < 8 \<and> (j + k) mod 2 ^ unat (bs ! k) = 0 \<and> odd ((j + k) div 2 ^ unat (bs ! k))"
proof (induction bs arbitrary: j k)
  case Nil
  then show ?case by simp
next
  case (Cons b bs)
  then show ?case
  proof (cases k)
    case 0
    with Cons.prems show ?thesis by auto
  next
    case (Suc k')
    with Cons.prems Cons.IH [of "Suc j" k'] show ?thesis by simp
  qed
qed

text \<open>
  For a byte that is not zero the table gives the index of its lowest set bit. A word whose bits
  from \<open>j\<close> to \<open>j + 7\<close> are that byte, and whose bits below \<open>j\<close> are clear, has it \<open>j\<close> places higher.
\<close>

lemma table_lowest:
  assumes "x < 256" and "x \<noteq> 0"
  shows "unat (lowest_bit_bitmap ! x) < 8" and "bit x (unat (lowest_bit_bitmap ! x))"
    and "i < unat (lowest_bit_bitmap ! x) \<Longrightarrow> \<not> bit x i"
proof -
  let ?b = "unat (lowest_bit_bitmap ! x)"
  have *: "?b < 8 \<and> x mod 2 ^ ?b = 0 \<and> odd (x div 2 ^ ?b)"
    using lowest_bits_ok_nth [OF table_ok, of x] assms by (simp add: table_length)
  then show "?b < 8" and "bit x ?b" by (simp_all add: bit_iff_odd)
  assume "i < ?b"
  then have "2 * 2 ^ i dvd (2 :: nat) ^ ?b"
    by (metis Suc_leI le_imp_power_dvd power_Suc)
  with * have "2 * 2 ^ i dvd x" by (metis dvd_eq_mod_eq_0 dvd_trans)
  then show "\<not> bit x i"
    by (auto simp: bit_iff_odd elim!: dvdE)
qed

lemma bit_byte:
  fixes v :: rt_uint32
  assumes "w = drop_bit j (v AND push_bit j 0xff)" and "j \<le> 24"
  shows "bit w i \<longleftrightarrow> i < 8 \<and> bit v (j + i)" and "unat w < 256"
proof -
  have m: "(0xff :: rt_uint32) = mask 8" by (simp add: mask_eq_exp_minus_1)
  show b: "bit w i \<longleftrightarrow> i < 8 \<and> bit v (j + i)" for i
    using assms(2) unfolding assms(1) m by (auto simp: bit_simps dest: bit_imp_le_length)
  have "w = take_bit 8 w"
    by (rule bit_eqI) (auto simp: bit_simps b)
  then have "unat w = take_bit 8 (unat w)" by (metis unsigned_take_bit_eq)
  also have "\<dots> < 2 ^ 8" by (rule take_bit_nat_less_exp)
  finally show "unat w < 256" by simp
qed

lemma ffs_byte:
  fixes v :: rt_uint32
  assumes w: "w = drop_bit j (v AND push_bit j 0xff)" and "j \<le> 24" and "w \<noteq> 0"
    and below: "\<And>i. i < j \<Longrightarrow> \<not> bit v i"
    and k: "k = unat (lowest_bit_bitmap ! unat w) + j"
  shows "k < 32 \<and> bit v k \<and> (\<forall>i<k. \<not> bit v i)"
proof -
  let ?b = "unat (lowest_bit_bitmap ! unat w)"
  have x: "unat w < 256" "unat w \<noteq> 0"
    using bit_byte(2) [OF w \<open>j \<le> 24\<close>] \<open>w \<noteq> 0\<close> by (simp_all add: unat_eq_zero)
  note t = table_lowest [OF x]
  have bw: "bit (unat w) i \<longleftrightarrow> i < 8 \<and> bit v (j + i)" for i
    using bit_byte(1) [OF w \<open>j \<le> 24\<close>] by (simp add: bit_unsigned_iff)
  have "bit v k" using t(2) bw [of ?b] k by (simp add: add.commute)
  moreover have "\<not> bit v i" if "i < k" for i
  proof (cases "i < j")
    case True
    then show ?thesis by (rule below)
  next
    case False
    with that k have "i - j < ?b" by simp
    with t(3) [of "i - j"] bw [of "i - j"] t(1) False show ?thesis by auto
  qed
  ultimately show ?thesis using k t(1) \<open>j \<le> 24\<close> by auto
qed

lemma byte_clear:
  fixes v :: rt_uint32
  assumes "v AND push_bit j 0xff = 0" and "j \<le> i" and "i < j + 8"
  shows "\<not> bit v i"
proof
  assume "bit v i"
  have m: "(0xff :: rt_uint32) = mask 8" by (simp add: mask_eq_exp_minus_1)
  from \<open>bit v i\<close> have "bit (v AND push_bit j 0xff) i"
    using assms(2,3) unfolding m by (auto simp: bit_simps dest: bit_imp_le_length)
  with assms(1) show False by simp
qed

lemma ucast_table:
  "x < 256 \<Longrightarrow> x \<noteq> 0 \<Longrightarrow> c \<le> 25 \<Longrightarrow>
    unat (ucast (lowest_bit_bitmap ! x) + of_nat c :: rt_uint32) = unat (lowest_bit_bitmap ! x) + c"
  using table_lowest(1) [of x]
  by (simp add: unat_word_ariths unsigned_ucast_eq take_bit_nat_eq_self unat_of_nat)

text \<open>
  The service theorem: for a value that is not zero, \<open>rt_ffs v - 1\<close> is the index of the lowest set
  bit; this is the fact the scheduler's choice of a priority rests on.
\<close>

lemma rt_ffs_zero [simp]: "rt_ffs 0 = 0"
  by (simp add: rt_ffs_def)

lemma rt_ffs_lowest:
  assumes "v \<noteq> 0"
  shows "\<exists>k. unat (rt_ffs v) = Suc k \<and> k < 32 \<and> bit v k \<and> (\<forall>i<k. \<not> bit v i)"
proof -
  define byte where "byte j = drop_bit j (v AND push_bit j 0xff)" for j
  have nz: "byte j \<noteq> 0" if "v AND push_bit j 0xff \<noteq> 0" "j \<le> 24" for j
  proof -
    from that(1) obtain i where i: "bit (v AND push_bit j 0xff) i"
      by (auto simp: bit_eq_iff)
    then have "j \<le> i" by (auto simp: bit_simps)
    with i have "bit (byte j) (i - j)" by (simp add: byte_def bit_simps)
    then show ?thesis by (metis bit_0_eq bot_apply bot_bool_def)
  qed
  have pick: ?thesis
    if "j \<le> 24" "v AND push_bit j 0xff \<noteq> 0" "\<And>i. i < j \<Longrightarrow> \<not> bit v i"
      "rt_ffs v = ucast (lowest_bit_bitmap ! unat (byte j)) + of_nat (Suc j)" for j
  proof -
    let ?k = "unat (lowest_bit_bitmap ! unat (byte j)) + j"
    have x: "unat (byte j) < 256" "unat (byte j) \<noteq> 0"
      using bit_byte(2) [OF byte_def that(1)] nz [OF that(2,1)] by (simp_all add: unat_eq_zero)
    have "unat (rt_ffs v) = Suc ?k"
      using ucast_table [OF x, of "Suc j"] that(1,4) by simp
    with ffs_byte [OF byte_def that(1) nz [OF that(2,1)] that(3) refl] show ?thesis by blast
  qed
  have byte0: "\<not> bit v i" if "v AND 0xff = 0" "i < 8" for i
    using byte_clear [of v 0 i] that by simp
  have byte1: "\<not> bit v i" if "v AND 0xff00 = 0" "8 \<le> i" "i < 16" for i
    using byte_clear [of v 8 i] that by simp
  have byte2: "\<not> bit v i" if "v AND 0xff0000 = 0" "16 \<le> i" "i < 24" for i
    using byte_clear [of v 16 i] that by simp
  have byte3: "\<not> bit v i" if "v AND 0xff000000 = 0" "24 \<le> i" "i < 32" for i
    using byte_clear [of v 24 i] that by simp
  consider "v AND 0xff \<noteq> 0" | "v AND 0xff = 0" "v AND 0xff00 \<noteq> 0"
    | "v AND 0xff = 0" "v AND 0xff00 = 0" "v AND 0xff0000 \<noteq> 0"
    | "v AND 0xff = 0" "v AND 0xff00 = 0" "v AND 0xff0000 = 0" by blast
  then show ?thesis
  proof cases
    case 1
    with assms show ?thesis by (intro pick [of 0]) (auto simp: rt_ffs_def byte_def)
  next
    case 2
    with assms byte0 show ?thesis by (intro pick [of 8]) (auto simp: rt_ffs_def byte_def)
  next
    case 3
    have "\<not> bit v i" if "i < 16" for i
      using byte0 [OF 3(1), of i] byte1 [OF 3(2), of i] that by linarith
    with 3 assms show ?thesis by (intro pick [of 16]) (auto simp: rt_ffs_def byte_def)
  next
    case 4
    have low: "\<not> bit v i" if "i < 24" for i
      using byte0 [OF 4(1), of i] byte1 [OF 4(2), of i] byte2 [OF 4(3), of i] that by linarith
    have "v AND 0xff000000 \<noteq> 0"
    proof
      assume "v AND 0xff000000 = 0"
      then have "\<not> bit v i" if "i < 32" for i using byte3 low that by (cases "i < 24") auto
      then have "v = 0" by (intro bit_eqI) auto
      with assms show False ..
    qed
    with 4 assms low show ?thesis by (intro pick [of 24]) (auto simp: rt_ffs_def byte_def)
  qed
qed

end
