(* ===== verification/Rt_Object.thy ===== *)
theory Rt_Object
  imports Rt_Kernel Rt_Kservice
begin

text \<open>
  Kernel objects, \<^verbatim>\<open>rt-thread/src/object.c\<close>: registration of an object in the container of its class
  and its removal. The search by name, which takes the scheduler lock, is in theory \<open>Rt_Thread\<close>.
  Memory comes from \<^verbatim>\<open>RT_KERNEL_MALLOC\<close>, which is outside the kernel: \<open>rt_object_allocate\<close> takes its
  result as an argument (\<open>None\<close> for the null pointer).
\<close>

section \<open>Operations\<close>

definition RT_NAME_MAX :: nat where "RT_NAME_MAX = 8"

text \<open>
  The content of the name field after \<^verbatim>\<open>rt_strncpy(object->name, name, RT_NAME_MAX)\<close>, for a name
  given by its bytes before the terminating zero.
\<close>

definition name_image :: "rt_uint8 list \<Rightarrow> rt_uint8 list" where
  "name_image nm = take RT_NAME_MAX (nm @ replicate RT_NAME_MAX 0)"

definition rt_object_init ::
  "oref \<Rightarrow> rt_object_class_type \<Rightarrow> rt_uint8 list \<Rightarrow> kstate \<Rightarrow> kstate" where
  "rt_object_init ob ty nm s =
     (let s1 = upd_obj ob (\<lambda>x. x\<lparr>o_type := class_code ty OR RT_Object_Class_Static\<rparr>) s;
          s2 = upd_obj ob (\<lambda>x. x\<lparr>o_name := name_image nm\<rparr>) s1
      in s2\<lparr>olists := ls_insert_after ty ob (olists s2)\<rparr>)"

definition rt_object_detach :: "oref \<Rightarrow> kstate \<Rightarrow> kstate" where
  "rt_object_detach ob s = s\<lparr>olists := ls_remove ob (olists s)\<rparr>"

definition rt_object_allocate ::
  "oref option \<Rightarrow> rt_object_class_type \<Rightarrow> rt_uint8 list \<Rightarrow> kstate \<Rightarrow> (oref option \<times> kstate) option" where
  "rt_object_allocate mem ty nm s =
     do {
       RT_DEBUG_NOT_IN_INTERRUPT s;
       case mem of
         None \<Rightarrow> Some (None, s)
       | Some ob \<Rightarrow>
           (let s1 = upd_obj ob (\<lambda>x. x\<lparr>o_type := class_code ty\<rparr>) s;
                s2 = upd_obj ob (\<lambda>x. x\<lparr>o_flag := 0\<rparr>) s1;
                s3 = upd_obj ob (\<lambda>x. x\<lparr>o_name := name_image nm\<rparr>) s2
            in Some (Some ob, s3\<lparr>olists := ls_insert_after ty ob (olists s3)\<rparr>))
     }"

definition rt_object_delete :: "oref \<Rightarrow> kstate \<Rightarrow> kstate option" where
  "rt_object_delete ob s =
     do {
       RT_ASSERT (o_type (objs s ob) AND RT_Object_Class_Static = 0);
       (let s1 = s\<lparr>olists := ls_remove ob (olists s)\<rparr>
        in Some (s1\<lparr>kfree_log := FreeObj ob # kfree_log s1\<rparr>))
     }"

definition rt_object_is_systemobject :: "oref \<Rightarrow> kstate \<Rightarrow> bool" where
  "rt_object_is_systemobject ob s \<longleftrightarrow> o_type (objs s ob) AND RT_Object_Class_Static \<noteq> 0"

section \<open>Names\<close>

lemma name_image_length [simp]: "length (name_image nm) = RT_NAME_MAX"
  by (simp add: name_image_def)

text \<open>The copy loop writes exactly the image, and nothing outside the destination field.\<close>

lemma pad_loop_apply:
  "pad_loop d k m a = (if d \<le> a \<and> a < d + k then 0 else m a)"
  by (induction k arbitrary: d m) auto

lemma strncpy_loop_image:
  assumes "\<And>i. i < length nm \<Longrightarrow> m (s + i) = nm ! i" and "m (s + length nm) = 0"
    and "\<And>i. i < length nm \<Longrightarrow> nm ! i \<noteq> 0"
    and "d + n \<le> s \<or> s + length nm < d"
  shows "strncpy_loop d s n m a =
    (if d \<le> a \<and> a < d + n then (take n (nm @ replicate n 0)) ! (a - d) else m a)"
  using assms
proof (induction n arbitrary: d s nm m)
  case 0
  then show ?case by auto
next
  case (Suc n)
  show ?case
  proof (cases nm)
    case Nil
    with Suc.prems(2) show ?thesis
      by (auto simp: Let_def pad_loop_apply nth_Cons split: nat.splits)
  next
    case (Cons c cs)
    let ?m = "m(d := m s)"
    have ne: "s \<noteq> d" "\<And>i. i \<le> length cs \<Longrightarrow> Suc s + i \<noteq> d"
      using Suc.prems(4) Cons by auto
    have ms: "m s = c" and "c \<noteq> 0" using Suc.prems(1,3) [of 0] Cons by simp_all
    have "?m (Suc s + i) = cs ! i" if "i < length cs" for i
      using Suc.prems(1) [of "Suc i"] ne(2) [of i] that Cons by simp
    moreover have "?m (Suc s + length cs) = 0"
      using Suc.prems(2) ne(2) [of "length cs"] Cons by simp
    moreover have "cs ! i \<noteq> 0" if "i < length cs" for i
      using Suc.prems(3) [of "Suc i"] that Cons by simp
    moreover have "Suc d + n \<le> Suc s \<or> Suc s + length cs < Suc d"
      using Suc.prems(4) Cons by auto
    ultimately have IH: "strncpy_loop (Suc d) (Suc s) n ?m a =
        (if Suc d \<le> a \<and> a < Suc d + n then (take n (cs @ replicate n 0)) ! (a - Suc d) else ?m a)"
      by (rule Suc.IH)
    have t: "take n (cs @ replicate (Suc n) 0) = take n (cs @ replicate n (0 :: rt_uint8))"
      by (simp add: replicate_append_same [symmetric] del: replicate.simps)
    show ?thesis
    proof (cases "a = d")
      case True
      with ms \<open>c \<noteq> 0\<close> Cons IH show ?thesis by (simp add: Let_def)
    next
      case False
      then have "a - d = Suc (a - Suc d)" if "d \<le> a" using that by simp
      with False ms \<open>c \<noteq> 0\<close> Cons IH t show ?thesis by (auto simp: Let_def)
    qed
  qed
qed

end
