(* ===== verification/Rt_Sched.thy ===== *)
theory Rt_Sched
  imports Rt_Object
begin

text \<open>
  The scheduler, \<^verbatim>\<open>rt-thread/src/scheduler.c\<close>, with \<^verbatim>\<open>rt_interrupt_enter/leave\<close> of \<^verbatim>\<open>irq.c\<close>: the ready
  queues, the bitmap of their priorities, the choice of the next thread and the scheduler lock.

  A context switch (\<^verbatim>\<open>rt_hw_context_switch\<close>) is the change of \<open>cur_thread\<close>: the registers and stacks
  it saves and restores are below the level of this model. What runs after \<^verbatim>\<open>rt_schedule()\<close> in a
  blocking call is a definition of its own in the theories of the blocking calls.

  The central notion is the scheduler invariant \<open>SI\<close>, which ties the state of every thread to the
  list its node is in and the bitmap to the ready queues.
\<close>

section \<open>Operations\<close>

text \<open>
  \<^verbatim>\<open>_rt_scheduler_stack_check\<close>: on an overflow the function ends in \<^verbatim>\<open>while (level)\<close>, with the
  interrupt level of a caller that has interrupts disabled, which is not zero: it does not return.
\<close>

definition stack_ok :: "rt_thread \<Rightarrow> bool" where
  "stack_ok th \<longleftrightarrow> \<not> (stack_magic th \<noteq> 0x23 \<or> sp th \<le> stack_addr th
     \<or> sp th > stack_addr th + stack_size th)"

definition rt_scheduler_stack_check :: "tid \<Rightarrow> kstate \<Rightarrow> unit option" where
  "rt_scheduler_stack_check t s = (if stack_ok (threads s t) then Some () else None)"

definition RT_THREAD_PRIORITY_MAX :: nat where "RT_THREAD_PRIORITY_MAX = 32"

definition rt_system_scheduler_init :: "kstate \<Rightarrow> kstate" where
  "rt_system_scheduler_init s =
     (let s1 = s\<lparr>lock_nest := 0\<rparr>;
          s2 = s1\<lparr>tlists := fold (\<lambda>p. ls_init_head (ReadyQ (word_of_nat p)))
                     [0..<RT_THREAD_PRIORITY_MAX] (tlists s1)\<rparr>;
          s3 = s2\<lparr>cur_priority := word_of_nat (RT_THREAD_PRIORITY_MAX - 1), cur_thread := None\<rparr>;
          s4 = s3\<lparr>ready_group := 0\<rparr>
      in s4\<lparr>tlists := ls_init_head DefunctQ (tlists s4)\<rparr>)"

text \<open>
  The thread at the front of the highest ready queue. Without a ready thread the code indexes the
  table with \<open>-1\<close>, or takes a list head for a thread: no defined result.
\<close>

definition highest_ready_priority :: "kstate \<Rightarrow> rt_uint32" where
  "highest_ready_priority s = rt_ffs (ready_group s) - 1"

definition next_thread :: "kstate \<Rightarrow> tid option" where
  "next_thread s =
     (if highest_ready_priority s < 32
      then (case lst (tlists s) (ReadyQ (ucast (highest_ready_priority s))) of
              [] \<Rightarrow> None | t # _ \<Rightarrow> Some t)
      else None)"

definition rt_system_scheduler_start :: "kstate \<Rightarrow> kstate option" where
  "rt_system_scheduler_start s =
     do { to_thread \<leftarrow> next_thread s; Some (s\<lparr>cur_thread := Some to_thread\<rparr>) }"

definition rt_schedule :: "kstate \<Rightarrow> kstate option" where
  "rt_schedule s =
     (if lock_nest s = 0 then
        do {
          to_thread \<leftarrow> next_thread s;
          if Some to_thread \<noteq> cur_thread s then
            (let s1 = s\<lparr>cur_priority := ucast (highest_ready_priority s),
                        cur_thread := Some to_thread\<rparr>
             in do { rt_scheduler_stack_check to_thread s1; Some s1 })
          else Some s
        }
      else Some s)"

definition rt_schedule_insert_thread :: "tid \<Rightarrow> kstate \<Rightarrow> kstate" where
  "rt_schedule_insert_thread t s =
     (let s1 = upd_thread t (\<lambda>th. th\<lparr>stat := RT_THREAD_READY\<rparr>) s;
          s2 = s1\<lparr>tlists := ls_insert_before (ReadyQ (current_priority (threads s1 t))) t (tlists s1)\<rparr>
      in s2\<lparr>ready_group := ready_group s2 OR number_mask (threads s2 t)\<rparr>)"

definition rt_schedule_remove_thread :: "tid \<Rightarrow> kstate \<Rightarrow> kstate" where
  "rt_schedule_remove_thread t s =
     (let s1 = s\<lparr>tlists := ls_remove t (tlists s)\<rparr>
      in if ls_isempty (ReadyQ (current_priority (threads s1 t))) (tlists s1)
         then s1\<lparr>ready_group := ready_group s1 AND NOT (number_mask (threads s1 t))\<rparr>
         else s1)"

definition rt_enter_critical :: "kstate \<Rightarrow> kstate" where
  "rt_enter_critical s = s\<lparr>lock_nest := lock_nest s + 1\<rparr>"

definition rt_exit_critical :: "kstate \<Rightarrow> kstate option" where
  "rt_exit_critical s =
     (let s1 = s\<lparr>lock_nest := lock_nest s - 1\<rparr>
      in if sint (lock_nest s1) \<le> 0 then rt_schedule (s1\<lparr>lock_nest := 0\<rparr>) else Some s1)"

definition rt_critical_level :: "kstate \<Rightarrow> rt_uint16" where
  "rt_critical_level s = lock_nest s"

definition rt_interrupt_enter :: "kstate \<Rightarrow> kstate" where
  "rt_interrupt_enter s = s\<lparr>irq_nest := irq_nest s + 1\<rparr>"

definition rt_interrupt_leave :: "kstate \<Rightarrow> kstate" where
  "rt_interrupt_leave s = s\<lparr>irq_nest := irq_nest s - 1\<rparr>"

definition rt_interrupt_get_nest :: "kstate \<Rightarrow> rt_uint8" where
  "rt_interrupt_get_nest s = irq_nest s"

section \<open>The scheduler invariant\<close>

text \<open>The cached mask is the bit of the current priority.\<close>

definition mask_ok :: "rt_thread \<Rightarrow> bool" where
  "mask_ok th \<longleftrightarrow> unat (current_priority th) < 32
     \<and> number_mask th = push_bit (unat (current_priority th)) 1"

text \<open>
  What the state of a thread says about its list node: a ready thread is in the queue of its current
  priority, a suspended thread is free or in a wait list, a closed one is free or defunct.
\<close>

fun thread_ok :: "rt_thread \<Rightarrow> lhead option \<Rightarrow> bool" where
  "thread_ok th l = (case stat th of
      RT_THREAD_INIT \<Rightarrow> l = None
    | RT_THREAD_READY \<Rightarrow> l = Some (ReadyQ (current_priority th)) \<and> mask_ok th \<and> stack_ok th
    | RT_THREAD_SUSPEND \<Rightarrow>
        (l = None \<or> (\<exists>ob. l = Some (SuspendQ ob) \<or> l = Some (SenderQ ob))) \<and> mask_ok th \<and> stack_ok th
    | RT_THREAD_RUNNING \<Rightarrow> False
    | RT_THREAD_CLOSE \<Rightarrow> l = None \<or> l = Some DefunctQ)"

declare thread_ok.simps [simp del]

definition bitmap_ok :: "(lhead, tid) lstore \<Rightarrow> rt_uint32 \<Rightarrow> bool" where
  "bitmap_ok L g \<longleftrightarrow> (\<forall>p. bit g (unat p) \<longleftrightarrow> lst L (ReadyQ p) \<noteq> [])"

definition SI :: "(tid \<Rightarrow> rt_thread) \<Rightarrow> (lhead, tid) lstore \<Rightarrow> rt_uint32 \<Rightarrow> bool" where
  "SI thr L g \<longleftrightarrow> lstore_wf L \<and> bitmap_ok L g \<and> (\<forall>t. thread_ok (thr t) (loc L t))"

abbreviation sched_inv :: "kstate \<Rightarrow> bool" where
  "sched_inv s \<equiv> SI (threads s) (tlists s) (ready_group s)"

text \<open>
  The invariant with the exception of one thread whose node is free: the situation inside the
  operations that move a thread between lists.
\<close>

definition SI_but :: "tid \<Rightarrow> (tid \<Rightarrow> rt_thread) \<Rightarrow> (lhead, tid) lstore \<Rightarrow> rt_uint32 \<Rightarrow> bool" where
  "SI_but t thr L g \<longleftrightarrow> lstore_wf L \<and> bitmap_ok L g \<and> loc L t = None
     \<and> (\<forall>u. u \<noteq> t \<longrightarrow> thread_ok (thr u) (loc L u))"

abbreviation sched_inv_but :: "tid \<Rightarrow> kstate \<Rightarrow> bool" where
  "sched_inv_but t s \<equiv> SI_but t (threads s) (tlists s) (ready_group s)"

lemma SI_wf: "SI thr L g \<Longrightarrow> lstore_wf L"
  by (simp add: SI_def)

lemma SI_thread: "SI thr L g \<Longrightarrow> thread_ok (thr t) (loc L t)"
  by (simp add: SI_def)

lemma SI_bitmap: "SI thr L g \<Longrightarrow> bit g (unat p) \<longleftrightarrow> lst L (ReadyQ p) \<noteq> []"
  by (simp add: SI_def bitmap_ok_def)

lemma SI_but_intro: "SI_but t thr L g \<Longrightarrow> thread_ok (thr t) None \<Longrightarrow> SI thr L g"
  by (metis SI_def SI_but_def)

lemma SI_but_wf: "SI_but t thr L g \<Longrightarrow> lstore_wf L"
  by (simp add: SI_but_def)

lemma SI_but_loc: "SI_but t thr L g \<Longrightarrow> loc L t = None"
  by (simp add: SI_but_def)

lemma SI_but_upd [simp]: "SI_but t (thr(t := x)) L g = SI_but t thr L g"
  by (auto simp: SI_but_def)

lemma SI_to_but: "SI thr L g \<Longrightarrow> loc L t = None \<Longrightarrow> SI_but t thr L g"
  by (simp add: SI_def SI_but_def)

text \<open>The scheduler reads only some fields of a thread: an update of the others keeps it in place.\<close>

lemma SI_upd_same:
  assumes "SI thr L g" and "stat x = stat (thr t)"
    and "current_priority x = current_priority (thr t)" and "number_mask x = number_mask (thr t)"
    and "stack_ok x = stack_ok (thr t)"
  shows "SI (thr(t := x)) L g"
  using assms by (auto simp: SI_def thread_ok.simps mask_ok_def split: thread_stat.splits)

lemma ready_loc:
  "SI thr L g \<Longrightarrow> stat (thr t) = RT_THREAD_READY \<longleftrightarrow> loc L t = Some (ReadyQ (current_priority (thr t)))"
  using SI_thread [of thr L g t] by (auto simp: thread_ok.simps split: thread_stat.splits)

lemma readyQ_member:
  assumes "SI thr L g" and "t \<in> set (lst L (ReadyQ p))"
  shows "stat (thr t) = RT_THREAD_READY" and "current_priority (thr t) = p"
proof -
  have "loc L t = Some (ReadyQ p)" using assms SI_wf wf_mem by metis
  then show "stat (thr t) = RT_THREAD_READY" "current_priority (thr t) = p"
    using SI_thread [OF assms(1), of t] by (auto simp: thread_ok.simps split: thread_stat.splits)
qed

lemma wait_stat:
  assumes "SI thr L g" and "loc L t = Some h" and "h = SuspendQ ob \<or> h = SenderQ ob"
  shows "stat (thr t) = RT_THREAD_SUSPEND"
  using SI_thread [OF assms(1), of t] assms(2,3)
  by (auto simp: thread_ok.simps split: thread_stat.splits)

lemma stat_mask_ok:
  "SI thr L g \<Longrightarrow> stat (thr t) = RT_THREAD_READY \<or> stat (thr t) = RT_THREAD_SUSPEND \<Longrightarrow>
    mask_ok (thr t) \<and> stack_ok (thr t)"
  using SI_thread [of thr L g t] by (auto simp: thread_ok.simps)

section \<open>Moving a thread out of and into a ready queue\<close>

text \<open>
  Before a removal the thread may already have its new state; what matters is that its mask is right
  and that it is not in a foreign ready queue.
\<close>

definition SI_any :: "tid \<Rightarrow> (tid \<Rightarrow> rt_thread) \<Rightarrow> (lhead, tid) lstore \<Rightarrow> rt_uint32 \<Rightarrow> bool" where
  "SI_any t thr L g \<longleftrightarrow> lstore_wf L \<and> bitmap_ok L g
     \<and> (\<forall>u. u \<noteq> t \<longrightarrow> thread_ok (thr u) (loc L u)) \<and> mask_ok (thr t)
     \<and> (\<forall>p. loc L t = Some (ReadyQ p) \<longrightarrow> p = current_priority (thr t))"

lemma SI_to_any:
  "SI thr L g \<Longrightarrow> stat (thr t) = RT_THREAD_READY \<or> stat (thr t) = RT_THREAD_SUSPEND \<Longrightarrow> SI_any t thr L g"
proof -
  assume si: "SI thr L g" and st: "stat (thr t) = RT_THREAD_READY \<or> stat (thr t) = RT_THREAD_SUSPEND"
  have "mask_ok (thr t) \<and> (\<forall>p. loc L t = Some (ReadyQ p) \<longrightarrow> p = current_priority (thr t))"
    using SI_thread [OF si, of t] st by (auto simp: thread_ok.simps)
  with si show ?thesis by (simp add: SI_def SI_any_def)
qed

lemma SI_any_upd:
  "SI_any t thr L g \<Longrightarrow> current_priority x = current_priority (thr t) \<Longrightarrow>
    number_mask x = number_mask (thr t) \<Longrightarrow> SI_any t (thr(t := x)) L g"
  by (simp add: SI_any_def mask_ok_def)

lemma remove_thread_frame [simp]:
  "threads (rt_schedule_remove_thread t s) = threads s"
  "timers (rt_schedule_remove_thread t s) = timers s"
  "objs (rt_schedule_remove_thread t s) = objs s"
  "tlists (rt_schedule_remove_thread t s) = ls_remove t (tlists s)"
  "tmlists (rt_schedule_remove_thread t s) = tmlists s"
  "olists (rt_schedule_remove_thread t s) = olists s"
  "cur_thread (rt_schedule_remove_thread t s) = cur_thread s"
  "cur_priority (rt_schedule_remove_thread t s) = cur_priority s"
  "lock_nest (rt_schedule_remove_thread t s) = lock_nest s"
  "irq_nest (rt_schedule_remove_thread t s) = irq_nest s"
  "ktick (rt_schedule_remove_thread t s) = ktick s"
  "sems (rt_schedule_remove_thread t s) = sems s"
  "mutexes (rt_schedule_remove_thread t s) = mutexes s"
  "events (rt_schedule_remove_thread t s) = events s"
  "mailboxes (rt_schedule_remove_thread t s) = mailboxes s"
  "mqs (rt_schedule_remove_thread t s) = mqs s"
  "mempools (rt_schedule_remove_thread t s) = mempools s"
  by (simp_all add: rt_schedule_remove_thread_def Let_def)

lemma insert_thread_frame [simp]:
  "threads (rt_schedule_insert_thread t s) = (threads s)(t := (threads s t)\<lparr>stat := RT_THREAD_READY\<rparr>)"
  "timers (rt_schedule_insert_thread t s) = timers s"
  "objs (rt_schedule_insert_thread t s) = objs s"
  "tlists (rt_schedule_insert_thread t s)
     = ls_insert_before (ReadyQ (current_priority (threads s t))) t (tlists s)"
  "tmlists (rt_schedule_insert_thread t s) = tmlists s"
  "olists (rt_schedule_insert_thread t s) = olists s"
  "ready_group (rt_schedule_insert_thread t s) = ready_group s OR number_mask (threads s t)"
  "cur_thread (rt_schedule_insert_thread t s) = cur_thread s"
  "cur_priority (rt_schedule_insert_thread t s) = cur_priority s"
  "lock_nest (rt_schedule_insert_thread t s) = lock_nest s"
  "irq_nest (rt_schedule_insert_thread t s) = irq_nest s"
  "ktick (rt_schedule_insert_thread t s) = ktick s"
  "sems (rt_schedule_insert_thread t s) = sems s"
  "mutexes (rt_schedule_insert_thread t s) = mutexes s"
  "events (rt_schedule_insert_thread t s) = events s"
  "mailboxes (rt_schedule_insert_thread t s) = mailboxes s"
  "mqs (rt_schedule_insert_thread t s) = mqs s"
  "mempools (rt_schedule_insert_thread t s) = mempools s"
  by (simp_all add: rt_schedule_insert_thread_def Let_def)

lemma remove_thread_but [sched_pres]:
  assumes "SI_any t (threads s) (tlists s) (ready_group s)"
  shows "sched_inv_but t (rt_schedule_remove_thread t s)"
proof -
  let ?p = "current_priority (threads s t)"
  from assms have wf: "lstore_wf (tlists s)" and bm: "bitmap_ok (tlists s) (ready_group s)"
    and m: "unat ?p < 32" "number_mask (threads s t) = push_bit (unat ?p) 1"
    and here: "loc (tlists s) t = Some (ReadyQ p) \<Longrightarrow> p = ?p" for p
    by (auto simp: SI_any_def mask_ok_def)
  have other: "remove1 t (lst (tlists s) (ReadyQ q)) = lst (tlists s) (ReadyQ q)" if "q \<noteq> ?p" for q
    using here [of q] that wf_mem [OF wf] by (intro remove1_idem) blast
  have bit: "bit (ready_group s) (unat q) \<longleftrightarrow> lst (tlists s) (ReadyQ q) \<noteq> []" for q
    using bm by (simp add: bitmap_ok_def)
  have "bitmap_ok (ls_remove t (tlists s)) (ready_group (rt_schedule_remove_thread t s))"
    unfolding bitmap_ok_def
  proof
    fix q
    show "bit (ready_group (rt_schedule_remove_thread t s)) (unat q)
        \<longleftrightarrow> lst (ls_remove t (tlists s)) (ReadyQ q) \<noteq> []"
    proof (cases "q = ?p")
      case True
      with wf bit [of ?p] m show ?thesis
        by (auto simp: rt_schedule_remove_thread_def Let_def ls_isempty_def bit_clear_mask)
    next
      case False
      then have "unat q \<noteq> unat ?p" by (simp add: word_unat_eq_iff)
      with False wf bit [of q] m other [OF False] show ?thesis
        by (auto simp: rt_schedule_remove_thread_def Let_def bit_clear_mask)
    qed
  qed
  with assms wf show ?thesis by (simp add: SI_but_def SI_any_def)
qed

lemma insert_thread_inv [sched_pres]:
  assumes "sched_inv_but t s" and "mask_ok (threads s t)" and "stack_ok (threads s t)"
  shows "sched_inv (rt_schedule_insert_thread t s)"
proof -
  let ?p = "current_priority (threads s t)"
  from assms have wf: "lstore_wf (tlists s)" and free: "loc (tlists s) t = None"
    and m: "unat ?p < 32" "number_mask (threads s t) = push_bit (unat ?p) 1"
    by (auto simp: SI_but_def mask_ok_def)
  have "bit (ready_group s OR push_bit (unat ?p) 1) (unat q) \<longleftrightarrow>
      lst (ls_insert_before (ReadyQ ?p) t (tlists s)) (ReadyQ q) \<noteq> []" for q
    using assms(1) m bit_set_mask [of "unat ?p" "ready_group s" "unat q"]
    by (cases "q = ?p") (auto simp: SI_but_def bitmap_ok_def word_unat_eq_iff)
  with m(2) have "bitmap_ok (tlists (rt_schedule_insert_thread t s))
      (ready_group (rt_schedule_insert_thread t s))" by (simp add: bitmap_ok_def)
  moreover have "thread_ok (threads (rt_schedule_insert_thread t s) u)
      (loc (tlists (rt_schedule_insert_thread t s)) u)" for u
    using assms by (auto simp: SI_but_def thread_ok.simps mask_ok_def stack_ok_def)
  ultimately show ?thesis using wf free by (simp add: SI_def)
qed

text \<open>A thread that is put into a wait list in the suspended state.\<close>

lemma wait_insert_inv [sched_pres]:
  assumes "SI_but t thr L g" and "stat (thr t) = RT_THREAD_SUSPEND" and "mask_ok (thr t)"
    and "stack_ok (thr t)" and "h = SuspendQ ob \<or> h = SenderQ ob"
    and "lstore_wf M" and "\<And>u. loc M u = (if u = t then Some h else loc L u)"
    and "\<And>p. lst M (ReadyQ p) = lst L (ReadyQ p)"
  shows "SI thr M g"
  using assms by (auto simp: SI_def SI_but_def thread_ok.simps bitmap_ok_def)

section \<open>The choice of the next thread\<close>

lemma highest_ready:
  assumes "sched_inv s" and "ready_group s \<noteq> 0"
  obtains p t ts where "p < 32" and "ucast (highest_ready_priority s) = p"
    and "highest_ready_priority s < 32"
    and "lst (tlists s) (ReadyQ p) = t # ts" and "\<And>q. q < p \<Longrightarrow> lst (tlists s) (ReadyQ q) = []"
proof -
  obtain k where k: "unat (rt_ffs (ready_group s)) = Suc k" "k < 32" "bit (ready_group s) k"
    "\<forall>i<k. \<not> bit (ready_group s) i"
    using rt_ffs_lowest [OF assms(2)] by blast
  have h: "unat (highest_ready_priority s) = k"
    using k(1) unat_minus_one [of "rt_ffs (ready_group s)"]
    by (cases "rt_ffs (ready_group s) = 0") (auto simp: highest_ready_priority_def)
  let ?p = "ucast (highest_ready_priority s) :: rt_uint8"
  have p: "unat ?p = k"
    using k(2) h by (simp add: unsigned_ucast_eq take_bit_nat_eq_self)
  have "lst (tlists s) (ReadyQ ?p) \<noteq> []" using SI_bitmap [OF assms(1), of ?p] k(3) p by simp
  then obtain t ts where "lst (tlists s) (ReadyQ ?p) = t # ts" by (cases "lst (tlists s) (ReadyQ ?p)") auto
  moreover have "lst (tlists s) (ReadyQ q) = []" if "q < ?p" for q
    using SI_bitmap [OF assms(1), of q] k(4) that p by (simp add: word_less_nat_alt)
  moreover have "?p < 32" using p k(2) by (simp add: word_less_nat_alt)
  moreover have "highest_ready_priority s < 32" using h k(2) by (simp add: word_less_nat_alt)
  ultimately show ?thesis using that by blast
qed

lemma next_thread_highest:
  assumes "sched_inv s" and "next_thread s = Some t"
  shows "stat (threads s t) = RT_THREAD_READY"
    and "stat (threads s u) = RT_THREAD_READY \<Longrightarrow>
      current_priority (threads s t) \<le> current_priority (threads s u)"
proof -
  have "ready_group s \<noteq> 0"
    using assms(2) by (auto simp: next_thread_def highest_ready_priority_def)
  then obtain p t' ts where p: "ucast (highest_ready_priority s) = p"
      "lst (tlists s) (ReadyQ p) = t' # ts" "highest_ready_priority s < 32"
    and low: "\<And>q. q < p \<Longrightarrow> lst (tlists s) (ReadyQ q) = []"
    using highest_ready [OF assms(1)] by metis
  then have t: "t \<in> set (lst (tlists s) (ReadyQ p))" using assms(2) by (simp add: next_thread_def)
  show "stat (threads s t) = RT_THREAD_READY" using assms(1) t by (rule readyQ_member)
  assume u: "stat (threads s u) = RT_THREAD_READY"
  have "u \<in> set (lst (tlists s) (ReadyQ (current_priority (threads s u))))"
    using u ready_loc [OF assms(1)] wf_mem [OF SI_wf [OF assms(1)]] by simp
  then show "current_priority (threads s t) \<le> current_priority (threads s u)"
    using low readyQ_member(2) [OF assms(1) t] by (metis empty_iff list.set(1) not_le_imp_less)
qed

lemma next_thread_exists:
  assumes "sched_inv s" and "stat (threads s u) = RT_THREAD_READY"
  obtains t where "next_thread s = Some t"
proof -
  have "u \<in> set (lst (tlists s) (ReadyQ (current_priority (threads s u))))"
    using assms ready_loc [OF assms(1)] wf_mem [OF SI_wf [OF assms(1)]] by simp
  then have "bit (ready_group s) (unat (current_priority (threads s u)))"
    using SI_bitmap [OF assms(1)] by (metis empty_iff list.set(1))
  then have "ready_group s \<noteq> 0" by auto
  then obtain p t ts where "ucast (highest_ready_priority s) = p" "highest_ready_priority s < 32"
      "lst (tlists s) (ReadyQ p) = t # ts"
    using highest_ready [OF assms(1)] by metis
  then have "next_thread s = Some t" by (simp add: next_thread_def)
  then show ?thesis by (rule that)
qed

text \<open>
  \<open>rt_schedule\<close> returns whenever some thread is ready, changes nothing but the current thread and
  priority, and with the scheduler unlocked it leaves the chosen thread running.
\<close>

lemma rt_schedule_cases:
  assumes "sched_inv s" and "stat (threads s u) = RT_THREAD_READY"
  obtains t where "next_thread s = Some t"
    and "rt_schedule s = Some (if lock_nest s = 0 \<and> Some t \<noteq> cur_thread s
      then s\<lparr>cur_priority := ucast (highest_ready_priority s), cur_thread := Some t\<rparr> else s)"
proof -
  obtain t where t: "next_thread s = Some t" using assms by (rule next_thread_exists)
  have "stack_ok (threads s t)"
    using next_thread_highest(1) [OF assms(1) t] stat_mask_ok [OF assms(1)] by blast
  with t have "rt_schedule s = Some (if lock_nest s = 0 \<and> Some t \<noteq> cur_thread s
      then s\<lparr>cur_priority := ucast (highest_ready_priority s), cur_thread := Some t\<rparr> else s)"
    by (auto simp: rt_schedule_def rt_scheduler_stack_check_def Let_def)
  with t show ?thesis by (rule that)
qed

lemma rt_schedule_frame:
  assumes "rt_schedule s = Some s'"
  shows "s' = s\<lparr>cur_priority := cur_priority s', cur_thread := cur_thread s'\<rparr>"
  using assms by (auto simp: rt_schedule_def Let_def split: if_splits elim!: bind_SomeE)

lemma rt_schedule_same:
  assumes "rt_schedule s = Some s'"
  shows "threads s' = threads s" "timers s' = timers s" "objs s' = objs s" "tlists s' = tlists s"
    "tmlists s' = tmlists s" "olists s' = olists s" "ready_group s' = ready_group s"
    "lock_nest s' = lock_nest s" "irq_nest s' = irq_nest s" "ktick s' = ktick s" "sems s' = sems s"
    "mutexes s' = mutexes s" "events s' = events s" "mailboxes s' = mailboxes s" "mqs s' = mqs s"
    "mempools s' = mempools s" "kfree_log s' = kfree_log s"
  by (subst rt_schedule_frame [OF assms], simp)+

lemma rt_schedule_cur:
  assumes "rt_schedule s = Some s'" and "lock_nest s = 0"
  shows "cur_thread s' = next_thread s"
  using assms by (auto simp: rt_schedule_def Let_def split: if_splits elim!: bind_SomeE)

lemma rt_schedule_locked: "lock_nest s \<noteq> 0 \<Longrightarrow> rt_schedule s = Some s"
  by (simp add: rt_schedule_def)

end
