(* ===== verification/Rt_TimerCore.thy ===== *)
theory Rt_TimerCore
  imports Rt_Sched
begin

text \<open>
  The part of \<^verbatim>\<open>rt-thread/src/timer.c\<close> that threads depend on: initialisation, stopping, control,
  detaching and deleting of timers. Starting a timer and the expiry check, which depend on threads
  in turn, are in theory \<open>Rt_Timer\<close>.
\<close>

section \<open>Operations\<close>

definition rt_timer_init0 :: "tmref \<Rightarrow> timeout_fn \<Rightarrow> rt_tick \<Rightarrow> rt_uint8 \<Rightarrow> kstate \<Rightarrow> kstate" where
  "rt_timer_init0 r fn time flg s =
     (let s1 = upd_obj (OTimer r) (\<lambda>x. x\<lparr>o_flag := flg\<rparr>) s;
          s2 = upd_obj (OTimer r) (\<lambda>x. x\<lparr>o_flag := o_flag x AND NOT RT_TIMER_FLAG_ACTIVATED\<rparr>) s1;
          s3 = upd_timer r (\<lambda>x. x\<lparr>timeout_func := fn\<rparr>) s2;
          s4 = upd_timer r (\<lambda>x. x\<lparr>timeout_tick := 0, tm_init_tick := time\<rparr>) s3
      in s4\<lparr>tmlists := ls_init_node r (tmlists s4)\<rparr>)"

definition rt_timer_list_next_timeout :: "tmhead \<Rightarrow> kstate \<Rightarrow> rt_tick" where
  "rt_timer_list_next_timeout h s =
     (case lst (tmlists s) h of [] \<Rightarrow> RT_TICK_MAX | r # _ \<Rightarrow> timeout_tick (timers s r))"

definition rt_timer_remove :: "tmref \<Rightarrow> kstate \<Rightarrow> kstate" where
  "rt_timer_remove r s = s\<lparr>tmlists := ls_remove r (tmlists s)\<rparr>"

definition rt_timer_init ::
  "tmref \<Rightarrow> rt_uint8 list \<Rightarrow> timeout_fn \<Rightarrow> rt_tick \<Rightarrow> rt_uint8 \<Rightarrow> kstate \<Rightarrow> kstate" where
  "rt_timer_init r nm fn time flg s =
     rt_timer_init0 r fn time flg (rt_object_init (OTimer r) RT_Object_Class_Timer nm s)"

definition rt_timer_detach :: "tmref \<Rightarrow> kstate \<Rightarrow> rt_err \<times> kstate" where
  "rt_timer_detach r s = (- RT_EOK, rt_object_detach (OTimer r) (rt_timer_remove r s))"

definition rt_timer_create ::
  "tmref option \<Rightarrow> rt_uint8 list \<Rightarrow> timeout_fn \<Rightarrow> rt_tick \<Rightarrow> rt_uint8 \<Rightarrow> kstate
     \<Rightarrow> (tmref option \<times> kstate) option" where
  "rt_timer_create mem nm fn time flg s =
     do {
       (ob, s1) \<leftarrow> rt_object_allocate (map_option OTimer mem) RT_Object_Class_Timer nm s;
       case mem of
         None \<Rightarrow> Some (None, s1)
       | Some r \<Rightarrow> Some (Some r, rt_timer_init0 r fn time flg s1)
     }"

definition rt_timer_delete :: "tmref \<Rightarrow> kstate \<Rightarrow> (rt_err \<times> kstate) option" where
  "rt_timer_delete r s =
     do { s1 \<leftarrow> rt_object_delete (OTimer r) (rt_timer_remove r s); Some (- RT_EOK, s1) }"

definition rt_timer_stop :: "tmref \<Rightarrow> kstate \<Rightarrow> rt_err \<times> kstate" where
  "rt_timer_stop r s =
     (if o_flag (objs s (OTimer r)) AND RT_TIMER_FLAG_ACTIVATED = 0 then (- RT_ERROR, s)
      else
        (let s1 = rt_timer_remove r s;
             s2 = upd_obj (OTimer r) (\<lambda>x. x\<lparr>o_flag := o_flag x AND NOT RT_TIMER_FLAG_ACTIVATED\<rparr>) s1
         in (RT_EOK, s2)))"

text \<open>The argument is a pointer to a tick: its value goes in and comes out.\<close>

fun rt_timer_control :: "tmref \<Rightarrow> timer_cmd \<Rightarrow> rt_tick \<Rightarrow> kstate \<Rightarrow> rt_err \<times> rt_tick \<times> kstate" where
  "rt_timer_control r RT_TIMER_CTRL_GET_TIME arg s = (RT_EOK, tm_init_tick (timers s r), s)"
| "rt_timer_control r RT_TIMER_CTRL_SET_TIME arg s =
     (RT_EOK, arg, upd_timer r (\<lambda>x. x\<lparr>tm_init_tick := arg\<rparr>) s)"
| "rt_timer_control r RT_TIMER_CTRL_SET_ONESHOT arg s =
     (RT_EOK, arg,
      upd_obj (OTimer r) (\<lambda>x. x\<lparr>o_flag := o_flag x AND NOT RT_TIMER_FLAG_PERIODIC\<rparr>) s)"
| "rt_timer_control r RT_TIMER_CTRL_SET_PERIODIC arg s =
     (RT_EOK, arg,
      upd_obj (OTimer r) (\<lambda>x. x\<lparr>o_flag := o_flag x OR RT_TIMER_FLAG_PERIODIC\<rparr>) s)"

definition rt_system_timer_init :: "kstate \<Rightarrow> kstate" where
  "rt_system_timer_init s = s\<lparr>tmlists := ls_init_head HardTimers (tmlists s)\<rparr>"

section \<open>What the operations leave alone\<close>

lemma object_init_frame [simp]:
  "threads (rt_object_init ob ty nm s) = threads s"
  "timers (rt_object_init ob ty nm s) = timers s"
  "tlists (rt_object_init ob ty nm s) = tlists s"
  "tmlists (rt_object_init ob ty nm s) = tmlists s"
  "ready_group (rt_object_init ob ty nm s) = ready_group s"
  "cur_thread (rt_object_init ob ty nm s) = cur_thread s"
  "lock_nest (rt_object_init ob ty nm s) = lock_nest s"
  "irq_nest (rt_object_init ob ty nm s) = irq_nest s"
  "ktick (rt_object_init ob ty nm s) = ktick s"
  by (simp_all add: rt_object_init_def Let_def)

lemma timer_stop_frame [simp]:
  "threads (snd (rt_timer_stop r s)) = threads s"
  "timers (snd (rt_timer_stop r s)) = timers s"
  "tlists (snd (rt_timer_stop r s)) = tlists s"
  "olists (snd (rt_timer_stop r s)) = olists s"
  "ready_group (snd (rt_timer_stop r s)) = ready_group s"
  "cur_thread (snd (rt_timer_stop r s)) = cur_thread s"
  "cur_priority (snd (rt_timer_stop r s)) = cur_priority s"
  "lock_nest (snd (rt_timer_stop r s)) = lock_nest s"
  "irq_nest (snd (rt_timer_stop r s)) = irq_nest s"
  "ktick (snd (rt_timer_stop r s)) = ktick s"
  "sems (snd (rt_timer_stop r s)) = sems s"
  "mutexes (snd (rt_timer_stop r s)) = mutexes s"
  "events (snd (rt_timer_stop r s)) = events s"
  "mailboxes (snd (rt_timer_stop r s)) = mailboxes s"
  "mqs (snd (rt_timer_stop r s)) = mqs s"
  "mempools (snd (rt_timer_stop r s)) = mempools s"
  by (simp_all add: rt_timer_stop_def rt_timer_remove_def Let_def)

lemma timer_stop_obj [simp]:
  "ob \<noteq> OTimer r \<Longrightarrow> objs (snd (rt_timer_stop r s)) ob = objs s ob"
  "o_type (objs (snd (rt_timer_stop r s)) ob) = o_type (objs s ob)"
  by (simp_all add: rt_timer_stop_def rt_timer_remove_def Let_def)

lemma timer_detach_frame [simp]:
  "threads (snd (rt_timer_detach r s)) = threads s"
  "timers (snd (rt_timer_detach r s)) = timers s"
  "objs (snd (rt_timer_detach r s)) = objs s"
  "tlists (snd (rt_timer_detach r s)) = tlists s"
  "ready_group (snd (rt_timer_detach r s)) = ready_group s"
  "cur_thread (snd (rt_timer_detach r s)) = cur_thread s"
  "lock_nest (snd (rt_timer_detach r s)) = lock_nest s"
  "irq_nest (snd (rt_timer_detach r s)) = irq_nest s"
  by (simp_all add: rt_timer_detach_def rt_timer_remove_def rt_object_detach_def)

lemma timer_init0_frame [simp]:
  "threads (rt_timer_init0 r fn time flg s) = threads s"
  "tlists (rt_timer_init0 r fn time flg s) = tlists s"
  "ready_group (rt_timer_init0 r fn time flg s) = ready_group s"
  "cur_thread (rt_timer_init0 r fn time flg s) = cur_thread s"
  "lock_nest (rt_timer_init0 r fn time flg s) = lock_nest s"
  "irq_nest (rt_timer_init0 r fn time flg s) = irq_nest s"
  by (simp_all add: rt_timer_init0_def Let_def)

section \<open>The timer invariant\<close>

text \<open>
  The timer lists are well formed, and a timer in a list is active and in the list its flag selects.
  (The converse does not hold while a timeout function runs, nor after \<^verbatim>\<open>rt_timer_detach\<close>, which
  leaves the flag set.)
\<close>

definition timer_ok :: "rt_uint8 \<Rightarrow> tmhead option \<Rightarrow> bool" where
  "timer_ok fl l \<longleftrightarrow> (\<forall>h. l = Some h \<longrightarrow> bit fl 0 \<and> (h = SoftTimers \<longleftrightarrow> bit fl 2))"

lemma timer_ok_None [simp]: "timer_ok fl None"
  by (simp add: timer_ok_def)

definition TI :: "(oref \<Rightarrow> rt_object) \<Rightarrow> (tmhead, tmref) lstore \<Rightarrow> bool" where
  "TI ob M \<longleftrightarrow> lstore_wf M \<and> (\<forall>r. timer_ok (o_flag (ob (OTimer r))) (loc M r))"

abbreviation timer_inv :: "kstate \<Rightarrow> bool" where
  "timer_inv s \<equiv> TI (objs s) (tmlists s)"

lemma flag_activated [simp]: "(x :: rt_uint8) AND 1 = 0 \<longleftrightarrow> \<not> bit x 0"
  by (auto simp: and_one_eq odd_iff_mod_2_eq_one bit_0)

lemma flag_periodic [simp]: "(x :: rt_uint8) AND 2 = 0 \<longleftrightarrow> \<not> bit x 1"
  using and_exp_eq_0_iff_not_bit [of x 1] by simp

lemma flag_soft [simp]: "(x :: rt_uint8) AND 4 = 0 \<longleftrightarrow> \<not> bit x 2"
  using and_exp_eq_0_iff_not_bit [of x 2] by simp

lemma TI_remove: "TI ob M \<Longrightarrow> TI ob (ls_remove r M)"
  by (auto simp: TI_def timer_ok_def)

lemma TI_flag:
  "TI ob M \<Longrightarrow> loc M r = None \<Longrightarrow> TI (ob(OTimer r := x)) M"
  by (auto simp: TI_def timer_ok_def)

lemma TI_other: "TI ob M \<Longrightarrow> (\<And>r. z \<noteq> OTimer r) \<Longrightarrow> TI (ob(z := x)) M"
  by (metis (no_types, lifting) TI_def fun_upd_other)

lemma timer_stop_inv: "timer_inv s \<Longrightarrow> timer_inv (snd (rt_timer_stop r s))"
  by (simp add: rt_timer_stop_def rt_timer_remove_def Let_def TI_remove TI_flag)

text \<open>After a stop the timer is in no list.\<close>

lemma timer_stop_loc:
  "timer_inv s \<Longrightarrow> loc (tmlists (snd (rt_timer_stop r s))) r = None"
proof -
  assume ti: "timer_inv s"
  show ?thesis
  proof (cases "bit (o_flag (objs s (OTimer r))) 0")
    case True
    then show ?thesis by (simp add: rt_timer_stop_def rt_timer_remove_def Let_def)
  next
    case False
    with ti have "loc (tmlists s) r = None"
      by (cases "loc (tmlists s) r") (auto simp: TI_def timer_ok_def)
    with False show ?thesis by (simp add: rt_timer_stop_def)
  qed
qed

lemma timer_stop_loc_other:
  "r' \<noteq> r \<Longrightarrow> loc (tmlists (snd (rt_timer_stop r s))) r' = loc (tmlists s) r'"
  by (simp add: rt_timer_stop_def rt_timer_remove_def Let_def)

text \<open>The effect of a stop on the lists and the flags, as functions of both.\<close>

lemma timer_stop_tmlists:
  "tmlists (snd (rt_timer_stop r s)) =
    (if bit (o_flag (objs s (OTimer r))) 0 then ls_remove r (tmlists s) else tmlists s)"
  by (simp add: rt_timer_stop_def rt_timer_remove_def Let_def)

lemma timer_stop_objs:
  "objs (snd (rt_timer_stop r s)) =
    (if bit (o_flag (objs s (OTimer r))) 0
     then (objs s)(OTimer r := (objs s (OTimer r))\<lparr>o_flag := o_flag (objs s (OTimer r)) AND NOT 1\<rparr>)
     else objs s)"
  by (simp add: rt_timer_stop_def rt_timer_remove_def Let_def)

end
