(* ===== verification/Rt_Thread.thy ===== *)
theory Rt_Thread
  imports Rt_TimerCore
begin

text \<open>
  Threads, \<^verbatim>\<open>rt-thread/src/thread.c\<close>: life cycle (initialisation, start, exit, detach, deletion),
  suspension and resumption, priority changes, yielding, and the search for objects by name of
  \<^verbatim>\<open>object.c\<close> and \<^verbatim>\<open>thread.c\<close>. \<open>rt_thread_sleep\<close> is in theory \<open>Rt_Timer\<close>, since it starts a timer.

  Parameters for code outside the kernel: the stack pointer that \<^verbatim>\<open>rt_hw_stack_init\<close> returns, and
  the results of \<^verbatim>\<open>RT_KERNEL_MALLOC\<close>.
\<close>

section \<open>Suspension and resumption\<close>

definition rt_thread_suspend :: "tid \<Rightarrow> kstate \<Rightarrow> rt_err \<times> kstate" where
  "rt_thread_suspend t s =
     (if stat (threads s t) \<noteq> RT_THREAD_READY then (- RT_ERROR, s)
      else
        (let s1 = upd_thread t (\<lambda>th. th\<lparr>stat := RT_THREAD_SUSPEND\<rparr>) s;
             s2 = rt_schedule_remove_thread t s1;
             s3 = snd (rt_timer_stop (ThreadTimer t) s2)
         in (RT_EOK, s3)))"

definition rt_thread_resume :: "tid \<Rightarrow> kstate \<Rightarrow> rt_err \<times> kstate" where
  "rt_thread_resume t s =
     (if stat (threads s t) \<noteq> RT_THREAD_SUSPEND then (- RT_ERROR, s)
      else
        (let s1 = s\<lparr>tlists := ls_remove t (tlists s)\<rparr>;
             s2 = snd (rt_timer_stop (ThreadTimer t) s1)
         in (RT_EOK, rt_schedule_insert_thread t s2)))"

text \<open>The timeout function of the built-in thread timer.\<close>

definition rt_thread_timeout :: "tid \<Rightarrow> kstate \<Rightarrow> kstate option" where
  "rt_thread_timeout t s =
     do {
       RT_ASSERT (stat (threads s t) = RT_THREAD_SUSPEND);
       (let s1 = upd_thread t (\<lambda>th. th\<lparr>error := - RT_ETIMEOUT\<rparr>) s;
            s2 = s1\<lparr>tlists := ls_remove t (tlists s1)\<rparr>;
            s3 = rt_schedule_insert_thread t s2
        in rt_schedule s3)
     }"

section \<open>Life cycle\<close>

definition rt_thread_init0 ::
  "tid \<Rightarrow> rt_uint8 list \<Rightarrow> nat \<Rightarrow> nat \<Rightarrow> rt_uint32 \<Rightarrow> rt_uint32 \<Rightarrow> rt_uint8 \<Rightarrow> rt_uint32 \<Rightarrow> rt_uint32
     \<Rightarrow> kstate \<Rightarrow> (rt_err \<times> kstate) option" where
  "rt_thread_init0 t nm entry param stack_start stksize priority tick hw_sp s =
     (let s1 = s\<lparr>tlists := ls_init_node t (tlists s)\<rparr>;
          s2 = upd_thread t (\<lambda>th. th\<lparr>entry_fn := entry, parameter := param\<rparr>) s1;
          s3 = upd_thread t (\<lambda>th. th\<lparr>stack_addr := stack_start, stack_size := stksize\<rparr>) s2;
          s4 = upd_thread t (\<lambda>th. th\<lparr>stack_magic := (if stksize = 0 then stack_magic th else 0x23)\<rparr>) s3;
          s5 = upd_thread t (\<lambda>th. th\<lparr>sp := hw_sp\<rparr>) s4
      in do {
           RT_ASSERT (unat priority < RT_THREAD_PRIORITY_MAX);
           (let s6 = upd_thread t (\<lambda>th. th\<lparr>init_priority := priority, current_priority := priority\<rparr>) s5;
                s7 = upd_thread t (\<lambda>th. th\<lparr>init_tick := tick, remaining_tick := tick\<rparr>) s6;
                s8 = upd_thread t (\<lambda>th. th\<lparr>error := RT_EOK, stat := RT_THREAD_INIT\<rparr>) s7;
                s9 = upd_thread t (\<lambda>th. th\<lparr>cleanup := None, user_data := 0\<rparr>) s8;
                s10 = rt_timer_init (ThreadTimer t) nm (Thread_timeout t) 0 RT_TIMER_FLAG_ONE_SHOT s9
            in Some (RT_EOK, s10))
         })"

definition rt_thread_init ::
  "tid \<Rightarrow> rt_uint8 list \<Rightarrow> nat \<Rightarrow> nat \<Rightarrow> rt_uint32 \<Rightarrow> rt_uint32 \<Rightarrow> rt_uint8 \<Rightarrow> rt_uint32 \<Rightarrow> rt_uint32
     \<Rightarrow> kstate \<Rightarrow> (rt_err \<times> kstate) option" where
  "rt_thread_init t nm entry param stack_start stksize priority tick hw_sp s =
     do {
       RT_ASSERT (stack_start \<noteq> 0);
       rt_thread_init0 t nm entry param stack_start stksize priority tick hw_sp
         (rt_object_init (OThread t) RT_Object_Class_Thread nm s)
     }"

definition rt_thread_startup :: "tid \<Rightarrow> kstate \<Rightarrow> (rt_err \<times> kstate) option" where
  "rt_thread_startup t s =
     do {
       RT_ASSERT (stat (threads s t) = RT_THREAD_INIT);
       (let s1 = upd_thread t (\<lambda>th. th\<lparr>current_priority := init_priority th\<rparr>) s;
            s2 = upd_thread t (\<lambda>th. th\<lparr>number_mask := push_bit (unat (current_priority th)) 1\<rparr>) s1;
            s3 = upd_thread t (\<lambda>th. th\<lparr>stat := RT_THREAD_SUSPEND\<rparr>) s2;
            s4 = snd (rt_thread_resume t s3)
        in if rt_thread_self s4 \<noteq> None
           then do { s5 \<leftarrow> rt_schedule s4; Some (RT_EOK, s5) }
           else Some (RT_EOK, s4))
     }"

definition rt_thread_detach :: "tid \<Rightarrow> kstate \<Rightarrow> rt_err \<times> kstate" where
  "rt_thread_detach t s =
     (let s1 = (if stat (threads s t) \<noteq> RT_THREAD_INIT then rt_schedule_remove_thread t s else s);
          s2 = snd (rt_timer_detach (ThreadTimer t) s1);
          s3 = upd_thread t (\<lambda>th. th\<lparr>stat := RT_THREAD_CLOSE\<rparr>) s2;
          s4 = rt_object_detach (OThread t) s3
      in (RT_EOK, if cleanup (threads s4 t) \<noteq> None
            then s4\<lparr>tlists := ls_insert_after DefunctQ t (tlists s4)\<rparr> else s4))"

text \<open>\<open>mem\<close> and \<open>stk\<close> are the results of the two allocations (thread object, stack).\<close>

definition rt_thread_create ::
  "tid option \<Rightarrow> rt_uint32 option \<Rightarrow> rt_uint8 list \<Rightarrow> nat \<Rightarrow> nat \<Rightarrow> rt_uint32 \<Rightarrow> rt_uint8 \<Rightarrow> rt_uint32
     \<Rightarrow> rt_uint32 \<Rightarrow> kstate \<Rightarrow> (tid option \<times> kstate) option" where
  "rt_thread_create mem stk nm entry param stksize priority tick hw_sp s =
     do {
       (ob, s1) \<leftarrow> rt_object_allocate (map_option OThread mem) RT_Object_Class_Thread nm s;
       case mem of
         None \<Rightarrow> Some (None, s1)
       | Some t \<Rightarrow>
           (case stk of
              None \<Rightarrow> do { s2 \<leftarrow> rt_object_delete (OThread t) s1; Some (None, s2) }
            | Some stack_start \<Rightarrow>
                do {
                  (r, s2) \<leftarrow> rt_thread_init0 t nm entry param stack_start stksize priority tick hw_sp s1;
                  Some (Some t, s2)
                })
     }"

definition rt_thread_delete :: "tid \<Rightarrow> kstate \<Rightarrow> rt_err \<times> kstate" where
  "rt_thread_delete t s =
     (let s1 = (if stat (threads s t) \<noteq> RT_THREAD_INIT then rt_schedule_remove_thread t s else s);
          s2 = snd (rt_timer_detach (ThreadTimer t) s1);
          s3 = upd_thread t (\<lambda>th. th\<lparr>stat := RT_THREAD_CLOSE\<rparr>) s2
      in (RT_EOK, s3\<lparr>tlists := ls_insert_after DefunctQ t (tlists s3)\<rparr>))"

text \<open>Executed by the current thread at its end; control never comes back to it.\<close>

definition rt_thread_exit :: "kstate \<Rightarrow> kstate option" where
  "rt_thread_exit s =
     (case rt_thread_self s of
        None \<Rightarrow> None
      | Some t \<Rightarrow>
          (let s1 = rt_schedule_remove_thread t s;
               s2 = upd_thread t (\<lambda>th. th\<lparr>stat := RT_THREAD_CLOSE\<rparr>) s1;
               s3 = snd (rt_timer_detach (ThreadTimer t) s2);
               s4 = (if rt_object_is_systemobject (OThread t) s3 \<and> cleanup (threads s3 t) = None
                     then rt_object_detach (OThread t) s3
                     else s3\<lparr>tlists := ls_insert_after DefunctQ t (tlists s3)\<rparr>)
           in rt_schedule s4))"

section \<open>Yielding and priorities\<close>

definition rt_thread_yield :: "kstate \<Rightarrow> (rt_err \<times> kstate) option" where
  "rt_thread_yield s =
     (case rt_thread_self s of
        None \<Rightarrow> None
      | Some t \<Rightarrow>
          if stat (threads s t) = RT_THREAD_READY \<and> ls_next_ne_prev t (tlists s) then
            (let s1 = s\<lparr>tlists := ls_remove t (tlists s)\<rparr>;
                 s2 = s1\<lparr>tlists := ls_insert_before (ReadyQ (current_priority (threads s1 t))) t
                            (tlists s1)\<rparr>
             in do { s3 \<leftarrow> rt_schedule s2; Some (RT_EOK, s3) })
          else Some (RT_EOK, s))"

definition change_priority :: "tid \<Rightarrow> rt_uint8 \<Rightarrow> kstate \<Rightarrow> kstate" where
  "change_priority t p s =
     (if stat (threads s t) = RT_THREAD_READY then
        (let s1 = rt_schedule_remove_thread t s;
             s2 = upd_thread t (\<lambda>th. th\<lparr>current_priority := p\<rparr>) s1;
             s3 = upd_thread t (\<lambda>th. th\<lparr>number_mask := push_bit (unat (current_priority th)) 1\<rparr>) s2
         in rt_schedule_insert_thread t s3)
      else
        (let s2 = upd_thread t (\<lambda>th. th\<lparr>current_priority := p\<rparr>) s
         in upd_thread t (\<lambda>th. th\<lparr>number_mask := push_bit (unat (current_priority th)) 1\<rparr>) s2))"

fun rt_thread_control :: "tid \<Rightarrow> thread_cmd \<Rightarrow> kstate \<Rightarrow> (rt_err \<times> kstate) option" where
  "rt_thread_control t (RT_THREAD_CTRL_CHANGE_PRIORITY p) s = Some (RT_EOK, change_priority t p s)"
| "rt_thread_control t RT_THREAD_CTRL_STARTUP s = rt_thread_startup t s"
| "rt_thread_control t RT_THREAD_CTRL_CLOSE s = Some (rt_thread_delete t s)"
| "rt_thread_control t RT_THREAD_CTRL_INFO s = Some (RT_EOK, s)"

section \<open>Search by name\<close>

text \<open>
  Comparison of a name field with the argument: \<^verbatim>\<open>rt_strncmp(object->name, name, RT_NAME_MAX) == 0\<close>,
  bytes past the end of a list reading as the terminating zero.
\<close>

fun name_cmp_loop :: "rt_uint8 list \<Rightarrow> rt_uint8 list \<Rightarrow> nat \<Rightarrow> rt_uint8 \<Rightarrow> rt_uint8" where
  "name_cmp_loop cs ct 0 res = res"
| "name_cmp_loop cs ct (Suc k) res =
     (let a = (case cs of [] \<Rightarrow> 0 | x # _ \<Rightarrow> x); b = (case ct of [] \<Rightarrow> 0 | y # _ \<Rightarrow> y);
          res' = a - b
      in if res' \<noteq> 0 \<or> a = 0 then res' else name_cmp_loop (tl cs) (tl ct) k res')"

definition name_matches :: "rt_uint8 list \<Rightarrow> rt_uint8 list \<Rightarrow> bool" where
  "name_matches field nm \<longleftrightarrow> name_cmp_loop field nm RT_NAME_MAX 0 = 0"

text \<open>
  The index check of the source lets \<^verbatim>\<open>RT_Object_Class_Unknown\<close> through, for which the container
  array has no entry.
\<close>

definition rt_object_find :: "rt_uint8 list option \<Rightarrow> rt_uint8 \<Rightarrow> kstate \<Rightarrow> (oref option \<times> kstate) option" where
  "rt_object_find name ty s =
     (case name of
        None \<Rightarrow> Some (None, s)
      | Some nm \<Rightarrow>
          if ty > RT_Object_Class_Unknown then Some (None, s)
          else do {
            RT_DEBUG_NOT_IN_INTERRUPT s;
            cls \<leftarrow> class_of_code ty;
            let s1 = rt_enter_critical s;
            let found = find (\<lambda>ob. name_matches (o_name (objs s1 ob)) nm) (lst (olists s1) cls);
            s2 \<leftarrow> rt_exit_critical s1;
            Some (found, s2)
          })"

definition rt_thread_find :: "rt_uint8 list \<Rightarrow> kstate \<Rightarrow> (oref option \<times> kstate) option" where
  "rt_thread_find nm s =
     (let s1 = (if rt_thread_self s \<noteq> None then rt_enter_critical s else s);
          found = find (\<lambda>ob. name_matches (o_name (objs s1 ob)) nm)
                    (lst (olists s1) RT_Object_Class_Thread)
      in do {
           s2 \<leftarrow> (if rt_thread_self s1 \<noteq> None then rt_exit_critical s1 else Some s1);
           Some (found, s2)
         })"

section \<open>Behaviour of suspension and resumption\<close>

lemma thread_suspend_ready:
  assumes "stat (threads s t) = RT_THREAD_READY"
  shows "fst (rt_thread_suspend t s) = RT_EOK"
    and "threads (snd (rt_thread_suspend t s))
      = (threads s)(t := (threads s t)\<lparr>stat := RT_THREAD_SUSPEND\<rparr>)"
    and "tlists (snd (rt_thread_suspend t s)) = ls_remove t (tlists s)"
  using assms by (simp_all add: rt_thread_suspend_def Let_def)

lemma thread_suspend_frame [simp]:
  "timers (snd (rt_thread_suspend t s)) = timers s"
  "olists (snd (rt_thread_suspend t s)) = olists s"
  "cur_thread (snd (rt_thread_suspend t s)) = cur_thread s"
  "cur_priority (snd (rt_thread_suspend t s)) = cur_priority s"
  "lock_nest (snd (rt_thread_suspend t s)) = lock_nest s"
  "irq_nest (snd (rt_thread_suspend t s)) = irq_nest s"
  "ktick (snd (rt_thread_suspend t s)) = ktick s"
  "sems (snd (rt_thread_suspend t s)) = sems s"
  "mutexes (snd (rt_thread_suspend t s)) = mutexes s"
  "events (snd (rt_thread_suspend t s)) = events s"
  "mailboxes (snd (rt_thread_suspend t s)) = mailboxes s"
  "mqs (snd (rt_thread_suspend t s)) = mqs s"
  "mempools (snd (rt_thread_suspend t s)) = mempools s"
  "ob \<noteq> OTimer (ThreadTimer t) \<Longrightarrow> objs (snd (rt_thread_suspend t s)) ob = objs s ob"
  by (simp_all add: rt_thread_suspend_def Let_def)

lemma thread_resume_frame [simp]:
  "timers (snd (rt_thread_resume t s)) = timers s"
  "olists (snd (rt_thread_resume t s)) = olists s"
  "cur_thread (snd (rt_thread_resume t s)) = cur_thread s"
  "cur_priority (snd (rt_thread_resume t s)) = cur_priority s"
  "lock_nest (snd (rt_thread_resume t s)) = lock_nest s"
  "irq_nest (snd (rt_thread_resume t s)) = irq_nest s"
  "ktick (snd (rt_thread_resume t s)) = ktick s"
  "sems (snd (rt_thread_resume t s)) = sems s"
  "mutexes (snd (rt_thread_resume t s)) = mutexes s"
  "events (snd (rt_thread_resume t s)) = events s"
  "mailboxes (snd (rt_thread_resume t s)) = mailboxes s"
  "mqs (snd (rt_thread_resume t s)) = mqs s"
  "mempools (snd (rt_thread_resume t s)) = mempools s"
  "ob \<noteq> OTimer (ThreadTimer t) \<Longrightarrow> objs (snd (rt_thread_resume t s)) ob = objs s ob"
  by (simp_all add: rt_thread_resume_def Let_def)

lemma thread_resume_suspended:
  assumes "stat (threads s t) = RT_THREAD_SUSPEND"
  shows "fst (rt_thread_resume t s) = RT_EOK"
    and "threads (snd (rt_thread_resume t s))
      = (threads s)(t := (threads s t)\<lparr>stat := RT_THREAD_READY\<rparr>)"
    and "tlists (snd (rt_thread_resume t s))
      = ls_insert_before (ReadyQ (current_priority (threads s t))) t (ls_remove t (tlists s))"
    and "ready_group (snd (rt_thread_resume t s)) = ready_group s OR number_mask (threads s t)"
  using assms by (simp_all add: rt_thread_resume_def Let_def)

lemma thread_suspend_but:
  assumes "sched_inv s" and "stat (threads s t) = RT_THREAD_READY"
  shows "sched_inv_but t (snd (rt_thread_suspend t s))"
proof -
  have "SI_any t (threads s) (tlists s) (ready_group s)" using assms by (simp add: SI_to_any)
  then have "SI_any t (threads (upd_thread t (\<lambda>th. th\<lparr>stat := RT_THREAD_SUSPEND\<rparr>) s))
      (tlists s) (ready_group s)"
    by (simp add: SI_any_upd)
  then have "sched_inv_but t
      (rt_schedule_remove_thread t (upd_thread t (\<lambda>th. th\<lparr>stat := RT_THREAD_SUSPEND\<rparr>) s))"
    by (intro remove_thread_but) simp
  with assms(2) show ?thesis by (simp add: rt_thread_suspend_def Let_def)
qed

lemma mask_ok_stat [simp]: "mask_ok (th\<lparr>stat := x\<rparr>) = mask_ok th" "mask_ok (th\<lparr>error := e\<rparr>) = mask_ok th"
  by (simp_all add: mask_ok_def)

lemma stack_ok_stat [simp]: "stack_ok (th\<lparr>stat := x\<rparr>) = stack_ok th" "stack_ok (th\<lparr>error := e\<rparr>) = stack_ok th"
  by (simp_all add: stack_ok_def)

lemma thread_suspend_inv [sched_pres]:
  assumes "sched_inv s"
  shows "sched_inv (snd (rt_thread_suspend t s))"
proof (cases "stat (threads s t) = RT_THREAD_READY")
  case True
  then have "thread_ok (threads (snd (rt_thread_suspend t s)) t) None"
    using stat_mask_ok [OF assms, of t] by (simp add: thread_suspend_ready thread_ok.simps)
  with thread_suspend_but [OF assms True] show ?thesis by (rule SI_but_intro)
next
  case False
  with assms show ?thesis by (simp add: rt_thread_suspend_def)
qed

lemma suspended_remove_but:
  assumes "SI thr L g" and "stat (thr t) = RT_THREAD_SUSPEND"
  shows "SI_but t thr (ls_remove t L) g"
proof -
  have l: "loc L t \<noteq> Some (ReadyQ p)" for p
    using SI_thread [OF assms(1), of t] assms(2) by (auto simp: thread_ok.simps)
  have "lst (ls_remove t L) (ReadyQ p) = lst L (ReadyQ p)" for p
    using l by (rule lst_remove_other)
  with assms(1) show ?thesis by (auto simp: SI_def SI_but_def bitmap_ok_def)
qed

lemma thread_resume_inv [sched_pres]:
  assumes "sched_inv s"
  shows "sched_inv (snd (rt_thread_resume t s))"
proof (cases "stat (threads s t) = RT_THREAD_SUSPEND")
  case True
  have "sched_inv_but t (s\<lparr>tlists := ls_remove t (tlists s)\<rparr>)"
    using suspended_remove_but [OF assms True] by simp
  then have "sched_inv (rt_schedule_insert_thread t
      (snd (rt_timer_stop (ThreadTimer t) (s\<lparr>tlists := ls_remove t (tlists s)\<rparr>))))"
    using stat_mask_ok [OF assms, of t] True by (intro insert_thread_inv) simp_all
  with True show ?thesis by (simp add: rt_thread_resume_def Let_def)
next
  case False
  with assms show ?thesis by (simp add: rt_thread_resume_def)
qed

lemma thread_suspend_timer_inv:
  "timer_inv s \<Longrightarrow> timer_inv (snd (rt_thread_suspend t s))"
  using timer_stop_inv by (simp add: rt_thread_suspend_def Let_def)

lemma thread_resume_timer_inv:
  "timer_inv s \<Longrightarrow> timer_inv (snd (rt_thread_resume t s))"
  using timer_stop_inv by (simp add: rt_thread_resume_def Let_def)

text \<open>A resumed thread is at the back of the queue of its priority.\<close>

lemma thread_resume_queue:
  assumes "sched_inv s" and "stat (threads s t) = RT_THREAD_SUSPEND"
  shows "lst (tlists (snd (rt_thread_resume t s))) (ReadyQ p) =
    (if p = current_priority (threads s t) then lst (tlists s) (ReadyQ p) @ [t]
     else lst (tlists s) (ReadyQ p))"
proof -
  have "loc (tlists s) t \<noteq> Some (ReadyQ q)" for q
    using SI_thread [OF assms(1), of t] assms(2) by (auto simp: thread_ok.simps)
  then show ?thesis
    by (simp add: thread_resume_suspended [OF assms(2)] lst_remove_other)
qed

lemma timeout_insert_inv:
  assumes "sched_inv s" and "stat (threads s t) = RT_THREAD_SUSPEND"
  defines "s1 \<equiv> upd_thread t (\<lambda>th. th\<lparr>error := - RT_ETIMEOUT\<rparr>) s"
  shows "rt_thread_timeout t s = rt_schedule (rt_schedule_insert_thread t (s1\<lparr>tlists := ls_remove t (tlists s1)\<rparr>))"
    and "sched_inv (rt_schedule_insert_thread t (s1\<lparr>tlists := ls_remove t (tlists s1)\<rparr>))"
proof -
  show "rt_thread_timeout t s = rt_schedule (rt_schedule_insert_thread t (s1\<lparr>tlists := ls_remove t (tlists s1)\<rparr>))"
    using assms(2) by (simp add: rt_thread_timeout_def Let_def s1_def)
  show "sched_inv (rt_schedule_insert_thread t (s1\<lparr>tlists := ls_remove t (tlists s1)\<rparr>))"
    unfolding s1_def using suspended_remove_but [OF assms(1,2)] stat_mask_ok [OF assms(1), of t] assms(2)
    by (intro insert_thread_inv) simp_all
qed

lemma thread_timeout_inv [sched_pres]:
  assumes "sched_inv s" and "rt_thread_timeout t s = Some s'"
  shows "sched_inv s'"
proof -
  from assms(2) have st: "stat (threads s t) = RT_THREAD_SUSPEND"
    by (auto simp: rt_thread_timeout_def Let_def split: if_splits)
  note ins = timeout_insert_inv [OF assms(1) st]
  show ?thesis using ins(2) rt_schedule_same [OF assms(2) [unfolded ins(1)]] by simp
qed

lemma thread_timeout_returns:
  assumes "sched_inv s" and "stat (threads s t) = RT_THREAD_SUSPEND"
  shows "\<exists>s'. rt_thread_timeout t s = Some s' \<and> mempools s' = mempools s"
proof -
  note ins = timeout_insert_inv [OF assms]
  obtain s' where "rt_thread_timeout t s = Some s'"
    unfolding ins(1) by (rule rt_schedule_cases [OF ins(2), of t]) (simp_all add: rt_schedule_insert_thread_def)
  with rt_schedule_same(16) [of _ s'] show ?thesis unfolding ins(1) by auto
qed

section \<open>Behaviour of the other operations\<close>

lemma change_priority_inv [sched_pres]:
  assumes "sched_inv s" and "unat p < 32"
  shows "sched_inv (change_priority t p s)"
proof (cases "stat (threads s t) = RT_THREAD_READY")
  case True
  let ?x = "(threads s t)\<lparr>current_priority := p, number_mask := push_bit (unat p) 1\<rparr>"
  let ?s1 = "(rt_schedule_remove_thread t s)\<lparr>threads := (threads s)(t := ?x)\<rparr>"
  have "sched_inv_but t (rt_schedule_remove_thread t s)"
    using assms(1) True by (intro remove_thread_but SI_to_any) simp_all
  then have but: "sched_inv_but t ?s1" by (simp del: fun_upd_apply)
  have "mask_ok ?x" "stack_ok ?x"
    using assms(2) stat_mask_ok [OF assms(1), of t] True by (auto simp: mask_ok_def stack_ok_def)
  then have "sched_inv (rt_schedule_insert_thread t ?s1)"
    using but by (intro insert_thread_inv) simp_all
  with True show ?thesis by (simp add: change_priority_def Let_def)
next
  case False
  have ok: "thread_ok (threads s t) (loc (tlists s) t)" using assms(1) by (rule SI_thread)
  let ?x = "(threads s t)\<lparr>current_priority := p, number_mask := push_bit (unat p) 1\<rparr>"
  have "thread_ok ?x (loc (tlists s) t)"
    using ok assms(2) False
    by (auto simp: thread_ok.simps mask_ok_def stack_ok_def split: thread_stat.splits)
  with assms(1) False show ?thesis by (simp add: change_priority_def Let_def SI_def)
qed

lemma change_priority_frame [simp]:
  "timers (change_priority t p s) = timers s"
  "objs (change_priority t p s) = objs s"
  "tmlists (change_priority t p s) = tmlists s"
  "cur_thread (change_priority t p s) = cur_thread s"
  "lock_nest (change_priority t p s) = lock_nest s"
  "irq_nest (change_priority t p s) = irq_nest s"
  "ktick (change_priority t p s) = ktick s"
  "sems (change_priority t p s) = sems s"
  "mutexes (change_priority t p s) = mutexes s"
  "events (change_priority t p s) = events s"
  "mailboxes (change_priority t p s) = mailboxes s"
  "mqs (change_priority t p s) = mqs s"
  "mempools (change_priority t p s) = mempools s"
  by (simp_all add: change_priority_def Let_def)

lemma change_priority_thread:
  "threads (change_priority t p s) =
    (threads s)(t := (threads s t)\<lparr>current_priority := p, number_mask := push_bit (unat p) 1\<rparr>)"
  by (cases "threads s t") (simp add: change_priority_def Let_def)

lemma change_priority_wait:
  "sched_inv s \<Longrightarrow> (\<And>q. h \<noteq> ReadyQ q) \<Longrightarrow> lst (tlists (change_priority t p s)) h = lst (tlists s) h"
proof -
  assume si: "sched_inv s" and h: "\<And>q. h \<noteq> ReadyQ q"
  show ?thesis
  proof (cases "stat (threads s t) = RT_THREAD_READY")
    case True
    then have "loc (tlists s) t \<noteq> Some h" using ready_loc [OF si] h by auto
    with True h show ?thesis by (auto simp: change_priority_def Let_def lst_remove_other)
  next
    case False
    then show ?thesis by (simp add: change_priority_def Let_def)
  qed
qed

lemma thread_yield_inv [sched_pres]:
  assumes "sched_inv s" and "rt_thread_yield s = Some (r, s')"
  shows "sched_inv s'"
proof (cases "s' = s")
  case True
  with assms(1) show ?thesis by simp
next
  case False
  then obtain t where t: "rt_thread_self s = Some t" "stat (threads s t) = RT_THREAD_READY"
    and sch: "rt_schedule (s\<lparr>tlists := ls_insert_before (ReadyQ (current_priority (threads s t))) t
      (ls_remove t (tlists s))\<rparr>) = Some s'"
    using assms(2)
    by (auto simp: rt_thread_yield_def Let_def split: option.splits if_splits elim!: bind_SomeE)
  let ?p = "current_priority (threads s t)"
  let ?L = "ls_insert_before (ReadyQ ?p) t (ls_remove t (tlists s))"
  have wf: "lstore_wf (tlists s)" using assms(1) by (rule SI_wf)
  have at: "loc (tlists s) t = Some (ReadyQ ?p)" using ready_loc [OF assms(1)] t(2) by simp
  have "lst ?L (ReadyQ q) = [] \<longleftrightarrow> lst (tlists s) (ReadyQ q) = []" for q
  proof (cases "q = ?p")
    case True
    have "t \<in> set (lst (tlists s) (ReadyQ ?p))" using wf at by (simp add: wf_mem)
    with True show ?thesis by auto
  next
    case False
    with at show ?thesis by (simp add: lst_remove_other)
  qed
  moreover have "loc ?L u = loc (tlists s) u" for u using at by simp
  ultimately have "SI (threads s) ?L (ready_group s)"
    using assms(1) wf by (simp add: SI_def bitmap_ok_def)
  then show ?thesis using rt_schedule_same [OF sch] by simp
qed

lemma rt_schedule_someE:
  assumes "rt_schedule s = Some s'" and "sched_inv s"
  shows "sched_inv s'"
  using rt_schedule_same [OF assms(1)] assms(2) by simp

lemma thread_startup_inv [sched_pres]:
  assumes "sched_inv s" and "rt_thread_startup t s = Some (r, s')"
    and "unat (init_priority (threads s t)) < 32" and "stack_ok (threads s t)"
  shows "sched_inv s'"
proof -
  let ?x = "(threads s t)\<lparr>current_priority := init_priority (threads s t),
    number_mask := push_bit (unat (init_priority (threads s t))) 1, stat := RT_THREAD_SUSPEND\<rparr>"
  let ?s3 = "s\<lparr>threads := (threads s)(t := ?x)\<rparr>"
  from assms(2) have st: "stat (threads s t) = RT_THREAD_INIT"
    by (auto simp: rt_thread_startup_def split: if_splits)
  have "loc (tlists s) t = None"
    using SI_thread [OF assms(1), of t] st by (simp add: thread_ok.simps)
  then have "SI_but t (threads s) (tlists s) (ready_group s)" using assms(1) by (rule SI_to_but [rotated])
  then have "sched_inv_but t ?s3" by (simp del: fun_upd_apply)
  moreover have "mask_ok ?x" "stack_ok ?x" using assms(3,4) by (auto simp: mask_ok_def stack_ok_def)
  ultimately have "sched_inv ?s3"
    by (intro SI_but_intro [of t]) (simp_all add: thread_ok.simps)
  then have inv4: "sched_inv (snd (rt_thread_resume t ?s3))" by (rule thread_resume_inv)
  from assms(2) st have "s' = snd (rt_thread_resume t ?s3) \<or> rt_schedule (snd (rt_thread_resume t ?s3)) = Some s'"
    by (auto simp: rt_thread_startup_def Let_def split: if_splits elim!: bind_SomeE)
  with inv4 show ?thesis using rt_schedule_someE by blast
qed

lemma closed_free_inv:
  assumes "sched_inv_but t s" and "stat x = RT_THREAD_CLOSE"
  shows "SI ((threads s)(t := x)) (tlists s) (ready_group s)"
    and "SI ((threads s)(t := x)) (ls_insert_after DefunctQ t (tlists s)) (ready_group s)"
  using assms by (auto simp: SI_def SI_but_def thread_ok.simps bitmap_ok_def)

text \<open>
  Taking a thread out of scheduling for good. A thread that has never been started is free; one that
  is ready or suspended leaves its queue.
\<close>

lemma thread_close_but:
  assumes "sched_inv s" and "stat (threads s t) \<noteq> RT_THREAD_CLOSE"
  shows "sched_inv_but t (if stat (threads s t) \<noteq> RT_THREAD_INIT
      then rt_schedule_remove_thread t s else s)"
proof (cases "stat (threads s t) = RT_THREAD_INIT")
  case True
  with SI_thread [OF assms(1), of t] have "loc (tlists s) t = None" by (simp add: thread_ok.simps)
  with assms(1) True show ?thesis by (simp add: SI_to_but)
next
  case False
  with SI_thread [OF assms(1), of t] assms(2)
  have "stat (threads s t) = RT_THREAD_READY \<or> stat (threads s t) = RT_THREAD_SUSPEND"
    by (auto simp: thread_ok.simps split: thread_stat.splits)
  then have "sched_inv_but t (rt_schedule_remove_thread t s)"
    using assms(1) by (intro remove_thread_but SI_to_any)
  with False show ?thesis by simp
qed

lemma thread_delete_inv [sched_pres]:
  assumes "sched_inv s" and "stat (threads s t) \<noteq> RT_THREAD_CLOSE"
  shows "sched_inv (snd (rt_thread_delete t s))"
proof -
  let ?s1 = "if stat (threads s t) \<noteq> RT_THREAD_INIT then rt_schedule_remove_thread t s else s"
  have eq: "threads ?s1 = threads s" by simp
  from closed_free_inv(2) [OF thread_close_but [OF assms],
      of "(threads s t)\<lparr>stat := RT_THREAD_CLOSE\<rparr>"] eq
  show ?thesis unfolding rt_thread_delete_def Let_def by (simp del: if_split split del: if_split)
qed

lemma thread_detach_inv [sched_pres]:
  assumes "sched_inv s" and "stat (threads s t) \<noteq> RT_THREAD_CLOSE"
  shows "sched_inv (snd (rt_thread_detach t s))"
proof -
  let ?s1 = "if stat (threads s t) \<noteq> RT_THREAD_INIT then rt_schedule_remove_thread t s else s"
  have eq: "threads ?s1 = threads s" by simp
  from closed_free_inv [OF thread_close_but [OF assms],
      of "(threads s t)\<lparr>stat := RT_THREAD_CLOSE\<rparr>"] eq
  show ?thesis unfolding rt_thread_detach_def Let_def rt_object_detach_def
    by (cases "cleanup (threads s t) = None") (simp_all split del: if_split)
qed

lemma thread_exit_inv [sched_pres]:
  assumes "sched_inv s" and "rt_thread_exit s = Some s'"
    and "\<And>t. rt_thread_self s = Some t \<Longrightarrow>
      stat (threads s t) = RT_THREAD_READY \<or> stat (threads s t) = RT_THREAD_SUSPEND"
  shows "sched_inv s'"
proof -
  from assms(2) obtain t where t: "rt_thread_self s = Some t"
    by (auto simp: rt_thread_exit_def split: option.splits)
  have but: "sched_inv_but t (rt_schedule_remove_thread t s)"
    using assms(1) assms(3) [OF t] by (intro remove_thread_but SI_to_any)
  note close = closed_free_inv [OF but, of "(threads s t)\<lparr>stat := RT_THREAD_CLOSE\<rparr>"]
  from assms(2) t obtain s4 where sch: "rt_schedule s4 = Some s'"
    and th: "threads s4 = (threads s)(t := (threads s t)\<lparr>stat := RT_THREAD_CLOSE\<rparr>)"
    and rg: "ready_group s4 = ready_group (rt_schedule_remove_thread t s)"
    and tl: "tlists s4 = ls_remove t (tlists s) \<or>
      tlists s4 = ls_insert_after DefunctQ t (ls_remove t (tlists s))"
    by (auto simp: rt_thread_exit_def Let_def rt_object_detach_def split: if_splits)
  have "sched_inv s4" using close th rg tl by auto
  with sch show ?thesis by (rule rt_schedule_someE)
qed

section \<open>Round robin\<close>

text \<open>
  The running thread of the highest ready priority goes to the back of its queue and the next thread
  of the queue runs.
\<close>

lemma next_thread_front:
  assumes si: "sched_inv s" and q: "lst (tlists s) (ReadyQ p) = u # us"
    and low: "\<And>r. r < p \<Longrightarrow> lst (tlists s) (ReadyQ r) = []"
  shows "next_thread s = Some u"
proof -
  have "bit (ready_group s) (unat p)" using SI_bitmap [OF si, of p] q by simp
  then have "ready_group s \<noteq> 0" by auto
  then obtain p' t ts where p': "ucast (highest_ready_priority s) = p'" "highest_ready_priority s < 32"
      "lst (tlists s) (ReadyQ p') = t # ts" "\<And>r. r < p' \<Longrightarrow> lst (tlists s) (ReadyQ r) = []"
    using highest_ready [OF si] by metis
  have "p' = p" using low p' q by (metis list.distinct(1) linorder_neqE)
  with p' q show ?thesis by (simp add: next_thread_def)
qed

lemma thread_yield_rotates:
  assumes si: "sched_inv s" and self: "rt_thread_self s = Some t" and lock: "lock_nest s = 0"
    and q: "lst (tlists s) (ReadyQ p) = t # u # us"
    and low: "\<And>r. r < p \<Longrightarrow> lst (tlists s) (ReadyQ r) = []"
  shows "\<exists>s'. rt_thread_yield s = Some (0, s') \<and> sched_inv s' \<and> cur_thread s' = Some u
    \<and> lst (tlists s') (ReadyQ p) = u # us @ [t]"
proof -
  have "t \<in> set (lst (tlists s) (ReadyQ p))" using q by simp
  then have t: "stat (threads s t) = RT_THREAD_READY" "current_priority (threads s t) = p"
    using readyQ_member [OF si] by blast+
  have wf: "lstore_wf (tlists s)" using si by (rule SI_wf)
  have at: "loc (tlists s) t = Some (ReadyQ p)" using wf q by (rule wf_hd_loc)
  let ?L = "ls_insert_before (ReadyQ p) t (ls_remove t (tlists s))"
  let ?s2 = "s\<lparr>tlists := ?L\<rparr>"
  have go: "ls_next_ne_prev t (tlists s)" using at q by (simp add: ls_next_ne_prev_def)
  have "rt_thread_yield (s\<lparr>lock_nest := 1\<rparr>) = Some (0, ?s2\<lparr>lock_nest := 1\<rparr>)"
    using t go self by (simp add: rt_thread_yield_def Let_def rt_schedule_locked)
  from thread_yield_inv [OF _ this] si have si2: "sched_inv ?s2" by simp
  have q2: "lst ?L (ReadyQ p) = u # us @ [t]" using q wf by simp
  have "lst ?L (ReadyQ r) = []" if "r < p" for r
    using low [OF that] that wf by (auto simp: remove1_idem)
  then have nx: "next_thread ?s2 = Some u" using next_thread_front [OF si2, of p u "us @ [t]"] q2 by simp
  obtain s' where s': "rt_schedule ?s2 = Some s'"
    using rt_schedule_cases [OF si2, of t] t by auto
  have "rt_thread_yield s = Some (0, s')" using t go self s' by (simp add: rt_thread_yield_def Let_def)
  moreover have "cur_thread s' = Some u" using rt_schedule_cur [OF s'] lock nx by simp
  ultimately show ?thesis
    using rt_schedule_someE [OF s' si2] rt_schedule_same(4) [OF s'] q2 by simp
qed

section \<open>The scheduler lock\<close>

text \<open>
  While the lock is held no switch happens; the outermost unlock makes up for it. The counter is a
  16 bit signed number, so the pairs may be nested up to 32767 times.
\<close>

lemma critical_outer: "lock_nest s = 0 \<Longrightarrow> rt_exit_critical (rt_enter_critical s) = rt_schedule s"
  by (cases s) (simp add: rt_exit_critical_def rt_enter_critical_def Let_def)

lemma critical_inner: "0 < sint (lock_nest s) \<Longrightarrow> rt_exit_critical (rt_enter_critical s) = Some s"
  by (simp add: rt_exit_critical_def rt_enter_critical_def Let_def)

lemma critical_no_switch: "lock_nest s + 1 \<noteq> 0 \<Longrightarrow> rt_schedule (rt_enter_critical s) = Some (rt_enter_critical s)"
  by (rule rt_schedule_locked) (simp add: rt_enter_critical_def)

section \<open>Finding objects\<close>

lemma class_of_code_unknown: "class_of_code RT_Object_Class_Unknown = None"
  by (simp add: class_of_code_def)

lemma class_of_class_code [simp]: "class_of_code (class_code ty) = Some ty"
  by (cases ty) (simp_all add: class_of_code_def)

lemma name_cmp_image:
  "\<forall>c\<in>set nm. c \<noteq> 0 \<Longrightarrow> name_cmp_loop (take n (nm @ replicate n 0)) nm n 0 = 0"
proof (induction n arbitrary: nm)
  case (Suc n)
  show ?case
  proof (cases nm)
    case Nil
    then show ?thesis by simp
  next
    case (Cons c cs)
    have "take n (cs @ replicate (Suc n) 0) = take n (cs @ replicate n (0 :: rt_uint8))"
      by (simp add: replicate_append_same [symmetric] del: replicate.simps)
    with Cons Suc.IH [of cs] Suc.prems show ?thesis by (simp add: Let_def)
  qed
qed simp

lemma name_matches_image: "\<forall>c\<in>set nm. c \<noteq> 0 \<Longrightarrow> name_matches (name_image nm) nm"
  unfolding name_matches_def name_image_def by (rule name_cmp_image)

text \<open>An object is found under its name right after its initialisation.\<close>

lemma object_find_new:
  assumes si: "sched_inv s" and rdy: "stat (threads s u) = RT_THREAD_READY" and irq: "irq_nest s = 0"
    and nm: "\<forall>c\<in>set nm. c \<noteq> 0"
  shows "\<exists>s'. rt_object_find (Some nm) (class_code ty) (rt_object_init ob ty nm s) = Some (Some ob, s')"
proof -
  let ?s1 = "rt_object_init ob ty nm s"
  have le: "\<not> class_code ty > RT_Object_Class_Unknown" by (cases ty) simp_all
  have hit: "find (\<lambda>x. name_matches (o_name (objs (rt_enter_critical ?s1) x)) nm)
      (lst (olists (rt_enter_critical ?s1)) ty) = Some ob"
    using name_matches_image [OF nm] by (simp add: rt_enter_critical_def rt_object_init_def Let_def)
  have si1: "sched_inv (?s1\<lparr>lock_nest := n\<rparr>)" for n using si by simp
  have "\<exists>s'. rt_exit_critical (rt_enter_critical ?s1) = Some s'"
  proof (cases "sint (lock_nest ?s1) \<le> 0")
    case True
    obtain s' where "rt_schedule (?s1\<lparr>lock_nest := 0\<rparr>) = Some s'"
      by (rule rt_schedule_cases [OF si1 [of 0], of u]) (use rdy in auto)
    with True show ?thesis by (simp add: rt_exit_critical_def rt_enter_critical_def Let_def)
  next
    case False
    then show ?thesis by (simp add: rt_exit_critical_def rt_enter_critical_def Let_def)
  qed
  then show ?thesis using le irq hit by (auto simp: rt_object_find_def Let_def)
qed

end
