(* ===== verification/Rt_Timer.thy ===== *)
theory Rt_Timer
  imports Rt_Thread
begin

text \<open>
  Starting timers, the expiry checks and the timer thread (\<^verbatim>\<open>rt-thread/src/timer.c\<close>), with
  \<^verbatim>\<open>rt_thread_sleep\<close> of \<^verbatim>\<open>thread.c\<close>.

  The timeout functions of the application are a parameter \<open>cb\<close>: applied to the function, its argument
  and the kernel state it gives the state after the call, \<open>None\<close> when the call does not return.
  \<^verbatim>\<open>rt_thread_timeout\<close>, the timeout function of the built-in thread timers, is the kernel's own. The
  loops of the checks are partial functions: a check that never ends has the value \<open>None\<close>.
\<close>

section \<open>Starting a timer\<close>

text \<open>
  The search loop with \<^verbatim>\<open>RT_TIMER_SKIP_LIST_LEVEL\<close> 1: \<open>rh\<close> is the node after which the timer goes
  (\<open>None\<close> for the list head), the list argument holds the nodes behind \<open>rh\<close>.
\<close>

fun row_search :: "(tmref \<Rightarrow> rt_timer) \<Rightarrow> rt_tick \<Rightarrow> tmref option \<Rightarrow> tmref list \<Rightarrow> tmref option" where
  "row_search T tk rh [] = rh"
| "row_search T tk rh (r # rs) =
     (if timeout_tick (T r) - tk = 0 then row_search T tk (Some r) rs
      else if timeout_tick (T r) - tk < RT_TICK_HALF then rh
      else row_search T tk (Some r) rs)"

definition timer_list_of :: "rt_uint8 \<Rightarrow> tmhead" where
  "timer_list_of flg = (if flg AND RT_TIMER_FLAG_SOFT_TIMER \<noteq> 0 then SoftTimers else HardTimers)"

definition rt_timer_start :: "tmref \<Rightarrow> kstate \<Rightarrow> (rt_err \<times> kstate) option" where
  "rt_timer_start r s =
     (let s1 = rt_timer_remove r s;
          s2 = upd_obj (OTimer r) (\<lambda>x. x\<lparr>o_flag := o_flag x AND NOT RT_TIMER_FLAG_ACTIVATED\<rparr>) s1
      in do {
        RT_ASSERT (tm_init_tick (timers s2 r) < RT_TICK_HALF);
        let s3 = upd_timer r (\<lambda>x. x\<lparr>timeout_tick := ktick s2 + tm_init_tick x\<rparr>) s2;
        let h = timer_list_of (o_flag (objs s3 (OTimer r)));
        let rh = row_search (timers s3) (timeout_tick (timers s3 r)) None (lst (tmlists s3) h);
        let s4 = s3\<lparr>random_nr := random_nr s3 + 1\<rparr>;
        let s5 = s4\<lparr>tmlists := (case rh of
                      None \<Rightarrow> ls_insert_after h r (tmlists s4)
                    | Some m \<Rightarrow> ls_insert_after_node m r (tmlists s4))\<rparr>;
        let s6 = upd_obj (OTimer r) (\<lambda>x. x\<lparr>o_flag := o_flag x OR RT_TIMER_FLAG_ACTIVATED\<rparr>) s5;
        if o_flag (objs s6 (OTimer r)) AND RT_TIMER_FLAG_SOFT_TIMER \<noteq> 0
           \<and> stat (threads s6 timer_thread) \<noteq> RT_THREAD_READY
        then do {
          s7 \<leftarrow> rt_schedule (snd (rt_thread_resume timer_thread s6));
          Some (- RT_EOK, s7)
        }
        else Some (- RT_EOK, s6)
      })"

section \<open>Sleeping\<close>

text \<open>
  The first part ends with the call of \<^verbatim>\<open>rt_schedule\<close>; the second runs when the thread is chosen
  again.
\<close>

definition rt_thread_sleep :: "rt_tick \<Rightarrow> kstate \<Rightarrow> kstate option" where
  "rt_thread_sleep tk s =
     (case rt_thread_self s of
        None \<Rightarrow> None
      | Some t \<Rightarrow>
          (let s1 = snd (rt_thread_suspend t s);
               s2 = snd (snd (rt_timer_control (ThreadTimer t) RT_TIMER_CTRL_SET_TIME tk s1))
           in do { (e, s3) \<leftarrow> rt_timer_start (ThreadTimer t) s2; rt_schedule s3 }))"

definition rt_thread_sleep_wake :: "tid \<Rightarrow> kstate \<Rightarrow> rt_err \<times> kstate" where
  "rt_thread_sleep_wake t s =
     (RT_EOK, if error (threads s t) = - RT_ETIMEOUT
              then upd_thread t (\<lambda>th. th\<lparr>error := RT_EOK\<rparr>) s else s)"

definition rt_thread_delay :: "rt_tick \<Rightarrow> kstate \<Rightarrow> kstate option" where
  "rt_thread_delay tk s = rt_thread_sleep tk s"

section \<open>The expiry checks\<close>

definition call_timeout ::
  "(nat \<Rightarrow> nat \<Rightarrow> kstate \<Rightarrow> kstate option) \<Rightarrow> timeout_fn \<Rightarrow> kstate \<Rightarrow> kstate option" where
  "call_timeout cb fn s =
     (case fn of Thread_timeout t \<Rightarrow> rt_thread_timeout t s | User_timeout f a \<Rightarrow> cb f a s)"

text \<open>The end of an iteration: a periodic timer that is still active is started again.\<close>

definition timer_rearm :: "tmref \<Rightarrow> kstate \<Rightarrow> kstate option" where
  "timer_rearm r s =
     (let fl = o_flag (objs s (OTimer r));
          s1 = upd_obj (OTimer r) (\<lambda>x. x\<lparr>o_flag := o_flag x AND NOT RT_TIMER_FLAG_ACTIVATED\<rparr>) s
      in if fl AND RT_TIMER_FLAG_PERIODIC \<noteq> 0 \<and> fl AND RT_TIMER_FLAG_ACTIVATED \<noteq> 0
         then do { (e, s2) \<leftarrow> rt_timer_start r s1; Some s2 }
         else Some s1)"

partial_function (option) timer_check_loop ::
  "(nat \<Rightarrow> nat \<Rightarrow> kstate \<Rightarrow> kstate option) \<Rightarrow> rt_tick \<Rightarrow> kstate \<Rightarrow> kstate option" where
  "timer_check_loop cb current_tick s =
     (case lst (tmlists s) HardTimers of
        [] \<Rightarrow> Some s
      | r # rs \<Rightarrow>
          if current_tick - timeout_tick (timers s r) < RT_TICK_HALF then
            do {
              s1 \<leftarrow> call_timeout cb (timeout_func (timers s r)) (rt_timer_remove r s);
              s2 \<leftarrow> timer_rearm r s1;
              timer_check_loop cb (ktick s1) s2
            }
          else Some s)"

definition rt_timer_check ::
  "(nat \<Rightarrow> nat \<Rightarrow> kstate \<Rightarrow> kstate option) \<Rightarrow> kstate \<Rightarrow> kstate option" where
  "rt_timer_check cb s = timer_check_loop cb (ktick s) s"

definition rt_timer_next_timeout_tick :: "kstate \<Rightarrow> rt_tick" where
  "rt_timer_next_timeout_tick s = rt_timer_list_next_timeout HardTimers s"

text \<open>
  The check of the timer thread walks the list with a node pointer \<open>n\<close> that it advances before the
  timeout function runs, with the scheduler unlocked: \<open>cb\<close> stands for all that happens meanwhile. The
  head of a foreign list is not a timer.
\<close>

partial_function (option) soft_timer_loop ::
  "(nat \<Rightarrow> nat \<Rightarrow> kstate \<Rightarrow> kstate option) \<Rightarrow> (tmhead, tmref) lptr \<Rightarrow> rt_tick \<Rightarrow> kstate \<Rightarrow> kstate option" where
  "soft_timer_loop cb n current_tick s =
     (if n = Head SoftTimers then rt_exit_critical s
      else case n of
        Head h \<Rightarrow> None
      | Node r \<Rightarrow>
          if current_tick - timeout_tick (timers s r) < RT_TICK_HALF then
            do {
              s1 \<leftarrow> rt_exit_critical (rt_timer_remove r s);
              s2 \<leftarrow> call_timeout cb (timeout_func (timers s1 r)) s1;
              s3 \<leftarrow> timer_rearm r (rt_enter_critical s2);
              soft_timer_loop cb (ls_next n (tmlists s)) (ktick s2) s3
            }
          else rt_exit_critical s)"

definition rt_soft_timer_check ::
  "(nat \<Rightarrow> nat \<Rightarrow> kstate \<Rightarrow> kstate option) \<Rightarrow> kstate \<Rightarrow> kstate option" where
  "rt_soft_timer_check cb s =
     (let s1 = rt_enter_critical s
      in soft_timer_loop cb (ls_next (Head SoftTimers) (tmlists s1)) (ktick s) s1)"

section \<open>The timer thread\<close>

text \<open>
  The body of the loop of \<^verbatim>\<open>rt_thread_timer_entry\<close> up to the check: the thread suspends itself, sleeps
  until the next timeout, or goes on at once (then the result says so). The wake-up of a sleep is
  \<open>rt_thread_sleep_wake\<close>; after it, and in the other cases, \<open>rt_soft_timer_check\<close> runs.
\<close>

datatype timer_wait = Wait_suspended | Wait_delay | Wait_none

definition rt_thread_timer_entry :: "kstate \<Rightarrow> (timer_wait \<times> kstate) option" where
  "rt_thread_timer_entry s =
     (let next_timeout = rt_timer_list_next_timeout SoftTimers s
      in if next_timeout = RT_TICK_MAX then
           (case rt_thread_self s of
              None \<Rightarrow> None
            | Some t \<Rightarrow>
                do { s1 \<leftarrow> rt_schedule (snd (rt_thread_suspend t s)); Some (Wait_suspended, s1) })
         else if next_timeout - ktick s < RT_TICK_HALF then
           do { s1 \<leftarrow> rt_thread_delay (next_timeout - ktick s) s; Some (Wait_delay, s1) }
         else Some (Wait_none, s))"

definition RT_TIMER_THREAD_PRIO :: rt_uint8 where "RT_TIMER_THREAD_PRIO = 4"

text \<open>\<open>stk\<close> and \<open>stksize\<close> are the address and the size of the static stack.\<close>

definition rt_system_timer_thread_init ::
  "nat \<Rightarrow> rt_uint32 \<Rightarrow> rt_uint32 \<Rightarrow> rt_uint32 \<Rightarrow> kstate \<Rightarrow> kstate option" where
  "rt_system_timer_thread_init entry stk stksize hw_sp s =
     (let s1 = s\<lparr>tmlists := ls_init_head SoftTimers (tmlists s)\<rparr>
      in do {
           (e, s2) \<leftarrow> rt_thread_init timer_thread [116, 105, 109, 101, 114] entry 0 stk stksize
                        RT_TIMER_THREAD_PRIO 10 hw_sp s1;
           (e', s3) \<leftarrow> rt_thread_startup timer_thread s2;
           Some s3
         })"

section \<open>What starting a timer does\<close>

text \<open>The state before the wake-up of the timer thread.\<close>

definition timer_linked :: "tmref \<Rightarrow> kstate \<Rightarrow> kstate" where
  "timer_linked r s =
     (let fl = o_flag (objs s (OTimer r));
          h = timer_list_of fl;
          tk = ktick s + tm_init_tick (timers s r);
          T = (timers s)(r := (timers s r)\<lparr>timeout_tick := tk\<rparr>);
          M = ls_remove r (tmlists s)
      in s\<lparr>timers := T, random_nr := random_nr s + 1,
           tmlists := (case row_search T tk None (lst M h) of
                        None \<Rightarrow> ls_insert_after h r M | Some m \<Rightarrow> ls_insert_after_node m r M),
           objs := (objs s)(OTimer r := (objs s (OTimer r))\<lparr>o_flag := (fl AND NOT 1) OR 1\<rparr>)\<rparr>)"

lemma timer_list_of_bit: "timer_list_of fl = (if bit fl 2 then SoftTimers else HardTimers)"
  by (simp add: timer_list_of_def)

lemma flag_clear_set [simp]:
  fixes fl :: rt_uint8
  shows "bit (fl AND - 2 OR 1) 2 = bit fl 2" "bit (fl AND - 2) 2 = bit fl 2"
    "bit (fl AND - 2 OR 1) (Suc 0) = bit fl (Suc 0)" "bit (fl AND - 2) (Suc 0) = bit fl (Suc 0)"
    "bit (fl AND - 2 OR 1) 0" "\<not> bit (fl AND - 2) 0"
proof -
  have eq: "- 2 = NOT (1 :: rt_uint8)" by simp
  show "bit (fl AND - 2 OR 1) 2 = bit fl 2" "bit (fl AND - 2) 2 = bit fl 2"
    "bit (fl AND - 2 OR 1) (Suc 0) = bit fl (Suc 0)" "bit (fl AND - 2) (Suc 0) = bit fl (Suc 0)"
    "bit (fl AND - 2 OR 1) 0" "\<not> bit (fl AND - 2) 0"
    unfolding eq by (simp_all only: bit_or_iff bit_and_iff bit_not_iff bit_1_iff) auto
qed

lemma timer_start_eq:
  "rt_timer_start r s =
     (if tm_init_tick (timers s r) < RT_TICK_HALF then
        (if bit (o_flag (objs s (OTimer r))) 2 \<and> stat (threads s timer_thread) \<noteq> RT_THREAD_READY
         then do { s' \<leftarrow> rt_schedule (snd (rt_thread_resume timer_thread (timer_linked r s)));
                   Some (0, s') }
         else Some (0, timer_linked r s))
      else None)"
  by (simp add: rt_timer_start_def timer_linked_def rt_timer_remove_def Let_def timer_list_of_bit
      cong: option.case_cong)

text \<open>Before the new timer stand those that do not expire after it.\<close>

definition not_after :: "(tmref \<Rightarrow> rt_timer) \<Rightarrow> rt_tick \<Rightarrow> tmref \<Rightarrow> bool" where
  "not_after T tk x \<longleftrightarrow> timeout_tick (T x) - tk = 0 \<or> \<not> timeout_tick (T x) - tk < RT_TICK_HALF"

lemma row_search_take:
  "row_search T tk rh xs =
    (case takeWhile (not_after T tk) xs of [] \<Rightarrow> rh | y # ys \<Rightarrow> Some (last (y # ys)))"
  by (induction xs arbitrary: rh) (auto simp: not_after_def split: list.splits)

lemma put_after_last:
  "distinct (ys @ zs) \<Longrightarrow> ys \<noteq> [] \<Longrightarrow> put_after (last ys) n (ys @ zs) = ys @ n # zs"
  using put_after_split [of "butlast ys" "last ys" zs n] append_butlast_last_id [of ys]
  by (metis append.assoc append_Cons append_Nil)

lemma row_insert:
  fixes M :: "('h, tmref) lstore" and T tk h r
  assumes "lstore_wf M" and "loc M r = None"
  defines "N \<equiv> (case row_search T tk None (lst M h) of
             None \<Rightarrow> ls_insert_after h r M | Some m \<Rightarrow> ls_insert_after_node m r M)"
  shows "lst N h = takeWhile (not_after T tk) (lst M h) @ r # dropWhile (not_after T tk) (lst M h)"
    and "h' \<noteq> h \<Longrightarrow> lst N h' = lst M h'"
    and "loc N = (loc M)(r \<mapsto> h)" and "lstore_wf N"
proof -
  let ?ys = "takeWhile (not_after T tk) (lst M h)" and ?zs = "dropWhile (not_after T tk) (lst M h)"
  have "(lst N h = ?ys @ r # ?zs) \<and> (h' \<noteq> h \<longrightarrow> lst N h' = lst M h') \<and> loc N = (loc M)(r \<mapsto> h)
      \<and> lstore_wf N"
  proof (cases ?ys)
    case Nil
    then have "lst M h = ?zs" by (metis append_Nil takeWhile_dropWhile_id)
    with Nil assms(1,2) show ?thesis by (auto simp: N_def row_search_take)
  next
    case (Cons y ys)
    then have m: "last ?ys \<in> set ?ys" by (intro last_in_set) simp
    then have "last ?ys \<in> set (lst M h)" using set_takeWhileD by fastforce
    then have at: "loc M (last ?ys) = Some h" using assms(1) by (simp add: wf_mem)
    have N: "N = ls_insert_after_node (last ?ys) r M"
      by (simp add: N_def row_search_take Cons)
    have d: "distinct (?ys @ ?zs)" using wf_distinct [OF assms(1), of h] by simp
    have "put_after (last ?ys) r (?ys @ ?zs) = ?ys @ r # ?zs"
      using Cons by (intro put_after_last [OF d]) simp
    then have "lst N h = ?ys @ r # ?zs" using at by (simp add: N)
    moreover have "h' \<noteq> h \<longrightarrow> lst N h' = lst M h'" using at by (simp add: N)
    moreover have "loc N = (loc M)(r \<mapsto> h)" using at by (auto simp: N)
    moreover have "lstore_wf N" unfolding N using assms(1) at assms(2) by (rule wf_insert_after_node)
    ultimately show ?thesis by blast
  qed
  then show "lst N h = ?ys @ r # ?zs" and "h' \<noteq> h \<Longrightarrow> lst N h' = lst M h'"
    and "loc N = (loc M)(r \<mapsto> h)" and "lstore_wf N" by blast+
qed

lemma timer_linked_frame [simp]:
  "threads (timer_linked r s) = threads s" "tlists (timer_linked r s) = tlists s"
  "ready_group (timer_linked r s) = ready_group s" "cur_thread (timer_linked r s) = cur_thread s"
  "cur_priority (timer_linked r s) = cur_priority s"
  "lock_nest (timer_linked r s) = lock_nest s" "irq_nest (timer_linked r s) = irq_nest s"
  "ktick (timer_linked r s) = ktick s" "olists (timer_linked r s) = olists s"
  "sems (timer_linked r s) = sems s" "mutexes (timer_linked r s) = mutexes s"
  "events (timer_linked r s) = events s" "mailboxes (timer_linked r s) = mailboxes s"
  "mqs (timer_linked r s) = mqs s" "mempools (timer_linked r s) = mempools s"
  by (simp_all add: timer_linked_def Let_def)

lemma timer_linked_timers:
  "timers (timer_linked r s) =
     (timers s)(r := (timers s r)\<lparr>timeout_tick := ktick s + tm_init_tick (timers s r)\<rparr>)"
  "objs (timer_linked r s) =
     (objs s)(OTimer r := (objs s (OTimer r))\<lparr>o_flag := (o_flag (objs s (OTimer r)) AND NOT 1) OR 1\<rparr>)"
  by (simp_all add: timer_linked_def Let_def)

lemma timer_linked_lists:
  fixes s r
  defines "h \<equiv> timer_list_of (o_flag (objs s (OTimer r)))"
    and "tk \<equiv> ktick s + tm_init_tick (timers s r)"
    and "xs \<equiv> \<lambda>h. remove1 r (lst (tmlists s) h)"
  assumes wf: "lstore_wf (tmlists s)"
  shows "lst (tmlists (timer_linked r s)) h' =
      (if h' = h then takeWhile (not_after (timers (timer_linked r s)) tk) (xs h)
         @ r # dropWhile (not_after (timers (timer_linked r s)) tk) (xs h) else xs h')"
    and "loc (tmlists (timer_linked r s)) = (loc (tmlists s))(r \<mapsto> h)"
    and "lstore_wf (tmlists (timer_linked r s))"
  using row_insert [of "ls_remove r (tmlists s)" r] wf
  by (simp_all add: timer_linked_def Let_def h_def tk_def xs_def fun_eq_iff)

lemma timer_linked_inv: "timer_inv s \<Longrightarrow> timer_inv (timer_linked r s)"
  by (auto simp: TI_def timer_linked_lists timer_linked_timers timer_ok_def timer_list_of_bit)

lemma timer_start_timer_inv:
  "timer_inv s \<Longrightarrow> rt_timer_start r s = Some (e, s') \<Longrightarrow> timer_inv s'"
  using timer_linked_inv [of s r] thread_resume_timer_inv [of "timer_linked r s" timer_thread]
  by (auto simp: timer_start_eq rt_schedule_same split: if_splits elim!: bind_SomeE)

lemma timer_start_sched_inv [sched_pres]:
  "sched_inv s \<Longrightarrow> rt_timer_start r s = Some (e, s') \<Longrightarrow> sched_inv s'"
  using thread_resume_inv [of "timer_linked r s" timer_thread]
  by (auto simp: timer_start_eq split: if_splits elim!: bind_SomeE dest!: rt_schedule_someE)

text \<open>Starting a timer of the system list always returns, without touching the threads.\<close>

lemma timer_start_hard:
  "\<not> bit (o_flag (objs s (OTimer r))) 2 \<Longrightarrow> tm_init_tick (timers s r) < RT_TICK_HALF \<Longrightarrow>
    rt_timer_start r s = Some (0, timer_linked r s)"
  by (simp add: timer_start_eq)

section \<open>Sorted timer lists\<close>

text \<open>
  Ticks wrap, so the order of a timer list is the order of the distances from a base tick. All
  distances are in the half window in which the comparison of the code is exact.
\<close>

abbreviation tm_off :: "rt_tick \<Rightarrow> (tmref \<Rightarrow> rt_timer) \<Rightarrow> tmref \<Rightarrow> nat" where
  "tm_off base T r \<equiv> unat (timeout_tick (T r) - base)"

definition tm_sorted :: "rt_tick \<Rightarrow> (tmref \<Rightarrow> rt_timer) \<Rightarrow> tmref list \<Rightarrow> bool" where
  "tm_sorted base T xs \<longleftrightarrow> sorted (map (tm_off base T) xs)
     \<and> (\<forall>r\<in>set xs. timeout_tick (T r) - base < RT_TICK_HALF)"

lemma not_after_base:
  assumes "timeout_tick (T x) - base < RT_TICK_HALF" and "tk - base < RT_TICK_HALF"
  shows "not_after T tk x \<longleftrightarrow> tm_off base T x \<le> unat (tk - base)"
  using tick_cmp_base [OF assms] tick_eq_base [of "timeout_tick (T x)" tk base]
  by (auto simp: not_after_def)

lemma sorted_insert_at:
  fixes f :: "'a \<Rightarrow> nat"
  assumes "sorted (map f xs)"
  shows "sorted (map f (takeWhile (\<lambda>x. f x \<le> f r) xs @ r # dropWhile (\<lambda>x. f x \<le> f r) xs))"
  using assms by (induction xs) (auto dest: set_takeWhileD set_dropWhileD)

lemma sorted_key_remove1: "sorted (map f xs) \<Longrightarrow> sorted (map f (remove1 r xs))"
  for f :: "'a \<Rightarrow> nat"
  by (rule sorted_map_remove1)

lemma tm_sorted_remove1: "tm_sorted base T xs \<Longrightarrow> tm_sorted base T (remove1 r xs)"
  by (auto simp: tm_sorted_def sorted_key_remove1 dest: notin_set_remove1)

lemma tm_sorted_cong: "(\<And>r. r \<in> set xs \<Longrightarrow> T' r = T r) \<Longrightarrow> tm_sorted base T' xs = tm_sorted base T xs"
  by (auto simp: tm_sorted_def cong: map_cong)

lemma timer_linked_sorted:
  assumes wf: "lstore_wf (tmlists s)" and old: "tm_sorted base (timers s) (lst (tmlists s) h)"
    and new: "ktick s + tm_init_tick (timers s r) - base < RT_TICK_HALF"
  shows "tm_sorted base (timers (timer_linked r s)) (lst (tmlists (timer_linked r s)) h)"
proof -
  let ?T = "timers (timer_linked r s)" and ?tk = "ktick s + tm_init_tick (timers s r)"
  let ?xs = "remove1 r (lst (tmlists s) h)"
  have nr: "r \<notin> set ?xs" using wf_distinct [OF wf, of h] by simp
  then have T: "?T x = timers s x" if "x \<in> set ?xs" for x
    using that by (auto simp: timer_linked_timers)
  have xs: "tm_sorted base ?T ?xs"
    using tm_sorted_remove1 [OF old] T by (subst tm_sorted_cong) auto
  have r: "timeout_tick (?T r) = ?tk" by (simp add: timer_linked_timers)
  show ?thesis
  proof (cases "h = timer_list_of (o_flag (objs s (OTimer r)))")
    case True
    have "takeWhile (not_after ?T ?tk) ?xs = takeWhile (\<lambda>x. tm_off base ?T x \<le> tm_off base ?T r) ?xs"
      using xs new by (intro takeWhile_cong) (auto simp: tm_sorted_def r intro!: not_after_base)
    moreover have "dropWhile (not_after ?T ?tk) ?xs
        = dropWhile (\<lambda>x. tm_off base ?T x \<le> tm_off base ?T r) ?xs"
      using xs new by (intro dropWhile_cong) (auto simp: tm_sorted_def r intro!: not_after_base)
    ultimately have "lst (tmlists (timer_linked r s)) h =
        takeWhile (\<lambda>x. tm_off base ?T x \<le> tm_off base ?T r) ?xs
        @ r # dropWhile (\<lambda>x. tm_off base ?T x \<le> tm_off base ?T r) ?xs"
      using timer_linked_lists(1) [OF wf, of r h] True by simp
    then show ?thesis
      using sorted_insert_at [of "tm_off base ?T" ?xs r] xs new r
      by (auto simp: tm_sorted_def dest: set_takeWhileD set_dropWhileD)
  next
    case False
    with timer_linked_lists(1) [OF wf, of r h] xs show ?thesis by simp
  qed
qed

text \<open>The new timer stands behind all timers that expire no later than it does, before the others.\<close>

lemma sorted_dropWhile_greater:
  fixes f :: "'a \<Rightarrow> nat"
  shows "sorted (map f xs) \<Longrightarrow> z \<in> set (dropWhile (\<lambda>x. f x \<le> k) xs) \<Longrightarrow> k < f z"
  by (induction xs) (auto split: if_splits)

lemma timer_linked_position:
  assumes wf: "lstore_wf (tmlists s)"
    and h: "h = timer_list_of (o_flag (objs s (OTimer r)))"
    and old: "tm_sorted base (timers s) (lst (tmlists s) h)"
    and new: "ktick s + tm_init_tick (timers s r) - base < RT_TICK_HALF"
  shows "\<exists>ys zs. remove1 r (lst (tmlists s) h) = ys @ zs
    \<and> lst (tmlists (timer_linked r s)) h = ys @ r # zs
    \<and> (\<forall>y\<in>set ys. tm_off base (timers s) y \<le> unat (ktick s + tm_init_tick (timers s r) - base))
    \<and> (\<forall>z\<in>set zs. unat (ktick s + tm_init_tick (timers s r) - base) < tm_off base (timers s) z)"
proof -
  let ?T = "timers (timer_linked r s)" and ?tk = "ktick s + tm_init_tick (timers s r)"
  let ?xs = "remove1 r (lst (tmlists s) h)"
  let ?P = "\<lambda>x. tm_off base (timers s) x \<le> unat (?tk - base)"
  have nr: "r \<notin> set ?xs" using wf_distinct [OF wf, of h] by simp
  have xs: "tm_sorted base (timers s) ?xs" using old by (rule tm_sorted_remove1)
  have na: "not_after ?T ?tk x \<longleftrightarrow> ?P x" if "x \<in> set ?xs" for x
  proof -
    have "?T x = timers s x" using nr that by (auto simp: timer_linked_timers)
    moreover have "timeout_tick (timers s x) - base < RT_TICK_HALF" using xs that by (auto simp: tm_sorted_def)
    ultimately show ?thesis using not_after_base [OF _ new, of ?T x] by simp
  qed
  have "lst (tmlists (timer_linked r s)) h = takeWhile ?P ?xs @ r # dropWhile ?P ?xs"
    using timer_linked_lists(1) [OF wf, of r h] h na
    by (simp cong: takeWhile_cong dropWhile_cong)
  moreover have "\<forall>y\<in>set (takeWhile ?P ?xs). ?P y" by (auto dest: set_takeWhileD)
  moreover have "\<forall>z\<in>set (dropWhile ?P ?xs). unat (?tk - base) < tm_off base (timers s) z"
    using xs by (auto simp: tm_sorted_def intro: sorted_dropWhile_greater)
  ultimately show ?thesis by (metis takeWhile_dropWhile_id)
qed

section \<open>Timers of suspended threads\<close>

text \<open>
  A running thread timer belongs to a suspended thread, is a one-shot timer of the system list and
  times out that thread; only thread timers have the kernel's timeout function.
\<close>

definition tt_ok :: "(tid \<Rightarrow> rt_thread) \<Rightarrow> rt_timer \<Rightarrow> rt_uint8 \<Rightarrow> tmref \<Rightarrow> bool" where
  "tt_ok thr T fl r \<longleftrightarrow> (case r of
      ThreadTimer t \<Rightarrow> stat (thr t) = RT_THREAD_SUSPEND \<and> timeout_func T = Thread_timeout t
        \<and> \<not> bit fl 1 \<and> \<not> bit fl 2
    | UserTimer k \<Rightarrow> (\<exists>f a. timeout_func T = User_timeout f a))"

lemma tt_ok_simps [simp]:
  "tt_ok thr T fl (ThreadTimer t) \<longleftrightarrow> stat (thr t) = RT_THREAD_SUSPEND
     \<and> timeout_func T = Thread_timeout t \<and> \<not> bit fl (Suc 0) \<and> \<not> bit fl 2"
  "tt_ok thr T fl (UserTimer k) \<longleftrightarrow> (\<exists>f a. timeout_func T = User_timeout f a)"
  by (simp_all add: tt_ok_def)

definition TT :: "(tid \<Rightarrow> rt_thread) \<Rightarrow> (tmref \<Rightarrow> rt_timer) \<Rightarrow> (oref \<Rightarrow> rt_object)
    \<Rightarrow> (tmhead, tmref) lstore \<Rightarrow> bool" where
  "TT thr T ob M \<longleftrightarrow> (\<forall>r. loc M r \<noteq> None \<longrightarrow> tt_ok thr (T r) (o_flag (ob (OTimer r))) r)"

abbreviation thread_timers :: "kstate \<Rightarrow> bool" where
  "thread_timers s \<equiv> TT (threads s) (timers s) (objs s) (tmlists s)"

lemma TT_weaken:
  assumes "TT thr T ob M"
    and "\<And>r. loc N r \<noteq> None \<Longrightarrow> loc M r \<noteq> None \<and> T' r = T r \<and> o_flag (ob' (OTimer r)) = o_flag (ob (OTimer r))"
    and "\<And>t. loc N (ThreadTimer t) \<noteq> None \<Longrightarrow> stat (thr t) = RT_THREAD_SUSPEND \<Longrightarrow>
      stat (thr' t) = RT_THREAD_SUSPEND"
  shows "TT thr' T' ob' N"
  unfolding TT_def
proof (intro allI impI)
  fix r assume r: "loc N r \<noteq> None"
  with assms(1,2) have "tt_ok thr (T r) (o_flag (ob (OTimer r))) r" by (simp add: TT_def)
  with r assms(2) [OF r] assms(3) show "tt_ok thr' (T' r) (o_flag (ob' (OTimer r))) r"
    by (auto simp: tt_ok_def split: tmref.splits)
qed

lemma TT_D: "TT thr T ob M \<Longrightarrow> loc M r = Some h \<Longrightarrow> tt_ok thr (T r) (o_flag (ob (OTimer r))) r"
  by (simp add: TT_def)

text \<open>Suspending and resuming a thread stops its timer, so the timers of the others stay in order.\<close>

lemma TT_stop:
  assumes "timer_inv s" and "thread_timers s"
    and "\<And>u. u \<noteq> t \<Longrightarrow> stat (thr' u) = stat (threads s u)"
  shows "TT thr' (timers s) (objs (snd (rt_timer_stop (ThreadTimer t) s)))
    (tmlists (snd (rt_timer_stop (ThreadTimer t) s)))"
proof (rule TT_weaken [OF assms(2)])
  fix r
  let ?M = "tmlists (snd (rt_timer_stop (ThreadTimer t) s))"
  assume r: "loc ?M r \<noteq> None"
  then have ne: "r \<noteq> ThreadTimer t" using timer_stop_loc [OF assms(1), of "ThreadTimer t"] by auto
  with r show "loc (tmlists s) r \<noteq> None \<and> timers s r = timers s r \<and>
      o_flag (objs (snd (rt_timer_stop (ThreadTimer t) s)) (OTimer r)) = o_flag (objs s (OTimer r))"
    by (simp add: timer_stop_loc_other)
next
  fix u
  assume "loc (tmlists (snd (rt_timer_stop (ThreadTimer t) s))) (ThreadTimer u) \<noteq> None"
  then have "u \<noteq> t" using timer_stop_loc [OF assms(1), of "ThreadTimer t"] by auto
  then show "stat (threads s u) = RT_THREAD_SUSPEND \<Longrightarrow> stat (thr' u) = RT_THREAD_SUSPEND"
    by (simp add: assms(3))
qed

lemma thread_suspend_timers:
  "stat (threads s t) = RT_THREAD_READY \<Longrightarrow>
    tmlists (snd (rt_thread_suspend t s)) = tmlists (snd (rt_timer_stop (ThreadTimer t) s))"
  "stat (threads s t) = RT_THREAD_READY \<Longrightarrow>
    objs (snd (rt_thread_suspend t s)) = objs (snd (rt_timer_stop (ThreadTimer t) s))"
  by (simp_all add: rt_thread_suspend_def Let_def timer_stop_tmlists timer_stop_objs)

lemma thread_resume_timers:
  "stat (threads s t) = RT_THREAD_SUSPEND \<Longrightarrow>
    tmlists (snd (rt_thread_resume t s)) = tmlists (snd (rt_timer_stop (ThreadTimer t) s))"
  "stat (threads s t) = RT_THREAD_SUSPEND \<Longrightarrow>
    objs (snd (rt_thread_resume t s)) = objs (snd (rt_timer_stop (ThreadTimer t) s))"
  by (simp_all add: rt_thread_resume_def Let_def timer_stop_tmlists timer_stop_objs)

lemma thread_suspend_tt:
  "timer_inv s \<Longrightarrow> thread_timers s \<Longrightarrow> thread_timers (snd (rt_thread_suspend t s))"
  by (cases "stat (threads s t) = RT_THREAD_READY")
    (simp_all add: thread_suspend_timers thread_suspend_ready TT_stop, simp add: rt_thread_suspend_def)

lemma thread_resume_tt:
  "timer_inv s \<Longrightarrow> thread_timers s \<Longrightarrow> thread_timers (snd (rt_thread_resume t s))"
  by (cases "stat (threads s t) = RT_THREAD_SUSPEND")
    (simp_all add: thread_resume_timers thread_resume_suspended TT_stop, simp add: rt_thread_resume_def)

lemma tm_sorted_stop:
  "lstore_wf (tmlists s) \<Longrightarrow> tm_sorted base (timers s) (lst (tmlists s) h) \<Longrightarrow>
    tm_sorted base (timers s) (lst (tmlists (snd (rt_timer_stop r s))) h)"
  by (simp add: timer_stop_tmlists tm_sorted_remove1)

text \<open>The built-in timer of a thread that takes part in scheduling is initialised.\<close>

definition TH :: "(tid \<Rightarrow> rt_thread) \<Rightarrow> (tmref \<Rightarrow> rt_timer) \<Rightarrow> (oref \<Rightarrow> rt_object) \<Rightarrow> bool" where
  "TH thr T ob \<longleftrightarrow> (\<forall>t. stat (thr t) = RT_THREAD_READY \<or> stat (thr t) = RT_THREAD_SUSPEND \<longrightarrow>
     timeout_func (T (ThreadTimer t)) = Thread_timeout t
     \<and> \<not> bit (o_flag (ob (OTimer (ThreadTimer t)))) 1 \<and> \<not> bit (o_flag (ob (OTimer (ThreadTimer t)))) 2)"

abbreviation timers_init :: "kstate \<Rightarrow> bool" where
  "timers_init s \<equiv> TH (threads s) (timers s) (objs s)"

lemma TH_D:
  "TH thr T ob \<Longrightarrow> stat (thr t) = RT_THREAD_READY \<or> stat (thr t) = RT_THREAD_SUSPEND \<Longrightarrow>
     timeout_func (T (ThreadTimer t)) = Thread_timeout t
     \<and> \<not> bit (o_flag (ob (OTimer (ThreadTimer t)))) 1 \<and> \<not> bit (o_flag (ob (OTimer (ThreadTimer t)))) 2"
  unfolding TH_def by blast

text \<open>It stays so under changes that keep the timeout functions and the kinds of the timers.\<close>

lemma TH_weaken:
  assumes "TH thr T ob" and "\<And>r. timeout_func (T' r) = timeout_func (T r)"
    and "\<And>r. bit (o_flag (ob' (OTimer r))) 1 = bit (o_flag (ob (OTimer r))) 1"
    and "\<And>r. bit (o_flag (ob' (OTimer r))) 2 = bit (o_flag (ob (OTimer r))) 2"
    and "\<And>t. stat (thr' t) = RT_THREAD_READY \<or> stat (thr' t) = RT_THREAD_SUSPEND \<Longrightarrow>
      stat (thr t) = RT_THREAD_READY \<or> stat (thr t) = RT_THREAD_SUSPEND"
  shows "TH thr' T' ob'"
  unfolding TH_def
proof (intro allI impI)
  fix t assume "stat (thr' t) = RT_THREAD_READY \<or> stat (thr' t) = RT_THREAD_SUSPEND"
  from TH_D [OF assms(1) assms(5) [OF this]] show "timeout_func (T' (ThreadTimer t)) = Thread_timeout t
      \<and> \<not> bit (o_flag (ob' (OTimer (ThreadTimer t)))) 1 \<and> \<not> bit (o_flag (ob' (OTimer (ThreadTimer t)))) 2"
    using assms(2-4) by simp
qed

section \<open>The expiry check returns and leaves no expired timer\<close>

definition due :: "kstate \<Rightarrow> tmref \<Rightarrow> bool" where
  "due s r \<longleftrightarrow> ktick s - timeout_tick (timers s r) < RT_TICK_HALF"

text \<open>
  The state the check works on, relative to a base tick from which all timeouts and the current tick
  are in the half window. A periodic timer of the system list needs a period: with the period zero
  the loop of the source would restart and expire it for ever.
\<close>

definition periodic_ok :: "rt_tick \<Rightarrow> kstate \<Rightarrow> bool" where
  "periodic_ok base s \<longleftrightarrow> (\<forall>r. bit (o_flag (objs s (OTimer r))) 1 \<and> \<not> bit (o_flag (objs s (OTimer r))) 2
     \<longrightarrow> 0 < tm_init_tick (timers s r)
       \<and> unat (ktick s - base) + unat (tm_init_tick (timers s r)) < unat RT_TICK_HALF)"

definition check_inv :: "rt_tick \<Rightarrow> kstate \<Rightarrow> bool" where
  "check_inv base s \<longleftrightarrow> sched_inv s \<and> timer_inv s \<and> thread_timers s \<and> timers_init s
     \<and> tm_sorted base (timers s) (lst (tmlists s) HardTimers) \<and> ktick s - base < RT_TICK_HALF
     \<and> periodic_ok base s"

text \<open>
  What is asked of the timeout functions of the application: they return, keep the invariant, and do
  not start system timers or change their periods (they may stop timers and wake threads).
\<close>

definition cb_step :: "rt_tick \<Rightarrow> kstate \<Rightarrow> kstate \<Rightarrow> bool" where
  "cb_step base s s' \<longleftrightarrow> check_inv base s' \<and> ktick s' = ktick s \<and> timers s' = timers s
     \<and> set (lst (tmlists s') HardTimers) \<subseteq> set (lst (tmlists s) HardTimers)
     \<and> (\<forall>r. bit (o_flag (objs s' (OTimer r))) 1 = bit (o_flag (objs s (OTimer r))) 1
           \<and> bit (o_flag (objs s' (OTimer r))) 2 = bit (o_flag (objs s (OTimer r))) 2)"

definition cb_ok :: "rt_tick \<Rightarrow> (nat \<Rightarrow> nat \<Rightarrow> kstate \<Rightarrow> kstate option) \<Rightarrow> bool" where
  "cb_ok base cb \<longleftrightarrow> (\<forall>f a s. check_inv base s \<longrightarrow> (\<exists>s'. cb f a s = Some s' \<and> cb_step base s s'))"

lemma due_off:
  "check_inv base s \<Longrightarrow> r \<in> set (lst (tmlists s) HardTimers) \<Longrightarrow>
    due s r \<longleftrightarrow> tm_off base (timers s) r \<le> unat (ktick s - base)"
  unfolding due_def check_inv_def tm_sorted_def by (intro tick_cmp_base) auto

lemma check_inv_remove:
  assumes "check_inv base s"
  shows "check_inv base (rt_timer_remove r s)"
proof -
  have "thread_timers (rt_timer_remove r s)"
    using assms unfolding check_inv_def
    by (elim conjE TT_weaken) (auto simp: rt_timer_remove_def split: if_splits)
  with assms show ?thesis
    by (simp add: check_inv_def rt_timer_remove_def TI_remove periodic_ok_def TI_def tm_sorted_remove1)
qed

text \<open>Clearing the flag of a timer that is in no list.\<close>

definition clear_active :: "tmref \<Rightarrow> kstate \<Rightarrow> kstate" where
  "clear_active r s = upd_obj (OTimer r) (\<lambda>x. x\<lparr>o_flag := o_flag x AND NOT RT_TIMER_FLAG_ACTIVATED\<rparr>) s"

lemma check_inv_clear:
  assumes "check_inv base s" and "loc (tmlists s) r = None"
  shows "check_inv base (clear_active r s)"
proof -
  have "thread_timers (clear_active r s)"
    using assms unfolding check_inv_def
    by (elim conjE TT_weaken) (auto simp: clear_active_def)
  moreover have "timers_init (clear_active r s)"
    using assms unfolding check_inv_def by (elim conjE TH_weaken) (auto simp: clear_active_def)
  ultimately show ?thesis using assms
    by (auto simp: check_inv_def clear_active_def TI_flag periodic_ok_def)
qed

lemma check_inv_linked:
  assumes inv: "check_inv base s" and hard: "\<not> bit (o_flag (objs s (OTimer r))) 2"
    and user: "timeout_func (timers s r) = User_timeout f a" and r: "r = UserTimer k"
    and win: "unat (ktick s - base) + unat (tm_init_tick (timers s r)) < unat RT_TICK_HALF"
  shows "check_inv base (timer_linked r s)"
proof -
  from inv have wf: "lstore_wf (tmlists s)" by (simp add: check_inv_def TI_def)
  have new: "ktick s + tm_init_tick (timers s r) - base < RT_TICK_HALF"
    using win by (rule tick_add_window)
  have "tm_sorted base (timers (timer_linked r s)) (lst (tmlists (timer_linked r s)) HardTimers)"
    using inv by (intro timer_linked_sorted [OF wf _ new]) (simp add: check_inv_def)
  moreover have "timer_inv (timer_linked r s)"
    using inv by (intro timer_linked_inv) (simp add: check_inv_def)
  moreover have "thread_timers (timer_linked r s)"
    using inv user unfolding check_inv_def TT_def r
    by (auto simp: timer_linked_lists [OF wf] timer_linked_timers)
  moreover have "periodic_ok base (timer_linked r s)"
    using inv by (auto simp: check_inv_def periodic_ok_def timer_linked_timers)
  moreover have "timers_init (timer_linked r s)"
    using inv unfolding check_inv_def by (elim conjE TH_weaken) (auto simp: timer_linked_timers)
  ultimately show ?thesis using inv by (simp add: check_inv_def)
qed

definition dues :: "kstate \<Rightarrow> tmref set" where
  "dues s = {r \<in> set (lst (tmlists s) HardTimers). due s r}"

text \<open>One iteration for a thread timer: its thread becomes ready with the error of a timeout.\<close>

lemma check_step_thread:
  assumes inv: "check_inv base s" and hd: "lst (tmlists s) HardTimers = ThreadTimer t # rs"
  obtains s1 where "call_timeout cb (timeout_func (timers s (ThreadTimer t)))
      (rt_timer_remove (ThreadTimer t) s) = Some s1"
    and "timer_rearm (ThreadTimer t) s1 = Some (clear_active (ThreadTimer t) s1)"
    and "check_inv base (clear_active (ThreadTimer t) s1)"
    and "ktick s1 = ktick s" and "timers s1 = timers s" and "lst (tmlists s1) HardTimers = rs"
    and "threads s1 = (threads s)(t := (threads s t)\<lparr>error := - RT_ETIMEOUT, stat := RT_THREAD_READY\<rparr>)"
proof -
  let ?r = "ThreadTimer t"
  let ?s0 = "rt_timer_remove ?r s"
  from inv have wf: "lstore_wf (tmlists s)" by (simp add: check_inv_def TI_def)
  have at: "loc (tmlists s) ?r = Some HardTimers" using wf hd by (rule wf_hd_loc)
  have tt: "stat (threads s t) = RT_THREAD_SUSPEND" "timeout_func (timers s ?r) = Thread_timeout t"
    "\<not> bit (o_flag (objs s (OTimer ?r))) 1"
    using TT_D [OF _ at] inv by (auto simp: check_inv_def)
  have inv0: "check_inv base ?s0" using inv by (rule check_inv_remove)
  let ?s3 = "rt_schedule_insert_thread t
    (upd_thread t (\<lambda>th. th\<lparr>error := - RT_ETIMEOUT\<rparr>) ?s0\<lparr>tlists := ls_remove t (tlists ?s0)\<rparr>)"
  have si3: "sched_inv ?s3"
    using suspended_remove_but [of "threads s" "tlists s" "ready_group s" t] tt(1)
      stat_mask_ok [of "threads s" "tlists s" "ready_group s" t] inv
    by (intro insert_thread_inv) (simp_all add: check_inv_def rt_timer_remove_def)
  obtain s1 where s1: "rt_schedule ?s3 = Some s1"
    using rt_schedule_cases [OF si3, of t] by (metis fun_upd_same insert_thread_frame(1) rt_thread.select_convs(8)
      rt_thread.surjective rt_thread.update_convs(8))
  note same = rt_schedule_same [OF s1]
  have call: "call_timeout cb (timeout_func (timers s ?r)) ?s0 = Some s1"
    using s1 tt by (simp add: call_timeout_def rt_thread_timeout_def Let_def rt_timer_remove_def)
  moreover have rearm: "timer_rearm ?r s1 = Some (clear_active ?r s1)"
    using tt(3) same by (simp add: timer_rearm_def clear_active_def Let_def rt_timer_remove_def)
  moreover have "ktick s1 = ktick s" "timers s1 = timers s" "lst (tmlists s1) HardTimers = rs"
    "threads s1 = (threads s)(t := (threads s t)\<lparr>error := - RT_ETIMEOUT, stat := RT_THREAD_READY\<rparr>)"
    using same hd wf by (simp_all add: rt_timer_remove_def)
  moreover have "check_inv base (clear_active ?r s1)"
  proof (rule check_inv_clear)
    have "thread_timers s1"
      using inv0 same unfolding check_inv_def
      by (elim conjE TT_weaken) (auto simp: rt_timer_remove_def split: if_splits)
    moreover have "timers_init s1"
      using inv0 same tt(1) unfolding check_inv_def
      by (elim conjE TH_weaken) (auto simp: rt_timer_remove_def split: if_splits)
    ultimately show "check_inv base s1"
      using inv0 same si3 by (simp add: check_inv_def periodic_ok_def rt_timer_remove_def)
    show "loc (tmlists s1) ?r = None" using same by (simp add: rt_timer_remove_def)
  qed
  ultimately show ?thesis using that by blast
qed

text \<open>One iteration for a timer of the application.\<close>

lemma check_step_user:
  assumes inv: "check_inv base s" and cb: "cb_ok base cb"
    and hd: "lst (tmlists s) HardTimers = UserTimer k # rs"
  obtains s1 s2 where "call_timeout cb (timeout_func (timers s (UserTimer k)))
      (rt_timer_remove (UserTimer k) s) = Some s1"
    and "timer_rearm (UserTimer k) s1 = Some s2" and "check_inv base s2"
    and "ktick s1 = ktick s" and "ktick s2 = ktick s" and "dues s2 \<subseteq> dues s - {UserTimer k}"
proof -
  let ?r = "UserTimer k"
  let ?s0 = "rt_timer_remove ?r s"
  from inv have wf: "lstore_wf (tmlists s)" and ti: "timer_inv s" by (simp_all add: check_inv_def TI_def)
  have at: "loc (tmlists s) ?r = Some HardTimers" using wf hd by (rule wf_hd_loc)
  have "thread_timers s" using inv by (simp add: check_inv_def)
  from TT_D [OF this at] obtain f a where fn: "timeout_func (timers s ?r) = User_timeout f a" by auto
  have hard: "\<not> bit (o_flag (objs s (OTimer ?r))) 2"
    using ti at by (auto simp: TI_def timer_ok_def)
  have inv0: "check_inv base ?s0" using inv by (rule check_inv_remove)
  then obtain s1 where s1: "cb f a ?s0 = Some s1" "cb_step base ?s0 s1"
    using cb unfolding cb_ok_def by blast
  then have inv1: "check_inv base s1" and tk: "ktick s1 = ktick s" and tm: "timers s1 = timers s"
    and sub: "set (lst (tmlists s1) HardTimers) \<subseteq> set rs"
    and fl: "\<not> bit (o_flag (objs s1 (OTimer ?r))) 2"
      "bit (o_flag (objs s1 (OTimer ?r))) 1 = bit (o_flag (objs s (OTimer ?r))) 1"
    using hd wf hard by (simp_all add: cb_step_def rt_timer_remove_def)
  have nr: "?r \<notin> set rs" using wf_distinct [OF wf, of HardTimers] hd by simp
  from inv1 have wf1: "lstore_wf (tmlists s1)" and ti1: "timer_inv s1" by (simp_all add: check_inv_def TI_def)
  have free: "loc (tmlists s1) ?r = None"
  proof (rule ccontr)
    assume "loc (tmlists s1) ?r \<noteq> None"
    then obtain h where h: "loc (tmlists s1) ?r = Some h" by blast
    with ti1 fl(1) have "h = HardTimers" by (cases h) (auto simp: TI_def timer_ok_def)
    with h sub nr wf1 show False by (metis subsetD wf_mem)
  qed
  have inv2: "check_inv base (clear_active ?r s1)" using inv1 free by (rule check_inv_clear)
  have call: "call_timeout cb (timeout_func (timers s ?r)) ?s0 = Some s1"
    using s1 fn by (simp add: call_timeout_def)
  have old: "{x \<in> set (lst (tmlists s1) HardTimers). due s1 x} \<subseteq> dues s - {?r}"
    using sub nr hd tk tm by (auto simp: dues_def due_def)
  let ?fl = "o_flag (objs s1 (OTimer ?r))"
  show ?thesis
  proof (cases "bit ?fl 1 \<and> bit ?fl 0")
    case False
    then have "timer_rearm ?r s1 = Some (clear_active ?r s1)"
      by (auto simp: timer_rearm_def clear_active_def Let_def)
    with call inv2 old tk show ?thesis
      by (intro that [of s1 "clear_active ?r s1"]) (auto simp: clear_active_def dues_def due_def)
  next
    case True
    let ?s2 = "timer_linked ?r (clear_active ?r s1)"
    have "bit (o_flag (objs s1 (OTimer ?r))) 1 \<and> \<not> bit (o_flag (objs s1 (OTimer ?r))) 2"
      using fl True by simp
    with inv1 have p: "0 < tm_init_tick (timers s1 ?r)"
      "unat (ktick s1 - base) + unat (tm_init_tick (timers s1 ?r)) < unat RT_TICK_HALF"
      unfolding check_inv_def periodic_ok_def by blast+
    then have small: "tm_init_tick (timers s1 ?r) < RT_TICK_HALF" by (simp add: word_less_nat_alt)
    have "timer_rearm ?r s1 = Some ?s2"
      using True fl small by (simp add: timer_rearm_def Let_def clear_active_def timer_start_hard)
    moreover have inv3: "check_inv base ?s2"
      using inv2 fl fn p(2) tm by (intro check_inv_linked [of _ _ _ f a k]) (simp_all add: clear_active_def)
    moreover have "\<not> due ?s2 ?r"
    proof -
      have "ktick s1 - (ktick s1 + tm_init_tick (timers s1 ?r)) = - tm_init_tick (timers s1 ?r)" by simp
      then show ?thesis using tick_neg_large [OF p(1) small]
        by (simp add: due_def timer_linked_timers clear_active_def)
    qed
    moreover have "dues ?s2 \<subseteq> insert ?r {x \<in> set (lst (tmlists s1) HardTimers). due s1 x}"
      using wf1 by (auto simp: dues_def due_def timer_linked_timers timer_linked_lists clear_active_def
          split: if_splits dest: set_takeWhileD set_dropWhileD notin_set_remove1)
    moreover have "?r \<notin> dues ?s2" using \<open>\<not> due ?s2 ?r\<close> by (simp add: dues_def)
    ultimately show ?thesis using call old tk by (intro that [of s1 ?s2]) (auto simp: clear_active_def)
  qed
qed

text \<open>When the first timer of the sorted list is not due, no timer is.\<close>

lemma first_not_due:
  assumes inv: "check_inv base s" and hd: "lst (tmlists s) HardTimers = r # rs" and "\<not> due s r"
  shows "dues s = {}"
proof -
  have "\<not> due s x" if "x \<in> set (r # rs)" for x
  proof -
    have "tm_off base (timers s) r \<le> tm_off base (timers s) x"
      using inv hd that by (auto simp: check_inv_def tm_sorted_def)
    moreover have "\<not> tm_off base (timers s) r \<le> unat (ktick s - base)"
      using due_off [OF inv, of r] hd assms(3) by simp
    ultimately show ?thesis using due_off [OF inv, of x] hd that by simp
  qed
  with hd show ?thesis by (auto simp: dues_def)
qed

lemma finite_dues [simp]: "finite (dues s)"
  by (simp add: dues_def)

lemma check_loop_unfold:
  assumes "lst (tmlists s) HardTimers = r # rs" and "due s r"
    and "call_timeout cb (timeout_func (timers s r)) (rt_timer_remove r s) = Some s1"
    and "timer_rearm r s1 = Some s2" and "ktick s1 = ktick s"
  shows "timer_check_loop cb (ktick s) s = timer_check_loop cb (ktick s) s2"
  using assms by (subst timer_check_loop.simps) (simp add: due_def)

lemma timer_check_loop_returns:
  assumes "check_inv base s" and "cb_ok base cb"
  shows "\<exists>s'. timer_check_loop cb (ktick s) s = Some s' \<and> check_inv base s' \<and> dues s' = {}
    \<and> ktick s' = ktick s"
  using assms(1)
proof (induction "card (dues s)" arbitrary: s rule: less_induct)
  case less
  show ?case
  proof (cases "lst (tmlists s) HardTimers")
    case Nil
    with less.prems show ?thesis by (subst timer_check_loop.simps) (simp add: dues_def)
  next
    case (Cons r rs)
    show ?thesis
    proof (cases "due s r")
      case False
      with Cons have "timer_check_loop cb (ktick s) s = Some s"
        by (subst timer_check_loop.simps) (simp add: due_def)
      with less.prems first_not_due [OF less.prems Cons False] show ?thesis by simp
    next
      case True
      obtain s1 s2 where st: "call_timeout cb (timeout_func (timers s r)) (rt_timer_remove r s) = Some s1"
        "timer_rearm r s1 = Some s2" "ktick s1 = ktick s" "ktick s2 = ktick s" "check_inv base s2"
        "dues s2 \<subseteq> dues s - {r}"
      proof (cases r)
        case (ThreadTimer t)
        note hd = Cons [unfolded ThreadTimer]
        obtain s1 where s1: "call_timeout cb (timeout_func (timers s r)) (rt_timer_remove r s) = Some s1"
          "timer_rearm r s1 = Some (clear_active r s1)" "check_inv base (clear_active r s1)"
          "ktick s1 = ktick s" "timers s1 = timers s" "lst (tmlists s1) HardTimers = rs"
          using check_step_thread [OF less.prems hd, of cb] unfolding ThreadTimer by metis
        have "distinct (r # rs)" using less.prems Cons by (metis TI_def check_inv_def wf_distinct)
        then have "dues (clear_active r s1) \<subseteq> dues s - {r}"
          using s1 Cons by (auto simp: dues_def due_def clear_active_def)
        with s1 show ?thesis by (intro that [of s1 "clear_active r s1"]) (simp_all add: clear_active_def)
      next
        case (UserTimer k)
        then show ?thesis using check_step_user [OF less.prems assms(2), of k rs] Cons that by metis
      qed
      have "r \<in> dues s" using Cons True by (simp add: dues_def)
      then have "card (dues s2) < card (dues s)"
        using st(6) by (intro psubset_card_mono) auto
      from less.hyps [OF this st(5)] st(4) check_loop_unfold [OF Cons True st(1,2,3)]
      show ?thesis by simp
    qed
  qed
qed

text \<open>
  When the expired timers are thread timers, the check wakes exactly their threads: each is ready with
  the error of a timeout, and the timers that have not expired stay in the list.
\<close>

lemma timer_check_wakes:
  assumes "check_inv base s" and "\<And>r. r \<in> dues s \<Longrightarrow> \<exists>t. r = ThreadTimer t"
  shows "\<exists>s'. timer_check_loop cb (ktick s) s = Some s' \<and> check_inv base s' \<and> dues s' = {}
    \<and> threads s' = (\<lambda>t. if ThreadTimer t \<in> dues s
        then (threads s t)\<lparr>error := - RT_ETIMEOUT, stat := RT_THREAD_READY\<rparr> else threads s t)
    \<and> set (lst (tmlists s') HardTimers) = set (lst (tmlists s) HardTimers) - dues s
    \<and> timers s' = timers s \<and> ktick s' = ktick s"
  using assms
proof (induction "lst (tmlists s) HardTimers" arbitrary: s)
  case Nil
  then show ?case by (subst timer_check_loop.simps) (simp add: dues_def)
next
  case (Cons r rs)
  note hd = Cons.hyps(2) [symmetric]
  show ?case
  proof (cases "due s r")
    case False
    with hd have "timer_check_loop cb (ktick s) s = Some s"
      by (subst timer_check_loop.simps) (simp add: due_def)
    with Cons.prems first_not_due [OF Cons.prems(1) hd False] show ?thesis by simp
  next
    case True
    then have rd: "r \<in> dues s" using hd by (simp add: dues_def)
    then obtain t where r: "r = ThreadTimer t" using Cons.prems(2) by blast
    note hdt = hd [unfolded r]
    obtain s1 where s1: "call_timeout cb (timeout_func (timers s r)) (rt_timer_remove r s) = Some s1"
      "timer_rearm r s1 = Some (clear_active r s1)" "check_inv base (clear_active r s1)"
      "ktick s1 = ktick s" "timers s1 = timers s" "lst (tmlists s1) HardTimers = rs"
      "threads s1 = (threads s)(t := (threads s t)\<lparr>error := - RT_ETIMEOUT, stat := RT_THREAD_READY\<rparr>)"
      using check_step_thread [OF Cons.prems(1) hdt, of cb] unfolding r by metis
    let ?s2 = "clear_active r s1"
    have d: "r \<notin> set rs"
      using Cons.prems(1) hd by (metis TI_def check_inv_def distinct.simps(2) wf_distinct)
    have eq: "dues ?s2 = dues s - {r}"
      using s1 hd d by (auto simp: dues_def due_def clear_active_def)
    have "ktick ?s2 = ktick s" "rs = lst (tmlists ?s2) HardTimers"
      using s1 by (simp_all add: clear_active_def)
    with Cons.hyps(1) [of ?s2] s1(3) Cons.prems(2) eq
    obtain s' where s': "timer_check_loop cb (ktick s) ?s2 = Some s'" "check_inv base s'" "dues s' = {}"
      "threads s' = (\<lambda>u. if ThreadTimer u \<in> dues s - {r}
        then (threads ?s2 u)\<lparr>error := - RT_ETIMEOUT, stat := RT_THREAD_READY\<rparr> else threads ?s2 u)"
      "set (lst (tmlists s') HardTimers) = set rs - dues ?s2" "timers s' = timers ?s2" "ktick s' = ktick s"
      by auto
    have "threads s' = (\<lambda>u. if ThreadTimer u \<in> dues s
        then (threads s u)\<lparr>error := - RT_ETIMEOUT, stat := RT_THREAD_READY\<rparr> else threads s u)"
      using s'(4) s1(7) rd by (auto simp: fun_eq_iff clear_active_def r)
    moreover have "set (lst (tmlists s') HardTimers) = set (lst (tmlists s) HardTimers) - dues s"
      using s'(5) hd eq d rd by auto
    moreover have "timers s' = timers s" using s'(6) s1(5) by (simp add: clear_active_def)
    ultimately show ?thesis
      using s'(1-3,7) check_loop_unfold [OF hd True s1(1,2,4)] by simp
  qed
qed

end
