(* ===== verification/Rt_Ipc.thy ===== *)
theory Rt_Ipc
  imports Rt_Timer
begin

text \<open>
  The common part of the IPC objects, \<^verbatim>\<open>rt-thread/src/ipc.c\<close>: suspending the current thread on a list
  (in the order of arrival or of priority), resuming its first thread or all of them.

  A blocking call is split at its call of \<^verbatim>\<open>rt_schedule\<close>. Its first part either returns a value or
  has the result \<open>Blocked\<close>: the thread waits and the scheduler has run. The rest, a definition with
  the suffix \<open>_wake\<close>, runs when the thread is chosen again; it reads \<^verbatim>\<open>thread->error\<close>, and in a loop it
  may block again. Times are 32 bit signed numbers, a negative one means to wait for ever.
\<close>

type_synonym rt_int32 = "32 word"

datatype 'a callres = Return 'a | Blocked

fun callres_map :: "('a \<Rightarrow> 'b) \<Rightarrow> 'a callres \<Rightarrow> 'b callres" where
  "callres_map f (Return r) = Return (f r)"
| "callres_map f Blocked = Blocked"

section \<open>Operations\<close>

definition rt_ipc_object_init :: "oref \<Rightarrow> kstate \<Rightarrow> kstate" where
  "rt_ipc_object_init ob s = s\<lparr>tlists := ls_init_head (SuspendQ ob) (tlists s)\<rparr>"

definition rt_ipc_list_suspend :: "lhead \<Rightarrow> tid \<Rightarrow> rt_uint8 \<Rightarrow> kstate \<Rightarrow> kstate" where
  "rt_ipc_list_suspend h t flg s =
     (let s1 = snd (rt_thread_suspend t s)
      in if flg = RT_IPC_FLAG_FIFO then s1\<lparr>tlists := ls_insert_before h t (tlists s1)\<rparr>
         else if flg = RT_IPC_FLAG_PRIO then
           (case find (\<lambda>u. current_priority (threads s1 t) < current_priority (threads s1 u))
                   (lst (tlists s1) h) of
              Some u \<Rightarrow> s1\<lparr>tlists := ls_insert_before_node u t (tlists s1)\<rparr>
            | None \<Rightarrow> s1\<lparr>tlists := ls_insert_before h t (tlists s1)\<rparr>)
         else s1)"

definition rt_ipc_list_resume :: "lhead \<Rightarrow> kstate \<Rightarrow> kstate option" where
  "rt_ipc_list_resume h s =
     (case lst (tlists s) h of [] \<Rightarrow> None | t # ts \<Rightarrow> Some (snd (rt_thread_resume t s)))"

partial_function (option) rt_ipc_list_resume_all :: "lhead \<Rightarrow> kstate \<Rightarrow> kstate option" where
  "rt_ipc_list_resume_all h s =
     (case lst (tlists s) h of
        [] \<Rightarrow> Some s
      | t # ts \<Rightarrow>
          rt_ipc_list_resume_all h
            (snd (rt_thread_resume t (upd_thread t (\<lambda>th. th\<lparr>error := - RT_ERROR\<rparr>) s))))"

text \<open>
  The piece of code shared by the blocking calls: suspend the current thread on a list, start its
  timer for a positive time, and call the scheduler.
\<close>

definition start_wait_timer :: "tid \<Rightarrow> rt_int32 \<Rightarrow> kstate \<Rightarrow> kstate option" where
  "start_wait_timer t time s =
     (if 0 < sint time then
        (let s1 = snd (snd (rt_timer_control (ThreadTimer t) RT_TIMER_CTRL_SET_TIME time s))
         in do { (e, s2) \<leftarrow> rt_timer_start (ThreadTimer t) s1; Some s2 })
      else Some s)"

definition ipc_wait :: "lhead \<Rightarrow> tid \<Rightarrow> rt_uint8 \<Rightarrow> rt_int32 \<Rightarrow> kstate \<Rightarrow> kstate option" where
  "ipc_wait h t flg time s =
     do {
       s1 \<leftarrow> start_wait_timer t time (rt_ipc_list_suspend h t flg s);
       rt_schedule s1
     }"

text \<open>The remaining time after a wake-up, in a call that may have to wait again.\<close>

definition remaining_time :: "rt_int32 \<Rightarrow> rt_tick \<Rightarrow> kstate \<Rightarrow> rt_int32" where
  "remaining_time timeout start s =
     (if 0 < sint timeout then
        (let timeout' = timeout - (ktick s - start) in if sint timeout' < 0 then 0 else timeout')
      else timeout)"

section \<open>The order of a wait list\<close>

lemma ipc_suspend_tlists:
  assumes "stat (threads s t) = RT_THREAD_READY" and "sched_inv s" and "\<And>p. h \<noteq> ReadyQ p"
  shows "lst (tlists (rt_ipc_list_suspend h t RT_IPC_FLAG_FIFO s)) h = lst (tlists s) h @ [t]"
    and "lst (tlists (rt_ipc_list_suspend h t RT_IPC_FLAG_PRIO s)) h =
      takeWhile (\<lambda>u. current_priority (threads s u) \<le> current_priority (threads s t)) (lst (tlists s) h)
      @ t # dropWhile (\<lambda>u. current_priority (threads s u) \<le> current_priority (threads s t))
              (lst (tlists s) h)"
proof -
  have wf: "lstore_wf (tlists s)" using assms(2) by (rule SI_wf)
  have at: "loc (tlists s) t = Some (ReadyQ (current_priority (threads s t)))"
    using ready_loc [OF assms(2)] assms(1) by simp
  then have same: "lst (ls_remove t (tlists s)) h = lst (tlists s) h"
    using assms(3) by (intro lst_remove_other) auto
  note tl = thread_suspend_ready(3) [OF assms(1)] and th = thread_suspend_ready(2) [OF assms(1)]
  show "lst (tlists (rt_ipc_list_suspend h t RT_IPC_FLAG_FIFO s)) h = lst (tlists s) h @ [t]"
    by (simp add: rt_ipc_list_suspend_def Let_def tl same)
  let ?P = "\<lambda>u. current_priority (threads s u) \<le> current_priority (threads s t)"
  have prio: "current_priority (threads (snd (rt_thread_suspend t s)) u) = current_priority (threads s u)" for u
    by (simp add: th)
  show "lst (tlists (rt_ipc_list_suspend h t RT_IPC_FLAG_PRIO s)) h =
      takeWhile ?P (lst (tlists s) h) @ t # dropWhile ?P (lst (tlists s) h)"
  proof (cases "find (\<lambda>u. current_priority (threads s t) < current_priority (threads s u)) (lst (tlists s) h)")
    case None
    then have "\<forall>u\<in>set (lst (tlists s) h). ?P u" by (auto simp: find_None_iff not_less)
    then have td: "takeWhile ?P (lst (tlists s) h) = lst (tlists s) h"
      "dropWhile ?P (lst (tlists s) h) = []" by auto
    from None show ?thesis by (simp add: rt_ipc_list_suspend_def Let_def tl same prio td)
  next
    case (Some u)
    then obtain i where i: "i < length (lst (tlists s) h)" "u = lst (tlists s) h ! i" "\<not> ?P u"
      "\<forall>j<i. ?P (lst (tlists s) h ! j)"
      by (auto simp: find_Some_iff not_less)
    let ?ys = "take i (lst (tlists s) h)" and ?zs = "drop (Suc i) (lst (tlists s) h)"
    have l: "lst (tlists s) h = ?ys @ u # ?zs" using i by (simp add: id_take_nth_drop)
    have d: "distinct (?ys @ u # ?zs)" using wf_distinct [OF wf, of h] l by simp
    have "\<forall>x\<in>set ?ys. ?P x" using i by (auto simp: in_set_conv_nth)
    then have td: "takeWhile ?P (lst (tlists s) h) = ?ys" "dropWhile ?P (lst (tlists s) h) = u # ?zs"
      using i(3) by (subst l, simp add: takeWhile_tail dropWhile_append)+
    have "u \<in> set (lst (tlists s) h)" using i by simp
    then have lu: "loc (tlists s) u = Some h" using wf by (simp add: wf_mem)
    then have "u \<noteq> t" using at assms(3) by (metis option.inject)
    then have "loc (ls_remove t (tlists s)) u = Some h" using lu by simp
    then have "lst (ls_insert_before_node u t (ls_remove t (tlists s))) h
        = put_before u t (lst (tlists s) h)" by (simp add: same)
    also have "\<dots> = ?ys @ t # u # ?zs" using put_before_split [OF d] l by metis
    finally show ?thesis using Some by (simp add: rt_ipc_list_suspend_def Let_def tl same prio td)
  qed
qed

section \<open>Preservation of the kernel invariant\<close>

text \<open>Changes of the thread lists that concern neither timers nor the state of threads.\<close>

lemma check_inv_sched:
  assumes "check_inv base s" and "sched_inv s'" and "timers s' = timers s" and "objs s' = objs s"
    and "tmlists s' = tmlists s" and "ktick s' = ktick s"
    and "\<And>t. stat (threads s' t) = stat (threads s t)"
  shows "check_inv base s'"
proof -
  have "thread_timers s'" using assms unfolding check_inv_def by (elim conjE TT_weaken) auto
  moreover have "timers_init s'" using assms unfolding check_inv_def by (elim conjE TH_weaken) auto
  ultimately show ?thesis using assms by (simp add: check_inv_def periodic_ok_def)
qed

lemma check_inv_schedule:
  "check_inv base s \<Longrightarrow> rt_schedule s = Some s' \<Longrightarrow> check_inv base s'"
  using rt_schedule_someE [of s s'] rt_schedule_same [of s s']
  by (intro check_inv_sched [of base s s']) (simp_all add: check_inv_def)

lemma periodic_ok_stop: "periodic_ok base s \<Longrightarrow> objs s' = objs (snd (rt_timer_stop r s)) \<Longrightarrow>
    timers s' = timers s \<Longrightarrow> ktick s' = ktick s \<Longrightarrow> periodic_ok base s'"
  by (auto simp: periodic_ok_def timer_stop_objs)

lemma TH_stop: "timers_init s \<Longrightarrow>
    (\<And>u. stat (thr' u) = RT_THREAD_READY \<or> stat (thr' u) = RT_THREAD_SUSPEND \<Longrightarrow>
      stat (threads s u) = RT_THREAD_READY \<or> stat (threads s u) = RT_THREAD_SUSPEND) \<Longrightarrow>
    TH thr' (timers s) (objs (snd (rt_timer_stop r s)))"
  by (erule TH_weaken) (auto simp: timer_stop_objs)

lemma check_inv_resume:
  assumes "check_inv base s"
  shows "check_inv base (snd (rt_thread_resume t s))"
proof (cases "stat (threads s t) = RT_THREAD_SUSPEND")
  case True
  from assms have c: "sched_inv s" "timer_inv s" "thread_timers s" "timers_init s" "periodic_ok base s"
    "lstore_wf (tmlists s)" "tm_sorted base (timers s) (lst (tmlists s) HardTimers)"
    "ktick s - base < RT_TICK_HALF" by (simp_all add: check_inv_def TI_def)
  have "timers_init (snd (rt_thread_resume t s))"
    unfolding thread_resume_timers [OF True] thread_resume_suspended [OF True] thread_resume_frame
    using c(4) by (rule TH_stop) (auto simp: True split: if_splits)
  moreover have "periodic_ok base (snd (rt_thread_resume t s))"
    using c(5) thread_resume_timers(2) [OF True] by (rule periodic_ok_stop) simp_all
  ultimately show ?thesis
    using thread_resume_inv [OF c(1), of t] thread_resume_timer_inv [OF c(2), of t]
      thread_resume_tt [OF c(2,3), of t] tm_sorted_stop [OF c(6,7), of "ThreadTimer t"] c(8)
    by (simp add: check_inv_def thread_resume_timers [OF True])
next
  case False
  with assms show ?thesis by (simp add: rt_thread_resume_def)
qed

lemma check_inv_suspend:
  assumes "check_inv base s"
  shows "check_inv base (snd (rt_thread_suspend t s))"
proof (cases "stat (threads s t) = RT_THREAD_READY")
  case True
  from assms have c: "sched_inv s" "timer_inv s" "thread_timers s" "timers_init s" "periodic_ok base s"
    "lstore_wf (tmlists s)" "tm_sorted base (timers s) (lst (tmlists s) HardTimers)"
    "ktick s - base < RT_TICK_HALF" by (simp_all add: check_inv_def TI_def)
  have "timers_init (snd (rt_thread_suspend t s))"
    unfolding thread_suspend_timers [OF True] thread_suspend_ready [OF True] thread_suspend_frame
    using c(4) by (rule TH_stop) (auto simp: True split: if_splits)
  moreover have "periodic_ok base (snd (rt_thread_suspend t s))"
    using c(5) thread_suspend_timers(2) [OF True] by (rule periodic_ok_stop) simp_all
  ultimately show ?thesis
    using thread_suspend_inv [OF c(1), of t] thread_suspend_timer_inv [OF c(2), of t]
      thread_suspend_tt [OF c(2,3), of t] tm_sorted_stop [OF c(6,7), of "ThreadTimer t"] c(8)
    by (simp add: check_inv_def thread_suspend_timers [OF True])
next
  case False
  with assms show ?thesis by (simp add: rt_thread_suspend_def)
qed

text \<open>Fields of a thread that the scheduler does not read.\<close>

lemma check_inv_error:
  "check_inv base s \<Longrightarrow> check_inv base (upd_thread t (\<lambda>th. th\<lparr>error := e\<rparr>) s)"
  by (rule check_inv_sched) (auto simp: check_inv_def intro!: SI_upd_same)

lemma check_inv_event_fields:
  "check_inv base s \<Longrightarrow> check_inv base (upd_thread t (\<lambda>th. th\<lparr>event_set := e, event_info := i\<rparr>) s)"
  "check_inv base s \<Longrightarrow> check_inv base (upd_thread t (\<lambda>th. th\<lparr>event_set := e\<rparr>) s)"
  by (rule check_inv_sched; auto simp: check_inv_def stack_ok_def intro!: SI_upd_same)+

section \<open>Waiting\<close>

abbreviation wait_head :: "lhead \<Rightarrow> bool" where
  "wait_head h \<equiv> \<exists>ob. h = SuspendQ ob \<or> h = SenderQ ob"

lemma ipc_suspend_shape:
  assumes si: "sched_inv s" and st: "stat (threads s t) = RT_THREAD_READY" and fl: "flg = 0 \<or> flg = 1"
    and h: "wait_head h"
  obtains M where "rt_ipc_list_suspend h t flg s = (snd (rt_thread_suspend t s))\<lparr>tlists := M\<rparr>"
    and "lstore_wf M" and "\<And>u. loc M u = (if u = t then Some h else loc (ls_remove t (tlists s)) u)"
    and "\<And>h'. h' \<noteq> h \<Longrightarrow> lst M h' = lst (ls_remove t (tlists s)) h'"
proof -
  let ?s1 = "snd (rt_thread_suspend t s)" and ?L = "ls_remove t (tlists s)"
  have wf: "lstore_wf ?L" using si by (intro wf_remove SI_wf)
  have free: "loc ?L t = None" by simp
  note tl = thread_suspend_ready(3) [OF st]
  let ?f = "find (\<lambda>u. current_priority (threads ?s1 t) < current_priority (threads ?s1 u)) (lst ?L h)"
  show ?thesis
  proof (cases "flg = 1 \<and> ?f \<noteq> None")
    case False
    then have "rt_ipc_list_suspend h t flg s = ?s1\<lparr>tlists := ls_insert_before h t ?L\<rparr>"
      using fl by (auto simp: rt_ipc_list_suspend_def Let_def tl)
    from this wf free show ?thesis by (intro that [of "ls_insert_before h t ?L"]) simp_all
  next
    case True
    then obtain u where u: "?f = Some u" by blast
    then have "u \<in> set (lst ?L h)" by (auto simp: find_Some_iff)
    then have "loc ?L u = Some h" using wf wf_mem by metis
    moreover have "rt_ipc_list_suspend h t flg s = ?s1\<lparr>tlists := ls_insert_before_node u t ?L\<rparr>"
      using u True by (simp add: rt_ipc_list_suspend_def Let_def tl)
    ultimately show ?thesis using wf free
      by (intro that [of "ls_insert_before_node u t ?L"]) (auto simp del: loc_simps lst_remove)
  qed
qed

text \<open>A thread that has just been suspended may be put into a wait list at any position.\<close>

lemma wait_insert_check:
  assumes inv: "check_inv base s" and st: "stat (threads s t) = RT_THREAD_READY" and h: "wait_head h"
    and wf: "lstore_wf M" and loc: "\<And>u. loc M u = (if u = t then Some h else loc (ls_remove t (tlists s)) u)"
    and lst: "\<And>h'. h' \<noteq> h \<Longrightarrow> lst M h' = lst (ls_remove t (tlists s)) h'"
  shows "check_inv base ((snd (rt_thread_suspend t s))\<lparr>tlists := M\<rparr>)"
proof -
  let ?s1 = "snd (rt_thread_suspend t s)"
  have si: "sched_inv s" using inv by (simp add: check_inv_def)
  note rdy = thread_suspend_ready [OF st]
  have "mask_ok (threads ?s1 t) \<and> stack_ok (threads ?s1 t)"
    using stat_mask_ok [OF si, of t] st by (simp add: rdy)
  moreover obtain ob where "h = SuspendQ ob \<or> h = SenderQ ob" using h by blast
  ultimately have "SI (threads ?s1) M (ready_group ?s1)"
    using wf loc lst by (intro wait_insert_inv [OF thread_suspend_but [OF si st], of h ob M]) (auto simp: rdy)
  then show ?thesis by (intro check_inv_sched [OF check_inv_suspend [OF inv, of t]]) simp_all
qed

lemma ipc_suspend_inv:
  assumes inv: "check_inv base s" and st: "stat (threads s t) = RT_THREAD_READY"
    and fl: "flg = 0 \<or> flg = 1" and h: "wait_head h"
  shows "check_inv base (rt_ipc_list_suspend h t flg s)"
    and "threads (rt_ipc_list_suspend h t flg s)
      = (threads s)(t := (threads s t)\<lparr>stat := RT_THREAD_SUSPEND\<rparr>)"
    and "loc (tlists (rt_ipc_list_suspend h t flg s)) t = Some h"
    and "h' \<noteq> h \<Longrightarrow> (\<And>p. h' \<noteq> ReadyQ p) \<Longrightarrow>
      lst (tlists (rt_ipc_list_suspend h t flg s)) h' = lst (tlists s) h'"
proof -
  let ?s1 = "snd (rt_thread_suspend t s)"
  have si: "sched_inv s" using inv by (simp add: check_inv_def)
  obtain M where eq: "rt_ipc_list_suspend h t flg s = ?s1\<lparr>tlists := M\<rparr>" and wf: "lstore_wf M"
    and loc: "\<And>u. loc M u = (if u = t then Some h else loc (ls_remove t (tlists s)) u)"
    and lst: "\<And>h'. h' \<noteq> h \<Longrightarrow> lst M h' = lst (ls_remove t (tlists s)) h'"
    using ipc_suspend_shape [OF si st fl h] by metis
  note rdy = thread_suspend_ready [OF st]
  show "check_inv base (rt_ipc_list_suspend h t flg s)"
    unfolding eq using inv st h wf loc lst by (rule wait_insert_check)
  show "threads (rt_ipc_list_suspend h t flg s) = (threads s)(t := (threads s t)\<lparr>stat := RT_THREAD_SUSPEND\<rparr>)"
    by (simp add: eq rdy)
  show "loc (tlists (rt_ipc_list_suspend h t flg s)) t = Some h" by (simp add: eq loc)
  assume h': "h' \<noteq> h" "\<And>p. h' \<noteq> ReadyQ p"
  have "loc (tlists s) t \<noteq> Some h'" using ready_loc [OF si] st h'(2) by (metis option.inject)
  then show "lst (tlists (rt_ipc_list_suspend h t flg s)) h' = lst (tlists s) h'"
    by (simp add: eq lst h'(1) lst_remove_other)
qed

lemma ipc_suspend_frame [simp]:
  "timers (rt_ipc_list_suspend h t flg s) = timers s"
  "cur_thread (rt_ipc_list_suspend h t flg s) = cur_thread s"
  "lock_nest (rt_ipc_list_suspend h t flg s) = lock_nest s"
  "irq_nest (rt_ipc_list_suspend h t flg s) = irq_nest s"
  "ktick (rt_ipc_list_suspend h t flg s) = ktick s"
  "sems (rt_ipc_list_suspend h t flg s) = sems s"
  "mutexes (rt_ipc_list_suspend h t flg s) = mutexes s"
  "events (rt_ipc_list_suspend h t flg s) = events s"
  "mailboxes (rt_ipc_list_suspend h t flg s) = mailboxes s"
  "mqs (rt_ipc_list_suspend h t flg s) = mqs s"
  "mempools (rt_ipc_list_suspend h t flg s) = mempools s"
  "ob \<noteq> OTimer (ThreadTimer t) \<Longrightarrow> objs (rt_ipc_list_suspend h t flg s) ob = objs s ob"
  by (simp_all add: rt_ipc_list_suspend_def Let_def split: option.splits)

text \<open>Starting the timer of a suspended thread.\<close>

definition time_ok :: "rt_tick \<Rightarrow> kstate \<Rightarrow> rt_int32 \<Rightarrow> bool" where
  "time_ok base s time \<longleftrightarrow> sint time \<le> 0
     \<or> unat (ktick s - base) + unat time < unat RT_TICK_HALF"

lemma check_inv_start_timer:
  assumes inv: "check_inv base s" and st: "stat (threads s t) = RT_THREAD_SUSPEND"
    and win: "unat (ktick s - base) + unat time < unat RT_TICK_HALF"
  defines "s1 \<equiv> upd_timer (ThreadTimer t) (\<lambda>x. x\<lparr>tm_init_tick := time\<rparr>) s"
  shows "rt_timer_start (ThreadTimer t) s1 = Some (0, timer_linked (ThreadTimer t) s1)"
    and "check_inv base (timer_linked (ThreadTimer t) s1)"
proof -
  let ?r = "ThreadTimer t"
  from inv have wf: "lstore_wf (tmlists s)" and ti: "timers_init s" by (simp_all add: check_inv_def TI_def)
  from TH_D [OF ti, of t] st have th: "timeout_func (timers s ?r) = Thread_timeout t"
    "\<not> bit (o_flag (objs s (OTimer ?r))) 1" "\<not> bit (o_flag (objs s (OTimer ?r))) 2" by simp_all
  have small: "time < RT_TICK_HALF" using win by (simp add: word_less_nat_alt)
  then show "rt_timer_start ?r s1 = Some (0, timer_linked ?r s1)"
    using th by (simp add: timer_start_hard s1_def)
  have wf1: "lstore_wf (tmlists s1)" using wf by (simp add: s1_def)
  have new: "ktick s1 + tm_init_tick (timers s1 ?r) - base < RT_TICK_HALF"
    using tick_add_window [OF win] by (simp add: s1_def)
  have tms: "timeout_tick (timers s1 r) = timeout_tick (timers s r)" for r by (simp add: s1_def)
  have old: "tm_sorted base (timers s1) (lst (tmlists s1) HardTimers)"
    using inv unfolding check_inv_def tm_sorted_def tms by (simp add: s1_def)
  have "tm_sorted base (timers (timer_linked ?r s1)) (lst (tmlists (timer_linked ?r s1)) HardTimers)"
    using wf1 old new by (rule timer_linked_sorted)
  moreover have "timer_inv (timer_linked ?r s1)"
    using inv by (intro timer_linked_inv) (simp add: check_inv_def s1_def)
  moreover have "thread_timers (timer_linked ?r s1)"
    using inv th st unfolding check_inv_def TT_def
    by (auto simp: timer_linked_lists [OF wf1 [unfolded s1_def]] timer_linked_timers s1_def)
  moreover have "timers_init (timer_linked ?r s1)"
    using inv unfolding check_inv_def
    by (elim conjE TH_weaken) (auto simp: timer_linked_timers s1_def)
  moreover have "periodic_ok base (timer_linked ?r s1)"
    using inv th(2) by (auto simp: check_inv_def periodic_ok_def timer_linked_timers s1_def)
  ultimately show "check_inv base (timer_linked ?r s1)" using inv by (simp add: check_inv_def s1_def)
qed

text \<open>The end of a blocking call: the timer is started for a positive time, then the scheduler runs.\<close>

lemma wait_schedule_returns:
  assumes inv: "check_inv base s" and st: "stat (threads s t) = RT_THREAD_SUSPEND"
    and win: "time_ok base s time" and u: "stat (threads s u) = RT_THREAD_READY"
  obtains s2 s' where "start_wait_timer t time s = Some s2" and "rt_schedule s2 = Some s'"
    and "check_inv base s'" and "threads s' = threads s" and "tlists s' = tlists s"
    and "0 < sint time \<longrightarrow> loc (tmlists s') (ThreadTimer t) = Some HardTimers
         \<and> timeout_tick (timers s' (ThreadTimer t)) = ktick s + time"
    and "ktick s' = ktick s" and "irq_nest s' = irq_nest s" and "lock_nest s' = lock_nest s"
    and "sems s' = sems s" and "mutexes s' = mutexes s" and "events s' = events s"
    and "mailboxes s' = mailboxes s" and "mqs s' = mqs s" and "mempools s' = mempools s"
proof -
  let ?r = "ThreadTimer t"
  let ?s2 = "timer_linked ?r (upd_timer ?r (\<lambda>x. x\<lparr>tm_init_tick := time\<rparr>) s)"
  obtain s2 where s2: "start_wait_timer t time s = Some s2" "check_inv base s2"
    "s2 = (if 0 < sint time then ?s2 else s)"
  proof (cases "0 < sint time")
    case True
    with win have "unat (ktick s - base) + unat time < unat RT_TICK_HALF" by (simp add: time_ok_def)
    from check_inv_start_timer [OF inv st this] True show ?thesis
      by (intro that [of ?s2]) (simp_all add: start_wait_timer_def)
  next
    case False
    with inv show ?thesis by (intro that [of s]) (simp_all add: start_wait_timer_def)
  qed
  have "sched_inv s2" using s2(2) by (simp add: check_inv_def)
  moreover have "stat (threads s2 u) = RT_THREAD_READY" using u by (simp add: s2(3))
  ultimately obtain s' where s': "rt_schedule s2 = Some s'" by (rule rt_schedule_cases)
  have wf: "lstore_wf (tmlists s)" using inv by (simp add: check_inv_def TI_def)
  have hard: "timer_list_of (o_flag (objs s (OTimer ?r))) = HardTimers"
    using inv st TH_D [of "threads s" "timers s" "objs s" t]
    by (simp add: check_inv_def timer_list_of_bit)
  have "0 < sint time \<longrightarrow> loc (tmlists s2) ?r = Some HardTimers
      \<and> timeout_tick (timers s2 ?r) = ktick s + time"
    using wf hard by (simp add: s2(3) timer_linked_lists timer_linked_timers)
  then show ?thesis
    using check_inv_schedule [OF s2(2) s'] rt_schedule_same [OF s'] s2(1) s'
    by (intro that [of s2 s']) (simp_all add: s2(3))
qed

text \<open>
  A blocking wait returns from its first part (to whichever thread is then chosen) as long as some
  other thread is ready and the time is in the window of the timers. The waiting thread is suspended
  in the list; a positive time has put its timer into the system list.
\<close>

lemma ipc_wait_returns:
  assumes inv: "check_inv base s" and st: "stat (threads s t) = RT_THREAD_READY"
    and fl: "flg = 0 \<or> flg = 1" and h: "wait_head h" and win: "time_ok base s time"
    and u: "u \<noteq> t" "stat (threads s u) = RT_THREAD_READY"
  shows "\<exists>s'. ipc_wait h t flg time s = Some s' \<and> check_inv base s'
    \<and> threads s' = (threads s)(t := (threads s t)\<lparr>stat := RT_THREAD_SUSPEND\<rparr>)
    \<and> tlists s' = tlists (rt_ipc_list_suspend h t flg s)
    \<and> (0 < sint time \<longrightarrow> loc (tmlists s') (ThreadTimer t) = Some HardTimers
         \<and> timeout_tick (timers s' (ThreadTimer t)) = ktick s + time)
    \<and> ktick s' = ktick s \<and> irq_nest s' = irq_nest s \<and> lock_nest s' = lock_nest s
    \<and> sems s' = sems s \<and> mutexes s' = mutexes s \<and> events s' = events s
    \<and> mailboxes s' = mailboxes s \<and> mqs s' = mqs s \<and> mempools s' = mempools s"
proof -
  let ?s1 = "rt_ipc_list_suspend h t flg s"
  note s1 = ipc_suspend_inv [OF inv st fl h]
  have "time_ok base ?s1 time" using win by (simp add: time_ok_def)
  moreover have "stat (threads ?s1 t) = RT_THREAD_SUSPEND" "stat (threads ?s1 u) = RT_THREAD_READY"
    using u by (simp_all add: s1(2))
  ultimately show ?thesis
    by (rule_tac wait_schedule_returns [OF s1(1), of t time u]) (auto simp: ipc_wait_def s1(2))
qed

section \<open>Resuming\<close>

lemma ipc_resume_hd:
  "lst (tlists s) h = t # ts \<Longrightarrow> rt_ipc_list_resume h s = Some (snd (rt_thread_resume t s))"
  by (simp add: rt_ipc_list_resume_def)

lemma waiter_suspended:
  assumes "check_inv base s" and "wait_head h" and "t \<in> set (lst (tlists s) h)"
  shows "stat (threads s t) = RT_THREAD_SUSPEND"
proof -
  have si: "sched_inv s" using assms(1) by (simp add: check_inv_def)
  have "loc (tlists s) t = Some h" using assms(3) wf_mem [OF SI_wf [OF si]] by simp
  then show ?thesis using wait_stat [OF si] assms(2) by blast
qed

lemma resume_wait_lists:
  assumes "sched_inv s" and "stat (threads s t) = RT_THREAD_SUSPEND" and "\<And>p. h \<noteq> ReadyQ p"
  shows "lst (tlists (snd (rt_thread_resume t s))) h = remove1 t (lst (tlists s) h)"
  using assms by (simp add: thread_resume_suspended [OF assms(2)] SI_wf)

text \<open>Resuming the first waiting thread and calling the scheduler, the end of the releasing calls.\<close>

lemma ipc_resume_first:
  assumes inv: "check_inv base s" and h: "wait_head h" and w: "lst (tlists s) h = t # ts"
  obtains s' where "rt_ipc_list_resume h s = Some (snd (rt_thread_resume t s))"
    and "rt_schedule (snd (rt_thread_resume t s)) = Some s'" and "check_inv base s'"
    and "threads s' = (threads s)(t := (threads s t)\<lparr>stat := RT_THREAD_READY\<rparr>)"
    and "lst (tlists s') h = ts"
    and "\<And>h'. h' \<noteq> h \<Longrightarrow> (\<And>p. h' \<noteq> ReadyQ p) \<Longrightarrow> lst (tlists s') h' = lst (tlists s) h'"
    and "sems s' = sems s" and "mutexes s' = mutexes s" and "events s' = events s"
    and "mailboxes s' = mailboxes s" and "mqs s' = mqs s" and "mempools s' = mempools s"
    and "ktick s' = ktick s" and "irq_nest s' = irq_nest s" and "lock_nest s' = lock_nest s"
proof -
  let ?s1 = "snd (rt_thread_resume t s)"
  have si: "sched_inv s" using inv by (simp add: check_inv_def)
  have nr: "h \<noteq> ReadyQ p" for p using h by auto
  have st: "stat (threads s t) = RT_THREAD_SUSPEND"
    using waiter_suspended [OF inv h, of t] w by simp
  have inv1: "check_inv base ?s1" using inv by (rule check_inv_resume)
  have th: "threads ?s1 = (threads s)(t := (threads s t)\<lparr>stat := RT_THREAD_READY\<rparr>)"
    using st by (rule thread_resume_suspended)
  obtain s' where s': "rt_schedule ?s1 = Some s'"
    using rt_schedule_cases [of ?s1 t] inv1 th by (auto simp: check_inv_def)
  note same = rt_schedule_same [OF s']
  have "lst (tlists ?s1) h = ts" using resume_wait_lists [OF si st nr] w by simp
  moreover have "lst (tlists ?s1) h' = lst (tlists s) h'" if "h' \<noteq> h" "\<And>p. h' \<noteq> ReadyQ p" for h'
  proof -
    have "t \<notin> set (lst (tlists s) h')"
      using wf_mem [OF SI_wf [OF si], of t h'] wf_hd_loc [OF SI_wf [OF si] w] that(1) by auto
    then show ?thesis using resume_wait_lists [OF si st that(2)] by (simp add: remove1_idem)
  qed
  ultimately show ?thesis
    using s' check_inv_schedule [OF inv1 s'] th same ipc_resume_hd [OF w]
    by (intro that [of s']) simp_all
qed

text \<open>
  Resuming all waiting threads ends, empties the list, and makes exactly its threads ready, with an
  error for the call they wait in.
\<close>

lemma ipc_resume_all_returns:
  assumes "check_inv base s" and "wait_head h"
  shows "\<exists>s'. rt_ipc_list_resume_all h s = Some s' \<and> check_inv base s' \<and> lst (tlists s') h = []
    \<and> (\<forall>h'. h' \<noteq> h \<and> (\<forall>p. h' \<noteq> ReadyQ p) \<longrightarrow> lst (tlists s') h' = lst (tlists s) h')
    \<and> threads s' = (\<lambda>t. if t \<in> set (lst (tlists s) h)
        then (threads s t)\<lparr>error := - RT_ERROR, stat := RT_THREAD_READY\<rparr> else threads s t)
    \<and> cur_thread s' = cur_thread s \<and> lock_nest s' = lock_nest s \<and> irq_nest s' = irq_nest s
    \<and> ktick s' = ktick s \<and> sems s' = sems s \<and> mutexes s' = mutexes s \<and> events s' = events s
    \<and> mailboxes s' = mailboxes s \<and> mqs s' = mqs s \<and> mempools s' = mempools s
    \<and> olists s' = olists s \<and> (\<forall>ob. (\<forall>r. ob \<noteq> OTimer r) \<longrightarrow> objs s' ob = objs s ob)"
  using assms(1)
proof (induction "lst (tlists s) h" arbitrary: s)
  case Nil
  then show ?case by (subst rt_ipc_list_resume_all.simps) simp
next
  case (Cons t ts)
  note hd = Cons.hyps(2) [symmetric]
  let ?s1 = "upd_thread t (\<lambda>th. th\<lparr>error := - RT_ERROR\<rparr>) s"
  let ?s2 = "snd (rt_thread_resume t ?s1)"
  have inv1: "check_inv base ?s1" using Cons.prems by (rule check_inv_error)
  then have inv2: "check_inv base ?s2" by (rule check_inv_resume)
  have si: "sched_inv ?s1" using inv1 by (simp add: check_inv_def)
  have st: "stat (threads s t) = RT_THREAD_SUSPEND"
    using waiter_suspended [OF Cons.prems assms(2)] hd by simp
  then have st1: "stat (threads ?s1 t) = RT_THREAD_SUSPEND" by simp
  have ls: "lst (tlists ?s2) h' = remove1 t (lst (tlists s) h')" if "\<forall>p. h' \<noteq> ReadyQ p" for h'
    using resume_wait_lists [OF si st1] that by simp
  have nr: "\<forall>p. h \<noteq> ReadyQ p" using assms(2) by auto
  have ts: "ts = lst (tlists ?s2) h" using ls [OF nr] hd by simp
  have wf: "lstore_wf (tlists s)" using SI_wf [OF si] by simp
  have d: "t \<notin> set ts" using wf_distinct [OF wf, of h] hd by simp
  have other: "lst (tlists ?s2) h' = lst (tlists s) h'" if "h' \<noteq> h" "\<forall>p. h' \<noteq> ReadyQ p" for h'
  proof -
    have "t \<notin> set (lst (tlists s) h')"
      using wf_mem [OF wf, of t h'] wf_hd_loc [OF wf hd] that(1) by auto
    with ls [OF that(2)] show ?thesis by (simp add: remove1_idem)
  qed
  have th: "threads ?s2 = (threads s)(t := (threads s t)\<lparr>error := - RT_ERROR, stat := RT_THREAD_READY\<rparr>)"
    using thread_resume_suspended(2) [OF st1] by simp
  have step: "rt_ipc_list_resume_all h s = rt_ipc_list_resume_all h ?s2"
    using hd by (subst rt_ipc_list_resume_all.simps) simp
  from Cons.hyps(1) [OF ts inv2] obtain s' where
    s': "rt_ipc_list_resume_all h ?s2 = Some s'" "check_inv base s'" "lst (tlists s') h = []"
      "\<forall>h'. h' \<noteq> h \<and> (\<forall>p. h' \<noteq> ReadyQ p) \<longrightarrow> lst (tlists s') h' = lst (tlists ?s2) h'"
      "threads s' = (\<lambda>u. if u \<in> set ts
        then (threads ?s2 u)\<lparr>error := - RT_ERROR, stat := RT_THREAD_READY\<rparr> else threads ?s2 u)"
    and rest: "cur_thread s' = cur_thread ?s2 \<and> lock_nest s' = lock_nest ?s2 \<and> irq_nest s' = irq_nest ?s2
      \<and> ktick s' = ktick ?s2 \<and> sems s' = sems ?s2 \<and> mutexes s' = mutexes ?s2 \<and> events s' = events ?s2
      \<and> mailboxes s' = mailboxes ?s2 \<and> mqs s' = mqs ?s2 \<and> mempools s' = mempools ?s2
      \<and> olists s' = olists ?s2 \<and> (\<forall>ob. (\<forall>r. ob \<noteq> OTimer r) \<longrightarrow> objs s' ob = objs ?s2 ob)"
    unfolding ts [symmetric] by blast
  have "threads s' = (\<lambda>u. if u \<in> set (lst (tlists s) h)
      then (threads s u)\<lparr>error := - RT_ERROR, stat := RT_THREAD_READY\<rparr> else threads s u)"
    using s'(5) d by (auto simp: fun_eq_iff th hd)
  moreover have "\<forall>h'. h' \<noteq> h \<and> (\<forall>p. h' \<noteq> ReadyQ p) \<longrightarrow> lst (tlists s') h' = lst (tlists s) h'"
    using s'(4) other by metis
  ultimately show ?case using s'(1-3) rest unfolding step by simp
qed

section \<open>Objects with one wait list\<close>

text \<open>
  Semaphores, mutexes, events and message queues have one list of waiting threads and share the way
  they are taken out of service: all waiting threads are resumed, then the object leaves its
  container.
\<close>

locale waited_object =
  fixes obj_of :: "nat \<Rightarrow> oref"
    and detach :: "nat \<Rightarrow> kstate \<Rightarrow> (rt_err \<times> kstate) option"
  assumes detach_eq: "detach m s =
    do { s1 \<leftarrow> rt_ipc_list_resume_all (SuspendQ (obj_of m)) s; Some (0, rt_object_detach (obj_of m) s1) }"
begin

lemma detach_wakes_all:
  assumes "check_inv base s"
  shows "\<exists>s'. detach m s = Some (0, s') \<and> check_inv base s'
    \<and> lst (tlists s') (SuspendQ (obj_of m)) = []
    \<and> (\<forall>t \<in> set (lst (tlists s) (SuspendQ (obj_of m))).
         stat (threads s' t) = RT_THREAD_READY \<and> error (threads s' t) = - RT_ERROR)
    \<and> (\<forall>t. t \<notin> set (lst (tlists s) (SuspendQ (obj_of m))) \<longrightarrow> threads s' t = threads s t)
    \<and> loc (olists s') (obj_of m) = None"
proof -
  obtain s1 where s1: "rt_ipc_list_resume_all (SuspendQ (obj_of m)) s = Some s1" "check_inv base s1"
    "lst (tlists s1) (SuspendQ (obj_of m)) = []"
    "threads s1 = (\<lambda>t. if t \<in> set (lst (tlists s) (SuspendQ (obj_of m)))
        then (threads s t)\<lparr>error := - RT_ERROR, stat := RT_THREAD_READY\<rparr> else threads s t)"
    using ipc_resume_all_returns [OF assms, of "SuspendQ (obj_of m)"] by blast
  moreover have "check_inv base (rt_object_detach (obj_of m) s1)"
    using s1(2) by (rule check_inv_sched) (use s1(2) in \<open>simp_all add: rt_object_detach_def check_inv_def\<close>)
  ultimately show ?thesis by (simp add: detach_eq rt_object_detach_def)
qed

end

text \<open>Changing the priority of a thread, as priority inheritance does.\<close>

lemma check_inv_change_priority:
  assumes "check_inv base s" and "unat p < 32"
  shows "check_inv base (change_priority t p s)"
  using assms(1)
proof (rule check_inv_sched)
  show "sched_inv (change_priority t p s)"
    using assms by (intro change_priority_inv) (simp_all add: check_inv_def)
qed (simp_all add: change_priority_thread)

lemma check_inv_frame:
  "check_inv base (s\<lparr>sems := a\<rparr>) = check_inv base s"
  "check_inv base (s\<lparr>mutexes := b\<rparr>) = check_inv base s"
  "check_inv base (s\<lparr>events := c\<rparr>) = check_inv base s"
  "check_inv base (s\<lparr>mailboxes := d\<rparr>) = check_inv base s"
  "check_inv base (s\<lparr>mqs := e\<rparr>) = check_inv base s"
  "check_inv base (s\<lparr>mempools := f\<rparr>) = check_inv base s"
  "check_inv base (s\<lparr>kfree_log := g\<rparr>) = check_inv base s"
  "check_inv base (s\<lparr>olists := h\<rparr>) = check_inv base s"
  "check_inv base (s\<lparr>kerrno := i\<rparr>) = check_inv base s"
  by (simp_all add: check_inv_def periodic_ok_def)

declare check_inv_frame [simp]

text \<open>The flag of an object that is not a timer.\<close>

lemma check_inv_obj:
  assumes "check_inv base s" and "\<And>r. ob \<noteq> OTimer r"
  shows "check_inv base (s\<lparr>objs := (objs s)(ob := x)\<rparr>)"
proof -
  have "thread_timers (s\<lparr>objs := (objs s)(ob := x)\<rparr>)"
    using assms unfolding check_inv_def by (elim conjE TT_weaken) (auto dest!: spec)
  moreover have "timers_init (s\<lparr>objs := (objs s)(ob := x)\<rparr>)"
    using assms unfolding check_inv_def by (elim conjE TH_weaken) (auto dest!: spec)
  ultimately show ?thesis using assms
    by (simp add: check_inv_def periodic_ok_def TI_def) (metis fun_upd_other assms(2))
qed

end
