(* ===== verification/Rt_Mailbox.thy ===== *)
theory Rt_Mailbox
  imports Rt_Ipc
begin

text \<open>
  Mailboxes, \<^verbatim>\<open>rt-thread/src/ipc.c\<close>: a ring buffer of words with a list of waiting receivers and a
  list of waiting senders. The ring buffer is shown to implement a bounded queue; the interface
  \<open>bounded_queue\<close> is also used by the message queue.

  \<open>rt_mb_send_wait\<close> and \<open>rt_mb_recv\<close> wait in a loop: the \<open>_wake\<close> definitions run after a wait, with the
  timeout and the tick at its start as arguments, and may wait again.
\<close>

section \<open>Operations\<close>

abbreviation upd_mb :: "nat \<Rightarrow> (rt_mailbox \<Rightarrow> rt_mailbox) \<Rightarrow> kstate \<Rightarrow> kstate" where
  "upd_mb m f s \<equiv> s\<lparr>mailboxes := (mailboxes s)(m := f (mailboxes s m))\<rparr>"

definition rt_mb_init ::
  "nat \<Rightarrow> rt_uint8 list \<Rightarrow> rt_uint32 list \<Rightarrow> rt_uint32 \<Rightarrow> rt_uint8 \<Rightarrow> kstate \<Rightarrow> rt_err \<times> kstate" where
  "rt_mb_init m nm msgpool sz flg s =
     (let s1 = rt_object_init (OMb m) RT_Object_Class_MailBox nm s;
          s2 = upd_obj (OMb m) (\<lambda>x. x\<lparr>o_flag := flg\<rparr>) s1;
          s3 = rt_ipc_object_init (OMb m) s2;
          s4 = upd_mb m (\<lambda>x. x\<lparr>mb_pool := msgpool, mb_size := ucast sz, mb_entry := 0,
                               in_offset := 0, out_offset := 0\<rparr>) s3
      in (RT_EOK, s4\<lparr>tlists := ls_init_head (SenderQ (OMb m)) (tlists s4)\<rparr>))"

definition rt_mb_detach :: "nat \<Rightarrow> kstate \<Rightarrow> (rt_err \<times> kstate) option" where
  "rt_mb_detach m s =
     do {
       s1 \<leftarrow> rt_ipc_list_resume_all (SuspendQ (OMb m)) s;
       s2 \<leftarrow> rt_ipc_list_resume_all (SenderQ (OMb m)) s1;
       Some (RT_EOK, rt_object_detach (OMb m) s2)
     }"

text \<open>\<open>mem\<close> and \<open>pool\<close> are the results of the two allocations.\<close>

definition rt_mb_create ::
  "nat option \<Rightarrow> rt_uint32 list option \<Rightarrow> rt_uint8 list \<Rightarrow> rt_uint32 \<Rightarrow> rt_uint8 \<Rightarrow> kstate
     \<Rightarrow> (nat option \<times> kstate) option" where
  "rt_mb_create mem pool nm sz flg s =
     do {
       RT_DEBUG_NOT_IN_INTERRUPT s;
       (ob, s1) \<leftarrow> rt_object_allocate (map_option OMb mem) RT_Object_Class_MailBox nm s;
       case mem of
         None \<Rightarrow> Some (None, s1)
       | Some m \<Rightarrow>
           (let s2 = upd_obj (OMb m) (\<lambda>x. x\<lparr>o_flag := flg\<rparr>) s1;
                s3 = rt_ipc_object_init (OMb m) s2;
                s4 = upd_mb m (\<lambda>x. x\<lparr>mb_size := ucast sz\<rparr>) s3
            in case pool of
                 None \<Rightarrow> do { s5 \<leftarrow> rt_object_delete (OMb m) s4; Some (None, s5) }
               | Some msgpool \<Rightarrow>
                   (let s5 = upd_mb m (\<lambda>x. x\<lparr>mb_pool := msgpool, mb_entry := 0, in_offset := 0,
                                            out_offset := 0\<rparr>) s4
                    in Some (Some m, s5\<lparr>tlists := ls_init_head (SenderQ (OMb m)) (tlists s5)\<rparr>)))
     }"

definition rt_mb_delete :: "nat \<Rightarrow> kstate \<Rightarrow> (rt_err \<times> kstate) option" where
  "rt_mb_delete m s =
     do {
       RT_DEBUG_NOT_IN_INTERRUPT s;
       s1 \<leftarrow> rt_ipc_list_resume_all (SuspendQ (OMb m)) s;
       s2 \<leftarrow> rt_ipc_list_resume_all (SenderQ (OMb m)) s1;
       s3 \<leftarrow> rt_object_delete (OMb m) (s2\<lparr>kfree_log := FreePool (OMb m) # kfree_log s2\<rparr>);
       Some (RT_EOK, s3)
     }"

text \<open>Storing and fetching a mail in the ring buffer; a write or read outside the pool is undefined.\<close>

definition mb_store :: "rt_uint32 \<Rightarrow> rt_mailbox \<Rightarrow> rt_mailbox" where
  "mb_store value mb =
     (let mb1 = mb\<lparr>mb_pool := (mb_pool mb)[unat (in_offset mb) := value]\<rparr>;
          mb2 = mb1\<lparr>in_offset := in_offset mb1 + 1\<rparr>;
          mb3 = (if in_offset mb2 \<ge> mb_size mb2 then mb2\<lparr>in_offset := 0\<rparr> else mb2)
      in mb3\<lparr>mb_entry := mb_entry mb3 + 1\<rparr>)"

definition mb_fetch :: "rt_mailbox \<Rightarrow> rt_uint32 \<times> rt_mailbox" where
  "mb_fetch mb =
     (let value = mb_pool mb ! unat (out_offset mb);
          mb1 = mb\<lparr>out_offset := out_offset mb + 1\<rparr>;
          mb2 = (if out_offset mb1 \<ge> mb_size mb1 then mb1\<lparr>out_offset := 0\<rparr> else mb1)
      in (value, mb2\<lparr>mb_entry := mb_entry mb2 - 1\<rparr>))"

text \<open>The loop of the sender with what follows it. \<open>thr\<close> is the calling thread.\<close>

definition mb_send_loop ::
  "tid option \<Rightarrow> nat \<Rightarrow> rt_uint32 \<Rightarrow> rt_int32 \<Rightarrow> kstate \<Rightarrow> (rt_err callres \<times> kstate) option" where
  "mb_send_loop thr m value timeout s =
     (if mb_entry (mailboxes s m) = mb_size (mailboxes s m) then
        do {
          t \<leftarrow> thr;
          let s1 = upd_thread t (\<lambda>th. th\<lparr>error := RT_EOK\<rparr>) s;
          if timeout = 0 then Some (Return (- RT_EFULL), s1)
          else do {
            RT_DEBUG_IN_THREAD_CONTEXT s1;
            s2 \<leftarrow> ipc_wait (SenderQ (OMb m)) t (o_flag (objs s1 (OMb m))) timeout s1;
            Some (Blocked, s2)
          }
        }
      else if unat (in_offset (mailboxes s m)) < length (mb_pool (mailboxes s m)) then
        (let s1 = upd_mb m (mb_store value) s
         in if \<not> ls_isempty (SuspendQ (OMb m)) (tlists s1) then
              do {
                s2 \<leftarrow> rt_ipc_list_resume (SuspendQ (OMb m)) s1;
                s3 \<leftarrow> rt_schedule s2;
                Some (Return RT_EOK, s3)
              }
            else Some (Return RT_EOK, s1))
      else None)"

definition rt_mb_send_wait ::
  "nat \<Rightarrow> rt_uint32 \<Rightarrow> rt_int32 \<Rightarrow> kstate \<Rightarrow> (rt_err callres \<times> kstate) option" where
  "rt_mb_send_wait m value timeout s =
     (if mb_entry (mailboxes s m) = mb_size (mailboxes s m) \<and> timeout = 0
      then Some (Return (- RT_EFULL), s)
      else mb_send_loop (rt_thread_self s) m value timeout s)"

definition rt_mb_send_wait_wake ::
  "tid \<Rightarrow> nat \<Rightarrow> rt_uint32 \<Rightarrow> rt_int32 \<Rightarrow> rt_tick \<Rightarrow> kstate \<Rightarrow> (rt_err callres \<times> kstate) option" where
  "rt_mb_send_wait_wake t m value timeout start s =
     (if error (threads s t) \<noteq> RT_EOK then Some (Return (error (threads s t)), s)
      else mb_send_loop (Some t) m value (remaining_time timeout start s) s)"

definition rt_mb_send :: "nat \<Rightarrow> rt_uint32 \<Rightarrow> kstate \<Rightarrow> (rt_err callres \<times> kstate) option" where
  "rt_mb_send m value s = rt_mb_send_wait m value 0 s"

text \<open>The receiver: the result carries the mail that is stored through \<^verbatim>\<open>value\<close>.\<close>

definition mb_recv_loop ::
  "tid option \<Rightarrow> nat \<Rightarrow> rt_int32 \<Rightarrow> kstate \<Rightarrow> ((rt_err \<times> rt_uint32 option) callres \<times> kstate) option" where
  "mb_recv_loop thr m timeout s =
     (if mb_entry (mailboxes s m) = 0 then
        do {
          t \<leftarrow> thr;
          let s1 = upd_thread t (\<lambda>th. th\<lparr>error := RT_EOK\<rparr>) s;
          if timeout = 0 then
            Some (Return (- RT_ETIMEOUT, None), upd_thread t (\<lambda>th. th\<lparr>error := - RT_ETIMEOUT\<rparr>) s1)
          else do {
            RT_DEBUG_IN_THREAD_CONTEXT s1;
            s2 \<leftarrow> ipc_wait (SuspendQ (OMb m)) t (o_flag (objs s1 (OMb m))) timeout s1;
            Some (Blocked, s2)
          }
        }
      else if unat (out_offset (mailboxes s m)) < length (mb_pool (mailboxes s m)) then
        (let (value, mb) = mb_fetch (mailboxes s m);
             s1 = upd_mb m (\<lambda>_. mb) s
         in if \<not> ls_isempty (SenderQ (OMb m)) (tlists s1) then
              do {
                s2 \<leftarrow> rt_ipc_list_resume (SenderQ (OMb m)) s1;
                s3 \<leftarrow> rt_schedule s2;
                Some (Return (RT_EOK, Some value), s3)
              }
            else Some (Return (RT_EOK, Some value), s1))
      else None)"

definition rt_mb_recv ::
  "nat \<Rightarrow> rt_int32 \<Rightarrow> kstate \<Rightarrow> ((rt_err \<times> rt_uint32 option) callres \<times> kstate) option" where
  "rt_mb_recv m timeout s =
     (if mb_entry (mailboxes s m) = 0 \<and> timeout = 0 then Some (Return (- RT_ETIMEOUT, None), s)
      else mb_recv_loop (rt_thread_self s) m timeout s)"

definition rt_mb_recv_wake ::
  "tid \<Rightarrow> nat \<Rightarrow> rt_int32 \<Rightarrow> rt_tick \<Rightarrow> kstate
     \<Rightarrow> ((rt_err \<times> rt_uint32 option) callres \<times> kstate) option" where
  "rt_mb_recv_wake t m timeout start s =
     (if error (threads s t) \<noteq> RT_EOK then Some (Return (error (threads s t), None), s)
      else mb_recv_loop (Some t) m (remaining_time timeout start s) s)"

definition rt_mb_control :: "nat \<Rightarrow> rt_uint8 \<Rightarrow> kstate \<Rightarrow> (rt_err \<times> kstate) option" where
  "rt_mb_control m cmd s =
     (if cmd = RT_IPC_CMD_RESET then
        do {
          s1 \<leftarrow> rt_ipc_list_resume_all (SuspendQ (OMb m)) s;
          s2 \<leftarrow> rt_ipc_list_resume_all (SenderQ (OMb m)) s1;
          s3 \<leftarrow> rt_schedule (upd_mb m (\<lambda>x. x\<lparr>mb_entry := 0, in_offset := 0, out_offset := 0\<rparr>) s2);
          Some (RT_EOK, s3)
        }
      else Some (- RT_ERROR, s))"

section \<open>The interface of a bounded queue\<close>

text \<open>\<open>fits\<close> says which values the queue can take (a message queue has messages of a fixed size).\<close>

locale bounded_queue =
  fixes contents :: "'q \<Rightarrow> 'a list"
    and capacity :: "'q \<Rightarrow> nat"
    and fits :: "'q \<Rightarrow> 'a \<Rightarrow> bool"
    and ok :: "'q \<Rightarrow> bool"
    and put :: "'a \<Rightarrow> 'q \<Rightarrow> 'q"
    and get :: "'q \<Rightarrow> 'a \<times> 'q"
  assumes bounded: "ok q \<Longrightarrow> length (contents q) \<le> capacity q"
    and put_contents: "ok q \<Longrightarrow> fits q x \<Longrightarrow> length (contents q) < capacity q \<Longrightarrow>
      contents (put x q) = contents q @ [x]"
    and put_ok: "ok q \<Longrightarrow> fits q x \<Longrightarrow> length (contents q) < capacity q \<Longrightarrow> ok (put x q)"
    and put_frame: "ok q \<Longrightarrow> fits q x \<Longrightarrow> length (contents q) < capacity q \<Longrightarrow>
      capacity (put x q) = capacity q \<and> fits (put x q) = fits q"
    and get_contents: "ok q \<Longrightarrow> contents q \<noteq> [] \<Longrightarrow> contents q = fst (get q) # contents (snd (get q))"
    and get_ok: "ok q \<Longrightarrow> contents q \<noteq> [] \<Longrightarrow> ok (snd (get q))"
begin

text \<open>A run of insertions, and a run of removals with the values they return.\<close>

primrec put_all :: "'a list \<Rightarrow> 'q \<Rightarrow> 'q" where
  "put_all [] q = q"
| "put_all (x # xs) q = put_all xs (put x q)"

primrec get_all :: "nat \<Rightarrow> 'q \<Rightarrow> 'a list \<times> 'q" where
  "get_all 0 q = ([], q)"
| "get_all (Suc n) q = (let (x, q1) = get q; (xs, q2) = get_all n q1 in (x # xs, q2))"

lemma put_all_contents:
  "ok q \<Longrightarrow> \<forall>x\<in>set xs. fits q x \<Longrightarrow> length (contents q) + length xs \<le> capacity q \<Longrightarrow>
    contents (put_all xs q) = contents q @ xs \<and> ok (put_all xs q)"
proof (induction xs arbitrary: q)
  case (Cons x xs)
  then have "length (contents q) < capacity q" "fits q x" by simp_all
  with Cons show ?case by (simp add: put_contents put_ok put_frame)
qed simp

lemma get_all_contents:
  "ok q \<Longrightarrow> n \<le> length (contents q) \<Longrightarrow>
    fst (get_all n q) = take n (contents q) \<and> contents (snd (get_all n q)) = drop n (contents q)
    \<and> ok (snd (get_all n q))"
proof (induction n arbitrary: q)
  case (Suc n)
  then have ne: "contents q \<noteq> []" by auto
  let ?q1 = "snd (get q)"
  have c: "contents q = fst (get q) # contents ?q1" using Suc.prems(1) ne by (rule get_contents)
  then have "n \<le> length (contents ?q1)" using Suc.prems(2) by (metis Suc_le_mono length_Cons)
  with Suc.IH [of ?q1] get_ok [OF Suc.prems(1) ne] have
    "fst (get_all n ?q1) = take n (contents ?q1) \<and> contents (snd (get_all n ?q1)) = drop n (contents ?q1)
      \<and> ok (snd (get_all n ?q1))" by blast
  then show ?case by (subst (1 2) c) (simp add: Let_def case_prod_beta)
qed simp

text \<open>What goes in comes out, in the same order.\<close>

lemma fifo:
  assumes "ok q" and "contents q = []" and "\<forall>x\<in>set xs. fits q x" and "length xs \<le> capacity q"
  shows "fst (get_all (length xs) (put_all xs q)) = xs"
proof -
  have "contents (put_all xs q) = xs" "ok (put_all xs q)"
    using put_all_contents [OF assms(1), of xs] assms(2-4) by simp_all
  then show ?thesis using get_all_contents [of "put_all xs q" "length xs"] by simp
qed

end

section \<open>The ring buffer implements a bounded queue\<close>

definition mb_wf :: "rt_mailbox \<Rightarrow> bool" where
  "mb_wf mb \<longleftrightarrow> length (mb_pool mb) = unat (mb_size mb) \<and> unat (mb_entry mb) \<le> unat (mb_size mb)
     \<and> (if mb_size mb = 0 then out_offset mb = 0 \<and> in_offset mb = 0
        else unat (out_offset mb) < unat (mb_size mb)
          \<and> unat (in_offset mb) = (unat (out_offset mb) + unat (mb_entry mb)) mod unat (mb_size mb))"

definition mb_queue :: "rt_mailbox \<Rightarrow> rt_uint32 list" where
  "mb_queue mb = map (\<lambda>i. mb_pool mb ! ((unat (out_offset mb) + i) mod unat (mb_size mb)))
     [0..<unat (mb_entry mb)]"

lemma mb_queue_length [simp]: "length (mb_queue mb) = unat (mb_entry mb)"
  by (simp add: mb_queue_def)

lemma entry_inc:
  fixes e n :: rt_uint16
  assumes "unat e < unat n"
  shows "unat (e + 1) = unat e + 1"
proof -
  have "unat n < 65536" using unsigned_less [of n] by simp
  with assms show ?thesis by (intro unat_word_ariths(1) [THEN trans]) simp
qed

lemma ring_advance:
  fixes k n :: rt_uint16
  assumes "unat k < unat n"
  shows "unat (if k + 1 \<ge> n then 0 else k + 1) = (unat k + 1) mod unat n"
proof -
  have u: "unat (k + 1) = unat k + 1" using assms by (rule entry_inc)
  show ?thesis
  proof (cases "unat k + 1 = unat n")
    case True
    then have "k + 1 \<ge> n" using u by (simp add: word_le_nat_alt)
    with True show ?thesis by simp
  next
    case False
    then have "\<not> k + 1 \<ge> n" using u assms by (simp add: word_le_nat_alt)
    with False u assms show ?thesis by simp
  qed
qed

lemma ring_distinct:
  fixes a i j n :: nat
  assumes "i < j" and "j < n"
  shows "(a + i) mod n \<noteq> (a + j) mod n"
proof
  assume "(a + i) mod n = (a + j) mod n"
  then have "n dvd (a + j) - (a + i)" using assms by (intro mod_eq_dvd_iff_nat [THEN iffD1]) auto
  with assms show False by (auto dest: dvd_imp_le)
qed

lemma mb_store_shape:
  "mb_pool (mb_store v mb) = (mb_pool mb)[unat (in_offset mb) := v]"
  "in_offset (mb_store v mb) = (if in_offset mb + 1 \<ge> mb_size mb then 0 else in_offset mb + 1)"
  "mb_entry (mb_store v mb) = mb_entry mb + 1"
  "out_offset (mb_store v mb) = out_offset mb" "mb_size (mb_store v mb) = mb_size mb"
  by (simp_all add: mb_store_def Let_def)

lemma mb_fetch_shape:
  "fst (mb_fetch mb) = mb_pool mb ! unat (out_offset mb)"
  "mb_pool (snd (mb_fetch mb)) = mb_pool mb"
  "out_offset (snd (mb_fetch mb)) = (if out_offset mb + 1 \<ge> mb_size mb then 0 else out_offset mb + 1)"
  "mb_entry (snd (mb_fetch mb)) = mb_entry mb - 1"
  "in_offset (snd (mb_fetch mb)) = in_offset mb" "mb_size (snd (mb_fetch mb)) = mb_size mb"
  by (simp_all add: mb_fetch_def Let_def)

lemma mb_store_ok:
  assumes wf: "mb_wf mb" and room: "unat (mb_entry mb) < unat (mb_size mb)"
  shows "mb_queue (mb_store v mb) = mb_queue mb @ [v]" and "mb_wf (mb_store v mb)"
proof -
  let ?n = "unat (mb_size mb)" and ?e = "unat (mb_entry mb)" and ?o = "unat (out_offset mb)"
  let ?i = "unat (in_offset mb)"
  from wf room have n: "0 < ?n" "mb_size mb \<noteq> 0" and len: "length (mb_pool mb) = ?n" and o: "?o < ?n"
    and i: "?i = (?o + ?e) mod ?n"
    by (auto simp: mb_wf_def split: if_splits)
  then have il: "?i < ?n" by simp
  have e: "unat (mb_entry mb + 1) = ?e + 1" using room by (rule entry_inc)
  have "(mb_pool mb)[?i := v] ! ((?o + k) mod ?n) = mb_pool mb ! ((?o + k) mod ?n)" if "k < ?e" for k
    using ring_distinct [of k ?e ?n ?o] that room i by simp
  then have "map (\<lambda>k. (mb_pool mb)[?i := v] ! ((?o + k) mod ?n)) [0..<?e] = mb_queue mb"
    by (auto simp: mb_queue_def)
  moreover have "(mb_pool mb)[?i := v] ! ((?o + ?e) mod ?n) = v" using il len i by simp
  ultimately show "mb_queue (mb_store v mb) = mb_queue mb @ [v]"
    by (simp add: mb_queue_def [of "mb_store v mb"] mb_store_shape e)
  have "unat (in_offset (mb_store v mb)) = (?o + (?e + 1)) mod ?n"
    using ring_advance [OF il] i by (simp add: mb_store_shape mod_Suc_eq)
  with room e len o n show "mb_wf (mb_store v mb)"
    by (simp add: mb_wf_def mb_store_shape(1,3,4,5))
qed

lemma mb_fetch_ok:
  assumes wf: "mb_wf mb" and ne: "mb_queue mb \<noteq> []"
  shows "mb_queue mb = fst (mb_fetch mb) # mb_queue (snd (mb_fetch mb))" and "mb_wf (snd (mb_fetch mb))"
proof -
  let ?n = "unat (mb_size mb)" and ?e = "unat (mb_entry mb)" and ?o = "unat (out_offset mb)"
  from ne have e0: "0 < ?e" by (metis length_greater_0_conv mb_queue_length)
  with wf have n: "0 < ?n" "mb_size mb \<noteq> 0" and len: "length (mb_pool mb) = ?n" and o: "?o < ?n"
    and i: "unat (in_offset mb) = (?o + ?e) mod ?n" and le: "?e \<le> ?n"
    by (auto simp: mb_wf_def split: if_splits)
  have e: "unat (mb_entry mb - 1) = ?e - 1" using e0 by (metis gr_implies_not0 unat_0 unat_minus_one)
  have o': "unat (out_offset (snd (mb_fetch mb))) = (?o + 1) mod ?n"
    using ring_advance [OF o] by (simp add: mb_fetch_shape)
  have split: "[0..<?e] = 0 # map Suc [0..<?e - 1]" using e0 by (simp add: map_Suc_upt upt_conv_Cons)
  have shift: "((?o + 1) mod ?n + k) mod ?n = (?o + Suc k) mod ?n" for k
    by (metis add.assoc add.commute mod_add_right_eq plus_1_eq_Suc)
  then have "mb_queue (snd (mb_fetch mb)) = map (\<lambda>k. mb_pool mb ! ((?o + Suc k) mod ?n)) [0..<?e - 1]"
    by (simp add: mb_queue_def o' e mb_fetch_shape(2,4,6))
  then show "mb_queue mb = fst (mb_fetch mb) # mb_queue (snd (mb_fetch mb))"
    by (subst mb_queue_def, subst split) (simp add: mb_fetch_shape(1) o comp_def)
  have "((?o + 1) mod ?n + (?e - 1)) mod ?n = (?o + ?e) mod ?n"
    using e0 shift [of "?e - 1"] by simp
  with o' e i len le n show "mb_wf (snd (mb_fetch mb))"
    by (simp add: mb_wf_def mb_fetch_shape(2,4,5,6))
qed

interpretation mailbox: bounded_queue mb_queue "\<lambda>mb. unat (mb_size mb)" "\<lambda>_ _. True" mb_wf mb_store mb_fetch
proof unfold_locales
  fix q x
  assume q: "mb_wf q"
  then show "length (mb_queue q) \<le> unat (mb_size q)" by (simp add: mb_wf_def)
  show "mb_queue q \<noteq> [] \<Longrightarrow> mb_queue q = fst (mb_fetch q) # mb_queue (snd (mb_fetch q))"
    "mb_queue q \<noteq> [] \<Longrightarrow> mb_wf (snd (mb_fetch q))"
    using mb_fetch_ok [OF q] by blast+
  assume "length (mb_queue q) < unat (mb_size q)"
  then show "mb_queue (mb_store x q) = mb_queue q @ [x]" "mb_wf (mb_store x q)"
    "unat (mb_size (mb_store x q)) = unat (mb_size q) \<and> (\<lambda>_. True) = (\<lambda>_. True)"
    using mb_store_ok [OF q] by (simp_all add: mb_store_shape)
qed

section \<open>Queues of the kernel\<close>

text \<open>
  The same promise for the calls, which also wake and schedule threads: a send that succeeds appends,
  a receive takes the first. \<open>send_each\<close> and \<open>recv_each\<close> are runs of calls.
\<close>

primrec send_each :: "('a \<Rightarrow> 's \<Rightarrow> 's option) \<Rightarrow> 'a list \<Rightarrow> 's \<Rightarrow> 's option" where
  "send_each send [] s = Some s"
| "send_each send (x # xs) s = do { s1 \<leftarrow> send x s; send_each send xs s1 }"

primrec recv_each :: "('s \<Rightarrow> ('a \<times> 's) option) \<Rightarrow> nat \<Rightarrow> 's \<Rightarrow> ('a list \<times> 's) option" where
  "recv_each recv 0 s = Some ([], s)"
| "recv_each recv (Suc n) s =
     do { (x, s1) \<leftarrow> recv s; (xs, s2) \<leftarrow> recv_each recv n s1; Some (x # xs, s2) }"

locale kernel_queue =
  fixes contents :: "'s \<Rightarrow> 'a list"
    and capacity :: "'s \<Rightarrow> nat"
    and fits :: "'s \<Rightarrow> 'a \<Rightarrow> bool"
    and ok :: "'s \<Rightarrow> bool"
    and send :: "'a \<Rightarrow> 's \<Rightarrow> 's option"
    and recv :: "'s \<Rightarrow> ('a \<times> 's) option"
  assumes send_law: "ok s \<Longrightarrow> fits s x \<Longrightarrow> length (contents s) < capacity s \<Longrightarrow>
      \<exists>s'. send x s = Some s' \<and> ok s' \<and> contents s' = contents s @ [x]
        \<and> capacity s' = capacity s \<and> fits s' = fits s"
    and recv_law: "ok s \<Longrightarrow> contents s = x # xs \<Longrightarrow>
      \<exists>s'. recv s = Some (x, s') \<and> ok s' \<and> contents s' = xs"
begin

lemma send_each_returns:
  "ok s \<Longrightarrow> \<forall>x\<in>set xs. fits s x \<Longrightarrow> length (contents s) + length xs \<le> capacity s \<Longrightarrow>
    \<exists>s'. send_each send xs s = Some s' \<and> ok s' \<and> contents s' = contents s @ xs"
proof (induction xs arbitrary: s)
  case (Cons x xs)
  then obtain s1 where s1: "send x s = Some s1" "ok s1" "contents s1 = contents s @ [x]"
    "capacity s1 = capacity s" "fits s1 = fits s"
    using send_law [of s x] by auto
  with Cons.IH [of s1] Cons.prems show ?case by auto
qed simp

lemma recv_each_returns:
  "ok s \<Longrightarrow> contents s = xs @ ys \<Longrightarrow>
    \<exists>s'. recv_each recv (length xs) s = Some (xs, s') \<and> ok s' \<and> contents s' = ys"
proof (induction xs arbitrary: s)
  case (Cons x xs)
  then obtain s1 where "recv s = Some (x, s1)" "ok s1" "contents s1 = xs @ ys"
    using recv_law [of s x "xs @ ys"] by auto
  with Cons.IH [of s1] show ?case by auto
qed simp

text \<open>What is sent is received, in the same order, behind what was there.\<close>

lemma send_then_receive:
  assumes "ok s" and "\<forall>x\<in>set xs. fits s x" and "length (contents s) + length xs \<le> capacity s"
  shows "\<exists>s1 s2. send_each send xs s = Some s1
    \<and> recv_each recv (length (contents s) + length xs) s1 = Some (contents s @ xs, s2) \<and> contents s2 = []"
proof -
  obtain s1 where s1: "send_each send xs s = Some s1" "ok s1" "contents s1 = contents s @ xs"
    using send_each_returns [OF assms] by blast
  with recv_each_returns [of s1 "contents s @ xs" "[]"] show ?thesis by auto
qed

end

section \<open>Sending and receiving\<close>

lemma mb_init_wf:
  "length msgpool = unat (ucast sz :: rt_uint16) \<Longrightarrow>
    mb_wf (mailboxes (snd (rt_mb_init m nm msgpool sz flg s)) m)
    \<and> mb_queue (mailboxes (snd (rt_mb_init m nm msgpool sz flg s)) m) = []"
  by (simp add: rt_mb_init_def rt_ipc_object_init_def mb_wf_def mb_queue_def Let_def word_neq_0_conv)
    (simp add: word_less_nat_alt)

lemma mb_in_range:
  assumes wf: "mb_wf mb" and ne: "mb_entry mb \<noteq> mb_size mb"
  shows "unat (in_offset mb) < length (mb_pool mb) \<and> unat (mb_entry mb) < unat (mb_size mb)"
proof -
  from wf have "unat (mb_entry mb) \<le> unat (mb_size mb)" by (simp add: mb_wf_def)
  with ne have lt: "unat (mb_entry mb) < unat (mb_size mb)" by (simp add: word_unat_eq_iff nat_less_le)
  then have "mb_size mb \<noteq> 0" by auto
  with wf lt have "unat (in_offset mb) = (unat (out_offset mb) + unat (mb_entry mb)) mod unat (mb_size mb)"
    "length (mb_pool mb) = unat (mb_size mb)" by (simp_all add: mb_wf_def)
  with lt show ?thesis by (metis gr_implies_not0 mod_less_divisor not_gr_zero)
qed

lemma mb_out_range:
  assumes wf: "mb_wf mb" and ne: "mb_entry mb \<noteq> 0"
  shows "unat (out_offset mb) < length (mb_pool mb)"
proof -
  have "unat (mb_entry mb) \<noteq> 0" using ne by (simp add: unat_eq_0)
  with wf show ?thesis by (auto simp: mb_wf_def split: if_splits)
qed

text \<open>A send to a mailbox with room appends the mail and wakes the first waiting receiver.\<close>

lemma mb_send_room:
  assumes inv: "check_inv base s" and wf: "mb_wf (mailboxes s m)"
    and room: "length (mb_queue (mailboxes s m)) < unat (mb_size (mailboxes s m))"
  shows "\<exists>s'. rt_mb_send_wait m v timeout s = Some (Return 0, s') \<and> check_inv base s'
    \<and> mb_wf (mailboxes s' m) \<and> mb_queue (mailboxes s' m) = mb_queue (mailboxes s m) @ [v]
    \<and> mb_size (mailboxes s' m) = mb_size (mailboxes s m)
    \<and> lst (tlists s') (SuspendQ (OMb m)) = tl (lst (tlists s) (SuspendQ (OMb m)))
    \<and> (\<forall>t ts. lst (tlists s) (SuspendQ (OMb m)) = t # ts \<longrightarrow> stat (threads s' t) = RT_THREAD_READY)"
proof -
  let ?s1 = "upd_mb m (mb_store v) s" and ?h = "SuspendQ (OMb m)"
  have ne: "mb_entry (mailboxes s m) \<noteq> mb_size (mailboxes s m)" using room by auto
  have inv1: "check_inv base ?s1" using inv by simp
  note st = mb_store_ok [OF wf, of v] mb_in_range [OF wf ne] mb_store_shape(5) [of v "mailboxes s m"]
  show ?thesis
  proof (cases "lst (tlists s) ?h")
    case Nil
    with ne st inv1 room show ?thesis
      by (simp add: rt_mb_send_wait_def mb_send_loop_def ls_isempty_def)
  next
    case (Cons t ts)
    then have "lst (tlists ?s1) ?h = t # ts" by simp
    from ipc_resume_first [OF inv1 _ this] obtain s' where
      s': "rt_ipc_list_resume ?h ?s1 = Some (snd (rt_thread_resume t ?s1))"
        "rt_schedule (snd (rt_thread_resume t ?s1)) = Some s'" "check_inv base s'"
        "threads s' = (threads ?s1)(t := (threads ?s1 t)\<lparr>stat := RT_THREAD_READY\<rparr>)"
        "lst (tlists s') ?h = ts" "mailboxes s' = mailboxes ?s1" by metis
    with Cons ne st room show ?thesis
      by (simp add: rt_mb_send_wait_def mb_send_loop_def ls_isempty_def)
  qed
qed

lemma mb_recv_mail:
  assumes inv: "check_inv base s" and wf: "mb_wf (mailboxes s m)"
    and q: "mb_queue (mailboxes s m) = v # vs"
  shows "\<exists>s'. rt_mb_recv m timeout s = Some (Return (0, Some v), s') \<and> check_inv base s'
    \<and> mb_wf (mailboxes s' m) \<and> mb_queue (mailboxes s' m) = vs
    \<and> lst (tlists s') (SenderQ (OMb m)) = tl (lst (tlists s) (SenderQ (OMb m)))
    \<and> (\<forall>t ts. lst (tlists s) (SenderQ (OMb m)) = t # ts \<longrightarrow> stat (threads s' t) = RT_THREAD_READY)"
proof -
  let ?s1 = "upd_mb m (\<lambda>mb. snd (mb_fetch mb)) s" and ?h = "SenderQ (OMb m)"
  have ne: "mb_entry (mailboxes s m) \<noteq> 0" using q by (metis mb_queue_length length_0_conv list.distinct(1) unat_0)
  have inv1: "check_inv base ?s1" using inv by simp
  have fe: "fst (mb_fetch (mailboxes s m)) = v" "mb_queue (snd (mb_fetch (mailboxes s m))) = vs"
    "mb_wf (snd (mb_fetch (mailboxes s m)))"
    using mb_fetch_ok [OF wf] q by simp_all
  note r = mb_out_range [OF wf ne]
  show ?thesis
  proof (cases "lst (tlists s) ?h")
    case Nil
    with ne fe r inv1 show ?thesis
      by (simp add: rt_mb_recv_def mb_recv_loop_def ls_isempty_def Let_def case_prod_beta)
  next
    case (Cons t ts)
    then have "lst (tlists ?s1) ?h = t # ts" by simp
    from ipc_resume_first [OF inv1 _ this] obtain s' where
      s': "rt_ipc_list_resume ?h ?s1 = Some (snd (rt_thread_resume t ?s1))"
        "rt_schedule (snd (rt_thread_resume t ?s1)) = Some s'" "check_inv base s'"
        "threads s' = (threads ?s1)(t := (threads ?s1 t)\<lparr>stat := RT_THREAD_READY\<rparr>)"
        "lst (tlists s') ?h = ts" "mailboxes s' = mailboxes ?s1" by metis
    with Cons ne fe r show ?thesis
      by (simp add: rt_mb_recv_def mb_recv_loop_def ls_isempty_def Let_def case_prod_beta)
  qed
qed

text \<open>Without room and without a mail the calls that do not wait fail and change nothing.\<close>

lemma mb_send_full:
  "mb_entry (mailboxes s m) = mb_size (mailboxes s m) \<Longrightarrow>
    rt_mb_send m v s = Some (Return (- RT_EFULL), s)"
  by (simp add: rt_mb_send_def rt_mb_send_wait_def)

lemma mb_recv_empty:
  "mb_entry (mailboxes s m) = 0 \<Longrightarrow> rt_mb_recv m 0 s = Some (Return (- RT_ETIMEOUT, None), s)"
  by (simp add: rt_mb_recv_def)

text \<open>With a time they wait.\<close>

lemma mb_recv_waits:
  assumes inv: "check_inv base s" and self: "rt_thread_self s = Some t"
    and st: "stat (threads s t) = RT_THREAD_READY" and irq: "irq_nest s = 0"
    and fl: "o_flag (objs s (OMb m)) = 0 \<or> o_flag (objs s (OMb m)) = 1"
    and z: "mb_entry (mailboxes s m) = 0" "timeout \<noteq> 0" and win: "time_ok base s timeout"
    and u: "u \<noteq> t" "stat (threads s u) = RT_THREAD_READY"
  shows "\<exists>s'. rt_mb_recv m timeout s = Some (Blocked, s') \<and> check_inv base s'
    \<and> loc (tlists s') t = Some (SuspendQ (OMb m)) \<and> mailboxes s' = mailboxes s"
proof -
  let ?s1 = "upd_thread t (\<lambda>th. th\<lparr>error := RT_EOK\<rparr>) s" and ?h = "SuspendQ (OMb m)"
  have inv1: "check_inv base ?s1" using inv by (rule check_inv_error)
  have win1: "time_ok base ?s1 timeout" using win by (simp add: time_ok_def)
  have fl1: "o_flag (objs ?s1 (OMb m)) = 0 \<or> o_flag (objs ?s1 (OMb m)) = 1" using fl by simp
  have st1: "stat (threads ?s1 t) = RT_THREAD_READY" using st by simp
  from ipc_wait_returns [OF inv1 st1 fl1 _ win1, of ?h u] u obtain s' where
    s': "ipc_wait ?h t (o_flag (objs ?s1 (OMb m))) timeout ?s1 = Some s'" "check_inv base s'"
      "tlists s' = tlists (rt_ipc_list_suspend ?h t (o_flag (objs ?s1 (OMb m))) ?s1)"
      "mailboxes s' = mailboxes ?s1" by auto
  then show ?thesis
    using ipc_suspend_inv(3) [OF inv1 st1 fl1, of ?h] self irq z
    by (simp add: rt_mb_recv_def mb_recv_loop_def)
qed

section \<open>The mailbox as a queue\<close>

text \<open>The calls that do not wait, as partial operations that are defined when they succeed.\<close>

definition mb_try_send :: "nat \<Rightarrow> rt_uint32 \<Rightarrow> kstate \<Rightarrow> kstate option" where
  "mb_try_send m v s = do {
     (r, s1) \<leftarrow> rt_mb_send m v s;
     if r = Return RT_EOK then Some s1 else None }"

definition mb_try_recv :: "nat \<Rightarrow> kstate \<Rightarrow> (rt_uint32 \<times> kstate) option" where
  "mb_try_recv m s = do {
     (r, s1) \<leftarrow> rt_mb_recv m 0 s;
     case r of Return (e, Some v) \<Rightarrow> if e = RT_EOK then Some (v, s1) else None | _ \<Rightarrow> None }"

interpretation mb_calls: kernel_queue "\<lambda>s. mb_queue (mailboxes s m)" "\<lambda>s. unat (mb_size (mailboxes s m))"
  "\<lambda>_ _. True" "\<lambda>s. check_inv base s \<and> mb_wf (mailboxes s m)" "mb_try_send m" "mb_try_recv m" for m base
proof unfold_locales
  fix s x xs
  assume ok: "check_inv base s \<and> mb_wf (mailboxes s m)"
  { assume "length (mb_queue (mailboxes s m)) < unat (mb_size (mailboxes s m))"
    with mb_send_room [of base s m x 0] ok show
      "\<exists>s'. mb_try_send m x s = Some s' \<and> (check_inv base s' \<and> mb_wf (mailboxes s' m))
        \<and> mb_queue (mailboxes s' m) = mb_queue (mailboxes s m) @ [x]
        \<and> unat (mb_size (mailboxes s' m)) = unat (mb_size (mailboxes s m)) \<and> (\<lambda>_. True) = (\<lambda>_. True)"
      by (auto simp: mb_try_send_def rt_mb_send_def) }
  assume "mb_queue (mailboxes s m) = x # xs"
  with mb_recv_mail [of base s m x xs 0] ok show
    "\<exists>s'. mb_try_recv m s = Some (x, s') \<and> (check_inv base s' \<and> mb_wf (mailboxes s' m))
      \<and> mb_queue (mailboxes s' m) = xs"
    by (auto simp: mb_try_recv_def)
qed

end
