(* ===== verification/Rt_Mq.thy ===== *)
theory Rt_Mq
  imports Rt_Mailbox
begin

text \<open>
  Message queues, \<^verbatim>\<open>rt-thread/src/ipc.c\<close>: the pool is divided into slots with a link and a message
  each; the slots are in the queue of messages (head and tail pointer) or in the free list. Slots are
  addressed by their index, and the link structure is followed as the code does; the lemmas show that
  both chains are disjoint lists and that the queue implements a bounded queue of messages, with
  urgent messages going to its front.

  The copying of a message happens outside of the interrupt locks: the pieces between the locks are
  definitions of their own (\<open>mq_alloc_slot\<close>, \<open>mq_fill\<close>, \<open>mq_link_tail\<close>, \dots), composed by the calls.
\<close>

section \<open>Operations\<close>

abbreviation upd_mq :: "nat \<Rightarrow> (rt_messagequeue \<Rightarrow> rt_messagequeue) \<Rightarrow> kstate \<Rightarrow> kstate" where
  "upd_mq m f s \<equiv> s\<lparr>mqs := (mqs s)(m := f (mqs s m))\<rparr>"

text \<open>The end of initialisation: all slots go to the free list, the last one first.\<close>

definition mq_free_slot :: "nat \<Rightarrow> rt_messagequeue \<Rightarrow> rt_messagequeue" where
  "mq_free_slot i mq =
     (let mq1 = mq\<lparr>mq_next := (mq_next mq)(i := mq_free mq)\<rparr> in mq1\<lparr>mq_free := Some i\<rparr>)"

definition mq_setup :: "rt_messagequeue \<Rightarrow> rt_messagequeue" where
  "mq_setup mq =
     (let mq1 = mq\<lparr>mq_head := None, mq_tail := None\<rparr>;
          mq2 = mq1\<lparr>mq_free := None\<rparr>;
          mq3 = fold mq_free_slot [0..<unat (mq_max_msgs mq2)] mq2
      in mq3\<lparr>mq_entry := 0\<rparr>)"

definition rt_mq_init ::
  "nat \<Rightarrow> rt_uint8 list \<Rightarrow> rt_uint32 \<Rightarrow> rt_uint32 \<Rightarrow> rt_uint8 \<Rightarrow> kstate \<Rightarrow> rt_err \<times> kstate" where
  "rt_mq_init m nm msg_size pool_size flg s =
     (let s1 = rt_object_init (OMq m) RT_Object_Class_MessageQueue nm s;
          s2 = upd_obj (OMq m) (\<lambda>x. x\<lparr>o_flag := flg\<rparr>) s1;
          s3 = rt_ipc_object_init (OMq m) s2;
          s4 = upd_mq m (\<lambda>x. x\<lparr>mq_msg_size := ucast (RT_ALIGN msg_size RT_ALIGN_SIZE)\<rparr>) s3;
          s5 = upd_mq m (\<lambda>x. x\<lparr>mq_max_msgs := ucast (pool_size div (ucast (mq_msg_size x) + 4))\<rparr>) s4
      in (RT_EOK, upd_mq m mq_setup s5))"

definition rt_mq_detach :: "nat \<Rightarrow> kstate \<Rightarrow> (rt_err \<times> kstate) option" where
  "rt_mq_detach m s =
     do {
       s1 \<leftarrow> rt_ipc_list_resume_all (SuspendQ (OMq m)) s;
       Some (RT_EOK, rt_object_detach (OMq m) s1)
     }"

definition rt_mq_delete :: "nat \<Rightarrow> kstate \<Rightarrow> (rt_err \<times> kstate) option" where
  "rt_mq_delete m s =
     do {
       RT_DEBUG_NOT_IN_INTERRUPT s;
       s1 \<leftarrow> rt_ipc_list_resume_all (SuspendQ (OMq m)) s;
       s2 \<leftarrow> rt_object_delete (OMq m) (s1\<lparr>kfree_log := FreePool (OMq m) # kfree_log s1\<rparr>);
       Some (RT_EOK, s2)
     }"

text \<open>\<open>mem\<close> is the result of the allocation of the object, \<open>pool\<close> tells whether that of the pool succeeds.\<close>

definition rt_mq_create ::
  "nat option \<Rightarrow> bool \<Rightarrow> rt_uint8 list \<Rightarrow> rt_uint32 \<Rightarrow> rt_uint32 \<Rightarrow> rt_uint8 \<Rightarrow> kstate
     \<Rightarrow> (nat option \<times> kstate) option" where
  "rt_mq_create mem pool nm msg_size max_msgs flg s =
     do {
       RT_DEBUG_NOT_IN_INTERRUPT s;
       (ob, s1) \<leftarrow> rt_object_allocate (map_option OMq mem) RT_Object_Class_MessageQueue nm s;
       case mem of
         None \<Rightarrow> Some (None, s1)
       | Some m \<Rightarrow>
           (let s2 = upd_obj (OMq m) (\<lambda>x. x\<lparr>o_flag := flg\<rparr>) s1;
                s3 = rt_ipc_object_init (OMq m) s2;
                s4 = upd_mq m (\<lambda>x. x\<lparr>mq_msg_size := ucast (RT_ALIGN msg_size RT_ALIGN_SIZE),
                                     mq_max_msgs := ucast max_msgs\<rparr>) s3
            in if pool then Some (Some m, upd_mq m mq_setup s4)
               else do { (e, s5) \<leftarrow> rt_mq_delete m s4; Some (None, s5) })
     }"

text \<open>Taking a slot from the free list, and copying a message into it.\<close>

definition mq_alloc_slot :: "rt_messagequeue \<Rightarrow> (nat \<times> rt_messagequeue) option" where
  "mq_alloc_slot mq =
     (case mq_free mq of None \<Rightarrow> None | Some i \<Rightarrow> Some (i, mq\<lparr>mq_free := mq_next mq i\<rparr>))"

definition mq_fill :: "nat \<Rightarrow> rt_uint8 list \<Rightarrow> rt_messagequeue \<Rightarrow> rt_messagequeue" where
  "mq_fill i buffer mq =
     mq\<lparr>mq_data := (mq_data mq)(i := buffer @ drop (length buffer) (mq_data mq i))\<rparr>"

definition mq_link_tail :: "nat \<Rightarrow> rt_messagequeue \<Rightarrow> rt_messagequeue" where
  "mq_link_tail i mq =
     (let mq1 = (case mq_tail mq of
                   None \<Rightarrow> mq | Some j \<Rightarrow> mq\<lparr>mq_next := (mq_next mq)(j := Some i)\<rparr>);
          mq2 = mq1\<lparr>mq_tail := Some i\<rparr>;
          mq3 = (if mq_head mq2 = None then mq2\<lparr>mq_head := Some i\<rparr> else mq2)
      in mq3\<lparr>mq_entry := mq_entry mq3 + 1\<rparr>)"

definition mq_link_head :: "nat \<Rightarrow> rt_messagequeue \<Rightarrow> rt_messagequeue" where
  "mq_link_head i mq =
     (let mq1 = mq\<lparr>mq_next := (mq_next mq)(i := mq_head mq)\<rparr>;
          mq2 = mq1\<lparr>mq_head := Some i\<rparr>;
          mq3 = (if mq_tail mq2 = None then mq2\<lparr>mq_tail := Some i\<rparr> else mq2)
      in mq3\<lparr>mq_entry := mq_entry mq3 + 1\<rparr>)"

text \<open>Taking the first message out of the queue. An empty queue has no message to follow.\<close>

definition mq_unlink_head :: "rt_messagequeue \<Rightarrow> (nat \<times> rt_messagequeue) option" where
  "mq_unlink_head mq =
     (case mq_head mq of
        None \<Rightarrow> None
      | Some i \<Rightarrow>
          (let mq1 = mq\<lparr>mq_head := mq_next mq i\<rparr>;
               mq2 = (if mq_tail mq1 = Some i then mq1\<lparr>mq_tail := None\<rparr> else mq1)
           in Some (i, mq2)))"

text \<open>The common end of the two senders.\<close>

definition mq_wake_receiver :: "nat \<Rightarrow> kstate \<Rightarrow> (rt_err \<times> kstate) option" where
  "mq_wake_receiver m s =
     (if \<not> ls_isempty (SuspendQ (OMq m)) (tlists s) then
        do {
          s1 \<leftarrow> rt_ipc_list_resume (SuspendQ (OMq m)) s;
          s2 \<leftarrow> rt_schedule s1;
          Some (RT_EOK, s2)
        }
      else Some (RT_EOK, s))"

definition rt_mq_send :: "nat \<Rightarrow> rt_uint8 list \<Rightarrow> kstate \<Rightarrow> (rt_err \<times> kstate) option" where
  "rt_mq_send m buffer s =
     do {
       RT_ASSERT (length buffer \<noteq> 0);
       if length buffer > unat (mq_msg_size (mqs s m)) then Some (- RT_ERROR, s)
       else case mq_alloc_slot (mqs s m) of
         None \<Rightarrow> Some (- RT_EFULL, s)
       | Some (i, mq) \<Rightarrow>
           (let s1 = upd_mq m (\<lambda>_. mq) s;
                s2 = upd_mq m (\<lambda>x. x\<lparr>mq_next := (mq_next x)(i := None)\<rparr>) s1;
                s3 = upd_mq m (mq_fill i buffer) s2;
                s4 = upd_mq m (mq_link_tail i) s3
            in mq_wake_receiver m s4)
     }"

definition rt_mq_urgent :: "nat \<Rightarrow> rt_uint8 list \<Rightarrow> kstate \<Rightarrow> (rt_err \<times> kstate) option" where
  "rt_mq_urgent m buffer s =
     do {
       RT_ASSERT (length buffer \<noteq> 0);
       if length buffer > unat (mq_msg_size (mqs s m)) then Some (- RT_ERROR, s)
       else case mq_alloc_slot (mqs s m) of
         None \<Rightarrow> Some (- RT_EFULL, s)
       | Some (i, mq) \<Rightarrow>
           (let s1 = upd_mq m (\<lambda>_. mq) s;
                s2 = upd_mq m (mq_fill i buffer) s1;
                s3 = upd_mq m (mq_link_head i) s2
            in mq_wake_receiver m s3)
     }"

text \<open>The receiver; the result carries the bytes stored through \<^verbatim>\<open>buffer\<close>.\<close>

definition mq_recv_loop ::
  "tid option \<Rightarrow> nat \<Rightarrow> nat \<Rightarrow> rt_int32 \<Rightarrow> kstate
     \<Rightarrow> ((rt_err \<times> rt_uint8 list option) callres \<times> kstate) option" where
  "mq_recv_loop thr m sz timeout s =
     (if mq_entry (mqs s m) = 0 then
        do {
          RT_DEBUG_IN_THREAD_CONTEXT s;
          t \<leftarrow> thr;
          let s1 = upd_thread t (\<lambda>th. th\<lparr>error := RT_EOK\<rparr>) s;
          if timeout = 0 then
            Some (Return (- RT_ETIMEOUT, None), upd_thread t (\<lambda>th. th\<lparr>error := - RT_ETIMEOUT\<rparr>) s1)
          else do {
            s2 \<leftarrow> ipc_wait (SuspendQ (OMq m)) t (o_flag (objs s1 (OMq m))) timeout s1;
            Some (Blocked, s2)
          }
        }
      else
        do {
          (i, mq) \<leftarrow> mq_unlink_head (mqs s m);
          let s1 = upd_mq m (\<lambda>_. mq\<lparr>mq_entry := mq_entry mq - 1\<rparr>) s;
          let copy = take (if sz > unat (mq_msg_size (mqs s1 m)) then unat (mq_msg_size (mqs s1 m)) else sz)
                       (mq_data (mqs s1 m) i);
          Some (Return (RT_EOK, Some copy), upd_mq m (mq_free_slot i) s1)
        })"

definition rt_mq_recv ::
  "nat \<Rightarrow> nat \<Rightarrow> rt_int32 \<Rightarrow> kstate \<Rightarrow> ((rt_err \<times> rt_uint8 list option) callres \<times> kstate) option" where
  "rt_mq_recv m sz timeout s =
     do {
       RT_ASSERT (sz \<noteq> 0);
       if mq_entry (mqs s m) = 0 \<and> timeout = 0 then Some (Return (- RT_ETIMEOUT, None), s)
       else mq_recv_loop (rt_thread_self s) m sz timeout s
     }"

definition rt_mq_recv_wake ::
  "tid \<Rightarrow> nat \<Rightarrow> nat \<Rightarrow> rt_int32 \<Rightarrow> rt_tick \<Rightarrow> kstate
     \<Rightarrow> ((rt_err \<times> rt_uint8 list option) callres \<times> kstate) option" where
  "rt_mq_recv_wake t m sz timeout start s =
     (if error (threads s t) \<noteq> RT_EOK then Some (Return (error (threads s t), None), s)
      else mq_recv_loop (Some t) m sz (remaining_time timeout start s) s)"

text \<open>The loop of the reset command, which moves all messages to the free list.\<close>

partial_function (option) mq_flush :: "rt_messagequeue \<Rightarrow> rt_messagequeue option" where
  "mq_flush mq =
     (case mq_unlink_head mq of
        None \<Rightarrow> Some mq
      | Some im \<Rightarrow> mq_flush (mq_free_slot (fst im) (snd im)))"

definition rt_mq_control :: "nat \<Rightarrow> rt_uint8 \<Rightarrow> kstate \<Rightarrow> (rt_err \<times> kstate) option" where
  "rt_mq_control m cmd s =
     (if cmd = RT_IPC_CMD_RESET then
        do {
          s1 \<leftarrow> rt_ipc_list_resume_all (SuspendQ (OMq m)) s;
          mq \<leftarrow> mq_flush (mqs s1 m);
          s2 \<leftarrow> rt_schedule (upd_mq m (\<lambda>_. mq\<lparr>mq_entry := 0\<rparr>) s1);
          Some (RT_EOK, s2)
        }
      else Some (- RT_ERROR, s))"

interpretation mq: waited_object OMq rt_mq_detach
  by unfold_locales (simp add: rt_mq_detach_def)

section \<open>The representation of a message queue\<close>

text \<open>
  \<open>qs\<close> are the slots of the queue in order, \<open>fs\<close> those of the free list; every slot is in exactly one
  of them.
\<close>

definition mq_rep :: "rt_messagequeue \<Rightarrow> nat list \<Rightarrow> nat list \<Rightarrow> bool" where
  "mq_rep mq qs fs \<longleftrightarrow> chain (mq_next mq) (mq_head mq) qs \<and> chain (mq_next mq) (mq_free mq) fs
     \<and> distinct (qs @ fs) \<and> set (qs @ fs) = {0..<unat (mq_max_msgs mq)}
     \<and> mq_tail mq = (if qs = [] then None else Some (last qs))
     \<and> unat (mq_entry mq) = length qs
     \<and> (\<forall>i < unat (mq_max_msgs mq). length (mq_data mq i) = unat (mq_msg_size mq))"

definition mq_wf :: "rt_messagequeue \<Rightarrow> bool" where
  "mq_wf mq \<longleftrightarrow> (\<exists>qs fs. mq_rep mq qs fs)"

lemma mq_wfI: "mq_rep mq qs fs \<Longrightarrow> mq_wf mq"
  unfolding mq_wf_def by blast

definition mq_queue :: "rt_messagequeue \<Rightarrow> rt_uint8 list list" where
  "mq_queue mq = map (mq_data mq) (follow (mq_next mq) (mq_head mq) (unat (mq_entry mq)))"

lemma mq_queue_rep: "mq_rep mq qs fs \<Longrightarrow> mq_queue mq = map (mq_data mq) qs"
  by (metis chain_follow mq_queue_def mq_rep_def)

lemma mq_rep_count: "mq_rep mq qs fs \<Longrightarrow> length qs + length fs = unat (mq_max_msgs mq)"
  by (metis mq_rep_def card_atLeastLessThan diff_zero distinct_card length_append)

lemma mq_slot_length:
  "mq_rep mq qs fs \<Longrightarrow> i \<in> set (qs @ fs) \<Longrightarrow> length (mq_data mq i) = unat (mq_msg_size mq)"
  unfolding mq_rep_def by (metis atLeastLessThan_iff)

lemma mq_entry_inc:
  "mq_rep mq qs (i # fs) \<Longrightarrow> unat (mq_entry mq + 1) = length qs + 1"
  using mq_rep_count [of mq qs "i # fs"] entry_inc [of "mq_entry mq" "mq_max_msgs mq"]
  by (simp add: mq_rep_def)

text \<open>The two ways to send, without the wake-up.\<close>

definition mq_put :: "rt_uint8 list \<Rightarrow> rt_messagequeue \<Rightarrow> rt_messagequeue" where
  "mq_put buffer mq = (case mq_alloc_slot mq of None \<Rightarrow> mq
     | Some (i, mq1) \<Rightarrow> mq_link_tail i (mq_fill i buffer (mq1\<lparr>mq_next := (mq_next mq1)(i := None)\<rparr>)))"

definition mq_put_front :: "rt_uint8 list \<Rightarrow> rt_messagequeue \<Rightarrow> rt_messagequeue" where
  "mq_put_front buffer mq = (case mq_alloc_slot mq of None \<Rightarrow> mq
     | Some (i, mq1) \<Rightarrow> mq_link_head i (mq_fill i buffer mq1))"

definition mq_get :: "rt_messagequeue \<Rightarrow> rt_uint8 list \<times> rt_messagequeue" where
  "mq_get mq = (case mq_unlink_head mq of None \<Rightarrow> ([], mq)
     | Some (i, mq1) \<Rightarrow> (mq_data mq1 i, mq_free_slot i (mq1\<lparr>mq_entry := mq_entry mq1 - 1\<rparr>)))"

abbreviation padded :: "rt_uint8 list \<Rightarrow> rt_uint8 list \<Rightarrow> rt_uint8 list" where
  "padded buffer old \<equiv> buffer @ drop (length buffer) old"

lemma mq_put_rep:
  assumes rep: "mq_rep mq qs (i # fs)" and sz: "length buffer \<le> unat (mq_msg_size mq)"
  shows "mq_rep (mq_put buffer mq) (qs @ [i]) fs"
    and "mq_queue (mq_put buffer mq) = mq_queue mq @ [padded buffer (mq_data mq i)]"
proof -
  have free: "mq_free mq = Some i" "chain (mq_next mq) (mq_next mq i) fs" and i: "i \<notin> set qs" "i \<notin> set fs"
    and d: "distinct qs" "distinct fs" "set qs \<inter> set fs = {}"
    and tail: "mq_tail mq = (if qs = [] then None else Some (last qs))"
    and hd: "chain (mq_next mq) (mq_head mq) qs"
    using rep by (auto simp: mq_rep_def)
  let ?nx = "(mq_next mq)(i := None)"
  let ?nx' = "if qs = [] then ?nx else ?nx(last qs := Some i)"
  have "chain ?nx (mq_head mq) qs" using hd i by (simp add: chain_upd)
  then have q: "chain ?nx' (if qs = [] then Some i else mq_head mq) (qs @ [i])"
    using d i by (intro chain_append) simp_all
  have "last qs \<notin> set fs" if "qs \<noteq> []" using d(3) last_in_set [OF that] by blast
  then have f: "chain ?nx' (mq_next mq i) fs" using free(2) i by (simp add: chain_upd)
  have hne: "mq_head mq = None \<longleftrightarrow> qs = []" using hd by (cases qs) auto
  let ?mq = "mq_put buffer mq"
  have shape: "mq_next ?mq = ?nx'" "mq_head ?mq = (if qs = [] then Some i else mq_head mq)"
    "mq_free ?mq = mq_next mq i" "mq_tail ?mq = Some i" "mq_entry ?mq = mq_entry mq + 1"
    "mq_data ?mq = (mq_data mq)(i := padded buffer (mq_data mq i))"
    "mq_max_msgs ?mq = mq_max_msgs mq" "mq_msg_size ?mq = mq_msg_size mq"
    using free(1) tail hne
    by (auto simp: mq_put_def mq_alloc_slot_def mq_link_tail_def mq_fill_def Let_def)
  have len: "length (padded buffer (mq_data mq i)) = unat (mq_msg_size mq)"
    using mq_slot_length [OF rep, of i] sz by simp
  show rep': "mq_rep ?mq (qs @ [i]) fs"
    using rep q f mq_entry_inc [OF rep] len by (auto simp: mq_rep_def shape)
  have "map (mq_data ?mq) qs = map (mq_data mq) qs" using i by (auto simp: shape)
  then show "mq_queue ?mq = mq_queue mq @ [padded buffer (mq_data mq i)]"
    by (simp add: mq_queue_rep [OF rep'] mq_queue_rep [OF rep]) (simp add: shape)
qed

lemma mq_put_front_rep:
  assumes rep: "mq_rep mq qs (i # fs)" and sz: "length buffer \<le> unat (mq_msg_size mq)"
  shows "mq_rep (mq_put_front buffer mq) (i # qs) fs"
    and "mq_queue (mq_put_front buffer mq) = padded buffer (mq_data mq i) # mq_queue mq"
proof -
  have free: "mq_free mq = Some i" "chain (mq_next mq) (mq_next mq i) fs" and i: "i \<notin> set qs" "i \<notin> set fs"
    and tail: "mq_tail mq = (if qs = [] then None else Some (last qs))"
    and hd: "chain (mq_next mq) (mq_head mq) qs"
    using rep by (auto simp: mq_rep_def)
  let ?mq = "mq_put_front buffer mq"
  have shape: "mq_next ?mq = (mq_next mq)(i := mq_head mq)" "mq_head ?mq = Some i"
    "mq_free ?mq = mq_next mq i" "mq_tail ?mq = (if qs = [] then Some i else Some (last qs))"
    "mq_entry ?mq = mq_entry mq + 1" "mq_data ?mq = (mq_data mq)(i := padded buffer (mq_data mq i))"
    "mq_max_msgs ?mq = mq_max_msgs mq" "mq_msg_size ?mq = mq_msg_size mq"
    using free(1) tail
    by (auto simp: mq_put_front_def mq_alloc_slot_def mq_link_head_def mq_fill_def Let_def)
  have len: "length (padded buffer (mq_data mq i)) = unat (mq_msg_size mq)"
    using mq_slot_length [OF rep, of i] sz by simp
  show rep': "mq_rep ?mq (i # qs) fs"
    using rep hd free(2) i mq_entry_inc [OF rep] len
    by (auto simp: mq_rep_def shape chain_upd)
  have "map (mq_data ?mq) qs = map (mq_data mq) qs" using i by (auto simp: shape)
  then show "mq_queue ?mq = padded buffer (mq_data mq i) # mq_queue mq"
    by (simp add: mq_queue_rep [OF rep'] mq_queue_rep [OF rep]) (simp add: shape)
qed

lemma mq_get_rep:
  assumes rep: "mq_rep mq (i # qs) fs"
  shows "mq_rep (snd (mq_get mq)) qs (i # fs)" and "fst (mq_get mq) = mq_data mq i"
    and "mq_queue mq = fst (mq_get mq) # mq_queue (snd (mq_get mq))"
proof -
  have hd: "mq_head mq = Some i" "chain (mq_next mq) (mq_next mq i) qs" and i: "i \<notin> set qs" "i \<notin> set fs"
    and f: "chain (mq_next mq) (mq_free mq) fs"
    and tail: "mq_tail mq = Some (last (i # qs))" and e: "unat (mq_entry mq) = Suc (length qs)"
    using rep by (auto simp: mq_rep_def)
  let ?mq = "snd (mq_get mq)"
  have "last (i # qs) = i \<longleftrightarrow> qs = []" using i(1) last_in_set [of qs] by auto
  then have shape: "mq_next ?mq = (mq_next mq)(i := mq_free mq)" "mq_head ?mq = mq_next mq i"
    "mq_free ?mq = Some i" "mq_tail ?mq = (if qs = [] then None else Some (last qs))"
    "mq_entry ?mq = mq_entry mq - 1" "mq_data ?mq = mq_data mq"
    "mq_max_msgs ?mq = mq_max_msgs mq" "mq_msg_size ?mq = mq_msg_size mq"
    using hd(1) tail
    by (auto simp: mq_get_def mq_unlink_head_def mq_free_slot_def Let_def split: if_splits)
  have "unat (mq_entry mq - 1) = length qs"
    using e by (metis Suc_eq_plus1 add_diff_cancel_right' nat.simps(3) unat_0 unat_minus_one)
  then show rep': "mq_rep ?mq qs (i # fs)"
    using rep hd(2) f i by (auto simp: mq_rep_def shape chain_upd)
  show fst: "fst (mq_get mq) = mq_data mq i"
    using hd(1) by (auto simp: mq_get_def mq_unlink_head_def Let_def)
  show "mq_queue mq = fst (mq_get mq) # mq_queue ?mq"
    by (simp add: mq_queue_rep [OF rep] mq_queue_rep [OF rep'] fst) (simp add: shape)
qed

lemma mq_frame:
  "mq_max_msgs (mq_put b mq) = mq_max_msgs mq" "mq_msg_size (mq_put b mq) = mq_msg_size mq"
  "mq_msg_size (snd (mq_get mq)) = mq_msg_size mq"
  by (cases "mq_free mq"; cases "mq_tail mq";
      simp add: mq_put_def mq_alloc_slot_def mq_link_tail_def mq_fill_def mq_get_def mq_unlink_head_def
        mq_free_slot_def Let_def; cases "mq_head mq"; simp)+

interpretation msgq: bounded_queue mq_queue "\<lambda>mq. unat (mq_max_msgs mq)"
  "\<lambda>mq (x :: rt_uint8 list). length x = unat (mq_msg_size mq)" mq_wf mq_put mq_get
proof unfold_locales
  fix q and x :: "rt_uint8 list"
  assume "mq_wf q"
  then obtain qs fs where rep: "mq_rep q qs fs" by (auto simp: mq_wf_def)
  note ql = mq_queue_rep [OF rep]
  show "length (mq_queue q) \<le> unat (mq_max_msgs q)" using mq_rep_count [OF rep] by (simp add: ql)
  { assume "mq_queue q \<noteq> []"
    then obtain i qs' where "qs = i # qs'" by (cases qs) (auto simp: ql)
    note get = mq_get_rep [OF rep [unfolded this]]
    show "mq_queue q = fst (mq_get q) # mq_queue (snd (mq_get q))" by (rule get(3))
    show "mq_wf (snd (mq_get q))" using get(1) unfolding mq_wf_def by blast }
  assume x: "length x = unat (mq_msg_size q)" and "length (mq_queue q) < unat (mq_max_msgs q)"
  then obtain i fs' where f: "fs = i # fs'" using mq_rep_count [OF rep] by (cases fs) (auto simp: ql)
  note put = mq_put_rep [OF rep [unfolded f], of x]
  have "length (mq_data q i) = unat (mq_msg_size q)" using mq_slot_length [OF rep] f by simp
  then show "mq_queue (mq_put x q) = mq_queue q @ [x]" using put(2) x by simp
  show "mq_wf (mq_put x q)" using put(1) x by (auto simp: mq_wf_def)
  show "unat (mq_max_msgs (mq_put x q)) = unat (mq_max_msgs q) \<and>
      (\<lambda>x'. length x' = unat (mq_msg_size (mq_put x q))) = (\<lambda>x. length x = unat (mq_msg_size q))"
    by (simp add: mq_frame)
qed

text \<open>Initialisation builds the free list of all slots.\<close>

lemma mq_free_slots:
  fixes mq
  defines "r k \<equiv> fold mq_free_slot [0..<k] (mq\<lparr>mq_free := None\<rparr>)"
  shows "chain (mq_next (r k)) (mq_free (r k)) (rev [0..<k])
    \<and> mq_head (r k) = mq_head mq \<and> mq_tail (r k) = mq_tail mq \<and> mq_data (r k) = mq_data mq
    \<and> mq_max_msgs (r k) = mq_max_msgs mq \<and> mq_msg_size (r k) = mq_msg_size mq"
proof (induction k)
  case (Suc k)
  have "r (Suc k) = mq_free_slot k (r k)" by (simp add: r_def)
  with Suc show ?case by (simp add: mq_free_slot_def Let_def chain_upd del: fun_upd_apply) simp
qed (simp add: r_def)

lemma mq_setup_rep:
  assumes "\<forall>i < unat (mq_max_msgs mq). length (mq_data mq i) = unat (mq_msg_size mq)"
  shows "mq_rep (mq_setup mq) [] (rev [0..<unat (mq_max_msgs mq)])"
  using assms mq_free_slots [of "unat (mq_max_msgs mq)" "mq\<lparr>mq_head := None, mq_tail := None\<rparr>"]
  by (simp add: mq_setup_def Let_def mq_rep_def)

lemma mq_setup_frame:
  "mq_max_msgs (mq_setup mq) = mq_max_msgs mq" "mq_msg_size (mq_setup mq) = mq_msg_size mq"
  using mq_free_slots [of "unat (mq_max_msgs mq)" "mq\<lparr>mq_head := None, mq_tail := None\<rparr>"]
  by (simp_all add: mq_setup_def Let_def)

text \<open>The reset loop ends with all slots free.\<close>

lemma mq_flush_returns:
  "mq_rep (mq\<lparr>mq_entry := e\<rparr>) qs fs \<Longrightarrow>
    \<exists>mq'. mq_flush mq = Some mq' \<and> mq_rep (mq'\<lparr>mq_entry := 0\<rparr>) [] (rev qs @ fs)"
proof (induction qs arbitrary: mq e fs)
  case Nil
  then have "mq_head mq = None" by (simp add: mq_rep_def)
  with Nil show ?case by (subst mq_flush.simps) (auto simp: mq_unlink_head_def mq_rep_def)
next
  case (Cons i qs)
  from mq_get_rep(1) [OF Cons.prems] have rep: "mq_rep (snd (mq_get (mq\<lparr>mq_entry := e\<rparr>))) qs (i # fs)" .
  have hd: "mq_head mq = Some i" using Cons.prems by (simp add: mq_rep_def)
  let ?mq1 = "if mq_tail mq = Some i then mq\<lparr>mq_head := mq_next mq i, mq_tail := None\<rparr>
    else mq\<lparr>mq_head := mq_next mq i\<rparr>"
  have un: "mq_unlink_head mq = Some (i, ?mq1)" using hd by (simp add: mq_unlink_head_def Let_def)
  have "snd (mq_get (mq\<lparr>mq_entry := e\<rparr>)) = (mq_free_slot i ?mq1)\<lparr>mq_entry := e - 1\<rparr>"
    using hd by (simp add: mq_get_def mq_unlink_head_def mq_free_slot_def Let_def)
  with rep have "mq_rep ((mq_free_slot i ?mq1)\<lparr>mq_entry := e - 1\<rparr>) qs (i # fs)" by simp
  from Cons.IH [OF this] show ?case by (subst mq_flush.simps) (simp add: un)
qed

section \<open>Sending and receiving\<close>

lemma mq_wake_receiver_ok:
  assumes inv: "check_inv base s"
  shows "\<exists>s'. mq_wake_receiver m s = Some (0, s') \<and> check_inv base s' \<and> mqs s' = mqs s
    \<and> lst (tlists s') (SuspendQ (OMq m)) = tl (lst (tlists s) (SuspendQ (OMq m)))
    \<and> (\<forall>t ts. lst (tlists s) (SuspendQ (OMq m)) = t # ts \<longrightarrow> stat (threads s' t) = RT_THREAD_READY)"
proof (cases "lst (tlists s) (SuspendQ (OMq m))")
  case Nil
  with inv show ?thesis by (simp add: mq_wake_receiver_def ls_isempty_def)
next
  case (Cons t ts)
  show ?thesis
    by (rule ipc_resume_first [OF inv _ Cons])
      (use Cons in \<open>auto simp: mq_wake_receiver_def ls_isempty_def\<close>)
qed

lemma mq_alloc_put:
  "mq_free mq = Some i \<Longrightarrow> mq_alloc_slot mq = Some (i, mq\<lparr>mq_free := mq_next mq i\<rparr>)"
  by (simp add: mq_alloc_slot_def)

text \<open>A message that fits is appended, an urgent one goes to the front.\<close>

lemma mq_send_appends:
  assumes inv: "check_inv base s" and rep: "mq_rep (mqs s m) qs (i # fs)"
    and sz: "buffer \<noteq> []" "length buffer \<le> unat (mq_msg_size (mqs s m))"
  shows "\<exists>s'. rt_mq_send m buffer s = Some (0, s') \<and> check_inv base s'
    \<and> mq_rep (mqs s' m) (qs @ [i]) fs
    \<and> mq_queue (mqs s' m) = mq_queue (mqs s m) @ [padded buffer (mq_data (mqs s m) i)]
    \<and> mq_max_msgs (mqs s' m) = mq_max_msgs (mqs s m) \<and> mq_msg_size (mqs s' m) = mq_msg_size (mqs s m)
    \<and> lst (tlists s') (SuspendQ (OMq m)) = tl (lst (tlists s) (SuspendQ (OMq m)))"
proof -
  have f: "mq_free (mqs s m) = Some i" using rep by (simp add: mq_rep_def)
  let ?s1 = "s\<lparr>mqs := (mqs s)(m := mq_put buffer (mqs s m))\<rparr>"
  have eq: "rt_mq_send m buffer s = mq_wake_receiver m ?s1"
    using sz f by (simp add: rt_mq_send_def mq_put_def mq_alloc_put Let_def)
  have inv1: "check_inv base ?s1" using inv by simp
  from mq_wake_receiver_ok [OF inv1, of m] mq_put_rep [OF rep sz(2)] show ?thesis
    unfolding eq by (auto simp: mq_frame)
qed

lemma mq_urgent_prepends:
  assumes inv: "check_inv base s" and rep: "mq_rep (mqs s m) qs (i # fs)"
    and sz: "buffer \<noteq> []" "length buffer \<le> unat (mq_msg_size (mqs s m))"
  shows "\<exists>s'. rt_mq_urgent m buffer s = Some (0, s') \<and> check_inv base s'
    \<and> mq_rep (mqs s' m) (i # qs) fs
    \<and> mq_queue (mqs s' m) = padded buffer (mq_data (mqs s m) i) # mq_queue (mqs s m)
    \<and> lst (tlists s') (SuspendQ (OMq m)) = tl (lst (tlists s) (SuspendQ (OMq m)))"
proof -
  have f: "mq_free (mqs s m) = Some i" using rep by (simp add: mq_rep_def)
  let ?s1 = "s\<lparr>mqs := (mqs s)(m := mq_put_front buffer (mqs s m))\<rparr>"
  have eq: "rt_mq_urgent m buffer s = mq_wake_receiver m ?s1"
    using sz f by (simp add: rt_mq_urgent_def mq_put_front_def mq_alloc_put Let_def)
  have inv1: "check_inv base ?s1" using inv by simp
  from mq_wake_receiver_ok [OF inv1, of m] mq_put_front_rep [OF rep sz(2)] show ?thesis
    unfolding eq by auto
qed

lemma mq_recv_first:
  assumes inv: "check_inv base s" and rep: "mq_rep (mqs s m) (i # qs) fs" and sz: "sz \<noteq> 0"
  shows "\<exists>s'. rt_mq_recv m sz timeout s
      = Some (Return (0, Some (take sz (hd (mq_queue (mqs s m))))), s') \<and> check_inv base s'
    \<and> mq_rep (mqs s' m) qs (i # fs) \<and> mq_queue (mqs s' m) = tl (mq_queue (mqs s m))
    \<and> threads s' = threads s \<and> mq_msg_size (mqs s' m) = mq_msg_size (mqs s m)"
proof -
  let ?mq = "mqs s m"
  have hd: "mq_head ?mq = Some i" and e: "mq_entry ?mq \<noteq> 0" using rep by (auto simp: mq_rep_def)
  have len: "length (mq_data ?mq i) = unat (mq_msg_size ?mq)" using mq_slot_length [OF rep] by simp
  note get = mq_get_rep [OF rep]
  have q: "hd (mq_queue ?mq) = mq_data ?mq i" "tl (mq_queue ?mq) = mq_queue (snd (mq_get ?mq))"
    using get(2,3) by simp_all
  let ?s' = "s\<lparr>mqs := (mqs s)(m := snd (mq_get ?mq))\<rparr>"
  have "take (if sz > unat (mq_msg_size ?mq) then unat (mq_msg_size ?mq) else sz) (mq_data ?mq i)
      = take sz (mq_data ?mq i)" using len by simp
  then have "rt_mq_recv m sz timeout s = Some (Return (0, Some (take sz (mq_data ?mq i))), ?s')"
    using hd e sz
    by (auto simp: rt_mq_recv_def mq_recv_loop_def mq_unlink_head_def mq_get_def Let_def)
  with get(1) q inv show ?thesis by (simp add: mq_frame)
qed

text \<open>A full queue, and a message that is too long, are refused.\<close>

lemma mq_send_full:
  "mq_rep (mqs s m) qs [] \<Longrightarrow> buffer \<noteq> [] \<Longrightarrow> length buffer \<le> unat (mq_msg_size (mqs s m)) \<Longrightarrow>
    rt_mq_send m buffer s = Some (- RT_EFULL, s)"
  by (simp add: rt_mq_send_def mq_alloc_slot_def mq_rep_def)

lemma mq_send_too_long:
  "length buffer > unat (mq_msg_size (mqs s m)) \<Longrightarrow> rt_mq_send m buffer s = Some (- RT_ERROR, s)"
  by (auto simp: rt_mq_send_def)

section \<open>The message queue as a queue\<close>

text \<open>The calls that do not wait; the buffer of the receiver has the size of a message.\<close>

definition mq_try_send :: "nat \<Rightarrow> rt_uint8 list \<Rightarrow> kstate \<Rightarrow> kstate option" where
  "mq_try_send m b s = do { (e, s1) \<leftarrow> rt_mq_send m b s; if e = RT_EOK then Some s1 else None }"

definition mq_try_recv :: "nat \<Rightarrow> kstate \<Rightarrow> (rt_uint8 list \<times> kstate) option" where
  "mq_try_recv m s = do {
     (r, s1) \<leftarrow> rt_mq_recv m (unat (mq_msg_size (mqs s m))) 0 s;
     case r of Return (e, Some b) \<Rightarrow> if e = RT_EOK then Some (b, s1) else None | _ \<Rightarrow> None }"

lemma mq_messages_length: "mq_rep mq qs fs \<Longrightarrow> x \<in> set (mq_queue mq) \<Longrightarrow> length x = unat (mq_msg_size mq)"
  using mq_slot_length [of mq qs fs] by (auto simp: mq_queue_rep)

interpretation mq_calls: kernel_queue "\<lambda>s. mq_queue (mqs s m)" "\<lambda>s. unat (mq_max_msgs (mqs s m))"
  "\<lambda>s (b :: rt_uint8 list). length b = unat (mq_msg_size (mqs s m))"
  "\<lambda>s. check_inv base s \<and> mq_wf (mqs s m) \<and> mq_msg_size (mqs s m) \<noteq> 0" "mq_try_send m" "mq_try_recv m"
  for m base
proof unfold_locales
  fix s and x :: "rt_uint8 list" and xs
  assume ok: "check_inv base s \<and> mq_wf (mqs s m) \<and> mq_msg_size (mqs s m) \<noteq> 0"
  then obtain qs fs where rep: "mq_rep (mqs s m) qs fs" by (auto simp: mq_wf_def)
  { assume x: "length x = unat (mq_msg_size (mqs s m))"
      and "length (mq_queue (mqs s m)) < unat (mq_max_msgs (mqs s m))"
    then obtain i fs' where f: "fs = i # fs'"
      using mq_rep_count [OF rep] by (cases fs) (auto simp: mq_queue_rep [OF rep])
    have "x \<noteq> []" using x ok by (auto simp: unat_eq_0)
    moreover have "length (mq_data (mqs s m) i) = unat (mq_msg_size (mqs s m))"
      using mq_slot_length [OF rep] f by simp
    ultimately show "\<exists>s'. mq_try_send m x s = Some s'
        \<and> (check_inv base s' \<and> mq_wf (mqs s' m) \<and> mq_msg_size (mqs s' m) \<noteq> 0)
        \<and> mq_queue (mqs s' m) = mq_queue (mqs s m) @ [x]
        \<and> unat (mq_max_msgs (mqs s' m)) = unat (mq_max_msgs (mqs s m))
        \<and> (\<lambda>b. length b = unat (mq_msg_size (mqs s' m))) = (\<lambda>b. length b = unat (mq_msg_size (mqs s m)))"
      using mq_send_appends [OF _ rep [unfolded f], of base x] ok x
      unfolding mq_wf_def by (auto simp: mq_try_send_def) blast }
  assume q: "mq_queue (mqs s m) = x # xs"
  then obtain i qs' where qs: "qs = i # qs'" using mq_queue_rep [OF rep] by (cases qs) auto
  have sz: "unat (mq_msg_size (mqs s m)) \<noteq> 0" using ok by (simp add: unat_eq_0)
  have "length x = unat (mq_msg_size (mqs s m))" using mq_messages_length [OF rep, of x] q by simp
  with mq_recv_first [OF _ rep [unfolded qs] sz, of base 0] ok q
  show "\<exists>s'. mq_try_recv m s = Some (x, s')
      \<and> (check_inv base s' \<and> mq_wf (mqs s' m) \<and> mq_msg_size (mqs s' m) \<noteq> 0) \<and> mq_queue (mqs s' m) = xs"
    unfolding mq_wf_def by (auto simp: mq_try_recv_def) blast
qed

text \<open>A reset wakes the waiting threads and frees all messages.\<close>

lemma mq_reset_empties:
  assumes inv: "check_inv base s" and rep: "mq_rep (mqs s m) qs fs"
    and u: "stat (threads s u) = RT_THREAD_READY"
  shows "\<exists>s'. rt_mq_control m RT_IPC_CMD_RESET s = Some (0, s') \<and> check_inv base s'
    \<and> mq_rep (mqs s' m) [] (rev qs @ fs) \<and> lst (tlists s') (SuspendQ (OMq m)) = []"
proof -
  obtain s1 where s1: "rt_ipc_list_resume_all (SuspendQ (OMq m)) s = Some s1" "check_inv base s1"
    "lst (tlists s1) (SuspendQ (OMq m)) = []" "mqs s1 = mqs s"
    "\<And>t. t \<notin> set (lst (tlists s) (SuspendQ (OMq m))) \<Longrightarrow> threads s1 t = threads s t"
    using ipc_resume_all_returns [OF inv, of "SuspendQ (OMq m)"] by auto
  have "mq_rep ((mqs s1 m)\<lparr>mq_entry := mq_entry (mqs s m)\<rparr>) qs fs" using rep by (simp add: s1(4))
  from mq_flush_returns [OF this] obtain mq' where
    mq': "mq_flush (mqs s1 m) = Some mq'" "mq_rep (mq'\<lparr>mq_entry := 0\<rparr>) [] (rev qs @ fs)" by blast
  let ?s2 = "upd_mq m (\<lambda>_. mq'\<lparr>mq_entry := 0\<rparr>) s1"
  have inv2: "check_inv base ?s2" using s1(2) by simp
  have "u \<notin> set (lst (tlists s) (SuspendQ (OMq m)))" using waiter_suspended [OF inv _, of "SuspendQ (OMq m)" u] u by auto
  then have "stat (threads ?s2 u) = RT_THREAD_READY" using s1(5) u by simp
  then obtain s' where s': "rt_schedule ?s2 = Some s'"
    using rt_schedule_cases [of ?s2 u] inv2 by (auto simp: check_inv_def)
  have "rt_mq_control m RT_IPC_CMD_RESET s = Some (0, s')"
    using s1(1) mq'(1) s' by (simp add: rt_mq_control_def)
  then show ?thesis
    using mq'(2) s1(3) rt_schedule_same [OF s'] check_inv_schedule [OF inv2 s'] by simp
qed

end
