(* ===== verification/Rt_Mempool.thy ===== *)
theory Rt_Mempool
  imports Rt_Mq
begin

text \<open>
  Memory pools, \<^verbatim>\<open>rt-thread/src/mempool.c\<close>, with \<^verbatim>\<open>rt_get_errno\<close> and \<^verbatim>\<open>rt_set_errno\<close> of \<^verbatim>\<open>kservice.c\<close>. A block
  is addressed by its index; the word in front of it is the link of the free list while it is free
  and the address of the pool while it is allocated. Writing a link outside of the pool, following the
  pool address as a link, and taking the head of an empty list for a thread have no defined result.
\<close>

section \<open>Error numbers\<close>

definition rt_get_errno :: "kstate \<Rightarrow> rt_err" where
  "rt_get_errno s =
     (if rt_interrupt_get_nest s \<noteq> 0 then kerrno s
      else case rt_thread_self s of None \<Rightarrow> kerrno s | Some t \<Rightarrow> error (threads s t))"

definition rt_set_errno :: "rt_err \<Rightarrow> kstate \<Rightarrow> kstate" where
  "rt_set_errno e s =
     (if rt_interrupt_get_nest s \<noteq> 0 then s\<lparr>kerrno := e\<rparr>
      else case rt_thread_self s of
        None \<Rightarrow> s\<lparr>kerrno := e\<rparr>
      | Some t \<Rightarrow> upd_thread t (\<lambda>th. th\<lparr>error := e\<rparr>) s)"

section \<open>Operations\<close>

abbreviation upd_mp :: "nat \<Rightarrow> (rt_mempool \<Rightarrow> rt_mempool) \<Rightarrow> kstate \<Rightarrow> kstate" where
  "upd_mp m f s \<equiv> s\<lparr>mempools := (mempools s)(m := f (mempools s m))\<rparr>"

text \<open>
  The end of initialisation: the counters, the wait list and the free list. Every block is linked to the next
  one, then the link of the last block is cleared; without a block that write is outside of the pool.
\<close>

definition mp_link_blocks :: "nat \<Rightarrow> (nat \<Rightarrow> mp_link) \<Rightarrow> nat \<Rightarrow> mp_link" where
  "mp_link_blocks n = fold (\<lambda>offset l. l(offset := NextFree (Some (offset + 1)))) [0..<n]"

definition mp_setup :: "nat \<Rightarrow> rt_uint32 \<Rightarrow> kstate \<Rightarrow> kstate option" where
  "mp_setup m blocks s =
     (let s1 = upd_mp m (\<lambda>x. x\<lparr>mp_total_count := blocks\<rparr>) s;
          s2 = upd_mp m (\<lambda>x. x\<lparr>mp_free_count := mp_total_count x\<rparr>) s1;
          s3 = s2\<lparr>tlists := ls_init_head (SuspendQ (OMp m)) (tlists s2)\<rparr>;
          s4 = upd_mp m (\<lambda>x. x\<lparr>mp_suspend_count := 0\<rparr>) s3;
          s5 = upd_mp m (\<lambda>x. x\<lparr>mp_links := mp_link_blocks (unat blocks) (mp_links x)\<rparr>) s4
      in if blocks = 0 then None
         else
           (let s6 = upd_mp m (\<lambda>x. x\<lparr>mp_links := (mp_links x)(unat blocks - 1 := NextFree None)\<rparr>) s5
            in Some (upd_mp m (\<lambda>x. x\<lparr>mp_block_list := Some 0\<rparr>) s6)))"

definition rt_mp_init ::
  "nat \<Rightarrow> rt_uint8 list \<Rightarrow> rt_uint32 \<Rightarrow> rt_uint32 \<Rightarrow> kstate \<Rightarrow> (rt_err \<times> kstate) option" where
  "rt_mp_init m nm sz block_size s =
     (let s1 = rt_object_init (OMp m) RT_Object_Class_MemPool nm s;
          s2 = upd_mp m (\<lambda>x. x\<lparr>mp_size := RT_ALIGN_DOWN sz RT_ALIGN_SIZE\<rparr>) s1;
          bs = RT_ALIGN block_size RT_ALIGN_SIZE;
          s3 = upd_mp m (\<lambda>x. x\<lparr>mp_block_size := bs\<rparr>) s2
      in if bs + 4 = 0 then None
         else do { s4 \<leftarrow> mp_setup m (mp_size (mempools s3 m) div (bs + 4)) s3; Some (RT_EOK, s4) })"

text \<open>Waking all threads that wait for a block, the loop of detach and delete.\<close>

partial_function (option) mp_resume_all :: "nat \<Rightarrow> kstate \<Rightarrow> kstate option" where
  "mp_resume_all m s =
     (case lst (tlists s) (SuspendQ (OMp m)) of
        [] \<Rightarrow> Some s
      | t # ts \<Rightarrow>
          (let s1 = upd_thread t (\<lambda>th. th\<lparr>error := - RT_ERROR\<rparr>) s;
               s2 = snd (rt_thread_resume t s1)
           in mp_resume_all m (upd_mp m (\<lambda>x. x\<lparr>mp_suspend_count := mp_suspend_count x - 1\<rparr>) s2)))"

definition rt_mp_detach :: "nat \<Rightarrow> kstate \<Rightarrow> (rt_err \<times> kstate) option" where
  "rt_mp_detach m s =
     do { s1 \<leftarrow> mp_resume_all m s; Some (RT_EOK, rt_object_detach (OMp m) s1) }"

text \<open>
  \<open>pool\<close> tells whether the allocation of the pool succeeds. When the size of the pool does not fit into
  a word, the allocated room is smaller than the pool and the links are written behind it.
\<close>

definition rt_mp_create ::
  "nat option \<Rightarrow> bool \<Rightarrow> rt_uint8 list \<Rightarrow> rt_uint32 \<Rightarrow> rt_uint32 \<Rightarrow> kstate \<Rightarrow> (nat option \<times> kstate) option" where
  "rt_mp_create mem pool nm block_count block_size s =
     do {
       RT_DEBUG_NOT_IN_INTERRUPT s;
       (ob, s1) \<leftarrow> rt_object_allocate (map_option OMp mem) RT_Object_Class_MemPool nm s;
       case mem of
         None \<Rightarrow> Some (None, s1)
       | Some m \<Rightarrow>
           (let bs = RT_ALIGN block_size RT_ALIGN_SIZE;
                s2 = upd_mp m (\<lambda>x. x\<lparr>mp_block_size := bs, mp_size := (bs + 4) * block_count\<rparr>) s1
            in if \<not> pool then do { s3 \<leftarrow> rt_object_delete (OMp m) s2; Some (None, s3) }
               else if unat (bs + 4) * unat block_count \<noteq> unat ((bs + 4) * block_count) then None
               else do { s3 \<leftarrow> mp_setup m block_count s2; Some (Some m, s3) })
     }"

definition rt_mp_delete :: "nat \<Rightarrow> kstate \<Rightarrow> (rt_err \<times> kstate) option" where
  "rt_mp_delete m s =
     do {
       RT_DEBUG_NOT_IN_INTERRUPT s;
       s1 \<leftarrow> mp_resume_all m s;
       s2 \<leftarrow> rt_object_delete (OMp m) (s1\<lparr>kfree_log := FreePool (OMp m) # kfree_log s1\<rparr>);
       Some (RT_EOK, s2)
     }"

text \<open>The loop of \<^verbatim>\<open>rt_mp_alloc\<close> with what follows it; the result is the block, or the null pointer.\<close>

definition mp_alloc_loop ::
  "tid option \<Rightarrow> nat \<Rightarrow> rt_int32 \<Rightarrow> kstate \<Rightarrow> (nat option callres \<times> kstate) option" where
  "mp_alloc_loop thr m time s =
     (if mp_free_count (mempools s m) = 0 then
        (if time = 0 then Some (Return None, rt_set_errno (- RT_ETIMEOUT) s)
         else do {
           RT_DEBUG_NOT_IN_INTERRUPT s;
           t \<leftarrow> thr;
           let s1 = upd_thread t (\<lambda>th. th\<lparr>error := RT_EOK\<rparr>) s;
           let s2 = snd (rt_thread_suspend t s1);
           let s3 = s2\<lparr>tlists := ls_insert_after (SuspendQ (OMp m)) t (tlists s2)\<rparr>;
           let s4 = upd_mp m (\<lambda>x. x\<lparr>mp_suspend_count := mp_suspend_count x + 1\<rparr>) s3;
           s5 \<leftarrow> start_wait_timer t time s4;
           s6 \<leftarrow> rt_schedule s5;
           Some (Blocked, s6)
         })
      else
        (let s1 = upd_mp m (\<lambda>x. x\<lparr>mp_free_count := mp_free_count x - 1\<rparr>) s
         in case mp_block_list (mempools s1 m) of
              None \<Rightarrow> None
            | Some b \<Rightarrow>
                (case mp_links (mempools s1 m) b of
                   PoolOf k \<Rightarrow> None
                 | NextFree n \<Rightarrow>
                     (let s2 = upd_mp m (\<lambda>x. x\<lparr>mp_block_list := n\<rparr>) s1;
                          s3 = upd_mp m (\<lambda>x. x\<lparr>mp_links := (mp_links x)(b := PoolOf m)\<rparr>) s2
                      in Some (Return (Some b), s3)))))"

definition rt_mp_alloc :: "nat \<Rightarrow> rt_int32 \<Rightarrow> kstate \<Rightarrow> (nat option callres \<times> kstate) option" where
  "rt_mp_alloc m time s = mp_alloc_loop (rt_thread_self s) m time s"

definition rt_mp_alloc_wake ::
  "tid \<Rightarrow> nat \<Rightarrow> rt_int32 \<Rightarrow> rt_tick \<Rightarrow> kstate \<Rightarrow> (nat option callres \<times> kstate) option" where
  "rt_mp_alloc_wake t m time before_sleep s =
     (if error (threads s t) \<noteq> RT_EOK then Some (Return None, s)
      else mp_alloc_loop (Some t) m (remaining_time time before_sleep s) s)"

text \<open>
  \<open>rt_mp_free\<close> of the block \<open>b\<close> in the memory of the pool \<open>m\<close>: the word in front of the block must be
  the address of the pool.
\<close>

definition rt_mp_free :: "nat \<Rightarrow> nat \<Rightarrow> kstate \<Rightarrow> kstate option" where
  "rt_mp_free m b s =
     (if mp_links (mempools s m) b \<noteq> PoolOf m then None
      else
        (let s1 = upd_mp m (\<lambda>x. x\<lparr>mp_free_count := mp_free_count x + 1\<rparr>) s;
             s2 = upd_mp m (\<lambda>x. x\<lparr>mp_links := (mp_links x)(b := NextFree (mp_block_list x))\<rparr>) s1;
             s3 = upd_mp m (\<lambda>x. x\<lparr>mp_block_list := Some b\<rparr>) s2
         in if mp_suspend_count (mempools s3 m) > 0 then
              (case lst (tlists s3) (SuspendQ (OMp m)) of
                 [] \<Rightarrow> None
               | t # ts \<Rightarrow>
                   (let s4 = upd_thread t (\<lambda>th. th\<lparr>error := RT_EOK\<rparr>) s3;
                        s5 = snd (rt_thread_resume t s4);
                        s6 = upd_mp m (\<lambda>x. x\<lparr>mp_suspend_count := mp_suspend_count x - 1\<rparr>) s5
                    in rt_schedule s6))
            else Some s3))"

section \<open>The free list\<close>

text \<open>\<open>fs\<close> are the free blocks in the order of the free list; every other block belongs to the pool.\<close>

definition mp_nx :: "(nat \<Rightarrow> mp_link) \<Rightarrow> nat \<Rightarrow> nat option" where
  "mp_nx l b = (case l b of NextFree n \<Rightarrow> n | PoolOf k \<Rightarrow> None)"

definition mp_rep :: "nat \<Rightarrow> rt_mempool \<Rightarrow> nat list \<Rightarrow> bool" where
  "mp_rep m mp fs \<longleftrightarrow> chain (mp_nx (mp_links mp)) (mp_block_list mp) fs
     \<and> distinct fs \<and> set fs \<subseteq> {0..<unat (mp_total_count mp)} \<and> unat (mp_free_count mp) = length fs
     \<and> (\<forall>b < unat (mp_total_count mp).
          if b \<in> set fs then \<exists>n. mp_links mp b = NextFree n else mp_links mp b = PoolOf m)"

lemma mp_rep_links:
  "mp_rep m mp fs \<Longrightarrow> b < unat (mp_total_count mp) \<Longrightarrow> b \<in> set fs \<longleftrightarrow> (\<exists>n. mp_links mp b = NextFree n)"
  "mp_rep m mp fs \<Longrightarrow> b \<in> set fs \<Longrightarrow> b < unat (mp_total_count mp)"
  unfolding mp_rep_def by (auto split: if_splits)

lemma mp_rep_suspend_count [simp]: "mp_rep m (mp\<lparr>mp_suspend_count := x\<rparr>) fs = mp_rep m mp fs"
  unfolding mp_rep_def by simp

lemma mp_alloc_takes:
  assumes rep: "mp_rep m (mempools s m) (b # fs)"
  shows "\<exists>s'. rt_mp_alloc m time s = Some (Return (Some b), s') \<and> mp_rep m (mempools s' m) fs
    \<and> mp_links (mempools s' m) b = PoolOf m
    \<and> mp_total_count (mempools s' m) = mp_total_count (mempools s m)
    \<and> mp_suspend_count (mempools s' m) = mp_suspend_count (mempools s m)
    \<and> s' = s\<lparr>mempools := mempools s'\<rparr>"
proof -
  let ?mp = "mempools s m"
  have bl: "mp_block_list ?mp = Some b" and c: "chain (mp_nx (mp_links ?mp)) (mp_nx (mp_links ?mp) b) fs"
    and b: "b < unat (mp_total_count ?mp)" "b \<notin> set fs" and cnt: "unat (mp_free_count ?mp) = Suc (length fs)"
    using rep by (auto simp: mp_rep_def)
  obtain n where n: "mp_links ?mp b = NextFree n" using mp_rep_links(1) [OF rep b(1)] by auto
  have ne: "mp_free_count ?mp \<noteq> 0" using cnt by auto
  then have cnt': "unat (mp_free_count ?mp - 1) = length fs" using cnt by (simp add: unat_minus_one)
  let ?l = "(mp_links ?mp)(b := PoolOf m)"
  have nx: "mp_nx ?l = (mp_nx (mp_links ?mp))(b := None)" by (auto simp: mp_nx_def)
  have "chain (mp_nx ?l) n fs" using c b(2) n by (simp add: nx chain_upd) (simp add: mp_nx_def)
  with rep b cnt' ne bl n show ?thesis
    by (auto simp: rt_mp_alloc_def mp_alloc_loop_def Let_def mp_rep_def)
qed

text \<open>Initialisation puts all blocks into the free list, in the order of their addresses.\<close>

lemma mp_link_blocks_apply:
  "mp_link_blocks n l b = (if b < n then NextFree (Some (b + 1)) else l b)"
  by (induction n) (auto simp: mp_link_blocks_def)

lemma chain_upt:
  "k < n \<Longrightarrow> (\<And>b. b < n \<Longrightarrow> nx b = (if b = n - 1 then None else Some (b + 1))) \<Longrightarrow>
    chain nx (Some k) [k..<n]"
proof (induction "n - k" arbitrary: k)
  case (Suc d)
  have eq: "[k..<n] = k # [Suc k..<n]" using Suc.prems(1) by (simp add: upt_rec)
  show ?case
  proof (cases "Suc k < n")
    case True
    with Suc.hyps(1) [of "Suc k"] Suc.hyps(2) Suc.prems show ?thesis by (simp add: eq)
  next
    case False
    with Suc.prems show ?thesis by (simp add: eq)
  qed
qed simp

lemma mp_setup_rep:
  assumes "blocks \<noteq> 0"
  shows "\<exists>s'. mp_setup m blocks s = Some s' \<and> mp_rep m (mempools s' m) [0..<unat blocks]
    \<and> mp_suspend_count (mempools s' m) = 0 \<and> lst (tlists s') (SuspendQ (OMp m)) = []"
proof -
  let ?l = "(mp_link_blocks (unat blocks) (mp_links (mempools s m)))(unat blocks - 1 := NextFree None)"
  have n: "0 < unat blocks" using assms by (simp add: unat_gt_0)
  have "mp_nx ?l b = (if b = unat blocks - 1 then None else Some (b + 1))" if "b < unat blocks" for b
    using that by (simp add: mp_nx_def mp_link_blocks_apply)
  then have "chain (mp_nx ?l) (Some 0) [0..<unat blocks]" using n by (intro chain_upt)
  with assms show ?thesis
    by (simp add: mp_setup_def Let_def mp_rep_def) (auto simp: mp_link_blocks_apply)
qed

lemma mp_init_rep:
  assumes "RT_ALIGN block_size RT_ALIGN_SIZE + 4 \<noteq> 0"
    and "RT_ALIGN_DOWN sz RT_ALIGN_SIZE div (RT_ALIGN block_size RT_ALIGN_SIZE + 4) \<noteq> 0"
  shows "\<exists>s'. rt_mp_init m nm sz block_size s = Some (0, s')
    \<and> mp_rep m (mempools s' m)
        [0..<unat (RT_ALIGN_DOWN sz RT_ALIGN_SIZE div (RT_ALIGN block_size RT_ALIGN_SIZE + 4))]
    \<and> mp_suspend_count (mempools s' m) = 0 \<and> lst (tlists s') (SuspendQ (OMp m)) = []"
proof -
  let ?s3 = "upd_mp m (\<lambda>x. x\<lparr>mp_size := RT_ALIGN_DOWN sz RT_ALIGN_SIZE,
    mp_block_size := RT_ALIGN block_size RT_ALIGN_SIZE\<rparr>) (rt_object_init (OMp m) RT_Object_Class_MemPool nm s)"
  from mp_setup_rep [OF assms(2), of m ?s3] assms(1) show ?thesis
    by (auto simp: rt_mp_init_def Let_def)
qed

text \<open>The effect of a free on the pool; the freed block is the first to be handed out again.\<close>

definition mp_put_block :: "nat \<Rightarrow> rt_mempool \<Rightarrow> rt_mempool" where
  "mp_put_block b mp = mp\<lparr>mp_free_count := mp_free_count mp + 1,
     mp_links := (mp_links mp)(b := NextFree (mp_block_list mp)), mp_block_list := Some b\<rparr>"

lemma mp_put_block_rep:
  assumes rep: "mp_rep m mp fs" and b: "b < unat (mp_total_count mp)" "mp_links mp b = PoolOf m"
  shows "mp_rep m (mp_put_block b mp) (b # fs)"
proof -
  have nb: "b \<notin> set fs" using mp_rep_links(1) [OF rep b(1)] b(2) by simp
  have "card (set (b # fs)) \<le> card {0..<unat (mp_total_count mp)}"
    using mp_rep_links(2) [OF rep] b by (intro card_mono) auto
  then have "length fs < unat (mp_total_count mp)"
    using rep nb by (simp add: mp_rep_def distinct_card)
  moreover have "unat (mp_total_count mp) < 2 ^ 32" using unsigned_less [of "mp_total_count mp"] by simp
  ultimately have "length fs + 1 < 2 ^ 32" by simp
  then have cnt: "unat (mp_free_count mp + 1) = Suc (length fs)"
    using rep by (intro unat_word_ariths(1) [THEN trans]) (simp add: mp_rep_def)
  let ?l = "(mp_links mp)(b := NextFree (mp_block_list mp))"
  have nx: "mp_nx ?l = (mp_nx (mp_links mp))(b := mp_block_list mp)" by (auto simp: mp_nx_def)
  have "chain (mp_nx ?l) (mp_block_list mp) fs" using rep nb by (simp add: nx chain_upd mp_rep_def)
  moreover have "mp_nx ?l b = mp_block_list mp" by (simp add: nx)
  moreover have "if b' \<in> set (b # fs) then \<exists>n. ?l b' = NextFree n else ?l b' = PoolOf m"
    if "b' < unat (mp_total_count mp)" for b'
    using rep that unfolding mp_rep_def by (cases "b' = b") simp_all
  moreover have "distinct fs" "set fs \<subseteq> {0..<unat (mp_total_count mp)}"
    using rep unfolding mp_rep_def by blast+
  ultimately show ?thesis
    unfolding mp_rep_def mp_put_block_def using nb b(1) cnt
    by (intro conjI allI impI) (simp_all split del: if_split del: fun_upd_apply cong: if_cong)
qed

lemma mp_free_returns_block:
  assumes "mp_rep m (mempools s m) fs" and "b < unat (mp_total_count (mempools s m))"
    and "mp_links (mempools s m) b = PoolOf m" and "mp_suspend_count (mempools s m) = 0"
  shows "\<exists>s'. rt_mp_free m b s = Some s' \<and> mp_rep m (mempools s' m) (b # fs)"
  using mp_put_block_rep [OF assms(1-3)] assms(3,4)
  by (simp add: rt_mp_free_def Let_def mp_put_block_def)

text \<open>A block that is free is never released a second time.\<close>

lemma mp_double_free: "mp_rep m (mempools s m) fs \<Longrightarrow> b \<in> set fs \<Longrightarrow> rt_mp_free m b s = None"
  using mp_rep_links [of m "mempools s m" fs b] by (auto simp: rt_mp_free_def)

section \<open>The count of waiting threads\<close>

definition mp_count_ok :: "nat \<Rightarrow> kstate \<Rightarrow> bool" where
  "mp_count_ok m s \<longleftrightarrow> unat (mp_suspend_count (mempools s m)) = length (lst (tlists s) (SuspendQ (OMp m)))"

text \<open>As long as the count is right, a free wakes the thread that has waited for the shortest time.\<close>

lemma mp_free_wakes:
  assumes inv: "check_inv base s" and rep: "mp_rep m (mempools s m) fs"
    and b: "b < unat (mp_total_count (mempools s m))" "mp_links (mempools s m) b = PoolOf m"
    and cnt: "mp_count_ok m s" and w: "lst (tlists s) (SuspendQ (OMp m)) = t # ts"
  shows "\<exists>s'. rt_mp_free m b s = Some s' \<and> check_inv base s' \<and> mp_rep m (mempools s' m) (b # fs)
    \<and> mp_count_ok m s' \<and> lst (tlists s') (SuspendQ (OMp m)) = ts
    \<and> stat (threads s' t) = RT_THREAD_READY \<and> error (threads s' t) = RT_EOK"
proof -
  let ?h = "SuspendQ (OMp m)"
  let ?s3 = "upd_mp m (mp_put_block b) s"
  let ?s4 = "upd_thread t (\<lambda>th. th\<lparr>error := RT_EOK\<rparr>) ?s3"
  let ?s5 = "snd (rt_thread_resume t ?s4)"
  let ?s6 = "upd_mp m (\<lambda>x. x\<lparr>mp_suspend_count := mp_suspend_count x - 1\<rparr>) ?s5"
  have inv4: "check_inv base ?s4" using check_inv_error [of base ?s3 t RT_EOK] inv by simp
  have w4: "lst (tlists ?s4) ?h = t # ts" using w by simp
  have st: "stat (threads ?s4 t) = RT_THREAD_SUSPEND" using waiter_suspended [OF inv4, of ?h t] w4 by simp
  have inv6: "check_inv base ?s6" using check_inv_resume [OF inv4, of t] by simp
  have si: "sched_inv ?s4" using inv4 by (simp add: check_inv_def)
  have th: "threads ?s6 = (threads ?s4)(t := (threads ?s4 t)\<lparr>stat := RT_THREAD_READY\<rparr>)"
    using thread_resume_suspended(2) [OF st] by simp
  obtain s' where s': "rt_schedule ?s6 = Some s'"
    using rt_schedule_cases [of ?s6 t] inv6 th by (auto simp: check_inv_def)
  note same = rt_schedule_same [OF s']
  have pos: "0 < mp_suspend_count (mempools s m)"
    using cnt w by (auto simp: mp_count_ok_def word_less_nat_alt)
  then have "rt_mp_free m b s = rt_schedule ?s6"
    using b(2) w by (simp add: rt_mp_free_def Let_def mp_put_block_def)
  moreover have "lst (tlists s') ?h = ts"
    using resume_wait_lists [OF si st, of ?h] w4 same by simp
  moreover have "mempools s' m = (mp_put_block b (mempools s m))
      \<lparr>mp_suspend_count := mp_suspend_count (mempools s m) - 1\<rparr>"
    using same by (simp add: mp_put_block_def)
  moreover have "unat (mp_suspend_count (mempools s m) - 1) = length ts"
    using cnt w pos by (simp add: mp_count_ok_def unat_minus_one word_neq_0_conv [symmetric])
  moreover have "mp_rep m ((mp_put_block b (mempools s m))\<lparr>mp_suspend_count := x\<rparr>) (b # fs)" for x
    using mp_put_block_rep [OF rep b] by simp
  ultimately show ?thesis
    using s' check_inv_schedule [OF inv6 s'] th same by (auto simp: mp_count_ok_def)
qed

text \<open>
  A timeout takes the thread out of the wait list and leaves the count as it is. When it was the only
  waiting thread, the next free takes the head of the empty list for a thread.
\<close>

lemma mp_timeout_breaks_count:
  assumes inv: "check_inv base s" and cnt: "mp_count_ok m s"
    and w: "lst (tlists s) (SuspendQ (OMp m)) = [t]"
    and to: "rt_thread_timeout t s = Some s'"
  shows "\<not> mp_count_ok m s'"
    and "mp_links (mempools s' m) b = PoolOf m \<Longrightarrow> rt_mp_free m b s' = None"
proof -
  have si: "sched_inv s" using inv by (simp add: check_inv_def)
  from to have "lst (tlists s') (SuspendQ (OMp m)) = [] \<and> mempools s' = mempools s"
    using SI_wf [OF si] w
    by (auto simp: rt_thread_timeout_def Let_def rt_schedule_same split: if_splits)
  moreover have "0 < mp_suspend_count (mempools s m)"
    using cnt w by (auto simp: mp_count_ok_def word_less_nat_alt)
  ultimately show "\<not> mp_count_ok m s'"
    and "mp_links (mempools s' m) b = PoolOf m \<Longrightarrow> rt_mp_free m b s' = None"
    by (auto simp: mp_count_ok_def rt_mp_free_def Let_def unat_gt_0)
qed

end
