(* ===== verification/Rt_Mutex.thy ===== *)
theory Rt_Mutex
  imports Rt_Ipc
begin

text \<open>
  Mutexes with recursion and priority inheritance, \<^verbatim>\<open>rt-thread/src/ipc.c\<close>. The owner is a thread or the
  null pointer. A blocked \<open>rt_mutex_take\<close> continues with \<open>rt_mutex_take_wake\<close>: when the release hands
  the mutex over, the new owner is already entered.
\<close>

section \<open>Operations\<close>

abbreviation upd_mutex :: "nat \<Rightarrow> (rt_mutex \<Rightarrow> rt_mutex) \<Rightarrow> kstate \<Rightarrow> kstate" where
  "upd_mutex m f s \<equiv> s\<lparr>mutexes := (mutexes s)(m := f (mutexes s m))\<rparr>"

definition mutex_reset :: "nat \<Rightarrow> rt_uint8 \<Rightarrow> kstate \<Rightarrow> kstate" where
  "mutex_reset m flg s =
     (let s1 = rt_ipc_object_init (OMutex m) s;
          s2 = upd_mutex m (\<lambda>x. x\<lparr>mutex_value := 1, owner := None, original_priority := 0xFF,
                                  hold := 0\<rparr>) s1
      in upd_obj (OMutex m) (\<lambda>x. x\<lparr>o_flag := flg\<rparr>) s2)"

definition rt_mutex_init :: "nat \<Rightarrow> rt_uint8 list \<Rightarrow> rt_uint8 \<Rightarrow> kstate \<Rightarrow> rt_err \<times> kstate" where
  "rt_mutex_init m nm flg s =
     (RT_EOK, mutex_reset m flg (rt_object_init (OMutex m) RT_Object_Class_Mutex nm s))"

definition rt_mutex_detach :: "nat \<Rightarrow> kstate \<Rightarrow> (rt_err \<times> kstate) option" where
  "rt_mutex_detach m s =
     do {
       s1 \<leftarrow> rt_ipc_list_resume_all (SuspendQ (OMutex m)) s;
       Some (RT_EOK, rt_object_detach (OMutex m) s1)
     }"

definition rt_mutex_create ::
  "nat option \<Rightarrow> rt_uint8 list \<Rightarrow> rt_uint8 \<Rightarrow> kstate \<Rightarrow> (nat option \<times> kstate) option" where
  "rt_mutex_create mem nm flg s =
     do {
       RT_DEBUG_NOT_IN_INTERRUPT s;
       (ob, s1) \<leftarrow> rt_object_allocate (map_option OMutex mem) RT_Object_Class_Mutex nm s;
       case mem of
         None \<Rightarrow> Some (None, s1)
       | Some m \<Rightarrow> Some (Some m, mutex_reset m flg s1)
     }"

definition rt_mutex_delete :: "nat \<Rightarrow> kstate \<Rightarrow> (rt_err \<times> kstate) option" where
  "rt_mutex_delete m s =
     do {
       RT_DEBUG_NOT_IN_INTERRUPT s;
       s1 \<leftarrow> rt_ipc_list_resume_all (SuspendQ (OMutex m)) s;
       s2 \<leftarrow> rt_object_delete (OMutex m) s1;
       Some (RT_EOK, s2)
     }"

definition rt_mutex_take :: "nat \<Rightarrow> rt_int32 \<Rightarrow> kstate \<Rightarrow> (rt_err callres \<times> kstate) option" where
  "rt_mutex_take m time s =
     (case rt_thread_self s of
        None \<Rightarrow> Some (Return RT_EOK, s)
      | Some t \<Rightarrow>
          do {
            RT_DEBUG_IN_THREAD_CONTEXT s;
            let s1 = upd_thread t (\<lambda>th. th\<lparr>error := RT_EOK\<rparr>) s;
            if owner (mutexes s1 m) = Some t then
              Some (Return RT_EOK, upd_mutex m (\<lambda>x. x\<lparr>hold := hold x + 1\<rparr>) s1)
            else if mutex_value (mutexes s1 m) > 0 then
              Some (Return RT_EOK,
                upd_mutex m (\<lambda>x. x\<lparr>mutex_value := mutex_value x - 1, owner := Some t,
                  original_priority := current_priority (threads s1 t), hold := hold x + 1\<rparr>) s1)
            else if time = 0 then
              Some (Return (- RT_ETIMEOUT), upd_thread t (\<lambda>th. th\<lparr>error := - RT_ETIMEOUT\<rparr>) s1)
            else do {
              w \<leftarrow> owner (mutexes s1 m);
              (e, s2) \<leftarrow>
                (if current_priority (threads s1 t) < current_priority (threads s1 w)
                 then rt_thread_control w
                        (RT_THREAD_CTRL_CHANGE_PRIORITY (current_priority (threads s1 t))) s1
                 else Some (RT_EOK, s1));
              s3 \<leftarrow> ipc_wait (SuspendQ (OMutex m)) t (o_flag (objs s2 (OMutex m))) time s2;
              Some (Blocked, s3)
            }
          })"

definition rt_mutex_take_wake :: "tid \<Rightarrow> kstate \<Rightarrow> rt_err" where
  "rt_mutex_take_wake t s = (if error (threads s t) \<noteq> RT_EOK then error (threads s t) else RT_EOK)"

definition rt_mutex_release :: "nat \<Rightarrow> kstate \<Rightarrow> (rt_err \<times> kstate) option" where
  "rt_mutex_release m s =
     (case rt_thread_self s of
        None \<Rightarrow> Some (RT_EOK, s)
      | Some t \<Rightarrow>
          do {
            RT_DEBUG_IN_THREAD_CONTEXT s;
            if owner (mutexes s m) \<noteq> Some t then
              Some (- RT_ERROR, upd_thread t (\<lambda>th. th\<lparr>error := - RT_ERROR\<rparr>) s)
            else
              let s1 = upd_mutex m (\<lambda>x. x\<lparr>hold := hold x - 1\<rparr>) s in
              if hold (mutexes s1 m) = 0 then
                do {
                  (e, s2) \<leftarrow>
                    (if original_priority (mutexes s1 m) \<noteq> current_priority (threads s1 t)
                     then rt_thread_control t
                            (RT_THREAD_CTRL_CHANGE_PRIORITY (original_priority (mutexes s1 m))) s1
                     else Some (RT_EOK, s1));
                  case lst (tlists s2) (SuspendQ (OMutex m)) of
                    u # us \<Rightarrow>
                      do {
                        s3 \<leftarrow> rt_ipc_list_resume (SuspendQ (OMutex m))
                          (upd_mutex m (\<lambda>x. x\<lparr>owner := Some u,
                             original_priority := current_priority (threads s2 u),
                             hold := hold x + 1\<rparr>) s2);
                        s4 \<leftarrow> rt_schedule s3;
                        Some (RT_EOK, s4)
                      }
                  | [] \<Rightarrow>
                      Some (RT_EOK, upd_mutex m (\<lambda>x. x\<lparr>mutex_value := mutex_value x + 1,
                        owner := None, original_priority := 0xff\<rparr>) s2)
                }
              else Some (RT_EOK, s1)
          })"

definition rt_mutex_control :: "nat \<Rightarrow> rt_uint8 \<Rightarrow> rt_uint32 \<Rightarrow> kstate \<Rightarrow> rt_err \<times> kstate" where
  "rt_mutex_control m cmd arg s = (- RT_ERROR, s)"

interpretation mutex: waited_object OMutex rt_mutex_detach
  by unfold_locales (simp add: rt_mutex_detach_def)

section \<open>The mutex invariant\<close>

text \<open>
  A mutex is free (value one, no owner, nobody waits) or taken (value zero, an owner that holds it a
  positive number of times and whose priority at the time of taking is remembered).
\<close>

definition mutex_ok :: "nat \<Rightarrow> kstate \<Rightarrow> bool" where
  "mutex_ok m s \<longleftrightarrow> (case owner (mutexes s m) of
      None \<Rightarrow> mutex_value (mutexes s m) = 1 \<and> hold (mutexes s m) = 0
        \<and> lst (tlists s) (SuspendQ (OMutex m)) = []
    | Some t \<Rightarrow> mutex_value (mutexes s m) = 0 \<and> 0 < hold (mutexes s m)
        \<and> unat (original_priority (mutexes s m)) < 32)"

lemma mutex_init_ok: "mutex_ok m (snd (rt_mutex_init m nm flg s))"
  by (simp add: mutex_ok_def rt_mutex_init_def mutex_reset_def rt_ipc_object_init_def Let_def)

lemma ready_priority: "check_inv base s \<Longrightarrow> stat (threads s t) = RT_THREAD_READY \<or>
    stat (threads s t) = RT_THREAD_SUSPEND \<Longrightarrow> unat (current_priority (threads s t)) < 32"
  using stat_mask_ok [of "threads s" "tlists s" "ready_group s" t] by (auto simp: check_inv_def mask_ok_def)

text \<open>Taking a free mutex, and taking it again.\<close>

lemma mutex_take_free:
  assumes "check_inv base s" and "mutex_ok m s" and "rt_thread_self s = Some t" and "irq_nest s = 0"
    and "owner (mutexes s m) = None" and "stat (threads s t) = RT_THREAD_READY"
  shows "\<exists>s'. rt_mutex_take m time s = Some (Return 0, s') \<and> check_inv base s' \<and> mutex_ok m s'
    \<and> owner (mutexes s' m) = Some t \<and> hold (mutexes s' m) = 1
    \<and> original_priority (mutexes s' m) = current_priority (threads s t)"
  using assms check_inv_error [OF assms(1), of t 0] ready_priority [OF assms(1), of t]
  by (simp add: rt_mutex_take_def mutex_ok_def)

lemma hold_inc:
  fixes x :: rt_uint8
  assumes "x \<noteq> 255"
  shows "unat (x + 1) = unat x + 1"
proof -
  have "(- 1 :: rt_uint8) = 255" by simp
  with assms have "x + 1 \<noteq> 0" by (metis add_eq_0_iff2)
  then show ?thesis by (metis Suc_eq_plus1 add.commute unatSuc)
qed

lemma mutex_take_again:
  assumes "check_inv base s" and "mutex_ok m s" and "rt_thread_self s = Some t" and "irq_nest s = 0"
    and "owner (mutexes s m) = Some t" and "hold (mutexes s m) \<noteq> 255"
  shows "\<exists>s'. rt_mutex_take m time s = Some (Return 0, s') \<and> check_inv base s' \<and> mutex_ok m s'
    \<and> owner (mutexes s' m) = Some t \<and> unat (hold (mutexes s' m)) = unat (hold (mutexes s m)) + 1"
proof -
  note u = hold_inc [OF assms(6)]
  then have "0 < hold (mutexes s m) + 1" by (simp add: word_less_nat_alt)
  with u assms check_inv_error [OF assms(1), of t 0] show ?thesis
    by (auto simp: rt_mutex_take_def mutex_ok_def)
qed

section \<open>Priority inheritance\<close>

text \<open>
  A thread that finds the mutex taken waits, after raising the owner to its own priority: the owner
  is then at least as urgent as the thread it delays.
\<close>

lemma mutex_take_blocks:
  assumes inv: "check_inv base s" and ok: "mutex_ok m s" and self: "rt_thread_self s = Some t"
    and st: "stat (threads s t) = RT_THREAD_READY" and irq: "irq_nest s = 0"
    and own: "owner (mutexes s m) = Some w" "w \<noteq> t"
    and fl: "o_flag (objs s (OMutex m)) = 0 \<or> o_flag (objs s (OMutex m)) = 1"
    and time: "time \<noteq> 0" "time_ok base s time"
    and u: "u \<noteq> t" "stat (threads s u) = RT_THREAD_READY"
  shows "\<exists>s'. rt_mutex_take m time s = Some (Blocked, s') \<and> check_inv base s' \<and> mutex_ok m s'
    \<and> loc (tlists s') t = Some (SuspendQ (OMutex m)) \<and> mutexes s' = mutexes s
    \<and> current_priority (threads s' w) = min (current_priority (threads s t)) (current_priority (threads s w))
    \<and> current_priority (threads s' t) = current_priority (threads s t)"
proof -
  let ?p = "current_priority (threads s t)" and ?h = "SuspendQ (OMutex m)"
  let ?s1 = "upd_thread t (\<lambda>th. th\<lparr>error := RT_EOK\<rparr>) s"
  let ?s2 = "if ?p < current_priority (threads s w) then change_priority w ?p ?s1 else ?s1"
  have inv1: "check_inv base ?s1" using inv by (rule check_inv_error)
  have p: "unat ?p < 32" using ready_priority [OF inv] st by blast
  have inv2: "check_inv base ?s2" using inv1 p by (simp add: check_inv_change_priority)
  have th2: "stat (threads ?s2 v) = stat (threads s v)" for v
    by (simp add: change_priority_thread)
  have fl2: "o_flag (objs ?s2 (OMutex m)) = 0 \<or> o_flag (objs ?s2 (OMutex m)) = 1" using fl by auto
  have win2: "time_ok base ?s2 time" using time(2) by (simp add: time_ok_def)
  have "stat (threads ?s2 t) = RT_THREAD_READY" "stat (threads ?s2 u) = RT_THREAD_READY"
    using th2 st u by simp_all
  from ipc_wait_returns [OF inv2 this(1) fl2 _ win2 u(1) this(2), of ?h]
  obtain s' where s': "ipc_wait ?h t (o_flag (objs ?s2 (OMutex m))) time ?s2 = Some s'" "check_inv base s'"
    "threads s' = (threads ?s2)(t := (threads ?s2 t)\<lparr>stat := RT_THREAD_SUSPEND\<rparr>)"
    "tlists s' = tlists (rt_ipc_list_suspend ?h t (o_flag (objs ?s2 (OMutex m))) ?s2)"
    "mutexes s' = mutexes ?s2" by blast
  have loc: "loc (tlists s') t = Some ?h"
    unfolding s'(4) using inv2 th2 st fl2 by (intro ipc_suspend_inv) simp_all
  have val: "mutex_value (mutexes s m) = 0" using ok own(1) by (simp add: mutex_ok_def)
  have "rt_mutex_take m time s = Some (Blocked, s')"
    using self irq own val time(1) s'(1)
    by (simp add: rt_mutex_take_def split: if_splits)
  moreover have "mutexes s' = mutexes s" by (simp add: s'(5))
  moreover have "mutex_ok m s'" using ok own(1) by (simp add: mutex_ok_def s'(5))
  moreover have "current_priority (threads s' w) = min ?p (current_priority (threads s w))"
    using own(2) by (auto simp: s'(3) change_priority_thread min_def)
  moreover have "current_priority (threads s' t) = ?p"
    using own(2) by (simp add: s'(3) change_priority_thread)
  ultimately show ?thesis using s'(2) loc by blast
qed

text \<open>
  The last release restores the priority of the owner, and hands the mutex to the first waiting
  thread or frees it.
\<close>

definition restore_priority :: "nat \<Rightarrow> tid \<Rightarrow> kstate \<Rightarrow> kstate" where
  "restore_priority m t s =
     (if original_priority (mutexes s m) \<noteq> current_priority (threads s t)
      then change_priority t (original_priority (mutexes s m)) s else s)"

lemma mutex_release_hands_over:
  assumes inv: "check_inv base s" and ok: "mutex_ok m s" and self: "rt_thread_self s = Some t"
    and irq: "irq_nest s = 0" and own: "owner (mutexes s m) = Some t" "hold (mutexes s m) = 1"
    and w: "lst (tlists s) (SuspendQ (OMutex m)) = u # us"
  shows "\<exists>s'. rt_mutex_release m s = Some (0, s') \<and> check_inv base s' \<and> mutex_ok m s'
    \<and> owner (mutexes s' m) = Some u \<and> hold (mutexes s' m) = 1
    \<and> stat (threads s' u) = RT_THREAD_READY \<and> error (threads s' u) = error (threads s u)
    \<and> lst (tlists s') (SuspendQ (OMutex m)) = us
    \<and> (u \<noteq> t \<longrightarrow> current_priority (threads s' t) = original_priority (mutexes s m))"
proof -
  let ?h = "SuspendQ (OMutex m)"
  let ?s1 = "upd_mutex m (\<lambda>x. x\<lparr>hold := hold x - 1\<rparr>) s"
  let ?s2 = "restore_priority m t ?s1"
  let ?s3 = "upd_mutex m (\<lambda>x. x\<lparr>owner := Some u, original_priority := current_priority (threads ?s2 u),
    hold := hold x + 1\<rparr>) ?s2"
  have si: "sched_inv s" using inv by (simp add: check_inv_def)
  have p: "unat (original_priority (mutexes s m)) < 32" using ok own by (simp add: mutex_ok_def)
  have inv2: "check_inv base ?s2"
    using inv p by (auto simp: restore_priority_def intro: check_inv_change_priority)
  then have inv3: "check_inv base ?s3" by simp
  have w3: "lst (tlists ?s3) ?h = u # us"
    using w change_priority_wait [of ?s1 ?h t "original_priority (mutexes s m)"] si
    by (auto simp: restore_priority_def)
  from ipc_resume_first [OF inv3 _ w3] obtain s' where
    s': "rt_ipc_list_resume ?h ?s3 = Some (snd (rt_thread_resume u ?s3))"
      "rt_schedule (snd (rt_thread_resume u ?s3)) = Some s'" "check_inv base s'"
      "threads s' = (threads ?s3)(u := (threads ?s3 u)\<lparr>stat := RT_THREAD_READY\<rparr>)"
      "lst (tlists s') ?h = us" "mutexes s' = mutexes ?s3" by metis
  have "rt_mutex_release m s = Some (0, s')"
    using self irq own w3 s'(1,2) by (auto simp: rt_mutex_release_def restore_priority_def Let_def)
  moreover have "stat (threads ?s2 u) = RT_THREAD_SUSPEND"
    using waiter_suspended [OF inv2, of ?h u] w3 by simp
  then have "unat (current_priority (threads ?s2 u)) < 32" using ready_priority [OF inv2] by blast
  then have "mutex_ok m s'" using ok own by (simp add: mutex_ok_def s'(6) restore_priority_def)
  moreover have "u \<noteq> t \<longrightarrow> current_priority (threads s' t) = original_priority (mutexes s m)"
    by (simp add: s'(4) restore_priority_def change_priority_thread)
  moreover have "error (threads s' u) = error (threads s u)"
    by (simp add: s'(4) restore_priority_def change_priority_thread)
  ultimately show ?thesis using s' own(2) by (simp add: restore_priority_def)
qed

lemma mutex_release_frees:
  assumes inv: "check_inv base s" and ok: "mutex_ok m s" and self: "rt_thread_self s = Some t"
    and irq: "irq_nest s = 0" and own: "owner (mutexes s m) = Some t" "hold (mutexes s m) = 1"
    and w: "lst (tlists s) (SuspendQ (OMutex m)) = []"
  shows "\<exists>s'. rt_mutex_release m s = Some (0, s') \<and> check_inv base s' \<and> mutex_ok m s'
    \<and> owner (mutexes s' m) = None
    \<and> current_priority (threads s' t) = original_priority (mutexes s m)
    \<and> (\<forall>m'. m' \<noteq> m \<longrightarrow> mutexes s' m' = mutexes s m'
         \<and> lst (tlists s') (SuspendQ (OMutex m')) = lst (tlists s) (SuspendQ (OMutex m')))
    \<and> (\<forall>u. u \<noteq> t \<longrightarrow> threads s' u = threads s u)"
proof -
  let ?h = "SuspendQ (OMutex m)"
  let ?s1 = "upd_mutex m (\<lambda>x. x\<lparr>hold := hold x - 1\<rparr>) s"
  let ?s2 = "restore_priority m t ?s1"
  let ?s3 = "upd_mutex m (\<lambda>x. x\<lparr>mutex_value := mutex_value x + 1, owner := None,
    original_priority := 0xff\<rparr>) ?s2"
  have si: "sched_inv s" using inv by (simp add: check_inv_def)
  have p: "unat (original_priority (mutexes s m)) < 32" using ok own by (simp add: mutex_ok_def)
  have inv2: "check_inv base ?s2"
    using inv p by (auto simp: restore_priority_def intro: check_inv_change_priority)
  have w2: "lst (tlists ?s2) ?h = []"
    using w change_priority_wait [of ?s1 ?h t "original_priority (mutexes s m)"] si
    by (auto simp: restore_priority_def)
  have "rt_mutex_release m s = Some (0, ?s3)"
    using self irq own w2 by (auto simp: rt_mutex_release_def restore_priority_def Let_def)
  moreover have "mutex_ok m ?s3" using ok own w2 by (simp add: mutex_ok_def restore_priority_def)
  moreover have "current_priority (threads ?s3 t) = original_priority (mutexes s m)"
    by (simp add: restore_priority_def change_priority_thread)
  moreover have "lst (tlists ?s3) (SuspendQ (OMutex m')) = lst (tlists s) (SuspendQ (OMutex m'))" for m'
    using change_priority_wait [of ?s1 "SuspendQ (OMutex m')" t "original_priority (mutexes s m)"] si
    by (auto simp: restore_priority_def)
  moreover have "threads ?s3 u = threads s u" if "u \<noteq> t" for u
    using that by (simp add: restore_priority_def change_priority_thread)
  moreover have "mutexes ?s3 m' = mutexes s m'" if "m' \<noteq> m" for m'
    using that by (simp add: restore_priority_def)
  ultimately show ?thesis using inv2 by simp
qed

text \<open>Releasing a mutex that is held several times, and one that belongs to another thread.\<close>

lemma mutex_release_nested:
  assumes "rt_thread_self s = Some t" and "irq_nest s = 0" and "owner (mutexes s m) = Some t"
    and "hold (mutexes s m) \<noteq> 1"
  shows "rt_mutex_release m s = Some (0, upd_mutex m (\<lambda>x. x\<lparr>hold := hold x - 1\<rparr>) s)"
  using assms by (simp add: rt_mutex_release_def Let_def)

lemma mutex_release_foreign:
  assumes "rt_thread_self s = Some t" and "irq_nest s = 0" and "owner (mutexes s m) \<noteq> Some t"
  shows "rt_mutex_release m s = Some (- RT_ERROR, upd_thread t (\<lambda>th. th\<lparr>error := - RT_ERROR\<rparr>) s)"
  using assms by (simp add: rt_mutex_release_def)

end
