(* ===== verification/Rt_Sem.thy ===== *)
theory Rt_Sem
  imports Rt_Ipc
begin

text \<open>
  Semaphores, \<^verbatim>\<open>rt-thread/src/ipc.c\<close>. The memory of a created semaphore is the argument \<open>mem\<close> (\<open>None\<close>
  when the allocation fails). A blocked \<open>rt_sem_take\<close> continues with \<open>rt_sem_take_wake\<close>.
\<close>

section \<open>Operations\<close>

abbreviation upd_sem :: "nat \<Rightarrow> (rt_semaphore \<Rightarrow> rt_semaphore) \<Rightarrow> kstate \<Rightarrow> kstate" where
  "upd_sem m f s \<equiv> s\<lparr>sems := (sems s)(m := f (sems s m))\<rparr>"

definition rt_sem_init :: "nat \<Rightarrow> rt_uint8 list \<Rightarrow> rt_uint32 \<Rightarrow> rt_uint8 \<Rightarrow> kstate \<Rightarrow> rt_err \<times> kstate" where
  "rt_sem_init m nm value flg s =
     (let s1 = rt_object_init (OSem m) RT_Object_Class_Semaphore nm s;
          s2 = rt_ipc_object_init (OSem m) s1;
          s3 = upd_sem m (\<lambda>x. x\<lparr>sem_value := ucast value\<rparr>) s2
      in (RT_EOK, upd_obj (OSem m) (\<lambda>x. x\<lparr>o_flag := flg\<rparr>) s3))"

definition rt_sem_detach :: "nat \<Rightarrow> kstate \<Rightarrow> (rt_err \<times> kstate) option" where
  "rt_sem_detach m s =
     do {
       s1 \<leftarrow> rt_ipc_list_resume_all (SuspendQ (OSem m)) s;
       Some (RT_EOK, rt_object_detach (OSem m) s1)
     }"

definition rt_sem_create ::
  "nat option \<Rightarrow> rt_uint8 list \<Rightarrow> rt_uint32 \<Rightarrow> rt_uint8 \<Rightarrow> kstate \<Rightarrow> (nat option \<times> kstate) option" where
  "rt_sem_create mem nm value flg s =
     do {
       RT_DEBUG_NOT_IN_INTERRUPT s;
       (ob, s1) \<leftarrow> rt_object_allocate (map_option OSem mem) RT_Object_Class_Semaphore nm s;
       case mem of
         None \<Rightarrow> Some (None, s1)
       | Some m \<Rightarrow>
           (let s2 = rt_ipc_object_init (OSem m) s1;
                s3 = upd_sem m (\<lambda>x. x\<lparr>sem_value := ucast value\<rparr>) s2
            in Some (Some m, upd_obj (OSem m) (\<lambda>x. x\<lparr>o_flag := flg\<rparr>) s3))
     }"

definition rt_sem_delete :: "nat \<Rightarrow> kstate \<Rightarrow> (rt_err \<times> kstate) option" where
  "rt_sem_delete m s =
     do {
       RT_DEBUG_NOT_IN_INTERRUPT s;
       s1 \<leftarrow> rt_ipc_list_resume_all (SuspendQ (OSem m)) s;
       s2 \<leftarrow> rt_object_delete (OSem m) s1;
       Some (RT_EOK, s2)
     }"

definition rt_sem_take :: "nat \<Rightarrow> rt_int32 \<Rightarrow> kstate \<Rightarrow> (rt_err callres \<times> kstate) option" where
  "rt_sem_take m time s =
     (if sem_value (sems s m) > 0 then
        Some (Return RT_EOK, upd_sem m (\<lambda>x. x\<lparr>sem_value := sem_value x - 1\<rparr>) s)
      else if time = 0 then Some (Return (- RT_ETIMEOUT), s)
      else do {
        RT_DEBUG_IN_THREAD_CONTEXT s;
        t \<leftarrow> rt_thread_self s;
        let s1 = upd_thread t (\<lambda>th. th\<lparr>error := RT_EOK\<rparr>) s;
        s2 \<leftarrow> ipc_wait (SuspendQ (OSem m)) t (o_flag (objs s1 (OSem m))) time s1;
        Some (Blocked, s2)
      })"

definition rt_sem_take_wake :: "tid \<Rightarrow> kstate \<Rightarrow> rt_err" where
  "rt_sem_take_wake t s = (if error (threads s t) \<noteq> RT_EOK then error (threads s t) else RT_EOK)"

definition rt_sem_trytake :: "nat \<Rightarrow> kstate \<Rightarrow> (rt_err callres \<times> kstate) option" where
  "rt_sem_trytake m s = rt_sem_take m 0 s"

definition rt_sem_release :: "nat \<Rightarrow> kstate \<Rightarrow> (rt_err \<times> kstate) option" where
  "rt_sem_release m s =
     (if \<not> ls_isempty (SuspendQ (OSem m)) (tlists s) then
        do {
          s1 \<leftarrow> rt_ipc_list_resume (SuspendQ (OSem m)) s;
          s2 \<leftarrow> rt_schedule s1;
          Some (RT_EOK, s2)
        }
      else Some (RT_EOK, upd_sem m (\<lambda>x. x\<lparr>sem_value := sem_value x + 1\<rparr>) s))"

definition rt_sem_control :: "nat \<Rightarrow> rt_uint8 \<Rightarrow> rt_uint32 \<Rightarrow> kstate \<Rightarrow> (rt_err \<times> kstate) option" where
  "rt_sem_control m cmd arg s =
     (if cmd = RT_IPC_CMD_RESET then
        do {
          s1 \<leftarrow> rt_ipc_list_resume_all (SuspendQ (OSem m)) s;
          s2 \<leftarrow> rt_schedule (upd_sem m (\<lambda>x. x\<lparr>sem_value := ucast arg\<rparr>) s1);
          Some (RT_EOK, s2)
        }
      else Some (- RT_ERROR, s))"

interpretation sem: waited_object OSem rt_sem_detach
  by unfold_locales (simp add: rt_sem_detach_def)

section \<open>Taking and releasing\<close>

text \<open>No thread waits on a semaphore that has a token.\<close>

definition sem_ok :: "nat \<Rightarrow> kstate \<Rightarrow> bool" where
  "sem_ok m s \<longleftrightarrow> (0 < sem_value (sems s m) \<longrightarrow> lst (tlists s) (SuspendQ (OSem m)) = [])"

lemma sem_init_ok:
  "sem_ok m (snd (rt_sem_init m nm value flg s))"
  "sem_value (sems (snd (rt_sem_init m nm value flg s)) m) = ucast value"
  "o_flag (objs (snd (rt_sem_init m nm value flg s)) (OSem m)) = flg"
  by (simp_all add: rt_sem_init_def rt_ipc_object_init_def sem_ok_def Let_def)

lemma sem_take_blocks:
  assumes inv: "check_inv base s" and self: "rt_thread_self s = Some t"
    and st: "stat (threads s t) = RT_THREAD_READY" and irq: "irq_nest s = 0"
    and fl: "o_flag (objs s (OSem m)) = 0 \<or> o_flag (objs s (OSem m)) = 1"
    and z: "sem_value (sems s m) = 0" "time \<noteq> 0" and win: "time_ok base s time"
    and u: "u \<noteq> t" "stat (threads s u) = RT_THREAD_READY"
  shows "\<exists>s'. rt_sem_take m time s = Some (Blocked, s') \<and> check_inv base s'
    \<and> threads s' = (threads s)(t := (threads s t)\<lparr>error := RT_EOK, stat := RT_THREAD_SUSPEND\<rparr>)
    \<and> tlists s' = tlists (rt_ipc_list_suspend (SuspendQ (OSem m)) t (o_flag (objs s (OSem m)))
         (upd_thread t (\<lambda>th. th\<lparr>error := RT_EOK\<rparr>) s))
    \<and> (0 < sint time \<longrightarrow> loc (tmlists s') (ThreadTimer t) = Some HardTimers
         \<and> timeout_tick (timers s' (ThreadTimer t)) = ktick s + time)
    \<and> sems s' = sems s"
proof -
  let ?s1 = "upd_thread t (\<lambda>th. th\<lparr>error := RT_EOK\<rparr>) s"
  have inv1: "check_inv base ?s1" using inv by (rule check_inv_error)
  have win1: "time_ok base ?s1 time" using win by (simp add: time_ok_def)
  have fl1: "o_flag (objs ?s1 (OSem m)) = 0 \<or> o_flag (objs ?s1 (OSem m)) = 1" using fl by simp
  from ipc_wait_returns [OF inv1 _ fl1 _ win1, of t "SuspendQ (OSem m)" u] st u
  show ?thesis using self irq z by (auto simp: rt_sem_take_def)
qed

lemma sem_release_wakes:
  assumes inv: "check_inv base s" and w: "lst (tlists s) (SuspendQ (OSem m)) = t # ts"
  shows "\<exists>s'. rt_sem_release m s = Some (0, s') \<and> check_inv base s'
    \<and> threads s' = (threads s)(t := (threads s t)\<lparr>stat := RT_THREAD_READY\<rparr>)
    \<and> lst (tlists s') (SuspendQ (OSem m)) = ts \<and> sems s' = sems s"
  by (rule ipc_resume_first [OF inv _ w]) (use w in \<open>auto simp: rt_sem_release_def ls_isempty_def\<close>)

lemma sem_release_counts:
  "lst (tlists s) (SuspendQ (OSem m)) = [] \<Longrightarrow>
    rt_sem_release m s = Some (0, upd_sem m (\<lambda>x. x\<lparr>sem_value := sem_value x + 1\<rparr>) s)"
  by (simp add: rt_sem_release_def ls_isempty_def)

end
