(* ===== verification/Rt_Event.thy ===== *)
theory Rt_Event
  imports Rt_Ipc
begin

text \<open>
  Event sets, \<^verbatim>\<open>rt-thread/src/ipc.c\<close>: 32 event bits, threads that wait for all or for some of a
  set of bits, and the loop of \<^verbatim>\<open>rt_event_send\<close> that wakes the threads whose condition holds. The
  specification \<open>event_spec\<close> says what the loop computes: the requests are served in the order of the
  wait list, and a request with the clear option consumes its bits before the next one is looked at.
\<close>

section \<open>Operations\<close>

abbreviation upd_event :: "nat \<Rightarrow> (rt_event \<Rightarrow> rt_event) \<Rightarrow> kstate \<Rightarrow> kstate" where
  "upd_event e f s \<equiv> s\<lparr>events := (events s)(e := f (events s e))\<rparr>"

definition rt_event_init :: "nat \<Rightarrow> rt_uint8 list \<Rightarrow> rt_uint8 \<Rightarrow> kstate \<Rightarrow> rt_err \<times> kstate" where
  "rt_event_init e nm flg s =
     (let s1 = rt_object_init (OEvent e) RT_Object_Class_Event nm s;
          s2 = upd_obj (OEvent e) (\<lambda>x. x\<lparr>o_flag := flg\<rparr>) s1;
          s3 = rt_ipc_object_init (OEvent e) s2
      in (RT_EOK, upd_event e (\<lambda>x. x\<lparr>ev_set := 0\<rparr>) s3))"

definition rt_event_detach :: "nat \<Rightarrow> kstate \<Rightarrow> (rt_err \<times> kstate) option" where
  "rt_event_detach e s =
     do {
       s1 \<leftarrow> rt_ipc_list_resume_all (SuspendQ (OEvent e)) s;
       Some (RT_EOK, rt_object_detach (OEvent e) s1)
     }"

definition rt_event_create ::
  "nat option \<Rightarrow> rt_uint8 list \<Rightarrow> rt_uint8 \<Rightarrow> kstate \<Rightarrow> (nat option \<times> kstate) option" where
  "rt_event_create mem nm flg s =
     do {
       RT_DEBUG_NOT_IN_INTERRUPT s;
       (ob, s1) \<leftarrow> rt_object_allocate (map_option OEvent mem) RT_Object_Class_Event nm s;
       case mem of
         None \<Rightarrow> Some (None, s1)
       | Some e \<Rightarrow>
           (let s2 = upd_obj (OEvent e) (\<lambda>x. x\<lparr>o_flag := flg\<rparr>) s1;
                s3 = rt_ipc_object_init (OEvent e) s2
            in Some (Some e, upd_event e (\<lambda>x. x\<lparr>ev_set := 0\<rparr>) s3))
     }"

definition rt_event_delete :: "nat \<Rightarrow> kstate \<Rightarrow> (rt_err \<times> kstate) option" where
  "rt_event_delete e s =
     do {
       RT_DEBUG_NOT_IN_INTERRUPT s;
       s1 \<leftarrow> rt_ipc_list_resume_all (SuspendQ (OEvent e)) s;
       s2 \<leftarrow> rt_object_delete (OEvent e) s1;
       Some (RT_EOK, s2)
     }"

text \<open>
  The search loop of \<^verbatim>\<open>rt_event_send\<close>. The pointer is advanced before the thread is resumed, which takes
  only this thread out of the list, so the loop visits the members the list has at its start. The
  result says whether a thread was resumed.
\<close>

fun event_send_loop :: "nat \<Rightarrow> tid list \<Rightarrow> bool \<Rightarrow> kstate \<Rightarrow> bool \<times> kstate" where
  "event_send_loop e [] need_schedule s = (need_schedule, s)"
| "event_send_loop e (t # ts) need_schedule s =
     (let es = ev_set (events s e);
          info = event_info (threads s t);
          (status, s1) =
            (if info AND RT_EVENT_FLAG_AND \<noteq> 0 then
               (if event_set (threads s t) AND es = event_set (threads s t) then (RT_EOK, s)
                else (- RT_ERROR, s))
             else if info AND RT_EVENT_FLAG_OR \<noteq> 0 then
               (if event_set (threads s t) AND es \<noteq> 0
                then (RT_EOK, upd_thread t (\<lambda>th. th\<lparr>event_set := event_set th AND es\<rparr>) s)
                else (- RT_ERROR, s))
             else (- RT_ERROR, s))
      in if status = RT_EOK then
           (let s2 = (if info AND RT_EVENT_FLAG_CLEAR \<noteq> 0
                      then upd_event e (\<lambda>x. x\<lparr>ev_set := ev_set x AND NOT (event_set (threads s1 t))\<rparr>) s1
                      else s1)
            in event_send_loop e ts True (snd (rt_thread_resume t s2)))
         else event_send_loop e ts need_schedule s1)"

definition rt_event_send :: "nat \<Rightarrow> rt_uint32 \<Rightarrow> kstate \<Rightarrow> (rt_err \<times> kstate) option" where
  "rt_event_send e es s =
     (if es = 0 then Some (- RT_ERROR, s)
      else
        (let s1 = upd_event e (\<lambda>x. x\<lparr>ev_set := ev_set x OR es\<rparr>) s;
             (need_schedule, s2) = event_send_loop e (lst (tlists s1) (SuspendQ (OEvent e))) False s1
         in if need_schedule then do { s3 \<leftarrow> rt_schedule s2; Some (RT_EOK, s3) }
            else Some (RT_EOK, s2)))"

text \<open>The second component of the result is what is stored through \<^verbatim>\<open>recved\<close>, if anything.\<close>

definition rt_event_recv ::
  "nat \<Rightarrow> rt_uint32 \<Rightarrow> rt_uint8 \<Rightarrow> rt_int32 \<Rightarrow> kstate
     \<Rightarrow> ((rt_err \<times> rt_uint32 option) callres \<times> kstate) option" where
  "rt_event_recv e es opt timeout s =
     do {
       RT_DEBUG_IN_THREAD_CONTEXT s;
       if es = 0 then Some (Return (- RT_ERROR, None), s)
       else do {
         t \<leftarrow> rt_thread_self s;
         let s1 = upd_thread t (\<lambda>th. th\<lparr>error := RT_EOK\<rparr>) s;
         let evs = ev_set (events s1 e);
         status \<leftarrow>
           (if opt AND RT_EVENT_FLAG_AND \<noteq> 0 then
              Some (if evs AND es = es then RT_EOK else - RT_ERROR)
            else if opt AND RT_EVENT_FLAG_OR \<noteq> 0 then
              Some (if evs AND es \<noteq> 0 then RT_EOK else - RT_ERROR)
            else None);
         if status = RT_EOK then
           Some (Return (RT_EOK, Some (evs AND es)),
             if opt AND RT_EVENT_FLAG_CLEAR \<noteq> 0
             then upd_event e (\<lambda>x. x\<lparr>ev_set := ev_set x AND NOT es\<rparr>) s1 else s1)
         else if timeout = 0 then
           Some (Return (- RT_ETIMEOUT, None), upd_thread t (\<lambda>th. th\<lparr>error := - RT_ETIMEOUT\<rparr>) s1)
         else
           do {
             let s2 = upd_thread t (\<lambda>th. th\<lparr>event_set := es, event_info := opt\<rparr>) s1;
             s3 \<leftarrow> ipc_wait (SuspendQ (OEvent e)) t (o_flag (objs s2 (OEvent e))) timeout s2;
             Some (Blocked, s3)
           }
       }
     }"

definition rt_event_recv_wake :: "tid \<Rightarrow> kstate \<Rightarrow> rt_err \<times> rt_uint32 option" where
  "rt_event_recv_wake t s =
     (if error (threads s t) \<noteq> RT_EOK then (error (threads s t), None)
      else (error (threads s t), Some (event_set (threads s t))))"

definition rt_event_control :: "nat \<Rightarrow> rt_uint8 \<Rightarrow> kstate \<Rightarrow> (rt_err \<times> kstate) option" where
  "rt_event_control e cmd s =
     (if cmd = RT_IPC_CMD_RESET then
        do {
          s1 \<leftarrow> rt_ipc_list_resume_all (SuspendQ (OEvent e)) s;
          s2 \<leftarrow> rt_schedule (upd_event e (\<lambda>x. x\<lparr>ev_set := 0\<rparr>) s1);
          Some (RT_EOK, s2)
        }
      else Some (- RT_ERROR, s))"

interpretation event: waited_object OEvent rt_event_detach
  by unfold_locales (simp add: rt_event_detach_def)

section \<open>The specification of sending\<close>

text \<open>The bits a request gets out of a set, when its condition holds.\<close>

definition event_grant :: "rt_uint32 \<Rightarrow> rt_uint32 \<Rightarrow> rt_uint8 \<Rightarrow> rt_uint32 option" where
  "event_grant es want info =
     (if bit info 0 then (if want AND es = want then Some want else None)
      else if bit info 1 then (if want AND es \<noteq> 0 then Some (want AND es) else None)
      else None)"

fun event_spec :: "rt_uint32 \<Rightarrow> (tid \<Rightarrow> rt_uint32 \<times> rt_uint8) \<Rightarrow> tid list \<Rightarrow> rt_uint32 \<times> (tid \<times> rt_uint32) list" where
  "event_spec es req [] = (es, [])"
| "event_spec es req (t # ts) =
     (case event_grant es (fst (req t)) (snd (req t)) of
        None \<Rightarrow> event_spec es req ts
      | Some got \<Rightarrow>
          (let set' = (if bit (snd (req t)) 2 then es AND NOT got else es);
               (final, woken) = event_spec set' req ts
           in (final, (t, got) # woken)))"

abbreviation request :: "kstate \<Rightarrow> tid \<Rightarrow> rt_uint32 \<times> rt_uint8" where
  "request s t \<equiv> (event_set (threads s t), event_info (threads s t))"

text \<open>One iteration of the loop.\<close>

lemma event_loop_step:
  "event_send_loop e (t # ts) need s =
     (case event_grant (ev_set (events s e)) (event_set (threads s t)) (event_info (threads s t)) of
        None \<Rightarrow> event_send_loop e ts need s
      | Some got \<Rightarrow>
          event_send_loop e ts True (snd (rt_thread_resume t
            (s\<lparr>threads := (threads s)(t := (threads s t)\<lparr>event_set := got\<rparr>),
               events := (if bit (event_info (threads s t)) 2
                 then (events s)(e := (events s e)\<lparr>ev_set := ev_set (events s e) AND NOT got\<rparr>)
                 else events s)\<rparr>))))"
proof (cases "bit (event_info (threads s t)) 2")
  case True
  then show ?thesis by (simp add: event_grant_def Let_def fun_upd_idem)
next
  case False
  then show ?thesis by (simp add: event_grant_def Let_def fun_upd_idem)
qed

lemma event_loop_need: "event_send_loop e ts need s = (n, s') \<Longrightarrow> need \<Longrightarrow> n"
proof (induction ts arbitrary: need s)
  case (Cons t ts)
  then show ?case unfolding event_loop_step by (auto split: option.splits)
qed simp

lemma event_spec_cong:
  "(\<And>t. t \<in> set ts \<Longrightarrow> req t = req' t) \<Longrightarrow> event_spec es req ts = event_spec es req' ts"
proof (induction ts arbitrary: es)
  case (Cons t ts)
  then have "event_spec es' req ts = event_spec es' req' ts" for es' by simp
  with Cons.prems show ?case by (simp add: Let_def split: option.splits)
qed simp

lemma event_spec_woken: "fst ` set (snd (event_spec es req ts)) \<subseteq> set ts"
proof (induction ts arbitrary: es)
  case (Cons t ts)
  have sub: "fst ` set (snd (event_spec es' req ts)) \<subseteq> insert t (set ts)" for es'
    using Cons.IH [of es'] by blast
  show ?case
  proof (cases "event_grant es (fst (req t)) (snd (req t))")
    case None
    with sub show ?thesis by simp
  next
    case (Some got)
    with sub [of "if bit (snd (req t)) 2 then es AND NOT got else es"] show ?thesis
      by (simp add: Let_def case_prod_beta)
  qed
qed simp

text \<open>The state after the first waiting thread has got its bits.\<close>

lemma event_grant_step:
  fixes got E
  assumes inv: "check_inv base s" and t: "t \<in> set (lst (tlists s) (SuspendQ (OEvent e)))"
  defines "s1 \<equiv> snd (rt_thread_resume t (s\<lparr>threads := (threads s)(t := (threads s t)\<lparr>event_set := got\<rparr>),
      events := E\<rparr>))"
  shows "check_inv base s1"
    and "threads s1 = (threads s)(t := (threads s t)\<lparr>event_set := got, stat := RT_THREAD_READY\<rparr>)"
    and "lst (tlists s1) (SuspendQ (OEvent e)) = remove1 t (lst (tlists s) (SuspendQ (OEvent e)))"
    and "events s1 = E"
proof -
  let ?s0 = "s\<lparr>threads := (threads s)(t := (threads s t)\<lparr>event_set := got\<rparr>), events := E\<rparr>"
  have inv0: "check_inv base ?s0" using check_inv_event_fields(2) [OF inv, of t got] by simp
  then show "check_inv base s1" unfolding s1_def by (rule check_inv_resume)
  have st: "stat (threads ?s0 t) = RT_THREAD_SUSPEND"
    using waiter_suspended [OF inv _ t] by simp
  have si: "sched_inv ?s0" using inv0 by (simp add: check_inv_def)
  show "threads s1 = (threads s)(t := (threads s t)\<lparr>event_set := got, stat := RT_THREAD_READY\<rparr>)"
    unfolding s1_def thread_resume_suspended(2) [OF st] by simp
  show "lst (tlists s1) (SuspendQ (OEvent e)) = remove1 t (lst (tlists s) (SuspendQ (OEvent e)))"
    unfolding s1_def using resume_wait_lists [OF si st, of "SuspendQ (OEvent e)"] by simp
  show "events s1 = E" by (simp add: s1_def)
qed

lemma remove1_filter: "distinct xs \<Longrightarrow> remove1 t xs = filter (\<lambda>x. x \<noteq> t) xs"
  by (simp add: distinct_remove1_removeAll removeAll_filter_not_eq) (metis (mono_tags) filter_cong)

text \<open>The loop implements the specification.\<close>

lemma event_loop_refines:
  assumes "check_inv base s" and "distinct ts"
    and "set ts \<subseteq> set (lst (tlists s) (SuspendQ (OEvent e)))"
    and "event_spec (ev_set (events s e)) (request s) ts = (final, woken)"
  shows "\<exists>s'. event_send_loop e ts need s = (need \<or> woken \<noteq> [], s') \<and> check_inv base s'
    \<and> ev_set (events s' e) = final
    \<and> threads s' = (\<lambda>t. case map_of woken t of None \<Rightarrow> threads s t
         | Some got \<Rightarrow> (threads s t)\<lparr>event_set := got, stat := RT_THREAD_READY\<rparr>)
    \<and> lst (tlists s') (SuspendQ (OEvent e))
        = filter (\<lambda>t. t \<notin> fst ` set woken) (lst (tlists s) (SuspendQ (OEvent e)))"
  using assms
proof (induction ts arbitrary: s need woken)
  case Nil
  then show ?case by simp
next
  case (Cons t ts)
  let ?set = "ev_set (events s e)" and ?info = "event_info (threads s t)"
  let ?q = "lst (tlists s) (SuspendQ (OEvent e))"
  show ?case
  proof (cases "event_grant ?set (event_set (threads s t)) ?info")
    case None
    with Cons.prems have "event_spec ?set (request s) ts = (final, woken)" by simp
    with Cons.IH [OF Cons.prems(1)] Cons.prems(2,3) have
      "\<exists>s'. event_send_loop e ts need s = (need \<or> woken \<noteq> [], s') \<and> check_inv base s'
        \<and> ev_set (events s' e) = final
        \<and> threads s' = (\<lambda>t. case map_of woken t of None \<Rightarrow> threads s t
             | Some got \<Rightarrow> (threads s t)\<lparr>event_set := got, stat := RT_THREAD_READY\<rparr>)
        \<and> lst (tlists s') (SuspendQ (OEvent e)) = filter (\<lambda>t. t \<notin> fst ` set woken) ?q" by simp
    moreover have "event_send_loop e (t # ts) need s = event_send_loop e ts need s"
      unfolding event_loop_step None by simp
    ultimately show ?thesis by simp
  next
    case (Some got)
    let ?set' = "if bit ?info 2 then ?set AND NOT got else ?set"
    let ?E = "if bit ?info 2 then (events s)(e := (events s e)\<lparr>ev_set := ?set AND NOT got\<rparr>) else events s"
    let ?s1 = "snd (rt_thread_resume t
      (s\<lparr>threads := (threads s)(t := (threads s t)\<lparr>event_set := got\<rparr>), events := ?E\<rparr>))"
    have tq: "t \<in> set ?q" using Cons.prems(3) by simp
    note s1 = event_grant_step [OF Cons.prems(1) tq, where got = got and E = ?E]
    obtain woken' where w: "woken = (t, got) # woken'"
      and spec: "event_spec ?set' (request s) ts = (final, woken')"
      using Cons.prems(4) Some by (auto simp: Let_def split: prod.splits)
    have d: "distinct ?q" using Cons.prems(1) by (intro wf_distinct) (auto simp: check_inv_def SI_def)
    have nt: "t \<notin> set ts" and "distinct ts" using Cons.prems(2) by simp_all
    have "event_spec (ev_set (events ?s1 e)) (request ?s1) ts = (final, woken')"
    proof -
      have "request ?s1 u = request s u" if "u \<in> set ts" for u
        using nt that by (auto simp: s1(2))
      moreover have "ev_set (events ?s1 e) = ?set'" by (simp add: s1(4))
      ultimately show ?thesis using event_spec_cong [of ts "request ?s1" "request s"] spec by simp
    qed
    moreover have "set ts \<subseteq> set (lst (tlists ?s1) (SuspendQ (OEvent e)))"
      using Cons.prems(3) nt d by (auto simp: s1(3))
    ultimately obtain s' where s': "event_send_loop e ts True ?s1 = (True \<or> woken' \<noteq> [], s')"
      "check_inv base s'" "ev_set (events s' e) = final"
      "threads s' = (\<lambda>t. case map_of woken' t of None \<Rightarrow> threads ?s1 t
         | Some got \<Rightarrow> (threads ?s1 t)\<lparr>event_set := got, stat := RT_THREAD_READY\<rparr>)"
      "lst (tlists s') (SuspendQ (OEvent e))
         = filter (\<lambda>t. t \<notin> fst ` set woken') (lst (tlists ?s1) (SuspendQ (OEvent e)))"
      using Cons.IH [OF s1(1) \<open>distinct ts\<close>] by blast
    have "event_send_loop e (t # ts) need s = (True, s')"
      unfolding event_loop_step Some using s'(1) by simp
    moreover have "t \<notin> fst ` set woken'"
      using event_spec_woken [of ?set' "request s" ts] spec nt by auto
    then have "map_of woken' t = None" by (simp add: map_of_eq_None_iff)
    then have "threads s' = (\<lambda>u. case map_of woken u of None \<Rightarrow> threads s u
        | Some got \<Rightarrow> (threads s u)\<lparr>event_set := got, stat := RT_THREAD_READY\<rparr>)"
      unfolding s'(4) w s1(2) by (auto simp: fun_eq_iff split: option.splits)
    moreover have "lst (tlists s') (SuspendQ (OEvent e)) = filter (\<lambda>u. u \<notin> fst ` set woken) ?q"
      unfolding s'(5) w s1(3) using d
      by (auto simp: remove1_filter intro!: filter_cong)
    ultimately show ?thesis using s'(2,3) w by simp
  qed
qed

text \<open>The whole call: the loop, and a scheduling when a thread was woken.\<close>

lemma event_send_refines:
  assumes inv: "check_inv base s" and es: "es \<noteq> 0"
    and spec: "event_spec (ev_set (events s e) OR es) (request s) (lst (tlists s) (SuspendQ (OEvent e)))
      = (final, woken)"
  shows "\<exists>s'. rt_event_send e es s = Some (0, s') \<and> check_inv base s' \<and> ev_set (events s' e) = final
    \<and> threads s' = (\<lambda>t. case map_of woken t of None \<Rightarrow> threads s t
         | Some got \<Rightarrow> (threads s t)\<lparr>event_set := got, stat := RT_THREAD_READY\<rparr>)
    \<and> lst (tlists s') (SuspendQ (OEvent e))
        = filter (\<lambda>t. t \<notin> fst ` set woken) (lst (tlists s) (SuspendQ (OEvent e)))"
proof -
  let ?q = "lst (tlists s) (SuspendQ (OEvent e))"
  let ?s1 = "upd_event e (\<lambda>x. x\<lparr>ev_set := ev_set x OR es\<rparr>) s"
  have inv1: "check_inv base ?s1" using inv by simp
  have d: "distinct ?q" using inv by (intro wf_distinct) (auto simp: check_inv_def SI_def)
  have spec1: "event_spec (ev_set (events ?s1 e)) (request ?s1) ?q = (final, woken)" using spec by simp
  from event_loop_refines [OF inv1 d _ spec1, where need = False] obtain s2 where
    s2: "event_send_loop e ?q False ?s1 = (woken \<noteq> [], s2)" "check_inv base s2" "ev_set (events s2 e) = final"
      "threads s2 = (\<lambda>t. case map_of woken t of None \<Rightarrow> threads s t
         | Some got \<Rightarrow> (threads s t)\<lparr>event_set := got, stat := RT_THREAD_READY\<rparr>)"
      "lst (tlists s2) (SuspendQ (OEvent e)) = filter (\<lambda>t. t \<notin> fst ` set woken) ?q"
    by (auto cong: option.case_cong)
  show ?thesis
  proof (cases woken)
    case Nil
    with s2 es show ?thesis by (simp add: rt_event_send_def)
  next
    case (Cons a ws)
    then have "stat (threads s2 (fst a)) = RT_THREAD_READY" by (cases a) (simp add: s2(4))
    then obtain s' where s': "rt_schedule s2 = Some s'"
      using rt_schedule_cases [of s2 "fst a"] s2(2) by (auto simp: check_inv_def)
    have "rt_event_send e es s = Some (0, s')"
      using s2(1) s' es Cons by (simp add: rt_event_send_def)
    then show ?thesis
      using s2 rt_schedule_same [OF s'] check_inv_schedule [OF s2(2) s'] by auto
  qed
qed

text \<open>
  A receiver that does not have to wait gets the same bits, and leaves the same set, as one that
  waits and is served by the next send.
\<close>

lemma event_recv_grant:
  assumes "rt_thread_self s = Some t" and "irq_nest s = 0" and "es \<noteq> 0"
    and "event_grant (ev_set (events s e)) es opt = Some got"
  shows "rt_event_recv e es opt timeout s = Some (Return (0, Some got),
     upd_event e (\<lambda>x. x\<lparr>ev_set := (if bit opt 2 then ev_set x AND NOT got else ev_set x)\<rparr>)
       (upd_thread t (\<lambda>th. th\<lparr>error := 0\<rparr>) s))"
proof -
  have clr: "x AND (NOT es OR NOT x) = x AND NOT es" for x
    by (rule bit_word_eqI) (auto simp: bit_simps)
  have com: "ev_set (events s e) AND es = es AND ev_set (events s e)" by (rule and.commute)
  show ?thesis
  proof (cases "bit opt 0")
    case True
    with assms(4) have "got = es" "es AND ev_set (events s e) = es"
      by (simp_all add: event_grant_def split: if_splits)
    with True assms(1-3) com show ?thesis by (simp add: rt_event_recv_def Let_def)
  next
    case False
    with assms(4) have "bit opt 1" "got = es AND ev_set (events s e)" "got \<noteq> 0"
      by (simp_all add: event_grant_def split: if_splits)
    with False assms(1-3) com clr show ?thesis by (simp add: rt_event_recv_def Let_def)
  qed
qed

lemma event_recv_fails:
  assumes "rt_thread_self s = Some t" and "irq_nest s = 0" and "es \<noteq> 0" and "bit opt 0 \<or> bit opt 1"
    and "event_grant (ev_set (events s e)) es opt = None"
  shows "rt_event_recv e es opt 0 s = Some (Return (- RT_ETIMEOUT, None),
     upd_thread t (\<lambda>th. th\<lparr>error := - RT_ETIMEOUT\<rparr>) s)"
  using assms by (auto simp: rt_event_recv_def event_grant_def Let_def and.commute [of _ es] split: if_splits)

lemma event_recv_blocks:
  assumes inv: "check_inv base s" and self: "rt_thread_self s = Some t"
    and st: "stat (threads s t) = RT_THREAD_READY" and irq: "irq_nest s = 0" and es: "es \<noteq> 0"
    and opt: "bit opt 0 \<or> bit opt 1" "event_grant (ev_set (events s e)) es opt = None"
    and fl: "o_flag (objs s (OEvent e)) = 0 \<or> o_flag (objs s (OEvent e)) = 1"
    and time: "timeout \<noteq> 0" "time_ok base s timeout"
    and u: "u \<noteq> t" "stat (threads s u) = RT_THREAD_READY"
  shows "\<exists>s'. rt_event_recv e es opt timeout s = Some (Blocked, s') \<and> check_inv base s'
    \<and> loc (tlists s') t = Some (SuspendQ (OEvent e)) \<and> request s' t = (es, opt) \<and> events s' = events s"
proof -
  let ?h = "SuspendQ (OEvent e)"
  let ?s2 = "upd_thread t (\<lambda>th. th\<lparr>event_set := es, event_info := opt\<rparr>)
    (upd_thread t (\<lambda>th. th\<lparr>error := RT_EOK\<rparr>) s)"
  have inv2: "check_inv base ?s2"
    by (rule check_inv_event_fields(1) [OF check_inv_error [OF inv]])
  have win2: "time_ok base ?s2 timeout" using time(2) by (simp add: time_ok_def)
  have fl2: "o_flag (objs ?s2 (OEvent e)) = 0 \<or> o_flag (objs ?s2 (OEvent e)) = 1" using fl by simp
  have st2: "stat (threads ?s2 t) = RT_THREAD_READY" "stat (threads ?s2 u) = RT_THREAD_READY"
    using st u by simp_all
  from ipc_wait_returns [OF inv2 st2(1) fl2 _ win2 u(1) st2(2), of ?h] obtain s' where
    s': "ipc_wait ?h t (o_flag (objs ?s2 (OEvent e))) timeout ?s2 = Some s'" "check_inv base s'"
      "threads s' = (threads ?s2)(t := (threads ?s2 t)\<lparr>stat := RT_THREAD_SUSPEND\<rparr>)"
      "tlists s' = tlists (rt_ipc_list_suspend ?h t (o_flag (objs ?s2 (OEvent e))) ?s2)"
      "events s' = events ?s2" by blast
  have "loc (tlists s') t = Some ?h" unfolding s'(4) by (rule ipc_suspend_inv(3) [OF inv2 st2(1) fl2]) simp
  moreover have "rt_event_recv e es opt timeout s = Some (Blocked, s')"
    using self irq es opt time(1) s'(1)
    by (auto simp: rt_event_recv_def event_grant_def Let_def and.commute [of _ es] split: if_splits)
  ultimately show ?thesis using s'(2,3,5) by simp
qed

end
