(* ===== verification/Rt_Clock.thy ===== *)
theory Rt_Clock
  imports Rt_Ipc
begin

text \<open>
  The system clock, \<^verbatim>\<open>rt-thread/src/clock.c\<close>: the tick counter, the time slices of the running thread
  and, through \<^verbatim>\<open>rt_timer_check\<close>, the expiry of timers; and the background work of the idle thread,
  \<^verbatim>\<open>rt-thread/src/idle.c\<close>, which releases the threads that have ended.
\<close>

section \<open>The clock\<close>

definition RT_TICK_PER_SECOND :: rt_uint32 where "RT_TICK_PER_SECOND = 100"

definition rt_tick_get :: "kstate \<Rightarrow> rt_tick" where
  "rt_tick_get s = ktick s"

definition rt_tick_set :: "rt_tick \<Rightarrow> kstate \<Rightarrow> kstate" where
  "rt_tick_set tk s = s\<lparr>ktick := tk\<rparr>"

definition rt_tick_increase ::
  "(nat \<Rightarrow> nat \<Rightarrow> kstate \<Rightarrow> kstate option) \<Rightarrow> kstate \<Rightarrow> kstate option" where
  "rt_tick_increase cb s =
     (let s1 = s\<lparr>ktick := ktick s + 1\<rparr>
      in do {
           t \<leftarrow> rt_thread_self s1;
           let s2 = upd_thread t (\<lambda>th. th\<lparr>remaining_tick := remaining_tick th - 1\<rparr>) s1;
           s4 \<leftarrow>
             (if remaining_tick (threads s2 t) = 0 then
                (let s3 = upd_thread t (\<lambda>th. th\<lparr>remaining_tick := init_tick th\<rparr>) s2
                 in do { (e, s4) \<leftarrow> rt_thread_yield s3; Some s4 })
              else Some s2);
           rt_timer_check cb s4
         })"

definition rt_tick_from_millisecond :: "rt_uint32 \<Rightarrow> rt_tick" where
  "rt_tick_from_millisecond ms = (RT_TICK_PER_SECOND * ms + 999) div 1000"

text \<open>The conversion rounds up, as long as the product fits into a word.\<close>

lemma tick_from_ms_rounds_up:
  assumes "unat ms \<le> 42949662"
  shows "unat (rt_tick_from_millisecond ms) = (unat ms + 9) div 10"
proof -
  have "unat (100 * ms) = 100 * unat ms"
    using assms unat_mult_lem [of "100 :: 32 word" ms] by simp
  moreover from this have "unat (100 * ms + 999) = 100 * unat ms + 999"
    using assms unat_add_lem [of "100 * ms" "999 :: 32 word"] by simp
  ultimately have "unat (rt_tick_from_millisecond ms) = (100 * unat ms + 999) div 1000"
    by (simp add: rt_tick_from_millisecond_def RT_TICK_PER_SECOND_def unat_div)
  then show ?thesis by simp
qed

section \<open>One tick\<close>

text \<open>
  The invariant between two ticks: the timers of the system list are sorted by their distance from the
  current tick, and a period is short enough to be measured from the previous tick.
\<close>

definition tick_inv :: "kstate \<Rightarrow> bool" where
  "tick_inv s \<longleftrightarrow> check_inv (ktick s) s
     \<and> (\<forall>r. bit (o_flag (objs s (OTimer r))) 1 \<and> \<not> bit (o_flag (objs s (OTimer r))) 2 \<longrightarrow>
          1 + unat (tm_init_tick (timers s r)) < unat RT_TICK_HALF)"

lemma tick_next: "unat (k + 1 - k :: rt_tick) = 1"
  by simp

lemma check_inv_advance:
  assumes "tick_inv s"
  shows "check_inv (ktick s) (s\<lparr>ktick := ktick s + 1\<rparr>)"
  using assms unfolding tick_inv_def check_inv_def periodic_ok_def
  by (auto simp: word_less_nat_alt RT_TICK_HALF_num)

text \<open>When no timer is due, the distances can be measured from the new tick.\<close>

lemma check_inv_rebase:
  assumes inv: "check_inv base s" and nd: "dues s = {}"
  shows "check_inv (ktick s) s"
proof -
  let ?H = "lst (tmlists s) HardTimers"
  have off: "tm_off (ktick s) (timers s) r + unat (ktick s - base) = tm_off base (timers s) r"
    "timeout_tick (timers s r) - ktick s < RT_TICK_HALF" if "r \<in> set ?H" for r
  proof -
    have "\<not> tm_off base (timers s) r \<le> unat (ktick s - base)"
      using due_off [OF inv that] nd that by (auto simp: dues_def)
    moreover have "timeout_tick (timers s r) - base < RT_TICK_HALF"
      using inv that by (auto simp: check_inv_def tm_sorted_def)
    ultimately show "tm_off (ktick s) (timers s) r + unat (ktick s - base) = tm_off base (timers s) r"
      "timeout_tick (timers s r) - ktick s < RT_TICK_HALF"
      using unat_diff_base [of "timeout_tick (timers s r)" "ktick s" base]
      by (auto simp: word_less_nat_alt)
  qed
  have "sorted (map (tm_off base (timers s)) ?H)" using inv by (simp add: check_inv_def tm_sorted_def)
  then have "sorted_wrt (\<lambda>a b. tm_off base (timers s) a \<le> tm_off base (timers s) b) ?H"
    by (simp add: sorted_wrt_map)
  then have "sorted_wrt (\<lambda>a b. tm_off (ktick s) (timers s) a \<le> tm_off (ktick s) (timers s) b) ?H"
    by (rule sorted_wrt_mono_rel [rotated]) (use off(1) in \<open>metis add_le_cancel_right\<close>)
  then have "tm_sorted (ktick s) (timers s) ?H"
    using off(2) by (simp add: tm_sorted_def sorted_wrt_map)
  moreover have "periodic_ok (ktick s) s"
    using inv unfolding check_inv_def periodic_ok_def by fastforce
  ultimately show ?thesis using inv by (simp add: check_inv_def RT_TICK_HALF_num)
qed

lemma check_inv_remaining:
  "check_inv base s \<Longrightarrow> check_inv base (upd_thread t (\<lambda>th. th\<lparr>remaining_tick := x\<rparr>) s)"
  by (rule check_inv_sched) (auto simp: check_inv_def stack_ok_def intro!: SI_upd_same)

lemma yield_returns:
  assumes "check_inv base s" and "rt_thread_self s = Some t"
  obtains e s' where "rt_thread_yield s = Some (e, s')" and "check_inv base s'" and "threads s' = threads s"
    and "ktick s' = ktick s" and "timers s' = timers s" and "objs s' = objs s" and "tmlists s' = tmlists s"
proof (cases "stat (threads s t) = RT_THREAD_READY \<and> ls_next_ne_prev t (tlists s)")
  case False
  with assms(2) have "rt_thread_yield s = Some (0, s)" by (auto simp: rt_thread_yield_def)
  with assms(1) that show ?thesis by blast
next
  case True
  let ?s2 = "s\<lparr>tlists := ls_insert_before (ReadyQ (current_priority (threads s t))) t
    (ls_remove t (tlists s))\<rparr>"
  have si: "sched_inv s" using assms(1) by (simp add: check_inv_def)
  have si2: "sched_inv ?s2"
  proof -
    have "rt_thread_yield (s\<lparr>lock_nest := 1\<rparr>) = Some (0, ?s2\<lparr>lock_nest := 1\<rparr>)"
      using True assms(2) by (simp add: rt_thread_yield_def Let_def rt_schedule_locked)
    from thread_yield_inv [OF _ this] si show ?thesis by simp
  qed
  then obtain s' where s': "rt_schedule ?s2 = Some s'"
    using True rt_schedule_cases [OF si2, of t] by auto
  have "check_inv base ?s2" using assms(1) si2 by (rule check_inv_sched) simp_all
  then have "check_inv base s'" using s' by (rule check_inv_schedule)
  moreover have "rt_thread_yield s = Some (0, s')"
    using True assms(2) s' by (simp add: rt_thread_yield_def Let_def)
  ultimately show ?thesis using rt_schedule_same [OF s'] that by simp
qed

text \<open>The part of the clock interrupt before the timer check: counting and the time slice.\<close>

lemma tick_slice:
  assumes inv: "tick_inv s" and self: "rt_thread_self s = Some t"
  obtains s4 where "rt_tick_increase cb s = rt_timer_check cb s4" and "check_inv (ktick s) s4"
    and "ktick s4 = ktick s + 1" and "timers s4 = timers s" and "tmlists s4 = tmlists s"
    and "\<And>u. stat (threads s4 u) = stat (threads s u)" and "\<And>u. error (threads s4 u) = error (threads s u)"
    and "\<And>u. remaining_tick (threads s4 u) = (if u = t then
        (if remaining_tick (threads s t) = 1 then init_tick (threads s t) else remaining_tick (threads s t) - 1)
        else remaining_tick (threads s u))"
proof -
  let ?s1 = "s\<lparr>ktick := ktick s + 1\<rparr>"
  let ?s2 = "upd_thread t (\<lambda>th. th\<lparr>remaining_tick := remaining_tick th - 1\<rparr>) ?s1"
  let ?s3 = "upd_thread t (\<lambda>th. th\<lparr>remaining_tick := init_tick th\<rparr>) ?s2"
  have inv2: "check_inv (ktick s) ?s2"
    using check_inv_remaining [OF check_inv_advance [OF inv]] by simp
  show ?thesis
  proof (cases "remaining_tick (threads s t) = 1")
    case False
    then have "rt_tick_increase cb s = rt_timer_check cb ?s2"
      using self by (simp add: rt_tick_increase_def Let_def)
    with inv2 False show ?thesis by (intro that [of ?s2]) simp_all
  next
    case True
    have inv3: "check_inv (ktick s) ?s3" using check_inv_remaining [OF inv2, of t "init_tick (threads s t)"] by simp
    obtain e s4 where y: "rt_thread_yield ?s3 = Some (e, s4)" "check_inv (ktick s) s4"
      "threads s4 = threads ?s3" "ktick s4 = ktick ?s3" "timers s4 = timers ?s3" "tmlists s4 = tmlists ?s3"
    proof (rule yield_returns [OF inv3])
      show "rt_thread_self ?s3 = Some t" using self by simp
    qed
    then have "rt_tick_increase cb s = rt_timer_check cb s4"
      using self True by (simp add: rt_tick_increase_def Let_def)
    with y True show ?thesis by (intro that [of s4]) simp_all
  qed
qed

lemma tick_inv_intro:
  assumes "check_inv base s'" and "ktick s' = base + 1" and "dues s' = {}"
  shows "tick_inv s'"
  unfolding tick_inv_def
proof (intro conjI allI impI)
  show "check_inv (ktick s') s'" using assms(1,3) by (rule check_inv_rebase)
  fix r assume "bit (o_flag (objs s' (OTimer r))) 1 \<and> \<not> bit (o_flag (objs s' (OTimer r))) 2"
  with assms(1) have "unat (ktick s' - base) + unat (tm_init_tick (timers s' r)) < unat RT_TICK_HALF"
    unfolding check_inv_def periodic_ok_def by blast
  with assms(2) show "1 + unat (tm_init_tick (timers s' r)) < unat RT_TICK_HALF" by simp
qed

lemma tick_increase_returns:
  assumes inv: "tick_inv s" and self: "rt_thread_self s = Some t" and cb: "cb_ok (ktick s) cb"
  shows "\<exists>s'. rt_tick_increase cb s = Some s' \<and> tick_inv s' \<and> ktick s' = ktick s + 1 \<and> dues s' = {}"
proof -
  obtain s4 where s4: "rt_tick_increase cb s = rt_timer_check cb s4" "check_inv (ktick s) s4"
    "ktick s4 = ktick s + 1"
    using tick_slice [OF inv self] by metis
  obtain s' where s': "timer_check_loop cb (ktick s4) s4 = Some s'" "check_inv (ktick s) s'" "dues s' = {}"
    "ktick s' = ktick s4"
    using timer_check_loop_returns [OF s4(2) cb] by blast
  then have "tick_inv s'" using s4(3) by (intro tick_inv_intro [of "ktick s"]) simp_all
  with s' s4 show ?thesis by (simp add: rt_timer_check_def)
qed

text \<open>
  When only thread timers expire at the next tick, the clock interrupt makes exactly their threads
  ready, with the error of a timeout; no other thread changes its state.
\<close>

lemma tick_wakes:
  assumes inv: "tick_inv s" and self: "rt_thread_self s = Some t"
    and only: "\<And>r. r \<in> dues (s\<lparr>ktick := ktick s + 1\<rparr>) \<Longrightarrow> \<exists>u. r = ThreadTimer u"
  shows "\<exists>s'. rt_tick_increase cb s = Some s' \<and> tick_inv s' \<and> ktick s' = ktick s + 1
    \<and> (\<forall>u. ThreadTimer u \<in> dues (s\<lparr>ktick := ktick s + 1\<rparr>) \<longrightarrow>
          stat (threads s' u) = RT_THREAD_READY \<and> error (threads s' u) = - RT_ETIMEOUT)
    \<and> (\<forall>u. ThreadTimer u \<notin> dues (s\<lparr>ktick := ktick s + 1\<rparr>) \<longrightarrow>
          stat (threads s' u) = stat (threads s u) \<and> error (threads s' u) = error (threads s u))"
proof -
  obtain s4 where s4: "rt_tick_increase cb s = rt_timer_check cb s4" "check_inv (ktick s) s4"
    "ktick s4 = ktick s + 1" "timers s4 = timers s" "tmlists s4 = tmlists s"
    "\<And>u. stat (threads s4 u) = stat (threads s u)" "\<And>u. error (threads s4 u) = error (threads s u)"
    using tick_slice [OF inv self] by metis
  have d: "dues s4 = dues (s\<lparr>ktick := ktick s + 1\<rparr>)" using s4 by (simp add: dues_def due_def)
  from timer_check_wakes [OF s4(2), of cb] only d
  obtain s' where s': "timer_check_loop cb (ktick s4) s4 = Some s'" "check_inv (ktick s) s'" "dues s' = {}"
    "threads s' = (\<lambda>t. if ThreadTimer t \<in> dues s4
        then (threads s4 t)\<lparr>error := - RT_ETIMEOUT, stat := RT_THREAD_READY\<rparr> else threads s4 t)"
    "ktick s' = ktick s4"
    by auto
  have kt: "ktick s' = ktick s + 1" using s'(5) s4(3) by simp
  then have "tick_inv s'" using s'(2,3) by (intro tick_inv_intro [of "ktick s"])
  with s' s4 d kt show ?thesis by (simp add: rt_timer_check_def)
qed

section \<open>The idle thread\<close>

definition has_defunct_thread :: "kstate \<Rightarrow> bool" where
  "has_defunct_thread s \<longleftrightarrow> \<not> ls_isempty DefunctQ (tlists s)"

text \<open>
  \<open>clean\<close> stands for the cleanup functions of the application: applied to the function, the thread and
  the state. Freed memory is recorded in \<open>kfree_log\<close>.
\<close>

partial_function (option) rt_thread_idle_excute ::
  "(nat \<Rightarrow> tid \<Rightarrow> kstate \<Rightarrow> kstate option) \<Rightarrow> kstate \<Rightarrow> kstate option" where
  "rt_thread_idle_excute clean s =
     (if \<not> has_defunct_thread s then Some s
      else if irq_nest s \<noteq> 0 then None
      else case lst (tlists s) DefunctQ of
        [] \<Rightarrow> Some s
      | t # ts \<Rightarrow>
          do {
            s1 \<leftarrow> (case cleanup (threads s t) of
                     None \<Rightarrow> Some (s\<lparr>tlists := ls_remove t (tlists s)\<rparr>)
                   | Some f \<Rightarrow> clean f t (s\<lparr>tlists := ls_remove t (tlists s)\<rparr>));
            if rt_object_is_systemobject (OThread t) s1 then Some s1
            else do {
              s2 \<leftarrow> rt_object_delete (OThread t) (s1\<lparr>kfree_log := FreeStack t # kfree_log s1\<rparr>);
              rt_thread_idle_excute clean s2
            }
          })"

text \<open>\<open>stk\<close> and \<open>stksize\<close> are the address and the size of the static stack.\<close>

definition rt_thread_idle_init ::
  "nat \<Rightarrow> rt_uint32 \<Rightarrow> rt_uint32 \<Rightarrow> rt_uint32 \<Rightarrow> kstate \<Rightarrow> kstate option" where
  "rt_thread_idle_init entry stk stksize hw_sp s =
     do {
       (e, s1) \<leftarrow> rt_thread_init idle [116, 105, 100, 108, 101] entry 0 stk stksize
                   (word_of_nat (RT_THREAD_PRIORITY_MAX - 1)) 32 hw_sp s;
       (e', s2) \<leftarrow> rt_thread_startup idle s1;
       Some s2
     }"

definition rt_thread_idle_gethandler :: tid where
  "rt_thread_idle_gethandler = idle"

lemma idle_step_empty: "lst (tlists s) DefunctQ = [] \<Longrightarrow> rt_thread_idle_excute clean s = Some s"
  by (subst rt_thread_idle_excute.simps) (simp add: has_defunct_thread_def ls_isempty_def)

text \<open>
  One call releases every defunct thread when all of them were created dynamically and have no
  cleanup function: the list is empty afterwards and the memory of each thread has been given back
  (stack first, then the object).
\<close>

lemma idle_releases_dynamic:
  assumes "irq_nest s = 0" and "lstore_wf (tlists s)"
    and "\<And>t. t \<in> set (lst (tlists s) DefunctQ) \<Longrightarrow>
      cleanup (threads s t) = None \<and> \<not> rt_object_is_systemobject (OThread t) s"
  shows "\<exists>s'. rt_thread_idle_excute clean s = Some s' \<and> lst (tlists s') DefunctQ = []
    \<and> kfree_log s' = concat (map (\<lambda>t. [FreeObj (OThread t), FreeStack t]) (rev (lst (tlists s) DefunctQ)))
        @ kfree_log s"
  using assms
proof (induction "lst (tlists s) DefunctQ" arbitrary: s)
  case Nil
  then show ?case by (simp add: idle_step_empty)
next
  case (Cons t ts)
  note hd = Cons.hyps(2) [symmetric]
  have t: "cleanup (threads s t) = None" "\<not> rt_object_is_systemobject (OThread t) s"
    using Cons.prems(3) hd by simp_all
  let ?s1 = "s\<lparr>tlists := ls_remove t (tlists s)\<rparr>"
  let ?s2 = "?s1\<lparr>olists := ls_remove (OThread t) (olists s),
    kfree_log := FreeObj (OThread t) # FreeStack t # kfree_log s\<rparr>"
  have step: "rt_thread_idle_excute clean s = rt_thread_idle_excute clean ?s2"
    using t hd Cons.prems(1)
    by (subst rt_thread_idle_excute.simps)
      (simp add: has_defunct_thread_def ls_isempty_def rt_object_is_systemobject_def rt_object_delete_def)
  have ts: "ts = lst (tlists ?s2) DefunctQ" using hd Cons.prems(2) by simp
  moreover have "cleanup (threads ?s2 u) = None \<and> \<not> rt_object_is_systemobject (OThread u) ?s2"
    if "u \<in> set (lst (tlists ?s2) DefunctQ)" for u
    using Cons.prems(3) [of u] that hd ts by (simp add: rt_object_is_systemobject_def)
  moreover have "irq_nest ?s2 = 0" "lstore_wf (tlists ?s2)" using Cons.prems by simp_all
  ultimately obtain s' where "rt_thread_idle_excute clean ?s2 = Some s'" "lst (tlists s') DefunctQ = []"
    "kfree_log s' = concat (map (\<lambda>t. [FreeObj (OThread t), FreeStack t]) (rev ts)) @ kfree_log ?s2"
    using Cons.hyps(1) by blast
  then show ?case using hd step by simp
qed

text \<open>
  A thread that was initialised statically ends the call: the threads behind it stay in the list until
  the next one.
\<close>

lemma idle_stops_at_static:
  assumes "irq_nest s = 0" and "lst (tlists s) DefunctQ = t # ts" and "lstore_wf (tlists s)"
    and "cleanup (threads s t) = None" and "rt_object_is_systemobject (OThread t) s"
  shows "\<exists>s'. rt_thread_idle_excute clean s = Some s' \<and> lst (tlists s') DefunctQ = ts"
  using assms by (subst rt_thread_idle_excute.simps)
    (simp add: has_defunct_thread_def ls_isempty_def rt_object_is_systemobject_def)

end
