(* ===== verification/Rt_Frame.thy ===== *)
theory Rt_Frame
  imports Rt_Mutex Rt_Sem Rt_Event Rt_Mq Rt_Clock
begin

text \<open>
  What a kernel call leaves alone. \<open>kframe G T s s'\<close>: between the two states no wait list outside of
  \<open>G\<close> has changed, no thread outside of \<open>T\<close> has got another error, has stopped being ready or waits with
  another timer, the lock and interrupt counters, the tick and the object headers are the same and no
  periodic timer was changed.
  \<open>settled s s'\<close>: the second state comes out of the scheduler, or neither the running thread nor the
  ready queues have changed. Both hold for every call of the IPC objects; the theory \<open>Rt_System\<close>
  composes them.
\<close>

section \<open>Frames\<close>

abbreviation tmflag :: "kstate \<Rightarrow> tmref \<Rightarrow> rt_uint8" where
  "tmflag s r \<equiv> o_flag (objs s (OTimer r))"

definition timers_kept :: "kstate \<Rightarrow> kstate \<Rightarrow> bool" where
  "timers_kept s s' \<longleftrightarrow>
     (\<forall>r. bit (tmflag s' r) 1 = bit (tmflag s r) 1 \<and> bit (tmflag s' r) 2 = bit (tmflag s r) 2
        \<and> (bit (tmflag s r) 1 \<longrightarrow> tm_init_tick (timers s' r) = tm_init_tick (timers s r)))
     \<and> set (lst (tmlists s') HardTimers) \<subseteq> set (lst (tmlists s) HardTimers) \<union> range ThreadTimer"

text \<open>The timer of a waiting thread: whether it runs, and when it expires.\<close>

abbreviation wait_timer :: "kstate \<Rightarrow> tid \<Rightarrow> tmhead option \<times> rt_tick" where
  "wait_timer s u \<equiv> (loc (tmlists s) (ThreadTimer u), timeout_tick (timers s (ThreadTimer u)))"

definition kframe :: "lhead set \<Rightarrow> tid set \<Rightarrow> kstate \<Rightarrow> kstate \<Rightarrow> bool" where
  "kframe G T s s' \<longleftrightarrow> lock_nest s' = lock_nest s \<and> irq_nest s' = irq_nest s \<and> ktick s' = ktick s
     \<and> timers_kept s s' \<and> (\<forall>ob. (\<forall>r. ob \<noteq> OTimer r) \<longrightarrow> objs s' ob = objs s ob)
     \<and> (\<forall>h. wait_head h \<and> h \<notin> G \<longrightarrow> lst (tlists s') h = lst (tlists s) h)
     \<and> (\<forall>u. u \<notin> T \<longrightarrow> error (threads s' u) = error (threads s u)
          \<and> (stat (threads s' u) = stat (threads s u) \<or> stat (threads s' u) = RT_THREAD_READY)
          \<and> (stat (threads s' u) = RT_THREAD_SUSPEND \<longrightarrow> wait_timer s' u = wait_timer s u))"

lemma timers_kept_refl [simp]: "timers_kept s s"
  by (simp add: timers_kept_def)

lemma timers_kept_trans: "timers_kept s s1 \<Longrightarrow> timers_kept s1 s2 \<Longrightarrow> timers_kept s s2"
  unfolding timers_kept_def by (elim conjE, intro conjI) (simp, blast)

lemma kframe_refl [simp]: "kframe G T s s"
  by (simp add: kframe_def)

lemma kframe_same:
  assumes "kframe G T s s'"
  shows "lock_nest s' = lock_nest s" and "irq_nest s' = irq_nest s" and "ktick s' = ktick s" and "timers_kept s s'"
    and "\<forall>ob. (\<forall>r. ob \<noteq> OTimer r) \<longrightarrow> objs s' ob = objs s ob"
    and "wait_head h \<Longrightarrow> h \<notin> G \<Longrightarrow> lst (tlists s') h = lst (tlists s) h"
  using assms unfolding kframe_def by blast+

lemma kframe_stat:
  assumes "kframe G T s s'" and "u \<notin> T"
  shows "error (threads s' u) = error (threads s u)"
    and "stat (threads s' u) = stat (threads s u) \<or> stat (threads s' u) = RT_THREAD_READY"
    and "stat (threads s' u) = RT_THREAD_SUSPEND \<Longrightarrow> wait_timer s' u = wait_timer s u"
  using assms unfolding kframe_def by blast+

lemma kframe_ready:
  "kframe G T s s' \<Longrightarrow> u \<notin> T \<Longrightarrow> stat (threads s u) = RT_THREAD_READY \<Longrightarrow> stat (threads s' u) = RT_THREAD_READY"
  using kframe_stat(2) [of G T s s' u] by simp

lemma kframe_trans:
  assumes "kframe G T s s1" and "kframe G T s1 s2"
  shows "kframe G T s s2"
proof -
  have "error (threads s2 u) = error (threads s u)
      \<and> (stat (threads s2 u) = stat (threads s u) \<or> stat (threads s2 u) = RT_THREAD_READY)
      \<and> (stat (threads s2 u) = RT_THREAD_SUSPEND \<longrightarrow> wait_timer s2 u = wait_timer s u)" if "u \<notin> T" for u
    using kframe_stat [OF assms(1) that] kframe_stat [OF assms(2) that] by auto
  moreover have "timers_kept s s2" using assms timers_kept_trans [of s s1 s2] by (simp add: kframe_def)
  ultimately show ?thesis using assms unfolding kframe_def by simp
qed

lemma kframe_mono: "kframe G T s s' \<Longrightarrow> G \<subseteq> G' \<Longrightarrow> T \<subseteq> T' \<Longrightarrow> kframe G' T' s s'"
  unfolding kframe_def by blast

lemma kframe_objects [simp]:
  "kframe G T s (s'\<lparr>sems := a\<rparr>) = kframe G T s s'" "kframe G T s (s'\<lparr>mutexes := b\<rparr>) = kframe G T s s'"
  "kframe G T s (s'\<lparr>events := c\<rparr>) = kframe G T s s'" "kframe G T s (s'\<lparr>mailboxes := d\<rparr>) = kframe G T s s'"
  "kframe G T s (s'\<lparr>mqs := e\<rparr>) = kframe G T s s'"
  "kframe G T (s\<lparr>sems := a\<rparr>) s' = kframe G T s s'" "kframe G T (s\<lparr>mutexes := b\<rparr>) s' = kframe G T s s'"
  "kframe G T (s\<lparr>events := c\<rparr>) s' = kframe G T s s'" "kframe G T (s\<lparr>mailboxes := d\<rparr>) s' = kframe G T s s'"
  "kframe G T (s\<lparr>mqs := e\<rparr>) s' = kframe G T s s'"
  by (simp_all add: kframe_def timers_kept_def)

lemma kframe_thread:
  assumes "\<And>th. stat (f th) = stat th" and "t \<in> T \<or> (\<forall>th. error (f th) = error th)"
  shows "kframe G T s (upd_thread t f s)"
  using assms by (auto simp: kframe_def timers_kept_def)

lemma kframe_schedule: "rt_schedule s = Some s' \<Longrightarrow> kframe G T s s'"
  using rt_schedule_same [of s s'] by (simp add: kframe_def timers_kept_def)

text \<open>The steps the calls are made of.\<close>

lemma stop_flags:
  "bit (tmflag (snd (rt_timer_stop r s)) r') 1 = bit (tmflag s r') 1"
  "bit (tmflag (snd (rt_timer_stop r s)) r') 2 = bit (tmflag s r') 2"
  by (simp_all add: timer_stop_objs)

lemma stop_hard:
  "lstore_wf (tmlists s) \<Longrightarrow>
    set (lst (tmlists (snd (rt_timer_stop r s))) HardTimers) \<subseteq> set (lst (tmlists s) HardTimers)"
  by (simp add: timer_stop_tmlists set_remove1_subset)

lemma stop_loc [simp]: "r' \<noteq> r \<Longrightarrow> loc (tmlists (snd (rt_timer_stop r s))) r' = loc (tmlists s) r'"
  by (simp add: timer_stop_tmlists)

lemma kframe_resume:
  assumes inv: "check_inv base s" and t: "t \<in> set (lst (tlists s) h)" and h: "h \<in> G" "wait_head h"
  shows "kframe G T s (snd (rt_thread_resume t s))"
proof -
  have si: "sched_inv s" and wf: "lstore_wf (tlists s)" and wft: "lstore_wf (tmlists s)"
    using inv by (auto simp: check_inv_def SI_def TI_def)
  have st: "stat (threads s t) = RT_THREAD_SUSPEND" using waiter_suspended [OF inv h(2) t] .
  have at: "loc (tlists s) t = Some h" using wf t by (simp add: wf_mem)
  have "lst (tlists (snd (rt_thread_resume t s))) h' = lst (tlists s) h'" if "wait_head h'" "h' \<notin> G" for h'
  proof -
    have "t \<notin> set (lst (tlists s) h')" using at that(2) h(1) wf by (auto simp: wf_mem)
    moreover have "\<And>p. h' \<noteq> ReadyQ p" using that(1) by auto
    ultimately show ?thesis using resume_wait_lists [OF si st] by (simp add: remove1_idem)
  qed
  moreover have "objs (snd (rt_thread_resume t s)) = objs (snd (rt_timer_stop (ThreadTimer t) s))"
    "tmlists (snd (rt_thread_resume t s)) = tmlists (snd (rt_timer_stop (ThreadTimer t) s))"
    using st by (simp_all add: rt_thread_resume_def Let_def timer_stop_objs timer_stop_tmlists)
  ultimately show ?thesis
    using stop_flags [of "ThreadTimer t" s] stop_hard [OF wft, of "ThreadTimer t"] thread_resume_suspended(2) [OF st]
    by (auto simp: kframe_def timers_kept_def timer_stop_objs)
qed

lemma kframe_ipc_suspend:
  assumes inv: "check_inv base s" and st: "stat (threads s t) = RT_THREAD_READY"
    and fl: "flg = 0 \<or> flg = 1" and h: "wait_head h" "h \<in> G" and t: "t \<in> T"
  shows "kframe G T s (rt_ipc_list_suspend h t flg s)"
proof -
  have wft: "lstore_wf (tmlists s)" using inv by (auto simp: check_inv_def TI_def)
  have si: "sched_inv s" using inv by (simp add: check_inv_def)
  obtain M where M: "rt_ipc_list_suspend h t flg s = (snd (rt_thread_suspend t s))\<lparr>tlists := M\<rparr>"
    by (rule ipc_suspend_shape [OF si st fl h(1)])
  note inv4 = ipc_suspend_inv(4) [OF inv st fl h(1)]
  have "lst (tlists (rt_ipc_list_suspend h t flg s)) h' = lst (tlists s) h'" if "wait_head h'" "h' \<notin> G" for h'
    using inv4 [of h'] that h(2) by blast
  moreover have "objs (snd (rt_thread_suspend t s)) = objs (snd (rt_timer_stop (ThreadTimer t) s))"
    "tmlists (snd (rt_thread_suspend t s)) = tmlists (snd (rt_timer_stop (ThreadTimer t) s))"
    using st by (simp_all add: rt_thread_suspend_def Let_def timer_stop_objs timer_stop_tmlists)
  ultimately show ?thesis
    using stop_flags [of "ThreadTimer t" s] stop_hard [OF wft, of "ThreadTimer t"] t
      ipc_suspend_inv(2) [OF inv st fl h(1)]
    unfolding kframe_def timers_kept_def by (auto simp: M timer_stop_objs)
qed

lemma kframe_change_priority: "sched_inv s \<Longrightarrow> kframe G T s (change_priority t p s)"
  by (auto simp: kframe_def timers_kept_def change_priority_wait change_priority_thread)

lemma set_insert_at: "set (takeWhile P xs @ r # dropWhile P xs) = insert r (set xs)"
  using set_append [of "takeWhile P xs" "dropWhile P xs"] by (simp add: Un_commute)

lemma start_timer_frame:
  assumes inv: "check_inv base s"
    and st: "stat (threads s t) = RT_THREAD_READY \<or> stat (threads s t) = RT_THREAD_SUSPEND"
    and s': "start_wait_timer t time s = Some s'" and t: "t \<in> T"
  shows "kframe G T s s'" and "tlists s' = tlists s" and "ready_group s' = ready_group s"
    and "threads s' = threads s" and "cur_thread s' = cur_thread s"
proof -
  let ?r = "ThreadTimer t" and ?s1 = "upd_timer (ThreadTimer t) (\<lambda>x. x\<lparr>tm_init_tick := time\<rparr>) s"
  have wf: "lstore_wf (tmlists ?s1)" and fl: "\<not> bit (tmflag s ?r) 1" "\<not> bit (tmflag s ?r) 2"
    using inv st by (auto simp: check_inv_def TI_def TH_def)
  have "kframe G T s s' \<and> tlists s' = tlists s \<and> ready_group s' = ready_group s \<and> threads s' = threads s
    \<and> cur_thread s' = cur_thread s"
  proof (cases "0 < sint time")
    case False
    with s' show ?thesis by (simp add: start_wait_timer_def)
  next
    case True
    with s' fl(2) have eq: "s' = timer_linked ?r ?s1"
      by (auto simp: start_wait_timer_def timer_start_eq Let_def split: if_splits)
    have "set (lst (tmlists (timer_linked ?r ?s1)) HardTimers) \<subseteq> set (lst (tmlists s) HardTimers) \<union> range ThreadTimer"
      using set_remove1_subset [of ?r "lst (tmlists s) HardTimers"]
      by (auto simp only: timer_linked_lists [OF wf] set_insert_at split: if_splits) auto
    moreover have "\<forall>u. u \<noteq> t \<longrightarrow> wait_timer (timer_linked ?r ?s1) u = wait_timer s u"
      using timer_linked_lists [OF wf] by (simp add: timer_linked_timers)
    ultimately show ?thesis using fl t by (auto simp: eq kframe_def timers_kept_def timer_linked_timers)
  qed
  then show "kframe G T s s'" and "tlists s' = tlists s" and "ready_group s' = ready_group s"
    and "threads s' = threads s" and "cur_thread s' = cur_thread s" by blast+
qed

section \<open>The end of a call\<close>

definition scheduled_from :: "kstate \<Rightarrow> kstate \<Rightarrow> bool" where
  "scheduled_from s s' \<longleftrightarrow> (\<exists>s1. sched_inv s1 \<and> lock_nest s1 = lock_nest s \<and> rt_schedule s1 = Some s')"

definition settled :: "kstate \<Rightarrow> kstate \<Rightarrow> bool" where
  "settled s s' \<longleftrightarrow> scheduled_from s s'
     \<or> cur_thread s' = cur_thread s \<and> tlists s' = tlists s \<and> ready_group s' = ready_group s
       \<and> (\<forall>u. stat (threads s' u) = stat (threads s u))"

lemma settled_same:
  "cur_thread s' = cur_thread s \<Longrightarrow> tlists s' = tlists s \<Longrightarrow> ready_group s' = ready_group s \<Longrightarrow>
    (\<And>u. stat (threads s' u) = stat (threads s u)) \<Longrightarrow> settled s s'"
  by (simp add: settled_def)

text \<open>With the scheduler unlocked the running thread is then the one the scheduler chooses, and ready.\<close>

definition scheduled :: "kstate \<Rightarrow> bool" where
  "scheduled s \<longleftrightarrow> cur_thread s = next_thread s"

definition cur_ready :: "kstate \<Rightarrow> bool" where
  "cur_ready s \<longleftrightarrow> (\<exists>t. cur_thread s = Some t \<and> stat (threads s t) = RT_THREAD_READY)"

lemma next_thread_cong:
  "tlists s' = tlists s \<Longrightarrow> ready_group s' = ready_group s \<Longrightarrow> next_thread s' = next_thread s"
  by (simp add: next_thread_def highest_ready_priority_def)

lemma scheduled_from_cur:
  assumes "scheduled_from s s'" and "lock_nest s = 0"
  shows "scheduled s'" and "cur_ready s'"
proof -
  obtain s1 where s1: "sched_inv s1" "lock_nest s1 = 0" "rt_schedule s1 = Some s'"
    using assms by (auto simp: scheduled_from_def)
  note same = rt_schedule_same [OF s1(3)] and cur = rt_schedule_cur [OF s1(3,2)]
  show "scheduled s'" using cur same next_thread_cong [of s' s1] by (simp add: scheduled_def)
  obtain t where t: "next_thread s1 = Some t"
    using s1(2,3) by (auto simp: rt_schedule_def split: bind_splits)
  then show "cur_ready s'" using cur same next_thread_highest(1) [OF s1(1) t] by (simp add: cur_ready_def)
qed

lemma settled_scheduled: "settled s s' \<Longrightarrow> lock_nest s = 0 \<Longrightarrow> scheduled s \<Longrightarrow> scheduled s'"
  using scheduled_from_cur(1) next_thread_cong [of s' s] by (auto simp: settled_def scheduled_def)

lemma settled_ready: "settled s s' \<Longrightarrow> lock_nest s = 0 \<Longrightarrow> cur_ready s \<Longrightarrow> cur_ready s'"
  using scheduled_from_cur(2) by (auto simp: settled_def cur_ready_def)

text \<open>The two ways a call reaches the scheduler: waiting, and waking the first waiting thread.\<close>

lemma ipc_wait_frame:
  assumes inv: "check_inv base s" and st: "stat (threads s t) = RT_THREAD_READY"
    and fl: "flg = 0 \<or> flg = 1" and h: "wait_head h" and s': "ipc_wait h t flg time s = Some s'"
  shows "kframe {h} {t} s s'" and "scheduled_from s s'"
proof -
  let ?s1 = "rt_ipc_list_suspend h t flg s"
  note sus = ipc_suspend_inv [OF inv st fl h]
  obtain s2 where s2: "start_wait_timer t time ?s1 = Some s2" "rt_schedule s2 = Some s'"
    using s' by (auto simp: ipc_wait_def split: bind_splits)
  have f1: "kframe {h} {t} s ?s1" using inv st fl h by (rule kframe_ipc_suspend) simp_all
  note tm = start_timer_frame [OF sus(1) _ s2(1), of "{t}"]
  have st1: "stat (threads ?s1 t) = RT_THREAD_READY \<or> stat (threads ?s1 t) = RT_THREAD_SUSPEND"
    using sus(2) by simp
  show "kframe {h} {t} s s'"
    using f1 kframe_trans [OF tm(1) [OF st1 singletonI] kframe_schedule [OF s2(2)]] by (rule kframe_trans)
  have "sched_inv s2" using tm(2-4) [OF st1] sus(1) by (simp add: check_inv_def)
  moreover have "lock_nest s2 = lock_nest s"
    using f1 tm(1) [OF st1, of "{h}"] by (simp add: kframe_def)
  ultimately show "scheduled_from s s'" using s2(2) unfolding scheduled_from_def by blast
qed

lemma ipc_wait_objects:
  assumes "ipc_wait h t flg time s = Some s'"
  shows "sems s' = sems s" "mutexes s' = mutexes s" "events s' = events s" "mailboxes s' = mailboxes s"
    "mqs s' = mqs s" "mempools s' = mempools s"
  using assms
  by (auto simp: ipc_wait_def start_wait_timer_def timer_start_eq rt_schedule_same rt_ipc_list_suspend_def
      Let_def split: bind_splits if_splits option.splits)

lemma wake_frame:
  fixes T
  assumes inv: "check_inv base s" and t: "lst (tlists s) h = t # ts" and h: "wait_head h"
    and s': "rt_schedule (snd (rt_thread_resume t s)) = Some s'"
  shows "kframe {h} T s s'" and "scheduled_from s s'"
proof -
  have "kframe {h} T s (snd (rt_thread_resume t s))" using inv t h by (intro kframe_resume [OF inv]) auto
  then show "kframe {h} T s s'" using kframe_schedule [OF s'] by (rule kframe_trans)
  have "sched_inv (snd (rt_thread_resume t s))" using inv by (intro thread_resume_inv) (simp add: check_inv_def)
  then show "scheduled_from s s'" using s' unfolding scheduled_from_def by (intro exI conjI) auto
qed

section \<open>Calls of a running thread\<close>

fun ipc_object :: "oref \<Rightarrow> bool" where
  "ipc_object (OSem m) = True" | "ipc_object (OMutex m) = True" | "ipc_object (OEvent m) = True"
| "ipc_object (OMb m) = True" | "ipc_object (OMq m) = True" | "ipc_object _ = False"

definition flags_ok :: "kstate \<Rightarrow> bool" where
  "flags_ok s \<longleftrightarrow> (\<forall>ob. ipc_object ob \<longrightarrow> o_flag (objs s ob) = 0 \<or> o_flag (objs s ob) = 1)"

text \<open>
  \<open>running s t\<close>: the thread \<open>t\<close> runs outside of interrupts and critical sections, and the idle thread is
  ready. \<open>may_wait\<close>: the time is below half the range of ticks, and the idle thread does not wait.
\<close>

definition running :: "kstate \<Rightarrow> tid \<Rightarrow> bool" where
  "running s t \<longleftrightarrow> check_inv (ktick s) s \<and> cur_thread s = Some t \<and> stat (threads s t) = RT_THREAD_READY
     \<and> irq_nest s = 0 \<and> lock_nest s = 0 \<and> stat (threads s idle) = RT_THREAD_READY \<and> flags_ok s"

definition may_wait :: "kstate \<Rightarrow> tid \<Rightarrow> rt_int32 \<Rightarrow> bool" where
  "may_wait s t time \<longleftrightarrow> time_ok (ktick s) s time \<and> (time \<noteq> 0 \<longrightarrow> t \<noteq> idle)"

definition kcall :: "lhead set \<Rightarrow> tid \<Rightarrow> kstate \<Rightarrow> kstate \<Rightarrow> bool" where
  "kcall G t s s' \<longleftrightarrow> check_inv (ktick s) s' \<and> kframe G {t} s s' \<and> settled s s'"

abbreviation same_objects :: "kstate \<Rightarrow> kstate \<Rightarrow> bool" where
  "same_objects s s' \<equiv> sems s' = sems s \<and> mutexes s' = mutexes s \<and> events s' = events s
     \<and> mailboxes s' = mailboxes s \<and> mqs s' = mqs s"

text \<open>\<open>prepared\<close>: before it waits or wakes, a call has changed only objects and its own fields.\<close>

definition prepared :: "kstate \<Rightarrow> tid \<Rightarrow> kstate \<Rightarrow> bool" where
  "prepared s t s1 \<longleftrightarrow> check_inv (ktick s) s1 \<and> kframe {} {t} s s1 \<and> tlists s1 = tlists s
     \<and> ready_group s1 = ready_group s \<and> cur_thread s1 = cur_thread s
     \<and> (\<forall>u. stat (threads s1 u) = stat (threads s u)) \<and> (\<forall>u. u \<noteq> t \<longrightarrow> threads s1 u = threads s u)"

lemma prepared_refl: "running s t \<Longrightarrow> prepared s t s"
  by (simp add: running_def prepared_def)

lemma prepared_upd:
  assumes "prepared s t s1" and "\<And>th. stat (f th) = stat th" and "check_inv (ktick s) (upd_thread t f s1)"
  shows "prepared s t (upd_thread t f s1)"
  using assms kframe_trans [OF _ kframe_thread [of f t "{t}" "{}" s1], of s] by (simp add: prepared_def)

lemma prepared_error: "prepared s t s1 \<Longrightarrow> prepared s t (upd_thread t (\<lambda>th. th\<lparr>error := e\<rparr>) s1)"
  by (rule prepared_upd) (simp_all add: check_inv_error prepared_def)

lemma prepared_event:
  "prepared s t s1 \<Longrightarrow> prepared s t (upd_thread t (\<lambda>th. th\<lparr>event_set := es, event_info := i\<rparr>) s1)"
  by (rule prepared_upd) (simp_all add: check_inv_event_fields prepared_def)

lemma prepared_objects [simp]:
  "prepared s t (s1\<lparr>sems := a\<rparr>) = prepared s t s1" "prepared s t (s1\<lparr>mutexes := b\<rparr>) = prepared s t s1"
  "prepared s t (s1\<lparr>events := c\<rparr>) = prepared s t s1" "prepared s t (s1\<lparr>mailboxes := d\<rparr>) = prepared s t s1"
  "prepared s t (s1\<lparr>mqs := e\<rparr>) = prepared s t s1"
  by (simp_all add: prepared_def)

lemma prepared_call: "prepared s t s1 \<Longrightarrow> kcall G t s s1"
  unfolding prepared_def kcall_def settled_def by (auto elim: kframe_mono)

lemma kcall_mono: "kcall G t s s' \<Longrightarrow> G \<subseteq> G' \<Longrightarrow> kcall G' t s s'"
  by (auto simp: kcall_def elim: kframe_mono)

lemma prepared_ktick: "prepared s t s1 \<Longrightarrow> ktick s1 = ktick s"
  by (simp add: prepared_def kframe_def)

lemma running_waits:
  assumes run: "running s t" and inv: "check_inv (ktick s) s1" and fr: "kframe {} {t} s s1"
    and st: "stat (threads s1 t) = RT_THREAD_READY" and ob: "ipc_object ob"
    and h: "h = SuspendQ ob \<or> h = SenderQ ob" and w: "may_wait s t time" "time \<noteq> 0"
  obtains s' where "ipc_wait h t (o_flag (objs s1 ob)) time s1 = Some s'" and "kcall {h} t s s'"
    and "scheduled_from s s'" and "same_objects s1 s'" and "loc (tlists s') t = Some h"
    and "threads s' = (threads s1)(t := (threads s1 t)\<lparr>stat := RT_THREAD_SUSPEND\<rparr>)"
    and "\<And>u. u \<noteq> t \<Longrightarrow> loc (tlists s') u = loc (tlists s1) u"
proof -
  let ?fl = "o_flag (objs s1 ob)"
  have ni: "idle \<noteq> t" using w by (auto simp: may_wait_def)
  then have "stat (threads s1 idle) = RT_THREAD_READY" using fr run by (auto simp: kframe_def running_def)
  moreover have "objs s1 ob = objs s ob" using fr ob by (cases ob) (simp_all add: kframe_def)
  then have fl: "?fl = 0 \<or> ?fl = 1" using run ob by (simp add: running_def flags_ok_def)
  have hd: "wait_head h" using h by blast
  have kt: "ktick s1 = ktick s" using fr by (simp add: kframe_def)
  then have "time_ok (ktick s) s1 time" using w(1) by (simp add: may_wait_def time_ok_def)
  from ipc_wait_returns [OF inv st fl hd this ni] calculation obtain s' where
    s': "ipc_wait h t ?fl time s1 = Some s'" "check_inv (ktick s) s'"
      "threads s' = (threads s1)(t := (threads s1 t)\<lparr>stat := RT_THREAD_SUSPEND\<rparr>)"
      "tlists s' = tlists (rt_ipc_list_suspend h t ?fl s1)" "same_objects s1 s'"
    by auto
  note wt = ipc_wait_frame [OF inv st fl hd s'(1)]
  have "kframe {h} {t} s s1" using fr by (rule kframe_mono) simp_all
  then have f: "kframe {h} {t} s s'" using wt(1) by (rule kframe_trans)
  have from_s: "scheduled_from s s'" using wt(2) fr by (simp add: scheduled_from_def kframe_def)
  then have "kcall {h} t s s'" using f s'(2) by (simp add: kcall_def settled_def)
  moreover have "loc (tlists s') t = Some h" unfolding s'(4) by (rule ipc_suspend_inv(3) [OF inv st fl hd])
  moreover have "loc (tlists s') u = loc (tlists s1) u" if "u \<noteq> t" for u
  proof -
    have si: "sched_inv s1" using inv by (simp add: check_inv_def)
    show ?thesis unfolding s'(4) by (rule ipc_suspend_shape [OF si st fl hd]) (use that in simp)
  qed
  ultimately show ?thesis using s' from_s that by blast
qed

lemma prepared_waits:
  assumes run: "running s t" and pre: "prepared s t s1" and ob: "ipc_object ob"
    and h: "h = SuspendQ ob \<or> h = SenderQ ob" and w: "may_wait s t time" "time \<noteq> 0"
  obtains s' where "ipc_wait h t (o_flag (objs s1 ob)) time s1 = Some s'" and "kcall {h} t s s'"
    and "scheduled_from s s'" and "same_objects s1 s'" and "loc (tlists s') t = Some h"
    and "threads s' = (threads s1)(t := (threads s1 t)\<lparr>stat := RT_THREAD_SUSPEND\<rparr>)"
    and "\<And>u. u \<noteq> t \<Longrightarrow> loc (tlists s') u = loc (tlists s) u"
proof -
  have "check_inv (ktick s) s1" "kframe {} {t} s s1" "stat (threads s1 t) = RT_THREAD_READY"
    "tlists s1 = tlists s" using pre run by (simp_all add: prepared_def running_def)
  then show ?thesis using running_waits [OF run _ _ _ ob h w, of s1] that by auto
qed

lemma prepared_wakes:
  assumes pre: "prepared s t s1" and w: "lst (tlists s) h = u # us" and h: "wait_head h"
  obtains s2 s' where "rt_ipc_list_resume h s1 = Some s2" and "rt_schedule s2 = Some s'"
    and "kcall {h} t s s'" and "scheduled_from s s'" and "same_objects s1 s'"
    and "lst (tlists s') h = us"
    and "threads s' = (threads s1)(u := (threads s1 u)\<lparr>stat := RT_THREAD_READY\<rparr>)"
proof -
  have inv: "check_inv (ktick s) s1" and w1: "lst (tlists s1) h = u # us"
    using pre w by (simp_all add: prepared_def)
  obtain s' where s': "rt_ipc_list_resume h s1 = Some (snd (rt_thread_resume u s1))"
    "rt_schedule (snd (rt_thread_resume u s1)) = Some s'" "check_inv (ktick s) s'" "lst (tlists s') h = us"
    "threads s' = (threads s1)(u := (threads s1 u)\<lparr>stat := RT_THREAD_READY\<rparr>)" "same_objects s1 s'"
    by (rule ipc_resume_first [OF inv h w1]) blast
  note fr = wake_frame(1) [OF inv w1 h s'(2), of "{t}"] wake_frame(2) [OF inv w1 h s'(2)]
  have "kframe {h} {t} s s1" using pre by (auto simp: prepared_def elim: kframe_mono)
  then have f: "kframe {h} {t} s s'" using fr(1) by (rule kframe_trans)
  have from_s: "scheduled_from s s'" using fr(2) pre by (simp add: scheduled_from_def prepared_def kframe_def)
  then have "kcall {h} t s s'" using f s'(3) by (simp add: kcall_def settled_def)
  with s' from_s that show ?thesis by blast
qed

section \<open>The calls\<close>

text \<open>Every call of a running thread returns and leaves all but its own wait lists alone.\<close>

lemma wait_list_cases:
  fixes L :: "(lhead, tid) lstore"
  obtains (none) "lst L h = []" | (first) u us where "lst L h = u # us"
  by (cases "lst L h") auto

lemma sem_take_call:
  assumes run: "running s t" and w: "may_wait s t time"
  shows "\<exists>r s'. rt_sem_take m time s = Some (r, s') \<and> kcall {SuspendQ (OSem m)} t s s'
    \<and> mutexes s' = mutexes s \<and> mailboxes s' = mailboxes s \<and> mqs s' = mqs s"
proof (cases "0 < sem_value (sems s m) \<or> time = 0")
  case True
  then show ?thesis
    using prepared_call [OF prepared_refl [OF run]] prepared_call [of s t "upd_sem m f s" for f]
      prepared_refl [OF run] by (auto simp: rt_sem_take_def)
next
  case False
  note pre = prepared_error [OF prepared_refl [OF run], of RT_EOK]
  obtain s' where "ipc_wait (SuspendQ (OSem m)) t (o_flag (objs (upd_thread t (\<lambda>th. th\<lparr>error := RT_EOK\<rparr>) s) (OSem m)))
      time (upd_thread t (\<lambda>th. th\<lparr>error := RT_EOK\<rparr>) s) = Some s'" "kcall {SuspendQ (OSem m)} t s s'"
    "same_objects (upd_thread t (\<lambda>th. th\<lparr>error := RT_EOK\<rparr>) s) s'"
    by (rule prepared_waits [OF run pre, of "OSem m" "SuspendQ (OSem m)" time]) (use w False in auto)
  then show ?thesis using False run by (auto simp: rt_sem_take_def running_def)
qed

lemma sem_release_call:
  assumes run: "running s t"
  shows "\<exists>r s'. rt_sem_release m s = Some (r, s') \<and> kcall {SuspendQ (OSem m)} t s s'
    \<and> mutexes s' = mutexes s \<and> mailboxes s' = mailboxes s \<and> mqs s' = mqs s"
proof (cases rule: wait_list_cases [of "tlists s" "SuspendQ (OSem m)"])
  case none
  then show ?thesis
    using prepared_call [of s t "upd_sem m f s" for f] prepared_refl [OF run]
    by (auto simp: rt_sem_release_def ls_isempty_def)
next
  case (first u us)
  show ?thesis
    by (rule prepared_wakes [OF prepared_refl [OF run] first]) (use first in \<open>auto simp: rt_sem_release_def ls_isempty_def\<close>)
qed

lemma mb_send_loop_call:
  assumes run: "running s t" and w: "may_wait s t time" and wf: "mb_wf (mailboxes s m)"
  shows "\<exists>r s'. mb_send_loop (Some t) m v time s = Some (r, s')
    \<and> kcall {SuspendQ (OMb m), SenderQ (OMb m)} t s s' \<and> mutexes s' = mutexes s \<and> mqs s' = mqs s
    \<and> mb_wf (mailboxes s' m) \<and> (\<forall>m'. m' \<noteq> m \<longrightarrow> mailboxes s' m' = mailboxes s m')"
proof (cases "mb_entry (mailboxes s m) = mb_size (mailboxes s m)")
  case True
  let ?s1 = "upd_thread t (\<lambda>th. th\<lparr>error := RT_EOK\<rparr>) s"
  have pre: "prepared s t ?s1" using prepared_refl [OF run] by (rule prepared_error)
  show ?thesis
  proof (cases "time = 0")
    case t0: True
    with True wf prepared_call [OF pre] show ?thesis by (auto simp: mb_send_loop_def)
  next
    case False
    obtain s' where s': "ipc_wait (SenderQ (OMb m)) t (o_flag (objs ?s1 (OMb m))) time ?s1 = Some s'"
      "kcall {SenderQ (OMb m)} t s s'" "same_objects ?s1 s'"
      by (rule prepared_waits [OF run pre, of "OMb m" "SenderQ (OMb m)" time]) (use w False in auto)
    with True False run wf kcall_mono [OF s'(2)] show ?thesis by (auto simp: mb_send_loop_def running_def)
  qed
next
  case False
  let ?s1 = "upd_mb m (mb_store v) s"
  have pre: "prepared s t ?s1" using prepared_refl [OF run] by simp
  note r = mb_in_range [OF wf False]
  have ok: "mb_wf (mb_store v (mailboxes s m))" using mb_store_ok(2) [OF wf] r by blast
  show ?thesis
  proof (cases rule: wait_list_cases [of "tlists s" "SuspendQ (OMb m)"])
    case none
    with False r ok prepared_call [OF pre] show ?thesis by (auto simp: mb_send_loop_def ls_isempty_def)
  next
    case (first u us)
    obtain s2 s' where s': "rt_ipc_list_resume (SuspendQ (OMb m)) ?s1 = Some s2" "rt_schedule s2 = Some s'"
      "kcall {SuspendQ (OMb m)} t s s'" "same_objects ?s1 s'"
      by (rule prepared_wakes [OF pre first]) auto
    with first False r ok kcall_mono [OF s'(3)] show ?thesis by (auto simp: mb_send_loop_def ls_isempty_def)
  qed
qed

lemma mb_recv_loop_call:
  assumes run: "running s t" and w: "may_wait s t time" and wf: "mb_wf (mailboxes s m)"
  shows "\<exists>r s'. mb_recv_loop (Some t) m time s = Some (r, s')
    \<and> kcall {SuspendQ (OMb m), SenderQ (OMb m)} t s s' \<and> mutexes s' = mutexes s \<and> mqs s' = mqs s
    \<and> mb_wf (mailboxes s' m) \<and> (\<forall>m'. m' \<noteq> m \<longrightarrow> mailboxes s' m' = mailboxes s m')"
proof (cases "mb_entry (mailboxes s m) = 0")
  case True
  let ?s1 = "upd_thread t (\<lambda>th. th\<lparr>error := RT_EOK\<rparr>) s"
  have pre: "prepared s t ?s1" using prepared_refl [OF run] by (rule prepared_error)
  show ?thesis
  proof (cases "time = 0")
    case t0: True
    with True wf prepared_call [OF prepared_error [OF pre, of "- RT_ETIMEOUT"]] show ?thesis
      by (auto simp: mb_recv_loop_def)
  next
    case False
    obtain s' where s': "ipc_wait (SuspendQ (OMb m)) t (o_flag (objs ?s1 (OMb m))) time ?s1 = Some s'"
      "kcall {SuspendQ (OMb m)} t s s'" "same_objects ?s1 s'"
      by (rule prepared_waits [OF run pre, of "OMb m" "SuspendQ (OMb m)" time]) (use w False in auto)
    with True False run wf kcall_mono [OF s'(2)] show ?thesis by (auto simp: mb_recv_loop_def running_def)
  qed
next
  case False
  let ?s1 = "upd_mb m (\<lambda>mb. snd (mb_fetch mb)) s"
  have pre: "prepared s t ?s1" using prepared_refl [OF run] by simp
  note r = mb_out_range [OF wf False]
  have "mb_queue (mailboxes s m) \<noteq> []" using False by (metis mb_queue_length list.size(3) unat_eq_0)
  then have ok: "mb_wf (snd (mb_fetch (mailboxes s m)))" using mb_fetch_ok(2) [OF wf] by blast
  show ?thesis
  proof (cases rule: wait_list_cases [of "tlists s" "SenderQ (OMb m)"])
    case none
    with False r ok prepared_call [OF pre] show ?thesis
      by (auto simp: mb_recv_loop_def ls_isempty_def Let_def case_prod_beta)
  next
    case (first u us)
    obtain s2 s' where s': "rt_ipc_list_resume (SenderQ (OMb m)) ?s1 = Some s2" "rt_schedule s2 = Some s'"
      "kcall {SenderQ (OMb m)} t s s'" "same_objects ?s1 s'"
      by (rule prepared_wakes [OF pre first]) auto
    with first False r ok kcall_mono [OF s'(3)] show ?thesis
      by (auto simp: mb_recv_loop_def ls_isempty_def Let_def case_prod_beta)
  qed
qed

lemma mq_wake_call:
  assumes pre: "prepared s t s1"
  shows "\<exists>s'. mq_wake_receiver m s1 = Some (0, s') \<and> kcall {SuspendQ (OMq m)} t s s' \<and> same_objects s1 s'"
proof (cases rule: wait_list_cases [of "tlists s" "SuspendQ (OMq m)"])
  case none
  then show ?thesis using prepared_call [OF pre] pre by (simp add: mq_wake_receiver_def ls_isempty_def prepared_def)
next
  case (first u us)
  then have "lst (tlists s1) (SuspendQ (OMq m)) = u # us" using pre by (simp add: prepared_def)
  with first show ?thesis
    by - (rule prepared_wakes [OF pre first], auto simp: mq_wake_receiver_def ls_isempty_def)
qed

lemma mq_alloc_cases:
  assumes "mq_wf mq"
  obtains (full) "mq_alloc_slot mq = None"
  | (slot) qs i fs where "mq_rep mq qs (i # fs)" and "mq_alloc_slot mq = Some (i, mq\<lparr>mq_free := mq_next mq i\<rparr>)"
proof -
  obtain qs fs where rep: "mq_rep mq qs fs" using assms by (auto simp: mq_wf_def)
  show ?thesis
  proof (cases fs)
    case Nil
    with rep full show ?thesis by (simp add: mq_rep_def mq_alloc_slot_def)
  next
    case (Cons i fs')
    with rep slot show ?thesis by (auto simp: mq_rep_def mq_alloc_slot_def)
  qed
qed

lemma mq_send_call:
  assumes run: "running s t" and wf: "mq_wf (mqs s m)" and ne: "buffer \<noteq> []"
    and f: "f = rt_mq_send \<or> f = rt_mq_urgent"
  shows "\<exists>r s'. f m buffer s = Some (r, s') \<and> kcall {SuspendQ (OMq m)} t s s'
    \<and> mutexes s' = mutexes s \<and> mailboxes s' = mailboxes s
    \<and> mq_wf (mqs s' m) \<and> (\<forall>m'. m' \<noteq> m \<longrightarrow> mqs s' m' = mqs s m')"
proof (cases "length buffer > unat (mq_msg_size (mqs s m))")
  case True
  then show ?thesis
    using f ne wf prepared_call [OF prepared_refl [OF run]] by (auto simp: rt_mq_send_def rt_mq_urgent_def)
next
  case False
  show ?thesis
  proof (cases rule: mq_alloc_cases [OF wf])
    case 1
    then show ?thesis
      using f ne False wf prepared_call [OF prepared_refl [OF run]] by (auto simp: rt_mq_send_def rt_mq_urgent_def)
  next
    case (2 qs i fs)
    define q where "q = (if f = rt_mq_send then mq_put buffer (mqs s m) else mq_put_front buffer (mqs s m))"
    let ?s1 = "s\<lparr>mqs := (mqs s)(m := q)\<rparr>"
    have pre: "prepared s t ?s1" using prepared_refl [OF run] by simp
    have "length buffer \<le> unat (mq_msg_size (mqs s m))" using False by simp
    note put = mq_put_rep(1) [OF 2(1) this] mq_put_front_rep(1) [OF 2(1) this]
    have "mq_wf q" using put [THEN mq_wfI] by (simp add: q_def)
    moreover have "f m buffer s = mq_wake_receiver m ?s1"
      using f ne False 2(2)
      by (auto simp: rt_mq_send_def rt_mq_urgent_def q_def mq_put_def mq_put_front_def Let_def)
    ultimately show ?thesis using mq_wake_call [OF pre, of m] by auto
  qed
qed

lemma mq_recv_loop_call:
  assumes run: "running s t" and w: "may_wait s t time" and wf: "mq_wf (mqs s m)"
  shows "\<exists>r s'. mq_recv_loop (Some t) m sz time s = Some (r, s') \<and> kcall {SuspendQ (OMq m)} t s s'
    \<and> mutexes s' = mutexes s \<and> mailboxes s' = mailboxes s
    \<and> mq_wf (mqs s' m) \<and> (\<forall>m'. m' \<noteq> m \<longrightarrow> mqs s' m' = mqs s m')"
proof (cases "mq_entry (mqs s m) = 0")
  case True
  let ?s1 = "upd_thread t (\<lambda>th. th\<lparr>error := RT_EOK\<rparr>) s"
  have pre: "prepared s t ?s1" using prepared_refl [OF run] by (rule prepared_error)
  show ?thesis
  proof (cases "time = 0")
    case t0: True
    with True wf run prepared_call [OF prepared_error [OF pre, of "- RT_ETIMEOUT"]] show ?thesis
      by (auto simp: mq_recv_loop_def running_def)
  next
    case False
    obtain s' where s': "ipc_wait (SuspendQ (OMq m)) t (o_flag (objs ?s1 (OMq m))) time ?s1 = Some s'"
      "kcall {SuspendQ (OMq m)} t s s'" "same_objects ?s1 s'"
      by (rule prepared_waits [OF run pre, of "OMq m" "SuspendQ (OMq m)" time]) (use w False in auto)
    with True False run wf show ?thesis by (auto simp: mq_recv_loop_def running_def)
  qed
next
  case False
  obtain qs fs where rep: "mq_rep (mqs s m) qs fs" using wf by (auto simp: mq_wf_def)
  with False obtain i qs' where qs: "qs = i # qs'" by (cases qs) (auto simp: mq_rep_def unat_eq_0)
  let ?s1 = "s\<lparr>mqs := (mqs s)(m := snd (mq_get (mqs s m)))\<rparr>"
  have pre: "prepared s t ?s1" using prepared_refl [OF run] by simp
  have "mq_wf (snd (mq_get (mqs s m)))" using mq_get_rep(1) [OF rep [unfolded qs]] unfolding mq_wf_def by blast
  moreover have "mq_head (mqs s m) = Some i" using rep qs by (simp add: mq_rep_def)
  then have "\<exists>r. mq_recv_loop (Some t) m sz time s = Some (r, ?s1)"
    using False by (auto simp: mq_recv_loop_def mq_unlink_head_def mq_get_def Let_def)
  ultimately show ?thesis using prepared_call [OF pre] by auto
qed

lemma ready_schedules:
  assumes "check_inv base s" and "stat (threads s u) = RT_THREAD_READY"
  obtains s' where "rt_schedule s = Some s'" and "check_inv base s'"
  using rt_schedule_cases [of s u] check_inv_schedule [OF assms(1)] assms by (metis check_inv_def)

lemma event_loop_frame:
  assumes "check_inv base s" and "distinct ts" and "set ts \<subseteq> set (lst (tlists s) (SuspendQ (OEvent e)))"
    and "event_send_loop e ts need s = (n, s')"
  shows "check_inv base s' \<and> kframe {SuspendQ (OEvent e)} T s s' \<and> (n \<or> s' = s)
    \<and> mutexes s' = mutexes s \<and> mailboxes s' = mailboxes s \<and> mqs s' = mqs s"
  using assms
proof (induction ts arbitrary: s need)
  case Nil
  then show ?case by simp
next
  case (Cons t ts)
  let ?q = "lst (tlists s) (SuspendQ (OEvent e))" and ?info = "event_info (threads s t)"
  show ?case
  proof (cases "event_grant (ev_set (events s e)) (event_set (threads s t)) ?info")
    case None
    with Cons.prems have "event_send_loop e ts need s = (n, s')" unfolding event_loop_step by simp
    with Cons show ?thesis by simp
  next
    case (Some got)
    let ?E = "if bit ?info 2 then (events s)(e := (events s e)\<lparr>ev_set := ev_set (events s e) AND NOT got\<rparr>)
      else events s"
    let ?s0 = "s\<lparr>threads := (threads s)(t := (threads s t)\<lparr>event_set := got\<rparr>), events := ?E\<rparr>"
    let ?s1 = "snd (rt_thread_resume t ?s0)"
    have tq: "t \<in> set ?q" using Cons.prems(3) by simp
    note s1 = event_grant_step [OF Cons.prems(1) tq, where got = got and E = ?E]
    have d: "distinct ?q" using Cons.prems(1) by (intro wf_distinct) (auto simp: check_inv_def SI_def)
    have "kframe {SuspendQ (OEvent e)} T s (upd_thread t (\<lambda>th. th\<lparr>event_set := got\<rparr>) s)"
      by (rule kframe_thread) simp_all
    then have f0: "kframe {SuspendQ (OEvent e)} T s ?s0" by simp
    have "check_inv base ?s0" using check_inv_event_fields(2) [OF Cons.prems(1), of t got] by simp
    then have "kframe {SuspendQ (OEvent e)} T ?s0 ?s1" by (rule kframe_resume) (use tq in auto)
    with f0 have f1: "kframe {SuspendQ (OEvent e)} T s ?s1" by (rule kframe_trans)
    have loop: "event_send_loop e ts True ?s1 = (n, s')" using Cons.prems(4) Some unfolding event_loop_step by simp
    have "set ts \<subseteq> set (lst (tlists ?s1) (SuspendQ (OEvent e)))"
      using Cons.prems(2,3) d by (auto simp: s1(3))
    with Cons.IH [OF s1(1) _ _ loop] Cons.prems(2) have
      "check_inv base s' \<and> kframe {SuspendQ (OEvent e)} T ?s1 s' \<and> (n \<or> s' = ?s1)
        \<and> mutexes s' = mutexes ?s1 \<and> mailboxes s' = mailboxes ?s1 \<and> mqs s' = mqs ?s1" by simp
    moreover have "n" using event_loop_need [OF loop] by simp
    ultimately show ?thesis using kframe_trans [OF f1] by simp
  qed
qed

lemma event_send_call:
  assumes run: "running s t"
  shows "\<exists>r s'. rt_event_send e es s = Some (r, s') \<and> kcall {SuspendQ (OEvent e)} t s s'
    \<and> mutexes s' = mutexes s \<and> mailboxes s' = mailboxes s \<and> mqs s' = mqs s"
proof (cases "es = 0")
  case True
  then show ?thesis using prepared_call [OF prepared_refl [OF run]] by (simp add: rt_event_send_def)
next
  case False
  let ?q = "lst (tlists s) (SuspendQ (OEvent e))"
  let ?s1 = "upd_event e (\<lambda>x. x\<lparr>ev_set := ev_set x OR es\<rparr>) s"
  have inv: "check_inv (ktick s) ?s1" using run by (simp add: running_def)
  have d: "distinct ?q" using run by (intro wf_distinct) (auto simp: running_def check_inv_def SI_def)
  obtain n s2 where loop: "event_send_loop e ?q False ?s1 = (n, s2)" by fastforce
  have fr: "check_inv (ktick s) s2" "kframe {SuspendQ (OEvent e)} {t} s s2" "n \<or> s2 = ?s1"
    "mutexes s2 = mutexes s" "mailboxes s2 = mailboxes s" "mqs s2 = mqs s"
    using event_loop_frame [OF inv d _ loop, of "{t}"] by auto
  show ?thesis
  proof (cases n)
    case True
    have "stat (threads s2 idle) = RT_THREAD_READY"
      using event_loop_frame [OF inv d _ loop, of "{}"] run kframe_ready [of "{SuspendQ (OEvent e)}" "{}" ?s1 s2 idle]
      by (simp add: running_def)
    then obtain s' where s': "rt_schedule s2 = Some s'" "check_inv (ktick s) s'"
      by (rule ready_schedules [OF fr(1)])
    have "scheduled_from s s'"
      using s'(1) fr(1,2) unfolding scheduled_from_def by (auto simp: check_inv_def kframe_def)
    moreover have "kframe {SuspendQ (OEvent e)} {t} s s'" using fr(2) kframe_schedule [OF s'(1)] by (rule kframe_trans)
    moreover have "rt_event_send e es s = Some (0, s')" using False loop True s'(1) by (simp add: rt_event_send_def)
    ultimately show ?thesis
      using s'(2) fr rt_schedule_same [OF s'(1)] by (simp add: kcall_def settled_def)
  next
    case n: False
    have "prepared s t ?s1" using prepared_refl [OF run] by simp
    with n fr(3) False loop show ?thesis using prepared_call [of s t ?s1] by (simp add: rt_event_send_def)
  qed
qed

lemma event_recv_call:
  assumes run: "running s t" and w: "may_wait s t time" and opt: "es = 0 \<or> bit opt 0 \<or> bit opt 1"
  shows "\<exists>r s'. rt_event_recv e es opt time s = Some (r, s') \<and> kcall {SuspendQ (OEvent e)} t s s'
    \<and> mutexes s' = mutexes s \<and> mailboxes s' = mailboxes s \<and> mqs s' = mqs s"
proof (cases "es = 0")
  case True
  then show ?thesis
    using prepared_call [OF prepared_refl [OF run]] run by (simp add: rt_event_recv_def running_def)
next
  case False
  have self: "rt_thread_self s = Some t" and irq: "irq_nest s = 0" using run by (simp_all add: running_def)
  note pre = prepared_error [OF prepared_refl [OF run]]
  show ?thesis
  proof (cases "event_grant (ev_set (events s e)) es opt")
    case (Some got)
    show ?thesis
      unfolding event_recv_grant [OF self irq False Some] using prepared_call [of s t] pre [of 0] by auto
  next
    case None
    show ?thesis
    proof (cases "time = 0")
      case True
      then show ?thesis
        using event_recv_fails [OF self irq False _ None] opt False prepared_call [OF pre] by auto
    next
      case t: False
      let ?s2 = "upd_thread t (\<lambda>th. th\<lparr>event_set := es, event_info := opt\<rparr>)
        (upd_thread t (\<lambda>th. th\<lparr>error := RT_EOK\<rparr>) s)"
      obtain s' where s': "ipc_wait (SuspendQ (OEvent e)) t (o_flag (objs ?s2 (OEvent e))) time ?s2 = Some s'"
        "kcall {SuspendQ (OEvent e)} t s s'" "same_objects ?s2 s'"
        by (rule prepared_waits [OF run prepared_event [OF pre], of "OEvent e" "SuspendQ (OEvent e)" time])
          (use w t in auto)
      then have "rt_event_recv e es opt time s = Some (Blocked, s')"
        using self irq False opt t None
        by (auto simp: rt_event_recv_def event_grant_def Let_def and.commute [of _ es] split: if_splits)
      with s' show ?thesis by auto
    qed
  qed
qed

text \<open>The mutex calls, with the effect on the mutex for each result.\<close>

lemma mutex_take_call:
  assumes run: "running s t" and w: "may_wait s t time" and ok: "mutex_ok m s" and h: "hold (mutexes s m) \<noteq> 255"
  obtains (taken) s' where "rt_mutex_take m time s = Some (Return 0, s')"
    and "kcall {} t s s'" and "mailboxes s' = mailboxes s" and "mqs s' = mqs s" and "mutex_ok m s'"
    and "\<And>m'. m' \<noteq> m \<Longrightarrow> mutexes s' m' = mutexes s m'"
    and "owner (mutexes s m) = None \<or> owner (mutexes s m) = Some t" and "owner (mutexes s' m) = Some t"
    and "unat (hold (mutexes s' m)) = unat (hold (mutexes s m)) + 1" and "tlists s' = tlists s"
  | (failed) s' where "rt_mutex_take m time s = Some (Return (- RT_ETIMEOUT), s')" and "kcall {} t s s'"
    and "mailboxes s' = mailboxes s" and "mqs s' = mqs s" and "mutexes s' = mutexes s" and "tlists s' = tlists s"
  | (blocked) s' where "rt_mutex_take m time s = Some (Blocked, s')" and "kcall {SuspendQ (OMutex m)} t s s'"
    and "mailboxes s' = mailboxes s" and "mqs s' = mqs s" and "mutexes s' = mutexes s"
    and "owner (mutexes s m) \<noteq> None" and "owner (mutexes s m) \<noteq> Some t"
    and "loc (tlists s') t = Some (SuspendQ (OMutex m))" and "error (threads s' t) = 0"
    and "\<And>u. u \<noteq> t \<Longrightarrow> loc (tlists s') u = Some (SuspendQ (OMutex m)) \<longleftrightarrow>
           loc (tlists s) u = Some (SuspendQ (OMutex m))"
proof -
  let ?s1 = "upd_thread t (\<lambda>th. th\<lparr>error := RT_EOK\<rparr>) s"
  have inv: "check_inv (ktick s) s" and self: "rt_thread_self s = Some t" and irq: "irq_nest s = 0"
    and st: "stat (threads s t) = RT_THREAD_READY" using run by (simp_all add: running_def)
  have pre: "prepared s t ?s1" using prepared_refl [OF run] by (rule prepared_error)
  consider (own) "owner (mutexes s m) = None \<or> owner (mutexes s m) = Some t"
    | (other) v where "owner (mutexes s m) = Some v" "v \<noteq> t" by (cases "owner (mutexes s m)") auto
  then show ?thesis
  proof cases
    case own
    note unat1 = hold_inc [OF h]
    let ?f = "if owner (mutexes s m) = Some t then (\<lambda>x. x\<lparr>hold := hold x + 1\<rparr>)
      else (\<lambda>x. x\<lparr>mutex_value := mutex_value x - 1, owner := Some t,
        original_priority := current_priority (threads s t), hold := hold x + 1\<rparr>)"
    let ?s' = "upd_mutex m ?f ?s1"
    have eq: "rt_mutex_take m time s = Some (Return 0, ?s')"
      using own ok self irq by (auto simp: rt_mutex_take_def mutex_ok_def)
    have "0 < hold (mutexes s m) + 1" using unat1 by (simp add: word_less_nat_alt)
    then have "mutex_ok m ?s'" using own ok ready_priority [OF inv, of t] st by (auto simp: mutex_ok_def)
    then show ?thesis using own eq prepared_call [of s t ?s'] pre unat1 by (intro taken [of ?s']) auto
  next
    case (other v)
    have val: "mutex_value (mutexes s m) = 0" using ok other by (simp add: mutex_ok_def)
    show ?thesis
    proof (cases "time = 0")
      case True
      let ?s' = "upd_thread t (\<lambda>th. th\<lparr>error := - RT_ETIMEOUT\<rparr>) ?s1"
      have "rt_mutex_take m time s = Some (Return (- RT_ETIMEOUT), ?s')"
        using self irq other val True by (simp add: rt_mutex_take_def)
      then show ?thesis using prepared_call [OF prepared_error [OF pre, of "- RT_ETIMEOUT"]]
        by (intro failed [of ?s']) auto
    next
      case False
      let ?p = "current_priority (threads s t)"
      let ?s2 = "if ?p < current_priority (threads s v) then change_priority v ?p ?s1 else ?s1"
      have inv1: "check_inv (ktick s) ?s1" and si1: "sched_inv ?s1" using pre by (simp_all add: prepared_def check_inv_def)
      have p: "unat ?p < 32" using ready_priority [OF inv] st by blast
      have inv2: "check_inv (ktick s) ?s2" using inv1 p by (simp add: check_inv_change_priority)
      have "kframe {} {t} s ?s1" using pre by (simp add: prepared_def)
      then have f2: "kframe {} {t} s ?s2" using kframe_change_priority [OF si1] by (auto intro: kframe_trans)
      have st2: "stat (threads ?s2 t) = RT_THREAD_READY" using st by (simp add: change_priority_thread)
      obtain s' where s': "ipc_wait (SuspendQ (OMutex m)) t (o_flag (objs ?s2 (OMutex m))) time ?s2 = Some s'"
        "kcall {SuspendQ (OMutex m)} t s s'" "same_objects ?s2 s'" "loc (tlists s') t = Some (SuspendQ (OMutex m))"
        "threads s' = (threads ?s2)(t := (threads ?s2 t)\<lparr>stat := RT_THREAD_SUSPEND\<rparr>)"
        "\<And>u. u \<noteq> t \<Longrightarrow> loc (tlists s') u = loc (tlists ?s2) u"
        by (rule running_waits [OF run inv2 f2 st2, of "OMutex m" "SuspendQ (OMutex m)" time]) (use w False in auto)
      have "rt_mutex_take m time s = Some (Blocked, s')"
        using self irq other val False s'(1) by (simp add: rt_mutex_take_def split: if_splits)
      moreover have "loc (tlists ?s2) u = Some (SuspendQ (OMutex m)) \<longleftrightarrow> loc (tlists s) u = Some (SuspendQ (OMutex m))" for u
      proof -
        have "lst (tlists ?s2) (SuspendQ (OMutex m)) = lst (tlists s) (SuspendQ (OMutex m))"
          using f2 by (simp add: kframe_def)
        moreover have "lstore_wf (tlists ?s2)" "lstore_wf (tlists s)"
          using inv2 inv by (auto simp: check_inv_def SI_def)
        ultimately show ?thesis by (metis wf_mem)
      qed
      ultimately show ?thesis using s' other
        by (intro blocked [of s']) (simp_all add: change_priority_thread)
    qed
  qed
qed

lemma restore_priority_frame:
  assumes "check_inv base s" and "mutex_ok m s" and "owner (mutexes s m) \<noteq> None"
  shows "check_inv base (restore_priority m t s)" and "kframe G T s (restore_priority m t s)"
    and "threads (restore_priority m t s) u
      = (if u = t \<and> original_priority (mutexes s m) \<noteq> current_priority (threads s t)
         then (threads s t)\<lparr>current_priority := original_priority (mutexes s m),
           number_mask := push_bit (unat (original_priority (mutexes s m))) 1\<rparr> else threads s u)"
    and "same_objects s (restore_priority m t s)" and "cur_thread (restore_priority m t s) = cur_thread s"
proof -
  have "unat (original_priority (mutexes s m)) < 32" using assms(2,3) by (auto simp: mutex_ok_def)
  with assms(1) show "check_inv base (restore_priority m t s)"
    by (simp add: restore_priority_def check_inv_change_priority)
  have "sched_inv s" using assms(1) by (simp add: check_inv_def)
  then show "kframe G T s (restore_priority m t s)" by (simp add: restore_priority_def kframe_change_priority)
qed (simp_all add: restore_priority_def change_priority_thread)

lemma mutex_release_call:
  assumes run: "running s t" and ok: "mutex_ok m s"
  obtains (foreign) s' where "rt_mutex_release m s = Some (- RT_ERROR, s')" and "kcall {} t s s'"
    and "same_objects s s'" and "tlists s' = tlists s" and "owner (mutexes s m) \<noteq> Some t"
  | (inner) s' where "rt_mutex_release m s = Some (0, s')" and "kcall {} t s s'"
    and "mailboxes s' = mailboxes s" and "mqs s' = mqs s"
    and "mutexes s' = (mutexes s)(m := (mutexes s m)\<lparr>hold := hold (mutexes s m) - 1\<rparr>)"
    and "owner (mutexes s m) = Some t" and "hold (mutexes s m) \<noteq> 1" and "tlists s' = tlists s"
  | (handed) s' u us where "rt_mutex_release m s = Some (0, s')"
    and "check_inv (ktick s) s'" and "kframe {SuspendQ (OMutex m)} {t} s s'" and "scheduled_from s s'"
    and "mailboxes s' = mailboxes s" and "mqs s' = mqs s" and "\<And>m'. m' \<noteq> m \<Longrightarrow> mutexes s' m' = mutexes s m'"
    and "mutex_ok m s'" and "owner (mutexes s m) = Some t" and "hold (mutexes s m) = 1"
    and "owner (mutexes s' m) = Some u" and "lst (tlists s) (SuspendQ (OMutex m)) = u # us"
    and "lst (tlists s') (SuspendQ (OMutex m)) = us"
  | (freed) s' where "rt_mutex_release m s = Some (0, s')"
    and "check_inv (ktick s) s'" and "kframe {} {t} s s'" and "cur_ready s'"
    and "mailboxes s' = mailboxes s" and "mqs s' = mqs s" and "\<And>m'. m' \<noteq> m \<Longrightarrow> mutexes s' m' = mutexes s m'"
    and "mutex_ok m s'" and "owner (mutexes s m) = Some t" and "hold (mutexes s m) = 1"
    and "owner (mutexes s' m) = None" and "lst (tlists s) (SuspendQ (OMutex m)) = []"
    and "original_priority (mutexes s m) = current_priority (threads s t) \<Longrightarrow> settled s s'"
    and "cur_thread s' = Some t" and "threads s' = threads (restore_priority m t s)"
proof -
  have inv: "check_inv (ktick s) s" and self: "rt_thread_self s = Some t" and irq: "irq_nest s = 0"
    and st: "stat (threads s t) = RT_THREAD_READY" using run by (simp_all add: running_def)
  show ?thesis
  proof (cases "owner (mutexes s m) = Some t \<and> hold (mutexes s m) = 1")
    case False
    show ?thesis
    proof (cases "owner (mutexes s m) = Some t")
      case True
      with False have h: "hold (mutexes s m) \<noteq> 1" by simp
      let ?s' = "upd_mutex m (\<lambda>x. x\<lparr>hold := hold x - 1\<rparr>) s"
      have "kcall {} t s ?s'" using prepared_refl [OF run] by (intro prepared_call) simp
      then show ?thesis using mutex_release_nested [OF self irq True h] True h by (intro inner [of ?s']) auto
    next
      case f: False
      let ?s' = "upd_thread t (\<lambda>th. th\<lparr>error := - RT_ERROR\<rparr>) s"
      have "kcall {} t s ?s'" using prepared_error [OF prepared_refl [OF run]] by (rule prepared_call)
      then show ?thesis using mutex_release_foreign [OF self irq f] f by (intro foreign [of ?s']) auto
    qed
  next
    case True
    then have own: "owner (mutexes s m) = Some t" "hold (mutexes s m) = 1" by simp_all
    let ?h = "SuspendQ (OMutex m)"
    let ?r = "restore_priority m t s"
    note r = restore_priority_frame [OF inv ok, where t = t]
    have on: "owner (mutexes s m) \<noteq> None" using own by simp
    have unf: "restore_priority m t (upd_mutex m (\<lambda>x. x\<lparr>hold := hold x - 1\<rparr>) s)
        = upd_mutex m (\<lambda>x. x\<lparr>hold := hold x - 1\<rparr>) ?r"
      by (simp add: restore_priority_def change_priority_def Let_def rt_schedule_remove_thread_def
          rt_schedule_insert_thread_def)
    have wq: "lst (tlists ?r) ?h = lst (tlists s) ?h" using r(2) [OF on, of "{}" "{}"] by (auto simp: kframe_def)
    show ?thesis
    proof (cases rule: wait_list_cases [of "tlists s" ?h])
      case none
      from mutex_release_frees [OF inv ok self irq own none] obtain s' where
        s': "rt_mutex_release m s = Some (0, s')" "check_inv (ktick s) s'" "mutex_ok m s'"
          "owner (mutexes s' m) = None" "\<forall>m'. m' \<noteq> m \<longrightarrow> mutexes s' m' = mutexes s m'" by blast
      have "s' = upd_mutex m (\<lambda>x. x\<lparr>hold := 0, mutex_value := mutex_value x + 1, owner := None,
          original_priority := 0xff\<rparr>) ?r"
        using s'(1) self irq own none wq unf r(4) [OF on]
        by (auto simp: rt_mutex_release_def restore_priority_def Let_def split: if_splits)
      then have "kframe {} {t} s s'" "mailboxes s' = mailboxes s" "mqs s' = mqs s" "cur_ready s'"
        "original_priority (mutexes s m) = current_priority (threads s t) \<longrightarrow> settled s s'"
        "cur_thread s' = Some t" "threads s' = threads ?r"
        using r(2-5) [OF on] self st by (auto simp: cur_ready_def settled_def restore_priority_def)
      with s' own none show ?thesis by (intro freed [of s']) auto
    next
      case (first u us)
      from mutex_release_hands_over [OF inv ok self irq own first] obtain s' where
        s': "rt_mutex_release m s = Some (0, s')" "check_inv (ktick s) s'" "mutex_ok m s'"
          "owner (mutexes s' m) = Some u" "lst (tlists s') ?h = us" by blast
      let ?s3 = "upd_mutex m (\<lambda>x. x\<lparr>owner := Some u,
        original_priority := current_priority (threads ?r u), hold := 1\<rparr>) ?r"
      have inv3: "check_inv (ktick s) ?s3" using r(1) [OF on] by simp
      have w3: "lst (tlists ?s3) ?h = u # us" using first wq by simp
      have sch: "rt_schedule (snd (rt_thread_resume u ?s3)) = Some s'"
        using s'(1) self irq own first wq unf r(4) [OF on]
        by (auto simp: rt_mutex_release_def restore_priority_def Let_def rt_ipc_list_resume_def
            split: if_splits bind_splits)
      note wk = wake_frame(1) [OF inv3 w3 _ sch, of "{t}"] wake_frame(2) [OF inv3 w3 _ sch]
      have f3: "kframe {?h} {t} s ?s3" using r(2) [OF on] by simp
      have "kframe {?h} {t} s s'" using f3 wk(1) by (auto intro: kframe_trans)
      moreover have "scheduled_from s s'" using wk(2) f3 by (auto simp: scheduled_from_def kframe_def)
      moreover have "same_objects ?s3 s'" using rt_schedule_same [OF sch] by simp
      ultimately show ?thesis using s' own first r(4) [OF on] by (intro handed [of s' u us]) auto
    qed
  qed
qed

end
