(* ===== verification/Rt_Tick.thy ===== *)
theory Rt_Tick
  imports Rt_Frame
begin

text \<open>
  The calls that have to do with time, framed in the same way: giving up the processor, sleeping, and
  the clock interrupt. \<open>expires D s s'\<close>: the threads of \<open>D\<close>, and only those, have run into their timeout;
  they have left the wait lists and are ready.
\<close>

section \<open>Yielding\<close>

lemma scheduled_from_settled: "scheduled_from s s' \<Longrightarrow> settled s s'"
  by (simp add: settled_def)

lemma ready_at:
  "check_inv base s \<Longrightarrow> stat (threads s t) = RT_THREAD_READY \<Longrightarrow>
    loc (tlists s) t = Some (ReadyQ (current_priority (threads s t)))"
  unfolding check_inv_def by (auto dest: ready_loc)

lemma yield_frame:
  assumes inv: "check_inv base s" and self: "rt_thread_self s = Some t"
  obtains s' where "rt_thread_yield s = Some (RT_EOK, s')" and "check_inv base s'" and "kframe {} {} s s'"
    and "settled s s'" and "same_objects s s'" and "threads s' = threads s" and "timers s' = timers s"
    and "objs s' = objs s" and "tmlists s' = tmlists s"
proof (cases "stat (threads s t) = RT_THREAD_READY \<and> ls_next_ne_prev t (tlists s)")
  case False
  with self have "rt_thread_yield s = Some (0, s)" by (auto simp: rt_thread_yield_def)
  moreover have "settled s s" by (simp add: settled_def)
  ultimately show ?thesis using inv that [of s] by simp
next
  case True
  let ?p = "current_priority (threads s t)"
  let ?s2 = "s\<lparr>tlists := ls_insert_before (ReadyQ ?p) t (ls_remove t (tlists s))\<rparr>"
  have at: "loc (tlists s) t = Some (ReadyQ ?p)" using ready_at [OF inv] True by blast
  obtain e s' where y: "rt_thread_yield s = Some (e, s')" "check_inv base s'" "threads s' = threads s"
    by (rule yield_returns [OF inv self]) blast
  then have s': "rt_schedule ?s2 = Some s'" "e = 0"
    using True self by (auto simp: rt_thread_yield_def Let_def split: bind_splits)
  note same = rt_schedule_same [OF s'(1)]
  have "\<And>h. wait_head h \<Longrightarrow> lst (tlists s') h = lst (tlists s) h"
    using same at by (auto simp: lst_remove_other)
  then have "kframe {} {} s s'" using same by (simp add: kframe_def timers_kept_def)
  moreover have "sched_inv ?s2" using y(2) same by (simp add: check_inv_def)
  then have "settled s s'" unfolding settled_def scheduled_from_def using s'(1) by (intro disjI1 exI [of _ ?s2]) simp
  ultimately show ?thesis using y s'(2) same by (intro that [of s']) simp_all
qed

lemma yield_call:
  assumes run: "running s t"
  shows "\<exists>s'. rt_thread_yield s = Some (RT_EOK, s') \<and> kcall {} t s s' \<and> same_objects s s'"
proof -
  have "check_inv (ktick s) s" "rt_thread_self s = Some t" using run by (simp_all add: running_def)
  then obtain s' where "rt_thread_yield s = Some (RT_EOK, s')" "check_inv (ktick s) s'" "kframe {} {} s s'"
    "settled s s'" "same_objects s s'" by (rule yield_frame)
  then show ?thesis by (auto simp: kcall_def elim: kframe_mono)
qed

section \<open>Sleeping\<close>

lemma kframe_suspend:
  assumes inv: "check_inv base s" and st: "stat (threads s t) = RT_THREAD_READY" and t: "t \<in> T"
  shows "kframe G T s (snd (rt_thread_suspend t s))"
proof -
  have wft: "lstore_wf (tmlists s)" using inv by (auto simp: check_inv_def TI_def)
  have at: "loc (tlists s) t = Some (ReadyQ (current_priority (threads s t)))" using inv st by (rule ready_at)
  have "lst (tlists (snd (rt_thread_suspend t s))) h = lst (tlists s) h" if "wait_head h" for h
    using thread_suspend_ready [OF st] at that by (auto simp: lst_remove_other)
  moreover have "objs (snd (rt_thread_suspend t s)) = objs (snd (rt_timer_stop (ThreadTimer t) s))"
    "tmlists (snd (rt_thread_suspend t s)) = tmlists (snd (rt_timer_stop (ThreadTimer t) s))"
    using st by (simp_all add: rt_thread_suspend_def Let_def timer_stop_objs timer_stop_tmlists)
  ultimately show ?thesis
    using stop_flags [of "ThreadTimer t" s] stop_hard [OF wft, of "ThreadTimer t"] t thread_suspend_ready [OF st]
    unfolding kframe_def timers_kept_def by (auto simp: timer_stop_objs)
qed

lemma sleep_call:
  assumes run: "running s t" and t: "t \<noteq> idle" and tk: "0 < sint tk" "tk < RT_TICK_HALF"
  shows "\<exists>s'. rt_thread_sleep tk s = Some s' \<and> kcall {} t s s' \<and> same_objects s s'
    \<and> stat (threads s' t) = RT_THREAD_SUSPEND"
proof -
  let ?s1 = "snd (rt_thread_suspend t s)"
  have inv: "check_inv (ktick s) s" and self: "rt_thread_self s = Some t"
    and st: "stat (threads s t) = RT_THREAD_READY" using run by (simp_all add: running_def)
  note s1 = thread_suspend_ready [OF st]
  have inv1: "check_inv (ktick s) ?s1" using inv by (rule check_inv_suspend)
  have st1: "stat (threads ?s1 t) = RT_THREAD_SUSPEND" "stat (threads ?s1 idle) = RT_THREAD_READY"
    using s1(2) t run by (simp_all add: running_def)
  have "time_ok (ktick s) ?s1 tk" using tk(2) by (simp add: time_ok_def word_less_nat_alt)
  then obtain s2 s' where s2: "start_wait_timer t tk ?s1 = Some s2" "rt_schedule s2 = Some s'"
      "check_inv (ktick s) s'" "threads s' = threads ?s1" "same_objects ?s1 s'"
    by (rule wait_schedule_returns [OF inv1 st1(1) _ st1(2)]) blast
  note tm = start_timer_frame [OF inv1 disjI2 [OF st1(1)] s2(1) singletonI]
  have f1: "kframe {} {t} s ?s1" using inv st by (rule kframe_suspend) simp
  have f: "kframe {} {t} s s'" using f1 kframe_trans [OF tm(1) kframe_schedule [OF s2(2)]] by (rule kframe_trans)
  have "sched_inv s2" using tm(2-4) inv1 by (simp add: check_inv_def)
  moreover have "lock_nest s2 = lock_nest s" using f1 tm(1) [of "{}"] by (simp add: kframe_def)
  ultimately have "settled s s'" using s2(2) unfolding settled_def scheduled_from_def by blast
  moreover have "rt_thread_sleep tk s = Some s'"
    using self s2(1,2) tk(1) by (auto simp: rt_thread_sleep_def start_wait_timer_def Let_def split: bind_splits)
  ultimately show ?thesis using f s2 s1 st1 by (auto simp: kcall_def)
qed

section \<open>The clock interrupt\<close>

definition expires :: "tid set \<Rightarrow> kstate \<Rightarrow> kstate \<Rightarrow> bool" where
  "expires D s s' \<longleftrightarrow> lock_nest s' = lock_nest s \<and> irq_nest s' = irq_nest s \<and> ktick s' = ktick s
     \<and> timers_kept s s' \<and> (\<forall>ob. (\<forall>r. ob \<noteq> OTimer r) \<longrightarrow> objs s' ob = objs s ob) \<and> same_objects s s'
     \<and> (\<forall>h. wait_head h \<longrightarrow> lst (tlists s') h = filter (\<lambda>u. u \<notin> D) (lst (tlists s) h))
     \<and> (\<forall>u. error (threads s' u) = (if u \<in> D then - RT_ETIMEOUT else error (threads s u))
          \<and> stat (threads s' u) = (if u \<in> D then RT_THREAD_READY else stat (threads s u))
          \<and> (u \<notin> D \<longrightarrow> wait_timer s' u = wait_timer s u))
     \<and> (lock_nest s = 0 \<longrightarrow> (scheduled s \<longrightarrow> scheduled s') \<and> (cur_ready s \<longrightarrow> cur_ready s'))"

lemma expires_refl: "expires {} s s"
  by (simp add: expires_def)

lemma expires_trans:
  assumes "expires D s s1" and "expires E s1 s2"
  shows "expires (D \<union> E) s s2"
  using assms timers_kept_trans [of s s1 s2] unfolding expires_def
  by (intro conjI allI impI) (simp_all add: conj_commute)

lemma expires_step:
  assumes inv: "check_inv base s" and hd: "lst (tmlists s) HardTimers = ThreadTimer t # rs"
    and s1: "call_timeout cb (timeout_func (timers s (ThreadTimer t))) (rt_timer_remove (ThreadTimer t) s) = Some s1"
  shows "expires {t} s (clear_active (ThreadTimer t) s1)"
proof -
  let ?r = "ThreadTimer t"
  have wf: "lstore_wf (tmlists s)" and wfl: "lstore_wf (tlists s)" and si: "sched_inv s"
    using inv by (simp_all add: check_inv_def TI_def SI_def)
  have tt: "stat (threads s t) = RT_THREAD_SUSPEND" "timeout_func (timers s ?r) = Thread_timeout t"
    using TT_D [OF _ wf_hd_loc [OF wf hd]] inv by (auto simp: check_inv_def)
  let ?s0 = "rt_timer_remove ?r s"
  let ?s3 = "rt_schedule_insert_thread t
    (upd_thread t (\<lambda>th. th\<lparr>error := - RT_ETIMEOUT\<rparr>) ?s0\<lparr>tlists := ls_remove t (tlists ?s0)\<rparr>)"
  have si0: "sched_inv ?s0" and st0: "stat (threads ?s0 t) = RT_THREAD_SUSPEND"
    using si tt(1) by (simp_all add: rt_timer_remove_def)
  note ins = timeout_insert_inv [OF si0 st0]
  have sch: "rt_schedule ?s3 = Some s1"
    using s1 tt(2) ins(1) by (simp add: call_timeout_def rt_timer_remove_def)
  note same = rt_schedule_same [OF sch]
  have from_s: "scheduled_from s s1"
    unfolding scheduled_from_def using ins(2) sch by (intro exI [of _ ?s3]) (simp add: rt_timer_remove_def)
  have "lst (tlists s1) h = filter (\<lambda>u. u \<notin> {t}) (lst (tlists s) h)" if "wait_head h" for h
    using same that wfl wf_distinct [OF wfl, of h]
    by (auto simp: rt_timer_remove_def rt_schedule_insert_thread_def distinct_remove1_removeAll removeAll_filter_not_eq
        intro!: filter_cong)
  moreover have "timers_kept s (clear_active ?r s1)"
    using same wf hd by (auto simp: timers_kept_def clear_active_def rt_timer_remove_def)
  moreover have "lock_nest s = 0 \<longrightarrow> scheduled (clear_active ?r s1) \<and> cur_ready (clear_active ?r s1)"
    using scheduled_from_cur [OF from_s]
    by (simp add: scheduled_def cur_ready_def clear_active_def next_thread_def highest_ready_priority_def)
  ultimately show ?thesis
    using same unfolding expires_def by (simp add: clear_active_def rt_timer_remove_def rt_schedule_insert_thread_def)
qed

lemma check_loop_expires:
  assumes "check_inv base s" and "dues s \<subseteq> range ThreadTimer"
  shows "\<exists>s'. timer_check_loop cb (ktick s) s = Some s' \<and> check_inv base s' \<and> dues s' = {}
    \<and> expires {t. ThreadTimer t \<in> dues s} s s'"
  using assms
proof (induction "lst (tmlists s) HardTimers" arbitrary: s)
  case Nil
  then show ?case by (subst timer_check_loop.simps) (simp add: dues_def expires_refl)
next
  case (Cons r rs)
  note hd = Cons.hyps(2) [symmetric]
  show ?case
  proof (cases "due s r")
    case False
    with hd have "timer_check_loop cb (ktick s) s = Some s"
      by (subst timer_check_loop.simps) (simp add: due_def)
    with Cons.prems first_not_due [OF Cons.prems(1) hd False] show ?thesis by (simp add: expires_refl)
  next
    case True
    then have rd: "r \<in> dues s" using hd by (simp add: dues_def)
    then obtain t where r: "r = ThreadTimer t" using Cons.prems(2) by blast
    note hdt = hd [unfolded r]
    obtain s1 where s1: "call_timeout cb (timeout_func (timers s r)) (rt_timer_remove r s) = Some s1"
      "timer_rearm r s1 = Some (clear_active r s1)" "check_inv base (clear_active r s1)"
      "ktick s1 = ktick s" "timers s1 = timers s" "lst (tmlists s1) HardTimers = rs"
      using check_step_thread [OF Cons.prems(1) hdt, of cb] unfolding r by metis
    let ?s2 = "clear_active r s1"
    have "r \<notin> set rs" using Cons.prems(1) hd by (metis TI_def check_inv_def distinct.simps(2) wf_distinct)
    then have eq: "dues ?s2 = dues s - {r}" using s1 hd by (auto simp: dues_def due_def clear_active_def)
    have "ktick ?s2 = ktick s" "rs = lst (tmlists ?s2) HardTimers"
      using s1 by (simp_all add: clear_active_def)
    with Cons.hyps(1) [of ?s2] s1(3) Cons.prems(2) eq
    obtain s' where s': "timer_check_loop cb (ktick s) ?s2 = Some s'" "check_inv base s'" "dues s' = {}"
      "expires {t. ThreadTimer t \<in> dues s - {r}} ?s2 s'" by auto
    have "expires ({t} \<union> {t. ThreadTimer t \<in> dues s - {r}}) s s'"
      using expires_step [OF Cons.prems(1) hdt s1(1) [unfolded r]] s'(4) unfolding r by (rule expires_trans)
    moreover have "{t} \<union> {t. ThreadTimer t \<in> dues s - {r}} = {t. ThreadTimer t \<in> dues s}"
      using rd by (auto simp: r)
    ultimately show ?thesis using s' check_loop_unfold [OF hd True s1(1,2,4)] by simp
  qed
qed

text \<open>The time slice: before the timers are checked nothing but the ready queues can change.\<close>

lemma expires_remaining: "expires {} s (upd_thread t (\<lambda>th. th\<lparr>remaining_tick := x\<rparr>) s)"
proof -
  have "cur_ready (upd_thread t (\<lambda>th. th\<lparr>remaining_tick := x\<rparr>) s) = cur_ready s"
    by (auto simp: cur_ready_def)
  then show ?thesis
    by (simp add: expires_def timers_kept_def scheduled_def next_thread_def highest_ready_priority_def)
qed

lemma kframe_expires:
  "kframe {} {} s s' \<Longrightarrow> settled s s' \<Longrightarrow> same_objects s s' \<Longrightarrow> threads s' = threads s \<Longrightarrow>
    timers s' = timers s \<Longrightarrow> tmlists s' = tmlists s \<Longrightarrow> expires {} s s'"
  using settled_scheduled [of s s'] settled_ready [of s s'] by (simp add: kframe_def expires_def)

lemma slice_expires:
  assumes inv: "tick_inv s" and self: "rt_thread_self s = Some t"
  shows "\<exists>s4. rt_tick_increase cb s = rt_timer_check cb s4 \<and> check_inv (ktick s) s4
    \<and> timers s4 = timers s \<and> tmlists s4 = tmlists s \<and> expires {} (s\<lparr>ktick := ktick s + 1\<rparr>) s4"
proof -
  let ?s1 = "s\<lparr>ktick := ktick s + 1\<rparr>"
  let ?s2 = "upd_thread t (\<lambda>th. th\<lparr>remaining_tick := remaining_tick th - 1\<rparr>) ?s1"
  let ?s3 = "upd_thread t (\<lambda>th. th\<lparr>remaining_tick := init_tick th\<rparr>) ?s2"
  have inv2: "check_inv (ktick s) ?s2" using check_inv_remaining [OF check_inv_advance [OF inv]] by simp
  have e2: "expires {} ?s1 ?s2" using expires_remaining [of ?s1 t "remaining_tick (threads s t) - 1"] by simp
  show ?thesis
  proof (cases "remaining_tick (threads s t) = 1")
    case False
    then have "rt_tick_increase cb s = rt_timer_check cb ?s2"
      using self by (simp add: rt_tick_increase_def Let_def)
    with inv2 e2 show ?thesis by (intro exI [of _ ?s2]) simp
  next
    case True
    have inv3: "check_inv (ktick s) ?s3" using check_inv_remaining [OF inv2, of t "init_tick (threads s t)"] by simp
    have e3: "expires {} ?s2 ?s3" using expires_remaining [of ?s2 t "init_tick (threads s t)"] by simp
    have self3: "rt_thread_self ?s3 = Some t" using self by simp
    from yield_frame [OF inv3 self3] obtain s4 where y: "rt_thread_yield ?s3 = Some (0, s4)"
      "check_inv (ktick s) s4" "kframe {} {} ?s3 s4" "settled ?s3 s4" "same_objects ?s3 s4"
      "threads s4 = threads ?s3" "timers s4 = timers ?s3" "tmlists s4 = tmlists ?s3" by auto
    have "rt_tick_increase cb s = rt_timer_check cb s4"
      using self True y(1) by (simp add: rt_tick_increase_def Let_def)
    moreover have "expires {} ?s1 s4"
      using expires_trans [OF expires_trans [OF e2 e3] kframe_expires [OF y(3-8)]] by simp
    ultimately show ?thesis using y by (intro exI [of _ s4]) simp
  qed
qed

lemma tick_expires:
  assumes inv: "tick_inv s" and self: "rt_thread_self s = Some t"
    and only: "dues (s\<lparr>ktick := ktick s + 1\<rparr>) \<subseteq> range ThreadTimer"
  shows "\<exists>s'. rt_tick_increase cb s = Some s' \<and> tick_inv s' \<and> dues s' = {}
    \<and> expires {t. ThreadTimer t \<in> dues (s\<lparr>ktick := ktick s + 1\<rparr>)} (s\<lparr>ktick := ktick s + 1\<rparr>) s'"
proof -
  obtain s4 where s4: "rt_tick_increase cb s = rt_timer_check cb s4" "check_inv (ktick s) s4"
    "timers s4 = timers s" "tmlists s4 = tmlists s" "expires {} (s\<lparr>ktick := ktick s + 1\<rparr>) s4"
    using slice_expires [OF inv self] by blast
  have kt: "ktick s4 = ktick s + 1" using s4(5) by (simp add: expires_def)
  have d: "dues s4 = dues (s\<lparr>ktick := ktick s + 1\<rparr>)" using s4 kt by (simp add: dues_def due_def)
  obtain s' where s': "timer_check_loop cb (ktick s4) s4 = Some s'" "check_inv (ktick s) s'" "dues s' = {}"
    "expires {t. ThreadTimer t \<in> dues s4} s4 s'" using check_loop_expires [OF s4(2), of cb] only d by auto
  have "tick_inv s'" using s'(2,3,4) kt by (intro tick_inv_intro [of "ktick s"]) (simp_all add: expires_def)
  then show ?thesis using s' expires_trans [OF s4(5) s'(4)] s4(1) d by (simp add: rt_timer_check_def)
qed

text \<open>
  The handler of the clock interrupt, \<^verbatim>\<open>xTaskIncrementTick\<close> of the port, without the hooks of the application.
\<close>

definition clock_interrupt :: "(nat \<Rightarrow> nat \<Rightarrow> kstate \<Rightarrow> kstate option) \<Rightarrow> kstate \<Rightarrow> kstate option" where
  "clock_interrupt cb s =
     do {
       s1 \<leftarrow> rt_tick_increase cb (rt_interrupt_enter s);
       Some (rt_interrupt_leave s1)
     }"

lemma check_inv_irq [simp]: "check_inv base (s\<lparr>irq_nest := n\<rparr>) = check_inv base s"
  by (simp add: check_inv_def periodic_ok_def)

lemma tick_inv_irq [simp]: "tick_inv (s\<lparr>irq_nest := n\<rparr>) = tick_inv s"
  by (simp add: tick_inv_def)

lemma scheduled_irq [simp]: "scheduled (s\<lparr>irq_nest := n\<rparr>) = scheduled s" "cur_ready (s\<lparr>irq_nest := n\<rparr>) = cur_ready s"
  by (simp_all add: scheduled_def cur_ready_def next_thread_def highest_ready_priority_def)

lemma scheduled_tick [simp]: "scheduled (s\<lparr>ktick := n\<rparr>) = scheduled s" "cur_ready (s\<lparr>ktick := n\<rparr>) = cur_ready s"
  by (simp_all add: scheduled_def cur_ready_def next_thread_def highest_ready_priority_def)

lemma clock_expires:
  assumes inv: "tick_inv s" and self: "rt_thread_self s = Some t"
    and only: "set (lst (tmlists s) HardTimers) \<subseteq> range ThreadTimer"
  shows "\<exists>s'. clock_interrupt cb s = Some s' \<and> tick_inv s' \<and> dues s' = {}
    \<and> expires {t. ThreadTimer t \<in> dues (s\<lparr>ktick := ktick s + 1\<rparr>)} (s\<lparr>ktick := ktick s + 1\<rparr>) s'"
proof -
  let ?i = "rt_interrupt_enter s"
  have d: "dues (?i\<lparr>ktick := ktick ?i + 1\<rparr>) = dues (s\<lparr>ktick := ktick s + 1\<rparr>)"
    by (simp add: dues_def due_def rt_interrupt_enter_def)
  have "dues (?i\<lparr>ktick := ktick ?i + 1\<rparr>) \<subseteq> range ThreadTimer" unfolding d using only by (auto simp: dues_def)
  then obtain s1 where s1: "rt_tick_increase cb ?i = Some s1" "tick_inv s1" "dues s1 = {}"
    "expires {t. ThreadTimer t \<in> dues (s\<lparr>ktick := ktick s + 1\<rparr>)} (?i\<lparr>ktick := ktick ?i + 1\<rparr>) s1"
    using tick_expires [of ?i t cb] inv self unfolding d by (auto simp: rt_interrupt_enter_def)
  then have "expires {t. ThreadTimer t \<in> dues (s\<lparr>ktick := ktick s + 1\<rparr>)} (s\<lparr>ktick := ktick s + 1\<rparr>) (rt_interrupt_leave s1)"
    unfolding expires_def timers_kept_def by (simp add: rt_interrupt_enter_def rt_interrupt_leave_def)
  then show ?thesis using s1 by (simp add: clock_interrupt_def rt_interrupt_leave_def dues_def due_def)
qed

end
