(* ===== verification/Rt_System.thy ===== *)
theory Rt_System
  imports Rt_Tick
begin

text \<open>
  The kernel as a system: threads that make kernel calls, one after the other, and the clock interrupt.
  A call that has to wait leaves a continuation with its thread; it goes on when the scheduler has chosen the
  thread again. A step is a whole call, up to its end or up to the point where its thread waits: the clock
  interrupts between calls and while threads wait. The code also enables interrupts inside of some calls, between two sections of
  \<^verbatim>\<open>rt_mq_send\<close>, \<^verbatim>\<open>rt_mq_urgent\<close> and \<^verbatim>\<open>rt_mq_recv\<close>, and between the end of a section and \<^verbatim>\<open>rt_schedule\<close>; an
  interrupt at these points is not a run of the system. In the states of \<open>kernel_ok\<close> the list of the system timers holds timers of threads only, so
  the parameter \<open>cb\<close>, the timeout functions of the application as in theory \<open>Rt_Timer\<close>, is not called in its runs.
\<close>

section \<open>Calls and continuations\<close>

datatype call =
    SemTake nat rt_int32 | SemRelease nat
  | MutexTake nat rt_int32 | MutexRelease nat
  | EventSend nat rt_uint32 | EventRecv nat rt_uint32 rt_uint8 rt_int32
  | MbSend nat rt_uint32 rt_int32 | MbRecv nat rt_int32
  | MqSend nat "rt_uint8 list" | MqUrgent nat "rt_uint8 list" | MqRecv nat nat rt_int32
  | Yield | Sleep rt_tick

text \<open>
  Where a waiting thread goes on. The loops of mailboxes and message queues keep the time they may
  still wait and the tick at which they began to wait.
\<close>

datatype pend =
    InSem | InMutex nat | InEvent | InSleep
  | InMbSend nat rt_uint32 rt_int32 rt_tick | InMbRecv nat rt_int32 rt_tick
  | InMqRecv nat nat rt_int32 rt_tick

datatype outcome = Done rt_err | Waits pend

fun outcome_of :: "('a \<Rightarrow> rt_err) \<Rightarrow> pend \<Rightarrow> 'a callres \<times> kstate \<Rightarrow> outcome \<times> kstate" where
  "outcome_of f p (Return r, s) = (Done (f r), s)"
| "outcome_of f p (Blocked, s) = (Waits p, s)"

fun exec :: "call \<Rightarrow> kstate \<Rightarrow> (outcome \<times> kstate) option" where
  "exec (SemTake m time) s = map_option (outcome_of id InSem) (rt_sem_take m time s)"
| "exec (SemRelease m) s = map_option (map_prod Done id) (rt_sem_release m s)"
| "exec (MutexTake m time) s = map_option (outcome_of id (InMutex m)) (rt_mutex_take m time s)"
| "exec (MutexRelease m) s = map_option (map_prod Done id) (rt_mutex_release m s)"
| "exec (EventSend e es) s = map_option (map_prod Done id) (rt_event_send e es s)"
| "exec (EventRecv e es opt time) s = map_option (outcome_of fst InEvent) (rt_event_recv e es opt time s)"
| "exec (MbSend m v time) s =
     map_option (outcome_of id (InMbSend m v time (ktick s))) (rt_mb_send_wait m v time s)"
| "exec (MbRecv m time) s = map_option (outcome_of fst (InMbRecv m time (ktick s))) (rt_mb_recv m time s)"
| "exec (MqSend m buf) s = map_option (map_prod Done id) (rt_mq_send m buf s)"
| "exec (MqUrgent m buf) s = map_option (map_prod Done id) (rt_mq_urgent m buf s)"
| "exec (MqRecv m sz time) s = map_option (outcome_of fst (InMqRecv m sz time (ktick s))) (rt_mq_recv m sz time s)"
| "exec Yield s = map_option (map_prod Done id) (rt_thread_yield s)"
| "exec (Sleep tk) s = map_option (Pair (Waits InSleep)) (rt_thread_sleep tk s)"

fun resume :: "tid \<Rightarrow> pend \<Rightarrow> kstate \<Rightarrow> (outcome \<times> kstate) option" where
  "resume t InSem s = Some (Done (rt_sem_take_wake t s), s)"
| "resume t (InMutex m) s = Some (Done (rt_mutex_take_wake t s), s)"
| "resume t InEvent s = Some (Done (fst (rt_event_recv_wake t s)), s)"
| "resume t InSleep s = Some (map_prod Done id (rt_thread_sleep_wake t s))"
| "resume t (InMbSend m v time start) s =
     map_option (outcome_of id (InMbSend m v (remaining_time time start s) (ktick s)))
       (rt_mb_send_wait_wake t m v time start s)"
| "resume t (InMbRecv m time start) s =
     map_option (outcome_of fst (InMbRecv m (remaining_time time start s) (ktick s)))
       (rt_mb_recv_wake t m time start s)"
| "resume t (InMqRecv m sz time start) s =
     map_option (outcome_of fst (InMqRecv m sz (remaining_time time start s) (ktick s)))
       (rt_mq_recv_wake t m sz time start s)"

text \<open>
  What the kernel asks of its callers: waiting times below half the range of the tick counter, at most
  255 nested takes of a mutex, an event option, messages that are not empty. The idle thread makes no
  calls.
\<close>

fun allowed :: "call \<Rightarrow> tid \<Rightarrow> kstate \<Rightarrow> bool" where
  "allowed (SemTake m time) t s \<longleftrightarrow> may_wait s t time"
| "allowed (MutexTake m time) t s \<longleftrightarrow> may_wait s t time \<and> hold (mutexes s m) \<noteq> 255"
| "allowed (EventRecv e es opt time) t s \<longleftrightarrow> may_wait s t time \<and> (es = 0 \<or> bit opt 0 \<or> bit opt 1)"
| "allowed (MbSend m v time) t s \<longleftrightarrow> may_wait s t time"
| "allowed (MbRecv m time) t s \<longleftrightarrow> may_wait s t time"
| "allowed (MqSend m buf) t s \<longleftrightarrow> buf \<noteq> []"
| "allowed (MqUrgent m buf) t s \<longleftrightarrow> buf \<noteq> []"
| "allowed (MqRecv m sz time) t s \<longleftrightarrow> may_wait s t time \<and> sz \<noteq> 0"
| "allowed (Sleep tk) t s \<longleftrightarrow> 0 < sint tk \<and> tk < RT_TICK_HALF"
| "allowed _ t s \<longleftrightarrow> True"

text \<open>
  The time a waiting call may still wait when it is woken, with the tick at which it began to wait, for the calls that
  may wait again. \<open>short_time\<close> is the condition of \<^verbatim>\<open>rt_timer_start\<close> on such a time. When the call goes on, the code subtracts
  the ticks that have passed; \<open>in_time\<close> says that they were less than half the range of the counter.
\<close>

fun wait_of :: "pend \<Rightarrow> (rt_int32 \<times> rt_tick) option" where
  "wait_of (InMbSend m v time start) = Some (time, start)"
| "wait_of (InMbRecv m time start) = Some (time, start)"
| "wait_of (InMqRecv m sz time start) = Some (time, start)"
| "wait_of _ = None"

definition short_time :: "rt_int32 \<Rightarrow> bool" where
  "short_time time \<longleftrightarrow> sint time \<le> 0 \<or> time < RT_TICK_HALF"

definition in_time :: "pend \<Rightarrow> kstate \<Rightarrow> bool" where
  "in_time p k \<longleftrightarrow> (case wait_of p of None \<Rightarrow> True | Some (time, start) \<Rightarrow> sint time \<le> 0 \<or> unat (ktick k - start) < 2 ^ 31)"

definition short_wait :: "pend option \<Rightarrow> bool" where
  "short_wait q \<longleftrightarrow> (\<forall>p time start. q = Some p \<longrightarrow> wait_of p = Some (time, start) \<longrightarrow> short_time time)"

lemma short_wait_simps [simp]: "short_wait None" "short_wait (Some p) \<longleftrightarrow> (\<forall>time start. wait_of p = Some (time, start) \<longrightarrow> short_time time)"
  by (auto simp: short_wait_def)

lemma may_wait_short: "t \<noteq> idle \<Longrightarrow> may_wait s t time \<longleftrightarrow> short_time time"
  by (simp add: may_wait_def time_ok_def short_time_def word_less_nat_alt)

lemma upper_half_negative:
  fixes w :: "32 word"
  assumes "2 ^ 31 \<le> unat w"
  shows "sint w < 0"
proof -
  have "unat w < 2 ^ 32" using unsigned_less [of w] by simp
  then have "unat w div 2 ^ 31 = 1" using assms by (intro div_nat_eqI) simp_all
  then have "bit (unat w) 31" by (simp add: bit_iff_odd)
  then have "bit w 31" by (simp add: bit_unsigned_iff)
  then show ?thesis by (simp add: sint_uint bit_uint_iff)
qed

lemma remaining_short:
  assumes "short_time time" and "sint time \<le> 0 \<or> unat (ktick s - start) < 2 ^ 31"
  shows "short_time (remaining_time time start s)"
proof (cases "0 < sint time")
  case True
  let ?d = "ktick s - start"
  have d: "unat ?d < 2 ^ 31" and t: "unat time < 0x7fffffff"
    using assms True by (simp_all add: short_time_def word_less_nat_alt RT_TICK_HALF_num)
  show ?thesis
  proof (cases "?d \<le> time")
    case le: True
    then have "unat (time - ?d) \<le> unat time" by (simp add: unat_sub)
    then have "time - ?d < RT_TICK_HALF" using t by (simp add: word_less_nat_alt RT_TICK_HALF_num)
    then show ?thesis using True by (simp add: remaining_time_def Let_def short_time_def)
  next
    case False
    then have "unat (time - ?d) = unat time + 2 ^ 32 - unat ?d" by (simp add: unat_sub_if' word_le_nat_alt)
    then have "2 ^ 31 \<le> unat (time - ?d)" using d by simp
    then have "sint (time - ?d) < 0" by (rule upper_half_negative)
    then show ?thesis using True by (simp add: remaining_time_def Let_def short_time_def)
  qed
next
  case False
  then show ?thesis by (simp add: remaining_time_def short_time_def)
qed

section \<open>Steps\<close>

text \<open>
  \<open>inside S t m\<close> counts the successful takes of the mutex \<open>m\<close> by the thread \<open>t\<close> that it has not yet
  released: it is positive while \<open>t\<close> is in a section protected by \<open>m\<close>.
\<close>

record sys =
  kern :: kstate
  pend_of :: "tid \<Rightarrow> pend option"
  inside :: "tid \<Rightarrow> nat \<Rightarrow> nat"

datatype label = Tick | Invoke tid call | Continue tid

fun entered :: "tid \<Rightarrow> call \<Rightarrow> outcome \<Rightarrow> (tid \<Rightarrow> nat \<Rightarrow> nat) \<Rightarrow> tid \<Rightarrow> nat \<Rightarrow> nat" where
  "entered t (MutexTake m time) (Done e) I = (if e = RT_EOK then I(t := (I t)(m := I t m + 1)) else I)"
| "entered t (MutexRelease m) (Done e) I = (if e = RT_EOK then I(t := (I t)(m := I t m - 1)) else I)"
| "entered t _ _ I = I"

fun reentered :: "tid \<Rightarrow> pend \<Rightarrow> outcome \<Rightarrow> (tid \<Rightarrow> nat \<Rightarrow> nat) \<Rightarrow> tid \<Rightarrow> nat \<Rightarrow> nat" where
  "reentered t (InMutex m) (Done e) I = (if e = RT_EOK then I(t := (I t)(m := I t m + 1)) else I)"
| "reentered t _ _ I = I"

fun pending :: "outcome \<Rightarrow> pend option" where
  "pending (Done e) = None" | "pending (Waits p) = Some p"

inductive sys_step ::
  "(nat \<Rightarrow> nat \<Rightarrow> kstate \<Rightarrow> kstate option) \<Rightarrow> sys \<Rightarrow> label \<Rightarrow> sys \<Rightarrow> bool" for cb where
  clock: "clock_interrupt cb (kern S) = Some k \<Longrightarrow> sys_step cb S Tick (S\<lparr>kern := k\<rparr>)"
| invoke: "cur_thread (kern S) = Some t \<Longrightarrow> t \<noteq> idle \<Longrightarrow> pend_of S t = None \<Longrightarrow> allowed c t (kern S) \<Longrightarrow>
    exec c (kern S) = Some (res, k) \<Longrightarrow>
    sys_step cb S (Invoke t c)
      \<lparr>kern = k, pend_of = (pend_of S)(t := pending res), inside = entered t c res (inside S)\<rparr>"
| continue: "cur_thread (kern S) = Some t \<Longrightarrow> t \<noteq> idle \<Longrightarrow> pend_of S t = Some p \<Longrightarrow>
    resume t p (kern S) = Some (res, k) \<Longrightarrow>
    sys_step cb S (Continue t)
      \<lparr>kern = k, pend_of = (pend_of S)(t := pending res), inside = reentered t p res (inside S)\<rparr>"

inductive_cases sys_stepE: "sys_step cb S l S'"

text \<open>Runs, with a condition on the steps that are taken.\<close>

inductive sys_run ::
  "(nat \<Rightarrow> nat \<Rightarrow> kstate \<Rightarrow> kstate option) \<Rightarrow> (kstate \<Rightarrow> label \<Rightarrow> bool) \<Rightarrow> sys \<Rightarrow> label list \<Rightarrow> sys \<Rightarrow> bool"
  for cb P S where
  run_start: "sys_run cb P S [] S"
| run_step: "sys_run cb P S ls S1 \<Longrightarrow> P (kern S1) l \<Longrightarrow> sys_step cb S1 l S2 \<Longrightarrow> sys_run cb P S (ls @ [l]) S2"

section \<open>The invariant of the kernel\<close>

definition kernel_ok :: "kstate \<Rightarrow> bool" where
  "kernel_ok k \<longleftrightarrow> tick_inv k \<and> set (lst (tmlists k) HardTimers) \<subseteq> range ThreadTimer
     \<and> lock_nest k = 0 \<and> irq_nest k = 0 \<and> stat (threads k idle) = RT_THREAD_READY \<and> cur_ready k \<and> flags_ok k
     \<and> (\<forall>m. mutex_ok m k) \<and> (\<forall>m. mb_wf (mailboxes k m)) \<and> (\<forall>m. mq_wf (mqs k m))"

lemma kernel_running: "kernel_ok k \<Longrightarrow> cur_thread k = Some t \<Longrightarrow> running k t"
  by (auto simp: kernel_ok_def running_def tick_inv_def cur_ready_def)

lemma kernel_runs: "kernel_ok k \<Longrightarrow> \<exists>t. running k t"
  using kernel_running [of k] by (auto simp: kernel_ok_def cur_ready_def)

lemma tick_inv_kept:
  assumes "tick_inv k" and "check_inv (ktick k) k'" and "timers_kept k k'" and "ktick k' = ktick k"
  shows "tick_inv k'"
  using assms unfolding tick_inv_def timers_kept_def by auto

lemma flags_ok_kept:
  assumes "flags_ok k" and "\<forall>ob. (\<forall>r. ob \<noteq> OTimer r) \<longrightarrow> objs k' ob = objs k ob"
  shows "flags_ok k'"
  unfolding flags_ok_def
proof (intro allI impI)
  fix ob assume "ipc_object ob"
  then have "objs k' ob = objs k ob" using assms(2) by (cases ob) simp_all
  with assms(1) \<open>ipc_object ob\<close> show "o_flag (objs k' ob) = 0 \<or> o_flag (objs k' ob) = 1"
    by (simp add: flags_ok_def)
qed

text \<open>A call leaves the kernel in order when it leaves its own objects in order.\<close>

lemma kernel_ok_kept:
  assumes ok: "kernel_ok k" and inv: "check_inv (ktick k) k'" and fr: "kframe G {t} k k'" and t: "t \<noteq> idle"
    and cur: "cur_ready k'" and objs: "\<And>m. mutex_ok m k'" "\<And>m. mb_wf (mailboxes k' m)" "\<And>m. mq_wf (mqs k' m)"
  shows "kernel_ok k'"
proof -
  note same = kframe_same [OF fr]
  have k: "tick_inv k" "set (lst (tmlists k) HardTimers) \<subseteq> range ThreadTimer" "flags_ok k" "lock_nest k = 0"
    "irq_nest k = 0" "stat (threads k idle) = RT_THREAD_READY" using ok by (simp_all add: kernel_ok_def)
  have "tick_inv k'" using k(1) inv same(4,3) by (rule tick_inv_kept)
  moreover have "set (lst (tmlists k') HardTimers) \<subseteq> range ThreadTimer"
    using k(2) same(4) unfolding timers_kept_def by blast
  moreover have "stat (threads k' idle) = RT_THREAD_READY" using kframe_ready [OF fr, of idle] t k(6) by simp
  moreover have "flags_ok k'" using k(3) same(5) by (rule flags_ok_kept)
  ultimately show ?thesis using k same(1,2) cur objs by (simp add: kernel_ok_def)
qed

text \<open>The steps that have nothing to do with mutexes.\<close>

definition plain :: "tid \<Rightarrow> kstate \<Rightarrow> kstate \<Rightarrow> bool" where
  "plain t k k' \<longleftrightarrow> (\<exists>G. kcall G t k k' \<and> (\<forall>m. SuspendQ (OMutex m) \<notin> G)) \<and> mutexes k' = mutexes k
     \<and> (\<forall>m. mb_wf (mailboxes k' m)) \<and> (\<forall>m. mq_wf (mqs k' m))"

lemma mutex_ok_kept:
  "mutex_ok m k \<Longrightarrow> mutexes k' m = mutexes k m \<Longrightarrow>
    lst (tlists k') (SuspendQ (OMutex m)) = lst (tlists k) (SuspendQ (OMutex m)) \<Longrightarrow> mutex_ok m k'"
  unfolding mutex_ok_def by (simp cong: option.case_cong)

lemma plain_kernel_ok:
  assumes ok: "kernel_ok k" and pl: "plain t k k'" and t: "t \<noteq> idle"
  shows "kernel_ok k'"
proof -
  obtain G where G: "kcall G t k k'" "\<And>m. SuspendQ (OMutex m) \<notin> G" using pl by (auto simp: plain_def)
  have fr: "kframe G {t} k k'" using G(1) by (simp add: kcall_def)
  have "mutex_ok m k'" for m
  proof (rule mutex_ok_kept)
    show "mutex_ok m k" using ok by (simp add: kernel_ok_def)
    show "mutexes k' m = mutexes k m" using pl by (simp add: plain_def)
    show "lst (tlists k') (SuspendQ (OMutex m)) = lst (tlists k) (SuspendQ (OMutex m))"
      by (rule kframe_same(6) [OF fr _ G(2)]) simp
  qed
  moreover have "cur_ready k'" using settled_ready [of k k'] ok G(1) by (simp add: kernel_ok_def kcall_def)
  ultimately show ?thesis
    using pl G(1) t by (intro kernel_ok_kept [OF ok _ fr]) (simp_all add: plain_def kcall_def)
qed

fun mutex_call :: "call \<Rightarrow> bool" where
  "mutex_call (MutexTake m time) = True" | "mutex_call (MutexRelease m) = True" | "mutex_call _ = False"

lemma plainI:
  assumes "kernel_ok k" and "kcall G t k k'" and "\<And>m. SuspendQ (OMutex m) \<notin> G" and "mutexes k' = mutexes k"
    and "\<And>m. mailboxes k' m = mailboxes k m \<or> mb_wf (mailboxes k' m)"
    and "\<And>m. mqs k' m = mqs k m \<or> mq_wf (mqs k' m)"
  shows "plain t k k'"
proof -
  have "mb_wf (mailboxes k' m)" "mq_wf (mqs k' m)" for m
    using assms(1) assms(5,6) [of m] by (auto simp: kernel_ok_def)
  then show ?thesis using assms(2,3,4) unfolding plain_def by blast
qed

lemma plain_refl: "kernel_ok k \<Longrightarrow> running k t \<Longrightarrow> plain t k k"
  by (rule plainI [of k "{}"]) (auto intro: prepared_call prepared_refl)

lemma mb_send_plain:
  assumes ok: "kernel_ok k" and run: "running k t" and w: "may_wait k t time"
  shows "\<exists>r k'. mb_send_loop (Some t) m v time k = Some (r, k') \<and> plain t k k'"
proof -
  have "mb_wf (mailboxes k m)" using ok by (simp add: kernel_ok_def)
  from mb_send_loop_call [OF run w this, of v] obtain r k' where
    k': "mb_send_loop (Some t) m v time k = Some (r, k')" "kcall {SuspendQ (OMb m), SenderQ (OMb m)} t k k'"
      "mutexes k' = mutexes k" "mqs k' = mqs k" "mb_wf (mailboxes k' m)" "\<forall>m'. m' \<noteq> m \<longrightarrow> mailboxes k' m' = mailboxes k m'"
    by blast
  then have "plain t k k'" by (intro plainI [OF ok k'(2)]) (simp_all, metis)
  with k'(1) show ?thesis by blast
qed

lemma mb_recv_plain:
  assumes ok: "kernel_ok k" and run: "running k t" and w: "may_wait k t time"
  shows "\<exists>r k'. mb_recv_loop (Some t) m time k = Some (r, k') \<and> plain t k k'"
proof -
  have "mb_wf (mailboxes k m)" using ok by (simp add: kernel_ok_def)
  from mb_recv_loop_call [OF run w this] obtain r k' where
    k': "mb_recv_loop (Some t) m time k = Some (r, k')" "kcall {SuspendQ (OMb m), SenderQ (OMb m)} t k k'"
      "mutexes k' = mutexes k" "mqs k' = mqs k" "mb_wf (mailboxes k' m)" "\<forall>m'. m' \<noteq> m \<longrightarrow> mailboxes k' m' = mailboxes k m'"
    by blast
  then have "plain t k k'" by (intro plainI [OF ok k'(2)]) (simp_all, metis)
  with k'(1) show ?thesis by blast
qed

lemma mq_recv_plain:
  assumes ok: "kernel_ok k" and run: "running k t" and w: "may_wait k t time"
  shows "\<exists>r k'. mq_recv_loop (Some t) m sz time k = Some (r, k') \<and> plain t k k'"
proof -
  have "mq_wf (mqs k m)" using ok by (simp add: kernel_ok_def)
  from mq_recv_loop_call [OF run w this, of sz] obtain r k' where
    k': "mq_recv_loop (Some t) m sz time k = Some (r, k')" "kcall {SuspendQ (OMq m)} t k k'"
      "mutexes k' = mutexes k" "mailboxes k' = mailboxes k" "mq_wf (mqs k' m)" "\<forall>m'. m' \<noteq> m \<longrightarrow> mqs k' m' = mqs k m'"
    by blast
  then have "plain t k k'" by (intro plainI [OF ok k'(2)]) (simp_all, metis)
  with k'(1) show ?thesis by blast
qed

lemma mq_send_plain:
  assumes ok: "kernel_ok k" and run: "running k t" and ne: "buf \<noteq> []" and f: "f = rt_mq_send \<or> f = rt_mq_urgent"
  shows "\<exists>r k'. f m buf k = Some (r, k') \<and> plain t k k'"
proof -
  have "mq_wf (mqs k m)" using ok by (simp add: kernel_ok_def)
  from mq_send_call [OF run this ne f] obtain r k' where
    k': "f m buf k = Some (r, k')" "kcall {SuspendQ (OMq m)} t k k'"
      "mutexes k' = mutexes k" "mailboxes k' = mailboxes k" "mq_wf (mqs k' m)" "\<forall>m'. m' \<noteq> m \<longrightarrow> mqs k' m' = mqs k m'"
    by blast
  then have "plain t k k'" by (intro plainI [OF ok k'(2)]) (simp_all, metis)
  with k'(1) show ?thesis by blast
qed

text \<open>Semaphores and events change neither mailboxes nor queues.\<close>

lemma plain_other:
  assumes "kernel_ok k" and "\<exists>r k'. g = Some (r, k') \<and> kcall {SuspendQ ob} t k k'
    \<and> mutexes k' = mutexes k \<and> mailboxes k' = mailboxes k \<and> mqs k' = mqs k" and "\<And>m. ob \<noteq> OMutex m"
  shows "\<exists>r k'. g = Some (r, k') \<and> plain t k k'"
  using assms(2,3) plainI [OF assms(1), of "{SuspendQ ob}" t] by (metis lhead.inject(2) singletonD)

lemma outcome_exists: "\<exists>res. outcome_of f p (r, k) = (res, k)"
  by (cases r) simp_all

lemma exec_plain:
  assumes ok: "kernel_ok k" and cur: "cur_thread k = Some t" and al: "allowed c t k" and t: "t \<noteq> idle"
    and nm: "\<not> mutex_call c"
  shows "\<exists>res k'. exec c k = Some (res, k') \<and> plain t k k'"
proof -
  have run: "running k t" using ok cur by (rule kernel_running)
  note self = plain_refl [OF ok run]
  show ?thesis
  proof (cases c)
    case (SemTake m time)
    have "\<exists>r k'. rt_sem_take m time k = Some (r, k') \<and> plain t k k'"
      using sem_take_call [OF run, of time m] SemTake al by (intro plain_other [OF ok]) auto
    then show ?thesis using SemTake outcome_exists by fastforce
  next
    case (SemRelease m)
    have "\<exists>r k'. rt_sem_release m k = Some (r, k') \<and> plain t k k'"
      using sem_release_call [OF run, of m] by (intro plain_other [OF ok]) auto
    then show ?thesis using SemRelease by auto
  next
    case (EventSend e es)
    have "\<exists>r k'. rt_event_send e es k = Some (r, k') \<and> plain t k k'"
      using event_send_call [OF run, of e es] by (intro plain_other [OF ok]) auto
    then show ?thesis using EventSend by auto
  next
    case (EventRecv e es opt time)
    have "\<exists>r k'. rt_event_recv e es opt time k = Some (r, k') \<and> plain t k k'"
      using event_recv_call [OF run, of time es opt e] EventRecv al by (intro plain_other [OF ok]) auto
    then show ?thesis using EventRecv outcome_exists by fastforce
  next
    case (MbSend m v time)
    then show ?thesis
      using mb_send_plain [OF ok run, of time m v] self al cur outcome_exists by (fastforce simp: rt_mb_send_wait_def)
  next
    case (MbRecv m time)
    then show ?thesis
      using mb_recv_plain [OF ok run, of time m] self al cur outcome_exists by (fastforce simp: rt_mb_recv_def)
  next
    case (MqSend m buf)
    then show ?thesis using mq_send_plain [OF ok run, of buf rt_mq_send m] al by auto
  next
    case (MqUrgent m buf)
    then show ?thesis using mq_send_plain [OF ok run, of buf rt_mq_urgent m] al by auto
  next
    case (MqRecv m sz time)
    then show ?thesis
      using mq_recv_plain [OF ok run, of time m sz] self al cur outcome_exists by (fastforce simp: rt_mq_recv_def)
  next
    case Yield
    obtain k' where k': "rt_thread_yield k = Some (RT_EOK, k')" "kcall {} t k k'" "same_objects k k'"
      using yield_call [OF run] by blast
    then have "plain t k k'" by (intro plainI [OF ok k'(2)]) simp_all
    with k'(1) Yield show ?thesis by simp
  next
    case (Sleep tk)
    obtain k' where k': "rt_thread_sleep tk k = Some k'" "kcall {} t k k'" "same_objects k k'"
      using sleep_call [OF run t, of tk] Sleep al by auto
    then have "plain t k k'" by (intro plainI [OF ok k'(2)]) simp_all
    with k'(1) Sleep show ?thesis by simp
  qed (use nm in simp_all)
qed

text \<open>A wait for a time that is too long stops at the assertion of \<^verbatim>\<open>rt_timer_start\<close>.\<close>

lemma long_wait_stops: "\<not> short_time time \<Longrightarrow> ipc_wait h t flg time s = None"
  by (simp add: ipc_wait_def start_wait_timer_def rt_timer_start_def rt_timer_remove_def short_time_def Let_def)

lemma loops_long:
  assumes "\<not> short_time time"
  shows "mb_send_loop (Some t) m v time k = Some (r, k') \<Longrightarrow> mb_send_loop (Some t) m v 0 k = Some (r, k') \<and> r \<noteq> Blocked"
    and "mb_recv_loop (Some t) m time k = Some (x, k') \<Longrightarrow> mb_recv_loop (Some t) m 0 k = Some (x, k') \<and> x \<noteq> Blocked"
    and "mq_recv_loop (Some t) m sz time k = Some (y, k') \<Longrightarrow> mq_recv_loop (Some t) m sz 0 k = Some (y, k') \<and> y \<noteq> Blocked"
proof -
  have z: "time \<noteq> 0" using assms by (auto simp: short_time_def)
  show "mb_send_loop (Some t) m v time k = Some (r, k') \<Longrightarrow> mb_send_loop (Some t) m v 0 k = Some (r, k') \<and> r \<noteq> Blocked"
    using z by (auto simp: mb_send_loop_def long_wait_stops [OF assms] Let_def split: if_splits bind_splits)
  show "mb_recv_loop (Some t) m time k = Some (x, k') \<Longrightarrow> mb_recv_loop (Some t) m 0 k = Some (x, k') \<and> x \<noteq> Blocked"
    using z by (auto simp: mb_recv_loop_def long_wait_stops [OF assms] Let_def split: if_splits bind_splits prod.splits)
  show "mq_recv_loop (Some t) m sz time k = Some (y, k') \<Longrightarrow> mq_recv_loop (Some t) m sz 0 k = Some (y, k') \<and> y \<noteq> Blocked"
    using z by (auto simp: mq_recv_loop_def long_wait_stops [OF assms] Let_def split: if_splits bind_splits prod.splits)
qed

lemma outcome_some:
  assumes "map_option (outcome_of f q) g = Some (res, k')"
  obtains r where "g = Some (r, k')" "pending res = (if r = Blocked then Some q else None)"
  using assms by (auto elim!: outcome_of.elims)

text \<open>
  A call that goes on is plain whenever it returns, and it returns when its time was short and it goes on in time.
\<close>

lemma resume_plain:
  assumes ok: "kernel_ok k" and cur: "cur_thread k = Some t" and t: "t \<noteq> idle"
  shows "resume t p k = Some (res, k') \<Longrightarrow> plain t k k' \<and> short_wait (pending res)"
    and "short_wait (Some p) \<Longrightarrow> in_time p k \<Longrightarrow> \<exists>res k'. resume t p k = Some (res, k')"
proof -
  have run: "running k t" using ok cur by (rule kernel_running)
  note self = plain_refl [OF ok run] and mw = may_wait_short [OF t]
  have z: "short_time 0" by (simp add: short_time_def)
  have send: "plain t k k' \<and> (r = Blocked \<longrightarrow> short_time time)" if "mb_send_loop (Some t) m v time k = Some (r, k')" for m v time r k'
    using mb_send_plain [OF ok run, of time m v] mb_send_plain [OF ok run, of 0 m v] that loops_long(1) mw z by (cases "short_time time") fastforce+
  have recv: "plain t k k' \<and> (r = Blocked \<longrightarrow> short_time time)" if "mb_recv_loop (Some t) m time k = Some (r, k')" for m time r k'
    using mb_recv_plain [OF ok run, of time m] mb_recv_plain [OF ok run, of 0 m] that loops_long(2) mw z by (cases "short_time time") fastforce+
  have mrecv: "plain t k k' \<and> (r = Blocked \<longrightarrow> short_time time)" if "mq_recv_loop (Some t) m sz time k = Some (r, k')" for m sz time r k'
    using mq_recv_plain [OF ok run, of time m sz] mq_recv_plain [OF ok run, of 0 m sz] that loops_long(3) mw z by (cases "short_time time") fastforce+
  have sleep: "plain t k (upd_thread t (\<lambda>th. th\<lparr>error := RT_EOK\<rparr>) k)"
    using prepared_call [OF prepared_error [OF prepared_refl [OF run]]] by (rule plainI [OF ok, of "{}"]) simp_all
  show "plain t k k' \<and> short_wait (pending res)" if r: "resume t p k = Some (res, k')"
  proof (cases p)
    case (InMbSend m v time start)
    obtain x where "rt_mb_send_wait_wake t m v time start k = Some (x, k')"
      "pending res = (if x = Blocked then Some (InMbSend m v (remaining_time time start k) (ktick k)) else None)"
      by (rule outcome_some [OF r [unfolded InMbSend resume.simps]])
    then show ?thesis using send [of m v] self by (auto simp: rt_mb_send_wait_wake_def split: if_splits)
  next
    case (InMbRecv m time start)
    obtain x where "rt_mb_recv_wake t m time start k = Some (x, k')"
      "pending res = (if x = Blocked then Some (InMbRecv m (remaining_time time start k) (ktick k)) else None)"
      by (rule outcome_some [OF r [unfolded InMbRecv resume.simps]])
    then show ?thesis using recv [of m] self by (auto simp: rt_mb_recv_wake_def split: if_splits)
  next
    case (InMqRecv m sz time start)
    obtain x where "rt_mq_recv_wake t m sz time start k = Some (x, k')"
      "pending res = (if x = Blocked then Some (InMqRecv m sz (remaining_time time start k) (ktick k)) else None)"
      by (rule outcome_some [OF r [unfolded InMqRecv resume.simps]])
    then show ?thesis using mrecv [of m sz] self by (auto simp: rt_mq_recv_wake_def split: if_splits)
  next
    case InSleep
    then show ?thesis using r self sleep by (auto simp: rt_thread_sleep_wake_def split: if_splits)
  qed (use r self in auto)
  show "\<exists>res k'. resume t p k = Some (res, k')" if "short_wait (Some p)" "in_time p k"
  proof -
    have rem: "may_wait k t (remaining_time time start k)" if "wait_of p = Some (time, start)" for time start
      using that \<open>short_wait (Some p)\<close> \<open>in_time p k\<close> remaining_short [of time k start] mw by (simp add: in_time_def)
    have ex: "\<exists>res k'. map_option (outcome_of f q) g = Some (res, k')" if "\<exists>x. g = Some x" for f :: "'b \<Rightarrow> rt_err" and q g
      using that by (metis option.simps(9) surj_pair)
    show ?thesis
    proof (cases p)
      case (InMbSend m v time start)
      then show ?thesis
        using mb_send_plain [OF ok run rem, of time start m v] by (auto simp: rt_mb_send_wait_wake_def intro!: ex)
    next
      case (InMbRecv m time start)
      then show ?thesis
        using mb_recv_plain [OF ok run rem, of time start m] by (auto simp: rt_mb_recv_wake_def intro!: ex)
    next
      case (InMqRecv m sz time start)
      then show ?thesis
        using mq_recv_plain [OF ok run rem, of time start m sz] by (auto simp: rt_mq_recv_wake_def intro!: ex)
    qed (simp_all add: rt_thread_sleep_wake_def)
  qed
qed

lemma exec_short:
  assumes "exec c k = Some (res, k')" and "allowed c t k" and "t \<noteq> idle"
  shows "short_wait (pending res)"
  using assms by (cases c) (auto simp: may_wait_short elim!: outcome_of.elims)

end
