(* ===== verification/Rt_Runs.thy ===== *)
theory Rt_Runs
  imports Rt_System
begin

text \<open>
  What holds in every run of the system of theory \<open>Rt_System\<close>: the invariant of the kernel, the
  bookkeeping of the mutexes from which mutual exclusion follows, that every call returns, that the
  processor belongs to the most urgent thread, and that a waiting time ends.
\<close>

section \<open>Who waits for a mutex, and who holds it\<close>

text \<open>
  For a thread \<open>u\<close> with the continuation \<open>p\<close> that has taken the mutex \<open>m\<close> \<open>n\<close> times: it waits in the list
  of \<open>m\<close> only in a take of \<open>m\<close>; when it has left the list without an error it is the owner; and while it
  is in a section of \<open>m\<close> it is the owner.
\<close>

definition mx_at :: "kstate \<Rightarrow> pend option \<Rightarrow> nat \<Rightarrow> tid \<Rightarrow> nat \<Rightarrow> bool" where
  "mx_at k p n u m \<longleftrightarrow>
     (u \<in> set (lst (tlists k) (SuspendQ (OMutex m))) \<longrightarrow> p = Some (InMutex m) \<and> error (threads k u) = RT_EOK)
     \<and> (p = Some (InMutex m) \<longrightarrow> n = 0 \<and> (u \<in> set (lst (tlists k) (SuspendQ (OMutex m)))
          \<or> error (threads k u) \<noteq> RT_EOK \<or> owner (mutexes k m) = Some u))
     \<and> (0 < n \<longrightarrow> owner (mutexes k m) = Some u \<and> n \<le> unat (hold (mutexes k m)))"

definition mutex_inv :: "sys \<Rightarrow> bool" where
  "mutex_inv S \<longleftrightarrow> (\<forall>u m. mx_at (kern S) (pend_of S u) (inside S u m) u m)"

text \<open>
  With the kernel and the mutexes, the times that the waiting calls have kept are times for which a
  timer can be started.
\<close>

definition sys_inv :: "sys \<Rightarrow> bool" where
  "sys_inv S \<longleftrightarrow> kernel_ok (kern S) \<and> mutex_inv S \<and> (\<forall>t. short_wait (pend_of S t))"

lemma short_waits_after:
  "sys_inv S \<Longrightarrow> short_wait p \<Longrightarrow> short_wait (((pend_of S)(t := p)) u)"
  by (simp add: sys_inv_def)

lemma mx_at_other:
  assumes "mx_at k p n u m" and "lst (tlists k') (SuspendQ (OMutex m)) = lst (tlists k) (SuspendQ (OMutex m))"
    and "mutexes k' m = mutexes k m" and "error (threads k' u) = error (threads k u)"
  shows "mx_at k' p n u m"
  using assms by (simp add: mx_at_def)

lemma mx_at_self:
  assumes "mx_at k p n t m" and "lst (tlists k') (SuspendQ (OMutex m)) = lst (tlists k) (SuspendQ (OMutex m))"
    and "mutexes k' m = mutexes k m" and "t \<notin> set (lst (tlists k) (SuspendQ (OMutex m)))"
    and "p' \<noteq> Some (InMutex m)"
  shows "mx_at k' p' n t m"
  using assms by (simp add: mx_at_def)

lemma running_not_waiting:
  assumes "running k t" and "wait_head h"
  shows "t \<notin> set (lst (tlists k) h)"
proof
  assume "t \<in> set (lst (tlists k) h)"
  then have "stat (threads k t) = RT_THREAD_SUSPEND"
    using assms waiter_suspended [of "ktick k" k h t] by (simp add: running_def)
  with assms(1) show False by (simp add: running_def)
qed

text \<open>A step that leaves all mutexes alone, by a thread that is not in a take.\<close>

lemma mutex_inv_plain:
  assumes inv: "mutex_inv S" and run: "running (kern S) t" and pl: "plain t (kern S) k'"
    and p': "\<And>m. p' \<noteq> Some (InMutex m)"
  shows "mutex_inv \<lparr>kern = k', pend_of = (pend_of S)(t := p'), inside = inside S\<rparr>"
proof -
  obtain G where G: "kframe G {t} (kern S) k'" "\<And>m. SuspendQ (OMutex m) \<notin> G"
    using pl by (auto simp: plain_def kcall_def)
  have mx: "mutexes k' = mutexes (kern S)" using pl by (simp add: plain_def)
  have lists: "lst (tlists k') (SuspendQ (OMutex m)) = lst (tlists (kern S)) (SuspendQ (OMutex m))" for m
    by (rule kframe_same(6) [OF G(1) _ G(2)]) simp
  have "mx_at k' (((pend_of S)(t := p')) u) (inside S u m) u m" for u m
  proof (cases "u = t")
    case True
    have "mx_at (kern S) (pend_of S t) (inside S t m) t m" using inv by (simp add: mutex_inv_def)
    then have "mx_at k' p' (inside S t m) t m"
      by (rule mx_at_self [OF _ lists _ running_not_waiting [OF run] p']) (simp_all add: mx)
    with True show ?thesis by simp
  next
    case False
    have "mx_at (kern S) (pend_of S u) (inside S u m) u m" using inv by (simp add: mutex_inv_def)
    with False show ?thesis
      using kframe_stat(1) [OF G(1), of u] lists mx by (simp add: mx_at_other)
  qed
  then show ?thesis by (simp add: mutex_inv_def)
qed

lemma outcome_pending: "outcome_of f p x = (res, k') \<Longrightarrow> pending res = Some q \<Longrightarrow> q = p"
  by (cases "(f, p, x)" rule: outcome_of.cases) auto

lemma exec_no_mutex:
  assumes "exec c k = Some (res, k')" and "\<not> mutex_call c"
  shows "pending res \<noteq> Some (InMutex m)" and "entered t c res I = I"
  using assms by (cases c; auto dest: outcome_pending)+

lemma resume_no_mutex:
  assumes "resume t p k = Some (res, k')" and "\<And>m. p \<noteq> InMutex m"
  shows "pending res \<noteq> Some (InMutex m)" and "reentered t p res I = I"
  using assms by (cases p; auto simp: rt_thread_sleep_wake_def dest: outcome_pending)+

section \<open>The steps on a mutex\<close>

text \<open>The state after a step of the thread \<open>t\<close>.\<close>

abbreviation after :: "sys \<Rightarrow> tid \<Rightarrow> kstate \<Rightarrow> pend option \<Rightarrow> (tid \<Rightarrow> nat \<Rightarrow> nat) \<Rightarrow> sys" where
  "after S t k p I \<equiv> \<lparr>kern = k, pend_of = (pend_of S)(t := p), inside = I\<rparr>"

text \<open>It is enough to look at the mutex of the call.\<close>

lemma mutex_inv_step:
  assumes inv: "mutex_inv S" and run: "running (kern S) t" and fr: "kframe {SuspendQ (OMutex m)} {t} (kern S) k'"
    and mx: "\<And>m'. m' \<noteq> m \<Longrightarrow> mutexes k' m' = mutexes (kern S) m'"
    and p: "p = None \<or> p = Some (InMutex m)" and i: "\<And>u m'. u \<noteq> t \<or> m' \<noteq> m \<Longrightarrow> I u m' = inside S u m'"
    and self: "mx_at k' p (I t m) t m"
    and others: "\<And>u. u \<noteq> t \<Longrightarrow> mx_at (kern S) (pend_of S u) (inside S u m) u m \<Longrightarrow>
      error (threads k' u) = error (threads (kern S) u) \<Longrightarrow> mx_at k' (pend_of S u) (inside S u m) u m"
  shows "mutex_inv (after S t k' p I)"
proof -
  have lists: "lst (tlists k') (SuspendQ (OMutex m')) = lst (tlists (kern S)) (SuspendQ (OMutex m'))"
    if "m' \<noteq> m" for m' by (rule kframe_same(6) [OF fr]) (use that in simp_all)
  have old: "mx_at (kern S) (pend_of S u) (inside S u m') u m'" for u m' using inv by (simp add: mutex_inv_def)
  have "mx_at k' (((pend_of S)(t := p)) u) (I u m') u m'" for u m'
  proof (cases "u = t")
    case ut: True
    show ?thesis
    proof (cases "m' = m")
      case True
      with self ut show ?thesis by simp
    next
      case False
      have "p \<noteq> Some (InMutex m')" using p False by auto
      with mx_at_self [OF old lists [OF False] mx [OF False] running_not_waiting [OF run]] ut i [of u m'] False
      show ?thesis by simp
    qed
  next
    case ut: False
    then have e: "error (threads k' u) = error (threads (kern S) u)" using kframe_stat(1) [OF fr] by simp
    show ?thesis
    proof (cases "m' = m")
      case True
      with others [OF ut old e] ut i [of u m] show ?thesis by simp
    next
      case False
      with mx_at_other [OF old lists mx e] ut i [of u m'] show ?thesis by simp
    qed
  qed
  then show ?thesis by (simp add: mutex_inv_def)
qed

text \<open>What is shown of a step of \<open>t\<close> from \<open>S\<close>: the invariant, a frame, and that the scheduler was not bypassed.\<close>

definition good_step :: "sys \<Rightarrow> tid \<Rightarrow> sys \<Rightarrow> bool" where
  "good_step S t S' \<longleftrightarrow> sys_inv S' \<and> (\<exists>G. kframe G {t} (kern S) (kern S'))"

lemma kernel_ok_mutex:
  assumes ok: "kernel_ok k" and inv: "check_inv (ktick k) k'" and fr: "kframe {SuspendQ (OMutex m)} {t} k k'"
    and t: "t \<noteq> idle" and cur: "cur_ready k'" and mb: "mailboxes k' = mailboxes k" and mq: "mqs k' = mqs k"
    and mx: "\<And>m'. m' \<noteq> m \<Longrightarrow> mutexes k' m' = mutexes k m'" and m: "mutex_ok m k'"
  shows "kernel_ok k'"
proof (rule kernel_ok_kept [OF ok inv fr t cur])
  show "mutex_ok m' k'" for m'
  proof (cases "m' = m")
    case False
    have "lst (tlists k') (SuspendQ (OMutex m')) = lst (tlists k) (SuspendQ (OMutex m'))"
      by (rule kframe_same(6) [OF fr]) (use False in simp_all)
    with ok mx [OF False] show ?thesis by (auto simp: kernel_ok_def intro: mutex_ok_kept)
  qed (use m in simp)
qed (use ok mb mq in \<open>simp_all add: kernel_ok_def\<close>)

lemma good_stepI:
  assumes sys: "sys_inv S" and run: "running (kern S) t" and inv: "check_inv (ktick (kern S)) k'"
    and fr: "kframe {SuspendQ (OMutex m)} {t} (kern S) k'"
    and t: "t \<noteq> idle" and cur: "cur_ready k'" and mb: "mailboxes k' = mailboxes (kern S)" and mq: "mqs k' = mqs (kern S)"
    and mx: "\<And>m'. m' \<noteq> m \<Longrightarrow> mutexes k' m' = mutexes (kern S) m'" and m: "mutex_ok m k'"
    and p: "p = None \<or> p = Some (InMutex m)" and i: "\<And>u m'. u \<noteq> t \<or> m' \<noteq> m \<Longrightarrow> I u m' = inside S u m'"
    and self: "mx_at k' p (I t m) t m"
    and others: "\<And>u. u \<noteq> t \<Longrightarrow> mx_at (kern S) (pend_of S u) (inside S u m) u m \<Longrightarrow>
      error (threads k' u) = error (threads (kern S) u) \<Longrightarrow> mx_at k' (pend_of S u) (inside S u m) u m"
  shows "good_step S t (after S t k' p I)"
proof -
  have "kernel_ok (kern S)" "mutex_inv S" using sys by (simp_all add: sys_inv_def)
  then have "kernel_ok k'" "mutex_inv (after S t k' p I)"
    using kernel_ok_mutex [OF _ inv fr t cur mb mq mx m] mutex_inv_step [OF _ run fr mx p i self others] by blast+
  moreover have "short_wait p" using p by auto
  ultimately show ?thesis using fr short_waits_after [OF sys, of p] by (auto simp: good_step_def sys_inv_def simp del: fun_upd_apply)
qed

lemma call_ready:
  assumes "sys_inv S" and "kcall G t (kern S) k'"
  shows "check_inv (ktick (kern S)) k'" and "cur_ready k'" and "scheduled (kern S) \<Longrightarrow> scheduled k'"
    and "G \<subseteq> H \<Longrightarrow> kframe H {t} (kern S) k'"
proof -
  have l: "lock_nest (kern S) = 0" "cur_ready (kern S)" using assms(1) by (simp_all add: sys_inv_def kernel_ok_def)
  show "check_inv (ktick (kern S)) k'" using assms(2) by (simp add: kcall_def)
  show "cur_ready k'" using settled_ready [OF _ l] assms(2) by (simp add: kcall_def)
  show "scheduled k'" if "scheduled (kern S)" using settled_scheduled [OF _ l(1) that] assms(2) by (simp add: kcall_def)
  show "kframe H {t} (kern S) k'" if "G \<subseteq> H" using assms(2) that by (auto simp: kcall_def elim: kframe_mono)
qed

lemma take_step:
  assumes sys: "sys_inv S" and cur: "cur_thread (kern S) = Some t" and t: "t \<noteq> idle" and p: "pend_of S t = None"
    and al: "allowed (MutexTake m time) t (kern S)"
  shows "\<exists>res k'. exec (MutexTake m time) (kern S) = Some (res, k')
    \<and> good_step S t (after S t k' (pending res) (entered t (MutexTake m time) res (inside S)))
    \<and> (scheduled (kern S) \<longrightarrow> scheduled k')"
proof -
  let ?k = "kern S" and ?h = "SuspendQ (OMutex m)"
  have ok: "kernel_ok ?k" and mi: "mutex_inv S" using sys by (simp_all add: sys_inv_def)
  have run: "running ?k t" using ok cur by (rule kernel_running)
  have mok: "mutex_ok m ?k" using ok by (simp add: kernel_ok_def)
  have self: "mx_at ?k None (inside S t m) t m" using mi p by (metis mutex_inv_def)
  have w: "may_wait ?k t time" "hold (mutexes ?k m) \<noteq> 255" using al by simp_all
  show ?thesis
  proof (cases rule: mutex_take_call [OF run w(1) mok w(2)])
    case (1 k')
    note c = call_ready [OF sys 1(2)]
    let ?I = "(inside S)(t := (inside S t)(m := inside S t m + 1))"
    have "good_step S t (after S t k' None ?I)"
    proof (rule good_stepI [OF sys run c(1) c(4) t c(2)])
      show "mx_at k' None (?I t m) t m"
        using self 1(10,8,9) by (auto simp: mx_at_def)
      show "mx_at k' (pend_of S u) (inside S u m) u m"
        if "u \<noteq> t" "mx_at ?k (pend_of S u) (inside S u m) u m" "error (threads k' u) = error (threads ?k u)" for u
        using that 1(7,10) by (auto simp: mx_at_def)
    qed (use 1 in auto)
    with 1(1) c(3) show ?thesis by auto
  next
    case (2 k')
    note c = call_ready [OF sys 2(2)]
    have "good_step S t (after S t k' None (inside S))"
    proof (rule good_stepI [OF sys run c(1) c(4) t c(2)])
      show "mutex_ok m k'" using mok 2 by (auto intro: mutex_ok_kept)
      show "mx_at k' None (inside S t m) t m"
        using self 2 by (auto simp: mx_at_def)
      show "mx_at k' (pend_of S u) (inside S u m) u m"
        if "u \<noteq> t" "mx_at ?k (pend_of S u) (inside S u m) u m" "error (threads k' u) = error (threads ?k u)" for u
        using that 2 by (auto simp: mx_at_def)
    qed (use 2 in auto)
    with 2(1) c(3) show ?thesis by auto
  next
    case (3 k')
    note c = call_ready [OF sys 3(2)]
    have wf: "lstore_wf (tlists k')" "lstore_wf (tlists ?k)"
      using c(1) run by (auto simp: check_inv_def SI_def running_def)
    then have q: "u \<in> set (lst (tlists k') ?h) \<longleftrightarrow> u = t \<or> u \<in> set (lst (tlists ?k) ?h)" for u
      using 3(8,10) by (metis wf_mem)
    have "good_step S t (after S t k' (Some (InMutex m)) (inside S))"
    proof (rule good_stepI [OF sys run c(1) c(4) t c(2)])
      show "mutex_ok m k'" using mok 3(5,6) by (auto simp: mutex_ok_def)
      show "mx_at k' (Some (InMutex m)) (inside S t m) t m"
        using self 3(7,9) q by (auto simp: mx_at_def)
      show "mx_at k' (pend_of S u) (inside S u m) u m"
        if "u \<noteq> t" "mx_at ?k (pend_of S u) (inside S u m) u m" "error (threads k' u) = error (threads ?k u)" for u
        using that 3(5) q by (auto simp: mx_at_def)
    qed (use 3 in auto)
    with 3(1) c(3) show ?thesis by auto
  qed
qed

text \<open>
  The condition on a release that is not followed by a call of the scheduler: it does not lower the
  priority of the running thread.
\<close>

definition keeps_priority :: "kstate \<Rightarrow> nat \<Rightarrow> bool" where
  "keeps_priority k m \<longleftrightarrow> (\<forall>t. owner (mutexes k m) = Some t \<longrightarrow> original_priority (mutexes k m) = current_priority (threads k t))"

lemma release_step:
  assumes sys: "sys_inv S" and cur: "cur_thread (kern S) = Some t" and t: "t \<noteq> idle" and p: "pend_of S t = None"
  shows "\<exists>res k'. exec (MutexRelease m) (kern S) = Some (res, k')
    \<and> good_step S t (after S t k' (pending res) (entered t (MutexRelease m) res (inside S)))
    \<and> (scheduled (kern S) \<and> keeps_priority (kern S) m \<longrightarrow> scheduled k')"
proof -
  let ?k = "kern S" and ?h = "SuspendQ (OMutex m)"
  let ?I = "(inside S)(t := (inside S t)(m := inside S t m - 1))"
  have ok: "kernel_ok ?k" and mi: "mutex_inv S" using sys by (simp_all add: sys_inv_def)
  have run: "running ?k t" using ok cur by (rule kernel_running)
  have mok: "mutex_ok m ?k" and lock: "lock_nest ?k = 0" using ok by (simp_all add: kernel_ok_def)
  have self: "mx_at ?k None (inside S t m) t m" using mi p by (metis mutex_inv_def)
  have nw: "t \<notin> set (lst (tlists ?k) ?h)" by (rule running_not_waiting [OF run]) simp
  show ?thesis
  proof (cases rule: mutex_release_call [OF run mok])
    case (1 k')
    note c = call_ready [OF sys 1(2)]
    have "good_step S t (after S t k' None (inside S))"
    proof (rule good_stepI [OF sys run c(1) c(4) t c(2)])
      show "mutex_ok m k'" using mok 1 by (auto intro: mutex_ok_kept)
      show "mx_at k' None (inside S t m) t m" using self 1 by (auto simp: mx_at_def)
      show "mx_at k' (pend_of S u) (inside S u m) u m"
        if "u \<noteq> t" "mx_at ?k (pend_of S u) (inside S u m) u m" "error (threads k' u) = error (threads ?k u)" for u
        using that 1 by (auto simp: mx_at_def)
    qed (use 1 in auto)
    with 1(1) c(3) show ?thesis by auto
  next
    case (2 k')
    note c = call_ready [OF sys 2(2)]
    have h: "0 < hold (mutexes ?k m)" using mok 2(6) by (simp add: mutex_ok_def)
    then have h1: "unat (hold (mutexes ?k m) - 1) = unat (hold (mutexes ?k m)) - 1" by (simp add: unat_minus_one)
    have h2: "0 < hold (mutexes ?k m) - 1" using 2(7) by (simp add: word_gt_0)
    have "good_step S t (after S t k' None ?I)"
    proof (rule good_stepI [OF sys run c(1) c(4) t c(2)])
      show "mutex_ok m k'" using mok 2 h2 by (simp add: mutex_ok_def)
      show "mx_at k' None (?I t m) t m" using self 2(5,6,8) h1 by (auto simp: mx_at_def)
      show "mx_at k' (pend_of S u) (inside S u m) u m"
        if "u \<noteq> t" "mx_at ?k (pend_of S u) (inside S u m) u m" "error (threads k' u) = error (threads ?k u)" for u
        using that 2(5,6,8) by (auto simp: mx_at_def)
    qed (use 2 in auto)
    with 2(1) c(3) show ?thesis by auto
  next
    case (3 k' u us)
    note sc = scheduled_from_cur [OF 3(4) lock]
    have d: "distinct (lst (tlists ?k) ?h)" using run by (intro wf_distinct) (auto simp: running_def check_inv_def SI_def)
    have "good_step S t (after S t k' None ?I)"
    proof (rule good_stepI [OF sys run 3(2,3) t sc(2)])
      show "mx_at k' None (?I t m) t m" using self nw 3(10,12,13) by (auto simp: mx_at_def)
      show "mx_at k' (pend_of S v) (inside S v m) v m"
        if "v \<noteq> t" "mx_at ?k (pend_of S v) (inside S v m) v m" "error (threads k' v) = error (threads ?k v)" for v
        using that 3(9,11,12,13) d by (auto simp: mx_at_def)
    qed (use 3 in auto)
    with 3(1) sc(1) show ?thesis by auto
  next
    case (4 k')
    have e: "lst (tlists k') ?h = []" using kframe_same(6) [OF 4(3), of ?h] 4(12) by simp
    have fr: "kframe {?h} {t} ?k k'" using 4(3) by (rule kframe_mono) simp_all
    have "good_step S t (after S t k' None ?I)"
    proof (rule good_stepI [OF sys run 4(2) fr t 4(4)])
      show "mx_at k' None (?I t m) t m" using self e 4(10) by (auto simp: mx_at_def)
      show "mx_at k' (pend_of S v) (inside S v m) v m"
        if "v \<noteq> t" "mx_at ?k (pend_of S v) (inside S v m) v m" "error (threads k' v) = error (threads ?k v)" for v
        using that 4(9,11,12) e by (auto simp: mx_at_def)
    qed (use 4 in auto)
    moreover have "scheduled k'" if "scheduled ?k" "keeps_priority ?k m"
      using settled_scheduled [OF 4(13) lock that(1)] that(2) 4(9) by (simp add: keeps_priority_def)
    ultimately show ?thesis using 4(1) by auto
  qed
qed

section \<open>Every step\<close>

lemma good_plain:
  assumes sys: "sys_inv S" and cur: "cur_thread (kern S) = Some t" and t: "t \<noteq> idle" and pl: "plain t (kern S) k'"
    and p: "\<And>m. p \<noteq> Some (InMutex m)" and sh: "short_wait p"
  shows "good_step S t (after S t k' p (inside S))" and "scheduled (kern S) \<Longrightarrow> scheduled k'"
proof -
  have ok: "kernel_ok (kern S)" and mi: "mutex_inv S" using sys by (simp_all add: sys_inv_def)
  obtain G where G: "kcall G t (kern S) k'" using pl by (auto simp: plain_def)
  show "scheduled k'" if "scheduled (kern S)" using call_ready(3) [OF sys G that] .
  have "kframe G {t} (kern S) k'" using G by (simp add: kcall_def)
  then show "good_step S t (after S t k' p (inside S))"
    using plain_kernel_ok [OF ok pl t] mutex_inv_plain [OF mi kernel_running [OF ok cur] pl p]
      short_waits_after [OF sys sh]
    by (auto simp: good_step_def sys_inv_def simp del: fun_upd_apply)
qed

lemma invoke_step:
  assumes sys: "sys_inv S" and cur: "cur_thread (kern S) = Some t" and t: "t \<noteq> idle" and p: "pend_of S t = None"
    and al: "allowed c t (kern S)"
  shows "\<exists>res k'. exec c (kern S) = Some (res, k')
    \<and> good_step S t (after S t k' (pending res) (entered t c res (inside S)))
    \<and> (scheduled (kern S) \<and> (\<forall>m. c = MutexRelease m \<longrightarrow> keeps_priority (kern S) m) \<longrightarrow> scheduled k')"
proof (cases "mutex_call c")
  case True
  then consider m time where "c = MutexTake m time" | m where "c = MutexRelease m" by (cases c) auto
  then show ?thesis
  proof cases
    case 1
    with take_step [OF sys cur t p] al show ?thesis by blast
  next
    case 2
    with release_step [OF sys cur t p] show ?thesis by blast
  qed
next
  case False
  have ok: "kernel_ok (kern S)" using sys by (simp add: sys_inv_def)
  obtain res k' where k': "exec c (kern S) = Some (res, k')" "plain t (kern S) k'"
    using exec_plain [OF ok cur al t False] by blast
  with good_plain [OF sys cur t k'(2), of "pending res"] exec_no_mutex [OF k'(1) False]
    exec_short [OF k'(1) al t] show ?thesis by auto
qed

lemma continue_step:
  assumes sys: "sys_inv S" and cur: "cur_thread (kern S) = Some t" and t: "t \<noteq> idle" and p: "pend_of S t = Some p"
    and r: "resume t p (kern S) = Some (res, k')"
  shows "good_step S t (after S t k' (pending res) (reentered t p res (inside S)))
    \<and> (scheduled (kern S) \<longrightarrow> scheduled k')"
proof (cases "\<exists>m. p = InMutex m")
  case True
  then obtain m where m: "p = InMutex m" by blast
  let ?k = "kern S" and ?e = "error (threads (kern S) t)"
  have ok: "kernel_ok ?k" and mi: "mutex_inv S" using sys by (simp_all add: sys_inv_def)
  have run: "running ?k t" using ok cur by (rule kernel_running)
  have mok: "mutex_ok m ?k" and cr: "cur_ready ?k" and inv: "check_inv (ktick ?k) ?k"
    using ok by (simp_all add: kernel_ok_def tick_inv_def)
  have self: "mx_at ?k (Some (InMutex m)) (inside S t m) t m" using mi p m by (metis mutex_inv_def)
  have nw: "t \<notin> set (lst (tlists ?k) (SuspendQ (OMutex m)))" by (rule running_not_waiting [OF run]) simp
  have res: "res = Done ?e" "k' = ?k" using r m by (auto simp: rt_mutex_take_wake_def)
  let ?I = "reentered t p (Done ?e) (inside S)"
  have "good_step S t (after S t ?k None ?I)"
  proof (rule good_stepI [OF sys run inv kframe_refl t cr])
    have n: "inside S t m = 0" "?e = RT_EOK \<Longrightarrow> owner (mutexes ?k m) = Some t" using self nw by (auto simp: mx_at_def)
    have "Suc 0 \<le> unat (hold (mutexes ?k m))" if "?e = RT_EOK"
      using mok n(2) [OF that] by (simp add: mutex_ok_def word_less_nat_alt)
    with n nw show "mx_at ?k None (?I t m) t m" by (auto simp: mx_at_def m)
  qed (use mok m in auto)
  with res show ?thesis by simp
next
  case False
  have ok: "kernel_ok (kern S)" using sys by (simp add: sys_inv_def)
  note k' = resume_plain(1) [OF ok cur t r]
  have nm: "\<And>m. p \<noteq> InMutex m" using False by blast
  from good_plain [OF sys cur t _ resume_no_mutex(1) [OF r nm], of k'] k' resume_no_mutex(2) [OF r nm]
  show ?thesis by auto
qed

text \<open>The threads whose waiting time ends with the next tick.\<close>

definition timed_out :: "kstate \<Rightarrow> tid set" where
  "timed_out k = {t. ThreadTimer t \<in> dues (k\<lparr>ktick := ktick k + 1\<rparr>)}"

lemma clock_step:
  assumes sys: "sys_inv S"
  shows "\<exists>k'. clock_interrupt cb (kern S) = Some k' \<and> sys_inv (S\<lparr>kern := k'\<rparr>)
    \<and> (scheduled (kern S) \<longrightarrow> scheduled k')
    \<and> expires (timed_out (kern S)) ((kern S)\<lparr>ktick := ktick (kern S) + 1\<rparr>) k'"
proof -
  let ?k = "kern S" and ?D = "timed_out (kern S)"
  have k: "tick_inv ?k" "set (lst (tmlists ?k) HardTimers) \<subseteq> range ThreadTimer" "lock_nest ?k = 0"
    "irq_nest ?k = 0" "stat (threads ?k idle) = RT_THREAD_READY" "cur_ready ?k" "flags_ok ?k"
    "\<And>m. mutex_ok m ?k" "\<And>m. mb_wf (mailboxes ?k m)" "\<And>m. mq_wf (mqs ?k m)"
    using sys by (simp_all add: sys_inv_def kernel_ok_def)
  obtain t where "rt_thread_self ?k = Some t" using k(6) by (auto simp: cur_ready_def)
  from clock_expires [OF k(1) this k(2), of cb] obtain k' where
    k': "clock_interrupt cb ?k = Some k'" "tick_inv k'" "expires ?D (?k\<lparr>ktick := ktick ?k + 1\<rparr>) k'"
    unfolding timed_out_def by blast
  have e: "lock_nest k' = 0" "irq_nest k' = 0" "timers_kept ?k k'"
    "\<forall>ob. (\<forall>r. ob \<noteq> OTimer r) \<longrightarrow> objs k' ob = objs ?k ob" "same_objects ?k k'"
    "\<And>m. lst (tlists k') (SuspendQ (OMutex m)) = filter (\<lambda>u. u \<notin> ?D) (lst (tlists ?k) (SuspendQ (OMutex m)))"
    "\<And>u. error (threads k' u) = (if u \<in> ?D then - RT_ETIMEOUT else error (threads ?k u))"
    "\<And>u. stat (threads k' u) = (if u \<in> ?D then RT_THREAD_READY else stat (threads ?k u))"
    "scheduled ?k \<longrightarrow> scheduled k'" "cur_ready k'"
    using k'(3) k(3,4,6) unfolding expires_def timers_kept_def by simp_all
  have "set (lst (tmlists k') HardTimers) \<subseteq> range ThreadTimer"
    using k(2) e(3) unfolding timers_kept_def by blast
  moreover have "mutex_ok m k'" for m using k(8) [of m] e(5,6) by (auto simp: mutex_ok_def split: option.splits)
  moreover have "flags_ok k'" using k(7) e(4) by (rule flags_ok_kept)
  moreover have "stat (threads k' idle) = RT_THREAD_READY" using k(5) by (simp add: e(8))
  ultimately have "kernel_ok k'" using k'(2) e(1,2,5,10) k(9,10) by (simp add: kernel_ok_def)
  moreover have "mx_at k' (pend_of S u) (inside S u m) u m" for u m
  proof -
    have "mx_at ?k (pend_of S u) (inside S u m) u m" using sys by (simp add: sys_inv_def mutex_inv_def)
    then show ?thesis using e(5,6) e(7) [of u] by (auto simp: mx_at_def)
  qed
  ultimately show ?thesis using k'(1,3) e(9) sys by (auto simp: sys_inv_def mutex_inv_def)
qed

lemma sys_inv_step: "sys_step cb S l S' \<Longrightarrow> sys_inv S \<Longrightarrow> sys_inv S'"
  using clock_step [of S cb] invoke_step [of S] continue_step [of S]
  by (elim sys_stepE) (fastforce simp: good_step_def)+

lemma sys_inv_run: "sys_run cb P S ls S' \<Longrightarrow> sys_inv S \<Longrightarrow> sys_inv S'"
  by (induction rule: sys_run.induct) (auto dest: sys_inv_step)

section \<open>Properties of runs\<close>

text \<open>A run that never lowers a priority without calling the scheduler.\<close>

definition no_lowering :: "kstate \<Rightarrow> label \<Rightarrow> bool" where
  "no_lowering k l \<longleftrightarrow> (\<forall>t m. l = Invoke t (MutexRelease m) \<longrightarrow> keeps_priority k m)"

lemma step_scheduled:
  "sys_step cb S l S' \<Longrightarrow> sys_inv S \<Longrightarrow> no_lowering (kern S) l \<Longrightarrow> scheduled (kern S) \<Longrightarrow> scheduled (kern S')"
  using clock_step [of S cb] invoke_step [of S] continue_step [of S]
  by (elim sys_stepE) (fastforce simp: no_lowering_def)+

lemma run_scheduled:
  "sys_run cb no_lowering S ls S' \<Longrightarrow> sys_inv S \<Longrightarrow> scheduled (kern S) \<Longrightarrow> scheduled (kern S')"
  by (induction rule: sys_run.induct) (auto dest: step_scheduled sys_inv_run)

lemma inside_exclusive:
  assumes "sys_inv S" and "0 < inside S t m" and "0 < inside S u m"
  shows "t = u"
proof -
  have "owner (mutexes (kern S) m) = Some v" if "0 < inside S v m" for v
    using assms(1) that unfolding sys_inv_def mutex_inv_def mx_at_def by blast
  from this [OF assms(2)] this [OF assms(3)] show ?thesis by simp
qed

text \<open>
  A thread that waits with a running timer. As long as it waits, no step but the clock touches the
  timer, and the clock wakes the thread when the tick of the timer is reached.
\<close>

definition waits_until :: "rt_tick \<Rightarrow> tid \<Rightarrow> kstate \<Rightarrow> bool" where
  "waits_until x u k \<longleftrightarrow> stat (threads k u) = RT_THREAD_SUSPEND \<and> wait_timer k u = (Some HardTimers, x)"

lemma step_waits:
  assumes inv: "sys_inv S" and step: "sys_step cb S l S'" and w: "waits_until x u (kern S)"
  shows "stat (threads (kern S') u) = RT_THREAD_READY
    \<or> waits_until x u (kern S') \<and> ktick (kern S') = ktick (kern S) + (if l = Tick then 1 else 0)
      \<and> (l = Tick \<longrightarrow> u \<notin> timed_out (kern S))"
proof -
  have good: ?thesis if g: "good_step S t S'" and c: "cur_thread (kern S) = Some t" and l: "l \<noteq> Tick" for t
  proof -
    have "running (kern S) t" using inv c by (intro kernel_running) (simp_all add: sys_inv_def)
    with w have "u \<notin> {t}" by (auto simp: running_def waits_until_def)
    obtain G where fr: "kframe G {t} (kern S) (kern S')" using g by (auto simp: good_step_def)
    from kframe_stat(2,3) [OF fr \<open>u \<notin> {t}\<close>] w kframe_same(3) [OF fr] l show ?thesis
      by (auto simp: waits_until_def)
  qed
  from step show ?thesis
  proof cases
    case (clock k)
    with clock_step [OF inv, of cb] have "expires (timed_out (kern S)) ((kern S)\<lparr>ktick := ktick (kern S) + 1\<rparr>) (kern S')"
      by auto
    with clock w show ?thesis by (simp add: expires_def waits_until_def)
  next
    case (invoke t c res k)
    from invoke_step [OF inv invoke(3-6)] invoke(7) have "good_step S t S'" by (simp add: invoke(2))
    then show ?thesis by (rule good) (use invoke in simp_all)
  next
    case (continue t p res k)
    from continue_step [OF inv continue(3-6)] have "good_step S t S'" by (simp add: continue(2))
    then show ?thesis by (rule good) (use continue in simp_all)
  qed
qed

lemma timed_out_at:
  assumes "kernel_ok k" and "waits_until x u k" and "ktick k + 1 - x < RT_TICK_HALF"
  shows "u \<in> timed_out k"
proof -
  have "lstore_wf (tmlists k)" using assms(1) by (simp add: kernel_ok_def tick_inv_def check_inv_def TI_def)
  then have "ThreadTimer u \<in> set (lst (tmlists k) HardTimers)"
    using assms(2) by (simp add: wf_mem waits_until_def)
  with assms(2,3) show ?thesis by (simp add: timed_out_def dues_def due_def waits_until_def)
qed

definition ticks :: "label list \<Rightarrow> nat" where
  "ticks ls = length (filter (\<lambda>l. l = Tick) ls)"

lemma run_waits:
  assumes "sys_run cb P S ls S'" and "sys_inv S" and "waits_until x u (kern S)"
  shows "(\<exists>ls1 ls2 S1. ls = ls1 @ ls2 \<and> sys_run cb P S ls1 S1 \<and> stat (threads (kern S1) u) = RT_THREAD_READY)
    \<or> waits_until x u (kern S') \<and> ktick (kern S') = ktick (kern S) + of_nat (ticks ls)
      \<and> (0 < ticks ls \<longrightarrow> ticks ls < unat (x - ktick (kern S)))"
    (is "?early S' ls \<or> ?late S' ls")
  using assms(1)
proof (induction rule: sys_run.induct)
  case run_start
  then show ?case using assms(3) by (simp add: ticks_def)
next
  case (run_step ls S1 l S2)
  show ?case
  proof (cases "?early S1 ls")
    case True
    then show ?thesis by (metis append.assoc)
  next
    case False
    with run_step.IH have late: "?late S1 ls" by blast
    have inv: "sys_inv S1" using run_step.hyps(1) assms(2) by (rule sys_inv_run)
    have all: "sys_run cb P S (ls @ [l]) S2" using run_step.hyps by (rule sys_run.run_step)
    consider (woken) "stat (threads (kern S2) u) = RT_THREAD_READY" | (on) "waits_until x u (kern S2)"
      "ktick (kern S2) = ktick (kern S1) + (if l = Tick then 1 else 0)" "l = Tick \<longrightarrow> u \<notin> timed_out (kern S1)"
      using step_waits [OF inv run_step.hyps(3)] late by blast
    then show ?thesis
    proof cases
      case woken
      with all show ?thesis by (metis append_Nil2)
    next
      case on
      show ?thesis
      proof (cases "l = Tick")
        case False
        with on late show ?thesis by (simp add: ticks_def)
      next
        case True
        let ?n = "ticks ls" and ?d = "x - ktick (kern S)"
        have "\<not> ktick (kern S1) + 1 - x < RT_TICK_HALF"
          using timed_out_at [of "kern S1" x u] inv late on(3) True by (auto simp: sys_inv_def)
        moreover have "ktick (kern S1) + 1 - x = of_nat (Suc ?n) - ?d" using late by simp
        ultimately have nd: "\<not> of_nat (Suc ?n) - ?d < RT_TICK_HALF" by simp
        have "Suc ?n < unat ?d"
        proof (rule ccontr)
          assume "\<not> Suc ?n < unat ?d"
          moreover have "?n = 0 \<or> ?n < unat ?d" using late by auto
          ultimately have "Suc ?n = unat ?d \<or> ?n = 0 \<and> unat ?d = 0" by linarith
          then have "of_nat (Suc ?n) = ?d \<or> of_nat (Suc ?n) = (1 :: rt_tick) \<and> ?d = 0"
            by (elim disjE conjE) (simp_all add: unat_eq_0 del: of_nat_Suc, simp)
          then have "of_nat (Suc ?n) - ?d = 0 \<or> of_nat (Suc ?n) - ?d = 1" by auto
          with nd show False by (elim disjE) (simp_all only: RT_TICK_HALF_num, simp_all)
        qed
        with on late True show ?thesis by (simp add: ticks_def)
      qed
    qed
  qed
qed

text \<open>
  The release that \<open>no_lowering\<close> leaves out: the owner falls back to its original priority, but without
  waiting threads the scheduler is not called, so a thread that is more urgent now has to wait for the
  next call of the scheduler.
\<close>

lemma release_bypasses:
  assumes run: "running s t" and ok: "mutex_ok m s" and own: "owner (mutexes s m) = Some t" "hold (mutexes s m) = 1"
    and none: "lst (tlists s) (SuspendQ (OMutex m)) = []"
    and u: "u \<noteq> t" "stat (threads s u) = RT_THREAD_READY" "current_priority (threads s u) < original_priority (mutexes s m)"
  shows "\<exists>s'. rt_mutex_release m s = Some (RT_EOK, s') \<and> cur_thread s' = Some t
    \<and> stat (threads s' u) = RT_THREAD_READY \<and> current_priority (threads s' u) < current_priority (threads s' t)"
proof (cases rule: mutex_release_call [OF run ok])
  case (4 s')
  have inv: "check_inv (ktick s) s" using run by (simp add: running_def)
  have "owner (mutexes s m) \<noteq> None" using own by simp
  note r = restore_priority_frame(3) [OF inv ok this, of t]
  show ?thesis using 4(1,14,15) u by (intro exI [of _ s']) (auto simp: r)
qed (use own none in auto)

end
