(* ===== verification/Rt_Demo.thy ===== *)
theory Rt_Demo
  imports Rt_Mempool Rt_Runs
begin

text \<open>
  A small kernel state on which the properties are evaluated: the idle thread (1), a running thread (2)
  and a thread (3) that waits in a given list with a timeout of ten ticks. It satisfies the invariants
  of the development, so their hypotheses can be met together.
\<close>

definition demo_thread :: "rt_uint8 \<Rightarrow> thread_stat \<Rightarrow> rt_thread" where
  "demo_thread p st = \<lparr>sp = 0x1100, entry_fn = 0, parameter = 0, stack_addr = 0x1000, stack_size = 0x200,
     stack_magic = 0x23, error = 0, stat = st, current_priority = p, init_priority = p,
     number_mask = push_bit (unat p) 1, event_set = 0, event_info = 0, init_tick = 10,
     remaining_tick = 10, cleanup = None, user_data = 0\<rparr>"

definition demo_threads :: "tid \<Rightarrow> rt_thread" where
  "demo_threads t = (if t = 1 then demo_thread 31 RT_THREAD_READY
     else if t = 2 then demo_thread 5 RT_THREAD_READY
     else if t = 3 then demo_thread 6 RT_THREAD_SUSPEND else demo_thread 8 RT_THREAD_INIT)"

definition demo_loc :: "lhead \<Rightarrow> tid \<Rightarrow> lhead option" where
  "demo_loc h t = (if t = 1 then Some (ReadyQ 31) else if t = 2 then Some (ReadyQ 5)
     else if t = 3 then Some h else None)"

definition demo_lst :: "lhead \<Rightarrow> lhead \<Rightarrow> tid list" where
  "demo_lst h h' = (if h' = ReadyQ 31 then [1] else if h' = ReadyQ 5 then [2] else if h' = h then [3] else [])"

definition demo_timer :: "tmref \<Rightarrow> rt_timer" where
  "demo_timer r = (case r of
     ThreadTimer t \<Rightarrow> \<lparr>timeout_func = Thread_timeout t, tm_init_tick = 10, timeout_tick = 10\<rparr>
   | UserTimer k \<Rightarrow> \<lparr>timeout_func = User_timeout k 0, tm_init_tick = 0, timeout_tick = 0\<rparr>)"

definition demo_tmlists :: "(tmhead, tmref) lstore" where
  "demo_tmlists = \<lparr>lst = (\<lambda>h. if h = HardTimers then [ThreadTimer 3] else []),
     loc = (\<lambda>r. if r = ThreadTimer 3 then Some HardTimers else None)\<rparr>"

definition demo_objs :: "oref \<Rightarrow> rt_object" where
  "demo_objs ob = \<lparr>o_name = replicate 8 0, o_type = 0,
     o_flag = (if ob = OTimer (ThreadTimer 3) then 1 else 0)\<rparr>"

definition demo_mq :: rt_messagequeue where
  "demo_mq = mq_setup \<lparr>mq_next = (\<lambda>_. None), mq_data = (\<lambda>_. replicate 4 0), mq_msg_size = 4,
     mq_max_msgs = 2, mq_entry = 0, mq_head = None, mq_tail = None, mq_free = None\<rparr>"

definition demo :: "lhead \<Rightarrow> kstate" where
  "demo h = \<lparr>threads = demo_threads, timers = demo_timer, objs = demo_objs,
     tlists = \<lparr>lst = demo_lst h, loc = demo_loc h\<rparr>, tmlists = demo_tmlists,
     olists = lstore_empty, ready_group = 2 ^ 31 OR 2 ^ 5, cur_thread = Some 2, cur_priority = 5,
     lock_nest = 0, irq_nest = 0, ktick = 0, random_nr = 0, kerrno = 0,
     sems = (\<lambda>_. \<lparr>sem_value = 0\<rparr>),
     mutexes = (\<lambda>_. \<lparr>mutex_value = 1, original_priority = 0xFF, hold = 0, owner = None\<rparr>),
     events = (\<lambda>_. \<lparr>ev_set = 0\<rparr>),
     mailboxes = (\<lambda>_. \<lparr>mb_pool = [0, 0], mb_size = 2, mb_entry = 0, in_offset = 0, out_offset = 0\<rparr>),
     mqs = (\<lambda>_. demo_mq),
     mempools = (\<lambda>_. \<lparr>mp_links = (\<lambda>_. PoolOf 0), mp_size = 0, mp_block_size = 4, mp_block_list = None,
       mp_total_count = 0, mp_free_count = 0, mp_suspend_count = 0\<rparr>),
     kfree_log = []\<rparr>"

lemma demo_fields [simp]:
  "threads (demo h) = demo_threads" "timers (demo h) = demo_timer" "objs (demo h) = demo_objs"
  "lst (tlists (demo h)) = demo_lst h" "loc (tlists (demo h)) = demo_loc h" "tmlists (demo h) = demo_tmlists"
  "ready_group (demo h) = 2 ^ 31 OR 2 ^ 5" "cur_thread (demo h) = Some 2" "lock_nest (demo h) = 0"
  "irq_nest (demo h) = 0" "ktick (demo h) = 0"
  "sem_value (sems (demo h) m) = 0" "mutexes (demo h) m = \<lparr>mutex_value = 1, original_priority = 0xFF, hold = 0, owner = None\<rparr>"
  "ev_set (events (demo h) m) = 0"
  "mailboxes (demo h) m = \<lparr>mb_pool = [0, 0], mb_size = 2, mb_entry = 0, in_offset = 0, out_offset = 0\<rparr>"
  "mqs (demo h) m = demo_mq" "olists (demo h) = lstore_empty" "kfree_log (demo h) = []"
  by (simp_all add: demo_def)

lemma demo_thread_fields [simp]:
  "stat (demo_thread p st) = st" "current_priority (demo_thread p st) = p"
  "number_mask (demo_thread p st) = push_bit (unat p) 1" "error (demo_thread p st) = 0"
  "stack_ok (demo_thread p st)" "cleanup (demo_thread p st) = None" "event_info (demo_thread p st) = 0"
  "event_set (demo_thread p st) = 0" "remaining_tick (demo_thread p st) = 10"
  by (simp_all add: demo_thread_def stack_ok_def)

lemma demo_threads_at [simp]:
  "demo_threads 1 = demo_thread 31 RT_THREAD_READY" "demo_threads (Suc 0) = demo_thread 31 RT_THREAD_READY"
  "demo_threads 2 = demo_thread 5 RT_THREAD_READY"
  "demo_threads 3 = demo_thread 6 RT_THREAD_SUSPEND" "demo_threads 4 = demo_thread 8 RT_THREAD_INIT"
  by (simp_all add: demo_threads_def)

lemma demo_lst_at [simp]:
  "demo_lst h (ReadyQ 5) = [2]" "demo_lst h (ReadyQ 31) = [1]" "h \<noteq> ReadyQ 5 \<Longrightarrow> h \<noteq> ReadyQ 31 \<Longrightarrow> demo_lst h h = [3]"
  "demo_lst (SuspendQ a) (SenderQ b) = []" "demo_lst (SenderQ b) (SuspendQ a) = []"
  "a \<noteq> b \<Longrightarrow> demo_lst (SuspendQ a) (SuspendQ b) = []" "demo_lst (SuspendQ a) DefunctQ = []"
  by (simp_all add: demo_lst_def)

lemma demo_tmlists_at [simp]:
  "lst demo_tmlists HardTimers = [ThreadTimer 3]" "lst demo_tmlists SoftTimers = []"
  by (simp_all add: demo_tmlists_def)

lemma demo_objs_at [simp]:
  "o_flag (demo_objs ob) = (if ob = OTimer (ThreadTimer 3) then 1 else 0)" "o_type (demo_objs ob) = 0"
  by (simp_all add: demo_objs_def)

lemma demo_wf:
  assumes "wait_head h"
  shows "lstore_wf (tlists (demo h))"
  using assms by (auto simp: lstore_wf_def demo_lst_def demo_loc_def)

lemma demo_sched:
  assumes "wait_head h"
  shows "sched_inv (demo h)"
proof -
  have b: "bit (2 ^ 31 OR 2 ^ 5 :: rt_uint32) n \<longleftrightarrow> n = 31 \<or> n = 5" for n
    by (simp only: bit_or_iff bit_exp_iff) auto
  have "bit (2 ^ 31 OR 2 ^ 5 :: rt_uint32) (unat p) \<longleftrightarrow> demo_lst h (ReadyQ p) \<noteq> []" for p
    unfolding b using assms by (auto simp: demo_lst_def word_unat_eq_iff)
  then have "bitmap_ok (tlists (demo h)) (ready_group (demo h))" by (simp add: bitmap_ok_def)
  moreover have "thread_ok (demo_threads t) (demo_loc h t)" for t
    using assms by (auto simp: thread_ok.simps demo_threads_def demo_loc_def mask_ok_def)
  ultimately show ?thesis using demo_wf [OF assms] by (simp add: SI_def)
qed

lemma demo_inv_at:
  assumes "wait_head h" and "k \<le> 10"
  shows "tick_inv ((demo h)\<lparr>ktick := k\<rparr>)"
proof -
  let ?s = "(demo h)\<lparr>ktick := k\<rparr>"
  have "timer_inv ?s"
    by (auto simp: TI_def lstore_wf_def timer_ok_def demo_tmlists_def)
  moreover have "thread_timers ?s"
    by (auto simp: TT_def demo_tmlists_def demo_timer_def)
  moreover have "timers_init ?s" by (auto simp: TH_def demo_timer_def)
  moreover have "10 - k \<le> 10" using assms(2) by (simp add: word_le_sub1 word_sub_le)
  then have "10 - k < 2147483647" by (rule order_le_less_trans) simp
  then have "tm_sorted k (timers ?s) (lst (tmlists ?s) HardTimers)"
    by (simp add: tm_sorted_def demo_timer_def RT_TICK_HALF_num)
  moreover have "periodic_ok k ?s" by (auto simp: periodic_ok_def)
  ultimately have "check_inv k ?s"
    using demo_sched [OF assms(1)] by (simp add: check_inv_def RT_TICK_HALF_num)
  then show ?thesis by (auto simp: tick_inv_def)
qed

lemma demo_tick [simp]: "(demo h)\<lparr>ktick := 0\<rparr> = demo h"
  by (simp add: demo_def)

lemma demo_inv:
  assumes "wait_head h"
  shows "check_inv 0 (demo h)" and "tick_inv (demo h)"
  using demo_inv_at [OF assms, of 0] by (simp_all add: tick_inv_def)

lemma demo_mq_rep: "mq_rep demo_mq [] [1, 0]"
proof -
  have "mq_rep demo_mq [] (rev [0..<unat (2 :: rt_uint16)])"
    unfolding demo_mq_def by (rule mq_setup_rep [THEN back_subst [where P = "\<lambda>x. mq_rep _ [] x"]]) simp_all
  then show ?thesis by (simp add: upt_rec)
qed

text \<open>The same state as a system: thread 3 waits for a semaphore.\<close>

definition demo_sys :: "rt_tick \<Rightarrow> sys" where
  "demo_sys k = \<lparr>kern = (demo (SuspendQ (OSem 0)))\<lparr>ktick := k\<rparr>,
     pend_of = (\<lambda>t. if t = 3 then Some InSem else None), inside = (\<lambda>t m. 0)\<rparr>"

lemma demo_next: "wait_head h \<Longrightarrow> next_thread (demo h) = Some 2"
proof -
  assume h: "wait_head h"
  then obtain t where t: "next_thread (demo h) = Some t"
    using rt_schedule_cases [OF demo_sched [OF h], of 2] by (auto simp: rt_schedule_def split: bind_splits)
  note hi = next_thread_highest [OF demo_sched [OF h] t]
  have "t = 2"
    using hi hi(2) [of 2] by (auto simp: demo_threads_def split: if_splits)
  with t show ?thesis by simp
qed

lemma demo_sys_inv:
  assumes "k \<le> 10"
  shows "sys_inv (demo_sys k)"
proof -
  let ?s = "(demo (SuspendQ (OSem 0)))\<lparr>ktick := k\<rparr>"
  have "tick_inv ?s" by (rule demo_inv_at) (use assms in simp_all)
  moreover have "cur_ready ?s" by (simp add: cur_ready_def)
  moreover have "flags_ok ?s" by (simp add: flags_ok_def)
  moreover have "mq_wf demo_mq" using demo_mq_rep by (rule mq_wfI)
  ultimately have "kernel_ok ?s"
    by (simp add: kernel_ok_def idle_def mutex_ok_def mb_wf_def)
  then show ?thesis by (simp add: sys_inv_def demo_sys_def mutex_inv_def mx_at_def)
qed

text \<open>A state in which thread 2 goes on after a wait of at most 5 ticks for a mail.\<close>

definition demo_mail_sys :: sys where
  "demo_mail_sys = (demo_sys 0)\<lparr>pend_of := (\<lambda>t. if t = 2 then Some (InMbRecv 0 5 0) else None)\<rparr>"

lemma demo_mail_inv: "sys_inv demo_mail_sys"
  using demo_sys_inv [of 0]
  by (auto simp: demo_mail_sys_def demo_sys_def sys_inv_def mutex_inv_def mx_at_def short_time_def RT_TICK_HALF_num)

lemma demo_sys_scheduled: "scheduled (kern (demo_sys 0))"
  by (simp add: scheduled_def demo_sys_def demo_next)

end
