(* ===== verification/Rt_Ring.thy ===== *)
theory Rt_Ring
  imports Rt_Prelude
begin

text \<open>
  Ring buffers: the contents of a ring of \<open>n\<close> cells, given by a function from positions to values, with
  \<open>e\<close> values from position \<open>p\<close> on. The lemmas are shared by the queues of the port and of the drivers.
\<close>

definition ring :: "(nat \<Rightarrow> 'a) \<Rightarrow> nat \<Rightarrow> nat \<Rightarrow> nat \<Rightarrow> 'a list" where
  "ring f n p e = map (\<lambda>i. f ((p + i) mod n)) [0..<e]"

lemma ring_length [simp]: "length (ring f n p e) = e"
  by (simp add: ring_def)

lemma ring_0 [simp]: "ring f n p 0 = []"
  by (simp add: ring_def)

lemma ring_Nil_iff [simp]: "ring f n p e = [] \<longleftrightarrow> e = 0"
  by (simp add: ring_def)

lemma ring_apart:
  fixes p i j n :: nat
  assumes "i \<noteq> j" and "i < n" and "j < n"
  shows "(p + i) mod n \<noteq> (p + j) mod n"
proof
  assume eq: "(p + i) mod n = (p + j) mod n"
  have *: False if "i < j" "j < n" "(p + i) mod n = (p + j) mod n" for i j
  proof -
    have "n dvd (p + j) - (p + i)" using that by (intro mod_eq_dvd_iff_nat [THEN iffD1]) auto
    with that show False by (auto dest: dvd_imp_le)
  qed
  from assms eq * [of i j] * [of j i] show False by linarith
qed

lemma ring_shift: "(p + Suc i) mod n = ((p + 1) mod n + i) mod n" for p i n :: nat
  by (metis add.assoc add.commute mod_add_right_eq plus_1_eq_Suc)

text \<open>A write into a cell that is not in use does not change the contents.\<close>

lemma ring_cong:
  "(\<And>i. i < e \<Longrightarrow> f ((p + i) mod n) = g ((p + i) mod n)) \<Longrightarrow> ring f n p e = ring g n p e"
  by (auto simp: ring_def)

lemma ring_put:
  assumes "e < n"
  shows "ring (f((p + e) mod n := v)) n p (Suc e) = ring f n p e @ [v]"
proof -
  have "ring (f((p + e) mod n := v)) n p e = ring f n p e"
    using ring_apart [of _ e n p] assms by (intro ring_cong) fastforce
  then show ?thesis by (simp add: ring_def)
qed

lemma ring_get:
  assumes "0 < e" and "p < n"
  shows "ring f n p e = f p # ring f n ((p + 1) mod n) (e - 1)"
proof -
  have "[0..<e] = 0 # map Suc [0..<e - 1]" using assms(1) by (simp add: map_Suc_upt upt_conv_Cons)
  then show ?thesis using assms(2) ring_shift [of p _ n] by (simp add: ring_def comp_def)
qed

lemma ring_back:
  fixes p n :: nat
  assumes "p < n"
  shows "((if p = 0 then n - 1 else p - 1) + 1) mod n = p" and "(if p = 0 then n - 1 else p - 1) < n"
  using assms by auto

lemma ring_put_front:
  assumes "e < n" and "p < n"
  defines "q \<equiv> if p = 0 then n - 1 else p - 1"
  shows "ring (f(q := v)) n q (Suc e) = v # ring f n p e"
proof -
  note q = ring_back [OF assms(2), folded q_def]
  have "(p + i) mod n \<noteq> q" if "i < e" for i
  proof -
    have "(q + Suc i) mod n \<noteq> (q + 0) mod n" using ring_apart [of "Suc i" 0 n q] that assms(1) by simp
    then show ?thesis using q ring_shift [of q i n] by simp
  qed
  then have "ring (f(q := v)) n p e = ring f n p e" by (intro ring_cong) simp
  with ring_get [of "Suc e" q n "f(q := v)"] q show ?thesis by simp
qed

lemma ring_replace:
  assumes "0 < e" and "e \<le> n" and "p < n"
  shows "ring (f(p := v)) n p e = v # tl (ring f n p e)"
proof -
  have "((p + 1) mod n + i) mod n \<noteq> p" if "i < e - 1" for i
  proof -
    have "(p + Suc i) mod n \<noteq> (p + 0) mod n" using ring_apart [of "Suc i" 0 n p] that assms by simp
    then show ?thesis using assms(3) ring_shift [of p i n] by simp
  qed
  then have "ring (f(p := v)) n ((p + 1) mod n) (e - 1) = ring f n ((p + 1) mod n) (e - 1)"
    by (intro ring_cong) simp
  then show ?thesis
    using ring_get [OF assms(1,3), of "f(p := v)"] ring_get [OF assms(1,3), of f] by simp
qed

section \<open>Cells of several bytes\<close>

text \<open>The cell \<open>j\<close> of a memory that is divided into cells of \<open>k\<close> bytes, and a write to it.\<close>

definition slot :: "nat \<Rightarrow> 'b list \<Rightarrow> nat \<Rightarrow> 'b list" where
  "slot k bs j = take k (drop (j * k) bs)"

definition put_bytes :: "nat \<Rightarrow> 'b list \<Rightarrow> 'b list \<Rightarrow> 'b list" where
  "put_bytes p v bs = take p bs @ v @ drop (p + length v) bs"

lemma put_bytes_length: "p + length v \<le> length bs \<Longrightarrow> length (put_bytes p v bs) = length bs"
  by (simp add: put_bytes_def)

lemma nth_put_bytes:
  assumes "p + length v \<le> length bs"
  shows "put_bytes p v bs ! i = (if p \<le> i \<and> i < p + length v then v ! (i - p) else bs ! i)"
proof -
  consider "i < p" | "p \<le> i" "i < p + length v" | "p + length v \<le> i" by linarith
  then show ?thesis using assms by cases (auto simp: put_bytes_def nth_append)
qed

lemma slot_length: "j < n \<Longrightarrow> length bs = n * k \<Longrightarrow> length (slot k bs j) = k"
proof -
  assume "j < n" "length bs = n * k"
  moreover then have "j * k + k \<le> n * k" by (metis add.commute mult_Suc mult_le_mono1 Suc_leI)
  ultimately show ?thesis by (simp add: slot_def)
qed

lemma slot_put:
  assumes len: "length bs = n * k" and j: "j < n" and v: "length v = k"
  shows "i < n \<Longrightarrow> slot k (put_bytes (j * k) v bs) i = (if i = j then v else slot k bs i)"
proof -
  assume i: "i < n"
  have fit: "j' * k + k \<le> length bs" if "j' < n" for j'
    using that len by (metis add.commute mult_Suc mult_le_mono1 Suc_leI)
  have room: "j * k + length v \<le> length bs" using fit [OF j] v by simp
  have out: "\<not> (j * k \<le> i * k + x \<and> i * k + x < j * k + k)" if "i \<noteq> j" "x < k" for x
  proof -
    have "i * k + k \<le> j * k" if "i < j" using that by (metis add.commute mult_Suc mult_le_mono1 Suc_leI)
    moreover have "j * k + k \<le> i * k" if "j < i" using that by (metis add.commute mult_Suc mult_le_mono1 Suc_leI)
    ultimately show ?thesis using that by linarith
  qed
  show ?thesis
  proof (rule nth_equalityI)
    show "length (slot k (put_bytes (j * k) v bs) i) = length (if i = j then v else slot k bs i)"
      using slot_length [OF i, of "put_bytes (j * k) v bs"] slot_length [OF i len] len v put_bytes_length [OF room] by simp
    fix x assume "x < length (slot k (put_bytes (j * k) v bs) i)"
    then have x: "x < k" by (simp add: slot_def)
    have le: "i * k \<le> length bs" using fit [OF i] by simp
    have "slot k (put_bytes (j * k) v bs) i ! x = put_bytes (j * k) v bs ! (i * k + x)"
      using x le put_bytes_length [OF room] by (simp add: slot_def)
    also have "\<dots> = (if i = j then v else slot k bs i) ! x"
      using nth_put_bytes [OF room, of "i * k + x"] out [OF _ x] v x le by (auto simp: slot_def)
    finally show "slot k (put_bytes (j * k) v bs) i ! x = (if i = j then v else slot k bs i) ! x" .
  qed
qed

end
