(* ===== verification/Rt_Fmq.thy ===== *)
theory Rt_Fmq
  imports Rt_Ring Rt_Frame
begin

text \<open>
  The queues of the FreeRTOS interface, \<^verbatim>\<open>esp-idf-port/stubs/fmq.c\<close>: a mailbox whose pool holds the size of
  an item in its first word and the bytes of the items behind it. An item can be put at the back, at
  the front, or over the first item; a receiver can take or just look at the first item. The file has
  copies of the four \<^verbatim>\<open>rt_ipc_*\<close> functions of \<^verbatim>\<open>ipc.c\<close>, for which the definitions of theory \<open>Rt_Ipc\<close> stand.
\<close>

section \<open>State\<close>

text \<open>The memory \<^verbatim>\<open>msg_pool\<close> points to, for the mailboxes that this file creates.\<close>

record fmq_pool =
  fmq_item :: rt_uint32
  fmq_bytes :: "rt_uint8 list"

text \<open>The state of the port: the kernel, the pools, and the static variables of \<^verbatim>\<open>libcpu.c\<close>.\<close>

record port =
  kst :: kstate
  pools :: "nat \<Rightarrow> fmq_pool"
  mq_index :: rt_uint16
  ms_index :: rt_uint16
  mx_index :: rt_uint16
  mr_index :: rt_uint16
  tm_index :: rt_uint16
  ev_index :: rt_uint16
  xSchedulerRunning :: bool

text \<open>\<open>queueSEND_TO_FRONT\<close> stands for every position other than the two that the code tests for.\<close>

datatype copy_position = queueSEND_TO_BACK | queueSEND_TO_FRONT | queueOVERWRITE

section \<open>Operations\<close>

text \<open>\<open>mem\<close> and \<open>bytes\<close> are the results of the two allocations; \<open>bytes\<close> is the pool behind its first word.\<close>

definition rt_fmq_create ::
  "nat option \<Rightarrow> rt_uint8 list option \<Rightarrow> rt_uint8 list \<Rightarrow> rt_uint32 \<Rightarrow> rt_uint32 \<Rightarrow> rt_uint8 \<Rightarrow> port
     \<Rightarrow> (nat option \<times> port) option" where
  "rt_fmq_create mem bytes nm item sz flg p =
     do {
       RT_DEBUG_NOT_IN_INTERRUPT (kst p);
       (ob, s1) \<leftarrow> rt_object_allocate (map_option OMb mem) RT_Object_Class_MailBox nm (kst p);
       case mem of
         None \<Rightarrow> Some (None, p\<lparr>kst := s1\<rparr>)
       | Some m \<Rightarrow>
           (let s2 = upd_obj (OMb m) (\<lambda>x. x\<lparr>o_flag := flg\<rparr>) s1;
                s3 = rt_ipc_object_init (OMb m) s2;
                s4 = upd_mb m (\<lambda>x. x\<lparr>mb_size := ucast sz\<rparr>) s3
            in case bytes of
                 None \<Rightarrow> do { s5 \<leftarrow> rt_object_delete (OMb m) s4; Some (None, p\<lparr>kst := s5\<rparr>) }
               | Some bs \<Rightarrow>
                   (let s5 = upd_mb m (\<lambda>x. x\<lparr>mb_entry := 0, in_offset := 0, out_offset := 0\<rparr>) s4
                    in Some (Some m,
                         p\<lparr>kst := s5\<lparr>tlists := ls_init_head (SenderQ (OMb m)) (tlists s5)\<rparr>,
                           pools := (pools p)(m := \<lparr>fmq_item = item, fmq_bytes = bs\<rparr>)\<rparr>)))
     }"

definition rt_fmq_delete :: "nat \<Rightarrow> port \<Rightarrow> (rt_err \<times> port) option" where
  "rt_fmq_delete m p =
     do {
       RT_DEBUG_NOT_IN_INTERRUPT (kst p);
       s1 \<leftarrow> rt_ipc_list_resume_all (SuspendQ (OMb m)) (kst p);
       s2 \<leftarrow> rt_ipc_list_resume_all (SenderQ (OMb m)) s1;
       s3 \<leftarrow> rt_object_delete (OMb m) (s2\<lparr>kfree_log := FreePool (OMb m) # kfree_log s2\<rparr>);
       Some (RT_EOK, p\<lparr>kst := s3\<rparr>)
     }"

text \<open>\<^verbatim>\<open>rt_memcpy\<close> into and out of the pool, at an offset in bytes; outside of the memory it is undefined.\<close>

definition copy_in :: "rt_uint32 \<Rightarrow> rt_uint8 list \<Rightarrow> fmq_pool \<Rightarrow> fmq_pool option" where
  "copy_in off value q =
     (let n = unat (fmq_item q) in
      if n \<le> length value \<and> unat off + n \<le> length (fmq_bytes q)
      then Some (q\<lparr>fmq_bytes := put_bytes (unat off) (take n value) (fmq_bytes q)\<rparr>) else None)"

definition copy_out :: "rt_uint32 \<Rightarrow> fmq_pool \<Rightarrow> rt_uint8 list option" where
  "copy_out off q =
     (let n = unat (fmq_item q) in
      if unat off + n \<le> length (fmq_bytes q) then Some (take n (drop (unat off) (fmq_bytes q))) else None)"

text \<open>The part of the sender that stores the item.\<close>

definition fmq_put ::
  "copy_position \<Rightarrow> rt_uint8 list \<Rightarrow> rt_mailbox \<Rightarrow> fmq_pool \<Rightarrow> (rt_mailbox \<times> fmq_pool) option" where
  "fmq_put pos value mb q =
     do {
       (mb1, q1) \<leftarrow>
         (if mb_entry mb = 0 \<or> pos = queueSEND_TO_BACK then
            do {
              q1 \<leftarrow> copy_in (ucast (in_offset mb) * fmq_item q) value q;
              let mb1 = mb\<lparr>in_offset := in_offset mb + 1\<rparr>;
              Some (if in_offset mb1 \<ge> mb_size mb1 then mb1\<lparr>in_offset := 0\<rparr> else mb1, q1)
            }
          else if pos = queueOVERWRITE then
            do {
              q1 \<leftarrow> copy_in (ucast (out_offset mb) * fmq_item q) value q;
              Some (mb\<lparr>mb_entry := mb_entry mb - 1\<rparr>, q1)
            }
          else
            do {
              let mb1 = (if out_offset mb = 0 then mb\<lparr>out_offset := mb_size mb - 1\<rparr>
                         else mb\<lparr>out_offset := out_offset mb - 1\<rparr>);
              q1 \<leftarrow> copy_in (ucast (out_offset mb1) * fmq_item q) value q;
              Some (mb1, q1)
            });
       Some (mb1\<lparr>mb_entry := mb_entry mb1 + 1\<rparr>, q1)
     }"

text \<open>The loop of the sender with what follows it, as for the mailbox.\<close>

definition fmq_send_loop ::
  "tid option \<Rightarrow> nat \<Rightarrow> rt_uint8 list \<Rightarrow> copy_position \<Rightarrow> rt_int32 \<Rightarrow> port \<Rightarrow> (rt_err callres \<times> port) option" where
  "fmq_send_loop thr m value pos timeout p =
     (let s = kst p in
      if mb_entry (mailboxes s m) = mb_size (mailboxes s m) \<and> pos \<noteq> queueOVERWRITE then
        do {
          t \<leftarrow> thr;
          let s1 = upd_thread t (\<lambda>th. th\<lparr>error := RT_EOK\<rparr>) s;
          if timeout = 0 then Some (Return (- RT_EFULL), p\<lparr>kst := s1\<rparr>)
          else do {
            RT_DEBUG_IN_THREAD_CONTEXT s1;
            s2 \<leftarrow> ipc_wait (SenderQ (OMb m)) t (o_flag (objs s1 (OMb m))) timeout s1;
            Some (Blocked, p\<lparr>kst := s2\<rparr>)
          }
        }
      else
        do {
          (mb, q) \<leftarrow> fmq_put pos value (mailboxes s m) (pools p m);
          let s1 = upd_mb m (\<lambda>_. mb) s;
          let p1 = p\<lparr>kst := s1, pools := (pools p)(m := q)\<rparr>;
          if \<not> ls_isempty (SuspendQ (OMb m)) (tlists s1) then
            do {
              s2 \<leftarrow> rt_ipc_list_resume (SuspendQ (OMb m)) s1;
              s3 \<leftarrow> rt_schedule s2;
              Some (Return RT_EOK, p1\<lparr>kst := s3\<rparr>)
            }
          else Some (Return RT_EOK, p1)
        })"

definition rt_fmq_send ::
  "nat \<Rightarrow> rt_uint8 list \<Rightarrow> copy_position \<Rightarrow> rt_int32 \<Rightarrow> port \<Rightarrow> (rt_err callres \<times> port) option" where
  "rt_fmq_send m value pos timeout p =
     (if mb_entry (mailboxes (kst p) m) = mb_size (mailboxes (kst p) m) \<and> pos \<noteq> queueOVERWRITE \<and> timeout = 0
      then Some (Return (- RT_EFULL), p)
      else fmq_send_loop (rt_thread_self (kst p)) m value pos timeout p)"

definition rt_fmq_send_wake ::
  "tid \<Rightarrow> nat \<Rightarrow> rt_uint8 list \<Rightarrow> copy_position \<Rightarrow> rt_int32 \<Rightarrow> rt_tick \<Rightarrow> port \<Rightarrow> (rt_err callres \<times> port) option" where
  "rt_fmq_send_wake t m value pos timeout start p =
     (if error (threads (kst p) t) \<noteq> RT_EOK then Some (Return (error (threads (kst p) t)), p)
      else fmq_send_loop (Some t) m value pos (remaining_time timeout start (kst p)) p)"

text \<open>The part of the receiver that removes the first item.\<close>

definition fmq_drop :: "rt_mailbox \<Rightarrow> rt_mailbox" where
  "fmq_drop mb =
     (let mb1 = mb\<lparr>out_offset := out_offset mb + 1\<rparr>;
          mb2 = (if out_offset mb1 \<ge> mb_size mb1 then mb1\<lparr>out_offset := 0\<rparr> else mb1)
      in mb2\<lparr>mb_entry := mb_entry mb2 - 1\<rparr>)"

text \<open>The receiver; the result carries the bytes stored through \<^verbatim>\<open>value\<close>.\<close>

definition fmq_recv_loop ::
  "tid option \<Rightarrow> nat \<Rightarrow> bool \<Rightarrow> rt_int32 \<Rightarrow> port \<Rightarrow> ((rt_err \<times> rt_uint8 list option) callres \<times> port) option" where
  "fmq_recv_loop thr m peek timeout p =
     (let s = kst p in
      if mb_entry (mailboxes s m) = 0 then
        do {
          t \<leftarrow> thr;
          let s1 = upd_thread t (\<lambda>th. th\<lparr>error := RT_EOK\<rparr>) s;
          if timeout = 0 then
            Some (Return (- RT_ETIMEOUT, None), p\<lparr>kst := upd_thread t (\<lambda>th. th\<lparr>error := - RT_ETIMEOUT\<rparr>) s1\<rparr>)
          else do {
            RT_DEBUG_IN_THREAD_CONTEXT s1;
            s2 \<leftarrow> ipc_wait (SuspendQ (OMb m)) t (o_flag (objs s1 (OMb m))) timeout s1;
            Some (Blocked, p\<lparr>kst := s2\<rparr>)
          }
        }
      else
        do {
          value \<leftarrow> copy_out (ucast (out_offset (mailboxes s m)) * fmq_item (pools p m)) (pools p m);
          if peek then Some (Return (RT_EOK, Some value), p)
          else do {
            let s1 = upd_mb m fmq_drop s;
            if \<not> ls_isempty (SenderQ (OMb m)) (tlists s1) then
              do {
                s2 \<leftarrow> rt_ipc_list_resume (SenderQ (OMb m)) s1;
                s3 \<leftarrow> rt_schedule s2;
                Some (Return (RT_EOK, Some value), p\<lparr>kst := s3\<rparr>)
              }
            else Some (Return (RT_EOK, Some value), p\<lparr>kst := s1\<rparr>)
          }
        })"

definition rt_fmq_recv ::
  "nat \<Rightarrow> bool \<Rightarrow> rt_int32 \<Rightarrow> port \<Rightarrow> ((rt_err \<times> rt_uint8 list option) callres \<times> port) option" where
  "rt_fmq_recv m peek timeout p =
     (if mb_entry (mailboxes (kst p) m) = 0 \<and> timeout = 0 then Some (Return (- RT_ETIMEOUT, None), p)
      else fmq_recv_loop (rt_thread_self (kst p)) m peek timeout p)"

definition rt_fmq_recv_wake ::
  "tid \<Rightarrow> nat \<Rightarrow> bool \<Rightarrow> rt_int32 \<Rightarrow> rt_tick \<Rightarrow> port
     \<Rightarrow> ((rt_err \<times> rt_uint8 list option) callres \<times> port) option" where
  "rt_fmq_recv_wake t m peek timeout start p =
     (if error (threads (kst p) t) \<noteq> RT_EOK then Some (Return (error (threads (kst p) t), None), p)
      else fmq_recv_loop (Some t) m peek (remaining_time timeout start (kst p)) p)"

section \<open>The pool implements a queue with two ends\<close>

definition fmq_wf :: "rt_mailbox \<Rightarrow> fmq_pool \<Rightarrow> bool" where
  "fmq_wf mb q \<longleftrightarrow> unat (out_offset mb) < unat (mb_size mb) \<and> unat (mb_entry mb) \<le> unat (mb_size mb)
     \<and> unat (in_offset mb) = (unat (out_offset mb) + unat (mb_entry mb)) mod unat (mb_size mb)
     \<and> length (fmq_bytes q) = unat (mb_size mb) * unat (fmq_item q)
     \<and> unat (mb_size mb) * unat (fmq_item q) < 2 ^ 32"

definition fmq_items :: "rt_mailbox \<Rightarrow> fmq_pool \<Rightarrow> rt_uint8 list list" where
  "fmq_items mb q =
     ring (slot (unat (fmq_item q)) (fmq_bytes q)) (unat (mb_size mb)) (unat (out_offset mb)) (unat (mb_entry mb))"

lemma fmq_length: "length (fmq_items mb q) = unat (mb_entry mb)"
  by (simp add: fmq_items_def)

text \<open>What a send promises.\<close>

fun fmq_spec :: "copy_position \<Rightarrow> 'a \<Rightarrow> 'a list \<Rightarrow> 'a list" where
  "fmq_spec queueSEND_TO_BACK v xs = xs @ [v]"
| "fmq_spec queueSEND_TO_FRONT v xs = v # xs"
| "fmq_spec queueOVERWRITE v xs = v # tl xs"

lemma slot_offset:
  fixes k :: rt_uint16
  assumes "fmq_wf mb q" and "unat k < unat (mb_size mb)"
  shows "unat (ucast k * fmq_item q) = unat k * unat (fmq_item q)"
    and "unat k * unat (fmq_item q) + unat (fmq_item q) \<le> length (fmq_bytes q)"
proof -
  have "Suc (unat k) * unat (fmq_item q) \<le> unat (mb_size mb) * unat (fmq_item q)"
    using assms(2) by (intro mult_le_mono1) simp
  with assms(1) show le: "unat k * unat (fmq_item q) + unat (fmq_item q) \<le> length (fmq_bytes q)"
    by (simp add: fmq_wf_def)
  have "unat k < 2 ^ 32" using unsigned_less [of k, where ?'a = nat] by simp
  then have "unat (ucast k :: rt_uint32) = unat k" by (simp add: unsigned_ucast_eq take_bit_nat_eq_self)
  moreover have "unat k * unat (fmq_item q) < 2 ^ 32" using le assms(1) by (simp add: fmq_wf_def)
  ultimately show "unat (ucast k * fmq_item q) = unat k * unat (fmq_item q)"
    by (simp add: unat_word_ariths)
qed

lemma ring_cells:
  assumes "\<And>j. j < n \<Longrightarrow> f j = g j" and "0 < n"
  shows "ring f n p e = ring g n p e"
  using assms by (intro ring_cong) simp

lemma copy_in_slot:
  fixes k :: rt_uint16
  assumes wf: "fmq_wf mb q" and k: "unat k < unat (mb_size mb)" and v: "unat (fmq_item q) \<le> length value"
  obtains q' where "copy_in (ucast k * fmq_item q) value q = Some q'" and "fmq_item q' = fmq_item q"
    and "length (fmq_bytes q') = length (fmq_bytes q)"
    and "\<And>p e. ring (slot (unat (fmq_item q)) (fmq_bytes q')) (unat (mb_size mb)) p e
      = ring ((slot (unat (fmq_item q)) (fmq_bytes q))(unat k := take (unat (fmq_item q)) value)) (unat (mb_size mb)) p e"
proof -
  let ?n = "unat (fmq_item q)"
  let ?q' = "q\<lparr>fmq_bytes := put_bytes (unat k * ?n) (take ?n value) (fmq_bytes q)\<rparr>"
  note off = slot_offset [OF wf k]
  have len: "length (fmq_bytes q) = unat (mb_size mb) * ?n" using wf by (simp add: fmq_wf_def)
  show ?thesis
  proof (rule that [of ?q'])
    show "copy_in (ucast k * fmq_item q) value q = Some ?q'"
      using off v by (simp add: copy_in_def Let_def)
    show "length (fmq_bytes ?q') = length (fmq_bytes q)" using off(2) v by (simp add: put_bytes_length)
    show "ring (slot ?n (fmq_bytes ?q')) (unat (mb_size mb)) p e
      = ring ((slot ?n (fmq_bytes q))(unat k := take ?n value)) (unat (mb_size mb)) p e" for p e
      using slot_put [OF len k, of "take ?n value"] v k by (intro ring_cells) simp_all
  qed simp
qed

lemma fmq_put_ok:
  assumes wf: "fmq_wf mb q" and room: "unat (mb_entry mb) < unat (mb_size mb) \<or> pos = queueOVERWRITE"
    and v: "unat (fmq_item q) \<le> length value"
  shows "\<exists>mb' q'. fmq_put pos value mb q = Some (mb', q') \<and> fmq_wf mb' q' \<and> mb_size mb' = mb_size mb
    \<and> fmq_item q' = fmq_item q \<and> fmq_items mb' q' = fmq_spec pos (take (unat (fmq_item q)) value) (fmq_items mb q)"
proof -
  let ?n = "unat (mb_size mb)" and ?e = "unat (mb_entry mb)" and ?o = "unat (out_offset mb)"
  let ?k = "unat (fmq_item q)" and ?i = "unat (in_offset mb)"
  let ?f = "slot ?k (fmq_bytes q)" and ?v = "take ?k value"
  have w: "?o < ?n" "?e \<le> ?n" "?i = (?o + ?e) mod ?n" "?n * ?k < 2 ^ 32" "length (fmq_bytes q) = ?n * ?k"
    using wf by (simp_all add: fmq_wf_def)
  then have n: "0 < ?n" and i: "?i < ?n" by simp_all
  have e0: "mb_entry mb = 0 \<longleftrightarrow> ?e = 0" by (simp add: unat_eq_0)
  consider (last) "?e < ?n" "?e = 0 \<or> pos = queueSEND_TO_BACK" | (first) "0 < ?e" "pos = queueOVERWRITE"
    | (front) "0 < ?e" "?e < ?n" "pos = queueSEND_TO_FRONT"
    using room n by (cases pos) auto
  then show ?thesis
  proof cases
    case last
    obtain q' where q': "copy_in (ucast (in_offset mb) * fmq_item q) value q = Some q'" "fmq_item q' = fmq_item q"
      "length (fmq_bytes q') = length (fmq_bytes q)" "\<And>p e. ring (slot ?k (fmq_bytes q')) ?n p e = ring (?f(?i := ?v)) ?n p e"
      by (rule copy_in_slot [OF wf i v]) blast
    let ?mb = "mb\<lparr>in_offset := if in_offset mb + 1 \<ge> mb_size mb then 0 else in_offset mb + 1, mb_entry := mb_entry mb + 1\<rparr>"
    have put: "fmq_put pos value mb q = Some (?mb, q')"
      using last(2) q'(1) e0 by (auto simp: fmq_put_def Let_def)
    have e1: "unat (mb_entry mb + 1) = ?e + 1" using last(1) by (rule entry_inc)
    have i1: "unat (in_offset ?mb) = (?o + (?e + 1)) mod ?n" using ring_advance [OF i] w(3) by (simp add: mod_Suc_eq)
    have "fmq_wf ?mb q'" using w q'(2,3) last(1) i1 e1 unfolding fmq_wf_def by simp
    moreover have "fmq_items ?mb q' = fmq_items mb q @ [?v]"
      using ring_put [OF last(1), of ?f ?o ?v] e1 by (simp add: fmq_items_def q'(2,4) w(3) del: fun_upd_apply)
    moreover have "fmq_items mb q @ [?v] = fmq_spec pos ?v (fmq_items mb q)"
      using last(2) by (cases pos) (auto simp: fmq_items_def)
    ultimately show ?thesis using put q'(2) by simp
  next
    case first
    obtain q' where q': "copy_in (ucast (out_offset mb) * fmq_item q) value q = Some q'" "fmq_item q' = fmq_item q"
      "length (fmq_bytes q') = length (fmq_bytes q)" "\<And>p e. ring (slot ?k (fmq_bytes q')) ?n p e = ring (?f(?o := ?v)) ?n p e"
      by (rule copy_in_slot [OF wf w(1) v]) blast
    have put: "fmq_put pos value mb q = Some (mb, q')"
      using first q'(1) e0 by (simp add: fmq_put_def Let_def)
    have "fmq_wf mb q'" using wf q'(2,3) by (simp add: fmq_wf_def)
    moreover have "fmq_items mb q' = ?v # tl (fmq_items mb q)"
      using ring_replace [OF first(1) w(2,1), of ?f ?v] by (simp add: fmq_items_def q'(2,4) del: fun_upd_apply)
    ultimately show ?thesis using put q'(2) first(2) by simp
  next
    case front
    let ?o' = "if ?o = 0 then ?n - 1 else ?o - 1"
    let ?w = "if out_offset mb = 0 then mb_size mb - 1 else out_offset mb - 1"
    have m1: "unat (mb_size mb - 1) = ?n - 1" using n by (metis gr_implies_not0 unat_0 unat_minus_one)
    have o': "unat ?w = ?o'" using m1 by (simp add: unat_eq_0 unat_minus_one)
    note b = ring_back [OF w(1)]
    have lt: "unat ?w < ?n" unfolding o' by (rule b(2))
    obtain q' where q': "copy_in (ucast ?w * fmq_item q) value q = Some q'" "fmq_item q' = fmq_item q"
      "length (fmq_bytes q') = length (fmq_bytes q)" "\<And>p e. ring (slot ?k (fmq_bytes q')) ?n p e = ring (?f(unat ?w := ?v)) ?n p e"
      by (rule copy_in_slot [OF wf lt v]) blast
    let ?mb = "mb\<lparr>out_offset := ?w, mb_entry := mb_entry mb + 1\<rparr>"
    have put: "fmq_put pos value mb q = Some (?mb, q')"
      using front q'(1) e0 by (auto simp: fmq_put_def Let_def)
    have e1: "unat (mb_entry mb + 1) = ?e + 1" using front(2) by (rule entry_inc)
    have "(?o' + (?e + 1)) mod ?n = (?o + ?e) mod ?n"
      using ring_shift [of ?o' ?e ?n] b(1) by simp
    then have "fmq_wf ?mb q'" using w q'(2,3) front(2) lt o' e1 unfolding fmq_wf_def by simp
    moreover have "fmq_items ?mb q' = ?v # fmq_items mb q"
      using ring_put_front [OF front(2) w(1), of ?f ?v] e1 by (simp add: fmq_items_def q'(2,4) o' del: fun_upd_apply)
    ultimately show ?thesis using put q'(2) front(3) by simp
  qed
qed

lemma fmq_get_ok:
  assumes wf: "fmq_wf mb q" and ne: "0 < unat (mb_entry mb)"
  defines "mb' \<equiv> fmq_drop mb"
  shows "copy_out (ucast (out_offset mb) * fmq_item q) q = Some (hd (fmq_items mb q))"
    and "fmq_wf mb' q" and "fmq_items mb' q = tl (fmq_items mb q)"
proof -
  let ?n = "unat (mb_size mb)" and ?e = "unat (mb_entry mb)" and ?o = "unat (out_offset mb)"
  have w: "?o < ?n" "?e \<le> ?n" "unat (in_offset mb) = (?o + ?e) mod ?n" using wf by (simp_all add: fmq_wf_def)
  note off = slot_offset [OF wf w(1)]
  have get: "fmq_items mb q = slot (unat (fmq_item q)) (fmq_bytes q) ?o
      # ring (slot (unat (fmq_item q)) (fmq_bytes q)) ?n ((?o + 1) mod ?n) (?e - 1)"
    unfolding fmq_items_def by (rule ring_get [OF ne w(1)])
  show "copy_out (ucast (out_offset mb) * fmq_item q) q = Some (hd (fmq_items mb q))"
    using off unfolding get by (simp add: copy_out_def slot_def Let_def)
  have e: "unat (mb_entry mb - 1) = ?e - 1" using ne by (metis gr_implies_not0 unat_0 unat_minus_one)
  have o: "unat (out_offset mb') = (?o + 1) mod ?n" using ring_advance [OF w(1)] by (simp add: mb'_def fmq_drop_def Let_def split: if_splits)
  have "((?o + 1) mod ?n + (?e - 1)) mod ?n = (?o + ?e) mod ?n"
    using ne ring_shift [of ?o "?e - 1" ?n] by simp
  then show "fmq_wf mb' q"
    using wf w e o unfolding fmq_wf_def by (simp add: mb'_def fmq_drop_def Let_def)
  show "fmq_items mb' q = tl (fmq_items mb q)"
    using o e unfolding get by (simp add: fmq_items_def mb'_def fmq_drop_def Let_def)
qed

section \<open>The calls\<close>

abbreviation fmq_ok :: "nat \<Rightarrow> port \<Rightarrow> bool" where
  "fmq_ok m p \<equiv> fmq_wf (mailboxes (kst p) m) (pools p m)"

abbreviation fmq_list :: "nat \<Rightarrow> port \<Rightarrow> rt_uint8 list list" where
  "fmq_list m p \<equiv> fmq_items (mailboxes (kst p) m) (pools p m)"

lemma fmq_create_ok:
  assumes "irq_nest (kst p) = 0" and "0 < unat sz" and "unat sz < 2 ^ 16"
    and "unat sz * unat item < 2 ^ 32" and "length bs = unat sz * unat item"
  shows "\<exists>p'. rt_fmq_create (Some m) (Some bs) nm item sz flg p = Some (Some m, p')
    \<and> fmq_ok m p' \<and> fmq_list m p' = [] \<and> fmq_item (pools p' m) = item
    \<and> unat (mb_size (mailboxes (kst p') m)) = unat sz \<and> o_flag (objs (kst p') (OMb m)) = flg"
proof -
  have "unat (ucast sz :: rt_uint16) = unat sz" using assms(3) by (simp add: unsigned_ucast_eq take_bit_nat_eq_self)
  with assms show ?thesis
    by (auto simp: rt_fmq_create_def rt_object_allocate_def rt_ipc_object_init_def Let_def fmq_wf_def fmq_items_def)
qed

text \<open>
  A send with room, or with permission to overwrite, stores the item and wakes the first waiting
  receiver.
\<close>

lemma fmq_send_room:
  assumes inv: "check_inv base (kst p)" and ok: "fmq_ok m p"
    and room: "mb_entry (mailboxes (kst p) m) \<noteq> mb_size (mailboxes (kst p) m) \<or> pos = queueOVERWRITE"
    and v: "unat (fmq_item (pools p m)) \<le> length value"
  shows "\<exists>p'. rt_fmq_send m value pos timeout p = Some (Return RT_EOK, p') \<and> check_inv base (kst p') \<and> fmq_ok m p'
    \<and> fmq_list m p' = fmq_spec pos (take (unat (fmq_item (pools p m))) value) (fmq_list m p)
    \<and> mb_size (mailboxes (kst p') m) = mb_size (mailboxes (kst p) m) \<and> fmq_item (pools p' m) = fmq_item (pools p m)
    \<and> lst (tlists (kst p')) (SuspendQ (OMb m)) = tl (lst (tlists (kst p)) (SuspendQ (OMb m)))
    \<and> (\<forall>t ts. lst (tlists (kst p)) (SuspendQ (OMb m)) = t # ts \<longrightarrow> stat (threads (kst p') t) = RT_THREAD_READY)"
proof -
  let ?s = "kst p" and ?h = "SuspendQ (OMb m)" and ?mb = "mailboxes (kst p) m" and ?q = "pools p m"
  have "unat (mb_entry ?mb) < unat (mb_size ?mb) \<or> pos = queueOVERWRITE"
    using room ok by (auto simp: fmq_wf_def word_unat_eq_iff nat_less_le)
  from fmq_put_ok [OF ok this v] obtain mb q where put: "fmq_put pos value ?mb ?q = Some (mb, q)" "fmq_wf mb q"
    "mb_size mb = mb_size ?mb" "fmq_item q = fmq_item ?q" "fmq_items mb q = fmq_spec pos (take (unat (fmq_item ?q)) value) (fmq_items ?mb ?q)"
    by blast
  let ?s1 = "upd_mb m (\<lambda>_. mb) ?s"
  have inv1: "check_inv base ?s1" using inv by simp
  show ?thesis
  proof (cases "lst (tlists ?s) ?h")
    case Nil
    with room put inv1 show ?thesis by (auto simp: rt_fmq_send_def fmq_send_loop_def Let_def ls_isempty_def)
  next
    case (Cons t ts)
    then have "lst (tlists ?s1) ?h = t # ts" by simp
    from ipc_resume_first [OF inv1 _ this] obtain s' where
      s': "rt_ipc_list_resume ?h ?s1 = Some (snd (rt_thread_resume t ?s1))"
        "rt_schedule (snd (rt_thread_resume t ?s1)) = Some s'" "check_inv base s'"
        "threads s' = (threads ?s1)(t := (threads ?s1 t)\<lparr>stat := RT_THREAD_READY\<rparr>)"
        "lst (tlists s') ?h = ts" "mailboxes s' = mailboxes ?s1" by metis
    with Cons room put show ?thesis by (auto simp: rt_fmq_send_def fmq_send_loop_def Let_def ls_isempty_def)
  qed
qed

lemma fmq_recv_item:
  assumes inv: "check_inv base (kst p)" and ok: "fmq_ok m p" and q: "fmq_list m p = v # vs"
  shows "rt_fmq_recv m True timeout p = Some (Return (RT_EOK, Some v), p)"
    and "\<exists>p'. rt_fmq_recv m False timeout p = Some (Return (RT_EOK, Some v), p') \<and> check_inv base (kst p')
      \<and> fmq_ok m p' \<and> fmq_list m p' = vs \<and> pools p' = pools p
      \<and> lst (tlists (kst p')) (SenderQ (OMb m)) = tl (lst (tlists (kst p)) (SenderQ (OMb m)))
      \<and> (\<forall>t ts. lst (tlists (kst p)) (SenderQ (OMb m)) = t # ts \<longrightarrow> stat (threads (kst p') t) = RT_THREAD_READY)"
proof -
  let ?s = "kst p" and ?h = "SenderQ (OMb m)" and ?mb = "mailboxes (kst p) m"
  have e: "0 < unat (mb_entry ?mb)" using q by (metis fmq_items_def length_greater_0_conv list.distinct(1) ring_length)
  then have ne: "mb_entry ?mb \<noteq> 0" by auto
  note get = fmq_get_ok [OF ok e, unfolded q, simplified]
  show "rt_fmq_recv m True timeout p = Some (Return (RT_EOK, Some v), p)"
    using ne get(1) by (simp add: rt_fmq_recv_def fmq_recv_loop_def)
  let ?s1 = "upd_mb m fmq_drop ?s"
  have inv1: "check_inv base ?s1" using inv by simp
  show "\<exists>p'. rt_fmq_recv m False timeout p = Some (Return (RT_EOK, Some v), p') \<and> check_inv base (kst p')
      \<and> fmq_ok m p' \<and> fmq_list m p' = vs \<and> pools p' = pools p
      \<and> lst (tlists (kst p')) ?h = tl (lst (tlists ?s) ?h)
      \<and> (\<forall>t ts. lst (tlists ?s) ?h = t # ts \<longrightarrow> stat (threads (kst p') t) = RT_THREAD_READY)"
  proof (cases "lst (tlists ?s) ?h")
    case Nil
    then have "rt_fmq_recv m False timeout p = Some (Return (RT_EOK, Some v), p\<lparr>kst := ?s1\<rparr>)"
      using ne get(1) by (simp add: rt_fmq_recv_def fmq_recv_loop_def Let_def ls_isempty_def)
    with get(2,3) inv1 Nil show ?thesis by simp
  next
    case (Cons t ts)
    then have "lst (tlists ?s1) ?h = t # ts" by simp
    from ipc_resume_first [OF inv1 _ this] obtain s' where
      s': "rt_ipc_list_resume ?h ?s1 = Some (snd (rt_thread_resume t ?s1))"
        "rt_schedule (snd (rt_thread_resume t ?s1)) = Some s'" "check_inv base s'"
        "threads s' = (threads ?s1)(t := (threads ?s1 t)\<lparr>stat := RT_THREAD_READY\<rparr>)"
        "lst (tlists s') ?h = ts" "mailboxes s' = mailboxes ?s1" by metis
    have "rt_fmq_recv m False timeout p = Some (Return (RT_EOK, Some v), p\<lparr>kst := s'\<rparr>)"
      using ne get(1) Cons s'(1,2) by (simp add: rt_fmq_recv_def fmq_recv_loop_def Let_def ls_isempty_def cong: if_cong)
    with get(2,3) s' Cons show ?thesis by simp
  qed
qed

text \<open>Without room, and without an item, the calls fail or wait; the queue does not change.\<close>

lemma fmq_send_full:
  assumes "mb_entry (mailboxes (kst p) m) = mb_size (mailboxes (kst p) m)" and "pos \<noteq> queueOVERWRITE"
  shows "rt_fmq_send m value pos 0 p = Some (Return (- RT_EFULL), p)"
    and "running (kst p) t \<Longrightarrow> may_wait (kst p) t timeout \<Longrightarrow> timeout \<noteq> 0 \<Longrightarrow>
      \<exists>s'. rt_fmq_send m value pos timeout p = Some (Blocked, p\<lparr>kst := s'\<rparr>)
        \<and> kcall {SenderQ (OMb m)} t (kst p) s' \<and> loc (tlists s') t = Some (SenderQ (OMb m)) \<and> mailboxes s' = mailboxes (kst p)"
proof -
  show "rt_fmq_send m value pos 0 p = Some (Return (- RT_EFULL), p)" using assms by (simp add: rt_fmq_send_def)
  assume run: "running (kst p) t" and w: "may_wait (kst p) t timeout" "timeout \<noteq> 0"
  let ?s1 = "upd_thread t (\<lambda>th. th\<lparr>error := RT_EOK\<rparr>) (kst p)"
  have pre: "prepared (kst p) t ?s1" using prepared_refl [OF run] by (rule prepared_error)
  obtain s' where s': "ipc_wait (SenderQ (OMb m)) t (o_flag (objs ?s1 (OMb m))) timeout ?s1 = Some s'"
    "kcall {SenderQ (OMb m)} t (kst p) s'" "loc (tlists s') t = Some (SenderQ (OMb m))" "same_objects ?s1 s'"
    by (rule prepared_waits [OF run pre, of "OMb m" "SenderQ (OMb m)" timeout]) (use w in auto)
  then show "\<exists>s'. rt_fmq_send m value pos timeout p = Some (Blocked, p\<lparr>kst := s'\<rparr>)
      \<and> kcall {SenderQ (OMb m)} t (kst p) s' \<and> loc (tlists s') t = Some (SenderQ (OMb m)) \<and> mailboxes s' = mailboxes (kst p)"
    using assms run w by (auto simp: rt_fmq_send_def fmq_send_loop_def Let_def running_def)
qed

lemma fmq_recv_empty:
  assumes "mb_entry (mailboxes (kst p) m) = 0"
  shows "rt_fmq_recv m peek 0 p = Some (Return (- RT_ETIMEOUT, None), p)"
    and "running (kst p) t \<Longrightarrow> may_wait (kst p) t timeout \<Longrightarrow> timeout \<noteq> 0 \<Longrightarrow>
      \<exists>s'. rt_fmq_recv m peek timeout p = Some (Blocked, p\<lparr>kst := s'\<rparr>)
        \<and> kcall {SuspendQ (OMb m)} t (kst p) s' \<and> loc (tlists s') t = Some (SuspendQ (OMb m)) \<and> mailboxes s' = mailboxes (kst p)"
proof -
  show "rt_fmq_recv m peek 0 p = Some (Return (- RT_ETIMEOUT, None), p)" using assms by (simp add: rt_fmq_recv_def)
  assume run: "running (kst p) t" and w: "may_wait (kst p) t timeout" "timeout \<noteq> 0"
  let ?s1 = "upd_thread t (\<lambda>th. th\<lparr>error := RT_EOK\<rparr>) (kst p)"
  have pre: "prepared (kst p) t ?s1" using prepared_refl [OF run] by (rule prepared_error)
  obtain s' where s': "ipc_wait (SuspendQ (OMb m)) t (o_flag (objs ?s1 (OMb m))) timeout ?s1 = Some s'"
    "kcall {SuspendQ (OMb m)} t (kst p) s'" "loc (tlists s') t = Some (SuspendQ (OMb m))" "same_objects ?s1 s'"
    by (rule prepared_waits [OF run pre, of "OMb m" "SuspendQ (OMb m)" timeout]) (use w in auto)
  then show "\<exists>s'. rt_fmq_recv m peek timeout p = Some (Blocked, p\<lparr>kst := s'\<rparr>)
      \<and> kcall {SuspendQ (OMb m)} t (kst p) s' \<and> loc (tlists s') t = Some (SuspendQ (OMb m)) \<and> mailboxes s' = mailboxes (kst p)"
    using assms run w by (auto simp: rt_fmq_recv_def fmq_recv_loop_def Let_def running_def)
qed

text \<open>The calls that do not wait, as the operations of a queue.\<close>

definition fmq_try_send :: "nat \<Rightarrow> rt_uint8 list \<Rightarrow> port \<Rightarrow> port option" where
  "fmq_try_send m v p = do {
     (r, p1) \<leftarrow> rt_fmq_send m v queueSEND_TO_BACK 0 p;
     if r = Return RT_EOK then Some p1 else None }"

definition fmq_try_recv :: "nat \<Rightarrow> port \<Rightarrow> (rt_uint8 list \<times> port) option" where
  "fmq_try_recv m p = do {
     (r, p1) \<leftarrow> rt_fmq_recv m False 0 p;
     case r of Return (e, Some v) \<Rightarrow> if e = RT_EOK then Some (v, p1) else None | _ \<Rightarrow> None }"

interpretation fmq_calls: kernel_queue "fmq_list m" "\<lambda>p. unat (mb_size (mailboxes (kst p) m))"
  "\<lambda>p v. length v = unat (fmq_item (pools p m))" "\<lambda>p. check_inv base (kst p) \<and> fmq_ok m p"
  "fmq_try_send m" "fmq_try_recv m" for m base
proof unfold_locales
  fix p and v :: "rt_uint8 list" and vs
  assume ok: "check_inv base (kst p) \<and> fmq_ok m p"
  { assume l: "length v = unat (fmq_item (pools p m))" and "length (fmq_list m p) < unat (mb_size (mailboxes (kst p) m))"
    then have "mb_entry (mailboxes (kst p) m) \<noteq> mb_size (mailboxes (kst p) m)" by (auto simp: fmq_items_def)
    then obtain p' where "rt_fmq_send m v queueSEND_TO_BACK 0 p = Some (Return RT_EOK, p')" "check_inv base (kst p')"
      "fmq_ok m p'" "fmq_list m p' = fmq_list m p @ [v]" "mb_size (mailboxes (kst p') m) = mb_size (mailboxes (kst p) m)"
      "fmq_item (pools p' m) = fmq_item (pools p m)"
      using fmq_send_room [of base p m queueSEND_TO_BACK v 0] ok l by auto
    then show
      "\<exists>p'. fmq_try_send m v p = Some p' \<and> (check_inv base (kst p') \<and> fmq_ok m p') \<and> fmq_list m p' = fmq_list m p @ [v]
        \<and> unat (mb_size (mailboxes (kst p') m)) = unat (mb_size (mailboxes (kst p) m))
        \<and> (\<lambda>v. length v = unat (fmq_item (pools p' m))) = (\<lambda>v. length v = unat (fmq_item (pools p m)))"
      by (intro exI [of _ p']) (simp add: fmq_try_send_def) }
  assume "fmq_list m p = v # vs"
  with fmq_recv_item(2) [of base p m v vs 0] ok show
    "\<exists>p'. fmq_try_recv m p = Some (v, p') \<and> (check_inv base (kst p') \<and> fmq_ok m p') \<and> fmq_list m p' = vs"
    by (auto simp: fmq_try_recv_def)
qed

end
