(* ===== verification/Rt_Port.thy ===== *)
theory Rt_Port
  imports Rt_Fmq Rt_Tick
begin

text \<open>
  The FreeRTOS interface that the libraries of the ESP-IDF are linked against, implemented on the kernel:
  \<^verbatim>\<open>esp-idf-port/stubs/libcpu.c\<close>. Handles are kernel objects; the queue functions look at the type of the
  object and call the semaphore, the mutex or the queue of theory \<open>Rt_Fmq\<close>. Using an object as one of
  another type is undefined. Constants of the FreeRTOS headers are symbols.
\<close>

section \<open>Results and handles\<close>

datatype base_type = pdPASS | pdFAIL | errQUEUE_FULL | errQUEUE_EMPTY | errCOULD_NOT_ALLOCATE_REQUIRED_MEMORY

datatype scheduler_state = taskSCHEDULER_NOT_STARTED | taskSCHEDULER_RUNNING | taskSCHEDULER_SUSPENDED

text \<open>\<open>queueQUEUE_TYPE_OTHER\<close> stands for the queue types that the code does not distinguish.\<close>

datatype queue_type = queueQUEUE_TYPE_MUTEX | queueQUEUE_TYPE_RECURSIVE_MUTEX | queueQUEUE_TYPE_OTHER

text \<open>The casts of a handle.\<close>

fun as_sem :: "oref \<Rightarrow> nat option" where "as_sem (OSem m) = Some m" | "as_sem _ = None"
fun as_mutex :: "oref \<Rightarrow> nat option" where "as_mutex (OMutex m) = Some m" | "as_mutex _ = None"
fun as_mb :: "oref \<Rightarrow> nat option" where "as_mb (OMb m) = Some m" | "as_mb _ = None"

definition has_type :: "oref \<Rightarrow> rt_object_class_type \<Rightarrow> port \<Rightarrow> bool" where
  "has_type ob ty p \<longleftrightarrow> o_type (objs (kst p) ob) = class_code ty"

text \<open>A kernel call in the port.\<close>

definition lift :: "(kstate \<Rightarrow> ('a \<times> kstate) option) \<Rightarrow> port \<Rightarrow> ('a \<times> port) option" where
  "lift f p = do { (r, s) \<leftarrow> f (kst p); Some (r, p\<lparr>kst := s\<rparr>) }"

text \<open>\<^verbatim>\<open>sprintf\<close> of a prefix and a number below 100 with two digits.\<close>

definition num_name :: "rt_uint8 list \<Rightarrow> rt_uint16 \<Rightarrow> rt_uint8 list" where
  "num_name prefix n = prefix @ [48 + ucast (n div 10), 48 + ucast (n mod 10)]"

section \<open>Tasks\<close>

text \<open>
  \<open>stack_unit\<close> is \<^verbatim>\<open>sizeof(StackType_t)\<close> and \<open>privilege\<close> is \<^verbatim>\<open>portPRIVILEGE_BIT\<close>, both of the FreeRTOS
  headers; \<open>mem\<close>, \<open>stk\<close> and \<open>hw_sp\<close> are the parameters of \<open>rt_thread_create\<close>.
\<close>

definition task_priority :: "rt_uint32 \<Rightarrow> rt_uint32 \<Rightarrow> rt_uint8" where
  "task_priority privilege uxPriority =
     ucast (word_of_nat RT_THREAD_PRIORITY_MAX - 5 - (uxPriority AND NOT privilege))"

definition xTaskCreatePinnedToCore ::
  "rt_uint32 \<Rightarrow> rt_uint32 \<Rightarrow> tid option \<Rightarrow> rt_uint32 option \<Rightarrow> rt_uint32 \<Rightarrow>
     nat \<Rightarrow> rt_uint8 list \<Rightarrow> rt_uint32 \<Rightarrow> nat \<Rightarrow> rt_uint32 \<Rightarrow> port \<Rightarrow> ((base_type \<times> tid option) \<times> port) option" where
  "xTaskCreatePinnedToCore stack_unit privilege mem stk hw_sp pxTaskCode pcName usStackDepth pvParameters uxPriority p =
     do {
       (thread, p1) \<leftarrow> lift (rt_thread_create mem stk pcName pxTaskCode pvParameters (usStackDepth * stack_unit)
                        (task_priority privilege uxPriority) 10 hw_sp) p;
       case thread of
         None \<Rightarrow> Some ((errCOULD_NOT_ALLOCATE_REQUIRED_MEMORY, None), p1)
       | Some t \<Rightarrow> do { (e, p2) \<leftarrow> lift (rt_thread_startup t) p1; Some ((pdPASS, Some t), p2) }
     }"

definition vTaskDelete :: "tid option \<Rightarrow> port \<Rightarrow> port option" where
  "vTaskDelete xTaskToDelete p =
     do {
       t \<leftarrow> (case xTaskToDelete of None \<Rightarrow> rt_thread_self (kst p) | Some t \<Rightarrow> Some t);
       s1 \<leftarrow> rt_schedule (snd (rt_thread_delete t (kst p)));
       Some (p\<lparr>kst := s1\<rparr>)
     }"

definition vTaskDelay :: "rt_tick \<Rightarrow> port \<Rightarrow> port option" where
  "vTaskDelay xTicksToDelay p = do { s1 \<leftarrow> rt_thread_delay xTicksToDelay (kst p); Some (p\<lparr>kst := s1\<rparr>) }"

definition xTaskGetCurrentTaskHandle :: "port \<Rightarrow> tid option" where
  "xTaskGetCurrentTaskHandle p = rt_thread_self (kst p)"

definition xTaskGetCurrentTaskHandleForCPU :: "nat \<Rightarrow> port \<Rightarrow> tid option" where
  "xTaskGetCurrentTaskHandleForCPU cpuid p = (if cpuid = 0 then rt_thread_self (kst p) else None)"

definition pcTaskGetTaskName :: "tid \<Rightarrow> port \<Rightarrow> rt_uint8 list" where
  "pcTaskGetTaskName t p = o_name (objs (kst p) (OThread t))"

definition xTaskGetTickCount :: "port \<Rightarrow> rt_tick" where
  "xTaskGetTickCount p = rt_tick_get (kst p)"

definition xTaskGetSchedulerState :: "port \<Rightarrow> scheduler_state" where
  "xTaskGetSchedulerState p =
     (if xSchedulerRunning p then
        (if rt_critical_level (kst p) = 0 then taskSCHEDULER_RUNNING else taskSCHEDULER_SUSPENDED)
      else taskSCHEDULER_NOT_STARTED)"

definition vTaskSuspendAll :: "port \<Rightarrow> port" where
  "vTaskSuspendAll p = (if xSchedulerRunning p then p\<lparr>kst := rt_enter_critical (kst p)\<rparr> else p)"

definition xTaskResumeAll :: "port \<Rightarrow> (bool \<times> port) option" where
  "xTaskResumeAll p =
     (if xSchedulerRunning p then do { s1 \<leftarrow> rt_exit_critical (kst p); Some (True, p\<lparr>kst := s1\<rparr>) }
      else Some (True, p))"

text \<open>\<open>hook\<close> is the tick hook of the ESP-IDF. The result of the code, always false, asks for no switch.\<close>

definition xTaskIncrementTick ::
  "(kstate \<Rightarrow> kstate option) \<Rightarrow> (nat \<Rightarrow> nat \<Rightarrow> kstate \<Rightarrow> kstate option) \<Rightarrow> port \<Rightarrow> (bool \<times> port) option" where
  "xTaskIncrementTick hook cb p =
     do { s1 \<leftarrow> hook (kst p); s2 \<leftarrow> clock_interrupt cb s1; Some (False, p\<lparr>kst := s2\<rparr>) }"

definition vTaskStartScheduler :: "port \<Rightarrow> port option" where
  "vTaskStartScheduler p =
     do { s1 \<leftarrow> rt_system_scheduler_start (kst p); Some (p\<lparr>kst := s1, xSchedulerRunning := True\<rparr>) }"

section \<open>Queues, semaphores and mutexes\<close>

text \<open>\<open>mem\<close> and \<open>bytes\<close> are the results of the allocations.\<close>

definition xQueueGenericCreate ::
  "nat option \<Rightarrow> rt_uint8 list option \<Rightarrow> rt_uint32 \<Rightarrow> rt_uint32 \<Rightarrow> queue_type \<Rightarrow> port \<Rightarrow> (oref option \<times> port) option" where
  "xQueueGenericCreate mem bytes uxQueueLength uxItemSize ucQueueType p =
     (if uxItemSize \<le> 0 \<or> uxQueueLength \<le> 0 then
        (if ucQueueType = queueQUEUE_TYPE_MUTEX \<or> ucQueueType = queueQUEUE_TYPE_RECURSIVE_MUTEX then
           (if ucQueueType = queueQUEUE_TYPE_MUTEX then
              (let p1 = p\<lparr>mx_index := mx_index p + 1\<rparr> in do {
                 (m, p2) \<leftarrow> lift (rt_sem_create mem (num_name [109, 117, 120] (mx_index p1 mod 100)) 1 RT_IPC_FLAG_PRIO) p1;
                 Some (map_option OSem m, p2) })
            else
              (let p1 = p\<lparr>mr_index := mr_index p + 1\<rparr> in do {
                 (m, p2) \<leftarrow> lift (rt_mutex_create mem (num_name [114, 109, 120] (mr_index p1 mod 100)) RT_IPC_FLAG_PRIO) p1;
                 Some (map_option OMutex m, p2) }))
         else
           (let p1 = p\<lparr>ms_index := ms_index p + 1\<rparr> in do {
              (m, p2) \<leftarrow> lift (rt_sem_create mem (num_name [115, 101, 109] (ms_index p1 mod 100)) 0 RT_IPC_FLAG_PRIO) p1;
              Some (map_option OSem m, p2) }))
      else
        (let p1 = p\<lparr>mq_index := mq_index p + 1\<rparr> in do {
           (m, p2) \<leftarrow> rt_fmq_create mem bytes (num_name [102, 109, 113] (mq_index p1 mod 100)) uxItemSize uxQueueLength
                        RT_IPC_FLAG_PRIO p1;
           Some (map_option OMb m, p2) }))"

definition xQueueCreateMutex :: "nat option \<Rightarrow> queue_type \<Rightarrow> port \<Rightarrow> (oref option \<times> port) option" where
  "xQueueCreateMutex mem ucQueueType p = xQueueGenericCreate mem None 1 0 ucQueueType p"

definition vQueueDelete :: "oref \<Rightarrow> port \<Rightarrow> port option" where
  "vQueueDelete ob p =
     (if has_type ob RT_Object_Class_Semaphore p then
        do { m \<leftarrow> as_sem ob; (e, p1) \<leftarrow> lift (rt_sem_delete m) p; Some p1 }
      else if has_type ob RT_Object_Class_Mutex p then
        do { m \<leftarrow> as_mutex ob; (e, p1) \<leftarrow> lift (rt_mutex_delete m) p; Some p1 }
      else
        do { m \<leftarrow> as_mb ob; (e, p1) \<leftarrow> rt_fmq_delete m p; Some p1 })"

definition send_result :: "rt_err \<Rightarrow> base_type" where
  "send_result err = (if err = RT_EOK then pdPASS else errQUEUE_FULL)"

definition recv_result :: "rt_err \<Rightarrow> base_type" where
  "recv_result err = (if err = RT_EOK then pdPASS else errQUEUE_EMPTY)"

definition xQueueGenericSend ::
  "oref \<Rightarrow> rt_uint8 list \<Rightarrow> rt_tick \<Rightarrow> copy_position \<Rightarrow> port \<Rightarrow> (base_type callres \<times> port) option" where
  "xQueueGenericSend ob pvItemToQueue xTicksToWait xCopyPosition p =
     do {
       (r, p1) \<leftarrow>
         (if has_type ob RT_Object_Class_Semaphore p then
            do { m \<leftarrow> as_sem ob; (e, p1) \<leftarrow> lift (rt_sem_release m) p; Some (Return e, p1) }
          else if has_type ob RT_Object_Class_Mutex p then
            do { m \<leftarrow> as_mutex ob; (e, p1) \<leftarrow> lift (rt_mutex_release m) p; Some (Return e, p1) }
          else
            do { m \<leftarrow> as_mb ob; rt_fmq_send m pvItemToQueue xCopyPosition xTicksToWait p });
       Some (callres_map send_result r, p1)
     }"

definition xQueueGenericSend_wake ::
  "tid \<Rightarrow> oref \<Rightarrow> rt_uint8 list \<Rightarrow> rt_tick \<Rightarrow> rt_tick \<Rightarrow> copy_position \<Rightarrow> port \<Rightarrow> (base_type callres \<times> port) option" where
  "xQueueGenericSend_wake t ob pvItemToQueue timeout start xCopyPosition p =
     do {
       m \<leftarrow> as_mb ob;
       (r, p1) \<leftarrow> rt_fmq_send_wake t m pvItemToQueue xCopyPosition timeout start p;
       Some (callres_map send_result r, p1)
     }"

text \<open>In an interrupt: nothing waits, so the result is there at once.\<close>

definition xQueueGenericSendFromISR ::
  "oref \<Rightarrow> rt_uint8 list \<Rightarrow> copy_position \<Rightarrow> port \<Rightarrow> (base_type callres \<times> port) option" where
  "xQueueGenericSendFromISR ob pvItemToQueue xCopyPosition p =
     (let p0 = p\<lparr>kst := rt_interrupt_enter (kst p)\<rparr> in do {
        (r, p1) \<leftarrow>
          (if has_type ob RT_Object_Class_Semaphore p0 then
             do { m \<leftarrow> as_sem ob; (e, p1) \<leftarrow> lift (rt_sem_release m) p0; Some (Return e, p1) }
           else
             do { m \<leftarrow> as_mb ob; rt_fmq_send m pvItemToQueue xCopyPosition 0 p0 });
        Some (callres_map send_result r, p1\<lparr>kst := rt_interrupt_leave (kst p1)\<rparr>) })"

text \<open>
  The received bytes, if any, are part of the result. \<open>portMAX_DELAY\<close> is a constant of the FreeRTOS headers.
\<close>

abbreviation (input) RT_WAITING_FOREVER :: rt_int32 where "RT_WAITING_FOREVER \<equiv> - 1"

definition xQueueGenericReceive ::
  "rt_tick \<Rightarrow> oref \<Rightarrow> rt_tick \<Rightarrow> bool \<Rightarrow> port \<Rightarrow> ((base_type \<times> rt_uint8 list option) callres \<times> port) option" where
  "xQueueGenericReceive portMAX_DELAY ob xTicksToWait xJustPeeking p =
     (let timeout = (if xTicksToWait = portMAX_DELAY then RT_WAITING_FOREVER else xTicksToWait) in
      if has_type ob RT_Object_Class_Semaphore p then
        do { m \<leftarrow> as_sem ob; (r, p1) \<leftarrow> lift (rt_sem_take m timeout) p;
             Some (callres_map (\<lambda>e. (recv_result e, None)) r, p1) }
      else if has_type ob RT_Object_Class_Mutex p then
        do { m \<leftarrow> as_mutex ob; (r, p1) \<leftarrow> lift (rt_mutex_take m timeout) p;
             Some (callres_map (\<lambda>e. (recv_result e, None)) r, p1) }
      else
        do { m \<leftarrow> as_mb ob; (r, p1) \<leftarrow> rt_fmq_recv m xJustPeeking timeout p;
             Some (callres_map (\<lambda>(e, v). (recv_result e, v)) r, p1) })"

definition xQueueGenericReceive_wake ::
  "tid \<Rightarrow> oref \<Rightarrow> rt_tick \<Rightarrow> rt_tick \<Rightarrow> bool \<Rightarrow> port \<Rightarrow> ((base_type \<times> rt_uint8 list option) callres \<times> port) option" where
  "xQueueGenericReceive_wake t ob timeout start xJustPeeking p =
     (if has_type ob RT_Object_Class_Semaphore p then Some (Return (recv_result (rt_sem_take_wake t (kst p)), None), p)
      else if has_type ob RT_Object_Class_Mutex p then Some (Return (recv_result (rt_mutex_take_wake t (kst p)), None), p)
      else
        do { m \<leftarrow> as_mb ob; (r, p1) \<leftarrow> rt_fmq_recv_wake t m xJustPeeking timeout start p;
             Some (callres_map (\<lambda>(e, v). (recv_result e, v)) r, p1) })"

definition xQueueReceiveFromISR ::
  "oref \<Rightarrow> port \<Rightarrow> ((base_type \<times> rt_uint8 list option) callres \<times> port) option" where
  "xQueueReceiveFromISR ob p =
     (let p0 = p\<lparr>kst := rt_interrupt_enter (kst p)\<rparr> in do {
        (r, p1) \<leftarrow>
          (if has_type ob RT_Object_Class_Semaphore p0 then
             do { m \<leftarrow> as_sem ob; (r, p1) \<leftarrow> lift (rt_sem_take m 0) p0;
                  Some (callres_map (\<lambda>e. (recv_result e, None)) r, p1) }
           else
             do { m \<leftarrow> as_mb ob; (r, p1) \<leftarrow> rt_fmq_recv m False 0 p0;
                  Some (callres_map (\<lambda>(e, v). (recv_result e, v)) r, p1) });
        Some (r, p1\<lparr>kst := rt_interrupt_leave (kst p1)\<rparr>) })"

definition uxQueueMessagesWaiting :: "oref \<Rightarrow> port \<Rightarrow> rt_uint32 option" where
  "uxQueueMessagesWaiting ob p =
     (if has_type ob RT_Object_Class_Semaphore p then
        do { m \<leftarrow> as_sem ob; Some (ucast (sem_value (sems (kst p) m))) }
      else if has_type ob RT_Object_Class_Mutex p then
        do { m \<leftarrow> as_mutex ob; Some (ucast (mutex_value (mutexes (kst p) m))) }
      else do { m \<leftarrow> as_mb ob; Some (ucast (mb_entry (mailboxes (kst p) m))) })"

definition xQueueTakeMutexRecursive ::
  "rt_tick \<Rightarrow> oref \<Rightarrow> rt_tick \<Rightarrow> port \<Rightarrow> ((base_type \<times> rt_uint8 list option) callres \<times> port) option" where
  "xQueueTakeMutexRecursive portMAX_DELAY xMutex xTicksToWait p =
     xQueueGenericReceive portMAX_DELAY xMutex xTicksToWait False p"

definition xQueueGiveMutexRecursive :: "oref \<Rightarrow> port \<Rightarrow> (base_type callres \<times> port) option" where
  "xQueueGiveMutexRecursive xMutex p = xQueueGenericSend xMutex [] 0 queueSEND_TO_BACK p"

definition xQueueGiveFromISR :: "oref \<Rightarrow> port \<Rightarrow> (base_type callres \<times> port) option" where
  "xQueueGiveFromISR ob p = xQueueGenericSendFromISR ob [] queueSEND_TO_BACK p"

definition xQueueGenericReset :: "oref \<Rightarrow> bool \<Rightarrow> port \<Rightarrow> base_type \<times> port" where
  "xQueueGenericReset ob xNewQueue p = (pdPASS, p)"

definition xQueueIsQueueFullFromISR :: "oref \<Rightarrow> port \<Rightarrow> bool option" where
  "xQueueIsQueueFullFromISR ob p =
     (if has_type ob RT_Object_Class_MailBox p then
        do { m \<leftarrow> as_mb ob; Some (mb_entry (mailboxes (kst p) m) = mb_size (mailboxes (kst p) m)) }
      else Some False)"

definition uxQueueSpacesAvailable :: "oref \<Rightarrow> port \<Rightarrow> rt_uint32 option" where
  "uxQueueSpacesAvailable ob p =
     (if has_type ob RT_Object_Class_MailBox p then
        do { m \<leftarrow> as_mb ob; Some (ucast (mb_size (mailboxes (kst p) m)) - ucast (mb_entry (mailboxes (kst p) m))) }
      else Some 0)"

section \<open>Timers\<close>

text \<open>\<open>tmrCOMMAND_OTHER\<close> stands for the commands without a case.\<close>

datatype timer_command = tmrCOMMAND_START | tmrCOMMAND_STOP | tmrCOMMAND_CHANGE_PERIOD | tmrCOMMAND_DELETE
  | tmrCOMMAND_OTHER

definition xTimerCreate ::
  "tmref option \<Rightarrow> rt_uint8 list option \<Rightarrow> rt_tick \<Rightarrow> bool \<Rightarrow> nat \<Rightarrow> nat \<Rightarrow> port \<Rightarrow> (tmref option \<times> port) option" where
  "xTimerCreate mem pcTimerName xTimerPeriodInTicks uxAutoReload pvTimerID pxCallbackFunction p =
     (let p1 = (if pcTimerName = None then p\<lparr>tm_index := tm_index p + 1\<rparr> else p);
          tname = (case pcTimerName of None \<Rightarrow> num_name [116, 105, 109] (tm_index p1 mod 100) | Some nm \<Rightarrow> nm)
      in if xTimerPeriodInTicks > 0 then
           lift (rt_timer_create mem tname (User_timeout pxCallbackFunction pvTimerID) xTimerPeriodInTicks
             (if uxAutoReload then RT_TIMER_FLAG_PERIODIC else RT_TIMER_FLAG_ONE_SHOT)) p1
         else Some (None, p1))"

definition xTimerGenericCommand ::
  "tmref \<Rightarrow> timer_command \<Rightarrow> rt_tick \<Rightarrow> bool \<Rightarrow> port \<Rightarrow> (base_type \<times> port) option" where
  "xTimerGenericCommand obj xCommandID xOptionalValue from_isr p =
     (let p0 = (if from_isr then p\<lparr>kst := rt_interrupt_enter (kst p)\<rparr> else p) in do {
        (err, p1) \<leftarrow>
          (case xCommandID of
             tmrCOMMAND_START \<Rightarrow> lift (rt_timer_start obj) p0
           | tmrCOMMAND_STOP \<Rightarrow> lift (\<lambda>s. Some (rt_timer_stop obj s)) p0
           | tmrCOMMAND_CHANGE_PERIOD \<Rightarrow>
               lift (\<lambda>s. let (e, a, s1) = rt_timer_control obj RT_TIMER_CTRL_SET_TIME xOptionalValue s in Some (e, s1)) p0
           | tmrCOMMAND_DELETE \<Rightarrow> lift (rt_timer_delete obj) p0
           | tmrCOMMAND_OTHER \<Rightarrow> Some (RT_EOK, p0));
        Some (if err = RT_EOK then pdPASS else pdFAIL,
          if from_isr then p1\<lparr>kst := rt_interrupt_leave (kst p1)\<rparr> else p1) })"

section \<open>Event groups\<close>

definition xEventGroupCreate :: "nat option \<Rightarrow> port \<Rightarrow> (nat option \<times> port) option" where
  "xEventGroupCreate mem p =
     (let p1 = p\<lparr>ev_index := ev_index p + 1\<rparr>
      in lift (rt_event_create mem (num_name [101, 118, 116] (ev_index p1 mod 100)) RT_IPC_FLAG_PRIO) p1)"

definition vEventGroupDelete :: "nat \<Rightarrow> port \<Rightarrow> port option" where
  "vEventGroupDelete e p = do { (r, p1) \<leftarrow> lift (rt_event_delete e) p; Some p1 }"

definition xEventGroupSetBits :: "nat \<Rightarrow> rt_uint32 \<Rightarrow> port \<Rightarrow> (rt_uint32 \<times> port) option" where
  "xEventGroupSetBits e uxBitsToSet p =
     do {
       (err, p1) \<leftarrow> lift (rt_event_send e uxBitsToSet) p;
       Some (if err \<noteq> RT_EOK then 0 else ev_set (events (kst p1) e), p1)
     }"

text \<open>\<open>bits_result\<close>: the bits received, or zero after an error.\<close>

definition bits_result :: "rt_err \<times> rt_uint32 option \<Rightarrow> rt_uint32" where
  "bits_result r = (if fst r \<noteq> RT_EOK then 0 else case snd r of None \<Rightarrow> 0 | Some recved \<Rightarrow> recved)"

definition xEventGroupClearBits :: "nat \<Rightarrow> rt_uint32 \<Rightarrow> port \<Rightarrow> (rt_uint32 callres \<times> port) option" where
  "xEventGroupClearBits e uxBitsToClear p =
     do {
       (r, p1) \<leftarrow> lift (rt_event_recv e uxBitsToClear (RT_EVENT_FLAG_OR OR RT_EVENT_FLAG_CLEAR) 0) p;
       Some (callres_map bits_result r, p1)
     }"

definition xEventGroupWaitBits ::
  "nat \<Rightarrow> rt_uint32 \<Rightarrow> bool \<Rightarrow> bool \<Rightarrow> rt_tick \<Rightarrow> port \<Rightarrow> (rt_uint32 callres \<times> port) option" where
  "xEventGroupWaitBits e uxBitsToWaitFor xClearOnExit xWaitForAllBits xTicksToWait p =
     (let option1 = (if xClearOnExit then 0 OR RT_EVENT_FLAG_CLEAR else 0);
          option2 = option1 OR (if xWaitForAllBits then RT_EVENT_FLAG_AND else RT_EVENT_FLAG_OR)
      in do {
           (r, p1) \<leftarrow> lift (rt_event_recv e uxBitsToWaitFor option2 xTicksToWait) p;
           Some (callres_map bits_result r, p1)
         })"

definition xEventGroupWaitBits_wake :: "tid \<Rightarrow> port \<Rightarrow> rt_uint32" where
  "xEventGroupWaitBits_wake t p = bits_result (rt_event_recv_wake t (kst p))"

lemma check_inv_object: "check_inv base s \<Longrightarrow> (\<And>r. z \<noteq> OTimer r) \<Longrightarrow> check_inv base (upd_obj z f s)"
proof -
  assume "check_inv base s" and z: "\<And>r. z \<noteq> OTimer r"
  moreover have "OTimer r \<noteq> z" for r using z [of r] by simp
  ultimately show ?thesis by (simp add: check_inv_def periodic_ok_def TI_def TT_def TH_def)
qed

section \<open>Priorities\<close>

text \<open>FreeRTOS priorities grow with urgency, kernel priorities shrink.\<close>

lemma task_priority_value:
  assumes "unat ux \<le> 24" and "ux AND privilege = 0"
  shows "unat (task_priority privilege ux) = 27 - unat ux"
proof -
  have "ux AND NOT privilege = ux"
    using assms(2) by (intro bit_word_eqI) (auto simp: bit_simps dest: arg_cong [where f = "\<lambda>x. bit x n" for n])
  moreover have "unat (27 - ux) = 27 - unat ux" using assms(1) by (subst unat_sub) (simp_all add: word_le_nat_alt)
  moreover have "27 - unat ux < 2 ^ 8" by simp
  ultimately show ?thesis
    by (simp add: task_priority_def RT_THREAD_PRIORITY_MAX_def unsigned_ucast_eq take_bit_nat_eq_self)
qed

section \<open>Queues\<close>

lemma lift_some: "f (kst p) = Some (r, s) \<Longrightarrow> lift f p = Some (r, p\<lparr>kst := s\<rparr>)"
  by (simp add: lift_def)

lemma class_codes [simp]:
  "class_code RT_Object_Class_MailBox \<noteq> class_code RT_Object_Class_Semaphore"
  "class_code RT_Object_Class_MailBox \<noteq> class_code RT_Object_Class_Mutex"
  "class_code RT_Object_Class_Mutex \<noteq> class_code RT_Object_Class_Semaphore"
  by simp_all

lemma queue_types:
  "has_type ob RT_Object_Class_MailBox p \<Longrightarrow> \<not> has_type ob RT_Object_Class_Semaphore p \<and> \<not> has_type ob RT_Object_Class_Mutex p"
  by (simp add: has_type_def)

lemma queue_create:
  assumes "irq_nest (kst p) = 0" and "0 < unat len" and "unat len < 2 ^ 16" and "0 < unat item"
    and "unat len * unat item < 2 ^ 32" and "length bs = unat len * unat item"
  shows "\<exists>p'. xQueueGenericCreate (Some m) (Some bs) len item ty p = Some (Some (OMb m), p')
    \<and> has_type (OMb m) RT_Object_Class_MailBox p' \<and> fmq_ok m p' \<and> fmq_list m p' = []
    \<and> fmq_item (pools p' m) = item \<and> unat (mb_size (mailboxes (kst p') m)) = unat len"
proof -
  let ?p1 = "p\<lparr>mq_index := mq_index p + 1\<rparr>" and ?nm = "num_name [102, 109, 113] ((mq_index p + 1) mod 100)"
  have irq: "irq_nest (kst ?p1) = 0" using assms(1) by simp
  from fmq_create_ok [OF irq assms(2,3,5,6), of m ?nm RT_IPC_FLAG_PRIO] obtain p' where
    p': "rt_fmq_create (Some m) (Some bs) ?nm item len 1 ?p1 = Some (Some m, p')" "fmq_ok m p'" "fmq_list m p' = []"
      "fmq_item (pools p' m) = item" "unat (mb_size (mailboxes (kst p') m)) = unat len" by blast
  have "o_type (objs (kst p') (OMb m)) = class_code RT_Object_Class_MailBox"
    using p'(1) by (auto simp: rt_fmq_create_def rt_object_allocate_def rt_ipc_object_init_def Let_def split: if_splits)
  moreover have "\<not> (item \<le> 0 \<or> len \<le> 0)" using assms(2,4) by auto
  ultimately show ?thesis
    using p' by (auto simp: xQueueGenericCreate_def has_type_def Let_def)
qed

lemma queue_send:
  assumes ty: "has_type (OMb m) RT_Object_Class_MailBox p"
    and r: "rt_fmq_send m v pos ticks p = Some (r, p')"
  shows "xQueueGenericSend (OMb m) v ticks pos p = Some (callres_map send_result r, p')"
  using queue_types [OF ty] r by (simp add: xQueueGenericSend_def)

lemma queue_receive:
  assumes ty: "has_type (OMb m) RT_Object_Class_MailBox p"
    and r: "rt_fmq_recv m peek (if ticks = forever then - 1 else ticks) p = Some (r, p')"
  shows "xQueueGenericReceive forever (OMb m) ticks peek p = Some (callres_map (\<lambda>(e, v). (recv_result e, v)) r, p')"
  using queue_types [OF ty] r by (simp add: xQueueGenericReceive_def Let_def)

text \<open>The calls of the interface on the contents of a queue.\<close>

lemma queue_send_spec:
  assumes inv: "check_inv base (kst p)" and ok: "fmq_ok m p" and ty: "has_type (OMb m) RT_Object_Class_MailBox p"
  shows "length (fmq_list m p) < unat (mb_size (mailboxes (kst p) m)) \<or> pos = queueOVERWRITE \<Longrightarrow>
      unat (fmq_item (pools p m)) \<le> length v \<Longrightarrow>
      \<exists>p'. xQueueGenericSend (OMb m) v wait pos p = Some (Return pdPASS, p') \<and> check_inv base (kst p') \<and> fmq_ok m p'
        \<and> fmq_list m p' = fmq_spec pos (take (unat (fmq_item (pools p m))) v) (fmq_list m p)"
    and "length (fmq_list m p) = unat (mb_size (mailboxes (kst p) m)) \<Longrightarrow> pos \<noteq> queueOVERWRITE \<Longrightarrow>
      xQueueGenericSend (OMb m) v 0 pos p = Some (Return errQUEUE_FULL, p)"
proof -
  assume "length (fmq_list m p) < unat (mb_size (mailboxes (kst p) m)) \<or> pos = queueOVERWRITE"
  then have "mb_entry (mailboxes (kst p) m) \<noteq> mb_size (mailboxes (kst p) m) \<or> pos = queueOVERWRITE"
    by (auto simp: fmq_length)
  moreover assume "unat (fmq_item (pools p m)) \<le> length v"
  ultimately obtain p' where "rt_fmq_send m v pos wait p = Some (Return RT_EOK, p')" "check_inv base (kst p')" "fmq_ok m p'"
    "fmq_list m p' = fmq_spec pos (take (unat (fmq_item (pools p m))) v) (fmq_list m p)"
    using fmq_send_room [OF inv ok] by blast
  then show "\<exists>p'. xQueueGenericSend (OMb m) v wait pos p = Some (Return pdPASS, p') \<and> check_inv base (kst p') \<and> fmq_ok m p'
        \<and> fmq_list m p' = fmq_spec pos (take (unat (fmq_item (pools p m))) v) (fmq_list m p)"
    using queue_send [OF ty] by (fastforce simp: send_result_def)
next
  assume "length (fmq_list m p) = unat (mb_size (mailboxes (kst p) m))" "pos \<noteq> queueOVERWRITE"
  then show "xQueueGenericSend (OMb m) v 0 pos p = Some (Return errQUEUE_FULL, p)"
    using queue_send [OF ty fmq_send_full(1)] by (simp add: fmq_length send_result_def word_unat_eq_iff)
qed

lemma queue_receive_spec:
  assumes inv: "check_inv base (kst p)" and ok: "fmq_ok m p" and ty: "has_type (OMb m) RT_Object_Class_MailBox p"
    and forever: "forever \<noteq> 0"
  shows "fmq_list m p = w # ws \<Longrightarrow>
      xQueueGenericReceive forever (OMb m) wait True p = Some (Return (pdPASS, Some w), p)"
    and "fmq_list m p = w # ws \<Longrightarrow>
      \<exists>p'. xQueueGenericReceive forever (OMb m) wait False p = Some (Return (pdPASS, Some w), p')
        \<and> check_inv base (kst p') \<and> fmq_ok m p' \<and> fmq_list m p' = ws"
    and "fmq_list m p = [] \<Longrightarrow>
      xQueueGenericReceive forever (OMb m) 0 peek p = Some (Return (errQUEUE_EMPTY, None), p)"
proof -
  let ?t = "if wait = forever then - 1 else wait"
  assume q: "fmq_list m p = w # ws"
  show "xQueueGenericReceive forever (OMb m) wait True p = Some (Return (pdPASS, Some w), p)"
    using queue_receive [OF ty fmq_recv_item(1) [OF inv ok q]] by (simp add: recv_result_def)
  obtain p' where p': "rt_fmq_recv m False ?t p = Some (Return (RT_EOK, Some w), p')" "check_inv base (kst p')"
    "fmq_ok m p'" "fmq_list m p' = ws"
    using fmq_recv_item(2) [OF inv ok q, of ?t] by blast
  with queue_receive [OF ty p'(1)] show "\<exists>p'. xQueueGenericReceive forever (OMb m) wait False p = Some (Return (pdPASS, Some w), p')
        \<and> check_inv base (kst p') \<and> fmq_ok m p' \<and> fmq_list m p' = ws"
    by (simp add: recv_result_def)
next
  assume "fmq_list m p = []"
  then have "unat (mb_entry (mailboxes (kst p) m)) = 0" by (metis fmq_length list.size(3))
  then have "mb_entry (mailboxes (kst p) m) = 0" by (simp add: unat_eq_0)
  from queue_receive [OF ty, of peek 0 forever] fmq_recv_empty(1) [OF this] forever
  show "xQueueGenericReceive forever (OMb m) 0 peek p = Some (Return (errQUEUE_EMPTY, None), p)"
    by (simp add: recv_result_def)
qed

section \<open>Semaphores\<close>

lemma sem_create:
  assumes "irq_nest (kst p) = 0" and "ty = queueQUEUE_TYPE_OTHER \<and> v = 0 \<or> ty = queueQUEUE_TYPE_MUTEX \<and> v = 1"
  shows "\<exists>p'. xQueueGenericCreate (Some m) bytes len 0 ty p = Some (Some (OSem m), p')
    \<and> has_type (OSem m) RT_Object_Class_Semaphore p' \<and> sem_value (sems (kst p') m) = v
    \<and> lst (tlists (kst p')) (SuspendQ (OSem m)) = []"
  using assms
  by (auto simp: xQueueGenericCreate_def lift_def rt_sem_create_def rt_object_allocate_def rt_ipc_object_init_def Let_def
      has_type_def)

lemma sem_give:
  assumes "has_type (OSem m) RT_Object_Class_Semaphore p" and "lst (tlists (kst p)) (SuspendQ (OSem m)) = []"
  shows "xQueueGenericSend (OSem m) v ticks pos p = Some (Return pdPASS,
    p\<lparr>kst := upd_sem m (\<lambda>x. x\<lparr>sem_value := sem_value x + 1\<rparr>) (kst p)\<rparr>)"
  using assms lift_some [of "rt_sem_release m" p, OF sem_release_counts [OF assms(2)]] by (simp add: xQueueGenericSend_def send_result_def)

text \<open>A semaphore of length one, given twice, counts to two.\<close>

lemma semaphore_counts:
  assumes "irq_nest (kst p) = 0"
  shows "\<exists>p1 p2 p3. xQueueGenericCreate (Some m) bytes 1 0 queueQUEUE_TYPE_OTHER p = Some (Some (OSem m), p1)
    \<and> xQueueGenericSend (OSem m) v ticks pos p1 = Some (Return pdPASS, p2)
    \<and> xQueueGenericSend (OSem m) v ticks pos p2 = Some (Return pdPASS, p3)
    \<and> uxQueueMessagesWaiting (OSem m) p3 = Some 2"
proof -
  obtain p1 where p1: "xQueueGenericCreate (Some m) bytes 1 0 queueQUEUE_TYPE_OTHER p = Some (Some (OSem m), p1)"
    "has_type (OSem m) RT_Object_Class_Semaphore p1" "sem_value (sems (kst p1) m) = 0"
    "lst (tlists (kst p1)) (SuspendQ (OSem m)) = []"
    using sem_create [OF assms, of queueQUEUE_TYPE_OTHER 0 m bytes 1] by auto
  let ?p2 = "p1\<lparr>kst := upd_sem m (\<lambda>x. x\<lparr>sem_value := sem_value x + 1\<rparr>) (kst p1)\<rparr>"
  let ?p3 = "?p2\<lparr>kst := upd_sem m (\<lambda>x. x\<lparr>sem_value := sem_value x + 1\<rparr>) (kst ?p2)\<rparr>"
  note g1 = sem_give [OF p1(2,4), of v ticks pos]
  have "has_type (OSem m) RT_Object_Class_Semaphore ?p2" "lst (tlists (kst ?p2)) (SuspendQ (OSem m)) = []"
    using p1(2,4) by (simp_all add: has_type_def)
  note g2 = sem_give [OF this, of v ticks pos]
  have "uxQueueMessagesWaiting (OSem m) ?p3 = Some 2"
    using p1(2,3) by (simp add: uxQueueMessagesWaiting_def has_type_def)
  with p1(1) g1 g2 show ?thesis by blast
qed

section \<open>Event groups\<close>

lemma wait_option:
  fixes all clr :: bool
  defines "opt \<equiv> (if clr then 0 OR RT_EVENT_FLAG_CLEAR else 0) OR (if all then RT_EVENT_FLAG_AND else RT_EVENT_FLAG_OR)"
  shows "bit opt 0 = all" and "bit opt 1 = (\<not> all)" and "bit opt 2 = clr"
  by (cases clr; cases all; simp add: opt_def)+

lemma wait_bits_ready:
  assumes self: "rt_thread_self (kst p) = Some t" and irq: "irq_nest (kst p) = 0" and bits: "bits \<noteq> 0"
    and set: "if all then bits AND ev_set (events (kst p) e) = bits else bits AND ev_set (events (kst p) e) \<noteq> 0"
  shows "\<exists>p'. xEventGroupWaitBits e bits clr all ticks p = Some (Return (bits AND ev_set (events (kst p) e)), p')
    \<and> ev_set (events (kst p') e) = (if clr then ev_set (events (kst p) e) AND NOT bits else ev_set (events (kst p) e))"
proof -
  let ?es = "ev_set (events (kst p) e)"
  let ?opt = "(if clr then 0 OR RT_EVENT_FLAG_CLEAR else 0) OR (if all then RT_EVENT_FLAG_AND else RT_EVENT_FLAG_OR)"
  have g: "event_grant ?es bits ?opt = Some (bits AND ?es)"
    unfolding event_grant_def wait_option using set by (simp split: if_splits)
  have clear: "?es AND (NOT bits OR NOT ?es) = ?es AND NOT bits" by (rule bit_word_eqI) (auto simp: bit_simps)
  note r = event_recv_grant [OF self irq bits g, of ticks, unfolded wait_option]
  show ?thesis
    using lift_some [of "rt_event_recv e bits ?opt ticks" p, OF r] unfolding xEventGroupWaitBits_def Let_def
    by (simp add: bits_result_def clear)
qed

section \<open>Calls without an effect\<close>

text \<open>
  Commands that the code does not know, and the reset of a queue, report success and do nothing; a
  mutex given or taken in an interrupt is used as a queue.
\<close>

lemma irq_round [simp]: "rt_interrupt_leave (rt_interrupt_enter s) = s"
  by (simp add: rt_interrupt_leave_def rt_interrupt_enter_def)

lemma timer_other: "xTimerGenericCommand r tmrCOMMAND_OTHER x isr p = Some (pdPASS, p)"
  by (simp add: xTimerGenericCommand_def)

lemma mutex_in_isr:
  assumes "has_type (OMutex m) RT_Object_Class_Mutex p"
  shows "xQueueGiveFromISR (OMutex m) p = None" and "xQueueReceiveFromISR (OMutex m) p = None"
  using assms
  by (simp_all add: xQueueGiveFromISR_def xQueueGenericSendFromISR_def xQueueReceiveFromISR_def has_type_def
      rt_interrupt_enter_def)

end
