(* ===== verification/Rt_Ringbuffer.thy ===== *)
theory Rt_Ringbuffer
  imports Rt_Ring
begin

text \<open>
  The ring buffer of the device drivers, \<^verbatim>\<open>components/drivers/src/ringbuffer.c\<close>, with the inline functions of
  \<^verbatim>\<open>rtdevice.h\<close>. Each index has a mirror bit that is flipped when the index wraps, so a full buffer can be
  told from an empty one. Indices are fields of 15 bits: assignments to them are taken modulo \<open>2 ^ 15\<close>.
  A copy outside of the buffer, of more bytes than the caller has or of a negative number of bytes (an index
  behind the end, after a forced write to a buffer whose size was rounded to 0) is undefined. The length of a block is a
  natural number, where the code has 16 bits.
\<close>

section \<open>Operations\<close>

record rt_ringbuffer =
  buffer_ptr :: "rt_uint8 list"
  read_mirror :: bool
  read_index :: nat
  write_mirror :: bool
  write_index :: nat
  buffer_size :: nat

datatype ringbuffer_state = RT_RINGBUFFER_EMPTY | RT_RINGBUFFER_FULL | RT_RINGBUFFER_HALFFULL

definition rt_ringbuffer_get_size :: "rt_ringbuffer \<Rightarrow> nat" where
  "rt_ringbuffer_get_size rb = buffer_size rb"

definition rt_ringbuffer_status :: "rt_ringbuffer \<Rightarrow> ringbuffer_state" where
  "rt_ringbuffer_status rb =
     (if read_index rb = write_index rb then
        (if read_mirror rb = write_mirror rb then RT_RINGBUFFER_EMPTY else RT_RINGBUFFER_FULL)
      else RT_RINGBUFFER_HALFFULL)"

definition rt_ringbuffer_data_len :: "rt_ringbuffer \<Rightarrow> nat" where
  "rt_ringbuffer_data_len rb =
     (case rt_ringbuffer_status rb of
        RT_RINGBUFFER_EMPTY \<Rightarrow> 0
      | RT_RINGBUFFER_FULL \<Rightarrow> buffer_size rb
      | RT_RINGBUFFER_HALFFULL \<Rightarrow>
          if write_index rb > read_index rb then write_index rb - read_index rb
          else nat ((int (buffer_size rb) - (int (read_index rb) - int (write_index rb))) mod 2 ^ 16))"

definition rt_ringbuffer_space_len :: "rt_ringbuffer \<Rightarrow> nat" where
  "rt_ringbuffer_space_len rb = nat ((int (buffer_size rb) - int (rt_ringbuffer_data_len rb)) mod 2 ^ 16)"

definition rt_ringbuffer_init :: "rt_uint8 list \<Rightarrow> rt_uint16 \<Rightarrow> rt_ringbuffer option" where
  "rt_ringbuffer_init pool sz =
     do {
       RT_ASSERT (0 < sint sz);
       Some \<lparr>buffer_ptr = pool, read_mirror = False, read_index = 0, write_mirror = False, write_index = 0,
         buffer_size = unat (RT_ALIGN_DOWN (ucast sz) RT_ALIGN_SIZE)\<rparr>
     }"

text \<open>\<^verbatim>\<open>memcpy\<close> of \<open>n\<close> bytes of \<open>ptr\<close>, from \<open>from\<close> on, to the buffer.\<close>

definition store :: "nat \<Rightarrow> rt_uint8 list \<Rightarrow> nat \<Rightarrow> nat \<Rightarrow> rt_uint8 list \<Rightarrow> rt_uint8 list option" where
  "store pos ptr from n buf =
     (if from + n \<le> length ptr \<and> pos + n \<le> length buf
      then Some (put_bytes pos (take n (drop from ptr)) buf) else None)"

definition fetch :: "nat \<Rightarrow> nat \<Rightarrow> rt_uint8 list \<Rightarrow> rt_uint8 list option" where
  "fetch pos n buf = (if pos + n \<le> length buf then Some (take n (drop pos buf)) else None)"

definition rt_ringbuffer_put :: "rt_uint8 list \<Rightarrow> nat \<Rightarrow> rt_ringbuffer \<Rightarrow> (nat \<times> rt_ringbuffer) option" where
  "rt_ringbuffer_put ptr len rb =
     (let size = rt_ringbuffer_space_len rb in
      if size = 0 then Some (0, rb)
      else
        (let len1 = (if size < len then size else len) in
         if write_index rb + len1 < buffer_size rb then
           do {
             b1 \<leftarrow> store (write_index rb) ptr 0 len1 (buffer_ptr rb);
             Some (len1, rb\<lparr>buffer_ptr := b1, write_index := (write_index rb + len1) mod 2 ^ 15\<rparr>)
           }
         else if buffer_size rb < write_index rb then None
         else
           do {
             b1 \<leftarrow> store (write_index rb) ptr 0 (buffer_size rb - write_index rb) (buffer_ptr rb);
             b2 \<leftarrow> store 0 ptr (buffer_size rb - write_index rb) (len1 - (buffer_size rb - write_index rb)) b1;
             Some (len1, rb\<lparr>buffer_ptr := b2, write_mirror := \<not> write_mirror rb,
               write_index := (len1 - (buffer_size rb - write_index rb)) mod 2 ^ 15\<rparr>)
           }))"

definition rt_ringbuffer_put_force :: "rt_uint8 list \<Rightarrow> nat \<Rightarrow> rt_ringbuffer \<Rightarrow> (nat \<times> rt_ringbuffer) option" where
  "rt_ringbuffer_put_force ptr len rb =
     (let space_length = rt_ringbuffer_space_len rb;
          len1 = (if len > space_length then buffer_size rb else len)
      in if write_index rb + len1 < buffer_size rb then
           do {
             b1 \<leftarrow> store (write_index rb) ptr 0 len1 (buffer_ptr rb);
             let rb1 = rb\<lparr>buffer_ptr := b1, write_index := (write_index rb + len1) mod 2 ^ 15\<rparr>;
             Some (len1, if len1 > space_length then rb1\<lparr>read_index := write_index rb1\<rparr> else rb1)
           }
         else if buffer_size rb < write_index rb then None
         else
           do {
             b1 \<leftarrow> store (write_index rb) ptr 0 (buffer_size rb - write_index rb) (buffer_ptr rb);
             b2 \<leftarrow> store 0 ptr (buffer_size rb - write_index rb) (len1 - (buffer_size rb - write_index rb)) b1;
             let rb1 = rb\<lparr>buffer_ptr := b2, write_mirror := \<not> write_mirror rb,
               write_index := (len1 - (buffer_size rb - write_index rb)) mod 2 ^ 15\<rparr>;
             Some (len1, if len1 > space_length
               then rb1\<lparr>read_mirror := \<not> read_mirror rb1, read_index := write_index rb1\<rparr> else rb1)
           })"

text \<open>The result of a read is the list of bytes that were stored through \<^verbatim>\<open>ptr\<close>; its length is the result of the code.\<close>

definition rt_ringbuffer_get :: "nat \<Rightarrow> rt_ringbuffer \<Rightarrow> (rt_uint8 list \<times> rt_ringbuffer) option" where
  "rt_ringbuffer_get len rb =
     (let size = rt_ringbuffer_data_len rb in
      if size = 0 then Some ([], rb)
      else
        (let len1 = (if size < len then size else len) in
         if read_index rb + len1 < buffer_size rb then
           do {
             d \<leftarrow> fetch (read_index rb) len1 (buffer_ptr rb);
             Some (d, rb\<lparr>read_index := (read_index rb + len1) mod 2 ^ 15\<rparr>)
           }
         else if buffer_size rb < read_index rb then None
         else
           do {
             d1 \<leftarrow> fetch (read_index rb) (buffer_size rb - read_index rb) (buffer_ptr rb);
             d2 \<leftarrow> fetch 0 (len1 - (buffer_size rb - read_index rb)) (buffer_ptr rb);
             Some (d1 @ d2, rb\<lparr>read_mirror := \<not> read_mirror rb,
               read_index := (len1 - (buffer_size rb - read_index rb)) mod 2 ^ 15\<rparr>)
           }))"

definition rt_ringbuffer_putchar :: "rt_uint8 \<Rightarrow> rt_ringbuffer \<Rightarrow> (nat \<times> rt_ringbuffer) option" where
  "rt_ringbuffer_putchar ch rb =
     (if rt_ringbuffer_space_len rb = 0 then Some (0, rb)
      else
        do {
          b1 \<leftarrow> store (write_index rb) [ch] 0 1 (buffer_ptr rb);
          let rb1 = rb\<lparr>buffer_ptr := b1\<rparr>;
          Some (1, if Suc (write_index rb1) = buffer_size rb1
                   then rb1\<lparr>write_mirror := \<not> write_mirror rb1, write_index := 0\<rparr>
                   else rb1\<lparr>write_index := (write_index rb1 + 1) mod 2 ^ 15\<rparr>)
        })"

definition rt_ringbuffer_putchar_force :: "rt_uint8 \<Rightarrow> rt_ringbuffer \<Rightarrow> (nat \<times> rt_ringbuffer) option" where
  "rt_ringbuffer_putchar_force ch rb =
     (let old_state = rt_ringbuffer_status rb in
      do {
        b1 \<leftarrow> store (write_index rb) [ch] 0 1 (buffer_ptr rb);
        let rb1 = rb\<lparr>buffer_ptr := b1\<rparr>;
        Some (1,
          if Suc (write_index rb1) = buffer_size rb1 then
            (let rb2 = rb1\<lparr>write_mirror := \<not> write_mirror rb1, write_index := 0\<rparr>
             in if old_state = RT_RINGBUFFER_FULL
                then rb2\<lparr>read_mirror := \<not> read_mirror rb2, read_index := write_index rb2\<rparr> else rb2)
          else
            (let rb2 = rb1\<lparr>write_index := (write_index rb1 + 1) mod 2 ^ 15\<rparr>
             in if old_state = RT_RINGBUFFER_FULL then rb2\<lparr>read_index := write_index rb2\<rparr> else rb2))
      })"

definition rt_ringbuffer_getchar :: "rt_ringbuffer \<Rightarrow> (rt_uint8 option \<times> rt_ringbuffer) option" where
  "rt_ringbuffer_getchar rb =
     (if rt_ringbuffer_data_len rb = 0 then Some (None, rb)
      else
        do {
          d \<leftarrow> fetch (read_index rb) 1 (buffer_ptr rb);
          Some (Some (hd d), if Suc (read_index rb) = buffer_size rb
                   then rb\<lparr>read_mirror := \<not> read_mirror rb, read_index := 0\<rparr>
                   else rb\<lparr>read_index := (read_index rb + 1) mod 2 ^ 15\<rparr>)
        })"

section \<open>The contents\<close>

definition rb_wf :: "rt_ringbuffer \<Rightarrow> bool" where
  "rb_wf rb \<longleftrightarrow> 0 < buffer_size rb \<and> buffer_size rb < 2 ^ 15 \<and> buffer_size rb \<le> length (buffer_ptr rb)
     \<and> read_index rb < buffer_size rb \<and> write_index rb < buffer_size rb
     \<and> (if read_mirror rb = write_mirror rb then read_index rb \<le> write_index rb else write_index rb \<le> read_index rb)"

definition rb_data :: "rt_ringbuffer \<Rightarrow> rt_uint8 list" where
  "rb_data rb = ring ((!) (buffer_ptr rb)) (buffer_size rb) (read_index rb) (rt_ringbuffer_data_len rb)"

lemma data_len_eq:
  assumes "rb_wf rb"
  shows "rt_ringbuffer_data_len rb = (if read_mirror rb = write_mirror rb then write_index rb - read_index rb
      else buffer_size rb - (read_index rb - write_index rb))"
    and "rt_ringbuffer_data_len rb \<le> buffer_size rb"
  using assms
  by (cases "read_mirror rb = write_mirror rb";
      auto simp: rb_wf_def rt_ringbuffer_data_len_def rt_ringbuffer_status_def)+

lemma space_len_eq:
  assumes "rb_wf rb"
  shows "rt_ringbuffer_space_len rb = buffer_size rb - rt_ringbuffer_data_len rb"
proof -
  have "int (buffer_size rb) - int (rt_ringbuffer_data_len rb) = int (buffer_size rb - rt_ringbuffer_data_len rb)"
    using data_len_eq(2) [OF assms] by simp
  moreover have "buffer_size rb - rt_ringbuffer_data_len rb < 2 ^ 16" using assms by (simp add: rb_wf_def less_imp_diff_less)
  then have "int (buffer_size rb - rt_ringbuffer_data_len rb) < 2 ^ 16" by simp
  ultimately show ?thesis unfolding rt_ringbuffer_space_len_def by (metis mod_pos_pos_trivial nat_int of_nat_0_le_iff)
qed

lemma data_len_length [simp]: "length (rb_data rb) = rt_ringbuffer_data_len rb"
  by (simp add: rb_data_def)

lemma status_empty: "rt_ringbuffer_status rb = RT_RINGBUFFER_EMPTY \<Longrightarrow> rb_data rb = []"
  by (simp add: rb_data_def rt_ringbuffer_data_len_def)

text \<open>The write position is behind the data.\<close>

lemma write_pos:
  assumes "rb_wf rb"
  shows "(read_index rb + rt_ringbuffer_data_len rb) mod buffer_size rb = write_index rb"
proof (cases "read_mirror rb = write_mirror rb")
  case True
  with assms show ?thesis by (simp add: data_len_eq rb_wf_def)
next
  case False
  with assms have "read_index rb + rt_ringbuffer_data_len rb = buffer_size rb + write_index rb"
    by (auto simp: data_len_eq rb_wf_def)
  with assms show ?thesis by (simp add: rb_wf_def)
qed

section \<open>Writing and reading across the end\<close>

text \<open>
  The copy of a block at the write position, in one or two parts. Counted from the write position, the
  first cells have the block and the others are as before.
\<close>

definition write_block :: "nat \<Rightarrow> nat \<Rightarrow> 'b list \<Rightarrow> 'b list \<Rightarrow> 'b list" where
  "write_block n w xs buf = (if w + length xs < n then put_bytes w xs buf
     else put_bytes 0 (drop (n - w) xs) (put_bytes w (take (n - w) xs) buf))"

lemma write_block_length:
  "w < n \<Longrightarrow> length xs \<le> n \<Longrightarrow> n \<le> length buf \<Longrightarrow> length (write_block n w xs buf) = length buf"
  by (simp add: write_block_def put_bytes_length)

lemma mod_once: "w < n \<Longrightarrow> i < n \<Longrightarrow> (w + i) mod n = (if w + i < n then w + i else w + i - n)" for w i n :: nat
  by (simp add: mod_if [of "w + i"])

lemma write_block_cell:
  assumes w: "w < n" and xs: "length xs \<le> n" and buf: "n \<le> length buf"
  shows "write_block n w xs buf ! i =
    (if i < n \<and> w \<le> i \<and> i < w + length xs then xs ! (i - w)
     else if i + n < w + length xs then xs ! (i + n - w) else buf ! i)"
proof (cases "w + length xs < n")
  case True
  with buf have "w + length xs \<le> length buf" by simp
  with True xs show ?thesis by (auto simp: write_block_def nth_put_bytes)
next
  case False
  let ?a = "n - w"
  let ?b = "put_bytes w (take ?a xs) buf"
  have la: "length (take ?a xs) = ?a" using False by simp
  have f1: "w + length (take ?a xs) \<le> length buf" using la w buf by simp
  have f2: "0 + length (drop ?a xs) \<le> length ?b" using put_bytes_length [OF f1] xs buf by simp
  show ?thesis
    using False w xs nth_put_bytes [OF f2] nth_put_bytes [OF f1] by (auto simp: write_block_def la add.commute)
qed

lemma write_block_nth:
  assumes "w < n" and "length xs \<le> n" and "n \<le> length buf" and "i < n"
  shows "write_block n w xs buf ! ((w + i) mod n) = (if i < length xs then xs ! i else buf ! ((w + i) mod n))"
  using assms by (auto simp: write_block_cell mod_once)

lemma ring_append:
  assumes "\<And>i. i < e \<Longrightarrow> g ((p + i) mod n) = f ((p + i) mod n)"
    and "\<And>i. i < length xs \<Longrightarrow> g ((p + (e + i)) mod n) = xs ! i"
  shows "ring g n p (e + length xs) = ring f n p e @ xs"
proof (rule nth_equalityI)
  fix i assume "i < length (ring g n p (e + length xs))"
  then show "ring g n p (e + length xs) ! i = (ring f n p e @ xs) ! i"
    using assms(1) [of i] assms(2) [of "i - e"] by (auto simp: ring_def nth_append)
qed (simp add: ring_def)

lemma ring_write:
  assumes w: "w = (p + e) mod n" and n: "0 < n" "n \<le> length buf" and xs: "e + length xs \<le> n"
  shows "ring ((!) (write_block n w xs buf)) n p (e + length xs) = ring ((!) buf) n p e @ xs"
proof (rule ring_append)
  have wn: "w < n" using w n(1) by simp
  have shift: "(w + i) mod n = (p + (e + i)) mod n" for i using w by (simp add: mod_add_left_eq add.assoc)
  show "write_block n w xs buf ! ((p + (e + i)) mod n) = xs ! i" if "i < length xs" for i
    using write_block_nth [OF wn _ n(2), of xs i] that xs shift [of i] by simp
  show "write_block n w xs buf ! ((p + i) mod n) = buf ! ((p + i) mod n)" if ie: "i < e" for i
  proof -
    obtain j where j: "e + j = n + i" "j < n" "length xs \<le> j"
      using xs ie by (intro that [of "n - e + i"]) simp_all
    then have "(w + j) mod n = (p + i + n) mod n" using shift [of j] by (simp add: ac_simps)
    then have "(w + j) mod n = (p + i) mod n" by simp
    with write_block_nth [OF wn _ n(2) j(2), of xs] j(3) xs show ?thesis by simp
  qed
qed

section \<open>The operations on the contents\<close>

text \<open>The buffer after a block has been written, and after \<open>k\<close> bytes have been read.\<close>

definition written :: "rt_uint8 list \<Rightarrow> rt_ringbuffer \<Rightarrow> rt_ringbuffer" where
  "written xs rb = rb\<lparr>buffer_ptr := write_block (buffer_size rb) (write_index rb) xs (buffer_ptr rb),
     write_mirror := (write_mirror rb \<noteq> (buffer_size rb \<le> write_index rb + length xs)),
     write_index := (write_index rb + length xs) mod buffer_size rb\<rparr>"

definition consumed :: "nat \<Rightarrow> rt_ringbuffer \<Rightarrow> rt_ringbuffer" where
  "consumed k rb = rb\<lparr>read_mirror := (read_mirror rb \<noteq> (buffer_size rb \<le> read_index rb + k)),
     read_index := (read_index rb + k) mod buffer_size rb\<rparr>"

lemma written_ok:
  assumes wf: "rb_wf rb" and room: "length xs \<le> rt_ringbuffer_space_len rb"
  shows "rb_wf (written xs rb)" and "rb_data (written xs rb) = rb_data rb @ xs"
proof -
  let ?n = "buffer_size rb" and ?w = "write_index rb" and ?r = "read_index rb" and ?e = "rt_ringbuffer_data_len rb"
  have w: "0 < ?n" "?n < 2 ^ 15" "?n \<le> length (buffer_ptr rb)" "?r < ?n" "?w < ?n"
    and mir: "if read_mirror rb = write_mirror rb then ?r \<le> ?w else ?w \<le> ?r"
    using wf by (simp_all add: rb_wf_def)
  have le: "?e + length xs \<le> ?n" using room data_len_eq(2) [OF wf] by (simp add: space_len_eq [OF wf])
  then have k: "length xs \<le> ?n" by simp
  have len: "length (buffer_ptr (written xs rb)) = length (buffer_ptr rb)"
    using write_block_length [OF w(5) k w(3)] by (simp add: written_def)
  have idx: "write_index (written xs rb) = (if ?w + length xs < ?n then ?w + length xs else ?w + length xs - ?n)"
  proof (cases "length xs = ?n")
    case True
    then show ?thesis using w(5) by (simp add: written_def)
  next
    case False
    then show ?thesis using mod_once [OF w(5)] k by (simp add: written_def)
  qed
  have e: "?e = (if read_mirror rb = write_mirror rb then ?w - ?r else ?n - (?r - ?w))" using data_len_eq(1) [OF wf] .
  show wf': "rb_wf (written xs rb)"
    unfolding rb_wf_def idx len using w mir le e by (auto simp: written_def split: if_splits)
  have "rt_ringbuffer_data_len (written xs rb) = ?e + length xs"
    unfolding data_len_eq(1) [OF wf'] idx using w mir le e by (auto simp: written_def split: if_splits)
  then show "rb_data (written xs rb) = rb_data rb @ xs"
    using ring_write [OF write_pos [OF wf, symmetric] w(1,3) le] by (simp add: rb_data_def written_def)
qed

lemma put_written:
  assumes wf: "rb_wf rb" and len: "len \<le> length ptr"
  defines "k \<equiv> min len (rt_ringbuffer_space_len rb)"
  shows "rt_ringbuffer_put ptr len rb = Some (k, written (take k ptr) rb)"
proof -
  let ?n = "buffer_size rb" and ?w = "write_index rb"
  have w: "0 < ?n" "?n < 2 ^ 15" "?n \<le> length (buffer_ptr rb)" "?w < ?n" using wf by (simp_all add: rb_wf_def)
  have kn: "k \<le> ?n" "k \<le> length ptr" using len by (simp_all add: k_def space_len_eq [OF wf])
  then have lk: "length (take k ptr) = k" by simp
  show ?thesis
  proof (cases "rt_ringbuffer_space_len rb = 0")
    case True
    then have "k = 0" by (simp add: k_def)
    moreover have "written [] rb = rb" using w by (simp add: written_def write_block_def put_bytes_def)
    ultimately show ?thesis using True by (simp add: rt_ringbuffer_put_def)
  next
    case False
    have k1: "(if rt_ringbuffer_space_len rb < len then rt_ringbuffer_space_len rb else len) = k" by (simp add: k_def)
    show ?thesis
    proof (cases "?w + k < ?n")
      case True
      with False w kn show ?thesis
        by (simp add: rt_ringbuffer_put_def Let_def k1 store_def written_def write_block_def lk)
    next
      case over: False
      obtain a where a: "?n = ?w + a" using less_imp_add_positive [OF w(4)] by (metis (no_types))
      obtain b where b: "k = a + b" using over a by (metis add_le_cancel_left le_Suc_ex not_less)
      have f: "?w + a \<le> length (buffer_ptr rb)" "a + b \<le> length ptr" "b \<le> ?w" "?w + a < 2 ^ 15" using w kn a b by simp_all
      have "?w + k = b + ?n" "b < ?n" using a b f w(4) by linarith+
      then have e: "(?w + k) mod ?n = b" by simp
      have l: "length (put_bytes ?w (take a ptr) (buffer_ptr rb)) = length (buffer_ptr rb)"
        using put_bytes_length [of ?w "take a ptr" "buffer_ptr rb"] f by simp
      have t: "take b (drop a ptr) = drop a (take (a + b) ptr)" by (simp add: drop_take)
      have u: "take a (take (a + b) ptr) = take a ptr" by (simp add: min_absorb1)
      have r: "rt_ringbuffer_put ptr len rb = Some (k, rb\<lparr>
          buffer_ptr := put_bytes 0 (drop a (take k ptr)) (put_bytes ?w (take a ptr) (buffer_ptr rb)),
          write_mirror := \<not> write_mirror rb, write_index := b\<rparr>)"
        using False f by (simp add: rt_ringbuffer_put_def Let_def k1 store_def a b l t)
      have "written (take k ptr) rb = rb\<lparr>
          buffer_ptr := put_bytes 0 (drop a (take k ptr)) (put_bytes ?w (take a ptr) (buffer_ptr rb)),
          write_mirror := \<not> write_mirror rb, write_index := b\<rparr>"
        using e f by (simp add: written_def write_block_def lk a b u)
      with r show ?thesis by simp
    qed
  qed
qed

text \<open>Reading: the bytes that are copied are the first ones of the contents.\<close>

lemma ring_take: "k \<le> e \<Longrightarrow> take k (ring f n p e) = ring f n p k"
  by (simp add: ring_def take_map min_def)

lemma ring_drop: "k \<le> e \<Longrightarrow> drop k (ring f n p e) = ring f n ((p + k) mod n) (e - k)"
  by (rule nth_equalityI) (simp_all add: ring_def mod_add_left_eq add.assoc drop_map)

lemma ring_copy:
  assumes "r < n" and "n \<le> length buf" and "k \<le> n"
  shows "ring ((!) buf) n r k = (if r + k < n then take k (drop r buf)
     else take (n - r) (drop r buf) @ take (k - (n - r)) buf)"
proof (rule nth_equalityI)
  show "length (ring ((!) buf) n r k) = length (if r + k < n then take k (drop r buf)
     else take (n - r) (drop r buf) @ take (k - (n - r)) buf)"
    using assms by simp
  fix i assume "i < length (ring ((!) buf) n r k)"
  then have i: "i < k" by simp
  then show "ring ((!) buf) n r k ! i = (if r + k < n then take k (drop r buf)
     else take (n - r) (drop r buf) @ take (k - (n - r)) buf) ! i"
    using assms mod_once [of r n i] by (auto simp: ring_def nth_append add.commute)
qed

lemma consumed_ok:
  assumes wf: "rb_wf rb" and k: "k \<le> rt_ringbuffer_data_len rb"
  shows "rb_wf (consumed k rb)" and "rb_data (consumed k rb) = drop k (rb_data rb)"
proof -
  let ?n = "buffer_size rb" and ?w = "write_index rb" and ?r = "read_index rb" and ?e = "rt_ringbuffer_data_len rb"
  have w: "0 < ?n" "?n < 2 ^ 15" "?n \<le> length (buffer_ptr rb)" "?r < ?n" "?w < ?n"
    and mir: "if read_mirror rb = write_mirror rb then ?r \<le> ?w else ?w \<le> ?r"
    using wf by (simp_all add: rb_wf_def)
  have kn: "k \<le> ?n" using k data_len_eq(2) [OF wf] by simp
  have idx: "read_index (consumed k rb) = (if ?r + k < ?n then ?r + k else ?r + k - ?n)"
  proof (cases "k = ?n")
    case True
    then show ?thesis using w(4) by (simp add: consumed_def)
  next
    case False
    then show ?thesis using mod_once [OF w(4)] kn by (simp add: consumed_def)
  qed
  have e: "?e = (if read_mirror rb = write_mirror rb then ?w - ?r else ?n - (?r - ?w))" using data_len_eq(1) [OF wf] .
  show wf': "rb_wf (consumed k rb)"
    unfolding rb_wf_def idx using w mir k e by (auto simp: consumed_def split: if_splits)
  have "rt_ringbuffer_data_len (consumed k rb) = ?e - k"
    unfolding data_len_eq(1) [OF wf'] idx using w mir k e by (auto simp: consumed_def split: if_splits)
  then show "rb_data (consumed k rb) = drop k (rb_data rb)" using k by (simp add: rb_data_def ring_drop consumed_def)
qed

lemma get_consumed:
  fixes len :: nat
  assumes wf: "rb_wf rb"
  defines "k \<equiv> min len (rt_ringbuffer_data_len rb)"
  shows "rt_ringbuffer_get len rb = Some (take k (rb_data rb), consumed k rb)"
proof -
  let ?n = "buffer_size rb" and ?r = "read_index rb"
  have w: "0 < ?n" "?n < 2 ^ 15" "?n \<le> length (buffer_ptr rb)" "?r < ?n" using wf by (simp_all add: rb_wf_def)
  have kn: "k \<le> ?n" using data_len_eq(2) [OF wf] by (simp add: k_def min_le_iff_disj)
  have d: "take k (rb_data rb) = ring ((!) (buffer_ptr rb)) ?n ?r k" by (simp add: rb_data_def ring_take k_def)
  have k1: "(if rt_ringbuffer_data_len rb < len then rt_ringbuffer_data_len rb else len) = k" by (simp add: k_def)
  show ?thesis
  proof (cases "rt_ringbuffer_data_len rb = 0")
    case True
    then have "k = 0" by (simp add: k_def)
    then show ?thesis using True w by (simp add: rt_ringbuffer_get_def consumed_def)
  next
    case False
    show ?thesis
    proof (cases "?r + k < ?n")
      case True
      with False w show ?thesis
        by (simp add: rt_ringbuffer_get_def Let_def k1 fetch_def consumed_def d ring_copy kn)
    next
      case over: False
      obtain a where a: "?n = ?r + a" using less_imp_add_positive [OF w(4)] by (metis (no_types))
      obtain b where b: "k = a + b" using over a by (metis add_le_cancel_left le_Suc_ex not_less)
      have f: "?r + a \<le> length (buffer_ptr rb)" "b \<le> ?r" "?r + a < 2 ^ 15" using w kn a b by simp_all
      have "?r + k = b + ?n" "b < ?n" using a b f w(4) by linarith+
      then have e: "(?r + k) mod ?n = b" by simp
      have "take k (rb_data rb) = take a (drop ?r (buffer_ptr rb)) @ take b (buffer_ptr rb)"
        unfolding d using ring_copy [OF w(4,3) kn] by (simp add: a b)
      then show ?thesis using False f e by (simp add: rt_ringbuffer_get_def Let_def k1 fetch_def consumed_def a b)
    qed
  qed
qed

lemma align_down_value: "unat (RT_ALIGN_DOWN x RT_ALIGN_SIZE) = unat x div 4 * 4"
proof -
  have "RT_ALIGN_DOWN x RT_ALIGN_SIZE = x AND NOT (mask 2)"
    by (simp add: RT_ALIGN_DOWN_def RT_ALIGN_SIZE_def mask_eq_exp_minus_1)
  also have "\<dots> = x AND NOT (take_bit 2 x)" by (auto simp: bit_eq_iff bit_simps)
  also have "\<dots> = x - take_bit 2 x"
    by (rule disjunctive_diff_eq_and_not [symmetric]) (auto simp: bit_eq_iff bit_simps)
  also have "take_bit 2 x = x mod 4" by (simp add: take_bit_eq_mod)
  also have "unat (x - x mod 4) = unat x - unat x mod 4"
    by (subst unat_sub) (simp_all add: word_le_nat_alt unat_mod)
  finally show ?thesis by (simp add: minus_mod_eq_div_mult)
qed

lemma init_ok:
  assumes "4 \<le> sint sz" and "unat sz \<le> length pool"
  shows "\<exists>rb. rt_ringbuffer_init pool sz = Some rb \<and> rb_wf rb \<and> rb_data rb = [] \<and> buffer_size rb = unat sz div 4 * 4"
proof -
  have "bit sz 15 = (sint sz < 0)" using bit_last_iff [of sz] by simp
  with assms(1) have "\<not> bit sz 15" by simp
  then have "n < 15" if "bit sz n" for n
    using bit_imp_le_length [OF that] that by (cases "n = 15") auto
  then have "take_bit 15 (uint sz) = uint sz" by (auto simp: bit_eq_iff bit_simps)
  with \<open>\<not> bit sz 15\<close> have u: "uint sz = sint sz" by (simp add: sint_uint signed_take_bit_eq_if_positive bit_uint_iff)
  have "sint sz < 32768" using sint_lt [of sz] by simp
  moreover have "int (unat sz) = sint sz" using u by simp
  ultimately have b: "4 \<le> unat sz" "unat sz < 32768" using assms(1) by linarith+
  then have "0 < unat sz div 4 * 4" "unat sz div 4 * 4 \<le> unat sz" by auto
  with assms b show ?thesis
    by (auto simp: rt_ringbuffer_init_def align_down_value rb_wf_def rb_data_def rt_ringbuffer_data_len_def
        rt_ringbuffer_status_def unsigned_ucast_eq take_bit_eq_mod)
qed

section \<open>Single bytes\<close>

lemma write_one: "w < n \<Longrightarrow> write_block n w [c] buf = put_bytes w [c] buf"
  by (cases "w + 1 < n") (auto simp: write_block_def put_bytes_def not_less le_Suc_eq)

lemma index_next: "i < n \<Longrightarrow> (i + 1) mod n = (if Suc i = n then 0 else i + 1)" for i n :: nat
  by auto

lemma putchar_written:
  assumes wf: "rb_wf rb" and room: "rt_ringbuffer_data_len rb < buffer_size rb"
  shows "rt_ringbuffer_putchar ch rb = Some (1, written [ch] rb)"
proof -
  have w: "buffer_size rb < 2 ^ 15" "buffer_size rb \<le> length (buffer_ptr rb)" "write_index rb < buffer_size rb"
    using wf by (simp_all add: rb_wf_def)
  then show ?thesis
    using room
    by (auto simp: rt_ringbuffer_putchar_def space_len_eq [OF wf] store_def written_def write_one index_next Let_def)
qed

lemma putchar_full:
  "rb_wf rb \<Longrightarrow> rt_ringbuffer_data_len rb = buffer_size rb \<Longrightarrow> rt_ringbuffer_putchar ch rb = Some (0, rb)"
  by (simp add: rt_ringbuffer_putchar_def space_len_eq)

lemma getchar_consumed:
  assumes wf: "rb_wf rb"
  shows "rt_ringbuffer_getchar rb =
     (case rb_data rb of [] \<Rightarrow> Some (None, rb) | c # cs \<Rightarrow> Some (Some c, consumed 1 rb))"
proof (cases "rb_data rb")
  case Nil
  then have "rt_ringbuffer_data_len rb = 0" using data_len_length [of rb] by simp
  with Nil show ?thesis by (simp add: rt_ringbuffer_getchar_def)
next
  case (Cons c cs)
  have w: "buffer_size rb < 2 ^ 15" "buffer_size rb \<le> length (buffer_ptr rb)" "read_index rb < buffer_size rb"
    using wf by (simp_all add: rb_wf_def)
  have "0 < rt_ringbuffer_data_len rb" using Cons data_len_length [of rb] by simp
  moreover from this have "c = buffer_ptr rb ! read_index rb"
    using Cons ring_get [of "rt_ringbuffer_data_len rb" "read_index rb" "buffer_size rb" "(!) (buffer_ptr rb)"] w
    by (simp add: rb_data_def)
  ultimately show ?thesis using Cons w
    by (auto simp: rt_ringbuffer_getchar_def fetch_def consumed_def index_next take_Suc_conv_app_nth hd_drop_conv_nth)
qed

text \<open>A forced write of a byte to a full buffer drops the oldest byte.\<close>

lemma putchar_force_ok:
  assumes wf: "rb_wf rb"
  defines "rb0 \<equiv> if rt_ringbuffer_data_len rb = buffer_size rb then consumed 1 rb else rb"
  shows "rt_ringbuffer_putchar_force ch rb = Some (1, written [ch] rb0)"
proof -
  have w: "0 < buffer_size rb" "buffer_size rb < 2 ^ 15" "buffer_size rb \<le> length (buffer_ptr rb)"
    "write_index rb < buffer_size rb" "read_index rb < buffer_size rb"
    using wf by (simp_all add: rb_wf_def)
  have full: "rt_ringbuffer_data_len rb = buffer_size rb \<longleftrightarrow> rt_ringbuffer_status rb = RT_RINGBUFFER_FULL"
    using data_len_eq(1) [OF wf] w wf by (auto simp: rt_ringbuffer_status_def rb_wf_def split: if_splits)
  have same: "read_index rb = write_index rb" if "rt_ringbuffer_status rb = RT_RINGBUFFER_FULL"
    using that by (auto simp: rt_ringbuffer_status_def split: if_splits)
  show ?thesis
    using w same
    by (auto simp: rb0_def full rt_ringbuffer_putchar_force_def store_def written_def consumed_def write_one index_next Let_def)
qed

text \<open>The operations on the contents.\<close>

lemma ring_put_spec:
  assumes wf: "rb_wf rb" and ptr: "len \<le> length ptr"
  shows "\<exists>rb'. rt_ringbuffer_put ptr len rb = Some (min len (buffer_size rb - length (rb_data rb)), rb') \<and> rb_wf rb'
    \<and> rb_data rb' = rb_data rb @ take (min len (buffer_size rb - length (rb_data rb))) ptr"
proof -
  let ?k = "min len (buffer_size rb - rt_ringbuffer_data_len rb)"
  have "length (take ?k ptr) \<le> rt_ringbuffer_space_len rb" by (simp add: space_len_eq [OF wf])
  from written_ok [OF wf this] put_written [OF wf ptr] show ?thesis by (simp add: space_len_eq [OF wf])
qed

lemma ring_get_spec:
  assumes wf: "rb_wf rb"
  shows "\<exists>rb'. rt_ringbuffer_get n rb = Some (take n (rb_data rb), rb') \<and> rb_wf rb' \<and> rb_data rb' = drop n (rb_data rb)"
proof (cases "n \<le> rt_ringbuffer_data_len rb")
  case True
  then show ?thesis using get_consumed [OF wf, of n] consumed_ok [OF wf True] by simp
next
  case False
  then show ?thesis using get_consumed [OF wf, of n] consumed_ok [OF wf order_refl] by simp
qed

lemma ring_force_spec:
  assumes wf: "rb_wf rb"
  shows "\<exists>rb'. rt_ringbuffer_putchar_force c rb = Some (1, rb') \<and> rb_wf rb'
    \<and> rb_data rb' = (if length (rb_data rb) = buffer_size rb then tl (rb_data rb) else rb_data rb) @ [c]"
proof -
  let ?full = "rt_ringbuffer_data_len rb = buffer_size rb"
  define rb0 where "rb0 = (if ?full then consumed 1 rb else rb)"
  have n: "0 < buffer_size rb" using wf by (simp add: rb_wf_def)
  have c: "rb_wf (consumed 1 rb) \<and> rb_data (consumed 1 rb) = tl (rb_data rb)" if ?full
    using consumed_ok [OF wf, of 1] n that by (simp add: drop_Suc)
  have sz: "buffer_size rb0 = buffer_size rb" by (simp add: rb0_def consumed_def)
  have wf0: "rb_wf rb0" and d: "rb_data rb0 = (if ?full then tl (rb_data rb) else rb_data rb)"
    using c wf by (auto simp: rb0_def)
  have "length (rb_data rb0) < buffer_size rb" using d n data_len_eq(2) [OF wf] by (auto split: if_splits)
  then have "length [c] \<le> rt_ringbuffer_space_len rb0" by (simp add: space_len_eq [OF wf0] sz)
  from written_ok [OF wf0 this] putchar_force_ok [OF wf] d show ?thesis by (simp add: rb0_def)
qed

section \<open>A block is its bytes one after the other\<close>

text \<open>The loop \<^verbatim>\<open>rt_ringbuffer_putchar\<close> over a block, which ends at the first byte that does not fit.\<close>

fun putchars :: "rt_uint8 list \<Rightarrow> rt_ringbuffer \<Rightarrow> (nat \<times> rt_ringbuffer) option" where
  "putchars [] rb = Some (0, rb)"
| "putchars (c # cs) rb =
     do {
       (k, rb1) \<leftarrow> rt_ringbuffer_putchar c rb;
       if k = 0 then Some (0, rb1) else do { (j, rb2) \<leftarrow> putchars cs rb1; Some (Suc j, rb2) }
     }"

lemma written_step:
  assumes wf: "rb_wf rb" and room: "Suc (length cs) \<le> buffer_size rb"
  shows "written cs (written [c] rb) = written (c # cs) rb"
proof -
  let ?n = "buffer_size rb" and ?w = "write_index rb" and ?b = "buffer_ptr rb"
  have w: "0 < ?n" "?n \<le> length ?b" "?w < ?n" using wf by (simp_all add: rb_wf_def)
  have w1: "(?w + 1) mod ?n < ?n" using w by simp
  let ?b1 = "write_block ?n ?w [c] ?b"
  have l1: "length ?b1 = length ?b" using write_block_length [of ?w ?n "[c]" ?b] w by simp
  have "write_block ?n ((?w + 1) mod ?n) cs ?b1 = write_block ?n ?w (c # cs) ?b"
  proof (rule nth_equalityI)
    have "length (write_block ?n ((?w + 1) mod ?n) cs ?b1) = length ?b1"
      using w1 w l1 room by (intro write_block_length) auto
    then show "length (write_block ?n ((?w + 1) mod ?n) cs ?b1) = length (write_block ?n ?w (c # cs) ?b)"
      using write_block_length [of ?w ?n "c # cs" ?b] w l1 room by simp
    fix i
    show "write_block ?n ((?w + 1) mod ?n) cs ?b1 ! i = write_block ?n ?w (c # cs) ?b ! i"
      using write_block_cell [of "(?w + 1) mod ?n" ?n cs ?b1 i] write_block_cell [of ?w ?n "[c]" ?b i]
        write_block_cell [of ?w ?n "c # cs" ?b i] w w1 l1 room index_next [OF w(3)]
      by (auto simp: nth_Cons' split: if_splits)
  qed
  moreover have "((?w + 1) mod ?n + length cs) mod ?n = (?w + length (c # cs)) mod ?n"
    by (simp add: mod_add_left_eq)
  moreover have "(write_mirror rb \<noteq> (?n \<le> ?w + 1)) \<noteq> (?n \<le> (?w + 1) mod ?n + length cs)
      \<longleftrightarrow> write_mirror rb \<noteq> (?n \<le> ?w + length (c # cs))"
    using index_next [OF w(3)] w room by auto
  ultimately show ?thesis by (simp add: written_def)
qed

lemma putchars_written:
  "rb_wf rb \<Longrightarrow> k = min (length cs) (buffer_size rb - rt_ringbuffer_data_len rb) \<Longrightarrow>
    putchars cs rb = Some (k, written (take k cs) rb)"
proof (induction cs arbitrary: rb k)
  case Nil
  then have "written [] rb = rb" by (auto simp: written_def write_block_def put_bytes_def rb_wf_def)
  with Nil show ?case by simp
next
  case (Cons c cs)
  show ?case
  proof (cases "rt_ringbuffer_data_len rb < buffer_size rb")
    case True
    have ok: "rb_wf (written [c] rb)" "rb_data (written [c] rb) = rb_data rb @ [c]"
      using written_ok [OF Cons.prems(1), of "[c]"] True space_len_eq [OF Cons.prems(1)] by simp_all
    then have len: "rt_ringbuffer_data_len (written [c] rb) = Suc (rt_ringbuffer_data_len rb)"
      by (metis data_len_length length_append_singleton)
    define j where "j = k - 1"
    have j: "k = Suc j" "j = min (length cs) (buffer_size (written [c] rb) - rt_ringbuffer_data_len (written [c] rb))"
      unfolding len using Cons.prems(2) True by (auto simp: j_def written_def)
    have "putchars cs (written [c] rb) = Some (j, written (take j cs) (written [c] rb))"
      using Cons.IH [OF ok(1) j(2)] .
    moreover have "written (take j cs) (written [c] rb) = written (take k (c # cs)) rb"
    proof -
      have "Suc (length (take j cs)) \<le> buffer_size rb" using Cons.prems(2) j(1) by simp
      from written_step [OF Cons.prems(1) this] show ?thesis unfolding j(1) by simp
    qed
    ultimately show ?thesis using putchar_written [OF Cons.prems(1) True] j(1) by simp
  next
    case False
    then have full: "rt_ringbuffer_data_len rb = buffer_size rb" using data_len_eq(2) [OF Cons.prems(1)] by simp
    moreover have "written [] rb = rb" using Cons.prems(1) by (auto simp: written_def write_block_def put_bytes_def rb_wf_def)
    ultimately show ?thesis using putchar_full [OF Cons.prems(1) full] Cons.prems(2) by simp
  qed
qed

section \<open>Forced writes of a block\<close>

text \<open>
  A forced write that fits is a write. One that does not fit takes as many bytes as the buffer has cells, whatever
  the length that was asked for, and flips both mirrors, so that two equal mirrors stay equal.
\<close>

lemma put_force_fits:
  assumes wf: "rb_wf rb" and fits: "len \<le> rt_ringbuffer_space_len rb" and len: "len \<le> length ptr"
  shows "rt_ringbuffer_put_force ptr len rb = Some (len, written (take len ptr) rb)"
proof (cases "rt_ringbuffer_space_len rb = 0")
  case True
  with fits have "len = 0" by simp
  then show ?thesis using wf
    by (auto simp: rt_ringbuffer_put_force_def rb_wf_def written_def write_block_def put_bytes_def store_def)
next
  case False
  then have "rt_ringbuffer_put_force ptr len rb = rt_ringbuffer_put ptr len rb"
    using fits by (auto simp: rt_ringbuffer_put_force_def rt_ringbuffer_put_def Let_def)
  with put_written [OF wf len] fits show ?thesis by (simp add: min_absorb1)
qed

lemma put_force_over:
  assumes wf: "rb_wf rb" and over: "rt_ringbuffer_space_len rb < len" and ptr: "buffer_size rb \<le> length ptr"
  shows "rt_ringbuffer_put_force ptr len rb = Some (buffer_size rb,
    (written (take (buffer_size rb) ptr) rb)\<lparr>
      read_mirror := (read_mirror rb \<noteq> (rt_ringbuffer_space_len rb < buffer_size rb)), read_index := write_index rb\<rparr>)"
proof -
  let ?n = "buffer_size rb" and ?w = "write_index rb"
  have w: "0 < ?n" "?n < 2 ^ 15" "?n \<le> length (buffer_ptr rb)" "?w < ?n" using wf by (simp_all add: rb_wf_def)
  obtain a where a: "?n = ?w + a" using less_imp_add_positive [OF w(4)] by (metis (no_types))
  have f: "?w + a \<le> length (buffer_ptr rb)" "?w + a \<le> length ptr" "0 < a" "?w + a < 2 ^ 15" using w ptr a by simp_all
  have l: "length (put_bytes ?w (take a ptr) (buffer_ptr rb)) = length (buffer_ptr rb)"
    using put_bytes_length [of ?w "take a ptr" "buffer_ptr rb"] f by simp
  have t: "take ?w (drop a ptr) = drop a (take (?w + a) ptr)" by (simp add: drop_take)
  have u: "take a (take (?w + a) ptr) = take a ptr" by (simp add: min_absorb1)
  have empty: "read_index rb = ?w" if "\<not> rt_ringbuffer_space_len rb < ?n"
    using that space_len_eq [OF wf] data_len_eq [OF wf] w wf by (auto simp: rb_wf_def split: if_splits)
  have wr: "written (take ?n ptr) rb = rb\<lparr>
      buffer_ptr := put_bytes 0 (drop a (take ?n ptr)) (put_bytes ?w (take a ptr) (buffer_ptr rb)),
      write_mirror := \<not> write_mirror rb, write_index := ?w\<rparr>"
    using f w by (simp add: written_def write_block_def a u)
  show ?thesis
  proof (cases "rt_ringbuffer_space_len rb < ?n")
    case True
    then show ?thesis unfolding wr using f w over by (simp add: rt_ringbuffer_put_force_def Let_def store_def a l t)
  next
    case False
    then show ?thesis unfolding wr using f w over empty [OF False]
      by (simp add: rt_ringbuffer_put_force_def Let_def store_def a l t)
  qed
qed

text \<open>The status afterwards: empty, when the buffer had data and the mirrors were equal.\<close>

lemma put_force_status:
  assumes wf: "rb_wf rb" and over: "rt_ringbuffer_space_len rb < len" and ptr: "buffer_size rb \<le> length ptr"
  shows "\<exists>rb'. rt_ringbuffer_put_force ptr len rb = Some (buffer_size rb, rb') \<and>
    rt_ringbuffer_status rb' = (if read_mirror rb = write_mirror rb \<and> rb_data rb \<noteq> []
      then RT_RINGBUFFER_EMPTY else RT_RINGBUFFER_FULL)"
proof -
  have "rt_ringbuffer_space_len rb < buffer_size rb \<longleftrightarrow> rb_data rb \<noteq> []"
    using data_len_length [of rb] space_len_eq [OF wf] data_len_eq(2) [OF wf] wf
    by (auto simp: rb_wf_def simp flip: length_greater_0_conv)
  moreover have "read_mirror rb = write_mirror rb" if "rb_data rb = []"
    using that data_len_length [of rb] data_len_eq(1) [OF wf] wf by (auto simp: rb_wf_def split: if_splits)
  ultimately show ?thesis
    using put_force_over [OF wf over ptr] wf ptr
    by (auto simp: rt_ringbuffer_status_def written_def rb_wf_def)
qed

lemma put_force_overread:
  assumes wf: "rb_wf rb" and over: "rt_ringbuffer_space_len rb < len" and ptr: "length ptr < buffer_size rb"
  shows "rt_ringbuffer_put_force ptr len rb = None"
proof -
  have w: "write_index rb < buffer_size rb" using wf by (simp add: rb_wf_def)
  then show ?thesis using over ptr
    by (auto simp: rt_ringbuffer_put_force_def Let_def store_def Option.bind_eq_None_conv)
qed

end
