(* ===== verification/Rt_Memheap.thy ===== *)
theory Rt_Memheap
  imports Rt_Sem Rt_Mempool
begin

text \<open>
  Memory heaps, \<^verbatim>\<open>rt-thread/src/memheap.c\<close>. The memory of a heap is divided into blocks, each behind an item of
  24 bytes. The items of a heap form a ring in the order of their addresses, from the item at the start
  of the memory to a used item of length 0 at its end; the items of free blocks are also in a second ring
  through the header in the heap structure. Items are kept apart from the bytes of the blocks; what an item
  that is no longer in use leaves in memory is not seen in the bytes. A null pointer that is followed has no
  defined result.
\<close>

section \<open>Data\<close>

datatype itemptr = NullItem | FreeHeader nat | At rt_uint32

record rt_memheap_item =
  magic :: rt_uint32
  pool_ptr :: nat
  inext :: itemptr
  iprev :: itemptr
  next_free :: itemptr
  prev_free :: itemptr

type_synonym items = "itemptr \<Rightarrow> rt_memheap_item"

text \<open>\<open>lock\<close> names the semaphore that is part of the structure.\<close>

record rt_memheap =
  start_addr :: rt_uint32
  pool_size :: rt_uint32
  available_size :: rt_uint32
  max_used_size :: rt_uint32
  block_list :: itemptr
  free_list :: itemptr
  lock :: nat

record mstate =
  mkern :: kstate
  heaps :: "nat \<Rightarrow> rt_memheap"
  items :: items
  mbytes :: "rt_uint32 \<Rightarrow> rt_uint8"

abbreviation (input) RT_MEMHEAP_MAGIC :: rt_uint32 where "RT_MEMHEAP_MAGIC \<equiv> 0x1ea01ea0"
abbreviation (input) RT_MEMHEAP_MASK :: rt_uint32 where "RT_MEMHEAP_MASK \<equiv> 0xfffffffe"
abbreviation (input) RT_MEMHEAP_USED :: rt_uint32 where "RT_MEMHEAP_USED \<equiv> 1"
abbreviation (input) RT_MEMHEAP_MINIALLOC :: rt_uint32 where "RT_MEMHEAP_MINIALLOC \<equiv> 12"

definition RT_MEMHEAP_SIZE :: rt_uint32 where
  "RT_MEMHEAP_SIZE = RT_ALIGN 24 RT_ALIGN_SIZE"

text \<open>Reading and writing an item, and the value of a pointer. The address of a free list header is not used.\<close>

definition ld :: "itemptr \<Rightarrow> items \<Rightarrow> rt_memheap_item option" where
  "ld p M = (if p = NullItem then None else Some (M p))"

definition st :: "itemptr \<Rightarrow> (rt_memheap_item \<Rightarrow> rt_memheap_item) \<Rightarrow> items \<Rightarrow> items option" where
  "st p f M = (if p = NullItem then None else Some (M(p := f (M p))))"

fun addr_of :: "itemptr \<Rightarrow> rt_uint32 option" where
  "addr_of NullItem = Some 0"
| "addr_of (FreeHeader h) = None"
| "addr_of (At a) = Some a"

definition RT_MEMHEAP_IS_USED :: "rt_memheap_item \<Rightarrow> bool" where
  "RT_MEMHEAP_IS_USED i \<longleftrightarrow> magic i AND RT_MEMHEAP_USED \<noteq> 0"

definition MEMITEM_SIZE :: "itemptr \<Rightarrow> items \<Rightarrow> rt_uint32 option" where
  "MEMITEM_SIZE p M =
     do {
       i \<leftarrow> ld p M;
       b \<leftarrow> addr_of (inext i);
       a \<leftarrow> addr_of p;
       Some (b - a - RT_MEMHEAP_SIZE)
     }"

section \<open>The two rings\<close>

text \<open>Taking an item out of the free list, and putting one in behind the header.\<close>

definition free_remove :: "itemptr \<Rightarrow> items \<Rightarrow> items option" where
  "free_remove p M =
     do {
       i \<leftarrow> ld p M;
       M1 \<leftarrow> st (next_free i) (\<lambda>x. x\<lparr>prev_free := prev_free i\<rparr>) M;
       i1 \<leftarrow> ld p M1;
       st (prev_free i1) (\<lambda>x. x\<lparr>next_free := next_free i1\<rparr>) M1
     }"

definition free_insert :: "itemptr \<Rightarrow> itemptr \<Rightarrow> items \<Rightarrow> items option" where
  "free_insert fl p M =
     do {
       l \<leftarrow> ld fl M;
       M1 \<leftarrow> st p (\<lambda>x. x\<lparr>next_free := next_free l\<rparr>) M;
       M2 \<leftarrow> st p (\<lambda>x. x\<lparr>prev_free := fl\<rparr>) M1;
       l2 \<leftarrow> ld fl M2;
       M3 \<leftarrow> st (next_free l2) (\<lambda>x. x\<lparr>prev_free := p\<rparr>) M2;
       st fl (\<lambda>x. x\<lparr>next_free := p\<rparr>) M3
     }"

text \<open>A new free item behind the item \<open>hp\<close>.\<close>

definition new_item :: "nat \<Rightarrow> itemptr \<Rightarrow> itemptr \<Rightarrow> items \<Rightarrow> items option" where
  "new_item h hp n M =
     do {
       M1 \<leftarrow> st n (\<lambda>x. x\<lparr>magic := RT_MEMHEAP_MAGIC\<rparr>) M;
       M2 \<leftarrow> st n (\<lambda>x. x\<lparr>pool_ptr := h\<rparr>) M1;
       M3 \<leftarrow> st n (\<lambda>x. x\<lparr>iprev := hp\<rparr>) M2;
       i \<leftarrow> ld hp M3;
       M4 \<leftarrow> st n (\<lambda>x. x\<lparr>inext := inext i\<rparr>) M3;
       i1 \<leftarrow> ld hp M4;
       M5 \<leftarrow> st (inext i1) (\<lambda>x. x\<lparr>iprev := n\<rparr>) M4;
       st hp (\<lambda>x. x\<lparr>inext := n\<rparr>) M5
     }"

text \<open>The item \<open>f\<close> behind \<open>p\<close> is merged into \<open>p\<close>.\<close>

definition merge_right :: "itemptr \<Rightarrow> itemptr \<Rightarrow> items \<Rightarrow> items option" where
  "merge_right p f M =
     do {
       i \<leftarrow> ld f M;
       M1 \<leftarrow> st (inext i) (\<lambda>x. x\<lparr>iprev := p\<rparr>) M;
       i1 \<leftarrow> ld f M1;
       st p (\<lambda>x. x\<lparr>inext := inext i1\<rparr>) M1
     }"

section \<open>Initialisation\<close>

definition rt_memheap_init :: "nat \<Rightarrow> rt_uint8 list \<Rightarrow> rt_uint32 \<Rightarrow> rt_uint32 \<Rightarrow> mstate \<Rightarrow> (rt_err \<times> mstate) option" where
  "rt_memheap_init h nm addr sz S =
     (let k1 = rt_object_init (OMemheap h) RT_Object_Class_MemHeap nm (mkern S);
          psize = RT_ALIGN_DOWN sz RT_ALIGN_SIZE;
          avail = psize - 2 * RT_MEMHEAP_SIZE;
          fl = FreeHeader h;
          it = At addr;
          tl = At (addr + avail + RT_MEMHEAP_SIZE);
          M1 = (items S)(fl := \<lparr>magic = RT_MEMHEAP_MAGIC, pool_ptr = h, inext = NullItem, iprev = NullItem,
                 next_free = fl, prev_free = fl\<rparr>);
          M2 = M1(it := \<lparr>magic = RT_MEMHEAP_MAGIC, pool_ptr = h, inext = tl, iprev = tl, next_free = it, prev_free = it\<rparr>)
      in do {
        M3 \<leftarrow> free_insert fl it M2;
        let M4 = M3(tl := \<lparr>magic = RT_MEMHEAP_MAGIC OR RT_MEMHEAP_USED, pool_ptr = h, inext = it, iprev = it,
                     next_free = NullItem, prev_free = NullItem\<rparr>);
        let hp = (heaps S h)\<lparr>start_addr := addr, pool_size := psize, available_size := avail, max_used_size := psize - avail,
                    block_list := it, free_list := fl\<rparr>;
        let (e, k2) = rt_sem_init (lock hp) nm 1 RT_IPC_FLAG_FIFO k1;
        Some (RT_EOK, S\<lparr>mkern := k2, heaps := (heaps S)(h := hp), items := M4\<rparr>)
      })"

definition rt_memheap_detach :: "nat \<Rightarrow> mstate \<Rightarrow> rt_err \<times> mstate" where
  "rt_memheap_detach h S =
     (let k1 = rt_object_detach (OSem (lock (heaps S h))) (mkern S);
          k2 = rt_object_detach (OMemheap h) k1
      in (RT_EOK, S\<lparr>mkern := k2\<rparr>))"

section \<open>The lock\<close>

text \<open>
  Every operation takes the lock of the heap, waiting without limit. A failure sets the error number and ends the
  operation with the result \<open>x\<close>. The operation of a thread that had to wait for the lock goes on with the result of
  \<open>rt_sem_take_wake\<close>.
\<close>

definition locked :: "rt_err \<Rightarrow> 'a \<Rightarrow> (mstate \<Rightarrow> ('a callres \<times> mstate) option) \<Rightarrow> mstate \<Rightarrow> ('a callres \<times> mstate) option" where
  "locked result x body S =
     (if result \<noteq> RT_EOK then Some (Return x, S\<lparr>mkern := rt_set_errno result (mkern S)\<rparr>) else body S)"

definition with_lock :: "nat \<Rightarrow> 'a \<Rightarrow> (mstate \<Rightarrow> ('a callres \<times> mstate) option) \<Rightarrow> mstate \<Rightarrow> ('a callres \<times> mstate) option" where
  "with_lock h x body S =
     do {
       (r, k) \<leftarrow> rt_sem_take (lock (heaps S h)) (- 1) (mkern S);
       case r of
         Blocked \<Rightarrow> Some (Blocked, S\<lparr>mkern := k\<rparr>)
       | Return result \<Rightarrow> locked result x body (S\<lparr>mkern := k\<rparr>)
     }"

definition release_lock :: "nat \<Rightarrow> mstate \<Rightarrow> mstate option" where
  "release_lock h S = do { (e, k) \<leftarrow> rt_sem_release (lock (heaps S h)) (mkern S); Some (S\<lparr>mkern := k\<rparr>) }"

abbreviation upd_heap :: "nat \<Rightarrow> (rt_memheap \<Rightarrow> rt_memheap) \<Rightarrow> mstate \<Rightarrow> mstate" where
  "upd_heap h f S \<equiv> S\<lparr>heaps := (heaps S)(h := f (heaps S h))\<rparr>"

text \<open>The available size is set and the maximum adjusted.\<close>

definition set_available :: "rt_uint32 \<Rightarrow> rt_memheap \<Rightarrow> rt_memheap" where
  "set_available a x =
     (let x1 = x\<lparr>available_size := a\<rparr>
      in if pool_size x1 - available_size x1 > max_used_size x1
         then x1\<lparr>max_used_size := pool_size x1 - available_size x1\<rparr> else x1)"

section \<open>Allocation\<close>

text \<open>The search of the free list, with the size of the last block that was looked at.\<close>

partial_function (option) find_free ::
  "itemptr \<Rightarrow> rt_uint32 \<Rightarrow> items \<Rightarrow> itemptr \<Rightarrow> rt_uint32 \<Rightarrow> (itemptr \<times> rt_uint32) option" where
  "find_free fl sz M p free_size =
     (if p \<noteq> fl \<and> free_size < sz then
        do {
          free_size1 \<leftarrow> MEMITEM_SIZE p M;
          p1 \<leftarrow> (if free_size1 < sz then do { i \<leftarrow> ld p M; Some (next_free i) } else Some p);
          find_free fl sz M p1 free_size1
        }
      else Some (p, free_size))"

text \<open>The allocated block is taken out of the free list, whole or split.\<close>

definition take_out :: "itemptr \<Rightarrow> items \<Rightarrow> items option" where
  "take_out p M =
     do {
       M1 \<leftarrow> free_remove p M;
       M2 \<leftarrow> st p (\<lambda>x. x\<lparr>next_free := NullItem\<rparr>) M1;
       st p (\<lambda>x. x\<lparr>prev_free := NullItem\<rparr>) M2
     }"

definition split_off :: "nat \<Rightarrow> itemptr \<Rightarrow> rt_uint32 \<Rightarrow> mstate \<Rightarrow> mstate option" where
  "split_off h p sz S =
     do {
       a \<leftarrow> addr_of p;
       let n = At (a + sz + RT_MEMHEAP_SIZE);
       M1 \<leftarrow> new_item h p n (items S);
       M2 \<leftarrow> take_out p M1;
       M3 \<leftarrow> free_insert (free_list (heaps S h)) n M2;
       Some (upd_heap h (\<lambda>x. set_available (available_size x - sz - RT_MEMHEAP_SIZE) x) (S\<lparr>items := M3\<rparr>))
     }"

definition take_whole :: "nat \<Rightarrow> itemptr \<Rightarrow> rt_uint32 \<Rightarrow> mstate \<Rightarrow> mstate option" where
  "take_whole h p free_size S =
     do {
       let S1 = upd_heap h (\<lambda>x. set_available (available_size x - free_size) x) S;
       M \<leftarrow> take_out p (items S1);
       Some (S1\<lparr>items := M\<rparr>)
     }"

text \<open>The part of the allocation that holds the lock. The result is an address, 0 for \<^verbatim>\<open>RT_NULL\<close>.\<close>

definition alloc_locked :: "nat \<Rightarrow> rt_uint32 \<Rightarrow> mstate \<Rightarrow> (rt_uint32 callres \<times> mstate) option" where
  "alloc_locked h sz S =
     do {
       l \<leftarrow> ld (free_list (heaps S h)) (items S);
       (p, free_size) \<leftarrow> find_free (free_list (heaps S h)) sz (items S) (next_free l) 0;
       if free_size \<ge> sz then
         do {
           S1 \<leftarrow> (if free_size \<ge> sz + RT_MEMHEAP_SIZE + RT_MEMHEAP_MINIALLOC then split_off h p sz S
                 else take_whole h p free_size S);
           M \<leftarrow> st p (\<lambda>x. x\<lparr>magic := magic x OR RT_MEMHEAP_USED\<rparr>) (items S1);
           S2 \<leftarrow> release_lock h (S1\<lparr>items := M\<rparr>);
           a \<leftarrow> addr_of p;
           Some (Return (a + RT_MEMHEAP_SIZE), S2)
         }
       else do { S1 \<leftarrow> release_lock h S; Some (Return 0, S1) }
     }"

text \<open>The size that is allocated for a request.\<close>

definition request_size :: "rt_uint32 \<Rightarrow> rt_uint32" where
  "request_size sz =
     (let sz1 = RT_ALIGN sz RT_ALIGN_SIZE in if sz1 < RT_MEMHEAP_MINIALLOC then RT_MEMHEAP_MINIALLOC else sz1)"

definition rt_memheap_alloc :: "nat \<Rightarrow> rt_uint32 \<Rightarrow> mstate \<Rightarrow> (rt_uint32 callres \<times> mstate) option" where
  "rt_memheap_alloc h sz S =
     (let sz1 = request_size sz in
      if sz1 < available_size (heaps S h) then with_lock h 0 (alloc_locked h sz1) S
      else Some (Return 0, S))"

definition rt_memheap_alloc_wake :: "tid \<Rightarrow> nat \<Rightarrow> rt_uint32 \<Rightarrow> mstate \<Rightarrow> (rt_uint32 callres \<times> mstate) option" where
  "rt_memheap_alloc_wake t h sz S = locked (rt_sem_take_wake t (mkern S)) 0 (alloc_locked h (request_size sz)) S"

section \<open>Release\<close>

text \<open>
  The block is marked as free and merged with its neighbours. \<open>merge_prev\<close> gives the item that has the memory now,
  and whether it still has to be put into the free list.
\<close>

definition merge_prev :: "nat \<Rightarrow> itemptr \<Rightarrow> mstate \<Rightarrow> ((itemptr \<times> bool) \<times> mstate) option" where
  "merge_prev h p S =
     do {
       i \<leftarrow> ld p (items S);
       pr \<leftarrow> ld (iprev i) (items S);
       if \<not> RT_MEMHEAP_IS_USED pr then
         do {
           let S1 = upd_heap h (\<lambda>x. x\<lparr>available_size := available_size x + RT_MEMHEAP_SIZE\<rparr>) S;
           M1 \<leftarrow> st (iprev i) (\<lambda>x. x\<lparr>inext := inext i\<rparr>) (items S1);
           i1 \<leftarrow> ld p M1;
           M2 \<leftarrow> st (inext i1) (\<lambda>x. x\<lparr>iprev := iprev i1\<rparr>) M1;
           i2 \<leftarrow> ld p M2;
           Some ((iprev i2, False), S1\<lparr>items := M2\<rparr>)
         }
       else Some ((p, True), S)
     }"

definition merge_next :: "nat \<Rightarrow> itemptr \<Rightarrow> mstate \<Rightarrow> mstate option" where
  "merge_next h p S =
     do {
       i \<leftarrow> ld p (items S);
       n \<leftarrow> ld (inext i) (items S);
       if \<not> RT_MEMHEAP_IS_USED n then
         do {
           let S1 = upd_heap h (\<lambda>x. x\<lparr>available_size := available_size x + RT_MEMHEAP_SIZE\<rparr>) S;
           M1 \<leftarrow> merge_right p (inext i) (items S1);
           M2 \<leftarrow> free_remove (inext i) M1;
           Some (S1\<lparr>items := M2\<rparr>)
         }
       else Some S
     }"

definition free_locked :: "nat \<Rightarrow> itemptr \<Rightarrow> mstate \<Rightarrow> (unit callres \<times> mstate) option" where
  "free_locked h p S =
     do {
       M \<leftarrow> st p (\<lambda>x. x\<lparr>magic := magic x AND NOT RT_MEMHEAP_USED\<rparr>) (items S);
       let S1 = S\<lparr>items := M\<rparr>;
       sz \<leftarrow> MEMITEM_SIZE p (items S1);
       let S2 = upd_heap h (\<lambda>x. x\<lparr>available_size := available_size x + sz\<rparr>) S1;
       ((q, insert_header), S3) \<leftarrow> merge_prev h p S2;
       S4 \<leftarrow> merge_next h q S3;
       M5 \<leftarrow> (if insert_header then free_insert (free_list (heaps S4 h)) q (items S4) else Some (items S4));
       S6 \<leftarrow> release_lock h (S4\<lparr>items := M5\<rparr>);
       Some (Return (), S6)
     }"

definition header_of :: "rt_uint32 \<Rightarrow> itemptr" where
  "header_of ptr = At (ptr - RT_MEMHEAP_SIZE)"

definition rt_memheap_free :: "rt_uint32 \<Rightarrow> mstate \<Rightarrow> (unit callres \<times> mstate) option" where
  "rt_memheap_free ptr S =
     (if ptr = 0 then Some (Return (), S)
      else
        do {
          i \<leftarrow> ld (header_of ptr) (items S);
          RT_ASSERT (magic i AND RT_MEMHEAP_MASK = RT_MEMHEAP_MAGIC);
          RT_ASSERT (magic i AND RT_MEMHEAP_USED \<noteq> 0);
          n \<leftarrow> ld (inext i) (items S);
          RT_ASSERT (magic n AND RT_MEMHEAP_MASK = RT_MEMHEAP_MAGIC);
          with_lock (pool_ptr i) () (free_locked (pool_ptr i) (header_of ptr)) S
        })"

definition rt_memheap_free_wake :: "tid \<Rightarrow> nat \<Rightarrow> rt_uint32 \<Rightarrow> mstate \<Rightarrow> (unit callres \<times> mstate) option" where
  "rt_memheap_free_wake t h ptr S = locked (rt_sem_take_wake t (mkern S)) () (free_locked h (header_of ptr)) S"

section \<open>Change of the size\<close>

text \<open>\<^verbatim>\<open>rt_memcpy\<close> between blocks that do not overlap.\<close>

definition mem_copy :: "rt_uint32 \<Rightarrow> rt_uint32 \<Rightarrow> rt_uint32 \<Rightarrow> (rt_uint32 \<Rightarrow> rt_uint8) \<Rightarrow> (rt_uint32 \<Rightarrow> rt_uint8)" where
  "mem_copy dst src n B = (\<lambda>x. if x - dst < n then B (src + (x - dst)) else B x)"

text \<open>The data is moved to a new block: the allocation, the copy and the release each may have to wait.\<close>

definition realloc_copy ::
  "rt_uint32 \<Rightarrow> rt_uint32 \<Rightarrow> rt_uint32 \<Rightarrow> rt_uint32 \<Rightarrow> mstate \<Rightarrow> (rt_uint32 callres \<times> mstate) option" where
  "realloc_copy new_ptr ptr oldsize newsize S =
     (if new_ptr \<noteq> 0 then
        do {
          let S1 = S\<lparr>mbytes := mem_copy new_ptr ptr (if oldsize < newsize then oldsize else newsize) (mbytes S)\<rparr>;
          (r, S2) \<leftarrow> rt_memheap_free ptr S1;
          Some (callres_map (\<lambda>_. new_ptr) r, S2)
        }
      else Some (Return new_ptr, S))"

definition realloc_move ::
  "nat \<Rightarrow> rt_uint32 \<Rightarrow> rt_uint32 \<Rightarrow> rt_uint32 \<Rightarrow> mstate \<Rightarrow> (rt_uint32 callres \<times> mstate) option" where
  "realloc_move h ptr oldsize newsize S =
     do {
       (r, S1) \<leftarrow> rt_memheap_alloc h newsize S;
       case r of Blocked \<Rightarrow> Some (Blocked, S1) | Return new_ptr \<Rightarrow> realloc_copy new_ptr ptr oldsize newsize S1
     }"

text \<open>The item \<open>p\<close> is taken out of the ring of blocks.\<close>

definition block_remove :: "itemptr \<Rightarrow> items \<Rightarrow> items option" where
  "block_remove p M =
     do {
       i \<leftarrow> ld p M;
       M1 \<leftarrow> st (inext i) (\<lambda>x. x\<lparr>iprev := iprev i\<rparr>) M;
       i1 \<leftarrow> ld p M1;
       st (iprev i1) (\<lambda>x. x\<lparr>inext := inext i1\<rparr>) M1
     }"

text \<open>
  Growing: the start of the free block behind is moved when it is large enough, otherwise the data moves. The old
  and the new item of the free block may overlap in memory; the old one is not read again.
\<close>

definition expand_locked ::
  "nat \<Rightarrow> rt_uint32 \<Rightarrow> rt_uint32 \<Rightarrow> rt_uint32 \<Rightarrow> mstate \<Rightarrow> (rt_uint32 callres \<times> mstate) option" where
  "expand_locked h ptr oldsize newsize S =
     do {
       let p = header_of ptr;
       i \<leftarrow> ld p (items S);
       let next_ptr = inext i;
       b \<leftarrow> addr_of next_ptr;
       a \<leftarrow> addr_of p;
       RT_ASSERT (b > a);
       n \<leftarrow> ld next_ptr (items S);
       fits \<leftarrow> (if \<not> RT_MEMHEAP_IS_USED n then
                 do {
                   nextsize \<leftarrow> MEMITEM_SIZE next_ptr (items S);
                   RT_ASSERT (b > 0);
                   Some (nextsize + oldsize > newsize + RT_MEMHEAP_MINIALLOC)
                 }
               else Some False);
       if fits then
         do {
           let S1 = upd_heap h (\<lambda>x. set_available (available_size x - (newsize - oldsize)) x) S;
           M1 \<leftarrow> free_remove next_ptr (items S1);
           M2 \<leftarrow> block_remove next_ptr M1;
           let n1 = At (ptr + newsize);
           M3 \<leftarrow> new_item h p n1 M2;
           M4 \<leftarrow> free_insert (free_list (heaps S1 h)) n1 M3;
           S2 \<leftarrow> release_lock h (S1\<lparr>items := M4\<rparr>);
           Some (Return ptr, S2)
         }
       else
         do {
           S1 \<leftarrow> release_lock h S;
           realloc_move h ptr oldsize newsize S1
         }
     }"

text \<open>
  Reducing: the end of the block becomes a free block, merged with a free block behind it. \<open>shrink_merge\<close> leaves the new
  item with the memory of both.
\<close>

definition shrink_merge :: "nat \<Rightarrow> itemptr \<Rightarrow> mstate \<Rightarrow> mstate option" where
  "shrink_merge h n S =
     do {
       i \<leftarrow> ld n (items S);
       let f = inext i;
       fi \<leftarrow> ld f (items S);
       if \<not> RT_MEMHEAP_IS_USED fi then
         do {
           fsize \<leftarrow> MEMITEM_SIZE f (items S);
           let S1 = upd_heap h (\<lambda>x. x\<lparr>available_size := available_size x - fsize\<rparr>) S;
           M1 \<leftarrow> merge_right n f (items S1);
           M2 \<leftarrow> free_remove f M1;
           Some (S1\<lparr>items := M2\<rparr>)
         }
       else Some S
     }"

definition shrink_locked :: "nat \<Rightarrow> rt_uint32 \<Rightarrow> rt_uint32 \<Rightarrow> mstate \<Rightarrow> (rt_uint32 callres \<times> mstate) option" where
  "shrink_locked h ptr newsize S =
     do {
       let p = header_of ptr;
       a \<leftarrow> addr_of p;
       let n = At (a + newsize + RT_MEMHEAP_SIZE);
       M1 \<leftarrow> new_item h p n (items S);
       S2 \<leftarrow> shrink_merge h n (S\<lparr>items := M1\<rparr>);
       M3 \<leftarrow> free_insert (free_list (heaps S2 h)) n (items S2);
       nsize \<leftarrow> MEMITEM_SIZE n M3;
       S4 \<leftarrow> release_lock h (upd_heap h (\<lambda>x. x\<lparr>available_size := available_size x + nsize\<rparr>) (S2\<lparr>items := M3\<rparr>));
       Some (Return ptr, S4)
     }"

definition rt_memheap_realloc ::
  "nat \<Rightarrow> rt_uint32 \<Rightarrow> rt_uint32 \<Rightarrow> mstate \<Rightarrow> (rt_uint32 callres \<times> mstate) option" where
  "rt_memheap_realloc h ptr newsize S =
     (if newsize = 0 then do { (r, S1) \<leftarrow> rt_memheap_free ptr S; Some (callres_map (\<lambda>_. 0) r, S1) }
      else
        (let newsize1 = request_size newsize in
         if ptr = 0 then rt_memheap_alloc h newsize1 S
         else
           do {
             oldsize \<leftarrow> MEMITEM_SIZE (header_of ptr) (items S);
             if newsize1 > oldsize then with_lock h 0 (expand_locked h ptr oldsize newsize1) S
             else if newsize1 + RT_MEMHEAP_SIZE + RT_MEMHEAP_MINIALLOC \<ge> oldsize then Some (Return ptr, S)
             else with_lock h 0 (shrink_locked h ptr newsize1) S
           }))"

text \<open>
  The continuations of a change of the size after a wait for the lock: in the expansion, the allocation and the
  release of a move, and the reduction.
\<close>

definition realloc_expand_wake ::
  "tid \<Rightarrow> nat \<Rightarrow> rt_uint32 \<Rightarrow> rt_uint32 \<Rightarrow> rt_uint32 \<Rightarrow> mstate \<Rightarrow> (rt_uint32 callres \<times> mstate) option" where
  "realloc_expand_wake t h ptr oldsize newsize S =
     locked (rt_sem_take_wake t (mkern S)) 0 (expand_locked h ptr oldsize newsize) S"

definition realloc_alloc_wake ::
  "tid \<Rightarrow> nat \<Rightarrow> rt_uint32 \<Rightarrow> rt_uint32 \<Rightarrow> rt_uint32 \<Rightarrow> mstate \<Rightarrow> (rt_uint32 callres \<times> mstate) option" where
  "realloc_alloc_wake t h ptr oldsize newsize S =
     do {
       (r, S1) \<leftarrow> rt_memheap_alloc_wake t h newsize S;
       case r of Blocked \<Rightarrow> Some (Blocked, S1) | Return new_ptr \<Rightarrow> realloc_copy new_ptr ptr oldsize newsize S1
     }"

definition realloc_free_wake ::
  "tid \<Rightarrow> nat \<Rightarrow> rt_uint32 \<Rightarrow> rt_uint32 \<Rightarrow> mstate \<Rightarrow> (rt_uint32 callres \<times> mstate) option" where
  "realloc_free_wake t h new_ptr ptr S =
     do { (r, S1) \<leftarrow> rt_memheap_free_wake t h ptr S; Some (callres_map (\<lambda>_. new_ptr) r, S1) }"

definition realloc_shrink_wake ::
  "tid \<Rightarrow> nat \<Rightarrow> rt_uint32 \<Rightarrow> rt_uint32 \<Rightarrow> mstate \<Rightarrow> (rt_uint32 callres \<times> mstate) option" where
  "realloc_shrink_wake t h ptr newsize S =
     locked (rt_sem_take_wake t (mkern S)) 0 (shrink_locked h ptr newsize) S"

end
