(* ===== verification/Rt_Heap.thy ===== *)
theory Rt_Heap
  imports Rt_Memheap
begin

text \<open>
  The memory heap implements a partition of its memory: the ring of blocks is sorted by address and covers the
  memory without gaps, the free list holds exactly the free blocks, no two free blocks are neighbours, and the
  available size is the sum of the sizes of the free blocks.
\<close>

section \<open>Rings of items\<close>

definition bh :: "items \<Rightarrow> itemptr lheap" where
  "bh M = \<lparr>lnext = (\<lambda>p. inext (M p)), lprev = (\<lambda>p. iprev (M p))\<rparr>"

definition fh :: "items \<Rightarrow> itemptr lheap" where
  "fh M = \<lparr>lnext = (\<lambda>p. next_free (M p)), lprev = (\<lambda>p. prev_free (M p))\<rparr>"

text \<open>What an operation on the free list or on the ring of blocks leaves as it is.\<close>

definition same_free :: "items \<Rightarrow> items \<Rightarrow> bool" where
  "same_free M M' \<longleftrightarrow> (\<forall>p. next_free (M' p) = next_free (M p) \<and> prev_free (M' p) = prev_free (M p))"

definition same_blocks :: "items \<Rightarrow> items \<Rightarrow> bool" where
  "same_blocks M M' \<longleftrightarrow> (\<forall>p. inext (M' p) = inext (M p) \<and> iprev (M' p) = iprev (M p)
     \<and> magic (M' p) = magic (M p) \<and> pool_ptr (M' p) = pool_ptr (M p))"

lemma heap_views [simp]:
  "lnext (bh M) p = inext (M p)" "lprev (bh M) p = iprev (M p)"
  "lnext (fh M) p = next_free (M p)" "lprev (fh M) p = prev_free (M p)"
  by (simp_all add: bh_def fh_def)

lemma dlist_cong:
  assumes "\<And>a. a \<in> set (l # xs) \<Longrightarrow> lnext h' a = lnext h a \<and> lprev h' a = lprev h a"
  shows "dlist h' l xs \<longleftrightarrow> dlist h l xs"
  unfolding dlist_def using linked_cong [of l xs h' h l] assms by auto

lemma same_free_dlist: "same_free M M' \<Longrightarrow> dlist (fh M') l xs \<longleftrightarrow> dlist (fh M) l xs"
  by (rule dlist_cong) (simp add: same_free_def)

lemma same_blocks_dlist: "same_blocks M M' \<Longrightarrow> dlist (bh M') l xs \<longleftrightarrow> dlist (bh M) l xs"
  by (rule dlist_cong) (simp add: same_blocks_def)

text \<open>A member of a ring is taken out by joining its neighbours; what the member points to afterwards does not matter.\<close>

lemma dlist_bypass:
  assumes d: "dlist h l (ys @ n # zs)"
    and nx: "\<And>a. a \<noteq> n \<Longrightarrow> lnext h' a = (if a = last (l # ys) then hd (zs @ [l]) else lnext h a)"
    and pv: "\<And>a. a \<noteq> n \<Longrightarrow> lprev h' a = (if a = hd (zs @ [l]) then last (l # ys) else lprev h a)"
  shows "dlist h' l (ys @ zs)"
proof -
  have *: "linked h l (ys @ n # zs) l" "distinct (l # ys @ n # zs)" using d by (simp_all add: dlist_def)
  then have "linked (unlink (last (l # ys)) n (hd (zs @ [l])) h) l (ys @ zs) l"
    by (intro linked_unlink) auto
  then have "dlist (unlink (last (l # ys)) n (hd (zs @ [l])) h) l (ys @ zs)" using * by (auto simp: dlist_def)
  moreover have "a \<noteq> n" if "a \<in> set (l # ys @ zs)" for a using that * by auto
  ultimately show ?thesis
    using dlist_cong [of l "ys @ zs" h' "unlink (last (l # ys)) n (hd (zs @ [l])) h"]
    by (simp add: unlink_def nx pv del: last.simps)
qed

lemma dlist_around:
  assumes "dlist h l (ys @ n # zs)"
  shows "lnext h n = hd (zs @ [l])" and "lprev h n = last (l # ys)"
    and "last (l # ys) \<noteq> n" and "hd (zs @ [l]) \<noteq> n"
    and "last (l # ys) \<in> set (l # ys)" and "hd (zs @ [l]) \<in> set (l # zs)"
proof -
  have *: "linked h l ys n" "linked h n zs l" "distinct (l # ys @ n # zs)"
    using assms by (simp_all add: dlist_def linked_append)
  show "lnext h n = hd (zs @ [l])" "lprev h n = last (l # ys)" using * by (auto dest: linked_first linked_last)
  show m: "last (l # ys) \<in> set (l # ys)" by (rule last_in_set) simp
  show m': "hd (zs @ [l]) \<in> set (l # zs)" by (cases zs) auto
  show "last (l # ys) \<noteq> n" "hd (zs @ [l]) \<noteq> n" using m m' *(3) by auto
qed

lemma dlist_link:
  assumes d: "dlist h l (ys @ zs)" and n: "n \<notin> set (l # ys @ zs)"
  shows "dlist (link (last (l # ys)) n (hd (zs @ [l])) h) l (ys @ n # zs)"
  using linked_link [of h l ys zs l n] d n by (auto simp: dlist_def)

lemma free_remove_ok:
  assumes d: "dlist (fh M) l (ys @ p # zs)" and nn: "NullItem \<notin> set (l # ys @ p # zs)"
  shows "\<exists>M'. free_remove p M = Some M' \<and> dlist (fh M') l (ys @ zs) \<and> same_blocks M M'
    \<and> (\<forall>q. q \<notin> set (l # ys @ p # zs) \<longrightarrow> M' q = M q)"
proof -
  define q r where "q = hd (zs @ [l])" and "r = last (l # ys)"
  note a = dlist_around [OF d, folded q_def r_def]
  have ne: "q \<noteq> NullItem" "r \<noteq> NullItem" "p \<noteq> NullItem" using a(5,6) nn by auto
  define M1 where "M1 = M(q := (M q)\<lparr>prev_free := r\<rparr>)"
  define M2 where "M2 = M1(r := (M1 r)\<lparr>next_free := q\<rparr>)"
  have p: "next_free (M p) = q" "prev_free (M p) = r" and p1: "M1 p = M p" using a by (simp_all add: M1_def)
  have "free_remove p M = Some M2"
    unfolding free_remove_def ld_def st_def using ne p p1 by (simp add: M2_def flip: M1_def)
  moreover have "dlist (fh M2) l (ys @ zs)"
    by (rule dlist_bypass [OF d]) (auto simp: M2_def M1_def simp flip: q_def r_def simp del: last.simps)
  moreover have "same_blocks M M2" by (simp add: same_blocks_def M2_def M1_def)
  moreover have "M2 x = M x" if "x \<notin> set (l # ys @ p # zs)" for x
    using that a(5,6) by (auto simp: M2_def M1_def)
  ultimately show ?thesis by blast
qed

lemma free_insert_ok:
  assumes d: "dlist (fh M) l zs" and n: "p \<notin> set (l # zs)" and nn: "NullItem \<notin> set (p # l # zs)"
  shows "\<exists>M'. free_insert l p M = Some M' \<and> dlist (fh M') l (p # zs) \<and> same_blocks M M'
    \<and> (\<forall>q. q \<notin> set (p # l # zs) \<longrightarrow> M' q = M q)"
proof -
  define q where "q = hd (zs @ [l])"
  have lq: "next_free (M l) = q" using d linked_first [of "fh M" l zs l] by (simp add: dlist_def q_def)
  have qin: "q \<in> set (l # zs)" by (cases zs) (auto simp: q_def)
  then have ne: "q \<noteq> NullItem" "l \<noteq> NullItem" "p \<noteq> NullItem" "q \<noteq> p" "l \<noteq> p" using nn n by auto
  define M2 where "M2 = M(p := (M p)\<lparr>next_free := q, prev_free := l\<rparr>)"
  define M3 where "M3 = M2(q := (M2 q)\<lparr>prev_free := p\<rparr>)"
  define M4 where "M4 = M3(l := (M3 l)\<lparr>next_free := p\<rparr>)"
  have "free_insert l p M = Some M4"
    unfolding free_insert_def ld_def st_def using ne lq by (simp add: M4_def M3_def M2_def)
  moreover have "dlist (fh M4) l (p # zs)"
  proof -
    have "dlist (link l p q (fh M)) l (p # zs)" using dlist_link [of "fh M" l "[]" zs p] d n by (simp add: q_def)
    moreover have "lnext (fh M4) a = lnext (link l p q (fh M)) a" "lprev (fh M4) a = lprev (link l p q (fh M)) a" for a
      using ne by (auto simp: M4_def M3_def M2_def link_def)
    ultimately show ?thesis using dlist_cong [of l "p # zs" "fh M4" "link l p q (fh M)"] by blast
  qed
  moreover have "same_blocks M M4" by (simp add: same_blocks_def M4_def M3_def M2_def)
  moreover have "M4 x = M x" if "x \<notin> set (p # l # zs)" for x
    using that qin by (auto simp: M4_def M3_def M2_def)
  ultimately show ?thesis by blast
qed

section \<open>The ring of blocks\<close>

definition bring :: "items \<Rightarrow> rt_uint32 list \<Rightarrow> bool" where
  "bring M bs \<longleftrightarrow> bs \<noteq> [] \<and> dlist (bh M) (At (hd bs)) (map At (tl bs))"

lemma bring_distinct: "bring M bs \<Longrightarrow> distinct bs"
  by (cases bs) (auto simp: bring_def dlist_def distinct_map)

lemma bring_pair:
  assumes "bring M (xs @ a # b # ys)"
  shows "inext (M (At a)) = At b" and "iprev (M (At b)) = At a"
proof -
  show "inext (M (At a)) = At b"
  proof (cases xs)
    case Nil
    with assms show ?thesis by (simp add: bring_def dlist_def)
  next
    case (Cons x xs')
    then have "dlist (bh M) (At x) (map At xs' @ At a # map At (b # ys))" using assms by (simp add: bring_def)
    from dlist_around(1) [OF this] show ?thesis by simp
  qed
  show "iprev (M (At b)) = At a"
  proof (cases xs)
    case Nil
    with assms show ?thesis by (simp add: bring_def dlist_def)
  next
    case (Cons x xs')
    then have "dlist (bh M) (At x) (map At (xs' @ [a]) @ At b # map At ys)" using assms by (simp add: bring_def)
    from dlist_around(2) [OF this] show ?thesis by simp
  qed
qed

lemma bring_ends:
  assumes "bring M bs"
  shows "iprev (M (At (hd bs))) = At (last bs)"
  using assms linked_last [of "bh M" "At (hd bs)" "map At (tl bs)" "At (hd bs)"]
  by (cases bs) (auto simp: bring_def dlist_def last_map)

definition join :: "rt_uint32 \<Rightarrow> rt_uint32 \<Rightarrow> items \<Rightarrow> items" where
  "join a c M = (let M1 = M(At a := (M (At a))\<lparr>inext := At c\<rparr>) in M1(At c := (M1 (At c))\<lparr>iprev := At a\<rparr>))"

lemma join_fields [simp]:
  "magic (join a c M p) = magic (M p)" "pool_ptr (join a c M p) = pool_ptr (M p)"
  "same_free M (join a c M)" "p \<noteq> At a \<Longrightarrow> p \<noteq> At c \<Longrightarrow> join a c M p = M p"
  by (auto simp: join_def same_free_def Let_def)

lemma last_hd_map: "last (At x # map At xs) = At (last (x # xs))" "hd (map At (y # ys) @ [z]) = At y"
  by (simp_all add: last_map)

lemma front_split:
  obtains l us where "\<And>zs. xs @ a # zs = l # us @ zs" and "last (l # us) = a"
  by (cases xs) (simp, fastforce)

lemma bring_join:
  assumes "bring M (xs @ a # b # c # ys)"
  shows "bring (join a c M) (xs @ a # c # ys)"
proof -
  obtain l us where l: "\<And>zs. xs @ a # zs = l # us @ zs" "last (l # us) = a" by (rule front_split [of xs a]) blast
  have dist: "distinct (xs @ a # b # c # ys)" using bring_distinct [OF assms] .
  have "dlist (bh M) (At l) (map At us @ At b # map At (c # ys))" using assms by (simp add: bring_def l(1))
  then have "dlist (bh (join a c M)) (At l) (map At us @ map At (c # ys))"
    by (rule dlist_bypass) (use dist in \<open>auto simp: last_hd_map l(2) join_def Let_def simp del: last.simps list.map\<close>)
  then show ?thesis by (simp add: bring_def l(1))
qed

lemma merge_right_join:
  assumes "bring M (xs @ a # b # c # ys)"
  shows "merge_right (At a) (At b) M = Some (join a c M)" and "block_remove (At b) M = Some (join a c M)"
proof -
  have n: "inext (M (At b)) = At c" "iprev (M (At b)) = At a"
    using bring_pair [of M "xs @ [a]" b c ys] bring_pair [of M xs a b "c # ys"] assms by simp_all
  have d: "a \<noteq> b" "b \<noteq> c" "a \<noteq> c" using bring_distinct [OF assms] by auto
  show "merge_right (At a) (At b) M = Some (join a c M)" "block_remove (At b) M = Some (join a c M)"
    using n d by (simp_all add: merge_right_def block_remove_def ld_def st_def join_def fun_upd_twist Let_def)
qed

lemma new_item_ok:
  assumes b: "bring M (xs @ a # b # ys)" and n: "n \<notin> set (xs @ a # b # ys)"
  shows "\<exists>M'. new_item h (At a) (At n) M = Some M' \<and> bring M' (xs @ a # n # b # ys) \<and> same_free M M'
    \<and> magic (M' (At n)) = RT_MEMHEAP_MAGIC \<and> pool_ptr (M' (At n)) = h
    \<and> (\<forall>q. q \<noteq> At n \<longrightarrow> magic (M' q) = magic (M q) \<and> pool_ptr (M' q) = pool_ptr (M q))
    \<and> (\<forall>q. q \<notin> {At a, At n, At b} \<longrightarrow> M' q = M q)"
proof -
  obtain l us where l: "\<And>zs. xs @ a # zs = l # us @ zs" "last (l # us) = a" by (rule front_split [of xs a]) blast
  have ne: "a \<noteq> b" "n \<noteq> a" "n \<noteq> b" using bring_distinct [OF b] n by auto
  have ab: "inext (M (At a)) = At b" using bring_pair(1) [OF b] .
  define M1 where "M1 = M(At n := (M (At n))\<lparr>magic := RT_MEMHEAP_MAGIC, pool_ptr := h, iprev := At a, inext := At b\<rparr>)"
  define M2 where "M2 = M1(At b := (M1 (At b))\<lparr>iprev := At n\<rparr>)"
  define M3 where "M3 = M2(At a := (M2 (At a))\<lparr>inext := At n\<rparr>)"
  have r: "new_item h (At a) (At n) M = Some M3"
    using ne ab by (simp add: new_item_def ld_def st_def M3_def M2_def M1_def)
  have "dlist (link (At a) (At n) (At b) (bh M)) (At l) (map At us @ At n # map At (b # ys))"
    using dlist_link [of "bh M" "At l" "map At us" "map At (b # ys)" "At n"] b n
    unfolding bring_def l(1) by (auto simp: last_hd_map l(2) simp del: last.simps)
  moreover have "lnext (bh M3) x = lnext (link (At a) (At n) (At b) (bh M)) x"
    "lprev (bh M3) x = lprev (link (At a) (At n) (At b) (bh M)) x" for x
    using ne by (auto simp: M3_def M2_def M1_def link_def)
  ultimately have "bring M3 (xs @ a # n # b # ys)"
    using dlist_cong [of "At l" "map At us @ At n # map At (b # ys)" "bh M3"] by (simp add: bring_def l(1))
  moreover have "same_free M M3" by (simp add: same_free_def M3_def M2_def M1_def)
  ultimately show ?thesis using r ne by (auto simp: M3_def M2_def M1_def)
qed

section \<open>The layout of the memory\<close>

definition is_free :: "items \<Rightarrow> rt_uint32 \<Rightarrow> bool" where
  "is_free M a \<longleftrightarrow> \<not> RT_MEMHEAP_IS_USED (M (At a))"

text \<open>Consecutive items leave room for an item and the smallest block.\<close>

fun chained :: "rt_uint32 list \<Rightarrow> bool" where
  "chained (a # b # bs) \<longleftrightarrow> unat a + 36 \<le> unat b \<and> chained (b # bs)"
| "chained _ \<longleftrightarrow> True"

definition gap :: "rt_uint32 \<Rightarrow> rt_uint32 \<Rightarrow> nat" where
  "gap a b = unat b - unat a - 24"

text \<open>The sum of the sizes of the free blocks, and that no two of them are neighbours.\<close>

fun room :: "(rt_uint32 \<Rightarrow> bool) \<Rightarrow> rt_uint32 list \<Rightarrow> nat" where
  "room F (a # b # bs) = (if F a then gap a b else 0) + room F (b # bs)"
| "room F _ = 0"

fun coalesced :: "(rt_uint32 \<Rightarrow> bool) \<Rightarrow> rt_uint32 list \<Rightarrow> bool" where
  "coalesced F (a # b # bs) \<longleftrightarrow> \<not> (F a \<and> F b) \<and> coalesced F (b # bs)"
| "coalesced F _ \<longleftrightarrow> True"

lemma chain_seam: "chained (xs @ a # ys) \<longleftrightarrow> chained (xs @ [a]) \<and> chained (a # ys)"
  by (induction xs rule: induct_list012) auto

lemma room_seam: "room F (xs @ a # ys) = room F (xs @ [a]) + room F (a # ys)"
  by (induction xs rule: induct_list012) auto

lemma coalesced_seam: "coalesced F (xs @ a # ys) \<longleftrightarrow> coalesced F (xs @ [a]) \<and> coalesced F (a # ys)"
  by (induction xs rule: induct_list012) auto

lemma room_cong: "(\<And>a. a \<in> set (butlast bs) \<Longrightarrow> F a = G a) \<Longrightarrow> room F bs = room G bs"
  by (induction bs rule: induct_list012) auto

lemma coalesced_cong: "(\<And>a. a \<in> set bs \<Longrightarrow> F a = G a) \<Longrightarrow> coalesced F bs = coalesced G bs"
  by (induction bs rule: induct_list012) auto

lemma coalesced_mono: "coalesced F bs \<Longrightarrow> (\<And>a. a \<in> set bs \<Longrightarrow> G a \<Longrightarrow> F a) \<Longrightarrow> coalesced G bs"
  by (induction bs rule: induct_list012) auto

lemma chain_less: "chained (a # bs) \<Longrightarrow> b \<in> set bs \<Longrightarrow> unat a + 36 \<le> unat b"
  by (induction bs arbitrary: a) (auto, fastforce)

lemma chain_mid:
  assumes "chained (xs @ a # ys)"
  shows "x \<in> set xs \<Longrightarrow> unat x + 36 \<le> unat a" and "y \<in> set ys \<Longrightarrow> unat a + 36 \<le> unat y"
proof -
  show "unat a + 36 \<le> unat y" if "y \<in> set ys" using assms that chain_less [of a ys y] chain_seam [of xs a ys] by simp
  show "unat x + 36 \<le> unat a" if x: "x \<in> set xs"
  proof -
    obtain us vs where "xs = us @ x # vs" using split_list [OF x] by blast
    then show ?thesis using assms chain_seam [of us x "vs @ a # ys"] chain_less [of x "vs @ a # ys" a] by simp
  qed
qed

lemma room_le: "chained (a # bs) \<Longrightarrow> room F (a # bs) \<le> unat (last (a # bs)) - unat a"
proof (induction bs arbitrary: a)
  case (Cons b bs)
  then have ab: "unat a + 36 \<le> unat b" "room F (b # bs) \<le> unat (last (b # bs)) - unat b" by simp_all
  have "unat b \<le> unat (last (b # bs))" using Cons.prems chain_less [of b bs "last bs"] by (cases "bs = []") auto
  with ab show ?case by (auto simp: gap_def simp del: last.simps) (simp_all add: last_ConsR)
qed simp

lemma member_pair:
  assumes "a \<in> set bs" and "a \<noteq> last bs"
  obtains xs b ys where "bs = xs @ a # b # ys"
proof -
  obtain xs zs where "bs = xs @ a # zs" using split_list [OF assms(1)] by blast
  with assms(2) show ?thesis by (cases zs) (auto intro: that)
qed

lemma memheap_size [simp]: "RT_MEMHEAP_SIZE = 24"
  by (simp add: RT_MEMHEAP_SIZE_def RT_ALIGN_def RT_ALIGN_SIZE_def)

lemma gap_word:
  assumes "unat a + 24 \<le> unat b"
  shows "b - a - 24 = word_of_nat (gap a b)" and "unat (b - a - 24) = gap a b"
proof -
  have "unat (b - a) = unat b - unat a" using assms by (subst unat_sub) (simp_all add: word_le_nat_alt)
  then have "unat (b - a - 24) = unat b - unat a - 24" using assms by (subst unat_sub) (simp_all add: word_le_nat_alt)
  then show g: "unat (b - a - 24) = gap a b" by (simp add: gap_def)
  have "word_of_nat (unat (b - a - 24)) = b - a - 24" by simp
  then show "b - a - 24 = word_of_nat (gap a b)" unfolding g by (rule sym)
qed

lemma item_size:
  assumes "bring M (xs @ a # b # ys)" and "unat a + 24 \<le> unat b"
  shows "MEMITEM_SIZE (At a) M = Some (word_of_nat (gap a b))"
  using bring_pair(1) [OF assms(1)] gap_word(1) [OF assms(2)] by (simp add: MEMITEM_SIZE_def ld_def)

section \<open>The invariant\<close>

definition blocks_ok :: "nat \<Rightarrow> rt_memheap \<Rightarrow> items \<Rightarrow> rt_uint32 list \<Rightarrow> bool" where
  "blocks_ok h x M bs \<longleftrightarrow> bring M bs \<and> chained bs \<and> start_addr x = hd bs \<and> block_list x = At (hd bs) \<and> free_list x = FreeHeader h
     \<and> 0 < unat (hd bs) \<and> (\<forall>a\<in>set bs. 4 dvd unat a) \<and> unat (last bs) + 24 = unat (hd bs) + unat (pool_size x) \<and> unat (last bs) + 24 \<le> 2 ^ 32
     \<and> (\<forall>a\<in>set bs. magic (M (At a)) AND RT_MEMHEAP_MASK = RT_MEMHEAP_MAGIC \<and> pool_ptr (M (At a)) = h)
     \<and> \<not> is_free M (last bs)"

definition free_ok :: "nat \<Rightarrow> items \<Rightarrow> rt_uint32 set \<Rightarrow> rt_uint32 list \<Rightarrow> bool" where
  "free_ok h M G fs \<longleftrightarrow> dlist (fh M) (FreeHeader h) (map At fs) \<and> set fs = G"

definition size_ok :: "rt_memheap \<Rightarrow> items \<Rightarrow> rt_uint32 list \<Rightarrow> bool" where
  "size_ok x M bs \<longleftrightarrow> available_size x = word_of_nat (room (is_free M) bs) \<and> pool_size x - available_size x \<le> max_used_size x"

definition memheap_ok :: "nat \<Rightarrow> rt_memheap \<Rightarrow> items \<Rightarrow> rt_uint32 list \<Rightarrow> bool" where
  "memheap_ok h x M bs \<longleftrightarrow> blocks_ok h x M bs \<and> (\<exists>fs. free_ok h M {a \<in> set bs. is_free M a} fs) \<and> size_ok x M bs
     \<and> coalesced (is_free M) bs"

definition only :: "nat \<Rightarrow> rt_uint32 set \<Rightarrow> items \<Rightarrow> items \<Rightarrow> bool" where
  "only h A M M' \<longleftrightarrow> (\<forall>q. q \<notin> insert (FreeHeader h) (At ` A) \<longrightarrow> M' q = M q)"

lemma only_trans: "only h A M M1 \<Longrightarrow> only h A M1 M2 \<Longrightarrow> only h A M M2"
  by (simp add: only_def)

lemma only_refl [simp]: "only h A M M"
  by (simp add: only_def)

lemma onlyI: "(\<And>q. q \<notin> X \<Longrightarrow> M' q = M q) \<Longrightarrow> X \<subseteq> insert (FreeHeader h) (At ` A) \<Longrightarrow> only h A M M'"
  unfolding only_def by blast

lemma only_upd: "a \<in> A \<Longrightarrow> only h A M (M(At a := i))"
  by (auto simp: only_def)

lemma heap_fields [simp]:
  "blocks_ok h (x\<lparr>available_size := v\<rparr>) M bs = blocks_ok h x M bs"
  "blocks_ok h (set_available v x) M bs = blocks_ok h x M bs"
  "free_list (set_available v x) = free_list x" "lock (set_available v x) = lock x"
  "pool_size (set_available v x) = pool_size x" "available_size (set_available v x) = v"
  by (simp_all add: blocks_ok_def set_available_def Let_def)

lemma set_available_max: "pool_size x - v \<le> max_used_size (set_available v x)"
  by (simp add: set_available_def Let_def not_less)

lemma same_blocks_is_free: "same_blocks M M' \<Longrightarrow> is_free M' = is_free M"
  by (auto simp: same_blocks_def is_free_def RT_MEMHEAP_IS_USED_def)

lemma same_blocks_ok: "same_blocks M M' \<Longrightarrow> blocks_ok h x M' bs = blocks_ok h x M bs"
  using same_blocks_is_free [of M M'] same_blocks_dlist [of M M']
  by (simp add: blocks_ok_def bring_def) (simp add: same_blocks_def)

lemma same_free_ok: "same_free M M' \<Longrightarrow> free_ok h M' G fs = free_ok h M G fs"
  using same_free_dlist [of M M'] by (simp add: free_ok_def)

lemma same_blocks_trans: "same_blocks M M1 \<Longrightarrow> same_blocks M1 M2 \<Longrightarrow> same_blocks M M2"
  by (simp add: same_blocks_def)

lemma free_ok_remove:
  assumes f: "free_ok h M G fs" and a: "a \<in> G" and A: "G \<subseteq> A"
  shows "\<exists>M' fs'. free_remove (At a) M = Some M' \<and> free_ok h M' (G - {a}) fs' \<and> same_blocks M M' \<and> only h A M M'"
proof -
  obtain ys zs where fs: "fs = ys @ a # zs" using f a split_list [of a fs] by (auto simp: free_ok_def)
  have d: "dlist (fh M) (FreeHeader h) (map At ys @ At a # map At zs)" and G: "G = set (ys @ a # zs)"
    using f fs by (simp_all add: free_ok_def)
  then have "distinct (ys @ a # zs)" by (auto simp: dlist_def distinct_map)
  then have G': "G - {a} = set (ys @ zs)" using G by auto
  have "NullItem \<notin> set (FreeHeader h # map At ys @ At a # map At zs)" by auto
  from free_remove_ok [OF d this] obtain M' where M': "free_remove (At a) M = Some M'"
    "dlist (fh M') (FreeHeader h) (map At ys @ map At zs)" "same_blocks M M'"
    "\<forall>q. q \<notin> set (FreeHeader h # map At ys @ At a # map At zs) \<longrightarrow> M' q = M q" by blast
  have "only h A M M'"
    by (rule onlyI [of "set (FreeHeader h # map At ys @ At a # map At zs)"]) (use M'(4) G A in auto)
  with M'(1-3) G' show ?thesis by (intro exI [of _ M'] exI [of _ "ys @ zs"]) (simp add: free_ok_def)
qed

lemma free_ok_insert:
  assumes f: "free_ok h M G fs" and a: "a \<notin> G" and A: "insert a G \<subseteq> A"
  shows "\<exists>M'. free_insert (FreeHeader h) (At a) M = Some M' \<and> free_ok h M' (insert a G) (a # fs) \<and> same_blocks M M' \<and> only h A M M'"
proof -
  have d: "dlist (fh M) (FreeHeader h) (map At fs)" and G: "G = set fs" using f by (simp_all add: free_ok_def)
  have new: "At a \<notin> set (FreeHeader h # map At fs)" using a G by auto
  have "NullItem \<notin> set (At a # FreeHeader h # map At fs)" by auto
  from free_insert_ok [OF d new this] obtain M' where M': "free_insert (FreeHeader h) (At a) M = Some M'"
    "dlist (fh M') (FreeHeader h) (At a # map At fs)" "same_blocks M M'"
    "\<forall>q. q \<notin> set (At a # FreeHeader h # map At fs) \<longrightarrow> M' q = M q" by blast
  have "only h A M M'"
    by (rule onlyI [of "set (At a # FreeHeader h # map At fs)"]) (use M'(4) G A in auto)
  with M'(1-3) G show ?thesis by (intro exI [of _ M']) (simp add: free_ok_def)
qed

lemma free_ok_null:
  assumes f: "free_ok h M G fs" and a: "a \<notin> G"
  defines "M' \<equiv> M(At a := (M (At a))\<lparr>next_free := NullItem, prev_free := NullItem\<rparr>)"
  shows "free_ok h M' G fs" and "same_blocks M M'"
proof -
  have "dlist (fh M') (FreeHeader h) (map At fs) = dlist (fh M) (FreeHeader h) (map At fs)"
    by (rule dlist_cong) (use f a in \<open>auto simp: free_ok_def M'_def\<close>)
  with f show "free_ok h M' G fs" by (simp add: free_ok_def)
  show "same_blocks M M'" by (simp add: same_blocks_def M'_def)
qed

lemma take_out_ok:
  assumes f: "free_ok h M G fs" and a: "a \<in> G" and A: "G \<subseteq> A"
  shows "\<exists>M' fs'. take_out (At a) M = Some M' \<and> free_ok h M' (G - {a}) fs' \<and> same_blocks M M' \<and> only h A M M'"
proof -
  obtain M1 fs' where M1: "free_remove (At a) M = Some M1" "free_ok h M1 (G - {a}) fs'" "same_blocks M M1" "only h A M M1"
    using free_ok_remove [OF assms] by blast
  define M2 where "M2 = M1(At a := (M1 (At a))\<lparr>next_free := NullItem, prev_free := NullItem\<rparr>)"
  have "take_out (At a) M = Some M2" using M1(1) by (simp add: take_out_def st_def M2_def)
  moreover have "free_ok h M2 (G - {a}) fs'" "same_blocks M1 M2"
    using free_ok_null [OF M1(2), of a] by (simp_all add: M2_def)
  moreover have "only h A M1 M2" unfolding M2_def by (rule only_upd) (use a A in auto)
  ultimately show ?thesis using M1(3,4) by (blast intro: same_blocks_trans only_trans)
qed

section \<open>Changes of the ring\<close>

lemma blocks_ok_new:
  assumes b: "blocks_ok h x M (xs @ a # b # ys)" and n: "unat a + 36 \<le> unat n" "unat n + 36 \<le> unat b" "4 dvd unat n"
    and A: "set (xs @ a # n # b # ys) \<subseteq> A"
  shows "\<exists>M'. new_item h (At a) (At n) M = Some M' \<and> blocks_ok h x M' (xs @ a # n # b # ys) \<and> same_free M M'
    \<and> is_free M' = (is_free M)(n := True) \<and> only h A M M'"
proof -
  let ?bs = "xs @ a # b # ys" and ?bs' = "xs @ a # n # b # ys"
  have ring: "bring M ?bs" and ch: "chained ?bs" using b by (simp_all add: blocks_ok_def)
  have nin: "n \<notin> set ?bs"
    using chain_mid [OF ch] chain_mid(2) [of "xs @ [a]" b ys] ch n by fastforce
  from new_item_ok [OF ring nin] obtain M' where M': "new_item h (At a) (At n) M = Some M'" "bring M' ?bs'" "same_free M M'"
    "magic (M' (At n)) = RT_MEMHEAP_MAGIC" "pool_ptr (M' (At n)) = h"
    "\<forall>q. q \<noteq> At n \<longrightarrow> magic (M' q) = magic (M q) \<and> pool_ptr (M' q) = pool_ptr (M q)"
    "\<forall>q. q \<notin> {At a, At n, At b} \<longrightarrow> M' q = M q" by blast
  have fr: "is_free M' = (is_free M)(n := True)"
    using M'(4,6) by (auto simp: fun_eq_iff is_free_def RT_MEMHEAP_IS_USED_def)
  have ch': "chained ?bs'" using ch n chain_seam [of xs a "b # ys"] chain_seam [of xs a "n # b # ys"] by simp
  have ends: "hd ?bs' = hd ?bs" "last ?bs' = last ?bs" by (cases xs; simp)+
  have "last ?bs \<noteq> n" using nin by (metis last_in_set list.distinct(1) append_is_Nil_conv)
  moreover have "magic (M' (At y)) AND RT_MEMHEAP_MASK = RT_MEMHEAP_MAGIC \<and> pool_ptr (M' (At y)) = h" if "y \<in> set ?bs'" for y
    using that b M'(4,5,6) by (cases "y = n") (auto simp: blocks_ok_def)
  moreover have "\<forall>y\<in>set ?bs'. 4 dvd unat y" using b n(3) by (auto simp: blocks_ok_def)
  ultimately have "blocks_ok h x M' ?bs'" using b M'(2) ch' unfolding blocks_ok_def ends fr by auto
  moreover have "only h A M M'" using M'(7) A by (auto simp: only_def)
  ultimately show ?thesis using M'(1,3) fr by blast
qed

lemma blocks_ok_join:
  assumes b: "blocks_ok h x M (xs @ a # b # c # ys)"
  shows "blocks_ok h x (join a c M) (xs @ a # c # ys)" and "is_free (join a c M) = is_free M"
proof -
  let ?bs = "xs @ a # b # c # ys" and ?bs' = "xs @ a # c # ys"
  show fr: "is_free (join a c M) = is_free M" by (auto simp: fun_eq_iff is_free_def RT_MEMHEAP_IS_USED_def)
  have "bring (join a c M) ?bs'" by (rule bring_join [of M xs a b]) (use b in \<open>simp add: blocks_ok_def\<close>)
  moreover have "chained ?bs'" using b chain_seam [of xs a "b # c # ys"] chain_seam [of xs a "c # ys"] by (simp add: blocks_ok_def)
  moreover have "hd ?bs' = hd ?bs" "last ?bs' = last ?bs" by (cases xs; simp)+
  ultimately show "blocks_ok h x (join a c M) ?bs'" using b unfolding blocks_ok_def fr by auto
qed

lemma only_join: "{a, c} \<subseteq> A \<Longrightarrow> only h A M (join a c M)"
  by (auto simp: only_def join_def Let_def)

text \<open>Marking a block as used or free.\<close>

definition mark :: "rt_uint32 \<Rightarrow> bool \<Rightarrow> items \<Rightarrow> items" where
  "mark a u M = M(At a := (M (At a))\<lparr>magic := (if u then magic (M (At a)) OR RT_MEMHEAP_USED
     else magic (M (At a)) AND NOT RT_MEMHEAP_USED)\<rparr>)"

lemma used_bit: "RT_MEMHEAP_IS_USED i \<longleftrightarrow> bit (magic i) 0"
  by (auto simp: RT_MEMHEAP_IS_USED_def and_one_eq odd_iff_mod_2_eq_one bit_0)

lemma mark_magic:
  "(y OR RT_MEMHEAP_USED) AND RT_MEMHEAP_MASK = y AND RT_MEMHEAP_MASK"
  "(y AND NOT RT_MEMHEAP_USED) AND RT_MEMHEAP_MASK = y AND RT_MEMHEAP_MASK" for y :: rt_uint32
proof -
  have "RT_MEMHEAP_MASK = (NOT 1 :: rt_uint32)" by simp
  then show "(y OR RT_MEMHEAP_USED) AND RT_MEMHEAP_MASK = y AND RT_MEMHEAP_MASK"
    "(y AND NOT RT_MEMHEAP_USED) AND RT_MEMHEAP_MASK = y AND RT_MEMHEAP_MASK"
    by (simp_all only:) (rule bit_word_eqI; auto simp: bit_simps)+
qed

lemma mark_ok:
  assumes b: "blocks_ok h x M bs" and a: "a \<noteq> last bs"
  shows "blocks_ok h x (mark a u M) bs" and "is_free (mark a u M) = (is_free M)(a := \<not> u)" and "same_free M (mark a u M)"
proof -
  show fr: "is_free (mark a u M) = (is_free M)(a := \<not> u)" by (auto simp: fun_eq_iff is_free_def mark_def used_bit bit_simps)
  have "dlist (bh (mark a u M)) l ys = dlist (bh M) l ys" for l ys by (rule dlist_cong) (auto simp: mark_def)
  then have "bring (mark a u M) bs = bring M bs" by (simp add: bring_def)
  with b a show "blocks_ok h x (mark a u M) bs"
    unfolding blocks_ok_def fr by (auto simp: mark_def mark_magic mark_magic(2) [simplified])
  show "same_free M (mark a u M)" by (auto simp: same_free_def mark_def)
qed

lemma only_mark: "a \<in> A \<Longrightarrow> only h A M (mark a u M)"
  by (auto simp: only_def mark_def)

section \<open>The search\<close>

lemma find_free_ok:
  assumes "linked (fh M) q (map At zs) (FreeHeader h)"
    and "\<And>a. a \<in> set zs \<Longrightarrow> MEMITEM_SIZE (At a) M = Some (sz a)" and "fsize < want"
  shows "\<exists>p f. find_free (FreeHeader h) want M (hd (map At zs @ [FreeHeader h])) fsize = Some (p, f)
    \<and> (if \<exists>a\<in>set zs. want \<le> sz a then \<exists>a\<in>set zs. p = At a \<and> f = sz a \<and> want \<le> f else f < want)"
  using assms
proof (induction zs arbitrary: q fsize)
  case Nil
  then show ?case by (subst find_free.simps) simp
next
  case (Cons a zs)
  have a: "MEMITEM_SIZE (At a) M = Some (sz a)" and nx: "next_free (M (At a)) = hd (map At zs @ [FreeHeader h])"
    and l: "linked (fh M) (At a) (map At zs) (FreeHeader h)"
    using Cons.prems linked_first [of "fh M" "At a" "map At zs" "FreeHeader h"] by auto
  show ?case
  proof (cases "sz a < want")
    case True
    from Cons.IH [OF l _ True] Cons.prems(2) obtain p f where
      "find_free (FreeHeader h) want M (hd (map At zs @ [FreeHeader h])) (sz a) = Some (p, f)"
      "if \<exists>a\<in>set zs. want \<le> sz a then \<exists>a\<in>set zs. p = At a \<and> f = sz a \<and> want \<le> f else f < want" by auto
    moreover have "find_free (FreeHeader h) want M (At a) fsize
        = find_free (FreeHeader h) want M (hd (map At zs @ [FreeHeader h])) (sz a)"
      using a nx True Cons.prems(3) by (subst find_free.simps) (simp add: ld_def)
    ultimately show ?thesis using True by (auto simp: not_le)
  next
    case False
    then have "find_free (FreeHeader h) want M (At a) (sz a) = Some (At a, sz a)" by (subst find_free.simps) simp
    then have "find_free (FreeHeader h) want M (At a) fsize = Some (At a, sz a)"
      using a False Cons.prems(3) by (subst find_free.simps) simp
    with False show ?thesis by auto
  qed
qed

section \<open>The blocks in use\<close>

text \<open>The blocks in use, by the address that was returned and the length.\<close>

fun live :: "(rt_uint32 \<Rightarrow> bool) \<Rightarrow> rt_uint32 list \<Rightarrow> (rt_uint32 \<times> nat) set" where
  "live F (a # b # bs) = (if F a then {} else {(a + 24, gap a b)}) \<union> live F (b # bs)"
| "live F _ = {}"

lemma live_seam: "live F (xs @ a # ys) = live F (xs @ [a]) \<union> live F (a # ys)"
  by (induction xs rule: induct_list012) auto

lemma live_cong: "(\<And>a. a \<in> set (butlast bs) \<Longrightarrow> F a = G a) \<Longrightarrow> live F bs = live G bs"
  by (induction bs rule: induct_list012) auto

lemma live_pair: "(p, n) \<in> live F bs \<Longrightarrow> \<exists>xs a b ys. bs = xs @ a # b # ys \<and> \<not> F a \<and> p = a + 24 \<and> n = gap a b"
proof (induction F bs rule: live.induct)
  case (1 F a b bs)
  show ?case
  proof (cases "(p, n) \<in> live F (b # bs)")
    case True
    from 1(1) [OF this] obtain xs c d ys where "b # bs = xs @ c # d # ys" "\<not> F c" "p = c + 24" "n = gap c d" by blast
    then show ?thesis by (intro exI [of _ "a # xs"] exI [of _ c] exI [of _ d] exI [of _ ys]) simp
  next
    case False
    with 1(2) have "\<not> F a" "p = a + 24" "n = gap a b" by (auto split: if_splits)
    then show ?thesis by (intro exI [of _ "[]"] exI [of _ a] exI [of _ b] exI [of _ bs]) simp
  qed
qed simp_all

lemma mid_cong:
  assumes "\<And>x. x \<in> set xs \<union> set (b # ys) \<Longrightarrow> G x = F x"
  shows "room G (xs @ [a]) = room F (xs @ [a])" "room G (b # ys) = room F (b # ys)"
    and "live G (xs @ [a]) = live F (xs @ [a])" "live G (b # ys) = live F (b # ys)"
proof -
  have 1: "x \<in> set (butlast (xs @ [a])) \<Longrightarrow> G x = F x" and 2: "x \<in> set (butlast (b # ys)) \<Longrightarrow> G x = F x" for x
    using assms [of x] in_set_butlastD [of x "b # ys"] by auto
  show "room G (xs @ [a]) = room F (xs @ [a])" by (rule room_cong) (rule 1)
  show "room G (b # ys) = room F (b # ys)" by (rule room_cong) (rule 2)
  show "live G (xs @ [a]) = live F (xs @ [a])" by (rule live_cong) (rule 1)
  show "live G (b # ys) = live F (b # ys)" by (rule live_cong) (rule 2)
qed

text \<open>Used blocks are apart from each other and inside the memory of the heap.\<close>

lemma chain_next_le:
  assumes ch: "chained (xs @ a # b # ys)" and c: "c \<in> set (xs @ a # b # ys)" and ac: "unat a < unat c"
  shows "unat b \<le> unat c"
proof -
  have "c \<notin> set xs" using chain_mid(1) [OF ch, of c] ac by auto
  with c ac have "c = b \<or> c \<in> set ys" by auto
  then show ?thesis using chain_mid(2) [of "xs @ [a]" b ys c] ch by auto
qed

lemma live_bounds:
  assumes ch: "chained bs" and p: "(p, n) \<in> live F bs"
  obtains xs a b ys where "bs = xs @ a # b # ys" and "\<not> F a" and "p = a + 24" and "n = gap a b"
    and "unat p = unat a + 24" and "unat b = unat p + n" and "12 \<le> n"
proof -
  obtain xs a b ys where a: "bs = xs @ a # b # ys" "\<not> F a" "p = a + 24" "n = gap a b" using live_pair [OF p] by blast
  have ab: "unat a + 36 \<le> unat b" using ch chain_mid(2) [of xs a "b # ys" b] a by simp
  then have "unat p = unat a + 24" using unsigned_less [of b, where ?'a = nat] a(3) by (simp add: unat_word_ariths)
  with a ab show ?thesis by (intro that [of xs a b ys]) (auto simp: gap_def)
qed

lemma live_apart:
  assumes ch: "chained bs" and p: "(p, n) \<in> live F bs" and q: "(q, m) \<in> live F bs" and ne: "p \<noteq> q"
  shows "unat p + n + 24 \<le> unat q \<or> unat q + m + 24 \<le> unat p"
proof -
  obtain xs a b ys where a: "bs = xs @ a # b # ys" "p = a + 24" "unat p = unat a + 24" "unat b = unat p + n"
    by (rule live_bounds [OF ch p])
  obtain us c d vs where c: "bs = us @ c # d # vs" "q = c + 24" "unat q = unat c + 24" "unat d = unat q + m"
    by (rule live_bounds [OF ch q])
  have "a \<noteq> c" using ne a(2) c(2) by auto
  then consider "unat a < unat c" | "unat c < unat a" by (metis linorder_less_linear word_unat_eq_iff)
  then show ?thesis
  proof cases
    case 1
    have "c \<in> set (xs @ a # b # ys)" using a(1) c(1) by (metis in_set_conv_decomp)
    then have "unat b \<le> unat c" using chain_next_le [of xs a b ys c] ch a(1) 1 by simp
    with a c show ?thesis by simp
  next
    case 2
    have "a \<in> set (us @ c # d # vs)" using a(1) c(1) by (metis in_set_conv_decomp)
    then have "unat d \<le> unat a" using chain_next_le [of us c d vs a] ch c(1) 2 by simp
    with a c show ?thesis by simp
  qed
qed

lemma live_inside:
  assumes ch: "chained bs" and p: "(p, n) \<in> live F bs"
  shows "unat (hd bs) + 24 \<le> unat p" and "unat p + n \<le> unat (last bs)"
proof -
  obtain xs a b ys where a: "bs = xs @ a # b # ys" "unat p = unat a + 24" "unat b = unat p + n"
    by (rule live_bounds [OF ch p])
  show "unat (hd bs) + 24 \<le> unat p" using a(2) chain_mid(1) [of xs a "b # ys" "hd xs"] ch a(1) by (cases xs) auto
  have "unat b \<le> unat (last bs)" using chain_mid(2) [of "xs @ [a]" b ys "last ys"] ch a(1) by (cases "ys = []") auto
  with a(3) show "unat p + n \<le> unat (last bs)" by simp
qed

section \<open>Allocation\<close>

definition region :: "rt_uint32 list \<Rightarrow> rt_uint32 set" where
  "region bs = {a. unat (hd bs) \<le> unat a \<and> unat a \<le> unat (last bs)}"

text \<open>What an operation on heap \<open>h\<close> leaves as it is.\<close>

definition frame :: "nat \<Rightarrow> rt_uint32 set \<Rightarrow> mstate \<Rightarrow> mstate \<Rightarrow> bool" where
  "frame h A S S' \<longleftrightarrow> mkern S' = mkern S \<and> mbytes S' = mbytes S \<and> (\<forall>k. k \<noteq> h \<longrightarrow> heaps S' k = heaps S k)
     \<and> lock (heaps S' h) = lock (heaps S h) \<and> only h A (items S) (items S')"

lemma frame_trans: "frame h A S S1 \<Longrightarrow> frame h A S1 S2 \<Longrightarrow> frame h A S S2"
  by (auto simp: frame_def intro: only_trans)

lemma chain_region: "chained bs \<Longrightarrow> set bs \<subseteq> region bs"
proof
  fix c assume ch: "chained bs" and c: "c \<in> set bs"
  then obtain xs ys where bs: "bs = xs @ c # ys" by (meson split_list)
  have "unat (hd bs) \<le> unat c" using chain_mid(1) [of xs c ys "hd xs"] ch bs by (cases xs) auto
  moreover have "unat c \<le> unat (last bs)" using chain_mid(2) [of xs c ys "last ys"] ch bs by (cases "ys = []") auto
  ultimately show "c \<in> region bs" by (simp add: region_def)
qed

lemma blocks_distinct: "blocks_ok h x M bs \<Longrightarrow> distinct bs"
  by (auto simp: blocks_ok_def intro: bring_distinct)

lemma split_ok:
  fixes S :: mstate and h :: nat
  defines "M \<equiv> items S" and "x \<equiv> heaps S h"
  assumes b: "blocks_ok h x M (xs @ a # b # ys)" and f: "free_ok h M {y \<in> set (xs @ a # b # ys). is_free M y} fs"
    and s: "size_ok x M (xs @ a # b # ys)" and c: "coalesced (is_free M) (xs @ a # b # ys)"
    and a: "is_free M a" and sz: "12 \<le> unat sz" "4 dvd unat sz" "unat sz + 36 \<le> gap a b"
  defines "n \<equiv> a + sz + 24"
  shows "\<exists>S1. split_off h (At a) sz S = Some S1 \<and> frame h (region (xs @ a # b # ys)) S S1
    \<and> memheap_ok h (heaps S1 h) (mark a True (items S1)) (xs @ a # n # b # ys)
    \<and> live (is_free (mark a True (items S1))) (xs @ a # n # b # ys) = insert (a + 24, unat sz) (live (is_free M) (xs @ a # b # ys))"
proof -
  let ?bs = "xs @ a # b # ys" and ?bs' = "xs @ a # n # b # ys" and ?F = "is_free M"
  let ?A = "region ?bs"
  have ch: "chained ?bs" and al: "4 dvd unat a" using b by (simp_all add: blocks_ok_def)
  have gb: "unat a + 24 + gap a b = unat b" "unat a < unat b" using chain_mid(2) [OF ch, of b] by (simp_all add: gap_def)
  have un: "unat n = unat a + unat sz + 24"
    using gb sz unsigned_less [of b, where ?'a = nat] by (simp add: n_def unat_word_ariths)
  have n: "unat a + 36 \<le> unat n" "unat n + 36 \<le> unat b" "4 dvd unat n" using un gb sz al by (auto simp: dvd_add)
  have in_A: "set ?bs \<subseteq> ?A" using chain_region [OF ch] .
  have nA: "n \<in> ?A" using in_A n by (auto simp: region_def)
  have nin: "n \<notin> set ?bs" using chain_mid [OF ch] chain_mid(2) [of "xs @ [a]" b ys] ch n by fastforce
  have fl: "free_list x = FreeHeader h" using b by (simp add: blocks_ok_def)
  have dist: "distinct ?bs" using blocks_distinct [OF b] .
  obtain M1 where M1: "new_item h (At a) (At n) M = Some M1" "blocks_ok h x M1 ?bs'" "same_free M M1"
    "is_free M1 = ?F(n := True)" "only h ?A M M1"
    using blocks_ok_new [OF b n, of ?A] in_A nA by auto
  let ?G = "{y \<in> set ?bs. ?F y}"
  have f1: "free_ok h M1 ?G fs" using same_free_ok [OF M1(3)] f by simp
  obtain M2 fs2 where M2: "take_out (At a) M1 = Some M2" "free_ok h M2 (?G - {a}) fs2" "same_blocks M1 M2" "only h ?A M1 M2"
    using take_out_ok [OF f1, of a ?A] a in_A by auto
  obtain M3 where M3: "free_insert (FreeHeader h) (At n) M2 = Some M3" "free_ok h M3 (insert n (?G - {a})) (n # fs2)"
    "same_blocks M2 M3" "only h ?A M2 M3"
    using free_ok_insert [OF M2(2), of n ?A] nin nA in_A by auto
  let ?S1 = "upd_heap h (\<lambda>x. set_available (available_size x - sz - 24) x) (S\<lparr>items := M3\<rparr>)"
  let ?M = "mark a True M3" and ?x = "set_available (available_size x - sz - 24) x"
  have r: "split_off h (At a) sz S = Some ?S1"
    using M1(1) M2(1) M3(1) fl by (simp add: split_off_def n_def M_def x_def add.assoc)
  have sb: "same_blocks M1 M3" using same_blocks_trans [OF M2(3) M3(3)] .
  have al': "a \<noteq> last ?bs'" using dist nin by auto
  have b3: "blocks_ok h x M3 ?bs'" using same_blocks_ok [OF sb] M1(2) by simp
  note mk = mark_ok [OF b3 al', of True]
  have F: "is_free ?M = ?F(n := True, a := False)" using mk(2) same_blocks_is_free [OF sb] M1(4) by simp
  have agree: "is_free ?M y = ?F y" if "y \<in> set xs \<union> set (b # ys)" for y using that F dist nin by auto
  have mid: "room (is_free ?M) (xs @ [a]) = room ?F (xs @ [a])" "room (is_free ?M) (b # ys) = room ?F (b # ys)"
    "live (is_free ?M) (xs @ [a]) = live ?F (xs @ [a])" "live (is_free ?M) (b # ys) = live ?F (b # ys)"
    by (rule mid_cong, erule agree)+
  have na: "n \<noteq> a" using nin by auto
  have gap: "gap a b = unat sz + 24 + gap n b" "gap a n = unat sz" using un gb sz by (simp_all add: gap_def)
  have rm: "room ?F ?bs = room (is_free ?M) ?bs' + unat sz + 24"
    using a F na gap mid(1,2) room_seam [of ?F xs a "b # ys"] room_seam [of "is_free ?M" xs a "n # b # ys"] by simp
  have lv: "live (is_free ?M) ?bs' = insert (a + 24, unat sz) (live ?F ?bs)"
    using a F na gap mid(3,4) live_seam [of ?F xs a "b # ys"] live_seam [of "is_free ?M" xs a "n # b # ys"] by auto
  have "free_ok h ?M {y \<in> set ?bs'. is_free ?M y} (n # fs2)"
  proof -
    have "{y \<in> set ?bs'. is_free ?M y} = insert n (?G - {a})" using F na dist nin by auto
    then show ?thesis using same_free_ok [OF mk(3)] M3(2) by simp
  qed
  moreover have "size_ok ?x ?M ?bs'"
    using s rm set_available_max [of x] by (simp add: size_ok_def)
  moreover have "coalesced (is_free ?M) ?bs'"
  proof -
    have "coalesced ?F (xs @ [a])" "\<not> ?F b" "coalesced ?F (b # ys)"
      using c coalesced_seam [of ?F xs a "b # ys"] a by simp_all
    moreover have "coalesced (is_free ?M) (xs @ [a])" by (rule coalesced_mono [OF calculation(1)]) (use F nin in \<open>auto split: if_splits\<close>)
    moreover have "coalesced (is_free ?M) (b # ys)" by (rule coalesced_mono [OF calculation(3)]) (use F nin in \<open>auto split: if_splits\<close>)
    ultimately show ?thesis using coalesced_seam [of "is_free ?M" xs a "n # b # ys"] agree F by simp
  qed
  ultimately have "memheap_ok h ?x ?M ?bs'" using mk(1) by (auto simp: memheap_ok_def)
  moreover have "frame h ?A S ?S1"
    using M1(5) M2(4) M3(4) by (auto simp: frame_def M_def intro: only_trans)
  ultimately show ?thesis using r lv by (intro exI [of _ ?S1]) (simp add: x_def)
qed

lemma whole_ok:
  fixes S :: mstate and h :: nat
  defines "M \<equiv> items S" and "x \<equiv> heaps S h"
  assumes b: "blocks_ok h x M (xs @ a # b # ys)" and f: "free_ok h M {y \<in> set (xs @ a # b # ys). is_free M y} fs"
    and s: "size_ok x M (xs @ a # b # ys)" and c: "coalesced (is_free M) (xs @ a # b # ys)"
    and a: "is_free M a"
  shows "\<exists>S1. take_whole h (At a) (word_of_nat (gap a b)) S = Some S1 \<and> frame h (region (xs @ a # b # ys)) S S1
    \<and> memheap_ok h (heaps S1 h) (mark a True (items S1)) (xs @ a # b # ys)
    \<and> live (is_free (mark a True (items S1))) (xs @ a # b # ys) = insert (a + 24, gap a b) (live (is_free M) (xs @ a # b # ys))"
proof -
  let ?bs = "xs @ a # b # ys" and ?F = "is_free M"
  let ?A = "region ?bs"
  have ch: "chained ?bs" using b by (simp add: blocks_ok_def)
  have in_A: "set ?bs \<subseteq> ?A" using chain_region [OF ch] .
  have dist: "distinct ?bs" using blocks_distinct [OF b] .
  let ?G = "{y \<in> set ?bs. ?F y}"
  obtain M2 fs2 where M2: "take_out (At a) M = Some M2" "free_ok h M2 (?G - {a}) fs2" "same_blocks M M2" "only h ?A M M2"
    using take_out_ok [OF f, of a ?A] a in_A by auto
  let ?x = "set_available (available_size x - word_of_nat (gap a b)) x" and ?M = "mark a True M2"
  let ?S1 = "(upd_heap h (\<lambda>x. set_available (available_size x - word_of_nat (gap a b)) x) S)\<lparr>items := M2\<rparr>"
  have r: "take_whole h (At a) (word_of_nat (gap a b)) S = Some ?S1"
    using M2(1) by (simp add: take_whole_def M_def Let_def)
  have b2: "blocks_ok h x M2 ?bs" using same_blocks_ok [OF M2(3)] b by simp
  have al: "a \<noteq> last ?bs" using dist by auto
  note mk = mark_ok [OF b2 al, of True]
  have F: "is_free ?M = ?F(a := False)" using mk(2) same_blocks_is_free [OF M2(3)] by simp
  have agree: "is_free ?M y = ?F y" if "y \<in> set xs \<union> set (b # ys)" for y using that F dist by auto
  have mid: "room (is_free ?M) (xs @ [a]) = room ?F (xs @ [a])" "room (is_free ?M) (b # ys) = room ?F (b # ys)"
    "live (is_free ?M) (xs @ [a]) = live ?F (xs @ [a])" "live (is_free ?M) (b # ys) = live ?F (b # ys)"
    by (rule mid_cong, erule agree)+
  have rm: "room ?F ?bs = room (is_free ?M) ?bs + gap a b"
    using a F mid(1,2) room_seam [of ?F xs a "b # ys"] room_seam [of "is_free ?M" xs a "b # ys"] by simp
  have lv: "live (is_free ?M) ?bs = insert (a + 24, gap a b) (live ?F ?bs)"
    using a F mid(3,4) live_seam [of ?F xs a "b # ys"] live_seam [of "is_free ?M" xs a "b # ys"] by auto
  have "{y \<in> set ?bs. is_free ?M y} = ?G - {a}" using F dist by auto
  then have "free_ok h ?M {y \<in> set ?bs. is_free ?M y} fs2" using same_free_ok [OF mk(3)] M2(2) by simp
  moreover have "size_ok ?x ?M ?bs" using s rm set_available_max [of x] by (simp add: size_ok_def)
  moreover have "coalesced (is_free ?M) ?bs" by (rule coalesced_mono [OF c]) (use F in \<open>auto split: if_splits\<close>)
  ultimately have "memheap_ok h ?x ?M ?bs" using mk(1) by (auto simp: memheap_ok_def)
  moreover have "frame h ?A S ?S1" using M2(4) by (simp add: frame_def M_def)
  ultimately show ?thesis using r lv by (intro exI [of _ ?S1]) (simp add: x_def)
qed

text \<open>A free block that is large enough.\<close>

definition fits :: "items \<Rightarrow> rt_uint32 list \<Rightarrow> nat \<Rightarrow> bool" where
  "fits M bs n \<longleftrightarrow> (\<exists>xs a b ys. bs = xs @ a # b # ys \<and> is_free M a \<and> n \<le> gap a b)"

lemma blocks_gap:
  assumes "blocks_ok h x M (xs @ a # b # ys)"
  shows "MEMITEM_SIZE (At a) M = Some (word_of_nat (gap a b))" and "unat (word_of_nat (gap a b) :: rt_uint32) = gap a b"
    and "12 \<le> gap a b" and "unat a + 24 + gap a b = unat b" and "unat b + 24 \<le> 2 ^ 32"
proof -
  show "unat b + 24 \<le> 2 ^ 32"
    using assms chain_region [of "xs @ a # b # ys"] by (auto simp: blocks_ok_def region_def split: if_splits)
  have r: "bring M (xs @ a # b # ys)" and ab: "unat a + 36 \<le> unat b"
    using assms chain_mid(2) [of xs a "b # ys" b] by (simp_all add: blocks_ok_def)
  show "MEMITEM_SIZE (At a) M = Some (word_of_nat (gap a b))" using item_size [OF r] ab by simp
  have "unat a + 24 \<le> unat b" using ab by simp
  note g = gap_word [OF this]
  show "unat (word_of_nat (gap a b) :: rt_uint32) = gap a b" using g(2) unfolding g(1) .
  show "12 \<le> gap a b" "unat a + 24 + gap a b = unat b" using ab by (simp_all add: gap_def)
qed

lemma free_block:
  assumes ok: "memheap_ok h x M bs" and a: "a \<in> set bs" "is_free M a"
  obtains xs b ys where "bs = xs @ a # b # ys"
proof -
  have "a \<noteq> last bs" using ok a(2) by (auto simp: memheap_ok_def blocks_ok_def)
  with a(1) show ?thesis by (rule member_pair) (rule that)
qed

lemma search_ok:
  assumes ok: "memheap_ok h x M bs" and sz: "0 < unat sz"
  shows "\<exists>p f. find_free (free_list x) sz M (next_free (M (FreeHeader h))) 0 = Some (p, f)
    \<and> (if fits M bs (unat sz) then \<exists>xs a b ys. bs = xs @ a # b # ys \<and> is_free M a \<and> p = At a
          \<and> f = word_of_nat (gap a b) \<and> unat sz \<le> gap a b else f < sz)"
proof -
  obtain fs where b: "blocks_ok h x M bs" and f: "free_ok h M {y \<in> set bs. is_free M y} fs"
    using ok by (auto simp: memheap_ok_def)
  have fl: "free_list x = FreeHeader h" using b by (simp add: blocks_ok_def)
  have l: "linked (fh M) (FreeHeader h) (map At fs) (FreeHeader h)" and fs: "set fs = {y \<in> set bs. is_free M y}"
    using f by (auto simp: free_ok_def dlist_def)
  have hd: "next_free (M (FreeHeader h)) = hd (map At fs @ [FreeHeader h])" using linked_first [OF l] by simp
  let ?sz = "\<lambda>a. the (MEMITEM_SIZE (At a) M)"
  have size: "\<exists>xs b ys. bs = xs @ a # b # ys \<and> MEMITEM_SIZE (At a) M = Some (word_of_nat (gap a b))
    \<and> unat (word_of_nat (gap a b) :: rt_uint32) = gap a b" if "a \<in> set fs" for a
  proof -
    obtain xs b' ys where "bs = xs @ a # b' # ys" using free_block [OF ok] \<open>a \<in> set fs\<close> fs by blast
    then show ?thesis using blocks_gap [of h x M xs a b' ys] b by blast
  qed
  have "(0 :: rt_uint32) < sz" using sz by (simp add: word_less_nat_alt)
  from find_free_ok [OF l _ this, of ?sz] size obtain p f where r:
    "find_free (FreeHeader h) sz M (hd (map At fs @ [FreeHeader h])) 0 = Some (p, f)"
    "if \<exists>a\<in>set fs. sz \<le> ?sz a then \<exists>a\<in>set fs. p = At a \<and> f = ?sz a \<and> sz \<le> f else f < sz" by force
  have iff: "fits M bs (unat sz) \<longleftrightarrow> (\<exists>a\<in>set fs. sz \<le> ?sz a)"
  proof
    assume "fits M bs (unat sz)"
    then obtain xs a b' ys where a: "bs = xs @ a # b' # ys" "is_free M a" "unat sz \<le> gap a b'" by (auto simp: fits_def)
    then have "a \<in> set fs" using fs by simp
    moreover have "sz \<le> ?sz a" using blocks_gap [of h x M xs a b' ys] b a by (simp add: word_le_nat_alt)
    ultimately show "\<exists>a\<in>set fs. sz \<le> ?sz a" by blast
  next
    assume "\<exists>a\<in>set fs. sz \<le> ?sz a"
    then obtain a where a: "a \<in> set fs" "sz \<le> ?sz a" by blast
    with size [OF a(1)] fs show "fits M bs (unat sz)" by (fastforce simp: fits_def word_le_nat_alt)
  qed
  show ?thesis
  proof (cases "fits M bs (unat sz)")
    case True
    with r(2) iff obtain a where a: "a \<in> set fs" "p = At a" "f = ?sz a" "sz \<le> f" by auto
    from size [OF a(1)] obtain xs b' ys where s: "bs = xs @ a # b' # ys" "MEMITEM_SIZE (At a) M = Some (word_of_nat (gap a b'))"
      "unat (word_of_nat (gap a b') :: rt_uint32) = gap a b'" by blast
    have "is_free M a" using a(1) fs by simp
    moreover have "unat sz \<le> gap a b'" using a(3,4) s(2,3) by (simp add: word_le_nat_alt)
    ultimately show ?thesis using r(1) True a(2,3) s(1,2) hd fl by auto
  next
    case False
    with r iff hd fl show ?thesis by auto
  qed
qed

lemma live_new:
  assumes b: "blocks_ok h x M (xs @ a # b # ys)" and a: "is_free M a"
  shows "(a + 24, n) \<notin> live (is_free M) (xs @ a # b # ys)" and "a + 24 \<noteq> 0" and "4 dvd unat (a + 24)"
proof -
  have ch: "chained (xs @ a # b # ys)" and al: "4 dvd unat a" using b by (simp_all add: blocks_ok_def)
  show "(a + 24, n) \<notin> live (is_free M) (xs @ a # b # ys)" using live_pair [of "a + 24" n] a by auto
  have "unat (a + 24) = unat a + 24"
    using blocks_gap(4) [OF b] unsigned_less [of b, where ?'a = nat] by (simp add: unat_word_ariths)
  with al show "a + 24 \<noteq> 0" "4 dvd unat (a + 24)" by auto
qed

lemma frame_mark: "a \<in> A \<Longrightarrow> frame h A S1 (S1\<lparr>items := mark a u (items S1)\<rparr>)"
  by (simp add: frame_def only_mark)

lemma alloc_locked_ok:
  assumes ok: "memheap_ok h (heaps S h) (items S) bs" and sz: "12 \<le> unat sz" "4 dvd unat sz"
  shows "\<exists>r S1. alloc_locked h sz S = map_option (Pair (Return r)) (release_lock h S1) \<and> frame h (region bs) S S1
    \<and> (if fits (items S) bs (unat sz) then \<exists>bs' n. memheap_ok h (heaps S1 h) (items S1) bs' \<and> hd bs' = hd bs \<and> last bs' = last bs
          \<and> unat sz \<le> n \<and> n < unat sz + 36 \<and> r \<noteq> 0 \<and> 4 dvd unat r \<and> (r, n) \<notin> live (is_free (items S)) bs
          \<and> live (is_free (items S1)) bs' = insert (r, n) (live (is_free (items S)) bs)
        else r = 0 \<and> S1 = S)"
proof -
  let ?x = "heaps S h" and ?M = "items S"
  obtain fs where b: "blocks_ok h ?x ?M bs" and f: "free_ok h ?M {y \<in> set bs. is_free ?M y} fs" and s: "size_ok ?x ?M bs"
    and c: "coalesced (is_free ?M) bs" using ok by (auto simp: memheap_ok_def)
  have fl: "free_list ?x = FreeHeader h" using b by (simp add: blocks_ok_def)
  obtain p fsz where find: "find_free (free_list ?x) sz ?M (next_free (?M (FreeHeader h))) 0 = Some (p, fsz)"
    and res: "if fits ?M bs (unat sz) then \<exists>xs a b ys. bs = xs @ a # b # ys \<and> is_free ?M a \<and> p = At a
        \<and> fsz = word_of_nat (gap a b) \<and> unat sz \<le> gap a b else fsz < sz"
    using search_ok [OF ok, of sz] sz by auto
  show ?thesis
  proof (cases "fits ?M bs (unat sz)")
    case False
    with res have "\<not> sz \<le> fsz" by simp
    then have "alloc_locked h sz S = map_option (Pair (Return 0)) (release_lock h S)"
      using find fl by (simp add: alloc_locked_def ld_def map_conv_bind_option comp_def)
    with False show ?thesis by (intro exI [of _ 0] exI [of _ S]) (simp add: frame_def)
  next
    case True
    with res obtain xs a b' ys where a: "bs = xs @ a # b' # ys" "is_free ?M a" "p = At a" "fsz = word_of_nat (gap a b')"
      "unat sz \<le> gap a b'" by auto
    note g = blocks_gap [OF b [unfolded a(1)]]
    have ge: "sz \<le> fsz" using a(4,5) g(2) by (simp add: word_le_nat_alt)
    have aA: "a \<in> region bs" using chain_region [of bs] b a(1) by (auto simp: blocks_ok_def)
    have "unat (hd bs) \<le> unat a" "0 < unat (hd bs)" "4 dvd unat a" using aA b a(1) by (auto simp: region_def blocks_ok_def)
    then have pos: "4 \<le> unat a" by (auto dest: dvd_imp_le)
    have un: "unat (sz + 24 + 12) = unat sz + 36"
      using a(5) g(4,5) pos by (simp add: unat_word_ariths)
    let ?S1 = "\<lambda>S1. S1\<lparr>items := mark a True (items S1)\<rparr>"
    have run: "alloc_locked h sz S = map_option (Pair (Return (a + 24))) (release_lock h (?S1 S1))"
      if "(if sz + 24 + 12 \<le> fsz then split_off h p sz S else take_whole h p fsz S) = Some S1" for S1
      using that find fl ge a(3)
      by (cases "sz + 24 + 12 \<le> fsz") (simp_all add: alloc_locked_def ld_def st_def mark_def map_conv_bind_option comp_def)
    obtain S1 bs' n where S1: "(if sz + 24 + 12 \<le> fsz then split_off h p sz S else take_whole h p fsz S) = Some S1"
      "frame h (region bs) S S1" "memheap_ok h (heaps S1 h) (mark a True (items S1)) bs'" "hd bs' = hd bs" "last bs' = last bs"
      "unat sz \<le> n" "n < unat sz + 36" "live (is_free (mark a True (items S1))) bs' = insert (a + 24, n) (live (is_free ?M) bs)"
    proof (cases "sz + 24 + 12 \<le> fsz")
      case split: True
      then have "unat sz + 36 \<le> gap a b'" using un a(4) g(2) by (simp add: word_le_nat_alt)
      from split_ok [OF b [unfolded a(1)] f [unfolded a(1)] s [unfolded a(1)] c [unfolded a(1)] a(2) sz this] obtain S1 where
        "split_off h (At a) sz S = Some S1" "frame h (region bs) S S1"
        "memheap_ok h (heaps S1 h) (mark a True (items S1)) (xs @ a # (a + sz + 24) # b' # ys)"
        "live (is_free (mark a True (items S1))) (xs @ a # (a + sz + 24) # b' # ys) = insert (a + 24, unat sz) (live (is_free ?M) bs)"
        unfolding a(1) by blast
      then show ?thesis using split a(1,3) by (intro that [of S1 "xs @ a # (a + sz + 24) # b' # ys" "unat sz"]) (auto simp: hd_append)
    next
      case whole: False
      then have "gap a b' < unat sz + 36" using un a(4) g(2) by (simp add: word_le_nat_alt)
      from whole_ok [OF b [unfolded a(1)] f [unfolded a(1)] s [unfolded a(1)] c [unfolded a(1)] a(2)] obtain S1 where
        "take_whole h (At a) (word_of_nat (gap a b')) S = Some S1" "frame h (region bs) S S1"
        "memheap_ok h (heaps S1 h) (mark a True (items S1)) bs"
        "live (is_free (mark a True (items S1))) bs = insert (a + 24, gap a b') (live (is_free ?M) bs)"
        unfolding a(1) by blast
      then show ?thesis using whole a(3,4,5) \<open>gap a b' < unat sz + 36\<close> by (intro that [of S1 bs "gap a b'"]) auto
    qed
    have fr: "frame h (region bs) S (?S1 S1)" using frame_trans [OF S1(2) frame_mark [OF aA]] .
    note new = live_new [OF b [unfolded a(1)] a(2), folded a(1)]
    show ?thesis
      using run [OF S1(1)] fr S1(3-8) new True by (intro exI [of _ "a + 24"] exI [of _ "?S1 S1"]) auto
  qed
qed

end
