(* ===== verification/Rt_Heap_Free.thy ===== *)
theory Rt_Heap_Free
  imports Rt_Heap
begin

text \<open>
  Release and change of the size of blocks of a memory heap: both keep the invariant, and the release merges the
  block with its free neighbours.
\<close>

section \<open>Release\<close>

text \<open>Joining two free neighbours frees the item between them.\<close>

lemma join_free:
  assumes ch: "chained (us @ p # a # b # ys)" and F: "F p" "F a"
  shows "room F (us @ p # b # ys) = room F (us @ p # a # b # ys) + 24"
    and "live F (us @ p # b # ys) = live F (us @ p # a # b # ys)"
proof -
  have "unat p + 36 \<le> unat a" "unat a + 36 \<le> unat b"
    using chain_mid(2) [OF ch, of a] chain_mid(2) [of "us @ [p]" a "b # ys" b] ch by simp_all
  then have "gap p b = gap p a + gap a b + 24" by (simp add: gap_def)
  then show "room F (us @ p # b # ys) = room F (us @ p # a # b # ys) + 24"
    "live F (us @ p # b # ys) = live F (us @ p # a # b # ys)"
    using F room_seam [of F us p "b # ys"] room_seam [of F us p "a # b # ys"]
      live_seam [of F us p "b # ys"] live_seam [of F us p "a # b # ys"] by simp_all
qed

lemma merge_prev_left:
  assumes b: "blocks_ok h x (items S) (us @ p # a # b # ys)" and p: "is_free (items S) p"
  shows "merge_prev h (At a) S = Some ((At p, False),
    (upd_heap h (\<lambda>x. x\<lparr>available_size := available_size x + 24\<rparr>) S)\<lparr>items := join p b (items S)\<rparr>)"
proof -
  have ring: "bring (items S) (us @ p # a # b # ys)" using b by (simp add: blocks_ok_def)
  have n: "inext (items S (At a)) = At b" "iprev (items S (At a)) = At p"
    using bring_pair [of "items S" "us @ [p]" a b ys] bring_pair [of "items S" us p a "b # ys"] ring by simp_all
  have d: "a \<noteq> p" "a \<noteq> b" "p \<noteq> b" using bring_distinct [OF ring] by auto
  show ?thesis using n d p by (simp add: merge_prev_def ld_def st_def is_free_def join_def Let_def)
qed

lemma merge_prev_none:
  assumes b: "blocks_ok h x (items S) (xs @ a # b # ys)" and p: "xs = [] \<or> \<not> is_free (items S) (last xs)"
  shows "merge_prev h (At a) S = Some ((At a, True), S)"
proof -
  have ring: "bring (items S) (xs @ a # b # ys)" and l: "\<not> is_free (items S) (last (xs @ a # b # ys))"
    using b by (simp_all add: blocks_ok_def)
  have "\<exists>q. iprev (items S (At a)) = At q \<and> \<not> is_free (items S) q"
  proof (cases xs rule: rev_cases)
    case Nil
    then show ?thesis using bring_ends [OF ring] l by auto
  next
    case (snoc us q)
    then show ?thesis using bring_pair(2) [of "items S" us q a "b # ys"] ring p by auto
  qed
  then show ?thesis by (auto simp: merge_prev_def ld_def is_free_def)
qed

lemma merge_next_right:
  assumes b: "blocks_ok h x (items S) (vs @ q # b # c # zs)" and f: "free_ok h (items S) G fs"
    and fb: "is_free (items S) b" "b \<in> G" "G \<subseteq> A" "{q, c} \<subseteq> A"
  shows "\<exists>M' fs'. merge_next h (At q) S
      = Some ((upd_heap h (\<lambda>x. x\<lparr>available_size := available_size x + 24\<rparr>) S)\<lparr>items := M'\<rparr>)
    \<and> blocks_ok h x M' (vs @ q # c # zs) \<and> is_free M' = is_free (items S) \<and> free_ok h M' (G - {b}) fs' \<and> only h A (items S) M'"
proof -
  let ?M = "items S" and ?M1 = "join q c (items S)"
  have ring: "bring ?M (vs @ q # b # c # zs)" using b by (simp add: blocks_ok_def)
  have n: "inext (?M (At q)) = At b" using bring_pair(1) [OF ring] .
  have f1: "free_ok h ?M1 G fs" using same_free_ok [of ?M ?M1] f by simp
  obtain M2 fs2 where M2: "free_remove (At b) ?M1 = Some M2" "free_ok h M2 (G - {b}) fs2" "same_blocks ?M1 M2" "only h A ?M1 M2"
    using free_ok_remove [OF f1 fb(2,3)] by blast
  note j = blocks_ok_join [OF b]
  have "merge_next h (At q) S = Some ((upd_heap h (\<lambda>x. x\<lparr>available_size := available_size x + 24\<rparr>) S)\<lparr>items := M2\<rparr>)"
    using n fb(1) M2(1) merge_right_join(1) [OF ring] by (simp add: merge_next_def ld_def is_free_def Let_def)
  moreover have "blocks_ok h x M2 (vs @ q # c # zs)" using same_blocks_ok [OF M2(3)] j(1) by simp
  moreover have "is_free M2 = is_free ?M" using same_blocks_is_free [OF M2(3)] j(2) by simp
  moreover have "only h A ?M M2" using only_trans [OF only_join [OF fb(4)] M2(4)] .
  ultimately show ?thesis using M2(2) by blast
qed

lemma merge_next_none:
  assumes b: "blocks_ok h x (items S) (vs @ q # b # ys)" and u: "\<not> is_free (items S) b"
  shows "merge_next h (At q) S = Some S"
  using bring_pair(1) [of "items S" vs q b ys] b u by (simp add: merge_next_def ld_def is_free_def blocks_ok_def)

lemma coalesced_snoc: "coalesced F (xs @ [a]) \<longleftrightarrow> coalesced F xs \<and> (xs = [] \<or> \<not> (F (last xs) \<and> F a))"
  by (induction xs rule: induct_list012) auto

lemma ends_eq:
  "hd (us @ p # b # ys) = hd (us @ p # a # b # ys)" "last (us @ p # b # ys) = last (us @ p # a # b # ys)"
  by (simp_all add: hd_append)

lemma merge_prev_ok:
  fixes S :: mstate and h :: nat
  defines "M \<equiv> items S" and "x \<equiv> heaps S h"
  assumes b: "blocks_ok h x M (xs @ a # b # ys)" and f: "free_ok h M ({y \<in> set (xs @ a # b # ys). is_free M y} - {a}) fs"
    and a: "is_free M a" and c: "coalesced ((is_free M)(a := False)) (xs @ [a])"
    and av: "available_size x = word_of_nat (room (is_free M) (xs @ a # b # ys))"
  shows "\<exists>q ins S1 vs. merge_prev h (At a) S = Some ((At q, ins), S1) \<and> frame h (region (xs @ a # b # ys)) S S1
    \<and> blocks_ok h x (items S1) (vs @ q # b # ys) \<and> is_free (items S1) = is_free M \<and> is_free M q
    \<and> free_ok h (items S1) ({y \<in> set (vs @ q # b # ys). is_free M y} - (if ins then {q} else {})) fs
    \<and> coalesced (is_free M) (vs @ [q]) \<and> live (is_free M) (vs @ q # b # ys) = live (is_free M) (xs @ a # b # ys)
    \<and> heaps S1 h = x\<lparr>available_size := word_of_nat (room (is_free M) (vs @ q # b # ys))\<rparr>
    \<and> room (is_free M) (xs @ a # b # ys) \<le> room (is_free M) (vs @ q # b # ys)
    \<and> hd (vs @ q # b # ys) = hd (xs @ a # b # ys)"
proof -
  let ?bs = "xs @ a # b # ys" and ?F = "is_free M"
  have ch: "chained ?bs" and dist: "distinct ?bs" using b blocks_distinct [OF b] by (simp_all add: blocks_ok_def)
  have in_A: "set ?bs \<subseteq> region ?bs" using chain_region [OF ch] .
  have cx: "coalesced ?F xs"
    by (rule coalesced_mono [of "?F(a := False)"]) (use c dist coalesced_snoc in \<open>auto split: if_splits\<close>)
  show ?thesis
  proof (cases "xs \<noteq> [] \<and> ?F (last xs)")
    case True
    then obtain us p where xs: "xs = us @ [p]" and p: "?F p" by (metis append_butlast_last_id)
    have b': "blocks_ok h x M (us @ p # a # b # ys)" using b xs by simp
    let ?S1 = "(upd_heap h (\<lambda>x. x\<lparr>available_size := available_size x + 24\<rparr>) S)\<lparr>items := join p b M\<rparr>"
    have r: "merge_prev h (At a) S = Some ((At p, False), ?S1)"
      using merge_prev_left [of h x S us p a b ys] b' p by (simp add: M_def)
    note j = blocks_ok_join [OF b']
    have ch': "chained (us @ p # a # b # ys)" using ch xs by simp
    note jf = join_free [where F = ?F, OF ch' p a]
    have G: "{y \<in> set ?bs. ?F y} - {a} = {y \<in> set (us @ p # b # ys). ?F y}" using dist xs by auto
    have f': "free_ok h (join p b M) {y \<in> set (us @ p # b # ys). ?F y} fs"
      using f same_free_ok [of M "join p b M"] unfolding G by simp
    have fr: "frame h (region ?bs) S ?S1" using only_join [of p b "region ?bs" h M] in_A xs by (simp add: frame_def M_def)
    show ?thesis
      using r j jf f' fr p cx xs av
      by (intro exI [of _ p] exI [of _ False] exI [of _ ?S1] exI [of _ us]) (simp add: x_def hd_append)
  next
    case False
    then have n: "xs = [] \<or> \<not> ?F (last xs)" by simp
    have "merge_prev h (At a) S = Some ((At a, True), S)" using merge_prev_none [of h x S xs a b ys] b n by (simp add: M_def)
    moreover have "coalesced ?F (xs @ [a])" using cx n by (auto simp: coalesced_snoc)
    moreover have "x\<lparr>available_size := word_of_nat (room ?F ?bs)\<rparr> = x" using av by simp
    ultimately show ?thesis
      using b f a by (intro exI [of _ a] exI [of _ True] exI [of _ S] exI [of _ xs]) (simp add: frame_def M_def x_def)
  qed
qed

lemma merge_next_ok:
  fixes S :: mstate and h :: nat
  defines "M \<equiv> items S" and "x \<equiv> heaps S h"
  assumes b: "blocks_ok h x M (vs @ q # b # ys)"
    and f: "free_ok h M ({y \<in> set (vs @ q # b # ys). is_free M y} - (if ins then {q} else {})) fs"
    and q: "is_free M q" and c: "coalesced (is_free M) (vs @ [q])" "coalesced (is_free M) (b # ys)"
    and av: "available_size x = word_of_nat (room (is_free M) (vs @ q # b # ys))"
  shows "\<exists>S1 bs fs1. merge_next h (At q) S = Some S1 \<and> frame h (region (vs @ q # b # ys)) S S1
    \<and> blocks_ok h x (items S1) bs \<and> is_free (items S1) = is_free M \<and> q \<in> set bs
    \<and> free_ok h (items S1) ({y \<in> set bs. is_free M y} - (if ins then {q} else {})) fs1
    \<and> coalesced (is_free M) bs \<and> live (is_free M) bs = live (is_free M) (vs @ q # b # ys)
    \<and> heaps S1 h = x\<lparr>available_size := word_of_nat (room (is_free M) bs)\<rparr>
    \<and> room (is_free M) (vs @ q # b # ys) \<le> room (is_free M) bs
    \<and> hd bs = hd (vs @ q # b # ys) \<and> last bs = last (vs @ q # b # ys)"
proof -
  let ?bs = "vs @ q # b # ys" and ?F = "is_free M"
  have ch: "chained ?bs" and dist: "distinct ?bs" using b blocks_distinct [OF b] by (simp_all add: blocks_ok_def)
  have in_A: "set ?bs \<subseteq> region ?bs" using chain_region [OF ch] .
  show ?thesis
  proof (cases "?F b")
    case True
    have "\<not> ?F (last ?bs)" using b by (simp add: blocks_ok_def)
    with True obtain d zs where ys: "ys = d # zs" by (cases ys) auto
    let ?G = "{y \<in> set ?bs. ?F y} - (if ins then {q} else {})"
    have b': "blocks_ok h x M (vs @ q # b # d # zs)" and ch': "chained (vs @ q # b # d # zs)" using b ch ys by simp_all
    have bG: "b \<in> ?G" using True dist by auto
    have sub1: "?G \<subseteq> region ?bs" and sub2: "{q, d} \<subseteq> region ?bs" using in_A ys by auto
    obtain M1 fs1 where M1:
      "merge_next h (At q) S = Some ((upd_heap h (\<lambda>x. x\<lparr>available_size := available_size x + 24\<rparr>) S)\<lparr>items := M1\<rparr>)"
      "blocks_ok h x M1 (vs @ q # d # zs)" "is_free M1 = ?F" "free_ok h M1 (?G - {b}) fs1" "only h (region ?bs) M M1"
      using merge_next_right [of h x S vs q b d zs ?G fs "region ?bs", folded M_def, OF b' f True bG sub1 sub2] by blast
    have G: "?G - {b} = {y \<in> set (vs @ q # d # zs). ?F y} - (if ins then {q} else {})" using dist ys by auto
    note jf = join_free [where F = ?F, OF ch' q True]
    have "coalesced ?F (vs @ q # d # zs)"
      using coalesced_seam [of ?F vs q "d # zs"] c ys True by auto
    then show ?thesis
      using M1(1-3,5) M1(4) [unfolded G] jf av ys
      by (intro exI [of _ "(upd_heap h (\<lambda>x. x\<lparr>available_size := available_size x + 24\<rparr>) S)\<lparr>items := M1\<rparr>"]
          exI [of _ "vs @ q # d # zs"] exI [of _ fs1]) (simp add: x_def frame_def M_def hd_append)
  next
    case False
    have "merge_next h (At q) S = Some S" using merge_next_none [of h x S vs q b ys] b False by (simp add: M_def)
    moreover have "coalesced ?F ?bs" using coalesced_seam [of ?F vs q "b # ys"] c False by simp
    moreover have "x\<lparr>available_size := word_of_nat (room ?F ?bs)\<rparr> = x" using av by simp
    ultimately show ?thesis
      using b f by (intro exI [of _ S] exI [of _ ?bs] exI [of _ fs]) (simp add: frame_def M_def x_def)
  qed
qed

text \<open>The maximum stays an upper bound when the available size grows.\<close>

lemma max_grow:
  assumes b: "blocks_ok h x M bs" and m: "pool_size x - available_size x \<le> max_used_size x"
    and r: "available_size x = word_of_nat r" "r \<le> room F bs"
  shows "pool_size x - word_of_nat (room F bs) \<le> max_used_size x"
proof -
  have ne: "bs \<noteq> []" and ch: "chained bs" and l: "unat (last bs) + 24 = unat (hd bs) + unat (pool_size x)"
    using b by (simp_all add: blocks_ok_def bring_def)
  then have "room F bs \<le> unat (pool_size x)" using room_le [of "hd bs" "tl bs" F] by simp
  with r(2) have u: "unat (word_of_nat (room F bs) :: rt_uint32) = room F bs" "unat (word_of_nat r :: rt_uint32) = r"
    "room F bs \<le> unat (pool_size x)"
    using unsigned_less [of "pool_size x", where ?'a = nat] by (simp_all add: unat_of_nat)
  have "pool_size x - word_of_nat (room F bs) \<le> pool_size x - word_of_nat r"
    using u r(2) by (simp add: word_le_nat_alt unat_sub)
  with m r(1) show ?thesis by (metis order_trans)
qed

text \<open>A used block that becomes free.\<close>

lemma unused:
  assumes b: "blocks_ok h x M (xs @ a # b # ys)" and a: "\<not> is_free M a"
  shows "room ((is_free M)(a := True)) (xs @ a # b # ys) = room (is_free M) (xs @ a # b # ys) + gap a b"
    and "live ((is_free M)(a := True)) (xs @ a # b # ys) = live (is_free M) (xs @ a # b # ys) - {(a + 24, gap a b)}"
proof -
  let ?bs = "xs @ a # b # ys" and ?F = "is_free M" and ?F' = "(is_free M)(a := True)"
  have "distinct ?bs" using blocks_distinct [OF b] .
  then have agree: "?F' y = ?F y" if "y \<in> set xs \<union> set (b # ys)" for y using that by auto
  have mid: "room ?F' (xs @ [a]) = room ?F (xs @ [a])" "room ?F' (b # ys) = room ?F (b # ys)"
    "live ?F' (xs @ [a]) = live ?F (xs @ [a])" "live ?F' (b # ys) = live ?F (b # ys)"
    by (rule mid_cong, erule agree)+
  show "room ?F' ?bs = room ?F ?bs + gap a b"
    using a mid(1,2) room_seam [of ?F xs a "b # ys"] room_seam [of ?F' xs a "b # ys"] by simp
  have "live ?F ?bs = insert (a + 24, gap a b) (live ?F' ?bs)"
    using a mid(3,4) live_seam [of ?F xs a "b # ys"] live_seam [of ?F' xs a "b # ys"] by auto
  moreover have "(a + 24, gap a b) \<notin> live ?F' ?bs" using live_pair [of "a + 24" "gap a b" ?F' ?bs] by auto
  ultimately show "live ?F' ?bs = live ?F ?bs - {(a + 24, gap a b)}" by auto
qed

text \<open>The two merges one after the other, and the item that has the memory put into the free list.\<close>

lemma merge_ok:
  fixes S :: mstate and h :: nat
  defines "M \<equiv> items S" and "x \<equiv> heaps S h"
  assumes b: "blocks_ok h x M (xs @ a # d # ys)" and f: "free_ok h M ({y \<in> set (xs @ a # d # ys). is_free M y} - {a}) fs"
    and a: "is_free M a" and c: "coalesced ((is_free M)(a := False)) (xs @ [a])" "coalesced (is_free M) (d # ys)"
    and av: "available_size x = word_of_nat (room (is_free M) (xs @ a # d # ys))"
  shows "\<exists>q ins S1 S2 bs fs1. merge_prev h (At a) S = Some ((At q, ins), S1) \<and> merge_next h (At q) S1 = Some S2
    \<and> frame h (region (xs @ a # d # ys)) S S2 \<and> blocks_ok h x (items S2) bs \<and> is_free (items S2) = is_free M
    \<and> is_free M q \<and> q \<in> set bs \<and> free_ok h (items S2) ({y \<in> set bs. is_free M y} - (if ins then {q} else {})) fs1
    \<and> coalesced (is_free M) bs \<and> live (is_free M) bs = live (is_free M) (xs @ a # d # ys)
    \<and> heaps S2 h = x\<lparr>available_size := word_of_nat (room (is_free M) bs)\<rparr>
    \<and> room (is_free M) (xs @ a # d # ys) \<le> room (is_free M) bs
    \<and> hd bs = hd (xs @ a # d # ys) \<and> last bs = last (xs @ a # d # ys)"
proof -
  let ?bs = "xs @ a # d # ys" and ?F = "is_free M"
  obtain q ins S1 vs where S1: "merge_prev h (At a) S = Some ((At q, ins), S1)" "frame h (region ?bs) S S1"
    "blocks_ok h x (items S1) (vs @ q # d # ys)" "is_free (items S1) = ?F" "?F q"
    "free_ok h (items S1) ({y \<in> set (vs @ q # d # ys). ?F y} - (if ins then {q} else {})) fs"
    "coalesced ?F (vs @ [q])" "live ?F (vs @ q # d # ys) = live ?F ?bs"
    "heaps S1 h = x\<lparr>available_size := word_of_nat (room ?F (vs @ q # d # ys))\<rparr>"
    "room ?F ?bs \<le> room ?F (vs @ q # d # ys)" "hd (vs @ q # d # ys) = hd ?bs"
    using merge_prev_ok [of h S, folded M_def x_def, OF b f a c(1) av] by blast
  have b1: "blocks_ok h (heaps S1 h) (items S1) (vs @ q # d # ys)" using S1(3,9) by simp
  have av1: "available_size (heaps S1 h) = word_of_nat (room ?F (vs @ q # d # ys))" using S1(9) by simp
  have l: "last (vs @ q # d # ys) = last ?bs" by simp
  have reg: "region (vs @ q # d # ys) = region ?bs" by (simp only: region_def S1(11) l)
  obtain S2 bs fs1 where S2: "merge_next h (At q) S1 = Some S2" "frame h (region ?bs) S1 S2"
    "blocks_ok h (heaps S1 h) (items S2) bs" "is_free (items S2) = ?F" "q \<in> set bs"
    "free_ok h (items S2) ({y \<in> set bs. ?F y} - (if ins then {q} else {})) fs1"
    "coalesced ?F bs" "live ?F bs = live ?F (vs @ q # d # ys)"
    "heaps S2 h = (heaps S1 h)\<lparr>available_size := word_of_nat (room ?F bs)\<rparr>"
    "room ?F (vs @ q # d # ys) \<le> room ?F bs" "hd bs = hd ?bs" "last bs = last ?bs"
    using merge_next_ok [OF b1, of ins fs, unfolded S1(4) reg S1(11) l, OF S1(6,5,7) c(2) av1] by blast
  show ?thesis
    using S1(1,5,8) S2 S1(3,9) frame_trans [OF S1(2) S2(2)] le_trans [OF S1(10) S2(10)]
    by (intro exI [of _ q] exI [of _ ins] exI [of _ S1] exI [of _ S2] exI [of _ bs] exI [of _ fs1]) simp
qed

lemma insert_ok:
  assumes f: "free_ok h M (G - (if ins then {q} else {})) fs" and q: "q \<in> G" and A: "G \<subseteq> A"
  shows "\<exists>M' fs'. (if ins then free_insert (FreeHeader h) (At q) M else Some M) = Some M' \<and> free_ok h M' G fs'
    \<and> same_blocks M M' \<and> only h A M M'"
proof (cases ins)
  case True
  have G: "insert q (G - {q}) = G" using q by auto
  have f': "free_ok h M (G - {q}) fs" and "q \<notin> G - {q}" "insert q (G - {q}) \<subseteq> A" using f True A q by auto
  from free_ok_insert [OF this, unfolded G] True show ?thesis by auto
next
  case False
  with f show ?thesis by (intro exI [of _ M] exI [of _ fs]) (simp add: same_blocks_def)
qed

lemma free_locked_ok:
  assumes ok: "memheap_ok h (heaps S h) (items S) bs" and p: "(ptr, n) \<in> live (is_free (items S)) bs"
  shows "\<exists>S1 bs'. free_locked h (header_of ptr) S = map_option (Pair (Return ())) (release_lock h S1)
    \<and> frame h (region bs) S S1 \<and> memheap_ok h (heaps S1 h) (items S1) bs' \<and> hd bs' = hd bs \<and> last bs' = last bs
    \<and> live (is_free (items S1)) bs' = live (is_free (items S)) bs - {(ptr, n)}
    \<and> is_free (items S1) (ptr - 24)"
proof -
  let ?x = "heaps S h" and ?M = "items S"
  obtain fs where b: "blocks_ok h ?x ?M bs" and f: "free_ok h ?M {y \<in> set bs. is_free ?M y} fs" and s: "size_ok ?x ?M bs"
    and c: "coalesced (is_free ?M) bs" using ok by (auto simp: memheap_ok_def)
  obtain xs a d ys where bs: "bs = xs @ a # d # ys" and a: "\<not> is_free ?M a" "ptr = a + 24" "n = gap a d"
    using live_pair [OF p] by blast
  note b = b [unfolded bs] and f = f [unfolded bs] and s = s [unfolded bs] and c = c [unfolded bs]
  have dist: "distinct (xs @ a # d # ys)" using blocks_distinct [OF b] .
  have aA: "a \<in> region bs" using chain_region [of bs] b bs by (auto simp: blocks_ok_def)
  have al: "a \<noteq> last (xs @ a # d # ys)" using dist by auto
  define S2 where "S2 = upd_heap h (\<lambda>x. x\<lparr>available_size := available_size x + word_of_nat n\<rparr>) (S\<lparr>items := mark a False ?M\<rparr>)"
  let ?F = "(is_free ?M)(a := True)" and ?x2 = "heaps S2 h"
  note mk = mark_ok [OF b al, of False] and un = unused [OF b a(1)]
  have it: "items S2 = mark a False ?M" and x2: "?x2 = ?x\<lparr>available_size := available_size ?x + word_of_nat n\<rparr>"
    by (simp_all add: S2_def)
  have F: "is_free (items S2) = ?F" using mk(2) it by simp
  have b2: "blocks_ok h ?x2 (items S2) (xs @ a # d # ys)" using mk(1) it x2 by simp
  have sz: "MEMITEM_SIZE (At a) (items S2) = Some (word_of_nat n)" using blocks_gap(1) [OF b2] a(3) by simp
  have av: "available_size ?x2 = word_of_nat (room ?F (xs @ a # d # ys))" using s un(1) a(3) x2 by (simp add: size_ok_def)
  have "{y \<in> set (xs @ a # d # ys). ?F y} - {a} = {y \<in> set (xs @ a # d # ys). is_free ?M y}" using a(1) by auto
  then have f2: "free_ok h (items S2) ({y \<in> set (xs @ a # d # ys). ?F y} - {a}) fs"
    using same_free_ok [OF mk(3)] f it by simp
  have "?F(a := False) = is_free ?M" using a(1) by (auto simp: fun_eq_iff)
  then have c2: "coalesced (?F(a := False)) (xs @ [a])" using c coalesced_seam [of "is_free ?M" xs a "d # ys"] by simp
  have cd: "coalesced ?F (d # ys)"
    by (rule coalesced_mono [of "is_free ?M"]) (use c coalesced_seam [of "is_free ?M" xs a "d # ys"] dist in \<open>auto split: if_splits\<close>)
  have fr2: "frame h (region bs) S S2" using only_mark [OF aA, of h ?M False] by (simp add: frame_def S2_def)
  have fa: "?F a" by simp
  obtain q ins S3 S4 bs' fs1 where S3: "merge_prev h (At a) S2 = Some ((At q, ins), S3)"
    and S4: "merge_next h (At q) S3 = Some S4" "frame h (region bs) S2 S4" "blocks_ok h ?x2 (items S4) bs'"
    "is_free (items S4) = ?F" "?F q" "q \<in> set bs'" "free_ok h (items S4) ({y \<in> set bs'. ?F y} - (if ins then {q} else {})) fs1"
    "coalesced ?F bs'" "live ?F bs' = live ?F bs" "heaps S4 h = ?x2\<lparr>available_size := word_of_nat (room ?F bs')\<rparr>"
    "room ?F bs \<le> room ?F bs'" "hd bs' = hd bs" "last bs' = last bs"
    using merge_ok [OF b2, unfolded F, OF f2 fa c2 cd av, folded bs] by blast
  have "{y \<in> set bs'. ?F y} \<subseteq> region bs" using chain_region [of bs'] S4(3,12,13) by (auto simp: blocks_ok_def region_def)
  moreover have "q \<in> {y \<in> set bs'. ?F y}" using S4(5,6) by simp
  ultimately obtain M5 fs5 where M5: "(if ins then free_insert (FreeHeader h) (At q) (items S4) else Some (items S4)) = Some M5"
    "free_ok h M5 {y \<in> set bs'. ?F y} fs5" "same_blocks (items S4) M5" "only h (region bs) (items S4) M5"
    using insert_ok [OF S4(7)] by blast
  have fl: "free_list (heaps S4 h) = FreeHeader h" using S4(3,10) by (simp add: blocks_ok_def)
  have stm: "st (At a) (\<lambda>x. x\<lparr>magic := magic x AND - 2\<rparr>) ?M = Some (mark a False ?M)" by (simp add: st_def mark_def)
  have run: "free_locked h (header_of ptr) S = map_option (Pair (Return ())) (release_lock h (S4\<lparr>items := M5\<rparr>))"
    using sz S3 S4(1) M5(1) fl a(2) stm
    by (auto simp: free_locked_def header_of_def it S2_def map_conv_bind_option comp_def split: if_splits)
  have F5: "is_free M5 = ?F" using same_blocks_is_free [OF M5(3)] S4(4) by simp
  have b5: "blocks_ok h ?x M5 bs'" using same_blocks_ok [OF M5(3)] S4(3) x2 by simp
  have "room (is_free ?M) bs \<le> room ?F bs'" using un(1) S4(11) bs by simp
  then have "pool_size ?x - word_of_nat (room ?F bs') \<le> max_used_size ?x"
    using max_grow [of h ?x M5 bs' "room (is_free ?M) bs" ?F] b5 s bs unfolding size_ok_def by blast
  then have "size_ok (heaps S4 h) M5 bs'" using S4(10) x2 F5 by (simp add: size_ok_def)
  moreover have "blocks_ok h (heaps S4 h) M5 bs'" using b5 S4(10) x2 by simp
  ultimately have "memheap_ok h (heaps S4 h) M5 bs'" using M5(2) S4(8) unfolding memheap_ok_def F5 by blast
  moreover have "frame h (region bs) S (S4\<lparr>items := M5\<rparr>)"
    using frame_trans [OF fr2 S4(2)] M5(4) by (auto simp: frame_def intro: only_trans)
  moreover have "live (is_free M5) bs' = live (is_free ?M) bs - {(ptr, n)}" using F5 S4(9) un(2) a(2,3) bs by simp
  moreover have "is_free M5 (ptr - 24)" using F5 a(2) by simp
  ultimately show ?thesis using run S4(12,13) by (intro exI [of _ "S4\<lparr>items := M5\<rparr>"] exI [of _ bs']) simp
qed

end
