(* ===== verification/Rt_Heap_Calls.thy ===== *)
theory Rt_Heap_Calls
  imports Rt_Heap_Free
begin

text \<open>
  The calls of the memory heap as a client sees them. While nobody else holds the lock of the heap, the state of the heap is the
  set of the blocks in use; every call returns, keeps this view, and leaves the kernel, other heaps and the contents
  of memory as they were.
\<close>

section \<open>The lock\<close>

definition unlocked :: "nat \<Rightarrow> mstate \<Rightarrow> bool" where
  "unlocked h S \<longleftrightarrow> 0 < sem_value (sems (mkern S) (lock (heaps S h)))
     \<and> lst (tlists (mkern S)) (SuspendQ (OSem (lock (heaps S h)))) = []"

definition taken :: "nat \<Rightarrow> mstate \<Rightarrow> mstate" where
  "taken h S = S\<lparr>mkern := upd_sem (lock (heaps S h)) (\<lambda>x. x\<lparr>sem_value := sem_value x - 1\<rparr>) (mkern S)\<rparr>"

lemma taken_fields [simp]:
  "heaps (taken h S) = heaps S" "items (taken h S) = items S" "mbytes (taken h S) = mbytes S"
  by (simp_all add: taken_def)

lemma with_lock_free: "unlocked h S \<Longrightarrow> with_lock h x body S = body (taken h S)"
  by (simp add: with_lock_def unlocked_def rt_sem_take_def locked_def taken_def)

lemma release_taken:
  assumes "unlocked h S" and "frame h A (taken h S) S1"
  shows "release_lock h S1 = Some (S1\<lparr>mkern := mkern S\<rparr>)"
    and "frame h A S (S1\<lparr>mkern := mkern S\<rparr>)" and "unlocked h (S1\<lparr>mkern := mkern S\<rparr>)"
  using assms by (simp_all add: release_lock_def rt_sem_release_def ls_isempty_def unlocked_def frame_def taken_def)

section \<open>The blocks in use\<close>

lemma blocks_unique:
  assumes "memheap_ok h x M bs" and "memheap_ok h x M cs"
  shows "bs = cs"
proof -
  have r: "bring M bs" "bring M cs" and hd: "hd bs = hd cs" using assms by (simp_all add: memheap_ok_def blocks_ok_def)
  then have "map At (tl bs) = map At (tl cs)"
    using linked_unique [of "bh M" "At (hd bs)" "map At (tl bs)" "At (hd bs)" "map At (tl cs)"] by (auto simp: bring_def dlist_def)
  then have "tl bs = tl cs" using map_injective [of At "tl bs" "tl cs"] by (simp add: inj_def)
  with hd r show ?thesis by (metis bring_def list.collapse)
qed

definition heap_rep :: "nat \<Rightarrow> mstate \<Rightarrow> (rt_uint32 \<times> nat) set \<Rightarrow> bool" where
  "heap_rep h S L \<longleftrightarrow> unlocked h S \<and> 60 \<le> unat (pool_size (heaps S h))
     \<and> (\<exists>bs. memheap_ok h (heaps S h) (items S) bs \<and> live (is_free (items S)) bs = L)"

text \<open>A free block of at least \<open>n\<close> bytes.\<close>

definition heap_fits :: "nat \<Rightarrow> mstate \<Rightarrow> nat \<Rightarrow> bool" where
  "heap_fits h S n \<longleftrightarrow> (\<exists>bs. memheap_ok h (heaps S h) (items S) bs \<and> fits (items S) bs n)"

lemma heap_fits_mono: "heap_fits h S n \<Longrightarrow> k \<le> n \<Longrightarrow> heap_fits h S k"
  by (fastforce simp: heap_fits_def fits_def)

definition heap_area :: "nat \<Rightarrow> mstate \<Rightarrow> rt_uint32 set" where
  "heap_area h S = {a. unat (start_addr (heaps S h)) \<le> unat a
     \<and> unat a + 24 \<le> unat (start_addr (heaps S h)) + unat (pool_size (heaps S h))}"

lemma area_region: "memheap_ok h (heaps S h) M bs \<Longrightarrow> region bs = heap_area h S"
  by (auto simp: memheap_ok_def blocks_ok_def region_def heap_area_def)

lemma area_keeps:
  assumes "memheap_ok h x M bs" and "memheap_ok h x' M' bs'" and "hd bs' = hd bs" and "last bs' = last bs"
  shows "pool_size x' = pool_size x" and "start_addr x' = start_addr x"
  using assms by (auto simp: memheap_ok_def blocks_ok_def word_unat_eq_iff)

lemma rep_step:
  assumes rep: "heap_rep h S L" and ok: "memheap_ok h (heaps S h) (items S) bs" and fr: "frame h (region bs) (taken h S) S1"
    and ok1: "memheap_ok h (heaps S1 h) (items S1) bs'" "hd bs' = hd bs" "last bs' = last bs"
  shows "heap_rep h (S1\<lparr>mkern := mkern S\<rparr>) (live (is_free (items S1)) bs')" and "frame h (heap_area h S) S (S1\<lparr>mkern := mkern S\<rparr>)"
    and "heap_area h (S1\<lparr>mkern := mkern S\<rparr>) = heap_area h S"
proof -
  have u: "unlocked h S" using rep by (simp add: heap_rep_def)
  note t = release_taken [OF u fr] and k = area_keeps [OF ok ok1]
  show "heap_rep h (S1\<lparr>mkern := mkern S\<rparr>) (live (is_free (items S1)) bs')"
    using rep t(3) k ok1(1) by (auto simp: heap_rep_def)
  show "frame h (heap_area h S) S (S1\<lparr>mkern := mkern S\<rparr>)" using t(2) area_region [OF ok] by simp
  show "heap_area h (S1\<lparr>mkern := mkern S\<rparr>) = heap_area h S" using k by (simp add: heap_area_def)
qed

text \<open>The blocks in use are apart, aligned, and inside the memory of the heap.\<close>

definition apart :: "(rt_uint32 \<times> nat) set \<Rightarrow> bool" where
  "apart L \<longleftrightarrow> (\<forall>(p, n)\<in>L. \<forall>(q, m)\<in>L. (p, n) \<noteq> (q, m) \<longrightarrow> unat p + n \<le> unat q \<or> unat q + m \<le> unat p)"

lemma rep_blocks:
  assumes rep: "heap_rep h S L" and p: "(p, n) \<in> L"
  shows "12 \<le> n" and "p \<noteq> 0" and "4 dvd unat p" and "unat (start_addr (heaps S h)) + 24 \<le> unat p"
    and "unat p + n + 24 \<le> unat (start_addr (heaps S h)) + unat (pool_size (heaps S h))"
proof -
  obtain bs where ok: "memheap_ok h (heaps S h) (items S) bs" and L: "live (is_free (items S)) bs = L" using rep by (auto simp: heap_rep_def)
  have ch: "chained bs" and b: "blocks_ok h (heaps S h) (items S) bs" using ok by (simp_all add: memheap_ok_def blocks_ok_def)
  obtain xs a b ys where a: "bs = xs @ a # b # ys" "unat p = unat a + 24" "12 \<le> n" by (rule live_bounds [OF ch p [folded L]])
  show "12 \<le> n" by (rule a(3))
  have "4 dvd unat a" using b a(1) by (simp add: blocks_ok_def)
  then show "4 dvd unat p" "p \<noteq> 0" using a(2) by auto
  show "unat (start_addr (heaps S h)) + 24 \<le> unat p"
    "unat p + n + 24 \<le> unat (start_addr (heaps S h)) + unat (pool_size (heaps S h))"
    using live_inside [OF ch p [folded L]] b by (auto simp: blocks_ok_def)
qed

lemma rep_apart: "heap_rep h S L \<Longrightarrow> apart L"
proof -
  assume rep: "heap_rep h S L"
  then obtain bs where ok: "memheap_ok h (heaps S h) (items S) bs" and L: "L = live (is_free (items S)) bs" by (auto simp: heap_rep_def)
  have ch: "chained bs" and d: "distinct bs" using ok by (auto simp: memheap_ok_def blocks_ok_def dest: bring_distinct)
  have same: "n = m" if pn: "(p, n) \<in> L" and pm: "(p, m) \<in> L" for p n m
  proof -
    obtain xs a b ys where a: "bs = xs @ a # b # ys" "p = a + 24" "n = gap a b" by (rule live_bounds [OF ch pn [unfolded L]])
    obtain us c e vs where c: "bs = us @ c # e # vs" "p = c + 24" "m = gap c e" by (rule live_bounds [OF ch pm [unfolded L]])
    have "b # ys = e # vs" using d a c append_Cons_eq_iff [of a xs "b # ys" us "e # vs"] by (auto simp: distinct_append)
    with a c show ?thesis by simp
  qed
  have "unat p + n \<le> unat q \<or> unat q + m \<le> unat p" if pn: "(p, n) \<in> L" and qm: "(q, m) \<in> L" and ne: "(p, n) \<noteq> (q, m)" for p n q m
  proof -
    have "p \<noteq> q" using same pn qm ne by blast
    from live_apart [OF ch pn [unfolded L] qm [unfolded L] this] show ?thesis by linarith
  qed
  then show "apart L" by (auto simp: apart_def)
qed

section \<open>The calls\<close>

lemma aligned_bits: "4 dvd unat x \<longleftrightarrow> x AND 3 = 0" for x :: rt_uint32
proof -
  have "x AND 3 = take_bit 2 x" using take_bit_eq_mask [of 2 x] by (simp add: mask_eq_exp_minus_1)
  then have "unat (x AND 3) = unat x mod 4" by (simp only: unsigned_take_bit_eq) (simp add: take_bit_eq_mod)
  then show ?thesis by (auto simp: dvd_eq_mod_eq_0 word_unat_eq_iff)
qed

lemma align_dvd: "4 dvd unat (RT_ALIGN n RT_ALIGN_SIZE)" "4 dvd unat (RT_ALIGN_DOWN n RT_ALIGN_SIZE)"
proof -
  have "(y AND - 4) AND 3 = 0" for y :: rt_uint32 by (simp add: and.assoc)
  then show "4 dvd unat (RT_ALIGN n RT_ALIGN_SIZE)" "4 dvd unat (RT_ALIGN_DOWN n RT_ALIGN_SIZE)"
    unfolding aligned_bits by (simp_all add: RT_ALIGN_def RT_ALIGN_DOWN_def RT_ALIGN_SIZE_def)
qed

lemma request_ok: "12 \<le> unat (request_size n)" "4 dvd unat (request_size n)"
  using align_dvd(1) [of n] by (auto simp: request_size_def Let_def word_less_nat_alt not_less)

text \<open>The new block has the size of the request, or that of a whole free block when the rest is too small for a block.\<close>

lemma memheap_alloc_bounded:
  assumes rep: "heap_rep h S L"
  shows "\<exists>r S'. rt_memheap_alloc h n S = Some (Return r, S') \<and> frame h (heap_area h S) S S' \<and> heap_area h S' = heap_area h S
    \<and> (if request_size n < available_size (heaps S h) \<and> heap_fits h S (unat (request_size n))
        then \<exists>m. unat (request_size n) \<le> m \<and> m < unat (request_size n) + 36 \<and> r \<noteq> 0 \<and> (r, m) \<notin> L \<and> heap_rep h S' (insert (r, m) L)
        else r = 0 \<and> S' = S)"
proof (cases "request_size n < available_size (heaps S h)")
  case False
  then show ?thesis using rep by (simp add: rt_memheap_alloc_def frame_def)
next
  case True
  obtain bs where ok: "memheap_ok h (heaps S h) (items S) bs" and L: "live (is_free (items S)) bs = L" and u: "unlocked h S"
    using rep by (auto simp: heap_rep_def)
  let ?sz = "request_size n"
  have fits: "heap_fits h S (unat ?sz) \<longleftrightarrow> fits (items S) bs (unat ?sz)" unfolding heap_fits_def using ok blocks_unique [OF ok] by metis
  obtain r S1 where run: "alloc_locked h ?sz (taken h S) = map_option (Pair (Return r)) (release_lock h S1)"
    and fr: "frame h (region bs) (taken h S) S1"
    and res: "if fits (items S) bs (unat ?sz) then \<exists>bs' m. memheap_ok h (heaps S1 h) (items S1) bs' \<and> hd bs' = hd bs \<and> last bs' = last bs
          \<and> unat ?sz \<le> m \<and> m < unat ?sz + 36 \<and> r \<noteq> 0 \<and> 4 dvd unat r \<and> (r, m) \<notin> L \<and> live (is_free (items S1)) bs' = insert (r, m) L
        else r = 0 \<and> S1 = taken h S"
    using alloc_locked_ok [of h "taken h S" bs ?sz, unfolded taken_fields L, OF ok request_ok] by blast
  have call: "rt_memheap_alloc h n S = Some (Return r, S1\<lparr>mkern := mkern S\<rparr>)"
    using True run release_taken(1) [OF u fr] by (simp add: rt_memheap_alloc_def with_lock_free [OF u])
  show ?thesis
  proof (cases "fits (items S) bs (unat ?sz)")
    case yes: True
    with res obtain bs' m where new: "memheap_ok h (heaps S1 h) (items S1) bs'" "hd bs' = hd bs" "last bs' = last bs"
      and m: "unat ?sz \<le> m" "m < unat ?sz + 36" "r \<noteq> 0" "(r, m) \<notin> L" "live (is_free (items S1)) bs' = insert (r, m) L" by auto
    note st = rep_step [OF rep ok fr new]
    show ?thesis
      using call st m True yes fits by (intro exI [of _ r] exI [of _ "S1\<lparr>mkern := mkern S\<rparr>"]) auto
  next
    case no: False
    with res have "r = 0" "S1\<lparr>mkern := mkern S\<rparr> = S" by (simp_all add: taken_def)
    with call no fits show ?thesis by (simp add: frame_def)
  qed
qed

lemma memheap_alloc_rep:
  assumes rep: "heap_rep h S L"
  shows "\<exists>r S'. rt_memheap_alloc h n S = Some (Return r, S') \<and> frame h (heap_area h S) S S' \<and> heap_area h S' = heap_area h S
    \<and> (if request_size n < available_size (heaps S h) \<and> heap_fits h S (unat (request_size n))
        then \<exists>m. unat (request_size n) \<le> m \<and> r \<noteq> 0 \<and> (r, m) \<notin> L \<and> heap_rep h S' (insert (r, m) L)
        else r = 0 \<and> S' = S)"
  using memheap_alloc_bounded [OF assms, of n] by (elim exE conjE) (rule exI, rule exI, auto split: if_splits)

lemma memheap_free_rep:
  assumes rep: "heap_rep h S L" and p: "(ptr, n) \<in> L"
  shows "\<exists>S'. rt_memheap_free ptr S = Some (Return (), S') \<and> frame h (heap_area h S) S S' \<and> heap_area h S' = heap_area h S
    \<and> heap_rep h S' (L - {(ptr, n)}) \<and> is_free (items S') (ptr - 24)"
proof -
  obtain bs where ok: "memheap_ok h (heaps S h) (items S) bs" and L: "live (is_free (items S)) bs = L" and u: "unlocked h S"
    using rep by (auto simp: heap_rep_def)
  have b: "blocks_ok h (heaps S h) (items S) bs" using ok by (simp add: memheap_ok_def)
  obtain xs a d ys where a: "bs = xs @ a # d # ys" "\<not> is_free (items S) a" "ptr = a + 24"
    using live_pair p L by blast
  have hdr: "magic (items S (At y)) AND RT_MEMHEAP_MASK = RT_MEMHEAP_MAGIC \<and> pool_ptr (items S (At y)) = h" if "y \<in> {a, d}" for y
    using b a(1) that by (auto simp: blocks_ok_def)
  have nx: "inext (items S (At a)) = At d" using bring_pair(1) [of "items S" xs a d ys] b a(1) by (simp add: blocks_ok_def)
  obtain S1 bs' where run: "free_locked h (header_of ptr) (taken h S) = map_option (Pair (Return ())) (release_lock h S1)"
    and fr: "frame h (region bs) (taken h S) S1"
    and new: "memheap_ok h (heaps S1 h) (items S1) bs'" "hd bs' = hd bs" "last bs' = last bs"
    and lv: "live (is_free (items S1)) bs' = L - {(ptr, n)}" "is_free (items S1) (ptr - 24)"
    using free_locked_ok [of h "taken h S" bs ptr n] ok p L by auto
  note st = rep_step [OF rep ok fr new]
  have "rt_memheap_free ptr S = Some (Return (), S1\<lparr>mkern := mkern S\<rparr>)"
    using rep_blocks(2) [OF rep p] hdr [of a] hdr [of d] nx a run release_taken(1) [OF u fr]
    by (simp add: rt_memheap_free_def header_of_def ld_def is_free_def RT_MEMHEAP_IS_USED_def with_lock_free [OF u])
  then show ?thesis using st lv by (intro exI [of _ "S1\<lparr>mkern := mkern S\<rparr>"]) simp
qed

end
