(* ===== verification/Rt_Heap_Realloc.thy ===== *)
theory Rt_Heap_Realloc
  imports Rt_Heap_Calls
begin

text \<open>
  The change of the size of a block keeps the invariant of the heap: a block is reduced in place, grows into the free
  block behind it, or moves with its contents.
\<close>

section \<open>Reducing\<close>

lemma shrink_merge_ok:
  fixes S :: mstate and h :: nat
  defines "M \<equiv> items S" and "x \<equiv> heaps S h"
  assumes b: "blocks_ok h x M (us @ n # b # ys)" and f: "free_ok h M ({y \<in> set (us @ n # b # ys). is_free M y} - {n}) fs"
    and n: "is_free M n" and c: "coalesced (is_free M) (us @ [n])" "coalesced (is_free M) (b # ys)"
    and av: "available_size x = word_of_nat (room (is_free M) (us @ n # b # ys) - gap n b)"
  shows "\<exists>S1 d ws fs1. shrink_merge h (At n) S = Some S1 \<and> frame h (region (us @ n # b # ys)) S S1
    \<and> blocks_ok h x (items S1) (us @ n # d # ws) \<and> is_free (items S1) = is_free M
    \<and> free_ok h (items S1) ({y \<in> set (us @ n # d # ws). is_free M y} - {n}) fs1
    \<and> coalesced (is_free M) (us @ n # d # ws) \<and> live (is_free M) (us @ n # d # ws) = live (is_free M) (us @ n # b # ys)
    \<and> heaps S1 h = x\<lparr>available_size := word_of_nat (room (is_free M) (us @ n # d # ws)) - word_of_nat (gap n d)\<rparr>
    \<and> room (is_free M) (us @ n # b # ys) \<le> room (is_free M) (us @ n # d # ws)
    \<and> last (us @ n # d # ws) = last (us @ n # b # ys)"
proof -
  let ?bs = "us @ n # b # ys" and ?F = "is_free M"
  have ring: "bring M ?bs" and ch: "chained ?bs" and dist: "distinct ?bs"
    using b blocks_distinct [OF b] by (simp_all add: blocks_ok_def)
  have in_A: "set ?bs \<subseteq> region ?bs" using chain_region [OF ch] .
  have nx: "inext (M (At n)) = At b" using bring_pair(1) [OF ring] .
  have rm: "room ?F ?bs = room ?F (us @ [n]) + gap n b + room ?F (b # ys)" using room_seam [of ?F us n "b # ys"] n by simp
  show ?thesis
  proof (cases "?F b")
    case True
    have "\<not> ?F (last ?bs)" using b by (simp add: blocks_ok_def)
    with True obtain d zs where ys: "ys = d # zs" by (cases ys) auto
    have b': "blocks_ok h x M (us @ n # b # d # zs)" and ring': "bring M (us @ n # b # d # zs)" and ch': "chained (us @ n # b # d # zs)"
      using b ring ch ys by simp_all
    let ?G = "{y \<in> set ?bs. ?F y} - {n}" and ?M1 = "join n d M"
    have f1: "free_ok h ?M1 ?G fs" using same_free_ok [of M ?M1] f by simp
    have bG: "b \<in> ?G" and sub: "?G \<subseteq> region ?bs" and nd: "{n, d} \<subseteq> region ?bs" using True dist in_A ys by auto
    obtain M2 fs2 where M2: "free_remove (At b) ?M1 = Some M2" "free_ok h M2 (?G - {b}) fs2" "same_blocks ?M1 M2" "only h (region ?bs) ?M1 M2"
      using free_ok_remove [OF f1 bG sub] by blast
    note j = blocks_ok_join [OF b'] and jf = join_free [where F = ?F, OF ch' n True]
    have sz: "MEMITEM_SIZE (At b) M = Some (word_of_nat (gap b d))" using blocks_gap(1) [of h x M "us @ [n]" b d zs] b' by simp
    let ?S1 = "(upd_heap h (\<lambda>x. x\<lparr>available_size := available_size x - word_of_nat (gap b d)\<rparr>) S)\<lparr>items := M2\<rparr>"
    have run: "shrink_merge h (At n) S = Some ?S1"
      using nx True sz M2(1) merge_right_join(1) [OF ring'] by (simp add: shrink_merge_def ld_def is_free_def Let_def M_def)
    have bl: "blocks_ok h x M2 (us @ n # d # zs)" "is_free M2 = ?F"
      using same_blocks_ok [OF M2(3)] same_blocks_is_free [OF M2(3)] j by simp_all
    have G: "?G - {b} = {y \<in> set (us @ n # d # zs). ?F y} - {n}" using dist ys by auto
    have rm2: "room ?F (us @ n # d # zs) = room ?F (us @ [n]) + gap n d + room ?F (d # zs)"
      using room_seam [of ?F us n "d # zs"] n by simp
    have a2: "available_size x - word_of_nat (gap b d) = word_of_nat (room ?F (us @ n # d # zs)) - word_of_nat (gap n d)"
      using rm rm2 av True ys by simp
    have co: "coalesced ?F (us @ n # d # zs)" using coalesced_seam [of ?F us n "d # zs"] c ys True by auto
    have fr: "frame h (region ?bs) S ?S1" using only_trans [OF only_join [OF nd] M2(4)] by (simp add: frame_def M_def)
    show ?thesis
      using run bl M2(2) [unfolded G] a2 co fr jf ys
      by (intro exI [of _ ?S1] exI [of _ d] exI [of _ zs] exI [of _ fs2]) (simp add: x_def)
  next
    case False
    have run: "shrink_merge h (At n) S = Some S" using nx False by (simp add: shrink_merge_def ld_def is_free_def M_def)
    have co: "coalesced ?F ?bs" using coalesced_seam [of ?F us n "b # ys"] c False by simp
    have "word_of_nat (room ?F ?bs) - word_of_nat (gap n b) = available_size x" using av rm by simp
    then have "x\<lparr>available_size := word_of_nat (room ?F ?bs) - word_of_nat (gap n b)\<rparr> = x" by simp
    with run co b f show ?thesis
      by (intro exI [of _ S] exI [of _ b] exI [of _ ys] exI [of _ fs]) (simp add: frame_def M_def x_def)
  qed
qed

text \<open>The blocks in use besides the one at \<open>a\<close>.\<close>

lemma live_others:
  assumes b: "blocks_ok h x M (xs @ a # b # ys)" and a: "\<not> is_free M a"
  shows "live (is_free M) (xs @ a # b # ys) - {(a + 24, gap a b)} = live (is_free M) (xs @ [a]) \<union> live (is_free M) (b # ys)"
proof -
  let ?F = "is_free M" and ?F' = "(is_free M)(a := True)"
  have agree: "?F' y = ?F y" if "y \<in> set xs \<union> set (b # ys)" for y using that blocks_distinct [OF b] by auto
  have "live ?F' (xs @ [a]) = live ?F (xs @ [a])" "live ?F' (b # ys) = live ?F (b # ys)"
    by (rule mid_cong, erule agree)+
  then show ?thesis using unused(2) [OF b a] live_seam [of ?F' xs a "b # ys"] by simp
qed

lemma new_item_at:
  assumes b: "blocks_ok h x M (xs @ a # b # ys)" and a: "\<not> is_free M a" and c: "coalesced (is_free M) (xs @ a # b # ys)"
    and sz: "12 \<le> unat sz" "4 dvd unat sz" "unat sz + 36 \<le> gap a b"
  defines "n \<equiv> a + sz + 24"
  shows "\<exists>M'. new_item h (At a) (At n) M = Some M' \<and> blocks_ok h x M' (xs @ a # n # b # ys) \<and> same_free M M'
    \<and> is_free M' = (is_free M)(n := True) \<and> only h (region (xs @ a # b # ys)) M M' \<and> n \<notin> set (xs @ a # b # ys)
    \<and> room (is_free M') (xs @ a # n # b # ys) = room (is_free M) (xs @ a # b # ys) + gap n b
    \<and> live (is_free M') (xs @ a # n # b # ys) = insert (a + 24, unat sz) (live (is_free M) (xs @ a # b # ys) - {(a + 24, gap a b)})
    \<and> coalesced (is_free M') (xs @ [a, n]) \<and> coalesced (is_free M') (b # ys)"
proof -
  let ?bs = "xs @ a # b # ys" and ?F = "is_free M"
  have ch: "chained ?bs" and al: "4 dvd unat a" using b by (simp_all add: blocks_ok_def)
  have un: "unat n = unat a + unat sz + 24"
    using blocks_gap(4) [OF b] sz unsigned_less [of b, where ?'a = nat] by (simp add: n_def unat_word_ariths)
  have n: "unat a + 36 \<le> unat n" "unat n + 36 \<le> unat b" "4 dvd unat n" using un blocks_gap(4) [OF b] sz al by (auto simp: dvd_add)
  have in_A: "set ?bs \<subseteq> region ?bs" using chain_region [OF ch] .
  have nA: "n \<in> region ?bs" using in_A n by (auto simp: region_def)
  have nin: "n \<notin> set ?bs" using chain_mid [OF ch] chain_mid(2) [of "xs @ [a]" b ys] ch n by fastforce
  obtain M' where M': "new_item h (At a) (At n) M = Some M'" "blocks_ok h x M' (xs @ a # n # b # ys)" "same_free M M'"
    "is_free M' = ?F(n := True)" "only h (region ?bs) M M'"
    using blocks_ok_new [OF b n, of "region ?bs"] in_A nA by auto
  have agree: "is_free M' y = ?F y" if "y \<in> set xs \<union> set (b # ys)" for y using that M'(4) nin by auto
  have mid: "room (is_free M') (xs @ [a]) = room ?F (xs @ [a])" "room (is_free M') (b # ys) = room ?F (b # ys)"
    "live (is_free M') (xs @ [a]) = live ?F (xs @ [a])" "live (is_free M') (b # ys) = live ?F (b # ys)"
    by (rule mid_cong, erule agree)+
  have Fa: "\<not> is_free M' a" "is_free M' n" using a M'(4) nin by auto
  have rm: "room (is_free M') (xs @ a # n # b # ys) = room ?F ?bs + gap n b"
    using Fa a mid(1,2) room_seam [of ?F xs a "b # ys"] room_seam [of "is_free M'" xs a "n # b # ys"] by simp
  have g: "gap a n = unat sz" using un by (simp add: gap_def)
  have lv: "live (is_free M') (xs @ a # n # b # ys) = insert (a + 24, unat sz) (live ?F ?bs - {(a + 24, gap a b)})"
    using Fa g mid(3,4) live_seam [of "is_free M'" xs a "n # b # ys"] live_others [OF b a] by auto
  have cs: "coalesced ?F (xs @ [a])" "coalesced ?F (b # ys)" using c coalesced_seam [of ?F xs a "b # ys"] by (cases ys; simp)+
  have "coalesced (is_free M') (xs @ [a])" by (rule coalesced_mono [OF cs(1)]) (use M'(4) nin in \<open>auto split: if_splits\<close>)
  then have "coalesced (is_free M') (xs @ [a, n])" using Fa coalesced_seam [of "is_free M'" xs a "[n]"] by simp
  moreover have "coalesced (is_free M') (b # ys)" by (rule coalesced_mono [OF cs(2)]) (use M'(4) nin in \<open>auto split: if_splits\<close>)
  ultimately show ?thesis using M' nin rm lv by blast
qed

lemma shrink_locked_ok:
  assumes ok: "memheap_ok h (heaps S h) (items S) bs" and p: "(ptr, n) \<in> live (is_free (items S)) bs"
    and sz: "12 \<le> unat sz" "4 dvd unat sz" "unat sz + 36 \<le> n"
  shows "\<exists>S1 bs'. shrink_locked h ptr sz S = map_option (Pair (Return ptr)) (release_lock h S1)
    \<and> frame h (region bs) S S1 \<and> memheap_ok h (heaps S1 h) (items S1) bs' \<and> hd bs' = hd bs \<and> last bs' = last bs
    \<and> live (is_free (items S1)) bs' = insert (ptr, unat sz) (live (is_free (items S)) bs - {(ptr, n)})"
proof -
  let ?x = "heaps S h" and ?M = "items S"
  obtain fs where b: "blocks_ok h ?x ?M bs" and f: "free_ok h ?M {y \<in> set bs. is_free ?M y} fs" and s: "size_ok ?x ?M bs"
    and c: "coalesced (is_free ?M) bs" using ok by (auto simp: memheap_ok_def)
  obtain xs a b' ys where bs: "bs = xs @ a # b' # ys" and a: "\<not> is_free ?M a" "ptr = a + 24" "n = gap a b'"
    using live_pair [OF p] by blast
  note b = b [unfolded bs] and f = f [unfolded bs] and s = s [unfolded bs] and c = c [unfolded bs]
  define nn where "nn = a + sz + 24"
  let ?us = "xs @ [a]" and ?R = "region (xs @ a # b' # ys)"
  obtain M1 where M1: "new_item h (At a) (At nn) ?M = Some M1" "blocks_ok h ?x M1 (xs @ a # nn # b' # ys)" "same_free ?M M1"
    "is_free M1 = (is_free ?M)(nn := True)" "only h ?R ?M M1" "nn \<notin> set (xs @ a # b' # ys)"
    "room (is_free M1) (xs @ a # nn # b' # ys) = room (is_free ?M) (xs @ a # b' # ys) + gap nn b'"
    "live (is_free M1) (xs @ a # nn # b' # ys) = insert (a + 24, unat sz) (live (is_free ?M) (xs @ a # b' # ys) - {(a + 24, gap a b')})"
    "coalesced (is_free M1) (xs @ [a, nn])" "coalesced (is_free M1) (b' # ys)"
    using new_item_at [OF b a(1) c sz [unfolded a(3)], folded nn_def] by blast
  let ?S1 = "S\<lparr>items := M1\<rparr>" and ?F = "is_free M1"
  have G: "{y \<in> set (?us @ nn # b' # ys). ?F y} - {nn} = {y \<in> set (xs @ a # b' # ys). is_free ?M y}" using M1(4,6) by auto
  have Fn: "?F nn" using M1(4) by simp
  have f1: "free_ok h M1 ({y \<in> set (?us @ nn # b' # ys). ?F y} - {nn}) fs" using same_free_ok [OF M1(3)] f unfolding G by simp
  have b1: "blocks_ok h ?x M1 (?us @ nn # b' # ys)" using M1(2) by simp
  have av1: "available_size ?x = word_of_nat (room ?F (?us @ nn # b' # ys) - gap nn b')" using M1(7) s by (simp add: size_ok_def)
  have co: "coalesced ?F (?us @ [nn])" using M1(9) by simp
  have reg: "region (?us @ nn # b' # ys) = ?R" by (simp add: region_def hd_append)
  obtain S2 d ws fs1 where S2: "shrink_merge h (At nn) ?S1 = Some S2" "frame h ?R ?S1 S2"
    "blocks_ok h ?x (items S2) (?us @ nn # d # ws)" "is_free (items S2) = ?F"
    "free_ok h (items S2) ({y \<in> set (?us @ nn # d # ws). ?F y} - {nn}) fs1" "coalesced ?F (?us @ nn # d # ws)"
    "live ?F (?us @ nn # d # ws) = live ?F (?us @ nn # b' # ys)"
    "heaps S2 h = ?x\<lparr>available_size := word_of_nat (room ?F (?us @ nn # d # ws)) - word_of_nat (gap nn d)\<rparr>"
    "room ?F (?us @ nn # b' # ys) \<le> room ?F (?us @ nn # d # ws)" "last (?us @ nn # d # ws) = last (?us @ nn # b' # ys)"
    using shrink_merge_ok [of h ?S1 ?us nn b' ys fs, unfolded reg] b1 f1 Fn co M1(10) av1 by auto
  let ?bs = "?us @ nn # d # ws" and ?H = "{y \<in> set (?us @ nn # d # ws). ?F y}"
  have hl: "hd ?bs = hd bs" "last ?bs = last bs" using S2(10) bs by (simp_all add: hd_append)
  have "insert nn (?H - {nn}) \<subseteq> ?R" using chain_region [of ?bs] S2(3) hl bs by (auto simp: blocks_ok_def region_def)
  then obtain M3 where M3: "free_insert (FreeHeader h) (At nn) (items S2) = Some M3" "free_ok h M3 (insert nn (?H - {nn})) (nn # fs1)"
    "same_blocks (items S2) M3" "only h ?R (items S2) M3"
    using free_ok_insert [OF S2(5), of nn ?R] by blast
  have H: "insert nn (?H - {nn}) = ?H" using Fn by auto
  have b3: "blocks_ok h ?x M3 ?bs" and F3: "is_free M3 = ?F"
    using same_blocks_ok [OF M3(3)] same_blocks_is_free [OF M3(3)] S2(3,4) by simp_all
  have nsz: "MEMITEM_SIZE (At nn) M3 = Some (word_of_nat (gap nn d))" using blocks_gap(1) [OF b3] .
  let ?S3 = "upd_heap h (\<lambda>x. x\<lparr>available_size := available_size x + word_of_nat (gap nn d)\<rparr>) (S2\<lparr>items := M3\<rparr>)"
  have fl: "free_list (heaps S2 h) = FreeHeader h" using S2(3,8) by (simp add: blocks_ok_def)
  have run: "shrink_locked h ptr sz S = map_option (Pair (Return ptr)) (release_lock h ?S3)"
    using M1(1) S2(1) M3(1) nsz fl a(2) by (simp add: shrink_locked_def header_of_def nn_def map_conv_bind_option comp_def)
  have "room (is_free ?M) bs \<le> room ?F ?bs" using M1(7) S2(9) bs by simp
  then have "pool_size ?x - word_of_nat (room ?F ?bs) \<le> max_used_size ?x"
    using max_grow [OF b3, of "room (is_free ?M) bs" ?F] s bs unfolding size_ok_def by blast
  then have "size_ok (heaps ?S3 h) M3 ?bs" using S2(8) F3 by (simp add: size_ok_def)
  moreover have "blocks_ok h (heaps ?S3 h) M3 ?bs" using b3 S2(8) by simp
  ultimately have "memheap_ok h (heaps ?S3 h) M3 ?bs" using M3(2) S2(6) unfolding memheap_ok_def F3 H by blast
  moreover have "frame h (region bs) S ?S3"
    using S2(2) M1(5) M3(4) bs by (auto simp: frame_def intro: only_trans)
  moreover have "live (is_free M3) ?bs = insert (ptr, unat sz) (live (is_free ?M) bs - {(ptr, n)})"
    using F3 S2(7) M1(8) a bs by simp
  ultimately show ?thesis using run hl by (intro exI [of _ ?S3] exI [of _ ?bs]) simp
qed

section \<open>Growing\<close>

lemma split_unique:
  assumes "distinct (xs @ a # ys)" and "xs @ a # ys = us @ a # vs"
  shows "xs = us" and "ys = vs"
proof -
  have "a \<notin> set xs" "a \<notin> set ys" using assms(1) by auto
  then show "xs = us" "ys = vs" using append_Cons_eq_iff [of a xs ys us vs] assms(2) by auto
qed

text \<open>The start of the free block behind is moved.\<close>

definition can_expand :: "items \<Rightarrow> rt_uint32 list \<Rightarrow> rt_uint32 \<Rightarrow> nat \<Rightarrow> bool" where
  "can_expand M bs ptr k \<longleftrightarrow> (\<exists>xs a b c zs. bs = xs @ a # b # c # zs \<and> ptr = a + 24 \<and> is_free M b \<and> k + 12 < gap a b + gap b c)"

lemma expand_layout:
  assumes b: "blocks_ok h x M (xs @ a # b # c # zs)" and f: "free_ok h M {y \<in> set (xs @ a # b # c # zs). is_free M y} fs"
    and co: "coalesced (is_free M) (xs @ a # b # c # zs)" and F: "\<not> is_free M a" "is_free M b"
    and sz: "12 \<le> unat sz" "4 dvd unat sz" "gap a b < unat sz" "unat sz + 12 < gap a b + gap b c"
  defines "n \<equiv> a + 24 + sz"
  shows "\<exists>M1 M3 M4. free_remove (At b) M = Some M1 \<and> block_remove (At b) M1 = Some (join a c M1)
    \<and> new_item h (At a) (At n) (join a c M1) = Some M3 \<and> free_insert (FreeHeader h) (At n) M3 = Some M4
    \<and> only h (region (xs @ a # b # c # zs)) M M4 \<and> blocks_ok h x M4 (xs @ a # n # c # zs)
    \<and> (\<exists>fs4. free_ok h M4 {y \<in> set (xs @ a # n # c # zs). is_free M4 y} fs4) \<and> coalesced (is_free M4) (xs @ a # n # c # zs)
    \<and> room (is_free M) (xs @ a # b # c # zs) = room (is_free M4) (xs @ a # n # c # zs) + (unat sz - gap a b)
    \<and> live (is_free M4) (xs @ a # n # c # zs) = insert (a + 24, unat sz) (live (is_free M) (xs @ a # b # c # zs) - {(a + 24, gap a b)})"
proof -
  let ?bs = "xs @ a # b # c # zs" and ?cs = "xs @ a # c # zs" and ?F = "is_free M"
  let ?R = "region ?bs" and ?G = "{y \<in> set (xs @ a # b # c # zs). is_free M y}"
  have ch: "chained ?bs" and dist: "distinct ?bs" using b blocks_distinct [OF b] by (simp_all add: blocks_ok_def)
  have in_A: "set ?bs \<subseteq> ?R" using chain_region [OF ch] .
  have reg: "region ?cs = ?R" by (simp add: region_def hd_append)
  have bG: "b \<in> ?G" "?G \<subseteq> ?R" using F(2) in_A by auto
  obtain M1 fs1 where M1: "free_remove (At b) M = Some M1" "free_ok h M1 (?G - {b}) fs1" "same_blocks M M1" "only h ?R M M1"
    using free_ok_remove [OF f bG] by blast
  have b1: "blocks_ok h x M1 ?bs" using same_blocks_ok [OF M1(3)] b by simp
  have r1: "bring M1 ?bs" using b1 by (simp add: blocks_ok_def)
  let ?M2 = "join a c M1"
  note j = blocks_ok_join [OF b1]
  have F2: "is_free ?M2 = ?F" using j(2) same_blocks_is_free [OF M1(3)] by simp
  have g: "gap a c = gap a b + gap b c + 24" "unat a + 24 + gap a b = unat b" "unat b + 24 + gap b c = unat c"
    using blocks_gap(4) [of h x M xs a b "c # zs"] blocks_gap(4) [of h x M "xs @ [a]" b c zs] b by (simp_all add: gap_def)
  have co2: "coalesced (is_free ?M2) ?cs"
    using co F coalesced_seam [of ?F xs a "b # c # zs"] coalesced_seam [of ?F xs a "c # zs"] unfolding F2 by simp
  have sz2: "unat sz + 36 \<le> gap a c" using sz(4) g(1) by simp
  have n: "n = a + sz + 24" by (simp add: n_def)
  obtain M3 where M3: "new_item h (At a) (At n) ?M2 = Some M3" "blocks_ok h x M3 (xs @ a # n # c # zs)" "same_free ?M2 M3"
    "is_free M3 = ?F(n := True)" "only h ?R ?M2 M3" "n \<notin> set ?cs"
    "room (is_free M3) (xs @ a # n # c # zs) = room ?F ?cs + gap n c"
    "live (is_free M3) (xs @ a # n # c # zs) = insert (a + 24, unat sz) (live ?F ?cs - {(a + 24, gap a c)})"
    "coalesced (is_free M3) (xs @ [a, n])" "coalesced (is_free M3) (c # zs)"
    using new_item_at [OF j(1) _ co2 sz(1,2) sz2, unfolded F2, OF F(1), folded n] unfolding reg by blast
  have un: "unat n = unat a + 24 + unat sz"
    using g sz(4) unsigned_less [of c, where ?'a = nat] by (simp add: n_def unat_word_ariths)
  have nb: "n \<noteq> b" using un g(2) sz(3) by auto
  have gn: "gap n c + unat sz = gap a b + gap b c" using un g sz(4) by (simp add: gap_def)
  have f3: "free_ok h M3 (?G - {b}) fs1"
    using same_free_ok [OF M3(3)] same_free_ok [of M1 ?M2] M1(2) by simp
  have nA: "n \<in> ?R" using chain_region [of "xs @ a # n # c # zs"] M3(2) by (auto simp: blocks_ok_def region_def hd_append)
  obtain M4 where M4: "free_insert (FreeHeader h) (At n) M3 = Some M4" "free_ok h M4 (insert n (?G - {b})) (n # fs1)"
    "same_blocks M3 M4" "only h ?R M3 M4"
    using free_ok_insert [OF f3, of n ?R] M3(6) nb nA bG(2) by auto
  have F4: "is_free M4 = ?F(n := True)" and b4: "blocks_ok h x M4 (xs @ a # n # c # zs)"
    using same_blocks_is_free [OF M4(3)] same_blocks_ok [OF M4(3)] M3(2,4) by simp_all
  have "{y \<in> set (xs @ a # n # c # zs). is_free M4 y} = insert n (?G - {b})" using F4 dist F by auto
  then have f4: "\<exists>fs4. free_ok h M4 {y \<in> set (xs @ a # n # c # zs). is_free M4 y} fs4" using M4(2) by auto
  have Fc: "\<not> is_free M3 c" using co F(2) coalesced_seam [of ?F xs a "b # c # zs"] M3(4,6) by auto
  have co4: "coalesced (is_free M4) (xs @ a # n # c # zs)"
    using coalesced_seam [of "is_free M3" "xs @ [a]" n "c # zs"] M3(4,9,10) Fc F4 by simp
  have rm: "room ?F ?bs = room ?F ?cs + gap b c"
    using room_seam [of ?F xs a "b # c # zs"] room_seam [of ?F xs a "c # zs"] F by simp
  have lv: "live ?F ?bs - {(a + 24, gap a b)} = live ?F ?cs - {(a + 24, gap a c)}"
    using live_others [OF b F(1)] live_others [OF j(1), unfolded F2, OF F(1)] F(2) by simp
  have o: "only h ?R M M4"
    using only_trans [OF only_trans [OF only_trans [OF M1(4) only_join [of a c]] M3(5)] M4(4)] in_A by simp
  have "room ?F ?bs = room (is_free M4) (xs @ a # n # c # zs) + (unat sz - gap a b)" using rm M3(4,7) F4 gn sz(3) by simp
  then show ?thesis
    using M1(1) merge_right_join(2) [OF r1] M3(1) M4(1) o b4 f4 co4 lv M3(4,8) F4
    by (intro exI [of _ M1] exI [of _ M3] exI [of _ M4]) simp
qed

text \<open>The decision between the two ways to grow.\<close>

lemma expand_decides:
  assumes b: "blocks_ok h x M (xs @ a # b # ys)" and sz: "unat sz + 12 < 2 ^ 32"
  defines "test \<equiv> (if \<not> RT_MEMHEAP_IS_USED (M (At b)) then
      do {
        nextsize \<leftarrow> MEMITEM_SIZE (At b) M;
        RT_ASSERT (b > 0);
        Some (nextsize + word_of_nat (gap a b) > sz + RT_MEMHEAP_MINIALLOC)
      }
    else Some False)"
  shows "test = Some (can_expand M (xs @ a # b # ys) (a + 24) (unat sz))" and "b > a"
proof -
  have ch: "chained (xs @ a # b # ys)" and dist: "distinct (xs @ a # b # ys)" using b blocks_distinct [OF b] by (simp_all add: blocks_ok_def)
  show ba: "b > a" using blocks_gap(4) [OF b] by (simp add: word_less_nat_alt)
  have same: "b = b' \<and> ys = ws" if eq: "xs @ a # b # ys = us @ a' # b' # ws" and aa: "a + 24 = a' + 24" for us a' b' ws
    using split_unique(2) [OF dist, of us "b' # ws"] that by simp
  show "test = Some (can_expand M (xs @ a # b # ys) (a + 24) (unat sz))"
  proof (cases "is_free M b")
    case False
    then have "\<not> can_expand M (xs @ a # b # ys) (a + 24) (unat sz)" using same by (fastforce simp: can_expand_def)
    with False show ?thesis by (simp add: test_def is_free_def)
  next
    case True
    then have "b \<noteq> last (xs @ a # b # ys)" using b by (auto simp: blocks_ok_def)
    then obtain c zs where ys: "ys = c # zs" by (cases ys) auto
    note g1 = blocks_gap [of h x M xs a b "c # zs"] and g2 = blocks_gap [of h x M "xs @ [a]" b c zs]
    have "gap a b + gap b c < 2 ^ 32" using g1(4) g2(4) b ys unsigned_less [of c, where ?'a = nat] by simp
    then have "unat (word_of_nat (gap b c) + word_of_nat (gap a b) :: rt_uint32) = gap a b + gap b c"
      using g1(2) g2(2) b ys by (simp add: unat_word_ariths)
    moreover have "unat (sz + 12) = unat sz + 12" using sz by (simp add: unat_word_ariths)
    ultimately have "word_of_nat (gap b c) + word_of_nat (gap a b) > sz + 12 \<longleftrightarrow> unat sz + 12 < gap a b + gap b c"
      by (simp add: word_less_nat_alt)
    moreover have "can_expand M (xs @ a # b # ys) (a + 24) (unat sz) \<longleftrightarrow> unat sz + 12 < gap a b + gap b c"
    proof
      assume "can_expand M (xs @ a # b # ys) (a + 24) (unat sz)"
      then obtain us a' b' c' ws where e: "xs @ a # b # ys = us @ a' # b' # c' # ws" "a + 24 = a' + 24"
        "unat sz + 12 < gap a' b' + gap b' c'" by (auto simp: can_expand_def)
      with same [OF e(1,2)] ys show "unat sz + 12 < gap a b + gap b c" by simp
    next
      assume "unat sz + 12 < gap a b + gap b c"
      with True ys show "can_expand M (xs @ a # b # ys) (a + 24) (unat sz)" by (auto simp: can_expand_def)
    qed
    moreover have "MEMITEM_SIZE (At b) M = Some (word_of_nat (gap b c))" using g2(1) b ys by simp
    moreover have "b > 0" using ba by (simp add: word_less_nat_alt)
    ultimately show ?thesis using True by (simp add: test_def is_free_def)
  qed
qed

lemma expand_locked_ok:
  assumes ok: "memheap_ok h (heaps S h) (items S) bs" and p: "(ptr, n) \<in> live (is_free (items S)) bs"
    and sz: "n < unat sz" "4 dvd unat sz" "unat sz + 12 < 2 ^ 32"
  shows "if can_expand (items S) bs ptr (unat sz)
    then \<exists>S1 bs'. expand_locked h ptr (word_of_nat n) sz S = map_option (Pair (Return ptr)) (release_lock h S1)
      \<and> frame h (region bs) S S1 \<and> memheap_ok h (heaps S1 h) (items S1) bs' \<and> hd bs' = hd bs \<and> last bs' = last bs
      \<and> live (is_free (items S1)) bs' = insert (ptr, unat sz) (live (is_free (items S)) bs - {(ptr, n)})
    else expand_locked h ptr (word_of_nat n) sz S = Option.bind (release_lock h S) (realloc_move h ptr (word_of_nat n) sz)"
proof -
  let ?x = "heaps S h" and ?M = "items S"
  obtain fs where b: "blocks_ok h ?x ?M bs" and f: "free_ok h ?M {y \<in> set bs. is_free ?M y} fs" and s: "size_ok ?x ?M bs"
    and c: "coalesced (is_free ?M) bs" using ok by (auto simp: memheap_ok_def)
  obtain xs a b' ys where bs: "bs = xs @ a # b' # ys" and a: "\<not> is_free ?M a" "ptr = a + 24" "n = gap a b'"
    using live_pair [OF p] by blast
  note b = b [unfolded bs]
  have nx: "inext (?M (At a)) = At b'" using bring_pair(1) [of ?M xs a b' ys] b by (simp add: blocks_ok_def)
  note g = blocks_gap [OF b]
  have sz12: "12 \<le> unat sz" using g(3) a(3) sz(1) by simp
  note dec = expand_decides [OF b sz(3)]
  have fl: "free_list ?x = FreeHeader h" using b by (simp add: blocks_ok_def)
  show ?thesis
  proof (cases "can_expand ?M bs ptr (unat sz)")
    case False
    then have "expand_locked h ptr (word_of_nat n) sz S = Option.bind (release_lock h S) (realloc_move h ptr (word_of_nat n) sz)"
      using dec nx a(2,3) bs by (simp add: expand_locked_def header_of_def ld_def)
    with False show ?thesis by simp
  next
    case True
    then obtain us a' b'' d zs where e: "bs = us @ a' # b'' # d # zs" "a + 24 = a' + 24" "is_free ?M b''"
      "unat sz + 12 < gap a' b'' + gap b'' d" by (auto simp: can_expand_def a(2))
    have "distinct bs" using blocks_distinct [OF b] bs by simp
    with e bs have ys: "ys = d # zs" "b'' = b'" "a' = a" using split_unique(2) [of xs a "b' # ys" us "b'' # d # zs"] by auto
    note b = b [unfolded ys(1)] and f = f [unfolded bs ys(1)] and c = c [unfolded bs ys(1)]
    have lim: "gap a b' < unat sz" "unat sz + 12 < gap a b' + gap b' d" and Fb: "is_free ?M b'" using sz(1) a(3) e ys by simp_all
    let ?n = "a + 24 + sz"
    let ?cs = "xs @ a # ?n # d # zs"
    obtain M1 M3 M4 where M: "free_remove (At b') ?M = Some M1" "block_remove (At b') M1 = Some (join a d M1)"
      "new_item h (At a) (At ?n) (join a d M1) = Some M3" "free_insert (FreeHeader h) (At ?n) M3 = Some M4"
      and o: "only h (region bs) ?M M4" and b4: "blocks_ok h ?x M4 ?cs"
      and f4: "\<exists>fs4. free_ok h M4 {y \<in> set ?cs. is_free M4 y} fs4" and c4: "coalesced (is_free M4) ?cs"
      and rm: "room (is_free ?M) bs = room (is_free M4) ?cs + (unat sz - gap a b')"
      and lv: "live (is_free M4) ?cs = insert (a + 24, unat sz) (live (is_free ?M) bs - {(a + 24, gap a b')})"
      using expand_layout [OF b f c a(1) Fb sz12 sz(2) lim] unfolding bs ys(1) by blast
    let ?S1 = "(upd_heap h (\<lambda>x. set_available (available_size x - (sz - word_of_nat n)) x) S)\<lparr>items := M4\<rparr>"
    have run: "expand_locked h ptr (word_of_nat n) sz S = map_option (Pair (Return ptr)) (release_lock h ?S1)"
      using dec nx a(2,3) bs True M fl
      by (simp add: expand_locked_def header_of_def ld_def map_conv_bind_option comp_def)
    have "word_of_nat (unat sz - n) = sz - (word_of_nat n :: rt_uint32)" using sz(1) by (simp add: of_nat_diff)
    then have "size_ok (heaps ?S1 h) M4 ?cs"
      using s rm a(3) set_available_max [of ?x] by (simp add: size_ok_def)
    then have "memheap_ok h (heaps ?S1 h) (items ?S1) ?cs" using b4 f4 c4 by (simp add: memheap_ok_def)
    moreover have "frame h (region bs) S ?S1" using o by (simp add: frame_def)
    moreover have "hd ?cs = hd bs" "last ?cs = last bs" using bs ys by (simp_all add: hd_append)
    ultimately show ?thesis
      using True run lv a(2,3) by (simp only: if_True) (intro exI [of _ ?S1] exI [of _ ?cs], simp)
  qed
qed

section \<open>The call\<close>

lemma align_word: "(y AND NOT 3) + (y AND 3) = y" for y :: rt_uint32
  by (subst disjunctive_add_eq_or) (simp_all add: bit_eq_iff bit_simps, blast)

lemma align_ge:
  assumes "unat n \<le> 2 ^ 32 - 4"
  shows "unat n \<le> unat (request_size n)"
proof -
  have y: "unat (n + 3) = unat n + 3" using assms by (simp add: unat_word_ariths)
  have "unat (n + 3) \<le> unat ((n + 3) AND NOT 3) + unat ((n + 3) AND 3)"
    by (subst align_word [of "n + 3", symmetric]) (simp only: unat_word_ariths mod_less_eq_dividend)
  moreover have "(n + 3) AND 3 \<le> 3" by (rule word_and_le1)
  ultimately have "unat n \<le> unat ((n + 3) AND NOT 3)" using y by (simp add: word_le_nat_alt)
  then show ?thesis by (auto simp: request_size_def RT_ALIGN_def RT_ALIGN_SIZE_def Let_def word_less_nat_alt add.commute [of 3 n])
qed

lemma request_again: "request_size (request_size n) = request_size n"
proof -
  have "RT_ALIGN x RT_ALIGN_SIZE = x" if "4 dvd unat x" for x
  proof -
    have x: "x AND 3 = 0" using that aligned_bits by simp
    then have "x + 3 = x OR 3" by (rule disjunctive_add_eq_or)
    moreover have "(x OR 3) AND NOT 3 = x"
    proof (rule bit_word_eqI)
      fix i
      have "\<not> (bit x i \<and> bit (3 :: rt_uint32) i)" using x by (metis bit_and_iff bit_0_eq bot_apply bot_bool_def)
      then show "bit ((x OR 3) AND NOT 3) i = bit x i" if "i < LENGTH(32)" using that by (auto simp: bit_simps)
    qed
    ultimately show ?thesis by (simp add: RT_ALIGN_def RT_ALIGN_SIZE_def add.commute [of 3 x])
  qed
  from this [OF request_ok(2) [of n]] show ?thesis
    using request_ok(1) [of n] unfolding request_size_def [of "request_size n"] by (simp add: Let_def word_less_nat_alt)
qed

text \<open>The contents of a block.\<close>

definition block_bytes :: "mstate \<Rightarrow> rt_uint32 \<Rightarrow> nat \<Rightarrow> rt_uint8 list" where
  "block_bytes S p n = map (\<lambda>i. mbytes S (p + word_of_nat i)) [0..<n]"

lemma block_bytes_take: "k \<le> n \<Longrightarrow> take k (block_bytes S p n) = block_bytes S p k"
  by (simp add: block_bytes_def take_map)

lemma block_bytes_same: "mbytes S' = mbytes S \<Longrightarrow> block_bytes S' = block_bytes S"
  by (simp add: block_bytes_def fun_eq_iff)

lemma copy_offset:
  assumes "n < 2 ^ 32" and "i < n"
  shows "mem_copy d s (word_of_nat n) B (d + word_of_nat i) = B (s + word_of_nat i)"
  using assms by (simp add: mem_copy_def word_less_nat_alt unat_of_nat)

lemma copy_outside:
  assumes x: "unat x + 1 \<le> unat d \<or> unat d + n \<le> unat x" and n: "unat d + n \<le> 2 ^ 32"
  shows "mem_copy d s (word_of_nat n) B x = B x"
proof -
  have "\<not> x - d < word_of_nat n"
  proof (cases "unat d \<le> unat x")
    case True
    then have "unat (x - d) = unat x - unat d" by (simp add: unat_sub word_le_nat_alt)
    moreover have "unat (word_of_nat n :: rt_uint32) \<le> n" by (simp add: unat_of_nat)
    ultimately show ?thesis using x True by (auto simp: word_less_nat_alt)
  next
    case False
    then have "unat (x - d) = 2 ^ 32 + unat x - unat d" using unsigned_less [of d, where ?'a = nat] by (simp add: unat_sub_if_size word_size)
    moreover have "unat (word_of_nat n :: rt_uint32) \<le> n" by (simp add: unat_of_nat)
    ultimately show ?thesis using n by (auto simp: word_less_nat_alt)
  qed
  then show ?thesis by (simp add: mem_copy_def)
qed

lemma rep_bytes [simp]: "heap_rep h (S\<lparr>mbytes := B\<rparr>) L = heap_rep h S L" "heap_area h (S\<lparr>mbytes := B\<rparr>) = heap_area h S"
  by (simp_all add: heap_rep_def unlocked_def heap_area_def)

lemma rep_size:
  assumes rep: "heap_rep h S L" and p: "(ptr, n) \<in> L"
  shows "MEMITEM_SIZE (header_of ptr) (items S) = Some (word_of_nat n)" and "unat (word_of_nat n :: rt_uint32) = n"
proof -
  obtain bs where ok: "memheap_ok h (heaps S h) (items S) bs" and L: "live (is_free (items S)) bs = L"
    using rep by (auto simp: heap_rep_def)
  obtain xs a d ys where a: "bs = xs @ a # d # ys" "ptr = a + 24" "n = gap a d" using live_pair p L by blast
  have "blocks_ok h (heaps S h) (items S) (xs @ a # d # ys)" using ok a(1) by (simp add: memheap_ok_def)
  from blocks_gap(1,2) [OF this] a show "MEMITEM_SIZE (header_of ptr) (items S) = Some (word_of_nat n)"
    "unat (word_of_nat n :: rt_uint32) = n" by (simp_all add: header_of_def)
qed

text \<open>A new block is filled with the contents of the old one, and no other block is touched.\<close>

lemma copy_blocks:
  assumes rep: "heap_rep h S1 (insert (r, m) L)" and new: "(r, m) \<notin> L" and n: "n \<le> m" and B: "mbytes S1 = mbytes S"
    and S2: "mbytes S2 = mem_copy r ptr (word_of_nat n) (mbytes S1)"
  shows "block_bytes S2 r n = block_bytes S ptr n" and "(q, k) \<in> L \<Longrightarrow> block_bytes S2 q k = block_bytes S q k"
proof -
  have m: "unat r + m + 24 \<le> unat (start_addr (heaps S1 h)) + unat (pool_size (heaps S1 h))"
    using rep_blocks(5) [OF rep, of r m] by simp
  have top: "unat (start_addr (heaps S1 h)) + unat (pool_size (heaps S1 h)) \<le> 2 ^ 32"
    using rep by (auto simp: heap_rep_def memheap_ok_def blocks_ok_def)
  have r: "0 < unat r" using rep_blocks(4) [OF rep, of r m] by simp
  show "block_bytes S2 r n = block_bytes S ptr n"
    using copy_offset [of n _ r ptr "mbytes S1"] m top n r by (simp add: block_bytes_def S2 B)
  show "block_bytes S2 q k = block_bytes S q k" if q: "(q, k) \<in> L"
  proof -
    have "(q, k) \<noteq> (r, m)" using q new by auto
    then have dis: "unat q + k \<le> unat r \<or> unat r + m \<le> unat q" using rep_apart [OF rep] q by (auto simp: apart_def)
    have qk: "unat q + k + 24 \<le> unat (start_addr (heaps S1 h)) + unat (pool_size (heaps S1 h))"
      using rep_blocks(5) [OF rep, of q k] q by simp
    have "mbytes S2 (q + word_of_nat i) = mbytes S (q + word_of_nat i)" if i: "i < k" for i
    proof -
      have "unat (q + word_of_nat i) = unat q + i" using i qk top by (simp add: unat_word_ariths unat_of_nat)
      then show ?thesis using copy_outside [of "q + word_of_nat i" r n ptr "mbytes S1"] dis i n m top by (auto simp: S2 B)
    qed
    then show ?thesis by (simp add: block_bytes_def)
  qed
qed

text \<open>
  What a successful change of the size to \<open>k\<close> bytes promises: the block \<open>(ptr, n)\<close> is replaced by one of at least \<open>k\<close> bytes at \<open>r\<close>
  with the same contents, and the contents of all other blocks are kept.
\<close>

definition resized :: "nat \<Rightarrow> mstate \<Rightarrow> (rt_uint32 \<times> nat) set \<Rightarrow> rt_uint32 \<Rightarrow> nat \<Rightarrow> nat \<Rightarrow> rt_uint32 \<Rightarrow> mstate \<Rightarrow> bool" where
  "resized h S L ptr n k r S' \<longleftrightarrow> frame h (heap_area h S) S (S'\<lparr>mbytes := mbytes S\<rparr>) \<and> heap_area h S' = heap_area h S
     \<and> (\<exists>m. k \<le> m \<and> heap_rep h S' (insert (r, m) (L - {(ptr, n)})))
     \<and> block_bytes S' r (min n k) = block_bytes S ptr (min n k)
     \<and> (\<forall>(q, j)\<in>L - {(ptr, n)}. block_bytes S' q j = block_bytes S q j)"

lemma release_same: "unlocked h S \<Longrightarrow> release_lock h (taken h S) = Some S"
  using release_taken(1) [of h S "{}" "taken h S"] by (simp add: frame_def taken_def)

lemma resized_same:
  assumes "frame h (heap_area h S) S S'" and "heap_area h S' = heap_area h S" and "k \<le> m" and "heap_rep h S' (insert (ptr, m) (L - {(ptr, n)}))"
  shows "resized h S L ptr n k ptr S'"
proof -
  have "mbytes S' = mbytes S" "frame h (heap_area h S) S (S'\<lparr>mbytes := mbytes S\<rparr>)" using assms(1) by (simp_all add: frame_def)
  then show ?thesis using assms(2-4) block_bytes_same [of S' S] by (auto simp: resized_def)
qed

lemma realloc_move_rep:
  assumes rep: "heap_rep h S L" and p: "(ptr, n) \<in> L" and sz: "n < unat sz" "request_size sz = sz"
  shows "\<exists>r S'. realloc_move h ptr (word_of_nat n) sz S = Some (Return r, S')
    \<and> (if r = 0 then S' = S else resized h S L ptr n (unat sz) r S')"
proof -
  obtain r S1 where al: "rt_memheap_alloc h sz S = Some (Return r, S1)" "frame h (heap_area h S) S S1" "heap_area h S1 = heap_area h S"
    and res: "(r = 0 \<and> S1 = S) \<or> (\<exists>m. unat sz \<le> m \<and> r \<noteq> 0 \<and> (r, m) \<notin> L \<and> heap_rep h S1 (insert (r, m) L))"
    using memheap_alloc_rep [OF rep, of sz] sz(2) by (metis (no_types, lifting))
  show ?thesis
  proof (cases "r = 0")
    case True
    with al res show ?thesis by (simp add: realloc_move_def realloc_copy_def)
  next
    case False
    with res obtain m where m: "unat sz \<le> m" "(r, m) \<notin> L" "heap_rep h S1 (insert (r, m) L)" by blast
    have "(word_of_nat n :: rt_uint32) < sz" using rep_size(2) [OF rep p] sz(1) by (simp add: word_less_nat_alt)
    then have sel: "(if (word_of_nat n :: rt_uint32) < sz then word_of_nat n else sz) = word_of_nat n" by simp
    let ?S2 = "S1\<lparr>mbytes := mem_copy r ptr (word_of_nat n) (mbytes S1)\<rparr>"
    have rep2: "heap_rep h ?S2 (insert (r, m) L)" using m(3) by simp
    obtain S' where S': "rt_memheap_free ptr ?S2 = Some (Return (), S')" "frame h (heap_area h S) ?S2 S'" "heap_area h S' = heap_area h S"
      "heap_rep h S' (insert (r, m) L - {(ptr, n)})"
      using memheap_free_rep [OF rep2, of ptr n] p al(3) by auto
    have run: "realloc_move h ptr (word_of_nat n) sz S = Some (Return r, S')"
      using al(1) False S'(1) sel by (simp add: realloc_move_def realloc_copy_def)
    have L: "insert (r, m) L - {(ptr, n)} = insert (r, m) (L - {(ptr, n)})" using m(2) p by auto
    have B: "mbytes S1 = mbytes S" "mbytes S' = mem_copy r ptr (word_of_nat n) (mbytes S1)" using al(2) S'(2) by (simp_all add: frame_def)
    have nm: "n \<le> m" using m(1) sz(1) by simp
    note cp = copy_blocks [OF m(3,2) nm B]
    have fr: "frame h (heap_area h S) S (S'\<lparr>mbytes := mbytes S\<rparr>)"
      using al(2) S'(2) by (auto simp: frame_def intro: only_trans)
    have "resized h S L ptr n (unat sz) r S'"
      using fr S'(3,4) m(1) cp sz(1) unfolding resized_def L by auto
    with run False show ?thesis by auto
  qed
qed

lemma memheap_realloc_rep:
  assumes rep: "heap_rep h S L" and p: "(ptr, n) \<in> L" and sz: "newsize \<noteq> 0" "unat (request_size newsize) + 12 < 2 ^ 32"
  shows "\<exists>r S'. rt_memheap_realloc h ptr newsize S = Some (Return r, S')
    \<and> (if r = 0 then S' = S else resized h S L ptr n (unat (request_size newsize)) r S')"
proof -
  let ?k = "request_size newsize"
  obtain bs where ok: "memheap_ok h (heaps S h) (items S) bs" and L: "live (is_free (items S)) bs = L" and u: "unlocked h S"
    using rep by (auto simp: heap_rep_def)
  have nz: "ptr \<noteq> 0" using rep_blocks(2) [OF rep p] .
  note old = rep_size [OF rep p]
  have start: "rt_memheap_realloc h ptr newsize S =
    (if ?k > word_of_nat n then with_lock h 0 (expand_locked h ptr (word_of_nat n) ?k) S
     else if ?k + 24 + 12 \<ge> word_of_nat n then Some (Return ptr, S) else with_lock h 0 (shrink_locked h ptr ?k) S)"
    using sz(1) nz old(1) by (simp add: rt_memheap_realloc_def Let_def)
  have in_place: ?thesis if body: "rt_memheap_realloc h ptr newsize S = Option.bind (release_lock h S1) (\<lambda>S2. Some (Return ptr, S2))"
      and fr: "frame h (region bs) (taken h S) S1" and new: "memheap_ok h (heaps S1 h) (items S1) bs'" "hd bs' = hd bs" "last bs' = last bs"
      and lv: "live (is_free (items S1)) bs' = insert (ptr, unat ?k) (L - {(ptr, n)})" for S1 bs'
  proof -
    note st = rep_step [OF rep ok fr new]
    have "resized h S L ptr n (unat ?k) ptr (S1\<lparr>mkern := mkern S\<rparr>)"
      using resized_same [OF st(2,3) order_refl] st(1) lv by simp
    with body release_taken(1) [OF u fr] nz show ?thesis by auto
  qed
  consider (grow) "n < unat ?k" | (keep) "unat ?k \<le> n" "n \<le> unat ?k + 36" | (shrink) "unat ?k + 36 < n" by linarith
  then show ?thesis
  proof cases
    case grow
    then have call: "rt_memheap_realloc h ptr newsize S = expand_locked h ptr (word_of_nat n) ?k (taken h S)"
      using start old(2) with_lock_free [OF u] by (simp add: word_less_nat_alt)
    have e: "if can_expand (items S) bs ptr (unat ?k)
      then \<exists>S1 bs'. expand_locked h ptr (word_of_nat n) ?k (taken h S) = map_option (Pair (Return ptr)) (release_lock h S1)
        \<and> frame h (region bs) (taken h S) S1 \<and> memheap_ok h (heaps S1 h) (items S1) bs' \<and> hd bs' = hd bs \<and> last bs' = last bs
        \<and> live (is_free (items S1)) bs' = insert (ptr, unat ?k) (L - {(ptr, n)})
      else expand_locked h ptr (word_of_nat n) ?k (taken h S)
        = Option.bind (release_lock h (taken h S)) (realloc_move h ptr (word_of_nat n) ?k)"
      using expand_locked_ok [of h "taken h S" bs ptr n ?k, unfolded taken_fields L, OF ok p grow request_ok(2) sz(2)] .
    show ?thesis
    proof (cases "can_expand (items S) bs ptr (unat ?k)")
      case True
      with e obtain S1 bs' where "expand_locked h ptr (word_of_nat n) ?k (taken h S) = map_option (Pair (Return ptr)) (release_lock h S1)"
        "frame h (region bs) (taken h S) S1" "memheap_ok h (heaps S1 h) (items S1) bs'" "hd bs' = hd bs" "last bs' = last bs"
        "live (is_free (items S1)) bs' = insert (ptr, unat ?k) (L - {(ptr, n)})" by auto
      with call show ?thesis by (intro in_place [of S1 bs']) (simp_all add: map_conv_bind_option comp_def)
    next
      case False
      with e call release_same [OF u] have "rt_memheap_realloc h ptr newsize S = realloc_move h ptr (word_of_nat n) ?k S" by simp
      with realloc_move_rep [OF rep p grow request_again] show ?thesis by simp
    qed
  next
    case keep
    have "unat (?k + 24 + 12) = unat ?k + 36"
      using keep(1) rep_blocks(4,5) [OF rep p] rep by (auto simp: heap_rep_def memheap_ok_def blocks_ok_def unat_word_ariths)
    then have "rt_memheap_realloc h ptr newsize S = Some (Return ptr, S)"
      using start old(2) keep by (simp add: word_less_nat_alt word_le_nat_alt)
    moreover have "insert (ptr, n) (L - {(ptr, n)}) = L" using p by auto
    ultimately show ?thesis using resized_same [of h S S "unat ?k" n ptr L n] keep(1) rep nz by (auto simp: frame_def)
  next
    case shrink
    have "unat (?k + 24 + 12) = unat ?k + 36"
      using shrink rep_blocks(5) [OF rep p] rep by (auto simp: heap_rep_def memheap_ok_def blocks_ok_def unat_word_ariths)
    then have call: "rt_memheap_realloc h ptr newsize S = shrink_locked h ptr ?k (taken h S)"
      using start old(2) shrink with_lock_free [OF u] by (simp add: word_less_nat_alt word_le_nat_alt)
    have "unat ?k + 36 \<le> n" using shrink by simp
    from shrink_locked_ok [of h "taken h S" bs ptr n ?k, unfolded taken_fields L, OF ok p request_ok this]
    obtain S1 bs' where "shrink_locked h ptr ?k (taken h S) = map_option (Pair (Return ptr)) (release_lock h S1)"
      "frame h (region bs) (taken h S) S1" "memheap_ok h (heaps S1 h) (items S1) bs'" "hd bs' = hd bs" "last bs' = last bs"
      "live (is_free (items S1)) bs' = insert (ptr, unat ?k) (L - {(ptr, n)})" by blast
    with call show ?thesis by (intro in_place [of S1 bs']) (simp_all add: map_conv_bind_option comp_def)
  qed
qed

end
