(* ===== verification/Rt_Heap_Client.thy ===== *)
theory Rt_Heap_Client
  imports Rt_Heap_Realloc
begin

text \<open>
  A memory heap over the life of a program: initialisation, sequences of calls, several heaps, and what
  requests out of range and a second release of a block lead to.
\<close>

section \<open>Initialisation\<close>

lemma memheap_init_rep:
  fixes sz :: rt_uint32
  defines "psize \<equiv> RT_ALIGN_DOWN sz RT_ALIGN_SIZE"
  assumes addr: "4 dvd unat addr" "0 < unat addr" and sz: "60 \<le> unat psize" "unat addr + unat sz \<le> 2 ^ 32"
  shows "\<exists>S'. rt_memheap_init h nm addr sz S = Some (0, S') \<and> heap_rep h S' {} \<and> start_addr (heaps S' h) = addr
    \<and> pool_size (heaps S' h) = psize \<and> mbytes S' = mbytes S \<and> (\<forall>k. k \<noteq> h \<longrightarrow> heaps S' k = heaps S k)
    \<and> (\<forall>l. l \<noteq> lock (heaps S h) \<longrightarrow> sems (mkern S') l = sems (mkern S) l
        \<and> lst (tlists (mkern S')) (SuspendQ (OSem l)) = lst (tlists (mkern S)) (SuspendQ (OSem l)))
    \<and> only h {a. unat addr \<le> unat a \<and> unat a + 24 \<le> unat addr + unat psize} (items S) (items S')"
proof -
  define avail where "avail = psize - 48"
  define t where "t = addr + avail + 24"
  define fl where "fl = FreeHeader h"
  define M2 where "M2 = (items S)(fl := \<lparr>magic = RT_MEMHEAP_MAGIC, pool_ptr = h, inext = NullItem, iprev = NullItem, next_free = fl, prev_free = fl\<rparr>,
    At addr := \<lparr>magic = RT_MEMHEAP_MAGIC, pool_ptr = h, inext = At t, iprev = At t, next_free = At addr, prev_free = At addr\<rparr>)"
  have le: "unat psize \<le> unat sz" using align_down_le [of sz RT_ALIGN_SIZE] by (simp add: psize_def)
  have t: "unat t = unat addr + unat psize - 24"
  proof -
    have "unat avail = unat psize - 48" using sz(1) by (simp add: avail_def unat_sub word_le_nat_alt)
    then show ?thesis using sz le by (simp add: t_def unat_word_ariths)
  qed
  have tn: "t \<noteq> addr" using t sz(1) by auto
  have "dlist (fh M2) fl []" by (simp add: dlist_def M2_def fl_def)
  moreover have "At addr \<notin> set [fl]" "NullItem \<notin> set [At addr, fl]" by (simp_all add: fl_def)
  ultimately obtain M3 where M3: "free_insert fl (At addr) M2 = Some M3" "dlist (fh M3) fl [At addr]" "same_blocks M2 M3"
    "\<forall>q. q \<notin> {At addr, fl} \<longrightarrow> M3 q = M2 q" using free_insert_ok [of M2 fl "[]" "At addr"] by auto
  define M4 where "M4 = M3(At t := \<lparr>magic = RT_MEMHEAP_MAGIC OR RT_MEMHEAP_USED, pool_ptr = h, inext = At addr, iprev = At addr,
    next_free = NullItem, prev_free = NullItem\<rparr>)"
  define x where "x = (heaps S h)\<lparr>start_addr := addr, pool_size := psize, available_size := avail, max_used_size := psize - avail,
    block_list := At addr, free_list := fl\<rparr>"
  define k where "k = snd (rt_sem_init (lock x) nm 1 RT_IPC_FLAG_FIFO (rt_object_init (OMemheap h) RT_Object_Class_MemHeap nm (mkern S)))"
  let ?S = "S\<lparr>mkern := k, heaps := (heaps S)(h := x), items := M4\<rparr>"
  have run: "rt_memheap_init h nm addr sz S = Some (0, ?S)"
    using M3(1) by (simp add: rt_memheap_init_def Let_def case_prod_beta psize_def avail_def fl_def t_def M2_def M4_def x_def k_def)
  have i0: "inext (M4 (At addr)) = At t" "iprev (M4 (At addr)) = At t" "magic (M4 (At addr)) = RT_MEMHEAP_MAGIC" "pool_ptr (M4 (At addr)) = h"
    using M3(3) tn by (simp_all add: same_blocks_def M4_def M2_def)
  have F: "is_free M4 addr" "\<not> is_free M4 t" using i0(3) by (simp_all add: is_free_def RT_MEMHEAP_IS_USED_def M4_def)
  have "bring M4 [addr, t]" using i0 tn by (simp add: bring_def dlist_def M4_def)
  then have "blocks_ok h x M4 [addr, t]"
    using t sz le addr i0 F align_dvd(2) [of sz] tn by (auto simp: blocks_ok_def x_def fl_def M4_def psize_def dvd_diff_nat)
  moreover have "free_ok h M4 {a \<in> set [addr, t]. is_free M4 a} [addr]"
  proof -
    have "dlist (fh M4) fl [At addr] = dlist (fh M3) fl [At addr]" by (rule dlist_cong) (use tn in \<open>auto simp: M4_def fl_def\<close>)
    moreover have "{a \<in> set [addr, t]. is_free M4 a} = {addr}" using F by auto
    ultimately show ?thesis using M3(2) by (simp add: free_ok_def fl_def)
  qed
  moreover have "size_ok x M4 [addr, t]"
  proof -
    have "gap addr t = unat avail" using t sz(1) by (simp add: gap_def avail_def unat_sub word_le_nat_alt)
    then show ?thesis using F by (simp add: size_ok_def x_def)
  qed
  ultimately have "memheap_ok h x M4 [addr, t]" using F by (auto simp: memheap_ok_def)
  moreover have "live (is_free M4) [addr, t] = {}" using F by simp
  moreover have "unlocked h ?S"
    using sem_init_ok [of "lock x" nm 1 RT_IPC_FLAG_FIFO "rt_object_init (OMemheap h) RT_Object_Class_MemHeap nm (mkern S)", folded k_def]
    by (simp add: unlocked_def sem_ok_def)
  moreover have "pool_size x = psize" by (simp add: x_def)
  ultimately have "heap_rep h ?S {}" using sz(1) unfolding heap_rep_def by auto
  moreover have "only h {a. unat addr \<le> unat a \<and> unat a + 24 \<le> unat addr + unat psize} (items S) M4"
    using M3(4) t sz by (auto simp: only_def M4_def M2_def fl_def)
  moreover have "sems k l = sems (mkern S) l" "lst (tlists k) (SuspendQ (OSem l)) = lst (tlists (mkern S)) (SuspendQ (OSem l))"
    if "l \<noteq> lock (heaps S h)" for l
    using that by (simp_all add: k_def x_def rt_sem_init_def rt_ipc_object_init_def rt_object_init_def Let_def)
  ultimately show ?thesis using run by (intro exI [of _ ?S]) (simp add: x_def)
qed

text \<open>When no block is in use the heap is one free block.\<close>

lemma rep_empty:
  assumes "heap_rep h S {}"
  shows "available_size (heaps S h) = pool_size (heaps S h) - 48" and "heap_fits h S (unat (pool_size (heaps S h)) - 48)"
proof -
  let ?F = "is_free (items S)"
  obtain bs where ok: "memheap_ok h (heaps S h) (items S) bs" and L: "live ?F bs = {}" and p: "60 \<le> unat (pool_size (heaps S h))"
    using assms by (auto simp: heap_rep_def)
  have b: "blocks_ok h (heaps S h) (items S) bs" and c: "coalesced ?F bs" and s: "size_ok (heaps S h) (items S) bs"
    using ok by (simp_all add: memheap_ok_def)
  have l: "unat (last bs) + 24 = unat (hd bs) + unat (pool_size (heaps S h))" and ne: "bs \<noteq> []"
    using b by (simp_all add: blocks_ok_def bring_def)
  obtain a cs where a: "bs = a # cs" using ne by (cases bs) auto
  obtain d es where d: "cs = d # es" using a l p by (cases cs) auto
  have F: "?F a" using L a d by (auto split: if_splits)
  have "es = []" using L c F a d by (cases es) (auto split: if_splits)
  with a d have bs: "bs = [a, d]" by simp
  have "gap a d = unat (pool_size (heaps S h)) - 48" using l bs by (simp add: gap_def)
  moreover have "word_of_nat (unat (pool_size (heaps S h)) - 48) = pool_size (heaps S h) - 48"
    using p by (simp add: of_nat_diff)
  ultimately show "available_size (heaps S h) = pool_size (heaps S h) - 48" using s bs F by (simp add: size_ok_def)
  have "fits (items S) bs (gap a d)" using bs F unfolding fits_def by (metis append_Nil order_refl)
  with ok \<open>gap a d = _\<close> show "heap_fits h S (unat (pool_size (heaps S h)) - 48)" by (auto simp: heap_fits_def)
qed

section \<open>Several heaps\<close>

text \<open>An operation on one heap leaves a heap with other memory as it is.\<close>

lemma memheap_ok_cong:
  assumes "\<And>q. q \<in> insert (FreeHeader h) (At ` set bs) \<Longrightarrow> M' q = M q"
  shows "memheap_ok h x M' bs = memheap_ok h x M bs"
    and "live (is_free M') bs = live (is_free M) bs"
proof -
  have F: "is_free M' a = is_free M a" if "a \<in> set bs" for a using assms that by (simp add: is_free_def)
  have rl: "room (is_free M') bs = room (is_free M) bs" "live (is_free M') bs = live (is_free M) bs"
    "coalesced (is_free M') bs = coalesced (is_free M) bs"
    using room_cong [of bs "is_free M'" "is_free M"] live_cong [of bs "is_free M'" "is_free M"]
      coalesced_cong [of bs "is_free M'" "is_free M"] F in_set_butlastD [of _ bs] by blast+
  show "live (is_free M') bs = live (is_free M) bs" by (rule rl(2))
  have "bring M' bs = bring M bs"
  proof (cases bs)
    case (Cons a cs)
    have "dlist (bh M') (At a) (map At cs) = dlist (bh M) (At a) (map At cs)" by (rule dlist_cong) (use assms Cons in auto)
    with Cons show ?thesis by (simp add: bring_def)
  qed (simp add: bring_def)
  moreover have "bs \<noteq> [] \<Longrightarrow> is_free M' (last bs) = is_free M (last bs)" using F by simp
  ultimately have b: "blocks_ok h x M' bs = blocks_ok h x M bs" using assms by (auto simp: blocks_ok_def bring_def)
  have G: "{a \<in> set bs. is_free M' a} = {a \<in> set bs. is_free M a}" using F by auto
  have "free_ok h M' {a \<in> set bs. is_free M a} fs = free_ok h M {a \<in> set bs. is_free M a} fs" for fs
  proof (cases "set fs = {a \<in> set bs. is_free M a}")
    case True
    then have "dlist (fh M') (FreeHeader h) (map At fs) = dlist (fh M) (FreeHeader h) (map At fs)"
      by (intro dlist_cong) (use assms in auto)
    then show ?thesis by (simp add: free_ok_def)
  qed (simp add: free_ok_def)
  with b G rl show "memheap_ok h x M' bs = memheap_ok h x M bs" by (simp add: memheap_ok_def size_ok_def)
qed

lemma rep_other_items:
  assumes rep: "heap_rep k S L" and ne: "k \<noteq> h" and x: "heaps S' k = heaps S k" and u: "unlocked k S'"
    and o: "only h A (items S) (items S')" and dis: "A \<inter> heap_area k S = {}"
  shows "heap_rep k S' L"
proof -
  obtain bs where ok: "memheap_ok k (heaps S k) (items S) bs" and L: "live (is_free (items S)) bs = L"
    using rep by (auto simp: heap_rep_def)
  have "set bs \<subseteq> heap_area k S" using area_region [OF ok] chain_region [of bs] ok by (simp add: memheap_ok_def blocks_ok_def)
  then have same: "items S' q = items S q" if "q \<in> insert (FreeHeader k) (At ` set bs)" for q
    using that o ne dis by (auto simp: only_def)
  note c = memheap_ok_cong [of k bs "items S'" "items S", OF same]
  have "memheap_ok k (heaps S' k) (items S') bs \<and> live (is_free (items S')) bs = L" using c ok L x by simp
  then show "heap_rep k S' L" using rep x u by (auto simp: heap_rep_def)
qed

lemma rep_other:
  assumes "heap_rep k S L" and "k \<noteq> h" and "frame h A S S'" and "A \<inter> heap_area k S = {}"
  shows "heap_rep k S' L"
  by (rule rep_other_items [OF assms(1,2) _ _ _ assms(4), of S']) (use assms in \<open>auto simp: frame_def heap_rep_def unlocked_def\<close>)

section \<open>Faults of the client\<close>

lemma double_free_caught:
  assumes "ptr \<noteq> 0" and "is_free (items S) (ptr - 24)"
  shows "rt_memheap_free ptr S = None"
  using assms by (simp add: rt_memheap_free_def header_of_def ld_def is_free_def RT_MEMHEAP_IS_USED_def)

text \<open>The size of a request close to the end of the address space wraps to 0, and the smallest block is given for it.\<close>

lemma request_wraps:
  assumes "2 ^ 32 - 4 < unat n"
  shows "request_size n = 12"
proof -
  have "unat n = 4294967293 \<or> unat n = 4294967294 \<or> unat n = 4294967295"
    using assms unsigned_less [of n, where ?'a = nat] by simp linarith
  then have "n = 0xFFFFFFFD \<or> n = 0xFFFFFFFE \<or> n = 0xFFFFFFFF" by (simp add: word_unat_eq_iff)
  then show ?thesis by (elim disjE) (simp_all add: request_size_def RT_ALIGN_def RT_ALIGN_SIZE_def Let_def)
qed

text \<open>
  The test of whether a block can grow in place wraps for sizes close to the end of the address space: when the block behind is free,
  the call succeeds and puts the item of the free block before the end of the block's own item.
\<close>

lemma realloc_wraps:
  assumes rep: "heap_rep h S L" and p: "(ptr, n) \<in> L"
    and bs: "memheap_ok h (heaps S h) (items S) (xs @ a # b # c # zs)" "ptr = a + 24" "is_free (items S) b"
    and k: "2 ^ 32 \<le> unat (request_size sz) + 12" "sz \<noteq> 0"
  shows "\<exists>S'. rt_memheap_realloc h ptr sz S = Some (Return ptr, S') \<and> magic (items S' (At (ptr + request_size sz))) = RT_MEMHEAP_MAGIC
    \<and> unat a < unat (ptr + request_size sz) \<and> unat (ptr + request_size sz) < unat a + 24"
proof -
  let ?k = "request_size sz" and ?M = "items S"
  let ?bs = "xs @ a # b # c # zs"
  have u: "unlocked h S" using rep by (simp add: heap_rep_def)
  obtain fs where bo: "blocks_ok h (heaps S h) ?M ?bs" and f: "free_ok h ?M {y \<in> set ?bs. is_free ?M y} fs"
    using bs(1) by (auto simp: memheap_ok_def)
  have ring: "bring ?M ?bs" and fl: "free_list (heaps S h) = FreeHeader h" and ch: "chained ?bs" using bo by (simp_all add: blocks_ok_def)
  have g: "unat a + 24 + gap a b = unat b" "unat b + 24 + gap b c = unat c" "unat (word_of_nat (gap a b) :: rt_uint32) = gap a b"
    "unat (word_of_nat (gap b c) :: rt_uint32) = gap b c" "12 \<le> gap a b" "unat c + 24 \<le> 2 ^ 32"
    "MEMITEM_SIZE (At b) ?M = Some (word_of_nat (gap b c))" "MEMITEM_SIZE (At a) ?M = Some (word_of_nat (gap a b))"
    using blocks_gap [of h "heaps S h" ?M xs a b "c # zs"] blocks_gap [of h "heaps S h" ?M "xs @ [a]" b c zs] bo by simp_all
  have k12: "unat (?k + 12) = unat ?k + 12 - 2 ^ 32" "unat (ptr + ?k) = unat a + 24 + unat ?k - 2 ^ 32"
    using k(1) bs(2) g unsigned_less [of ?k, where ?'a = nat] by (simp_all add: unat_word_ariths le_mod_geq)
  have at: "unat a < unat (ptr + ?k)" "unat (ptr + ?k) < unat a + 24"
    using k(1) k12 unsigned_less [of ?k, where ?'a = nat] by simp_all
  have "unat (word_of_nat (gap b c) + word_of_nat (gap a b) :: rt_uint32) = gap a b + gap b c"
    using g by (simp add: unat_word_ariths)
  then have fit: "word_of_nat (gap b c) + word_of_nat (gap a b) > ?k + 12"
    using g(5) k12(1) unsigned_less [of ?k, where ?'a = nat] by (simp add: word_less_nat_alt)
  have nx: "inext (?M (At a)) = At b" and ba: "b > a" "b > 0"
    using bring_pair(1) [of ?M xs a b "c # zs"] ring g(1) by (simp_all add: word_less_nat_alt)
  have grow: "?k > word_of_nat (gap a b)" using g k(1) by (simp add: word_less_nat_alt)
  have call: "rt_memheap_realloc h ptr sz S = expand_locked h ptr (word_of_nat (gap a b)) ?k (taken h S)"
    using k(2) rep_blocks(2) [OF rep p] grow bs(2) g(8) with_lock_free [OF u]
    by (simp add: rt_memheap_realloc_def Let_def header_of_def)
  obtain M1 fs1 where M1: "free_remove (At b) ?M = Some M1" "free_ok h M1 ({y \<in> set ?bs. is_free ?M y} - {b}) fs1" "same_blocks ?M M1"
    "only h UNIV ?M M1" using free_ok_remove [OF f, of b UNIV] bs(3) by auto
  have r1: "bring M1 ?bs" using same_blocks_dlist [OF M1(3)] ring by (simp add: bring_def)
  have nin: "ptr + ?k \<notin> set (xs @ a # c # zs)"
    using chain_mid [OF ch] at g(1,2) chain_mid(2) [of "xs @ [a, b]" c zs] ch by fastforce
  obtain M3 where M3: "new_item h (At a) (At (ptr + ?k)) (join a c M1) = Some M3" "same_free (join a c M1) M3"
    "magic (M3 (At (ptr + ?k))) = RT_MEMHEAP_MAGIC" "\<forall>q. q \<notin> {At a, At (ptr + ?k), At c} \<longrightarrow> M3 q = join a c M1 q"
    using new_item_ok [OF bring_join [OF r1] nin, of h] by blast
  have f3: "free_ok h M3 ({y \<in> set ?bs. is_free ?M y} - {b}) fs1"
    using same_free_ok [OF M3(2)] same_free_ok [of M1 "join a c M1"] M1(2) by simp
  obtain M4 where M4: "free_insert (FreeHeader h) (At (ptr + ?k)) M3 = Some M4" "same_blocks M3 M4" "only h UNIV M3 M4"
    using free_ok_insert [OF f3, of "ptr + ?k" UNIV] nin by auto
  let ?S1 = "(upd_heap h (\<lambda>x. set_available (available_size x - (?k - word_of_nat (gap a b))) x) (taken h S))\<lparr>items := M4\<rparr>"
  have run: "expand_locked h ptr (word_of_nat (gap a b)) ?k (taken h S) = map_option (Pair (Return ptr)) (release_lock h ?S1)"
    using nx ba bs(2,3) fit g(7) M1(1) merge_right_join(2) [OF r1] M3(1) M4(1) fl
    by (simp add: expand_locked_def header_of_def ld_def is_free_def map_conv_bind_option comp_def)
  have "only h UNIV (join a c M1) M3" by (rule onlyI [of "{At a, At (ptr + ?k), At c}"]) (use M3(4) in auto)
  then have "only h UNIV ?M M4" using M1(4) M4(3) only_join [of a c UNIV h M1] by (blast intro: only_trans)
  then have "frame h UNIV (taken h S) ?S1" by (simp add: frame_def)
  from release_taken(1) [OF u this] call run have "rt_memheap_realloc h ptr sz S = Some (Return ptr, ?S1\<lparr>mkern := mkern S\<rparr>)" by simp
  moreover have "magic (M4 (At (ptr + ?k))) = RT_MEMHEAP_MAGIC" using M3(3) M4(2) by (simp add: same_blocks_def)
  ultimately show ?thesis using at by (intro exI [of _ "?S1\<lparr>mkern := mkern S\<rparr>"]) simp
qed

section \<open>Sequences of calls\<close>

text \<open>
  A client allocates, changes and releases the blocks it owns, in any order. The set holds the pointers it owns.
  \<open>valid\<close> limits the sizes that are asked for.
\<close>

inductive heap_client ::
  "(rt_uint32 \<Rightarrow> 's \<Rightarrow> (rt_uint32 callres \<times> 's) option) \<Rightarrow> (rt_uint32 \<Rightarrow> rt_uint32 \<Rightarrow> 's \<Rightarrow> (rt_uint32 callres \<times> 's) option) \<Rightarrow>
   (rt_uint32 \<Rightarrow> 's \<Rightarrow> (unit callres \<times> 's) option) \<Rightarrow> (rt_uint32 \<Rightarrow> bool) \<Rightarrow> 's \<Rightarrow> 's \<Rightarrow> rt_uint32 set \<Rightarrow> bool"
  for alloc resize release valid S0
where
  start: "heap_client alloc resize release valid S0 S0 {}"
| alloc_none: "heap_client alloc resize release valid S0 S P \<Longrightarrow> alloc n S = Some (Return 0, S')
    \<Longrightarrow> heap_client alloc resize release valid S0 S' P"
| alloc_some: "heap_client alloc resize release valid S0 S P \<Longrightarrow> alloc n S = Some (Return r, S') \<Longrightarrow> r \<noteq> 0
    \<Longrightarrow> heap_client alloc resize release valid S0 S' (insert r P)"
| resize_none: "heap_client alloc resize release valid S0 S P \<Longrightarrow> p \<in> P \<Longrightarrow> valid n \<Longrightarrow> resize p n S = Some (Return 0, S')
    \<Longrightarrow> heap_client alloc resize release valid S0 S' P"
| resize_some: "heap_client alloc resize release valid S0 S P \<Longrightarrow> p \<in> P \<Longrightarrow> valid n \<Longrightarrow> resize p n S = Some (Return r, S') \<Longrightarrow> r \<noteq> 0
    \<Longrightarrow> heap_client alloc resize release valid S0 S' (insert r (P - {p}))"
| release: "heap_client alloc resize release valid S0 S P \<Longrightarrow> p \<in> P \<Longrightarrow> release p S = Some (Return u, S')
    \<Longrightarrow> heap_client alloc resize release valid S0 S' (P - {p})"

text \<open>What an allocator promises, in terms of the set of blocks in use.\<close>

locale allocator =
  fixes rep :: "'s \<Rightarrow> (rt_uint32 \<times> nat) set \<Rightarrow> bool"
    and alloc :: "rt_uint32 \<Rightarrow> 's \<Rightarrow> (rt_uint32 callres \<times> 's) option"
    and resize :: "rt_uint32 \<Rightarrow> rt_uint32 \<Rightarrow> 's \<Rightarrow> (rt_uint32 callres \<times> 's) option"
    and release :: "rt_uint32 \<Rightarrow> 's \<Rightarrow> (unit callres \<times> 's) option"
    and valid :: "rt_uint32 \<Rightarrow> bool"
  assumes alloc_law: "rep S L \<Longrightarrow> \<exists>r S'. alloc n S = Some (Return r, S')
      \<and> (if r = 0 then rep S' L else \<exists>m. rep S' (insert (r, m) L))"
    and resize_law: "rep S L \<Longrightarrow> (p, k) \<in> L \<Longrightarrow> valid n \<Longrightarrow> \<exists>r S'. resize p n S = Some (Return r, S')
      \<and> (if r = 0 then rep S' L else \<exists>m. rep S' (insert (r, m) (L - {(p, k)})))"
    and release_law: "rep S L \<Longrightarrow> (p, k) \<in> L \<Longrightarrow> \<exists>S'. release p S = Some (Return (), S') \<and> rep S' (L - {(p, k)})"
    and one_block: "rep S L \<Longrightarrow> (p, k) \<in> L \<Longrightarrow> (p, m) \<in> L \<Longrightarrow> k = m"
begin

lemma owned_removed:
  assumes "rep S L" and "(p, k) \<in> L"
  shows "fst ` (L - {(p, k)}) = fst ` L - {p}"
proof
  show "fst ` (L - {(p, k)}) \<subseteq> fst ` L - {p}" using one_block [OF assms] by auto
  show "fst ` L - {p} \<subseteq> fst ` (L - {(p, k)})" by force
qed

lemma client_blocks:
  assumes "heap_client alloc resize release valid S0 S P" and "rep S0 {}"
  shows "\<exists>L. rep S L \<and> fst ` L = P"
  using assms
proof (induction rule: heap_client.induct)
  case start
  then show ?case by (intro exI [of _ "{}"]) simp
next
  case (alloc_none S P n S')
  then obtain L where "rep S L" "fst ` L = P" by blast
  with alloc_law [of S L n] alloc_none.hyps(2) show ?case by auto
next
  case (alloc_some S P n r S')
  then obtain L where "rep S L" "fst ` L = P" by blast
  with alloc_law [of S L n] alloc_some.hyps(2,3) show ?case by (force split: if_splits)
next
  case (resize_none S P p n S')
  then obtain L k where "rep S L" "fst ` L = P" "(p, k) \<in> L" by fastforce
  with resize_law [of S L p k n] resize_none.hyps(3,4) show ?case by auto
next
  case (resize_some S P p n r S')
  then obtain L k where L: "rep S L" "fst ` L = P" "(p, k) \<in> L" by fastforce
  with resize_law [OF L(1,3), of n] resize_some.hyps(3-5) obtain m where "rep S' (insert (r, m) (L - {(p, k)}))" by (auto split: if_splits)
  with owned_removed [OF L(1,3)] L(2) show ?case by (intro exI [of _ "insert (r, m) (L - {(p, k)})"]) simp
next
  case (release S P p u S')
  then obtain L k where L: "rep S L" "fst ` L = P" "(p, k) \<in> L" by fastforce
  with release_law [OF L(1,3)] release.hyps(3) have "rep S' (L - {(p, k)})" by auto
  with owned_removed [OF L(1,3)] L(2) show ?case by (intro exI [of _ "L - {(p, k)}"]) simp
qed

text \<open>No call of a client fails an assertion or waits.\<close>

lemma client_progress:
  assumes "heap_client alloc resize release valid S0 S P" and "rep S0 {}"
  shows "\<exists>r S'. alloc n S = Some (Return r, S')" and "p \<in> P \<Longrightarrow> valid n \<Longrightarrow> \<exists>r S'. resize p n S = Some (Return r, S')"
    and "p \<in> P \<Longrightarrow> \<exists>S'. release p S = Some (Return (), S')"
proof -
  obtain L where L: "rep S L" "fst ` L = P" using client_blocks [OF assms] by blast
  show "\<exists>r S'. alloc n S = Some (Return r, S')" using alloc_law [OF L(1)] by blast
  show "\<exists>r S'. resize p n S = Some (Return r, S')" if "p \<in> P" "valid n"
    using that L(2) resize_law [OF L(1) _ that(2)] by fastforce
  show "\<exists>S'. release p S = Some (Return (), S')" if "p \<in> P"
    using that L(2) release_law [OF L(1)] by fastforce
qed

end

text \<open>The memory heap is one; the sizes are limited because the sum in the test for growing in place wraps.\<close>

definition realloc_valid :: "rt_uint32 \<Rightarrow> bool" where
  "realloc_valid n \<longleftrightarrow> n \<noteq> 0 \<and> unat (request_size n) + 12 < 2 ^ 32"

lemma area_same:
  assumes S: "heap_rep h S L" and S': "heap_rep h S' L'" and A: "heap_area h S' = heap_area h S"
  shows "start_addr (heaps S' h) = start_addr (heaps S h)" and "pool_size (heaps S' h) = pool_size (heaps S h)"
proof -
  let ?s = "start_addr (heaps S h)" and ?z = "pool_size (heaps S h)" and ?s' = "start_addr (heaps S' h)" and ?z' = "pool_size (heaps S' h)"
  have top: "unat ?s + unat ?z \<le> 2 ^ 32" "60 \<le> unat ?z" "unat ?s' + unat ?z' \<le> 2 ^ 32" "60 \<le> unat ?z'"
    using S S' by (auto simp: heap_rep_def memheap_ok_def blocks_ok_def)
  then have "?s \<in> heap_area h S" "?s' \<in> heap_area h S'" by (simp_all add: heap_area_def)
  then have "?s \<in> heap_area h S'" "?s' \<in> heap_area h S" unfolding A .
  then show s: "?s' = ?s" by (simp add: heap_area_def word_unat_eq_iff)
  have e: "unat (?s + (w - 24)) = unat ?s + (unat w - 24)" if "60 \<le> unat w" "unat ?s + unat w \<le> 2 ^ 32" for w
  proof -
    have "unat (w - 24) = unat w - 24" using that by (simp add: unat_sub word_le_nat_alt)
    then show ?thesis using that by (simp add: unat_word_ariths)
  qed
  have z: "unat (?s + (?z - 24)) = unat ?s + (unat ?z - 24)" "unat (?s + (?z' - 24)) = unat ?s + (unat ?z' - 24)"
    using e [of ?z] e [of ?z'] top s by simp_all
  have "?s + (?z - 24) \<in> heap_area h S'" unfolding A unfolding heap_area_def mem_Collect_eq z using top by simp
  moreover have "?s + (?z' - 24) \<in> heap_area h S" unfolding A [symmetric] unfolding heap_area_def mem_Collect_eq z s using top by simp
  ultimately have "unat ?z' = unat ?z" unfolding heap_area_def mem_Collect_eq z s using top by simp
  then show "?z' = ?z" by (simp add: word_unat_eq_iff)
qed

interpretation memheap: allocator "\<lambda>S L. heap_rep h S L \<and> heap_area h S = A" "rt_memheap_alloc h" "rt_memheap_realloc h"
    rt_memheap_free realloc_valid for h A
proof unfold_locales
  fix S L n p k m
  assume "heap_rep h S L \<and> heap_area h S = A"
  then have rep: "heap_rep h S L" and A: "heap_area h S = A" by simp_all
  from memheap_alloc_rep [OF rep, of n] rep A show "\<exists>r S'. rt_memheap_alloc h n S = Some (Return r, S')
      \<and> (if r = 0 then heap_rep h S' L \<and> heap_area h S' = A else \<exists>m. heap_rep h S' (insert (r, m) L) \<and> heap_area h S' = A)"
    by (auto split: if_splits)
  assume p: "(p, k) \<in> L"
  from memheap_free_rep [OF rep p] A
  show "\<exists>S'. rt_memheap_free p S = Some (Return (), S') \<and> heap_rep h S' (L - {(p, k)}) \<and> heap_area h S' = A" by blast
  show "k = m" if q: "(p, m) \<in> L"
  proof (rule ccontr)
    assume "k \<noteq> m"
    then have "unat p + k \<le> unat p \<or> unat p + m \<le> unat p" using rep_apart [OF rep] p q by (fastforce simp: apart_def)
    then show False using rep_blocks(1) [OF rep p] rep_blocks(1) [OF rep q] by simp
  qed
  assume v: "realloc_valid n"
  from memheap_realloc_rep [OF rep p, of n] v rep A show "\<exists>r S'. rt_memheap_realloc h p n S = Some (Return r, S')
      \<and> (if r = 0 then heap_rep h S' L \<and> heap_area h S' = A
         else \<exists>m. heap_rep h S' (insert (r, m) (L - {(p, k)})) \<and> heap_area h S' = A)"
    by (fastforce simp: realloc_valid_def resized_def split: if_splits)
qed

end
