(* ===== verification/Rt_Dataqueue.thy ===== *)
theory Rt_Dataqueue
  imports Rt_Mailbox
begin

text \<open>
  Data queues and completions of the driver framework, \<^verbatim>\<open>components/drivers/src/dataqueue.c\<close> and \<^verbatim>\<open>completion.c\<close>. A
  data queue holds pairs of a pointer and a size; \<open>SuspendQ\<close> is its list of threads waiting to pop, \<open>SenderQ\<close> of those
  waiting to push. The function \<open>evt_notify\<close> of the application is the argument \<open>notify\<close>. The indices are 16 bits wide and
  are compared as integers, as the usual arithmetic conversions of C do.
\<close>

section \<open>Data\<close>

type_synonym rt_data_item = "rt_uint32 \<times> rt_uint32"

record rt_data_queue =
  dq_size :: rt_uint16
  lwm :: rt_uint16
  get_index :: rt_uint16
  put_index :: rt_uint16
  dq_queue :: "rt_data_item list"
  evt_notify :: bool

record dstate =
  dkern :: kstate
  dqueues :: "nat \<Rightarrow> rt_data_queue"
  completions :: "nat \<Rightarrow> rt_uint32"

type_synonym notify = "nat \<Rightarrow> rt_uint32 \<Rightarrow> dstate \<Rightarrow> dstate"

abbreviation (input) RT_DATAQUEUE_EVENT_UNKNOWN :: rt_uint32 where "RT_DATAQUEUE_EVENT_UNKNOWN \<equiv> 0"
abbreviation (input) RT_DATAQUEUE_EVENT_POP :: rt_uint32 where "RT_DATAQUEUE_EVENT_POP \<equiv> 1"
abbreviation (input) RT_DATAQUEUE_EVENT_PUSH :: rt_uint32 where "RT_DATAQUEUE_EVENT_PUSH \<equiv> 2"
abbreviation (input) RT_DATAQUEUE_EVENT_LWM :: rt_uint32 where "RT_DATAQUEUE_EVENT_LWM \<equiv> 3"

abbreviation upd_dq :: "nat \<Rightarrow> (rt_data_queue \<Rightarrow> rt_data_queue) \<Rightarrow> dstate \<Rightarrow> dstate" where
  "upd_dq q f S \<equiv> S\<lparr>dqueues := (dqueues S)(q := f (dqueues S q))\<rparr>"

section \<open>Operations\<close>

text \<open>\<open>mem\<close> is the memory that was allocated for the items.\<close>

definition rt_data_queue_init ::
  "nat \<Rightarrow> rt_uint16 \<Rightarrow> rt_uint16 \<Rightarrow> bool \<Rightarrow> rt_data_item list option \<Rightarrow> dstate \<Rightarrow> rt_err \<times> dstate" where
  "rt_data_queue_init q sz low nf mem S =
     (let S1 = upd_dq q (\<lambda>x. x\<lparr>evt_notify := nf, dq_size := sz, lwm := low, get_index := 0, put_index := 0\<rparr>) S;
          k1 = (dkern S1)\<lparr>tlists := ls_init_head (SenderQ (ODataQueue q)) (tlists (dkern S1))\<rparr>;
          k2 = k1\<lparr>tlists := ls_init_head (SuspendQ (ODataQueue q)) (tlists k1)\<rparr>;
          S2 = S1\<lparr>dkern := k2\<rparr>
      in case mem of None \<Rightarrow> (- RT_ENOMEM, upd_dq q (\<lambda>x. x\<lparr>dq_queue := []\<rparr>) S2)
         | Some xs \<Rightarrow> (RT_EOK, upd_dq q (\<lambda>x. x\<lparr>dq_queue := xs\<rparr>) S2))"

definition dq_used :: "rt_data_queue \<Rightarrow> int" where
  "dq_used x = uint (put_index x) - uint (get_index x)"

definition notified :: "notify \<Rightarrow> nat \<Rightarrow> rt_uint32 \<Rightarrow> dstate \<Rightarrow> dstate" where
  "notified notify q ev S = (if evt_notify (dqueues S q) then notify q ev S else S)"

text \<open>The position of an index in the array. A size of 0 divides by zero.\<close>

definition dq_slot :: "rt_uint16 \<Rightarrow> rt_data_queue \<Rightarrow> nat option" where
  "dq_slot i x =
     (if dq_size x = 0 then None
      else if unat (i mod dq_size x) < length (dq_queue x) then Some (unat (i mod dq_size x)) else None)"

definition dq_store :: "rt_data_item \<Rightarrow> rt_data_queue \<Rightarrow> rt_data_queue option" where
  "dq_store v x =
     do { i \<leftarrow> dq_slot (put_index x) x; Some (x\<lparr>dq_queue := (dq_queue x)[i := v], put_index := put_index x + 1\<rparr>) }"

definition dq_fetch :: "rt_data_queue \<Rightarrow> (rt_data_item \<times> rt_data_queue) option" where
  "dq_fetch x = do { i \<leftarrow> dq_slot (get_index x) x; Some (dq_queue x ! i, x\<lparr>get_index := get_index x + 1\<rparr>) }"

text \<open>
  One round of the waiting loop, with the rest of the call when the loop ends. A thread that has waited starts a new round
  with the whole timeout.
\<close>

definition dq_push_loop ::
  "notify \<Rightarrow> tid option \<Rightarrow> nat \<Rightarrow> rt_data_item \<Rightarrow> rt_int32 \<Rightarrow> dstate \<Rightarrow> (rt_err callres \<times> dstate) option" where
  "dq_push_loop notify thr q v timeout S =
     (if dq_used (dqueues S q) = uint (dq_size (dqueues S q)) then
        (if timeout = 0 then Some (Return (- RT_ETIMEOUT), S)
         else do {
           RT_DEBUG_NOT_IN_INTERRUPT (dkern S);
           t \<leftarrow> thr;
           let k1 = upd_thread t (\<lambda>th. th\<lparr>error := RT_EOK\<rparr>) (dkern S);
           k2 \<leftarrow> ipc_wait (SenderQ (ODataQueue q)) t RT_IPC_FLAG_FIFO timeout k1;
           Some (Blocked, S\<lparr>dkern := k2\<rparr>)
         })
      else do {
        x \<leftarrow> dq_store v (dqueues S q);
        let S1 = upd_dq q (\<lambda>_. x) S;
        if \<not> ls_isempty (SuspendQ (ODataQueue q)) (tlists (dkern S1)) then
          do {
            k1 \<leftarrow> rt_ipc_list_resume (SuspendQ (ODataQueue q)) (dkern S1);
            k2 \<leftarrow> rt_schedule k1;
            Some (Return RT_EOK, S1\<lparr>dkern := k2\<rparr>)
          }
        else Some (Return RT_EOK, notified notify q RT_DATAQUEUE_EVENT_PUSH S1)
      })"

definition rt_data_queue_push ::
  "notify \<Rightarrow> nat \<Rightarrow> rt_data_item \<Rightarrow> rt_int32 \<Rightarrow> dstate \<Rightarrow> (rt_err callres \<times> dstate) option" where
  "rt_data_queue_push notify q v timeout S = dq_push_loop notify (rt_thread_self (dkern S)) q v timeout S"

definition rt_data_queue_push_wake ::
  "notify \<Rightarrow> tid \<Rightarrow> nat \<Rightarrow> rt_data_item \<Rightarrow> rt_int32 \<Rightarrow> dstate \<Rightarrow> (rt_err callres \<times> dstate) option" where
  "rt_data_queue_push_wake notify t q v timeout S =
     (if error (threads (dkern S) t) \<noteq> RT_EOK then Some (Return (error (threads (dkern S) t)), S)
      else dq_push_loop notify (Some t) q v timeout S)"

text \<open>The result of a pop is the error and the item that was taken.\<close>

definition dq_pop_loop ::
  "notify \<Rightarrow> tid option \<Rightarrow> nat \<Rightarrow> rt_int32 \<Rightarrow> dstate \<Rightarrow> ((rt_err \<times> rt_data_item option) callres \<times> dstate) option" where
  "dq_pop_loop notify thr q timeout S =
     (if get_index (dqueues S q) = put_index (dqueues S q) then
        (if timeout = 0 then Some (Return (- RT_ETIMEOUT, None), S)
         else do {
           RT_DEBUG_NOT_IN_INTERRUPT (dkern S);
           t \<leftarrow> thr;
           let k1 = upd_thread t (\<lambda>th. th\<lparr>error := RT_EOK\<rparr>) (dkern S);
           k2 \<leftarrow> ipc_wait (SuspendQ (ODataQueue q)) t RT_IPC_FLAG_FIFO timeout k1;
           Some (Blocked, S\<lparr>dkern := k2\<rparr>)
         })
      else do {
        (v, x) \<leftarrow> dq_fetch (dqueues S q);
        let S1 = upd_dq q (\<lambda>_. x) S;
        if dq_used x \<le> uint (lwm x) then
          do {
            S2 \<leftarrow> (if \<not> ls_isempty (SenderQ (ODataQueue q)) (tlists (dkern S1)) then
                    do {
                      k1 \<leftarrow> rt_ipc_list_resume (SenderQ (ODataQueue q)) (dkern S1);
                      k2 \<leftarrow> rt_schedule k1;
                      Some (S1\<lparr>dkern := k2\<rparr>)
                    }
                  else Some S1);
            Some (Return (RT_EOK, Some v), notified notify q RT_DATAQUEUE_EVENT_LWM S2)
          }
        else Some (Return (RT_EOK, Some v), notified notify q RT_DATAQUEUE_EVENT_POP S1)
      })"

definition rt_data_queue_pop ::
  "notify \<Rightarrow> nat \<Rightarrow> rt_int32 \<Rightarrow> dstate \<Rightarrow> ((rt_err \<times> rt_data_item option) callres \<times> dstate) option" where
  "rt_data_queue_pop notify q timeout S = dq_pop_loop notify (rt_thread_self (dkern S)) q timeout S"

definition rt_data_queue_pop_wake ::
  "notify \<Rightarrow> tid \<Rightarrow> nat \<Rightarrow> rt_int32 \<Rightarrow> dstate \<Rightarrow> ((rt_err \<times> rt_data_item option) callres \<times> dstate) option" where
  "rt_data_queue_pop_wake notify t q timeout S =
     (if error (threads (dkern S) t) \<noteq> RT_EOK then Some (Return (error (threads (dkern S) t), None), S)
      else dq_pop_loop notify (Some t) q timeout S)"

definition rt_data_queue_peak :: "nat \<Rightarrow> dstate \<Rightarrow> (rt_err \<times> rt_data_item option) option" where
  "rt_data_queue_peak q S =
     (if get_index (dqueues S q) = put_index (dqueues S q) then Some (- RT_EEMPTY, None)
      else do {
        i \<leftarrow> dq_slot (get_index (dqueues S q)) (dqueues S q);
        Some (RT_EOK, Some (dq_queue (dqueues S q) ! i))
      })"

definition rt_data_queue_reset :: "nat \<Rightarrow> dstate \<Rightarrow> dstate option" where
  "rt_data_queue_reset q S =
     do {
       let k1 = rt_enter_critical (dkern S);
       k2 \<leftarrow> rt_ipc_list_resume_all (SuspendQ (ODataQueue q)) k1;
       k3 \<leftarrow> rt_ipc_list_resume_all (SenderQ (ODataQueue q)) k2;
       k4 \<leftarrow> rt_exit_critical k3;
       k5 \<leftarrow> rt_schedule k4;
       Some (S\<lparr>dkern := k5\<rparr>)
     }"

section \<open>Completions\<close>

abbreviation (input) RT_COMPLETED :: rt_uint32 where "RT_COMPLETED \<equiv> 1"
abbreviation (input) RT_UNCOMPLETED :: rt_uint32 where "RT_UNCOMPLETED \<equiv> 0"

abbreviation set_completion :: "nat \<Rightarrow> rt_uint32 \<Rightarrow> dstate \<Rightarrow> dstate" where
  "set_completion c v S \<equiv> S\<lparr>completions := (completions S)(c := v)\<rparr>"

definition rt_completion_init :: "nat \<Rightarrow> dstate \<Rightarrow> dstate" where
  "rt_completion_init c S =
     (let S1 = set_completion c RT_UNCOMPLETED S
      in S1\<lparr>dkern := (dkern S1)\<lparr>tlists := ls_init_head (SuspendQ (OCompletion c)) (tlists (dkern S1))\<rparr>\<rparr>)"

definition rt_completion_wait :: "nat \<Rightarrow> rt_int32 \<Rightarrow> dstate \<Rightarrow> (rt_err callres \<times> dstate) option" where
  "rt_completion_wait c timeout S =
     (if completions S c \<noteq> RT_COMPLETED then
        do {
          RT_ASSERT (ls_isempty (SuspendQ (OCompletion c)) (tlists (dkern S)));
          if timeout = 0 then Some (Return (- RT_ETIMEOUT), S)
          else do {
            t \<leftarrow> rt_thread_self (dkern S);
            let k1 = upd_thread t (\<lambda>th. th\<lparr>error := RT_EOK\<rparr>) (dkern S);
            let k2 = rt_ipc_list_suspend (SuspendQ (OCompletion c)) t RT_IPC_FLAG_FIFO k1;
            RT_DEBUG_NOT_IN_INTERRUPT k2;
            k3 \<leftarrow> start_wait_timer t timeout k2;
            k4 \<leftarrow> rt_schedule k3;
            Some (Blocked, S\<lparr>dkern := k4\<rparr>)
          }
        }
      else Some (Return RT_EOK, set_completion c RT_UNCOMPLETED S))"

definition rt_completion_wait_wake :: "tid \<Rightarrow> nat \<Rightarrow> dstate \<Rightarrow> rt_err \<times> dstate" where
  "rt_completion_wait_wake t c S = (error (threads (dkern S) t), set_completion c RT_UNCOMPLETED S)"

definition rt_completion_done :: "nat \<Rightarrow> dstate \<Rightarrow> dstate option" where
  "rt_completion_done c S =
     (if completions S c = RT_COMPLETED then Some S
      else
        (let S1 = set_completion c RT_COMPLETED S
         in if \<not> ls_isempty (SuspendQ (OCompletion c)) (tlists (dkern S1)) then
              do {
                k1 \<leftarrow> rt_ipc_list_resume (SuspendQ (OCompletion c)) (dkern S1);
                k2 \<leftarrow> rt_schedule k1;
                Some (S1\<lparr>dkern := k2\<rparr>)
              }
            else Some S1))"

section \<open>The items of a queue\<close>

text \<open>Until an index wraps, the items are those between the two indices.\<close>

definition dq_wf :: "rt_data_queue \<Rightarrow> bool" where
  "dq_wf x \<longleftrightarrow> 0 < unat (dq_size x) \<and> length (dq_queue x) = unat (dq_size x) \<and> unat (get_index x) \<le> unat (put_index x)
     \<and> unat (put_index x) \<le> unat (get_index x) + unat (dq_size x)"

definition dq_contents :: "rt_data_queue \<Rightarrow> rt_data_item list" where
  "dq_contents x = map (\<lambda>i. dq_queue x ! (i mod unat (dq_size x))) [unat (get_index x)..<unat (put_index x)]"

lemma dq_slot_ok:
  assumes "dq_wf x"
  shows "dq_slot i x = Some (unat i mod unat (dq_size x))"
proof -
  have "dq_size x \<noteq> 0" using assms by (auto simp: dq_wf_def)
  then show ?thesis using assms by (simp add: dq_slot_def dq_wf_def unat_mod_distrib)
qed

lemma dq_length: "dq_wf x \<Longrightarrow> int (length (dq_contents x)) = dq_used x"
  by (simp add: dq_contents_def dq_used_def dq_wf_def of_nat_diff)

lemma dq_full: "dq_wf x \<Longrightarrow> dq_used x = uint (dq_size x) \<longleftrightarrow> length (dq_contents x) = unat (dq_size x)"
  using dq_length [of x] of_nat_eq_iff [of "length (dq_contents x)" "unat (dq_size x)", where ?'a = int] by simp

lemma dq_store_ok:
  assumes wf: "dq_wf x" and room: "length (dq_contents x) < unat (dq_size x)" and nw: "unat (put_index x) + 1 < 2 ^ 16"
  shows "\<exists>x'. dq_store v x = Some x' \<and> dq_wf x' \<and> dq_contents x' = dq_contents x @ [v] \<and> unat (put_index x') = unat (put_index x) + 1
    \<and> dq_size x' = dq_size x \<and> lwm x' = lwm x \<and> evt_notify x' = evt_notify x"
proof -
  let ?n = "unat (dq_size x)" and ?g = "unat (get_index x)" and ?p = "unat (put_index x)"
  let ?x = "x\<lparr>dq_queue := (dq_queue x)[?p mod ?n := v], put_index := put_index x + 1\<rparr>"
  have w: "0 < ?n" "length (dq_queue x) = ?n" "?g \<le> ?p" "?p < ?g + ?n" using wf room by (auto simp: dq_wf_def dq_contents_def)
  have p1: "unat (put_index x + 1) = ?p + 1" using nw by (simp add: unat_word_ariths)
  have "i mod ?n \<noteq> ?p mod ?n" if "?g \<le> i" "i < ?p" for i
    using ring_distinct [of 0 "?p - i" ?n i] that w by simp
  then have "(dq_queue x)[?p mod ?n := v] ! (i mod ?n) = dq_queue x ! (i mod ?n)" if "i \<in> {?g..<?p}" for i
    using that by (metis atLeastLessThan_iff nth_list_update_neq)
  then have "dq_contents ?x = dq_contents x @ [v]" using w p1 by (simp add: dq_contents_def)
  moreover have "dq_wf ?x" using w p1 by (simp add: dq_wf_def)
  ultimately show ?thesis using dq_slot_ok [OF wf] p1 by (intro exI [of _ ?x]) (simp add: dq_store_def)
qed

lemma dq_fetch_ok:
  assumes wf: "dq_wf x" and c: "dq_contents x = v # vs"
  shows "\<exists>x'. dq_fetch x = Some (v, x') \<and> dq_wf x' \<and> dq_contents x' = vs
    \<and> dq_size x' = dq_size x \<and> lwm x' = lwm x \<and> evt_notify x' = evt_notify x \<and> put_index x' = put_index x"
proof -
  let ?n = "unat (dq_size x)" and ?g = "unat (get_index x)" and ?p = "unat (put_index x)"
  let ?x = "x\<lparr>get_index := get_index x + 1\<rparr>"
  have lt: "?g < ?p" using c by (auto simp: dq_contents_def intro: ccontr)
  have g1: "unat (get_index x + 1) = ?g + 1" using lt unsigned_less [of "put_index x", where ?'a = nat] by (simp add: unat_word_ariths)
  have "[?g..<?p] = ?g # [?g + 1..<?p]" using lt by (simp add: upt_conv_Cons)
  then have "dq_queue x ! (?g mod ?n) = v" "dq_contents ?x = vs" using c g1 by (simp_all add: dq_contents_def)
  moreover have "dq_wf ?x" using wf lt g1 by (simp add: dq_wf_def)
  ultimately show ?thesis using dq_slot_ok [OF wf] by (intro exI [of _ ?x]) (simp add: dq_fetch_def)
qed

lemma dq_empty: "dq_wf x \<Longrightarrow> get_index x = put_index x \<longleftrightarrow> dq_contents x = []"
  by (auto simp: dq_wf_def dq_contents_def word_unat_eq_iff)

section \<open>The calls\<close>

text \<open>A queue in a consistent kernel, and an application function that leaves queues and kernel alone.\<close>

definition dq_ok :: "rt_tick \<Rightarrow> nat \<Rightarrow> dstate \<Rightarrow> bool" where
  "dq_ok base q S \<longleftrightarrow> check_inv base (dkern S) \<and> dq_wf (dqueues S q)"

definition harmless :: "notify \<Rightarrow> bool" where
  "harmless notify \<longleftrightarrow> (\<forall>q e S. dqueues (notify q e S) = dqueues S \<and> dkern (notify q e S) = dkern S)"

lemma notified_same:
  assumes "harmless notify"
  shows "dqueues (notified notify q e S) = dqueues S" and "dkern (notified notify q e S) = dkern S"
  using assms by (simp_all add: notified_def harmless_def)

lemma push_ok:
  assumes ok: "dq_ok base q S" and h: "harmless notify" and room: "length (dq_contents (dqueues S q)) < unat (dq_size (dqueues S q))"
    and nw: "unat (put_index (dqueues S q)) + 1 < 2 ^ 16"
  shows "\<exists>S'. rt_data_queue_push notify q v time S = Some (Return 0, S') \<and> dq_ok base q S'
    \<and> dq_contents (dqueues S' q) = dq_contents (dqueues S q) @ [v] \<and> dq_size (dqueues S' q) = dq_size (dqueues S q)
    \<and> unat (put_index (dqueues S' q)) = unat (put_index (dqueues S q)) + 1
    \<and> lst (tlists (dkern S')) (SuspendQ (ODataQueue q)) = tl (lst (tlists (dkern S)) (SuspendQ (ODataQueue q)))
    \<and> (\<forall>t ts. lst (tlists (dkern S)) (SuspendQ (ODataQueue q)) = t # ts \<longrightarrow> stat (threads (dkern S') t) = RT_THREAD_READY)"
proof -
  let ?x = "dqueues S q" and ?h = "SuspendQ (ODataQueue q)"
  have inv: "check_inv base (dkern S)" and wf: "dq_wf ?x" using ok by (simp_all add: dq_ok_def)
  obtain x' where x': "dq_store v ?x = Some x'" "dq_wf x'" "dq_contents x' = dq_contents ?x @ [v]"
    "unat (put_index x') = unat (put_index ?x) + 1" "dq_size x' = dq_size ?x"
    using dq_store_ok [OF wf room nw, of v] by blast
  have nf: "dq_used ?x \<noteq> uint (dq_size ?x)" using dq_full [OF wf] room by simp
  let ?S1 = "upd_dq q (\<lambda>_. x') S"
  show ?thesis
  proof (cases "lst (tlists (dkern S)) ?h")
    case Nil
    then have "rt_data_queue_push notify q v time S = Some (Return 0, notified notify q RT_DATAQUEUE_EVENT_PUSH ?S1)"
      using nf x'(1) by (simp add: rt_data_queue_push_def dq_push_loop_def ls_isempty_def)
    then show ?thesis using x' inv Nil notified_same [OF h] by (simp add: dq_ok_def)
  next
    case (Cons t ts)
    obtain k where k: "rt_ipc_list_resume ?h (dkern S) = Some (snd (rt_thread_resume t (dkern S)))"
      "rt_schedule (snd (rt_thread_resume t (dkern S))) = Some k" "check_inv base k"
      "threads k = (threads (dkern S))(t := (threads (dkern S) t)\<lparr>stat := RT_THREAD_READY\<rparr>)" "lst (tlists k) ?h = ts"
      by (rule ipc_resume_first [OF inv _ Cons]) blast
    have "rt_data_queue_push notify q v time S = Some (Return 0, ?S1\<lparr>dkern := k\<rparr>)"
      using nf x'(1) k(1,2) Cons by (simp add: rt_data_queue_push_def dq_push_loop_def ls_isempty_def)
    then show ?thesis using x' k Cons by (simp add: dq_ok_def)
  qed
qed

lemma pop_ok:
  assumes ok: "dq_ok base q S" and h: "harmless notify" and c: "dq_contents (dqueues S q) = v # vs"
  shows "\<exists>S'. rt_data_queue_pop notify q time S = Some (Return (0, Some v), S') \<and> dq_ok base q S'
    \<and> dq_contents (dqueues S' q) = vs \<and> dq_size (dqueues S' q) = dq_size (dqueues S q)
    \<and> lst (tlists (dkern S')) (SenderQ (ODataQueue q))
        = (if length vs \<le> unat (lwm (dqueues S q)) then tl else id) (lst (tlists (dkern S)) (SenderQ (ODataQueue q)))"
proof -
  let ?x = "dqueues S q" and ?h = "SenderQ (ODataQueue q)"
  have inv: "check_inv base (dkern S)" and wf: "dq_wf ?x" using ok by (simp_all add: dq_ok_def)
  obtain x' where x': "dq_fetch ?x = Some (v, x')" "dq_wf x'" "dq_contents x' = vs" "dq_size x' = dq_size ?x" "lwm x' = lwm ?x"
    using dq_fetch_ok [OF wf c] by blast
  have ne: "get_index ?x \<noteq> put_index ?x" using dq_empty [OF wf] c by simp
  have low: "dq_used x' \<le> uint (lwm x') \<longleftrightarrow> length vs \<le> unat (lwm ?x)" 
    using dq_length [OF x'(2)] x'(3,5) of_nat_le_iff [of "length vs" "unat (lwm ?x)", where ?'a = int] by simp
  let ?S1 = "upd_dq q (\<lambda>_. x') S"
  consider (high) "\<not> length vs \<le> unat (lwm ?x)" | (none) "length vs \<le> unat (lwm ?x)" "lst (tlists (dkern S)) ?h = []"
    | (wake) t ts where "length vs \<le> unat (lwm ?x)" "lst (tlists (dkern S)) ?h = t # ts"
    by (cases "lst (tlists (dkern S)) ?h") auto
  then show ?thesis
  proof cases
    case high
    then have "rt_data_queue_pop notify q time S = Some (Return (0, Some v), notified notify q RT_DATAQUEUE_EVENT_POP ?S1)"
      using ne x'(1) low by (simp add: rt_data_queue_pop_def dq_pop_loop_def)
    then show ?thesis using x' inv high notified_same [OF h] by (simp add: dq_ok_def)
  next
    case none
    then have "rt_data_queue_pop notify q time S = Some (Return (0, Some v), notified notify q RT_DATAQUEUE_EVENT_LWM ?S1)"
      using ne x'(1) low by (simp add: rt_data_queue_pop_def dq_pop_loop_def ls_isempty_def)
    then show ?thesis using x' inv none notified_same [OF h] by (simp add: dq_ok_def)
  next
    case wake
    obtain k where k: "rt_ipc_list_resume ?h (dkern S) = Some (snd (rt_thread_resume t (dkern S)))"
      "rt_schedule (snd (rt_thread_resume t (dkern S))) = Some k" "check_inv base k" "lst (tlists k) ?h = ts"
      by (rule ipc_resume_first [OF inv _ wake(2)]) blast
    have "rt_data_queue_pop notify q time S
        = Some (Return (0, Some v), notified notify q RT_DATAQUEUE_EVENT_LWM (?S1\<lparr>dkern := k\<rparr>))"
      using ne x'(1) k(1,2) wake low by (simp add: rt_data_queue_pop_def dq_pop_loop_def ls_isempty_def)
    then show ?thesis using x' k wake notified_same [OF h] by (simp add: dq_ok_def)
  qed
qed

text \<open>Runs of pushes and pops, as for the other queues.\<close>

definition dq_send :: "notify \<Rightarrow> nat \<Rightarrow> rt_data_item \<Rightarrow> dstate \<Rightarrow> dstate option" where
  "dq_send notify q v S = do { (r, S1) \<leftarrow> rt_data_queue_push notify q v 0 S; if r = Return RT_EOK then Some S1 else None }"

definition dq_recv :: "notify \<Rightarrow> nat \<Rightarrow> dstate \<Rightarrow> (rt_data_item \<times> dstate) option" where
  "dq_recv notify q S =
     do { (r, S1) \<leftarrow> rt_data_queue_pop notify q 0 S; case r of Return (e, Some v) \<Rightarrow> Some (v, S1) | _ \<Rightarrow> None }"

lemma dq_send_each:
  assumes "harmless notify" and "dq_ok base q S" and "length (dq_contents (dqueues S q)) + length vs \<le> unat (dq_size (dqueues S q))"
    and "unat (put_index (dqueues S q)) + length vs < 2 ^ 16"
  shows "\<exists>S'. send_each (dq_send notify q) vs S = Some S' \<and> dq_ok base q S' \<and> dq_contents (dqueues S' q) = dq_contents (dqueues S q) @ vs"
  using assms(2-)
proof (induction vs arbitrary: S)
  case (Cons v vs)
  obtain S1 where S1: "rt_data_queue_push notify q v 0 S = Some (Return 0, S1)" "dq_ok base q S1"
    "dq_contents (dqueues S1 q) = dq_contents (dqueues S q) @ [v]" "dq_size (dqueues S1 q) = dq_size (dqueues S q)"
    "unat (put_index (dqueues S1 q)) = unat (put_index (dqueues S q)) + 1"
    using push_ok [OF Cons.prems(1) assms(1), of v 0] Cons.prems(2,3) by auto
  have "send_each (dq_send notify q) (v # vs) S = send_each (dq_send notify q) vs S1" using S1(1) by (simp add: dq_send_def)
  with Cons.IH [of S1] S1 Cons.prems show ?case by simp
qed simp

lemma dq_recv_each:
  assumes "harmless notify" and "dq_ok base q S" and "dq_contents (dqueues S q) = vs @ ws"
  shows "\<exists>S'. recv_each (dq_recv notify q) (length vs) S = Some (vs, S') \<and> dq_ok base q S' \<and> dq_contents (dqueues S' q) = ws"
  using assms(2-)
proof (induction vs arbitrary: S)
  case (Cons v vs)
  have c: "dq_contents (dqueues S q) = v # vs @ ws" using Cons.prems(2) by simp
  obtain S1 where S1: "rt_data_queue_pop notify q 0 S = Some (Return (0, Some v), S1)" "dq_ok base q S1"
    "dq_contents (dqueues S1 q) = vs @ ws"
    using pop_ok [OF Cons.prems(1) assms(1) c, of 0] by blast
  obtain S' where S': "recv_each (dq_recv notify q) (length vs) S1 = Some (vs, S')" "dq_ok base q S'" "dq_contents (dqueues S' q) = ws"
    using Cons.IH [OF S1(2,3)] by blast
  have "dq_recv notify q S = Some (v, S1)" using S1(1) by (simp add: dq_recv_def)
  with S' show ?case by simp
qed simp

text \<open>A queue that cannot be served at once: an error without a timeout, otherwise the thread waits.\<close>

lemma push_full:
  assumes ok: "dq_ok base q S" and full: "length (dq_contents (dqueues S q)) = unat (dq_size (dqueues S q))"
  shows "rt_data_queue_push notify q v 0 S = Some (Return (- RT_ETIMEOUT), S)"
    and "time \<noteq> 0 \<Longrightarrow> rt_thread_self (dkern S) = Some t \<Longrightarrow> stat (threads (dkern S) t) = RT_THREAD_READY \<Longrightarrow> irq_nest (dkern S) = 0 \<Longrightarrow>
      time_ok base (dkern S) time \<Longrightarrow> u \<noteq> t \<Longrightarrow> stat (threads (dkern S) u) = RT_THREAD_READY \<Longrightarrow>
      \<exists>S'. rt_data_queue_push notify q v time S = Some (Blocked, S') \<and> dq_ok base q S' \<and> dqueues S' = dqueues S
        \<and> lst (tlists (dkern S')) (SenderQ (ODataQueue q)) = lst (tlists (dkern S)) (SenderQ (ODataQueue q)) @ [t]
        \<and> stat (threads (dkern S') t) = RT_THREAD_SUSPEND"
proof -
  have inv: "check_inv base (dkern S)" and wf: "dq_wf (dqueues S q)" using ok by (simp_all add: dq_ok_def)
  have f: "dq_used (dqueues S q) = uint (dq_size (dqueues S q))" using dq_full [OF wf] full by simp
  then show "rt_data_queue_push notify q v 0 S = Some (Return (- RT_ETIMEOUT), S)"
    by (simp add: rt_data_queue_push_def dq_push_loop_def)
  assume time: "time \<noteq> 0" and t: "rt_thread_self (dkern S) = Some t" "stat (threads (dkern S) t) = RT_THREAD_READY" and irq: "irq_nest (dkern S) = 0"
    and win: "time_ok base (dkern S) time" and u: "u \<noteq> t" "stat (threads (dkern S) u) = RT_THREAD_READY"
  let ?k1 = "upd_thread t (\<lambda>th. th\<lparr>error := RT_EOK\<rparr>) (dkern S)" and ?h = "SenderQ (ODataQueue q)"
  have inv1: "check_inv base ?k1" using inv by (rule check_inv_error)
  have st: "stat (threads ?k1 t) = RT_THREAD_READY" "stat (threads ?k1 u) = RT_THREAD_READY" using t u by simp_all
  have win1: "time_ok base ?k1 time" using win by (simp add: time_ok_def)
  have fifo: "(0 :: rt_uint8) = 0 \<or> (0 :: rt_uint8) = 1" and hd: "wait_head ?h" by simp_all
  obtain k where k: "ipc_wait ?h t 0 time ?k1 = Some k" "check_inv base k"
    "threads k = (threads ?k1)(t := (threads ?k1 t)\<lparr>stat := RT_THREAD_SUSPEND\<rparr>)" "tlists k = tlists (rt_ipc_list_suspend ?h t 0 ?k1)"
    using ipc_wait_returns [OF inv1 st(1) fifo hd win1 u(1) st(2)] by blast
  have "sched_inv ?k1" using inv1 by (simp add: check_inv_def)
  from ipc_suspend_tlists(1) [OF st(1) this, of ?h] k(4) have "lst (tlists k) ?h = lst (tlists (dkern S)) ?h @ [t]" by simp
  with k f time t(1) irq wf show "\<exists>S'. rt_data_queue_push notify q v time S = Some (Blocked, S') \<and> dq_ok base q S' \<and> dqueues S' = dqueues S
      \<and> lst (tlists (dkern S')) ?h = lst (tlists (dkern S)) ?h @ [t] \<and> stat (threads (dkern S') t) = RT_THREAD_SUSPEND"
    by (intro exI [of _ "S\<lparr>dkern := k\<rparr>"]) (simp add: rt_data_queue_push_def dq_push_loop_def dq_ok_def RT_DEBUG_NOT_IN_INTERRUPT_def)
qed

text \<open>
  When the index of the writer has wrapped and that of the reader has not, their difference is negative: a full queue is
  not seen as full, and the next push overwrites an item that was not read.
\<close>

lemma wrapped_not_full:
  assumes "unat (put_index x) + 2 ^ 16 = unat (get_index x) + unat (dq_size x)"
  shows "dq_used x \<noteq> uint (dq_size x)"
proof -
  have "uint (put_index x) + 2 ^ 16 = uint (get_index x) + uint (dq_size x)"
    using arg_cong [OF assms, of int] by simp
  then show ?thesis by (simp add: dq_used_def)
qed

text \<open>The items that are not read have the indices from that of the reader on; together they have all slots.\<close>

lemma unread_slot:
  assumes "0 < n" and "g + n = (2 :: nat) ^ 16"
  shows "\<exists>i<n. (g + i) mod n = 0"
proof (intro exI conjI)
  let ?i = "(n - g mod n) mod n"
  show "?i < n" using assms(1) by simp
  have "(g + ?i) mod n = (g mod n + (n - g mod n)) mod n" by (simp add: mod_simps)
  also have "g mod n + (n - g mod n) = n" using mod_less_divisor [OF assms(1), of g] by simp
  finally show "(g + ?i) mod n = 0" by simp
qed

lemma unread_overwritten:
  assumes "0 < unat (dq_size x)" and "length (dq_queue x) = unat (dq_size x)"
    and "put_index x = 0" and "unat (get_index x) + unat (dq_size x) = 2 ^ 16"
  shows "\<exists>i<unat (dq_size x). dq_slot (get_index x + of_nat i) x = Some 0"
proof -
  obtain i where i: "i < unat (dq_size x)" "(unat (get_index x) + i) mod unat (dq_size x) = 0"
    using unread_slot [OF assms(1,4)] by (elim exE conjE) (rule that)
  have "unat (get_index x + of_nat i) = (unat (get_index x) + i) mod 2 ^ 16"
    by (simp only: unat_word_ariths unat_of_nat mod_simps) simp
  also have "\<dots> = unat (get_index x) + i" using i(1) assms(4) by simp
  finally have "unat ((get_index x + of_nat i) mod dq_size x) = 0" using i(2) by (simp add: unat_mod_distrib)
  then have "dq_slot (get_index x + of_nat i) x = Some 0" using assms(1,2) by (auto simp: dq_slot_def)
  with i(1) show ?thesis by blast
qed

lemma push_wrapped:
  assumes n: "0 < unat (dq_size (dqueues S q))" "length (dq_queue (dqueues S q)) = unat (dq_size (dqueues S q))"
    and full: "unat (put_index (dqueues S q)) + 2 ^ 16 = unat (get_index (dqueues S q)) + unat (dq_size (dqueues S q))"
    and none: "lst (tlists (dkern S)) (SuspendQ (ODataQueue q)) = []" "\<not> evt_notify (dqueues S q)"
  shows "\<exists>S'. rt_data_queue_push notify q v 0 S = Some (Return 0, S')
    \<and> dqueues S' q = (dqueues S q)\<lparr>dq_queue := (dq_queue (dqueues S q))[unat (put_index (dqueues S q)) := v],
        put_index := put_index (dqueues S q) + 1\<rparr>
    \<and> (unat (dq_size (dqueues S q)) dvd 2 ^ 16 \<longrightarrow> rt_data_queue_peak q S' = Some (0, Some v))"
proof -
  let ?x = "dqueues S q" and ?n = "unat (dq_size (dqueues S q))" and ?p = "unat (put_index (dqueues S q))"
  have nz: "dq_size ?x \<noteq> 0" using n(1) by auto
  have g: "unat (get_index ?x) < 2 ^ 16" using unsigned_less [of "get_index ?x", where ?'a = nat] by simp
  have p: "?p < ?n" using full g by linarith
  have slot: "dq_slot (put_index ?x) ?x = Some ?p" using nz n p by (simp add: dq_slot_def unat_mod_distrib)
  let ?x' = "?x\<lparr>dq_queue := (dq_queue ?x)[?p := v], put_index := put_index ?x + 1\<rparr>"
  have "rt_data_queue_push notify q v 0 S = Some (Return 0, upd_dq q (\<lambda>_. ?x') S)"
    using wrapped_not_full [OF full] slot none
    by (simp add: rt_data_queue_push_def dq_push_loop_def dq_store_def ls_isempty_def notified_def)
  moreover have "rt_data_queue_peak q (upd_dq q (\<lambda>_. ?x') S) = Some (0, Some v)" if d: "?n dvd 2 ^ 16"
  proof -
    have "unat (get_index ?x) mod ?n = (unat (get_index ?x) + ?n) mod ?n" by simp
    also have "\<dots> = (?p + 2 ^ 16) mod ?n" using full by simp
    also have "\<dots> = ?p" using d p by (metis add.right_neutral dvd_imp_mod_0 mod_add_right_eq mod_less)
    finally have gslot: "unat (get_index ?x mod dq_size ?x) = ?p" by (simp add: unat_mod_distrib)
    have "get_index ?x \<noteq> put_index ?x + 1"
    proof
      assume "get_index ?x = put_index ?x + 1"
      then have "unat (get_index ?x) = ?p + 1" using p unsigned_less [of "dq_size ?x", where ?'a = nat]
        by (simp add: unat_word_ariths)
      then have "?n = 2 ^ 16 - 1" using full by simp
      then show False using d by simp
    qed
    then show ?thesis using gslot n(2) nz p by (simp add: rt_data_queue_peak_def dq_slot_def)
  qed
  ultimately show ?thesis by (intro exI [of _ "upd_dq q (\<lambda>_. ?x') S"]) simp
qed

section \<open>Completions\<close>

text \<open>A completion that is done wakes the thread that waits, and a wait before that thread runs is satisfied as well.\<close>

lemma completion_done_wakes:
  assumes inv: "check_inv base (dkern S)" and c: "completions S c = RT_UNCOMPLETED"
    and w: "lst (tlists (dkern S)) (SuspendQ (OCompletion c)) = t # ts"
  shows "\<exists>S'. rt_completion_done c S = Some S' \<and> check_inv base (dkern S') \<and> completions S' c = RT_COMPLETED
    \<and> lst (tlists (dkern S')) (SuspendQ (OCompletion c)) = ts
    \<and> threads (dkern S') = (threads (dkern S))(t := (threads (dkern S) t)\<lparr>stat := RT_THREAD_READY\<rparr>)"
proof -
  obtain k where k: "rt_ipc_list_resume (SuspendQ (OCompletion c)) (dkern S) = Some (snd (rt_thread_resume t (dkern S)))"
    "rt_schedule (snd (rt_thread_resume t (dkern S))) = Some k" "check_inv base k"
    "threads k = (threads (dkern S))(t := (threads (dkern S) t)\<lparr>stat := RT_THREAD_READY\<rparr>)"
    "lst (tlists k) (SuspendQ (OCompletion c)) = ts"
    by (rule ipc_resume_first [OF inv _ w]) blast
  then show ?thesis using c w by (simp add: rt_completion_done_def ls_isempty_def Let_def)
qed

end
