(* ===== verification/Rt_Path.thy ===== *)
theory Rt_Path
  imports Rt_Prelude "HOL-Library.Sublist"
begin

text \<open>
  Paths of the device file system: \<^verbatim>\<open>dfs_normalize_path\<close> of \<^verbatim>\<open>components/dfs/src/dfs.c\<close>, which rewrites a path in
  place. A buffer is a list of characters with the final null character in it; a read or write outside of it has no defined result.
  The pointers \<open>src\<close> and \<open>dst\<close> are positions in the buffer. Strings that are passed in are lists without the null character.
\<close>

section \<open>The code\<close>

abbreviation (input) slash :: char where "slash \<equiv> CHR ''/''"
abbreviation (input) dot :: char where "dot \<equiv> CHR ''.''"
abbreviation (input) nul :: char where "nul \<equiv> CHR 0x00"

definition rd :: "nat \<Rightarrow> string \<Rightarrow> char option" where
  "rd i b = (if i < length b then Some (b ! i) else None)"

definition wr :: "nat \<Rightarrow> char \<Rightarrow> string \<Rightarrow> string option" where
  "wr i c b = (if i < length b then Some (b[i := c]) else None)"

text \<open>The inner loops: over separators, over the characters of a name, and back to the separator before.\<close>

partial_function (option) skip_slashes :: "string \<Rightarrow> nat \<Rightarrow> nat option" where
  "skip_slashes b src = do { c \<leftarrow> rd src b; if c = slash then skip_slashes b (src + 1) else Some src }"

partial_function (option) copy_name :: "string \<Rightarrow> nat \<Rightarrow> nat \<Rightarrow> (char \<times> string \<times> nat \<times> nat) option" where
  "copy_name b src dst =
     do {
       c \<leftarrow> rd src b;
       if c \<noteq> nul \<and> c \<noteq> slash then do { b1 \<leftarrow> wr dst c b; copy_name b1 (src + 1) (dst + 1) }
       else Some (c, b, src + 1, dst)
     }"

fun back_up :: "string \<Rightarrow> nat \<Rightarrow> nat option" where
  "back_up b 0 = Some 0"
| "back_up b (Suc d) = do { c \<leftarrow> rd d b; if c \<noteq> slash then back_up b d else Some (Suc d) }"

text \<open>One round of the outer loop: the next round, the end of the input, or the null pointer.\<close>

datatype round = Again string nat nat | Stop string nat | Null

definition copy_up :: "string \<Rightarrow> nat \<Rightarrow> nat \<Rightarrow> round option" where
  "copy_up b src dst =
     do {
       (c, b1, src1, dst1) \<leftarrow> copy_name b src dst;
       if c = slash then
         do {
           b2 \<leftarrow> wr dst1 slash b1;
           src2 \<leftarrow> skip_slashes b2 src1;
           Some (Again b2 src2 (dst1 + 1))
         }
       else Some (Stop b1 dst1)
     }"

definition up_one :: "string \<Rightarrow> nat \<Rightarrow> nat \<Rightarrow> round option" where
  "up_one b src dst = (if dst = 0 then Some Null else do { d \<leftarrow> back_up b (dst - 1); Some (Again b src d) })"

definition normalize_round :: "string \<Rightarrow> nat \<Rightarrow> nat \<Rightarrow> round option" where
  "normalize_round b src dst =
     do {
       c \<leftarrow> rd src b;
       if c = dot then
         do {
           c1 \<leftarrow> rd (src + 1) b;
           if c1 = nul then copy_up b (src + 1) dst
           else if c1 = slash then do { s \<leftarrow> skip_slashes b (src + 2); Some (Again b s dst) }
           else if c1 = dot then
             do {
               c2 \<leftarrow> rd (src + 2) b;
               if c2 = nul then up_one b (src + 2) dst
               else if c2 = slash then do { s \<leftarrow> skip_slashes b (src + 3); up_one b s dst }
               else copy_up b src dst
             }
           else copy_up b src dst
         }
       else copy_up b src dst
     }"

partial_function (option) normalize_loop :: "string \<Rightarrow> nat \<Rightarrow> nat \<Rightarrow> (string \<times> nat) option option" where
  "normalize_loop b src dst =
     do {
       r \<leftarrow> normalize_round b src dst;
       case r of Again b1 s d \<Rightarrow> normalize_loop b1 s d | Stop b1 d \<Rightarrow> Some (Some (b1, d)) | Null \<Rightarrow> Some None
     }"

text \<open>The end: the result is terminated and a separator at its end is removed. At \<open>dst = 0\<close> the byte before the buffer is read.\<close>

definition normalize_end :: "string \<Rightarrow> nat \<Rightarrow> string option" where
  "normalize_end b dst =
     do {
       b1 \<leftarrow> wr dst nul b;
       if dst = 0 then None
       else if dst - 1 \<noteq> 0 then do { c \<leftarrow> rd (dst - 1) b1; if c = slash then wr (dst - 1) nul b1 else Some b1 }
       else Some b1
     }"

definition c_string :: "string \<Rightarrow> string" where
  "c_string b = takeWhile (\<lambda>c. c \<noteq> nul) b"

text \<open>\<open>mem\<close> tells whether the memory for the result is available. The result is the null pointer (\<open>None\<close>) or a string.\<close>

definition dfs_normalize_path :: "bool \<Rightarrow> string \<Rightarrow> string option \<Rightarrow> string \<Rightarrow> string option option" where
  "dfs_normalize_path mem working_directory dir filename =
     (let directory = (case dir of None \<Rightarrow> working_directory | Some d \<Rightarrow> d);
          fullpath = (if filename = [] \<or> hd filename \<noteq> slash then directory @ [slash] @ filename else filename)
      in if \<not> mem then Some None
         else do {
           r \<leftarrow> normalize_loop (fullpath @ [nul]) 0 0;
           case r of None \<Rightarrow> Some None | Some (b, dst) \<Rightarrow> do { b1 \<leftarrow> normalize_end b dst; Some (Some (c_string b1)) }
         })"

section \<open>The specification\<close>

text \<open>The names in a path, their reduction, and the path of a list of names.\<close>

function components :: "string \<Rightarrow> string list" where
  "components s = (if s = [] then []
     else (if takeWhile (\<lambda>c. c \<noteq> slash) s = [] then [] else [takeWhile (\<lambda>c. c \<noteq> slash) s])
       @ components (dropWhile (\<lambda>c. c = slash) (dropWhile (\<lambda>c. c \<noteq> slash) s)))"
  by auto

lemma dropWhile_length: "length (dropWhile P s) \<le> length s"
  by (induction s) auto

termination components
proof (relation "measure length")
  fix s :: string
  assume s: "s \<noteq> []"
  show "(dropWhile (\<lambda>c. c = slash) (dropWhile (\<lambda>c. c \<noteq> slash) s), s) \<in> measure length"
  proof (cases "hd s = slash")
    case True
    with s obtain t where "s = slash # t" by (cases s) auto
    then show ?thesis using dropWhile_length [of "\<lambda>c. c = slash" t] by simp
  next
    case False
    with s obtain x t where "s = x # t" "x \<noteq> slash" by (cases s) auto
    then show ?thesis
      using dropWhile_length [of "\<lambda>c. c = slash" "dropWhile (\<lambda>c. c \<noteq> slash) t"] dropWhile_length [of "\<lambda>c. c \<noteq> slash" t] by simp
  qed
qed simp

declare components.simps [simp del]

fun reduce :: "string list \<Rightarrow> string list \<Rightarrow> string list option" where
  "reduce st [] = Some st"
| "reduce st (c # cs) =
     (if c = ''.'' then reduce st cs
      else if c = ''..'' then (if st = [] then None else reduce (butlast st) cs)
      else reduce (st @ [c]) cs)"

definition render :: "string list \<Rightarrow> string" where
  "render st = (if st = [] then ''/'' else concat (map (\<lambda>c. slash # c) st))"

text \<open>What the code has written while it is in a directory.\<close>

definition dir_path :: "string list \<Rightarrow> string" where
  "dir_path st = slash # concat (map (\<lambda>c. c @ [slash]) st)"

definition is_name :: "string \<Rightarrow> bool" where
  "is_name c \<longleftrightarrow> c \<noteq> [] \<and> slash \<notin> set c \<and> nul \<notin> set c"

section \<open>The inner loops\<close>

lemma rd_mid [simp]: "rd (length xs) (xs @ c # ys) = Some c" "rd (length xs + length ys) (xs @ ys @ c # zs) = Some c"
  by (simp_all add: rd_def nth_append)

lemma wr_mid [simp]: "wr (length xs) c (xs @ d # ys) = Some (xs @ c # ys)"
  by (simp add: wr_def list_update_append)

lemma skip_slashes_run:
  "c \<noteq> slash \<Longrightarrow> skip_slashes (X @ replicate k slash @ c # Y) (length X) = Some (length X + k)"
proof (induction k arbitrary: X)
  case 0
  then show ?case by (subst skip_slashes.simps) simp
next
  case (Suc k)
  from Suc.IH [OF Suc.prems, of "X @ [slash]"] show ?case by (subst skip_slashes.simps) simp
qed

text \<open>A name is moved down over what was read before; the input behind it stays in its place.\<close>

lemma copy_name_run:
  assumes "slash \<notin> set w" and "nul \<notin> set w" and "c = nul \<or> c = slash"
  shows "\<exists>J'. length J' = length J \<and> copy_name (P @ J @ w @ c # Y) (length P + length J) (length P)
    = Some (c, P @ w @ J' @ c # Y, length P + length J + length w + 1, length P + length w)"
  using assms
proof (induction w arbitrary: P J)
  case Nil
  then show ?case
    by (intro exI [of _ J]) (subst copy_name.simps, use rd_mid(1) [of "P @ J" c Y] in auto)
next
  case (Cons x w)
  obtain J1 where J1: "length J1 = length J" "(P @ J @ (x # w) @ c # Y)[length P := x] = (P @ [x]) @ J1 @ w @ c # Y"
  proof (cases J)
    case Nil
    then show ?thesis by (intro that [of "[]"]) simp_all
  next
    case (Cons j K)
    then show ?thesis by (intro that [of "K @ [x]"]) (simp_all add: list_update_append)
  qed
  have x: "x \<noteq> nul" "x \<noteq> slash" using Cons.prems by auto
  have r: "rd (length P + length J) (P @ J @ (x # w) @ c # Y) = Some x" using rd_mid(1) [of "P @ J" x "w @ c # Y"] by simp
  have w: "wr (length P) x (P @ J @ (x # w) @ c # Y) = Some ((P @ [x]) @ J1 @ w @ c # Y)" using J1(2) by (simp add: wr_def)
  from Cons.IH [of J1 "P @ [x]"] Cons.prems obtain J' where J': "length J' = length J1"
    "copy_name ((P @ [x]) @ J1 @ w @ c # Y) (length (P @ [x]) + length J1) (length (P @ [x]))
      = Some (c, (P @ [x]) @ w @ J' @ c # Y, length (P @ [x]) + length J1 + length w + 1, length (P @ [x]) + length w)" by auto
  have "copy_name (P @ J @ (x # w) @ c # Y) (length P + length J) (length P)
      = copy_name ((P @ [x]) @ J1 @ w @ c # Y) (length P + length J + 1) (length P + 1)"
    by (subst copy_name.simps) (simp only: r w x bind.bind_lunit simp_thms if_True)
  with J' J1(1) show ?case by (intro exI [of _ J']) simp
qed

lemma back_up_run:
  assumes "slash \<notin> set w"
  shows "back_up (Q @ slash # w @ Y) (length Q + 1 + length w) = Some (length Q + 1)"
  using assms
proof (induction w arbitrary: Y rule: rev_induct)
  case Nil
  then show ?case by simp
next
  case (snoc x w)
  have "rd (length Q + 1 + length w) (Q @ slash # (w @ [x]) @ Y) = Some x" using rd_mid(1) [of "Q @ slash # w" x Y] by simp
  with snoc.IH [of "x # Y"] snoc.prems show ?case by auto
qed

section \<open>Rounds\<close>

lemma loop_round:
  "normalize_round b s d = Some (Again b1 s1 d1) \<Longrightarrow> normalize_loop b s d = normalize_loop b1 s1 d1"
  "normalize_round b s d = Some (Stop b1 d1) \<Longrightarrow> normalize_loop b s d = Some (Some (b1, d1))"
  "normalize_round b s d = Some Null \<Longrightarrow> normalize_loop b s d = Some None"
  by (subst normalize_loop.simps, simp)+

text \<open>The rest of the input behind a separator: it does not start with one.\<close>

definition at_name :: "string \<Rightarrow> bool" where
  "at_name r \<longleftrightarrow> r = [] \<or> hd r \<noteq> slash"

lemma skip_slashes_rest:
  assumes "at_name r"
  shows "skip_slashes (X @ replicate k slash @ r @ [nul]) (length X) = Some (length X + k)"
proof (cases r)
  case Nil
  then show ?thesis using skip_slashes_run [of nul X k "[]"] by simp
next
  case (Cons x y)
  then show ?thesis using skip_slashes_run [of x X k "y @ [nul]"] assms by (simp add: at_name_def)
qed

lemma copy_up_next:
  assumes w: "slash \<notin> set w" "nul \<notin> set w" and r: "at_name r"
  shows "\<exists>K. copy_up (P @ J @ w @ slash # replicate k slash @ r @ [nul]) (length P + length J) (length P)
    = Some (Again ((P @ w @ [slash]) @ K @ r @ [nul]) (length (P @ w @ [slash]) + length K) (length (P @ w @ [slash])))"
proof -
  obtain J' where J': "length J' = length J" "copy_name (P @ J @ w @ slash # replicate k slash @ r @ [nul]) (length P + length J) (length P)
    = Some (slash, P @ w @ J' @ slash # replicate k slash @ r @ [nul], length P + length J + length w + 1, length P + length w)"
    using copy_name_run [OF w, of slash J P "replicate k slash @ r @ [nul]"] by auto
  obtain J1 where J1: "length J1 = length J" "wr (length P + length w) slash (P @ w @ J' @ slash # replicate k slash @ r @ [nul])
    = Some ((P @ w @ slash # J1) @ replicate k slash @ r @ [nul])"
  proof (cases J')
    case Nil
    then show ?thesis using J'(1) wr_mid [of "P @ w" slash slash "replicate k slash @ r @ [nul]"] by (intro that [of "[]"]) simp_all
  next
    case (Cons j K)
    then show ?thesis using J'(1) wr_mid [of "P @ w" slash j "K @ slash # replicate k slash @ r @ [nul]"]
      by (intro that [of "K @ [slash]"]) simp_all
  qed
  have "skip_slashes ((P @ w @ slash # J1) @ replicate k slash @ r @ [nul]) (length P + length J + length w + 1)
      = Some (length P + length J + length w + 1 + k)"
    using skip_slashes_rest [OF r, of "P @ w @ slash # J1" k] J1(1) by (simp add: add_ac)
  then show ?thesis using J'(2) J1 by (intro exI [of _ "J1 @ replicate k slash"]) (simp add: copy_up_def add_ac)
qed

lemma copy_up_end:
  assumes w: "slash \<notin> set w" "nul \<notin> set w"
  shows "\<exists>K. copy_up (P @ J @ w @ [nul]) (length P + length J) (length P) = Some (Stop (P @ w @ K @ [nul]) (length P + length w))"
  using copy_name_run [OF w, of nul J P "[]"] by (auto simp: copy_up_def)

text \<open>A name other than a dot and two dots is copied.\<close>

lemma round_name:
  assumes w: "is_name w" "w \<noteq> ''.''" "w \<noteq> ''..''" and Y: "Y \<noteq> []" "hd Y = nul \<or> hd Y = slash"
  shows "normalize_round (X @ w @ Y) (length X) d = copy_up (X @ w @ Y) (length X) d"
proof -
  obtain c Z where Y': "Y = c # Z" "c = nul \<or> c = slash" using Y by (cases Y) auto
  obtain x v where x: "w = x # v" "x \<noteq> nul" "x \<noteq> slash" "nul \<notin> set v" "slash \<notin> set v" using w by (cases w) (auto simp: is_name_def)
  have r0: "rd (length X) (X @ w @ Y) = Some x" using x by simp
  show ?thesis
  proof (cases "x = dot")
    case False
    then show ?thesis using r0 by (simp add: normalize_round_def)
  next
    case True
    then obtain y u where v: "v = y # u" "y \<noteq> nul" "y \<noteq> slash" using w(2) x by (cases v) auto
    have r1: "rd (length X + 1) (X @ w @ Y) = Some y" using rd_mid(1) [of "X @ [x]" y "u @ Y"] x v by simp
    show ?thesis
    proof (cases "y = dot")
      case False
      then show ?thesis using r0 r1 True v by (simp add: normalize_round_def)
    next
      case dots: True
      then obtain z t where u: "u = z # t" "z \<noteq> nul" "z \<noteq> slash" using w(3) True x v by (cases u) auto
      have "rd (length X + 2) (X @ w @ Y) = Some z" using rd_mid(1) [of "X @ [x, y]" z "t @ Y"] x v u by simp
      then show ?thesis using r0 r1 True dots v u by (simp add: normalize_round_def)
    qed
  qed
qed

lemma round_dot:
  "normalize_round (X @ ''.'' @ [nul]) (length X) d = copy_up (X @ ''.'' @ [nul]) (length X + 1) d"
  "at_name r \<Longrightarrow> normalize_round (X @ ''.'' @ slash # replicate k slash @ r @ [nul]) (length X) d
     = Some (Again (X @ ''.'' @ slash # replicate k slash @ r @ [nul]) (length X + 2 + k) d)"
  using rd_mid(1) [of "X @ ''.''" nul "[]"] rd_mid(1) [of "X @ ''.''" slash "replicate k slash @ r @ [nul]"]
    skip_slashes_rest [of r "X @ ''./''" k]
  by (simp_all add: normalize_round_def numeral_2_eq_2)

lemma round_dots:
  "normalize_round (X @ ''..'' @ [nul]) (length X) d = up_one (X @ ''..'' @ [nul]) (length X + 2) d"
  "at_name r \<Longrightarrow> normalize_round (X @ ''..'' @ slash # replicate k slash @ r @ [nul]) (length X) d
     = up_one (X @ ''..'' @ slash # replicate k slash @ r @ [nul]) (length X + 3 + k) d"
  using rd_mid(1) [of "X @ ''.''" dot "[nul]"] rd_mid(1) [of "X @ ''..''" nul "[]"]
    rd_mid(1) [of "X @ ''.''" dot "slash # replicate k slash @ r @ [nul]"]
    rd_mid(1) [of "X @ ''..''" slash "replicate k slash @ r @ [nul]"] skip_slashes_rest [of r "X @ ''../''" k]
  by (simp_all add: normalize_round_def numeral_2_eq_2 numeral_3_eq_3)

section \<open>The loop computes the reduction\<close>

lemma dir_path_snoc: "dir_path (st @ [c]) = dir_path st @ c @ [slash]"
  by (simp add: dir_path_def)

lemma dir_path_last: "dir_path st = butlast (dir_path st) @ [slash]"
  by (cases st rule: rev_cases) (simp_all add: dir_path_def butlast_append)

lemma names_split:
  assumes r: "at_name r" "r \<noteq> []"
  obtains (last) w where "r = w" "w \<noteq> []" "slash \<notin> set w" "components r = [w]"
  | (more) w k r2 where "r = w @ slash # replicate k slash @ r2" "w \<noteq> []" "slash \<notin> set w" "at_name r2"
      "components r = w # components r2"
proof -
  let ?w = "takeWhile (\<lambda>c. c \<noteq> slash) r" and ?d = "dropWhile (\<lambda>c. c \<noteq> slash) r"
  let ?r2 = "dropWhile (\<lambda>c. c = slash) ?d"
  have w: "?w \<noteq> []" using r by (cases r) (auto simp: at_name_def)
  have ns: "slash \<notin> set ?w" by (auto dest: set_takeWhileD)
  have c: "components r = ?w # components ?r2" using r w by (subst components.simps) simp
  have a: "at_name ?r2" using hd_dropWhile [of "\<lambda>c. c = slash" ?d] by (auto simp: at_name_def)
  show ?thesis
  proof (cases ?d)
    case Nil
    then have "r = ?w" using takeWhile_dropWhile_id [of "\<lambda>c. c \<noteq> slash" r] by (metis append_Nil2)
    moreover have "components [] = []" by (subst components.simps) simp
    ultimately show ?thesis using w ns c Nil by (intro last [of ?w]) simp_all
  next
    case (Cons x y)
    then have "x = slash" using hd_dropWhile [of "\<lambda>c. c \<noteq> slash" r] by simp
    moreover have "y = takeWhile (\<lambda>c. c = slash) y @ dropWhile (\<lambda>c. c = slash) y" by simp
    moreover have "takeWhile (\<lambda>c. c = slash) y = replicate (length (takeWhile (\<lambda>c. c = slash) y)) slash"
      by (rule replicate_eqI) (auto dest: set_takeWhileD)
    ultimately have "?d = slash # replicate (length (takeWhile (\<lambda>c. c = slash) y)) slash @ ?r2" using Cons by simp
    then have "r = ?w @ slash # replicate (length (takeWhile (\<lambda>c. c = slash) y)) slash @ ?r2"
      using takeWhile_dropWhile_id [of "\<lambda>c. c \<noteq> slash" r] by metis
    then show ?thesis using w ns a c by (rule more)
  qed
qed

text \<open>Two dots go back to the directory before.\<close>

lemma up_one_back:
  assumes "is_name c" and "st = st0 @ [c]"
  shows "up_one (dir_path st @ Y) s (length (dir_path st)) = Some (Again (dir_path st0 @ (c @ [slash]) @ Y) s (length (dir_path st0)))"
proof -
  obtain Q where Q: "dir_path st0 = Q @ [slash]" using dir_path_last by blast
  have "dir_path st @ Y = Q @ slash # c @ slash # Y" using assms(2) Q by (simp add: dir_path_snoc)
  moreover have "back_up (Q @ slash # c @ slash # Y) (length Q + 1 + length c) = Some (length Q + 1)"
    using back_up_run [of c Q "slash # Y"] assms(1) by (simp add: is_name_def)
  ultimately show ?thesis using assms(2) Q by (simp add: up_one_def dir_path_snoc)
qed

text \<open>What the loop leaves: the directory of the reduced names, with or without the separator at the end.\<close>

definition written :: "string list \<Rightarrow> (string \<times> nat) option option \<Rightarrow> bool" where
  "written st x \<longleftrightarrow> (\<exists>b d. x = Some (Some (b, d)) \<and> d < length b
     \<and> (take d b = dir_path st \<or> st \<noteq> [] \<and> take d b @ [slash] = dir_path st))"

lemma loop_end:
  "written st (normalize_loop (dir_path st @ J @ [nul]) (length (dir_path st) + length J) (length (dir_path st)))"
proof -
  let ?P = "dir_path st"
  obtain K where K: "copy_up (?P @ J @ [nul]) (length ?P + length J) (length ?P) = Some (Stop (?P @ K @ [nul]) (length ?P))"
    using copy_up_end [of "[]" ?P J] by auto
  moreover have "normalize_round (?P @ J @ [nul]) (length ?P + length J) (length ?P) = copy_up (?P @ J @ [nul]) (length ?P + length J) (length ?P)"
    using rd_mid(1) [of "?P @ J" nul "[]"] by (simp add: normalize_round_def)
  ultimately show ?thesis using loop_round(2) by (simp add: written_def)
qed

lemma loop_ok:
  assumes "nul \<notin> set r" and "at_name r" and "\<forall>c\<in>set st. is_name c" and "reduce st (components r) = Some st'"
  shows "written st' (normalize_loop (dir_path st @ J @ r @ [nul]) (length (dir_path st) + length J) (length (dir_path st)))
    \<and> (\<forall>c\<in>set st'. is_name c)"
  using assms
proof (induction "length r" arbitrary: r st J rule: less_induct)
  case less
  let ?P = "dir_path st"
  let ?s = "length ?P + length J" and ?d = "length ?P"
  have empty: "components [] = []" by (subst components.simps) simp
  show ?case
  proof (cases "r = []")
    case True
    with less.prems(3,4) empty loop_end [of st J] show ?thesis by simp
  next
    case ne: False
    from less.prems(2) ne show ?thesis
    proof (cases rule: names_split)
      case (last w)
      then consider "w = ''.''" | "w = ''..''" | (name) "w \<noteq> ''.''" "w \<noteq> ''..''" by blast
      then show ?thesis
      proof cases
        case 1
        then have st': "st' = st" using less.prems(4) last by simp
        obtain K where "copy_up (?P @ (J @ ''.'') @ [nul]) (length ?P + length (J @ ''.'')) ?d = Some (Stop (?P @ K @ [nul]) ?d)"
          using copy_up_end [of "[]" ?P "J @ ''.''"] by auto
        then have "normalize_round (?P @ J @ r @ [nul]) ?s ?d = Some (Stop (?P @ K @ [nul]) ?d)"
          using round_dot(1) [of "?P @ J" ?d] 1 last by simp
        from loop_round(2) [OF this] st' less.prems(3) show ?thesis by (simp add: written_def)
      next
        case 2
        then have red: "st \<noteq> []" "st' = butlast st" using less.prems(4) last by (simp_all split: if_splits)
        then obtain st0 c where st: "st = st0 @ [c]" "is_name c" "st' = st0" using less.prems(3) by (cases st rule: rev_cases) auto
        let ?J = "(c @ [slash]) @ J @ ''..''"
        have "normalize_round (?P @ J @ r @ [nul]) ?s ?d = Some (Again (dir_path st0 @ ?J @ [nul]) (?s + 2) (length (dir_path st0)))"
          using round_dots(1) [of "?P @ J" ?d] up_one_back [OF st(2,1), of "J @ ''..'' @ [nul]" "?s + 2"] 2 last by simp
        from loop_round(1) [OF this] loop_end [of st0 ?J] st less.prems(3) show ?thesis by (simp add: dir_path_snoc add_ac)
      next
        case name
        then have st': "st' = st @ [w]" using less.prems(4) last by simp
        have n: "is_name w" using last less.prems(1) by (simp add: is_name_def)
        obtain K where "copy_up (?P @ J @ w @ [nul]) ?s ?d = Some (Stop (?P @ w @ K @ [nul]) (?d + length w))"
          using copy_up_end [of w ?P J] n by (auto simp: is_name_def)
        then have "normalize_round (?P @ J @ r @ [nul]) ?s ?d = Some (Stop (?P @ w @ K @ [nul]) (?d + length w))"
          using round_name [OF n name, of "[nul]" "?P @ J" ?d] last by simp
        from loop_round(2) [OF this] st' less.prems(3) n show ?thesis by (auto simp: written_def dir_path_snoc)
      qed
    next
      case (more w k r2)
      have r2: "length r2 < length r" "nul \<notin> set r2" using more less.prems(1) by auto
      consider "w = ''.''" | "w = ''..''" | (name) "w \<noteq> ''.''" "w \<noteq> ''..''" by blast
      then show ?thesis
      proof cases
        case 1
        let ?J = "J @ ''.'' @ slash # replicate k slash"
        have "normalize_round (?P @ J @ r @ [nul]) ?s ?d = Some (Again (?P @ ?J @ r2 @ [nul]) (?d + length ?J) ?d)"
          using round_dot(2) [OF more(4), of "?P @ J" k ?d] 1 more by (simp add: add_ac)
        from loop_round(1) [OF this] less.hyps [OF r2 more(4) less.prems(3), of ?J] less.prems(4) 1 more show ?thesis by simp
      next
        case 2
        then have red: "st \<noteq> []" using less.prems(4) more by (simp split: if_splits)
        then obtain st0 c where st: "st = st0 @ [c]" "is_name c" "\<forall>c\<in>set st0. is_name c" using less.prems(3) by (cases st rule: rev_cases) auto
        let ?K = "J @ ''..'' @ slash # replicate k slash"
        let ?J = "(c @ [slash]) @ ?K"
        have "normalize_round (?P @ J @ r @ [nul]) ?s ?d
            = Some (Again (dir_path st0 @ ?J @ r2 @ [nul]) (length (dir_path st0) + length ?J) (length (dir_path st0)))"
          using round_dots(2) [OF more(4), of "?P @ J" k ?d] up_one_back [OF st(2,1), of "?K @ r2 @ [nul]" "?s + 3 + k"] 2 more
          by (simp add: st(1) dir_path_snoc add_ac)
        from loop_round(1) [OF this] less.hyps [OF r2 more(4) st(3), of ?J] less.prems(4) 2 more st(1) show ?thesis by simp
      next
        case name
        have n: "is_name w" using more less.prems(1) by (auto simp: is_name_def)
        obtain K where "copy_up (?P @ J @ w @ slash # replicate k slash @ r2 @ [nul]) ?s ?d
          = Some (Again ((?P @ w @ [slash]) @ K @ r2 @ [nul]) (length (?P @ w @ [slash]) + length K) (length (?P @ w @ [slash])))"
          using copy_up_next [of w r2 ?P J k] n more(4) by (auto simp: is_name_def)
        then have "normalize_round (?P @ J @ r @ [nul]) ?s ?d
            = Some (Again (dir_path (st @ [w]) @ K @ r2 @ [nul]) (length (dir_path (st @ [w])) + length K) (length (dir_path (st @ [w]))))"
          using round_name [OF n name, of "slash # replicate k slash @ r2 @ [nul]" "?P @ J" ?d] more by (simp add: dir_path_snoc)
        from loop_round(1) [OF this] less.hyps [OF r2 more(4), of "st @ [w]" K] less.prems(3,4) name n more show ?thesis by simp
      qed
    qed
  qed
qed

section \<open>The path\<close>

lemma dir_render: "st \<noteq> [] \<Longrightarrow> dir_path st = render st @ [slash]"
proof (induction st rule: rev_induct)
  case (snoc c st)
  then show ?case by (cases "st = []") (simp_all add: dir_path_snoc render_def, simp_all add: dir_path_def)
qed simp

lemma render_chars: "\<forall>c\<in>set st. is_name c \<Longrightarrow> nul \<notin> set (render st)" "\<forall>c\<in>set st. is_name c \<Longrightarrow> st \<noteq> [] \<Longrightarrow> last (render st) \<noteq> slash \<and> 1 < length (render st)"
proof -
  show "nul \<notin> set (render st)" if "\<forall>c\<in>set st. is_name c" using that by (auto simp: render_def is_name_def)
  show "last (render st) \<noteq> slash \<and> 1 < length (render st)" if names: "\<forall>c\<in>set st. is_name c" and ne: "st \<noteq> []"
  proof -
    obtain st0 c where st: "st = st0 @ [c]" "is_name c" using names ne by (cases st rule: rev_cases) auto
    moreover from st(2) have "c \<noteq> []" "last c \<noteq> slash" using last_in_set [of c] unfolding is_name_def by metis+
    ultimately have "render st = concat (map (\<lambda>c. slash # c) st0) @ slash # c" "c \<noteq> []" "last c \<noteq> slash" by (simp_all add: render_def)
    then show ?thesis by (cases c) auto
  qed
qed

lemma c_string_mid: "nul \<notin> set xs \<Longrightarrow> c_string (xs @ nul # ys) = xs"
  by (induction xs) (auto simp: c_string_def)

lemma normalize_end_ok:
  assumes w: "written st (Some (Some (b, d)))" and names: "\<forall>c\<in>set st. is_name c"
  shows "\<exists>b1. normalize_end b d = Some b1 \<and> c_string b1 = render st"
proof -
  have d: "d < length b" and t: "take d b = dir_path st \<or> st \<noteq> [] \<and> take d b @ [slash] = dir_path st"
    using w by (auto simp: written_def)
  obtain x Y where b: "b = take d b @ x # Y" using d id_take_nth_drop by blast
  have len: "length (take d b) = d" using d by simp
  have wr: "wr d nul b = Some (take d b @ nul # Y)" using wr_mid [of "take d b" nul x Y] b len by simp
  note chars = render_chars [OF names]
  show ?thesis
  proof (cases "st = []")
    case True
    then have "take d b = ''/''" using t by (simp add: dir_path_def)
    moreover from this have "d = 1" using len by simp
    ultimately show ?thesis using wr True c_string_mid [of "''/''" Y] by (simp add: normalize_end_def render_def)
  next
    case ne: False
    note r = dir_render [OF ne]
    from t show ?thesis
    proof (elim disjE conjE)
      assume t: "take d b = dir_path st"
      then have d1: "d - 1 = length (render st)" "d - 1 \<noteq> 0" "d \<noteq> 0" using len r chars(2) ne by auto
      have "take d b @ nul # Y = render st @ slash # nul # Y" using t r by simp
      then show ?thesis
        using wr d1 c_string_mid [OF chars(1), of "nul # Y"] by (simp add: normalize_end_def)
    next
      assume t: "take d b @ [slash] = dir_path st"
      then have e: "take d b = render st" using r by simp
      then have d1: "d = length (render st)" "d \<noteq> 0" "d - 1 \<noteq> 0" using len chars(2) ne by auto
      have eq: "render st @ nul # Y = butlast (render st) @ last (render st) # nul # Y" using d1 by (metis append_butlast_last_id append_Cons append_Nil append_assoc list.size(3))
      have "rd (d - 1) (render st @ nul # Y) = Some (last (render st))"
        unfolding eq using rd_mid(1) [of "butlast (render st)" "last (render st)" "nul # Y"] d1(1) by simp
      then show ?thesis using wr d1 e c_string_mid [OF chars(1)] chars(2) ne by (simp add: normalize_end_def)
    qed
  qed
qed

lemma components_abs:
  assumes "at_name r"
  shows "components (slash # replicate k slash @ r) = components r"
proof -
  have "dropWhile (\<lambda>c. c = slash) (replicate k slash @ r) = r" using assms by (induction k) (cases r; simp add: at_name_def)+
  then show ?thesis by (subst components.simps) simp
qed

lemma abs_split:
  obtains k r where "slash # t = slash # replicate k slash @ r" and "at_name r"
proof -
  have "takeWhile (\<lambda>c. c = slash) t = replicate (length (takeWhile (\<lambda>c. c = slash) t)) slash"
    by (rule replicate_eqI) (auto dest: set_takeWhileD)
  moreover have "at_name (dropWhile (\<lambda>c. c = slash) t)" using hd_dropWhile [of "\<lambda>c. c = slash" t] by (auto simp: at_name_def)
  ultimately show ?thesis using that takeWhile_dropWhile_id by metis
qed

text \<open>The whole path that the call works on.\<close>

definition full_path :: "string \<Rightarrow> string option \<Rightarrow> string \<Rightarrow> string" where
  "full_path wd dir filename = (if filename = [] \<or> hd filename \<noteq> slash
     then (case dir of None \<Rightarrow> wd | Some d \<Rightarrow> d) @ [slash] @ filename else filename)"

lemma first_round:
  assumes "at_name r"
  shows "\<exists>K. normalize_loop ((slash # replicate k slash @ r) @ [nul]) 0 0
    = normalize_loop (dir_path [] @ K @ r @ [nul]) (length (dir_path []) + length K) (length (dir_path []))"
proof -
  obtain K where "copy_up ((slash # replicate k slash @ r) @ [nul]) 0 0 = Some (Again ([slash] @ K @ r @ [nul]) (1 + length K) 1)"
    using copy_up_next [of "[]" r "[]" "[]" k] assms by auto
  then have "normalize_round ((slash # replicate k slash @ r) @ [nul]) 0 0 = Some (Again ([slash] @ K @ r @ [nul]) (1 + length K) 1)"
    using rd_mid(1) [of "[]" slash "replicate k slash @ r @ [nul]"] by (simp add: normalize_round_def)
  from loop_round(1) [OF this] show ?thesis by (intro exI [of _ K]) (simp add: dir_path_def)
qed

lemma normalize_ok:
  assumes s: "full_path wd dir filename = slash # t" "nul \<notin> set t" and red: "reduce [] (components (slash # t)) = Some st"
  shows "dfs_normalize_path True wd dir filename = Some (Some (render st))" and "\<forall>c\<in>set st. is_name c"
proof -
  obtain k r where t: "slash # t = slash # replicate k slash @ r" "at_name r" using abs_split .
  have n: "nul \<notin> set r" using t(1) s(2) by auto
  obtain K where K: "normalize_loop ((slash # t) @ [nul]) 0 0
    = normalize_loop (dir_path [] @ K @ r @ [nul]) (length (dir_path []) + length K) (length (dir_path []))"
    using first_round [OF t(2), of k] t(1) by metis
  have "reduce [] (components r) = Some st" using red t components_abs by metis
  with loop_ok [OF n t(2), of "[]" st K] have ok: "written st (normalize_loop ((slash # t) @ [nul]) 0 0)" "\<forall>c\<in>set st. is_name c"
    unfolding K by simp_all
  show "\<forall>c\<in>set st. is_name c" by (rule ok(2))
  obtain b d where bd: "normalize_loop ((slash # t) @ [nul]) 0 0 = Some (Some (b, d))" using ok(1) by (auto simp: written_def)
  with normalize_end_ok [of st b d] ok show "dfs_normalize_path True wd dir filename = Some (Some (render st))"
    using s(1) by (auto simp: dfs_normalize_path_def full_path_def Let_def split: if_splits)
qed

text \<open>A path that is the result of a call is its own result.\<close>

lemma reduce_plain:
  "reduce st cs = Some st' \<Longrightarrow> \<forall>c\<in>set st. c \<noteq> ''.'' \<and> c \<noteq> ''..'' \<Longrightarrow> \<forall>c\<in>set st'. c \<noteq> ''.'' \<and> c \<noteq> ''..''"
proof (induction st cs rule: reduce.induct)
  case (2 st c cs)
  consider "c = ''.''" | "c = ''..''" | "c \<noteq> ''.''" "c \<noteq> ''..''" by blast
  then show ?case
  proof cases
    case 1
    with 2 show ?thesis by simp
  next
    case c: 2
    then have st: "st \<noteq> []" "reduce (butlast st) cs = Some st'" and ne: "c \<noteq> ''.''" using 2(4) by (simp_all split: if_splits)
    have "\<forall>c\<in>set (butlast st). c \<noteq> ''.'' \<and> c \<noteq> ''..''" using 2(5) in_set_butlastD [of _ st] by blast
    then show ?thesis by (rule 2(2) [OF ne c st])
  next
    case 3
    with 2(3) 2(4,5) show ?thesis by simp
  qed
qed simp

lemma reduce_names: "\<forall>c\<in>set cs. c \<noteq> ''.'' \<and> c \<noteq> ''..'' \<Longrightarrow> reduce st cs = Some (st @ cs)"
  by (induction cs arbitrary: st) auto

lemma components_names:
  assumes "\<forall>c\<in>set st. is_name c"
  shows "components (concat (map (\<lambda>c. slash # c) st)) = st"
  using assms
proof (induction st)
  case Nil
  show ?case by (subst components.simps) simp
next
  case (Cons c st)
  let ?r = "concat (map (\<lambda>c. slash # c) st)"
  have c: "c \<noteq> []" "slash \<notin> set c" using Cons.prems by (simp_all add: is_name_def)
  have a: "at_name (c @ ?r)" using c by (cases c) (auto simp: at_name_def)
  have "components (slash # c @ ?r) = components (c @ ?r)" using components_abs [OF a, of 0] by simp
  also have "\<dots> = c # components ?r"
  proof -
    have t: "takeWhile (\<lambda>x. x \<noteq> slash) (c @ ?r) = c" "dropWhile (\<lambda>x. x \<noteq> slash) (c @ ?r) = ?r"
      using c(2) by (cases st; auto simp: takeWhile_append dropWhile_append)+
    have "components (dropWhile (\<lambda>x. x = slash) ?r) = components ?r"
    proof (cases st)
      case (Cons e tl)
      then obtain x v where e: "e = x # v" "x \<noteq> slash" using Cons.prems by (cases e) (auto simp: is_name_def)
      have "at_name (e @ concat (map (\<lambda>c. slash # c) tl))" using e by (simp add: at_name_def)
      from components_abs [OF this, of 0] show ?thesis using Cons e by simp
    qed simp
    then show ?thesis using c(1) t by (subst components.simps) simp
  qed
  finally show ?case using Cons by simp
qed

lemma normalize_again:
  assumes "reduce [] cs = Some st" and "\<forall>c\<in>set st. is_name c"
  shows "dfs_normalize_path True wd dir (render st) = Some (Some (render st))"
proof -
  have r: "\<forall>c\<in>set st. c \<noteq> ''.'' \<and> c \<noteq> ''..''" using reduce_plain [OF assms(1)] by simp
  obtain t where t: "render st = slash # t" by (cases st) (auto simp: render_def)
  have "components (slash # t) = st"
  proof (cases "st = []")
    case True
    then show ?thesis using components_abs [of "[]" 0] t by (simp add: at_name_def render_def) (subst components.simps, simp)
  next
    case False
    then show ?thesis using components_names [OF assms(2)] t by (simp add: render_def)
  qed
  then have "reduce [] (components (slash # t)) = Some st" using reduce_names [OF r, of "[]"] by simp
  moreover have "full_path wd dir (render st) = slash # t" using t by (simp add: full_path_def)
  moreover have "nul \<notin> set t" using render_chars(1) [OF assms(2)] t by auto
  ultimately show ?thesis using normalize_ok(1) by blast
qed

text \<open>
  Two dots in the root directory: the separator at the start is given up, so the result of a longer path is not
  absolute, and for the shorter one the byte before the buffer is read.
\<close>

lemma normalize_above_root:
  assumes "is_name w" "w \<noteq> ''.''" "w \<noteq> ''..''"
  shows "dfs_normalize_path True wd dir (''/../'' @ w) = Some (Some w)"
proof -
  have a: "at_name (''../'' @ w)" "at_name w" using assms(1) by (cases w; auto simp: at_name_def is_name_def)+
  obtain K where K: "normalize_loop ((''/../'' @ w) @ [nul]) 0 0 = normalize_loop (''/'' @ K @ ''../'' @ w @ [nul]) (1 + length K) 1"
    using first_round [OF a(1), of 0] by (auto simp: dir_path_def)
  let ?b = "''/'' @ K @ ''../'' @ w @ [nul]"
  have "normalize_round ?b (1 + length K) 1 = Some (Again ?b (1 + length K + 3) 0)"
    using round_dots(2) [OF a(2), of "''/'' @ K" 0 1] by (simp add: up_one_def)
  let ?J = "''/'' @ K @ ''../''"
  from loop_round(1) [OF \<open>normalize_round _ _ _ = _\<close>] have 1: "normalize_loop ?b (1 + length K) 1 = normalize_loop (?J @ w @ [nul]) (length ?J) 0"
    by (simp add: eval_nat_numeral)
  have w: "slash \<notin> set w" "nul \<notin> set w" "w \<noteq> []" using assms(1) by (simp_all add: is_name_def)
  obtain K2 where K2: "copy_up (?J @ w @ [nul]) (length ?J) 0 = Some (Stop (w @ K2 @ [nul]) (length w))"
    using copy_up_end [OF w(1,2), of "[]" ?J] by auto
  have "normalize_round (?J @ w @ [nul]) (length ?J) 0 = Some (Stop (w @ K2 @ [nul]) (length w))"
    using round_name [OF assms, of "[nul]" ?J 0] K2 by simp
  note 2 = loop_round(2) [OF this]
  obtain x Y where x: "K2 @ [nul] = x # Y" by (cases "K2 @ [nul]") auto
  have wr: "wr (length w) nul (w @ K2 @ [nul]) = Some (w @ nul # Y)" unfolding x by simp
  have l: "w @ nul # Y = butlast w @ last w # nul # Y" "last w \<noteq> slash" using w last_in_set [of w] by (simp, metis)
  have "rd (length w - 1) (w @ nul # Y) = Some (last w)"
    unfolding l(1) using rd_mid(1) [of "butlast w" "last w" "nul # Y"] by simp
  then have "normalize_end (w @ K2 @ [nul]) (length w) = Some (w @ nul # Y)" using wr l(2) w(3) by (simp add: normalize_end_def)
  with 2 c_string_mid [OF w(2), of Y] show ?thesis unfolding dfs_normalize_path_def using K 1 by (simp add: Let_def)
qed

lemma normalize_root_parent: "dfs_normalize_path True wd dir ''/..'' = None"
proof -
  obtain K where K: "normalize_loop (''/..'' @ [nul]) 0 0 = normalize_loop (''/'' @ K @ ''..'' @ [nul]) (1 + length K) 1"
    using first_round [of "''..''" 0] by (auto simp: dir_path_def at_name_def)
  let ?J = "''/'' @ K @ ''..''"
  have "normalize_round (''/'' @ K @ ''..'' @ [nul]) (1 + length K) 1 = Some (Again (?J @ [nul]) (length ?J) 0)"
    using round_dots(1) [of "''/'' @ K" 1] by (simp add: up_one_def)
  note 1 = loop_round(1) [OF this]
  obtain K2 where "copy_up (?J @ [nul]) (length ?J) 0 = Some (Stop (K2 @ [nul]) 0)" using copy_up_end [of "[]" "[]" ?J] by auto
  then have "normalize_round (?J @ [nul]) (length ?J) 0 = Some (Stop (K2 @ [nul]) 0)"
    using rd_mid(1) [of ?J nul "[]"] by (simp add: normalize_round_def)
  from loop_round(2) [OF this] K 1 have "normalize_loop (''/..'' @ [nul]) 0 0 = Some (Some (K2 @ [nul], 0))" by (simp only:)
  then show ?thesis by (simp add: dfs_normalize_path_def normalize_end_def Let_def wr_def)
qed

end
