(* ===== verification/Rt_Dfs.thy ===== *)
theory Rt_Dfs
  imports Rt_Path Rt_Mutex
begin

text \<open>
  The tables of the device file system, \<^verbatim>\<open>components/dfs/src/dfs.c\<close> and \<^verbatim>\<open>dfs_fs.c\<close>: registered file systems, mounted file systems
  and file descriptors. Every operation takes the file system mutex of the kernel, waiting without limit; one that had to wait goes
  on with the \<open>_wake\<close> definition. The operations of a file system are known by a number; what they are called is in \<open>ops_name\<close>.
\<close>

section \<open>Data\<close>

record dfs_filesystem =
  dev_id :: "nat option"
  fs_path :: "string option"
  fs_ops :: "nat option"
  fs_data :: "nat option"

record dfs_fd =
  fd_magic :: rt_uint16
  fd_type :: rt_uint16
  fd_path :: "string option"
  ref_count :: rt_int32
  fd_fs :: "nat option"
  fd_flags :: rt_uint32
  fd_size :: rt_uint32
  fd_pos :: rt_int32
  fd_data :: "nat option"

record dfs =
  dfs_kern :: kstate
  filesystem_operation_table :: "nat option list"
  filesystem_table :: "dfs_filesystem list"
  fd_table :: "dfs_fd list"
  working_directory :: string
  ops_name :: "nat \<Rightarrow> string"
  fslock :: nat

abbreviation (input) DFS_FD_MAGIC :: rt_uint16 where "DFS_FD_MAGIC \<equiv> 0xfdfd"
abbreviation (input) DFS_FD_MAX :: nat where "DFS_FD_MAX \<equiv> 4"
abbreviation (input) DFS_FILESYSTEMS_MAX :: nat where "DFS_FILESYSTEMS_MAX \<equiv> 4"
abbreviation (input) DFS_FILESYSTEM_TYPES_MAX :: nat where "DFS_FILESYSTEM_TYPES_MAX \<equiv> 4"

definition fs_zero :: dfs_filesystem where
  "fs_zero = \<lparr>dev_id = None, fs_path = None, fs_ops = None, fs_data = None\<rparr>"

definition fd_zero :: dfs_fd where
  "fd_zero = \<lparr>fd_magic = 0, fd_type = 0, fd_path = None, ref_count = 0, fd_fs = None, fd_flags = 0, fd_size = 0, fd_pos = 0, fd_data = None\<rparr>"

definition dfs_init :: "rt_uint8 list \<Rightarrow> dfs \<Rightarrow> dfs" where
  "dfs_init nm D =
     D\<lparr>filesystem_operation_table := replicate DFS_FILESYSTEM_TYPES_MAX None, filesystem_table := replicate DFS_FILESYSTEMS_MAX fs_zero,
       fd_table := replicate DFS_FD_MAX fd_zero, dfs_kern := snd (rt_mutex_init (fslock D) nm RT_IPC_FLAG_FIFO (dfs_kern D)),
       working_directory := ''/''\<rparr>"

section \<open>The lock\<close>

definition dfs_lock :: "dfs \<Rightarrow> (unit callres \<times> dfs) option" where
  "dfs_lock D =
     do {
       (r, k) \<leftarrow> rt_mutex_take (fslock D) (- 1) (dfs_kern D);
       case r of Blocked \<Rightarrow> Some (Blocked, D\<lparr>dfs_kern := k\<rparr>)
       | Return result \<Rightarrow> (if result \<noteq> RT_EOK then None else Some (Return (), D\<lparr>dfs_kern := k\<rparr>))
     }"

definition dfs_lock_wake :: "tid \<Rightarrow> dfs \<Rightarrow> dfs option" where
  "dfs_lock_wake t D = (if rt_mutex_take_wake t (dfs_kern D) \<noteq> RT_EOK then None else Some D)"

definition dfs_unlock :: "dfs \<Rightarrow> dfs option" where
  "dfs_unlock D = do { (e, k) \<leftarrow> rt_mutex_release (fslock D) (dfs_kern D); Some (D\<lparr>dfs_kern := k\<rparr>) }"

text \<open>The work between the two calls.\<close>

definition section_end :: "(dfs \<Rightarrow> 'a \<times> dfs) \<Rightarrow> dfs \<Rightarrow> ('a callres \<times> dfs) option" where
  "section_end body D = do { let (x, D1) = body D; D2 \<leftarrow> dfs_unlock D1; Some (Return x, D2) }"

definition fs_section :: "(dfs \<Rightarrow> 'a \<times> dfs) \<Rightarrow> dfs \<Rightarrow> ('a callres \<times> dfs) option" where
  "fs_section body D =
     do {
       (r, D1) \<leftarrow> dfs_lock D;
       case r of Blocked \<Rightarrow> Some (Blocked, D1) | Return _ \<Rightarrow> section_end body D1
     }"

definition fs_section_wake :: "tid \<Rightarrow> (dfs \<Rightarrow> 'a \<times> dfs) \<Rightarrow> dfs \<Rightarrow> ('a callres \<times> dfs) option" where
  "fs_section_wake t body D = do { D1 \<leftarrow> dfs_lock_wake t D; section_end body D1 }"

section \<open>File descriptors\<close>

text \<open>\<open>first_free\<close> is the search loop; the result is an index, \<open>-1\<close> for none.\<close>

fun first_free :: "dfs_fd list \<Rightarrow> nat \<Rightarrow> nat" where
  "first_free [] idx = idx"
| "first_free (d # ds) idx = (if sint (ref_count d) > 0 then first_free ds (idx + 1) else idx)"

definition fd_new_body :: "dfs \<Rightarrow> int \<times> dfs" where
  "fd_new_body D =
     (let idx = first_free (fd_table D) 0
      in if idx = DFS_FD_MAX then (- 1, D)
         else (int idx, D\<lparr>fd_table := (fd_table D)[idx := (fd_table D ! idx)\<lparr>ref_count := 1, fd_magic := DFS_FD_MAGIC\<rparr>]\<rparr>))"

definition fd_new :: "dfs \<Rightarrow> (int callres \<times> dfs) option" where
  "fd_new = fs_section fd_new_body"

text \<open>The result is the entry of the table, \<open>None\<close> for the null pointer.\<close>

definition fd_get_body :: "nat \<Rightarrow> dfs \<Rightarrow> nat option \<times> dfs" where
  "fd_get_body fd D =
     (if fd_magic (fd_table D ! fd) \<noteq> DFS_FD_MAGIC then (None, D)
      else (Some fd, D\<lparr>fd_table := (fd_table D)[fd := (fd_table D ! fd)\<lparr>ref_count := ref_count (fd_table D ! fd) + 1\<rparr>]\<rparr>))"

definition fd_get :: "int \<Rightarrow> dfs \<Rightarrow> (nat option callres \<times> dfs) option" where
  "fd_get fd D = (if fd < 0 \<or> fd \<ge> int DFS_FD_MAX then Some (Return None, D) else fs_section (fd_get_body (nat fd)) D)"

definition fd_put_body :: "nat \<Rightarrow> dfs \<Rightarrow> unit \<times> dfs" where
  "fd_put_body fd D =
     (let d = (fd_table D ! fd)\<lparr>ref_count := ref_count (fd_table D ! fd) - 1\<rparr>
      in ((), D\<lparr>fd_table := (fd_table D)[fd := (if ref_count d = 0 then fd_zero else d)]\<rparr>))"

definition fd_put :: "nat \<Rightarrow> dfs \<Rightarrow> (unit callres \<times> dfs) option" where
  "fd_put fd = fs_section (fd_put_body fd)"

section \<open>File systems\<close>

text \<open>
  The loop of \<^verbatim>\<open>dfs_register\<close>: the first empty entry so far, and whether the name was met. A full table is not an error.
\<close>

fun register_scan :: "(nat \<Rightarrow> string) \<Rightarrow> string \<Rightarrow> nat option list \<Rightarrow> nat \<Rightarrow> nat option \<Rightarrow> nat option \<times> bool" where
  "register_scan nm s [] i slot = (slot, False)"
| "register_scan nm s (None # xs) i slot = register_scan nm s xs (i + 1) (if slot = None then Some i else slot)"
| "register_scan nm s (Some p # xs) i slot = (if nm p = s then (slot, True) else register_scan nm s xs (i + 1) slot)"

definition dfs_register_body :: "nat \<Rightarrow> dfs \<Rightarrow> int \<times> dfs" where
  "dfs_register_body ops D =
     (let (slot, found) = register_scan (ops_name D) (ops_name D ops) (filesystem_operation_table D) 0 None
      in if found then (- 1, D)
         else case slot of None \<Rightarrow> (0, D)
              | Some i \<Rightarrow> (0, D\<lparr>filesystem_operation_table := (filesystem_operation_table D)[i := Some ops]\<rparr>))"

definition dfs_register :: "nat \<Rightarrow> dfs \<Rightarrow> (int callres \<times> dfs) option" where
  "dfs_register ops = fs_section (dfs_register_body ops)"

text \<open>Whether an entry is mounted at the start of a path, up to a separator.\<close>

definition covers :: "string \<Rightarrow> string \<Rightarrow> bool" where
  "covers m path \<longleftrightarrow> take (length m) path = m
     \<and> \<not> (length m > 1 \<and> length path > length m \<and> path ! length m \<noteq> slash)"

fun lookup_scan :: "string \<Rightarrow> dfs_filesystem list \<Rightarrow> nat \<Rightarrow> nat \<Rightarrow> nat option \<Rightarrow> nat option" where
  "lookup_scan path [] i prefixlen fs = fs"
| "lookup_scan path (x # xs) i prefixlen fs =
     (case (fs_path x, fs_ops x) of
        (Some m, Some _) \<Rightarrow>
          (if length m < prefixlen \<or> \<not> covers m path then lookup_scan path xs (i + 1) prefixlen fs
           else lookup_scan path xs (i + 1) (length m) (Some i))
      | _ \<Rightarrow> lookup_scan path xs (i + 1) prefixlen fs)"

definition dfs_filesystem_lookup :: "string \<Rightarrow> dfs \<Rightarrow> (nat option callres \<times> dfs) option" where
  "dfs_filesystem_lookup path = fs_section (\<lambda>D. (lookup_scan path (filesystem_table D) 0 0 None, D))"

definition mounted_path_body :: "nat option \<Rightarrow> dfs \<Rightarrow> string option \<times> dfs" where
  "mounted_path_body device D =
     (case find (\<lambda>x. fs_ops x \<noteq> None \<and> dev_id x = device) (filesystem_table D) of
        None \<Rightarrow> (None, D) | Some x \<Rightarrow> (fs_path x, D))"

definition dfs_filesystem_get_mounted_path :: "nat option \<Rightarrow> dfs \<Rightarrow> (string option callres \<times> dfs) option" where
  "dfs_filesystem_get_mounted_path device = fs_section (mounted_path_body device)"

text \<open>The part of a path below a directory.\<close>

definition dfs_subdir :: "string \<Rightarrow> string \<Rightarrow> string option option" where
  "dfs_subdir directory filename =
     (if length directory = length filename then Some None
      else if length filename < length directory then None
      else if hd (drop (length directory) filename) \<noteq> slash \<and> length directory \<noteq> 0
           then Some (Some (drop (length directory - 1) filename))
      else Some (Some (drop (length directory) filename)))"

text \<open>A partition of a boot sector: its type, start and length.\<close>

definition le32 :: "rt_uint8 list \<Rightarrow> nat \<Rightarrow> rt_uint32" where
  "le32 b i = ucast (b ! i) OR push_bit 8 (ucast (b ! (i + 1))) OR push_bit 16 (ucast (b ! (i + 2))) OR push_bit 24 (ucast (b ! (i + 3)))"

definition dfs_filesystem_get_partition :: "rt_uint8 list \<Rightarrow> rt_uint32 \<Rightarrow> (rt_uint8 \<times> rt_uint32 \<times> rt_uint32 + rt_err) option" where
  "dfs_filesystem_get_partition buf pindex =
     (let dpt = 0x1be + unat (pindex * 16)
      in if length buf < dpt + 16 then None
         else if buf ! dpt \<noteq> 0x80 \<and> buf ! dpt \<noteq> 0 then Some (Inr (- RT_ERROR))
         else if buf ! (dpt + 4) = 0 then Some (Inr (- RT_ERROR))
         else Some (Inl (buf ! (dpt + 4), le32 buf (dpt + 8), le32 buf (dpt + 12))))"

section \<open>The lock is free\<close>

text \<open>
  What happens between the two calls leaves the kernel alone. A thread that finds the lock free then gets through at once, and leaves
  the lock free.
\<close>

definition fs_ready :: "rt_tick \<Rightarrow> tid \<Rightarrow> dfs \<Rightarrow> bool" where
  "fs_ready base t D \<longleftrightarrow> check_inv base (dfs_kern D) \<and> mutex_ok (fslock D) (dfs_kern D) \<and> rt_thread_self (dfs_kern D) = Some t
     \<and> irq_nest (dfs_kern D) = 0 \<and> stat (threads (dfs_kern D) t) = RT_THREAD_READY \<and> owner (mutexes (dfs_kern D) (fslock D)) = None"

definition passed :: "tid \<Rightarrow> nat \<Rightarrow> kstate \<Rightarrow> kstate" where
  "passed t m k = upd_mutex m (\<lambda>x. x\<lparr>original_priority := 0xff\<rparr>) (upd_thread t (\<lambda>th. th\<lparr>error := RT_EOK\<rparr>) k)"

lemma fs_ready_passed: "fs_ready base t D \<Longrightarrow> fs_ready base t (D\<lparr>dfs_kern := passed t (fslock D) (dfs_kern D)\<rparr>)"
  using check_inv_error [of base "dfs_kern D" t 0] by (auto simp: fs_ready_def passed_def mutex_ok_def)

definition section_done :: "tid \<Rightarrow> dfs \<Rightarrow> dfs \<Rightarrow> dfs" where
  "section_done t D D' = D'\<lparr>dfs_kern := passed t (fslock D) (dfs_kern D)\<rparr>"

lemma lock_free:
  assumes "fs_ready base t D"
  shows "\<exists>k. dfs_lock D = Some (Return (), D\<lparr>dfs_kern := k\<rparr>)
    \<and> rt_mutex_release (fslock D) k = Some (RT_EOK, passed t (fslock D) (dfs_kern D))"
proof -
  let ?m = "fslock D"
  define s where "s = dfs_kern D"
  define s1 where "s1 = upd_thread t (\<lambda>th. th\<lparr>error := RT_EOK\<rparr>) s"
  define k where "k = upd_mutex ?m (\<lambda>x. x\<lparr>mutex_value := mutex_value x - 1, owner := Some t,
    original_priority := current_priority (threads s1 t), hold := hold x + 1\<rparr>) s1"
  have r: "rt_thread_self s = Some t" "irq_nest s = 0" "owner (mutexes s ?m) = None" "mutex_value (mutexes s ?m) = 1"
    "hold (mutexes s ?m) = 0" "lst (tlists s) (SuspendQ (OMutex ?m)) = []"
    using assms by (auto simp: fs_ready_def mutex_ok_def s_def)
  have "rt_mutex_take ?m (- 1) s = Some (Return RT_EOK, k)"
    using r(1-4) by (simp add: rt_mutex_take_def s1_def k_def Let_def)
  then have lock: "dfs_lock D = Some (Return (), D\<lparr>dfs_kern := k\<rparr>)" by (simp add: dfs_lock_def s_def)
  define fin where "fin = (mutexes s ?m)\<lparr>hold := 0, mutex_value := 1, owner := None, original_priority := 0xff\<rparr>"
  have "rt_mutex_release ?m k = Some (RT_EOK, s1\<lparr>mutexes := (mutexes s)(?m := fin)\<rparr>)"
    using r by (simp add: rt_mutex_release_def s1_def k_def Let_def fin_def)
  moreover have "fin = (mutexes s ?m)\<lparr>original_priority := 0xff\<rparr>"
    using r(3-5) unfolding fin_def by (cases "mutexes s ?m") (simp only: rt_mutex.simps)
  ultimately have "rt_mutex_release ?m k = Some (RT_EOK, passed t ?m s)" by (simp add: passed_def s1_def)
  with lock show ?thesis unfolding s_def by blast
qed

locale guarded =
  fixes body :: "dfs \<Rightarrow> 'a \<times> dfs"
  assumes apart_kernel: "body (D\<lparr>dfs_kern := k\<rparr>) = (fst (body D), (snd (body D))\<lparr>dfs_kern := k\<rparr>)"
    and same_lock: "fslock (snd (body D)) = fslock D"
begin

lemma section_free:
  assumes "fs_ready base t D"
  shows "fs_section body D = Some (Return (fst (body D)), section_done t D (snd (body D)))"
proof -
  obtain k where "dfs_lock D = Some (Return (), D\<lparr>dfs_kern := k\<rparr>)"
    and "rt_mutex_release (fslock D) k = Some (RT_EOK, passed t (fslock D) (dfs_kern D))"
    using lock_free [OF assms] by blast
  then show ?thesis
    by (simp add: fs_section_def section_end_def apart_kernel same_lock dfs_unlock_def section_done_def)
qed

lemma section_ready:
  assumes "fs_ready base t D"
  shows "fs_ready base t (section_done t D (snd (body D)))"
  using fs_ready_passed [OF assms] by (simp add: fs_ready_def section_done_def same_lock)

end

interpretation fd_new_section: guarded fd_new_body
  by unfold_locales (simp_all add: fd_new_body_def Let_def)

interpretation fd_get_section: guarded "fd_get_body fd" for fd
  by unfold_locales (simp_all add: fd_get_body_def)

interpretation fd_put_section: guarded "fd_put_body fd" for fd
  by unfold_locales (simp_all add: fd_put_body_def Let_def)

interpretation register_section: guarded "dfs_register_body ops" for ops
  by unfold_locales (simp_all add: dfs_register_body_def split: prod.split option.split)

interpretation lookup_section: guarded "\<lambda>D. (lookup_scan path (filesystem_table D) 0 0 None, D)" for path
  by unfold_locales simp_all

interpretation mounted_section: guarded "mounted_path_body device" for device
  by unfold_locales (simp_all add: mounted_path_body_def split: option.split)

section \<open>Mount points\<close>

text \<open>On normalised paths the test of the loop is the prefix order on lists of names.\<close>

lemma covers_iff: "covers m path \<longleftrightarrow> (\<exists>z. path = m @ z \<and> (length m \<le> 1 \<or> z = [] \<or> hd z = slash))"
proof
  assume c: "covers m path"
  then have "path = m @ drop (length m) path" using append_take_drop_id [of "length m" path] by (simp add: covers_def)
  moreover have "hd (drop (length m) path) = slash" if "1 < length m" "drop (length m) path \<noteq> []"
    using c that by (simp add: covers_def hd_drop_conv_nth)
  ultimately show "\<exists>z. path = m @ z \<and> (length m \<le> 1 \<or> z = [] \<or> hd z = slash)"
    by (intro exI [of _ "drop (length m) path"]) linarith
next
  assume "\<exists>z. path = m @ z \<and> (length m \<le> 1 \<or> z = [] \<or> hd z = slash)"
  then show "covers m path" by (auto simp: covers_def nth_append hd_conv_nth)
qed

lemma takeWhile_name: "slash \<notin> set x \<Longrightarrow> u = [] \<or> hd u = slash \<Longrightarrow> takeWhile (\<lambda>c. c \<noteq> slash) (x @ u) = x"
  by (cases u; induction x) auto

lemma names_cancel:
  assumes "slash \<notin> set x" "slash \<notin> set y" and "x @ u = y @ v" and "u = [] \<or> hd u = slash" "v = [] \<or> hd v = slash"
  shows "x = y \<and> u = v"
proof -
  have "x = y" using takeWhile_name [OF assms(1,4)] takeWhile_name [OF assms(2,5)] unfolding assms(3) by (rule trans [OF sym])
  then show ?thesis using assms(3) by blast
qed

abbreviation (input) joined :: "string list \<Rightarrow> string" where
  "joined st \<equiv> concat (map (\<lambda>c. slash # c) st)"

lemma joined_hd: "joined st = [] \<or> hd (joined st) = slash"
  by (cases st) auto

lemma joined_prefix:
  assumes "\<forall>c\<in>set a. is_name c" "\<forall>c\<in>set b. is_name c"
  shows "(\<exists>z. joined b = joined a @ z \<and> (z = [] \<or> hd z = slash)) \<longleftrightarrow> prefix a b"
  using assms
proof (induction a arbitrary: b)
  case Nil
  then show ?case using joined_hd [of b] by simp
next
  case (Cons x a)
  show ?case
  proof (cases b)
    case Nil
    then show ?thesis by simp
  next
    case (Cons y c)
    have x: "slash \<notin> set x" "slash \<notin> set y" using Cons.prems Cons by (auto simp: is_name_def)
    have "joined (y # c) = joined (x # a) @ z \<longleftrightarrow> y = x \<and> joined c = joined a @ z" if z: "z = [] \<or> hd z = slash" for z
    proof -
      have "joined a @ z = [] \<or> hd (joined a @ z) = slash" using z joined_hd [of a] by (cases "joined a = []") simp_all
      then have "y @ joined c = x @ joined a @ z \<longleftrightarrow> y = x \<and> joined c = joined a @ z"
        using names_cancel [OF x(2,1) _ joined_hd] by blast
      then show ?thesis by simp
    qed
    then have "(\<exists>z. joined b = joined (x # a) @ z \<and> (z = [] \<or> hd z = slash))
      \<longleftrightarrow> y = x \<and> (\<exists>z. joined c = joined a @ z \<and> (z = [] \<or> hd z = slash))"
      unfolding Cons by blast
    also have "\<dots> \<longleftrightarrow> prefix (x # a) b" using Cons.IH [of c] Cons.prems Cons by auto
    finally show ?thesis .
  qed
qed

lemma covers_prefix:
  assumes "\<forall>c\<in>set a. is_name c" "\<forall>c\<in>set b. is_name c"
  shows "covers (render a) (render b) \<longleftrightarrow> prefix a b"
proof (cases "a = []")
  case True
  moreover have "\<exists>z. render b = ''/'' @ z" by (cases b) (auto simp: render_def)
  ultimately show ?thesis by (simp add: covers_iff) (simp add: render_def)
next
  case False
  then obtain x a' where a: "a = x # a'" by (cases a) auto
  have l: "\<not> length (render a) \<le> 1" using assms(1) a by (cases x) (auto simp: render_def is_name_def)
  have ra: "render a = joined a" using False by (simp add: render_def)
  show ?thesis
  proof (cases "b = []")
    case True
    have "length (render b) = 1" using True by (simp add: render_def)
    then show ?thesis using l True a by (auto simp: covers_iff)
  next
    case False
    then show ?thesis using joined_prefix [OF assms] l unfolding covers_iff ra by (simp add: render_def)
  qed
qed

text \<open>The scan finds the longest mount point that covers the path, the last one of several.\<close>

definition mount_point :: "dfs_filesystem \<Rightarrow> string option" where
  "mount_point x = (if fs_ops x = None then None else fs_path x)"

lemma lookup_scan_step:
  "lookup_scan path (x # xs) i n fs =
     (case mount_point x of None \<Rightarrow> lookup_scan path xs (i + 1) n fs
      | Some m \<Rightarrow> if n \<le> length m \<and> covers m path then lookup_scan path xs (i + 1) (length m) (Some i)
                 else lookup_scan path xs (i + 1) n fs)"
  by (auto simp: mount_point_def not_less split: option.split)

definition best_mount :: "string \<Rightarrow> nat \<Rightarrow> dfs_filesystem list \<Rightarrow> nat option \<Rightarrow> bool" where
  "best_mount path n tbl r \<longleftrightarrow> (case r of None \<Rightarrow> n = 0
      | Some i \<Rightarrow> i < length tbl \<and> (\<exists>m. mount_point (tbl ! i) = Some m \<and> covers m path \<and> length m = n))
    \<and> (\<forall>x\<in>set tbl. \<forall>m. mount_point x = Some m \<longrightarrow> covers m path \<longrightarrow> r \<noteq> None \<and> length m \<le> n)"

lemma best_mount_skip:
  assumes "best_mount path n pre r" and "\<And>m. mount_point x = Some m \<Longrightarrow> covers m path \<Longrightarrow> length m < n"
  shows "best_mount path n (pre @ [x]) r"
  using assms by (fastforce simp: best_mount_def nth_append split: option.splits)

lemma best_mount_take:
  assumes "best_mount path n pre r" and "mount_point x = Some m" "covers m path" "n \<le> length m"
  shows "best_mount path (length m) (pre @ [x]) (Some (length pre))"
  using assms by (auto simp: best_mount_def nth_append split: option.splits)

lemma lookup_scan_best:
  assumes "best_mount path n pre r"
  shows "\<exists>n'. best_mount path n' (pre @ tbl) (lookup_scan path tbl (length pre) n r)"
  using assms
proof (induction tbl arbitrary: pre n r)
  case Nil
  then show ?case by auto
next
  case (Cons x tbl)
  have IH: "\<exists>n'. best_mount path n' (pre @ x # tbl) (lookup_scan path tbl (length pre + 1) k q)"
    if "best_mount path k (pre @ [x]) q" for k q
    using Cons.IH [OF that] by simp
  show ?case
  proof (cases "\<exists>m. mount_point x = Some m \<and> n \<le> length m \<and> covers m path")
    case True
    then obtain m where m: "mount_point x = Some m" "n \<le> length m" "covers m path" by blast
    then show ?thesis using IH [OF best_mount_take [OF Cons.prems m(1,3,2)]] unfolding lookup_scan_step by simp
  next
    case False
    then have "lookup_scan path (x # tbl) (length pre) n r = lookup_scan path tbl (length pre + 1) n r"
      unfolding lookup_scan_step by (auto split: option.split)
    moreover have "best_mount path n (pre @ [x]) r" using best_mount_skip [OF Cons.prems] False by (meson not_le)
    ultimately show ?thesis using IH by simp
  qed
qed

text \<open>The mounted file systems as lists of names.\<close>

definition mounted :: "dfs \<Rightarrow> nat \<Rightarrow> string list \<Rightarrow> bool" where
  "mounted D i st \<longleftrightarrow> i < length (filesystem_table D) \<and> mount_point (filesystem_table D ! i) = Some (render st) \<and> (\<forall>c\<in>set st. is_name c)"

definition mounts_ok :: "dfs \<Rightarrow> bool" where
  "mounts_ok D \<longleftrightarrow> (\<forall>x\<in>set (filesystem_table D). \<forall>m. mount_point x = Some m \<longrightarrow> (\<exists>st. m = render st \<and> (\<forall>c\<in>set st. is_name c)))"

lemma render_longer:
  assumes "\<forall>c\<in>set (a @ x # z). is_name c"
  shows "length (render a) < length (render (a @ x # z))"
  using assms by (cases x) (auto simp: render_def is_name_def)

lemma lookup_deepest:
  assumes "mounts_ok D" and q: "\<forall>c\<in>set q. is_name c"
  shows "case lookup_scan (render q) (filesystem_table D) 0 0 None of
      None \<Rightarrow> \<forall>i st. mounted D i st \<longrightarrow> \<not> prefix st q
    | Some i \<Rightarrow> \<exists>st. mounted D i st \<and> prefix st q \<and> (\<forall>j st'. mounted D j st' \<longrightarrow> prefix st' q \<longrightarrow> prefix st' st)"
proof -
  let ?r = "lookup_scan (render q) (filesystem_table D) 0 0 None"
  obtain n where b: "best_mount (render q) n (filesystem_table D) ?r"
    using lookup_scan_best [of "render q" 0 "[]" None "filesystem_table D"] by (auto simp: best_mount_def)
  have cov: "?r \<noteq> None \<and> length (render st) \<le> n" if "mounted D j st" "prefix st q" for j st
    using b that covers_prefix [OF _ q, of st] by (auto simp: best_mount_def mounted_def)
  show ?thesis
  proof (cases ?r)
    case None
    then show ?thesis using cov by auto
  next
    case (Some i)
    then obtain m where m: "i < length (filesystem_table D)" "mount_point (filesystem_table D ! i) = Some m" "covers m (render q)" "length m = n"
      using b by (auto simp: best_mount_def)
    obtain st where st: "m = render st" "\<forall>c\<in>set st. is_name c"
      using assms(1) m(1,2) nth_mem unfolding mounts_ok_def by blast
    have i: "mounted D i st" "prefix st q" using m st covers_prefix [OF st(2) q] by (simp_all add: mounted_def)
    have "prefix st' st" if st': "mounted D j st'" "prefix st' q" for j st'
    proof -
      have n: "\<forall>c\<in>set st'. is_name c" using st'(1) by (simp add: mounted_def)
      have "length (render st') \<le> length (render st)" using cov [OF st'] m(4) st(1) by simp
      moreover have "prefix st' st \<or> prefix st st'" using i(2) st'(2) prefix_same_cases by blast
      ultimately show ?thesis using render_longer [of st] n by (cases "st = st'") (fastforce simp: prefix_def neq_Nil_conv)+
    qed
    then show ?thesis using Some i by auto
  qed
qed

section \<open>Descriptors as counted handles\<close>

text \<open>A descriptor is in use when its entry carries the magic number; the specification is the count of users of each one in use.\<close>

definition fd_users :: "dfs \<Rightarrow> nat \<rightharpoonup> nat" where
  "fd_users D i = (if i < length (fd_table D) \<and> fd_magic (fd_table D ! i) = DFS_FD_MAGIC then Some (nat (sint (ref_count (fd_table D ! i)))) else None)"

definition fd_inv :: "dfs \<Rightarrow> bool" where
  "fd_inv D \<longleftrightarrow> length (fd_table D) = DFS_FD_MAX
     \<and> (\<forall>d\<in>set (fd_table D). if fd_magic d = DFS_FD_MAGIC then 0 < sint (ref_count d) else d = fd_zero)"

lemma fd_inv_init: "fd_inv (dfs_init nm D)" "fd_users (dfs_init nm D) = Map.empty"
  by (auto simp: fd_inv_def dfs_init_def fd_zero_def fd_users_def)

lemma fd_inv_entry:
  assumes "fd_inv D" "i < DFS_FD_MAX"
  shows "0 < sint (ref_count (fd_table D ! i)) \<longleftrightarrow> fd_users D i \<noteq> None"
    and "fd_users D i = None \<Longrightarrow> fd_table D ! i = fd_zero"
    and "fd_users D i = Some n \<Longrightarrow> fd_magic (fd_table D ! i) = DFS_FD_MAGIC \<and> sint (ref_count (fd_table D ! i)) = int n \<and> 0 < n"
proof -
  have l: "i < length (fd_table D)" using assms by (simp add: fd_inv_def)
  have e: "if fd_magic (fd_table D ! i) = DFS_FD_MAGIC then 0 < sint (ref_count (fd_table D ! i)) else fd_table D ! i = fd_zero"
    using assms(1) nth_mem [OF l] unfolding fd_inv_def by blast
  show "0 < sint (ref_count (fd_table D ! i)) \<longleftrightarrow> fd_users D i \<noteq> None" using l e by (auto simp: fd_users_def fd_zero_def split: if_splits)
  show "fd_users D i = None \<Longrightarrow> fd_table D ! i = fd_zero" using l e by (auto simp: fd_users_def split: if_splits)
  show "fd_users D i = Some n \<Longrightarrow> fd_magic (fd_table D ! i) = DFS_FD_MAGIC \<and> sint (ref_count (fd_table D ! i)) = int n \<and> 0 < n"
    using l e by (auto simp: fd_users_def split: if_splits)
qed

lemma fd_inv_put:
  assumes "fd_inv D" "i < DFS_FD_MAX" and "if fd_magic d = DFS_FD_MAGIC then 0 < sint (ref_count d) else d = fd_zero"
  shows "fd_inv (D\<lparr>fd_table := (fd_table D)[i := d]\<rparr>)"
    and "fd_users (D\<lparr>fd_table := (fd_table D)[i := d]\<rparr>)
      = (fd_users D)(i := if fd_magic d = DFS_FD_MAGIC then Some (nat (sint (ref_count d))) else None)"
  using assms set_update_subset_insert [of "fd_table D" i d] by (auto simp: fd_inv_def fd_users_def fun_eq_iff nth_list_update)

lemma first_free_ok:
  "first_free ds k \<le> k + length ds \<and> k \<le> first_free ds k
    \<and> (\<forall>i. k \<le> i \<longrightarrow> i < first_free ds k \<longrightarrow> 0 < sint (ref_count (ds ! (i - k))))
    \<and> (first_free ds k < k + length ds \<longrightarrow> \<not> 0 < sint (ref_count (ds ! (first_free ds k - k))))"
proof (induction ds arbitrary: k)
  case (Cons d ds)
  show ?case
  proof (cases "0 < sint (ref_count d)")
    case True
    have "0 < sint (ref_count ((d # ds) ! (i - k)))" if "k \<le> i" "i < first_free ds (k + 1)" for i
      using Cons [of "k + 1"] True that by (cases "i = k") (auto simp: nth_Cons' Suc_le_eq)
    then show ?thesis using Cons [of "k + 1"] True by (auto simp: nth_Cons')
  qed simp
qed simp

definition fd_new_ok :: "dfs \<Rightarrow> int \<Rightarrow> dfs \<Rightarrow> bool" where
  "fd_new_ok D r D' \<longleftrightarrow> fd_inv D' \<and> (if \<forall>i<DFS_FD_MAX. fd_users D i \<noteq> None then r = - 1 \<and> fd_table D' = fd_table D
       else \<exists>i. r = int i \<and> i < DFS_FD_MAX \<and> fd_users D i = None \<and> (\<forall>j<i. fd_users D j \<noteq> None) \<and> fd_users D' = (fd_users D)(i \<mapsto> 1))"

lemma fd_new_spec:
  assumes inv: "fd_inv D"
  shows "fd_new_ok D (fst (fd_new_body D)) (snd (fd_new_body D))"
proof -
  let ?i = "first_free (fd_table D) 0"
  have l: "length (fd_table D) = DFS_FD_MAX" using inv by (simp add: fd_inv_def)
  have f: "?i \<le> DFS_FD_MAX" "\<And>i. i < ?i \<Longrightarrow> fd_users D i \<noteq> None" "?i < DFS_FD_MAX \<Longrightarrow> fd_users D ?i = None"
    using first_free_ok [of "fd_table D" 0] l fd_inv_entry(1) [OF inv] by auto
  let ?d = "(fd_table D ! ?i)\<lparr>ref_count := 1, fd_magic := DFS_FD_MAGIC\<rparr>"
  have b: "fd_new_body D = (if ?i = DFS_FD_MAX then (- 1, D) else (int ?i, D\<lparr>fd_table := (fd_table D)[?i := ?d]\<rparr>))"
    by (simp add: fd_new_body_def Let_def)
  show ?thesis
  proof (cases "?i = DFS_FD_MAX")
    case True
    then have "\<forall>i<DFS_FD_MAX. fd_users D i \<noteq> None" using f(2) by simp
    then show ?thesis using b True inv by (simp add: fd_new_ok_def)
  next
    case False
    then have i: "?i < DFS_FD_MAX" using f(1) by linarith
    let ?D = "D\<lparr>fd_table := (fd_table D)[?i := ?d]\<rparr>"
    have put: "fd_inv ?D" "fd_users ?D = (fd_users D)(?i \<mapsto> 1)" using fd_inv_put [OF inv i, of ?d] by simp_all
    have "\<not> (\<forall>i<DFS_FD_MAX. fd_users D i \<noteq> None)" using f(3) i by blast
    moreover have "\<exists>j. int ?i = int j \<and> j < DFS_FD_MAX \<and> fd_users D j = None \<and> (\<forall>k<j. fd_users D k \<noteq> None) \<and> fd_users ?D = (fd_users D)(j \<mapsto> 1)"
      using f(2,3) i put(2) by blast
    ultimately have "fd_new_ok D (int ?i) ?D" unfolding fd_new_ok_def using put(1) by argo
    then show ?thesis using b False by simp
  qed
qed

lemma sint_step:
  fixes x :: rt_int32
  shows "sint x < 2 ^ 31 - 1 \<Longrightarrow> sint (x + 1) = sint x + 1" and "- (2 ^ 31) < sint x \<Longrightarrow> sint (x - 1) = sint x - 1"
  using sint_ge [of x] sint_lt [of x] by (simp_all add: sint_word_ariths signed_take_bit_int_eq_self)

lemma fd_get_spec:
  assumes inv: "fd_inv D" and i: "i < DFS_FD_MAX"
  shows "fd_users D i = None \<Longrightarrow> fd_get_body i D = (None, D)"
    and "fd_users D i = Some n \<Longrightarrow> n < 2 ^ 31 - 1 \<Longrightarrow>
      fst (fd_get_body i D) = Some i \<and> fd_inv (snd (fd_get_body i D)) \<and> fd_users (snd (fd_get_body i D)) = (fd_users D)(i \<mapsto> n + 1)"
proof -
  show "fd_users D i = None \<Longrightarrow> fd_get_body i D = (None, D)"
    using fd_inv_entry(2) [OF inv i] by (simp add: fd_get_body_def fd_zero_def)
  assume u: "fd_users D i = Some n" "n < 2 ^ 31 - 1"
  note e = fd_inv_entry(3) [OF inv i u(1)]
  let ?d = "(fd_table D ! i)\<lparr>ref_count := ref_count (fd_table D ! i) + 1\<rparr>"
  have c: "sint (ref_count (fd_table D ! i) + 1) = int n + 1" using sint_step(1) [of "ref_count (fd_table D ! i)"] e u(2) by simp
  then show "fst (fd_get_body i D) = Some i \<and> fd_inv (snd (fd_get_body i D)) \<and> fd_users (snd (fd_get_body i D)) = (fd_users D)(i \<mapsto> n + 1)"
    using fd_inv_put [OF inv i, of ?d] e by (simp add: fd_get_body_def nat_add_distrib)
qed

lemma fd_put_spec:
  assumes inv: "fd_inv D" and i: "i < DFS_FD_MAX" and u: "fd_users D i = Some n"
  shows "fd_inv (snd (fd_put_body i D))"
    and "fd_users (snd (fd_put_body i D)) = (fd_users D)(i := if n = 1 then None else Some (n - 1))"
proof -
  note e = fd_inv_entry(3) [OF inv i u]
  define r where "r = ref_count (fd_table D ! i) - 1"
  have c: "sint r = int n - 1" using sint_step(2) [of "ref_count (fd_table D ! i)"] e by (simp add: r_def)
  then have z: "r = 0 \<longleftrightarrow> n = 1" using signed_eq_0_iff [of r, where ?'a = int] by linarith
  let ?d = "if r = 0 then fd_zero else (fd_table D ! i)\<lparr>ref_count := r\<rparr>"
  have b: "snd (fd_put_body i D) = D\<lparr>fd_table := (fd_table D)[i := ?d]\<rparr>" by (simp add: fd_put_body_def Let_def r_def)
  have d: "if fd_magic ?d = DFS_FD_MAGIC then 0 < sint (ref_count ?d) else ?d = fd_zero"
    using c z e by (auto simp: fd_zero_def)
  show "fd_inv (snd (fd_put_body i D))" unfolding b by (rule fd_inv_put(1) [OF inv i d])
  show "fd_users (snd (fd_put_body i D)) = (fd_users D)(i := if n = 1 then None else Some (n - 1))"
    unfolding b fd_inv_put(2) [OF inv i d] using c z e by (auto simp: fd_zero_def nat_diff_distrib)
qed

text \<open>The calls, by a thread that finds the lock free.\<close>

lemma section_done_tables [simp]:
  "fd_table (section_done t D D') = fd_table D'" "filesystem_table (section_done t D D') = filesystem_table D'"
  "fd_inv (section_done t D D') = fd_inv D'"
  by (simp_all add: section_done_def fd_inv_def)

lemma section_done_users [simp]: "fd_users (section_done t D D') = fd_users D'"
  by (simp add: section_done_def fd_users_def fun_eq_iff)

lemma section_done_new [simp]: "fd_new_ok D0 r (section_done t D D') = fd_new_ok D0 r D'"
  unfolding fd_new_ok_def section_done_tables section_done_users ..

lemma fd_new_call:
  assumes "fs_ready base t D" "fd_inv D"
  shows "\<exists>r D'. fd_new D = Some (Return r, D') \<and> fs_ready base t D' \<and> fd_new_ok D r D'"
  unfolding fd_new_def
  using fd_new_section.section_free [OF assms(1)] fd_new_section.section_ready [OF assms(1)] fd_new_spec [OF assms(2)] by fastforce

lemma fd_get_call:
  assumes ready: "fs_ready base t D" and inv: "fd_inv D" and small: "\<And>n. fd_users D i = Some n \<Longrightarrow> n < 2 ^ 31 - 1"
  shows "\<exists>D'. fd_get (int i) D = Some (Return (if i < DFS_FD_MAX \<and> fd_users D i \<noteq> None then Some i else None), D') \<and> fs_ready base t D' \<and> fd_inv D'
    \<and> fd_users D' = (case fd_users D i of None \<Rightarrow> fd_users D | Some n \<Rightarrow> (fd_users D)(i \<mapsto> n + 1))"
proof (cases "i < DFS_FD_MAX")
  case False
  moreover have "fd_users D i = None" using False inv by (simp add: fd_users_def fd_inv_def)
  ultimately show ?thesis using ready inv by (simp add: fd_get_def)
next
  case i: True
  have c: "fd_get (int i) D = Some (Return (fst (fd_get_body i D)), section_done t D (snd (fd_get_body i D)))"
    using i fd_get_section.section_free [OF ready] by (simp add: fd_get_def)
  note r = fd_get_section.section_ready [OF ready, of i]
  show ?thesis
  proof (cases "fd_users D i")
    case None
    then show ?thesis using c r fd_get_spec(1) [OF inv i None] inv by simp
  next
    case (Some n)
    then show ?thesis using c r fd_get_spec(2) [OF inv i Some small [OF Some]] i by simp
  qed
qed

lemma fd_put_call:
  assumes ready: "fs_ready base t D" and inv: "fd_inv D" and u: "fd_users D i = Some n"
  shows "\<exists>D'. fd_put i D = Some (Return (), D') \<and> fs_ready base t D' \<and> fd_inv D'
    \<and> fd_users D' = (fd_users D)(i := if n = 1 then None else Some (n - 1))"
proof -
  have i: "i < DFS_FD_MAX" using u inv by (simp add: fd_users_def fd_inv_def split: if_splits)
  show ?thesis unfolding fd_put_def
    using fd_put_section.section_free [OF ready, of i] fd_put_section.section_ready [OF ready, of i] fd_put_spec [OF inv i u] by simp
qed

lemma lookup_call:
  assumes ready: "fs_ready base t D" and m: "mounts_ok D" and q: "\<forall>c\<in>set q. is_name c"
  shows "\<exists>r D'. dfs_filesystem_lookup (render q) D = Some (Return r, D') \<and> fs_ready base t D' \<and> filesystem_table D' = filesystem_table D
    \<and> (case r of None \<Rightarrow> \<forall>i st. mounted D i st \<longrightarrow> \<not> prefix st q
       | Some i \<Rightarrow> \<exists>st. mounted D i st \<and> prefix st q \<and> (\<forall>j st'. mounted D j st' \<longrightarrow> prefix st' q \<longrightarrow> prefix st' st))"
  unfolding dfs_filesystem_lookup_def lookup_section.section_free [OF ready]
  using lookup_section.section_ready [OF ready, of "render q"] lookup_deepest [OF m q] by simp

end
