(* ===== verification/Rt_Finsh_Vm.thy ===== *)
theory Rt_Finsh_Vm
  imports Rt_Prelude "HOL-Library.Signed_Division"
begin

text \<open>
  The virtual machine of the finsh shell, \<^verbatim>\<open>components/finsh/finsh_vm.c\<close> and \<^verbatim>\<open>finsh_ops.c\<close>: a stack of 64 cells of four bytes and a
  text of 128 bytes of code. A cell is a union: an operation of one or two bytes changes the low part of a cell only, in the byte order of the machine. Plain \<^verbatim>\<open>char\<close>
  is unsigned, as on Xtensa. What the machine and the application do outside of the shell is the record \<open>platform\<close>: which memory
  accesses are possible, and the functions that are called. \<open>None\<close> is undefined: the stack or the text is left, a forbidden access, a division by zero,
  a shift by a wrong distance, a code that is not in the table. Sums, differences, products and left shifts that leave the range of a signed integer are undefined
  in C as well; here they wrap, as the instructions of the machine do.
\<close>

unbundle bit_operations_syntax

section \<open>Data\<close>

type_synonym memory = "rt_uint32 \<Rightarrow> rt_uint8"

datatype width = Byte | Word | Dword

fun width_bits :: "width \<Rightarrow> nat" where
  "width_bits Byte = 8"
| "width_bits Word = 16"
| "width_bits Dword = 32"

record platform =
  access :: "width \<Rightarrow> rt_uint32 \<Rightarrow> bool"
  call_fn :: "rt_uint32 \<Rightarrow> rt_uint32 list \<Rightarrow> memory \<Rightarrow> (rt_uint32 \<times> memory) option"

record finsh_vm =
  finsh_pc :: nat
  finsh_sp :: nat
  finsh_vm_stack :: "nat \<Rightarrow> rt_uint32"
  vmem :: memory

abbreviation (input) FINSH_STACK_MAX :: nat where "FINSH_STACK_MAX \<equiv> 64"
abbreviation (input) FINSH_TEXT_MAX :: nat where "FINSH_TEXT_MAX \<equiv> 128"

text \<open>The member of a union as a C integer, the assignment to it, and memory of one, two or four bytes.\<close>

fun cell_value :: "width \<Rightarrow> rt_uint32 \<Rightarrow> int" where
  "cell_value Byte c = uint (ucast c :: rt_uint8)"
| "cell_value Word c = sint (ucast c :: rt_uint16)"
| "cell_value Dword c = sint c"

definition set_cell :: "width \<Rightarrow> int \<Rightarrow> rt_uint32 \<Rightarrow> rt_uint32" where
  "set_cell w r c = take_bit (width_bits w) (word_of_int r) OR (c AND NOT (mask (width_bits w)))"

fun mem_get :: "width \<Rightarrow> rt_uint32 \<Rightarrow> memory \<Rightarrow> rt_uint32" where
  "mem_get Byte a m = ucast (m a)"
| "mem_get Word a m = ucast (m a) OR push_bit 8 (ucast (m (a + 1)))"
| "mem_get Dword a m = ucast (m a) OR push_bit 8 (ucast (m (a + 1))) OR push_bit 16 (ucast (m (a + 2))) OR push_bit 24 (ucast (m (a + 3)))"

fun mem_put :: "width \<Rightarrow> rt_uint32 \<Rightarrow> rt_uint32 \<Rightarrow> memory \<Rightarrow> memory" where
  "mem_put Byte a v m = m(a := ucast v)"
| "mem_put Word a v m = m(a := ucast v, a + 1 := ucast (drop_bit 8 v))"
| "mem_put Dword a v m = m(a := ucast v, a + 1 := ucast (drop_bit 8 v), a + 2 := ucast (drop_bit 16 v), a + 3 := ucast (drop_bit 24 v))"

section \<open>Operations\<close>

text \<open>The operators on C integers. A division that overflows and a shift by a distance outside of the width of \<^verbatim>\<open>int\<close> are undefined.\<close>

datatype binop = Add | Sub | Div | Mod | Mul | And | Or | Xor | Shl | Shr

fun c_binop :: "binop \<Rightarrow> int \<Rightarrow> int \<Rightarrow> int option" where
  "c_binop Add x y = Some (x + y)"
| "c_binop Sub x y = Some (x - y)"
| "c_binop Div x y = (if y = 0 \<or> x = - (2 ^ 31) \<and> y = - 1 then None else Some (x sdiv y))"
| "c_binop Mod x y = (if y = 0 \<or> x = - (2 ^ 31) \<and> y = - 1 then None else Some (x smod y))"
| "c_binop Mul x y = Some (x * y)"
| "c_binop And x y = Some (x AND y)"
| "c_binop Or x y = Some (x OR y)"
| "c_binop Xor x y = Some (x XOR y)"
| "c_binop Shl x y = (if y < 0 \<or> 32 \<le> y then None else Some (push_bit (nat y) x))"
| "c_binop Shr x y = (if y < 0 \<or> 32 \<le> y then None else Some (drop_bit (nat y) x))"

type_synonym op_func = "platform \<Rightarrow> rt_uint8 list \<Rightarrow> finsh_vm \<Rightarrow> finsh_vm option"

definition OP_no_op :: op_func where
  "OP_no_op P seg s = Some s"

definition OP_BIN :: "width \<Rightarrow> binop \<Rightarrow> op_func" where
  "OP_BIN w f P seg s =
     (if finsh_sp s < 2 then None
      else
        let i = finsh_sp s - 2; st = finsh_vm_stack s in
        case c_binop f (cell_value w (st i)) (cell_value w (st (i + 1))) of
          None \<Rightarrow> None
        | Some r \<Rightarrow> Some (s\<lparr>finsh_vm_stack := st(i := set_cell w r (st i)), finsh_sp := finsh_sp s - 1\<rparr>))"

definition OP_bw :: "width \<Rightarrow> op_func" where
  "OP_bw w P seg s =
     (if finsh_sp s < 1 then None
      else
        let i = finsh_sp s - 1; st = finsh_vm_stack s in
        Some (s\<lparr>finsh_vm_stack := st(i := set_cell w (NOT (cell_value w (st i))) (st i))\<rparr>))"

text \<open>A value that is put on the stack, and the operand of an instruction.\<close>

definition push :: "width \<Rightarrow> int \<Rightarrow> finsh_vm \<Rightarrow> finsh_vm option" where
  "push w r s =
     (if finsh_sp s < FINSH_STACK_MAX
      then Some (s\<lparr>finsh_vm_stack := (finsh_vm_stack s)(finsh_sp s := set_cell w r (finsh_vm_stack s (finsh_sp s))), finsh_sp := finsh_sp s + 1\<rparr>)
      else None)"

fun FINSH_GET :: "width \<Rightarrow> rt_uint8 list \<Rightarrow> rt_uint32" where
  "FINSH_GET Byte bs = ucast (bs ! 0)"
| "FINSH_GET Word bs = ucast (bs ! 0) OR push_bit 8 (ucast (bs ! 1))"
| "FINSH_GET Dword bs = ucast (bs ! 0) OR push_bit 8 (ucast (bs ! 1)) OR push_bit 16 (ucast (bs ! 2)) OR push_bit 24 (ucast (bs ! 3))"

fun width_bytes :: "width \<Rightarrow> nat" where
  "width_bytes Byte = 1"
| "width_bytes Word = 2"
| "width_bytes Dword = 4"

definition operand :: "width \<Rightarrow> rt_uint8 list \<Rightarrow> finsh_vm \<Rightarrow> (rt_uint32 \<times> finsh_vm) option" where
  "operand w seg s =
     (if finsh_pc s + width_bytes w \<le> length seg
      then Some (FINSH_GET w (drop (finsh_pc s) seg), s\<lparr>finsh_pc := finsh_pc s + width_bytes w\<rparr>) else None)"

definition OP_ld :: "width \<Rightarrow> op_func" where
  "OP_ld w P seg s = do { (v, s1) \<leftarrow> operand w seg s; push w (uint v) s1 }"

definition OP_ld_value :: "width \<Rightarrow> op_func" where
  "OP_ld_value w P seg s =
     do {
       (a, s1) \<leftarrow> operand Dword seg s;
       if access P w a then push w (uint (mem_get w a (vmem s1))) s1 else None
     }"

definition OP_ld_value_stack :: "width \<Rightarrow> op_func" where
  "OP_ld_value_stack w P seg s =
     (if finsh_sp s < 1 then None
      else
        let i = finsh_sp s - 1; c = finsh_vm_stack s i in
        if access P w c then Some (s\<lparr>finsh_vm_stack := (finsh_vm_stack s)(i := set_cell w (uint (mem_get w c (vmem s))) c)\<rparr>) else None)"

definition OP_st :: "width \<Rightarrow> op_func" where
  "OP_st w P seg s =
     (if finsh_sp s < 2 then None
      else
        let a = finsh_vm_stack s (finsh_sp s - 2) in
        if access P w a
        then Some (s\<lparr>vmem := mem_put w a (finsh_vm_stack s (finsh_sp s - 1)) (vmem s), finsh_sp := finsh_sp s - 1\<rparr>)
        else None)"

definition OP_pop :: op_func where
  "OP_pop P seg s = (if finsh_sp s < 1 then None else Some (s\<lparr>finsh_sp := finsh_sp s - 1\<rparr>))"

text \<open>
  The arguments of a call are the cells on top of the stack, as four byte values, and the address of the function is below them. The array for the arguments has 16 places. A
  function without arguments is passed a 0.
\<close>

definition OP_call :: op_func where
  "OP_call P seg s =
     do {
       (n, s1) \<leftarrow> operand Byte seg s;
       let k = unat n;
       if finsh_sp s1 < k + 1 \<or> 16 < k then None
       else
         let i = finsh_sp s1 - 1 - k; st = finsh_vm_stack s1; parameterv = map st [i + 1..<i + 1 + k] in
         do {
           (r, m) \<leftarrow> call_fn P (st i) (if k = 0 then [0] else parameterv) (vmem s1);
           Some (s1\<lparr>vmem := m, finsh_vm_stack := st(i := r), finsh_sp := i + 1\<rparr>)
         }
     }"

definition op_table :: "op_func list" where
  "op_table =
     [OP_no_op,
      OP_BIN Byte Add, OP_BIN Word Add, OP_BIN Dword Add,
      OP_BIN Byte Sub, OP_BIN Word Sub, OP_BIN Dword Sub,
      OP_BIN Byte Div, OP_BIN Word Div, OP_BIN Dword Div,
      OP_BIN Byte Mod, OP_BIN Word Mod, OP_BIN Dword Mod,
      OP_BIN Byte Mul, OP_BIN Word Mul, OP_BIN Dword Mul,
      OP_BIN Byte And, OP_BIN Word And, OP_BIN Dword And,
      OP_BIN Byte Or, OP_BIN Word Or, OP_BIN Dword Or,
      OP_BIN Byte Xor, OP_BIN Word Xor, OP_BIN Dword Xor,
      OP_bw Byte, OP_bw Word, OP_bw Dword,
      OP_BIN Byte Shl, OP_BIN Word Shl, OP_BIN Dword Shl,
      OP_BIN Byte Shr, OP_BIN Word Shr, OP_BIN Dword Shr,
      OP_ld Byte, OP_ld Word, OP_ld Dword,
      OP_ld_value Byte, OP_ld_value Word, OP_ld_value Dword,
      OP_st Byte, OP_st Word, OP_st Dword,
      OP_pop, OP_call,
      OP_ld_value_stack Byte, OP_ld_value_stack Word, OP_ld_value_stack Dword]"

section \<open>The loop\<close>

definition vm_step :: op_func where
  "vm_step P seg s =
     (let op = unat (seg ! finsh_pc s); s1 = s\<lparr>finsh_pc := finsh_pc s + 1\<rparr>
      in if op < length op_table then (op_table ! op) P seg s1 else None)"

text \<open>No operation goes back, so the loop ends.\<close>

lemma operand_pc: "operand w seg s = Some (v, s') \<Longrightarrow> finsh_pc s \<le> finsh_pc s'"
  by (auto simp: operand_def split: if_splits)

lemma push_pc: "push w r s = Some s' \<Longrightarrow> finsh_pc s' = finsh_pc s"
  by (auto simp: push_def split: if_splits)

lemma op_pc:
  assumes "f \<in> set op_table" "f P seg s = Some s'"
  shows "finsh_pc s \<le> finsh_pc s'"
proof -
  have "OP_BIN w b P seg s = Some s' \<Longrightarrow> finsh_pc s \<le> finsh_pc s'" "OP_bw w P seg s = Some s' \<Longrightarrow> finsh_pc s \<le> finsh_pc s'"
    "OP_ld_value_stack w P seg s = Some s' \<Longrightarrow> finsh_pc s \<le> finsh_pc s'" "OP_st w P seg s = Some s' \<Longrightarrow> finsh_pc s \<le> finsh_pc s'"
    "OP_no_op P seg s = Some s' \<Longrightarrow> finsh_pc s \<le> finsh_pc s'" "OP_pop P seg s = Some s' \<Longrightarrow> finsh_pc s \<le> finsh_pc s'" for w b
    by (auto simp: OP_BIN_def OP_bw_def OP_ld_value_stack_def OP_st_def OP_no_op_def OP_pop_def Let_def split: if_splits option.splits)
  moreover have "OP_ld w P seg s = Some s' \<Longrightarrow> finsh_pc s \<le> finsh_pc s'" "OP_ld_value w P seg s = Some s' \<Longrightarrow> finsh_pc s \<le> finsh_pc s'"
    "OP_call P seg s = Some s' \<Longrightarrow> finsh_pc s \<le> finsh_pc s'" for w
    by (auto simp: OP_ld_def OP_ld_value_def OP_call_def Let_def dest!: operand_pc push_pc split: if_splits bind_splits)
  ultimately show ?thesis using assms unfolding op_table_def by auto
qed

lemma vm_step_pc: "vm_step P seg s = Some s' \<Longrightarrow> finsh_pc s < finsh_pc s'"
  using op_pc [of "op_table ! unat (seg ! finsh_pc s)" P seg "s\<lparr>finsh_pc := finsh_pc s + 1\<rparr>" s']
  by (auto simp: vm_step_def Let_def split: if_splits)

function vm_loop :: op_func where
  "vm_loop P seg s =
     (if finsh_pc s < length seg
      then case vm_step P seg s of None \<Rightarrow> None | Some s1 \<Rightarrow> vm_loop P seg s1 else Some s)"
  by auto
termination
  by (relation "measure (\<lambda>(P, seg, s). length seg - finsh_pc s)") (auto dest: vm_step_pc)

declare vm_loop.simps [simp del]

definition finsh_vm_run :: op_func where
  "finsh_vm_run P seg s = (if length seg = FINSH_TEXT_MAX then vm_loop P seg (s\<lparr>finsh_sp := 0, finsh_pc := 0\<rparr>) else None)"

definition finsh_stack_bottom :: "finsh_vm \<Rightarrow> rt_uint32" where
  "finsh_stack_bottom s = finsh_vm_stack s 0"

end
