(* ===== verification/Rt_Finsh_Compiler.thy ===== *)
theory Rt_Finsh_Compiler
  imports Rt_Finsh_Vm
begin

text \<open>
  The compiler of the finsh shell, \<^verbatim>\<open>components/finsh/finsh_compiler.c\<close>, with the nodes it works on (\<^verbatim>\<open>finsh.h\<close>, \<^verbatim>\<open>finsh_node.h\<close>) and the tables of
  variables and functions (\<^verbatim>\<open>finsh_var.c\<close>, \<^verbatim>\<open>finsh_vm.c\<close>). A node is the root of a tree of children and siblings. Names are C strings without the null character. The value of
  a variable is in memory, at the address that \<open>var_value\<close> gives; it is a union, so its members have one address. Errors that are set are collected in order, the last one counts.
\<close>

section \<open>Data\<close>

datatype finsh_type = finsh_type_unknown | finsh_type_void | finsh_type_voidp | finsh_type_char | finsh_type_uchar | finsh_type_charp
  | finsh_type_short | finsh_type_ushort | finsh_type_shortp | finsh_type_int | finsh_type_uint | finsh_type_intp
  | finsh_type_long | finsh_type_ulong | finsh_type_longp

datatype node_type = FINSH_NODE_UNKNOWN | FINSH_NODE_ID | FINSH_NODE_VALUE_CHAR | FINSH_NODE_VALUE_INT | FINSH_NODE_VALUE_LONG | FINSH_NODE_VALUE_STRING
  | FINSH_NODE_VALUE_NULL | FINSH_NODE_SYS_ADD | FINSH_NODE_SYS_SUB | FINSH_NODE_SYS_MUL | FINSH_NODE_SYS_DIV | FINSH_NODE_SYS_MOD
  | FINSH_NODE_SYS_AND | FINSH_NODE_SYS_OR | FINSH_NODE_SYS_XOR | FINSH_NODE_SYS_BITWISE | FINSH_NODE_SYS_SHL | FINSH_NODE_SYS_SHR
  | FINSH_NODE_SYS_FUNC | FINSH_NODE_SYS_ASSIGN | FINSH_NODE_SYS_CAST | FINSH_NODE_SYS_PREINC | FINSH_NODE_SYS_PREDEC
  | FINSH_NODE_SYS_INC | FINSH_NODE_SYS_DEC | FINSH_NODE_SYS_GETVALUE | FINSH_NODE_SYS_GETADDR | FINSH_NODE_SYS_NULL

abbreviation (input) FINSH_DATA_TYPE_VOID :: rt_uint8 where "FINSH_DATA_TYPE_VOID \<equiv> 0"
abbreviation (input) FINSH_DATA_TYPE_BYTE :: rt_uint8 where "FINSH_DATA_TYPE_BYTE \<equiv> 1"
abbreviation (input) FINSH_DATA_TYPE_WORD :: rt_uint8 where "FINSH_DATA_TYPE_WORD \<equiv> 2"
abbreviation (input) FINSH_DATA_TYPE_DWORD :: rt_uint8 where "FINSH_DATA_TYPE_DWORD \<equiv> 3"
abbreviation (input) FINSH_IDTYPE_VAR :: rt_uint8 where "FINSH_IDTYPE_VAR \<equiv> 1"
abbreviation (input) FINSH_IDTYPE_SYSVAR :: rt_uint8 where "FINSH_IDTYPE_SYSVAR \<equiv> 2"
abbreviation (input) FINSH_IDTYPE_SYSCALL :: rt_uint8 where "FINSH_IDTYPE_SYSCALL \<equiv> 4"
abbreviation (input) FINSH_IDTYPE_ADDRESS :: rt_uint8 where "FINSH_IDTYPE_ADDRESS \<equiv> 8"
abbreviation (input) FINSH_ERROR_UNKNOWN_TYPE :: rt_uint8 where "FINSH_ERROR_UNKNOWN_TYPE \<equiv> 3"
abbreviation (input) FINSH_ERROR_UNKNOWN_NODE :: rt_uint8 where "FINSH_ERROR_UNKNOWN_NODE \<equiv> 8"
abbreviation (input) FINSH_NAME_MAX :: nat where "FINSH_NAME_MAX \<equiv> 16"
abbreviation (input) FINSH_VARIABLE_MAX :: nat where "FINSH_VARIABLE_MAX \<equiv> 8"

record finsh_var =
  var_name :: string
  var_type :: finsh_type

record finsh_sysvar =
  sv_name :: string
  sv_type :: finsh_type
  sv_var :: rt_uint32

record finsh_syscall =
  sc_name :: string
  sc_func :: rt_uint32

text \<open>The pointer of an identifier node, a node, and a tree.\<close>

datatype ident = IdNull | IdVar nat | IdSysvar finsh_sysvar | IdSyscall finsh_syscall

record node_info =
  node_type :: node_type
  data_type :: rt_uint8
  idtype :: rt_uint8
  node_value :: rt_uint32
  node_id :: ident

datatype finsh_node = NullNode | FNode node_info finsh_node finsh_node

definition new_node :: "node_type \<Rightarrow> node_info" where
  "new_node ty = \<lparr>node_type = ty, data_type = 0, idtype = 0, node_value = 0, node_id = IdNull\<rparr>"

record finsh =
  global_variable :: "finsh_var list"
  var_value :: "nat \<Rightarrow> rt_uint32"
  sysvar_table :: "finsh_sysvar list"
  global_sysvar_list :: "finsh_sysvar list"
  syscall_table :: "finsh_syscall list"
  global_syscall_list :: "finsh_syscall list"

section \<open>Variables and functions\<close>

text \<open>Comparison of names up to the maximal length, and of the names in the lists, which compares the given name only.\<close>

definition same_name :: "string \<Rightarrow> string \<Rightarrow> bool" where
  "same_name a b \<longleftrightarrow> take FINSH_NAME_MAX a = take FINSH_NAME_MAX b"

definition var_zero :: finsh_var where
  "var_zero = \<lparr>var_name = [], var_type = finsh_type_unknown\<rparr>"

definition finsh_var_init :: "finsh \<Rightarrow> memory \<Rightarrow> finsh \<times> memory" where
  "finsh_var_init F m =
     (F\<lparr>global_variable := replicate FINSH_VARIABLE_MAX var_zero\<rparr>, fold (\<lambda>i. mem_put Dword (var_value F i) 0) [0..<FINSH_VARIABLE_MAX] m)"

fun var_scan :: "string \<Rightarrow> finsh_var list \<Rightarrow> nat \<Rightarrow> nat option \<Rightarrow> (nat option) option" where
  "var_scan nm [] i slot = Some slot"
| "var_scan nm (x # xs) i slot =
     (if same_name (var_name x) nm then None
      else var_scan nm xs (i + 1) (if var_type x = finsh_type_unknown \<and> slot = None then Some i else slot))"

definition finsh_var_insert :: "string \<Rightarrow> finsh_type \<Rightarrow> finsh \<Rightarrow> int \<times> finsh" where
  "finsh_var_insert nm ty F =
     (case var_scan nm (global_variable F) 0 None of
        None \<Rightarrow> (- 1, F)
      | Some None \<Rightarrow> (- 1, F)
      | Some (Some i) \<Rightarrow> (int i, F\<lparr>global_variable := (global_variable F)[i := \<lparr>var_name = take FINSH_NAME_MAX nm, var_type = ty\<rparr>]\<rparr>))"

fun var_find :: "string \<Rightarrow> finsh_var list \<Rightarrow> nat \<Rightarrow> nat option" where
  "var_find nm [] i = None"
| "var_find nm (x # xs) i = (if same_name (var_name x) nm then Some i else var_find nm xs (i + 1))"

definition finsh_var_delete :: "string \<Rightarrow> finsh \<Rightarrow> memory \<Rightarrow> int \<times> finsh \<times> memory" where
  "finsh_var_delete nm F m =
     (case var_find nm (global_variable F) 0 of
        None \<Rightarrow> (- 1, F, m)
      | Some i \<Rightarrow> (0, F\<lparr>global_variable := (global_variable F)[i := var_zero]\<rparr>, mem_put Dword (var_value F i) 0 m))"

definition finsh_var_lookup :: "string \<Rightarrow> finsh \<Rightarrow> nat option" where
  "finsh_var_lookup nm F = var_find nm (global_variable F) 0"

definition finsh_sysvar_append :: "string \<Rightarrow> finsh_type \<Rightarrow> rt_uint32 \<Rightarrow> bool \<Rightarrow> finsh \<Rightarrow> finsh" where
  "finsh_sysvar_append nm ty a mem F =
     (if mem then F\<lparr>global_sysvar_list := \<lparr>sv_name = nm, sv_type = ty, sv_var = a\<rparr> # global_sysvar_list F\<rparr> else F)"

definition finsh_sysvar_lookup :: "string \<Rightarrow> finsh \<Rightarrow> finsh_sysvar option" where
  "finsh_sysvar_lookup nm F =
     (case find (\<lambda>x. sv_name x = nm) (sysvar_table F) of
        Some x \<Rightarrow> Some x
      | None \<Rightarrow> find (\<lambda>x. take (length nm) (sv_name x) = nm) (global_sysvar_list F))"

definition finsh_syscall_append :: "string \<Rightarrow> rt_uint32 \<Rightarrow> bool \<Rightarrow> finsh \<Rightarrow> finsh" where
  "finsh_syscall_append nm f mem F =
     (if mem then F\<lparr>global_syscall_list := \<lparr>sc_name = nm, sc_func = f\<rparr> # global_syscall_list F\<rparr> else F)"

definition finsh_syscall_lookup :: "string \<Rightarrow> finsh \<Rightarrow> finsh_syscall option" where
  "finsh_syscall_lookup nm F =
     (case find (\<lambda>x. sc_name x = nm) (syscall_table F) of
        Some x \<Rightarrow> Some x
      | None \<Rightarrow> find (\<lambda>x. take (length nm) (sc_name x) = nm) (global_syscall_list F))"

section \<open>Code\<close>

fun width_nr :: "width \<Rightarrow> nat" where
  "width_nr Byte = 0"
| "width_nr Word = 1"
| "width_nr Dword = 2"

fun binop_code :: "binop \<Rightarrow> nat" where
  "binop_code Add = 1"
| "binop_code Sub = 4"
| "binop_code Div = 7"
| "binop_code Mod = 10"
| "binop_code Mul = 13"
| "binop_code And = 16"
| "binop_code Or = 19"
| "binop_code Xor = 22"
| "binop_code Shl = 28"
| "binop_code Shr = 31"

definition FINSH_OP_BIN :: "binop \<Rightarrow> width \<Rightarrow> rt_uint8" where
  "FINSH_OP_BIN f w = of_nat (binop_code f + width_nr w)"

definition FINSH_OP_BITWISE :: "width \<Rightarrow> rt_uint8" where
  "FINSH_OP_BITWISE w = of_nat (25 + width_nr w)"

definition FINSH_OP_LD :: "width \<Rightarrow> rt_uint8" where
  "FINSH_OP_LD w = of_nat (34 + width_nr w)"

definition FINSH_OP_LD_VALUE :: "width \<Rightarrow> rt_uint8" where
  "FINSH_OP_LD_VALUE w = of_nat (37 + width_nr w)"

definition FINSH_OP_ST :: "width \<Rightarrow> rt_uint8" where
  "FINSH_OP_ST w = of_nat (40 + width_nr w)"

definition FINSH_OP_LD_VALUE_STACK :: "width \<Rightarrow> rt_uint8" where
  "FINSH_OP_LD_VALUE_STACK w = of_nat (45 + width_nr w)"

abbreviation (input) FINSH_OP_POP :: rt_uint8 where "FINSH_OP_POP \<equiv> 0x2B"
abbreviation (input) FINSH_OP_SYSCALL :: rt_uint8 where "FINSH_OP_SYSCALL \<equiv> 0x2C"

text \<open>A constant in the text, with the low byte first.\<close>

fun FINSH_SET :: "width \<Rightarrow> rt_uint32 \<Rightarrow> rt_uint8 list" where
  "FINSH_SET Byte v = [ucast v]"
| "FINSH_SET Word v = [ucast v, ucast (drop_bit 8 v)]"
| "FINSH_SET Dword v = [ucast v, ucast (drop_bit 8 v), ucast (drop_bit 16 v), ucast (drop_bit 24 v)]"

text \<open>The width in which an identifier of a type is loaded. There is none for \<^verbatim>\<open>void\<close> and the pointer to it.\<close>

fun load_width :: "finsh_type \<Rightarrow> width option" where
  "load_width finsh_type_char = Some Byte"
| "load_width finsh_type_uchar = Some Byte"
| "load_width finsh_type_short = Some Word"
| "load_width finsh_type_ushort = Some Word"
| "load_width finsh_type_int = Some Dword"
| "load_width finsh_type_uint = Some Dword"
| "load_width finsh_type_long = Some Dword"
| "load_width finsh_type_ulong = Some Dword"
| "load_width finsh_type_charp = Some Dword"
| "load_width finsh_type_shortp = Some Dword"
| "load_width finsh_type_intp = Some Dword"
| "load_width finsh_type_longp = Some Dword"
| "load_width _ = None"

definition load_id :: "finsh_type \<Rightarrow> bool \<Rightarrow> rt_uint32 \<Rightarrow> rt_uint8 list" where
  "load_id ty is_addr a =
     (case load_width ty of
        None \<Rightarrow> []
      | Some w \<Rightarrow> (if is_addr then FINSH_OP_LD Dword else FINSH_OP_LD_VALUE w) # FINSH_SET Dword a)"

definition data_width :: "rt_uint8 \<Rightarrow> width option" where
  "data_width d =
     (if d = FINSH_DATA_TYPE_BYTE then Some Byte else if d = FINSH_DATA_TYPE_WORD then Some Word
      else if d = FINSH_DATA_TYPE_DWORD then Some Dword else None)"

fun node_binop :: "node_type \<Rightarrow> binop option" where
  "node_binop FINSH_NODE_SYS_ADD = Some Add"
| "node_binop FINSH_NODE_SYS_SUB = Some Sub"
| "node_binop FINSH_NODE_SYS_MUL = Some Mul"
| "node_binop FINSH_NODE_SYS_DIV = Some Div"
| "node_binop FINSH_NODE_SYS_MOD = Some Mod"
| "node_binop FINSH_NODE_SYS_AND = Some And"
| "node_binop FINSH_NODE_SYS_OR = Some Or"
| "node_binop FINSH_NODE_SYS_XOR = Some Xor"
| "node_binop FINSH_NODE_SYS_SHL = Some Shl"
| "node_binop FINSH_NODE_SYS_SHR = Some Shr"
| "node_binop _ = None"

text \<open>The parts of the switch that are more than one instruction: identifiers, assignments, and the four ways to count a variable up and down.\<close>

definition id_code :: "finsh \<Rightarrow> node_info \<Rightarrow> rt_uint8 list option" where
  "id_code F x =
     (let is_addr = (idtype x AND FINSH_IDTYPE_ADDRESS \<noteq> 0) in
      if idtype x AND FINSH_IDTYPE_SYSCALL \<noteq> 0 then
        (case node_id x of IdSyscall f \<Rightarrow> Some (FINSH_OP_LD Dword # FINSH_SET Dword (sc_func f)) | _ \<Rightarrow> None)
      else if idtype x AND FINSH_IDTYPE_SYSVAR \<noteq> 0 then
        (case node_id x of IdSysvar v \<Rightarrow> Some (load_id (sv_type v) is_addr (sv_var v)) | IdNull \<Rightarrow> Some [] | _ \<Rightarrow> None)
      else
        (case node_id x of
           IdVar i \<Rightarrow> (if i < length (global_variable F) then Some (load_id (var_type (global_variable F ! i)) is_addr (var_value F i)) else None)
         | IdNull \<Rightarrow> Some [] | _ \<Rightarrow> None))"

definition store_code :: "rt_uint8 \<Rightarrow> rt_uint8 list \<times> rt_uint8 list" where
  "store_code d =
     (case data_width d of
        Some w \<Rightarrow> ([FINSH_OP_ST w, FINSH_OP_LD_VALUE_STACK w], [])
      | None \<Rightarrow> ([], [FINSH_ERROR_UNKNOWN_TYPE]))"

definition assign_code :: "finsh_node \<Rightarrow> (rt_uint8 list \<times> rt_uint8 list) option" where
  "assign_code ch =
     (case ch of
        NullNode \<Rightarrow> None
      | FNode y _ _ \<Rightarrow>
          if node_type y = FINSH_NODE_ID then Some (store_code (data_type y))
          else if node_type y = FINSH_NODE_SYS_GETVALUE then Some (store_code (data_type y AND 0x0F))
          else Some ([], []))"

definition step_code :: "binop \<Rightarrow> width \<Rightarrow> rt_uint32 \<Rightarrow> rt_uint8 list" where
  "step_code f w a = FINSH_OP_LD_VALUE w # FINSH_SET Dword a @ FINSH_OP_LD w # FINSH_SET w 1 @ [FINSH_OP_BIN f w, FINSH_OP_ST w]"

definition count_code :: "finsh \<Rightarrow> binop \<Rightarrow> bool \<Rightarrow> rt_uint8 \<Rightarrow> finsh_node \<Rightarrow> rt_uint8 list option" where
  "count_code F f pre d ch =
     (case ch of
        NullNode \<Rightarrow> Some []
      | FNode y _ _ \<Rightarrow>
          if node_type y \<noteq> FINSH_NODE_ID then Some []
          else
            (case data_width d of
               None \<Rightarrow> Some []
             | Some w \<Rightarrow>
                 (case node_id y of
                    IdVar i \<Rightarrow>
                      Some (if pre then step_code f w (var_value F i) @ [FINSH_OP_LD_VALUE_STACK Dword]
                            else FINSH_OP_LD Dword # FINSH_SET Dword (var_value F i) @ step_code f w (var_value F i) @ [FINSH_OP_POP])
                  | _ \<Rightarrow> None)))"

fun siblings :: "finsh_node \<Rightarrow> nat" where
  "siblings NullNode = 0"
| "siblings (FNode _ _ sb) = 1 + siblings sb"

text \<open>The switch. The number of parameters of a call is written as one byte.\<close>

definition node_code :: "finsh \<Rightarrow> node_info \<Rightarrow> finsh_node \<Rightarrow> (rt_uint8 list \<times> rt_uint8 list) option" where
  "node_code F x ch =
     (let plain = map_option (\<lambda>c. (c, []));
          by_type = (\<lambda>f. Some (case data_width (data_type x) of Some w \<Rightarrow> ([f w], []) | None \<Rightarrow> ([], [])))
      in case node_type x of
           FINSH_NODE_ID \<Rightarrow> plain (id_code F x)
         | FINSH_NODE_VALUE_CHAR \<Rightarrow> Some (FINSH_OP_LD Byte # FINSH_SET Byte (node_value x), [])
         | FINSH_NODE_VALUE_INT \<Rightarrow> Some (FINSH_OP_LD Dword # FINSH_SET Dword (node_value x), [])
         | FINSH_NODE_VALUE_LONG \<Rightarrow> Some (FINSH_OP_LD Dword # FINSH_SET Dword (node_value x), [])
         | FINSH_NODE_VALUE_NULL \<Rightarrow> Some (FINSH_OP_LD Dword # FINSH_SET Dword (node_value x), [])
         | FINSH_NODE_VALUE_STRING \<Rightarrow> Some (FINSH_OP_LD Dword # FINSH_SET Dword (node_value x), [])
         | FINSH_NODE_SYS_BITWISE \<Rightarrow> by_type FINSH_OP_BITWISE
         | FINSH_NODE_SYS_FUNC \<Rightarrow> Some (if ch = NullNode then [] else [FINSH_OP_SYSCALL, of_nat (siblings ch - 1)], [])
         | FINSH_NODE_SYS_ASSIGN \<Rightarrow> assign_code ch
         | FINSH_NODE_SYS_PREINC \<Rightarrow> plain (count_code F Add True (data_type x) ch)
         | FINSH_NODE_SYS_PREDEC \<Rightarrow> plain (count_code F Sub True (data_type x) ch)
         | FINSH_NODE_SYS_INC \<Rightarrow> plain (count_code F Add False (data_type x) ch)
         | FINSH_NODE_SYS_DEC \<Rightarrow> plain (count_code F Sub False (data_type x) ch)
         | FINSH_NODE_SYS_NULL \<Rightarrow> Some (FINSH_SET Dword 0, [])
         | FINSH_NODE_SYS_GETVALUE \<Rightarrow> (if idtype x AND FINSH_IDTYPE_ADDRESS \<noteq> 0 then Some ([], []) else by_type FINSH_OP_LD_VALUE_STACK)
         | FINSH_NODE_SYS_GETADDR \<Rightarrow> Some ([], [])
         | ty \<Rightarrow> (case node_binop ty of Some f \<Rightarrow> by_type (FINSH_OP_BIN f) | None \<Rightarrow> Some ([], [FINSH_ERROR_UNKNOWN_NODE])))"

fun finsh_compile :: "finsh \<Rightarrow> finsh_node \<Rightarrow> (rt_uint8 list \<times> rt_uint8 list) option" where
  "finsh_compile F NullNode = Some ([], [])"
| "finsh_compile F (FNode x ch sb) =
     do {
       (c1, e1) \<leftarrow> finsh_compile F ch;
       (c2, e2) \<leftarrow> node_code F x ch;
       (c3, e3) \<leftarrow> finsh_compile F sb;
       Some (c1 @ c2 @ c3, e1 @ e2 @ e3)
     }"

section \<open>Types\<close>

fun var_data_type :: "finsh_type \<Rightarrow> rt_uint8 option" where
  "var_data_type finsh_type_void = Some FINSH_DATA_TYPE_VOID"
| "var_data_type finsh_type_char = Some FINSH_DATA_TYPE_BYTE"
| "var_data_type finsh_type_uchar = Some FINSH_DATA_TYPE_BYTE"
| "var_data_type finsh_type_short = Some FINSH_DATA_TYPE_WORD"
| "var_data_type finsh_type_ushort = Some FINSH_DATA_TYPE_WORD"
| "var_data_type finsh_type_unknown = None"
| "var_data_type _ = Some FINSH_DATA_TYPE_DWORD"

definition set_type :: "finsh_type \<Rightarrow> node_info \<Rightarrow> node_info \<times> rt_uint8 list" where
  "set_type ty x = (case var_data_type ty of Some d \<Rightarrow> (x\<lparr>data_type := d\<rparr>, []) | None \<Rightarrow> (x, [FINSH_ERROR_UNKNOWN_TYPE]))"

definition leaf_type :: "finsh \<Rightarrow> node_info \<Rightarrow> node_info \<times> rt_uint8 list" where
  "leaf_type F x =
     (if node_type x = FINSH_NODE_ID then
        (if idtype x AND FINSH_IDTYPE_VAR \<noteq> 0 then (case node_id x of IdVar i \<Rightarrow> set_type (var_type (global_variable F ! i)) x | _ \<Rightarrow> (x, []))
         else if idtype x AND FINSH_IDTYPE_SYSVAR \<noteq> 0 then (case node_id x of IdSysvar v \<Rightarrow> set_type (sv_type v) x | _ \<Rightarrow> (x, []))
         else (x, []))
      else if node_type x = FINSH_NODE_VALUE_CHAR then (x\<lparr>data_type := FINSH_DATA_TYPE_BYTE\<rparr>, [])
      else if node_type x \<in> {FINSH_NODE_VALUE_INT, FINSH_NODE_VALUE_LONG, FINSH_NODE_VALUE_STRING, FINSH_NODE_VALUE_NULL}
           then (x\<lparr>data_type := FINSH_DATA_TYPE_DWORD\<rparr>, [])
      else (x, []))"

definition child_addr :: "node_type \<Rightarrow> rt_uint8 \<Rightarrow> rt_uint8" where
  "child_addr ty is_addr =
     (if ty \<in> {FINSH_NODE_SYS_ASSIGN, FINSH_NODE_SYS_PREINC, FINSH_NODE_SYS_PREDEC, FINSH_NODE_SYS_GETADDR} then FINSH_IDTYPE_ADDRESS
      else if ty = FINSH_NODE_SYS_GETVALUE \<and> is_addr \<noteq> 0 then 0 else is_addr)"

fun finsh_type_check :: "finsh \<Rightarrow> finsh_node \<Rightarrow> rt_uint8 \<Rightarrow> finsh_node \<times> rt_uint8 list" where
  "finsh_type_check F NullNode is_addr = (NullNode, [])"
| "finsh_type_check F (FNode x ch sb) is_addr =
     (let (ch1, e1) = finsh_type_check F ch (child_addr (node_type x) is_addr);
          (sb1, e2) = finsh_type_check F sb 0;
          x1 = (if idtype x \<noteq> FINSH_IDTYPE_SYSCALL then x\<lparr>idtype := idtype x OR is_addr\<rparr> else x)
      in case ch1 of
           FNode y _ _ \<Rightarrow> (FNode (x1\<lparr>data_type := data_type y\<rparr>) ch1 sb1, e1 @ e2)
         | NullNode \<Rightarrow> (let (x2, e3) = leaf_type F x1 in (FNode x2 ch1 sb1, e1 @ e2 @ e3)))"

section \<open>The whole line\<close>

text \<open>The statements of a line are siblings; each is compiled without the rest, and its value is taken from the stack before the next one.\<close>

fun compile_statements :: "finsh \<Rightarrow> finsh_node \<Rightarrow> (rt_uint8 list \<times> rt_uint8 list) option" where
  "compile_statements F NullNode = Some ([], [])"
| "compile_statements F (FNode x ch sb) =
     do {
       (c1, e1) \<leftarrow> finsh_compile F (FNode x ch NullNode);
       (c2, e2) \<leftarrow> compile_statements F sb;
       Some (c1 @ (if sb = NullNode then [] else [FINSH_OP_POP]) @ c2, e1 @ e2)
     }"

definition finsh_compiler_run :: "finsh \<Rightarrow> finsh_node \<Rightarrow> finsh_vm \<Rightarrow> (rt_uint8 list \<times> rt_uint8 list \<times> finsh_vm) option" where
  "finsh_compiler_run F node s =
     do {
       let (node1, e1) = finsh_type_check F node 0;
       (c, e2) \<leftarrow> compile_statements F node1;
       if FINSH_TEXT_MAX < length c then None
       else Some (c @ replicate (FINSH_TEXT_MAX - length c) 0, e1 @ e2, s\<lparr>finsh_vm_stack := (finsh_vm_stack s)(0 := 0)\<rparr>)
     }"

end
