(* ===== verification/Rt_Finsh_Exec.thy ===== *)
theory Rt_Finsh_Exec
  imports Rt_Finsh_Compiler
begin

text \<open>
  Execution of code that stands anywhere in the text: \<open>runs\<close> relates the states before and after a piece of code, without the program counter. One lemma per instruction of the
  compiler, and the laws of cells and memory they need.
\<close>

section \<open>Cells and memory\<close>

lemma bits_le [simp]: "width_bits w \<le> 32" "width_bits w \<noteq> 0" "0 < width_bits w"
  by (cases w; simp)+

lemma low_Dword [simp]: "take_bit 32 (c :: rt_uint32) = c"
  by (rule bit_word_eqI) (simp add: bit_simps)

lemma byte_bit: "\<not> n < 8 \<Longrightarrow> \<not> bit (b :: rt_uint8) n"
  using bit_imp_le_length [of b n] by auto

lemma bit_range:
  assumes "(n :: nat) < 32"
  obtains "n < 8" | "8 \<le> n" "n < 16" | "16 \<le> n" "n < 24" | "24 \<le> n" "n < 32"
  using assms by linarith

lemma low_set_cell: "j \<le> width_bits w \<Longrightarrow> take_bit j (set_cell w r c) = take_bit j (word_of_int r)"
  by (rule bit_word_eqI) (auto simp: set_cell_def bit_simps)

lemma set_cell_Dword [simp]: "set_cell Dword r c = word_of_int r"
  by (rule bit_word_eqI) (auto simp: set_cell_def bit_simps)

lemma cell_value_low: "cell_value w (take_bit (width_bits w) c) = cell_value w c"
proof (cases w)
  case Byte
  have "(ucast (take_bit 8 c) :: rt_uint8) = ucast c" by (rule bit_word_eqI) (auto simp: bit_simps)
  then show ?thesis using Byte by simp
next
  case Word
  have "(ucast (take_bit 16 c) :: rt_uint16) = ucast c" by (rule bit_word_eqI) (auto simp: bit_simps)
  then show ?thesis using Word by simp
qed simp

lemma cell_value_eq: "take_bit (width_bits w) c = take_bit (width_bits w) d \<Longrightarrow> cell_value w c = cell_value w d"
  using cell_value_low by metis

lemma low_mono: "i \<le> j \<Longrightarrow> take_bit j (c :: rt_uint32) = take_bit j d \<Longrightarrow> take_bit i c = take_bit i d"
  by (metis min.absorb1 take_bit_take_bit)

lemma bytes_word:
  fixes v :: rt_uint32
  shows "ucast (ucast v :: rt_uint8) = take_bit 8 v"
    and "ucast (ucast v :: rt_uint8) OR push_bit 8 (ucast (ucast (drop_bit 8 v) :: rt_uint8)) = take_bit 16 v"
    and "ucast (ucast v :: rt_uint8) OR push_bit 8 (ucast (ucast (drop_bit 8 v) :: rt_uint8))
      OR push_bit 16 (ucast (ucast (drop_bit 16 v) :: rt_uint8)) OR push_bit 24 (ucast (ucast (drop_bit 24 v) :: rt_uint8)) = v"
proof -
  show "ucast (ucast v :: rt_uint8) = take_bit 8 v" by (rule bit_word_eqI) (auto simp: bit_simps)
  show "ucast (ucast v :: rt_uint8) OR push_bit 8 (ucast (ucast (drop_bit 8 v) :: rt_uint8)) = take_bit 16 v"
    by (rule bit_word_eqI) (auto simp: bit_simps)
  show "ucast (ucast v :: rt_uint8) OR push_bit 8 (ucast (ucast (drop_bit 8 v) :: rt_uint8))
      OR push_bit 16 (ucast (ucast (drop_bit 16 v) :: rt_uint8)) OR push_bit 24 (ucast (ucast (drop_bit 24 v) :: rt_uint8)) = v"
  proof (rule bit_word_eqI)
    fix n assume "n < LENGTH(32)"
    then have "n < 32" by simp
    then show "bit (ucast (ucast v :: rt_uint8) OR push_bit 8 (ucast (ucast (drop_bit 8 v) :: rt_uint8))
      OR push_bit 16 (ucast (ucast (drop_bit 16 v) :: rt_uint8)) OR push_bit 24 (ucast (ucast (drop_bit 24 v) :: rt_uint8)) :: rt_uint32) n = bit v n"
      by (cases rule: bit_range) (auto simp: bit_simps)
  qed
qed

lemma get_set: "FINSH_GET w (FINSH_SET w v @ rest) = take_bit (width_bits w) v"
  using bytes_word [of v] by (cases w) simp_all

lemma set_length [simp]: "length (FINSH_SET w v) = width_bytes w"
  by (cases w) simp_all

lemma mem_get_put: "mem_get w a (mem_put w a v m) = take_bit (width_bits w) v"
  using bytes_word [of v] by (cases w) simp_all

lemma mem_get_low: "take_bit (width_bits w) (mem_get Dword a m) = mem_get w a m"
proof (rule bit_word_eqI)
  fix n assume "n < LENGTH(32)"
  then have "n < 32" by simp
  then show "bit (take_bit (width_bits w) (mem_get Dword a m)) n = bit (mem_get w a m) n"
    by (cases rule: bit_range; cases w) (auto simp: bit_simps byte_bit)
qed

section \<open>Execution\<close>

definition runs :: "platform \<Rightarrow> rt_uint8 list \<Rightarrow> finsh_vm \<Rightarrow> finsh_vm \<Rightarrow> bool" where
  "runs P c s s' \<longleftrightarrow> (\<forall>pre post. vm_loop P (pre @ c @ post) (s\<lparr>finsh_pc := length pre\<rparr>)
     = vm_loop P (pre @ c @ post) (s'\<lparr>finsh_pc := length pre + length c\<rparr>))"

lemma exec_nil [simp]: "runs P [] s s"
  by (simp add: runs_def)

lemma exec_append:
  assumes "runs P c s s1" "runs P d s1 s2"
  shows "runs P (c @ d) s s2"
  unfolding runs_def
proof (intro allI)
  fix pre post
  have "vm_loop P (pre @ c @ d @ post) (s\<lparr>finsh_pc := length pre\<rparr>)
    = vm_loop P (pre @ c @ d @ post) (s1\<lparr>finsh_pc := length pre + length c\<rparr>)"
    using assms(1) unfolding runs_def by blast
  also have "\<dots> = vm_loop P (pre @ c @ d @ post) (s2\<lparr>finsh_pc := length pre + length c + length d\<rparr>)"
    using assms(2) [unfolded runs_def, rule_format, of "pre @ c" post] by simp
  finally show "vm_loop P (pre @ (c @ d) @ post) (s\<lparr>finsh_pc := length pre\<rparr>)
    = vm_loop P (pre @ (c @ d) @ post) (s2\<lparr>finsh_pc := length pre + length (c @ d)\<rparr>)"
    by (simp add: add.assoc)
qed

text \<open>One instruction with its operand.\<close>

lemma exec_instr:
  assumes op: "unat op < length op_table" "op_table ! unat op = f"
    and run: "\<And>pre post. f P (pre @ arg @ post) (s\<lparr>finsh_pc := length pre\<rparr>) = Some (s'\<lparr>finsh_pc := length pre + length arg\<rparr>)"
  shows "runs P (op # arg) s s'"
  unfolding runs_def
proof (intro allI)
  fix pre post
  have "vm_step P (pre @ (op # arg) @ post) (s\<lparr>finsh_pc := length pre\<rparr>) = Some (s'\<lparr>finsh_pc := length pre + length (op # arg)\<rparr>)"
    using op run [of "pre @ [op]" post] by (simp add: vm_step_def Let_def)
  then show "vm_loop P (pre @ (op # arg) @ post) (s\<lparr>finsh_pc := length pre\<rparr>)
    = vm_loop P (pre @ (op # arg) @ post) (s'\<lparr>finsh_pc := length pre + length (op # arg)\<rparr>)"
    by (subst vm_loop.simps) simp
qed

lemma op_at:
  "op_table ! unat (FINSH_OP_BIN f w) = OP_BIN w f" "op_table ! unat (FINSH_OP_BITWISE w) = OP_bw w"
  "op_table ! unat (FINSH_OP_LD w) = OP_ld w" "op_table ! unat (FINSH_OP_LD_VALUE w) = OP_ld_value w"
  "op_table ! unat (FINSH_OP_ST w) = OP_st w" "op_table ! unat (FINSH_OP_LD_VALUE_STACK w) = OP_ld_value_stack w"
  "op_table ! unat FINSH_OP_POP = OP_pop" "op_table ! unat FINSH_OP_SYSCALL = OP_call"
  by (cases f; cases w; simp add: op_table_def FINSH_OP_BIN_def)
    (cases w; simp add: op_table_def FINSH_OP_BITWISE_def FINSH_OP_LD_def FINSH_OP_LD_VALUE_def FINSH_OP_ST_def FINSH_OP_LD_VALUE_STACK_def)+

lemma op_in:
  "unat (FINSH_OP_BIN f w) < length op_table" "unat (FINSH_OP_BITWISE w) < length op_table" "unat (FINSH_OP_LD w) < length op_table"
  "unat (FINSH_OP_LD_VALUE w) < length op_table" "unat (FINSH_OP_ST w) < length op_table" "unat (FINSH_OP_LD_VALUE_STACK w) < length op_table"
  "unat FINSH_OP_POP < length op_table" "unat FINSH_OP_SYSCALL < length op_table"
  by (cases f; cases w; simp add: op_table_def FINSH_OP_BIN_def)
    (cases w; simp add: op_table_def FINSH_OP_BITWISE_def FINSH_OP_LD_def FINSH_OP_LD_VALUE_def FINSH_OP_ST_def FINSH_OP_LD_VALUE_STACK_def)+

text \<open>The state after a value is put on the stack, and the instructions.\<close>

definition pushed :: "width \<Rightarrow> int \<Rightarrow> finsh_vm \<Rightarrow> finsh_vm" where
  "pushed w r s = s\<lparr>finsh_vm_stack := (finsh_vm_stack s)(finsh_sp s := set_cell w r (finsh_vm_stack s (finsh_sp s))), finsh_sp := finsh_sp s + 1\<rparr>"

lemma pushed_fields [simp]:
  "finsh_sp (pushed w r s) = finsh_sp s + 1" "vmem (pushed w r s) = vmem s"
  "finsh_vm_stack (pushed w r s) i = (if i = finsh_sp s then set_cell w r (finsh_vm_stack s i) else finsh_vm_stack s i)"
  by (simp_all add: pushed_def)

lemma exec_ld:
  assumes "finsh_sp s < FINSH_STACK_MAX"
  shows "runs P (FINSH_OP_LD w # FINSH_SET w v) s (pushed w (uint (take_bit (width_bits w) v)) s)"
  by (rule exec_instr [OF op_in(3) op_at(3)]) (use assms in \<open>simp add: OP_ld_def operand_def get_set push_def pushed_def\<close>)

lemma exec_ld_value:
  assumes "finsh_sp s < FINSH_STACK_MAX" "access P w a"
  shows "runs P (FINSH_OP_LD_VALUE w # FINSH_SET Dword a) s (pushed w (uint (mem_get w a (vmem s))) s)"
  by (rule exec_instr [OF op_in(4) op_at(4)]) (use assms get_set [of Dword a] in \<open>simp add: OP_ld_value_def operand_def push_def pushed_def\<close>)

lemma exec_bin:
  assumes "2 \<le> finsh_sp s" "i = finsh_sp s - 2"
    and "c_binop f (cell_value w (finsh_vm_stack s i)) (cell_value w (finsh_vm_stack s (i + 1))) = Some r"
  shows "runs P [FINSH_OP_BIN f w] s (s\<lparr>finsh_vm_stack := (finsh_vm_stack s)(i := set_cell w r (finsh_vm_stack s i)), finsh_sp := finsh_sp s - 1\<rparr>)"
  by (rule exec_instr [OF op_in(1) op_at(1)]) (use assms in \<open>simp add: OP_BIN_def Let_def\<close>)

lemma exec_bw:
  assumes "1 \<le> finsh_sp s" "i = finsh_sp s - 1"
  shows "runs P [FINSH_OP_BITWISE w] s
    (s\<lparr>finsh_vm_stack := (finsh_vm_stack s)(i := set_cell w (NOT (cell_value w (finsh_vm_stack s i))) (finsh_vm_stack s i))\<rparr>)"
  by (rule exec_instr [OF op_in(2) op_at(2)]) (use assms in \<open>simp add: OP_bw_def Let_def\<close>)

lemma exec_st:
  assumes "2 \<le> finsh_sp s" "a = finsh_vm_stack s (finsh_sp s - 2)" "access P w a"
  shows "runs P [FINSH_OP_ST w] s (s\<lparr>vmem := mem_put w a (finsh_vm_stack s (finsh_sp s - 1)) (vmem s), finsh_sp := finsh_sp s - 1\<rparr>)"
  by (rule exec_instr [OF op_in(5) op_at(5)]) (use assms in \<open>simp add: OP_st_def Let_def\<close>)

lemma exec_ldvs:
  assumes "1 \<le> finsh_sp s" "i = finsh_sp s - 1" "access P w (finsh_vm_stack s i)"
  shows "runs P [FINSH_OP_LD_VALUE_STACK w] s
    (s\<lparr>finsh_vm_stack := (finsh_vm_stack s)(i := set_cell w (uint (mem_get w (finsh_vm_stack s i) (vmem s))) (finsh_vm_stack s i))\<rparr>)"
  by (rule exec_instr [OF op_in(6) op_at(6)]) (use assms in \<open>simp add: OP_ld_value_stack_def Let_def\<close>)

lemma exec_pop:
  assumes "1 \<le> finsh_sp s"
  shows "runs P [FINSH_OP_POP] s (s\<lparr>finsh_sp := finsh_sp s - 1\<rparr>)"
  by (rule exec_instr [OF op_in(7) op_at(7)]) (use assms in \<open>simp add: OP_pop_def\<close>)

lemma exec_call:
  assumes sp: "finsh_sp s = i + 1 + unat n" and n: "unat n \<le> 16"
    and call: "call_fn P (finsh_vm_stack s i) (if n = 0 then [0] else map (finsh_vm_stack s) [i + 1..<i + 1 + unat n]) (vmem s) = Some (r, m)"
  shows "runs P [FINSH_OP_SYSCALL, n] s (s\<lparr>vmem := m, finsh_vm_stack := (finsh_vm_stack s)(i := r), finsh_sp := i + 1\<rparr>)"
proof (rule exec_instr [OF op_in(8) op_at(8)])
  fix pre post
  have u: "unat (ucast n :: rt_uint32) = unat n" using unsigned_less [of n, where ?'a = nat] by (simp add: unsigned_ucast_eq take_bit_nat_eq_self)
  have z: "unat n = 0 \<longleftrightarrow> n = 0" by (rule unat_eq_zero)
  have "operand Byte (pre @ [n] @ post) (s\<lparr>finsh_pc := length pre\<rparr>) = Some (ucast n, s\<lparr>finsh_pc := length pre + 1\<rparr>)"
    by (simp add: operand_def)
  then show "OP_call P (pre @ [n] @ post) (s\<lparr>finsh_pc := length pre\<rparr>)
    = Some (s\<lparr>vmem := m, finsh_vm_stack := (finsh_vm_stack s)(i := r), finsh_sp := i + 1\<rparr>\<lparr>finsh_pc := length pre + length [n]\<rparr>)"
    using call n by (cases "n = 0") (simp_all add: OP_call_def u z sp Let_def del: upt_Suc)
qed

end
