(* ===== verification/Rt_Finsh_Expr.thy ===== *)
theory Rt_Finsh_Expr
  imports Rt_Finsh_Exec
begin

text \<open>
  What the shell promises: expressions with a value, and the proof that the code of the compiler computes it. An expression stands for the tree of nodes the parser builds for it
  (\<open>tree_of\<close>). Its value is a word of which the low \<open>valid\<close> bits count; \<open>etype\<close> is the width the compiler assigns to it. \<open>well_typed\<close> are the expressions whose parts are wide enough
  where they are used: the left operand has a width, which is the one of the operation, the right operand and the value of an assignment are at least as wide, and arguments have all four bytes.
\<close>

section \<open>Expressions\<close>

datatype vref = Local nat | Sys finsh_sysvar

fun ref_type :: "finsh \<Rightarrow> vref \<Rightarrow> finsh_type" where
  "ref_type F (Local i) = var_type (global_variable F ! i)"
| "ref_type F (Sys v) = sv_type v"

fun ref_addr :: "finsh \<Rightarrow> vref \<Rightarrow> rt_uint32" where
  "ref_addr F (Local i) = var_value F i"
| "ref_addr F (Sys v) = sv_var v"

fun ref_ok :: "finsh \<Rightarrow> vref \<Rightarrow> bool" where
  "ref_ok F (Local i) \<longleftrightarrow> i < length (global_variable F)"
| "ref_ok F (Sys v) \<longleftrightarrow> True"

datatype expr = IntE rt_uint32 | CharE rt_uint8 | VarE vref | AddrE vref | BinE binop expr expr | NotE expr | AssignE vref expr
  | PreE bool nat | PostE bool nat | GetE expr | PutE expr expr | CallE finsh_syscall "expr list"

fun etype :: "finsh \<Rightarrow> expr \<Rightarrow> width option" where
  "etype F (IntE v) = Some Dword"
| "etype F (CharE c) = Some Byte"
| "etype F (VarE r) = load_width (ref_type F r)"
| "etype F (AddrE r) = load_width (ref_type F r)"
| "etype F (BinE f a b) = etype F a"
| "etype F (NotE a) = etype F a"
| "etype F (AssignE r a) = load_width (ref_type F r)"
| "etype F (PreE up i) = load_width (ref_type F (Local i))"
| "etype F (PostE up i) = load_width (ref_type F (Local i))"
| "etype F (GetE a) = etype F a"
| "etype F (PutE a b) = etype F a"
| "etype F (CallE f as) = None"

definition valid :: "finsh \<Rightarrow> expr \<Rightarrow> nat" where
  "valid F e = (case e of AddrE r \<Rightarrow> 32 | _ \<Rightarrow> (case etype F e of Some w \<Rightarrow> width_bits w | None \<Rightarrow> 32))"

fun well_typed :: "finsh \<Rightarrow> expr \<Rightarrow> bool" where
  "well_typed F (IntE v) \<longleftrightarrow> True"
| "well_typed F (CharE c) \<longleftrightarrow> True"
| "well_typed F (VarE r) \<longleftrightarrow> ref_ok F r \<and> load_width (ref_type F r) \<noteq> None"
| "well_typed F (AddrE r) \<longleftrightarrow> ref_ok F r \<and> load_width (ref_type F r) \<noteq> None"
| "well_typed F (BinE f a b) \<longleftrightarrow> well_typed F a \<and> well_typed F b \<and> (case etype F a of None \<Rightarrow> False | Some w \<Rightarrow> width_bits w \<le> valid F b)"
| "well_typed F (NotE a) \<longleftrightarrow> well_typed F a \<and> etype F a \<noteq> None"
| "well_typed F (AssignE r a) \<longleftrightarrow> ref_ok F r \<and> well_typed F a \<and> (case load_width (ref_type F r) of None \<Rightarrow> False | Some w \<Rightarrow> width_bits w \<le> valid F a)"
| "well_typed F (PreE up i) \<longleftrightarrow> ref_ok F (Local i) \<and> load_width (ref_type F (Local i)) \<noteq> None"
| "well_typed F (PostE up i) \<longleftrightarrow> ref_ok F (Local i) \<and> load_width (ref_type F (Local i)) \<noteq> None"
| "well_typed F (GetE a) \<longleftrightarrow> well_typed F a \<and> etype F a = Some Dword"
| "well_typed F (PutE a b) \<longleftrightarrow> well_typed F a \<and> well_typed F b \<and> etype F a = Some Dword \<and> valid F b = 32"
| "well_typed F (CallE f as) \<longleftrightarrow> length as \<le> 16 \<and> (\<forall>a\<in>set as. well_typed F a \<and> valid F a = 32)"

section \<open>Values\<close>

definition low :: "width \<Rightarrow> rt_uint32 \<Rightarrow> rt_uint32" where
  "low w v = take_bit (width_bits w) v"

definition counted :: "bool \<Rightarrow> width \<Rightarrow> rt_uint32 \<Rightarrow> rt_uint32" where
  "counted up w v = low w (if up then v + 1 else v - 1)"

fun eval :: "finsh \<Rightarrow> platform \<Rightarrow> expr \<Rightarrow> memory \<Rightarrow> (rt_uint32 \<times> memory) option"
  and eval_list :: "finsh \<Rightarrow> platform \<Rightarrow> expr list \<Rightarrow> memory \<Rightarrow> (rt_uint32 list \<times> memory) option" where
  "eval F P (IntE v) m = Some (v, m)"
| "eval F P (CharE c) m = Some (ucast c, m)"
| "eval F P (VarE r) m =
     do { w \<leftarrow> etype F (VarE r); if access P w (ref_addr F r) then Some (mem_get w (ref_addr F r) m, m) else None }"
| "eval F P (AddrE r) m = Some (ref_addr F r, m)"
| "eval F P (BinE f a b) m =
     do { (x, m1) \<leftarrow> eval F P a m; (y, m2) \<leftarrow> eval F P b m1; w \<leftarrow> etype F a;
          r \<leftarrow> c_binop f (cell_value w x) (cell_value w y); Some (low w (word_of_int r), m2) }"
| "eval F P (NotE a) m = do { (x, m1) \<leftarrow> eval F P a m; w \<leftarrow> etype F a; Some (low w (NOT x), m1) }"
| "eval F P (AssignE r a) m =
     do { (x, m1) \<leftarrow> eval F P a m; w \<leftarrow> load_width (ref_type F r);
          if access P w (ref_addr F r) then Some (low w x, mem_put w (ref_addr F r) x m1) else None }"
| "eval F P (PreE up i) m =
     do { w \<leftarrow> load_width (ref_type F (Local i)); let a = var_value F i; let v = counted up w (mem_get w a m);
          if access P w a \<and> access P Dword a then Some (v, mem_put w a v m) else None }"
| "eval F P (PostE up i) m =
     do { w \<leftarrow> load_width (ref_type F (Local i)); let a = var_value F i; let v = mem_get w a m;
          if access P w a then Some (v, mem_put w a (counted up w v) m) else None }"
| "eval F P (GetE a) m = do { (x, m1) \<leftarrow> eval F P a m; if access P Dword x then Some (mem_get Dword x m1, m1) else None }"
| "eval F P (PutE a b) m =
     do { (x, m1) \<leftarrow> eval F P a m; (y, m2) \<leftarrow> eval F P b m1; if access P Dword x then Some (y, mem_put Dword x y m2) else None }"
| "eval F P (CallE f as) m =
     do { (vs, m1) \<leftarrow> eval_list F P as m; call_fn P (sc_func f) (if vs = [] then [0] else vs) m1 }"
| "eval_list F P [] m = Some ([], m)"
| "eval_list F P (a # as) m = do { (v, m1) \<leftarrow> eval F P a m; (vs, m2) \<leftarrow> eval_list F P as m1; Some (v # vs, m2) }"

section \<open>Code and trees\<close>

fun code_of :: "finsh \<Rightarrow> expr \<Rightarrow> rt_uint8 list" where
  "code_of F (IntE v) = FINSH_OP_LD Dword # FINSH_SET Dword v"
| "code_of F (CharE c) = FINSH_OP_LD Byte # FINSH_SET Byte (ucast c)"
| "code_of F (VarE r) = FINSH_OP_LD_VALUE (the (etype F (VarE r))) # FINSH_SET Dword (ref_addr F r)"
| "code_of F (AddrE r) = FINSH_OP_LD Dword # FINSH_SET Dword (ref_addr F r)"
| "code_of F (BinE f a b) = code_of F a @ code_of F b @ [FINSH_OP_BIN f (the (etype F a))]"
| "code_of F (NotE a) = code_of F a @ [FINSH_OP_BITWISE (the (etype F a))]"
| "code_of F (AssignE r a) = (let w = the (load_width (ref_type F r)) in
     FINSH_OP_LD Dword # FINSH_SET Dword (ref_addr F r) @ code_of F a @ [FINSH_OP_ST w, FINSH_OP_LD_VALUE_STACK w])"
| "code_of F (PreE up i) = (let w = the (load_width (ref_type F (Local i))) in
     FINSH_OP_LD Dword # FINSH_SET Dword (var_value F i) @ step_code (if up then Add else Sub) w (var_value F i) @ [FINSH_OP_LD_VALUE_STACK Dword])"
| "code_of F (PostE up i) = (let w = the (load_width (ref_type F (Local i))) in
     FINSH_OP_LD_VALUE w # FINSH_SET Dword (var_value F i) @ FINSH_OP_LD Dword # FINSH_SET Dword (var_value F i)
       @ step_code (if up then Add else Sub) w (var_value F i) @ [FINSH_OP_POP])"
| "code_of F (GetE a) = code_of F a @ [FINSH_OP_LD_VALUE_STACK Dword]"
| "code_of F (PutE a b) = code_of F a @ code_of F b @ [FINSH_OP_ST Dword, FINSH_OP_LD_VALUE_STACK Dword]"
| "code_of F (CallE f as) = FINSH_OP_LD Dword # FINSH_SET Dword (sc_func f) @ concat (map (code_of F) as) @ [FINSH_OP_SYSCALL, of_nat (length as)]"

fun binop_node :: "binop \<Rightarrow> node_type" where
  "binop_node Add = FINSH_NODE_SYS_ADD"
| "binop_node Sub = FINSH_NODE_SYS_SUB"
| "binop_node Div = FINSH_NODE_SYS_DIV"
| "binop_node Mod = FINSH_NODE_SYS_MOD"
| "binop_node Mul = FINSH_NODE_SYS_MUL"
| "binop_node And = FINSH_NODE_SYS_AND"
| "binop_node Or = FINSH_NODE_SYS_OR"
| "binop_node Xor = FINSH_NODE_SYS_XOR"
| "binop_node Shl = FINSH_NODE_SYS_SHL"
| "binop_node Shr = FINSH_NODE_SYS_SHR"

fun ref_node :: "vref \<Rightarrow> node_info" where
  "ref_node (Local i) = (new_node FINSH_NODE_ID)\<lparr>idtype := FINSH_IDTYPE_VAR, node_id := IdVar i\<rparr>"
| "ref_node (Sys v) = (new_node FINSH_NODE_ID)\<lparr>idtype := FINSH_IDTYPE_SYSVAR, node_id := IdSysvar v\<rparr>"

definition call_node :: "finsh_syscall \<Rightarrow> node_info" where
  "call_node f = (new_node FINSH_NODE_ID)\<lparr>idtype := FINSH_IDTYPE_SYSCALL, node_id := IdSyscall f\<rparr>"

fun tree_of :: "expr \<Rightarrow> finsh_node \<Rightarrow> finsh_node" and trees_of :: "expr list \<Rightarrow> finsh_node" where
  "tree_of (IntE v) sb = FNode ((new_node FINSH_NODE_VALUE_INT)\<lparr>node_value := v\<rparr>) NullNode sb"
| "tree_of (CharE c) sb = FNode ((new_node FINSH_NODE_VALUE_CHAR)\<lparr>node_value := ucast c\<rparr>) NullNode sb"
| "tree_of (VarE r) sb = FNode (ref_node r) NullNode sb"
| "tree_of (AddrE r) sb = FNode (new_node FINSH_NODE_SYS_GETADDR) (FNode (ref_node r) NullNode NullNode) sb"
| "tree_of (BinE f a b) sb = FNode (new_node (binop_node f)) (tree_of a (tree_of b NullNode)) sb"
| "tree_of (NotE a) sb = FNode (new_node FINSH_NODE_SYS_BITWISE) (tree_of a NullNode) sb"
| "tree_of (AssignE r a) sb = FNode (new_node FINSH_NODE_SYS_ASSIGN) (FNode (ref_node r) NullNode (tree_of a NullNode)) sb"
| "tree_of (PreE up i) sb = FNode (new_node (if up then FINSH_NODE_SYS_PREINC else FINSH_NODE_SYS_PREDEC)) (FNode (ref_node (Local i)) NullNode NullNode) sb"
| "tree_of (PostE up i) sb = FNode (new_node (if up then FINSH_NODE_SYS_INC else FINSH_NODE_SYS_DEC)) (FNode (ref_node (Local i)) NullNode NullNode) sb"
| "tree_of (GetE a) sb = FNode (new_node FINSH_NODE_SYS_GETVALUE) (tree_of a NullNode) sb"
| "tree_of (PutE a b) sb = FNode (new_node FINSH_NODE_SYS_ASSIGN) (FNode (new_node FINSH_NODE_SYS_GETVALUE) (tree_of a NullNode) (tree_of b NullNode)) sb"
| "tree_of (CallE f as) sb = FNode (new_node FINSH_NODE_SYS_FUNC) (FNode (call_node f) NullNode (trees_of as)) sb"
| "trees_of [] = NullNode"
| "trees_of (a # as) = tree_of a (trees_of as)"

section \<open>The compiler produces the code\<close>

fun type_code :: "width option \<Rightarrow> rt_uint8" where
  "type_code None = FINSH_DATA_TYPE_VOID"
| "type_code (Some Byte) = FINSH_DATA_TYPE_BYTE"
| "type_code (Some Word) = FINSH_DATA_TYPE_WORD"
| "type_code (Some Dword) = FINSH_DATA_TYPE_DWORD"

lemma data_width_code [simp]: "data_width (type_code t) = t"
  by (cases t rule: type_code.cases) (simp_all add: data_width_def)

lemma var_data_load: "load_width ty = Some w \<Longrightarrow> var_data_type ty = Some (type_code (Some w))"
  by (cases ty) auto

lemma node_binop_node [simp]: "node_binop (binop_node f) = Some f"
  by (cases f) simp_all

text \<open>A checked tree: its root has the type of the expression, and child and root together have the code.\<close>

definition compiled :: "finsh \<Rightarrow> node_info \<Rightarrow> finsh_node \<Rightarrow> width option \<Rightarrow> rt_uint8 list \<Rightarrow> bool" where
  "compiled F x ch t c \<longleftrightarrow> data_type x = type_code t
     \<and> (\<exists>c1 c2. finsh_compile F ch = Some (c1, []) \<and> node_code F x ch = Some (c2, []) \<and> c = c1 @ c2)"

lemma compiled_node:
  assumes "compiled F x ch t c" "finsh_compile F sb = Some (d, [])"
  shows "finsh_compile F (FNode x ch sb) = Some (c @ d, [])"
  using assms by (auto simp: compiled_def)

lemma compiled_type: "compiled F x ch t c \<Longrightarrow> data_type x = type_code t"
  by (simp add: compiled_def)

lemma compiled_last: "compiled F x ch t c \<Longrightarrow> finsh_compile F (FNode x ch NullNode) = Some (c, [])"
  using compiled_node [of F x ch t c NullNode "[]"] by simp

lemma ref_checked:
  assumes "ref_ok F r" "load_width (ref_type F r) = Some w" "is_addr = 0 \<or> is_addr = FINSH_IDTYPE_ADDRESS"
  shows "\<exists>x. finsh_type_check F (FNode (ref_node r) NullNode sb) is_addr = (FNode x NullNode (fst (finsh_type_check F sb 0)), snd (finsh_type_check F sb 0))
    \<and> node_type x = FINSH_NODE_ID \<and> node_id x = node_id (ref_node r)
    \<and> compiled F x NullNode (Some w) ((if is_addr = 0 then FINSH_OP_LD_VALUE w else FINSH_OP_LD Dword) # FINSH_SET Dword (ref_addr F r))"
  using assms var_data_load [OF assms(2)]
  by (cases r) (auto simp: new_node_def leaf_type_def set_type_def compiled_def node_code_def id_code_def load_id_def split: prod.split)

lemma child_addr_0:
  "child_addr (binop_node f) 0 = 0" "child_addr FINSH_NODE_SYS_BITWISE 0 = 0" "child_addr FINSH_NODE_SYS_INC 0 = 0" "child_addr FINSH_NODE_SYS_DEC 0 = 0"
  "child_addr FINSH_NODE_SYS_GETVALUE a = 0" "child_addr FINSH_NODE_SYS_FUNC 0 = 0"
  "child_addr FINSH_NODE_SYS_ASSIGN a = FINSH_IDTYPE_ADDRESS" "child_addr FINSH_NODE_SYS_PREINC a = FINSH_IDTYPE_ADDRESS"
  "child_addr FINSH_NODE_SYS_PREDEC a = FINSH_IDTYPE_ADDRESS" "child_addr FINSH_NODE_SYS_GETADDR a = FINSH_IDTYPE_ADDRESS"
  by (cases f; simp add: child_addr_def) (simp_all add: child_addr_def)

text \<open>A node that is not a leaf gets the type of its first child.\<close>

lemma checked_parent:
  assumes "finsh_type_check F ch (child_addr (node_type x) is_addr) = (FNode y c1 s1, [])" and "idtype x = 0"
  shows "finsh_type_check F (FNode x ch sb) is_addr
    = (FNode (x\<lparr>idtype := is_addr, data_type := data_type y\<rparr>) (FNode y c1 s1) (fst (finsh_type_check F sb 0)), snd (finsh_type_check F sb 0))"
  using assms by (simp split: prod.split)

definition checked :: "node_type \<Rightarrow> rt_uint8 \<Rightarrow> rt_uint8 \<Rightarrow> node_info" where
  "checked ty is_addr d = \<lparr>node_type = ty, data_type = d, idtype = is_addr, node_value = 0, node_id = IdNull\<rparr>"

definition tree_ok :: "finsh \<Rightarrow> finsh_node \<Rightarrow> rt_uint8 \<Rightarrow> finsh_node \<Rightarrow> width option \<Rightarrow> rt_uint8 list \<Rightarrow> bool" where
  "tree_ok F n is_addr sb t c \<longleftrightarrow> (\<exists>x ch. finsh_type_check F n is_addr = (FNode x ch (fst (finsh_type_check F sb 0)), snd (finsh_type_check F sb 0))
     \<and> compiled F x ch t c)"

lemma tree_okE:
  assumes "tree_ok F n is_addr sb t c" "finsh_type_check F sb 0 = (sb', [])"
  obtains x ch where "finsh_type_check F n is_addr = (FNode x ch sb', [])" "compiled F x ch t c"
  using assms by (auto simp: tree_ok_def)

lemma tree_ok_last:
  assumes "tree_ok F n is_addr NullNode t c"
  shows "\<exists>x ch. finsh_type_check F n is_addr = (FNode x ch NullNode, []) \<and> compiled F x ch t c"
  using assms by (auto simp: tree_ok_def)

lemma parent_checked:
  assumes "finsh_type_check F ch (child_addr ty is_addr) = (FNode y c1 s1, [])" and "data_type y = type_code t"
  shows "finsh_type_check F (FNode (new_node ty) ch sb) is_addr
    = (FNode (checked ty is_addr (type_code t)) (FNode y c1 s1) (fst (finsh_type_check F sb 0)), snd (finsh_type_check F sb 0))"
proof -
  have "(new_node ty)\<lparr>idtype := is_addr, data_type := data_type y\<rparr> = checked ty is_addr (type_code t)"
    using assms(2) by (simp add: new_node_def checked_def)
  then show ?thesis using checked_parent [of F ch "new_node ty" is_addr y c1 s1 sb] assms(1) by (simp add: new_node_def)
qed

lemma parent_compiled:
  assumes "finsh_compile F ch = Some (c, [])" and "node_code F (checked ty is_addr (type_code t)) ch = Some (d, [])"
  shows "compiled F (checked ty is_addr (type_code t)) ch t (c @ d)"
  using assms by (simp add: compiled_def checked_def)

lemma tree_parent:
  assumes "finsh_type_check F ch (child_addr ty is_addr) = (FNode y c1 s1, [])" and "data_type y = type_code t"
    and "finsh_compile F (FNode y c1 s1) = Some (c, [])" and "node_code F (checked ty is_addr (type_code t)) (FNode y c1 s1) = Some (d, [])"
  shows "tree_ok F (FNode (new_node ty) ch sb) is_addr sb t (c @ d)"
  unfolding tree_ok_def using parent_checked [OF assms(1,2)] parent_compiled [OF assms(3,4)] by blast

lemma code_checked:
  "node_code F (checked (binop_node f) 0 (type_code (Some w))) ch = Some ([FINSH_OP_BIN f w], [])"
  "node_code F (checked FINSH_NODE_SYS_BITWISE 0 (type_code (Some w))) ch = Some ([FINSH_OP_BITWISE w], [])"
  "node_code F (checked FINSH_NODE_SYS_GETVALUE 0 (type_code (Some w))) ch = Some ([FINSH_OP_LD_VALUE_STACK w], [])"
  "node_code F (checked FINSH_NODE_SYS_GETVALUE FINSH_IDTYPE_ADDRESS d) ch = Some ([], [])"
  "node_code F (checked FINSH_NODE_SYS_GETADDR 0 d) ch = Some ([], [])"
  "node_code F (checked FINSH_NODE_SYS_ASSIGN 0 d) ch = assign_code ch"
  "node_code F (checked FINSH_NODE_SYS_FUNC 0 d) (FNode y c s) = Some ([FINSH_OP_SYSCALL, of_nat (siblings s)], [])"
  by (cases f; simp add: node_code_def checked_def Let_def) (simp_all add: node_code_def checked_def Let_def)

lemma code_counted:
  assumes "node_type y = FINSH_NODE_ID" "node_id y = IdVar i"
  shows "node_code F (checked (if up then FINSH_NODE_SYS_PREINC else FINSH_NODE_SYS_PREDEC) 0 (type_code (Some w))) (FNode y c s)
      = Some (step_code (if up then Add else Sub) w (var_value F i) @ [FINSH_OP_LD_VALUE_STACK Dword], [])"
    and "node_code F (checked (if up then FINSH_NODE_SYS_INC else FINSH_NODE_SYS_DEC) 0 (type_code (Some w))) (FNode y c s)
      = Some (FINSH_OP_LD Dword # FINSH_SET Dword (var_value F i) @ step_code (if up then Add else Sub) w (var_value F i) @ [FINSH_OP_POP], [])"
  using assms by (simp_all add: node_code_def checked_def count_code_def)

lemma type_code_low: "type_code t AND 0x0F = type_code t"
  by (cases t rule: type_code.cases) simp_all

lemma leaf_ok:
  assumes "leaf_type F (x\<lparr>idtype := idtype x OR 0\<rparr>) = (y, [])" "idtype x \<noteq> FINSH_IDTYPE_SYSCALL" "data_type y = type_code t" "node_code F y NullNode = Some (c, [])"
  shows "tree_ok F (FNode x NullNode sb) 0 sb t c"
  using assms by (auto simp: tree_ok_def compiled_def split: prod.split)

lemma operands_checked:
  assumes "tree_ok F (tree_of b NullNode) 0 NullNode t' d" and "tree_ok F (tree_of a (tree_of b NullNode)) 0 (tree_of b NullNode) t c"
    and "\<And>ch. node_code F (checked (binop_node f) 0 (type_code t)) ch = Some (o', [])"
  shows "tree_ok F (tree_of (BinE f a b) sb) 0 sb t (c @ d @ o')"
proof -
  obtain y n where b: "finsh_type_check F (tree_of b NullNode) 0 = (FNode y n NullNode, [])" "compiled F y n t' d"
    using tree_ok_last [OF assms(1)] by auto
  obtain x n' where a: "finsh_type_check F (tree_of a (tree_of b NullNode)) 0 = (FNode x n' (FNode y n NullNode), [])" "compiled F x n' t c"
    using tree_okE [OF assms(2) b(1)] by auto
  have "tree_ok F (tree_of (BinE f a b) sb) 0 sb t ((c @ d) @ o')"
    unfolding tree_of.simps using a(1)
    by (intro tree_parent [OF _ compiled_type [OF a(2)] compiled_node [OF a(2) compiled_last [OF b(2)]] assms(3)]) (simp only: child_addr_0)
  then show ?thesis by simp
qed

lemma tree_checked:
  "well_typed F e \<Longrightarrow> tree_ok F (tree_of e sb) 0 sb (etype F e) (code_of F e)"
  "\<forall>a\<in>set as. well_typed F a \<Longrightarrow> \<exists>n. finsh_type_check F (trees_of as) 0 = (n, [])
     \<and> finsh_compile F n = Some (concat (map (code_of F) as), []) \<and> siblings n = length as"
proof (induction e sb and as rule: tree_of_trees_of.induct)
  case (1 v sb)
  show ?case unfolding tree_of.simps etype.simps by (rule leaf_ok) (auto simp: new_node_def leaf_type_def node_code_def)
next
  case (2 c sb)
  show ?case unfolding tree_of.simps etype.simps by (rule leaf_ok) (auto simp: new_node_def leaf_type_def node_code_def)
next
  case (3 r sb)
  then obtain w where "load_width (ref_type F r) = Some w" "ref_ok F r" by auto
  then show ?case using ref_checked [of F r w 0 sb] by (auto simp: tree_ok_def)
next
  case (4 r sb)
  then obtain w where w: "load_width (ref_type F r) = Some w" "ref_ok F r" by auto
  obtain x where x: "finsh_type_check F (FNode (ref_node r) NullNode NullNode) FINSH_IDTYPE_ADDRESS = (FNode x NullNode NullNode, [])"
    "compiled F x NullNode (Some w) (FINSH_OP_LD Dword # FINSH_SET Dword (ref_addr F r))"
    using ref_checked [OF w(2,1), of FINSH_IDTYPE_ADDRESS NullNode] by auto
  have "tree_ok F (tree_of (AddrE r) sb) 0 sb (Some w) ((FINSH_OP_LD Dword # FINSH_SET Dword (ref_addr F r)) @ [])"
    unfolding tree_of.simps using x(1) by (intro tree_parent [OF _ compiled_type [OF x(2)] compiled_last [OF x(2)] code_checked(5)]) (simp only: child_addr_0)
  then show ?case using w(1) by simp
next
  case (5 f a b sb)
  then obtain w where w: "etype F a = Some w" by (auto split: option.splits)
  have "tree_ok F (tree_of b NullNode) 0 NullNode (etype F b) (code_of F b)"
    "tree_ok F (tree_of a (tree_of b NullNode)) 0 (tree_of b NullNode) (Some w) (code_of F a)"
    using 5 w by auto
  from operands_checked [OF this code_checked(1)] show ?case using w by simp
next
  case (6 a sb)
  then obtain w where w: "etype F a = Some w" by auto
  obtain x c where a: "finsh_type_check F (tree_of a NullNode) 0 = (FNode x c NullNode, [])" "compiled F x c (Some w) (code_of F a)"
    using tree_ok_last [OF 6(1)] 6(2) w by auto
  have "tree_ok F (tree_of (NotE a) sb) 0 sb (Some w) (code_of F a @ [FINSH_OP_BITWISE w])"
    unfolding tree_of.simps using a(1) by (intro tree_parent [OF _ compiled_type [OF a(2)] compiled_last [OF a(2)] code_checked(2)]) (simp only: child_addr_0)
  then show ?case using w by simp
next
  case (7 r a sb)
  then obtain w where w: "load_width (ref_type F r) = Some w" "ref_ok F r" by (auto split: option.splits)
  obtain y d where a: "finsh_type_check F (tree_of a NullNode) 0 = (FNode y d NullNode, [])" "compiled F y d (etype F a) (code_of F a)"
    using tree_ok_last [OF 7(1)] 7(2) by auto
  let ?n = "FNode (ref_node r) NullNode (tree_of a NullNode)" and ?c = "FINSH_OP_LD Dword # FINSH_SET Dword (ref_addr F r)"
  obtain x where x: "finsh_type_check F ?n FINSH_IDTYPE_ADDRESS = (FNode x NullNode (FNode y d NullNode), [])"
    "node_type x = FINSH_NODE_ID" "compiled F x NullNode (Some w) ?c"
    using ref_checked [OF w(2,1), of FINSH_IDTYPE_ADDRESS "tree_of a NullNode"] a(1) by auto
  have "node_code F (checked FINSH_NODE_SYS_ASSIGN 0 (type_code (Some w))) (FNode x NullNode (FNode y d NullNode)) = Some ([FINSH_OP_ST w, FINSH_OP_LD_VALUE_STACK w], [])"
    using x(2) compiled_type [OF x(3)] by (simp add: code_checked assign_code_def store_code_def)
  then have "tree_ok F (tree_of (AssignE r a) sb) 0 sb (Some w) ((?c @ code_of F a) @ [FINSH_OP_ST w, FINSH_OP_LD_VALUE_STACK w])"
    unfolding tree_of.simps using x(1)
    by (intro tree_parent [OF _ compiled_type [OF x(3)] compiled_node [OF x(3) compiled_last [OF a(2)]]]) (simp_all only: child_addr_0)
  then show ?case using w(1) by simp
next
  case (8 up i sb)
  then obtain w where w: "load_width (ref_type F (Local i)) = Some w" "ref_ok F (Local i)" by auto
  let ?ty = "if up then FINSH_NODE_SYS_PREINC else FINSH_NODE_SYS_PREDEC"
  obtain x where x: "finsh_type_check F (FNode (ref_node (Local i)) NullNode NullNode) FINSH_IDTYPE_ADDRESS = (FNode x NullNode NullNode, [])"
    "node_type x = FINSH_NODE_ID" "node_id x = IdVar i" "compiled F x NullNode (Some w) (FINSH_OP_LD Dword # FINSH_SET Dword (var_value F i))"
    using ref_checked [OF w(2,1), of FINSH_IDTYPE_ADDRESS NullNode] by auto
  have "child_addr ?ty 0 = FINSH_IDTYPE_ADDRESS" by (simp add: child_addr_0)
  from tree_parent [OF _ compiled_type [OF x(4)] compiled_last [OF x(4)] code_counted(1) [OF x(2,3)], of _ up sb, unfolded this, OF x(1)]
  show ?case using w(1) by simp
next
  case (9 up i sb)
  then obtain w where w: "load_width (ref_type F (Local i)) = Some w" "ref_ok F (Local i)" by auto
  let ?ty = "if up then FINSH_NODE_SYS_INC else FINSH_NODE_SYS_DEC"
  obtain x where x: "finsh_type_check F (FNode (ref_node (Local i)) NullNode NullNode) 0 = (FNode x NullNode NullNode, [])"
    "node_type x = FINSH_NODE_ID" "node_id x = IdVar i" "compiled F x NullNode (Some w) (FINSH_OP_LD_VALUE w # FINSH_SET Dword (var_value F i))"
    using ref_checked [OF w(2,1), of 0 NullNode] by auto
  have "child_addr ?ty 0 = 0" by (simp add: child_addr_0)
  from tree_parent [OF _ compiled_type [OF x(4)] compiled_last [OF x(4)] code_counted(2) [OF x(2,3)], of _ up sb, unfolded this, OF x(1)]
  show ?case using w(1) by simp
next
  case (10 a sb)
  then have w: "etype F a = Some Dword" by auto
  obtain x c where a: "finsh_type_check F (tree_of a NullNode) 0 = (FNode x c NullNode, [])" "compiled F x c (Some Dword) (code_of F a)"
    using tree_ok_last [OF 10(1)] 10(2) w by auto
  have "tree_ok F (tree_of (GetE a) sb) 0 sb (Some Dword) (code_of F a @ [FINSH_OP_LD_VALUE_STACK Dword])"
    unfolding tree_of.simps using a(1) by (intro tree_parent [OF _ compiled_type [OF a(2)] compiled_last [OF a(2)] code_checked(3)]) (simp only: child_addr_0)
  then show ?case using w by simp
next
  case (11 a b sb)
  then have w: "etype F a = Some Dword" by auto
  obtain x c where a: "finsh_type_check F (tree_of a NullNode) 0 = (FNode x c NullNode, [])" "compiled F x c (Some Dword) (code_of F a)"
    using tree_ok_last [OF 11(1)] 11(3) w by auto
  obtain y d where b: "finsh_type_check F (tree_of b NullNode) 0 = (FNode y d NullNode, [])" "compiled F y d (etype F b) (code_of F b)"
    using tree_ok_last [OF 11(2)] 11(3) by auto
  let ?z = "checked FINSH_NODE_SYS_GETVALUE FINSH_IDTYPE_ADDRESS (type_code (Some Dword))"
  have z: "finsh_type_check F (FNode (new_node FINSH_NODE_SYS_GETVALUE) (tree_of a NullNode) (tree_of b NullNode)) FINSH_IDTYPE_ADDRESS
      = (FNode ?z (FNode x c NullNode) (FNode y d NullNode), [])"
    using parent_checked [of F "tree_of a NullNode" FINSH_NODE_SYS_GETVALUE FINSH_IDTYPE_ADDRESS x c NullNode "Some Dword" "tree_of b NullNode"]
      a(1) b(1) compiled_type [OF a(2)] by (simp add: child_addr_0)
  have zc: "compiled F ?z (FNode x c NullNode) (Some Dword) (code_of F a @ [])" by (rule parent_compiled [OF compiled_last [OF a(2)] code_checked(4)])
  have "node_code F (checked FINSH_NODE_SYS_ASSIGN 0 (type_code (Some Dword))) (FNode ?z (FNode x c NullNode) (FNode y d NullNode))
      = Some ([FINSH_OP_ST Dword, FINSH_OP_LD_VALUE_STACK Dword], [])"
    unfolding code_checked by (simp add: assign_code_def store_code_def data_width_def checked_def)
  then have "tree_ok F (tree_of (PutE a b) sb) 0 sb (Some Dword) (((code_of F a @ []) @ code_of F b) @ [FINSH_OP_ST Dword, FINSH_OP_LD_VALUE_STACK Dword])"
    unfolding tree_of.simps using z
    by (intro tree_parent [OF _ compiled_type [OF zc] compiled_node [OF zc compiled_last [OF b(2)]]]) (simp_all only: child_addr_0)
  then show ?case using w by simp
next
  case (12 f as sb)
  then obtain n where n: "finsh_type_check F (trees_of as) 0 = (n, [])" "finsh_compile F n = Some (concat (map (code_of F) as), [])" "siblings n = length as" by auto
  have x: "finsh_type_check F (FNode (call_node f) NullNode (trees_of as)) 0 = (FNode (call_node f) NullNode n, [])"
    using n(1) by (simp add: call_node_def new_node_def leaf_type_def)
  have c: "finsh_compile F (FNode (call_node f) NullNode n) = Some ((FINSH_OP_LD Dword # FINSH_SET Dword (sc_func f)) @ concat (map (code_of F) as), [])"
    using n(2) by (simp add: node_code_def id_code_def call_node_def new_node_def)
  have "data_type (call_node f) = type_code None" by (simp add: call_node_def new_node_def)
  from tree_parent [OF _ this c code_checked(7), of _ sb, unfolded child_addr_0, OF x]
  show ?case using n(3) by simp
next
  case 13
  then show ?case by simp
next
  case (14 a as)
  then obtain n where n: "finsh_type_check F (trees_of as) 0 = (n, [])" "finsh_compile F n = Some (concat (map (code_of F) as), [])" "siblings n = length as" by auto
  obtain x c where "finsh_type_check F (tree_of a (trees_of as)) 0 = (FNode x c n, [])" "compiled F x c (etype F a) (code_of F a)"
    using tree_okE [OF 14(2) n(1)] 14(3) by auto
  then show ?case using n compiled_node by auto
qed

end
