(* ===== verification/Rt_Finsh_Run.thy ===== *)
theory Rt_Finsh_Run
  imports Rt_Finsh_Expr
begin

text \<open>
  The code of a well typed expression computes its value: execution needs no more cells than \<open>depth\<close>, leaves what is below on the stack alone, and has the same effect on memory.
\<close>

section \<open>Values in cells\<close>

lemma cell_value_take: "width_bits w \<le> k \<Longrightarrow> cell_value w (take_bit k c) = cell_value w c"
  by (rule cell_value_eq) (simp add: min_def)

lemma mem_put_take: "width_bits w \<le> k \<Longrightarrow> mem_put w a (take_bit k v) m = mem_put w a v m"
proof -
  assume k: "width_bits w \<le> k"
  have "(ucast (drop_bit j (take_bit k v)) :: rt_uint8) = ucast (drop_bit j v)" if "j + 8 \<le> k" for j
    using that by (intro bit_word_eqI) (auto simp: bit_simps)
  from this [of 0] this [of 8] this [of 16] this [of 24] k show ?thesis by (cases w) (simp_all only: mem_put.simps width_bits.simps drop_bit_0, simp_all)
qed

lemma cell_word: "take_bit (width_bits w) (word_of_int (cell_value w c) :: rt_uint32) = take_bit (width_bits w) c"
proof (cases w)
  case Byte
  then show ?thesis by (simp, intro bit_word_eqI) (auto simp: bit_simps)
next
  case Word
  then show ?thesis by (simp, intro bit_word_eqI) (auto simp: bit_simps)
qed simp

lemma cell_one: "cell_value w 1 = 1"
  by (cases w) simp_all

lemma low_not: "low w (word_of_int (NOT (cell_value w c))) = low w (NOT c)"
proof -
  have "take_bit (width_bits w) (NOT (word_of_int (cell_value w c) :: rt_uint32)) = take_bit (width_bits w) (NOT c)"
    using cell_word [of w c] take_bit_not_take_bit [of "width_bits w"] by metis
  then show ?thesis by (simp add: low_def of_int_not_eq)
qed

lemma low_cong:
  fixes a b :: rt_uint32
  assumes n: "n \<le> 32" and "take_bit n a = take_bit n b"
  shows "take_bit n (a + 1) = take_bit n (b + 1)" and "take_bit n (a - 1) = take_bit n (b - 1)"
proof -
  have u: "take_bit n (uint a) = take_bit n (uint b)" using assms(2) by (metis unsigned_take_bit_eq)
  have "take_bit n (uint a + 1) = take_bit n (uint b + 1)" using u take_bit_add [of n "uint a" 1] take_bit_add [of n "uint b" 1] by simp
  then have "uint (take_bit n (a + 1)) = uint (take_bit n (b + 1))"
    using n by (simp add: unsigned_take_bit_eq uint_word_arith_bintrs min_def)
  then show "take_bit n (a + 1) = take_bit n (b + 1)" by (simp only: word_uint_eq_iff)
  have "take_bit n (uint a - 1) = take_bit n (uint b - 1)" using u take_bit_diff [of n "uint a" 1] take_bit_diff [of n "uint b" 1] by simp
  then have "uint (take_bit n (a - 1)) = uint (take_bit n (b - 1))"
    using n by (simp add: unsigned_take_bit_eq uint_word_arith_bintrs min_def)
  then show "take_bit n (a - 1) = take_bit n (b - 1)" by (simp only: word_uint_eq_iff)
qed

lemma low_count: "low w (word_of_int (cell_value w c + 1)) = low w (c + 1)" "low w (word_of_int (cell_value w c - 1)) = low w (c - 1)"
  using low_cong [OF _ cell_word [of w c]] by (simp_all add: low_def)

lemma low_low [simp]: "low w (low w v) = low w v"
  by (simp add: low_def)

lemma valid_ge: "etype F e = Some w \<Longrightarrow> width_bits w \<le> valid F e"
  by (auto simp: valid_def split: expr.split)

section \<open>Execution of expressions\<close>

fun depth :: "expr \<Rightarrow> nat" and depth_list :: "expr list \<Rightarrow> nat" where
  "depth (BinE f a b) = max (depth a) (1 + depth b)"
| "depth (NotE a) = depth a"
| "depth (AssignE r a) = 1 + depth a"
| "depth (PreE up i) = 3"
| "depth (PostE up i) = 4"
| "depth (GetE a) = depth a"
| "depth (PutE a b) = max (depth a) (1 + depth b)"
| "depth (CallE f as) = 1 + depth_list as"
| "depth e = 1"
| "depth_list [] = 0"
| "depth_list (a # as) = max (depth a) (1 + depth_list as)"

definition computes :: "finsh_vm \<Rightarrow> finsh_vm \<Rightarrow> nat \<Rightarrow> rt_uint32 \<Rightarrow> memory \<Rightarrow> bool" where
  "computes s s' k v m \<longleftrightarrow> finsh_sp s' = finsh_sp s + 1 \<and> (\<forall>i<finsh_sp s. finsh_vm_stack s' i = finsh_vm_stack s i)
     \<and> take_bit k (finsh_vm_stack s' (finsh_sp s)) = v \<and> vmem s' = m"

lemma computes_pushed:
  "k \<le> width_bits w \<Longrightarrow> computes s (pushed w r s) k (take_bit k (word_of_int r)) (vmem s)"
  by (simp add: computes_def low_set_cell)

text \<open>Counting a variable whose address is on the stack: the address stays on top.\<close>

lemma exec_step:
  assumes sp: "finsh_sp s = Suc j" "j + 3 \<le> FINSH_STACK_MAX" and a: "finsh_vm_stack s j = a" "access P w a"
  shows "\<exists>s'. runs P (step_code (if up then Add else Sub) w a) s s' \<and> finsh_sp s' = Suc j \<and> (\<forall>i\<le>j. finsh_vm_stack s' i = finsh_vm_stack s i)
    \<and> vmem s' = mem_put w a (counted up w (mem_get w a (vmem s))) (vmem s)"
proof -
  let ?v = "mem_get w a (vmem s)" and ?f = "if up then Add else Sub"
  let ?s1 = "pushed w (uint ?v) s"
  let ?s2 = "pushed w (uint (take_bit (width_bits w) (1 :: rt_uint32))) ?s1"
  have 1: "runs P (FINSH_OP_LD_VALUE w # FINSH_SET Dword a) s ?s1" using exec_ld_value [of s P w a] sp a(2) by simp
  have 2: "runs P (FINSH_OP_LD w # FINSH_SET w 1) ?s1 ?s2" using exec_ld [of ?s1 P w 1] sp by simp
  have v: "cell_value w (finsh_vm_stack ?s2 (Suc j)) = cell_value w ?v"
    by (rule cell_value_eq) (simp add: sp low_set_cell)
  have "cell_value w (finsh_vm_stack ?s2 (Suc (Suc j))) = cell_value w 1"
    by (rule cell_value_eq) (simp add: sp low_set_cell)
  then have one: "cell_value w (finsh_vm_stack ?s2 (Suc (Suc j))) = 1" by (simp add: cell_one)
  define r where "r = (if up then cell_value w ?v + 1 else cell_value w ?v - 1)"
  have r: "c_binop ?f (cell_value w (finsh_vm_stack ?s2 (Suc j))) (cell_value w (finsh_vm_stack ?s2 (Suc j + 1))) = Some r"
    using v one by (simp add: r_def)
  have lr: "low w (word_of_int r) = counted up w ?v" using low_count [of w ?v] by (simp add: r_def counted_def)
  let ?s3 = "?s2\<lparr>finsh_vm_stack := (finsh_vm_stack ?s2)(Suc j := set_cell w r (finsh_vm_stack ?s2 (Suc j))), finsh_sp := finsh_sp ?s2 - 1\<rparr>"
  have 3: "runs P [FINSH_OP_BIN ?f w] ?s2 ?s3" by (rule exec_bin [OF _ _ r]) (simp_all add: sp)
  let ?c = "finsh_vm_stack ?s3 (finsh_sp ?s3 - 1)"
  let ?s4 = "?s3\<lparr>vmem := mem_put w a ?c (vmem ?s3), finsh_sp := finsh_sp ?s3 - 1\<rparr>"
  have 4: "runs P [FINSH_OP_ST w] ?s3 ?s4" by (rule exec_st) (use a sp in simp_all)
  have "mem_put w a ?c (vmem s) = mem_put w a (take_bit (width_bits w) ?c) (vmem s)" by (simp only: mem_put_take order_refl)
  also have "take_bit (width_bits w) ?c = counted up w ?v" using lr by (simp add: sp low_set_cell low_def)
  finally have m: "vmem ?s4 = mem_put w a (counted up w ?v) (vmem s)" by (simp add: sp)
  have "runs P (step_code ?f w a) s ?s4"
    using exec_append [OF exec_append [OF 1 2] exec_append [OF 3 4]] by (simp add: step_code_def)
  moreover have "finsh_vm_stack ?s4 i = finsh_vm_stack s i" if "i \<le> j" for i using that by (simp add: sp)
  ultimately show ?thesis using m sp by (intro exI [of _ ?s4]) simp
qed

definition runs_ok :: "finsh \<Rightarrow> platform \<Rightarrow> expr \<Rightarrow> bool" where
  "runs_ok F P e \<longleftrightarrow> (\<forall>(s :: finsh_vm) v m. eval F P e (vmem s) = Some (v, m) \<longrightarrow> finsh_sp s + depth e \<le> FINSH_STACK_MAX \<longrightarrow>
     (\<exists>s'. runs P (code_of F e) s s' \<and> computes s s' (valid F e) v m))"

lemma runs_okE:
  assumes "runs_ok F P e" "eval F P e m0 = Some (v, m)" "finsh_sp s + depth e \<le> FINSH_STACK_MAX" "vmem s = m0"
  obtains s' where "runs P (code_of F e) s s'" "computes s s' (valid F e) v m"
  using assms unfolding runs_ok_def by blast

lemma bind_Some: "(x \<bind> f) = Some y \<Longrightarrow> \<exists>z. x = Some z \<and> f z = Some y"
  by (cases x) auto

lemma runs_list:
  assumes "\<forall>a\<in>set as. runs_ok F P a \<and> valid F a = 32" and "eval_list F P as (vmem s) = Some (vs, m)" and "finsh_sp s + depth_list as \<le> FINSH_STACK_MAX"
  shows "\<exists>s'. runs P (concat (map (code_of F) as)) s s' \<and> finsh_sp s' = finsh_sp s + length as
    \<and> (\<forall>i<finsh_sp s. finsh_vm_stack s' i = finsh_vm_stack s i) \<and> map (finsh_vm_stack s') [finsh_sp s..<finsh_sp s + length as] = vs \<and> vmem s' = m"
  using assms
proof (induction as arbitrary: s vs)
  case Nil
  then show ?case by (intro exI [of _ s]) simp
next
  case (Cons a as)
  obtain v m1 ws where e: "eval F P a (vmem s) = Some (v, m1)" "eval_list F P as m1 = Some (ws, m)" "vs = v # ws"
    using Cons.prems(2) by (auto dest!: bind_Some)
  have a: "runs_ok F P a" "valid F a = 32" "finsh_sp s + depth a \<le> FINSH_STACK_MAX" using Cons.prems(1,3) by auto
  then obtain s1 where s1: "runs P (code_of F a) s s1" "computes s s1 32 v m1" using runs_okE [OF a(1) e(1) a(3)] by metis
  have "eval_list F P as (vmem s1) = Some (ws, m)" "finsh_sp s1 + depth_list as \<le> FINSH_STACK_MAX"
    using s1(2) e(2) Cons.prems(3) by (simp_all add: computes_def)
  then obtain s2 where s2: "runs P (concat (map (code_of F) as)) s1 s2" "finsh_sp s2 = finsh_sp s1 + length as"
    "\<forall>i<finsh_sp s1. finsh_vm_stack s2 i = finsh_vm_stack s1 i" "map (finsh_vm_stack s2) [finsh_sp s1..<finsh_sp s1 + length as] = ws" "vmem s2 = m"
    using Cons.IH [of s1 ws] Cons.prems(1) by auto
  have "runs P (concat (map (code_of F) (a # as))) s s2" using exec_append [OF s1(1) s2(1)] by simp
  moreover have "[finsh_sp s..<finsh_sp s + length (a # as)] = finsh_sp s # [finsh_sp s1..<finsh_sp s1 + length as]"
    using s1(2) by (simp add: computes_def upt_conv_Cons del: upt_Suc)
  ultimately show ?case using s1(2) s2(2-5) e(3) by (intro exI [of _ s2]) (simp add: computes_def del: upt_Suc)
qed

lemma runs_ok_bin:
  assumes "runs_ok F P a" "runs_ok F P b" "etype F a = Some w" "width_bits w \<le> valid F b"
  shows "runs_ok F P (BinE f a b)"
  unfolding runs_ok_def
proof (intro allI impI)
  fix s :: finsh_vm and v m assume ev: "eval F P (BinE f a b) (vmem s) = Some (v, m)" and d: "finsh_sp s + depth (BinE f a b) \<le> FINSH_STACK_MAX"
  obtain x m1 y r where e: "eval F P a (vmem s) = Some (x, m1)" "eval F P b m1 = Some (y, m)"
    "c_binop f (cell_value w x) (cell_value w y) = Some r" "v = low w (word_of_int r)"
    using ev assms(3) by (auto dest!: bind_Some)
  have "finsh_sp s + depth a \<le> FINSH_STACK_MAX" using d by simp
  then obtain s1 where s1: "runs P (code_of F a) s s1" "computes s s1 (valid F a) x m1" using runs_okE [OF assms(1) e(1)] by blast
  have "finsh_sp s1 + depth b \<le> FINSH_STACK_MAX" "vmem s1 = m1" using s1(2) d by (simp_all add: computes_def)
  then obtain s2 where s2: "runs P (code_of F b) s1 s2" "computes s1 s2 (valid F b) y m" using runs_okE [OF assms(2) e(2)] by blast
  let ?j = "finsh_sp s"
  have c: "finsh_sp s2 = ?j + 2" "finsh_vm_stack s2 ?j = finsh_vm_stack s1 ?j" "vmem s2 = m" "\<forall>i<?j. finsh_vm_stack s2 i = finsh_vm_stack s i"
    using s1(2) s2(2) by (simp_all add: computes_def)
  have "cell_value w (finsh_vm_stack s2 ?j) = cell_value w x"
    using s1(2) c(2) cell_value_take [OF valid_ge [OF assms(3)]] by (auto simp: computes_def)
  moreover have "cell_value w (finsh_vm_stack s2 (?j + 1)) = cell_value w y"
    using s1(2) s2(2) cell_value_take [OF assms(4)] by (auto simp: computes_def)
  ultimately have r: "c_binop f (cell_value w (finsh_vm_stack s2 ?j)) (cell_value w (finsh_vm_stack s2 (?j + 1))) = Some r" using e(3) by simp
  let ?s3 = "s2\<lparr>finsh_vm_stack := (finsh_vm_stack s2)(?j := set_cell w r (finsh_vm_stack s2 ?j)), finsh_sp := finsh_sp s2 - 1\<rparr>"
  have "runs P [FINSH_OP_BIN f w] s2 ?s3" by (rule exec_bin [OF _ _ r]) (simp_all add: c)
  then have "runs P (code_of F (BinE f a b)) s ?s3" using exec_append [OF exec_append [OF s1(1) s2(1)]] assms(3) by simp
  moreover have "computes s ?s3 (valid F (BinE f a b)) v m"
    using c e(4) assms(3) by (simp add: computes_def valid_def low_def low_set_cell)
  ultimately show "\<exists>s'. runs P (code_of F (BinE f a b)) s s' \<and> computes s s' (valid F (BinE f a b)) v m" by blast
qed

lemma runs_ok_not:
  assumes "runs_ok F P a" "etype F a = Some w"
  shows "runs_ok F P (NotE a)"
  unfolding runs_ok_def
proof (intro allI impI)
  fix s :: finsh_vm and v m assume ev: "eval F P (NotE a) (vmem s) = Some (v, m)" and d: "finsh_sp s + depth (NotE a) \<le> FINSH_STACK_MAX"
  obtain x where e: "eval F P a (vmem s) = Some (x, m)" "v = low w (NOT x)" using ev assms(2) by (auto dest!: bind_Some)
  have "finsh_sp s + depth a \<le> FINSH_STACK_MAX" using d by simp
  then obtain s1 where s1: "runs P (code_of F a) s s1" "computes s s1 (valid F a) x m" using runs_okE [OF assms(1) e(1)] by blast
  let ?j = "finsh_sp s" and ?c = "finsh_vm_stack s1 (finsh_sp s)"
  have x: "x = take_bit (valid F a) ?c" using s1(2) by (simp add: computes_def)
  have "cell_value w ?c = cell_value w x" using cell_value_take [OF valid_ge [OF assms(2)], of ?c] x by simp
  then have v: "low w (word_of_int (NOT (cell_value w ?c))) = v" using low_not [of w x] e(2) by simp
  let ?s2 = "s1\<lparr>finsh_vm_stack := (finsh_vm_stack s1)(?j := set_cell w (NOT (cell_value w ?c)) ?c)\<rparr>"
  have "runs P [FINSH_OP_BITWISE w] s1 ?s2" by (rule exec_bw) (use s1(2) in \<open>simp_all add: computes_def\<close>)
  then have "runs P (code_of F (NotE a)) s ?s2" using exec_append [OF s1(1)] assms(2) by simp
  moreover have "computes s ?s2 (valid F (NotE a)) v m" using s1(2) v assms(2) by (simp add: computes_def valid_def low_def low_set_cell)
  ultimately show "\<exists>s'. runs P (code_of F (NotE a)) s s' \<and> computes s s' (valid F (NotE a)) v m" by blast
qed

text \<open>The leaves, and the other operations.\<close>

lemma runs_okI:
  assumes "\<And>s :: finsh_vm. \<And>v m. eval F P e (vmem s) = Some (v, m) \<Longrightarrow> finsh_sp s + depth e \<le> FINSH_STACK_MAX
    \<Longrightarrow> \<exists>s'. runs P (code_of F e) s s' \<and> computes s s' (valid F e) v m"
  shows "runs_ok F P e"
  using assms unfolding runs_ok_def by blast

lemma runs_ok_leaf:
  "runs_ok F P (IntE c)" "runs_ok F P (CharE d)" "runs_ok F P (AddrE r)"
proof -
  show "runs_ok F P (IntE c)"
  proof (rule runs_okI)
    fix s :: finsh_vm and v m assume "eval F P (IntE c) (vmem s) = Some (v, m)" "finsh_sp s + depth (IntE c) \<le> FINSH_STACK_MAX"
    then show "\<exists>s'. runs P (code_of F (IntE c)) s s' \<and> computes s s' (valid F (IntE c)) v m"
      using exec_ld [of s P Dword c] computes_pushed [of 32 Dword s "uint c"] by (auto simp: valid_def)
  qed
  show "runs_ok F P (CharE d)"
  proof (rule runs_okI)
    fix s :: finsh_vm and v m assume "eval F P (CharE d) (vmem s) = Some (v, m)" "finsh_sp s + depth (CharE d) \<le> FINSH_STACK_MAX"
    moreover have "take_bit 8 (ucast d :: rt_uint32) = ucast d" by (rule bit_word_eqI) (auto simp: bit_simps dest: bit_imp_le_length)
    ultimately show "\<exists>s'. runs P (code_of F (CharE d)) s s' \<and> computes s s' (valid F (CharE d)) v m"
      using exec_ld [of s P Byte "ucast d"] computes_pushed [of 8 Byte s "uint (ucast d :: rt_uint32)"]
      by (simp add: valid_def) (blast)
  qed
  show "runs_ok F P (AddrE r)"
  proof (rule runs_okI)
    fix s :: finsh_vm and v m assume "eval F P (AddrE r) (vmem s) = Some (v, m)" "finsh_sp s + depth (AddrE r) \<le> FINSH_STACK_MAX"
    then show "\<exists>s'. runs P (code_of F (AddrE r)) s s' \<and> computes s s' (valid F (AddrE r)) v m"
      using exec_ld [of s P Dword "ref_addr F r"] computes_pushed [of 32 Dword s "uint (ref_addr F r)"] by (auto simp: valid_def)
  qed
qed

lemma mem_get_take: "take_bit (width_bits w) (mem_get w a m) = mem_get w a m"
  using mem_get_low [of w a m] by (metis take_bit_take_bit min.idem)

lemma runs_ok_var:
  assumes "load_width (ref_type F r) = Some w"
  shows "runs_ok F P (VarE r)"
proof (rule runs_okI)
  fix s :: finsh_vm and v m
  let ?a = "ref_addr F r"
  assume "eval F P (VarE r) (vmem s) = Some (v, m)" "finsh_sp s + depth (VarE r) \<le> FINSH_STACK_MAX"
  then have "access P w ?a" "v = mem_get w ?a (vmem s)" "m = vmem s" "finsh_sp s < FINSH_STACK_MAX"
    using assms by (auto split: if_splits)
  then show "\<exists>s'. runs P (code_of F (VarE r)) s s' \<and> computes s s' (valid F (VarE r)) v m"
    using exec_ld_value [of s P w ?a] computes_pushed [of "width_bits w" w s "uint v"] assms mem_get_take [of w ?a m]
    by (intro exI [of _ "pushed w (uint v) s"]) (simp add: valid_def)
qed

lemma exec_deref:
  assumes "finsh_sp s = Suc j" "finsh_vm_stack s j = a" "access P Dword a"
  shows "runs P [FINSH_OP_LD_VALUE_STACK Dword] s (s\<lparr>finsh_vm_stack := (finsh_vm_stack s)(j := mem_get Dword a (vmem s))\<rparr>)"
proof -
  have "1 \<le> finsh_sp s" "j = finsh_sp s - 1" "access P Dword (finsh_vm_stack s j)" using assms by simp_all
  from exec_ldvs [OF this] show ?thesis unfolding set_cell_Dword word_of_int_uint assms(2) .
qed

text \<open>A store and the load of the stored value, with the address below the value.\<close>

lemma exec_store:
  assumes s: "finsh_sp s = j + 2" "finsh_vm_stack s j = a" "access P w a"
  shows "\<exists>s'. runs P [FINSH_OP_ST w, FINSH_OP_LD_VALUE_STACK w] s s' \<and> finsh_sp s' = j + 1
    \<and> (\<forall>i<j. finsh_vm_stack s' i = finsh_vm_stack s i) \<and> take_bit (width_bits w) (finsh_vm_stack s' j) = low w (finsh_vm_stack s (j + 1))
    \<and> vmem s' = mem_put w a (finsh_vm_stack s (j + 1)) (vmem s)"
proof -
  let ?v = "finsh_vm_stack s (j + 1)"
  let ?s1 = "s\<lparr>vmem := mem_put w a ?v (vmem s), finsh_sp := j + 1\<rparr>"
  have 1: "runs P [FINSH_OP_ST w] s ?s1" using exec_st [of s a P w] s by simp
  let ?s2 = "?s1\<lparr>finsh_vm_stack := (finsh_vm_stack s)(j := set_cell w (uint (mem_get w a (vmem ?s1))) a)\<rparr>"
  have 2: "runs P [FINSH_OP_LD_VALUE_STACK w] ?s1 ?s2" using exec_ldvs [of ?s1 j P w] s by simp
  have "runs P [FINSH_OP_ST w, FINSH_OP_LD_VALUE_STACK w] s ?s2" using exec_append [OF 1 2] by simp
  then show ?thesis by (intro exI [of _ ?s2]) (simp add: low_set_cell mem_get_put low_def)
qed

lemma runs_ok_assign:
  assumes "runs_ok F P a" "load_width (ref_type F r) = Some w" "width_bits w \<le> valid F a"
  shows "runs_ok F P (AssignE r a)"
proof (rule runs_okI)
  fix s :: finsh_vm and v m assume ev: "eval F P (AssignE r a) (vmem s) = Some (v, m)" and d: "finsh_sp s + depth (AssignE r a) \<le> FINSH_STACK_MAX"
  let ?d = "ref_addr F r" and ?j = "finsh_sp s"
  obtain x m1 where e: "eval F P a (vmem s) = Some (x, m1)" "access P w ?d" "v = low w x" "m = mem_put w ?d x m1"
    using ev assms(2) by (auto dest!: bind_Some split: if_splits)
  let ?s1 = "pushed Dword (uint ?d) s"
  have 1: "runs P (FINSH_OP_LD Dword # FINSH_SET Dword ?d) s ?s1" using exec_ld [of s P Dword ?d] d by simp
  have "finsh_sp ?s1 + depth a \<le> FINSH_STACK_MAX" "eval F P a (vmem ?s1) = Some (x, m1)" using d e(1) by simp_all
  then obtain s2 where s2: "runs P (code_of F a) ?s1 s2" "computes ?s1 s2 (valid F a) x m1" using runs_okE [OF assms(1)] by blast
  have c: "finsh_sp s2 = ?j + 2" "finsh_vm_stack s2 ?j = ?d" "\<forall>i<?j. finsh_vm_stack s2 i = finsh_vm_stack s i" "vmem s2 = m1"
    "take_bit (valid F a) (finsh_vm_stack s2 (?j + 1)) = x" using s2(2) by (simp_all add: computes_def)
  obtain s3 where s3: "runs P [FINSH_OP_ST w, FINSH_OP_LD_VALUE_STACK w] s2 s3" "finsh_sp s3 = ?j + 1" "\<forall>i<?j. finsh_vm_stack s3 i = finsh_vm_stack s2 i"
    "take_bit (width_bits w) (finsh_vm_stack s3 ?j) = low w (finsh_vm_stack s2 (?j + 1))" "vmem s3 = mem_put w ?d (finsh_vm_stack s2 (?j + 1)) (vmem s2)"
    using exec_store [OF c(1,2) e(2)] by blast
  have "low w (finsh_vm_stack s2 (?j + 1)) = v" using e(3) c(5) assms(3) by (auto simp: low_def min_def)
  moreover have "mem_put w ?d (finsh_vm_stack s2 (?j + 1)) (vmem s2) = m" using mem_put_take [OF assms(3)] c(4,5) e(4) by metis
  ultimately have "computes s s3 (valid F (AssignE r a)) v m" using s3(2-5) c(3) assms(2) by (simp add: computes_def valid_def)
  moreover have "runs P (code_of F (AssignE r a)) s s3" using exec_append [OF 1 exec_append [OF s2(1) s3(1)]] assms(2) by (simp add: Let_def)
  ultimately show "\<exists>s'. runs P (code_of F (AssignE r a)) s s' \<and> computes s s' (valid F (AssignE r a)) v m" by blast
qed

lemma runs_ok_pre:
  assumes w: "load_width (ref_type F (Local i)) = Some w"
  shows "runs_ok F P (PreE up i)"
proof (rule runs_okI)
  fix s :: finsh_vm and v m assume ev: "eval F P (PreE up i) (vmem s) = Some (v, m)" and d: "finsh_sp s + depth (PreE up i) \<le> FINSH_STACK_MAX"
  let ?a = "var_value F i" and ?j = "finsh_sp s" and ?c = "step_code (if up then Add else Sub) w (var_value F i)"
  have e: "access P w ?a" "access P Dword ?a" "v = counted up w (mem_get w ?a (vmem s))" "m = mem_put w ?a v (vmem s)"
    using ev w by (auto simp: Let_def split: if_splits)
  let ?s1 = "pushed Dword (uint ?a) s"
  have 1: "runs P (FINSH_OP_LD Dword # FINSH_SET Dword ?a) s ?s1" using exec_ld [of s P Dword ?a] d by simp
  have "finsh_sp ?s1 = Suc ?j" "?j + 3 \<le> FINSH_STACK_MAX" "finsh_vm_stack ?s1 ?j = ?a" using d by simp_all
  then obtain s2 where s2: "runs P ?c ?s1 s2" "finsh_sp s2 = Suc ?j" "\<forall>i\<le>?j. finsh_vm_stack s2 i = finsh_vm_stack ?s1 i"
    "vmem s2 = mem_put w ?a (counted up w (mem_get w ?a (vmem ?s1))) (vmem ?s1)" using exec_step [OF _ _ _ e(1), of ?s1 ?j up] by blast
  let ?s3 = "s2\<lparr>finsh_vm_stack := (finsh_vm_stack s2)(?j := mem_get Dword ?a (vmem s2))\<rparr>"
  have 3: "runs P [FINSH_OP_LD_VALUE_STACK Dword] s2 ?s3" 
    by (rule exec_deref [OF s2(2) _ e(2)]) (use s2(3) in simp)
  have m: "vmem s2 = m" using s2(4) e(3,4) by simp
  have "mem_get w ?a m = v" using e(3,4) mem_get_put [of w ?a v] low_low by (simp add: counted_def low_def)
  then have "computes s ?s3 (valid F (PreE up i)) v m" using s2(2,3) m w mem_get_low [of w ?a m] by (simp add: computes_def valid_def)
  moreover have "runs P (code_of F (PreE up i)) s ?s3" using exec_append [OF 1 exec_append [OF s2(1) 3]] w by (simp add: Let_def)
  ultimately show "\<exists>s'. runs P (code_of F (PreE up i)) s s' \<and> computes s s' (valid F (PreE up i)) v m" by blast
qed

lemma runs_ok_post:
  assumes w: "load_width (ref_type F (Local i)) = Some w"
  shows "runs_ok F P (PostE up i)"
proof (rule runs_okI)
  fix s :: finsh_vm and v m assume ev: "eval F P (PostE up i) (vmem s) = Some (v, m)" and d: "finsh_sp s + depth (PostE up i) \<le> FINSH_STACK_MAX"
  let ?a = "var_value F i" and ?j = "finsh_sp s" and ?c = "step_code (if up then Add else Sub) w (var_value F i)"
  have e: "access P w ?a" "v = mem_get w ?a (vmem s)" "m = mem_put w ?a (counted up w v) (vmem s)"
    using ev w by (auto simp: Let_def split: if_splits)
  let ?s1 = "pushed w (uint v) s"
  let ?s2 = "pushed Dword (uint ?a) ?s1"
  have 1: "runs P (FINSH_OP_LD_VALUE w # FINSH_SET Dword ?a) s ?s1" using exec_ld_value [of s P w ?a] d e(1,2) by simp
  have 2: "runs P (FINSH_OP_LD Dword # FINSH_SET Dword ?a) ?s1 ?s2" using exec_ld [of ?s1 P Dword ?a] d by simp
  have "finsh_sp ?s2 = Suc (Suc ?j)" "Suc ?j + 3 \<le> FINSH_STACK_MAX" "finsh_vm_stack ?s2 (Suc ?j) = ?a" using d by simp_all
  then obtain s3 where s3: "runs P ?c ?s2 s3" "finsh_sp s3 = Suc (Suc ?j)" "\<forall>i\<le>Suc ?j. finsh_vm_stack s3 i = finsh_vm_stack ?s2 i"
    "vmem s3 = mem_put w ?a (counted up w (mem_get w ?a (vmem ?s2))) (vmem ?s2)" using exec_step [OF _ _ _ e(1), of ?s2 "Suc ?j" up] by blast
  let ?s4 = "s3\<lparr>finsh_sp := Suc ?j\<rparr>"
  have 4: "runs P [FINSH_OP_POP] s3 ?s4" using exec_pop [of s3] s3(2) by simp
  have "take_bit (width_bits w) v = v" using e(2) mem_get_take by simp
  then have "computes s ?s4 (valid F (PostE up i)) v m" using s3(3,4) e(2,3) w by (simp add: computes_def valid_def low_set_cell)
  moreover have "runs P (code_of F (PostE up i)) s ?s4" using exec_append [OF exec_append [OF 1 2] exec_append [OF s3(1) 4]] w by (simp add: Let_def)
  ultimately show "\<exists>s'. runs P (code_of F (PostE up i)) s s' \<and> computes s s' (valid F (PostE up i)) v m" by blast
qed

lemma runs_ok_get:
  assumes "runs_ok F P a" "etype F a = Some Dword"
  shows "runs_ok F P (GetE a)"
proof (rule runs_okI)
  fix s :: finsh_vm and v m assume ev: "eval F P (GetE a) (vmem s) = Some (v, m)" and d: "finsh_sp s + depth (GetE a) \<le> FINSH_STACK_MAX"
  obtain x where e: "eval F P a (vmem s) = Some (x, m)" "access P Dword x" "v = mem_get Dword x m"
    using ev by (auto dest!: bind_Some split: if_splits)
  have v: "valid F a = 32" "valid F (GetE a) = 32" using assms(2) by (auto simp: valid_def split: expr.split)
  have "finsh_sp s + depth a \<le> FINSH_STACK_MAX" using d by simp
  then obtain s1 where s1: "runs P (code_of F a) s s1" "computes s s1 32 x m" using runs_okE [OF assms(1) e(1)] v(1) by metis
  let ?s2 = "s1\<lparr>finsh_vm_stack := (finsh_vm_stack s1)(finsh_sp s := v)\<rparr>"
  have "runs P [FINSH_OP_LD_VALUE_STACK Dword] s1 ?s2"
    using exec_deref [OF _ _ e(2), of s1 "finsh_sp s"] s1(2) e(3) by (simp add: computes_def del: mem_get.simps)
  then have "runs P (code_of F (GetE a)) s ?s2" using exec_append [OF s1(1)] by simp
  moreover have "computes s ?s2 32 v m" using s1(2) by (simp add: computes_def)
  ultimately show "\<exists>s'. runs P (code_of F (GetE a)) s s' \<and> computes s s' (valid F (GetE a)) v m" using v(2) by metis
qed

lemma runs_ok_put:
  assumes "runs_ok F P a" "runs_ok F P b" "etype F a = Some Dword" "valid F b = 32"
  shows "runs_ok F P (PutE a b)"
proof (rule runs_okI)
  fix s :: finsh_vm and v m assume ev: "eval F P (PutE a b) (vmem s) = Some (v, m)" and d: "finsh_sp s + depth (PutE a b) \<le> FINSH_STACK_MAX"
  let ?j = "finsh_sp s"
  obtain x m1 m2 where e: "eval F P a (vmem s) = Some (x, m1)" "eval F P b m1 = Some (v, m2)" "access P Dword x" "m = mem_put Dword x v m2"
    using ev by (auto dest!: bind_Some split: if_splits)
  have va: "valid F a = 32" "valid F (PutE a b) = 32" using assms(3) by (auto simp: valid_def split: expr.split)
  have "?j + depth a \<le> FINSH_STACK_MAX" using d by simp
  then obtain s1 where s1: "runs P (code_of F a) s s1" "computes s s1 32 x m1" using runs_okE [OF assms(1) e(1)] va(1) by metis
  have "finsh_sp s1 + depth b \<le> FINSH_STACK_MAX" "vmem s1 = m1" using s1(2) d by (simp_all add: computes_def)
  then obtain s2 where s2: "runs P (code_of F b) s1 s2" "computes s1 s2 32 v m2" using runs_okE [OF assms(2) e(2)] assms(4) by metis
  have c: "finsh_sp s2 = ?j + 2" "finsh_vm_stack s2 ?j = x" "\<forall>i<?j. finsh_vm_stack s2 i = finsh_vm_stack s i" "vmem s2 = m2"
    "finsh_vm_stack s2 (?j + 1) = v" using s1(2) s2(2) by (simp_all add: computes_def)
  obtain s3 where s3: "runs P [FINSH_OP_ST Dword, FINSH_OP_LD_VALUE_STACK Dword] s2 s3" "finsh_sp s3 = ?j + 1" "\<forall>i<?j. finsh_vm_stack s3 i = finsh_vm_stack s2 i"
    "take_bit (width_bits Dword) (finsh_vm_stack s3 ?j) = low Dword (finsh_vm_stack s2 (?j + 1))" "vmem s3 = mem_put Dword x (finsh_vm_stack s2 (?j + 1)) (vmem s2)"
    using exec_store [OF c(1,2) e(3)] by blast
  have "computes s s3 32 v m" using s3(2-5) c(3-5) e(4) by (simp add: computes_def low_def)
  moreover have "runs P (code_of F (PutE a b)) s s3" using exec_append [OF exec_append [OF s1(1) s2(1)] s3(1)] by simp
  ultimately show "\<exists>s'. runs P (code_of F (PutE a b)) s s' \<and> computes s s' (valid F (PutE a b)) v m" using va(2) by metis
qed

lemma runs_ok_call:
  assumes "\<forall>a\<in>set as. runs_ok F P a \<and> valid F a = 32" "length as \<le> 16"
  shows "runs_ok F P (CallE f as)"
proof (rule runs_okI)
  fix s :: finsh_vm and v m assume ev: "eval F P (CallE f as) (vmem s) = Some (v, m)" and d: "finsh_sp s + depth (CallE f as) \<le> FINSH_STACK_MAX"
  let ?j = "finsh_sp s" and ?n = "of_nat (length as) :: rt_uint8"
  obtain vs m1 where e: "eval_list F P as (vmem s) = Some (vs, m1)" "call_fn P (sc_func f) (if vs = [] then [0] else vs) m1 = Some (v, m)"
    using ev by (auto dest!: bind_Some)
  let ?s1 = "pushed Dword (uint (sc_func f)) s"
  have 1: "runs P (FINSH_OP_LD Dword # FINSH_SET Dword (sc_func f)) s ?s1" using exec_ld [of s P Dword "sc_func f"] d by simp
  have l: "eval_list F P as (vmem ?s1) = Some (vs, m1)" "finsh_sp ?s1 + depth_list as \<le> FINSH_STACK_MAX" using e(1) d by simp_all
  obtain s2 where s2: "runs P (concat (map (code_of F) as)) ?s1 s2" "finsh_sp s2 = finsh_sp ?s1 + length as" "\<forall>i<finsh_sp ?s1. finsh_vm_stack s2 i = finsh_vm_stack ?s1 i"
    "map (finsh_vm_stack s2) [finsh_sp ?s1..<finsh_sp ?s1 + length as] = vs" "vmem s2 = m1"
    using runs_list [OF assms(1) l] by blast
  have n: "unat ?n = length as" using assms(2) by (simp add: unat_of_nat)
  have len: "length vs = length as" using s2(4) by (metis length_map length_upt add_diff_cancel_left')
  have z: "vs = [] \<longleftrightarrow> ?n = 0" using n len by (metis length_0_conv unat_eq_zero)
  have fn: "finsh_vm_stack s2 ?j = sc_func f" using s2(3) by simp
  have args: "map (finsh_vm_stack s2) [?j + 1..<?j + 1 + unat ?n] = vs" using s2(4) n by (simp del: upt_Suc)
  have call: "call_fn P (finsh_vm_stack s2 ?j) (if ?n = 0 then [0] else map (finsh_vm_stack s2) [?j + 1..<?j + 1 + unat ?n]) (vmem s2) = Some (v, m)"
    unfolding fn args s2(5) using e(2) z by simp
  let ?s3 = "s2\<lparr>vmem := m, finsh_vm_stack := (finsh_vm_stack s2)(?j := v), finsh_sp := ?j + 1\<rparr>"
  have 3: "runs P [FINSH_OP_SYSCALL, ?n] s2 ?s3" by (rule exec_call [OF _ _ call]) (use n s2(2) assms(2) in simp_all)
  have "runs P (code_of F (CallE f as)) s ?s3" using exec_append [OF 1 exec_append [OF s2(1) 3]] by simp
  moreover have "computes s ?s3 (valid F (CallE f as)) v m" using s2(3) by (simp add: computes_def valid_def)
  ultimately show "\<exists>s'. runs P (code_of F (CallE f as)) s s' \<and> computes s s' (valid F (CallE f as)) v m" by blast
qed

lemma well_typed_runs: "well_typed F e \<Longrightarrow> runs_ok F P e"
proof (induction e)
  case (BinE f a b)
  then show ?case using runs_ok_bin by (auto split: option.splits)
next
  case (CallE f as)
  then show ?case using runs_ok_call by auto
qed (auto intro: runs_ok_leaf runs_ok_var runs_ok_not runs_ok_assign runs_ok_pre runs_ok_post runs_ok_get runs_ok_put split: option.splits)

section \<open>Lines\<close>

fun line_code :: "finsh \<Rightarrow> expr list \<Rightarrow> rt_uint8 list" where
  "line_code F [] = []"
| "line_code F [e] = code_of F e"
| "line_code F (e # es) = code_of F e @ FINSH_OP_POP # line_code F es"

fun eval_line :: "finsh \<Rightarrow> platform \<Rightarrow> expr list \<Rightarrow> memory \<Rightarrow> (rt_uint32 \<times> memory) option" where
  "eval_line F P [] m = None"
| "eval_line F P [e] m = eval F P e m"
| "eval_line F P (e # es) m = do { (v, m1) \<leftarrow> eval F P e m; eval_line F P es m1 }"

lemma line_compiled:
  assumes "\<forall>e\<in>set es. well_typed F e"
  shows "\<exists>n. finsh_type_check F (trees_of es) 0 = (n, []) \<and> compile_statements F n = Some (line_code F es, []) \<and> (n = NullNode \<longleftrightarrow> es = [])"
  using assms
proof (induction F es rule: line_code.induct)
  case (2 F e)
  then show ?case using tree_ok_last [OF tree_checked(1) [of F e NullNode]] compiled_last by fastforce
next
  case (3 F e e' es)
  then obtain n where n: "finsh_type_check F (trees_of (e' # es)) 0 = (n, [])" "compile_statements F n = Some (line_code F (e' # es), [])" "n \<noteq> NullNode" by auto
  have "tree_ok F (tree_of e (trees_of (e' # es))) 0 (trees_of (e' # es)) (etype F e) (code_of F e)" using tree_checked(1) 3(2) by simp
  then obtain x ch where x: "finsh_type_check F (trees_of (e # e' # es)) 0 = (FNode x ch n, [])" "compiled F x ch (etype F e) (code_of F e)"
    using tree_okE [OF _ n(1)] by (metis trees_of.simps(2))
  have "compile_statements F (FNode x ch n) = Some (code_of F e @ [FINSH_OP_POP] @ line_code F (e' # es), [])"
    using compiled_last [OF x(2)] n(2,3) by simp
  then show ?case using x(1) by simp
qed simp

lemma line_runs:
  assumes "\<forall>e\<in>set es. well_typed F e \<and> depth e \<le> FINSH_STACK_MAX" "eval_line F P es (vmem s) = Some (v, m)" "finsh_sp s = 0"
  shows "\<exists>s'. runs P (line_code F es) s s' \<and> computes s s' (valid F (last es)) v m"
  using assms
proof (induction F es arbitrary: s rule: line_code.induct)
  case (2 F e)
  then have "runs_ok F P e" "eval F P e (vmem s) = Some (v, m)" "finsh_sp s + depth e \<le> FINSH_STACK_MAX" using well_typed_runs by simp_all
  then show ?case unfolding runs_ok_def by simp
next
  case (3 F e e' es)
  obtain x m1 where e: "eval F P e (vmem s) = Some (x, m1)" "eval_line F P (e' # es) m1 = Some (v, m)"
    using 3(3) by (auto dest!: bind_Some)
  have w: "runs_ok F P e" "finsh_sp s + depth e \<le> FINSH_STACK_MAX" using 3(2,4) well_typed_runs by simp_all
  obtain s1 where s1: "runs P (code_of F e) s s1" "computes s s1 (valid F e) x m1" using runs_okE [OF w(1) e(1) w(2)] by blast
  let ?s2 = "s1\<lparr>finsh_sp := 0\<rparr>"
  have 2: "runs P [FINSH_OP_POP] s1 ?s2" using exec_pop [of s1] s1(2) 3(4) by (simp add: computes_def)
  have "eval_line F P (e' # es) (vmem ?s2) = Some (v, m)" using e(2) s1(2) by (simp add: computes_def)
  then obtain s3 where s3: "runs P (line_code F (e' # es)) ?s2 s3" "computes ?s2 s3 (valid F (last (e' # es))) v m"
    using 3(1) [of ?s2] 3(2) by auto
  have "runs P (line_code F (e # e' # es)) s s3" using exec_append [OF s1(1) exec_append [OF 2 s3(1)]] by simp
  moreover have "computes s s3 (valid F (last (e # e' # es))) v m" using s3(2) 3(4) by (simp add: computes_def)
  ultimately show ?case by blast
qed simp

text \<open>What follows the code in the text are zeros, which do nothing.\<close>

lemma exec_zeros: "runs P (replicate k 0) s s"
proof (induction k)
  case (Suc k)
  have "runs P [0] s s" by (rule exec_instr [of 0 OP_no_op]) (simp_all add: op_table_def OP_no_op_def)
  from exec_append [OF this Suc] show ?case by simp
qed simp

lemma exec_run:
  assumes "runs P c (s\<lparr>finsh_sp := 0, finsh_pc := 0\<rparr>) s'" "length c = FINSH_TEXT_MAX"
  shows "finsh_vm_run P c s = Some (s'\<lparr>finsh_pc := FINSH_TEXT_MAX\<rparr>)"
proof -
  have "vm_loop P c (s\<lparr>finsh_sp := 0, finsh_pc := 0\<rparr>) = vm_loop P c (s'\<lparr>finsh_pc := FINSH_TEXT_MAX\<rparr>)"
    using assms(1) [unfolded runs_def, rule_format, of "[]" "[]"] assms(2) by simp
  also have "\<dots> = Some (s'\<lparr>finsh_pc := FINSH_TEXT_MAX\<rparr>)" using assms(2) by (subst vm_loop.simps) simp
  finally show ?thesis using assms(2) by (simp add: finsh_vm_run_def)
qed

lemma line_correct:
  assumes "\<forall>e\<in>set es. well_typed F e \<and> depth e \<le> FINSH_STACK_MAX" "length (line_code F es) \<le> FINSH_TEXT_MAX"
    and "eval_line F P es (vmem s) = Some (v, m)"
  shows "\<exists>seg s1 s2. finsh_compiler_run F (trees_of es) s = Some (seg, [], s1) \<and> finsh_vm_run P seg s1 = Some s2
    \<and> take_bit (valid F (last es)) (finsh_stack_bottom s2) = v \<and> finsh_sp s2 = 1 \<and> vmem s2 = m"
proof -
  let ?c = "line_code F es" and ?s1 = "s\<lparr>finsh_vm_stack := (finsh_vm_stack s)(0 := 0)\<rparr>"
  let ?seg = "?c @ replicate (FINSH_TEXT_MAX - length ?c) 0" and ?s0 = "?s1\<lparr>finsh_sp := 0, finsh_pc := 0\<rparr>"
  have 1: "finsh_compiler_run F (trees_of es) s = Some (?seg, [], ?s1)"
    using line_compiled [of es F] assms(1,2) by (auto simp: finsh_compiler_run_def)
  obtain s2 where s2: "runs P ?c ?s0 s2" "computes ?s0 s2 (valid F (last es)) v m"
    using line_runs [OF assms(1), of P ?s0 v m] assms(3) by auto
  have "finsh_vm_run P ?seg ?s1 = Some (s2\<lparr>finsh_pc := FINSH_TEXT_MAX\<rparr>)"
    by (rule exec_run [OF exec_append [OF s2(1) exec_zeros]]) (use assms(2) in simp)
  then show ?thesis using 1 s2(2) by (simp add: computes_def finsh_stack_bottom_def)
qed

end
