(* ===== verification/Rt_Finsh_Widths.thy ===== *)
theory Rt_Finsh_Widths
  imports Rt_Finsh_Run
begin

text \<open>
  Two expressions outside of \<open>well_typed\<close>, which the compiler accepts without an error: an operation on the result of a call, and an operation on a long value and a shorter one.
\<close>

text \<open>A call has no type, so the compiler writes no code for an operation on it. The value of the line is that of the call, and the other operand is left on the stack.\<close>

lemma line_one_tree:
  assumes "tree_ok F n 0 NullNode t c" "length c \<le> FINSH_TEXT_MAX"
  shows "finsh_compiler_run F n s = Some (c @ replicate (FINSH_TEXT_MAX - length c) 0, [], s\<lparr>finsh_vm_stack := (finsh_vm_stack s)(0 := 0)\<rparr>)"
proof -
  obtain x ch where "finsh_type_check F n 0 = (FNode x ch NullNode, [])" "compiled F x ch t c" using tree_ok_last [OF assms(1)] by blast
  then show ?thesis using compiled_last assms(2) by (auto simp: finsh_compiler_run_def)
qed

lemma call_operand:
  assumes "well_typed F (CallE g as)" "well_typed F b" "depth (CallE g as) \<le> FINSH_STACK_MAX" "depth b + 1 \<le> FINSH_STACK_MAX"
    and len: "length (code_of F (CallE g as) @ code_of F b) \<le> FINSH_TEXT_MAX"
    and "eval F P (CallE g as) (vmem s) = Some (v, m1)" "eval F P b m1 = Some (y, m)"
  shows "\<exists>seg s1 s2. finsh_compiler_run F (tree_of (BinE f (CallE g as) b) NullNode) s = Some (seg, [], s1) \<and> finsh_vm_run P seg s1 = Some s2
    \<and> finsh_stack_bottom s2 = v \<and> finsh_sp s2 = 2 \<and> vmem s2 = m"
proof -
  let ?a = "CallE g as" and ?c = "code_of F (CallE g as) @ code_of F b" and ?s1 = "s\<lparr>finsh_vm_stack := (finsh_vm_stack s)(0 := 0)\<rparr>"
  let ?s0 = "?s1\<lparr>finsh_sp := 0, finsh_pc := 0\<rparr>" and ?seg = "?c @ replicate (FINSH_TEXT_MAX - length ?c) 0"
  have t: "tree_ok F (tree_of b NullNode) 0 NullNode (etype F b) (code_of F b)" "tree_ok F (tree_of ?a (tree_of b NullNode)) 0 (tree_of b NullNode) None (code_of F ?a)"
    using tree_checked(1) [OF assms(2)] tree_checked(1) [OF assms(1)] by simp_all
  have "node_code F (checked (binop_node f) 0 (type_code None)) ch = Some ([], [])" for ch by (cases f) (simp_all add: node_code_def checked_def data_width_def)
  from operands_checked [OF t this] have c: "finsh_compiler_run F (tree_of (BinE f ?a b) NullNode) s = Some (?seg, [], ?s1)"
    using line_one_tree [of F _ None ?c s] len by simp
  have v: "valid F ?a = 32" by (simp add: valid_def)
  obtain s2 where s2: "runs P (code_of F ?a) ?s0 s2" "computes ?s0 s2 32 v m1"
    using runs_okE [OF well_typed_runs [OF assms(1)] assms(6), of ?s0] assms(3) v by auto
  obtain s3 where s3: "runs P (code_of F b) s2 s3" "computes s2 s3 (valid F b) y m"
    using runs_okE [OF well_typed_runs [OF assms(2)] assms(7), of s2] assms(4) s2(2) by (auto simp: computes_def)
  have "finsh_vm_run P ?seg ?s1 = Some (s3\<lparr>finsh_pc := FINSH_TEXT_MAX\<rparr>)"
    by (rule exec_run [OF exec_append [OF exec_append [OF s2(1) s3(1)] exec_zeros]]) (use len in simp)
  then show ?thesis using c s2(2) s3(2) by (simp add: computes_def finsh_stack_bottom_def)
qed

text \<open>A byte on the stack keeps the upper bytes of the value that was in the cell before, and an operation of four bytes on it takes them for part of the value.\<close>

lemma stale_operand:
  assumes "i < length (global_variable F)" "load_width (var_type (global_variable F ! i)) = Some Byte" "access P Byte (var_value F i)"
  shows "\<exists>seg s1 s2. finsh_compiler_run F (tree_of (BinE Add (IntE k) (VarE (Local i))) NullNode) s = Some (seg, [], s1) \<and> finsh_vm_run P seg s1 = Some s2
    \<and> finsh_stack_bottom s2 = k + (ucast (vmem s (var_value F i)) OR (finsh_vm_stack s 1 AND NOT (mask 8)))"
proof -
  let ?a = "IntE k" and ?b = "VarE (Local i)" and ?x = "finsh_vm_stack s 1" and ?d = "var_value F i"
  let ?c = "code_of F ?a @ code_of F ?b @ [FINSH_OP_BIN Add Dword]" and ?s1 = "s\<lparr>finsh_vm_stack := (finsh_vm_stack s)(0 := 0)\<rparr>"
  let ?s0 = "?s1\<lparr>finsh_sp := 0, finsh_pc := 0\<rparr>" and ?seg = "?c @ replicate (FINSH_TEXT_MAX - length ?c) 0"
  let ?n = "tree_of ?b NullNode"
  have "well_typed F ?a" "well_typed F ?b" using assms(1,2) by simp_all
  then have t: "tree_ok F ?n 0 NullNode (etype F ?b) (code_of F ?b)" "tree_ok F (tree_of ?a ?n) 0 ?n (Some Dword) (code_of F ?a)"
    using tree_checked(1) [of F ?b NullNode] tree_checked(1) [of F ?a ?n] by simp_all
  have len: "length ?c \<le> FINSH_TEXT_MAX" by simp
  have c: "finsh_compiler_run F (tree_of (BinE Add ?a ?b) NullNode) s = Some (?seg, [], ?s1)"
    by (rule line_one_tree [OF operands_checked [OF t code_checked(1)] len])
  let ?s2 = "pushed Dword (uint k) ?s0"
  let ?s3 = "pushed Byte (uint (mem_get Byte ?d (vmem ?s2))) ?s2"
  have 1: "runs P (code_of F ?a) ?s0 ?s2" using exec_ld [of ?s0 P Dword k] by simp
  have 2: "runs P (code_of F ?b) ?s2 ?s3" using exec_ld_value [of ?s2 P Byte ?d] assms(2,3) by simp
  let ?y = "ucast (vmem s ?d) OR (?x AND NOT (mask 8))"
  have y: "finsh_vm_stack ?s3 1 = ?y"
  proof -
    have "take_bit 8 (ucast (vmem s ?d) :: rt_uint32) = ucast (vmem s ?d)" by (rule bit_word_eqI) (auto simp: bit_simps dest: bit_imp_le_length)
    then show ?thesis by (simp add: set_cell_def)
  qed
  have x: "finsh_vm_stack ?s3 0 = k" by simp
  let ?s4 = "?s3\<lparr>finsh_vm_stack := (finsh_vm_stack ?s3)(0 := k + ?y), finsh_sp := 1\<rparr>"
  have "c_binop Add (cell_value Dword (finsh_vm_stack ?s3 0)) (cell_value Dword (finsh_vm_stack ?s3 (0 + 1))) = Some (sint k + sint ?y)" using x y by simp
  from exec_bin [OF _ _ this, of P] have 3: "runs P [FINSH_OP_BIN Add Dword] ?s3 ?s4" by (simp only: set_cell_Dword) simp
  have "runs P ?seg ?s0 ?s4" using exec_append [OF exec_append [OF 1 exec_append [OF 2 3]] exec_zeros] by simp
  from exec_run [OF this] have "finsh_vm_run P ?seg ?s1 = Some (?s4\<lparr>finsh_pc := FINSH_TEXT_MAX\<rparr>)" using len by simp
  then show ?thesis using c by (simp add: finsh_stack_bottom_def)
qed

end
