(* ===== verification/Rt_Finsh_Token.thy ===== *)
theory Rt_Finsh_Token
  imports Rt_Finsh_Compiler
begin

text \<open>
  The tokens of the finsh shell, \<^verbatim>\<open>components/finsh/finsh_token.c\<close>. A line is a C string without its null character. The state is the structure
  \<^verbatim>\<open>finsh_token\<close> with the global error number; \<open>tk_string\<close> is the whole buffer of 128 bytes and \<open>tk_value\<close> the union of the value. The position never
  gets behind the end of the line. \<open>None\<close> stands for an access outside of a buffer. Plain \<^verbatim>\<open>char\<close> is unsigned.
\<close>

section \<open>Data\<close>

datatype finsh_token_type = finsh_token_type_none | finsh_token_type_left_paren | finsh_token_type_right_paren | finsh_token_type_comma | finsh_token_type_semicolon
  | finsh_token_type_mul | finsh_token_type_add | finsh_token_type_inc | finsh_token_type_sub | finsh_token_type_dec | finsh_token_type_div
  | finsh_token_type_mod | finsh_token_type_assign | finsh_token_type_and | finsh_token_type_or | finsh_token_type_xor | finsh_token_type_bitwise
  | finsh_token_type_shl | finsh_token_type_shr | finsh_token_type_comments | finsh_token_type_void | finsh_token_type_char | finsh_token_type_short
  | finsh_token_type_int | finsh_token_type_long | finsh_token_type_unsigned | finsh_token_type_value_char | finsh_token_type_value_int
  | finsh_token_type_value_long | finsh_token_type_value_string | finsh_token_type_value_null | finsh_token_type_identifier
  | finsh_token_type_bad | finsh_token_type_eof

record finsh_token =
  tk_eof :: bool
  tk_replay :: bool
  tk_position :: nat
  current_token :: finsh_token_type
  tk_value :: rt_uint32
  tk_string :: string
  tk_line :: string
  global_errno :: rt_uint8

abbreviation (input) FINSH_STRING_MAX :: nat where "FINSH_STRING_MAX \<equiv> 128"
abbreviation (input) FINSH_ERROR_EXPECT_CHAR :: rt_uint8 where "FINSH_ERROR_EXPECT_CHAR \<equiv> 9"
abbreviation (input) FINSH_ERROR_UNEXPECT_END :: rt_uint8 where "FINSH_ERROR_UNEXPECT_END \<equiv> 10"
abbreviation (input) FINSH_ERROR_UNKNOWN_TOKEN :: rt_uint8 where "FINSH_ERROR_UNKNOWN_TOKEN \<equiv> 11"

abbreviation (input) NUL :: char where "NUL \<equiv> CHR 0x00"

definition char_code :: "char \<Rightarrow> rt_uint32" where
  "char_code c = of_char c"

definition is_alpha :: "char \<Rightarrow> bool" where
  "is_alpha ch \<longleftrightarrow> (char_code ch OR 0x20) - 0x61 < 26"

definition is_digit :: "char \<Rightarrow> bool" where
  "is_digit ch \<longleftrightarrow> 0x30 \<le> char_code ch \<and> char_code ch \<le> 0x39"

definition is_xdigit :: "char \<Rightarrow> bool" where
  "is_xdigit ch \<longleftrightarrow> is_digit ch \<or> (char_code ch OR 0x20) - 0x61 < 6"

definition is_separator :: "char \<Rightarrow> bool" where
  "is_separator ch \<longleftrightarrow> \<not> (0x61 \<le> char_code ch \<and> char_code ch \<le> 0x7A \<or> 0x41 \<le> char_code ch \<and> char_code ch \<le> 0x5A \<or> is_digit ch \<or> ch = CHR ''_'')"

definition finsh_name_table :: "(string \<times> finsh_token_type) list" where
  "finsh_name_table =
     [(''void'', finsh_token_type_void), (''char'', finsh_token_type_char), (''short'', finsh_token_type_short),
      (''int'', finsh_token_type_int), (''long'', finsh_token_type_long), (''unsigned'', finsh_token_type_unsigned),
      (''NULL'', finsh_token_type_value_null), (''null'', finsh_token_type_value_null)]"

definition finsh_error_set :: "rt_uint8 \<Rightarrow> 'a finsh_token_scheme \<Rightarrow> 'a finsh_token_scheme" where
  "finsh_error_set ty s = s\<lparr>global_errno := ty\<rparr>"

definition finsh_token_init :: "string \<Rightarrow> 'a finsh_token_scheme \<Rightarrow> 'a finsh_token_scheme" where
  "finsh_token_init line s =
     s\<lparr>tk_eof := False, tk_replay := False, tk_position := 0, current_token := finsh_token_type_none, tk_value := 0,
       tk_string := replicate FINSH_STRING_MAX NUL, tk_line := line\<rparr>"

section \<open>Characters\<close>

definition token_next_char :: "'a finsh_token_scheme \<Rightarrow> char \<times> 'a finsh_token_scheme" where
  "token_next_char s =
     (if tk_eof s then (NUL, s)
      else if length (tk_line s) \<le> tk_position s \<or> tk_line s ! tk_position s = CHR 0x0A then (NUL, s\<lparr>tk_eof := True, tk_position := 0\<rparr>)
      else (tk_line s ! tk_position s, s\<lparr>tk_position := tk_position s + 1\<rparr>))"

definition token_prev_char :: "'a finsh_token_scheme \<Rightarrow> 'a finsh_token_scheme" where
  "token_prev_char s = (if tk_eof s \<or> tk_position s = 0 then s else s\<lparr>tk_position := tk_position s - 1\<rparr>)"

text \<open>The loops that read characters as long as they are of a kind: the characters, the one after them, and the state.\<close>

function read_while :: "(char \<Rightarrow> bool) \<Rightarrow> 'a finsh_token_scheme \<Rightarrow> string \<times> char \<times> 'a finsh_token_scheme" where
  "read_while p s =
     (let (ch, s1) = token_next_char s in
      if p ch \<and> \<not> tk_eof s1 then let (cs, c, s2) = read_while p s1 in (ch # cs, c, s2) else ([], ch, s1))"
  by auto
termination
  by (relation "measure (\<lambda>(p, s). length (tk_line s) - tk_position s)") (auto simp: token_next_char_def split: if_splits)

declare read_while.simps [simp del]

definition token_trim_space :: "'a finsh_token_scheme \<Rightarrow> 'a finsh_token_scheme" where
  "token_trim_space s =
     (let (cs, c, s1) = read_while (\<lambda>ch. ch = CHR '' '' \<or> ch = CHR 0x09 \<or> ch = CHR 0x0D) s in token_prev_char s1)"

text \<open>A string in the buffer, with or without the null character at its end.\<close>

definition write_string :: "string \<Rightarrow> 'a finsh_token_scheme \<Rightarrow> 'a finsh_token_scheme option" where
  "write_string cs s =
     (if length cs \<le> FINSH_STRING_MAX then Some (s\<lparr>tk_string := cs @ drop (length cs) (tk_string s)\<rparr>) else None)"

definition token_get_string :: "'a finsh_token_scheme \<Rightarrow> 'a finsh_token_scheme option" where
  "token_get_string s =
     (let (ch, s1) = token_next_char s in
      if tk_eof s1 then Some s1
      else
        do {
          s2 \<leftarrow> write_string [NUL] s1;
          if is_digit ch then Some (token_prev_char s2)
          else
            let (cs, c, s3) = (if is_separator ch then ([], ch, s2) else let (cs, c, s3) = read_while (\<lambda>ch. \<not> is_separator ch) s2 in (ch # cs, c, s3))
            in write_string (cs @ [NUL]) (token_prev_char (s3\<lparr>tk_eof := False\<rparr>))
        })"

section \<open>Literals\<close>

text \<open>
  The value of an escaped number in a character is \<^verbatim>\<open>atoi\<close> of the place behind the digits, which is the empty string. The digits after the first one and the character
  that ends them go to a buffer of four bytes.
\<close>

definition char_escape :: "char \<Rightarrow> char option" where
  "char_escape ch =
     (if ch = CHR ''n'' then Some (CHR 0x0A) else if ch = CHR ''t'' then Some (CHR 0x09) else if ch = CHR ''v'' then Some (CHR 0x0B)
      else if ch = CHR ''b'' then Some (CHR 0x08) else if ch = CHR ''r'' then Some (CHR 0x0D)
      else if ch = CHR 0x5C then Some (CHR 0x5C) else if ch = CHR 0x27 then Some (CHR 0x27) else None)"

definition token_proc_char :: "'a finsh_token_scheme \<Rightarrow> (char \<times> 'a finsh_token_scheme) option" where
  "token_proc_char s =
     (let (ch, s1) = token_next_char s in
      do {
        (ch1, s2) \<leftarrow>
          (if ch = CHR 0x5C then
             let (ch, s2) = token_next_char s1 in
             (case char_escape ch of
                Some c \<Rightarrow> Some (c, s2)
              | None \<Rightarrow>
                  if is_digit ch then
                    let (cs, c, s3) = read_while is_digit s2 in if length cs + 1 < 4 then Some (NUL, token_prev_char s3) else None
                  else Some (NUL, token_prev_char s2))
           else Some (ch, s1));
        let (q, s3) = token_next_char s2;
        if q \<noteq> CHR 0x27 then Some (ch1, finsh_error_set FINSH_ERROR_EXPECT_CHAR (token_prev_char s3)) else Some (ch1, s3)
      })"

definition hex_digit :: "char \<Rightarrow> rt_uint32" where
  "hex_digit ch = (if char_code ch < 0x41 then char_code ch - 0x30 else (char_code ch OR 0x20) - 0x61 + 10)"

definition token_proc_escape :: "'a finsh_token_scheme \<Rightarrow> rt_uint32 \<times> 'a finsh_token_scheme" where
  "token_proc_escape s =
     (let (ch, s1) = token_next_char s in
      if ch = CHR ''n'' then (0x0A, s1) else if ch = CHR ''t'' then (0x09, s1) else if ch = CHR ''v'' then (0x0B, s1)
      else if ch = CHR ''b'' then (0x08, s1) else if ch = CHR ''r'' then (0x0D, s1) else if ch = CHR ''f'' then (0x0C, s1)
      else if ch = CHR ''a'' then (0x07, s1) else if ch = CHR 0x22 then (0x22, s1)
      else if ch = CHR ''x'' \<or> ch = CHR ''X'' then
        let (cs, c, s2) = read_while is_xdigit s1 in (foldl (\<lambda>r ch. r * 16 + hex_digit ch) 0 cs, token_prev_char s2)
      else if char_code ch - 0x30 < 8 then
        let (cs, c, s2) = read_while (\<lambda>ch. char_code ch - 0x30 < 8) s1
        in (foldl (\<lambda>r ch. r * 8 + char_code ch - 0x30) 0 (ch # cs), token_prev_char s2)
      else (0, s1))"

text \<open>The loop over the characters of a string: at most 128 times, with the characters that were written so far.\<close>

fun string_loop :: "nat \<Rightarrow> string \<Rightarrow> 'a finsh_token_scheme \<Rightarrow> 'a finsh_token_scheme option" where
  "string_loop 0 cs s = write_string cs s"
| "string_loop (Suc n) cs s =
     (let (ch, s1) = token_next_char s in
      if tk_eof s1 then write_string cs (finsh_error_set FINSH_ERROR_UNEXPECT_END s1)
      else if ch = CHR 0x5C then let (r, s2) = token_proc_escape s1 in string_loop n (cs @ [char_of (uint r)]) s2
      else if ch = CHR 0x22 then write_string (cs @ [NUL]) s1
      else string_loop n (cs @ [ch]) s1)"

definition token_proc_string :: "'a finsh_token_scheme \<Rightarrow> 'a finsh_token_scheme option" where
  "token_proc_string s = string_loop FINSH_STRING_MAX [] s"

text \<open>Numbers to the base of 16, 8 and 2 are read into two words; the result is the lower one. A digit that is none is taken by its distance to 0.\<close>

definition spec_digit :: "char \<Rightarrow> rt_uint32" where
  "spec_digit ch =
     (if 0x61 \<le> char_code ch \<and> char_code ch \<le> 0x66 then char_code ch - 0x61 + 10
      else if 0x41 \<le> char_code ch \<and> char_code ch \<le> 0x46 then char_code ch - 0x41 + 10 else char_code ch - 0x30)"

definition spec_step :: "nat \<Rightarrow> rt_uint32 \<times> rt_uint32 \<Rightarrow> char \<Rightarrow> rt_uint32 \<times> rt_uint32" where
  "spec_step shift bn ch =
     (let t = spec_digit ch; v0 = fst bn; t1 = drop_bit (32 - shift) v0; v1 = snd bn in (push_bit shift v0 OR t, push_bit shift v1 OR t1))"

definition token_spec_number :: "string \<Rightarrow> nat \<Rightarrow> rt_uint32" where
  "token_spec_number cs b =
     (let shift = (if b = 16 then 4 else if b = 8 then 3 else 1) in fst (foldl (spec_step shift) (0, 0) cs))"

definition int_token :: "rt_uint32 \<Rightarrow> 'a finsh_token_scheme \<Rightarrow> 'a finsh_token_scheme" where
  "int_token v s = s\<lparr>tk_value := v, current_token := finsh_token_type_value_int\<rparr>"

definition number_end :: "char \<Rightarrow> 'a finsh_token_scheme \<Rightarrow> 'a finsh_token_scheme" where
  "number_end ch s =
     (if ch = CHR ''l'' \<or> ch = CHR ''L'' then s\<lparr>current_token := finsh_token_type_value_long\<rparr> else token_prev_char s)"

definition token_proc_number :: "'a finsh_token_scheme \<Rightarrow> 'a finsh_token_scheme option" where
  "token_proc_number s =
     (let (ch, s1) = token_next_char s in
      if ch = CHR ''0'' then
        let (ch, s2) = token_next_char s1;
            spec = (\<lambda>b cs c s. if length cs < 128 then Some (number_end c (int_token (token_spec_number cs b) s)) else None)
        in if ch = CHR ''x'' \<or> ch = CHR ''X'' then let (cs, c, s3) = read_while (\<lambda>ch. is_digit ch \<or> is_alpha ch) s2 in spec 16 cs c s3
           else if ch = CHR ''b'' \<or> ch = CHR ''B'' then let (cs, c, s3) = read_while (\<lambda>ch. ch = CHR ''0'' \<or> ch = CHR ''1'') s2 in spec 2 cs c s3
           else if 0x30 \<le> char_code ch \<and> char_code ch \<le> 0x37
           then let (cs, c, s3) = read_while (\<lambda>ch. 0x30 \<le> char_code ch \<and> char_code ch \<le> 0x37) s2 in spec 8 (ch # cs) c s3
           else Some (int_token 0 (token_prev_char s2))
      else
        let (cs, c, s2) = (if is_digit ch then let (cs, c, s2) = read_while is_digit s1 in (ch # cs, c, s2) else ([], ch, s1))
        in Some (number_end c (int_token (foldl (\<lambda>v ch. v * 10 + (char_code ch - 0x30)) 0 cs) s2)))"

section \<open>Tokens\<close>

definition token_match_name :: "string \<Rightarrow> finsh_token_type option" where
  "token_match_name str = map_of finsh_name_table str"

text \<open>A token of one or two characters: when the second one follows, it is the token \<open>yes\<close>, otherwise the character is given back.\<close>

definition two_chars :: "char \<Rightarrow> finsh_token_type \<Rightarrow> finsh_token_type \<Rightarrow> 'a finsh_token_scheme \<Rightarrow> 'a finsh_token_scheme" where
  "two_chars c yes no s =
     (let (ch, s1) = token_next_char s in if ch = c then s1\<lparr>current_token := yes\<rparr> else (token_prev_char s1)\<lparr>current_token := no\<rparr>)"

definition token_operator :: "char \<Rightarrow> 'a finsh_token_scheme \<Rightarrow> 'a finsh_token_scheme option" where
  "token_operator ch s =
     (if ch = CHR ''('' then Some (s\<lparr>current_token := finsh_token_type_left_paren\<rparr>)
      else if ch = CHR '')'' then Some (s\<lparr>current_token := finsh_token_type_right_paren\<rparr>)
      else if ch = CHR '','' then Some (s\<lparr>current_token := finsh_token_type_comma\<rparr>)
      else if ch = CHR '';'' then Some (s\<lparr>current_token := finsh_token_type_semicolon\<rparr>)
      else if ch = CHR ''&'' then Some (s\<lparr>current_token := finsh_token_type_and\<rparr>)
      else if ch = CHR ''*'' then Some (s\<lparr>current_token := finsh_token_type_mul\<rparr>)
      else if ch = CHR ''+'' then Some (two_chars (CHR ''+'') finsh_token_type_inc finsh_token_type_add s)
      else if ch = CHR ''-'' then Some (two_chars (CHR ''-'') finsh_token_type_dec finsh_token_type_sub s)
      else if ch = CHR ''/'' then Some (two_chars (CHR ''/'') finsh_token_type_eof finsh_token_type_div s)
      else if ch = CHR ''<'' then Some (two_chars (CHR ''<'') finsh_token_type_shl finsh_token_type_bad s)
      else if ch = CHR ''>'' then Some (two_chars (CHR ''>'') finsh_token_type_shr finsh_token_type_bad s)
      else if ch = CHR ''|'' then Some (s\<lparr>current_token := finsh_token_type_or\<rparr>)
      else if ch = CHR ''%'' then Some (s\<lparr>current_token := finsh_token_type_mod\<rparr>)
      else if ch = CHR ''~'' then Some (s\<lparr>current_token := finsh_token_type_bitwise\<rparr>)
      else if ch = CHR ''^'' then Some (s\<lparr>current_token := finsh_token_type_xor\<rparr>)
      else if ch = CHR ''='' then Some (s\<lparr>current_token := finsh_token_type_assign\<rparr>)
      else if ch = CHR 0x27 then
        do { (c, s1) \<leftarrow> token_proc_char s;
             Some (s1\<lparr>tk_value := set_cell Byte (uint (char_code c)) (tk_value s1), current_token := finsh_token_type_value_char\<rparr>) }
      else if ch = CHR 0x22 then do { s1 \<leftarrow> token_proc_string s; Some (s1\<lparr>current_token := finsh_token_type_value_string\<rparr>) }
      else if is_digit ch then token_proc_number (token_prev_char s)
      else Some ((finsh_error_set FINSH_ERROR_UNKNOWN_TOKEN s)\<lparr>current_token := finsh_token_type_bad\<rparr>))"

definition c_str :: "string \<Rightarrow> string" where
  "c_str buf = takeWhile (\<lambda>c. c \<noteq> NUL) buf"

definition token_run :: "'a finsh_token_scheme \<Rightarrow> 'a finsh_token_scheme option" where
  "token_run s =
     do {
       s1 \<leftarrow> token_get_string (token_trim_space s);
       if tk_eof s1 then Some (s1\<lparr>current_token := finsh_token_type_eof\<rparr>)
       else if c_str (tk_string s1) \<noteq> [] then
         Some (s1\<lparr>current_token := (case token_match_name (c_str (tk_string s1)) of Some t \<Rightarrow> t | None \<Rightarrow> finsh_token_type_identifier)\<rparr>)
       else let (ch, s2) = token_next_char s1 in token_operator ch s2
     }"

definition finsh_token_token :: "'a finsh_token_scheme \<Rightarrow> 'a finsh_token_scheme option" where
  "finsh_token_token s = (if tk_replay s then Some (s\<lparr>tk_replay := False\<rparr>) else token_run s)"

definition finsh_token_replay :: "'a finsh_token_scheme \<Rightarrow> 'a finsh_token_scheme" where
  "finsh_token_replay s = s\<lparr>tk_replay := True\<rparr>"

end
