(* ===== verification/Rt_Finsh_Lex.thy ===== *)
theory Rt_Finsh_Lex
  imports Rt_Finsh_Token
begin

text \<open>
  Lexical correctness: a sequence of tokens that is written with a blank in front of each is read again token by token.
\<close>

section \<open>Reading characters\<close>

definition reads :: "'a finsh_token_scheme \<Rightarrow> string \<Rightarrow> bool" where
  "reads s xs \<longleftrightarrow> \<not> tk_eof s \<and> tk_position s \<le> length (tk_line s) \<and> drop (tk_position s) (tk_line s) = xs \<and> CHR 0x0A \<notin> set (tk_line s)
     \<and> length (tk_string s) = FINSH_STRING_MAX"

lemma at_update [simp]:
  "reads (s\<lparr>current_token := t\<rparr>) xs = reads s xs" "reads (s\<lparr>tk_value := v\<rparr>) xs = reads s xs" "reads (s\<lparr>tk_replay := r\<rparr>) xs = reads s xs" "reads (s\<lparr>global_errno := e\<rparr>) xs = reads s xs"
  by (simp_all add: reads_def)

lemma at_split:
  assumes "reads s (cs @ xs)"
  shows "reads (s\<lparr>tk_position := tk_position s + length cs\<rparr>) xs"
proof -
  have d: "drop (tk_position s) (tk_line s) = cs @ xs" and l: "tk_position s \<le> length (tk_line s)" using assms by (simp_all add: reads_def)
  have "drop (tk_position s + length cs) (tk_line s) = xs" using arg_cong [OF d, of "drop (length cs)"] by (simp add: add.commute)
  moreover have "tk_position s + length cs \<le> length (tk_line s)" using arg_cong [OF d, of length] l by simp
  ultimately show ?thesis using assms by (simp add: reads_def)
qed

lemma next_at:
  assumes "reads s (c # xs)"
  shows "token_next_char s = (c, s\<lparr>tk_position := tk_position s + 1\<rparr>)"
proof -
  have d: "drop (tk_position s) (tk_line s) = c # xs" "CHR 0x0A \<notin> set (tk_line s)" using assms by (simp_all add: reads_def)
  have l: "tk_position s < length (tk_line s)" using d(1) by (metis drop_all linorder_not_le list.distinct(1))
  have n: "tk_line s ! tk_position s = c" using d(1) l by (metis Cons_nth_drop_Suc list.inject)
  then have "c \<noteq> CHR 0x0A" using d(2) nth_mem [OF l] by auto
  then show ?thesis using assms l n by (simp add: token_next_char_def reads_def)
qed

lemma at_next: "reads s (c # xs) \<Longrightarrow> reads (s\<lparr>tk_position := tk_position s + 1\<rparr>) xs"
  using at_split [of s "[c]" xs] by simp

lemma read_at:
  assumes "reads s (cs @ c # xs)" "\<forall>x\<in>set cs. p x" "\<not> p c"
  shows "read_while p s = (cs, c, s\<lparr>tk_position := tk_position s + length cs + 1\<rparr>)"
  using assms
proof (induction cs arbitrary: s)
  case Nil
  then show ?case using next_at [of s c xs] by (subst read_while.simps) simp
next
  case (Cons d cs)
  let ?s = "s\<lparr>tk_position := tk_position s + 1\<rparr>"
  have n: "token_next_char s = (d, ?s)" using next_at [of s d] Cons.prems(1) by simp
  have a: "reads ?s (cs @ c # xs)" using at_next [of s d] Cons.prems(1) by simp
  have "read_while p ?s = (cs, c, ?s\<lparr>tk_position := tk_position ?s + length cs + 1\<rparr>)" by (rule Cons.IH [OF a]) (use Cons.prems in simp_all)
  then show ?case using n Cons.prems(2) a by (subst read_while.simps) (simp add: reads_def)
qed

lemma trim_at:
  assumes "reads s (CHR '' '' # c # xs)" "c \<noteq> CHR '' ''" "c \<noteq> CHR 0x09" "c \<noteq> CHR 0x0D"
  shows "token_trim_space s = s\<lparr>tk_position := tk_position s + 1\<rparr>"
proof -
  have "read_while (\<lambda>ch. ch = CHR '' '' \<or> ch = CHR 0x09 \<or> ch = CHR 0x0D) s = ([CHR '' ''], c, s\<lparr>tk_position := tk_position s + 2\<rparr>)"
    using read_at [of s "[CHR '' '']" c xs "\<lambda>ch. ch = CHR '' '' \<or> ch = CHR 0x09 \<or> ch = CHR 0x0D"] assms by simp
  then show ?thesis using assms(1) by (simp add: token_trim_space_def token_prev_char_def reads_def)
qed

section \<open>Tokens and their text\<close>

datatype tok = IdT string | IntT rt_uint32 | CharT char | OpT finsh_token_type

fun op_text :: "finsh_token_type \<Rightarrow> string" where
  "op_text finsh_token_type_left_paren = ''(''"
| "op_text finsh_token_type_right_paren = '')''"
| "op_text finsh_token_type_comma = '',''"
| "op_text finsh_token_type_semicolon = '';''"
| "op_text finsh_token_type_mul = ''*''"
| "op_text finsh_token_type_add = ''+''"
| "op_text finsh_token_type_inc = ''++''"
| "op_text finsh_token_type_sub = ''-''"
| "op_text finsh_token_type_dec = ''--''"
| "op_text finsh_token_type_div = ''/''"
| "op_text finsh_token_type_mod = ''%''"
| "op_text finsh_token_type_assign = ''=''"
| "op_text finsh_token_type_and = ''&''"
| "op_text finsh_token_type_or = ''|''"
| "op_text finsh_token_type_xor = ''^''"
| "op_text finsh_token_type_bitwise = ''~''"
| "op_text finsh_token_type_shl = ''<<''"
| "op_text finsh_token_type_shr = ''>>''"
| "op_text _ = []"

fun decimal :: "nat \<Rightarrow> string" where
  "decimal n = (if n < 10 then [char_of (0x30 + n)] else decimal (n div 10) @ [char_of (0x30 + n mod 10)])"

declare decimal.simps [simp del]

fun tok_text :: "tok \<Rightarrow> string" where
  "tok_text (IdT nm) = nm"
| "tok_text (IntT v) = decimal (unat v)"
| "tok_text (CharT c) = [CHR 0x27, c, CHR 0x27]"
| "tok_text (OpT ty) = op_text ty"

definition is_id_name :: "string \<Rightarrow> bool" where
  "is_id_name nm \<longleftrightarrow> nm \<noteq> [] \<and> length nm < FINSH_NAME_MAX \<and> (\<forall>c\<in>set nm. \<not> is_separator c) \<and> \<not> is_digit (hd nm) \<and> token_match_name nm = None"

fun tok_ok :: "tok \<Rightarrow> bool" where
  "tok_ok (IdT nm) \<longleftrightarrow> is_id_name nm"
| "tok_ok (IntT v) \<longleftrightarrow> True"
| "tok_ok (CharT c) \<longleftrightarrow> c \<noteq> CHR 0x5C \<and> c \<noteq> CHR 0x0A"
| "tok_ok (OpT ty) \<longleftrightarrow> op_text ty \<noteq> []"

fun holds :: "'a finsh_token_scheme \<Rightarrow> tok \<Rightarrow> bool" where
  "holds s (IdT nm) \<longleftrightarrow> current_token s = finsh_token_type_identifier \<and> c_str (tk_string s) = nm"
| "holds s (IntT v) \<longleftrightarrow> current_token s = finsh_token_type_value_int \<and> tk_value s = v"
| "holds s (CharT c) \<longleftrightarrow> current_token s = finsh_token_type_value_char \<and> ucast (tk_value s) = (of_char c :: rt_uint8)"
| "holds s (OpT ty) \<longleftrightarrow> current_token s = ty"

text \<open>A token reads a state when it changes nothing but the attributes of the token and the position.\<close>

definition token_read :: "'a finsh_token_scheme \<Rightarrow> tok \<Rightarrow> string \<Rightarrow> bool" where
  "token_read s t xs \<longleftrightarrow> (\<exists>s'. token_run s = Some s' \<and> holds s' t \<and> reads s' xs \<and> tk_replay s' = tk_replay s
     \<and> global_errno s' = global_errno s \<and> finsh_token.more s' = finsh_token.more s)"

lemma token_readI:
  assumes "token_run s = Some s'" "holds s' t" "reads s' xs" "tk_replay s' = tk_replay s" "global_errno s' = global_errno s" "finsh_token.more s' = finsh_token.more s"
  shows "token_read s t xs"
  using assms unfolding token_read_def by blast

section \<open>Reading tokens\<close>

lemma get_name:
  assumes "reads s (nm @ c # xs)" "is_id_name nm" "is_separator c"
  shows "token_get_string s = Some (s\<lparr>tk_position := tk_position s + length nm, tk_string := nm @ NUL # drop (Suc (length nm)) (tk_string s)\<rparr>)"
proof -
  obtain d cs where nm: "nm = d # cs" using assms(2) by (cases nm) (auto simp: is_id_name_def)
  have d: "\<not> is_digit d" "\<not> is_separator d" "\<forall>x\<in>set cs. \<not> is_separator x" "length cs < 15" using assms(2) nm by (auto simp: is_id_name_def)
  let ?s1 = "s\<lparr>tk_position := tk_position s + 1\<rparr>"
  let ?s2 = "?s1\<lparr>tk_string := NUL # drop 1 (tk_string s)\<rparr>"
  have 1: "token_next_char s = (d, ?s1)" using next_at [of s d "cs @ c # xs"] assms(1) nm by simp
  have "reads ?s1 (cs @ c # xs)" using at_next [of s d "cs @ c # xs"] assms(1) nm by simp
  then have a: "reads ?s2 (cs @ c # xs)" by (auto simp: reads_def)
  have 2: "read_while (\<lambda>ch. \<not> is_separator ch) ?s2 = (cs, c, ?s2\<lparr>tk_position := tk_position s + length cs + 2\<rparr>)"
    using read_at [OF a, of "\<lambda>ch. \<not> is_separator ch"] d(3) assms(3) by simp
  have "\<not> tk_eof s" "length (tk_string s) = 128" using assms(1) by (simp_all add: reads_def)
  then show ?thesis using 1 2 d nm by (simp add: token_get_string_def write_string_def token_prev_char_def Let_def)
qed

lemma get_other:
  assumes "reads s (c # xs)" "is_digit c \<or> is_separator c"
  shows "token_get_string s = Some (s\<lparr>tk_string := NUL # drop 1 (tk_string s)\<rparr>)"
proof -
  have 1: "token_next_char s = (c, s\<lparr>tk_position := tk_position s + 1\<rparr>)" using next_at [OF assms(1)] .
  have "\<not> tk_eof s" "length (tk_string s) = 128" using assms(1) by (simp_all add: reads_def)
  then show ?thesis using 1 assms(2) by (auto simp: token_get_string_def write_string_def token_prev_char_def Let_def)
qed

text \<open>A character that can begin a token is not a blank.\<close>

lemma separators: "is_separator (CHR '' '')" "is_separator (CHR 0x09)" "is_separator (CHR 0x0D)" "is_separator NUL" "\<not> is_digit (CHR '' '')" "\<not> is_digit (CHR 0x09)" "\<not> is_digit (CHR 0x0D)"
  by (simp_all add: is_separator_def is_digit_def char_code_def)

lemma run_name:
  assumes r: "reads s (CHR '' '' # nm @ CHR '' '' # xs)" and nm: "is_id_name nm"
  shows "token_read s (IdT nm) (CHR '' '' # xs)"
proof -
  obtain d cs where c: "nm = d # cs" using nm by (cases nm) (auto simp: is_id_name_def)
  have d: "\<not> is_separator d" using nm c by (simp add: is_id_name_def)
  let ?s1 = "s\<lparr>tk_position := tk_position s + 1\<rparr>"
  have 1: "token_trim_space s = ?s1" by (rule trim_at) (use r c d separators in auto)
  have a: "reads ?s1 (nm @ CHR '' '' # xs)" using at_next [OF r] .
  let ?str = "nm @ NUL # drop (Suc (length nm)) (tk_string s)"
  have 2: "token_get_string ?s1 = Some (s\<lparr>tk_position := tk_position s + 1 + length nm, tk_string := ?str\<rparr>)"
    using get_name [OF a nm separators(1)] by simp
  have n: "c_str ?str = nm"
  proof -
    have "\<forall>x\<in>set nm. x \<noteq> NUL" using nm separators(4) by (auto simp: is_id_name_def)
    then show ?thesis by (simp add: c_str_def takeWhile_append2)
  qed
  let ?s' = "s\<lparr>tk_position := tk_position s + 1 + length nm, current_token := finsh_token_type_identifier, tk_value := tk_value s, tk_string := ?str\<rparr>"
  have "\<not> tk_eof s" "nm \<noteq> []" "token_match_name nm = None" using r nm by (simp_all add: reads_def is_id_name_def)
  then have t: "token_run s = Some ?s'" using 1 2 n by (simp add: token_run_def)
  have "reads ?s' (CHR '' '' # xs)" using at_split [OF a] nm by (auto simp: reads_def is_id_name_def)
  moreover have "holds ?s' (IdT nm)" using n by simp
  ultimately show ?thesis by (intro token_readI [OF t]) simp_all
qed

text \<open>A token that is not a name: the buffer is cleared, and the first character decides.\<close>

lemma run_other:
  assumes r: "reads s (CHR '' '' # c # xs)" and c: "c \<noteq> CHR '' ''" "c \<noteq> CHR 0x09" "c \<noteq> CHR 0x0D" "is_digit c \<or> is_separator c"
  shows "token_run s = token_operator c (s\<lparr>tk_string := NUL # drop 1 (tk_string s), tk_position := tk_position s + 2\<rparr>)"
    and "reads (s\<lparr>tk_string := NUL # drop 1 (tk_string s), tk_position := tk_position s + 2\<rparr>) xs"
proof -
  let ?s1 = "s\<lparr>tk_position := tk_position s + 1\<rparr>"
  let ?s2 = "?s1\<lparr>tk_string := NUL # drop 1 (tk_string s)\<rparr>"
  have 1: "token_trim_space s = ?s1" by (rule trim_at [OF r c(1-3)])
  have a: "reads ?s1 (c # xs)" using at_next [OF r] .
  have 2: "token_get_string ?s1 = Some ?s2" using get_other [OF a c(4)] by simp
  have b: "reads ?s2 (c # xs)" using a by (auto simp: reads_def)
  have 3: "token_next_char ?s2 = (c, ?s2\<lparr>tk_position := tk_position s + 2\<rparr>)" using next_at [OF b] by simp
  have "\<not> tk_eof ?s2" "c_str (tk_string ?s2) = []" using r by (simp_all add: reads_def c_str_def)
  then show "token_run s = token_operator c (s\<lparr>tk_string := NUL # drop 1 (tk_string s), tk_position := tk_position s + 2\<rparr>)" using 1 2 3 by (simp add: token_run_def)
  show "reads (s\<lparr>tk_string := NUL # drop 1 (tk_string s), tk_position := tk_position s + 2\<rparr>) xs" using at_next [OF b] by simp
qed

lemma two_at:
  assumes "reads s (d # xs)"
  shows "two_chars c yes no s = (if d = c then s\<lparr>tk_position := tk_position s + 1, current_token := yes\<rparr> else s\<lparr>current_token := no\<rparr>)"
  using next_at [OF assms] assms by (simp add: two_chars_def token_prev_char_def reads_def)

lemma op_single:
  assumes "op_text ty = [c]" and "\<And>d yes no. ty \<noteq> finsh_token_type_semicolon \<Longrightarrow> d \<noteq> CHR '' '' \<Longrightarrow> two_chars d yes no s = s\<lparr>current_token := no\<rparr>"
  shows "token_operator c s = Some (s\<lparr>current_token := ty\<rparr>)"
proof -
  have "length (op_text ty) = 1" "c = hd (op_text ty)" using assms(1) by simp_all
  then show ?thesis by (cases ty) (simp_all add: token_operator_def assms(2))
qed

lemma op_double:
  assumes "op_text ty = [c, d]" and "\<And>yes no. two_chars d yes no s = s\<lparr>tk_position := tk_position s + 1, current_token := yes\<rparr>"
  shows "token_operator c s = Some (s\<lparr>tk_position := tk_position s + 1, current_token := ty\<rparr>)"
  using assms(1) by (cases ty; clarsimp simp: token_operator_def assms(2))

lemma run_op:
  assumes r: "reads s (CHR '' '' # op_text ty @ xs)" and op: "op_text ty \<noteq> []" and xs: "ty = finsh_token_type_semicolon \<or> (\<exists>ys. xs = CHR '' '' # ys)"
  shows "token_read s (OpT ty) xs"
proof -
  obtain c cs where c: "op_text ty = c # cs" using op by (cases "op_text ty") auto
  let ?s = "s\<lparr>tk_string := NUL # drop 1 (tk_string s), tk_position := tk_position s + 2\<rparr>"
  have sep: "c \<noteq> CHR '' ''" "c \<noteq> CHR 0x09" "c \<noteq> CHR 0x0D" "is_digit c \<or> is_separator c"
    using c by (cases ty; auto simp: is_separator_def is_digit_def char_code_def)+
  have r': "reads s (CHR '' '' # c # cs @ xs)" using r c by simp
  note 1 = run_other [OF r' sep]
  show ?thesis
  proof (cases cs)
    case Nil
    have "two_chars d yes no ?s = ?s\<lparr>current_token := no\<rparr>" if "ty \<noteq> finsh_token_type_semicolon" "d \<noteq> CHR '' ''" for d yes no
      using two_at [of ?s "CHR '' ''"] 1(2) Nil xs that by auto
    then have t: "token_operator c ?s = Some (?s\<lparr>current_token := ty\<rparr>)" using c Nil by (intro op_single) simp_all
    show ?thesis by (rule token_readI [OF 1(1) [unfolded t]]) (use 1(2) Nil in simp_all)
  next
    case (Cons d ds)
    then have ds: "ds = []" using c by (cases ty) simp_all
    have t: "token_operator c ?s = Some (?s\<lparr>tk_position := tk_position ?s + 1, current_token := ty\<rparr>)"
      using c Cons ds two_at [of ?s d xs] 1(2) by (intro op_double [where d = d]) simp_all
    show ?thesis by (rule token_readI [OF 1(1) [unfolded t]]) (use at_next [of ?s d xs] 1(2) Cons ds in simp_all)
  qed
qed

lemma run_char:
  assumes r: "reads s (CHR '' '' # CHR 0x27 # c # CHR 0x27 # xs)" and c: "c \<noteq> CHR 0x5C"
  shows "token_read s (CharT c) xs"
proof -
  let ?s = "s\<lparr>tk_string := NUL # drop 1 (tk_string s), tk_position := tk_position s + 2\<rparr>"
  let ?s1 = "?s\<lparr>tk_position := tk_position s + 4\<rparr>"
  let ?s' = "?s1\<lparr>tk_value := set_cell Byte (uint (char_code c)) (tk_value s), current_token := finsh_token_type_value_char\<rparr>"
  have "is_separator (CHR 0x27)" by (simp add: is_separator_def is_digit_def char_code_def)
  note 1 = run_other [OF r _ _ _ disjI2 [OF this], simplified]
  have r1: "reads ?s (c # CHR 0x27 # xs)" using 1(2) by simp
  have r2: "reads (?s\<lparr>tk_position := tk_position s + 3\<rparr>) (CHR 0x27 # xs)" using at_next [OF r1] by (simp add: eval_nat_numeral)
  have "token_next_char ?s = (c, ?s\<lparr>tk_position := tk_position s + 3\<rparr>)" "token_next_char (?s\<lparr>tk_position := tk_position s + 3\<rparr>) = (CHR 0x27, ?s1)"
    using next_at [OF r1] next_at [OF r2] by (simp_all add: eval_nat_numeral)
  then have p: "token_proc_char ?s = Some (c, ?s1)" using c by (simp add: token_proc_char_def)
  then have t: "token_run s = Some ?s'" using 1(1) by (simp add: token_operator_def)
  have "ucast (set_cell Byte (uint (char_code c)) (tk_value s)) = (of_char c :: rt_uint8)"
  proof -
    have "ucast (set_cell Byte (uint (char_code c)) (tk_value s)) = (ucast (char_code c) :: rt_uint8)"
      by (rule bit_word_eqI) (auto simp: set_cell_def bit_simps)
    then show ?thesis by (simp add: char_code_def of_char_def)
  qed
  then have h: "holds ?s' (CharT c)" by simp
  have "reads ?s1 xs" using at_next [OF r2] by (simp add: eval_nat_numeral)
  then show ?thesis by (intro token_readI [OF t h]) simp_all
qed

lemma of_char_char_of: "k < 256 \<Longrightarrow> (of_char (char_of k) :: rt_uint32) = of_nat k"
proof -
  assume "k < 256"
  then have "of_nat (of_char (char_of k)) = (of_nat k :: rt_uint32)" by simp
  then show ?thesis by (simp only: of_nat_of_char)
qed

lemma digit_char:
  assumes "k < 10"
  shows "is_digit (char_of (0x30 + k))" "char_code (char_of (0x30 + k)) - 0x30 = of_nat k" "char_of (0x30 + k) = CHR ''0'' \<longleftrightarrow> k = 0"
proof -
  have c: "char_code (char_of (0x30 + k)) = of_nat (0x30 + k)" using of_char_char_of [of "0x30 + k"] assms by (simp add: char_code_def)
  have "unat (of_nat (0x30 + k) :: rt_uint32) = 0x30 + k" using assms by (simp only: unat_of_nat) simp
  then show "is_digit (char_of (0x30 + k))" using assms unfolding is_digit_def c word_le_nat_alt by simp
  show "char_code (char_of (0x30 + k)) - 0x30 = of_nat k" using c by simp
  have "of_char (char_of (0x30 + k)) = 0x30 + k" using assms by simp
  moreover have "of_char (CHR ''0'') = (0x30 :: nat)" by simp
  ultimately show "char_of (0x30 + k) = CHR ''0'' \<longleftrightarrow> k = 0" by (metis add.right_neutral add_left_cancel char_of_char)
qed

lemma decimal_digits: "\<forall>c\<in>set (decimal n). is_digit c"
proof (induction n rule: decimal.induct)
  case (1 n)
  then show ?case using digit_char(1) [of n] digit_char(1) [of "n mod 10"] by (subst decimal.simps) auto
qed

lemma decimal_head: "\<exists>c cs. decimal n = c # cs \<and> (c = CHR ''0'' \<longleftrightarrow> n = 0) \<and> (n = 0 \<longrightarrow> cs = [])"
proof (induction n rule: decimal.induct)
  case (1 n)
  show ?case
  proof (cases "n < 10")
    case True
    then show ?thesis using digit_char(3) [OF True] by (subst decimal.simps) auto
  next
    case False
    then show ?thesis using 1 by (subst decimal.simps) auto
  qed
qed

lemma decimal_value: "foldl (\<lambda>v ch. v * 10 + (char_code ch - 0x30)) 0 (decimal n) = of_nat n"
proof (induction n rule: decimal.induct)
  case (1 n)
  show ?case
  proof (cases "n < 10")
    case True
    then show ?thesis using digit_char(2) [OF True] by (subst decimal.simps) simp
  next
    case False
    have "foldl (\<lambda>v ch. v * 10 + (char_code ch - 0x30)) 0 (decimal n) = of_nat (n div 10) * 10 + of_nat (n mod 10)"
      using False 1 digit_char(2) [of "n mod 10"] by (subst decimal.simps) simp
    also have "\<dots> = of_nat (n div 10 * 10 + n mod 10)" by (simp only: of_nat_add of_nat_mult of_nat_numeral)
    finally show ?thesis by simp
  qed
qed

lemma run_int:
  assumes r: "reads s (CHR '' '' # decimal (unat v) @ CHR '' '' # xs)"
  shows "token_read s (IntT v) (CHR '' '' # xs)"
proof -
  obtain c cs where c: "decimal (unat v) = c # cs" "c = CHR ''0'' \<longleftrightarrow> unat v = 0" "unat v = 0 \<longrightarrow> cs = []" using decimal_head by blast
  have d: "is_digit c" "\<forall>x\<in>set cs. is_digit x" using decimal_digits [of "unat v"] c(1) by auto
  let ?s = "s\<lparr>tk_string := NUL # drop 1 (tk_string s), tk_position := tk_position s + 2\<rparr>"
  let ?p = "?s\<lparr>tk_position := tk_position s + 1\<rparr>"
  have "c \<noteq> CHR '' ''" "c \<noteq> CHR 0x09" "c \<noteq> CHR 0x0D" using d(1) separators by auto
  note 1 = run_other [OF _ this disjI1 [OF d(1)], of s "cs @ CHR '' '' # xs"]
  have r1: "reads ?s (cs @ CHR '' '' # xs)" using 1(2) r c(1) by simp
  have e: "\<not> tk_eof s" using r by (simp add: reads_def)
  have "c \<notin> set ''(),;&*+-/<>|%~^='' \<and> c \<noteq> CHR 0x27 \<and> c \<noteq> CHR 0x22" using d(1) by (auto simp: is_digit_def char_code_def)
  then have "token_operator c ?s = token_proc_number (token_prev_char ?s)" using d(1) by (simp add: token_operator_def)
  moreover have "token_prev_char ?s = ?p" using e by (simp add: token_prev_char_def)
  ultimately have t: "token_run s = token_proc_number ?p" using 1(1) r c(1) by simp
  have rp: "reads ?p (c # cs @ CHR '' '' # xs)" using at_next [OF r] c(1) by (auto simp: reads_def)
  have n: "token_next_char ?p = (c, ?s)" using next_at [OF rp] by (simp add: eval_nat_numeral)
  show ?thesis
  proof (cases "unat v = 0")
    case True
    have "token_next_char ?s = (CHR '' '', ?s\<lparr>tk_position := tk_position ?s + 1\<rparr>)" using next_at [of ?s "CHR '' ''" xs] r1 c(3) True by simp
    moreover have "\<not> (0x30 \<le> char_code (CHR '' ''))" by (simp add: char_code_def)
    ultimately have "token_proc_number ?p = Some (int_token 0 ?s)"
      using n c(2) True e by (simp add: token_proc_number_def token_prev_char_def Let_def)
    then have t': "token_run s = Some (int_token 0 ?s)" using t by simp
    have "v = 0" using True by (simp add: unat_eq_zero)
    then show ?thesis using r1 c(3) True by (intro token_readI [OF t']) (simp_all add: int_token_def)
  next
    case False
    let ?s2 = "?s\<lparr>tk_position := tk_position s + 2 + length cs + 1\<rparr>"
    have "read_while is_digit ?s = (cs, CHR '' '', ?s2)" using read_at [OF r1, of is_digit] d(2) separators(5) by simp
    moreover have "foldl (\<lambda>v ch. v * 10 + (char_code ch - 0x30)) 0 (c # cs) = v" using decimal_value [of "unat v"] c(1) by simp
    ultimately have "token_proc_number ?p = Some (int_token v (?s\<lparr>tk_position := tk_position s + 2 + length cs\<rparr>))"
      using n c(2) False d(1) e by (simp add: token_proc_number_def Let_def number_end_def token_prev_char_def int_token_def del: foldl.simps)
    then have t': "token_run s = Some (int_token v (?s\<lparr>tk_position := tk_position s + 2 + length cs\<rparr>))" using t by simp
    show ?thesis using at_split [OF r1] by (intro token_readI [OF t']) (simp_all add: int_token_def)
  qed
qed

section \<open>Sequences of tokens\<close>

definition printed :: "tok list \<Rightarrow> string" where
  "printed ts = concat (map (\<lambda>t. CHR '' '' # tok_text t) ts)"

definition lexes :: "'a finsh_token_scheme \<Rightarrow> tok list \<Rightarrow> bool" where
  "lexes s ts \<longleftrightarrow> reads s (printed ts) \<and> (\<forall>t\<in>set ts. tok_ok t) \<and> (ts \<noteq> [] \<longrightarrow> last ts = OpT finsh_token_type_semicolon)"

lemma lex_step:
  assumes "lexes s (t # ts)"
  shows "\<exists>s'. token_run s = Some s' \<and> holds s' t \<and> lexes s' ts \<and> tk_replay s' = tk_replay s \<and> global_errno s' = global_errno s
    \<and> finsh_token.more s' = finsh_token.more s"
proof -
  have r: "reads s (CHR '' '' # tok_text t @ printed ts)" and ok: "tok_ok t" using assms by (simp_all add: lexes_def printed_def)
  have ts: "ts = [] \<and> t = OpT finsh_token_type_semicolon \<or> (\<exists>ys. printed ts = CHR '' '' # ys)"
    using assms by (cases ts) (auto simp: lexes_def printed_def)
  have "token_read s t (printed ts)"
  proof (cases t)
    case (IdT nm)
    then show ?thesis using ts r ok run_name [of s nm] by auto
  next
    case (IntT v)
    then show ?thesis using ts r ok run_int [of s v] by auto
  next
    case (CharT c)
    then show ?thesis using r ok run_char [of s c] by auto
  next
    case (OpT ty)
    then show ?thesis using ts r ok by (intro run_op [of s ty, folded OpT]) auto
  qed
  moreover have "\<forall>t\<in>set ts. tok_ok t" "ts \<noteq> [] \<longrightarrow> last ts = OpT finsh_token_type_semicolon" using assms by (auto simp: lexes_def)
  ultimately show ?thesis unfolding token_read_def lexes_def by blast
qed

lemma lex_end:
  assumes "lexes s []"
  shows "\<exists>s'. token_run s = Some s' \<and> current_token s' = finsh_token_type_eof \<and> global_errno s' = global_errno s \<and> finsh_token.more s' = finsh_token.more s"
proof -
  let ?s = "s\<lparr>tk_eof := True, tk_position := 0\<rparr>"
  have e: "\<not> tk_eof s" "length (tk_line s) \<le> tk_position s" using assms by (auto simp: lexes_def printed_def reads_def)
  then have "token_next_char s = (NUL, ?s)" by (simp add: token_next_char_def)
  then have "token_trim_space s = ?s" by (subst token_trim_space_def, subst read_while.simps) (simp add: token_prev_char_def)
  then have "token_run s = Some (?s\<lparr>current_token := finsh_token_type_eof\<rparr>)" by (simp add: token_run_def token_get_string_def token_next_char_def)
  then show ?thesis by (intro exI [of _ "?s\<lparr>current_token := finsh_token_type_eof\<rparr>"]) simp
qed

text \<open>The tokens that come next, with one that was put back.\<close>

definition ahead :: "'a finsh_token_scheme \<Rightarrow> tok list \<Rightarrow> bool" where
  "ahead s ts \<longleftrightarrow> (if tk_replay s then \<exists>t us. ts = t # us \<and> holds s t \<and> lexes s us else lexes s ts)"

lemma next_ahead:
  assumes "ahead s (t # ts)"
  shows "\<exists>s'. finsh_token_token s = Some s' \<and> holds s' t \<and> ahead s' ts \<and> ahead (finsh_token_replay s') (t # ts)
    \<and> global_errno s' = global_errno s \<and> finsh_token.more s' = finsh_token.more s"
proof (cases "tk_replay s")
  case True
  let ?s = "s\<lparr>tk_replay := False\<rparr>"
  have "holds s t" "lexes s ts" using assms True by (auto simp: ahead_def)
  then have "holds ?s t" "lexes ?s ts" "holds (finsh_token_replay ?s) t" "lexes (finsh_token_replay ?s) ts"
    by (cases t; simp add: lexes_def finsh_token_replay_def)+
  then show ?thesis using True by (intro exI [of _ ?s]) (simp add: ahead_def finsh_token_token_def, simp add: finsh_token_replay_def)
next
  case False
  then obtain s' where s': "token_run s = Some s'" "holds s' t" "lexes s' ts" "\<not> tk_replay s'" "global_errno s' = global_errno s" "finsh_token.more s' = finsh_token.more s"
    using lex_step [of s t ts] assms by (auto simp: ahead_def)
  then have "holds (finsh_token_replay s') t" "lexes (finsh_token_replay s') ts"
    by (cases t; simp add: lexes_def finsh_token_replay_def)+
  then show ?thesis using s' False by (intro exI [of _ s']) (simp add: ahead_def finsh_token_token_def, simp add: finsh_token_replay_def)
qed

end
