(* ===== verification/Rt_Finsh_Heap.thy ===== *)
theory Rt_Finsh_Heap
  imports Rt_Finsh_Compiler "HOL-Library.Monad_Syntax"
begin

text \<open>
  The heap of the finsh shell for its strings, \<^verbatim>\<open>components/finsh/finsh_heap.c\<close>: 128 bytes, cut into blocks with a header of eight bytes each. The free and the allocated
  blocks are in two lists, sorted by address. A block is named by the offset of its header in the array; \<open>fh_base\<close> is the address of the array. The headers are
  kept apart from the bytes of the memory. The loops over a list are partial: on a list without end they give \<open>None\<close>.
\<close>

section \<open>Operations\<close>

record finsh_heap =
  fh_base :: rt_uint32
  fh_length :: "nat \<Rightarrow> rt_uint32"
  fh_next :: "nat \<Rightarrow> nat option"
  fh_free_list :: "nat option"
  fh_allocate_list :: "nat option"

abbreviation (input) FINSH_HEAP_MAX :: nat where "FINSH_HEAP_MAX \<equiv> 128"
abbreviation (input) HEADER_SIZE :: nat where "HEADER_SIZE \<equiv> 8"

definition HEAP_ALIGN_SIZE :: "rt_uint32 \<Rightarrow> rt_uint32" where
  "HEAP_ALIGN_SIZE sz = (sz + 4 - 1) AND NOT (4 - 1)"

definition block_address :: "nat \<Rightarrow> finsh_heap \<Rightarrow> rt_uint32" where
  "block_address h H = fh_base H + of_nat (h + HEADER_SIZE)"

definition mem_clear :: "rt_uint32 \<Rightarrow> nat \<Rightarrow> memory \<Rightarrow> memory" where
  "mem_clear a n m = fold (\<lambda>i m. m(a + of_nat i := 0)) [0..<n] m"

definition finsh_heap_init :: "finsh_heap \<Rightarrow> memory \<Rightarrow> finsh_heap \<times> memory" where
  "finsh_heap_init H m =
     (\<lparr>fh_base = fh_base H, fh_length = (\<lambda>_. 0)(0 := of_nat (FINSH_HEAP_MAX - HEADER_SIZE)), fh_next = (\<lambda>_. None), fh_free_list = Some 0, fh_allocate_list = None\<rparr>,
      mem_clear (fh_base H) FINSH_HEAP_MAX m)"

text \<open>The node after which a header is inserted, and the one before a header.\<close>

partial_function (option) insert_point :: "(nat \<Rightarrow> nat option) \<Rightarrow> nat \<Rightarrow> nat \<Rightarrow> nat option" where [code]:
  "insert_point nx header node =
     (case nx node of None \<Rightarrow> Some node | Some n \<Rightarrow> if header < n then Some node else insert_point nx header n)"

partial_function (option) node_before :: "(nat \<Rightarrow> nat option) \<Rightarrow> nat \<Rightarrow> nat option \<Rightarrow> (nat option) option" where [code]:
  "node_before nx header node =
     (case node of None \<Rightarrow> Some None | Some n \<Rightarrow> if nx n = Some header then Some (Some n) else node_before nx header (nx n))"

definition finsh_block_insert :: "nat option \<Rightarrow> nat \<Rightarrow> (nat \<Rightarrow> nat option) \<Rightarrow> (nat option \<times> (nat \<Rightarrow> nat option)) option" where
  "finsh_block_insert list header nx =
     (case list of
        None \<Rightarrow> Some (Some header, nx)
      | Some node \<Rightarrow>
          if header < node then Some (Some header, nx(header := Some node))
          else
            do {
              p \<leftarrow> insert_point nx header node;
              let nx1 = (if nx p \<noteq> None then nx(header := nx p) else nx);
              Some (list, nx1(p := Some header))
            })"

definition finsh_block_remove :: "nat option \<Rightarrow> nat \<Rightarrow> (nat \<Rightarrow> nat option) \<Rightarrow> (nat option \<times> (nat \<Rightarrow> nat option)) option" where
  "finsh_block_remove list header nx =
     (if list = Some header then Some (nx header, nx(header := None))
      else do { p \<leftarrow> node_before nx header list; Some (list, case p of None \<Rightarrow> nx | Some n \<Rightarrow> nx(n := nx header)) })"

definition finsh_block_split :: "nat \<Rightarrow> rt_uint32 \<Rightarrow> finsh_heap \<Rightarrow> finsh_heap" where
  "finsh_block_split header sz H =
     (let next = header + HEADER_SIZE + unat sz;
          H1 = H\<lparr>fh_length := (fh_length H)(next := fh_length H header - of_nat HEADER_SIZE - sz)\<rparr>;
          H2 = H1\<lparr>fh_length := (fh_length H1)(header := sz)\<rparr>;
          H3 = H2\<lparr>fh_next := (fh_next H2)(next := fh_next H2 header)\<rparr>
      in H3\<lparr>fh_next := (fh_next H3)(header := Some next)\<rparr>)"

definition close_to :: "finsh_heap \<Rightarrow> nat \<Rightarrow> nat \<Rightarrow> bool" where
  "close_to H a b \<longleftrightarrow> a + unat (fh_length H a) + HEADER_SIZE = b"

definition finsh_block_merge :: "nat option \<Rightarrow> nat \<Rightarrow> finsh_heap \<Rightarrow> finsh_heap option" where
  "finsh_block_merge list header H =
     do {
       let next_node = fh_next H header;
       prev_node \<leftarrow> (if list = Some header then Some None else node_before (fh_next H) header list);
       let before = (case prev_node of Some p \<Rightarrow> close_to H p header | None \<Rightarrow> False);
       let after = (case next_node of Some q \<Rightarrow> close_to H header q | None \<Rightarrow> False);
       Some (if before then
           (if after then
              H\<lparr>fh_length := (fh_length H)(the prev_node := fh_length H (the prev_node) + (fh_length H header + fh_length H (the next_node) + 2 * of_nat HEADER_SIZE)),
                fh_next := (fh_next H)(the prev_node := fh_next H (the next_node))\<rparr>
            else
              H\<lparr>fh_length := (fh_length H)(the prev_node := fh_length H (the prev_node) + (fh_length H header + of_nat HEADER_SIZE)),
                fh_next := (fh_next H)(the prev_node := fh_next H header)\<rparr>)
         else if after then
           H\<lparr>fh_length := (fh_length H)(header := fh_length H header + (fh_length H (the next_node) + of_nat HEADER_SIZE)),
             fh_next := (fh_next H)(header := fh_next H (the next_node))\<rparr>
         else H)
     }"

text \<open>A block is released by the offset of its bytes; the collection releases every allocated block to which no variable points.\<close>

definition finsh_heap_free :: "nat \<Rightarrow> finsh_heap \<Rightarrow> finsh_heap option" where
  "finsh_heap_free ptr H =
     do {
       let header = ptr - HEADER_SIZE;
       (al, nx) \<leftarrow> finsh_block_remove (fh_allocate_list H) header (fh_next H);
       (fl, nx1) \<leftarrow> finsh_block_insert (fh_free_list H) header nx;
       finsh_block_merge fl header (H\<lparr>fh_next := nx1, fh_allocate_list := al, fh_free_list := fl\<rparr>)
     }"

definition var_points :: "finsh \<Rightarrow> memory \<Rightarrow> finsh_heap \<Rightarrow> nat \<Rightarrow> bool" where
  "var_points F m H header \<longleftrightarrow>
     list_ex (\<lambda>i. var_type (global_variable F ! i) \<noteq> finsh_type_unknown \<and> mem_get Dword (var_value F i) m = block_address header H) [0..<length (global_variable F)]"

partial_function (option) gc_loop :: "(nat \<Rightarrow> bool) \<Rightarrow> nat option \<Rightarrow> finsh_heap \<Rightarrow> finsh_heap option" where [code]:
  "gc_loop used header H =
     (case header of
        None \<Rightarrow> Some H
      | Some temp \<Rightarrow>
          let next = fh_next H temp in
          if used temp then gc_loop used next H else do { H1 \<leftarrow> finsh_heap_free (temp + HEADER_SIZE) H; gc_loop used next H1 })"

definition finsh_heap_gc :: "finsh \<Rightarrow> memory \<Rightarrow> finsh_heap \<Rightarrow> finsh_heap option" where
  "finsh_heap_gc F m H = gc_loop (var_points F m H) (fh_allocate_list H) H"

text \<open>The first free block with a length the test accepts.\<close>

partial_function (option) first_fit :: "(rt_uint32 \<Rightarrow> bool) \<Rightarrow> nat option \<Rightarrow> finsh_heap \<Rightarrow> (nat option) option" where [code]:
  "first_fit fits header H =
     (case header of None \<Rightarrow> Some None | Some n \<Rightarrow> if fits (fh_length H n) then Some (Some n) else first_fit fits (fh_next H n) H)"

text \<open>The block that was found leaves the free list, with its rest in its place. The result is the address of its bytes.\<close>

definition take_block :: "nat \<Rightarrow> rt_uint32 \<Rightarrow> finsh_heap \<Rightarrow> finsh_heap option" where
  "take_block header sz H =
     do {
       let H1 = finsh_block_split header sz H;
       (fl, nx) \<leftarrow> finsh_block_remove (fh_free_list H1) header (fh_next H1);
       (al, nx1) \<leftarrow> finsh_block_insert (fh_allocate_list H1) header (nx(header := None));
       Some (H1\<lparr>fh_next := nx1, fh_free_list := fl, fh_allocate_list := al\<rparr>)
     }"

definition finsh_heap_allocate :: "rt_uint32 \<Rightarrow> finsh \<Rightarrow> memory \<Rightarrow> finsh_heap \<Rightarrow> (rt_uint32 option \<times> memory \<times> finsh_heap) option" where
  "finsh_heap_allocate size_in F m H =
     do {
       let sz = HEAP_ALIGN_SIZE size_in;
       found \<leftarrow> first_fit (\<lambda>l. \<not> l \<le> sz + of_nat HEADER_SIZE) (fh_free_list H) H;
       (r, H1) \<leftarrow>
         (case found of
            Some h \<Rightarrow> Some (Some h, H)
          | None \<Rightarrow>
              do {
                H1 \<leftarrow> finsh_heap_gc F m H;
                found \<leftarrow> first_fit (\<lambda>l. \<not> l < sz + of_nat HEADER_SIZE) (fh_free_list H1) H1;
                Some (found, H1)
              });
       (case r of
          None \<Rightarrow> Some (None, m, H1)
        | Some h \<Rightarrow> do { H2 \<leftarrow> take_block h sz H1; Some (Some (block_address h H2), mem_clear (block_address h H2) (unat sz) m, H2) })
     }"

section \<open>Sorted lists of blocks\<close>

text \<open>The blocks of a set as the list that the code keeps: linked in the order of the addresses.\<close>

definition listed :: "(nat \<Rightarrow> nat option) \<Rightarrow> nat option \<Rightarrow> nat set \<Rightarrow> bool" where
  "listed nx p S \<longleftrightarrow> finite S \<and> chain nx p (sorted_list_of_set S)"

lemma chain_other: "chain nx p xs \<Longrightarrow> (\<And>a. a \<in> set xs \<Longrightarrow> nx' a = nx a) \<Longrightarrow> chain nx' p xs"
  by (induction xs arbitrary: p) auto

lemma listed_other: "listed nx p S \<Longrightarrow> (\<And>a. a \<in> S \<Longrightarrow> nx' a = nx a) \<Longrightarrow> listed nx' p S"
  by (auto simp: listed_def intro: chain_other)

text \<open>The part of a chain after a node, and the change of that part.\<close>

lemma chain_after: "chain nx l (ys @ p # zs) \<Longrightarrow> chain nx (nx p) zs"
  by (induction ys arbitrary: l) auto

lemma chain_replace:
  "chain nx l (ys @ p # zs) \<Longrightarrow> (\<And>a. a \<in> set ys \<Longrightarrow> nx' a = nx a) \<Longrightarrow> chain nx' (nx' p) ws \<Longrightarrow> chain nx' l (ys @ p # ws)"
  by (induction ys arbitrary: l) auto

lemma strict_sorted_split: "sorted_wrt (<) (ys @ p # zs) \<longleftrightarrow> sorted_wrt (<) ys \<and> sorted_wrt (<) zs \<and> (\<forall>y\<in>set ys. y < p) \<and> (\<forall>z\<in>set zs. p < z) \<and> (\<forall>y\<in>set ys. \<forall>z\<in>set zs. y < (z::nat))"
  by (auto simp: sorted_wrt_append)

lemma listed_iff: "listed nx l S \<longleftrightarrow> (\<exists>xs. chain nx l xs \<and> sorted_wrt (<) xs \<and> set xs = S)"
proof
  assume "listed nx l S"
  then show "\<exists>xs. chain nx l xs \<and> sorted_wrt (<) xs \<and> set xs = S" by (intro exI [of _ "sorted_list_of_set S"]) (simp add: listed_def)
next
  assume "\<exists>xs. chain nx l xs \<and> sorted_wrt (<) xs \<and> set xs = S"
  then show "listed nx l S" by (metis List.finite_set listed_def sorted_list_of_set.idem_if_sorted_distinct strict_sorted_iff)
qed

lemma insert_point_ok:
  assumes "chain nx (nx n) xs" "sorted_wrt (<) (n # xs)" "h \<notin> set xs" "n < h"
  shows "\<exists>ys p zs. n # xs = ys @ p # zs \<and> insert_point nx h n = Some p \<and> (\<forall>y\<in>set (ys @ [p]). y < h) \<and> (\<forall>z\<in>set zs. h < z)"
  using assms
proof (induction xs arbitrary: n)
  case Nil
  then show ?case by (subst insert_point.simps) (auto intro!: exI [of _ "[]"])
next
  case (Cons x xs)
  show ?case
  proof (cases "h < x")
    case True
    have "insert_point nx h n = Some n" using Cons.prems(1) True by (subst insert_point.simps) simp
    then show ?thesis using Cons.prems(2,4) True by (intro exI [of _ "[]"] exI [of _ n] exI [of _ "x # xs"]) auto
  next
    case False
    then have "x < h" using Cons.prems(3) by auto
    then have "\<exists>ys p zs. x # xs = ys @ p # zs \<and> insert_point nx h x = Some p \<and> (\<forall>y\<in>set (ys @ [p]). y < h) \<and> (\<forall>z\<in>set zs. h < z)"
      using Cons.prems by (intro Cons.IH) auto
    then obtain ys p zs where p: "x # xs = ys @ p # zs" "insert_point nx h x = Some p" "\<forall>y\<in>set (ys @ [p]). y < h" "\<forall>z\<in>set zs. h < z"
      by (elim exE conjE) (rule that)
    have "insert_point nx h n = Some p" using Cons.prems(1) False p(2) by (subst insert_point.simps) simp
    then show ?thesis using p Cons.prems(4) by (intro exI [of _ "n # ys"] exI [of _ p] exI [of _ zs]) simp
  qed
qed

lemma block_insert_ok:
  assumes l: "listed nx p S" and h: "h \<notin> S" "nx h = None \<or> (\<exists>x\<in>S. h < x)"
  shows "\<exists>p' nx'. finsh_block_insert p h nx = Some (p', nx') \<and> listed nx' p' (insert h S) \<and> (\<forall>a. a \<notin> insert h S \<longrightarrow> nx' a = nx a)"
proof -
  obtain xs where c: "chain nx p xs" "sorted_wrt (<) xs" "set xs = S" using l by (auto simp: listed_iff)
  consider "xs = []" | n ws where "xs = n # ws" "h < n" | n ws where "xs = n # ws" "n < h" using h(1) c(3) by (cases xs) force+
  then show ?thesis
  proof cases
    case 1
    then show ?thesis using c h by (auto simp: finsh_block_insert_def listed_iff intro!: exI [of _ "[h]"])
  next
    case 2
    have "chain (nx(h := Some n)) (Some h) (h # xs)" using c(1,3) h(1) 2(1) by (auto simp: chain_upd)
    moreover have "sorted_wrt (<) (h # xs)" "set (h # xs) = insert h S" using c(2,3) 2 by auto
    ultimately have "listed (nx(h := Some n)) (Some h) (insert h S)" unfolding listed_iff by blast
    moreover have "finsh_block_insert p h nx = Some (Some h, nx(h := Some n))" using c(1) 2 by (simp add: finsh_block_insert_def)
    ultimately show ?thesis by auto
  next
    case 3
    have pre: "chain nx (nx n) ws" "sorted_wrt (<) (n # ws)" "h \<notin> set ws" using c 3 h(1) by auto
    obtain ys q zs where q: "xs = ys @ q # zs" "insert_point nx h n = Some q" "\<forall>y\<in>set (ys @ [q]). y < h" "\<forall>z\<in>set zs. h < z"
      using insert_point_ok [OF pre 3(2)] unfolding 3(1) [symmetric] by (elim exE conjE) (rule that)
    let ?nx = "nx(h := nx q, q := Some h)"
    have hn: "h \<noteq> q" "h \<notin> set ys" "h \<notin> set zs" "q \<notin> set ys" "q \<notin> set zs" using q(3,4) c(2) unfolding q(1) strict_sorted_split by auto
    have "chain nx (nx q) zs" using chain_after c(1) unfolding q(1) .
    then have "chain ?nx (?nx q) (h # zs)" using hn by (simp add: chain_upd)
    then have ch: "chain ?nx p (ys @ q # h # zs)" by (intro chain_replace [OF c(1) [unfolded q(1)]]) (use hn in auto)
    have srt: "sorted_wrt (<) (ys @ q # h # zs)" using c(2) q(3,4) unfolding q(1) strict_sorted_split by auto
    have "set (ys @ q # h # zs) = insert h S" using c(3) q(1) by auto
    then have "listed ?nx p (insert h S)" using ch srt unfolding listed_iff by blast
    moreover have "nx q = None \<Longrightarrow> nx h = None"
      using \<open>chain nx (nx q) zs\<close> h(2) q(3) c(3) q(1) by (cases zs) auto
    then have "(if nx q \<noteq> None then nx(h := nx q) else nx) = nx(h := nx q)" by (auto simp: fun_upd_idem)
    then have "finsh_block_insert p h nx = Some (p, ?nx)" using c(1) 3 q(2) by (auto simp: finsh_block_insert_def)
    moreover have "q \<in> S" using c(3) q(1) by auto
    ultimately show ?thesis by auto
  qed
qed

lemma node_before_ok:
  "chain nx l (ys @ q # h # zs) \<Longrightarrow> distinct (ys @ q # h # zs) \<Longrightarrow> node_before nx h l = Some (Some q)"
proof (induction ys arbitrary: l)
  case Nil
  then show ?case by (subst node_before.simps) simp
next
  case (Cons y ys)
  have "nx y \<noteq> Some h" using Cons.prems by (cases ys) auto
  then show ?case using Cons by (subst node_before.simps) simp
qed

text \<open>A node is linked behind another one that has no node of the list between them.\<close>

lemma listed_after:
  assumes l: "listed nx p S" and h: "h \<in> S" "h < n" "\<And>a. a \<in> S \<Longrightarrow> h < a \<Longrightarrow> n < a"
  shows "listed (nx(n := nx h, h := Some n)) p (insert n S)"
proof -
  obtain xs where c: "chain nx p xs" "sorted_wrt (<) xs" "set xs = S" using l by (auto simp: listed_iff)
  obtain ys zs where x: "xs = ys @ h # zs" using h(1) c(3) split_list by metis
  have z: "\<forall>z\<in>set zs. n < z" "\<forall>y\<in>set ys. y < h" using c(2,3) h(3) unfolding x strict_sorted_split by auto
  let ?nx = "nx(n := nx h, h := Some n)"
  have d: "n \<notin> set zs" "h \<notin> set zs" "h \<notin> set ys" "n \<notin> set ys" "n \<noteq> h" using z h(2) by auto
  then have "chain ?nx (?nx h) (n # zs)" using chain_after [OF c(1) [unfolded x]] by (simp add: chain_upd)
  then have "chain ?nx p (ys @ h # n # zs)" by (intro chain_replace [OF c(1) [unfolded x]]) (use d in auto)
  moreover have "sorted_wrt (<) (ys @ h # n # zs)" using c(2) z h(2) unfolding x strict_sorted_split by fastforce
  moreover have "set (ys @ h # n # zs) = insert n S" using c(3) x by auto
  ultimately show ?thesis unfolding listed_iff by blast
qed

text \<open>The nodes before and after a node of a list, and leaving out the one after it.\<close>

lemma listed_neighbours:
  assumes l: "listed nx p S" and h: "h \<in> S"
  shows "case nx h of None \<Rightarrow> (\<forall>a\<in>S. a \<le> h) | Some q \<Rightarrow> q \<in> S \<and> h < q \<and> (\<forall>a\<in>S. a \<le> h \<or> q \<le> a)"
    "p = Some h \<Longrightarrow> \<forall>a\<in>S. h \<le> a"
    "p \<noteq> Some h \<Longrightarrow> \<exists>q. node_before nx h p = Some (Some q) \<and> nx q = Some h \<and> q \<in> S"
proof -
  obtain xs where c: "chain nx p xs" "sorted_wrt (<) xs" "set xs = S" using l by (auto simp: listed_iff)
  obtain ys zs where x: "xs = ys @ h # zs" using h c(3) split_list by metis
  have z: "chain nx (nx h) zs" using chain_after c(1) unfolding x .
  show "case nx h of None \<Rightarrow> (\<forall>a\<in>S. a \<le> h) | Some q \<Rightarrow> q \<in> S \<and> h < q \<and> (\<forall>a\<in>S. a \<le> h \<or> q \<le> a)"
    using z c(2) unfolding c(3) [symmetric] x strict_sorted_split by (cases zs) (auto simp: less_imp_le)
  show "\<forall>a\<in>S. h \<le> a" if "p = Some h" using that c(1,2) unfolding c(3) [symmetric] x strict_sorted_split by (cases ys) (auto simp: less_imp_le)
  show "\<exists>q. node_before nx h p = Some (Some q) \<and> nx q = Some h \<and> q \<in> S" if ne: "p \<noteq> Some h"
  proof (cases ys rule: rev_cases)
    case Nil
    then show ?thesis using ne c(1) x by simp
  next
    case (snoc us q)
    have d: "chain nx p (us @ q # h # zs)" "distinct (us @ q # h # zs)" using c(1,2) x snoc strict_sorted_iff [of xs] by simp_all
    then show ?thesis using node_before_ok [OF d] chain_after [OF d(1)] c(3) x snoc by auto
  qed
qed

lemma listed_skip:
  assumes l: "listed nx p S" and q: "q \<in> S" "nx q = Some h"
  shows "listed (nx(q := nx h)) p (S - {h})"
proof -
  obtain xs where c: "chain nx p xs" "sorted_wrt (<) xs" "set xs = S" using l by (auto simp: listed_iff)
  obtain ys us where "xs = ys @ q # us" using q(1) c(3) split_list by metis
  then obtain zs where x: "xs = ys @ q # h # zs" using chain_after [of nx p ys q us] c(1) q(2) by (cases us) auto
  have d: "distinct (ys @ q # h # zs)" using c(2) x strict_sorted_iff by blast
  let ?nx = "nx(q := nx h)"
  have "chain nx (nx h) zs" using chain_after [of nx p "ys @ [q]" h zs] c(1) x by simp
  then have "chain ?nx (?nx q) zs" using d by (simp add: chain_upd)
  then have "chain ?nx p (ys @ q # zs)" by (intro chain_replace [OF c(1) [unfolded x]]) (use d in auto)
  moreover have "sorted_wrt (<) (ys @ q # zs)" "set (ys @ q # zs) = S - {h}" using c(2,3) d unfolding x by (auto simp: sorted_wrt_append)
  ultimately show ?thesis unfolding listed_iff by blast
qed

lemma block_remove_ok:
  assumes l: "listed nx p S" and h: "h \<in> S"
  shows "\<exists>p' nx'. finsh_block_remove p h nx = Some (p', nx') \<and> listed nx' p' (S - {h}) \<and> (\<forall>a. a \<notin> S \<longrightarrow> nx' a = nx a)"
proof (cases "p = Some h")
  case True
  obtain xs where c: "chain nx p xs" "sorted_wrt (<) xs" "set xs = S" using l by (auto simp: listed_iff)
  then obtain zs where z: "xs = h # zs" using True by (cases xs) auto
  then have "h \<notin> set zs" using c(2) by auto
  then have "chain (nx(h := None)) (nx h) zs" "sorted_wrt (<) zs" "set zs = S - {h}" using c z by (auto simp: chain_upd)
  then have "listed (nx(h := None)) (nx h) (S - {h})" unfolding listed_iff by blast
  then show ?thesis using True h by (auto simp: finsh_block_remove_def)
next
  case False
  obtain q where q: "node_before nx h p = Some (Some q)" "nx q = Some h" "q \<in> S" using listed_neighbours(3) [OF l h False] by blast
  then have "finsh_block_remove p h nx = Some (p, nx(q := nx h))" using False by (simp add: finsh_block_remove_def)
  then show ?thesis using listed_skip [OF l q(3,2)] q(3) by auto
qed

section \<open>The blocks tile the heap\<close>

text \<open>Every byte of the heap is in one block: a block ends where another one, or the heap, begins or ends, and blocks do not overlap.\<close>

definition block_end :: "(nat \<Rightarrow> nat) \<Rightarrow> nat \<Rightarrow> nat" where
  "block_end L a = a + HEADER_SIZE + L a"

definition tiled :: "(nat \<Rightarrow> nat) \<Rightarrow> nat set \<Rightarrow> bool" where
  "tiled L B \<longleftrightarrow> 0 \<in> B \<and> (\<forall>a\<in>B. block_end L a \<in> insert FINSH_HEAP_MAX B \<and> block_end L a \<le> FINSH_HEAP_MAX) \<and> (\<forall>a\<in>B. \<forall>b\<in>B. a < b \<longrightarrow> block_end L a \<le> b)"

lemma tiledD:
  assumes "tiled L B" "a \<in> B"
  shows "block_end L a \<le> FINSH_HEAP_MAX" "block_end L a = FINSH_HEAP_MAX \<or> block_end L a \<in> B" "b \<in> B \<Longrightarrow> a < b \<Longrightarrow> block_end L a \<le> b" "L a \<le> FINSH_HEAP_MAX - HEADER_SIZE"
  using assms by (auto simp: tiled_def block_end_def)

lemma tiled_split:
  assumes t: "tiled L B" and a: "a \<in> B" "sz + HEADER_SIZE \<le> L a"
  defines "n \<equiv> a + HEADER_SIZE + sz"
  shows "tiled (L(n := L a - HEADER_SIZE - sz, a := sz)) (insert n B)" "n \<notin> B" "\<And>b. b \<in> B \<Longrightarrow> a < b \<Longrightarrow> n < b"
proof -
  let ?L = "L(n := L a - HEADER_SIZE - sz, a := sz)"
  show after: "n < b" if "b \<in> B" "a < b" for b using tiledD(3) [OF t a(1) that] a(2) by (simp add: n_def block_end_def)
  have an: "a < n" by (simp add: n_def)
  then show nB: "n \<notin> B" using after by blast
  have e: "block_end ?L a = n" "block_end ?L n = block_end L a" "\<And>b. b \<in> B \<Longrightarrow> b \<noteq> a \<Longrightarrow> block_end ?L b = block_end L b"
    using an nB a(2) by (auto simp: block_end_def n_def)
  have le: "block_end L b \<le> a" if "b \<in> B" "b < n" "b \<noteq> a" for b using that after [of b] tiledD(3) [OF t that(1) a(1)] by force
  show "tiled ?L (insert n B)" unfolding tiled_def
  proof (intro conjI ballI impI)
    show "0 \<in> insert n B" using t by (simp add: tiled_def)
    fix b assume b: "b \<in> insert n B"
    have n: "n \<le> FINSH_HEAP_MAX" using tiledD(4) [OF t a(1)] tiledD(1) [OF t a(1)] a(2) by (simp add: n_def block_end_def)
    show "block_end ?L b \<in> insert FINSH_HEAP_MAX (insert n B)" "block_end ?L b \<le> FINSH_HEAP_MAX"
      using b e tiledD(1,2) [OF t a(1)] tiledD(1,2) [OF t, of b] n by (cases "b = n"; cases "b = a"; auto)+
    fix c assume c: "c \<in> insert n B" "b < c"
    show "block_end ?L b \<le> c"
      using b c e le after tiledD(3) [OF t, of b c] tiledD(3) [OF t a(1), of c] an by (cases "b = n"; cases "b = a"; cases "c = n"; force)
  qed
qed

lemma tiled_merge:
  assumes t: "tiled L B" and a: "a \<in> B" "b \<in> B" "block_end L a = b"
  shows "tiled (L(a := L a + HEADER_SIZE + L b)) (B - {b})" "block_end (L(a := L a + HEADER_SIZE + L b)) a = block_end L b"
proof -
  let ?L = "L(a := L a + HEADER_SIZE + L b)"
  have e: "block_end ?L a = block_end L b" "\<And>c. c \<noteq> a \<Longrightarrow> block_end ?L c = block_end L c" using a(3) by (auto simp: block_end_def)
  show "block_end ?L a = block_end L b" by (rule e(1))
  have ab: "a < b" using a(3) by (simp add: block_end_def)
  have nb: "block_end L c \<noteq> b" if "c \<in> B" "c \<noteq> a" for c
  proof (cases "c < a")
    case True
    then show ?thesis using tiledD(3) [OF t that(1) a(1)] ab by simp
  next
    case False
    then show ?thesis using tiledD(3) [OF t a(1) that(1)] that(2) a(3) by (simp add: block_end_def)
  qed
  have self: "block_end L b \<noteq> b" by (simp add: block_end_def)
  have le: "block_end L b \<le> c" if "c \<in> B" "a < c" "c \<noteq> b" for c using tiledD(3) [OF t a(2) that(1)] tiledD(3) [OF t a(1) that(1,2)] a(3) that(3) by simp
  show "tiled ?L (B - {b})" unfolding tiled_def
  proof (intro conjI ballI impI)
    show "0 \<in> B - {b}" using t ab by (simp add: tiled_def)
    fix c assume c: "c \<in> B - {b}"
    show "block_end ?L c \<in> insert FINSH_HEAP_MAX (B - {b})" "block_end ?L c \<le> FINSH_HEAP_MAX"
      using c e nb self tiledD(1,2) [OF t a(2)] tiledD(1,2) [OF t, of c] by (cases "c = a"; auto)+
    fix d assume d: "d \<in> B - {b}" "c < d"
    show "block_end ?L c \<le> d" using c d e le tiledD(3) [OF t, of c d] by (cases "c = a") auto
  qed
qed

section \<open>The invariant\<close>

text \<open>
  The free and the allocated blocks are in their lists and tile the heap; the last block of the heap is free. Between two calls no two free blocks touch.
\<close>

abbreviation lengths :: "finsh_heap \<Rightarrow> nat \<Rightarrow> nat" where
  "lengths H \<equiv> \<lambda>a. unat (fh_length H a)"

definition heap_lists :: "finsh_heap \<Rightarrow> nat set \<Rightarrow> nat set \<Rightarrow> bool" where
  "heap_lists H FS AS \<longleftrightarrow> listed (fh_next H) (fh_free_list H) FS \<and> listed (fh_next H) (fh_allocate_list H) AS \<and> FS \<inter> AS = {}
     \<and> tiled (lengths H) (FS \<union> AS) \<and> (\<exists>t\<in>FS. block_end (lengths H) t = FINSH_HEAP_MAX)"

definition coalesced :: "(nat \<Rightarrow> nat) \<Rightarrow> nat set \<Rightarrow> bool" where
  "coalesced L FS \<longleftrightarrow> (\<forall>a\<in>FS. block_end L a \<notin> FS)"

definition finsh_heap_ok :: "finsh_heap \<Rightarrow> nat set \<Rightarrow> nat set \<Rightarrow> bool" where
  "finsh_heap_ok H FS AS \<longleftrightarrow> heap_lists H FS AS \<and> coalesced (lengths H) FS"

lemma heap_init_ok: "finsh_heap_init H m = (H', m') \<Longrightarrow> finsh_heap_ok H' {0} {}"
  by (auto simp: finsh_heap_init_def finsh_heap_ok_def heap_lists_def coalesced_def listed_def tiled_def block_end_def)

lemma split_eq:
  "finsh_block_split h sz H = (let n = h + HEADER_SIZE + unat sz in
     H\<lparr>fh_length := (fh_length H)(n := fh_length H h - of_nat HEADER_SIZE - sz, h := sz), fh_next := (fh_next H)(n := fh_next H h, h := Some n)\<rparr>)"
  by (simp add: finsh_block_split_def Let_def)

lemma take_block_ok:
  assumes ok: "finsh_heap_ok H FS AS" and h: "h \<in> FS" "unat sz + HEADER_SIZE \<le> lengths H h"
  defines "n \<equiv> h + HEADER_SIZE + unat sz"
  shows "\<exists>H'. take_block h sz H = Some H' \<and> finsh_heap_ok H' (insert n FS - {h}) (insert h AS)
    \<and> fh_length H' = (fh_length H)(n := fh_length H h - of_nat HEADER_SIZE - sz, h := sz) \<and> fh_base H' = fh_base H"
proof -
  let ?L = "(fh_length H)(n := fh_length H h - of_nat HEADER_SIZE - sz, h := sz)"
  let ?nx = "(fh_next H)(n := fh_next H h, h := Some n)"
  have li: "listed (fh_next H) (fh_free_list H) FS" "listed (fh_next H) (fh_allocate_list H) AS" "FS \<inter> AS = {}" and t: "tiled (lengths H) (FS \<union> AS)"
    and co: "coalesced (lengths H) FS" using ok by (auto simp: finsh_heap_ok_def heap_lists_def)
  have hB: "h \<in> FS \<union> AS" using h(1) by simp
  note sp = tiled_split [OF t hB h(2), folded n_def]
  have "unat (fh_length H h - of_nat HEADER_SIZE - sz) = lengths H h - HEADER_SIZE - unat sz" using h(2) by (simp add: unat_sub word_le_nat_alt)
  then have L: "(\<lambda>a. unat (?L a)) = (lengths H)(n := lengths H h - HEADER_SIZE - unat sz, h := unat sz)" by auto
  have f1: "listed ?nx (fh_free_list H) (insert n FS)" using sp(2,3) by (intro listed_after [OF li(1) h(1)]) (auto simp: n_def)
  have a1: "listed ?nx (fh_allocate_list H) AS" using sp(2) h(1) li(3) by (intro listed_other [OF li(2)]) auto
  obtain fl nx2 where r: "finsh_block_remove (fh_free_list H) h ?nx = Some (fl, nx2)" "listed nx2 fl (insert n FS - {h})" "\<forall>a. a \<notin> insert n FS \<longrightarrow> nx2 a = ?nx a"
    using block_remove_ok [OF f1, of h] h(1) by blast
  have a2: "listed (nx2(h := None)) (fh_allocate_list H) AS" using r(3) sp(2) h(1) li(3) by (intro listed_other [OF a1]) auto
  have f2: "listed (nx2(h := None)) fl (insert n FS - {h})" by (rule listed_other [OF r(2)]) auto
  have hA: "h \<notin> AS" using h(1) li(3) by auto
  obtain al nx3 where i: "finsh_block_insert (fh_allocate_list H) h (nx2(h := None)) = Some (al, nx3)" "listed nx3 al (insert h AS)"
    "\<forall>a. a \<notin> insert h AS \<longrightarrow> nx3 a = (nx2(h := None)) a" using block_insert_ok [OF a2 hA] by auto
  have f3: "listed nx3 fl (insert n FS - {h})" using i(3) sp(2) li(3) by (intro listed_other [OF f2]) auto
  let ?H = "H\<lparr>fh_length := ?L, fh_next := nx3, fh_free_list := fl, fh_allocate_list := al\<rparr>"
  have tk: "take_block h sz H = Some ?H" using r(1) i(1) by (simp add: take_block_def split_eq n_def [symmetric] Let_def)
  have u: "(insert n FS - {h}) \<union> insert h AS = insert n (FS \<union> AS)" using sp(2) h(1) n_def by auto
  have nh: "h < n" by (simp add: n_def)
  have e: "block_end (lengths ?H) n = block_end (lengths H) h" "\<And>b. b \<in> FS \<Longrightarrow> b \<noteq> h \<Longrightarrow> block_end (lengths ?H) b = block_end (lengths H) b"
    using sp(2) h(2) nh L by (auto simp: block_end_def n_def)
  obtain x where x: "x \<in> FS" "block_end (lengths H) x = FINSH_HEAP_MAX" using ok by (auto simp: finsh_heap_ok_def heap_lists_def)
  have top: "\<exists>t\<in>insert n FS - {h}. block_end (lengths ?H) t = FINSH_HEAP_MAX"
    using x e nh by (cases "x = h") (auto intro: bexI [of _ n] bexI [of _ x])
  have "heap_lists ?H (insert n FS - {h}) (insert h AS)"
    unfolding heap_lists_def using f3 i(2) sp(1) L u top li(3) sp(2) h(1) by (auto simp: n_def)
  moreover have "coalesced (lengths ?H) (insert n FS - {h})" unfolding coalesced_def
  proof
    fix a assume a: "a \<in> insert n FS - {h}"
    have "block_end (lengths H) a \<noteq> n" if "a \<in> FS" "a \<noteq> h"
    proof (cases "a < h")
      case True
      then show ?thesis using tiledD(3) [OF t, of a h] that(1) hB nh by auto
    next
      case False
      then have "n < a" using sp(3) [of a] that by auto
      then show ?thesis by (simp add: block_end_def)
    qed
    moreover have "block_end (lengths ?H) n \<noteq> n" by (simp add: block_end_def)
    ultimately show "block_end (lengths ?H) a \<notin> insert n FS - {h}" using a e co h(1) by (cases "a = n") (auto simp: coalesced_def)
  qed
  ultimately have "finsh_heap_ok ?H (insert n FS - {h}) (insert h AS)" by (simp add: finsh_heap_ok_def)
  then show ?thesis using tk by (intro exI [of _ ?H]) simp
qed

text \<open>Two free blocks that touch become one.\<close>

definition join :: "nat \<Rightarrow> nat \<Rightarrow> finsh_heap \<Rightarrow> finsh_heap" where
  "join a b H = H\<lparr>fh_length := (fh_length H)(a := fh_length H a + (fh_length H b + of_nat HEADER_SIZE)), fh_next := (fh_next H)(a := fh_next H b)\<rparr>"

lemma join_ok:
  assumes ok: "heap_lists H FS AS" and ab: "a \<in> FS" "b \<in> FS" "fh_next H a = Some b" "block_end (lengths H) a = b"
  shows "heap_lists (join a b H) (FS - {b}) AS" "block_end (lengths (join a b H)) a = block_end (lengths H) b"
    "\<And>c. c \<noteq> a \<Longrightarrow> block_end (lengths (join a b H)) c = block_end (lengths H) c"
proof -
  have li: "listed (fh_next H) (fh_free_list H) FS" "listed (fh_next H) (fh_allocate_list H) AS" "FS \<inter> AS = {}" and t: "tiled (lengths H) (FS \<union> AS)"
    using ok by (auto simp: heap_lists_def)
  have B: "a \<in> FS \<union> AS" "b \<in> FS \<union> AS" using ab by auto
  have "lengths H a \<le> 120" "lengths H b \<le> 120" using tiledD(4) [OF t B(1)] tiledD(4) [OF t B(2)] by simp_all
  then have "unat (fh_length H a + (fh_length H b + 8)) = lengths H a + 8 + lengths H b" by (subst unat_word_ariths, subst unat_word_ariths) simp
  then have L: "lengths (join a b H) = (lengths H)(a := lengths H a + HEADER_SIZE + lengths H b)" by (auto simp: join_def)
  note mg = tiled_merge [OF t B ab(4)]
  show e: "block_end (lengths (join a b H)) a = block_end (lengths H) b" using mg(2) L by simp
  show o: "block_end (lengths (join a b H)) c = block_end (lengths H) c" if "c \<noteq> a" for c using that by (simp add: join_def block_end_def)
  have f: "listed (fh_next (join a b H)) (fh_free_list (join a b H)) (FS - {b})" using listed_skip [OF li(1) ab(1,3)] by (simp add: join_def)
  have "listed ((fh_next H)(a := fh_next H b)) (fh_allocate_list H) AS" using ab(1) li(3) by (intro listed_other [OF li(2)]) auto
  then have al: "listed (fh_next (join a b H)) (fh_allocate_list (join a b H)) AS" by (simp add: join_def)
  have "FS \<union> AS - {b} = (FS - {b}) \<union> AS" using ab(2) li(3) by auto
  then have ti: "tiled (lengths (join a b H)) ((FS - {b}) \<union> AS)" using mg(1) L by simp
  obtain x where x: "x \<in> FS" "block_end (lengths H) x = FINSH_HEAP_MAX" using ok by (auto simp: heap_lists_def)
  have "a < b" using ab(4) by (simp add: block_end_def)
  moreover have "x \<noteq> a" using x ab(4) tiledD(1) [OF t B(2)] by (auto simp: block_end_def)
  ultimately have "\<exists>t\<in>FS - {b}. block_end (lengths (join a b H)) t = FINSH_HEAP_MAX"
    using x e o ab(1) by (cases "x = b") (auto intro: bexI [of _ a] bexI [of _ x])
  then show "heap_lists (join a b H) (FS - {b}) AS" using f al ti li(3) by (auto simp: heap_lists_def)
qed

text \<open>The test for neighbours in the list finds every block that touches.\<close>

lemma close_after:
  assumes ok: "heap_lists H FS AS" and h: "h \<in> FS"
  shows "(case fh_next H h of Some q \<Rightarrow> close_to H h q | None \<Rightarrow> False) \<longleftrightarrow> block_end (lengths H) h \<in> FS"
proof -
  have li: "listed (fh_next H) (fh_free_list H) FS" and t: "tiled (lengths H) (FS \<union> AS)" using ok by (auto simp: heap_lists_def)
  have c: "close_to H h q \<longleftrightarrow> block_end (lengths H) h = q" for q by (auto simp: close_to_def block_end_def)
  have up: "h < block_end (lengths H) h" by (simp add: block_end_def)
  show ?thesis
  proof (cases "fh_next H h")
    case None
    then show ?thesis using listed_neighbours(1) [OF li h] up by auto
  next
    case (Some q)
    then have q: "q \<in> FS" "h < q" "\<forall>a\<in>FS. a \<le> h \<or> q \<le> a" using listed_neighbours(1) [OF li h] by auto
    then have "block_end (lengths H) h \<le> q" using tiledD(3) [OF t, of h q] h by auto
    then show ?thesis using Some q c up by auto
  qed
qed

lemma close_before:
  assumes ok: "heap_lists H FS AS" and h: "h \<in> FS"
  shows "\<exists>r. (if fh_free_list H = Some h then Some None else node_before (fh_next H) h (fh_free_list H)) = Some r
    \<and> (case r of Some p \<Rightarrow> p \<in> FS \<and> fh_next H p = Some h | None \<Rightarrow> True)
    \<and> ((case r of Some p \<Rightarrow> close_to H p h | None \<Rightarrow> False) \<longleftrightarrow> (\<exists>a\<in>FS. block_end (lengths H) a = h))"
proof -
  have li: "listed (fh_next H) (fh_free_list H) FS" and t: "tiled (lengths H) (FS \<union> AS)" using ok by (auto simp: heap_lists_def)
  have up: "a < block_end (lengths H) a" for a by (simp add: block_end_def)
  show ?thesis
  proof (cases "fh_free_list H = Some h")
    case True
    then have "block_end (lengths H) a \<noteq> h" if "a \<in> FS" for a using listed_neighbours(2) [OF li h] that up [of a] by (metis not_less)
    then show ?thesis using True by simp
  next
    case False
    then obtain p where p: "node_before (fh_next H) h (fh_free_list H) = Some (Some p)" "fh_next H p = Some h" "p \<in> FS"
      using listed_neighbours(3) [OF li h] by blast
    have nb: "h \<in> FS" "p < h" "\<forall>a\<in>FS. a \<le> p \<or> h \<le> a" using listed_neighbours(1) [OF li p(3)] p(2) by auto
    have "a = p" if "a \<in> FS" "block_end (lengths H) a = h" for a
    proof -
      have "a \<le> p" using up [of a] that nb(3) by force
      moreover have "\<not> a < p" using tiledD(3) [OF t, of a p] that p(3) nb(2) by auto
      ultimately show ?thesis by simp
    qed
    moreover have "close_to H p h \<longleftrightarrow> block_end (lengths H) p = h" by (auto simp: close_to_def block_end_def)
    ultimately have "close_to H p h \<longleftrightarrow> (\<exists>a\<in>FS. block_end (lengths H) a = h)" using p(3) by blast
    then show ?thesis using False p by simp
  qed
qed

lemma merge_eq:
  assumes "p \<noteq> h" "q \<noteq> p" "fh_next H h = Some q"
  shows "H\<lparr>fh_length := (fh_length H)(p := fh_length H p + (fh_length H h + fh_length H q + 2 * of_nat HEADER_SIZE)), fh_next := (fh_next H)(p := fh_next H q)\<rparr>
    = join p q (join p h H)"
  using assms by (simp add: join_def algebra_simps)

lemma block_merge_ok:
  assumes ok: "heap_lists H FS AS" and h: "h \<in> FS" and co: "coalesced (lengths H) (FS - {h})"
  shows "\<exists>H' FS'. finsh_block_merge (fh_free_list H) h H = Some H' \<and> finsh_heap_ok H' FS' AS \<and> FS' \<subseteq> FS
    \<and> (\<forall>a. a \<notin> FS \<longrightarrow> fh_length H' a = fh_length H a) \<and> fh_base H' = fh_base H"
proof -
  let ?E = "block_end (lengths H)"
  obtain r where r: "(if fh_free_list H = Some h then Some None else node_before (fh_next H) h (fh_free_list H)) = Some r"
    "case r of Some p \<Rightarrow> p \<in> FS \<and> fh_next H p = Some h | None \<Rightarrow> True"
    "(case r of Some p \<Rightarrow> close_to H p h | None \<Rightarrow> False) \<longleftrightarrow> (\<exists>a\<in>FS. ?E a = h)"
    using close_before [OF ok h] by (elim exE conjE) (rule that)
  note ca = close_after [OF ok h]
  have up: "a < ?E a" for a by (simp add: block_end_def)
  have cs: "?E a \<notin> FS \<or> ?E a = h" if "a \<in> FS" "a \<noteq> h" for a using co that by (auto simp: coalesced_def)
  have after: "\<exists>q. fh_next H h = Some q \<and> q \<in> FS \<and> ?E h = q" if "?E h \<in> FS" using ca that by (auto simp: close_to_def block_end_def split: option.splits)
  have before: "\<exists>p. r = Some p \<and> p \<in> FS \<and> fh_next H p = Some h \<and> ?E p = h" if "\<exists>a\<in>FS. ?E a = h"
    using r(2,3) that by (auto simp: close_to_def block_end_def split: option.splits)
  consider (none) "\<not> (\<exists>a\<in>FS. ?E a = h)" "?E h \<notin> FS" | (succ) "\<not> (\<exists>a\<in>FS. ?E a = h)" "?E h \<in> FS"
    | (pred) "\<exists>a\<in>FS. ?E a = h" "?E h \<notin> FS" | (both) "\<exists>a\<in>FS. ?E a = h" "?E h \<in> FS" by blast
  then show ?thesis
  proof cases
    case none
    then have "finsh_block_merge (fh_free_list H) h H = Some H" using r(1,3) ca by (simp add: finsh_block_merge_def)
    moreover have "coalesced (lengths H) FS" using none cs by (auto simp: coalesced_def)
    ultimately show ?thesis using ok by (auto simp: finsh_heap_ok_def)
  next
    case succ
    obtain q where q: "fh_next H h = Some q" "q \<in> FS" "?E h = q" using after [OF succ(2)] by blast
    have m: "finsh_block_merge (fh_free_list H) h H = Some (join h q H)" using r(1,3) ca succ q by (simp add: finsh_block_merge_def join_def)
    note j = join_ok [OF ok h q(2,1,3)]
    have "?E q \<notin> FS" using cs [OF q(2)] up [of q] up [of h] q(3) by auto
    then have "coalesced (lengths (join h q H)) (FS - {q})" unfolding coalesced_def using j(2,3) cs succ(1) by (metis DiffD1)
    then show ?thesis using m j(1) h by (intro exI [of _ "join h q H"] exI [of _ "FS - {q}"]) (auto simp: finsh_heap_ok_def join_def)
  next
    case pred
    obtain p where p: "r = Some p" "p \<in> FS" "fh_next H p = Some h" "?E p = h" using before [OF pred(1)] by blast
    have m: "finsh_block_merge (fh_free_list H) h H = Some (join p h H)" using r(1,3) ca pred p(1) by (simp add: finsh_block_merge_def join_def)
    note j = join_ok [OF ok p(2) h p(3,4)]
    have "coalesced (lengths (join p h H)) (FS - {h})" unfolding coalesced_def using j(2,3) cs pred(2) by (metis DiffD1 DiffD2 singletonI)
    then show ?thesis using m j(1) p(2) by (intro exI [of _ "join p h H"] exI [of _ "FS - {h}"]) (auto simp: finsh_heap_ok_def join_def)
  next
    case both
    obtain q where q: "fh_next H h = Some q" "q \<in> FS" "?E h = q" using after [OF both(2)] by blast
    obtain p where p: "r = Some p" "p \<in> FS" "fh_next H p = Some h" "?E p = h" using before [OF both(1)] by blast
    have d: "p \<noteq> h" "q \<noteq> p" "q \<noteq> h" using up [of p] up [of h] p(4) q(3) by auto
    note j = join_ok [OF ok p(2) h p(3,4)]
    have "fh_next (join p h H) p = Some q" using q(1) by (simp add: join_def)
    moreover have "block_end (lengths (join p h H)) p = q" using j(2) q(3) by simp
    ultimately have j2: "heap_lists (join p q (join p h H)) (FS - {h} - {q}) AS"
      "block_end (lengths (join p q (join p h H))) p = block_end (lengths (join p h H)) q"
      "\<And>c. c \<noteq> p \<Longrightarrow> block_end (lengths (join p q (join p h H))) c = block_end (lengths (join p h H)) c"
      using join_ok [OF j(1), of p q] p(2) q(2) d by auto
    have m: "finsh_block_merge (fh_free_list H) h H = Some (join p q (join p h H))"
      using r(1,3) ca both p(1) q(1) merge_eq [of p h q H] d by (simp add: finsh_block_merge_def)
    have "?E q \<notin> FS" using cs [OF q(2) d(3)] up [of q] up [of h] q(3) by auto
    then have "coalesced (lengths (join p q (join p h H))) (FS - {h} - {q})"
      unfolding coalesced_def using j2(2,3) j(3) cs d(2) by (metis DiffD1 DiffD2 singletonI)
    then show ?thesis using m j2(1) p(2) by (intro exI [of _ "join p q (join p h H)"] exI [of _ "FS - {h} - {q}"]) (auto simp: finsh_heap_ok_def join_def)
  qed
qed

section \<open>Release, collection and allocation\<close>

lemma heap_free_ok:
  assumes ok: "finsh_heap_ok H FS AS" and h: "h \<in> AS"
  shows "\<exists>H' FS'. finsh_heap_free (h + HEADER_SIZE) H = Some H' \<and> finsh_heap_ok H' FS' (AS - {h})
    \<and> (\<forall>a\<in>AS - {h}. fh_length H' a = fh_length H a) \<and> fh_base H' = fh_base H"
proof -
  have li: "listed (fh_next H) (fh_free_list H) FS" "listed (fh_next H) (fh_allocate_list H) AS" "FS \<inter> AS = {}" and t: "tiled (lengths H) (FS \<union> AS)"
    and co: "coalesced (lengths H) FS" using ok by (auto simp: finsh_heap_ok_def heap_lists_def)
  obtain x where x: "x \<in> FS" "block_end (lengths H) x = FINSH_HEAP_MAX" using ok by (auto simp: finsh_heap_ok_def heap_lists_def)
  have hF: "h \<notin> FS" using h li(3) by auto
  have "block_end (lengths H) h \<le> FINSH_HEAP_MAX" using tiledD(1) [OF t, of h] h by simp
  then have "\<not> x < h" using tiledD(3) [OF t, of x h] x h by (auto simp: block_end_def)
  then have "h < x" using x(1) hF by (cases "h = x") auto
  then have last: "\<exists>x\<in>FS. h < x" using x(1) by blast
  obtain al nx where r: "finsh_block_remove (fh_allocate_list H) h (fh_next H) = Some (al, nx)" "listed nx al (AS - {h})" "\<forall>a. a \<notin> AS \<longrightarrow> nx a = fh_next H a"
    using block_remove_ok [OF li(2) h] by blast
  have f: "listed nx (fh_free_list H) FS" using r(3) li(3) by (intro listed_other [OF li(1)]) auto
  obtain fl nx1 where i: "finsh_block_insert (fh_free_list H) h nx = Some (fl, nx1)" "listed nx1 fl (insert h FS)" "\<forall>a. a \<notin> insert h FS \<longrightarrow> nx1 a = nx a"
    using block_insert_ok [OF f hF] last by blast
  have a: "listed nx1 al (AS - {h})" using i(3) li(3) by (intro listed_other [OF r(2)]) auto
  let ?H = "H\<lparr>fh_next := nx1, fh_allocate_list := al, fh_free_list := fl\<rparr>"
  have "insert h FS \<union> (AS - {h}) = FS \<union> AS" using h by auto
  then have "heap_lists ?H (insert h FS) (AS - {h})" using i(2) a li(3) t x by (auto simp: heap_lists_def)
  moreover have "insert h FS - {h} = FS" using hF by auto
  then have "coalesced (lengths ?H) (insert h FS - {h})" using co by simp
  ultimately obtain H' FS' where m: "finsh_block_merge fl h ?H = Some H'" "finsh_heap_ok H' FS' (AS - {h})" "\<forall>a. a \<notin> insert h FS \<longrightarrow> fh_length H' a = fh_length ?H a"
    "fh_base H' = fh_base ?H" using block_merge_ok [of ?H "insert h FS" "AS - {h}" h] by auto
  have "finsh_heap_free (h + HEADER_SIZE) H = Some H'" using r(1) i(1) m(1) by (simp add: finsh_heap_free_def)
  moreover have "\<forall>a\<in>AS - {h}. fh_length H' a = fh_length H a" using m(3) li(3) by auto
  ultimately show ?thesis using m(2,4) by auto
qed

text \<open>The blocks the collection has still to look at.\<close>

definition todo :: "nat option \<Rightarrow> nat set \<Rightarrow> nat set" where
  "todo p AS = (case p of None \<Rightarrow> {} | Some a \<Rightarrow> {x \<in> AS. a \<le> x})"

lemma gc_loop_ok:
  assumes "finsh_heap_ok H FS AS" "\<forall>a. p = Some a \<longrightarrow> a \<in> AS"
  shows "\<exists>H' FS'. gc_loop used p H = Some H' \<and> finsh_heap_ok H' FS' (AS - {x \<in> todo p AS. \<not> used x})
    \<and> (\<forall>a\<in>AS - {x \<in> todo p AS. \<not> used x}. fh_length H' a = fh_length H a) \<and> fh_base H' = fh_base H"
  using assms
proof (induction "card (todo p AS)" arbitrary: p H FS AS rule: less_induct)
  case less
  show ?case
  proof (cases p)
    case None
    then show ?thesis using less.prems(1) by (subst gc_loop.simps) (auto simp: todo_def)
  next
    case (Some h)
    have h: "h \<in> AS" using less.prems(2) Some by simp
    have li: "listed (fh_next H) (fh_allocate_list H) AS" using less.prems(1) by (simp add: finsh_heap_ok_def heap_lists_def)
    let ?p = "fh_next H h"
    have n: "todo ?p (AS - {h}) = todo p AS - {h}" "todo ?p AS = todo p AS - {h}" "\<forall>a. ?p = Some a \<longrightarrow> a \<in> AS - {h}"
      using listed_neighbours(1) [OF li h] Some by (auto simp: todo_def split: option.splits)
    have "finite AS" using li by (simp add: listed_def)
    then have "card (todo p AS - {h}) < card (todo p AS)" using h Some by (intro psubset_card_mono) (auto simp: todo_def)
    note IH = less.hyps [OF this [folded n(1)]] less.hyps [OF this [folded n(2)]]
    show ?thesis
    proof (cases "used h")
      case True
      then have "gc_loop used p H = gc_loop used ?p H" using Some by (subst gc_loop.simps) (simp add: Let_def)
      moreover have "{x \<in> todo p AS. \<not> used x} = {x \<in> todo ?p AS. \<not> used x}" using True n(2) by auto
      ultimately show ?thesis using IH(2) [OF less.prems(1)] n(3) by auto
    next
      case False
      obtain H1 FS1 where f: "finsh_heap_free (h + HEADER_SIZE) H = Some H1" "finsh_heap_ok H1 FS1 (AS - {h})" "\<forall>a\<in>AS - {h}. fh_length H1 a = fh_length H a"
        "fh_base H1 = fh_base H" using heap_free_ok [OF less.prems(1) h] by blast
      have g: "gc_loop used p H = gc_loop used ?p H1" using Some False f(1) by (subst gc_loop.simps) (simp add: Let_def)
      have e: "AS - {h} - {x \<in> todo ?p (AS - {h}). \<not> used x} = AS - {x \<in> todo p AS. \<not> used x}" using n(1) False h Some by (auto simp: todo_def)
      have sub: "AS - {x \<in> todo p AS. \<not> used x} \<subseteq> AS - {h}" using e by blast
      obtain H2 FS2 where I: "gc_loop used ?p H1 = Some H2" "finsh_heap_ok H2 FS2 (AS - {x \<in> todo p AS. \<not> used x})"
        "\<forall>a\<in>AS - {x \<in> todo p AS. \<not> used x}. fh_length H2 a = fh_length H1 a" "fh_base H2 = fh_base H1"
        using IH(1) [OF f(2) n(3)] unfolding e by (elim exE conjE) (rule that)
      have "\<forall>a\<in>AS - {x \<in> todo p AS. \<not> used x}. fh_length H2 a = fh_length H a"
      proof
        fix a assume a: "a \<in> AS - {x \<in> todo p AS. \<not> used x}"
        show "fh_length H2 a = fh_length H a" using bspec [OF I(3) a] bspec [OF f(3) subsetD [OF sub a]] by simp
      qed
      then show ?thesis using I(1,2,4) f(4) unfolding g by (intro exI [of _ H2] exI [of _ FS2]) simp
    qed
  qed
qed

lemma heap_gc_ok:
  assumes ok: "finsh_heap_ok H FS AS"
  shows "\<exists>H' FS'. finsh_heap_gc F m H = Some H' \<and> finsh_heap_ok H' FS' {a \<in> AS. var_points F m H a} \<and> (\<forall>a\<in>AS. var_points F m H a \<longrightarrow> fh_length H' a = fh_length H a)
    \<and> fh_base H' = fh_base H"
proof -
  let ?p = "fh_allocate_list H"
  have li: "listed (fh_next H) ?p AS" using ok by (simp add: finsh_heap_ok_def heap_lists_def)
  then obtain xs where c: "chain (fh_next H) ?p xs" "sorted_wrt (<) xs" "set xs = AS" by (auto simp: listed_iff)
  have p: "\<forall>a. ?p = Some a \<longrightarrow> a \<in> AS" using c(1,3) by (cases xs) auto
  have "todo ?p AS = AS"
  proof (cases ?p)
    case None
    then show ?thesis using c(1,3) by (cases xs) (auto simp: todo_def)
  next
    case (Some a)
    then show ?thesis using listed_neighbours(2) [OF li, of a] p by (auto simp: todo_def)
  qed
  then have "AS - {x \<in> todo ?p AS. \<not> var_points F m H x} = {a \<in> AS. var_points F m H a}" by auto
  then show ?thesis using gc_loop_ok [OF ok p, of "var_points F m H"] by (auto simp: finsh_heap_gc_def)
qed

lemma first_fit_ok:
  assumes "listed (fh_next H) p S"
  shows "\<exists>r. first_fit fits p H = Some r \<and> (case r of None \<Rightarrow> (\<forall>a\<in>S. \<not> fits (fh_length H a)) | Some h \<Rightarrow> h \<in> S \<and> fits (fh_length H h) \<and> (\<forall>a\<in>S. a < h \<longrightarrow> \<not> fits (fh_length H a)))"
proof -
  have "chain (fh_next H) p xs \<Longrightarrow> sorted_wrt (<) xs \<Longrightarrow> \<exists>r. first_fit fits p H = Some r \<and> (case r of None \<Rightarrow> (\<forall>a\<in>set xs. \<not> fits (fh_length H a))
    | Some h \<Rightarrow> h \<in> set xs \<and> fits (fh_length H h) \<and> (\<forall>a\<in>set xs. a < h \<longrightarrow> \<not> fits (fh_length H a)))" for xs
  proof (induction xs arbitrary: p)
    case Nil
    then show ?case by (subst first_fit.simps) simp
  next
    case (Cons x xs)
    then show ?case
    proof (cases "fits (fh_length H x)")
      case True
      then show ?thesis using Cons.prems by (subst first_fit.simps) auto
    next
      case False
      obtain r where r: "first_fit fits (fh_next H x) H = Some r" "case r of None \<Rightarrow> (\<forall>a\<in>set xs. \<not> fits (fh_length H a))
        | Some h \<Rightarrow> h \<in> set xs \<and> fits (fh_length H h) \<and> (\<forall>a\<in>set xs. a < h \<longrightarrow> \<not> fits (fh_length H a))"
        using Cons.IH [of "fh_next H x"] Cons.prems by auto
      have "first_fit fits p H = Some r" using Cons.prems(1) False r(1) by (subst first_fit.simps) simp
      then show ?thesis using r(2) False by (cases r) auto
    qed
  qed
  then show ?thesis using assms unfolding listed_iff by blast
qed

lemma heap_align_ge: "unat sz \<le> FINSH_HEAP_MAX + 1 \<Longrightarrow> unat sz \<le> unat (HEAP_ALIGN_SIZE sz) \<and> unat (HEAP_ALIGN_SIZE sz) \<le> unat sz + 3"
proof -
  assume sz: "unat sz \<le> FINSH_HEAP_MAX + 1"
  have u: "unat (sz + 3) = unat sz + 3" using sz by (subst unat_word_ariths) simp
  have "(x AND NOT 3) + (x AND 3) = x" for x :: rt_uint32
    by (subst disjunctive_add) (auto simp: bit_simps intro: bit_word_eqI)
  then have "(sz + 3 AND NOT 3) + (sz + 3 AND 3) = sz + 3" .
  then have "unat (sz + 3) \<le> unat (sz + 3 AND NOT 3) + unat (sz + 3 AND 3)" by (metis unat_word_ariths(1) mod_less_eq_dividend)
  moreover have "unat (sz + 3 AND 3) \<le> 3" using word_and_le1 [of "sz + 3" 3] by (simp add: word_le_nat_alt)
  ultimately have "unat sz + 3 \<le> unat (sz + 3 AND NOT 3) + 3" using u by linarith
  moreover have "unat (sz + 3 AND NOT 3) \<le> unat (sz + 3)" using word_and_le2 word_le_nat_alt by blast
  ultimately show ?thesis using u by (simp add: HEAP_ALIGN_SIZE_def add.commute)
qed

text \<open>
  A call of the allocation: the block it hands out is new, and all blocks that were allocated and to which a variable points stay allocated with their lengths. Without a block that
  is large enough it releases the other ones.
\<close>

definition allocated :: "rt_uint32 \<Rightarrow> finsh_heap \<Rightarrow> nat set \<Rightarrow> nat \<Rightarrow> finsh_heap \<Rightarrow> bool" where
  "allocated sz H AS h H' \<longleftrightarrow> (\<exists>FS'. finsh_heap_ok H' FS' (insert h AS)) \<and> h \<notin> AS \<and> unat sz \<le> lengths H' h \<and> (\<forall>a\<in>AS. fh_length H' a = fh_length H a) \<and> fh_base H' = fh_base H"

lemma take_allocated:
  assumes ok: "finsh_heap_ok H FS AS" and h: "h \<in> FS" "unat (HEAP_ALIGN_SIZE sz) + HEADER_SIZE \<le> lengths H h" and sz: "unat sz \<le> FINSH_HEAP_MAX + 1"
  shows "\<exists>H'. take_block h (HEAP_ALIGN_SIZE sz) H = Some H' \<and> allocated sz H AS h H'"
proof -
  let ?sz = "HEAP_ALIGN_SIZE sz" let ?n = "h + HEADER_SIZE + unat ?sz"
  obtain H' where t: "take_block h ?sz H = Some H'" "finsh_heap_ok H' (insert ?n FS - {h}) (insert h AS)"
    "fh_length H' = (fh_length H)(?n := fh_length H h - of_nat HEADER_SIZE - ?sz, h := ?sz)" "fh_base H' = fh_base H"
    using take_block_ok [OF ok h] by blast
  have hA: "h \<notin> AS" and ti: "tiled (lengths H) (FS \<union> AS)" using ok h(1) by (auto simp: finsh_heap_ok_def heap_lists_def)
  have "?n \<notin> AS" using tiled_split(2) [OF ti _ h(2)] h(1) by blast
  then have "\<forall>a\<in>AS. fh_length H' a = fh_length H a" using t(3) hA by auto
  moreover have "unat sz \<le> lengths H' h" using t(3) heap_align_ge [OF sz] by simp
  ultimately show ?thesis using t(1,2,4) hA unfolding allocated_def by blast
qed

lemma heap_allocate_ok:
  fixes F :: finsh and m :: memory
  assumes ok: "finsh_heap_ok H FS AS" and sz: "unat sz \<le> FINSH_HEAP_MAX + 1"
  defines "used \<equiv> {a \<in> AS. var_points F m H a}"
  shows "\<exists>r m' H'. finsh_heap_allocate sz F m H = Some (r, m', H') \<and>
    (case r of
       None \<Rightarrow> m' = m \<and> (\<exists>FS'. finsh_heap_ok H' FS' used \<and> (\<forall>a\<in>FS'. lengths H' a < unat (HEAP_ALIGN_SIZE sz) + HEADER_SIZE))
     | Some d \<Rightarrow> (\<exists>h AS'. d = block_address h H \<and> m' = mem_clear d (unat (HEAP_ALIGN_SIZE sz)) m \<and> used \<subseteq> AS' \<and> AS' \<subseteq> AS \<and> allocated sz H AS' h H'))"
proof -
  let ?sz = "HEAP_ALIGN_SIZE sz"
  have w: "unat (?sz + of_nat HEADER_SIZE) = unat ?sz + HEADER_SIZE" using heap_align_ge [OF sz] sz by (subst unat_word_ariths) simp
  have free: "listed (fh_next H) (fh_free_list H) FS" using ok by (simp add: finsh_heap_ok_def heap_lists_def)
  obtain r where r: "first_fit (\<lambda>l. \<not> l \<le> ?sz + of_nat HEADER_SIZE) (fh_free_list H) H = Some r"
    "case r of None \<Rightarrow> True | Some h \<Rightarrow> h \<in> FS \<and> \<not> fh_length H h \<le> ?sz + of_nat HEADER_SIZE"
    using first_fit_ok [OF free, of "\<lambda>l. \<not> l \<le> ?sz + of_nat HEADER_SIZE"] by (auto split: option.splits)
  show ?thesis
  proof (cases r)
    case (Some h)
    then have h: "h \<in> FS" "unat ?sz + HEADER_SIZE \<le> lengths H h" using r(2) w by (simp_all add: word_le_nat_alt)
    obtain H' where t: "take_block h ?sz H = Some H'" "allocated sz H AS h H'" using take_allocated [OF ok h sz] by blast
    have "finsh_heap_allocate sz F m H = Some (Some (block_address h H), mem_clear (block_address h H) (unat ?sz) m, H')"
      using r(1) Some t by (simp add: finsh_heap_allocate_def Let_def allocated_def block_address_def)
    then show ?thesis using t(2) used_def by auto
  next
    case None
    obtain H1 FS1 where g: "finsh_heap_gc F m H = Some H1" "finsh_heap_ok H1 FS1 used" "\<forall>a\<in>AS. var_points F m H a \<longrightarrow> fh_length H1 a = fh_length H a" "fh_base H1 = fh_base H"
      using heap_gc_ok [OF ok, of F m] unfolding used_def by blast
    have free1: "listed (fh_next H1) (fh_free_list H1) FS1" using g(2) by (simp add: finsh_heap_ok_def heap_lists_def)
    obtain r1 where r1: "first_fit (\<lambda>l. \<not> l < ?sz + of_nat HEADER_SIZE) (fh_free_list H1) H1 = Some r1"
      "case r1 of None \<Rightarrow> (\<forall>a\<in>FS1. fh_length H1 a < ?sz + of_nat HEADER_SIZE) | Some h \<Rightarrow> h \<in> FS1 \<and> \<not> fh_length H1 h < ?sz + of_nat HEADER_SIZE"
      using first_fit_ok [OF free1, of "\<lambda>l. \<not> l < ?sz + of_nat HEADER_SIZE"] by (auto split: option.splits)
    show ?thesis
    proof (cases r1)
      case (Some h)
      then have h: "h \<in> FS1" "unat ?sz + HEADER_SIZE \<le> lengths H1 h" using r1(2) w by (simp_all add: word_less_nat_alt)
      obtain H' where t: "take_block h ?sz H1 = Some H'" "allocated sz H1 used h H'" using take_allocated [OF g(2) h sz] by blast
      have "allocated sz H used h H'" using t(2) g(3,4) by (auto simp: allocated_def used_def)
      moreover have "finsh_heap_allocate sz F m H = Some (Some (block_address h H), mem_clear (block_address h H) (unat ?sz) m, H')"
        using r(1) None g(1,4) r1(1) Some t by (simp add: finsh_heap_allocate_def Let_def allocated_def block_address_def)
      ultimately show ?thesis using used_def by auto
    next
      case N1: None
      have "finsh_heap_allocate sz F m H = Some (None, m, H1)" using r(1) None g(1) r1(1) N1 by (simp add: finsh_heap_allocate_def Let_def)
      moreover have "\<forall>a\<in>FS1. lengths H1 a < unat ?sz + HEADER_SIZE" using r1(2) N1 w by (simp add: word_less_nat_alt)
      ultimately show ?thesis using g(2) by auto
    qed
  qed
qed

text \<open>Two allocated blocks share no byte.\<close>

lemma allocated_apart:
  "finsh_heap_ok H FS AS \<Longrightarrow> a \<in> AS \<Longrightarrow> b \<in> AS \<Longrightarrow> a \<noteq> b \<Longrightarrow> block_end (lengths H) a \<le> b \<or> block_end (lengths H) b \<le> a"
  using tiledD(3) [of "lengths H" "FS \<union> AS"] by (metis UnI2 finsh_heap_ok_def heap_lists_def linorder_neqE_nat)

section \<open>Two strings\<close>

text \<open>A heap without allocated blocks is one free block.\<close>

lemma heap_empty:
  assumes ok: "finsh_heap_ok H FS {}"
  shows "FS = {0}" "fh_length H 0 = 120"
proof -
  have t: "tiled (lengths H) FS" and co: "coalesced (lengths H) FS" using ok by (simp_all add: finsh_heap_ok_def heap_lists_def)
  have z: "0 \<in> FS" using t by (simp add: tiled_def)
  then have e: "block_end (lengths H) 0 = FINSH_HEAP_MAX" using tiledD(2) [OF t z] co by (auto simp: coalesced_def)
  then have "unat (fh_length H 0) = unat (120 :: rt_uint32)" by (simp add: block_end_def)
  then show "fh_length H 0 = 120" by (rule word_unat_eq_iff [THEN iffD2])
  have "b = 0" if "b \<in> FS" for b using tiledD(3) [OF t z that] tiledD(1) [OF t that] e by (cases "b = 0") (auto simp: block_end_def)
  then show "FS = {0}" using z by auto
qed

lemma first_fit_one:
  assumes "finsh_heap_ok H {x} AS"
  shows "first_fit fits (fh_free_list H) H = Some (if fits (fh_length H x) then Some x else None)"
proof -
  have "listed (fh_next H) (fh_free_list H) {x}" using assms by (simp add: finsh_heap_ok_def heap_lists_def)
  from first_fit_ok [OF this, of fits] obtain r where "first_fit fits (fh_free_list H) H = Some r"
    "case r of None \<Rightarrow> (\<forall>a\<in>{x}. \<not> fits (fh_length H a)) | Some h \<Rightarrow> h \<in> {x} \<and> fits (fh_length H h) \<and> (\<forall>a\<in>{x}. a < h \<longrightarrow> \<not> fits (fh_length H a))"
    by (elim exE conjE) (rule that)
  then show ?thesis by (cases r) auto
qed

lemma take_first:
  assumes ok: "finsh_heap_ok H FS {}" and sz: "unat sz \<le> 112"
  shows "\<exists>H'. take_block 0 sz H = Some H' \<and> finsh_heap_ok H' {8 + unat sz} {0} \<and> fh_length H' (8 + unat sz) = 112 - sz \<and> fh_base H' = fh_base H"
proof -
  note e = heap_empty [OF ok]
  have "insert (8 + unat sz) FS - {0} = {8 + unat sz}" using e(1) by auto
  then show ?thesis using take_block_ok [OF ok, of 0 sz] e sz by auto
qed

lemma allocate_first:
  assumes ok: "finsh_heap_ok H FS {}" and sz: "unat (HEAP_ALIGN_SIZE sz) \<le> 112"
  shows "\<exists>m' H'. finsh_heap_allocate sz F m H = Some (Some (block_address 0 H), m', H') \<and> finsh_heap_ok H' {8 + unat (HEAP_ALIGN_SIZE sz)} {0}
    \<and> fh_length H' (8 + unat (HEAP_ALIGN_SIZE sz)) = 112 - HEAP_ALIGN_SIZE sz \<and> fh_base H' = fh_base H"
proof -
  let ?sz = "HEAP_ALIGN_SIZE sz"
  have w: "unat (?sz + 8) = unat ?sz + 8" using sz by (subst unat_word_ariths) simp
  obtain H1 FS1 where g: "finsh_heap_gc F m H = Some H1" "finsh_heap_ok H1 FS1 {}" "fh_base H1 = fh_base H" using heap_gc_ok [OF ok, of F m] by auto
  note e = heap_empty [OF ok] and e1 = heap_empty [OF g(2)]
  have ff: "first_fit fits (fh_free_list H) H = Some (if fits 120 then Some 0 else None)" "first_fit fits (fh_free_list H1) H1 = Some (if fits 120 then Some 0 else None)" for fits
    using first_fit_one [of H 0 "{}" fits] first_fit_one [of H1 0 "{}" fits] ok g(2) e e1 by simp_all
  have fit: "\<not> 120 < ?sz + 8" using sz w by (simp add: word_less_nat_alt)
  obtain H2 H3 where "take_block 0 ?sz H = Some H2" "finsh_heap_ok H2 {8 + unat ?sz} {0}" "fh_length H2 (8 + unat ?sz) = 112 - ?sz" "fh_base H2 = fh_base H"
    "take_block 0 ?sz H1 = Some H3" "finsh_heap_ok H3 {8 + unat ?sz} {0}" "fh_length H3 (8 + unat ?sz) = 112 - ?sz" "fh_base H3 = fh_base H"
    using take_first [OF ok sz] take_first [OF g(2) sz] g(3) by auto
  then show ?thesis using ff fit g(1) by (cases "120 \<le> ?sz + 8") (simp_all add: finsh_heap_allocate_def Let_def block_address_def)
qed

lemma allocate_second:
  assumes ok: "finsh_heap_ok H {x} {0}" and x: "fh_length H x \<le> HEAP_ALIGN_SIZE sz + 8" and sz: "unat (HEAP_ALIGN_SIZE sz) \<le> 112" and v: "\<not> var_points F m H 0"
  shows "\<exists>m' H'. finsh_heap_allocate sz F m H = Some (Some (block_address 0 H), m', H')"
proof -
  let ?sz = "HEAP_ALIGN_SIZE sz"
  have w: "unat (?sz + 8) = unat ?sz + 8" using sz by (subst unat_word_ariths) simp
  have "{a \<in> {0}. var_points F m H a} = {}" using v by auto
  then obtain H1 FS1 where g: "finsh_heap_gc F m H = Some H1" "finsh_heap_ok H1 FS1 {}" "fh_base H1 = fh_base H" using heap_gc_ok [OF ok, of F m] by metis
  note e1 = heap_empty [OF g(2)]
  have ff: "first_fit (\<lambda>l. \<not> l \<le> ?sz + 8) (fh_free_list H) H = Some None" using first_fit_one [OF ok] x by simp
  have "\<not> 120 < ?sz + 8" using sz w by (simp add: word_less_nat_alt)
  then have ff1: "first_fit (\<lambda>l. \<not> l < ?sz + 8) (fh_free_list H1) H1 = Some (Some 0)" using first_fit_one [of H1 0 "{}"] g(2) e1 by simp
  obtain H2 where "take_block 0 ?sz H1 = Some H2" "fh_base H2 = fh_base H" using take_first [OF g(2) sz] g(3) by auto
  then show ?thesis using ff ff1 g(1) by (simp add: finsh_heap_allocate_def Let_def block_address_def)
qed

lemma string_reused:
  assumes ok: "finsh_heap_ok H FS {}" and a: "unat (HEAP_ALIGN_SIZE a) \<le> 112" and b: "unat (HEAP_ALIGN_SIZE b) \<le> 112"
    and ab: "104 \<le> unat (HEAP_ALIGN_SIZE a) + unat (HEAP_ALIGN_SIZE b)"
  shows "\<exists>p m1 H1. finsh_heap_allocate a F m H = Some (Some p, m1, H1)
    \<and> (\<forall>F2 m2. var_points F2 m2 H1 0 \<or> (\<exists>m3 H2. finsh_heap_allocate b F2 m2 H1 = Some (Some p, m3, H2)))"
proof -
  obtain m1 H1 where f: "finsh_heap_allocate a F m H = Some (Some (block_address 0 H), m1, H1)" "finsh_heap_ok H1 {8 + unat (HEAP_ALIGN_SIZE a)} {0}"
    "fh_length H1 (8 + unat (HEAP_ALIGN_SIZE a)) = 112 - HEAP_ALIGN_SIZE a" "fh_base H1 = fh_base H" using allocate_first [OF ok a] by blast
  have "HEAP_ALIGN_SIZE a \<le> 112" using a by (simp add: word_le_nat_alt)
  then have "unat (112 - HEAP_ALIGN_SIZE a) = 112 - unat (HEAP_ALIGN_SIZE a)" by (simp add: unat_sub)
  moreover have "unat (HEAP_ALIGN_SIZE b + 8) = unat (HEAP_ALIGN_SIZE b) + 8" using b by (subst unat_word_ariths) simp
  ultimately have "112 - HEAP_ALIGN_SIZE a \<le> HEAP_ALIGN_SIZE b + 8" using ab by (simp add: word_le_nat_alt)
  then have "\<not> var_points F2 m2 H1 0 \<Longrightarrow> \<exists>m3 H2. finsh_heap_allocate b F2 m2 H1 = Some (Some (block_address 0 H1), m3, H2)" for F2 m2
    using allocate_second [OF f(2) _ b] f(3) by simp
  moreover have "block_address 0 H1 = block_address 0 H" using f(4) by (simp add: block_address_def)
  ultimately show ?thesis using f(1) by auto
qed

end
