(* ===== verification/Rt_Finsh_Parser.thy ===== *)
theory Rt_Finsh_Parser
  imports Rt_Finsh_Token Rt_Finsh_Heap
begin

text \<open>
  The parser of the finsh shell, \<^verbatim>\<open>components/finsh/finsh_parser.c\<close> and \<^verbatim>\<open>finsh_node.c\<close>. Nodes are taken one after the other from a table and
  never given back while a line is parsed, so the table is a counter. A node has no other reference than the one from its parent or from the chain it is in, so nodes are trees, and
  a chain of siblings under construction is a list. The functions call each other and themselves; each takes the parser of the other ones as an argument, and
  \<open>parse\<close> ties the knot. A line on which the parser does not return gives \<open>None\<close>, as does an access outside of a buffer.
  Strings are put into the heap of the shell; a string for which there is no memory is written to the null pointer and gives \<open>None\<close> as well.
\<close>

section \<open>State and nodes\<close>

record parser = finsh_token +
  node_count :: nat
  shell_vars :: finsh
  parser_mem :: memory
  parser_heap :: finsh_heap

abbreviation (input) FINSH_NODE_MAX :: nat where "FINSH_NODE_MAX \<equiv> 16"
abbreviation (input) FINSH_ERROR_INVALID_TOKEN :: rt_uint8 where "FINSH_ERROR_INVALID_TOKEN \<equiv> 1"
abbreviation (input) FINSH_ERROR_EXPECT_TYPE :: rt_uint8 where "FINSH_ERROR_EXPECT_TYPE \<equiv> 2"
abbreviation (input) FINSH_ERROR_VARIABLE_EXIST :: rt_uint8 where "FINSH_ERROR_VARIABLE_EXIST \<equiv> 4"
abbreviation (input) FINSH_ERROR_EXPECT_OPERATOR :: rt_uint8 where "FINSH_ERROR_EXPECT_OPERATOR \<equiv> 5"
abbreviation (input) FINSH_ERROR_MEMORY_FULL :: rt_uint8 where "FINSH_ERROR_MEMORY_FULL \<equiv> 6"
abbreviation (input) FINSH_ERROR_UNKNOWN_SYMBOL :: rt_uint8 where "FINSH_ERROR_UNKNOWN_SYMBOL \<equiv> 13"
abbreviation (input) FINSH_ERROR_NULL_NODE :: rt_uint8 where "FINSH_ERROR_NULL_NODE \<equiv> 14"

definition finsh_node_allocate :: "node_type \<Rightarrow> parser \<Rightarrow> (node_info \<times> parser) option" where
  "finsh_node_allocate ty s =
     (if node_count s < FINSH_NODE_MAX then Some (new_node ty, s\<lparr>node_count := node_count s + 1\<rparr>) else None)"

definition new_leaf :: "node_type \<Rightarrow> (node_info \<Rightarrow> node_info) \<Rightarrow> parser \<Rightarrow> finsh_node \<times> parser" where
  "new_leaf ty fill s =
     (case finsh_node_allocate ty s of
        None \<Rightarrow> (NullNode, finsh_error_set FINSH_ERROR_MEMORY_FULL s)
      | Some (x, s1) \<Rightarrow> (FNode (fill x) NullNode NullNode, s1))"

text \<open>
  An identifier is looked up as a variable, a system variable and a function. A name of 16 characters has no null character at its end, so a comparison with the names in the
  tables, which is not limited to 16 characters, reads what is behind it.
\<close>

definition finsh_node_new_id :: "string \<Rightarrow> parser \<Rightarrow> (finsh_node \<times> parser) option" where
  "finsh_node_new_id nm s =
     (case finsh_var_lookup nm (shell_vars s) of
        Some i \<Rightarrow> Some (new_leaf FINSH_NODE_ID (\<lambda>x. x\<lparr>idtype := FINSH_IDTYPE_VAR, node_id := IdVar i\<rparr>) s)
      | None \<Rightarrow>
          if FINSH_NAME_MAX \<le> length nm then None
          else Some (case finsh_sysvar_lookup nm (shell_vars s) of
             Some v \<Rightarrow> new_leaf FINSH_NODE_ID (\<lambda>x. x\<lparr>idtype := FINSH_IDTYPE_SYSVAR, node_id := IdSysvar v\<rparr>) s
           | None \<Rightarrow>
               (case finsh_syscall_lookup nm (shell_vars s) of
                  Some f \<Rightarrow> new_leaf FINSH_NODE_ID (\<lambda>x. x\<lparr>idtype := FINSH_IDTYPE_SYSCALL, node_id := IdSyscall f\<rparr>) s
                | None \<Rightarrow> (NullNode, finsh_error_set FINSH_ERROR_UNKNOWN_SYMBOL s))))"

definition finsh_node_new_char :: "rt_uint8 \<Rightarrow> parser \<Rightarrow> finsh_node \<times> parser" where
  "finsh_node_new_char c = new_leaf FINSH_NODE_VALUE_CHAR (\<lambda>x. x\<lparr>node_value := ucast c\<rparr>)"

definition finsh_node_new_int :: "rt_uint32 \<Rightarrow> parser \<Rightarrow> finsh_node \<times> parser" where
  "finsh_node_new_int i = new_leaf FINSH_NODE_VALUE_INT (\<lambda>x. x\<lparr>node_value := i\<rparr>)"

definition finsh_node_new_long :: "rt_uint32 \<Rightarrow> parser \<Rightarrow> finsh_node \<times> parser" where
  "finsh_node_new_long l = new_leaf FINSH_NODE_VALUE_LONG (\<lambda>x. x\<lparr>node_value := l\<rparr>)"

definition finsh_node_new_ptr :: "rt_uint32 \<Rightarrow> parser \<Rightarrow> finsh_node \<times> parser" where
  "finsh_node_new_ptr p = new_leaf FINSH_NODE_VALUE_NULL (\<lambda>x. x\<lparr>node_value := p\<rparr>)"

fun put_string :: "rt_uint32 \<Rightarrow> string \<Rightarrow> memory \<Rightarrow> memory" where
  "put_string a [] m = m(a := 0)"
| "put_string a (c # cs) m = put_string (a + 1) cs (m(a := of_char c))"

definition finsh_node_new_string :: "string \<Rightarrow> parser \<Rightarrow> (finsh_node \<times> parser) option" where
  "finsh_node_new_string buf s =
     (case finsh_node_allocate FINSH_NODE_VALUE_STRING s of
        None \<Rightarrow> Some (NullNode, finsh_error_set FINSH_ERROR_MEMORY_FULL s)
      | Some (x, s1) \<Rightarrow>
          if NUL \<in> set buf then
            do {
              (ptr, m, H) \<leftarrow> finsh_heap_allocate (of_nat (length (c_str buf) + 1)) (shell_vars s1) (parser_mem s1) (parser_heap s1);
              a \<leftarrow> ptr;
              Some (FNode (x\<lparr>node_value := a\<rparr>) NullNode NullNode, s1\<lparr>parser_mem := put_string a (c_str buf) m, parser_heap := H\<rparr>)
            }
          else None)"

text \<open>Links: the sibling of a node, and the chain of the nodes of a list.\<close>

fun set_sibling :: "finsh_node \<Rightarrow> finsh_node \<Rightarrow> finsh_node" where
  "set_sibling NullNode sb = NullNode"
| "set_sibling (FNode x ch _) sb = FNode x ch sb"

fun node_chain :: "finsh_node list \<Rightarrow> finsh_node" where
  "node_chain [] = NullNode"
| "node_chain (n # ns) = set_sibling n (node_chain ns)"

definition make_sys_node :: "node_type \<Rightarrow> finsh_node \<Rightarrow> finsh_node \<Rightarrow> parser \<Rightarrow> finsh_node \<times> parser" where
  "make_sys_node ty node1 node2 s =
     (case finsh_node_allocate ty s of
        None \<Rightarrow> (NullNode, finsh_error_set FINSH_ERROR_NULL_NODE s)
      | Some (x, s1) \<Rightarrow>
          if node1 = NullNode then (FNode x NullNode NullNode, finsh_error_set FINSH_ERROR_NULL_NODE s1)
          else (FNode x (set_sibling node1 node2) NullNode, s1))"

section \<open>Tokens\<close>

definition check_token :: "finsh_token_type \<Rightarrow> parser \<Rightarrow> parser" where
  "check_token ty s =
     (if current_token s \<noteq> ty then finsh_token_replay (finsh_error_set FINSH_ERROR_INVALID_TOKEN s) else s)"

definition is_base_type :: "finsh_token_type \<Rightarrow> bool" where
  "is_base_type t \<longleftrightarrow> t = finsh_token_type_void \<or> t = finsh_token_type_char \<or> t = finsh_token_type_short \<or> t = finsh_token_type_int \<or> t = finsh_token_type_long"

definition match_token :: "finsh_token_type \<Rightarrow> parser \<Rightarrow> parser option" where
  "match_token ty s = do { s1 \<leftarrow> finsh_token_token s; Some (check_token ty s1) }"

definition proc_identifier :: "parser \<Rightarrow> (string \<times> parser) option" where
  "proc_identifier s =
     do {
       s1 \<leftarrow> match_token finsh_token_type_identifier s;
       Some (take FINSH_NAME_MAX (c_str (tk_string s1)), s1)
     }"

fun plain_type :: "finsh_token_type \<Rightarrow> finsh_type" where
  "plain_type finsh_token_type_void = finsh_type_void"
| "plain_type finsh_token_type_char = finsh_type_char"
| "plain_type finsh_token_type_short = finsh_type_short"
| "plain_type finsh_token_type_int = finsh_type_int"
| "plain_type finsh_token_type_long = finsh_type_long"
| "plain_type _ = finsh_type_unknown"

fun unsigned_type :: "finsh_token_type \<Rightarrow> finsh_type" where
  "unsigned_type finsh_token_type_char = finsh_type_uchar"
| "unsigned_type finsh_token_type_short = finsh_type_ushort"
| "unsigned_type finsh_token_type_int = finsh_type_uint"
| "unsigned_type finsh_token_type_long = finsh_type_ulong"
| "unsigned_type _ = finsh_type_unknown"

fun pointer_type :: "finsh_type \<Rightarrow> finsh_type" where
  "pointer_type finsh_type_char = finsh_type_charp"
| "pointer_type finsh_type_uchar = finsh_type_charp"
| "pointer_type finsh_type_short = finsh_type_shortp"
| "pointer_type finsh_type_ushort = finsh_type_shortp"
| "pointer_type finsh_type_int = finsh_type_intp"
| "pointer_type finsh_type_uint = finsh_type_intp"
| "pointer_type finsh_type_long = finsh_type_longp"
| "pointer_type finsh_type_ulong = finsh_type_longp"
| "pointer_type _ = finsh_type_voidp"

definition type_fail :: "parser \<Rightarrow> (finsh_type \<times> parser) option" where
  "type_fail s = Some (finsh_type_unknown, finsh_error_set FINSH_ERROR_UNKNOWN_TYPE (finsh_token_replay s))"

definition type_pointer :: "finsh_type \<Rightarrow> parser \<Rightarrow> (finsh_type \<times> parser) option" where
  "type_pointer ty s =
     do {
       s1 \<leftarrow> finsh_token_token s;
       Some (if current_token s1 = finsh_token_type_mul then (pointer_type ty, s1) else (ty, finsh_token_replay s1))
     }"

definition proc_type :: "parser \<Rightarrow> (finsh_type \<times> parser) option" where
  "proc_type s =
     do {
       s1 \<leftarrow> finsh_token_token s;
       if is_base_type (current_token s1) then type_pointer (plain_type (current_token s1)) s1
       else if current_token s1 = finsh_token_type_unsigned then
         do {
           s2 \<leftarrow> finsh_token_token s1;
           if is_base_type (current_token s2) then
             (if current_token s2 = finsh_token_type_void then type_fail s2 else type_pointer (unsigned_type (current_token s2)) s2)
           else type_pointer finsh_type_unknown (finsh_error_set FINSH_ERROR_EXPECT_TYPE (finsh_token_replay s2))
         }
       else type_fail s1
     }"

section \<open>Expressions\<close>

text \<open>What is parsed: an expression of one of the levels of the grammar, or the rest of a loop, with the node that was built so far and a token that was just read.\<close>

datatype level = Inclusive_or | Exclusive_or | And_expr | Shift | Additive | Multiplicative

datatype nonterm = Assign_expr | Level level | Level_loop level finsh_node | Cast_expr | Unary_expr | Postfix_expr | Postfix_loop finsh_node | Primary_expr
  | Param_list | Param_loop "finsh_node list"

type_synonym parse_fn = "nonterm \<Rightarrow> parser \<Rightarrow> (finsh_node \<times> parser) option"

definition proc_assign_expr :: "parse_fn \<Rightarrow> parser \<Rightarrow> (finsh_node \<times> parser) option" where
  "proc_assign_expr rec s =
     do {
       (or, s1) \<leftarrow> rec (Level Inclusive_or) s;
       s2 \<leftarrow> finsh_token_token s1;
       if current_token s2 = finsh_token_type_assign then
         do { (assign, s3) \<leftarrow> rec Assign_expr s2; Some (make_sys_node FINSH_NODE_SYS_ASSIGN or assign s3) }
       else Some (or, finsh_token_replay s2)
     }"

text \<open>The six levels of binary operators have one shape: the operators, and what the operands are.\<close>

fun level_op :: "level \<Rightarrow> finsh_token_type \<Rightarrow> node_type option" where
  "level_op Inclusive_or t = (if t = finsh_token_type_or then Some FINSH_NODE_SYS_OR else None)"
| "level_op Exclusive_or t = (if t = finsh_token_type_xor then Some FINSH_NODE_SYS_XOR else None)"
| "level_op And_expr t = (if t = finsh_token_type_and then Some FINSH_NODE_SYS_AND else None)"
| "level_op Shift t = (if t = finsh_token_type_shl then Some FINSH_NODE_SYS_SHL else if t = finsh_token_type_shr then Some FINSH_NODE_SYS_SHR else None)"
| "level_op Additive t = (if t = finsh_token_type_sub then Some FINSH_NODE_SYS_SUB else if t = finsh_token_type_add then Some FINSH_NODE_SYS_ADD else None)"
| "level_op Multiplicative t = (if t = finsh_token_type_mul then Some FINSH_NODE_SYS_MUL else if t = finsh_token_type_div then Some FINSH_NODE_SYS_DIV
     else if t = finsh_token_type_mod then Some FINSH_NODE_SYS_MOD else None)"

fun level_operand :: "level \<Rightarrow> nonterm" where
  "level_operand Inclusive_or = Level Exclusive_or"
| "level_operand Exclusive_or = Level And_expr"
| "level_operand And_expr = Level Shift"
| "level_operand Shift = Level Additive"
| "level_operand Additive = Level Multiplicative"
| "level_operand Multiplicative = Cast_expr"

definition proc_level_expr :: "level \<Rightarrow> parse_fn \<Rightarrow> parser \<Rightarrow> (finsh_node \<times> parser) option" where
  "proc_level_expr lv rec s =
     do { (x, s1) \<leftarrow> rec (level_operand lv) s; s2 \<leftarrow> finsh_token_token s1; rec (Level_loop lv x) s2 }"

definition level_loop :: "level \<Rightarrow> finsh_node \<Rightarrow> parse_fn \<Rightarrow> parser \<Rightarrow> (finsh_node \<times> parser) option" where
  "level_loop lv x rec s =
     (case level_op lv (current_token s) of
        None \<Rightarrow> Some (x, finsh_token_replay s)
      | Some ty \<Rightarrow>
          do {
            (new, s1) \<leftarrow> rec (level_operand lv) s;
            let (x1, s2) = (if new = NullNode then (x, finsh_error_set FINSH_ERROR_EXPECT_OPERATOR s1) else make_sys_node ty x new s1);
            s3 \<leftarrow> finsh_token_token s2;
            rec (Level_loop lv x1) s3
          })"

text \<open>The data type that a cast writes into the node is the number of the type.\<close>

fun type_number :: "finsh_type \<Rightarrow> rt_uint8" where
  "type_number finsh_type_unknown = 0"
| "type_number finsh_type_void = 1"
| "type_number finsh_type_voidp = 2"
| "type_number finsh_type_char = 3"
| "type_number finsh_type_uchar = 4"
| "type_number finsh_type_charp = 5"
| "type_number finsh_type_short = 6"
| "type_number finsh_type_ushort = 7"
| "type_number finsh_type_shortp = 8"
| "type_number finsh_type_int = 9"
| "type_number finsh_type_uint = 10"
| "type_number finsh_type_intp = 11"
| "type_number finsh_type_long = 12"
| "type_number finsh_type_ulong = 13"
| "type_number finsh_type_longp = 14"

fun set_data_type :: "rt_uint8 \<Rightarrow> finsh_node \<Rightarrow> finsh_node" where
  "set_data_type d NullNode = NullNode"
| "set_data_type d (FNode x ch sb) = FNode (x\<lparr>data_type := d\<rparr>) ch sb"

definition proc_cast_expr :: "parse_fn \<Rightarrow> parser \<Rightarrow> (finsh_node \<times> parser) option" where
  "proc_cast_expr rec s =
     do {
       s1 \<leftarrow> finsh_token_token s;
       if current_token s1 = finsh_token_type_left_paren then
         do {
           (ty, s2) \<leftarrow> proc_type s1;
           s3 \<leftarrow> match_token finsh_token_type_right_paren s2;
           (cast, s4) \<leftarrow> rec Cast_expr s3;
           if cast \<noteq> NullNode then Some (set_data_type (type_number ty) cast, s4) else rec Unary_expr (finsh_token_replay s4)
         }
       else rec Unary_expr (finsh_token_replay s1)
     }"

definition unary_node :: "finsh_token_type \<Rightarrow> node_type option" where
  "unary_node t =
     (if t = finsh_token_type_inc then Some FINSH_NODE_SYS_PREINC else if t = finsh_token_type_dec then Some FINSH_NODE_SYS_PREDEC
      else if t = finsh_token_type_bitwise then Some FINSH_NODE_SYS_BITWISE else if t = finsh_token_type_mul then Some FINSH_NODE_SYS_GETVALUE
      else if t = finsh_token_type_and then Some FINSH_NODE_SYS_GETADDR else None)"

definition proc_unary_expr :: "parse_fn \<Rightarrow> parser \<Rightarrow> (finsh_node \<times> parser) option" where
  "proc_unary_expr rec s =
     do {
       s1 \<leftarrow> finsh_token_token s;
       if current_token s1 = finsh_token_type_add then rec Cast_expr s1
       else if current_token s1 = finsh_token_type_sub then
         do {
           (cast, s2) \<leftarrow> rec Cast_expr s1;
           let (zero, s3) = finsh_node_new_long 0 s2;
           Some (make_sys_node FINSH_NODE_SYS_SUB zero cast s3)
         }
       else (case unary_node (current_token s1) of
               Some ty \<Rightarrow> do { (cast, s2) \<leftarrow> rec Cast_expr s1; Some (make_sys_node ty cast NullNode s2) }
             | None \<Rightarrow> rec Postfix_expr (finsh_token_replay s1))
     }"

definition proc_postfix_expr :: "parse_fn \<Rightarrow> parser \<Rightarrow> (finsh_node \<times> parser) option" where
  "proc_postfix_expr rec s =
     do { (x, s1) \<leftarrow> rec Primary_expr s; s2 \<leftarrow> finsh_token_token s1; rec (Postfix_loop x) s2 }"

definition call_parameters :: "parse_fn \<Rightarrow> parser \<Rightarrow> (finsh_node \<times> parser) option" where
  "call_parameters rec s =
     do {
       s1 \<leftarrow> finsh_token_token s;
       if current_token s1 \<noteq> finsh_token_type_right_paren then
         do {
           (ps, s2) \<leftarrow> rec Param_list (finsh_token_replay s1);
           s3 \<leftarrow> match_token finsh_token_type_right_paren s2;
           Some (ps, s3)
         }
       else Some (NullNode, s1)
     }"

definition postfix_loop :: "finsh_node \<Rightarrow> parse_fn \<Rightarrow> parser \<Rightarrow> (finsh_node \<times> parser) option" where
  "postfix_loop x rec s =
     (if current_token s = finsh_token_type_inc then
        do { let (x1, s1) = make_sys_node FINSH_NODE_SYS_INC x NullNode s; s2 \<leftarrow> finsh_token_token s1; rec (Postfix_loop x1) s2 }
      else if current_token s = finsh_token_type_dec then
        do { let (x1, s1) = make_sys_node FINSH_NODE_SYS_DEC x NullNode s; s2 \<leftarrow> finsh_token_token s1; rec (Postfix_loop x1) s2 }
      else if current_token s = finsh_token_type_left_paren then
        do {
          (ps, s1) \<leftarrow> call_parameters rec s;
          let (x1, s2) = make_sys_node FINSH_NODE_SYS_FUNC x ps s1;
          s3 \<leftarrow> finsh_token_token s2;
          rec (Postfix_loop x1) s3
        }
      else Some (x, finsh_token_replay s))"

definition proc_primary_expr :: "parse_fn \<Rightarrow> parser \<Rightarrow> (finsh_node \<times> parser) option" where
  "proc_primary_expr rec s =
     do {
       s1 \<leftarrow> finsh_token_token s;
       if current_token s1 = finsh_token_type_identifier then
         do { (nm, s2) \<leftarrow> proc_identifier (finsh_token_replay s1); finsh_node_new_id nm s2 }
       else if current_token s1 = finsh_token_type_left_paren then
         do { (x, s2) \<leftarrow> rec Assign_expr s1; s3 \<leftarrow> match_token finsh_token_type_right_paren s2; Some (x, s3) }
       else if current_token s1 = finsh_token_type_value_int then Some (finsh_node_new_int (tk_value s1) s1)
       else if current_token s1 = finsh_token_type_value_long then Some (finsh_node_new_long (tk_value s1) s1)
       else if current_token s1 = finsh_token_type_value_char then Some (finsh_node_new_char (ucast (tk_value s1)) s1)
       else if current_token s1 = finsh_token_type_value_string then finsh_node_new_string (tk_string s1) s1
       else if current_token s1 = finsh_token_type_value_null then Some (finsh_node_new_ptr 0 s1)
       else Some (NullNode, finsh_error_set FINSH_ERROR_INVALID_TOKEN s1)
     }"

text \<open>Parameters are collected in a chain; one that is missing is an error and is left out.\<close>

definition proc_param_list :: "parse_fn \<Rightarrow> parser \<Rightarrow> (finsh_node \<times> parser) option" where
  "proc_param_list rec s =
     do {
       (x, s1) \<leftarrow> rec Assign_expr s;
       if x = NullNode then Some (NullNode, s1) else do { s2 \<leftarrow> finsh_token_token s1; rec (Param_loop [x]) s2 }
     }"

definition param_loop :: "finsh_node list \<Rightarrow> parse_fn \<Rightarrow> parser \<Rightarrow> (finsh_node \<times> parser) option" where
  "param_loop xs rec s =
     (if current_token s = finsh_token_type_comma then
        do {
          (x, s1) \<leftarrow> rec Assign_expr s;
          let (xs1, s2) = (if x \<noteq> NullNode then (xs @ [x], s1) else (xs, finsh_error_set FINSH_ERROR_EXPECT_OPERATOR s1));
          s3 \<leftarrow> finsh_token_token s2;
          rec (Param_loop xs1) s3
        }
      else Some (node_chain xs, finsh_token_replay s))"

fun proc :: "parse_fn \<Rightarrow> parse_fn" where
  "proc rec Assign_expr s = proc_assign_expr rec s"
| "proc rec (Level lv) s = proc_level_expr lv rec s"
| "proc rec (Level_loop lv x) s = level_loop lv x rec s"
| "proc rec Cast_expr s = proc_cast_expr rec s"
| "proc rec Unary_expr s = proc_unary_expr rec s"
| "proc rec Postfix_expr s = proc_postfix_expr rec s"
| "proc rec (Postfix_loop x) s = postfix_loop x rec s"
| "proc rec Primary_expr s = proc_primary_expr rec s"
| "proc rec Param_list s = proc_param_list rec s"
| "proc rec (Param_loop xs) s = param_loop xs rec s"

lemmas proc_defs = proc_assign_expr_def proc_level_expr_def level_loop_def proc_cast_expr_def proc_unary_expr_def proc_postfix_expr_def
  postfix_loop_def call_parameters_def proc_primary_expr_def proc_param_list_def param_loop_def

lemma case_mono:
  "(\<And>a b. mono_option (\<lambda>f. B a b f)) \<Longrightarrow> mono_option (\<lambda>f. case p of (a, b) \<Rightarrow> B a b f)"
  "mono_option N \<Longrightarrow> (\<And>y. mono_option (\<lambda>f. S y f)) \<Longrightarrow> mono_option (\<lambda>f. case x of None \<Rightarrow> N f | Some y \<Rightarrow> S y f)"
  by (cases p, simp) (cases x, simp_all)

lemma proc_mono [partial_function_mono]:
  assumes "\<And>g s. mono_option (\<lambda>f. R f g s)"
  shows "mono_option (\<lambda>f. proc (R f) g s)"
  by (cases g; simp only: proc.simps proc_defs Let_def; intro partial_function_mono option.const_mono case_mono assms)

partial_function (option) parse :: "nonterm \<Rightarrow> parser \<Rightarrow> (finsh_node \<times> parser) option" where [code]:
  "parse g s = proc (\<lambda>g s. parse g s) g s"

section \<open>Statements and declarations\<close>

definition proc_expr_statement :: "parser \<Rightarrow> (finsh_node \<times> parser) option" where
  "proc_expr_statement s =
     do {
       s1 \<leftarrow> finsh_token_token s;
       if current_token s1 \<noteq> finsh_token_type_semicolon then
         do { (x, s2) \<leftarrow> parse Assign_expr (finsh_token_replay s1); s3 \<leftarrow> match_token finsh_token_type_semicolon s2; Some (x, s3) }
       else Some (NullNode, s1)
     }"

definition decl_name :: "finsh_type \<Rightarrow> parser \<Rightarrow> (string \<times> parser) option" where
  "decl_name ty s =
     do {
       (nm, s1) \<leftarrow> proc_identifier s;
       let (r, F) = finsh_var_insert nm ty (shell_vars s1);
       Some (nm, if r < 0 then finsh_error_set FINSH_ERROR_VARIABLE_EXIST s1 else s1\<lparr>shell_vars := F\<rparr>)
     }"

text \<open>
  The value of a declared variable: the assignments so far, whether the last one has a node to which the next can be linked, the token that was read last, and the state.
\<close>

definition decl_value :: "string \<Rightarrow> finsh_node list \<Rightarrow> bool \<Rightarrow> parser \<Rightarrow> (finsh_node list \<times> bool \<times> finsh_token_type \<times> parser) option" where
  "decl_value nm ns linked s =
     do {
       (x, s1) \<leftarrow> parse Assign_expr s;
       if x = NullNode then Some (ns, linked, finsh_token_type_assign, s1)
       else if ns \<noteq> [] \<and> \<not> linked then None
       else
         do {
           (idnode, s2) \<leftarrow> finsh_node_new_id nm s1;
           let (n, s3) = make_sys_node FINSH_NODE_SYS_ASSIGN idnode x s2;
           s4 \<leftarrow> finsh_token_token s3;
           Some (if n = NullNode then ns else ns @ [n], n \<noteq> NullNode, current_token s4, s4)
         }
     }"

partial_function (option) decl_loop :: "finsh_type \<Rightarrow> finsh_node list \<Rightarrow> bool \<Rightarrow> finsh_token_type \<Rightarrow> parser \<Rightarrow> (finsh_node list \<times> finsh_token_type \<times> parser) option" where [code]:
  "decl_loop ty ns linked token s =
     (if token \<noteq> finsh_token_type_comma then Some (ns, token, s)
      else
        do {
          (nm, s1) \<leftarrow> decl_name ty s;
          s2 \<leftarrow> finsh_token_token s1;
          if current_token s2 = finsh_token_type_assign then
            do { (ns1, linked1, token1, s3) \<leftarrow> decl_value nm ns linked s2; decl_loop ty ns1 linked1 token1 s3 }
          else decl_loop ty ns linked (current_token s2) s2
        })"

definition decl_end :: "finsh_node list \<times> finsh_token_type \<times> parser \<Rightarrow> finsh_node list \<times> parser" where
  "decl_end r =
     (case r of (ns, token, s) \<Rightarrow>
        (ns, if token \<noteq> finsh_token_type_semicolon then finsh_token_replay (finsh_error_set FINSH_ERROR_INVALID_TOKEN s) else s))"

definition proc_variable_decl :: "parser \<Rightarrow> (finsh_node list \<times> parser) option" where
  "proc_variable_decl s =
     do {
       (ty, s1) \<leftarrow> proc_type s;
       (nm, s2) \<leftarrow> decl_name ty s1;
       s3 \<leftarrow> finsh_token_token s2;
       if current_token s3 = finsh_token_type_comma then do { r \<leftarrow> decl_loop ty [] False finsh_token_type_comma s3; Some (decl_end r) }
       else if current_token s3 = finsh_token_type_assign then
         do {
           (ns, linked, token, s4) \<leftarrow> decl_value nm [] False s3;
           r \<leftarrow> decl_loop ty ns linked token s4;
           Some (decl_end r)
         }
       else if current_token s3 = finsh_token_type_semicolon then Some ([], s3)
       else Some ([], finsh_error_set FINSH_ERROR_EXPECT_TYPE s3)
     }"

text \<open>
  The statements of a line: the nodes of the chain below the root, and the position in it after which the next statement is linked, which cuts off what came after that position.
\<close>

definition statement :: "parser \<Rightarrow> (finsh_node list \<times> parser) option" where
  "statement s =
     (let token = current_token s in
      if token \<noteq> finsh_token_type_identifier \<and> (is_base_type token \<or> token = finsh_token_type_unsigned) then proc_variable_decl (finsh_token_replay s)
      else do { (x, s1) \<leftarrow> proc_expr_statement (finsh_token_replay s); Some (if x = NullNode then [] else [x], s1) })"

definition plain_statement :: "finsh_token_type \<Rightarrow> bool" where
  "plain_statement token \<longleftrightarrow> token \<noteq> finsh_token_type_identifier \<and> \<not> is_base_type token \<and> token \<noteq> finsh_token_type_unsigned"

partial_function (option) parser_loop :: "finsh_node list \<Rightarrow> nat \<Rightarrow> parser \<Rightarrow> (finsh_node list \<times> parser) option" where [code]:
  "parser_loop roots k s =
     (if current_token s = finsh_token_type_eof \<or> current_token s = finsh_token_type_bad then Some (roots, s)
      else
        do {
          (ns, s1) \<leftarrow> statement s;
          s2 \<leftarrow> (if roots \<noteq> [] \<and> ns = [] \<and> plain_statement (current_token s) then finsh_token_token s1 else Some s1);
          let roots1 = (if roots = [] then ns else take (k + 1) roots @ ns);
          if roots1 = [] then Some ([], s2)
          else
            do {
              s3 \<leftarrow> finsh_token_token s2;
              parser_loop roots1 (if roots \<noteq> [] \<and> ns \<noteq> [] then k + 1 else k) s3
            }
        })"

definition finsh_parser_run :: "string \<Rightarrow> parser \<Rightarrow> (finsh_node \<times> parser) option" where
  "finsh_parser_run line s =
     do {
       s1 \<leftarrow> finsh_token_token (finsh_token_init line s);
       (roots, s2) \<leftarrow> parser_loop [] 0 s1;
       Some (node_chain roots, s2)
     }"

section \<open>Lines\<close>

text \<open>The parser as \<^verbatim>\<open>finsh_flush\<close> leaves it: no nodes, no error.\<close>

definition flushed :: "finsh \<Rightarrow> memory \<Rightarrow> finsh_heap \<Rightarrow> parser" where
  "flushed F m H =
     \<lparr>tk_eof = False, tk_replay = False, tk_position = 0, current_token = finsh_token_type_none, tk_value = 0, tk_string = replicate FINSH_STRING_MAX NUL,
      tk_line = [], global_errno = 0, node_count = 0, shell_vars = F, parser_mem = m, parser_heap = H\<rparr>"

text \<open>A line: the value that is printed, or none when an error is reported, and the variables, the heap and the machine after it.\<close>

definition finsh_run_line :: "platform \<Rightarrow> string \<Rightarrow> finsh \<Rightarrow> finsh_heap \<Rightarrow> finsh_vm \<Rightarrow> (rt_uint32 option \<times> finsh \<times> finsh_heap \<times> finsh_vm) option" where
  "finsh_run_line P line F H v =
     do {
       (root, s1) \<leftarrow> finsh_parser_run line (flushed F (vmem v) H);
       let v1 = v\<lparr>vmem := parser_mem s1\<rparr>;
       if global_errno s1 = 0 then
         do {
           (seg, es, v2) \<leftarrow> finsh_compiler_run (shell_vars s1) root v1;
           if es = [] then do { v3 \<leftarrow> finsh_vm_run P seg v2; Some (Some (finsh_stack_bottom v3), shell_vars s1, parser_heap s1, v3) }
           else Some (None, shell_vars s1, parser_heap s1, v2)
         }
       else Some (None, shell_vars s1, parser_heap s1, v1)
     }"

end
