(* ===== verification/Rt_Finsh_Syntax.thy ===== *)
theory Rt_Finsh_Syntax
  imports Rt_Finsh_Lex Rt_Finsh_Parser Rt_Finsh_Run
begin

text \<open>
  Round trip of the parser: an expression is written as tokens (\<open>toks\<close>), without parentheses since the parser takes them for casts, and the parser builds its tree again. \<open>prec\<close> is the
  level of the grammar that produces an expression, \<open>shown\<close> the expressions whose parts stand at the right levels and whose names are found.
\<close>

section \<open>Expressions as tokens\<close>

fun ref_name :: "finsh \<Rightarrow> vref \<Rightarrow> string" where
  "ref_name F (Local i) = var_name (global_variable F ! i)"
| "ref_name F (Sys v) = sv_name v"

fun ref_shown :: "finsh \<Rightarrow> vref \<Rightarrow> bool" where
  "ref_shown F (Local i) \<longleftrightarrow> is_id_name (ref_name F (Local i)) \<and> finsh_var_lookup (ref_name F (Local i)) F = Some i"
| "ref_shown F (Sys v) \<longleftrightarrow> is_id_name (sv_name v) \<and> finsh_var_lookup (sv_name v) F = None \<and> finsh_sysvar_lookup (sv_name v) F = Some v"

definition call_shown :: "finsh \<Rightarrow> finsh_syscall \<Rightarrow> bool" where
  "call_shown F f \<longleftrightarrow> is_id_name (sc_name f) \<and> finsh_var_lookup (sc_name f) F = None \<and> finsh_sysvar_lookup (sc_name f) F = None \<and> finsh_syscall_lookup (sc_name f) F = Some f"

fun op_tok :: "binop \<Rightarrow> finsh_token_type" where
  "op_tok Add = finsh_token_type_add"
| "op_tok Sub = finsh_token_type_sub"
| "op_tok Div = finsh_token_type_div"
| "op_tok Mod = finsh_token_type_mod"
| "op_tok Mul = finsh_token_type_mul"
| "op_tok And = finsh_token_type_and"
| "op_tok Or = finsh_token_type_or"
| "op_tok Xor = finsh_token_type_xor"
| "op_tok Shl = finsh_token_type_shl"
| "op_tok Shr = finsh_token_type_shr"

fun op_level :: "binop \<Rightarrow> level" where
  "op_level Add = Additive"
| "op_level Sub = Additive"
| "op_level Div = Multiplicative"
| "op_level Mod = Multiplicative"
| "op_level Mul = Multiplicative"
| "op_level And = And_expr"
| "op_level Or = Inclusive_or"
| "op_level Xor = Exclusive_or"
| "op_level Shl = Shift"
| "op_level Shr = Shift"

fun level_no :: "level \<Rightarrow> nat" where
  "level_no Inclusive_or = 1"
| "level_no Exclusive_or = 2"
| "level_no And_expr = 3"
| "level_no Shift = 4"
| "level_no Additive = 5"
| "level_no Multiplicative = 6"

fun prec :: "expr \<Rightarrow> nat" where
  "prec (BinE f a b) = level_no (op_level f)"
| "prec (AssignE r a) = 0"
| "prec (PutE a b) = 0"
| "prec (NotE a) = 7"
| "prec (AddrE r) = 7"
| "prec (PreE up i) = 7"
| "prec (GetE a) = 7"
| "prec _ = 8"

abbreviation count_tok :: "bool \<Rightarrow> tok" where
  "count_tok up \<equiv> OpT (if up then finsh_token_type_inc else finsh_token_type_dec)"

fun toks :: "finsh \<Rightarrow> expr \<Rightarrow> tok list" and arg_toks :: "finsh \<Rightarrow> expr list \<Rightarrow> tok list" where
  "toks F (IntE v) = [IntT v]"
| "toks F (CharE c) = [CharT (char_of (unat c))]"
| "toks F (VarE r) = [IdT (ref_name F r)]"
| "toks F (AddrE r) = [OpT finsh_token_type_and, IdT (ref_name F r)]"
| "toks F (BinE f a b) = toks F a @ OpT (op_tok f) # toks F b"
| "toks F (NotE a) = OpT finsh_token_type_bitwise # toks F a"
| "toks F (AssignE r a) = IdT (ref_name F r) # OpT finsh_token_type_assign # toks F a"
| "toks F (PreE up i) = [count_tok up, IdT (ref_name F (Local i))]"
| "toks F (PostE up i) = [IdT (ref_name F (Local i)), count_tok up]"
| "toks F (GetE a) = OpT finsh_token_type_mul # toks F a"
| "toks F (PutE a b) = OpT finsh_token_type_mul # toks F a @ OpT finsh_token_type_assign # toks F b"
| "toks F (CallE f as) = IdT (sc_name f) # OpT finsh_token_type_left_paren # arg_toks F as @ [OpT finsh_token_type_right_paren]"
| "arg_toks F [] = []"
| "arg_toks F (a # as) = toks F a @ (if as = [] then [] else OpT finsh_token_type_comma # arg_toks F as)"

fun shown :: "finsh \<Rightarrow> expr \<Rightarrow> bool" where
  "shown F (IntE v) \<longleftrightarrow> True"
| "shown F (CharE c) \<longleftrightarrow> c \<noteq> 0 \<and> c \<noteq> 0x5C \<and> c \<noteq> 0x0A"
| "shown F (VarE r) \<longleftrightarrow> ref_shown F r"
| "shown F (AddrE r) \<longleftrightarrow> ref_shown F r"
| "shown F (BinE f a b) \<longleftrightarrow> shown F a \<and> shown F b \<and> level_no (op_level f) \<le> prec a \<and> level_no (op_level f) < prec b"
| "shown F (NotE a) \<longleftrightarrow> shown F a \<and> 7 \<le> prec a"
| "shown F (AssignE r a) \<longleftrightarrow> ref_shown F r \<and> shown F a"
| "shown F (PreE up i) \<longleftrightarrow> ref_shown F (Local i)"
| "shown F (PostE up i) \<longleftrightarrow> ref_shown F (Local i)"
| "shown F (GetE a) \<longleftrightarrow> shown F a \<and> 7 \<le> prec a"
| "shown F (PutE a b) \<longleftrightarrow> shown F a \<and> 7 \<le> prec a \<and> shown F b"
| "shown F (CallE f as) \<longleftrightarrow> call_shown F f \<and> (\<forall>a\<in>set as. shown F a)"

fun nodes :: "expr \<Rightarrow> nat" where
  "nodes (AddrE r) = 2"
| "nodes (BinE f a b) = 1 + nodes a + nodes b"
| "nodes (NotE a) = 1 + nodes a"
| "nodes (AssignE r a) = 2 + nodes a"
| "nodes (PreE up i) = 2"
| "nodes (PostE up i) = 2"
| "nodes (GetE a) = 1 + nodes a"
| "nodes (PutE a b) = 2 + nodes a + nodes b"
| "nodes (CallE f as) = 2 + sum_list (map nodes as)"
| "nodes _ = 1"

text \<open>A token that stands behind an expression of a level does not continue it.\<close>

fun tok_level :: "tok \<Rightarrow> nat option" where
  "tok_level (OpT t) =
     (if t = finsh_token_type_assign then Some 0 else if t = finsh_token_type_or then Some 1 else if t = finsh_token_type_xor then Some 2
      else if t = finsh_token_type_and then Some 3 else if t = finsh_token_type_shl \<or> t = finsh_token_type_shr then Some 4
      else if t = finsh_token_type_add \<or> t = finsh_token_type_sub then Some 5
      else if t = finsh_token_type_mul \<or> t = finsh_token_type_div \<or> t = finsh_token_type_mod then Some 6
      else if t = finsh_token_type_inc \<or> t = finsh_token_type_dec \<or> t = finsh_token_type_left_paren then Some 8 else None)"
| "tok_level _ = None"

definition stops :: "nat \<Rightarrow> tok \<Rightarrow> bool" where
  "stops n t \<longleftrightarrow> (case tok_level t of None \<Rightarrow> True | Some l \<Rightarrow> l < n)"

lemma stops_mono: "stops n t \<Longrightarrow> n \<le> m \<Longrightarrow> stops m t"
  by (auto simp: stops_def split: option.splits)

lemma stops_op: "stops (Suc (level_no (op_level f))) (OpT (op_tok f))"
  by (cases f) (simp_all add: stops_def)

lemma stops_end [simp]: "stops n (OpT finsh_token_type_semicolon)" "stops n (OpT finsh_token_type_comma)" "stops n (OpT finsh_token_type_right_paren)"
  by (simp_all add: stops_def)

section \<open>Steps of the parser\<close>

definition moved :: "parser \<Rightarrow> parser \<Rightarrow> nat \<Rightarrow> bool" where
  "moved s s' k \<longleftrightarrow> node_count s' = node_count s + k \<and> global_errno s' = global_errno s \<and> shell_vars s' = shell_vars s \<and> parser_mem s' = parser_mem s \<and> parser_heap s' = parser_heap s"

lemma moved_trans: "moved s s1 j \<Longrightarrow> moved s1 s2 k \<Longrightarrow> moved s s2 (j + k)"
  by (simp add: moved_def)

lemma moved_replay [simp]: "moved s (finsh_token_replay s1) k = moved s s1 k" "moved (finsh_token_replay s) s1 k = moved s s1 k"
  by (simp_all add: moved_def finsh_token_replay_def)

text \<open>The next token was read.\<close>

definition token_got :: "tok \<Rightarrow> tok list \<Rightarrow> parser \<Rightarrow> bool" where
  "token_got t ts s' \<longleftrightarrow> holds s' t \<and> ahead s' ts \<and> ahead (finsh_token_replay s') (t # ts)"

lemma next_token:
  assumes "ahead s (t # ts)"
  obtains s' where "finsh_token_token s = Some s'" "token_got t ts s'" "moved s s' 0"
proof -
  obtain s' where s': "finsh_token_token s = Some s'" "holds s' t" "ahead s' ts" "ahead (finsh_token_replay s') (t # ts)"
    "global_errno s' = global_errno s" "finsh_token.more s' = finsh_token.more s" using next_ahead [OF assms] by blast
  have "moved s s' 0" using s'(5,6) by (cases s; cases s') (simp add: moved_def)
  then show ?thesis using that s' by (simp add: token_got_def)
qed

definition parsed :: "nonterm \<Rightarrow> parser \<Rightarrow> finsh_node \<Rightarrow> nat \<Rightarrow> tok list \<Rightarrow> bool" where
  "parsed g s x k ts \<longleftrightarrow> (\<exists>s'. parse g s = Some (x, s') \<and> moved s s' k \<and> ahead s' ts)"

lemma ahead_count [simp]: "ahead (s\<lparr>node_count := k\<rparr>) ts = ahead s ts"
proof -
  have "holds (s\<lparr>node_count := k\<rparr>) t = holds s t" for t by (cases t) simp_all
  then show ?thesis by (simp add: ahead_def lexes_def reads_def)
qed

lemma make_ok:
  assumes "node_count s < FINSH_NODE_MAX" "x \<noteq> NullNode"
  shows "make_sys_node ty x y s = (FNode (new_node ty) (set_sibling x y) NullNode, s\<lparr>node_count := node_count s + 1\<rparr>)"
  using assms by (simp add: make_sys_node_def finsh_node_allocate_def)

lemma leaf_made:
  assumes "node_count s < FINSH_NODE_MAX"
  shows "new_leaf ty fill s = (FNode (fill (new_node ty)) NullNode NullNode, s\<lparr>node_count := node_count s + 1\<rparr>)"
  using assms by (simp add: new_leaf_def finsh_node_allocate_def)

lemma tree_sibling [simp]: "set_sibling (tree_of e x) y = tree_of e y" "tree_of e x \<noteq> NullNode"
  by (cases e; simp)+

lemma parse_eq: "parse g s = proc parse g s"
  using parse.simps .

lemma got_op: "token_got (OpT ty) ts s \<Longrightarrow> current_token s = ty"
  by (simp add: token_got_def)

section \<open>Primary and postfix expressions\<close>

text \<open>A name with its node.\<close>

definition names :: "finsh \<Rightarrow> string \<Rightarrow> node_info \<Rightarrow> bool" where
  "names F nm x \<longleftrightarrow> is_id_name nm \<and> (\<forall>s. shell_vars s = F \<longrightarrow> node_count s < FINSH_NODE_MAX
     \<longrightarrow> finsh_node_new_id nm s = Some (FNode x NullNode NullNode, s\<lparr>node_count := node_count s + 1\<rparr>))"

lemma names_ref: "ref_shown F r \<Longrightarrow> names F (ref_name F r) (ref_node r)"
  by (cases r) (auto simp: names_def finsh_node_new_id_def leaf_made is_id_name_def new_node_def)

lemma names_call: "call_shown F f \<Longrightarrow> names F (sc_name f) (call_node f)"
  by (auto simp: names_def call_shown_def finsh_node_new_id_def leaf_made is_id_name_def new_node_def call_node_def)

lemma parsed_name:
  assumes nm: "names F nm x" and a: "ahead s (IdT nm # ts)" and s: "shell_vars s = F" "node_count s < FINSH_NODE_MAX"
  shows "parsed Primary_expr s (FNode x NullNode NullNode) 1 ts"
proof -
  obtain s1 where s1: "finsh_token_token s = Some s1" "token_got (IdT nm) ts s1" "moved s s1 0" using next_token [OF a] .
  obtain s2 where s2: "finsh_token_token (finsh_token_replay s1) = Some s2" "token_got (IdT nm) ts s2" "moved (finsh_token_replay s1) s2 0"
    using next_token s1(2) by (metis token_got_def)
  have t: "current_token s1 = finsh_token_type_identifier" "current_token s2 = finsh_token_type_identifier" "c_str (tk_string s2) = nm"
    using s1(2) s2(2) by (simp_all add: token_got_def)
  have m: "moved s s2 0" using moved_trans [OF s1(3), of s2 0] s2(3) by simp
  have "take FINSH_NAME_MAX nm = nm" using nm by (simp add: names_def is_id_name_def)
  then have i: "proc_identifier (finsh_token_replay s1) = Some (nm, s2)" using s2(1) t by (simp add: proc_identifier_def match_token_def check_token_def)
  let ?s3 = "s2\<lparr>node_count := node_count s2 + 1\<rparr>"
  have "finsh_node_new_id nm s2 = Some (FNode x NullNode NullNode, ?s3)" using nm m s unfolding names_def moved_def by simp
  then have "parse Primary_expr s = Some (FNode x NullNode NullNode, ?s3)" using s1(1) t i by (subst parse_eq) (simp add: proc_primary_expr_def)
  then show ?thesis using m s2(2) by (simp add: parsed_def moved_def token_got_def)
qed

lemma parsed_int:
  assumes a: "ahead s (IntT v # ts)" and s: "node_count s < FINSH_NODE_MAX"
  shows "parsed Primary_expr s (tree_of (IntE v) NullNode) 1 ts"
proof -
  obtain s1 where s1: "finsh_token_token s = Some s1" "token_got (IntT v) ts s1" "moved s s1 0" using next_token [OF a] .
  then have "current_token s1 = finsh_token_type_value_int" "tk_value s1 = v" "node_count s1 < FINSH_NODE_MAX" using s by (simp_all add: token_got_def moved_def)
  then have "parse Primary_expr s = Some (tree_of (IntE v) NullNode, s1\<lparr>node_count := node_count s1 + 1\<rparr>)"
    using s1(1) by (subst parse_eq) (simp add: proc_primary_expr_def finsh_node_new_int_def leaf_made)
  then show ?thesis using s1(2,3) by (simp add: parsed_def moved_def token_got_def)
qed

lemma parsed_char:
  assumes a: "ahead s (CharT (char_of (unat c)) # ts)" and s: "node_count s < FINSH_NODE_MAX"
  shows "parsed Primary_expr s (tree_of (CharE c) NullNode) 1 ts"
proof -
  obtain s1 where s1: "finsh_token_token s = Some s1" "token_got (CharT (char_of (unat c))) ts s1" "moved s s1 0" using next_token [OF a] .
  have "unat c < 256" using unsigned_less [of c, where ?'a = nat] by simp
  then have "(of_nat (of_char (char_of (unat c))) :: rt_uint8) = c" by simp
  then have "(of_char (char_of (unat c)) :: rt_uint8) = c" by (simp only: of_nat_of_char)
  then have "current_token s1 = finsh_token_type_value_char" "ucast (tk_value s1) = c" "node_count s1 < FINSH_NODE_MAX" using s1 s by (simp_all add: token_got_def moved_def)
  then have "parse Primary_expr s = Some (tree_of (CharE c) NullNode, s1\<lparr>node_count := node_count s1 + 1\<rparr>)"
    using s1(1) by (subst parse_eq) (simp add: proc_primary_expr_def finsh_node_new_char_def leaf_made)
  then show ?thesis using s1(2,3) by (simp add: parsed_def moved_def token_got_def)
qed

text \<open>The loop of the postfix operators starts with the token behind the primary expression, and ends at a token that is none.\<close>

lemma postfix_start:
  assumes "parsed Primary_expr s x k (t # ts)"
  obtains s' where "parse Postfix_expr s = parse (Postfix_loop x) s'" "token_got t ts s'" "moved s s' k"
proof -
  obtain s1 where s1: "parse Primary_expr s = Some (x, s1)" "moved s s1 k" "ahead s1 (t # ts)" using assms by (auto simp: parsed_def)
  obtain s2 where s2: "finsh_token_token s1 = Some s2" "token_got t ts s2" "moved s1 s2 0" using next_token [OF s1(3)] .
  have "parse Postfix_expr s = parse (Postfix_loop x) s2" using s1(1) s2(1) by (subst parse_eq) (simp add: proc_postfix_expr_def)
  then show ?thesis using that s2(2) moved_trans [OF s1(2) s2(3)] by simp
qed

lemma stops_postfix:
  assumes "token_got t ts s" "stops 8 t"
  shows "current_token s \<noteq> finsh_token_type_inc" "current_token s \<noteq> finsh_token_type_dec" "current_token s \<noteq> finsh_token_type_left_paren"
  using assms by (cases t; auto simp: token_got_def stops_def)+

lemma postfix_end:
  assumes "token_got t ts s" "stops 8 t"
  shows "parsed (Postfix_loop x) s x 0 (t # ts)"
proof -
  have "parse (Postfix_loop x) s = Some (x, finsh_token_replay s)" using stops_postfix [OF assms] by (subst parse_eq) (simp add: postfix_loop_def)
  then show ?thesis using assms(1) by (simp add: parsed_def token_got_def) (simp add: moved_def)
qed

lemma parsed_from:
  assumes "parse g s = parse h s1" "moved s s1 j" "parsed h s1 x k ts"
  shows "parsed g s x (j + k) ts"
  using assms moved_trans unfolding parsed_def by metis

lemma parsed_postfix:
  assumes "parsed Primary_expr s x k (t # ts)" "stops 8 t"
  shows "parsed Postfix_expr s x k (t # ts)"
proof -
  obtain s' where s': "parse Postfix_expr s = parse (Postfix_loop x) s'" "token_got t ts s'" "moved s s' k" using postfix_start [OF assms(1)] .
  show ?thesis using parsed_from [OF s'(1,3) postfix_end [OF s'(2) assms(2)]] by simp
qed

lemma parsed_count:
  assumes g: "token_got (count_tok up) (t # ts) s" and s: "node_count s < FINSH_NODE_MAX" and x: "x \<noteq> NullNode" and t: "stops 8 t"
  shows "parsed (Postfix_loop x) s (FNode (new_node (if up then FINSH_NODE_SYS_INC else FINSH_NODE_SYS_DEC)) (set_sibling x NullNode) NullNode) 1 (t # ts)"
proof -
  let ?s1 = "s\<lparr>node_count := node_count s + 1\<rparr>" and ?x = "FNode (new_node (if up then FINSH_NODE_SYS_INC else FINSH_NODE_SYS_DEC)) (set_sibling x NullNode) NullNode"
  have "ahead ?s1 (t # ts)" using g by (simp add: token_got_def)
  then obtain s2 where s2: "finsh_token_token ?s1 = Some s2" "token_got t ts s2" "moved ?s1 s2 0" by (rule next_token)
  have c: "current_token s = (if up then finsh_token_type_inc else finsh_token_type_dec)" using got_op [OF g] .
  have "parse (Postfix_loop x) s = parse (Postfix_loop ?x) s2"
    using c s2(1) make_ok [OF s x] by (subst parse_eq) (cases up; simp add: postfix_loop_def)
  moreover have "moved s s2 1" using s2(3) by (simp add: moved_def)
  ultimately show ?thesis using parsed_from [OF _ _ postfix_end [OF s2(2) t]] by fastforce
qed

section \<open>Levels\<close>

definition goal_of :: "nat \<Rightarrow> nonterm" where
  "goal_of n = (if n = 0 then Assign_expr else if n = 1 then Level Inclusive_or else if n = 2 then Level Exclusive_or else if n = 3 then Level And_expr
     else if n = 4 then Level Shift else if n = 5 then Level Additive else if n = 6 then Level Multiplicative else if n = 7 then Cast_expr else Postfix_expr)"

definition parses :: "finsh \<Rightarrow> nat \<Rightarrow> expr \<Rightarrow> bool" where
  "parses F n e \<longleftrightarrow> (\<forall>s t ts. ahead s (toks F e @ t # ts) \<longrightarrow> stops n t \<longrightarrow> node_count s + nodes e \<le> FINSH_NODE_MAX \<longrightarrow> shell_vars s = F
     \<longrightarrow> parsed (goal_of n) s (tree_of e NullNode) (nodes e) (t # ts))"

lemma parsesI:
  assumes "\<And>s t ts. ahead s (toks F e @ t # ts) \<Longrightarrow> stops n t \<Longrightarrow> node_count s + nodes e \<le> FINSH_NODE_MAX \<Longrightarrow> shell_vars s = F
     \<Longrightarrow> parsed (goal_of n) s (tree_of e NullNode) (nodes e) (t # ts)"
  shows "parses F n e"
  using assms by (simp add: parses_def)

lemma parsesD:
  assumes "parses F n e" "ahead s (toks F e @ t # ts)" "stops n t" "node_count s + nodes e \<le> FINSH_NODE_MAX" "shell_vars s = F"
  obtains s' where "parse (goal_of n) s = Some (tree_of e NullNode, s')" "moved s s' (nodes e)" "ahead s' (t # ts)"
  using assms unfolding parses_def parsed_def by blast

lemma goal_postfix: "goal_of 8 = Postfix_expr"
  by (simp add: goal_of_def)

lemma nodes_pos: "0 < nodes e"
  by (cases e) simp_all

lemma parses_leaf: "parses F 8 (IntE v)" "parses F 8 (CharE c)" "ref_shown F r \<Longrightarrow> parses F 8 (VarE r)"
proof -
  show "parses F 8 (IntE v)" unfolding parses_def goal_postfix by (auto intro!: parsed_postfix parsed_int simp del: tree_of.simps One_nat_def)
  show "parses F 8 (CharE c)" unfolding parses_def goal_postfix by (auto intro!: parsed_postfix parsed_char simp del: tree_of.simps One_nat_def)
  show "parses F 8 (VarE r)" if "ref_shown F r"
    unfolding parses_def goal_postfix using parsed_name [OF names_ref [OF that]] by (auto intro!: parsed_postfix)
qed

lemma parses_post:
  assumes "ref_shown F (Local i)"
  shows "parses F 8 (PostE up i)"
proof (rule parsesI, unfold goal_postfix)
  fix s :: parser and t ts assume a: "ahead s (toks F (PostE up i) @ t # ts)" "stops 8 t" "node_count s + nodes (PostE up i) \<le> FINSH_NODE_MAX" "shell_vars s = F"
  let ?x = "FNode (ref_node (Local i)) NullNode NullNode"
  have "parsed Primary_expr s ?x 1 (count_tok up # t # ts)" using parsed_name [OF names_ref [OF assms]] a by simp
  then obtain s1 where s1: "parse Postfix_expr s = parse (Postfix_loop ?x) s1" "token_got (count_tok up) (t # ts) s1" "moved s s1 1" by (rule postfix_start)
  have "node_count s1 < FINSH_NODE_MAX" using s1(3) a(3) by (simp add: moved_def)
  from parsed_from [OF s1(1,3) parsed_count [OF s1(2) this _ a(2)]]
  show "parsed Postfix_expr s (tree_of (PostE up i) NullNode) (nodes (PostE up i)) (t # ts)" by (cases up) (simp_all add: numeral_2_eq_2)
qed

section \<open>Calls\<close>

lemma trees_chain: "node_chain (map (\<lambda>a. tree_of a NullNode) as) = trees_of as"
  by (induction as) simp_all

lemma parsed_params_end:
  assumes "token_got (OpT finsh_token_type_right_paren) ts s"
  shows "parsed (Param_loop xs) s (node_chain xs) 0 (OpT finsh_token_type_right_paren # ts)"
proof -
  have "parse (Param_loop xs) s = Some (node_chain xs, finsh_token_replay s)" using got_op [OF assms] by (subst parse_eq) (simp add: param_loop_def)
  then show ?thesis using assms by (simp add: parsed_def token_got_def) (simp add: moved_def)
qed

text \<open>The arguments that are still to come, with the comma in front of them.\<close>

definition more_args :: "finsh \<Rightarrow> expr list \<Rightarrow> tok list \<Rightarrow> tok list" where
  "more_args F as ts = (if as = [] then [] else OpT finsh_token_type_comma # arg_toks F as) @ OpT finsh_token_type_right_paren # ts"

lemma more_args_Cons: "arg_toks F (a # as) @ OpT finsh_token_type_right_paren # ts = toks F a @ more_args F as ts"
  by (simp add: more_args_def)

lemma more_args_head: "\<exists>t us. more_args F as ts = t # us \<and> stops 0 t"
  by (simp add: more_args_def stops_def)

lemma parsed_params:
  assumes "\<forall>a\<in>set as. parses F 0 a" "more_args F as ts = t # us" "token_got t us s"
    and "node_count s + sum_list (map nodes as) \<le> FINSH_NODE_MAX" "shell_vars s = F"
  shows "parsed (Param_loop xs) s (node_chain (xs @ map (\<lambda>a. tree_of a NullNode) as)) (sum_list (map nodes as)) (OpT finsh_token_type_right_paren # ts)"
  using assms
proof (induction as arbitrary: xs s t us)
  case Nil
  then show ?case using parsed_params_end by (simp add: more_args_def)
next
  case (Cons a as)
  have t: "t = OpT finsh_token_type_comma" "us = toks F a @ more_args F as ts" using Cons.prems(2) more_args_Cons [of F a as ts] by (auto simp: more_args_def)
  obtain t' us' where h: "more_args F as ts = t' # us'" "stops 0 t'" using more_args_head by blast
  have "ahead s (toks F a @ t' # us')" using Cons.prems(3) t h by (simp add: token_got_def)
  then obtain s1 where s1: "parse (goal_of 0) s = Some (tree_of a NullNode, s1)" "moved s s1 (nodes a)" "ahead s1 (t' # us')"
    using parsesD [of F 0 a s t' us'] Cons.prems h(2) by auto
  obtain s2 where s2: "finsh_token_token s1 = Some s2" "token_got t' us' s2" "moved s1 s2 0" using next_token [OF s1(3)] .
  have m: "moved s s2 (nodes a)" using moved_trans [OF s1(2) s2(3)] by simp
  have "parse (Param_loop xs) s = parse (Param_loop (xs @ [tree_of a NullNode])) s2"
    using got_op [of finsh_token_type_comma us s] Cons.prems(3) t(1) s1(1) s2(1) by (subst parse_eq) (simp add: param_loop_def goal_of_def)
  moreover have "parsed (Param_loop (xs @ [tree_of a NullNode])) s2 (node_chain ((xs @ [tree_of a NullNode]) @ map (\<lambda>a. tree_of a NullNode) as))
      (sum_list (map nodes as)) (OpT finsh_token_type_right_paren # ts)"
    by (rule Cons.IH [OF _ h(1) s2(2)]) (use Cons.prems m in \<open>simp_all add: moved_def\<close>)
  ultimately show ?case using parsed_from [OF _ m] by simp
qed

lemma parsed_param_list:
  assumes "\<forall>a\<in>set as. parses F 0 a" "as \<noteq> []" "ahead s (arg_toks F as @ OpT finsh_token_type_right_paren # ts)"
    and "node_count s + sum_list (map nodes as) \<le> FINSH_NODE_MAX" "shell_vars s = F"
  shows "parsed Param_list s (trees_of as) (sum_list (map nodes as)) (OpT finsh_token_type_right_paren # ts)"
proof -
  obtain a as' where as: "as = a # as'" using assms(2) by (cases as) auto
  obtain t us where h: "more_args F as' ts = t # us" "stops 0 t" using more_args_head by blast
  have "ahead s (toks F a @ t # us)" using assms(3) as h more_args_Cons by metis
  then obtain s1 where s1: "parse (goal_of 0) s = Some (tree_of a NullNode, s1)" "moved s s1 (nodes a)" "ahead s1 (t # us)"
    using parsesD [of F 0 a s t us] assms as h(2) by auto
  obtain s2 where s2: "finsh_token_token s1 = Some s2" "token_got t us s2" "moved s1 s2 0" using next_token [OF s1(3)] .
  have m: "moved s s2 (nodes a)" using moved_trans [OF s1(2) s2(3)] by simp
  have "parse Param_list s = parse (Param_loop [tree_of a NullNode]) s2"
    using s1(1) s2(1) by (subst parse_eq) (simp add: proc_param_list_def goal_of_def)
  moreover have "parsed (Param_loop [tree_of a NullNode]) s2 (node_chain ([tree_of a NullNode] @ map (\<lambda>a. tree_of a NullNode) as'))
      (sum_list (map nodes as')) (OpT finsh_token_type_right_paren # ts)"
    by (rule parsed_params [OF _ h(1) s2(2)]) (use assms as m in \<open>simp_all add: moved_def\<close>)
  ultimately show ?thesis using parsed_from [OF _ m] trees_chain [of as'] as by simp
qed

lemma args_head: "as \<noteq> [] \<Longrightarrow> \<exists>t us. arg_toks F as = t # us \<and> t \<noteq> OpT finsh_token_type_right_paren"
proof -
  have h: "\<exists>t us. toks F e = t # us \<and> t \<noteq> OpT finsh_token_type_right_paren" for e
  proof (induction e)
    case (BinE f a b)
    then show ?case by auto
  qed auto
  assume "as \<noteq> []"
  then obtain a as' where as: "as = a # as'" by (cases as) auto
  obtain t us where "toks F a = t # us" "t \<noteq> OpT finsh_token_type_right_paren" using h by blast
  then show ?thesis using as by simp
qed

lemma parsed_call_parameters:
  assumes "\<forall>a\<in>set as. parses F 0 a" "ahead s (arg_toks F as @ OpT finsh_token_type_right_paren # ts)"
    and "node_count s + sum_list (map nodes as) \<le> FINSH_NODE_MAX" "shell_vars s = F"
  shows "\<exists>s'. call_parameters parse s = Some (trees_of as, s') \<and> moved s s' (sum_list (map nodes as)) \<and> ahead s' ts"
proof (cases "as = []")
  case True
  then have "ahead s (OpT finsh_token_type_right_paren # ts)" using assms(2) by simp
  then obtain s1 where "finsh_token_token s = Some s1" "token_got (OpT finsh_token_type_right_paren) ts s1" "moved s s1 0" by (rule next_token)
  then show ?thesis using True by (simp add: call_parameters_def token_got_def)
next
  case False
  obtain t us where h: "arg_toks F as = t # us" "t \<noteq> OpT finsh_token_type_right_paren" using args_head [OF False] by blast
  then have "ahead s (t # us @ OpT finsh_token_type_right_paren # ts)" using assms(2) by simp
  then obtain s1 where s1: "finsh_token_token s = Some s1" "token_got t (us @ OpT finsh_token_type_right_paren # ts) s1" "moved s s1 0" by (rule next_token)
  have n: "current_token s1 \<noteq> finsh_token_type_right_paren" using s1(2) h(2) by (cases t) (auto simp: token_got_def)
  have "parsed Param_list (finsh_token_replay s1) (trees_of as) (sum_list (map nodes as)) (OpT finsh_token_type_right_paren # ts)"
    by (rule parsed_param_list [OF assms(1) False]) (use s1 h assms(3,4) in \<open>simp_all add: token_got_def moved_def finsh_token_replay_def\<close>)
  then obtain s2 where s2: "parse Param_list (finsh_token_replay s1) = Some (trees_of as, s2)" "moved s1 s2 (sum_list (map nodes as))"
    "ahead s2 (OpT finsh_token_type_right_paren # ts)" by (auto simp: parsed_def)
  obtain s3 where s3: "finsh_token_token s2 = Some s3" "token_got (OpT finsh_token_type_right_paren) ts s3" "moved s2 s3 0" using next_token [OF s2(3)] .
  have "call_parameters parse s = Some (trees_of as, s3)"
    using s1(1) n s2(1) s3(1) got_op [OF s3(2)] by (simp add: call_parameters_def match_token_def check_token_def)
  then show ?thesis using moved_trans [OF s1(3) moved_trans [OF s2(2) s3(3)]] s3(2) by (simp add: token_got_def)
qed

lemma parses_call:
  assumes f: "call_shown F f" and as: "\<forall>a\<in>set as. parses F 0 a"
  shows "parses F 8 (CallE f as)"
proof (rule parsesI, unfold goal_postfix)
  fix s :: parser and t ts assume a: "ahead s (toks F (CallE f as) @ t # ts)" "stops 8 t" "node_count s + nodes (CallE f as) \<le> FINSH_NODE_MAX" "shell_vars s = F"
  let ?x = "FNode (call_node f) NullNode NullNode" and ?args = "arg_toks F as @ OpT finsh_token_type_right_paren # t # ts"
  let ?n = "FNode (new_node FINSH_NODE_SYS_FUNC) (set_sibling ?x (trees_of as)) NullNode"
  have "parsed Primary_expr s ?x 1 (OpT finsh_token_type_left_paren # ?args)" using parsed_name [OF names_call [OF f]] a by simp
  then obtain s1 where s1: "parse Postfix_expr s = parse (Postfix_loop ?x) s1" "token_got (OpT finsh_token_type_left_paren) ?args s1" "moved s s1 1" by (rule postfix_start)
  obtain s2 where s2: "call_parameters parse s1 = Some (trees_of as, s2)" "moved s1 s2 (sum_list (map nodes as))" "ahead s2 (t # ts)"
    using parsed_call_parameters [OF as, of s1 "t # ts"] s1(2,3) a(3,4) by (auto simp: token_got_def moved_def)
  have n: "node_count s2 < FINSH_NODE_MAX" using s1(3) s2(2) a(3) by (simp add: moved_def)
  let ?s3 = "s2\<lparr>node_count := node_count s2 + 1\<rparr>"
  have "ahead ?s3 (t # ts)" using s2(3) by simp
  then obtain s4 where s4: "finsh_token_token ?s3 = Some s4" "token_got t ts s4" "moved ?s3 s4 0" by (rule next_token)
  have "parse (Postfix_loop ?x) s1 = parse (Postfix_loop ?n) s4"
    using got_op [OF s1(2)] s2(1) make_ok [OF n, of ?x] s4(1) by (subst parse_eq) (simp add: postfix_loop_def)
  moreover have "moved s s4 (nodes (CallE f as))" using s1(3) s2(2) s4(3) by (simp add: moved_def)
  ultimately show "parsed Postfix_expr s (tree_of (CallE f as) NullNode) (nodes (CallE f as)) (t # ts)"
    using parsed_from [OF _ _ postfix_end [OF s4(2) a(2)], of Postfix_expr s ?n] s1(1) by simp
qed

section \<open>Unary expressions\<close>

text \<open>An expression that starts with a token which is neither a parenthesis nor a unary operator.\<close>

lemma unary_start:
  assumes a: "ahead s (t # ts)" and t: "\<not> (\<exists>ty. t = OpT ty)"
  obtains s' where "parse Cast_expr s = parse Postfix_expr s'" "ahead s' (t # ts)" "moved s s' 0"
proof -
  obtain s1 where s1: "finsh_token_token s = Some s1" "token_got t ts s1" "moved s s1 0" using next_token [OF a] .
  have "ahead (finsh_token_replay s1) (t # ts)" using s1(2) by (simp add: token_got_def)
  then obtain s2 where s2: "finsh_token_token (finsh_token_replay s1) = Some s2" "token_got t ts s2" "moved (finsh_token_replay s1) s2 0" by (rule next_token)
  have c: "current_token s1 \<noteq> finsh_token_type_left_paren" "current_token s2 \<noteq> finsh_token_type_add" "current_token s2 \<noteq> finsh_token_type_sub" "unary_node (current_token s2) = None"
    using s1(2) s2(2) t by (cases t; simp add: token_got_def unary_node_def)+
  have "parse Cast_expr s = parse Unary_expr (finsh_token_replay s1)" using s1(1) c(1) by (subst parse_eq) (simp add: proc_cast_expr_def)
  also have "\<dots> = parse Postfix_expr (finsh_token_replay s2)" using s2(1) c(2-) by (subst parse_eq) (simp add: proc_unary_expr_def)
  finally show ?thesis using that s2(2) moved_trans [OF s1(3), of s2 0] s2(3) by (simp add: token_got_def)
qed

lemma parses_unary:
  assumes "parses F 8 e" "\<exists>t us. toks F e = t # us \<and> \<not> (\<exists>ty. t = OpT ty)"
  shows "parses F 7 e"
proof (rule parsesI)
  fix s :: parser and t ts assume a: "ahead s (toks F e @ t # ts)" "stops 7 t" "node_count s + nodes e \<le> FINSH_NODE_MAX" "shell_vars s = F"
  obtain u us where u: "toks F e = u # us" "\<not> (\<exists>ty. u = OpT ty)" using assms(2) by blast
  have "ahead s (u # us @ t # ts)" using a(1) u(1) by simp
  then obtain s1 where s1: "parse Cast_expr s = parse Postfix_expr s1" "ahead s1 (u # us @ t # ts)" "moved s s1 0" using unary_start u(2) by blast
  have "parsed (goal_of 8) s1 (tree_of e NullNode) (nodes e) (t # ts)"
    using assms(1) s1(2,3) u(1) a(2-) stops_mono [of 7 t 8] by (simp add: parses_def moved_def)
  then show "parsed (goal_of 7) s (tree_of e NullNode) (nodes e) (t # ts)" using parsed_from [OF s1(1,3)] by (simp add: goal_of_def)
qed

lemma parsed_unary:
  assumes a: "ahead s (OpT ty # toks F e @ t # ts)" and ty: "unary_node ty = Some n" and e: "parses F 7 e"
    and s: "stops 7 t" "node_count s + nodes e < FINSH_NODE_MAX" "shell_vars s = F"
  shows "parsed Cast_expr s (FNode (new_node n) (tree_of e NullNode) NullNode) (1 + nodes e) (t # ts)"
proof -
  let ?ts = "toks F e @ t # ts"
  obtain s1 where s1: "finsh_token_token s = Some s1" "token_got (OpT ty) ?ts s1" "moved s s1 0" using next_token [OF a] .
  have "ahead (finsh_token_replay s1) (OpT ty # ?ts)" using s1(2) by (simp add: token_got_def)
  then obtain s2 where s2: "finsh_token_token (finsh_token_replay s1) = Some s2" "token_got (OpT ty) ?ts s2" "moved (finsh_token_replay s1) s2 0" by (rule next_token)
  have m: "moved s s2 0" using moved_trans [OF s1(3), of s2 0] s2(3) by simp
  have c: "ty \<noteq> finsh_token_type_left_paren" "ty \<noteq> finsh_token_type_add" "ty \<noteq> finsh_token_type_sub" using ty by (auto simp: unary_node_def)
  obtain s3 where s3: "parse (goal_of 7) s2 = Some (tree_of e NullNode, s3)" "moved s2 s3 (nodes e)" "ahead s3 (t # ts)"
    using parsesD [OF e, of s2 t ts] s2(2) s m by (auto simp: token_got_def moved_def)
  have n: "node_count s3 < FINSH_NODE_MAX" using m s3(2) s(2) by (simp add: moved_def)
  let ?s4 = "s3\<lparr>node_count := node_count s3 + 1\<rparr>"
  have "parse Cast_expr s = parse Unary_expr (finsh_token_replay s1)"
    using s1(1) got_op [OF s1(2)] c(1) by (subst parse_eq) (simp add: proc_cast_expr_def)
  also have "\<dots> = Some (FNode (new_node n) (tree_of e NullNode) NullNode, ?s4)"
    using s2(1) got_op [OF s2(2)] c(2,3) ty s3(1) make_ok [OF n, of "tree_of e NullNode" n NullNode]
    by (subst parse_eq) (simp add: proc_unary_expr_def goal_of_def)
  finally show ?thesis using m s3(2,3) by (simp add: parsed_def moved_def)
qed

lemma unary_nodes:
  "unary_node finsh_token_type_inc = Some FINSH_NODE_SYS_PREINC" "unary_node finsh_token_type_dec = Some FINSH_NODE_SYS_PREDEC"
  "unary_node finsh_token_type_bitwise = Some FINSH_NODE_SYS_BITWISE" "unary_node finsh_token_type_mul = Some FINSH_NODE_SYS_GETVALUE"
  "unary_node finsh_token_type_and = Some FINSH_NODE_SYS_GETADDR"
  by (simp_all add: unary_node_def)

lemma goal_cast: "goal_of 7 = Cast_expr"
  by (simp add: goal_of_def)

lemma parses_not: "parses F 7 a \<Longrightarrow> parses F 7 (NotE a)"
  and parses_get: "parses F 7 a \<Longrightarrow> parses F 7 (GetE a)"
  by (rule parsesI, unfold goal_cast, use parsed_unary [OF _ unary_nodes(3)] parsed_unary [OF _ unary_nodes(4)] in simp)+

lemma parses_var7: "ref_shown F r \<Longrightarrow> parses F 7 (VarE r)"
  by (rule parses_unary [OF parses_leaf(3)]) simp_all

lemma parses_addr:
  assumes "ref_shown F r"
  shows "parses F 7 (AddrE r)"
  by (rule parsesI, unfold goal_cast, use parsed_unary [OF _ unary_nodes(5) parses_var7 [OF assms]] in \<open>simp add: numeral_2_eq_2\<close>)

lemma parses_pre:
  assumes "ref_shown F (Local i)"
  shows "parses F 7 (PreE up i)"
  by (rule parsesI, unfold goal_cast, cases up)
    (use parsed_unary [OF _ unary_nodes(1) parses_var7 [OF assms]] parsed_unary [OF _ unary_nodes(2) parses_var7 [OF assms]] in \<open>simp_all add: numeral_2_eq_2\<close>)

section \<open>Binary operators\<close>

lemma goal_level: "goal_of (level_no lv) = Level lv" "goal_of (Suc (level_no lv)) = level_operand lv"
  by (cases lv; simp add: goal_of_def)+

lemma level_op_tok: "level_op (op_level f) (op_tok f) = Some (binop_node f)"
  by (cases f) simp_all

lemma level_stops: "token_got t ts s \<Longrightarrow> stops (level_no lv) t \<Longrightarrow> level_op lv (current_token s) = None"
  by (cases lv; cases t) (auto simp: token_got_def stops_def split: if_splits)

text \<open>The loop of a level continues with the token behind an expression of this level.\<close>

definition enters :: "finsh \<Rightarrow> level \<Rightarrow> expr \<Rightarrow> bool" where
  "enters F lv e \<longleftrightarrow> (\<forall>s t ts. ahead s (toks F e @ t # ts) \<longrightarrow> stops (Suc (level_no lv)) t \<longrightarrow> node_count s + nodes e \<le> FINSH_NODE_MAX \<longrightarrow> shell_vars s = F
     \<longrightarrow> (\<exists>s'. parse (Level lv) s = parse (Level_loop lv (tree_of e NullNode)) s' \<and> token_got t ts s' \<and> moved s s' (nodes e)))"

lemma enters_operand:
  assumes "parses F (Suc (level_no lv)) e"
  shows "enters F lv e"
  unfolding enters_def
proof (intro allI impI)
  fix s :: parser and t ts assume a: "ahead s (toks F e @ t # ts)" "stops (Suc (level_no lv)) t" "node_count s + nodes e \<le> FINSH_NODE_MAX" "shell_vars s = F"
  obtain s1 where s1: "parse (level_operand lv) s = Some (tree_of e NullNode, s1)" "moved s s1 (nodes e)" "ahead s1 (t # ts)"
    using parsesD [OF assms a] goal_level(2) by metis
  obtain s2 where s2: "finsh_token_token s1 = Some s2" "token_got t ts s2" "moved s1 s2 0" using next_token [OF s1(3)] .
  have "parse (Level lv) s = parse (Level_loop lv (tree_of e NullNode)) s2" using s1(1) s2(1) by (subst parse_eq) (simp add: proc_level_expr_def)
  then show "\<exists>s'. parse (Level lv) s = parse (Level_loop lv (tree_of e NullNode)) s' \<and> token_got t ts s' \<and> moved s s' (nodes e)"
    using s2(2) moved_trans [OF s1(2) s2(3)] by auto
qed

lemma enters_op:
  assumes a: "enters F (op_level f) a" and b: "parses F (Suc (level_no (op_level f))) b"
  shows "enters F (op_level f) (BinE f a b)"
  unfolding enters_def
proof (intro allI impI)
  let ?lv = "op_level f" and ?e = "BinE f a b"
  fix s :: parser and t ts assume h: "ahead s (toks F ?e @ t # ts)" "stops (Suc (level_no ?lv)) t" "node_count s + nodes ?e \<le> FINSH_NODE_MAX" "shell_vars s = F"
  let ?ts = "toks F b @ t # ts"
  obtain s1 where s1: "parse (Level ?lv) s = parse (Level_loop ?lv (tree_of a NullNode)) s1" "token_got (OpT (op_tok f)) ?ts s1" "moved s s1 (nodes a)"
    using a [unfolded enters_def, rule_format, of s "OpT (op_tok f)" ?ts] h stops_op [of f] by auto
  obtain s2 where s2: "parse (level_operand ?lv) s1 = Some (tree_of b NullNode, s2)" "moved s1 s2 (nodes b)" "ahead s2 (t # ts)"
    using parsesD [OF b, of s1 t ts] h s1(2,3) goal_level(2) [of ?lv] by (auto simp: token_got_def moved_def)
  have n: "node_count s2 < FINSH_NODE_MAX" using s1(3) s2(2) h(3) by (simp add: moved_def)
  let ?s3 = "s2\<lparr>node_count := node_count s2 + 1\<rparr>"
  have "ahead ?s3 (t # ts)" using s2(3) by simp
  then obtain s4 where s4: "finsh_token_token ?s3 = Some s4" "token_got t ts s4" "moved ?s3 s4 0" by (rule next_token)
  have "parse (Level_loop ?lv (tree_of a NullNode)) s1 = parse (Level_loop ?lv (tree_of ?e NullNode)) s4"
    using got_op [OF s1(2)] level_op_tok [of f] s2(1) make_ok [OF n, of "tree_of a NullNode" "binop_node f" "tree_of b NullNode"] s4(1)
    by (subst parse_eq) (simp add: level_loop_def)
  moreover have "moved s s4 (nodes ?e)" using s1(3) s2(2) s4(3) by (simp add: moved_def)
  ultimately show "\<exists>s'. parse (Level ?lv) s = parse (Level_loop ?lv (tree_of ?e NullNode)) s' \<and> token_got t ts s' \<and> moved s s' (nodes ?e)"
    using s1(1) s4(2) by auto
qed

lemma parses_level:
  assumes "enters F lv e"
  shows "parses F (level_no lv) e"
proof (rule parsesI, unfold goal_level)
  fix s :: parser and t ts assume a: "ahead s (toks F e @ t # ts)" "stops (level_no lv) t" "node_count s + nodes e \<le> FINSH_NODE_MAX" "shell_vars s = F"
  obtain s1 where s1: "parse (Level lv) s = parse (Level_loop lv (tree_of e NullNode)) s1" "token_got t ts s1" "moved s s1 (nodes e)"
    using assms [unfolded enters_def, rule_format, OF a(1) stops_mono [OF a(2)] a(3,4)] by auto
  have "parse (Level_loop lv (tree_of e NullNode)) s1 = Some (tree_of e NullNode, finsh_token_replay s1)"
    using level_stops [OF s1(2) a(2)] by (subst parse_eq) (simp add: level_loop_def)
  then show "parsed (Level lv) s (tree_of e NullNode) (nodes e) (t # ts)" using s1 by (simp add: parsed_def token_got_def)
qed

section \<open>Assignments and all expressions\<close>

lemma goal_assign: "goal_of 0 = Assign_expr" "goal_of (Suc 0) = Level Inclusive_or"
  by (simp_all add: goal_of_def)

lemma parses_expr:
  assumes "parses F 1 e"
  shows "parses F 0 e"
proof (rule parsesI, unfold goal_assign)
  fix s :: parser and t ts assume a: "ahead s (toks F e @ t # ts)" "stops 0 t" "node_count s + nodes e \<le> FINSH_NODE_MAX" "shell_vars s = F"
  obtain s1 where s1: "parse (Level Inclusive_or) s = Some (tree_of e NullNode, s1)" "moved s s1 (nodes e)" "ahead s1 (t # ts)"
    using parsesD [OF assms a(1) stops_mono [OF a(2)] a(3,4)] goal_assign by auto
  obtain s2 where s2: "finsh_token_token s1 = Some s2" "token_got t ts s2" "moved s1 s2 0" using next_token [OF s1(3)] .
  have "current_token s2 \<noteq> finsh_token_type_assign" using s2(2) a(2) by (cases t) (auto simp: token_got_def stops_def)
  then have "parse Assign_expr s = Some (tree_of e NullNode, finsh_token_replay s2)" using s1(1) s2(1) by (subst parse_eq) (simp add: proc_assign_expr_def)
  then show "parsed Assign_expr s (tree_of e NullNode) (nodes e) (t # ts)" using s2(2) moved_trans [OF s1(2) s2(3)] by (simp add: parsed_def token_got_def)
qed

lemma parsed_assign:
  assumes e: "parses F 1 e1" "parses F 0 e2" and a: "ahead s (toks F e1 @ OpT finsh_token_type_assign # toks F e2 @ t # ts)"
    and s: "stops 0 t" "node_count s + nodes e1 + nodes e2 < FINSH_NODE_MAX" "shell_vars s = F"
  shows "parsed Assign_expr s (FNode (new_node FINSH_NODE_SYS_ASSIGN) (tree_of e1 (tree_of e2 NullNode)) NullNode) (1 + nodes e1 + nodes e2) (t # ts)"
proof -
  let ?ts = "toks F e2 @ t # ts"
  have "stops 1 (OpT finsh_token_type_assign)" by (simp add: stops_def)
  then obtain s1 where s1: "parse (Level Inclusive_or) s = Some (tree_of e1 NullNode, s1)" "moved s s1 (nodes e1)" "ahead s1 (OpT finsh_token_type_assign # ?ts)"
    using parsesD [OF e(1) a] s goal_assign by auto
  obtain s2 where s2: "finsh_token_token s1 = Some s2" "token_got (OpT finsh_token_type_assign) ?ts s2" "moved s1 s2 0" using next_token [OF s1(3)] .
  obtain s3 where s3: "parse Assign_expr s2 = Some (tree_of e2 NullNode, s3)" "moved s2 s3 (nodes e2)" "ahead s3 (t # ts)"
    using parsesD [OF e(2), of s2 t ts] s s1(2) s2(2,3) goal_assign by (auto simp: token_got_def moved_def)
  have n: "node_count s3 < FINSH_NODE_MAX" using s1(2) s2(3) s3(2) s(2) by (simp add: moved_def)
  have "parse Assign_expr s = Some (FNode (new_node FINSH_NODE_SYS_ASSIGN) (tree_of e1 (tree_of e2 NullNode)) NullNode, s3\<lparr>node_count := node_count s3 + 1\<rparr>)"
    using s1(1) s2(1) got_op [OF s2(2)] s3(1) make_ok [OF n, of "tree_of e1 NullNode" FINSH_NODE_SYS_ASSIGN "tree_of e2 NullNode"]
    by (subst parse_eq) (simp add: proc_assign_expr_def)
  then show ?thesis using s1(2) s2(3) s3(2,3) by (simp add: parsed_def moved_def)
qed

lemma level_numbers: "0 < n \<Longrightarrow> n < 7 \<Longrightarrow> \<exists>lv. n = level_no lv"
proof -
  assume "0 < n" "n < 7"
  then have "n = 1 \<or> n = 2 \<or> n = 3 \<or> n = 4 \<or> n = 5 \<or> n = 6" by presburger
  then show ?thesis by (metis level_no.simps)
qed

lemma parses_down:
  assumes "n \<le> m" "m \<le> 7" "parses F m e"
  shows "parses F n e"
  using assms(1) assms(3)
proof (induction rule: inc_induct)
  case (step k)
  show ?case
  proof (cases "k = 0")
    case True
    then show ?thesis using parses_expr step by simp
  next
    case False
    then obtain lv where "k = level_no lv" using level_numbers [of k] step(2) assms(2) by auto
    then show ?thesis using parses_level [OF enters_operand] step by metis
  qed
qed

lemma level_no_le: "level_no lv \<le> 6" "0 < level_no lv"
  by (cases lv; simp)+

lemma parses_assignments:
  assumes "parses F 0 a"
  shows "ref_shown F r \<Longrightarrow> parses F 0 (AssignE r a)" "parses F 7 d \<Longrightarrow> parses F 0 (PutE d a)"
proof -
  assume r: "ref_shown F r"
  have 1: "parses F 1 (VarE r)" by (rule parses_down [OF _ _ parses_var7 [OF r]]) simp_all
  show "parses F 0 (AssignE r a)"
    by (rule parsesI, unfold goal_assign) (use parsed_assign [OF 1 assms] in \<open>simp add: numeral_2_eq_2\<close>)
next
  assume d: "parses F 7 d"
  have 1: "parses F 1 (GetE d)" by (rule parses_down [OF _ _ parses_get [OF d]]) simp_all
  show "parses F 0 (PutE d a)"
    by (rule parsesI, unfold goal_assign) (use parsed_assign [OF 1 assms] in \<open>simp add: numeral_2_eq_2\<close>)
qed

lemma parses_low: "parses F 7 e \<Longrightarrow> n \<le> 7 \<Longrightarrow> parses F n e"
  by (rule parses_down) simp_all

lemma parses_primary:
  assumes "parses F 8 e" "\<exists>t us. toks F e = t # us \<and> \<not> (\<exists>ty. t = OpT ty)" "n \<le> 8"
  shows "parses F n e"
  using parses_low [OF parses_unary [OF assms(1,2)], of n] assms(1,3) by (cases "n = 8") simp_all

lemma level_no_inject: "level_no lv = level_no lv' \<Longrightarrow> lv = lv'"
  by (cases lv; cases lv') simp_all

definition parses_all :: "finsh \<Rightarrow> expr \<Rightarrow> bool" where
  "parses_all F e \<longleftrightarrow> (\<forall>n\<le>prec e. parses F n e) \<and> (\<forall>lv. level_no lv = prec e \<longrightarrow> enters F lv e)"

lemma parses_all_high:
  assumes "\<And>n. n \<le> prec e \<Longrightarrow> parses F n e" "6 < prec e \<or> prec e = 0"
  shows "parses_all F e"
proof -
  have "level_no lv \<noteq> prec e" for lv using level_no_le [of lv] assms(2) by auto
  then show ?thesis using assms(1) by (simp add: parses_all_def)
qed

lemma parses_all_op:
  assumes a: "parses_all F a" and b: "parses_all F b" and e: "shown F (BinE f a b)"
  shows "parses_all F (BinE f a b)"
proof -
  let ?lv = "op_level f"
  have "enters F ?lv a"
  proof (cases "level_no ?lv = prec a")
    case True
    then show ?thesis using a by (simp add: parses_all_def)
  next
    case False
    then show ?thesis using a e by (intro enters_operand) (simp add: parses_all_def)
  qed
  then have n: "enters F ?lv (BinE f a b)" using b e by (intro enters_op) (simp_all add: parses_all_def)
  have "parses F n (BinE f a b)" if "n \<le> level_no ?lv" for n
    using parses_down [OF that _ parses_level [OF n]] level_no_le [of ?lv] by simp
  then show ?thesis using n level_no_inject by (fastforce simp: parses_all_def)
qed

lemma shown_parses: "shown F e \<Longrightarrow> parses_all F e"
proof (induction e)
  case (BinE f a b)
  then show ?case by (intro parses_all_op) simp_all
next
  case (CallE f as)
  then have "parses F 0 a" if "a \<in> set as" for a using that by (simp add: parses_all_def)
  then show ?case using CallE.prems by (intro parses_all_high parses_primary [OF parses_call]) simp_all
next
  case (IntE v)
  show ?case by (intro parses_all_high parses_primary [OF parses_leaf(1)]) simp_all
next
  case (CharE c)
  show ?case by (intro parses_all_high parses_primary [OF parses_leaf(2)]) simp_all
next
  case (VarE r)
  then show ?case by (intro parses_all_high parses_primary [OF parses_leaf(3)]) simp_all
next
  case (AddrE r)
  then show ?case by (intro parses_all_high parses_low [OF parses_addr]) simp_all
next
  case (NotE a)
  then have "parses F 7 a" by (simp add: parses_all_def)
  then show ?case by (intro parses_all_high parses_low [OF parses_not]) simp_all
next
  case (AssignE r a)
  then have "parses F 0 a" by (simp add: parses_all_def)
  then show ?case using parses_assignments(1) AssignE.prems by (intro parses_all_high) simp_all
next
  case (PreE up i)
  then show ?case by (intro parses_all_high parses_low [OF parses_pre]) simp_all
next
  case (PostE up i)
  then show ?case by (intro parses_all_high parses_primary [OF parses_post]) simp_all
next
  case (GetE a)
  then have "parses F 7 a" by (simp add: parses_all_def)
  then show ?case by (intro parses_all_high parses_low [OF parses_get]) simp_all
next
  case (PutE a b)
  then have "parses F 7 a" "parses F 0 b" by (simp_all add: parses_all_def)
  then show ?case using parses_assignments(2) by (intro parses_all_high) simp_all
qed

end
