(* ===== verification/Rt_Finsh_Line.thy ===== *)
theory Rt_Finsh_Line
  imports Rt_Finsh_Syntax
begin

text \<open>
  A line of the shell from its text to its value: the statements of a line are parsed to the trees of their expressions, compiled, and run.
\<close>

section \<open>The text of a line\<close>

definition line_toks :: "finsh \<Rightarrow> expr list \<Rightarrow> tok list" where
  "line_toks F es = concat (map (\<lambda>e. toks F e @ [OpT finsh_token_type_semicolon]) es)"

definition line_text :: "finsh \<Rightarrow> expr list \<Rightarrow> string" where
  "line_text F es = printed (line_toks F es)"

lemma ref_tok: "ref_shown F r \<Longrightarrow> is_id_name (ref_name F r)"
  by (cases r) simp_all

lemma char_tok:
  assumes "c \<noteq> 0x5C" "c \<noteq> 0x0A"
  shows "tok_ok (CharT (char_of (unat (c :: rt_uint8))))"
proof -
  have u: "unat c < 256" using unsigned_less [of c, where ?'a = nat] by simp
  have d: "c = of_nat (of_char d)" if "char_of (unat c) = d" for d
  proof -
    have "of_char d = unat c mod 256" unfolding that [symmetric] by simp
    then have "unat c = of_char d" using u by simp
    then show ?thesis by (metis of_nat_unat ucast_id)
  qed
  then have "char_of (unat c) \<noteq> CHR 0x5C" "char_of (unat c) \<noteq> CHR 0x0A" using assms d [of "CHR 0x5C"] d [of "CHR 0x0A"] by auto
  then show ?thesis by simp
qed

lemma toks_ok: "shown F e \<Longrightarrow> \<forall>t\<in>set (toks F e). tok_ok t" "\<forall>a\<in>set as. shown F a \<Longrightarrow> \<forall>t\<in>set (arg_toks F as). tok_ok t"
proof (induction F e and F as rule: toks_arg_toks.induct)
  case (2 F c)
  then show ?case using char_tok by simp
next
  case (5 F f a b)
  then show ?case by (cases f) auto
next
  case (12 F f as)
  then show ?case by (auto simp: call_shown_def)
qed (auto simp: ref_tok simp del: ref_name.simps)

lemma text_line: "tok_ok t \<Longrightarrow> CHR 0x0A \<notin> set (tok_text t)"
proof (cases t)
  case (IdT nm)
  moreover have "is_separator (CHR 0x0A)" by (simp add: is_separator_def is_digit_def char_code_def)
  ultimately show "tok_ok t \<Longrightarrow> ?thesis" by (auto simp: is_id_name_def)
next
  case (IntT v)
  moreover have "\<not> is_digit (CHR 0x0A)" by (simp add: is_digit_def char_code_def)
  ultimately show "tok_ok t \<Longrightarrow> ?thesis" using decimal_digits [of "unat v"] by auto
next
  case (OpT ty)
  then show "tok_ok t \<Longrightarrow> ?thesis" by (cases ty) simp_all
qed auto

lemma line_lexes:
  assumes "\<forall>e\<in>set es. shown F e"
  shows "ahead (finsh_token_init (line_text F es) s) (line_toks F es)"
proof -
  have ok: "\<forall>t\<in>set (line_toks F es). tok_ok t" using assms toks_ok(1) by (auto simp: line_toks_def)
  then have "CHR 0x0A \<notin> set (line_text F es)" using text_line by (auto simp: line_text_def printed_def)
  moreover have "line_toks F es \<noteq> [] \<Longrightarrow> last (line_toks F es) = OpT finsh_token_type_semicolon"
    by (cases es rule: rev_cases) (simp_all add: line_toks_def)
  ultimately show ?thesis using ok by (simp add: ahead_def lexes_def reads_def finsh_token_init_def line_text_def)
qed

section \<open>Statements\<close>

text \<open>The first token of an expression ends no line and begins no declaration.\<close>

definition starts :: "tok \<Rightarrow> bool" where
  "starts t \<longleftrightarrow> (case t of OpT ty \<Rightarrow> ty \<in> {finsh_token_type_and, finsh_token_type_mul, finsh_token_type_inc, finsh_token_type_dec, finsh_token_type_bitwise} | _ \<Rightarrow> True)"

lemma toks_start: "\<exists>t us. toks F e = t # us \<and> starts t"
proof (induction e)
  case (BinE f a b)
  then show ?case by auto
qed (auto simp: starts_def)

lemma starts_token:
  assumes "token_got t us s" "starts t"
  shows "current_token s \<notin> {finsh_token_type_eof, finsh_token_type_bad, finsh_token_type_semicolon, finsh_token_type_unsigned}" "\<not> is_base_type (current_token s)"
  using assms by (cases t; auto simp: token_got_def starts_def is_base_type_def)+

lemma statement_ok:
  assumes e: "shown F e" and g: "toks F e @ OpT finsh_token_type_semicolon # ts = t # us" "token_got t us s"
    and s: "node_count s + nodes e \<le> FINSH_NODE_MAX" "shell_vars s = F"
  shows "\<exists>s'. statement s = Some ([tree_of e NullNode], s') \<and> moved s s' (nodes e) \<and> ahead s' ts"
proof -
  have t: "starts t" using toks_start [of F e] g(1) by auto
  have "ahead (finsh_token_replay s) (t # us)" using g(2) by (simp add: token_got_def)
  then obtain s1 where s1: "finsh_token_token (finsh_token_replay s) = Some s1" "token_got t us s1" "moved s s1 0" using next_token by (metis moved_replay(2))
  have p: "parses F 0 e" using shown_parses [OF e] by (simp add: parses_all_def)
  have "ahead (finsh_token_replay s1) (toks F e @ OpT finsh_token_type_semicolon # ts)" using s1(2) g(1) by (simp add: token_got_def)
  moreover have "node_count (finsh_token_replay s1) + nodes e \<le> FINSH_NODE_MAX" "shell_vars (finsh_token_replay s1) = F"
    using s s1(3) by (simp_all add: moved_def finsh_token_replay_def)
  ultimately have "parsed Assign_expr (finsh_token_replay s1) (tree_of e NullNode) (nodes e) (OpT finsh_token_type_semicolon # ts)"
    using p stops_end(1) unfolding parses_def goal_assign by blast
  then obtain s2 where s2: "parse Assign_expr (finsh_token_replay s1) = Some (tree_of e NullNode, s2)" "moved s1 s2 (nodes e)"
    "ahead s2 (OpT finsh_token_type_semicolon # ts)" by (auto simp: parsed_def)
  obtain s3 where s3: "finsh_token_token s2 = Some s3" "token_got (OpT finsh_token_type_semicolon) ts s3" "moved s2 s3 0" using next_token [OF s2(3)] .
  have "proc_expr_statement (finsh_token_replay s) = Some (tree_of e NullNode, s3)"
    using s1(1) starts_token [OF s1(2) t] s2(1) s3(1) got_op [OF s3(2)] by (simp add: proc_expr_statement_def match_token_def check_token_def)
  then have "statement s = Some ([tree_of e NullNode], s3)" using starts_token [OF g(2) t] by (simp add: statement_def Let_def)
  then show ?thesis using moved_trans [OF s1(3) moved_trans [OF s2(2) s3(3)]] s3(2) by (simp add: token_got_def)
qed

lemma line_Cons: "line_toks F (e # es) = toks F e @ OpT finsh_token_type_semicolon # line_toks F es"
  by (simp add: line_toks_def)

lemma parser_loop_ok:
  assumes "\<forall>e\<in>set es. shown F e" "ahead s (line_toks F es)" "node_count s + sum_list (map nodes es) \<le> FINSH_NODE_MAX" "shell_vars s = F"
    and "if roots = [] then k = 0 else length roots = k + 1"
  shows "\<exists>s1 s2. finsh_token_token s = Some s1 \<and> parser_loop roots k s1 = Some (roots @ map (\<lambda>e. tree_of e NullNode) es, s2)
    \<and> moved s s2 (sum_list (map nodes es))"
  using assms
proof (induction es arbitrary: s roots k)
  case Nil
  have l: "lexes s []" "\<not> tk_replay s" using Nil.prems(2) by (auto simp: ahead_def line_toks_def split: if_splits)
  then obtain s1 where s1: "token_run s = Some s1" "current_token s1 = finsh_token_type_eof" "global_errno s1 = global_errno s" "finsh_token.more s1 = finsh_token.more s"
    using lex_end by blast
  have "moved s s1 0" using s1(3,4) by (cases s; cases s1) (simp add: moved_def)
  moreover have "parser_loop roots k s1 = Some (roots, s1)" using s1(2) by (subst parser_loop.simps) simp
  ultimately show ?case using s1(1) l(2) by (simp add: finsh_token_token_def)
next
  case (Cons e es)
  obtain t us where t: "toks F e @ OpT finsh_token_type_semicolon # line_toks F es = t # us" "starts t" using toks_start [of F e] by auto
  have "ahead s (t # us)" using Cons.prems(2) t(1) line_Cons by metis
  then obtain s1 where s1: "finsh_token_token s = Some s1" "token_got t us s1" "moved s s1 0" by (rule next_token)
  obtain s2 where s2: "statement s1 = Some ([tree_of e NullNode], s2)" "moved s1 s2 (nodes e)" "ahead s2 (line_toks F es)"
    using statement_ok [OF _ t(1) s1(2)] Cons.prems(1,3,4) s1(3) by (auto simp: moved_def)
  have m: "moved s s2 (nodes e)" using moved_trans [OF s1(3) s2(2)] by simp
  let ?roots = "roots @ [tree_of e NullNode]"
  have "\<exists>s3 s4. finsh_token_token s2 = Some s3 \<and> parser_loop ?roots (length roots) s3 = Some (?roots @ map (\<lambda>e. tree_of e NullNode) es, s4)
    \<and> moved s2 s4 (sum_list (map nodes es))"
    by (rule Cons.IH [OF _ s2(3)]) (use Cons.prems m in \<open>simp_all add: moved_def\<close>)
  then obtain s3 s4 where s4: "finsh_token_token s2 = Some s3" "parser_loop ?roots (length roots) s3 = Some (?roots @ map (\<lambda>e. tree_of e NullNode) es, s4)"
    "moved s2 s4 (sum_list (map nodes es))" by blast
  have "parser_loop roots k s1 = parser_loop ?roots (length roots) s3"
    using starts_token [OF s1(2) t(2)] s2(1) s4(1) Cons.prems(5) by (subst parser_loop.simps) (auto split: if_splits)
  then show ?case using s1(1) s4(2) moved_trans [OF m s4(3)] by simp
qed

section \<open>From text to value\<close>

lemma parser_run_ok:
  assumes "\<forall>e\<in>set es. shown F e" "sum_list (map nodes es) \<le> FINSH_NODE_MAX" "node_count s = 0" "shell_vars s = F"
  shows "\<exists>s'. finsh_parser_run (line_text F es) s = Some (trees_of es, s') \<and> moved s s' (sum_list (map nodes es))"
proof -
  let ?s = "finsh_token_init (line_text F es) s"
  have i: "node_count ?s = node_count s" "shell_vars ?s = shell_vars s" "global_errno ?s = global_errno s" "parser_mem ?s = parser_mem s" "parser_heap ?s = parser_heap s"
    by (simp_all add: finsh_token_init_def)
  obtain s1 s2 where "finsh_token_token ?s = Some s1" "parser_loop [] 0 s1 = Some (map (\<lambda>e. tree_of e NullNode) es, s2)" "moved ?s s2 (sum_list (map nodes es))"
    using parser_loop_ok [OF assms(1) line_lexes [OF assms(1)], of s "[]" 0] assms i by auto
  then show ?thesis using i trees_chain [of es] by (simp add: finsh_parser_run_def moved_def)
qed

lemma run_line_ok:
  assumes "\<forall>e\<in>set es. shown F e \<and> well_typed F e \<and> depth e \<le> FINSH_STACK_MAX" "sum_list (map nodes es) \<le> FINSH_NODE_MAX" "length (line_code F es) \<le> FINSH_TEXT_MAX"
    and "eval_line F P es (vmem v) = Some (x, m)"
  shows "\<exists>r v'. finsh_run_line P (line_text F es) F H v = Some (Some r, F, H, v') \<and> take_bit (valid F (last es)) r = x \<and> vmem v' = m"
proof -
  obtain s' where s': "finsh_parser_run (line_text F es) (flushed F (vmem v) H) = Some (trees_of es, s')" "moved (flushed F (vmem v) H) s' (sum_list (map nodes es))"
    using parser_run_ok [of es F "flushed F (vmem v) H"] assms(1,2) by (auto simp: flushed_def)
  have f: "global_errno s' = 0" "shell_vars s' = F" "parser_mem s' = vmem v" "parser_heap s' = H" using s'(2) by (simp_all add: moved_def flushed_def)
  obtain seg s1 s2 where c: "finsh_compiler_run F (trees_of es) v = Some (seg, [], s1)" "finsh_vm_run P seg s1 = Some s2"
    "take_bit (valid F (last es)) (finsh_stack_bottom s2) = x" "vmem s2 = m" using line_correct [of es F P v x m] assms by auto
  then show ?thesis using s'(1) f by (simp add: finsh_run_line_def)
qed

end
