(* ===== verification/Spec2Isabelle.thy ===== *)
theory Spec2Isabelle
  imports Rt_Demo Rt_Port Rt_Ringbuffer Rt_Heap_Client Rt_Dataqueue Rt_Dfs Rt_Finsh_Widths Rt_Finsh_Line
begin

text \<open>
  A verification of RT-Thread as it is built for the ESP32 in this repository: the kernel, and around it memory heaps, queues and
  buffers of the drivers, the FreeRTOS interface of the port, the tables of the device file system and the finsh shell
  (\<^verbatim>\<open>src/rt-thread/src\<close> with the configuration \<^verbatim>\<open>src/rtconfig.h\<close>: 32 priorities, one skip list level,
  soft timers, all IPC objects, assertions on, no modules).

  \<^bold>\<open>The program.\<close> Threads are scheduled by priority, round robin among equals (\<^verbatim>\<open>scheduler.c\<close>,
  \<^verbatim>\<open>thread.c\<close>). A clock interrupt advances the tick, ends time slices and runs the expired timers
  (\<^verbatim>\<open>clock.c\<close>, \<^verbatim>\<open>timer.c\<close>); every thread has a timer of its own, which wakes it when a wait lasts too
  long. Semaphores, mutexes, events, mailboxes, message queues (\<^verbatim>\<open>ipc.c\<close>) and memory pools
  (\<^verbatim>\<open>mempool.c\<close>) let threads wait in lists and wake each other. All of them are kernel objects in
  containers (\<^verbatim>\<open>object.c\<close>), linked by intrusive lists (\<^verbatim>\<open>rtservice.h\<close>); the idle thread (\<^verbatim>\<open>idle.c\<close>)
  releases the memory of threads that have ended. On top of the kernel are the memory heap (\<^verbatim>\<open>memheap.c\<close>), which uses a semaphore as its lock, the
  data queues and completions of the drivers (\<^verbatim>\<open>dataqueue.c\<close>, \<^verbatim>\<open>completion.c\<close>), the FreeRTOS calls of the port (\<^verbatim>\<open>fmq.c\<close>, \<^verbatim>\<open>libcpu.c\<close>) and
  the device file system (\<^verbatim>\<open>dfs.c\<close>, \<^verbatim>\<open>dfs_fs.c\<close>), which uses a mutex. The ring buffer (\<^verbatim>\<open>ringbuffer.c\<close>) needs no kernel call. The shell reads a line
  (\<^verbatim>\<open>finsh_token.c\<close>, \<^verbatim>\<open>finsh_parser.c\<close>), builds a tree of nodes with strings in a heap of its own (\<^verbatim>\<open>finsh_node.c\<close>, \<^verbatim>\<open>finsh_heap.c\<close>), translates it to byte
  code (\<^verbatim>\<open>finsh_compiler.c\<close>) and runs the code on a stack machine (\<^verbatim>\<open>finsh_vm.c\<close>, \<^verbatim>\<open>finsh_ops.c\<close>).

  \<^bold>\<open>The state.\<close> \<open>kstate\<close> (theory \<open>Rt_Kernel\<close>) has the global variables of the kernel and, for each kind of
  structure, the structures by address. Embedded list nodes are kept in list stores, one for thread
  nodes, one for timer nodes and one for object nodes: \<open>lst\<close> gives the members of a list, \<open>loc\<close> the list
  a node is in. Theory \<open>Rt_List\<close> proves that the pointer code implements the stores. Every operation
  is a function on \<open>kstate\<close>; a call that may not return (a failed \<^verbatim>\<open>RT_ASSERT\<close> spins forever, a loop may not
  end) or that uses memory outside of its object gives an option, with \<open>None\<close> for these cases. Loops
  that need not end are partial functions, and the theorems about them prove that they return; there
  is no fuel. A blocking call is cut at \<^verbatim>\<open>rt_schedule\<close>: the first part ends with \<open>Return\<close> or \<open>Blocked\<close>,
  and a definition with the suffix \<open>_wake\<close> is what the thread does when it runs again.

  \<^bold>\<open>Granularity.\<close> The code protects its sections by disabling interrupts. In the system of \<open>Rt_System\<close> a step is a whole
  call, up to its end or up to the point where its thread waits, the rest of a call after a wait, or a clock interrupt, and clock
  interrupts come between such steps. The code also enables interrupts inside of calls: between the sections of
  \<^verbatim>\<open>rt_mq_send\<close>, \<^verbatim>\<open>rt_mq_urgent\<close> and \<^verbatim>\<open>rt_mq_recv\<close>, where a slot is in no list of the queue, and between a section and the
  \<^verbatim>\<open>rt_schedule\<close> behind it, where the running thread may be suspended already. Interrupts at these points are not in the
  runs, and the invariant is not claimed there. Nor do the runs have active system timers of the application: the invariant has timers of threads only
  in the list of \<^verbatim>\<open>rt_timer_check\<close>. The theorems on single operations (C14 to C16) have both kinds of timers.

  \<^bold>\<open>The theories.\<close>
  \<^item> \<open>Rt_Prelude\<close>: machine types, error numbers, assertions, tick arithmetic, chains of links.
  \<^item> \<open>Rt_List\<close>: \<^verbatim>\<open>rt_list_*\<close> on a heap of nodes, the list store, the refinement, and the interface
    \<open>node_lists\<close>, interpreted on both.
  \<^item> \<open>Rt_Kservice\<close>: \<^verbatim>\<open>__rt_ffs\<close> with its table, \<^verbatim>\<open>rt_strncpy\<close>, \<^verbatim>\<open>rt_strncmp\<close> on a byte memory.
  \<^item> \<open>Rt_Kernel\<close>: the structures of \<^verbatim>\<open>rtdef.h\<close> and the kernel state.
  \<^item> \<open>Rt_Object\<close>: object containers (\<^verbatim>\<open>object.c\<close>).
  \<^item> \<open>Rt_Sched\<close>: \<^verbatim>\<open>scheduler.c\<close> and \<^verbatim>\<open>irq.c\<close>, with the scheduler invariant \<open>sched_inv\<close>: a ready thread is in the
    queue of its priority, a suspended one in no queue or in a wait list, the bitmap shows the
    non-empty queues, priorities and masks agree and the stacks are intact.
  \<^item> \<open>Rt_TimerCore\<close>: timer operations that do not start timers, with the timer invariant.
  \<^item> \<open>Rt_Thread\<close>: \<^verbatim>\<open>thread.c\<close> and \<^verbatim>\<open>rt_object_find\<close>; every operation keeps \<open>sched_inv\<close>.
  \<^item> \<open>Rt_Timer\<close>: starting timers, both expiry checks, the timer thread, sleeping. \<open>check_inv\<close> joins the
    invariants of scheduler and timers: the timer list is sorted from a base tick, an active thread
    timer belongs to a suspended thread, periodic timers have a period. Timeout functions of the
    application are a parameter with the condition \<open>cb_ok\<close> (they return, keep the invariant and do not
    start system timers).
  \<^item> \<open>Rt_Ipc\<close>: wait lists, waking and waiting; the interface \<open>waited_object\<close> of objects whose detach wakes
    all waiting threads.
  \<^item> \<open>Rt_Sem\<close>, \<open>Rt_Mutex\<close>, \<open>Rt_Event\<close>: the objects of \<^verbatim>\<open>ipc.c\<close>, interpretations of \<open>waited_object\<close>.
  \<^item> \<open>Rt_Mailbox\<close>, \<open>Rt_Mq\<close>: interpretations of \<open>bounded_queue\<close> (the ring buffer, the linked slots) and
    \<open>kernel_queue\<close> (the calls).
  \<^item> \<open>Rt_Mempool\<close>: \<^verbatim>\<open>mempool.c\<close> and the error number of \<^verbatim>\<open>kservice.c\<close>.
  \<^item> \<open>Rt_Clock\<close>: \<^verbatim>\<open>clock.c\<close> and \<^verbatim>\<open>idle.c\<close>.
  \<^item> \<open>Rt_Frame\<close>, \<open>Rt_Tick\<close>: what each call, and the clock interrupt, leaves alone, and which threads it wakes.
  \<^item> \<open>Rt_System\<close>, \<open>Rt_Runs\<close>: the kernel as a step relation on threads with continuations and the clock interrupt,
    and the invariants of its runs by rule induction.
  \<^item> \<open>Rt_Ring\<close>, \<open>Rt_Fmq\<close>, \<open>Rt_Port\<close>: rings of cells, the queues of \<^verbatim>\<open>fmq.c\<close> as an interpretation of \<open>kernel_queue\<close>,
    and the FreeRTOS calls of \<^verbatim>\<open>libcpu.c\<close>.
  \<^item> \<open>Rt_Ringbuffer\<close>, \<open>Rt_Dataqueue\<close>: \<^verbatim>\<open>ringbuffer.c\<close>; \<^verbatim>\<open>dataqueue.c\<close> and \<^verbatim>\<open>completion.c\<close>.
  \<^item> \<open>Rt_Memheap\<close> has the operations of \<^verbatim>\<open>memheap.c\<close>; \<open>Rt_Heap\<close>, \<open>Rt_Heap_Free\<close>, \<open>Rt_Heap_Realloc\<close>, \<open>Rt_Heap_Calls\<close> show that
    they keep a partition of the memory, and \<open>Rt_Heap_Client\<close> has the interface \<open>allocator\<close>, interpreted on the calls.
  \<^item> \<open>Rt_Path\<close>, \<open>Rt_Dfs\<close>: path normalisation; the tables of file systems, mount points and descriptors, with the interface
    \<open>guarded\<close> of the sections under the lock.
  \<^item> \<open>Rt_Finsh_Vm\<close>, \<open>Rt_Finsh_Compiler\<close>, \<open>Rt_Finsh_Token\<close>, \<open>Rt_Finsh_Heap\<close>, \<open>Rt_Finsh_Parser\<close>: the parts of the shell.
  \<^item> \<open>Rt_Finsh_Exec\<close>, \<open>Rt_Finsh_Expr\<close>, \<open>Rt_Finsh_Run\<close>, \<open>Rt_Finsh_Widths\<close>: the compiler and the machine against the evaluation of
    expressions, and what happens to expressions of mixed widths.
  \<^item> \<open>Rt_Finsh_Lex\<close>, \<open>Rt_Finsh_Syntax\<close>, \<open>Rt_Finsh_Line\<close>: printed tokens, expressions and lines are read again.
  \<^item> \<open>Rt_Demo\<close>: a small kernel state for the concrete instances.

  \<^bold>\<open>What is shown.\<close> C1 to C5 are about all runs of the kernel: mutual exclusion, no call is stuck, the invariant, the
  most urgent thread runs, waiting with a timer ends. C6: a heap used by any sequence of calls keeps the blocks of its client.
  C7 to C10: a line of the shell, from its text to its value; its parser inverts printing, its compiler is correct, and its heap keeps
  blocks apart. C11 justifies the list store. C12 to C16: scheduler, timers across the wrap of the tick counter, and the
  clock interrupt. C17 to C20: mutexes with priority inheritance, semaphores, and events against a specification. C21 to C24: the queues of the port and
  ring buffers refine queues, mailboxes and message queues are first-in first-out. C25 to C27: the calls of the memory heap. C32 to C35: paths,
  mount points, descriptors and data queues. The others (C28 to C31, C36 to C40) prove behaviour the code does not intend:
  a lost inherited priority, a wrong count of waiting threads, a missing switch, lost data of a forced write, wrapped indices and
  sizes, a string that is released too early, and operands of the shell that are left out or too wide. Theorems without a number are of the same
  kind and less central.

  \<^bold>\<open>Parameters.\<close> Results of the allocator, the initial stack pointer of the port, the timeout, cleanup and notification
  functions of the application; for the shell the record \<open>platform\<close> (which memory accesses are possible, what called
  functions do) and the addresses of its variables and of its heap. A context switch is a change of the current thread.

  \<^bold>\<open>Bounds.\<close> No definition has fuel. Loops of the code that may run forever are partial functions, and the theorems prove
  that they return; the loop of the virtual machine and the reading of characters are total. The limits are those of the code: 16 nodes,
  64 stack cells, 128 bytes of text and 128 bytes of heap for the shell, 16 bit indices in mailboxes and data queues.

  \<^bold>\<open>Not modelled.\<close> Hooks (they only observe), console output, the line editor, the module shell and the commands of the shell that print
  kernel objects; devices and start-up tables; work queues, pipes and portals; mounting and the file calls, which hand over to a
  file system; interrupts inside of kernel calls and interrupts other than the clock; the context switch, thread-local storage and drivers of the port. FatFs and lwIP are third-party code. The slab
  allocator and modules are not in the configuration.
\<close>

section \<open>Lists and bit search\<close>

text \<open>
  C11. The pointer operations of the intrusive lists implement the list store on which the kernel
  model works: whenever a heap of nodes represents a family of lists, inserting a free node before
  or after a head, inserting it next to a member and removing any node give a heap that represents the
  updated family, all other lists being untouched; emptiness and the \<open>next\<close> pointers agree.
\<close>

theorem list_code_refines_store:
  assumes "repr hp L"
  shows "repr (rt_list_remove (Node n) hp) (ls_remove n L)
    \<and> (loc L n = None \<longrightarrow>
         repr (rt_list_insert_before (Head h) (Node n) hp) (ls_insert_before h n L)
       \<and> repr (rt_list_insert_after (Head h) (Node n) hp) (ls_insert_after h n L)
       \<and> (\<forall>m k. loc L m = Some k \<longrightarrow>
            repr (rt_list_insert_before (Node m) (Node n) hp) (ls_insert_before_node m n L)
          \<and> repr (rt_list_insert_after (Node m) (Node n) hp) (ls_insert_after_node m n L)))
    \<and> rt_list_isempty (Head h) hp = ls_isempty h L \<and> lnext hp p = ls_next p L"
  using assms
  by (simp add: repr_remove repr_insert_before repr_insert_after repr_insert_before_node
      repr_insert_after_node repr_isempty repr_ls_next)

definition empty_heap :: "(nat, nat) lptr lheap" where
  "empty_heap = \<lparr>lnext = id, lprev = id\<rparr>"

lemma empty_heap_repr: "repr empty_heap lstore_empty"
  by (simp add: repr_def dlist_def empty_heap_def lstore_empty_def lstore_wf_def)

theorem list_code_refines_store_witness:
  "repr (rt_list_insert_before (Head 0) (Node 7) empty_heap) (ls_insert_before (0 :: nat) (7 :: nat) lstore_empty)"
  using list_code_refines_store [OF empty_heap_repr, of 7 0] by (simp add: lstore_empty_def)

text \<open>
  \<^verbatim>\<open>__rt_ffs\<close> returns the position of the lowest set bit, counted from one, of every non-zero
  word, and zero for zero.
\<close>

theorem ffs_lowest_bit:
  "rt_ffs 0 = 0 \<and> (v \<noteq> 0 \<longrightarrow> (\<exists>k<32. unat (rt_ffs v) = Suc k \<and> bit v k \<and> (\<forall>i<k. \<not> bit v i)))"
  using rt_ffs_zero rt_ffs_lowest by blast

theorem ffs_lowest_bit_witness:
  "\<exists>k<32. unat (rt_ffs 0x80000020) = Suc k \<and> bit (0x80000020 :: rt_uint32) k
     \<and> (\<forall>i<k. \<not> bit (0x80000020 :: rt_uint32) i)"
  using ffs_lowest_bit [of "0x80000020"] by simp

section \<open>Scheduling\<close>

text \<open>
  C12. With the scheduler unlocked and some thread ready, \<open>rt_schedule\<close> returns, and the running
  thread is then a ready thread of the highest priority (the smallest number) of all ready threads.
  It changes nothing but the current thread and the current priority.
\<close>

theorem schedule_runs_highest:
  assumes "sched_inv s" and "lock_nest s = 0" and "stat (threads s u) = RT_THREAD_READY"
  shows "\<exists>s' t. rt_schedule s = Some s' \<and> cur_thread s' = Some t \<and> stat (threads s' t) = RT_THREAD_READY
    \<and> (\<forall>v. stat (threads s' v) = RT_THREAD_READY \<longrightarrow>
         current_priority (threads s' t) \<le> current_priority (threads s' v))
    \<and> s' = s\<lparr>cur_priority := cur_priority s', cur_thread := cur_thread s'\<rparr>"
proof -
  obtain s' where s': "rt_schedule s = Some s'" using assms(1,3) by (rule rt_schedule_cases)
  obtain t where t: "next_thread s = Some t" using assms(1,3) by (rule next_thread_exists)
  have "cur_thread s' = Some t" using rt_schedule_cur [OF s' assms(2)] t by simp
  then show ?thesis
    using s' next_thread_highest [OF assms(1) t] rt_schedule_same(1) [OF s'] rt_schedule_frame [OF s']
    by (intro exI [of _ s'] exI [of _ t]) simp
qed

theorem schedule_runs_highest_witness:
  "\<exists>s' t. rt_schedule (demo (SuspendQ (OSem 0))) = Some s' \<and> cur_thread s' = Some t
    \<and> stat (threads s' t) = RT_THREAD_READY
    \<and> (\<forall>v. stat (threads s' v) = RT_THREAD_READY \<longrightarrow>
         current_priority (threads s' t) \<le> current_priority (threads s' v))"
  using schedule_runs_highest [OF demo_sched, of "SuspendQ (OSem 0)" 2] by auto

text \<open>
  C13. The scheduler invariant (every ready thread is in the queue of its priority, every suspended
  one in no queue or a wait list, the bitmap shows the non-empty queues) is kept by suspending, resuming,
  changing the priority of, deleting and detaching any thread, by the timeout of a thread, and by
  starting one that has been initialised.
\<close>

theorem thread_operations_keep_scheduler:
  assumes "sched_inv s"
  shows "sched_inv (snd (rt_thread_suspend t s)) \<and> sched_inv (snd (rt_thread_resume t s))
    \<and> (unat p < 32 \<longrightarrow> sched_inv (change_priority t p s))
    \<and> (stat (threads s t) \<noteq> RT_THREAD_CLOSE \<longrightarrow>
         sched_inv (snd (rt_thread_delete t s)) \<and> sched_inv (snd (rt_thread_detach t s)))
    \<and> (\<forall>s'. rt_thread_timeout t s = Some s' \<longrightarrow> sched_inv s')
    \<and> (\<forall>r s'. rt_thread_startup t s = Some (r, s') \<and> unat (init_priority (threads s t)) < 32
         \<and> stack_ok (threads s t) \<longrightarrow> sched_inv s')"
  using assms thread_suspend_inv thread_resume_inv change_priority_inv thread_delete_inv
    thread_detach_inv thread_timeout_inv thread_startup_inv by blast

theorem thread_operations_keep_scheduler_witness:
  "sched_inv (snd (rt_thread_resume 3 (demo (SuspendQ (OSem 0)))))"
  using thread_operations_keep_scheduler [OF demo_sched] by blast

text \<open>
  Round robin: when the running thread is at the front of the queue of the highest ready priority
  and yields, it goes to the back of the queue and the thread behind it runs.
\<close>

theorem yield_rotates:
  assumes "sched_inv s" and "rt_thread_self s = Some t" and "lock_nest s = 0"
    and "lst (tlists s) (ReadyQ p) = t # u # us"
    and "\<And>r. r < p \<Longrightarrow> lst (tlists s) (ReadyQ r) = []"
  shows "\<exists>s'. rt_thread_yield s = Some (0, s') \<and> sched_inv s' \<and> cur_thread s' = Some u
    \<and> lst (tlists s') (ReadyQ p) = u # us @ [t]"
  using assms by (rule thread_yield_rotates)

definition two_ready :: kstate where
  "two_ready = snd (rt_thread_resume 3 (change_priority 3 5 (demo (SuspendQ (OSem 0)))))"

lemma two_ready_queue:
  "sched_inv two_ready" "lst (tlists two_ready) (ReadyQ q) = (if q = 5 then [2, 3] else demo_lst (SuspendQ (OSem 0)) (ReadyQ q))"
proof -
  let ?s = "change_priority 3 5 (demo (SuspendQ (OSem 0)))"
  have si: "sched_inv ?s" by (intro change_priority_inv demo_sched) simp_all
  then show "sched_inv two_ready" unfolding two_ready_def by (rule thread_resume_inv)
  have "stat (threads ?s 3) = RT_THREAD_SUSPEND" by (simp add: change_priority_thread)
  from thread_resume_queue [OF si this, of q]
  show "lst (tlists two_ready) (ReadyQ q) = (if q = 5 then [2, 3] else demo_lst (SuspendQ (OSem 0)) (ReadyQ q))"
    by (simp add: two_ready_def change_priority_thread) (simp add: change_priority_def)
qed

theorem yield_rotates_witness:
  "\<exists>s'. rt_thread_yield two_ready = Some (0, s') \<and> sched_inv s' \<and> cur_thread s' = Some 3
    \<and> lst (tlists s') (ReadyQ 5) = [3, 2]"
proof -
  have "rt_thread_self two_ready = Some 2" "lock_nest two_ready = 0" by (simp_all add: two_ready_def)
  moreover have "lst (tlists two_ready) (ReadyQ r) = []" if "r < 5" for r
    using that by (auto simp: two_ready_queue demo_lst_def)
  ultimately show ?thesis
    using yield_rotates [OF two_ready_queue(1), of 2 5 3 "[]"] by (simp add: two_ready_queue)
qed

text \<open>
  The scheduler lock: while it is held \<open>rt_schedule\<close> does not switch; leaving the outermost
  critical section schedules, leaving an inner one does not.
\<close>

theorem critical_sections:
  "(lock_nest s + 1 \<noteq> 0 \<longrightarrow> rt_schedule (rt_enter_critical s) = Some (rt_enter_critical s))
   \<and> (lock_nest s = 0 \<longrightarrow> rt_exit_critical (rt_enter_critical s) = rt_schedule s)
   \<and> (0 < sint (lock_nest s) \<longrightarrow> rt_exit_critical (rt_enter_critical s) = Some s)"
  by (simp add: critical_no_switch critical_outer critical_inner)

theorem critical_sections_witness:
  "rt_exit_critical (rt_enter_critical (demo (SuspendQ (OSem 0)))) = rt_schedule (demo (SuspendQ (OSem 0)))"
  using critical_sections [of "demo (SuspendQ (OSem 0))"] by simp

section \<open>Timers and the clock\<close>

text \<open>
  C15. Starting a system timer (with a time below half the range of ticks) sets its timeout to the
  current tick plus its time and puts it into the sorted list behind all timers that expire no later
  and before those that expire later: the list stays sorted, and timers with the same timeout keep
  the order in which they were started. Order is measured from a base tick, so it is right across a
  wrap of the counter.
\<close>

theorem timer_start_sorted:
  assumes "timer_inv s" and "\<not> bit (o_flag (objs s (OTimer r))) 2"
    and "tm_init_tick (timers s r) < RT_TICK_HALF"
    and "tm_sorted base (timers s) (lst (tmlists s) HardTimers)"
    and "ktick s + tm_init_tick (timers s r) - base < RT_TICK_HALF"
  shows "\<exists>s' ys zs. rt_timer_start r s = Some (0, s') \<and> timer_inv s'
    \<and> timeout_tick (timers s' r) = ktick s + tm_init_tick (timers s r)
    \<and> bit (o_flag (objs s' (OTimer r))) 0
    \<and> remove1 r (lst (tmlists s) HardTimers) = ys @ zs \<and> lst (tmlists s') HardTimers = ys @ r # zs
    \<and> (\<forall>y\<in>set ys. tm_off base (timers s') y \<le> tm_off base (timers s') r)
    \<and> (\<forall>z\<in>set zs. tm_off base (timers s') r < tm_off base (timers s') z)
    \<and> tm_sorted base (timers s') (lst (tmlists s') HardTimers)"
proof -
  have wf: "lstore_wf (tmlists s)" using assms(1) by (simp add: TI_def)
  have h: "HardTimers = timer_list_of (o_flag (objs s (OTimer r)))"
    using assms(2) by (simp add: timer_list_of_bit)
  from timer_linked_position [OF wf h assms(4,5)] obtain ys zs where
    pos: "remove1 r (lst (tmlists s) HardTimers) = ys @ zs"
      "lst (tmlists (timer_linked r s)) HardTimers = ys @ r # zs"
      "\<forall>y\<in>set ys. tm_off base (timers s) y \<le> unat (ktick s + tm_init_tick (timers s r) - base)"
      "\<forall>z\<in>set zs. unat (ktick s + tm_init_tick (timers s r) - base) < tm_off base (timers s) z"
    by blast
  have "r \<notin> set (ys @ zs)" using wf_distinct [OF wf, of HardTimers] pos(1) by (metis distinct_remove1 set_remove1_eq Diff_iff singletonI)
  then have "timers (timer_linked r s) y = timers s y" if "y \<in> set (ys @ zs)" for y
    using that by (auto simp: timer_linked_timers)
  then show ?thesis
    using timer_start_hard [OF assms(2,3)] timer_linked_inv [OF assms(1), of r] pos
      timer_linked_sorted [OF wf assms(4,5)]
    by (intro exI [of _ "timer_linked r s"] exI [of _ ys] exI [of _ zs]) (simp add: timer_linked_timers)
qed

theorem timer_start_sorted_witness:
  "\<exists>s' ys zs. rt_timer_start (ThreadTimer 2) (demo (SuspendQ (OSem 0))) = Some (0, s') \<and> timer_inv s'
    \<and> [ThreadTimer 3] = ys @ zs \<and> lst (tmlists s') HardTimers = ys @ ThreadTimer 2 # zs"
proof -
  let ?s = "demo (SuspendQ (OSem 0))"
  have "check_inv 0 ?s" by (rule demo_inv) simp
  then have "timer_inv ?s" "tm_sorted 0 (timers ?s) (lst (tmlists ?s) HardTimers)"
    by (simp_all add: check_inv_def)
  then show ?thesis using timer_start_sorted [of ?s "ThreadTimer 2" 0]
    by (auto simp: demo_timer_def RT_TICK_HALF_num)
qed

text \<open>
  C14. The expiry check of the clock interrupt returns, provided the timeout functions of the
  application return without starting system timers and periodic timers have a period; it keeps the
  invariants of threads and timers, and afterwards no timer of the system list is expired.
\<close>

theorem timer_check_expires_all:
  assumes "check_inv base s" and "cb_ok base cb"
  shows "\<exists>s'. rt_timer_check cb s = Some s' \<and> check_inv base s' \<and> ktick s' = ktick s
    \<and> (\<forall>r\<in>set (lst (tmlists s') HardTimers). \<not> due s' r)"
  using timer_check_loop_returns [OF assms] by (auto simp: rt_timer_check_def dues_def)

lemma idle_callback_ok: "cb_ok base (\<lambda>f a. Some)"
  by (simp add: cb_ok_def cb_step_def)

theorem timer_check_expires_all_witness:
  "\<exists>s'. rt_timer_check (\<lambda>f a. Some) (demo (SuspendQ (OSem 0))) = Some s' \<and> check_inv 0 s'
    \<and> (\<forall>r\<in>set (lst (tmlists s') HardTimers). \<not> due s' r)"
proof -
  have "check_inv 0 (demo (SuspendQ (OSem 0)))" by (rule demo_inv) simp
  from timer_check_expires_all [OF this idle_callback_ok] show ?thesis by blast
qed

text \<open>
  C16. A clock tick wakes exactly the threads whose time is over: when the timers that expire at the
  next tick are thread timers, each of their threads is ready with the error of a timeout after the
  interrupt, and no other thread has changed its state or its error.
\<close>

theorem tick_wakes_expired:
  assumes "tick_inv s" and "rt_thread_self s = Some t"
    and "\<And>r. r \<in> dues (s\<lparr>ktick := ktick s + 1\<rparr>) \<Longrightarrow> \<exists>u. r = ThreadTimer u"
  shows "\<exists>s'. rt_tick_increase cb s = Some s' \<and> tick_inv s' \<and> ktick s' = ktick s + 1
    \<and> (\<forall>u. ThreadTimer u \<in> dues (s\<lparr>ktick := ktick s + 1\<rparr>) \<longrightarrow>
          stat (threads s' u) = RT_THREAD_READY \<and> error (threads s' u) = - RT_ETIMEOUT)
    \<and> (\<forall>u. ThreadTimer u \<notin> dues (s\<lparr>ktick := ktick s + 1\<rparr>) \<longrightarrow>
          stat (threads s' u) = stat (threads s u) \<and> error (threads s' u) = error (threads s u))"
  using assms by (rule tick_wakes)

theorem tick_wakes_expired_witness:
  "\<exists>s'. rt_tick_increase (\<lambda>f a. Some) ((demo (SuspendQ (OSem 0)))\<lparr>ktick := 9\<rparr>) = Some s' \<and> tick_inv s'
     \<and> ktick s' = 10 \<and> stat (threads s' 3) = RT_THREAD_READY \<and> error (threads s' 3) = - RT_ETIMEOUT
     \<and> stat (threads s' 2) = RT_THREAD_READY \<and> error (threads s' 2) = 0"
proof -
  let ?s = "(demo (SuspendQ (OSem 0)))\<lparr>ktick := 9\<rparr>"
  have d: "dues (?s\<lparr>ktick := ktick ?s + 1\<rparr>) = {ThreadTimer 3}"
    by (auto simp: dues_def due_def demo_timer_def RT_TICK_HALF_num)
  have "tick_inv ?s" by (rule demo_inv_at) simp_all
  moreover have "\<exists>u. r = ThreadTimer u" if "r \<in> dues (?s\<lparr>ktick := ktick ?s + 1\<rparr>)" for r
    using that unfolding d by simp
  ultimately obtain s' where
    "rt_tick_increase (\<lambda>f a. Some) ?s = Some s'" "tick_inv s'" "ktick s' = ktick ?s + 1"
    "\<forall>u. ThreadTimer u \<in> {ThreadTimer 3} \<longrightarrow>
       stat (threads s' u) = RT_THREAD_READY \<and> error (threads s' u) = - RT_ETIMEOUT"
    "\<forall>u. ThreadTimer u \<notin> {ThreadTimer 3} \<longrightarrow>
       stat (threads s' u) = stat (threads ?s u) \<and> error (threads s' u) = error (threads ?s u)"
    using tick_wakes_expired [of ?s 2 "\<lambda>f a. Some"] unfolding d by auto
  then show ?thesis by simp
qed

text \<open>
  The clock interrupt always returns and keeps the invariant, whatever timers expire, under the
  same conditions on the timeout functions of the application.
\<close>

theorem tick_keeps_invariant:
  assumes "tick_inv s" and "rt_thread_self s = Some t" and "cb_ok (ktick s) cb"
  shows "\<exists>s'. rt_tick_increase cb s = Some s' \<and> tick_inv s' \<and> ktick s' = ktick s + 1 \<and> dues s' = {}"
  using assms by (rule tick_increase_returns)

theorem tick_keeps_invariant_witness:
  "\<exists>s'. rt_tick_increase (\<lambda>f a. Some) (demo (SuspendQ (OSem 0))) = Some s' \<and> tick_inv s' \<and> dues s' = {}"
  using tick_keeps_invariant [OF demo_inv(2) _ idle_callback_ok, of "SuspendQ (OSem 0)" 2] by auto

text \<open>
  Milliseconds are converted to ticks (ten milliseconds each) rounding up, for times up to
  42949662 milliseconds, above which the 32 bit product overflows.
\<close>

theorem milliseconds_round_up:
  assumes "unat ms \<le> 42949662"
  shows "unat (rt_tick_from_millisecond ms) = (unat ms + 9) div 10"
  using assms by (rule tick_from_ms_rounds_up)

theorem milliseconds_round_up_witness: "unat (rt_tick_from_millisecond 15) = 2"
  using milliseconds_round_up [of 15] by simp

section \<open>Waiting and waking\<close>

text \<open>
  The order of a wait list: with the FIFO flag the thread goes to the end of the list, with the
  priority flag behind all threads of the same or a higher priority and before the first of a lower one.
\<close>

theorem wait_list_order:
  assumes "sched_inv s" and "stat (threads s t) = RT_THREAD_READY" and "wait_head h"
  shows "lst (tlists (rt_ipc_list_suspend h t RT_IPC_FLAG_FIFO s)) h = lst (tlists s) h @ [t]
    \<and> lst (tlists (rt_ipc_list_suspend h t RT_IPC_FLAG_PRIO s)) h =
        takeWhile (\<lambda>u. current_priority (threads s u) \<le> current_priority (threads s t)) (lst (tlists s) h)
        @ t # dropWhile (\<lambda>u. current_priority (threads s u) \<le> current_priority (threads s t))
                (lst (tlists s) h)"
  using ipc_suspend_tlists [OF assms(2,1), of h] assms(3) by blast

theorem wait_list_order_witness:
  "lst (tlists (rt_ipc_list_suspend (SuspendQ (OSem 0)) 2 RT_IPC_FLAG_PRIO (demo (SuspendQ (OSem 0)))))
     (SuspendQ (OSem 0)) = [2, 3]"
  using wait_list_order [OF demo_sched, of "SuspendQ (OSem 0)" 2 "SuspendQ (OSem 0)"] by simp

text \<open>
  C19. Taking a semaphore without a token and with a time to wait suspends the caller in the wait
  list, starts its timer for a positive time, and lets another thread run; the semaphore itself is
  unchanged. With a token the call takes it, and without time it fails at once.
\<close>

theorem sem_take_behaviour:
  assumes "check_inv base s" and "rt_thread_self s = Some t" and "stat (threads s t) = RT_THREAD_READY"
    and "irq_nest s = 0" and "o_flag (objs s (OSem m)) \<in> {RT_IPC_FLAG_FIFO, RT_IPC_FLAG_PRIO}"
    and "time_ok base s time" and "u \<noteq> t" and "stat (threads s u) = RT_THREAD_READY"
  shows "if 0 < sem_value (sems s m)
         then rt_sem_take m time s
           = Some (Return RT_EOK, upd_sem m (\<lambda>x. x\<lparr>sem_value := sem_value x - 1\<rparr>) s)
         else if time = 0 then rt_sem_take m time s = Some (Return (- RT_ETIMEOUT), s)
         else (\<exists>s'. rt_sem_take m time s = Some (Blocked, s') \<and> check_inv base s'
           \<and> stat (threads s' t) = RT_THREAD_SUSPEND \<and> t \<in> set (lst (tlists s') (SuspendQ (OSem m)))
           \<and> (0 < sint time \<longrightarrow> loc (tmlists s') (ThreadTimer t) = Some HardTimers
                \<and> timeout_tick (timers s' (ThreadTimer t)) = ktick s + time)
           \<and> sems s' = sems s)"
proof (cases "0 < sem_value (sems s m) \<or> time = 0")
  case True
  then show ?thesis by (auto simp: rt_sem_take_def)
next
  case False
  then have z: "sem_value (sems s m) = 0" "time \<noteq> 0" by (simp_all add: word_gt_0)
  have fl: "o_flag (objs s (OSem m)) = 0 \<or> o_flag (objs s (OSem m)) = 1" using assms(5) by simp
  let ?s1 = "upd_thread t (\<lambda>th. th\<lparr>error := RT_EOK\<rparr>) s"
  from sem_take_blocks [OF assms(1-4) fl z assms(6-8)] obtain s' where
    s': "rt_sem_take m time s = Some (Blocked, s')" "check_inv base s'" "sems s' = sems s"
      "threads s' = (threads s)(t := (threads s t)\<lparr>error := RT_EOK, stat := RT_THREAD_SUSPEND\<rparr>)"
      "tlists s' = tlists (rt_ipc_list_suspend (SuspendQ (OSem m)) t (o_flag (objs s (OSem m))) ?s1)"
      "0 < sint time \<longrightarrow> loc (tmlists s') (ThreadTimer t) = Some HardTimers
         \<and> timeout_tick (timers s' (ThreadTimer t)) = ktick s + time" by blast
  have "loc (tlists s') t = Some (SuspendQ (OSem m))"
    unfolding s'(5) using assms(3) fl check_inv_error [OF assms(1)]
    by (intro ipc_suspend_inv(3)) simp_all
  moreover have "lstore_wf (tlists s')" using s'(2) by (auto simp: check_inv_def SI_def)
  ultimately have "t \<in> set (lst (tlists s') (SuspendQ (OSem m)))" by (simp add: wf_mem)
  with s' z show ?thesis by simp
qed

theorem sem_take_behaviour_witness:
  "\<exists>s'. rt_sem_take 0 5 (demo (SuspendQ (OSem 1))) = Some (Blocked, s') \<and> check_inv 0 s'
     \<and> 2 \<in> set (lst (tlists s') (SuspendQ (OSem 0)))
     \<and> timeout_tick (timers s' (ThreadTimer 2)) = 5"
proof -
  let ?s = "demo (SuspendQ (OSem 1))"
  have inv: "check_inv 0 ?s" by (rule demo_inv) simp
  have "time_ok 0 ?s 5" by (simp add: time_ok_def RT_TICK_HALF_num)
  from sem_take_behaviour [OF inv _ _ _ _ this, of 2 0 1] show ?thesis by auto
qed

text \<open>
  Releasing a semaphore wakes the first waiting thread and gives it the token directly (the
  value does not change, its call ends without an error), or, when nobody waits, increments the
  16 bit value.
\<close>

theorem sem_release_behaviour:
  assumes "check_inv base s"
  shows "case lst (tlists s) (SuspendQ (OSem m)) of
      [] \<Rightarrow> rt_sem_release m s = Some (RT_EOK, upd_sem m (\<lambda>x. x\<lparr>sem_value := sem_value x + 1\<rparr>) s)
    | t # ts \<Rightarrow> (\<exists>s'. rt_sem_release m s = Some (RT_EOK, s') \<and> check_inv base s'
        \<and> stat (threads s' t) = RT_THREAD_READY \<and> rt_sem_take_wake t s' = error (threads s t)
        \<and> lst (tlists s') (SuspendQ (OSem m)) = ts \<and> sems s' = sems s)"
proof (cases "lst (tlists s) (SuspendQ (OSem m))")
  case Nil
  then show ?thesis by (simp add: sem_release_counts)
next
  case (Cons t ts)
  from sem_release_wakes [OF assms Cons] Cons show ?thesis
    by (auto simp: rt_sem_take_wake_def)
qed

theorem sem_release_behaviour_witness:
  "\<exists>s'. rt_sem_release 0 (demo (SuspendQ (OSem 0))) = Some (0, s')
     \<and> stat (threads s' 3) = RT_THREAD_READY \<and> rt_sem_take_wake 3 s' = 0"
proof -
  have "check_inv 0 (demo (SuspendQ (OSem 0)))" by (rule demo_inv) simp
  from sem_release_behaviour [OF this, of 0] show ?thesis by auto
qed

text \<open>
  Detaching a semaphore, a mutex, an event or a message queue makes all its waiting threads
  ready, with an error for the calls they wait in, leaves all other threads alone, and takes the
  object out of its container.
\<close>

theorem detach_wakes_waiters:
  assumes "check_inv base s"
    and "(ob, r) \<in> {(OSem m, rt_sem_detach m s), (OMutex m, rt_mutex_detach m s),
      (OEvent m, rt_event_detach m s), (OMq m, rt_mq_detach m s)}"
  shows "\<exists>s'. r = Some (RT_EOK, s') \<and> check_inv base s' \<and> lst (tlists s') (SuspendQ ob) = []
    \<and> (\<forall>t \<in> set (lst (tlists s) (SuspendQ ob)).
         stat (threads s' t) = RT_THREAD_READY \<and> error (threads s' t) = - RT_ERROR)
    \<and> (\<forall>t. t \<notin> set (lst (tlists s) (SuspendQ ob)) \<longrightarrow> threads s' t = threads s t)
    \<and> loc (olists s') ob = None"
  using assms(2) sem.detach_wakes_all [OF assms(1), of m] mutex.detach_wakes_all [OF assms(1), of m]
    event.detach_wakes_all [OF assms(1), of m] mq.detach_wakes_all [OF assms(1), of m]
  by (elim insertE emptyE) (simp_all only: prod.inject)

theorem detach_wakes_waiters_witness:
  "\<exists>s'. rt_sem_detach 0 (demo (SuspendQ (OSem 0))) = Some (0, s')
     \<and> stat (threads s' 3) = RT_THREAD_READY \<and> error (threads s' 3) = - 1"
proof -
  have "check_inv 0 (demo (SuspendQ (OSem 0)))" by (rule demo_inv) simp
  from detach_wakes_waiters [OF this, of "OSem 0" "rt_sem_detach 0 (demo (SuspendQ (OSem 0)))" 0]
  show ?thesis by auto
qed

section \<open>Mutexes\<close>

text \<open>
  Taking a mutex that is free makes the caller its owner and remembers the caller's priority;
  taking it again only counts (up to 255 times). The call returns without waiting, whatever the time.
\<close>

theorem mutex_take_owns:
  assumes "check_inv base s" and "mutex_ok m s" and "rt_thread_self s = Some t" and "irq_nest s = 0"
    and "stat (threads s t) = RT_THREAD_READY"
    and "owner (mutexes s m) = None \<or> owner (mutexes s m) = Some t" and "hold (mutexes s m) \<noteq> 255"
  shows "\<exists>s'. rt_mutex_take m time s = Some (Return RT_EOK, s') \<and> check_inv base s' \<and> mutex_ok m s'
    \<and> owner (mutexes s' m) = Some t \<and> unat (hold (mutexes s' m)) = unat (hold (mutexes s m)) + 1
    \<and> original_priority (mutexes s' m) = (if owner (mutexes s m) = None
         then current_priority (threads s t) else original_priority (mutexes s m))"
proof (cases "owner (mutexes s m) = None")
  case True
  then have "hold (mutexes s m) = 0" using assms(2) by (simp add: mutex_ok_def)
  with mutex_take_free [OF assms(1-4) True assms(5), of time] True show ?thesis by auto
next
  case False
  with assms(6) have "owner (mutexes s m) = Some t" by simp
  from mutex_take_again [OF assms(1-4) this assms(7), of time] this assms(3,4) show ?thesis
    by (auto simp: rt_mutex_take_def)
qed

theorem mutex_take_owns_witness:
  "\<exists>s'. rt_mutex_take 0 5 (demo (SuspendQ (OSem 0))) = Some (Return 0, s')
     \<and> owner (mutexes s' 0) = Some 2 \<and> original_priority (mutexes s' 0) = 5"
proof -
  let ?s = "demo (SuspendQ (OSem 0))"
  have "check_inv 0 ?s" by (rule demo_inv) simp
  moreover have "mutex_ok 0 ?s" by (simp add: mutex_ok_def)
  ultimately show ?thesis using mutex_take_owns [of 0 ?s 0 2 5] by auto
qed

text \<open>
  C17. Priority inheritance: a thread that finds the mutex taken waits in its list, and the owner is
  then at least as urgent as the waiting thread.
\<close>

theorem mutex_priority_inheritance:
  assumes "check_inv base s" and "mutex_ok m s" and "rt_thread_self s = Some t"
    and "stat (threads s t) = RT_THREAD_READY" and "irq_nest s = 0"
    and "owner (mutexes s m) = Some w" and "w \<noteq> t"
    and "o_flag (objs s (OMutex m)) = 0 \<or> o_flag (objs s (OMutex m)) = 1"
    and "time \<noteq> 0" and "time_ok base s time"
    and "u \<noteq> t" and "stat (threads s u) = RT_THREAD_READY"
  shows "\<exists>s'. rt_mutex_take m time s = Some (Blocked, s') \<and> check_inv base s' \<and> mutex_ok m s'
    \<and> loc (tlists s') t = Some (SuspendQ (OMutex m)) \<and> mutexes s' = mutexes s
    \<and> current_priority (threads s' w) = min (current_priority (threads s t)) (current_priority (threads s w))
    \<and> current_priority (threads s' t) = current_priority (threads s t)"
  using mutex_take_blocks [OF assms] .

text \<open>A state in which two mutexes belong to thread \<open>w\<close>, taken at priority 8.\<close>

definition owned :: "tid \<Rightarrow> kstate \<Rightarrow> kstate" where
  "owned w s = s\<lparr>mutexes := (\<lambda>_. \<lparr>mutex_value = 0, original_priority = 8, hold = 1, owner = Some w\<rparr>)\<rparr>"

lemma owned_ok: "mutex_ok m (owned w s)" "check_inv base (owned w s) = check_inv base s"
  by (simp_all add: mutex_ok_def owned_def)

lemma owned_fields [simp]:
  "mutexes (owned w s) m = \<lparr>mutex_value = 0, original_priority = 8, hold = 1, owner = Some w\<rparr>"
  "threads (owned w s) = threads s" "tlists (owned w s) = tlists s" "rt_thread_self (owned w s) = rt_thread_self s"
  "irq_nest (owned w s) = irq_nest s" "objs (owned w s) = objs s" "ktick (owned w s) = ktick s"
  by (simp_all add: owned_def)

theorem mutex_priority_inheritance_witness:
  "\<exists>s'. rt_mutex_take 0 5 (owned 1 (demo (SuspendQ (OSem 0)))) = Some (Blocked, s')
     \<and> current_priority (threads s' 1) = 5 \<and> loc (tlists s') 2 = Some (SuspendQ (OMutex 0))"
proof -
  let ?s = "owned 1 (demo (SuspendQ (OSem 0)))"
  have inv: "check_inv 0 ?s" unfolding owned_ok by (rule demo_inv) simp
  have "time_ok 0 ?s 5" by (simp add: time_ok_def RT_TICK_HALF_num)
  from mutex_priority_inheritance [OF inv owned_ok(1) _ _ _ _ _ _ _ this, of 2 0 1 1] show ?thesis
    by (auto simp: min_def)
qed

text \<open>
  C18. The last release of a mutex gives the caller its own priority back and hands the mutex to the
  first waiting thread, which becomes ready and owns it, or frees it when nobody waits; a release
  that is not the last one only counts, and a thread that is not the owner gets an error.
\<close>

theorem mutex_release_behaviour:
  assumes "check_inv base s" and "mutex_ok m s" and "rt_thread_self s = Some t" and "irq_nest s = 0"
  shows "if owner (mutexes s m) \<noteq> Some t
    then rt_mutex_release m s = Some (- RT_ERROR, upd_thread t (\<lambda>th. th\<lparr>error := - RT_ERROR\<rparr>) s)
    else if hold (mutexes s m) \<noteq> 1
    then rt_mutex_release m s = Some (RT_EOK, upd_mutex m (\<lambda>x. x\<lparr>hold := hold x - 1\<rparr>) s)
    else (\<exists>s'. rt_mutex_release m s = Some (RT_EOK, s') \<and> check_inv base s' \<and> mutex_ok m s'
      \<and> (case lst (tlists s) (SuspendQ (OMutex m)) of
           [] \<Rightarrow> owner (mutexes s' m) = None
             \<and> current_priority (threads s' t) = original_priority (mutexes s m)
         | u # us \<Rightarrow> owner (mutexes s' m) = Some u \<and> hold (mutexes s' m) = 1
             \<and> stat (threads s' u) = RT_THREAD_READY
             \<and> lst (tlists s') (SuspendQ (OMutex m)) = us
             \<and> (u \<noteq> t \<longrightarrow> current_priority (threads s' t) = original_priority (mutexes s m))))"
proof (cases "owner (mutexes s m) = Some t \<and> hold (mutexes s m) = 1")
  case True
  then have own: "owner (mutexes s m) = Some t" "hold (mutexes s m) = 1" by simp_all
  show ?thesis
  proof (cases "lst (tlists s) (SuspendQ (OMutex m))")
    case Nil
    with mutex_release_frees [OF assms own] own show ?thesis by auto
  next
    case (Cons u us)
    with mutex_release_hands_over [OF assms own] own show ?thesis by auto
  qed
next
  case False
  then show ?thesis
    using mutex_release_nested [OF assms(3,4), of m] mutex_release_foreign [OF assms(3,4), of m] by auto
qed

theorem mutex_release_behaviour_witness:
  "\<exists>s'. rt_mutex_release 1 (owned 2 (demo (SuspendQ (OMutex 1)))) = Some (0, s')
     \<and> owner (mutexes s' 1) = Some 3 \<and> stat (threads s' 3) = RT_THREAD_READY
     \<and> current_priority (threads s' 2) = 8"
proof -
  let ?s = "owned 2 (demo (SuspendQ (OMutex 1)))"
  have inv: "check_inv 0 ?s" unfolding owned_ok by (rule demo_inv) simp
  from mutex_release_behaviour [OF inv owned_ok(1), of 2 1] show ?thesis by auto
qed

text \<open>
  C28. Inheritance does not survive the release of another mutex. A thread owns two mutexes and runs
  at the priority of a thread that waits for the second one; when it releases the first, it falls back to
  the priority remembered there, although the more urgent thread still waits for the second one,
  which it still owns.
\<close>

theorem mutex_release_drops_inheritance:
  assumes "check_inv base s" and "mutex_ok m s" and "rt_thread_self s = Some t" and "irq_nest s = 0"
    and "owner (mutexes s m) = Some t" and "hold (mutexes s m) = 1"
    and "lst (tlists s) (SuspendQ (OMutex m)) = []" and "m' \<noteq> m" and "owner (mutexes s m') = Some t"
    and "u \<in> set (lst (tlists s) (SuspendQ (OMutex m')))" and "u \<noteq> t"
    and "current_priority (threads s t) = current_priority (threads s u)"
    and "current_priority (threads s u) < original_priority (mutexes s m)"
  shows "\<exists>s'. rt_mutex_release m s = Some (RT_EOK, s') \<and> owner (mutexes s' m') = Some t
    \<and> u \<in> set (lst (tlists s') (SuspendQ (OMutex m')))
    \<and> current_priority (threads s' u) < current_priority (threads s' t)"
  using mutex_release_frees [OF assms(1-7)] assms(8-13) by auto

theorem mutex_release_drops_inheritance_witness:
  "\<exists>s'. rt_mutex_release 0 (owned 2 (change_priority 2 6 (demo (SuspendQ (OMutex 1))))) = Some (0, s')
     \<and> owner (mutexes s' 1) = Some 2 \<and> 3 \<in> set (lst (tlists s') (SuspendQ (OMutex 1)))
     \<and> current_priority (threads s' 3) < current_priority (threads s' 2)"
proof -
  let ?d = "demo (SuspendQ (OMutex 1))" and ?s = "owned 2 (change_priority 2 6 (demo (SuspendQ (OMutex 1))))"
  have d: "check_inv 0 ?d" by (rule demo_inv) simp
  have inv: "check_inv 0 ?s" unfolding owned_ok by (intro check_inv_change_priority d) simp
  have si: "sched_inv ?d" using d by (simp add: check_inv_def)
  have w: "lst (tlists (change_priority 2 6 ?d)) (SuspendQ (OMutex k))
      = demo_lst (SuspendQ (OMutex 1)) (SuspendQ (OMutex k))" for k
    using change_priority_wait [OF si, of "SuspendQ (OMutex k)" 2 6] by simp
  show ?thesis
    using mutex_release_drops_inheritance [OF inv owned_ok(1), of 2 0 1 3]
    by (simp add: w change_priority_thread del: One_nat_def)
qed

section \<open>Events\<close>

text \<open>
  C20. Sending events implements the specification \<open>event_spec\<close>: the new bits are added to the set, the
  waiting threads are served in the order of the wait list, a thread whose condition (all or any of
  its bits) holds becomes ready with the bits it gets, a request with the clear option takes them out of the set before
  the next thread is looked at, and all others keep waiting. The call returns.
\<close>

theorem event_send_meets_spec:
  assumes "check_inv base s" and "es \<noteq> 0"
    and "event_spec (ev_set (events s e) OR es) (\<lambda>t. (event_set (threads s t), event_info (threads s t)))
      (lst (tlists s) (SuspendQ (OEvent e))) = (final, woken)"
  shows "\<exists>s'. rt_event_send e es s = Some (RT_EOK, s') \<and> check_inv base s' \<and> ev_set (events s' e) = final
    \<and> threads s' = (\<lambda>t. case map_of woken t of None \<Rightarrow> threads s t
         | Some got \<Rightarrow> (threads s t)\<lparr>event_set := got, stat := RT_THREAD_READY\<rparr>)
    \<and> lst (tlists s') (SuspendQ (OEvent e))
        = filter (\<lambda>t. t \<notin> fst ` set woken) (lst (tlists s) (SuspendQ (OEvent e)))"
  using assms by (rule event_send_refines)

theorem event_send_meets_spec_witness:
  "\<exists>s'. rt_event_send 0 0x0C (upd_thread 3 (\<lambda>th. th\<lparr>event_set := 0x06, event_info := 6\<rparr>)
       (demo (SuspendQ (OEvent 0)))) = Some (0, s')
     \<and> ev_set (events s' 0) = 0x08 \<and> event_set (threads s' 3) = 0x04
     \<and> stat (threads s' 3) = RT_THREAD_READY \<and> lst (tlists s') (SuspendQ (OEvent 0)) = []"
proof -
  let ?s = "upd_thread 3 (\<lambda>th. th\<lparr>event_set := 0x06, event_info := 6\<rparr>) (demo (SuspendQ (OEvent 0)))"
  have inv: "check_inv 0 ?s" by (intro check_inv_event_fields(1) demo_inv) simp
  from event_send_meets_spec [OF inv, of "0x0C" 0 "0x08" "[(3, 0x04)]"] show ?thesis
    by (auto simp: event_grant_def)
qed

text \<open>
  Receiving events. When the condition holds the caller gets at once the bits a waiting thread would
  get from the next send, and the clear option removes the same bits; otherwise the call fails without
  time, and else the caller waits with its request recorded.
\<close>

theorem event_recv_behaviour:
  assumes "check_inv base s" and "rt_thread_self s = Some t" and "stat (threads s t) = RT_THREAD_READY"
    and "irq_nest s = 0" and "es \<noteq> 0" and "bit opt 0 \<or> bit opt 1"
    and "o_flag (objs s (OEvent e)) = 0 \<or> o_flag (objs s (OEvent e)) = 1"
    and "time_ok base s timeout" and "u \<noteq> t" and "stat (threads s u) = RT_THREAD_READY"
  shows "case event_grant (ev_set (events s e)) es opt of
      Some got \<Rightarrow> rt_event_recv e es opt timeout s = Some (Return (RT_EOK, Some got),
        upd_event e (\<lambda>x. x\<lparr>ev_set := (if bit opt 2 then ev_set x AND NOT got else ev_set x)\<rparr>)
          (upd_thread t (\<lambda>th. th\<lparr>error := RT_EOK\<rparr>) s))
    | None \<Rightarrow> if timeout = 0
        then rt_event_recv e es opt timeout s = Some (Return (- RT_ETIMEOUT, None),
          upd_thread t (\<lambda>th. th\<lparr>error := - RT_ETIMEOUT\<rparr>) s)
        else (\<exists>s'. rt_event_recv e es opt timeout s = Some (Blocked, s') \<and> check_inv base s'
          \<and> loc (tlists s') t = Some (SuspendQ (OEvent e)) \<and> events s' = events s
          \<and> event_set (threads s' t) = es \<and> event_info (threads s' t) = opt)"
proof (cases "event_grant (ev_set (events s e)) es opt")
  case None
  from event_recv_fails [OF assms(2,4,5,6) None] event_recv_blocks [OF assms(1-6) None assms(7) _ assms(8-10)]
  show ?thesis unfolding None by auto
next
  case (Some got)
  from event_recv_grant [OF assms(2,4,5) Some, of timeout] Some show ?thesis by simp
qed

theorem event_recv_behaviour_witness:
  "\<exists>s'. rt_event_recv 0 1 1 5 (demo (SuspendQ (OSem 0))) = Some (Blocked, s')
     \<and> loc (tlists s') 2 = Some (SuspendQ (OEvent 0)) \<and> event_set (threads s' 2) = 1"
proof -
  let ?s = "demo (SuspendQ (OSem 0))"
  have inv: "check_inv 0 ?s" by (rule demo_inv) simp
  have "time_ok 0 ?s 5" by (simp add: time_ok_def RT_TICK_HALF_num)
  from event_recv_behaviour [OF inv, of 2 1 1 0 5 1] this show ?thesis
    by (auto simp: event_grant_def)
qed

section \<open>Mailboxes and message queues\<close>

text \<open>
  C23. A mailbox is a first-in first-out queue: mails sent with \<open>rt_mb_send\<close> while there is room are received by
  \<open>rt_mb_recv\<close> in the order in which they were sent, behind those that were there, also when the calls wake
  and schedule waiting threads.
\<close>

theorem mailbox_fifo:
  assumes "check_inv base s" and "mb_wf (mailboxes s m)"
    and "length (mb_queue (mailboxes s m)) + length vs \<le> unat (mb_size (mailboxes s m))"
  shows "\<exists>s1 s2. send_each (mb_try_send m) vs s = Some s1
    \<and> recv_each (mb_try_recv m) (length (mb_queue (mailboxes s m)) + length vs) s1
        = Some (mb_queue (mailboxes s m) @ vs, s2) \<and> mb_queue (mailboxes s2 m) = []"
  using mb_calls.send_then_receive [of base s m vs] assms by simp

theorem mailbox_fifo_witness:
  "\<exists>s1 s2. send_each (mb_try_send 0) [7, 9] (demo (SuspendQ (OMb 0))) = Some s1
     \<and> recv_each (mb_try_recv 0) (Suc (Suc 0)) s1 = Some ([7, 9], s2)"
proof -
  let ?s = "demo (SuspendQ (OMb 0))"
  have "check_inv 0 ?s" by (rule demo_inv) simp
  moreover have "mb_wf (mailboxes ?s 0)" "mb_queue (mailboxes ?s 0) = []" by (simp_all add: mb_wf_def mb_queue_def)
  ultimately show ?thesis using mailbox_fifo [of 0 ?s 0 "[7, 9]"]
    by (auto simp del: send_each.simps recv_each.simps)
qed

text \<open>
  A mail that arrives wakes the first waiting receiver and a mail that is taken the first waiting
  sender; a full mailbox and an empty one refuse calls that do not wait and do not change.
\<close>

theorem mailbox_calls:
  assumes "check_inv base s" and "mb_wf (mailboxes s m)"
  shows "(if mb_entry (mailboxes s m) = mb_size (mailboxes s m)
      then rt_mb_send m v s = Some (Return (- RT_EFULL), s)
      else (\<exists>s'. rt_mb_send m v s = Some (Return RT_EOK, s') \<and> check_inv base s'
        \<and> mb_wf (mailboxes s' m) \<and> mb_queue (mailboxes s' m) = mb_queue (mailboxes s m) @ [v]
        \<and> lst (tlists s') (SuspendQ (OMb m)) = tl (lst (tlists s) (SuspendQ (OMb m)))
        \<and> (\<forall>t ts. lst (tlists s) (SuspendQ (OMb m)) = t # ts \<longrightarrow> stat (threads s' t) = RT_THREAD_READY)))
    \<and> (case mb_queue (mailboxes s m) of
         [] \<Rightarrow> rt_mb_recv m 0 s = Some (Return (- RT_ETIMEOUT, None), s)
       | x # xs \<Rightarrow> (\<exists>s'. rt_mb_recv m 0 s = Some (Return (RT_EOK, Some x), s') \<and> check_inv base s'
           \<and> mb_wf (mailboxes s' m) \<and> mb_queue (mailboxes s' m) = xs
           \<and> lst (tlists s') (SenderQ (OMb m)) = tl (lst (tlists s) (SenderQ (OMb m)))
           \<and> (\<forall>t ts. lst (tlists s) (SenderQ (OMb m)) = t # ts \<longrightarrow> stat (threads s' t) = RT_THREAD_READY)))"
proof (rule conjI, goal_cases)
  case 1
  show ?case
  proof (cases "mb_entry (mailboxes s m) = mb_size (mailboxes s m)")
    case True
    then show ?thesis by (simp add: mb_send_full)
  next
    case False
    then have "length (mb_queue (mailboxes s m)) < unat (mb_size (mailboxes s m))"
      using mb_in_range [OF assms(2)] by simp
    from mb_send_room [OF assms this, of v 0] False show ?thesis by (auto simp: rt_mb_send_def)
  qed
next
  case 2
  show ?case
  proof (cases "mb_queue (mailboxes s m)")
    case Nil
    then have "mb_entry (mailboxes s m) = 0" by (metis mb_queue_length list.size(3) unat_eq_0)
    with Nil show ?thesis by (simp add: mb_recv_empty)
  next
    case (Cons x xs)
    from mb_recv_mail [OF assms Cons, of 0] Cons show ?thesis by auto
  qed
qed

theorem mailbox_calls_witness:
  "\<exists>s'. rt_mb_send 0 7 (demo (SuspendQ (OMb 0))) = Some (Return 0, s') \<and> stat (threads s' 3) = RT_THREAD_READY
     \<and> rt_mb_recv 0 0 (demo (SuspendQ (OMb 0))) = Some (Return (- 2, None), demo (SuspendQ (OMb 0)))"
proof -
  let ?s = "demo (SuspendQ (OMb 0))"
  have "check_inv 0 ?s" by (rule demo_inv) simp
  moreover have "mb_wf (mailboxes ?s 0)" "mb_queue (mailboxes ?s 0) = []" by (simp_all add: mb_wf_def mb_queue_def)
  ultimately show ?thesis using mailbox_calls [of 0 ?s 0 7] by auto
qed

text \<open>
  C24. A message queue is a first-in first-out queue of messages of its fixed size: what \<open>rt_mq_send\<close>
  stores, \<open>rt_mq_recv\<close> returns byte for byte in the same order, as long as there is a free slot.
\<close>

theorem mq_fifo:
  assumes "check_inv base s" and "mq_wf (mqs s m)" and "mq_msg_size (mqs s m) \<noteq> 0"
    and "\<forall>b\<in>set bs. length b = unat (mq_msg_size (mqs s m))"
    and "length (mq_queue (mqs s m)) + length bs \<le> unat (mq_max_msgs (mqs s m))"
  shows "\<exists>s1 s2. send_each (mq_try_send m) bs s = Some s1
    \<and> recv_each (mq_try_recv m) (length (mq_queue (mqs s m)) + length bs) s1
        = Some (mq_queue (mqs s m) @ bs, s2) \<and> mq_queue (mqs s2 m) = []"
  using mq_calls.send_then_receive [of base s m bs] assms by simp

lemma demo_mq_facts:
  "mq_wf demo_mq" "mq_queue demo_mq = []" "mq_msg_size demo_mq = 4" "mq_max_msgs demo_mq = 2"
proof -
  show "mq_wf demo_mq" "mq_queue demo_mq = []"
    using demo_mq_rep mq_queue_rep [OF demo_mq_rep] unfolding mq_wf_def by auto
  show "mq_msg_size demo_mq = 4" "mq_max_msgs demo_mq = 2" by (simp_all add: demo_mq_def mq_setup_frame)
qed

theorem mq_fifo_witness:
  "\<exists>s1 s2. send_each (mq_try_send 0) [[1, 2, 3, 4], [5, 6, 7, 8]] (demo (SuspendQ (OMq 0))) = Some s1
     \<and> recv_each (mq_try_recv 0) (Suc (Suc 0)) s1 = Some ([[1, 2, 3, 4], [5, 6, 7, 8]], s2)"
proof -
  let ?s = "demo (SuspendQ (OMq 0))"
  have "check_inv 0 ?s" by (rule demo_inv) simp
  then show ?thesis using mq_fifo [of 0 ?s 0 "[[1, 2, 3, 4], [5, 6, 7, 8]]"]
    by (auto simp: demo_mq_facts simp del: send_each.simps recv_each.simps)
qed

text \<open>
  An urgent message goes in front of all messages of the queue and is the next one received; a
  shorter message leaves the rest of its slot as it was.
\<close>

theorem mq_urgent_is_next:
  assumes "check_inv base s" and "mq_rep (mqs s m) qs (i # fs)" and "buffer \<noteq> []"
    and "length buffer \<le> unat (mq_msg_size (mqs s m))"
  shows "\<exists>s1 s2. rt_mq_urgent m buffer s = Some (RT_EOK, s1)
    \<and> mq_queue (mqs s1 m) = (buffer @ drop (length buffer) (mq_data (mqs s m) i)) # mq_queue (mqs s m)
    \<and> rt_mq_recv m (length buffer) 0 s1 = Some (Return (RT_EOK, Some buffer), s2)
    \<and> mq_queue (mqs s2 m) = mq_queue (mqs s m)"
proof -
  obtain s1 where s1: "rt_mq_urgent m buffer s = Some (0, s1)" "check_inv base s1"
    "mq_rep (mqs s1 m) (i # qs) fs"
    "mq_queue (mqs s1 m) = (buffer @ drop (length buffer) (mq_data (mqs s m) i)) # mq_queue (mqs s m)"
    using mq_urgent_prepends [OF assms] by blast
  have "length buffer \<noteq> 0" using assms(3) by simp
  from mq_recv_first [OF s1(2,3) this, of 0] s1 show ?thesis by auto
qed

theorem mq_urgent_is_next_witness:
  "\<exists>s1 s2. rt_mq_urgent 0 [1, 2] (demo (SuspendQ (OSem 0))) = Some (0, s1)
     \<and> rt_mq_recv 0 (Suc (Suc 0)) 0 s1 = Some (Return (0, Some [1, 2]), s2)"
proof -
  let ?s = "demo (SuspendQ (OSem 0))"
  have "check_inv 0 ?s" by (rule demo_inv) simp
  then show ?thesis using mq_urgent_is_next [of 0 ?s 0 "[]" 1 "[0]" "[1, 2]"] demo_mq_rep
    by (auto simp: demo_mq_facts)
qed

text \<open>
  A reset of a message queue wakes all waiting threads and returns every slot to the free list,
  so that all slots can be used again.
\<close>

theorem mq_reset_frees_all:
  assumes "check_inv base s" and "mq_wf (mqs s m)" and "stat (threads s u) = RT_THREAD_READY"
  shows "\<exists>s'. rt_mq_control m RT_IPC_CMD_RESET s = Some (RT_EOK, s') \<and> check_inv base s'
    \<and> mq_wf (mqs s' m) \<and> mq_queue (mqs s' m) = [] \<and> lst (tlists s') (SuspendQ (OMq m)) = []"
proof -
  obtain qs fs where "mq_rep (mqs s m) qs fs" using assms(2) by (auto simp: mq_wf_def)
  from mq_reset_empties [OF assms(1) this assms(3)] obtain s' where
    s': "rt_mq_control m RT_IPC_CMD_RESET s = Some (0, s')" "check_inv base s'"
      "mq_rep (mqs s' m) [] (rev qs @ fs)" "lst (tlists s') (SuspendQ (OMq m)) = []" by blast
  with mq_queue_rep [OF s'(3)] show ?thesis by (auto simp: mq_wf_def)
qed

theorem mq_reset_frees_all_witness:
  "\<exists>s'. rt_mq_control 0 RT_IPC_CMD_RESET (demo (SuspendQ (OMq 0))) = Some (0, s')
     \<and> lst (tlists s') (SuspendQ (OMq 0)) = [] \<and> mq_queue (mqs s' 0) = []"
proof -
  let ?s = "demo (SuspendQ (OMq 0))"
  have "check_inv 0 ?s" by (rule demo_inv) simp
  then show ?thesis using mq_reset_frees_all [of 0 ?s 0 2] by (auto simp: demo_mq_facts)
qed

section \<open>Memory pools\<close>

text \<open>
  \<open>rt_mp_init\<close> divides the given memory into as many blocks with their links as fit: all of them are
  free, and they lie inside the memory. When not a single block fits the call has no defined result,
  it writes in front of the memory.
\<close>

theorem mempool_init:
  assumes "RT_ALIGN block_size RT_ALIGN_SIZE + 4 \<noteq> 0"
  shows "let step = RT_ALIGN block_size RT_ALIGN_SIZE + 4;
      blocks = RT_ALIGN_DOWN sz RT_ALIGN_SIZE div step
    in if blocks = 0 then rt_mp_init m nm sz block_size s = None
       else (\<exists>s'. rt_mp_init m nm sz block_size s = Some (RT_EOK, s')
         \<and> mp_rep m (mempools s' m) [0..<unat blocks] \<and> mp_count_ok m s'
         \<and> unat blocks * unat step \<le> unat sz)"
proof -
  let ?step = "RT_ALIGN block_size RT_ALIGN_SIZE + 4" and ?sz = "RT_ALIGN_DOWN sz RT_ALIGN_SIZE"
  let ?b = "?sz div ?step"
  show ?thesis
  proof (cases "?b = 0")
    case True
    with assms show ?thesis by (simp add: rt_mp_init_def mp_setup_def Let_def)
  next
    case False
    have "unat ?b * unat ?step \<le> unat ?sz" by (simp add: unat_div)
    also have "\<dots> \<le> unat sz" by (rule align_down_le)
    finally have fit: "unat ?b * unat ?step \<le> unat sz" .
    obtain s' where "rt_mp_init m nm sz block_size s = Some (0, s')" "mp_rep m (mempools s' m) [0..<unat ?b]"
      "mp_suspend_count (mempools s' m) = 0" "lst (tlists s') (SuspendQ (OMp m)) = []"
      using mp_init_rep [OF assms False] by blast
    with False fit show ?thesis by (auto simp: Let_def mp_count_ok_def)
  qed
qed

lemma demo_blocks: "RT_ALIGN 10 RT_ALIGN_SIZE = 12" "RT_ALIGN_DOWN 64 RT_ALIGN_SIZE = 64"
  by (simp_all add: RT_ALIGN_def RT_ALIGN_DOWN_def RT_ALIGN_SIZE_def)

theorem mempool_init_witness:
  "\<exists>s'. rt_mp_init 0 [] 64 10 (demo (SuspendQ (OSem 0))) = Some (0, s') \<and> mp_rep 0 (mempools s' 0) [0..<4]"
  using mempool_init [of 10 64 0 "[]" "demo (SuspendQ (OSem 0))"]
  by (auto simp: Let_def demo_blocks)

text \<open>
  Allocation and release of blocks: while there is a free block \<open>rt_mp_alloc\<close> returns the first of the
  free list without waiting and marks it as belonging to the pool; releasing it puts it back to the front of
  the free list; and a block that is free is never accepted by \<open>rt_mp_free\<close>.
\<close>

theorem mempool_alloc_free:
  assumes "mp_rep m (mempools s m) (b # fs)" and "mp_suspend_count (mempools s m) = 0"
  shows "\<exists>s1 s2. rt_mp_alloc m time s = Some (Return (Some b), s1) \<and> mp_rep m (mempools s1 m) fs
    \<and> rt_mp_free m b s1 = Some s2 \<and> mp_rep m (mempools s2 m) (b # fs)
    \<and> (\<forall>c\<in>set (b # fs). rt_mp_free m c s2 = None)"
proof -
  obtain s1 where s1: "rt_mp_alloc m time s = Some (Return (Some b), s1)" "mp_rep m (mempools s1 m) fs"
    "mp_links (mempools s1 m) b = PoolOf m" "mp_total_count (mempools s1 m) = mp_total_count (mempools s m)"
    "mp_suspend_count (mempools s1 m) = mp_suspend_count (mempools s m)"
    using mp_alloc_takes [OF assms(1), of time] by blast
  have "b < unat (mp_total_count (mempools s1 m))"
    using mp_rep_links(2) [OF assms(1), of b] s1(4) by simp
  from mp_free_returns_block [OF s1(2) this s1(3)] s1(5) assms(2) obtain s2 where
    s2: "rt_mp_free m b s1 = Some s2" "mp_rep m (mempools s2 m) (b # fs)" by auto
  with s1 mp_double_free [OF s2(2)] show ?thesis by blast
qed

lemma demo_pool:
  obtains s where "rt_mp_init 0 [] 64 10 (demo (SuspendQ (OSem 0))) = Some (0, s)"
    and "mp_rep 0 (mempools s 0) (0 # [Suc 0, Suc (Suc 0), Suc (Suc (Suc 0))])" and "mp_suspend_count (mempools s 0) = 0"
  using mp_init_rep [of 10 64 0 "[]" "demo (SuspendQ (OSem 0))"]
  by (auto simp: demo_blocks upt_rec)

theorem mempool_alloc_free_witness:
  "\<exists>s s1 s2. rt_mp_init 0 [] 64 10 (demo (SuspendQ (OSem 0))) = Some (0, s)
     \<and> rt_mp_alloc 0 5 s = Some (Return (Some 0), s1) \<and> rt_mp_free 0 0 s1 = Some s2"
  by (rule demo_pool) (use mempool_alloc_free in blast)

text \<open>
  When threads wait for a block and their count is right, releasing a block makes one of them (the
  last that came) ready without an error, with the block in the free list for it.
\<close>

theorem mempool_free_wakes:
  assumes "check_inv base s" and "mp_rep m (mempools s m) fs"
    and "b < unat (mp_total_count (mempools s m))" and "mp_links (mempools s m) b = PoolOf m"
    and "mp_count_ok m s" and "lst (tlists s) (SuspendQ (OMp m)) = t # ts"
  shows "\<exists>s'. rt_mp_free m b s = Some s' \<and> check_inv base s' \<and> mp_rep m (mempools s' m) (b # fs)
    \<and> mp_count_ok m s' \<and> lst (tlists s') (SuspendQ (OMp m)) = ts
    \<and> stat (threads s' t) = RT_THREAD_READY \<and> error (threads s' t) = RT_EOK"
  using assms by (rule mp_free_wakes)

text \<open>A pool of one block, allocated, with one thread waiting.\<close>

definition pool_wait :: kstate where
  "pool_wait = upd_mp 0 (\<lambda>x. x\<lparr>mp_total_count := 1, mp_suspend_count := 1\<rparr>) (demo (SuspendQ (OMp 0)))"

lemma pool_wait_facts:
  "check_inv 0 pool_wait" "mp_rep 0 (mempools pool_wait 0) []" "mp_count_ok 0 pool_wait"
  "lst (tlists pool_wait) (SuspendQ (OMp 0)) = [3]" "mp_links (mempools pool_wait 0) b = PoolOf 0"
  "mp_total_count (mempools pool_wait 0) = 1"
proof -
  have "check_inv 0 (demo (SuspendQ (OMp 0)))" by (rule demo_inv) simp
  then show "check_inv 0 pool_wait" by (simp add: pool_wait_def)
qed (simp_all add: pool_wait_def mp_rep_def mp_count_ok_def demo_def)

theorem mempool_free_wakes_witness:
  "\<exists>s'. rt_mp_free 0 0 pool_wait = Some s' \<and> stat (threads s' 3) = RT_THREAD_READY"
  using mempool_free_wakes [OF pool_wait_facts(1,2) _ pool_wait_facts(5,3,4)]
  by (auto simp: pool_wait_facts)

text \<open>
  C29. The count of waiting threads is not corrected by a timeout: when the only thread that waits for a
  block is woken by its timer, the count says that one still waits, and the next release of a block takes the head of
  the empty wait list for a thread, which has no defined result.
\<close>

theorem mempool_timeout_breaks_free:
  assumes "check_inv base s" and "mp_count_ok m s" and "lst (tlists s) (SuspendQ (OMp m)) = [t]"
    and "rt_thread_timeout t s = Some s'" and "mp_links (mempools s' m) b = PoolOf m"
  shows "\<not> mp_count_ok m s' \<and> rt_mp_free m b s' = None"
  using mp_timeout_breaks_count [OF assms(1-4)] assms(5) by blast

theorem mempool_timeout_breaks_free_witness:
  "\<exists>s'. rt_thread_timeout 3 pool_wait = Some s' \<and> rt_mp_free 0 0 s' = None"
proof -
  have st: "stat (threads pool_wait 3) = RT_THREAD_SUSPEND" by (simp add: pool_wait_def)
  obtain s' where s': "rt_thread_timeout 3 pool_wait = Some s'" "mempools s' = mempools pool_wait"
    using thread_timeout_returns [OF _ st] pool_wait_facts(1) by (auto simp: check_inv_def)
  with mempool_timeout_breaks_free [OF pool_wait_facts(1,3,4) s'(1)] pool_wait_facts(5) show ?thesis by auto
qed

section \<open>The idle thread and the objects\<close>

text \<open>
  One run of the idle thread releases all defunct threads when they were created dynamically and have
  no cleanup function, and gives back stack and object of each exactly once.
\<close>

theorem idle_releases_all_dynamic:
  assumes "irq_nest s = 0" and "lstore_wf (tlists s)"
    and "\<And>t. t \<in> set (lst (tlists s) DefunctQ) \<Longrightarrow>
      cleanup (threads s t) = None \<and> \<not> rt_object_is_systemobject (OThread t) s"
  shows "\<exists>s'. rt_thread_idle_excute clean s = Some s' \<and> lst (tlists s') DefunctQ = []
    \<and> kfree_log s' = concat (map (\<lambda>t. [FreeObj (OThread t), FreeStack t]) (rev (lst (tlists s) DefunctQ)))
        @ kfree_log s"
  using assms by (rule idle_releases_dynamic)

definition defunct :: kstate where
  "defunct = (demo (SuspendQ (OSem 0)))\<lparr>tlists := ls_insert_after DefunctQ 4
     (ls_insert_after DefunctQ 5 (tlists (demo (SuspendQ (OSem 0)))))\<rparr>"

lemma defunct_facts:
  "irq_nest defunct = 0" "lstore_wf (tlists defunct)" "lst (tlists defunct) DefunctQ = [4, 5]"
  "cleanup (threads defunct t) = None" "o_type (objs defunct ob) = 0" "kfree_log defunct = []"
  using demo_wf [of "SuspendQ (OSem 0)"]
  by (auto simp: defunct_def demo_loc_def demo_threads_def intro!: wf_insert_after)

theorem idle_releases_all_dynamic_witness:
  "\<exists>s'. rt_thread_idle_excute (\<lambda>f t. Some) defunct = Some s' \<and> lst (tlists s') DefunctQ = []
     \<and> kfree_log s' = [FreeObj (OThread 5), FreeStack 5, FreeObj (OThread 4), FreeStack 4]"
  using idle_releases_all_dynamic [OF defunct_facts(1,2)]
  by (simp add: defunct_facts rt_object_is_systemobject_def)

text \<open>
  A statically initialised thread at the front of the list ends the run of the idle thread: the
  defunct threads behind it are left for the next run.
\<close>

theorem idle_leaves_rest:
  assumes "irq_nest s = 0" and "lst (tlists s) DefunctQ = t # ts" and "lstore_wf (tlists s)"
    and "cleanup (threads s t) = None" and "rt_object_is_systemobject (OThread t) s"
  shows "\<exists>s'. rt_thread_idle_excute clean s = Some s' \<and> lst (tlists s') DefunctQ = ts"
  using assms by (rule idle_stops_at_static)

theorem idle_leaves_rest_witness:
  "\<exists>s'. rt_thread_idle_excute (\<lambda>f t. Some)
       (upd_obj (OThread 4) (\<lambda>x. x\<lparr>o_type := RT_Object_Class_Static\<rparr>) defunct) = Some s'
     \<and> lst (tlists s') DefunctQ = [5]"
  by (rule idle_leaves_rest) (simp_all add: defunct_facts rt_object_is_systemobject_def)

text \<open>
  An object is found under its name and class right after its initialisation.
\<close>

theorem object_found_after_init:
  assumes "sched_inv s" and "stat (threads s u) = RT_THREAD_READY" and "irq_nest s = 0"
    and "\<forall>c\<in>set nm. c \<noteq> 0"
  shows "\<exists>s'. rt_object_find (Some nm) (class_code ty) (rt_object_init ob ty nm s) = Some (Some ob, s')"
  using assms by (rule object_find_new)

theorem object_found_after_init_witness:
  "\<exists>s'. rt_object_find (Some [115, 101, 109]) (class_code RT_Object_Class_Semaphore)
     (rt_object_init (OSem 0) RT_Object_Class_Semaphore [115, 101, 109] (demo (SuspendQ (OSem 1))))
     = Some (Some (OSem 0), s')"
  by (rule object_found_after_init [OF demo_sched, of _ 2]) simp_all

text \<open>
  \<open>rt_object_find\<close> lets the class \<open>RT_Object_Class_Unknown\<close> pass its check, although there is no container for
  it: the search then reads behind the array of containers and has no defined result.
\<close>

theorem object_find_unknown_class:
  assumes "irq_nest s = 0"
  shows "rt_object_find (Some nm) RT_Object_Class_Unknown s = None"
  using assms by (simp add: rt_object_find_def class_of_code_unknown)

theorem object_find_unknown_class_witness:
  "rt_object_find (Some [115]) RT_Object_Class_Unknown (demo (SuspendQ (OSem 0))) = None"
  by (rule object_find_unknown_class) simp

section \<open>Runs of the whole kernel\<close>

text \<open>
  C3. After every sequence of whole calls of the threads, continuations of calls that have waited, and
  clock interrupts between these, from a state with the invariant, the invariant holds: scheduler, timers, wait lists and objects are
  consistent, the times kept by waiting calls are valid, and some ready thread runs outside of interrupts and
  critical sections. The list of system timers holds timers of threads only; interrupts inside of a call are not part of the runs.
\<close>

theorem runs_keep_invariant:
  assumes "sys_run cb P S ls S'" and "sys_inv S"
  shows "sys_inv S' \<and> kernel_ok (kern S')
    \<and> (\<exists>t. cur_thread (kern S') = Some t \<and> stat (threads (kern S') t) = RT_THREAD_READY)"
proof -
  have inv: "sys_inv S'" using assms by (rule sys_inv_run)
  then show ?thesis using kernel_runs [of "kern S'"] by (auto simp: sys_inv_def running_def)
qed

lemma demo_take_run:
  assumes "P (kern (demo_sys 0)) (Invoke 2 (MutexTake 0 0))"
  shows "\<exists>S'. sys_run cb P (demo_sys 0) [Invoke 2 (MutexTake 0 0)] S' \<and> 0 < inside S' 2 0
    \<and> keeps_priority (kern S') 0 \<and> cur_thread (kern S') = Some 2 \<and> pend_of S' 2 = None"
proof -
  let ?S = "demo_sys 0"
  have "\<exists>k. exec (MutexTake 0 0) (kern ?S) = Some (Done 0, k) \<and> cur_thread k = Some 2 \<and> keeps_priority k 0"
    by (simp add: demo_sys_def rt_mutex_take_def RT_DEBUG_IN_THREAD_CONTEXT_def keeps_priority_def)
  then obtain k where k: "exec (MutexTake 0 0) (kern ?S) = Some (Done 0, k)" "cur_thread k = Some 2" "keeps_priority k 0"
    by blast
  have "sys_step cb ?S (Invoke 2 (MutexTake 0 0))
      \<lparr>kern = k, pend_of = (pend_of ?S)(2 := pending (Done 0)), inside = entered 2 (MutexTake 0 0) (Done 0) (inside ?S)\<rparr>"
    by (rule sys_step.invoke [OF _ _ _ _ k(1)]) (simp_all add: demo_sys_def idle_def may_wait_def time_ok_def)
  from sys_run.run_step [OF sys_run.run_start [of cb P ?S], OF assms this] k(2,3) show ?thesis by fastforce
qed

theorem runs_keep_invariant_witness:
  "\<exists>S'. sys_run (\<lambda>_ _. Some) (\<lambda>_ _. True) (demo_sys 0) [Invoke 2 (MutexTake 0 0)] S' \<and> sys_inv S'"
  using demo_take_run [of "\<lambda>_ _. True" "\<lambda>_ _. Some"] runs_keep_invariant [OF _ demo_sys_inv [of 0]] by fastforce

text \<open>
  C2. In every state with the invariant, so between the calls of every run, no step of the kernel ends at an
  assertion: the clock interrupt returns; every call of the running thread with valid arguments (\<open>allowed\<close>) returns or makes it wait;
  and a call it continues after a wait returns or waits again, for mailboxes and message queues with a timeout provided that
  less than \<open>2 ^ 31\<close> ticks have passed since the wait began (\<open>in_time\<close>). After more ticks the code computes a wrong remaining time, which may fail the
  assertion of \<^verbatim>\<open>rt_timer_start\<close>.
\<close>

theorem every_call_returns:
  assumes "sys_inv S"
  shows "(\<exists>S'. sys_step cb S Tick S')
    \<and> (\<forall>t c. cur_thread (kern S) = Some t \<and> t \<noteq> idle \<and> pend_of S t = None \<and> allowed c t (kern S) \<longrightarrow>
         (\<exists>S'. sys_step cb S (Invoke t c) S'))
    \<and> (\<forall>t p. cur_thread (kern S) = Some t \<and> t \<noteq> idle \<and> pend_of S t = Some p \<and> in_time p (kern S) \<longrightarrow>
         (\<exists>S'. sys_step cb S (Continue t) S'))"
proof (intro conjI allI impI; (elim conjE)?)
  show "\<exists>S'. sys_step cb S Tick S'" using clock_step [OF assms, of cb] sys_step.clock [of cb S] by blast
next
  fix t c assume c: "cur_thread (kern S) = Some t" "t \<noteq> idle" "pend_of S t = None" "allowed c t (kern S)"
  then show "\<exists>S'. sys_step cb S (Invoke t c) S'"
    using invoke_step [OF assms c] sys_step.invoke [of S t c _ _ cb] by blast
next
  fix t p assume c: "cur_thread (kern S) = Some t" "t \<noteq> idle" "pend_of S t = Some p" "in_time p (kern S)"
  have "kernel_ok (kern S)" and "short_wait (Some p)" using assms c(3) by (auto simp: sys_inv_def simp del: short_wait_simps dest: spec [of _ t])
  then have "\<exists>res k'. resume t p (kern S) = Some (res, k')" using c by (intro resume_plain(2))
  then show "\<exists>S'. sys_step cb S (Continue t) S'" using c sys_step.continue [of S t p _ _ cb] by blast
qed

theorem every_call_returns_witness:
  "(\<exists>S'. sys_step (\<lambda>_ _. Some) (demo_sys 0) (Invoke 2 (SemTake 0 5)) S')
    \<and> (\<exists>S'. sys_step (\<lambda>_ _. Some) demo_mail_sys (Continue 2) S')"
proof
  show "\<exists>S'. sys_step (\<lambda>_ _. Some) (demo_sys 0) (Invoke 2 (SemTake 0 5)) S'"
    using every_call_returns [OF demo_sys_inv [of 0], of "\<lambda>_ _. Some"]
    by (auto simp: demo_sys_def idle_def may_wait_def time_ok_def RT_TICK_HALF_num)
  show "\<exists>S'. sys_step (\<lambda>_ _. Some) demo_mail_sys (Continue 2) S'"
    using every_call_returns [OF demo_mail_inv, of "\<lambda>_ _. Some"]
    by (auto simp: demo_mail_sys_def demo_sys_def idle_def in_time_def)
qed

text \<open>
  C4. The running thread is a most urgent ready thread after every run (whole calls, continuations and clock interrupts
  between them) in which no mutex release lowers the priority of its caller (\<open>no_lowering\<close>).
\<close>

theorem most_urgent_runs:
  assumes "sys_run cb no_lowering S ls S'" and "sys_inv S" and "scheduled (kern S)"
  shows "\<exists>t. cur_thread (kern S') = Some t \<and> stat (threads (kern S') t) = RT_THREAD_READY
    \<and> (\<forall>u. stat (threads (kern S') u) = RT_THREAD_READY \<longrightarrow>
          current_priority (threads (kern S') t) \<le> current_priority (threads (kern S') u))"
proof -
  have "sys_inv S'" using assms(1,2) by (rule sys_inv_run)
  then have inv: "sched_inv (kern S')" and "cur_ready (kern S')"
    by (simp_all add: sys_inv_def kernel_ok_def tick_inv_def check_inv_def)
  then obtain t where t: "cur_thread (kern S') = Some t" by (auto simp: cur_ready_def)
  have "next_thread (kern S') = Some t" using run_scheduled [OF assms] t by (simp add: scheduled_def)
  from next_thread_highest [OF inv this] t show ?thesis by blast
qed

lemma demo_urgent_run:
  "\<exists>S'. sys_run cb no_lowering (demo_sys 0) [Invoke 2 (MutexTake 0 0), Invoke 2 (MutexRelease 0), Tick] S'"
proof -
  have inv: "sys_inv (demo_sys 0)" by (rule demo_sys_inv) simp
  obtain S1 where S1: "sys_run cb no_lowering (demo_sys 0) [Invoke 2 (MutexTake 0 0)] S1"
    "keeps_priority (kern S1) 0" "cur_thread (kern S1) = Some 2" "pend_of S1 2 = None"
    using demo_take_run [of no_lowering cb] by (auto simp: no_lowering_def)
  have inv1: "sys_inv S1" using S1(1) inv by (rule sys_inv_run)
  obtain res k where k: "exec (MutexRelease 0) (kern S1) = Some (res, k)"
    "good_step S1 2 (after S1 2 k (pending res) (entered 2 (MutexRelease 0) res (inside S1)))"
    using release_step [OF inv1 S1(3) _ S1(4), of 0] by (auto simp: idle_def)
  let ?S2 = "after S1 2 k (pending res) (entered 2 (MutexRelease 0) res (inside S1))"
  have step: "sys_step cb S1 (Invoke 2 (MutexRelease 0)) ?S2"
    by (rule sys_step.invoke [OF S1(3) _ S1(4) _ k(1)]) (simp_all add: idle_def)
  have run2: "sys_run cb no_lowering (demo_sys 0) ([Invoke 2 (MutexTake 0 0)] @ [Invoke 2 (MutexRelease 0)]) ?S2"
    by (rule sys_run.run_step [OF S1(1) _ step]) (simp add: no_lowering_def S1(2))
  have "sys_inv ?S2" using k(2) by (simp add: good_step_def)
  then obtain k' where "clock_interrupt cb (kern ?S2) = Some k'" using clock_step by blast
  from sys_run.run_step [OF run2 _ sys_step.clock [OF this]] show ?thesis by (auto simp: no_lowering_def)
qed

theorem most_urgent_runs_witness:
  "\<exists>S'. sys_run (\<lambda>_ _. Some) no_lowering (demo_sys 0) [Invoke 2 (MutexTake 0 0), Invoke 2 (MutexRelease 0), Tick] S'
    \<and> (\<exists>t. cur_thread (kern S') = Some t \<and> stat (threads (kern S') t) = RT_THREAD_READY
      \<and> (\<forall>u. stat (threads (kern S') u) = RT_THREAD_READY \<longrightarrow>
          current_priority (threads (kern S') t) \<le> current_priority (threads (kern S') u)))"
proof -
  have inv: "sys_inv (demo_sys 0)" by (rule demo_sys_inv) simp
  obtain S' where "sys_run (\<lambda>_ _. Some) no_lowering (demo_sys 0) [Invoke 2 (MutexTake 0 0), Invoke 2 (MutexRelease 0), Tick] S'"
    using demo_urgent_run [of "\<lambda>_ _. Some"] by blast
  with most_urgent_runs [OF this inv demo_sys_scheduled] show ?thesis by blast
qed

text \<open>
  C1. Mutual exclusion: in every run, while a thread is in a section protected by a mutex it is the
  owner of the mutex, and no other thread is in a section of the same mutex, also when takes are
  nested or time out. The steps of a run are whole calls, continuations and clock interrupts between them.
\<close>

theorem mutual_exclusion:
  assumes "sys_run cb P S ls S'" and "sys_inv S" and "0 < inside S' t m"
  shows "owner (mutexes (kern S') m) = Some t \<and> (\<forall>u. u \<noteq> t \<longrightarrow> inside S' u m = 0)"
proof -
  have inv: "sys_inv S'" using assms(1,2) by (rule sys_inv_run)
  then have "owner (mutexes (kern S') m) = Some t"
    using assms(3) by (simp add: sys_inv_def mutex_inv_def mx_at_def)
  moreover have "inside S' u m = 0" if "u \<noteq> t" for u
    using inside_exclusive [OF inv assms(3), of u] that by auto
  ultimately show ?thesis by blast
qed

theorem mutual_exclusion_witness:
  "\<exists>S'. sys_run (\<lambda>_ _. Some) (\<lambda>_ _. True) (demo_sys 0) [Invoke 2 (MutexTake 0 0)] S'
     \<and> owner (mutexes (kern S') 0) = Some 2 \<and> inside S' 3 0 = 0"
proof -
  obtain S' where S': "sys_run (\<lambda>_ _. Some) (\<lambda>_ _. True) (demo_sys 0) [Invoke 2 (MutexTake 0 0)] S'" "0 < inside S' 2 0"
    using demo_take_run [of "\<lambda>_ _. True" "\<lambda>_ _. Some"] by blast
  from mutual_exclusion [OF S'(1) demo_sys_inv S'(2)] have "owner (mutexes (kern S') 0) = Some 2" "inside S' 3 0 = 0"
    by auto
  with S'(1) show ?thesis by blast
qed

text \<open>
  C30. A mutex release that gives the caller its original priority back does not call the scheduler
  when no thread waits for the mutex: a ready thread that is more urgent by then stays behind the
  running one.
\<close>

theorem release_keeps_processor:
  assumes "running s t" and "mutex_ok m s" and "owner (mutexes s m) = Some t" and "hold (mutexes s m) = 1"
    and "lst (tlists s) (SuspendQ (OMutex m)) = []"
    and "u \<noteq> t" and "stat (threads s u) = RT_THREAD_READY"
    and "current_priority (threads s u) < original_priority (mutexes s m)"
  shows "\<exists>s'. rt_mutex_release m s = Some (RT_EOK, s') \<and> cur_thread s' = Some t
    \<and> stat (threads s' u) = RT_THREAD_READY \<and> current_priority (threads s' u) < current_priority (threads s' t)"
  using assms by (rule release_bypasses)

definition raised :: kstate where
  "raised = upd_mutex 0 (\<lambda>x. \<lparr>mutex_value = 0, original_priority = 20, hold = 1, owner = Some 2\<rparr>)
     (snd (rt_thread_resume 3 (demo (SuspendQ (OSem 0)))))"

lemma raised_facts:
  "running raised 2" "mutex_ok 0 raised" "mutexes raised 0 = \<lparr>mutex_value = 0, original_priority = 20, hold = 1, owner = Some 2\<rparr>"
  "lst (tlists raised) (SuspendQ (OMutex 0)) = []" "stat (threads raised 3) = RT_THREAD_READY"
  "current_priority (threads raised 3) = 6"
proof -
  let ?d = "demo (SuspendQ (OSem 0))" and ?s = "snd (rt_thread_resume 3 (demo (SuspendQ (OSem 0))))"
  have st: "stat (threads ?d 3) = RT_THREAD_SUSPEND" by simp
  note r = thread_resume_suspended [OF st]
  have "check_inv 0 ?s" using demo_inv(1) [of "SuspendQ (OSem 0)"] by (intro check_inv_resume) simp
  moreover have "flags_ok ?s" by (rule flags_ok_kept [of ?d]) (simp_all add: flags_ok_def)
  ultimately show "running raised 2"
    using r(2) by (simp add: raised_def running_def flags_ok_def idle_def)
  show "mutexes raised 0 = \<lparr>mutex_value = 0, original_priority = 20, hold = 1, owner = Some 2\<rparr>"
    by (simp add: raised_def)
  then show "mutex_ok 0 raised" by (simp add: mutex_ok_def)
  show "lst (tlists raised) (SuspendQ (OMutex 0)) = []" "stat (threads raised 3) = RT_THREAD_READY"
    "current_priority (threads raised 3) = 6"
    using r by (simp_all add: raised_def demo_loc_def lst_remove_other)
qed

theorem release_keeps_processor_witness:
  "\<exists>s'. rt_mutex_release 0 raised = Some (RT_EOK, s') \<and> cur_thread s' = Some 2
    \<and> stat (threads s' 3) = RT_THREAD_READY \<and> current_priority (threads s' 3) < current_priority (threads s' 2)"
  by (rule release_keeps_processor [OF raised_facts(1,2)]) (simp_all add: raised_facts)

text \<open>
  C5. A waiting time ends: when a thread waits with a running timer, then in every run with as many
  clock interrupts as the timer still has ticks, and at least one, the thread is ready at some point,
  woken by the timer or before. The steps of a run are whole calls, continuations and clock interrupts between them.
\<close>

theorem waiting_ends:
  assumes "sys_run cb P S ls S'" and "sys_inv S" and "waits_until x u (kern S)"
    and "unat (x - ktick (kern S)) \<le> ticks ls" and "0 < ticks ls"
  shows "\<exists>ls1 ls2 S1. ls = ls1 @ ls2 \<and> sys_run cb P S ls1 S1 \<and> stat (threads (kern S1) u) = RT_THREAD_READY"
  using run_waits [OF assms(1,2,3)] assms(4,5) by fastforce

theorem waiting_ends_witness:
  "\<exists>ls1 ls2 S1. [Tick] = ls1 @ ls2 \<and> sys_run (\<lambda>_ _. Some) (\<lambda>_ _. True) (demo_sys 9) ls1 S1
     \<and> stat (threads (kern S1) 3) = RT_THREAD_READY"
proof -
  have inv: "sys_inv (demo_sys 9)" by (rule demo_sys_inv) simp
  obtain k where k: "clock_interrupt (\<lambda>_ _. Some) (kern (demo_sys 9)) = Some k" using clock_step [OF inv] by blast
  have run: "sys_run (\<lambda>_ _. Some) (\<lambda>_ _. True) (demo_sys 9) ([] @ [Tick]) ((demo_sys 9)\<lparr>kern := k\<rparr>)"
    by (rule sys_run.run_step [OF sys_run.run_start _ sys_step.clock [OF k]]) simp
  have "waits_until 10 3 (kern (demo_sys 9))"
    by (simp add: waits_until_def demo_sys_def demo_timer_def demo_tmlists_def)
  from waiting_ends [OF run inv this] show ?thesis by (simp add: ticks_def demo_sys_def)
qed

section \<open>The FreeRTOS interface\<close>

text \<open>
  C21. The queues of the FreeRTOS interface implement a queue of items with two ends: a send with room appends the
  item, puts it in front or replaces the first one, as asked; a receive takes the first item and a peek leaves
  it there; a full queue and an empty one refuse calls that do not wait and do not change.
\<close>

theorem queue_refines_spec:
  assumes inv: "check_inv base (kst p)" and ok: "fmq_ok m p" and ty: "has_type (OMb m) RT_Object_Class_MailBox p"
    and forever: "forever \<noteq> 0"
  shows "((length (fmq_list m p) < unat (mb_size (mailboxes (kst p) m)) \<or> pos = queueOVERWRITE) \<longrightarrow>
        unat (fmq_item (pools p m)) \<le> length v \<longrightarrow>
      (\<exists>p'. xQueueGenericSend (OMb m) v wait pos p = Some (Return pdPASS, p') \<and> check_inv base (kst p') \<and> fmq_ok m p'
        \<and> fmq_list m p' = fmq_spec pos (take (unat (fmq_item (pools p m))) v) (fmq_list m p)))
    \<and> (length (fmq_list m p) = unat (mb_size (mailboxes (kst p) m)) \<longrightarrow> pos \<noteq> queueOVERWRITE \<longrightarrow>
      xQueueGenericSend (OMb m) v 0 pos p = Some (Return errQUEUE_FULL, p))
    \<and> (\<forall>w ws. fmq_list m p = w # ws \<longrightarrow>
      xQueueGenericReceive forever (OMb m) wait True p = Some (Return (pdPASS, Some w), p) \<and>
      (\<exists>p'. xQueueGenericReceive forever (OMb m) wait False p = Some (Return (pdPASS, Some w), p')
        \<and> check_inv base (kst p') \<and> fmq_ok m p' \<and> fmq_list m p' = ws))
    \<and> (fmq_list m p = [] \<longrightarrow>
      xQueueGenericReceive forever (OMb m) 0 peek p = Some (Return (errQUEUE_EMPTY, None), p))"
  by (intro conjI allI impI queue_send_spec [OF inv ok ty] queue_receive_spec [OF inv ok ty forever])

text \<open>A port with an empty queue of two items of two bytes.\<close>

definition demo_port :: port where
  "demo_port = \<lparr>kst = upd_obj (OMb 0) (\<lambda>x. x\<lparr>o_type := class_code RT_Object_Class_MailBox\<rparr>) (demo (SuspendQ (OMb 0))),
     pools = (\<lambda>_. \<lparr>fmq_item = 2, fmq_bytes = [0, 0, 0, 0]\<rparr>), mq_index = 0, ms_index = 0, mx_index = 0, mr_index = 0,
     tm_index = 0, ev_index = 0, xSchedulerRunning = True\<rparr>"

lemma demo_port_facts:
  "check_inv 0 (kst demo_port)" "fmq_ok 0 demo_port" "fmq_list 0 demo_port = []"
  "has_type (OMb 0) RT_Object_Class_MailBox demo_port" "fmq_item (pools demo_port 0) = 2"
  "mb_size (mailboxes (kst demo_port) 0) = 2" "irq_nest (kst demo_port) = 0"
  "rt_thread_self (kst demo_port) = Some 2"
proof -
  show "check_inv 0 (kst demo_port)" using demo_inv(1) [of "SuspendQ (OMb 0)"]
      check_inv_object [of 0 "demo (SuspendQ (OMb 0))" "OMb 0"] by (simp add: demo_port_def)
qed (simp_all add: demo_port_def fmq_wf_def fmq_items_def has_type_def)

theorem queue_refines_spec_witness:
  "\<exists>p'. xQueueGenericSend (OMb 0) [7, 8, 9] 0 queueSEND_TO_FRONT demo_port = Some (Return pdPASS, p')
     \<and> fmq_list 0 p' = [[7, 8]]"
  using queue_refines_spec [OF demo_port_facts(1,2,4), of 1 queueSEND_TO_FRONT "[7, 8, 9]" 0]
  by (auto simp: demo_port_facts)

text \<open>
  The queues are first in, first out: items sent to the back while there is room are received byte for byte in the
  order in which they were sent, behind those that were there.
\<close>

theorem queue_fifo:
  assumes "check_inv base (kst p)" and "fmq_ok m p" and "\<forall>v\<in>set vs. length v = unat (fmq_item (pools p m))"
    and "length (fmq_list m p) + length vs \<le> unat (mb_size (mailboxes (kst p) m))"
  shows "\<exists>p1 p2. send_each (fmq_try_send m) vs p = Some p1
    \<and> recv_each (fmq_try_recv m) (length (fmq_list m p) + length vs) p1 = Some (fmq_list m p @ vs, p2)
    \<and> fmq_list m p2 = []"
  using fmq_calls.send_then_receive [of base p m vs] assms by simp

theorem queue_fifo_witness:
  "\<exists>p1 p2. send_each (fmq_try_send 0) [[1, 2], [3, 4]] demo_port = Some p1
     \<and> recv_each (fmq_try_recv 0) (Suc (Suc 0)) p1 = Some ([[1, 2], [3, 4]], p2)"
  using queue_fifo [OF demo_port_facts(1,2), of "[[1, 2], [3, 4]]"]
  by (auto simp: demo_port_facts simp del: send_each.simps recv_each.simps)

text \<open>
  The FreeRTOS priorities 0 to 24 of the ESP-IDF, which grow with urgency, are mapped to kernel priorities, which
  shrink with urgency, in the same order and within the range of the kernel.
\<close>

theorem task_priorities_ordered:
  assumes "unat a \<le> 24" and "unat b \<le> 24" and "a AND privilege = 0" and "b AND privilege = 0"
  shows "(task_priority privilege a < task_priority privilege b \<longleftrightarrow> b < a)
    \<and> 3 \<le> unat (task_priority privilege a) \<and> unat (task_priority privilege a) < RT_THREAD_PRIORITY_MAX - 1"
  using task_priority_value [OF assms(1,3)] task_priority_value [OF assms(2,4)] assms(1,2)
  by (auto simp: word_less_nat_alt RT_THREAD_PRIORITY_MAX_def)

theorem task_priorities_ordered_witness:
  "task_priority 0x80000000 24 < task_priority 0x80000000 1"
  using task_priorities_ordered [of 24 1 "0x80000000"] by simp

text \<open>
  A wait for bits of an event group that are set returns these bits at once, and clears the bits that were
  waited for, and only these, when asked to.
\<close>

theorem event_group_wait:
  assumes "rt_thread_self (kst p) = Some t" and "irq_nest (kst p) = 0" and "bits \<noteq> 0"
    and "if all then bits AND ev_set (events (kst p) e) = bits else bits AND ev_set (events (kst p) e) \<noteq> 0"
  shows "\<exists>p'. xEventGroupWaitBits e bits clr all wait p = Some (Return (bits AND ev_set (events (kst p) e)), p')
    \<and> ev_set (events (kst p') e) = (if clr then ev_set (events (kst p) e) AND NOT bits else ev_set (events (kst p) e))"
  using assms by (rule wait_bits_ready)

theorem event_group_wait_witness:
  "\<exists>p'. xEventGroupWaitBits 0 6 True False 0 (demo_port\<lparr>kst := upd_event 0 (\<lambda>x. x\<lparr>ev_set := 5\<rparr>) (kst demo_port)\<rparr>)
     = Some (Return 4, p') \<and> ev_set (events (kst p') 0) = 1"
  using event_group_wait [of "demo_port\<lparr>kst := upd_event 0 (\<lambda>x. x\<lparr>ev_set := 5\<rparr>) (kst demo_port)\<rparr>" 2 6 False 0 True 0]
  by (auto simp: demo_port_facts)

text \<open>
  A semaphore of the FreeRTOS interface with length one is not binary: given twice, it counts two. The code
  passes neither the length nor the maximum count on to the kernel.
\<close>

theorem semaphore_not_binary:
  assumes "irq_nest (kst p) = 0"
  shows "\<exists>p1 p2 p3. xQueueGenericCreate (Some m) bytes 1 0 queueQUEUE_TYPE_OTHER p = Some (Some (OSem m), p1)
    \<and> xQueueGenericSend (OSem m) v wait pos p1 = Some (Return pdPASS, p2)
    \<and> xQueueGenericSend (OSem m) v wait pos p2 = Some (Return pdPASS, p3)
    \<and> uxQueueMessagesWaiting (OSem m) p3 = Some 2"
  using assms by (rule semaphore_counts)

theorem semaphore_not_binary_witness:
  "\<exists>p1 p2 p3. xQueueGenericCreate (Some 5) None 1 0 queueQUEUE_TYPE_OTHER demo_port = Some (Some (OSem 5), p1)
    \<and> xQueueGenericSend (OSem 5) [] 0 queueSEND_TO_BACK p1 = Some (Return pdPASS, p2)
    \<and> xQueueGenericSend (OSem 5) [] 0 queueSEND_TO_BACK p2 = Some (Return pdPASS, p3)
    \<and> uxQueueMessagesWaiting (OSem 5) p3 = Some 2"
  by (rule semaphore_not_binary [OF demo_port_facts(7)])

section \<open>The ring buffer of the drivers\<close>

text \<open>
  C22. The ring buffer implements a bounded queue of bytes: a write appends as many bytes as there is room for, a read
  takes up to the given number of bytes from the front, both return that number, and the forced write of a byte to a
  full buffer drops the oldest one; all keep the invariant.
\<close>

theorem ringbuffer_is_queue:
  assumes wf: "rb_wf rb" and ptr: "len \<le> length ptr"
  shows "\<exists>rb1 rb2 rb3. rt_ringbuffer_put ptr len rb = Some (min len (buffer_size rb - length (rb_data rb)), rb1)
      \<and> rb_wf rb1 \<and> rb_data rb1 = rb_data rb @ take (min len (buffer_size rb - length (rb_data rb))) ptr
      \<and> rt_ringbuffer_get n rb = Some (take n (rb_data rb), rb2) \<and> rb_wf rb2 \<and> rb_data rb2 = drop n (rb_data rb)
      \<and> rt_ringbuffer_putchar_force c rb = Some (1, rb3) \<and> rb_wf rb3
      \<and> rb_data rb3 = (if length (rb_data rb) = buffer_size rb then tl (rb_data rb) else rb_data rb) @ [c]"
  using ring_put_spec [OF assms] ring_get_spec [OF wf] ring_force_spec [OF wf] by blast

definition demo_ring :: rt_ringbuffer where
  "demo_ring = \<lparr>buffer_ptr = [3, 0, 1, 2], read_mirror = False, read_index = 2, write_mirror = True, write_index = 1,
     buffer_size = 4\<rparr>"

lemma demo_ring_facts:
  "rb_wf demo_ring" "rb_data demo_ring = [1, 2, 3]" "buffer_size demo_ring = 4" "rt_ringbuffer_space_len demo_ring = 1"
  by (simp_all add: demo_ring_def rb_wf_def rb_data_def rt_ringbuffer_data_len_def rt_ringbuffer_status_def
      rt_ringbuffer_space_len_def ring_def upt_rec)

theorem ringbuffer_is_queue_witness:
  "\<exists>rb1 rb2. rt_ringbuffer_put [7, 8] 2 demo_ring = Some (1, rb1) \<and> rb_data rb1 = [1, 2, 3, 7]
     \<and> rt_ringbuffer_get 2 demo_ring = Some ([1, 2], rb2) \<and> rb_data rb2 = [3]"
  using ringbuffer_is_queue [OF demo_ring_facts(1), of 2 "[7, 8]" 2 0] by (auto simp: demo_ring_facts)

text \<open>
  Writing a block, in one or two copies, gives the same result and the same buffer, byte by byte of its memory, as
  the loop that writes its bytes one after the other and stops at the first one that does not fit.
\<close>

theorem ringbuffer_put_is_putchars:
  assumes "rb_wf rb"
  shows "rt_ringbuffer_put ptr (length ptr) rb = putchars ptr rb"
  using put_written [OF assms order_refl] putchars_written [OF assms] by (simp add: space_len_eq [OF assms])

theorem ringbuffer_put_is_putchars_witness:
  "rt_ringbuffer_put [7, 8] (length [7 :: rt_uint8, 8]) demo_ring = putchars [7, 8] demo_ring"
  by (rule ringbuffer_put_is_putchars [OF demo_ring_facts(1)])

text \<open>
  C31. The forced write of a block that does not fit is wrong in two ways. It takes as many bytes as the buffer
  has cells, so it reads behind a block that is shorter; and when the buffer has data that does not
  wrap, the buffer is empty afterwards, with all bytes written and none to be read.
\<close>

theorem ringbuffer_put_force_loses:
  assumes wf: "rb_wf rb" and over: "rt_ringbuffer_space_len rb < len"
  shows "(length ptr < buffer_size rb \<longrightarrow> rt_ringbuffer_put_force ptr len rb = None)
    \<and> (buffer_size rb \<le> length ptr \<longrightarrow> read_mirror rb = write_mirror rb \<longrightarrow> rb_data rb \<noteq> [] \<longrightarrow>
        (\<exists>rb'. rt_ringbuffer_put_force ptr len rb = Some (buffer_size rb, rb') \<and> rb_data rb' = []))"
  using put_force_overread [OF assms] put_force_status [OF assms] status_empty by fastforce

theorem ringbuffer_put_force_loses_witness:
  "rt_ringbuffer_put_force [7, 8] 2 demo_ring = None
   \<and> (\<exists>rb'. rt_ringbuffer_put_force [5, 6, 7, 8] 4 (demo_ring\<lparr>read_mirror := True, read_index := 0\<rparr>) = Some (4, rb')
        \<and> rb_data rb' = [])"
proof -
  let ?rb = "demo_ring\<lparr>read_mirror := True, read_index := 0\<rparr>"
  have "rb_wf ?rb" "rt_ringbuffer_space_len ?rb < 4" "rb_data ?rb \<noteq> []" "buffer_size ?rb = 4"
    "read_mirror ?rb = write_mirror ?rb"
    by (simp_all add: demo_ring_def rb_wf_def rb_data_def rt_ringbuffer_data_len_def rt_ringbuffer_status_def
      rt_ringbuffer_space_len_def)
  then show ?thesis
    using ringbuffer_put_force_loses [OF demo_ring_facts(1), of 2 "[7, 8]"]
      ringbuffer_put_force_loses [of ?rb 4 "[5, 6, 7, 8]"] by (simp add: demo_ring_facts)
qed

section \<open>Memory heaps\<close>

text \<open>A state in which no heap exists yet, and the heap of 256 bytes that is initialised in it.\<close>

definition demo_heaps :: mstate where
  "demo_heaps = \<lparr>mkern = demo (SuspendQ (OSem 0)),
     heaps = (\<lambda>_. \<lparr>start_addr = 0, pool_size = 0, available_size = 0, max_used_size = 0, block_list = NullItem, free_list = NullItem, lock = 7\<rparr>),
     items = (\<lambda>_. \<lparr>magic = 0, pool_ptr = 0, inext = NullItem, iprev = NullItem, next_free = NullItem, prev_free = NullItem\<rparr>),
     mbytes = (\<lambda>x. ucast x)\<rparr>"

definition demo_heap :: mstate where
  "demo_heap = snd (the (rt_memheap_init 0 [104] 0x1000 0x100 demo_heaps))"

lemma demo_heap_start:
  "rt_memheap_init 0 [104] 0x1000 0x100 demo_heaps = Some (0, demo_heap)" "heap_rep 0 demo_heap {}"
  "start_addr (heaps demo_heap 0) = 0x1000" "pool_size (heaps demo_heap 0) = 0x100"
  "available_size (heaps demo_heap 0) = 208" "heap_fits 0 demo_heap 208"
proof -
  have sz: "RT_ALIGN_DOWN 0x100 RT_ALIGN_SIZE = 0x100" by (simp add: RT_ALIGN_DOWN_def RT_ALIGN_SIZE_def)
  obtain S where "rt_memheap_init 0 [104] 0x1000 0x100 demo_heaps = Some (0, S)" "heap_rep 0 S {}"
    "start_addr (heaps S 0) = 0x1000" "pool_size (heaps S 0) = 0x100"
    using memheap_init_rep [of "0x1000" "0x100" 0 "[104]" demo_heaps] unfolding sz by auto
  then show f: "rt_memheap_init 0 [104] 0x1000 0x100 demo_heaps = Some (0, demo_heap)" "heap_rep 0 demo_heap {}"
    "start_addr (heaps demo_heap 0) = 0x1000" "pool_size (heaps demo_heap 0) = 0x100" by (simp_all add: demo_heap_def)
  show "available_size (heaps demo_heap 0) = 208" "heap_fits 0 demo_heap 208" using rep_empty [OF f(2)] f(4) by simp_all
qed

lemma demo_heap_block:
  "\<exists>r m S. rt_memheap_alloc 0 20 demo_heap = Some (Return r, S) \<and> 20 \<le> m \<and> r \<noteq> 0 \<and> heap_rep 0 S {(r, m)}"
proof -
  have k: "request_size 20 = 20" by (simp add: request_size_def RT_ALIGN_def RT_ALIGN_SIZE_def Let_def)
  have "heap_fits 0 demo_heap 20" using heap_fits_mono [OF demo_heap_start(6), of 20] by simp
  then show ?thesis using memheap_alloc_rep [OF demo_heap_start(2), of 20] demo_heap_start(5) by (auto simp: k)
qed

text \<open>A heap of the same memory with a block of 40 bytes in use.\<close>

definition demo_used :: mstate where
  "demo_used = \<lparr>mkern = upd_sem 7 (\<lambda>x. x\<lparr>sem_value := 1\<rparr>) (demo (SuspendQ (OSem 0))),
     heaps = (\<lambda>_. \<lparr>start_addr = 0x1000, pool_size = 0x100, available_size = 144, max_used_size = 112, block_list = At 0x1000,
       free_list = FreeHeader 0, lock = 7\<rparr>),
     items = (\<lambda>p. if p = At 0x1000 then \<lparr>magic = 0x1ea01ea1, pool_ptr = 0, inext = At 0x1040, iprev = At 0x10E8, next_free = NullItem, prev_free = NullItem\<rparr>
       else if p = At 0x1040 then \<lparr>magic = 0x1ea01ea0, pool_ptr = 0, inext = At 0x10E8, iprev = At 0x1000, next_free = FreeHeader 0, prev_free = FreeHeader 0\<rparr>
       else if p = At 0x10E8 then \<lparr>magic = 0x1ea01ea1, pool_ptr = 0, inext = At 0x1000, iprev = At 0x1040, next_free = NullItem, prev_free = NullItem\<rparr>
       else \<lparr>magic = 0x1ea01ea0, pool_ptr = 0, inext = NullItem, iprev = NullItem, next_free = At 0x1040, prev_free = At 0x1040\<rparr>),
     mbytes = (\<lambda>x. ucast x)\<rparr>"

lemma demo_used_rep:
  "memheap_ok 0 (heaps demo_used 0) (items demo_used) [0x1000, 0x1040, 0x10E8]" "heap_rep 0 demo_used {(0x1018, 40)}"
  "is_free (items demo_used) 0x1040"
proof -
  let ?bs = "[0x1000, 0x1040, 0x10E8] :: rt_uint32 list"
  have F: "is_free (items demo_used) 0x1000 = False" "is_free (items demo_used) 0x1040 = True" "is_free (items demo_used) 0x10E8 = False"
    by (simp_all add: is_free_def RT_MEMHEAP_IS_USED_def demo_used_def)
  have b: "blocks_ok 0 (heaps demo_used 0) (items demo_used) ?bs"
    using F by (simp add: blocks_ok_def bring_def dlist_def) (simp add: demo_used_def)
  have "{y \<in> set ?bs. is_free (items demo_used) y} = {0x1040}" using F by auto
  then have "free_ok 0 (items demo_used) {y \<in> set ?bs. is_free (items demo_used) y} [0x1040]"
    by (simp add: free_ok_def dlist_def) (simp add: demo_used_def)
  moreover have "size_ok (heaps demo_used 0) (items demo_used) ?bs" using F by (simp add: size_ok_def gap_def demo_used_def)
  ultimately show ok: "memheap_ok 0 (heaps demo_used 0) (items demo_used) ?bs" using b F by (auto simp: memheap_ok_def)
  have "live (is_free (items demo_used)) ?bs = {(0x1018, 40)}" using F by (simp add: gap_def)
  moreover have "unlocked 0 demo_used" "60 \<le> unat (pool_size (heaps demo_used 0))" by (simp_all add: unlocked_def demo_used_def)
  ultimately show "heap_rep 0 demo_used {(0x1018, 40)}" using ok by (auto simp: heap_rep_def)
  show "is_free (items demo_used) 0x1040" using F by simp
qed

text \<open>
  C6. A memory heap that is initialised with an aligned memory of at least 60 bytes, and used by a client that allocates,
  changes the size of and releases blocks in any order, is consistent at every moment: the pointers the client owns are exactly the blocks in use,
  which do not overlap each other or the items between them and lie inside the memory. When the client has released everything,
  the heap is one free block of all the memory again, so nothing is lost and no fragment is left.
\<close>

theorem heap_clients_safe:
  assumes init: "rt_memheap_init h nm addr sz S1 = Some (e, S0)" and addr: "4 dvd unat addr" "0 < unat addr"
    and sz: "60 \<le> unat (RT_ALIGN_DOWN sz RT_ALIGN_SIZE)" "unat addr + unat sz \<le> 2 ^ 32"
    and run: "heap_client (rt_memheap_alloc h) (rt_memheap_realloc h) rt_memheap_free realloc_valid S0 S P"
  shows "\<exists>L. heap_rep h S L \<and> fst ` L = P \<and> apart L
    \<and> (\<forall>(p, n)\<in>L. 12 \<le> n \<and> 4 dvd unat p \<and> unat addr + 24 \<le> unat p
        \<and> unat p + n + 24 \<le> unat addr + unat (RT_ALIGN_DOWN sz RT_ALIGN_SIZE))
    \<and> (P = {} \<longrightarrow> available_size (heaps S h) = RT_ALIGN_DOWN sz RT_ALIGN_SIZE - 48
        \<and> heap_fits h S (unat (RT_ALIGN_DOWN sz RT_ALIGN_SIZE) - 48))"
proof -
  have S0: "heap_rep h S0 {}" "start_addr (heaps S0 h) = addr" "pool_size (heaps S0 h) = RT_ALIGN_DOWN sz RT_ALIGN_SIZE"
    using memheap_init_rep [OF addr sz, of h nm S1] init by auto
  obtain L where L: "heap_rep h S L" "heap_area h S = heap_area h S0" "fst ` L = P"
    using memheap.client_blocks [OF run, of "heap_area h S0"] S0(1) by auto
  note x = area_same [OF S0(1) L(1,2), unfolded S0]
  have "\<forall>(p, n)\<in>L. 12 \<le> n \<and> 4 dvd unat p \<and> unat addr + 24 \<le> unat p \<and> unat p + n + 24 \<le> unat addr + unat (RT_ALIGN_DOWN sz RT_ALIGN_SIZE)"
    using rep_blocks [OF L(1), unfolded x] by blast
  moreover have "available_size (heaps S h) = RT_ALIGN_DOWN sz RT_ALIGN_SIZE - 48
      \<and> heap_fits h S (unat (RT_ALIGN_DOWN sz RT_ALIGN_SIZE) - 48)" if "P = {}"
    using rep_empty [of h S, unfolded x] L(1,3) that by auto
  ultimately show ?thesis using L(1,3) rep_apart [OF L(1)] by blast
qed

theorem heap_clients_safe_witness:
  "\<exists>r S L. r \<noteq> 0 \<and> heap_client (rt_memheap_alloc 0) (rt_memheap_realloc 0) rt_memheap_free realloc_valid demo_heap S {r}
     \<and> heap_rep 0 S L \<and> fst ` L = {r} \<and> apart L"
proof -
  obtain r m S where r: "rt_memheap_alloc 0 20 demo_heap = Some (Return r, S)" "r \<noteq> 0" using demo_heap_block by blast
  then have c: "heap_client (rt_memheap_alloc 0) (rt_memheap_realloc 0) rt_memheap_free realloc_valid demo_heap S {r}"
    by (rule heap_client.alloc_some [OF heap_client.start])
  have sz: "RT_ALIGN_DOWN 0x100 RT_ALIGN_SIZE = 0x100" by (simp add: RT_ALIGN_DOWN_def RT_ALIGN_SIZE_def)
  have "\<exists>L. heap_rep 0 S L \<and> fst ` L = {r} \<and> apart L"
    using heap_clients_safe [OF demo_heap_start(1) _ _ _ _ c] by (auto simp: sz)
  with r(2) c show ?thesis by blast
qed

text \<open>
  C25. An allocation returns without waiting when nobody else holds the lock. It succeeds exactly when the request, rounded up to the alignment and
  at least 12, is less than the available size and fits into a free block; then a new block of at least that size is in use and all
  others stay. Otherwise the result is the null pointer and nothing has changed.
\<close>

theorem heap_alloc_behaviour:
  assumes "heap_rep h S L"
  shows "\<exists>r S'. rt_memheap_alloc h n S = Some (Return r, S') \<and> frame h (heap_area h S) S S'
    \<and> (if request_size n < available_size (heaps S h) \<and> heap_fits h S (unat (request_size n))
        then \<exists>m. unat (request_size n) \<le> m \<and> r \<noteq> 0 \<and> (r, m) \<notin> L \<and> heap_rep h S' (insert (r, m) L) \<and> apart (insert (r, m) L)
        else r = 0 \<and> S' = S)"
proof -
  obtain r S' where "rt_memheap_alloc h n S = Some (Return r, S')" "frame h (heap_area h S) S S'"
    "if request_size n < available_size (heaps S h) \<and> heap_fits h S (unat (request_size n))
     then \<exists>m. unat (request_size n) \<le> m \<and> r \<noteq> 0 \<and> (r, m) \<notin> L \<and> heap_rep h S' (insert (r, m) L) else r = 0 \<and> S' = S"
    using memheap_alloc_rep [OF assms, of n] by blast
  then show ?thesis using rep_apart [of h S'] by (intro exI [of _ r] exI [of _ S']) (auto split: if_splits)
qed

theorem heap_alloc_behaviour_witness:
  "\<exists>r S' m. rt_memheap_alloc 0 20 demo_heap = Some (Return r, S') \<and> r \<noteq> 0 \<and> 20 \<le> m \<and> heap_rep 0 S' {(r, m)}
     \<and> rt_memheap_alloc 0 300 demo_heap = Some (Return 0, demo_heap)"
proof -
  have k: "request_size 20 = 20" "request_size 300 = 300" by (simp_all add: request_size_def RT_ALIGN_def RT_ALIGN_SIZE_def Let_def)
  have "heap_fits 0 demo_heap 20" using heap_fits_mono [OF demo_heap_start(6), of 20] by simp
  then show ?thesis
    using heap_alloc_behaviour [OF demo_heap_start(2), of 20] heap_alloc_behaviour [OF demo_heap_start(2), of 300] demo_heap_start(5)
    by (auto simp: k)
qed

text \<open>
  C26. The release of a block in use returns, and the block is no longer in use while all others are. A second release of the
  same block right after it stops at the assertion that the block is in use.
\<close>

theorem heap_free_behaviour:
  assumes "heap_rep h S L" and "(ptr, n) \<in> L"
  shows "\<exists>S'. rt_memheap_free ptr S = Some (Return (), S') \<and> frame h (heap_area h S) S S' \<and> heap_rep h S' (L - {(ptr, n)})
    \<and> rt_memheap_free ptr S' = None"
  using memheap_free_rep [OF assms] double_free_caught rep_blocks(2) [OF assms] by blast

theorem heap_free_behaviour_witness:
  "\<exists>r S S'. rt_memheap_alloc 0 20 demo_heap = Some (Return r, S) \<and> rt_memheap_free r S = Some (Return (), S') \<and> heap_rep 0 S' {}
     \<and> rt_memheap_free r S' = None"
proof -
  obtain r m S where r: "rt_memheap_alloc 0 20 demo_heap = Some (Return r, S)" "heap_rep 0 S {(r, m)}" using demo_heap_block by blast
  with heap_free_behaviour [OF r(2), of r m] show ?thesis by auto
qed

text \<open>
  C27. A change of the size of a block in use, for sizes for which the sums in the code do not wrap, either fails and changes nothing, or gives a block of at
  least the size asked for with the contents of the old one up to the smaller size. The blocks in use are those before with the old one
  replaced, and the contents of all others are as before.
\<close>

theorem heap_realloc_keeps_contents:
  assumes "heap_rep h S L" and "(ptr, n) \<in> L" and "newsize \<noteq> 0" and "unat (request_size newsize) + 12 < 2 ^ 32"
  shows "\<exists>r S'. rt_memheap_realloc h ptr newsize S = Some (Return r, S')
    \<and> (if r = 0 then S' = S
       else (\<exists>m. unat (request_size newsize) \<le> m \<and> heap_rep h S' (insert (r, m) (L - {(ptr, n)})))
         \<and> block_bytes S' r (min n (unat (request_size newsize))) = block_bytes S ptr (min n (unat (request_size newsize)))
         \<and> (\<forall>(q, j)\<in>L - {(ptr, n)}. block_bytes S' q j = block_bytes S q j))"
  using memheap_realloc_rep [OF assms] unfolding resized_def by (elim exE conjE) (rule exI, rule exI, auto split: if_splits)

theorem heap_realloc_keeps_contents_witness:
  "\<exists>r S'. rt_memheap_realloc 0 0x1018 100 demo_used = Some (Return r, S')
     \<and> (r = 0 \<and> S' = demo_used \<or> (\<exists>m\<ge>100. heap_rep 0 S' {(r, m)}) \<and> block_bytes S' r 40 = block_bytes demo_used 0x1018 40)"
proof -
  have k: "request_size 100 = 100" by (simp add: request_size_def RT_ALIGN_def RT_ALIGN_SIZE_def Let_def)
  from heap_realloc_keeps_contents [OF demo_used_rep(2), of "0x1018" 40 100] show ?thesis by (auto simp: k split: if_splits)
qed

text \<open>
  Heaps do not disturb each other: when the memory of two heaps is disjoint, allocating from, changing and releasing blocks of one
  leaves the blocks in use of the other as they are.
\<close>

theorem heaps_independent:
  assumes h: "heap_rep h S L" and k: "heap_rep k S K" and ne: "k \<noteq> h" and dis: "heap_area h S \<inter> heap_area k S = {}"
  shows "(\<forall>n r S'. rt_memheap_alloc h n S = Some (Return r, S') \<longrightarrow> heap_rep k S' K)
    \<and> (\<forall>p m u S'. (p, m) \<in> L \<longrightarrow> rt_memheap_free p S = Some (u, S') \<longrightarrow> heap_rep k S' K)
    \<and> (\<forall>p m n u S'. (p, m) \<in> L \<longrightarrow> realloc_valid n \<longrightarrow> rt_memheap_realloc h p n S = Some (u, S') \<longrightarrow> heap_rep k S' K)"
proof (intro conjI allI impI)
  note other = rep_other [OF k ne _ dis]
  show "heap_rep k S' K" if "rt_memheap_alloc h n S = Some (Return r, S')" for n r S'
    using memheap_alloc_rep [OF h, of n] that other by (metis option.inject prod.inject)
  show "heap_rep k S' K" if "(p, m) \<in> L" "rt_memheap_free p S = Some (u, S')" for p m u S'
    using memheap_free_rep [OF h that(1)] that(2) other by auto
  show "heap_rep k S' K" if "(p, m) \<in> L" "realloc_valid n" "rt_memheap_realloc h p n S = Some (u, S')" for p m n u S'
  proof -
    have "S' = S \<or> frame h (heap_area h S) S (S'\<lparr>mbytes := mbytes S\<rparr>)"
      using memheap_realloc_rep [OF h that(1), of n] that(2,3) by (auto simp: realloc_valid_def resized_def split: if_splits)
    then show ?thesis using k other [of "S'\<lparr>mbytes := mbytes S\<rparr>"] by auto
  qed
qed

text \<open>A second heap that is initialised behind the first one.\<close>

definition demo_heap2 :: mstate where
  "demo_heap2 = snd (the (rt_memheap_init 1 [105] 0x2000 0x100 (demo_used\<lparr>heaps := (heaps demo_used)(1 := (heaps demo_used 1)\<lparr>lock := 8\<rparr>)\<rparr>)))"

lemma demo_heap2_rep: "heap_rep 0 demo_heap2 {(0x1018, 40)}" "heap_rep 1 demo_heap2 {}" "heap_area 1 demo_heap2 \<inter> heap_area 0 demo_heap2 = {}"
proof -
  let ?S = "demo_used\<lparr>heaps := (heaps demo_used)(1 := (heaps demo_used 1)\<lparr>lock := 8\<rparr>)\<rparr>"
  have sz: "RT_ALIGN_DOWN 0x100 RT_ALIGN_SIZE = 0x100" by (simp add: RT_ALIGN_DOWN_def RT_ALIGN_SIZE_def)
  have rep: "heap_rep 0 ?S {(0x1018, 40)}" using demo_used_rep(2) by (simp add: heap_rep_def unlocked_def)
  have lk: "lock (heaps ?S 1) = 8" "lock (heaps ?S 0) = 7" "heap_area 0 ?S = {a. 0x1000 \<le> unat a \<and> unat a + 24 \<le> 0x1100}"
    by (simp_all add: heap_area_def demo_used_def)
  obtain S where S: "rt_memheap_init 1 [105] 0x2000 0x100 ?S = Some (0, S)" "heap_rep 1 S {}" "start_addr (heaps S 1) = 0x2000"
    "pool_size (heaps S 1) = 0x100" "\<forall>k. k \<noteq> 1 \<longrightarrow> heaps S k = heaps ?S k"
    "\<forall>l. l \<noteq> 8 \<longrightarrow> sems (mkern S) l = sems (mkern ?S) l
      \<and> lst (tlists (mkern S)) (SuspendQ (OSem l)) = lst (tlists (mkern ?S)) (SuspendQ (OSem l))"
    "only 1 {a. 0x2000 \<le> unat a \<and> unat a + 24 \<le> 0x2100} (items ?S) (items S)"
    using memheap_init_rep [of "0x2000" "0x100" 1 "[105]" ?S] unfolding sz lk by auto
  have d: "demo_heap2 = S" using S(1) by (simp add: demo_heap2_def)
  have x: "heaps S 0 = heaps ?S 0" using S(5) by simp
  have u: "unlocked 0 S" using rep x S(6) lk by (simp add: heap_rep_def unlocked_def)
  show "heap_rep 0 demo_heap2 {(0x1018, 40)}"
    unfolding d by (rule rep_other_items [OF rep _ x u S(7)]) (simp, unfold lk(3), auto)
  show "heap_rep 1 demo_heap2 {}" using S(2) d by simp
  have "heap_area 0 S = heap_area 0 ?S" using x by (simp add: heap_area_def)
  then show "heap_area 1 demo_heap2 \<inter> heap_area 0 demo_heap2 = {}"
    unfolding d lk using S(3,4) by (auto simp: heap_area_def)
qed

theorem heaps_independent_witness:
  "\<exists>r S'. rt_memheap_alloc 1 20 demo_heap2 = Some (Return r, S') \<and> heap_rep 0 S' {(0x1018, 40)}"
proof -
  obtain r S' where a: "rt_memheap_alloc 1 20 demo_heap2 = Some (Return r, S')" using memheap_alloc_rep [OF demo_heap2_rep(2), of 20] by blast
  have "heap_rep 0 S' {(0x1018, 40)}"
    using heaps_independent [OF demo_heap2_rep(2,1) _ demo_heap2_rep(3), THEN conjunct1, rule_format, OF _ a] by simp
  with a show ?thesis by blast
qed

text \<open>
  C37. Sizes close to the end of the address space are not refused. A request of more than 0xFFFFFFFC bytes wraps to 0 in the
  alignment and is raised to the least size, 12: when 12 bytes fit, the call succeeds, and the new block has at least 12 bytes and less than 48 (the whole
  free block, when the rest is too small to be split off). A block grows to any size from 0xFFFFFFF1 to 0xFFFFFFFC when the block behind it is
  free, because the sum in the test wraps: the call reports success, and the new item of the free block is written over the item of the block itself.
\<close>

theorem heap_sizes_wrap:
  assumes rep: "heap_rep h S L"
  shows "(2 ^ 32 - 4 < unat n \<longrightarrow> 12 < available_size (heaps S h) \<longrightarrow> heap_fits h S 12 \<longrightarrow>
        (\<exists>r S' m. rt_memheap_alloc h n S = Some (Return r, S') \<and> r \<noteq> 0 \<and> 12 \<le> m \<and> m < 48 \<and> (r, m) \<notin> L \<and> heap_rep h S' (insert (r, m) L)))
    \<and> (\<forall>ptr k xs a b c zs. (ptr, k) \<in> L \<longrightarrow> memheap_ok h (heaps S h) (items S) (xs @ a # b # c # zs) \<longrightarrow> ptr = a + 24 \<longrightarrow>
        is_free (items S) b \<longrightarrow> n \<noteq> 0 \<longrightarrow> 2 ^ 32 \<le> unat (request_size n) + 12 \<longrightarrow>
        (\<exists>S'. rt_memheap_realloc h ptr n S = Some (Return ptr, S') \<and> magic (items S' (At (ptr + request_size n))) = RT_MEMHEAP_MAGIC
          \<and> unat a < unat (ptr + request_size n) \<and> unat (ptr + request_size n) < unat a + 24))"
proof (intro conjI allI impI)
  assume n: "2 ^ 32 - 4 < unat n" "12 < available_size (heaps S h)" "heap_fits h S 12"
  show "\<exists>r S' m. rt_memheap_alloc h n S = Some (Return r, S') \<and> r \<noteq> 0 \<and> 12 \<le> m \<and> m < 48 \<and> (r, m) \<notin> L \<and> heap_rep h S' (insert (r, m) L)"
    using memheap_alloc_bounded [OF rep, of n] n request_wraps [OF n(1)] by auto
qed (rule realloc_wraps [OF rep])

theorem heap_sizes_wrap_witness:
  "(\<exists>r S' m. rt_memheap_alloc 0 0xFFFFFFFE demo_heap = Some (Return r, S') \<and> r \<noteq> 0 \<and> 12 \<le> m \<and> m < 48 \<and> heap_rep 0 S' {(r, m)})
   \<and> (\<exists>S'. rt_memheap_realloc 0 0x1018 0xFFFFFFF8 demo_used = Some (Return 0x1018, S')
        \<and> magic (items S' (At 0x1010)) = RT_MEMHEAP_MAGIC)"
proof -
  have k: "request_size 0xFFFFFFF8 = 0xFFFFFFF8" by (simp add: request_size_def RT_ALIGN_def RT_ALIGN_SIZE_def Let_def)
  have "heap_fits 0 demo_heap 12" using heap_fits_mono [OF demo_heap_start(6), of 12] by simp
  then have "\<exists>r S' m. rt_memheap_alloc 0 0xFFFFFFFE demo_heap = Some (Return r, S') \<and> r \<noteq> 0 \<and> 12 \<le> m \<and> m < 48 \<and> heap_rep 0 S' {(r, m)}"
    using heap_sizes_wrap [OF demo_heap_start(2), of "0xFFFFFFFE"] demo_heap_start(5) by simp
  moreover have "\<exists>S'. rt_memheap_realloc 0 0x1018 0xFFFFFFF8 demo_used = Some (Return 0x1018, S')
      \<and> magic (items S' (At 0x1010)) = RT_MEMHEAP_MAGIC"
  proof -
    have p: "(0x1018, 40) \<in> {(0x1018 :: rt_uint32, 40 :: nat)}" and n: "2 ^ 32 \<le> unat (request_size 0xFFFFFFF8) + 12" by (simp_all add: k)
    have ok: "memheap_ok 0 (heaps demo_used 0) (items demo_used) ([] @ 0x1000 # 0x1040 # 0x10E8 # [])" using demo_used_rep(1) by simp
    have a: "(0x1018 :: rt_uint32) = 0x1000 + 24" "(0xFFFFFFF8 :: rt_uint32) \<noteq> 0" by simp_all
    have e: "(0x1018 :: rt_uint32) + 0xFFFFFFF8 = 0x1010" by simp
    from heap_sizes_wrap [OF demo_used_rep(2), of "0xFFFFFFF8", THEN conjunct2, rule_format, OF p ok a(1) demo_used_rep(3) a(2) n, unfolded k e]
    show ?thesis by blast
  qed
  ultimately show ?thesis by simp
qed

section \<open>Paths, mount points and descriptors\<close>

text \<open>
  C32. \<^verbatim>\<open>dfs_normalize_path\<close> rewrites a path in place to the one its names stand for: empty names and single dots vanish, two dots take the name before
  away, and the result is the root or the names that are left, each behind a separator. A path that is the result of a call is its own result. This holds for
  every absolute path, and for every relative one behind an absolute directory, that does not lead above the root.
\<close>

theorem path_normalised:
  assumes "full_path wd dir filename = CHR ''/'' # t" and "CHR 0x00 \<notin> set t" and "reduce [] (components (CHR ''/'' # t)) = Some ns"
  shows "dfs_normalize_path True wd dir filename = Some (Some (render ns)) \<and> (\<forall>c\<in>set ns. is_name c)
    \<and> dfs_normalize_path True wd dir (render ns) = Some (Some (render ns))"
  using normalize_ok [OF assms] normalize_again [OF assms(3)] by blast

theorem path_normalised_witness:
  "dfs_normalize_path True ''/sd//a'' None ''./../b/'' = Some (Some ''/sd/b'')"
proof -
  have c: "components ''/sd//a/./../b/'' = [''sd'', ''a'', ''.'', ''..'', ''b'']"
    by (simp add: components.simps)
  show ?thesis
    using path_normalised [of "''/sd//a''" None "''./../b/''" "''sd//a/./../b/''" "[''sd'', ''b'']"]
    unfolding c by (simp add: full_path_def render_def)
qed

text \<open>
  A path that leads above the root is not refused: a name behind it gives a path that is no longer absolute, and the parent of the root alone
  makes the code read the byte in front of the string.
\<close>

theorem path_above_root:
  assumes "is_name w" and "w \<noteq> ''.''" and "w \<noteq> ''..''"
  shows "dfs_normalize_path True wd dir (''/../'' @ w) = Some (Some w) \<and> dfs_normalize_path True wd dir ''/..'' = None"
  using normalize_above_root [OF assms] normalize_root_parent by blast

theorem path_above_root_witness:
  "dfs_normalize_path True ''/'' None ''/../etc'' = Some (Some ''etc'') \<and> dfs_normalize_path True ''/'' None ''/..'' = None"
  using path_above_root [of "''etc''" "''/''" None] by (simp add: is_name_def)

text \<open>A file system with the root, a card below it and a directory of the card mounted.\<close>

definition demo_fs :: dfs where
  "demo_fs = \<lparr>dfs_kern = demo (SuspendQ (OSem 0)), filesystem_operation_table = [Some 0, None, None, None],
     filesystem_table = map (\<lambda>m. fs_zero\<lparr>fs_path := Some m, fs_ops := Some 0\<rparr>) [''/sd/rom'', ''/'', ''/sd''] @ [fs_zero],
     fd_table = replicate 4 fd_zero, working_directory = ''/'', ops_name = (\<lambda>_. ''elm''), fslock = 3\<rparr>"

lemma demo_fs_ready: "fs_ready 0 2 demo_fs"
  using demo_inv(1) [of "SuspendQ (OSem 0)"] by (simp add: fs_ready_def demo_fs_def mutex_ok_def)

lemma demo_fs_mounts:
  "mounts_ok demo_fs" "mounted demo_fs i ns \<Longrightarrow> prefix ns [''sd'', ''x''] \<Longrightarrow> i = 1 \<or> i = 2" "mounted demo_fs 2 [''sd'']"
proof -
  have m: "render [''sd'', ''rom''] = ''/sd/rom''" "render [] = ''/''" "render [''sd''] = ''/sd''" by (simp_all add: render_def)
  have n: "is_name ''sd''" "is_name ''rom''" by (simp_all add: is_name_def)
  show "mounts_ok demo_fs"
    unfolding mounts_ok_def using m n by (auto simp: demo_fs_def mount_point_def fs_zero_def intro: exI [of _ "[''sd'', ''rom'']"] exI [of _ "[]"] exI [of _ "[''sd'']"])
  show "mounted demo_fs 2 [''sd'']" using m n by (simp add: mounted_def demo_fs_def mount_point_def)
  show "mounted demo_fs i ns \<Longrightarrow> prefix ns [''sd'', ''x''] \<Longrightarrow> i = 1 \<or> i = 2"
    by (auto simp: mounted_def demo_fs_def mount_point_def fs_zero_def render_def less_Suc_eq nth_Cons' prefix_Cons split: if_splits)
qed

text \<open>
  C33. \<^verbatim>\<open>dfs_filesystem_lookup\<close> finds the file system a path belongs to. With mount points and path normalised, as lists of names, the result is the
  deepest mount point that is a prefix of the path, and the null pointer only when no mount point is one. The caller gets through when nobody else holds the lock.
\<close>

theorem mount_lookup_deepest:
  assumes "fs_ready base t D" and "mounts_ok D" and "\<forall>c\<in>set q. is_name c"
  shows "\<exists>r D'. dfs_filesystem_lookup (render q) D = Some (Return r, D') \<and> fs_ready base t D' \<and> filesystem_table D' = filesystem_table D
    \<and> (case r of None \<Rightarrow> \<forall>i ns. mounted D i ns \<longrightarrow> \<not> prefix ns q
       | Some i \<Rightarrow> \<exists>ns. mounted D i ns \<and> prefix ns q \<and> (\<forall>j ns'. mounted D j ns' \<longrightarrow> prefix ns' q \<longrightarrow> prefix ns' ns))"
  by (rule lookup_call [OF assms])

theorem mount_lookup_deepest_witness:
  "\<exists>D'. dfs_filesystem_lookup ''/sd/x'' demo_fs = Some (Return (Some 2), D')"
proof -
  have q: "\<forall>c\<in>set [''sd'', ''x'']. is_name c" "render [''sd'', ''x''] = ''/sd/x''" by (simp_all add: is_name_def render_def)
  obtain r D' where r: "dfs_filesystem_lookup ''/sd/x'' demo_fs = Some (Return r, D')"
    "case r of None \<Rightarrow> \<forall>i ns. mounted demo_fs i ns \<longrightarrow> \<not> prefix ns [''sd'', ''x'']
       | Some i \<Rightarrow> \<exists>ns. mounted demo_fs i ns \<and> prefix ns [''sd'', ''x'']
           \<and> (\<forall>j ns'. mounted demo_fs j ns' \<longrightarrow> prefix ns' [''sd'', ''x''] \<longrightarrow> prefix ns' ns)"
    using mount_lookup_deepest [OF demo_fs_ready demo_fs_mounts(1) q(1)] unfolding q(2) by blast
  have sd: "prefix [''sd''] [''sd'', ''x'']" by simp
  then obtain i ns where i: "r = Some i" "mounted demo_fs i ns" "prefix ns [''sd'', ''x'']" "prefix [''sd''] ns"
    using r(2) demo_fs_mounts(3) by (cases r) (simp_all only: option.case, blast+)
  have "i \<noteq> 1" using i(2,4) by (auto simp: mounted_def demo_fs_def mount_point_def render_def prefix_def)
  then show ?thesis using demo_fs_mounts(2) [OF i(2,3)] r(1) i(1) by auto
qed

text \<open>
  C34. The table of file descriptors implements counted handles. \<^verbatim>\<open>fd_new\<close> takes the lowest descriptor that is not in use, with one user, or returns
  -1 when all are in use; \<^verbatim>\<open>fd_get\<close> adds a user, and returns the null pointer for a number that is not a descriptor in use; \<^verbatim>\<open>fd_put\<close> takes
  a user away, and with the last one the descriptor. All keep the invariant of the table and return when the lock is free.
\<close>

theorem descriptors_counted:
  assumes "fs_ready base t D" and "fd_inv D" and "\<And>n. fd_users D i = Some n \<Longrightarrow> n < 2 ^ 31 - 1"
  shows "(\<exists>r D'. fd_new D = Some (Return r, D') \<and> fs_ready base t D' \<and> fd_inv D'
        \<and> (if \<forall>i<4. fd_users D i \<noteq> None then r = - 1 \<and> fd_table D' = fd_table D
           else \<exists>i. r = int i \<and> i < 4 \<and> fd_users D i = None \<and> (\<forall>j<i. fd_users D j \<noteq> None) \<and> fd_users D' = (fd_users D)(i \<mapsto> 1)))
    \<and> (\<exists>D'. fd_get (int i) D = Some (Return (if i < 4 \<and> fd_users D i \<noteq> None then Some i else None), D') \<and> fs_ready base t D' \<and> fd_inv D'
        \<and> fd_users D' = (case fd_users D i of None \<Rightarrow> fd_users D | Some n \<Rightarrow> (fd_users D)(i \<mapsto> n + 1)))
    \<and> (\<forall>n. fd_users D i = Some n \<longrightarrow> (\<exists>D'. fd_put i D = Some (Return (), D') \<and> fs_ready base t D' \<and> fd_inv D'
        \<and> fd_users D' = (fd_users D)(i := if n = 1 then None else Some (n - 1))))"
  using fd_new_call [OF assms(1,2), unfolded fd_new_ok_def] fd_get_call [OF assms] fd_put_call [OF assms(1,2)] by blast

theorem descriptors_counted_witness:
  "\<exists>D'. fd_new demo_fs = Some (Return 0, D') \<and> fd_users D' = [0 \<mapsto> 1]"
proof -
  have e: "fd_users demo_fs = Map.empty" by (simp add: fd_users_def demo_fs_def fd_zero_def fun_eq_iff)
  have "fd_inv demo_fs" by (simp add: fd_inv_def demo_fs_def fd_zero_def)
  from descriptors_counted [OF demo_fs_ready this, of 0, THEN conjunct1] show ?thesis
    unfolding e by (fastforce split: if_splits)
qed

section \<open>Data queues of the drivers\<close>

text \<open>
  C35. Items pushed to a data queue are popped in order, as long as the 16 bit index of the writer does not wrap, for every number of items that fits, and the
  queue is consistent at the end. The application is told of the events and leaves queues and kernel alone.
\<close>

theorem data_queue_fifo:
  assumes "harmless notify" and "dq_ok base q S" and "dq_contents (dqueues S q) = []" and "length vs \<le> unat (dq_size (dqueues S q))"
    and "unat (put_index (dqueues S q)) + length vs < 2 ^ 16"
  shows "\<exists>S1 S2. send_each (dq_send notify q) vs S = Some S1 \<and> recv_each (dq_recv notify q) (length vs) S1 = Some (vs, S2)
    \<and> dq_ok base q S2 \<and> dq_contents (dqueues S2 q) = []"
  using dq_send_each [OF assms(1,2), of vs] dq_recv_each [OF assms(1), of base q _ vs "[]"] assms(3-) by fastforce

definition demo_data :: "rt_uint16 \<Rightarrow> rt_uint16 \<Rightarrow> dstate" where
  "demo_data g p = \<lparr>dkern = demo (SuspendQ (OSem 0)), dqueues = (\<lambda>_. \<lparr>dq_size = 2, lwm = 1, get_index = g, put_index = p,
     dq_queue = [(0x100, 1), (0x200, 2)], evt_notify = False\<rparr>), completions = (\<lambda>_. 0)\<rparr>"

theorem data_queue_fifo_witness:
  "\<exists>S1 S2. send_each (dq_send (\<lambda>_ _ S. S) 0) [(0x300, 3), (0x400, 4)] (demo_data 5 5) = Some S1
    \<and> recv_each (dq_recv (\<lambda>_ _ S. S) 0) (length [0x300 :: rt_uint32, 0x400]) S1 = Some ([(0x300, 3), (0x400, 4)], S2)"
proof -
  let ?vs = "[(0x300, 3), (0x400, 4)] :: rt_data_item list"
  have h: "harmless (\<lambda>_ _ S. S)" by (simp add: harmless_def)
  have d: "dq_ok 0 0 (demo_data 5 5)" "dq_contents (dqueues (demo_data 5 5) 0) = []"
    using demo_inv(1) [of "SuspendQ (OSem 0)"] by (simp_all add: dq_ok_def demo_data_def dq_wf_def dq_contents_def)
  have l: "length ?vs \<le> unat (dq_size (dqueues (demo_data 5 5) 0))" "unat (put_index (dqueues (demo_data 5 5) 0)) + length ?vs < 2 ^ 16"
    by (simp_all add: demo_data_def)
  have n: "length ?vs = length [0x300 :: rt_uint32, 0x400]" by simp
  show ?thesis using data_queue_fifo [OF h d l] unfolding n by blast
qed

text \<open>
  C36. The indices of a data queue count modulo \<open>2 ^ 16\<close>, but the code compares their difference with the size as an integer. When the index of the writer has
  wrapped, that of the reader has not, and the writer is ahead by as many items as the queue has slots, the queue is full and the difference is negative: a push without waiting
  reports success and writes its item over the slot of the index of the writer. When that index is 0 the slot belongs to one of the items that were not read, for every
  size; and when the size divides \<open>2 ^ 16\<close>, it belongs to the oldest one: the reader finds the new item in its place.
\<close>

theorem data_queue_wraps:
  assumes "0 < unat (dq_size (dqueues S q))" and "length (dq_queue (dqueues S q)) = unat (dq_size (dqueues S q))"
    and "unat (put_index (dqueues S q)) + 2 ^ 16 = unat (get_index (dqueues S q)) + unat (dq_size (dqueues S q))"
    and "lst (tlists (dkern S)) (SuspendQ (ODataQueue q)) = []" and "\<not> evt_notify (dqueues S q)"
  shows "(\<exists>S'. rt_data_queue_push notify q v 0 S = Some (Return 0, S')
      \<and> dqueues S' q = (dqueues S q)\<lparr>dq_queue := (dq_queue (dqueues S q))[unat (put_index (dqueues S q)) := v],
          put_index := put_index (dqueues S q) + 1\<rparr>
      \<and> (unat (dq_size (dqueues S q)) dvd 2 ^ 16 \<longrightarrow> rt_data_queue_peak q S' = Some (0, Some v)))
    \<and> (put_index (dqueues S q) = 0 \<longrightarrow>
      (\<exists>i<unat (dq_size (dqueues S q)). dq_slot (get_index (dqueues S q) + of_nat i) (dqueues S q) = Some 0))"
proof (rule conjI [OF push_wrapped [OF assms]], rule impI)
  assume "put_index (dqueues S q) = 0"
  with unread_overwritten [OF assms(1,2) this] assms(3)
  show "\<exists>i<unat (dq_size (dqueues S q)). dq_slot (get_index (dqueues S q) + of_nat i) (dqueues S q) = Some 0" by simp
qed

theorem data_queue_wraps_witness:
  "\<exists>S'. rt_data_queue_push (\<lambda>_ _ S. S) 0 (0x300, 3) 0 (demo_data 0xFFFF 1) = Some (Return 0, S') \<and> rt_data_queue_peak 0 S' = Some (0, Some (0x300, 3))"
proof -
  let ?S = "demo_data 0xFFFF 1"
  have "(2 :: nat) dvd 2 ^ 16" by simp
  moreover have "unat (dq_size (dqueues ?S 0)) = 2" by (simp add: demo_data_def)
  moreover have "0 < unat (dq_size (dqueues ?S 0))" "length (dq_queue (dqueues ?S 0)) = unat (dq_size (dqueues ?S 0))"
    "unat (put_index (dqueues ?S 0)) + 2 ^ 16 = unat (get_index (dqueues ?S 0)) + unat (dq_size (dqueues ?S 0))"
    "lst (tlists (dkern ?S)) (SuspendQ (ODataQueue 0)) = []" "\<not> evt_notify (dqueues ?S 0)"
    by (simp_all add: demo_data_def demo_lst_def)
  ultimately show ?thesis using data_queue_wraps [of ?S 0 "\<lambda>_ _ S. S" "(0x300, 3)"] by auto
qed

section \<open>The shell\<close>

text \<open>
  C9. The code of the shell computes what the line says. For a line of well typed expressions whose code fits into the text and whose values fit on the
  stack, the compiler reports no error, and the virtual machine ends with the memory as the expressions leave it, evaluated one after the other, and the value of
  the last one at the bottom of the stack, in the bytes of its type. It uses the stack from the bottom up and leaves one cell in use.
\<close>

theorem shell_computes:
  assumes "\<forall>e\<in>set es. well_typed F e \<and> depth e \<le> FINSH_STACK_MAX" and "length (line_code F es) \<le> FINSH_TEXT_MAX"
    and "eval_line F P es (vmem s) = Some (v, m)"
  shows "\<exists>seg s1 s2. finsh_compiler_run F (trees_of es) s = Some (seg, [], s1) \<and> finsh_vm_run P seg s1 = Some s2
    \<and> take_bit (valid F (last es)) (finsh_stack_bottom s2) = v \<and> finsh_sp s2 = 1 \<and> vmem s2 = m"
  by (rule line_correct [OF assms])

text \<open>A shell with an integer and a character variable, and a function that adds one to its argument.\<close>

definition demo_shell :: finsh where
  "demo_shell = \<lparr>global_variable = [\<lparr>var_name = ''a'', var_type = finsh_type_int\<rparr>, \<lparr>var_name = ''c'', var_type = finsh_type_char\<rparr>] @ replicate 6 var_zero,
     var_value = (\<lambda>i. 0x1000 + 4 * of_nat i), sysvar_table = [], global_sysvar_list = [], syscall_table = [\<lparr>sc_name = ''inc'', sc_func = 0x4000\<rparr>],
     global_syscall_list = []\<rparr>"

definition demo_platform :: platform where
  "demo_platform = \<lparr>access = (\<lambda>w a. 0x1000 \<le> a \<and> a < 0x2000), call_fn = (\<lambda>f vs m. if f = 0x4000 \<and> vs \<noteq> [] then Some (hd vs + 1, m) else None)\<rparr>"

definition demo_vm :: "rt_uint32 \<Rightarrow> finsh_vm" where
  "demo_vm x = \<lparr>finsh_pc = 0, finsh_sp = 0, finsh_vm_stack = (\<lambda>i. x), vmem = (\<lambda>a. 0)\<rparr>"

definition demo_inc :: finsh_syscall where
  "demo_inc = \<lparr>sc_name = ''inc'', sc_func = 0x4000\<rparr>"

theorem shell_computes_witness:
  "\<exists>seg s1 s2. finsh_compiler_run demo_shell (trees_of [AssignE (Local 0) (IntE 6), BinE Mul (VarE (Local 0)) (CallE demo_inc [IntE 6])]) (demo_vm 0) = Some (seg, [], s1)
    \<and> finsh_vm_run demo_platform seg s1 = Some s2 \<and> finsh_stack_bottom s2 = 42"
proof -
  let ?es = "[AssignE (Local 0) (IntE 6), BinE Mul (VarE (Local 0)) (CallE demo_inc [IntE 6])]"
  have t: "\<forall>e\<in>set ?es. well_typed demo_shell e \<and> depth e \<le> FINSH_STACK_MAX" by (simp add: demo_shell_def valid_def)
  have l: "length (line_code demo_shell ?es) \<le> FINSH_TEXT_MAX" by (simp add: Let_def)
  have e: "eval_line demo_shell demo_platform ?es (vmem (demo_vm 0)) = Some (42, mem_put Dword 0x1000 6 (\<lambda>a. 0))"
    by (simp add: demo_shell_def demo_platform_def demo_vm_def demo_inc_def low_def mem_get_put del: mem_get.simps mem_put.simps)
  have v: "valid demo_shell (last ?es) = 32" by (simp add: valid_def demo_shell_def)
  show ?thesis using shell_computes [OF t l e] unfolding v low_Dword by blast
qed

text \<open>
  C8. The parser inverts the printing of expressions: a line that is printed with a blank in front of each token, and a semicolon behind each statement, is parsed to the trees of its
  expressions, without an error. The expressions use no parentheses, their operators stand in the order of precedence with the left operand first, their names are found
  in the tables, and they need no more than the 16 nodes the shell has.
\<close>

theorem shell_parses:
  assumes "\<forall>e\<in>set es. shown F e" and "sum_list (map nodes es) \<le> FINSH_NODE_MAX"
  shows "\<exists>s. finsh_parser_run (line_text F es) (flushed F m H) = Some (trees_of es, s) \<and> global_errno s = 0
    \<and> node_count s = sum_list (map nodes es) \<and> shell_vars s = F \<and> parser_mem s = m \<and> parser_heap s = H"
proof -
  have f: "node_count (flushed F m H) = 0" "shell_vars (flushed F m H) = F" by (simp_all add: flushed_def)
  show ?thesis using parser_run_ok [OF assms f] by (auto simp: moved_def flushed_def)
qed

text \<open>A heap as it is after the start of the shell, and a line with a call and two operators with its text.\<close>

definition demo_strings :: finsh_heap where
  "demo_strings = \<lparr>fh_base = 0x2000, fh_length = (\<lambda>_. 0)(0 := 120), fh_next = (\<lambda>_. None), fh_free_list = Some 0, fh_allocate_list = None\<rparr>"

definition demo_line :: "expr list" where
  "demo_line = [AssignE (Local 0) (BinE Sub (IntE 0x10) (BinE Mul (IntE 2) (IntE 5))), BinE Mul (VarE (Local 0)) (CallE demo_inc [IntE 6])]"

lemma var_find_zeros: "nm \<noteq> [] \<Longrightarrow> var_find nm (replicate n var_zero) i = None"
  by (induction n arbitrary: i) (simp_all add: same_name_def var_zero_def)

lemma demo_names: "ref_shown demo_shell (Local 0)" "call_shown demo_shell demo_inc"
  by (simp_all add: call_shown_def demo_shell_def demo_inc_def is_id_name_def is_separator_def is_digit_def char_code_def token_match_name_def finsh_name_table_def
      finsh_var_lookup_def finsh_sysvar_lookup_def finsh_syscall_lookup_def same_name_def var_find_zeros)

lemma demo_line_shown: "\<forall>e\<in>set demo_line. shown demo_shell e" "sum_list (map nodes demo_line) \<le> FINSH_NODE_MAX"
  using demo_names by (simp_all add: demo_line_def)

lemma demo_line_text: "line_text demo_shell demo_line = '' a = 16 - 2 * 5 ; a * inc ( 6 ) ;''"
  by (simp add: line_text_def line_toks_def printed_def demo_line_def demo_shell_def demo_inc_def decimal.simps char_of_def bit_0)

theorem shell_parses_witness:
  "\<exists>s. finsh_parser_run '' a = 16 - 2 * 5 ; a * inc ( 6 ) ;'' (flushed demo_shell (\<lambda>_. 0) demo_strings) = Some (trees_of demo_line, s) \<and> global_errno s = 0"
  using shell_parses [OF demo_line_shown] unfolding demo_line_text by blast

text \<open>
  C7. From the text to the value: the shell runs a line that prints well typed expressions. It reports no error, the value it shows is that of the last expression, in
  the bytes of its type, the memory is as the expressions leave it, and the variables are those from before.
\<close>

theorem shell_line_runs:
  assumes "\<forall>e\<in>set es. shown F e \<and> well_typed F e \<and> depth e \<le> FINSH_STACK_MAX" and "sum_list (map nodes es) \<le> FINSH_NODE_MAX"
    and "length (line_code F es) \<le> FINSH_TEXT_MAX" and "eval_line F P es (vmem v) = Some (x, m)"
  shows "\<exists>r v'. finsh_run_line P (line_text F es) F H v = Some (Some r, F, H, v') \<and> take_bit (valid F (last es)) r = x \<and> vmem v' = m"
  by (rule run_line_ok [OF assms])

theorem shell_line_runs_witness:
  "\<exists>v'. finsh_run_line demo_platform '' a = 16 - 2 * 5 ; a * inc ( 6 ) ;'' demo_shell demo_strings (demo_vm 0) = Some (Some 42, demo_shell, demo_strings, v')"
proof -
  have t: "\<forall>e\<in>set demo_line. shown demo_shell e \<and> well_typed demo_shell e \<and> depth e \<le> FINSH_STACK_MAX"
    using demo_line_shown(1) by (simp add: demo_line_def demo_shell_def valid_def)
  have l: "length (line_code demo_shell demo_line) \<le> FINSH_TEXT_MAX" by (simp add: demo_line_def Let_def)
  have e: "eval_line demo_shell demo_platform demo_line (vmem (demo_vm 0)) = Some (42, mem_put Dword 0x1000 6 (\<lambda>a. 0))"
    by (simp add: demo_line_def demo_shell_def demo_platform_def demo_vm_def demo_inc_def low_def mem_get_put del: mem_get.simps mem_put.simps)
  have v: "valid demo_shell (last demo_line) = 32" by (simp add: valid_def demo_line_def demo_shell_def)
  show ?thesis using shell_line_runs [OF t demo_line_shown(2) l e] unfolding v low_Dword demo_line_text by auto
qed

text \<open>
  C10. The heap of the shell for strings: an allocation returns. The block it hands out is new and large enough, shares no byte with an allocated block, and the blocks to which a
  variable points stay allocated with their lengths. It gives the null pointer only when after the release of all other blocks no free block is large enough.
\<close>

theorem shell_heap_allocates:
  assumes "finsh_heap_ok H FS AS" and "unat sz \<le> FINSH_HEAP_MAX + 1"
  shows "\<exists>r m' H'. finsh_heap_allocate sz F m H = Some (r, m', H') \<and>
    (case r of
       None \<Rightarrow> \<exists>FS'. finsh_heap_ok H' FS' {a \<in> AS. var_points F m H a} \<and> (\<forall>a\<in>FS'. unat (fh_length H' a) < unat (HEAP_ALIGN_SIZE sz) + 8)
     | Some d \<Rightarrow> \<exists>h FS' AS'. d = fh_base H + of_nat (h + 8) \<and> finsh_heap_ok H' FS' (insert h AS') \<and> {a \<in> AS. var_points F m H a} \<subseteq> AS' \<and> AS' \<subseteq> AS
         \<and> unat sz \<le> unat (fh_length H' h) \<and> (\<forall>a\<in>AS'. fh_length H' a = fh_length H a
         \<and> (a + 8 + unat (fh_length H' a) \<le> h \<or> h + 8 + unat (fh_length H' h) \<le> a)))"
    (is "\<exists>r m' H'. _ \<and> (case r of None \<Rightarrow> _ H' | Some d \<Rightarrow> ?new d H')")
proof -
  obtain r m' H' where r: "finsh_heap_allocate sz F m H = Some (r, m', H')"
    "case r of
       None \<Rightarrow> m' = m \<and> (\<exists>FS'. finsh_heap_ok H' FS' {a \<in> AS. var_points F m H a} \<and> (\<forall>a\<in>FS'. unat (fh_length H' a) < unat (HEAP_ALIGN_SIZE sz) + 8))
     | Some d \<Rightarrow> (\<exists>h AS'. d = block_address h H \<and> m' = mem_clear d (unat (HEAP_ALIGN_SIZE sz)) m \<and> {a \<in> AS. var_points F m H a} \<subseteq> AS' \<and> AS' \<subseteq> AS \<and> allocated sz H AS' h H')"
    using heap_allocate_ok [OF assms, of F m] by (elim exE conjE) (rule that)
  show ?thesis
  proof (cases r)
    case None
    then show ?thesis using r by auto
  next
    case (Some d)
    then obtain h AS' where h: "d = block_address h H" "{a \<in> AS. var_points F m H a} \<subseteq> AS'" "AS' \<subseteq> AS" "allocated sz H AS' h H'" using r(2) by auto
    then obtain FS' where ok: "finsh_heap_ok H' FS' (insert h AS')" by (auto simp: allocated_def)
    have apart: "a + 8 + unat (fh_length H' a) \<le> h \<or> h + 8 + unat (fh_length H' h) \<le> a" if "a \<in> AS'" for a
      using allocated_apart [OF ok, of a h] that h(4) by (auto simp: allocated_def block_end_def)
    have len: "unat sz \<le> unat (fh_length H' h)" "\<forall>a\<in>AS'. fh_length H' a = fh_length H a" using h(4) by (simp_all add: allocated_def)
    have all: "\<forall>a\<in>AS'. fh_length H' a = fh_length H a \<and> (a + 8 + unat (fh_length H' a) \<le> h \<or> h + 8 + unat (fh_length H' h) \<le> a)" using apart len(2) by blast
    have d: "d = fh_base H + of_nat (h + 8)" using h(1) by (simp add: block_address_def)
    have "?new d H'" using d ok h(2,3) len(1) all by (intro exI [of _ h] exI [of _ FS'] exI [of _ AS'] conjI)
    then show ?thesis using r(1) Some by (intro exI [of _ r] exI [of _ m'] exI [of _ H']) (simp only: option.case simp_thms)
  qed
qed

lemma demo_strings_ok: "finsh_heap_ok demo_strings {0} {}"
proof -
  have "finsh_heap_init demo_strings m = (demo_strings, mem_clear 0x2000 128 m)" for m by (simp add: finsh_heap_init_def demo_strings_def)
  then show ?thesis using heap_init_ok by blast
qed

theorem shell_heap_allocates_witness:
  "\<exists>r m' H'. finsh_heap_allocate 5 demo_shell (\<lambda>_. 0) demo_strings = Some (r, m', H')"
  using shell_heap_allocates [OF demo_strings_ok, of 5 demo_shell "\<lambda>_. 0"] by auto



text \<open>
  C39. The result of a call has no type, so for an operation on it no code is written and no error is reported: the value of \<^verbatim>\<open>f(..) + b\<close> is that of the
  call, for every operator and every right operand, and the value of the right operand stays on the stack.
\<close>

theorem shell_call_operand:
  assumes "well_typed F (CallE g as)" and "well_typed F b" and "depth (CallE g as) \<le> FINSH_STACK_MAX" and "depth b + 1 \<le> FINSH_STACK_MAX"
    and "length (code_of F (CallE g as) @ code_of F b) \<le> FINSH_TEXT_MAX"
    and "eval F P (CallE g as) (vmem s) = Some (v, m1)" and "eval F P b m1 = Some (y, m)"
  shows "\<exists>seg s1 s2. finsh_compiler_run F (tree_of (BinE f (CallE g as) b) NullNode) s = Some (seg, [], s1) \<and> finsh_vm_run P seg s1 = Some s2
    \<and> finsh_stack_bottom s2 = v \<and> finsh_sp s2 = 2 \<and> vmem s2 = m"
  by (rule call_operand [OF assms])

theorem shell_call_operand_witness:
  "\<exists>seg s1 s2. finsh_compiler_run demo_shell (tree_of (BinE Add (CallE demo_inc [IntE 6]) (IntE 1)) NullNode) (demo_vm 0) = Some (seg, [], s1)
    \<and> finsh_vm_run demo_platform seg s1 = Some s2 \<and> finsh_stack_bottom s2 = 7"
proof -
  have "eval demo_shell demo_platform (CallE demo_inc [IntE 6]) (vmem (demo_vm 0)) = Some (7, vmem (demo_vm 0))"
    "eval demo_shell demo_platform (IntE 1) (vmem (demo_vm 0)) = Some (1, vmem (demo_vm 0))"
    by (simp_all add: demo_platform_def demo_inc_def)
  from shell_call_operand [OF _ _ _ _ _ this] show ?thesis by (fastforce simp: valid_def)
qed

text \<open>
  C40. A character on the stack has the upper bytes of what the cell held before, and an addition of four bytes takes them for part of the value: the result of
  \<^verbatim>\<open>k + c\<close> depends on what the previous line left on the stack.
\<close>

theorem shell_stale_operand:
  assumes "i < length (global_variable F)" and "load_width (var_type (global_variable F ! i)) = Some Byte" and "access P Byte (var_value F i)"
  shows "\<exists>seg s1 s2. finsh_compiler_run F (tree_of (BinE Add (IntE k) (VarE (Local i))) NullNode) s = Some (seg, [], s1) \<and> finsh_vm_run P seg s1 = Some s2
    \<and> finsh_stack_bottom s2 = k + (ucast (vmem s (var_value F i)) OR (finsh_vm_stack s 1 AND NOT (mask 8)))"
  by (rule stale_operand [OF assms])

theorem shell_stale_operand_witness:
  "\<exists>seg s1 s2. finsh_compiler_run demo_shell (tree_of (BinE Add (IntE 1) (VarE (Local 1))) NullNode) (demo_vm 0x500) = Some (seg, [], s1)
    \<and> finsh_vm_run demo_platform seg s1 = Some s2 \<and> finsh_stack_bottom s2 = 0x501"
  using shell_stale_operand [of 1 demo_shell demo_platform 1 "demo_vm 0x500"] by (simp add: demo_shell_def demo_platform_def demo_vm_def mask_eq_exp_minus_1)

end
